(* ===== verification/Muscle_Base.thy ===== *)
theory Muscle_Base
  imports Main "HOL-Library.Word"
begin

section \<open>Prelude: bytes, machine integers, C strings and outcomes\<close>

text \<open>
  The vocabulary every theory of the development shares.  It models the parts of
  \<^verbatim>\<open>source/muscle/support/MuscleSupport.h\<close> that the C code of MUSCLE uses (the type
  codes, the little-endian conversions, \<^verbatim>\<open>MakePrettyTypeCodeString\<close>) and the C library
  functions \<^verbatim>\<open>strlen\<close>, \<^verbatim>\<open>strcmp\<close> and \<^verbatim>\<open>memcpy\<close> on explicit blocks of memory.

  A piece of memory is the list of the bytes that may be accessed from a pointer on.  An access
  outside of it is undefined behaviour in C; in the model it is the outcome \<open>Fault\<close>.  A loop
  that has not ended when the fuel is used up has the outcome \<open>Spin\<close>.
\<close>

named_theorems outcome_simps "rewrite rules for the outcome monad"
named_theorems le_simps "round trips and lengths of the little-endian encodings"

type_synonym u8 = "8 word"
type_synonym u16 = "16 word"
type_synonym u32 = "32 word"
type_synonym u64 = "64 word"

subsection \<open>Status codes and outcomes\<close>

datatype status = B_NO_ERROR | B_ERROR

datatype 'a outcome =
    Ok 'a
  | Fault \<comment> \<open>undefined behaviour: an access outside of an object, a use after free\<close>
  | Spin \<comment> \<open>the loop had not ended when the fuel was used up\<close>

definition obind :: "'a outcome \<Rightarrow> ('a \<Rightarrow> 'b outcome) \<Rightarrow> 'b outcome" where
  "obind r k = (case r of Ok a \<Rightarrow> k a | Fault \<Rightarrow> Fault | Spin \<Rightarrow> Spin)"

lemma obind_simps [simp, outcome_simps]:
  "obind (Ok a) k = k a" "obind Fault k = Fault" "obind Spin k = Spin"
  by (simp_all add: obind_def)

lemma obind_cong [fundef_cong]:
  "r = r' \<Longrightarrow> (\<And>a. r' = Ok a \<Longrightarrow> k a = k' a) \<Longrightarrow> obind r k = obind r' k'"
  by (cases r') (auto simp: obind_def)

lemma obind_eq_Ok: "obind r k = Ok b \<longleftrightarrow> (\<exists>a. r = Ok a \<and> k a = Ok b)"
  by (cases r) auto

lemma obind_not_Fault:
  "r \<noteq> Fault \<Longrightarrow> (\<And>a. r = Ok a \<Longrightarrow> k a \<noteq> Fault) \<Longrightarrow> obind r k \<noteq> Fault"
  by (cases r) auto

subsection \<open>Little-endian encodings\<close>

lemma unat_less_exp: "unat (w :: 'a::len word) < 2 ^ LENGTH('a)"
  by (rule unsigned_less)

fun le_enc :: "nat \<Rightarrow> nat \<Rightarrow> u8 list" where
  "le_enc 0 v = []"
| "le_enc (Suc n) v = word_of_nat (v mod 256) # le_enc n (v div 256)"

fun le_dec :: "u8 list \<Rightarrow> nat" where
  "le_dec [] = 0"
| "le_dec (b # bs) = unat b + 256 * le_dec bs"

lemma length_le_enc [simp, le_simps]: "length (le_enc n v) = n"
  by (induction n arbitrary: v) auto

lemma le_dec_less: "le_dec bs < 256 ^ length bs"
proof (induction bs)
  case (Cons b bs)
  have "unat b < 256" using unat_less_exp [of b] by simp
  with Cons have "unat b + 256 * le_dec bs < 256 + 256 * le_dec bs" by simp
  also have "\<dots> = 256 * Suc (le_dec bs)" by simp
  also have "\<dots> \<le> 256 * 256 ^ length bs" using Cons by (intro mult_le_mono2) simp
  finally show ?case by simp
qed simp

lemma le_dec_enc [le_simps]: "le_dec (le_enc n v) = v mod 256 ^ n"
proof (induction n arbitrary: v)
  case (Suc n)
  have "unat (word_of_nat (v mod 256) :: u8) = v mod 256"
    by (simp add: unat_of_nat)
  with Suc show ?case by (simp add: mod_mult2_eq)
qed simp

lemma le_enc_dec [le_simps]: "le_enc (length bs) (le_dec bs) = bs"
proof (induction bs)
  case (Cons b bs)
  have *: "unat b < 256" using unat_less_exp [of b] by simp
  then show ?case using Cons by simp
qed simp

text \<open>
  \<^verbatim>\<open>B_HOST_TO_LENDIAN_INT32(v)\<close> stored to memory, and \<^verbatim>\<open>B_LENDIAN_TO_HOST_INT32\<close> of a loaded
  word: on either kind of host the bytes in memory are those of the value, least significant first.
\<close>

definition u16_le :: "u16 \<Rightarrow> u8 list" where
  "u16_le w = le_enc 2 (unat w)"

definition u32_le :: "u32 \<Rightarrow> u8 list" where
  "u32_le w = le_enc 4 (unat w)"

definition u64_le :: "u64 \<Rightarrow> u8 list" where
  "u64_le w = le_enc 8 (unat w)"

definition le_u16 :: "u8 list \<Rightarrow> u16" where
  "le_u16 bs = word_of_nat (le_dec bs)"

definition le_u32 :: "u8 list \<Rightarrow> u32" where
  "le_u32 bs = word_of_nat (le_dec bs)"

definition le_u64 :: "u8 list \<Rightarrow> u64" where
  "le_u64 bs = word_of_nat (le_dec bs)"

lemma length_u_le [simp, le_simps]:
  "length (u16_le a) = 2" "length (u32_le b) = 4" "length (u64_le c) = 8"
  by (simp_all add: u16_le_def u32_le_def u64_le_def)

lemma le_u_u_le [simp, le_simps]:
  "le_u16 (u16_le a) = a" "le_u32 (u32_le b) = b" "le_u64 (u64_le c) = c"
proof -
  have "unat a mod 256 ^ 2 = unat a" "unat b mod 256 ^ 4 = unat b" "unat c mod 256 ^ 8 = unat c"
    using unat_less_exp [of a] unat_less_exp [of b] unat_less_exp [of c] by simp_all
  then show "le_u16 (u16_le a) = a" "le_u32 (u32_le b) = b" "le_u64 (u64_le c) = c"
    by (simp_all add: le_u16_def u16_le_def le_u32_def u32_le_def le_u64_def u64_le_def le_dec_enc)
qed

lemma u32_le_le_u32 [le_simps]:
  assumes "length bs = 4"
  shows "u32_le (le_u32 bs) = bs"
proof -
  have "le_dec bs < 2 ^ 32" using le_dec_less [of bs] assms by simp
  then have "unat (le_u32 bs) = le_dec bs" by (simp add: le_u32_def unat_of_nat)
  then show ?thesis using le_enc_dec [of bs] assms by (simp add: u32_le_def)
qed

lemma u32_le_inject [simp]: "u32_le a = u32_le b \<longleftrightarrow> a = b"
  by (metis le_u_u_le(2))

lemma u32_le_not_Nil [simp]: "u32_le a \<noteq> []"
  using length_u_le(2) [of a] by force

subsection \<open>Type codes\<close>

definition B_ANY_TYPE :: u32 where "B_ANY_TYPE = 1095653716"
definition B_BOOL_TYPE :: u32 where "B_BOOL_TYPE = 1112493900"
definition B_DOUBLE_TYPE :: u32 where "B_DOUBLE_TYPE = 1145195589"
definition B_FLOAT_TYPE :: u32 where "B_FLOAT_TYPE = 1179406164"
definition B_INT64_TYPE :: u32 where "B_INT64_TYPE = 1280069191"
definition B_INT32_TYPE :: u32 where "B_INT32_TYPE = 1280265799"
definition B_INT16_TYPE :: u32 where "B_INT16_TYPE = 1397248596"
definition B_INT8_TYPE :: u32 where "B_INT8_TYPE = 1113150533"
definition B_MESSAGE_TYPE :: u32 where "B_MESSAGE_TYPE = 1297303367"
definition B_POINTER_TYPE :: u32 where "B_POINTER_TYPE = 1347310674"
definition B_POINT_TYPE :: u32 where "B_POINT_TYPE = 1112559188"
definition B_RECT_TYPE :: u32 where "B_RECT_TYPE = 1380270932"
definition B_STRING_TYPE :: u32 where "B_STRING_TYPE = 1129534546"
definition B_RAW_TYPE :: u32 where "B_RAW_TYPE = 1380013908"

lemmas type_code_defs = B_ANY_TYPE_def B_BOOL_TYPE_def B_DOUBLE_TYPE_def B_FLOAT_TYPE_def
  B_INT64_TYPE_def B_INT32_TYPE_def B_INT16_TYPE_def B_INT8_TYPE_def B_MESSAGE_TYPE_def
  B_POINTER_TYPE_def B_POINT_TYPE_def B_RECT_TYPE_def B_STRING_TYPE_def B_RAW_TYPE_def

definition CURRENT_PROTOCOL_VERSION :: u32 where "CURRENT_PROTOCOL_VERSION = 1347235888"
definition OLDEST_SUPPORTED_PROTOCOL_VERSION :: u32 where
  "OLDEST_SUPPORTED_PROTOCOL_VERSION = 1347235888"
definition MUSCLE_MESSAGE_ENCODING_DEFAULT :: u32 where
  "MUSCLE_MESSAGE_ENCODING_DEFAULT = 1164862256"

text \<open>
  \<^verbatim>\<open>MakePrettyTypeCodeString\<close>: the four bytes of the code, most significant first, with
  everything outside \<^verbatim>\<open>' '..'~'\<close> (as a signed \<^verbatim>\<open>char\<close>, so also every byte from 128 on) shown
  as a question mark, and a terminating zero.
\<close>

definition MakePrettyTypeCodeString :: "u32 \<Rightarrow> u8 list" where
  "MakePrettyTypeCodeString typecode =
     map (\<lambda>b. if unat b < 32 \<or> unat b > 126 then 63 else b) (rev (u32_le typecode)) @ [0]"

subsection \<open>Memory blocks and C strings\<close>

definition mem_read :: "u8 list \<Rightarrow> nat \<Rightarrow> nat \<Rightarrow> u8 list outcome" where
  "mem_read mem off n = (if off + n \<le> length mem then Ok (take n (drop off mem)) else Fault)"

definition mem_write :: "u8 list \<Rightarrow> nat \<Rightarrow> u8 list \<Rightarrow> u8 list outcome" where
  "mem_write mem off bs =
     (if off + length bs \<le> length mem
      then Ok (take off mem @ bs @ drop (off + length bs) mem) else Fault)"

fun strlen :: "u8 list \<Rightarrow> nat outcome" where
  "strlen [] = Fault"
| "strlen (c # cs) = (if c = 0 then Ok 0 else obind (strlen cs) (\<lambda>n. Ok (Suc n)))"

text \<open>\<^verbatim>\<open>strcmp(a, b) == 0\<close>: it reads both blocks up to the first difference or zero.\<close>

fun strcmp_eq :: "u8 list \<Rightarrow> u8 list \<Rightarrow> bool outcome" where
  "strcmp_eq (a # as) (b # bs) =
     (if a \<noteq> b then Ok False else if a = 0 then Ok True else strcmp_eq as bs)"
| "strcmp_eq _ _ = Fault"

definition cstr :: "u8 list \<Rightarrow> u8 list" where
  "cstr mem = takeWhile (\<lambda>c. c \<noteq> 0) mem"

definition is_cstr :: "u8 list \<Rightarrow> bool" where
  "is_cstr mem \<longleftrightarrow> 0 \<in> set mem"

lemma strlen_cstr: "is_cstr mem \<Longrightarrow> strlen mem = Ok (length (cstr mem))"
  by (induction mem) (auto simp: is_cstr_def cstr_def)

lemma strlen_Fault: "\<not> is_cstr mem \<Longrightarrow> strlen mem = Fault"
  by (induction mem) (auto simp: is_cstr_def)

lemma strcmp_eq_cstr:
  "is_cstr a \<Longrightarrow> is_cstr b \<Longrightarrow> strcmp_eq a b = Ok (cstr a = cstr b)"
  by (induction a b rule: strcmp_eq.induct) (auto simp: is_cstr_def cstr_def)

lemma take_cstr: "is_cstr mem \<Longrightarrow> take (Suc (length (cstr mem))) mem = cstr mem @ [0]"
  by (induction mem) (auto simp: is_cstr_def cstr_def)

lemma is_cstr_append [simp]: "is_cstr (s @ [0])" "is_cstr a \<Longrightarrow> is_cstr (a @ b)"
  by (auto simp: is_cstr_def)

lemma cstr_append: "0 \<notin> set s \<Longrightarrow> cstr (s @ 0 # t) = s"
  by (induction s) (auto simp: cstr_def)

lemma zero_notin_cstr [simp]: "0 \<notin> set (cstr mem)"
  by (auto simp: cstr_def dest: set_takeWhileD)

lemma cstr_prefix: "is_cstr a \<Longrightarrow> cstr (a @ b) = cstr a"
  by (induction a) (auto simp: is_cstr_def cstr_def)

lemma length_mem_write: "mem_write mem off bs = Ok mem' \<Longrightarrow> length mem' = length mem"
  by (auto simp: mem_write_def split: if_splits)

lemma mem_read_append_left [simp]:
  "mem_read (a @ b @ c) (length a) (length b) = Ok b"
  by (simp add: mem_read_def)

lemma mem_read_write:
  "mem_write mem off bs = Ok mem' \<Longrightarrow> mem_read mem' off (length bs) = Ok bs"
proof -
  assume "mem_write mem off bs = Ok mem'"
  then have *: "off + length bs \<le> length mem"
    and "mem' = take off mem @ bs @ drop (off + length bs) mem"
    by (simp_all add: mem_write_def split: if_splits)
  moreover have "length (take off mem) = off" using * by simp
  ultimately show ?thesis by (metis mem_read_append_left)
qed

subsection \<open>Arithmetic of 32-bit words\<close>

lemma unat_add_no_wrap: "unat (a :: u32) + unat b < 2 ^ 32 \<Longrightarrow> unat (a + b) = unat a + unat b"
  by (simp add: unat_word_ariths)

lemma unat_mult_no_wrap: "unat (a :: u32) * unat b < 2 ^ 32 \<Longrightarrow> unat (a * b) = unat a * unat b"
  by (simp add: unat_word_ariths)

lemma unat_sub_le: "b \<le> a \<Longrightarrow> unat ((a :: u32) - b) = unat a - unat b"
  by (simp add: unat_sub)

lemma unat_word_of_nat_u32: "n < 2 ^ 32 \<Longrightarrow> unat (word_of_nat n :: u32) = n"
  by (simp add: unat_of_nat)

lemma le_iff_unat: "(a :: u32) \<le> b \<longleftrightarrow> unat a \<le> unat b"
  by (simp add: word_le_nat_alt)

lemma less_iff_unat: "(a :: u32) < b \<longleftrightarrow> unat a < unat b"
  by (simp add: word_less_nat_alt)

lemma unat_u32_less: "unat (a :: u32) < 2 ^ 32"
  using unat_less_exp [of a] by simp

subsection \<open>32-bit indices, arrays and counting loops\<close>

text \<open>
  Indices and counts that the code keeps in a \<^verbatim>\<open>uint32\<close> are natural numbers below \<open>2 ^ 32\<close>, with the
  wrap-around of its sums and differences written out.  An array access outside of the array is the
  outcome \<open>Fault\<close>.
\<close>

definition add32 :: "nat \<Rightarrow> nat \<Rightarrow> nat" where "add32 a b = (a + b) mod 2 ^ 32"
definition sub32 :: "nat \<Rightarrow> nat \<Rightarrow> nat" where "sub32 a b = (a + 2 ^ 32 - b) mod 2 ^ 32"

definition rd :: "'a list \<Rightarrow> nat \<Rightarrow> 'a outcome" where
  "rd xs i = (if i < length xs then Ok (xs ! i) else Fault)"

definition wr :: "'a list \<Rightarrow> nat \<Rightarrow> 'a \<Rightarrow> 'a list outcome" where
  "wr xs i v = (if i < length xs then Ok (xs[i := v]) else Fault)"

text \<open>\<^verbatim>\<open>for (i=a; i<b; i++)\<close> and \<^verbatim>\<open>for (i=b-1; i>=a; i--)\<close>.\<close>

function for_up :: "nat \<Rightarrow> nat \<Rightarrow> (nat \<Rightarrow> 's \<Rightarrow> 's outcome) \<Rightarrow> 's \<Rightarrow> 's outcome" where
  "for_up a b f s = (if a < b then obind (f a s) (for_up (Suc a) b f) else Ok s)"
  by auto
termination by (relation "measure (\<lambda>(a, b, f, s). b - a)") auto

fun for_down :: "nat \<Rightarrow> nat \<Rightarrow> (nat \<Rightarrow> 's \<Rightarrow> 's outcome) \<Rightarrow> 's \<Rightarrow> 's outcome" where
  "for_down a 0 f s = Ok s"
| "for_down a (Suc b) f s = (if a \<le> b then obind (f b s) (for_down a b f) else Ok s)"

declare for_up.simps [simp del]

lemma add32_small [simp]: "a + b < 2 ^ 32 \<Longrightarrow> add32 a b = a + b"
  by (simp add: add32_def)

lemma sub32_small [simp]: "b \<le> a \<Longrightarrow> a < 2 ^ 32 \<Longrightarrow> sub32 a b = a - b"
  by (simp add: sub32_def mod_if)

lemma rd_ok [simp]: "i < length xs \<Longrightarrow> rd xs i = Ok (xs ! i)"
  by (simp add: rd_def)

lemma wr_ok [simp]: "i < length xs \<Longrightarrow> wr xs i v = Ok (xs[i := v])"
  by (simp add: wr_def)

lemma for_up_step: "a < b \<Longrightarrow> for_up a b f s = obind (f a s) (for_up (Suc a) b f)"
  by (subst for_up.simps) simp

lemma for_up_end [simp]: "b \<le> a \<Longrightarrow> for_up a b f s = Ok s"
  by (subst for_up.simps) simp

lemma for_down_end [simp]: "b \<le> a \<Longrightarrow> for_down a b f s = Ok s"
  by (cases b) simp_all

text \<open>Induction over the two kinds of loops.\<close>

lemma for_up_induct:
  assumes "a \<le> b" "P a s" "\<And>i s. a \<le> i \<Longrightarrow> i < b \<Longrightarrow> P i s \<Longrightarrow> \<exists>s'. f i s = Ok s' \<and> P (Suc i) s'"
  shows "\<exists>s'. for_up a b f s = Ok s' \<and> P b s'"
  using assms
proof (induction "b - a" arbitrary: a s)
  case (Suc n)
  then obtain s' where "f a s = Ok s'" "P (Suc a) s'" by (metis diff_is_0_eq' le_refl nat_le_linear not_less_eq_eq zero_less_Suc zero_less_diff)
  moreover have "\<exists>t. for_up (Suc a) b f s' = Ok t \<and> P b t"
    using Suc calculation(2) by (intro Suc.hyps(1)) auto
  ultimately show ?case using Suc.hyps(2) by (auto simp: for_up_step)
qed simp

lemma for_down_induct:
  assumes "a \<le> b" "P b s" "\<And>i s. a \<le> i \<Longrightarrow> i < b \<Longrightarrow> P (Suc i) s \<Longrightarrow> \<exists>s'. f i s = Ok s' \<and> P i s'"
  shows "\<exists>s'. for_down a b f s = Ok s' \<and> P a s'"
  using assms
proof (induction b arbitrary: s)
  case (Suc b)
  show ?case
  proof (cases "a \<le> b")
    case True
    obtain s' where "f b s = Ok s'" "P b s'" using Suc.prems(3) [OF True _ Suc.prems(2)] by auto
    moreover have "\<exists>t. for_down a b f s' = Ok t \<and> P a t"
      using Suc.prems(3) calculation(2) True by (intro Suc.IH) auto
    ultimately show ?thesis using True by auto
  next
    case False
    with Suc.prems have "a = Suc b" by simp
    with Suc.prems show ?thesis by simp
  qed
qed simp

end
