(* ===== verification/Mini_Message.thy ===== *)
theory Mini_Message
  imports Muscle_Base
begin

section \<open>MiniMessage: the data model\<close>

text \<open>
  The data of \<^verbatim>\<open>source/muscle/minimessage/MiniMessage.c\<close>: byte buffers, fields and Messages,
  with the functions that allocate, clone, compare and free them.

  A \<^verbatim>\<open>MMessage\<close> owns a doubly linked list of \<^verbatim>\<open>MMessageField\<close> blocks; the model has the list
  of the fields in the order from \<^verbatim>\<open>firstField\<close> to \<^verbatim>\<open>lastField\<close> (theory \<open>Mini_List\<close> proves
  the pointer operations equal to the list operations used here), so \<^verbatim>\<open>numFields\<close> is its length.
  A field block holds its name (with the terminating zero, \<^verbatim>\<open>nameBytes\<close> is its length), its type
  code, \<^verbatim>\<open>itemSize\<close>, \<^verbatim>\<open>numItems\<close> and the data: the raw bytes of a fixed-size field, or the
  pointer slots of a variable-size one, \<open>None\<close> for a NULL pointer.  \<^verbatim>\<open>isFixedSize\<close> is the
  constructor of the data.  The number of slots is the number that was really allocated, which is
  not \<^verbatim>\<open>numItems\<close> when the 32-bit product \<^verbatim>\<open>numItems*itemSize\<close> wraps around.

  The allocator is the parameter \<open>am\<close> of the functions that allocate: \<open>am n\<close> says whether
  \<^verbatim>\<open>malloc(n)\<close> succeeds.  Sizes are those of a 64-bit target.
\<close>

type_synonym alloc = "nat \<Rightarrow> bool"

datatype MMessage =
    MMsg (mm_what: u32) (mm_fields: "MMessageField list")
and MMessageField =
    MField (mf_name: "u8 list") (mf_typeCode: u32) (mf_itemSize: u32) (mf_numItems: u32)
      (mf_data: MData) (mf_isFlattenable: bool)
and MData =
    FixedData "u8 list"
  | BufData "u8 list option list"
  | MsgData "MMessage option list"

definition sizeof_MMessage :: nat where "sizeof_MMessage = 32"
definition sizeof_MMessageField :: nat where "sizeof_MMessageField = 64"
definition sizeof_ptr :: u32 where "sizeof_ptr = 8"

subsection \<open>Byte buffers\<close>

text \<open>A buffer is the list of its \<^verbatim>\<open>numBytes\<close> bytes; the block has 7 bytes of overhead.\<close>

definition MBAllocByteBuffer :: "alloc \<Rightarrow> u32 \<Rightarrow> u8 list \<Rightarrow> u8 list option" where
  \<comment> \<open>\<open>garbage\<close>: what the block holds; \<^verbatim>\<open>clearBytes\<close> makes it zeros\<close>
  "MBAllocByteBuffer am numBytes garbage =
     (if am (8 + unat numBytes - 1)
      then Some (take (unat numBytes) (garbage @ replicate (unat numBytes) 0)) else None)"

definition MBStrdupByteBuffer :: "alloc \<Rightarrow> u8 list \<Rightarrow> u8 list option outcome" where
  "MBStrdupByteBuffer am sourceString =
     obind (strlen sourceString) (\<lambda>n.
     let slen = n + 1 in
     Ok (if MBAllocByteBuffer am (word_of_nat slen) [] = None then None
         else Some (take slen sourceString)))"

definition MBCloneByteBuffer :: "alloc \<Rightarrow> u8 list \<Rightarrow> u8 list option" where
  "MBCloneByteBuffer am cloneMe =
     (case MBAllocByteBuffer am (word_of_nat (length cloneMe)) [] of
        None \<Rightarrow> None
      | Some mbb \<Rightarrow> Some (take (length mbb) cloneMe))"

definition MBAreByteBuffersEqual :: "u8 list \<Rightarrow> u8 list \<Rightarrow> bool" where
  "MBAreByteBuffersEqual buf1 buf2 \<longleftrightarrow> length buf1 = length buf2 \<and> buf1 = buf2"

subsection \<open>Fields\<close>

text \<open>
  The first \<^verbatim>\<open>numItems\<close> slots of an array: reading them is out of bounds when fewer were
  allocated.  The loops that free or clone the items count down in an \<^verbatim>\<open>int32\<close>, which starts
  negative for more than \<open>2 ^ 31\<close> items.
\<close>

definition slots :: "u32 \<Rightarrow> 'a list \<Rightarrow> 'a list outcome" where
  "slots numItems xs = (if unat numItems \<le> length xs then Ok (take (unat numItems) xs) else Fault)"

definition int32_slots :: "u32 \<Rightarrow> 'a list \<Rightarrow> 'a list outcome" where
  "int32_slots numItems xs = (if 2 ^ 31 < unat numItems then Ok [] else slots numItems xs)"

lemma slots_wf [simp]: "length xs = unat n \<Longrightarrow> slots n xs = Ok xs"
  by (simp add: slots_def)

text \<open>
  \<^verbatim>\<open>AllocMMessageField\<close>: both sums are 32-bit (\<^verbatim>\<open>allocSize\<close> and \<^verbatim>\<open>dataSize\<close> are
  \<^verbatim>\<open>uint32\<close>).  When \<^verbatim>\<open>allocSize\<close> wraps the block is smaller than what is then written to it.
  The last name byte is overwritten with a zero; with no name bytes the index of that byte wraps around,
  and the zero is written four gigabytes behind the block.
\<close>

definition terminate_name :: "u8 list \<Rightarrow> u8 list" where
  "terminate_name nm = (if nm = [] then [] else butlast nm @ [0])"

definition AllocMMessageField ::
    "alloc \<Rightarrow> u8 list \<Rightarrow> u32 \<Rightarrow> u32 \<Rightarrow> u32 \<Rightarrow> MMessageField option outcome" where
  "AllocMMessageField am nameMem typeCode numItems itemSize =
     (if 0 < numItems then
        let dataSize = numItems * itemSize;
            needed = sizeof_MMessageField + unat dataSize + length nameMem;
            allocSize = word_of_nat needed :: u32
        in if am (unat allocSize) then
             if needed < 2 ^ 32 \<and> nameMem \<noteq> []
             then Ok (Some (MField (terminate_name nameMem) typeCode itemSize numItems
                        (FixedData (replicate (unat dataSize) 0)) True))
             else Fault
           else Ok None
      else Ok None)"

text \<open>\<^verbatim>\<open>isFixedSize = MFalse\<close>: the zeroed block is read as an array of NULL pointers.\<close>

definition as_buf_slots :: "MMessageField \<Rightarrow> MMessageField" where
  "as_buf_slots f = MField (mf_name f) (mf_typeCode f) (mf_itemSize f) (mf_numItems f)
     (BufData (replicate (unat (mf_numItems f * mf_itemSize f) div 8) None)) (mf_isFlattenable f)"

definition as_msg_slots :: "MMessageField \<Rightarrow> MMessageField" where
  "as_msg_slots f = MField (mf_name f) (mf_typeCode f) (mf_itemSize f) (mf_numItems f)
     (MsgData (replicate (unat (mf_numItems f * mf_itemSize f) div 8) None)) (mf_isFlattenable f)"

definition set_data :: "MData \<Rightarrow> MMessageField \<Rightarrow> MMessageField" where
  "set_data d f = MField (mf_name f) (mf_typeCode f) (mf_itemSize f) (mf_numItems f) d
     (mf_isFlattenable f)"

definition set_flattenable :: "bool \<Rightarrow> MMessageField \<Rightarrow> MMessageField" where
  "set_flattenable b f = MField (mf_name f) (mf_typeCode f) (mf_itemSize f) (mf_numItems f)
     (mf_data f) b"

definition set_name :: "u8 list \<Rightarrow> MMessageField \<Rightarrow> MMessageField" where
  "set_name nm f = MField nm (mf_typeCode f) (mf_itemSize f) (mf_numItems f) (mf_data f)
     (mf_isFlattenable f)"

definition field_allocSize :: "MMessageField \<Rightarrow> u32" where
  "field_allocSize f = word_of_nat (sizeof_MMessageField
     + unat (mf_numItems f * mf_itemSize f) + length (mf_name f))"

definition IsTypeCodeVariableSize :: "u32 \<Rightarrow> bool" where
  "IsTypeCodeVariableSize typeCode =
     (if typeCode \<in> {B_BOOL_TYPE, B_DOUBLE_TYPE, B_FLOAT_TYPE, B_INT64_TYPE, B_INT32_TYPE,
          B_INT16_TYPE, B_INT8_TYPE, B_POINTER_TYPE, B_POINT_TYPE, B_RECT_TYPE}
      then False else True)"

text \<open>The size of one item of the fixed-size types, by the \<^verbatim>\<open>sizeof\<close> of their C types.\<close>

definition type_item_size :: "u32 \<Rightarrow> u32" where
  "type_item_size tc =
     (if tc = B_BOOL_TYPE \<or> tc = B_INT8_TYPE then 1
      else if tc = B_INT16_TYPE then 2
      else if tc = B_INT32_TYPE \<or> tc = B_FLOAT_TYPE then 4
      else if tc = B_RECT_TYPE then 16
      else 8)"

lemma IsTypeCodeVariableSize_simps [simp]:
  "\<not> IsTypeCodeVariableSize B_BOOL_TYPE" "\<not> IsTypeCodeVariableSize B_DOUBLE_TYPE"
  "\<not> IsTypeCodeVariableSize B_FLOAT_TYPE" "\<not> IsTypeCodeVariableSize B_INT64_TYPE"
  "\<not> IsTypeCodeVariableSize B_INT32_TYPE" "\<not> IsTypeCodeVariableSize B_INT16_TYPE"
  "\<not> IsTypeCodeVariableSize B_INT8_TYPE" "\<not> IsTypeCodeVariableSize B_POINTER_TYPE"
  "\<not> IsTypeCodeVariableSize B_POINT_TYPE" "\<not> IsTypeCodeVariableSize B_RECT_TYPE"
  "IsTypeCodeVariableSize B_MESSAGE_TYPE" "IsTypeCodeVariableSize B_STRING_TYPE"
  "IsTypeCodeVariableSize B_RAW_TYPE"
  by (simp_all add: IsTypeCodeVariableSize_def type_code_defs)

subsection \<open>Messages\<close>

definition MMAllocMessage :: "alloc \<Rightarrow> u32 \<Rightarrow> MMessage option" where
  "MMAllocMessage am w = (if am sizeof_MMessage then Some (MMsg w []) else None)"

definition MMGetWhat :: "MMessage \<Rightarrow> u32" where
  "MMGetWhat msg = mm_what msg"

definition MMSetWhat :: "MMessage \<Rightarrow> u32 \<Rightarrow> MMessage" where
  "MMSetWhat msg newWhat = MMsg newWhat (mm_fields msg)"

text \<open>
  Freeing: the blocks are gone, so what is left is whether the walk over them stays within them.
\<close>

fun MMFreeMessage :: "MMessage \<Rightarrow> unit outcome"
and FreeFields :: "MMessageField list \<Rightarrow> unit outcome"
and FreeMMessageField :: "MMessageField \<Rightarrow> unit outcome"
and FreeSlots :: "MMessage option list \<Rightarrow> unit outcome"
where
  "MMFreeMessage (MMsg w fs) = FreeFields fs"
| "FreeFields [] = Ok ()"
| "FreeFields (f # fs) = obind (FreeMMessageField f) (\<lambda>_. FreeFields fs)"
| "FreeMMessageField (MField nm tc isz n (FixedData bs) fl) = Ok ()"
| "FreeMMessageField (MField nm tc isz n (BufData bufs) fl) =
     obind (int32_slots n bufs) (\<lambda>_. Ok ())"
| "FreeMMessageField (MField nm tc isz n (MsgData msgs) fl) =
     (if 2 ^ 31 < unat n then Ok () else if length msgs < unat n then Fault else FreeSlots msgs)"
| "FreeSlots [] = Ok ()"
| "FreeSlots (None # ms) = FreeSlots ms"
| "FreeSlots (Some m # ms) = obind (FreeSlots ms) (\<lambda>_. MMFreeMessage m)"

definition MMClearMessage :: "MMessage \<Rightarrow> MMessage outcome" where
  "MMClearMessage msg = obind (FreeFields (mm_fields msg)) (\<lambda>_. Ok (MMsg (mm_what msg) []))"

text \<open>
  Cloning goes over the items from the last to the first; a failed allocation frees what was
  cloned so far and gives NULL.
\<close>

definition CloneBufSlots :: "alloc \<Rightarrow> u8 list option list \<Rightarrow> u8 list option list option" where
  "CloneBufSlots am bufs =
     (if \<forall>b \<in> set bufs. (case b of None \<Rightarrow> True | Some x \<Rightarrow> MBCloneByteBuffer am x \<noteq> None)
      then Some (map (\<lambda>b. Option.bind b (MBCloneByteBuffer am)) bufs) else None)"

fun MMCloneMessage :: "alloc \<Rightarrow> MMessage \<Rightarrow> MMessage option outcome"
and CloneFields :: "alloc \<Rightarrow> MMessageField list \<Rightarrow> MMessageField list option outcome"
and CloneMMessageField :: "alloc \<Rightarrow> MMessageField \<Rightarrow> MMessageField option outcome"
and CloneSlots :: "alloc \<Rightarrow> MMessage option list \<Rightarrow> MMessage option list option outcome"
where
  "MMCloneMessage am (MMsg w fs) =
     (if am sizeof_MMessage
      then obind (CloneFields am fs) (\<lambda>r. Ok (map_option (MMsg w) r))
      else Ok None)"
| "CloneFields am [] = Ok (Some [])"
| "CloneFields am (f # fs) =
     obind (CloneMMessageField am f) (\<lambda>r.
     case r of
       None \<Rightarrow> Ok None
     | Some g \<Rightarrow> obind (CloneFields am fs) (\<lambda>rs. Ok (map_option (Cons g) rs)))"
| "CloneMMessageField am (MField nm tc isz n (FixedData bs) fl) =
     (if am (unat (field_allocSize (MField nm tc isz n (FixedData bs) fl)))
      then Ok (Some (MField nm tc isz n (FixedData bs) fl)) else Ok None)"
| "CloneMMessageField am (MField nm tc isz n (BufData bufs) fl) =
     (if am (unat (field_allocSize (MField nm tc isz n (BufData bufs) fl)))
      then if 2 ^ 31 < unat n then Fault \<comment> \<open>the slots of the clone stay uninitialised\<close>
           else obind (slots n bufs) (\<lambda>_.
             Ok (map_option (\<lambda>bs. MField nm tc isz n (BufData bs) fl) (CloneBufSlots am bufs)))
      else Ok None)"
| "CloneMMessageField am (MField nm tc isz n (MsgData msgs) fl) =
     (if am (unat (field_allocSize (MField nm tc isz n (MsgData msgs) fl)))
      then if 2 ^ 31 < unat n then Fault
           else if length msgs < unat n then Fault
           else obind (CloneSlots am msgs) (\<lambda>r.
             Ok (map_option (\<lambda>ms. MField nm tc isz n (MsgData ms) fl) r))
      else Ok None)"
| "CloneSlots am [] = Ok (Some [])"
| "CloneSlots am (None # ms) = obind (CloneSlots am ms) (\<lambda>r. Ok (map_option (Cons None) r))"
| "CloneSlots am (Some m # ms) =
     obind (CloneSlots am ms) (\<lambda>r.
     case r of
       None \<Rightarrow> Ok None
     | Some ms' \<Rightarrow> obind (MMCloneMessage am m) (\<lambda>q. Ok (map_option (\<lambda>m'. Some m' # ms') q)))"

subsection \<open>Well-formedness\<close>

text \<open>
  What the functions of the API keep: field names are C strings with exactly one zero, the data
  has the shape of the type code, every slot counted by \<^verbatim>\<open>numItems\<close> is there and the block
  has a size below \<open>2 ^ 32\<close>.  The names within one Message are distinct.
\<close>

definition wf_name :: "u8 list \<Rightarrow> bool" where
  "wf_name nm \<longleftrightarrow> nm \<noteq> [] \<and> last nm = 0 \<and> 0 \<notin> set (butlast nm)"

definition wf_head :: "MMessageField \<Rightarrow> bool" where
  "wf_head f \<longleftrightarrow> wf_name (mf_name f) \<and> 0 < mf_numItems f
     \<and> sizeof_MMessageField + unat (mf_numItems f) * unat (mf_itemSize f)
         + length (mf_name f) < 2 ^ 32
     \<and> mf_itemSize f = (if IsTypeCodeVariableSize (mf_typeCode f) then sizeof_ptr
                        else type_item_size (mf_typeCode f))
     \<and> (mf_isFlattenable f \<longleftrightarrow> mf_typeCode f \<noteq> B_POINTER_TYPE)"

definition wf_buf :: "u8 list option \<Rightarrow> bool" where
  "wf_buf b = (case b of None \<Rightarrow> True | Some x \<Rightarrow> length x < 2 ^ 32)"

fun wf_msg :: "MMessage \<Rightarrow> bool"
and wf_fields :: "MMessageField list \<Rightarrow> bool"
and wf_field :: "MMessageField \<Rightarrow> bool"
and wf_slots :: "MMessage option list \<Rightarrow> bool"
where
  "wf_msg (MMsg w fs) = (wf_fields fs \<and> distinct (map (\<lambda>f. cstr (mf_name f)) fs))"
| "wf_fields [] = True"
| "wf_fields (f # fs) = (wf_field f \<and> wf_fields fs)"
| "wf_field (MField nm tc isz n (FixedData bs) fl) =
     (wf_head (MField nm tc isz n (FixedData bs) fl)
      \<and> \<not> IsTypeCodeVariableSize tc \<and> length bs = unat n * unat isz)"
| "wf_field (MField nm tc isz n (BufData bufs) fl) =
     (wf_head (MField nm tc isz n (BufData bufs) fl)
      \<and> IsTypeCodeVariableSize tc \<and> tc \<noteq> B_MESSAGE_TYPE \<and> length bufs = unat n
      \<and> list_all wf_buf bufs)"
| "wf_field (MField nm tc isz n (MsgData msgs) fl) =
     (wf_head (MField nm tc isz n (MsgData msgs) fl)
      \<and> tc = B_MESSAGE_TYPE \<and> length msgs = unat n \<and> wf_slots msgs)"
| "wf_slots [] = True"
| "wf_slots (None # ms) = wf_slots ms"
| "wf_slots (Some m # ms) = (wf_msg m \<and> wf_slots ms)"

lemmas MMessage_induct = wf_msg_wf_fields_wf_field_wf_slots.induct

lemma wf_fields_iff: "wf_fields fs \<longleftrightarrow> (\<forall>f \<in> set fs. wf_field f)"
  by (induction fs) auto

lemma wf_slots_iff: "wf_slots ms \<longleftrightarrow> (\<forall>m. Some m \<in> set ms \<longrightarrow> wf_msg m)"
  proof (induction ms)
  case (Cons x ms)
  then show ?case by (cases x) auto
qed simp

lemma wf_field_head: "wf_field f \<Longrightarrow> wf_head f"
  by (cases f rule: wf_field.cases) auto

lemma wf_name_cstr: "wf_name nm \<Longrightarrow> nm = cstr nm @ [0] \<and> is_cstr nm"
proof -
  assume *: "wf_name nm"
  then have "nm = butlast nm @ [0]" "0 \<notin> set (butlast nm)"
    by (auto simp: wf_name_def) (metis append_butlast_last_id)
  then have "cstr nm = butlast nm" by (metis cstr_append)
  with \<open>nm = butlast nm @ [0]\<close> show ?thesis by (metis is_cstr_append(1))
qed

lemma wf_numItems_bound:
  assumes "wf_head f" "IsTypeCodeVariableSize (mf_typeCode f)"
  shows "unat (mf_numItems f) < 2 ^ 29"
  using assms by (auto simp: wf_head_def sizeof_ptr_def)

lemma wf_name_append_zero [simp]: "wf_name (s @ [0]) \<longleftrightarrow> 0 \<notin> set s"
  by (simp add: wf_name_def)

lemma terminate_name_zero [simp]: "terminate_name (s @ [0]) = s @ [0]"
  by (simp add: terminate_name_def)

subsection \<open>Cloning and freeing\<close>

lemma MBCloneByteBuffer_eq:
  "length x < 2 ^ 32 \<Longrightarrow> MBCloneByteBuffer am x = (if am (8 + length x - 1) then Some x else None)"
  by (simp add: MBCloneByteBuffer_def MBAllocByteBuffer_def unat_word_of_nat_u32)

lemma CloneBufSlots_eq:
  assumes "list_all wf_buf bufs" "CloneBufSlots am bufs = Some r"
  shows "r = bufs"
proof -
  have *: "Option.bind b (MBCloneByteBuffer am) = b" if "b \<in> set bufs" for b
    using assms that
    by (cases b)
      (auto simp: CloneBufSlots_def list_all_iff wf_buf_def MBCloneByteBuffer_eq
        split: if_splits option.splits)
  then have "map (\<lambda>b. Option.bind b (MBCloneByteBuffer am)) bufs = bufs"
    by (simp add: map_idI)
  with assms(2) show ?thesis by (auto simp: CloneBufSlots_def split: if_splits)
qed

lemma CloneBufSlots_total:
  "list_all wf_buf bufs \<Longrightarrow> CloneBufSlots (\<lambda>_. True) bufs = Some bufs"
  using CloneBufSlots_eq [of bufs "\<lambda>_. True"]
  by (auto simp: CloneBufSlots_def list_all_iff wf_buf_def MBCloneByteBuffer_eq split: option.splits)

text \<open>A clone is NULL or equal to the original; it is NULL only where an allocation failed.\<close>

lemma clone_wf:
  "wf_msg m \<Longrightarrow> MMCloneMessage am m \<in> {Ok None, Ok (Some m)}"
  "wf_fields fs \<Longrightarrow> CloneFields am fs \<in> {Ok None, Ok (Some fs)}"
  "wf_field f \<Longrightarrow> CloneMMessageField am f \<in> {Ok None, Ok (Some f)}"
  "wf_slots ms \<Longrightarrow> CloneSlots am ms \<in> {Ok None, Ok (Some ms)}"
proof (induction m and fs and f and ms rule: MMessage_induct)
  case (5 nm tc isz n bufs fl)
  then have "unat n < 2 ^ 29"
    using wf_numItems_bound [of "MField nm tc isz n (BufData bufs) fl"] by simp
  moreover have "CloneBufSlots am bufs = None \<or> CloneBufSlots am bufs = Some bufs"
    using 5 CloneBufSlots_eq [of bufs am] by (cases "CloneBufSlots am bufs") auto
  ultimately show ?case using 5 by auto
next
  case (6 nm tc isz n msgs fl)
  then have "unat n < 2 ^ 29"
    using wf_numItems_bound [of "MField nm tc isz n (MsgData msgs) fl"] by auto
  then show ?case using 6 by auto
qed auto

lemma clone_total:
  "wf_msg m \<Longrightarrow> MMCloneMessage (\<lambda>_. True) m = Ok (Some m)"
  "wf_fields fs \<Longrightarrow> CloneFields (\<lambda>_. True) fs = Ok (Some fs)"
  "wf_field f \<Longrightarrow> CloneMMessageField (\<lambda>_. True) f = Ok (Some f)"
  "wf_slots ms \<Longrightarrow> CloneSlots (\<lambda>_. True) ms = Ok (Some ms)"
proof (induction m and fs and f and ms rule: MMessage_induct)
  case (5 nm tc isz n bufs fl)
  then have "unat n < 2 ^ 29"
    using wf_numItems_bound [of "MField nm tc isz n (BufData bufs) fl"] by simp
  then show ?case using 5 by (auto simp: CloneBufSlots_total)
next
  case (6 nm tc isz n msgs fl)
  then have "unat n < 2 ^ 29"
    using wf_numItems_bound [of "MField nm tc isz n (MsgData msgs) fl"] by auto
  then show ?case using 6 by auto
qed auto

lemma free_wf:
  "wf_msg m \<Longrightarrow> MMFreeMessage m = Ok ()"
  "wf_fields fs \<Longrightarrow> FreeFields fs = Ok ()"
  "wf_field f \<Longrightarrow> FreeMMessageField f = Ok ()"
  "wf_slots ms \<Longrightarrow> FreeSlots ms = Ok ()"
  by (induction m and fs and f and ms rule: MMessage_induct) (auto simp: int32_slots_def)

end
