(* ===== verification/Mini_Fields.thy ===== *)
theory Mini_Fields
  imports Mini_Message
begin

section \<open>MiniMessage: the field table\<close>

text \<open>
  The functions of \<^verbatim>\<open>source/muscle/minimessage/MiniMessage.c\<close> that look fields up, add,
  replace, remove, move, copy and rename them, the typed \<^verbatim>\<open>MMGet*Field\<close>/\<^verbatim>\<open>MMPut*Field\<close>
  functions, the field-name iterator and the comparison of Messages.  A pointer to a field of a
  Message is its position in the list.  Field names come in as the memory from the \<^verbatim>\<open>char *\<close>
  on.  A function that returns a pointer to the new field's data array returns whether it is
  non-NULL: the array is the data of the last field of the new Message.
\<close>

named_theorems field_simps_mm "the field-table operations on well-formed arguments"

subsection \<open>Looking up, adding and detaching\<close>

text \<open>The walk from \<^verbatim>\<open>lastField\<close> along \<^verbatim>\<open>prevField\<close>; the result is a position in the list.\<close>

fun LookupLoop :: "MMessageField list \<Rightarrow> u8 list \<Rightarrow> u32 \<Rightarrow> nat option outcome" where
  "LookupLoop [] fieldName typeCode = Ok None"
| "LookupLoop (f # prevs) fieldName typeCode =
     obind (strcmp_eq (mf_name f) fieldName) (\<lambda>eq.
     if eq then Ok (if typeCode = B_ANY_TYPE \<or> typeCode = mf_typeCode f
                    then Some (length prevs) else None)
     else LookupLoop prevs fieldName typeCode)"

definition LookupMMessageField :: "MMessage \<Rightarrow> u8 list \<Rightarrow> u32 \<Rightarrow> nat option outcome" where
  "LookupMMessageField msg fieldName typeCode =
     LookupLoop (rev (mm_fields msg)) fieldName typeCode"

definition AddMMessageField :: "MMessage \<Rightarrow> MMessageField \<Rightarrow> MMessage" where
  "AddMMessageField msg field = MMsg (mm_what msg) (mm_fields msg @ [field])"

definition DetachMMessageField :: "MMessage \<Rightarrow> nat \<Rightarrow> MMessage" where
  "DetachMMessageField msg i =
     MMsg (mm_what msg) (take i (mm_fields msg) @ drop (Suc i) (mm_fields msg))"

definition detach_and_free :: "MMessage \<Rightarrow> nat \<Rightarrow> MMessage outcome" where
  "detach_and_free msg i =
     obind (FreeMMessageField (mm_fields msg ! i)) (\<lambda>_. Ok (DetachMMessageField msg i))"

subsection \<open>Putting and removing fields\<close>

text \<open>\<^verbatim>\<open>memcpy(dst, src, n)\<close> between two blocks.\<close>

definition memcpy :: "u8 list \<Rightarrow> u8 list \<Rightarrow> nat \<Rightarrow> u8 list outcome" where
  "memcpy dst src n =
     (if n \<le> length dst \<and> n \<le> length src then Ok (take n src @ drop n dst) else Fault)"

definition fixed_bytes :: "MMessageField \<Rightarrow> u8 list outcome" where
  "fixed_bytes f = (case mf_data f of FixedData bs \<Rightarrow> Ok bs | _ \<Rightarrow> Fault)"

definition PutMMFixedFieldAux ::
    "alloc \<Rightarrow> MMessage \<Rightarrow> bool \<Rightarrow> u32 \<Rightarrow> u8 list \<Rightarrow> u32 \<Rightarrow> u32 \<Rightarrow> (bool \<times> MMessage) outcome" where
  "PutMMFixedFieldAux am msg retainOldData typeCode fieldName numItems itemSize =
     obind (strlen fieldName) (\<lambda>n.
     obind (AllocMMessageField am (take (n + 1) fieldName) typeCode numItems itemSize) (\<lambda>r.
     case r of
       None \<Rightarrow> Ok (False, msg)
     | Some newField \<Rightarrow>
         obind (LookupMMessageField msg fieldName B_ANY_TYPE) (\<lambda>old.
         case old of
           None \<Rightarrow> Ok (True, AddMMessageField msg newField)
         | Some i \<Rightarrow>
             let oldField = mm_fields msg ! i in
             obind (if retainOldData \<and> mf_typeCode oldField = typeCode
                    then obind (fixed_bytes newField) (\<lambda>dst.
                         obind (fixed_bytes oldField) (\<lambda>src.
                         obind (memcpy dst src (unat ((if numItems < mf_numItems oldField
                                  then numItems else mf_numItems oldField) * itemSize))) (\<lambda>bs.
                         Ok (set_data (FixedData bs) newField))))
                    else Ok newField) (\<lambda>newField'.
             obind (detach_and_free msg i) (\<lambda>msg'.
             Ok (True, AddMMessageField msg' newField'))))))"

text \<open>
  Moving the common items of the old array of pointers to the new one; the old slots become NULL,
  so that freeing the old field does not free what was moved.
\<close>

definition move_slots :: "u32 \<Rightarrow> 'a option list \<Rightarrow> 'a option list \<Rightarrow>
    ('a option list \<times> 'a option list) outcome" where
  "move_slots commonItems fromArray toArray =
     (let k = unat commonItems in
      if k \<le> length fromArray \<and> k \<le> length toArray
      then Ok (replicate k None @ drop k fromArray, take k fromArray @ drop k toArray)
      else Fault)"

definition buf_slots :: "MMessageField \<Rightarrow> u8 list option list outcome" where
  "buf_slots f = (case mf_data f of BufData bs \<Rightarrow> Ok bs | _ \<Rightarrow> Fault)"

definition msg_slots :: "MMessageField \<Rightarrow> MMessage option list outcome" where
  "msg_slots f = (case mf_data f of MsgData ms \<Rightarrow> Ok ms | _ \<Rightarrow> Fault)"

definition set_field :: "MMessage \<Rightarrow> nat \<Rightarrow> MMessageField \<Rightarrow> MMessage" where
  "set_field msg i f = MMsg (mm_what msg) ((mm_fields msg)[i := f])"

definition PutMMVariableFieldAux ::
    "alloc \<Rightarrow> MMessage \<Rightarrow> bool \<Rightarrow> u32 \<Rightarrow> u8 list \<Rightarrow> u32 \<Rightarrow> (bool \<times> MMessage) outcome" where
  "PutMMVariableFieldAux am msg retainOldData typeCode fieldName numItems =
     obind (strlen fieldName) (\<lambda>n.
     obind (AllocMMessageField am (take (n + 1) fieldName) typeCode numItems sizeof_ptr) (\<lambda>r.
     case r of
       None \<Rightarrow> Ok (False, msg)
     | Some newField0 \<Rightarrow>
         obind (LookupMMessageField msg fieldName B_ANY_TYPE) (\<lambda>old.
         let newField = as_buf_slots newField0 in
         case old of
           None \<Rightarrow> Ok (True, AddMMessageField msg newField)
         | Some i \<Rightarrow>
             let oldField = mm_fields msg ! i in
             obind (if retainOldData \<and> mf_typeCode oldField = typeCode
                    then obind (buf_slots oldField) (\<lambda>fromArray.
                         obind (buf_slots newField) (\<lambda>toArray.
                         obind (move_slots (if numItems < mf_numItems oldField
                                  then numItems else mf_numItems oldField)
                                  fromArray toArray) (\<lambda>(fromArray', toArray').
                         Ok (set_field msg i (set_data (BufData fromArray') oldField),
                             set_data (BufData toArray') newField))))
                    else Ok (msg, newField)) (\<lambda>(msg', newField').
             obind (detach_and_free msg' i) (\<lambda>msg''.
             Ok (True, AddMMessageField msg'' newField'))))))"

definition MMPutMessageField ::
    "alloc \<Rightarrow> MMessage \<Rightarrow> bool \<Rightarrow> u8 list \<Rightarrow> u32 \<Rightarrow> (bool \<times> MMessage) outcome" where
  "MMPutMessageField am msg retainOldData fieldName numItems =
     obind (strlen fieldName) (\<lambda>n.
     obind (AllocMMessageField am (take (n + 1) fieldName) B_MESSAGE_TYPE numItems sizeof_ptr) (\<lambda>r.
     case r of
       None \<Rightarrow> Ok (False, msg)
     | Some newField0 \<Rightarrow>
         obind (LookupMMessageField msg fieldName B_ANY_TYPE) (\<lambda>old.
         let newField = as_msg_slots newField0 in
         case old of
           None \<Rightarrow> Ok (True, AddMMessageField msg newField)
         | Some i \<Rightarrow>
             let oldField = mm_fields msg ! i in
             obind (if retainOldData \<and> mf_typeCode oldField = B_MESSAGE_TYPE
                    then obind (msg_slots oldField) (\<lambda>fromArray.
                         obind (msg_slots newField) (\<lambda>toArray.
                         obind (move_slots (if numItems < mf_numItems oldField
                                  then numItems else mf_numItems oldField)
                                  fromArray toArray) (\<lambda>(fromArray', toArray').
                         Ok (set_field msg i (set_data (MsgData fromArray') oldField),
                             set_data (MsgData toArray') newField))))
                    else Ok (msg, newField)) (\<lambda>(msg', newField').
             obind (detach_and_free msg' i) (\<lambda>msg''.
             Ok (True, AddMMessageField msg'' newField'))))))"

definition MMRemoveField :: "MMessage \<Rightarrow> u8 list \<Rightarrow> (status \<times> MMessage) outcome" where
  "MMRemoveField msg fieldName =
     obind (LookupMMessageField msg fieldName B_ANY_TYPE) (\<lambda>r.
     case r of
       Some i \<Rightarrow> obind (detach_and_free msg i) (\<lambda>msg'. Ok (B_NO_ERROR, msg'))
     | None \<Rightarrow> Ok (B_ERROR, msg))"

definition MMPutStringField where
  "MMPutStringField am msg retainOldData fieldName numItems =
     PutMMVariableFieldAux am msg retainOldData B_STRING_TYPE fieldName numItems"

definition MMPutBoolField where
  "MMPutBoolField am msg retainOldData fieldName numItems =
     PutMMFixedFieldAux am msg retainOldData B_BOOL_TYPE fieldName numItems 1"

definition MMPutInt8Field where
  "MMPutInt8Field am msg retainOldData fieldName numItems =
     PutMMFixedFieldAux am msg retainOldData B_INT8_TYPE fieldName numItems 1"

definition MMPutInt16Field where
  "MMPutInt16Field am msg retainOldData fieldName numItems =
     PutMMFixedFieldAux am msg retainOldData B_INT16_TYPE fieldName numItems 2"

definition MMPutInt32Field where
  "MMPutInt32Field am msg retainOldData fieldName numItems =
     PutMMFixedFieldAux am msg retainOldData B_INT32_TYPE fieldName numItems 4"

definition MMPutInt64Field where
  "MMPutInt64Field am msg retainOldData fieldName numItems =
     PutMMFixedFieldAux am msg retainOldData B_INT64_TYPE fieldName numItems 8"

definition MMPutFloatField where
  "MMPutFloatField am msg retainOldData fieldName numItems =
     PutMMFixedFieldAux am msg retainOldData B_FLOAT_TYPE fieldName numItems 4"

definition MMPutDoubleField where
  "MMPutDoubleField am msg retainOldData fieldName numItems =
     PutMMFixedFieldAux am msg retainOldData B_DOUBLE_TYPE fieldName numItems 8"

definition MMPutPointField where
  "MMPutPointField am msg retainOldData fieldName numItems =
     PutMMFixedFieldAux am msg retainOldData B_POINT_TYPE fieldName numItems 8"

definition MMPutRectField where
  "MMPutRectField am msg retainOldData fieldName numItems =
     PutMMFixedFieldAux am msg retainOldData B_RECT_TYPE fieldName numItems 16"

definition MMPutPointerField where
  "MMPutPointerField am msg retainOldData fieldName numItems =
     obind (PutMMFixedFieldAux am msg retainOldData B_POINTER_TYPE fieldName numItems sizeof_ptr)
       (\<lambda>(ret, msg').
     if ret then
       obind (LookupMMessageField msg' fieldName B_POINTER_TYPE) (\<lambda>f.
       case f of
         Some i \<Rightarrow> Ok (True, set_field msg' i (set_flattenable False (mm_fields msg' ! i)))
       | None \<Rightarrow> Ok (True, msg'))
     else Ok (False, msg'))"

definition MMPutDataField where
  "MMPutDataField am msg retainOldData typeCode fieldName numItems =
     (if typeCode \<noteq> B_MESSAGE_TYPE \<and> IsTypeCodeVariableSize typeCode
      then PutMMVariableFieldAux am msg retainOldData typeCode fieldName numItems
      else Ok (False, msg))"

subsection \<open>Reading fields\<close>

definition GetFieldDataAux ::
    "MMessage \<Rightarrow> u8 list \<Rightarrow> u32 \<Rightarrow> (MData \<times> u32) option outcome" where
  "GetFieldDataAux msg fieldName typeCode =
     obind (LookupMMessageField msg fieldName typeCode) (\<lambda>r.
     case r of
       Some i \<Rightarrow> (let f = mm_fields msg ! i in
         if 0 < mf_numItems f then Ok (Some (mf_data f, mf_numItems f)) else Ok None)
     | None \<Rightarrow> Ok None)"

definition MMGetStringField where "MMGetStringField msg fn = GetFieldDataAux msg fn B_STRING_TYPE"
definition MMGetBoolField where "MMGetBoolField msg fn = GetFieldDataAux msg fn B_BOOL_TYPE"
definition MMGetInt8Field where "MMGetInt8Field msg fn = GetFieldDataAux msg fn B_INT8_TYPE"
definition MMGetInt16Field where "MMGetInt16Field msg fn = GetFieldDataAux msg fn B_INT16_TYPE"
definition MMGetInt32Field where "MMGetInt32Field msg fn = GetFieldDataAux msg fn B_INT32_TYPE"
definition MMGetInt64Field where "MMGetInt64Field msg fn = GetFieldDataAux msg fn B_INT64_TYPE"
definition MMGetFloatField where "MMGetFloatField msg fn = GetFieldDataAux msg fn B_FLOAT_TYPE"
definition MMGetDoubleField where "MMGetDoubleField msg fn = GetFieldDataAux msg fn B_DOUBLE_TYPE"
definition MMGetMessageField where
  "MMGetMessageField msg fn = GetFieldDataAux msg fn B_MESSAGE_TYPE"
definition MMGetPointerField where
  "MMGetPointerField msg fn = GetFieldDataAux msg fn B_POINTER_TYPE"
definition MMGetPointField where "MMGetPointField msg fn = GetFieldDataAux msg fn B_POINT_TYPE"
definition MMGetRectField where "MMGetRectField msg fn = GetFieldDataAux msg fn B_RECT_TYPE"

definition MMGetDataField where
  "MMGetDataField msg typeCode fn =
     (if typeCode \<noteq> B_MESSAGE_TYPE \<and> IsTypeCodeVariableSize typeCode
      then GetFieldDataAux msg fn typeCode else Ok None)"

definition MMGetFieldInfo ::
    "MMessage \<Rightarrow> u8 list \<Rightarrow> u32 \<Rightarrow> (status \<times> (u32 \<times> u32) option) outcome" where
  "MMGetFieldInfo msg fieldName typeCode =
     obind (LookupMMessageField msg fieldName typeCode) (\<lambda>r.
     case r of
       Some i \<Rightarrow> Ok (B_NO_ERROR, Some (mf_numItems (mm_fields msg ! i),
                                    mf_typeCode (mm_fields msg ! i)))
     | None \<Rightarrow> Ok (B_ERROR, None))"

subsection \<open>Moving, copying and renaming\<close>

text \<open>
  \<^verbatim>\<open>MMMoveField\<close>.  \<open>same\<close>: the two pointers are equal.  Where the destination has a field of
  that name, the code detaches it (\<open>killMe\<close>) but frees \<^verbatim>\<open>moveMe\<close>, which it then links into the
  destination: a write to freed memory.
\<close>

definition MMMoveField :: "MMessage \<Rightarrow> u8 list \<Rightarrow> MMessage option \<Rightarrow> bool \<Rightarrow>
    (status \<times> MMessage \<times> MMessage option) outcome" where
  "MMMoveField sourceMsg fieldName destMsg same =
     (if same then Ok (B_NO_ERROR, sourceMsg, destMsg)
      else
        obind (LookupMMessageField sourceMsg fieldName B_ANY_TYPE) (\<lambda>r.
        case r of
          None \<Rightarrow> Ok (B_ERROR, sourceMsg, destMsg)
        | Some i \<Rightarrow>
            let moveMe = mm_fields sourceMsg ! i;
                sourceMsg' = DetachMMessageField sourceMsg i in
            (case destMsg of
               None \<Rightarrow> obind (FreeMMessageField moveMe) (\<lambda>_. Ok (B_NO_ERROR, sourceMsg', None))
             | Some dest \<Rightarrow>
                 obind (LookupMMessageField dest fieldName B_ANY_TYPE) (\<lambda>k.
                 case k of
                   Some j \<Rightarrow> obind (FreeMMessageField moveMe) (\<lambda>_. Fault)
                 | None \<Rightarrow> Ok (B_NO_ERROR, sourceMsg', Some (AddMMessageField dest moveMe))))))"

definition MMCopyField :: "alloc \<Rightarrow> MMessage \<Rightarrow> u8 list \<Rightarrow> MMessage option \<Rightarrow> bool \<Rightarrow>
    (status \<times> MMessage option) outcome" where
  "MMCopyField am sourceMsg fieldName destMsg same =
     (if same then Ok (B_NO_ERROR, destMsg)
      else
        obind (LookupMMessageField sourceMsg fieldName B_ANY_TYPE) (\<lambda>r.
        case r of
          None \<Rightarrow> Ok (B_ERROR, destMsg)
        | Some i \<Rightarrow>
            (case destMsg of
               None \<Rightarrow> Ok (B_NO_ERROR, None)
             | Some dest \<Rightarrow>
                 obind (CloneMMessageField am (mm_fields sourceMsg ! i)) (\<lambda>c.
                 case c of
                   None \<Rightarrow> Ok (B_ERROR, destMsg)
                 | Some clone \<Rightarrow>
                     obind (LookupMMessageField dest fieldName B_ANY_TYPE) (\<lambda>k.
                     obind (case k of Some j \<Rightarrow> detach_and_free dest j | None \<Rightarrow> Ok dest) (\<lambda>dest'.
                     Ok (B_NO_ERROR, Some (AddMMessageField dest' clone))))))))"

text \<open>
  \<^verbatim>\<open>MMRenameField\<close>: the block is reallocated when the length of the name changes, and the new
  name is written after the data.  \<open>am\<close> also says whether \<^verbatim>\<open>realloc\<close> to a size succeeds.
\<close>

definition MMRenameField :: "alloc \<Rightarrow> MMessage \<Rightarrow> u8 list \<Rightarrow> u8 list \<Rightarrow>
    (status \<times> MMessage) outcome" where
  "MMRenameField am msg oldFieldName newFieldName =
     obind (strcmp_eq oldFieldName newFieldName) (\<lambda>eq.
     if eq then Ok (B_NO_ERROR, msg)
     else
       obind (LookupMMessageField msg oldFieldName B_ANY_TYPE) (\<lambda>r.
       case r of
         None \<Rightarrow> Ok (B_ERROR, msg)
       | Some i \<Rightarrow>
           let f = mm_fields msg ! i in
           obind (LookupMMessageField msg newFieldName B_ANY_TYPE) (\<lambda>overwriteThis.
           obind (strlen newFieldName) (\<lambda>n.
           let slen = n + 1;
               newSize = field_allocSize f + word_of_nat slen - word_of_nat (length (mf_name f)) in
           if slen \<noteq> length (mf_name f) \<and> \<not> am (unat newSize) then Ok (B_ERROR, msg)
           else if 2 ^ 32 \<le> sizeof_MMessageField
                     + unat (mf_numItems f * mf_itemSize f) + slen then Fault
           else
             let msg' = set_field msg i (set_name (take slen newFieldName) f) in
             (case overwriteThis of
                None \<Rightarrow> Ok (B_NO_ERROR, msg')
              | Some j \<Rightarrow> obind (detach_and_free msg' j) (\<lambda>msg''. Ok (B_NO_ERROR, msg'')))))))"

subsection \<open>Iterating over field names\<close>

text \<open>\<^verbatim>\<open>iterState\<close> is the list of the fields from the current one on.\<close>

record MMessageIterator =
  iterState :: "MMessageField list"
  iterTypeCode :: u32

definition MMGetFieldNameIterator :: "MMessage \<Rightarrow> u32 \<Rightarrow> MMessageIterator" where
  "MMGetFieldNameIterator msg typeCode = \<lparr>iterState = mm_fields msg, iterTypeCode = typeCode\<rparr>"

fun next_name :: "u32 \<Rightarrow> MMessageField list \<Rightarrow> (u8 list \<times> u32) option \<times> MMessageField list" where
  "next_name tc [] = (None, [])"
| "next_name tc (f # fs) =
     (if tc = B_ANY_TYPE \<or> tc = mf_typeCode f then (Some (mf_name f, mf_typeCode f), fs)
      else next_name tc fs)"

definition MMGetNextFieldName ::
    "MMessageIterator \<Rightarrow> (u8 list \<times> u32) option \<times> MMessageIterator" where
  "MMGetNextFieldName iter =
     (let (r, rest) = next_name (iterTypeCode iter) (iterState iter)
      in (r, iter\<lparr>iterState := rest\<rparr>))"

subsection \<open>Comparing Messages\<close>

text \<open>
  \<^verbatim>\<open>MMAreMessagesEqual\<close>; \<open>same\<close> is the comparison of the two pointers.  Messages own their
  sub-Messages, so those of two different Messages are never the same object.
\<close>

definition bufs_equal :: "u8 list option list \<Rightarrow> u8 list option list \<Rightarrow> bool" where
  "bufs_equal bufs1 bufs2 =
     list_all2 (\<lambda>a b. case (a, b) of
         (None, None) \<Rightarrow> True
       | (Some x, Some y) \<Rightarrow> MBAreByteBuffersEqual x y
       | _ \<Rightarrow> False) bufs1 bufs2"

fun MMAreMessagesEqual :: "bool \<Rightarrow> MMessage \<Rightarrow> MMessage \<Rightarrow> bool outcome"
and EqualFields :: "MMessageField list \<Rightarrow> MMessage \<Rightarrow> bool outcome"
and EqualField :: "MMessageField \<Rightarrow> MMessageField \<Rightarrow> bool outcome"
and EqualSlots :: "MMessage option list \<Rightarrow> MMessage option list \<Rightarrow> bool outcome"
where
  "MMAreMessagesEqual same (MMsg w1 fs1) msg2 =
     (if same then Ok True
      else if w1 \<noteq> mm_what msg2 \<or> length fs1 \<noteq> length (mm_fields msg2) then Ok False
      else EqualFields fs1 msg2)"
| "EqualFields [] msg2 = Ok True"
| "EqualFields (f1 # fs1) msg2 =
     obind (LookupMMessageField msg2 (mf_name f1) (mf_typeCode f1)) (\<lambda>r.
     case r of
       None \<Rightarrow> Ok False
     | Some j \<Rightarrow>
         obind (EqualField f1 (mm_fields msg2 ! j)) (\<lambda>eq.
         if eq then EqualFields fs1 msg2 else Ok False))"
| "EqualField (MField nm tc isz n d fl) f2 =
     (if mf_numItems f2 \<noteq> n \<or> mf_typeCode f2 \<noteq> tc then Ok False
      else (case d of
        FixedData bs1 \<Rightarrow>
          if IsTypeCodeVariableSize tc then Fault
          else obind (fixed_bytes f2) (\<lambda>bs2.
            let k = unat (n * isz) in
            if k \<le> length bs1 \<and> k \<le> length bs2 then Ok (take k bs1 = take k bs2) else Fault)
      | BufData bufs1 \<Rightarrow>
          if \<not> IsTypeCodeVariableSize tc \<or> tc = B_MESSAGE_TYPE then Fault
          else obind (buf_slots f2) (\<lambda>bufs2.
            obind (slots n bufs1) (\<lambda>xs1. obind (slots n bufs2) (\<lambda>xs2. Ok (bufs_equal xs1 xs2))))
      | MsgData msgs1 \<Rightarrow>
          if tc \<noteq> B_MESSAGE_TYPE then Fault
          else obind (msg_slots f2) (\<lambda>msgs2.
            if unat n \<noteq> length msgs1 \<or> length msgs2 < unat n then Fault
            else EqualSlots msgs1 msgs2)))"
| "EqualSlots [] ms2 = Ok True"
| "EqualSlots (None # ms1) ms2 =
     (case ms2 of
        None # ms2' \<Rightarrow> EqualSlots ms1 ms2'
      | _ \<Rightarrow> Ok False)"
| "EqualSlots (Some m1 # ms1) ms2 =
     (case ms2 of
        Some m2 # ms2' \<Rightarrow>
          obind (MMAreMessagesEqual False m1 m2) (\<lambda>eq.
          if eq then EqualSlots ms1 ms2' else Ok False)
      | _ \<Rightarrow> Ok False)"

end
