(* ===== verification/Mini_Table.thy ===== *)
theory Mini_Table
  imports Mini_Fields
begin

section \<open>MiniMessage: the field table implements a map from names to fields\<close>

text \<open>
  The abstract view of a Message's fields is the map \<open>fmap\<close> from field names (C strings without
  their zero) to fields.  On well-formed Messages whose names are distinct, the operations of
  theory \<open>Mini_Fields\<close> are the update, deletion and renaming of that map; they keep
  well-formedness and the distinctness of the names.
\<close>

definition field_key :: "MMessageField \<Rightarrow> u8 list" where
  "field_key f = cstr (mf_name f)"

definition fmap :: "MMessage \<Rightarrow> u8 list \<Rightarrow> MMessageField option" where
  "fmap msg = map_of (map (\<lambda>f. (field_key f, f)) (rev (mm_fields msg)))"

definition uniq_names :: "MMessage \<Rightarrow> bool" where
  "uniq_names msg \<longleftrightarrow> distinct (map field_key (mm_fields msg))"

definition named_fields :: "MMessage \<Rightarrow> bool" where
  "named_fields msg \<longleftrightarrow> (\<forall>f \<in> set (mm_fields msg). is_cstr (mf_name f))"

fun find_rev :: "MMessageField list \<Rightarrow> u8 list \<Rightarrow> nat option" where
  "find_rev [] s = None"
| "find_rev (f # prevs) s = (if field_key f = s then Some (length prevs) else find_rev prevs s)"

definition field_index :: "MMessage \<Rightarrow> u8 list \<Rightarrow> nat option" where
  "field_index msg s = find_rev (rev (mm_fields msg)) s"

lemma MMsg_sel [simp]: "MMsg (mm_what m) (mm_fields m) = m"
  by (cases m) simp

lemma wf_msg_fields: "wf_msg m \<longleftrightarrow> wf_fields (mm_fields m) \<and> uniq_names m"
  by (cases m) (simp add: uniq_names_def field_key_def [abs_def])

lemma wf_uniq: "wf_msg m \<Longrightarrow> uniq_names m"
  by (simp add: wf_msg_fields)

lemma wf_field_name: "wf_field f \<Longrightarrow> wf_name (mf_name f)"
  using wf_field_head [of f] by (simp add: wf_head_def)

lemma wf_named_fields: "wf_msg m \<Longrightarrow> named_fields m"
  using wf_field_name wf_name_cstr
  by (auto simp: wf_msg_fields wf_fields_iff named_fields_def)

subsection \<open>Looking up\<close>

lemma LookupLoop_find_rev:
  "\<forall>f \<in> set fs. is_cstr (mf_name f) \<Longrightarrow> is_cstr fn \<Longrightarrow>
   LookupLoop fs fn tc =
     Ok (case find_rev fs (cstr fn) of
           None \<Rightarrow> None
         | Some i \<Rightarrow> if tc = B_ANY_TYPE \<or> tc = mf_typeCode (rev fs ! i) then Some i else None)"
proof (induction fs)
  case (Cons f prevs)
  have "find_rev prevs s = Some i \<Longrightarrow> i < length prevs" for s i
    by (induction prevs) (auto split: if_splits)
  with Cons show ?case
    by (auto simp: strcmp_eq_cstr field_key_def nth_append split: option.splits)
qed simp

lemma find_rev_Some:
  "find_rev fs s = Some i \<Longrightarrow>
   i < length fs \<and> field_key (rev fs ! i) = s
   \<and> map_of (map (\<lambda>f. (field_key f, f)) fs) s = Some (rev fs ! i)"
  by (induction fs) (auto simp: nth_append split: if_splits)

lemma find_rev_None:
  "find_rev fs s = None \<longleftrightarrow> s \<notin> field_key ` set fs"
  by (induction fs) auto

lemma field_index_Some:
  "field_index msg s = Some i \<Longrightarrow>
   i < length (mm_fields msg) \<and> field_key (mm_fields msg ! i) = s
   \<and> fmap msg s = Some (mm_fields msg ! i)"
  using find_rev_Some [of "rev (mm_fields msg)" s i] by (simp add: field_index_def fmap_def)

lemma field_index_None: "field_index msg s = None \<longleftrightarrow> s \<notin> field_key ` set (mm_fields msg)"
  by (simp add: field_index_def find_rev_None)

lemma fmap_None: "fmap msg s = None \<longleftrightarrow> s \<notin> field_key ` set (mm_fields msg)"
  by (auto simp: fmap_def map_of_eq_None_iff image_image)

lemma Lookup_field_index [field_simps_mm]:
  "named_fields msg \<Longrightarrow> is_cstr fn \<Longrightarrow>
   LookupMMessageField msg fn tc =
     Ok (case field_index msg (cstr fn) of
           None \<Rightarrow> None
         | Some i \<Rightarrow> if tc = B_ANY_TYPE \<or> tc = mf_typeCode (mm_fields msg ! i)
                      then Some i else None)"
  using LookupLoop_find_rev [of "rev (mm_fields msg)" fn tc]
  by (simp add: LookupMMessageField_def named_fields_def field_index_def split: option.split)

lemma Lookup_any_field_index [field_simps_mm]:
  "named_fields msg \<Longrightarrow> is_cstr fn \<Longrightarrow>
   LookupMMessageField msg fn B_ANY_TYPE = Ok (field_index msg (cstr fn))"
  by (simp add: Lookup_field_index split: option.split)

text \<open>What a typed \<^verbatim>\<open>MMGet*Field\<close> call returns, in terms of the map.\<close>

lemma GetFieldDataAux_fmap [field_simps_mm]:
  "named_fields msg \<Longrightarrow> is_cstr fn \<Longrightarrow>
   GetFieldDataAux msg fn tc =
     Ok (case fmap msg (cstr fn) of
           None \<Rightarrow> None
         | Some f \<Rightarrow> if (tc = B_ANY_TYPE \<or> tc = mf_typeCode f) \<and> 0 < mf_numItems f
                      then Some (mf_data f, mf_numItems f) else None)"
  using fmap_None [of msg "cstr fn"] field_index_None [of msg "cstr fn"]
    field_index_Some [of msg "cstr fn"]
  by (auto simp: GetFieldDataAux_def Lookup_field_index Let_def split: option.splits)

subsection \<open>Adding and detaching\<close>

lemma mm_fields_Add [simp]: "mm_fields (AddMMessageField msg f) = mm_fields msg @ [f]"
  by (simp add: AddMMessageField_def)

lemma mm_what_ops [simp]:
  "mm_what (AddMMessageField msg f) = mm_what msg" "mm_what (DetachMMessageField msg i) = mm_what msg"
  "mm_what (set_field msg i f) = mm_what msg"
  by (simp_all add: AddMMessageField_def DetachMMessageField_def set_field_def)

lemma mm_fields_set_field [simp]: "mm_fields (set_field msg i f) = (mm_fields msg)[i := f]"
  by (simp add: set_field_def)

lemma fmap_Add: "fmap (AddMMessageField msg f) = (fmap msg)(field_key f \<mapsto> f)"
  by (simp add: fmap_def)

lemma uniq_filter: "uniq_names msg \<Longrightarrow> distinct (map field_key (filter P (mm_fields msg)))"
  by (simp add: uniq_names_def distinct_map_filter)

lemma filter_neq_remove:
  assumes "distinct (map g xs)" "i < length xs"
  shows "filter (\<lambda>x. g x \<noteq> g (xs ! i)) xs = take i xs @ drop (Suc i) xs"
proof -
  define A B where "A = take i xs" and "B = drop (Suc i) xs"
  have xs: "xs = A @ xs ! i # B" and A: "length A = i"
    using assms(2) by (simp_all add: A_def B_def id_take_nth_drop)
  from assms(1) have "distinct (map g (A @ xs ! i # B))" using xs by simp
  then have "filter (\<lambda>x. g x \<noteq> g (xs ! i)) A = A" "filter (\<lambda>x. g x \<noteq> g (xs ! i)) B = B"
    by (auto simp: filter_id_conv) (metis image_eqI)+
  then have "filter (\<lambda>x. g x \<noteq> g (xs ! i)) (A @ xs ! i # B) = A @ B" by simp
  then have "filter (\<lambda>x. g x \<noteq> g (xs ! i)) xs = A @ B" using xs by metis
  then show ?thesis by (simp only: A_def B_def)
qed

lemma Detach_filter:
  "uniq_names msg \<Longrightarrow> field_index msg s = Some i \<Longrightarrow>
   DetachMMessageField msg i = MMsg (mm_what msg) (filter (\<lambda>f. field_key f \<noteq> s) (mm_fields msg))"
  using filter_neq_remove [of field_key "mm_fields msg" i] field_index_Some [of msg s i]
  by (auto simp: DetachMMessageField_def uniq_names_def)

lemma filter_absent:
  "field_index msg s = None \<Longrightarrow> filter (\<lambda>f. field_key f \<noteq> s) (mm_fields msg) = mm_fields msg"
  by (auto simp: field_index_None filter_id_conv)

definition without :: "u8 list \<Rightarrow> MMessage \<Rightarrow> MMessage" where
  "without s msg = MMsg (mm_what msg) (filter (\<lambda>f. field_key f \<noteq> s) (mm_fields msg))"

lemma without_sel [simp]:
  "mm_what (without s msg) = mm_what msg"
  "mm_fields (without s msg) = filter (\<lambda>f. field_key f \<noteq> s) (mm_fields msg)"
  by (simp_all add: without_def)

lemma without_absent: "field_index msg s = None \<Longrightarrow> without s msg = msg"
  by (simp add: without_def filter_absent)

lemma uniq_without: "uniq_names msg \<Longrightarrow> uniq_names (without s msg)"
  using uniq_filter by (simp add: uniq_names_def)

lemma wf_without: "wf_msg msg \<Longrightarrow> wf_msg (without s msg)"
  by (auto simp: wf_msg_fields wf_fields_iff uniq_without)

lemma fmap_without: "fmap (without s msg) = (fmap msg)(s := None)"
proof
  fix k
  have "map_of (map (\<lambda>f. (field_key f, f)) (filter (\<lambda>f. field_key f \<noteq> s) xs)) k =
        ((map_of (map (\<lambda>f. (field_key f, f)) xs))(s := None)) k" for xs
    by (induction xs) auto
  from this [of "rev (mm_fields msg)"] show "fmap (without s msg) k = ((fmap msg)(s := None)) k"
    by (simp add: fmap_def rev_filter)
qed

lemma wf_nth: "wf_msg msg \<Longrightarrow> i < length (mm_fields msg) \<Longrightarrow> wf_field (mm_fields msg ! i)"
  by (simp add: wf_msg_fields wf_fields_iff)

lemma detach_and_free_wf [field_simps_mm]:
  assumes "wf_msg msg" "field_index msg s = Some i"
  shows "detach_and_free msg i = Ok (without s msg)"
proof -
  have "wf_field (mm_fields msg ! i)" using assms wf_nth field_index_Some by blast
  then have "FreeMMessageField (mm_fields msg ! i) = Ok ()" by (rule free_wf)
  with assms Detach_filter wf_uniq show ?thesis by (simp add: detach_and_free_def without_def)
qed

lemma uniq_Add:
  "uniq_names msg \<Longrightarrow> field_key f \<notin> field_key ` set (mm_fields msg) \<Longrightarrow>
   uniq_names (AddMMessageField msg f)"
  by (simp add: uniq_names_def)

lemma uniq_Add_without:
  "uniq_names msg \<Longrightarrow> uniq_names (AddMMessageField (without (field_key f) msg) f)"
  by (rule uniq_Add) (auto simp: uniq_without)

lemma wf_Add_without:
  "wf_msg msg \<Longrightarrow> wf_field f \<Longrightarrow> field_key f = s \<Longrightarrow> wf_msg (AddMMessageField (without s msg) f)"
  using uniq_Add_without by (auto simp: wf_msg_fields wf_fields_iff)

subsection \<open>Removing\<close>

lemma MMRemoveField_wf [field_simps_mm]:
  assumes "wf_msg msg" "is_cstr fn"
  shows "MMRemoveField msg fn =
    Ok (if fmap msg (cstr fn) = None then B_ERROR else B_NO_ERROR, without (cstr fn) msg)"
proof (cases "field_index msg (cstr fn)")
  case None
  then have "fmap msg (cstr fn) = None" by (simp add: fmap_None field_index_None)
  with None show ?thesis using assms
    by (simp add: MMRemoveField_def Lookup_any_field_index wf_named_fields without_absent)
next
  case (Some i)
  then show ?thesis using assms field_index_Some [OF Some]
    by (simp add: MMRemoveField_def Lookup_any_field_index wf_named_fields detach_and_free_wf [of msg _ i])
qed

subsection \<open>Putting fixed-size fields\<close>

text \<open>
  \<open>alloc_fits\<close>: the block for the field fits in 32 bits.  \<open>kept_bytes\<close>: the data a replaced field
  of the same type hands on to the new one.
\<close>

definition alloc_fits :: "u32 \<Rightarrow> u32 \<Rightarrow> u8 list \<Rightarrow> bool" where
  "alloc_fits numItems itemSize fieldName \<longleftrightarrow>
     0 < numItems \<and> sizeof_MMessageField + unat numItems * unat itemSize
       + length (cstr fieldName) + 1 < 2 ^ 32"

definition kept_bytes :: "bool \<Rightarrow> MMessageField option \<Rightarrow> u32 \<Rightarrow> nat \<Rightarrow> u8 list" where
  "kept_bytes retain old typeCode n =
     (case old of
        Some (MField _ tc _ _ (FixedData bs) _) \<Rightarrow> if retain \<and> tc = typeCode then take n bs else []
      | _ \<Rightarrow> [])"

definition fixed_field :: "bool \<Rightarrow> MMessageField option \<Rightarrow> u32 \<Rightarrow> u8 list \<Rightarrow> u32 \<Rightarrow> u32 \<Rightarrow> MMessageField"
where
  "fixed_field retain old typeCode fieldName numItems itemSize =
     (let n = unat numItems * unat itemSize;
          kept = kept_bytes retain old typeCode n in
      MField (cstr fieldName @ [0]) typeCode itemSize numItems
        (FixedData (kept @ replicate (n - length kept) 0)) True)"

lemma Alloc_fits [field_simps_mm]:
  assumes "alloc_fits numItems itemSize fieldName" "is_cstr fieldName"
  shows "AllocMMessageField am (cstr fieldName @ [0]) tc numItems itemSize =
    Ok (if am (sizeof_MMessageField + unat numItems * unat itemSize + length (cstr fieldName) + 1)
        then Some (MField (cstr fieldName @ [0]) tc itemSize numItems
                    (FixedData (replicate (unat numItems * unat itemSize) 0)) True)
        else None)"
proof -
  have *: "unat (numItems * itemSize) = unat numItems * unat itemSize"
    using assms(1) by (intro unat_mult_no_wrap) (simp add: alloc_fits_def)
  show ?thesis using assms
    by (simp add: AllocMMessageField_def alloc_fits_def Let_def * unat_word_of_nat_u32
        del: of_nat_add of_nat_Suc of_nat_mult)
qed

lemma field_key_fixed_field [simp]: "field_key (fixed_field r old tc fn n isz) = cstr fn"
  by (simp add: fixed_field_def field_key_def Let_def cstr_append)

lemma length_kept_bytes: "length (kept_bytes r old tc n) \<le> n"
  by (auto simp: kept_bytes_def split: option.splits MMessageField.splits MData.splits)

lemma wf_fixed_field:
  assumes "alloc_fits n (type_item_size tc) fn" "\<not> IsTypeCodeVariableSize tc" "tc \<noteq> B_POINTER_TYPE"
  shows "wf_field (fixed_field r old tc fn n (type_item_size tc))"
  using assms length_kept_bytes [of r old tc "unat n * unat (type_item_size tc)"]
  by (simp add: fixed_field_def Let_def wf_head_def alloc_fits_def)

text \<open>The bytes copied from the old field are those of the items the two fields have in common.\<close>

lemma memcpy_zeros:
  "memcpy (replicate N 0) bs (min N (length bs)) =
   Ok (take N bs @ replicate (N - length (take N bs)) 0)"
  by (cases "N \<le> length bs") (simp_all add: memcpy_def)

lemma retained_memcpy:
  assumes "wf_field old" "mf_typeCode old = tc" "\<not> IsTypeCodeVariableSize tc"
    and "alloc_fits n (type_item_size tc) fn"
  obtains bs where "fixed_bytes old = Ok bs"
    and "memcpy (replicate (unat n * unat (type_item_size tc)) 0) bs
           (unat ((if n < mf_numItems old then n else mf_numItems old) * type_item_size tc)) =
         Ok (kept_bytes True (Some old) tc (unat n * unat (type_item_size tc))
             @ replicate (unat n * unat (type_item_size tc)
                 - length (kept_bytes True (Some old) tc (unat n * unat (type_item_size tc)))) 0)"
proof -
  obtain nm m bs fl where old: "old = MField nm tc (type_item_size tc) m (FixedData bs) fl"
    and len: "length bs = unat m * unat (type_item_size tc)"
    using assms(1-3) by (cases old rule: wf_field.cases) (auto simp: wf_head_def)
  let ?s = "unat (type_item_size tc)"
  have "unat ((if n < m then n else m) * type_item_size tc) = min (unat n) (unat m) * ?s"
    using assms(1,4) old
    by (subst unat_mult_no_wrap)
      (auto simp: alloc_fits_def wf_head_def min_def word_less_nat_alt split: if_splits)
  also have "\<dots> = min (unat n * ?s) (length bs)"
    using len by (simp only: nat_mult_min_left)
  finally have e: "unat ((if n < m then n else m) * type_item_size tc)
      = min (unat n * ?s) (length bs)" .
  have "memcpy (replicate (unat n * ?s) 0) bs
      (unat ((if n < mf_numItems old then n else mf_numItems old) * type_item_size tc)) =
      Ok (take (unat n * ?s) bs @ replicate (unat n * ?s - length (take (unat n * ?s) bs)) 0)"
    unfolding old MMessageField.sel e by (rule memcpy_zeros)
  then show thesis using that [of bs] old by (simp add: fixed_bytes_def kept_bytes_def)
qed

lemma PutMMFixedFieldAux_wf [field_simps_mm]:
  assumes wf: "wf_msg msg" "is_cstr fn"
    and fits: "alloc_fits n (type_item_size tc) fn" "\<not> IsTypeCodeVariableSize tc"
    and am: "am (sizeof_MMessageField + unat n * unat (type_item_size tc) + length (cstr fn) + 1)"
  shows "PutMMFixedFieldAux am msg retain tc fn n (type_item_size tc) =
    Ok (True, AddMMessageField (without (cstr fn) msg)
                (fixed_field retain (fmap msg (cstr fn)) tc fn n (type_item_size tc)))"
proof (cases "field_index msg (cstr fn)")
  case None
  then have "fmap msg (cstr fn) = None" by (simp add: fmap_None field_index_None)
  with None show ?thesis using assms
    by (simp add: PutMMFixedFieldAux_def strlen_cstr take_cstr Alloc_fits Lookup_any_field_index
        wf_named_fields without_absent fixed_field_def kept_bytes_def)
next
  case (Some i)
  let ?old = "mm_fields msg ! i"
  have old: "wf_field ?old" "fmap msg (cstr fn) = Some ?old"
    using Some wf field_index_Some wf_nth by blast+
  show ?thesis
  proof (cases "retain \<and> mf_typeCode ?old = tc")
    case True
    with old fits obtain bs where "fixed_bytes ?old = Ok bs"
      and "memcpy (replicate (unat n * unat (type_item_size tc)) 0) bs
           (unat ((if n < mf_numItems ?old then n else mf_numItems ?old) * type_item_size tc)) =
         Ok (kept_bytes True (Some ?old) tc (unat n * unat (type_item_size tc))
             @ replicate (unat n * unat (type_item_size tc)
                 - length (kept_bytes True (Some ?old) tc (unat n * unat (type_item_size tc)))) 0)"
      by (blast elim: retained_memcpy)
    with True Some old wf fits am show ?thesis
      by (simp add: PutMMFixedFieldAux_def strlen_cstr take_cstr Alloc_fits Lookup_any_field_index
          wf_named_fields Let_def set_data_def fixed_field_def detach_and_free_wf [of msg "cstr fn"]
          fixed_bytes_def [of "MField _ _ _ _ _ _"])
  next
    case False
    then have "kept_bytes retain (Some ?old) tc k = []" for k
      by (auto simp: kept_bytes_def split: MMessageField.splits MData.splits)
    with False Some old wf fits am show ?thesis
      by (auto simp: PutMMFixedFieldAux_def strlen_cstr take_cstr Alloc_fits Lookup_any_field_index
          wf_named_fields Let_def fixed_field_def detach_and_free_wf [of msg "cstr fn"])
  qed
qed

subsection \<open>Putting variable-size fields\<close>

definition kept_bufs :: "bool \<Rightarrow> MMessageField option \<Rightarrow> u32 \<Rightarrow> nat \<Rightarrow> u8 list option list" where
  "kept_bufs retain old typeCode n =
     (case old of
        Some (MField _ tc _ _ (BufData bs) _) \<Rightarrow> if retain \<and> tc = typeCode then take n bs else []
      | _ \<Rightarrow> [])"

definition kept_msgs :: "bool \<Rightarrow> MMessageField option \<Rightarrow> nat \<Rightarrow> MMessage option list" where
  "kept_msgs retain old n =
     (case old of
        Some (MField _ tc _ _ (MsgData ms) _) \<Rightarrow>
          if retain \<and> tc = B_MESSAGE_TYPE then take n ms else []
      | _ \<Rightarrow> [])"

definition buf_field :: "bool \<Rightarrow> MMessageField option \<Rightarrow> u32 \<Rightarrow> u8 list \<Rightarrow> u32 \<Rightarrow> MMessageField" where
  "buf_field retain old typeCode fieldName numItems =
     (let kept = kept_bufs retain old typeCode (unat numItems) in
      MField (cstr fieldName @ [0]) typeCode sizeof_ptr numItems
        (BufData (kept @ replicate (unat numItems - length kept) None)) True)"

definition msg_field :: "bool \<Rightarrow> MMessageField option \<Rightarrow> u8 list \<Rightarrow> u32 \<Rightarrow> MMessageField" where
  "msg_field retain old fieldName numItems =
     (let kept = kept_msgs retain old (unat numItems) in
      MField (cstr fieldName @ [0]) B_MESSAGE_TYPE sizeof_ptr numItems
        (MsgData (kept @ replicate (unat numItems - length kept) None)) True)"

lemma field_key_var_field [simp]:
  "field_key (buf_field r old tc fn n) = cstr fn" "field_key (msg_field r old fn n) = cstr fn"
  by (simp_all add: buf_field_def msg_field_def field_key_def Let_def cstr_append)

lemma length_kept_slots:
  "length (kept_bufs r old tc n) \<le> n" "length (kept_msgs r old n) \<le> n"
  by (auto simp: kept_bufs_def kept_msgs_def split: option.splits MMessageField.splits MData.splits)

lemma kept_no_retain [simp]:
  "kept_bytes False old tc k = []" "kept_bufs False old tc k = []" "kept_msgs False old k = []"
  "kept_bytes r None tc k = []" "kept_bufs r None tc k = []" "kept_msgs r None k = []"
  by (auto simp: kept_bytes_def kept_bufs_def kept_msgs_def
      split: option.splits MMessageField.splits MData.splits)

lemma alloc_fits_slots:
  assumes "alloc_fits n sizeof_ptr fn"
  shows "unat (n * sizeof_ptr) div 8 = unat n" "unat n < 2 ^ 29" "0 < n"
proof -
  have "unat (n * sizeof_ptr) = unat n * unat sizeof_ptr"
    using assms by (intro unat_mult_no_wrap) (simp add: alloc_fits_def)
  then show "unat (n * sizeof_ptr) div 8 = unat n" by (simp add: sizeof_ptr_def)
  show "unat n < 2 ^ 29" "0 < n" using assms by (simp_all add: alloc_fits_def sizeof_ptr_def)
qed

lemma wf_buf_field:
  assumes "alloc_fits n sizeof_ptr fn" "IsTypeCodeVariableSize tc" "tc \<noteq> B_MESSAGE_TYPE"
    and "\<And>f. old = Some f \<Longrightarrow> wf_field f"
  shows "wf_field (buf_field r old tc fn n)"
proof -
  have "tc \<noteq> B_POINTER_TYPE" using assms(2) by auto
  moreover have "list_all wf_buf (kept_bufs r old tc (unat n))"
  proof (cases old)
    case (Some f)
    with assms(4) have "wf_field f" by simp
    with Some show ?thesis
      by (cases f rule: wf_field.cases) (auto simp: kept_bufs_def list_all_iff dest: in_set_takeD)
  qed simp
  ultimately show ?thesis
    using assms(1-3) length_kept_slots(1) [of r old tc "unat n"]
    by (simp add: buf_field_def Let_def wf_head_def alloc_fits_def)
      (simp add: list_all_iff wf_buf_def)
qed

lemma wf_msg_field:
  assumes "alloc_fits n sizeof_ptr fn" "\<And>f. old = Some f \<Longrightarrow> wf_field f"
  shows "wf_field (msg_field r old fn n)"
proof -
  have "B_MESSAGE_TYPE \<noteq> B_POINTER_TYPE" by (simp add: type_code_defs)
  moreover have "wf_slots (kept_msgs r old (unat n))"
  proof (cases old)
    case (Some f)
    with assms(2) have "wf_field f" by simp
    with Some show ?thesis
      by (cases f rule: wf_field.cases) (auto simp: kept_msgs_def wf_slots_iff dest: in_set_takeD)
  qed simp
  ultimately show ?thesis
    using assms(1) length_kept_slots(2) [of r old "unat n"]
    by (simp add: msg_field_def Let_def wf_head_def alloc_fits_def wf_slots_iff)
qed

lemma detach_and_free_emptied:
  assumes "wf_msg msg" "field_index msg s = Some i"
    and "FreeMMessageField f = Ok ()"
  shows "detach_and_free (set_field msg i f) i = Ok (without s msg)"
proof -
  have "i < length (mm_fields msg)" using assms(2) field_index_Some by blast
  moreover have "DetachMMessageField (set_field msg i f) i = DetachMMessageField msg i"
    by (simp add: DetachMMessageField_def)
  ultimately show ?thesis using assms Detach_filter wf_uniq
    by (simp add: detach_and_free_def without_def)
qed

lemma move_slots_min:
  "move_slots c from (replicate N None) =
     Ok (replicate (unat c) None @ drop (unat c) from, take N from @ replicate (N - length (take N from)) None)"
  if "unat c = min N (length from)"
  using that by (cases "N \<le> length from") (simp_all add: move_slots_def Let_def)

lemma PutMMVariableFieldAux_wf [field_simps_mm]:
  assumes wf: "wf_msg msg" "is_cstr fn"
    and fits: "alloc_fits n sizeof_ptr fn" "IsTypeCodeVariableSize tc" "tc \<noteq> B_MESSAGE_TYPE"
    and am: "am (sizeof_MMessageField + unat n * unat sizeof_ptr + length (cstr fn) + 1)"
  shows "PutMMVariableFieldAux am msg retain tc fn n =
    Ok (True, AddMMessageField (without (cstr fn) msg) (buf_field retain (fmap msg (cstr fn)) tc fn n))"
proof (cases "field_index msg (cstr fn)")
  case None
  then have "fmap msg (cstr fn) = None" by (simp add: fmap_None field_index_None)
  with None show ?thesis using assms alloc_fits_slots [OF fits(1)]
    by (simp add: PutMMVariableFieldAux_def strlen_cstr take_cstr Alloc_fits Lookup_any_field_index
        wf_named_fields without_absent buf_field_def as_buf_slots_def)
next
  case (Some i)
  let ?old = "mm_fields msg ! i"
  have old: "wf_field ?old" "fmap msg (cstr fn) = Some ?old"
    using Some wf field_index_Some wf_nth by blast+
  show ?thesis
  proof (cases "retain \<and> mf_typeCode ?old = tc")
    case True
    with old fits obtain nm m bs fl where f: "?old = MField nm tc sizeof_ptr m (BufData bs) fl"
      and len: "length bs = unat m" and hd: "wf_head ?old"
      by (cases ?old rule: wf_field.cases) (auto simp: wf_head_def)
    then have m: "unat m < 2 ^ 29" using wf_numItems_bound fits(2) by fastforce
    have c: "unat (if n < m then n else m) = min (unat n) (length bs)"
      using len by (simp add: word_less_nat_alt min_def)
    have fr: "FreeMMessageField (MField nm tc sizeof_ptr m
        (BufData (replicate (unat (if n < m then n else m)) None
                  @ drop (unat (if n < m then n else m)) bs)) fl) = Ok ()"
      using c len m by (simp add: int32_slots_def slots_def)
    show ?thesis
      using True Some old(2) wf fits am alloc_fits_slots [OF fits(1)] f
        move_slots_min [OF c] detach_and_free_emptied [OF wf(1) Some fr]
      by (simp add: PutMMVariableFieldAux_def strlen_cstr take_cstr Alloc_fits
          Lookup_any_field_index wf_named_fields Let_def set_data_def buf_field_def kept_bufs_def
          as_buf_slots_def buf_slots_def split del: if_split cong del: if_weak_cong)
  next
    case False
    then have "kept_bufs retain (Some ?old) tc k = []" for k
      by (auto simp: kept_bufs_def split: MMessageField.splits MData.splits)
    with False Some old wf fits am alloc_fits_slots [OF fits(1)] show ?thesis
      by (auto simp: PutMMVariableFieldAux_def strlen_cstr take_cstr Alloc_fits
          Lookup_any_field_index wf_named_fields Let_def buf_field_def as_buf_slots_def
          detach_and_free_wf [of msg "cstr fn"])
  qed
qed

lemma MMPutMessageField_wf [field_simps_mm]:
  assumes wf: "wf_msg msg" "is_cstr fn"
    and fits: "alloc_fits n sizeof_ptr fn"
    and am: "am (sizeof_MMessageField + unat n * unat sizeof_ptr + length (cstr fn) + 1)"
  shows "MMPutMessageField am msg retain fn n =
    Ok (True, AddMMessageField (without (cstr fn) msg) (msg_field retain (fmap msg (cstr fn)) fn n))"
proof (cases "field_index msg (cstr fn)")
  case None
  then have "fmap msg (cstr fn) = None" by (simp add: fmap_None field_index_None)
  with None show ?thesis using assms alloc_fits_slots [OF fits]
    by (simp add: MMPutMessageField_def strlen_cstr take_cstr Alloc_fits Lookup_any_field_index
        wf_named_fields without_absent msg_field_def as_msg_slots_def)
next
  case (Some i)
  let ?old = "mm_fields msg ! i"
  have old: "wf_field ?old" "fmap msg (cstr fn) = Some ?old"
    using Some wf field_index_Some wf_nth by blast+
  show ?thesis
  proof (cases "retain \<and> mf_typeCode ?old = B_MESSAGE_TYPE")
    case True
    with old obtain nm m ms fl where f: "?old = MField nm B_MESSAGE_TYPE sizeof_ptr m (MsgData ms) fl"
      and len: "length ms = unat m" and ms: "wf_slots ms" and hd: "wf_head ?old"
      by (cases ?old rule: wf_field.cases) (auto simp: wf_head_def)
    have c: "unat (if n < m then n else m) = min (unat n) (length ms)"
      using len by (simp add: word_less_nat_alt min_def)
    have "wf_slots (replicate k None @ drop k ms)" for k
      using ms by (auto simp: wf_slots_iff dest: in_set_dropD)
    then have fr: "FreeMMessageField (MField nm B_MESSAGE_TYPE sizeof_ptr m
        (MsgData (replicate (unat (if n < m then n else m)) None
                  @ drop (unat (if n < m then n else m)) ms)) fl) = Ok ()"
      using c len by (simp add: free_wf)
    show ?thesis
      using True Some old(2) wf fits am alloc_fits_slots [OF fits] f
        move_slots_min [OF c] detach_and_free_emptied [OF wf(1) Some fr]
      by (simp add: MMPutMessageField_def strlen_cstr take_cstr Alloc_fits
          Lookup_any_field_index wf_named_fields Let_def set_data_def msg_field_def kept_msgs_def
          as_msg_slots_def msg_slots_def split del: if_split cong del: if_weak_cong)
  next
    case False
    then have "kept_msgs retain (Some ?old) k = []" for k
      by (auto simp: kept_msgs_def split: MMessageField.splits MData.splits)
    with False Some old wf fits am alloc_fits_slots [OF fits] show ?thesis
      by (auto simp: MMPutMessageField_def strlen_cstr take_cstr Alloc_fits
          Lookup_any_field_index wf_named_fields Let_def msg_field_def as_msg_slots_def
          detach_and_free_wf [of msg "cstr fn"])
  qed
qed

subsection \<open>Renaming\<close>

definition renamed :: "u8 list \<Rightarrow> u8 list \<Rightarrow> MMessageField \<Rightarrow> MMessageField" where
  "renamed old new g = (if field_key g = old then set_name (new @ [0]) g else g)"

definition rename_in :: "u8 list \<Rightarrow> u8 list \<Rightarrow> MMessage \<Rightarrow> MMessage" where
  "rename_in old new msg =
     MMsg (mm_what msg) (map (renamed old new) (filter (\<lambda>g. field_key g \<noteq> new) (mm_fields msg)))"

definition rename_fits :: "MMessage \<Rightarrow> u8 list \<Rightarrow> u8 list \<Rightarrow> bool" where
  "rename_fits msg old new \<longleftrightarrow>
     (\<forall>f \<in> set (mm_fields msg). field_key f = old \<longrightarrow>
        sizeof_MMessageField + unat (mf_numItems f) * unat (mf_itemSize f) + length new + 1 < 2 ^ 32)"

lemma update_distinct_key:
  assumes "distinct (map g xs)" "i < length xs"
  shows "xs[i := h (xs ! i)] = map (\<lambda>x. if g x = g (xs ! i) then h x else x) xs"
proof (rule nth_equalityI)
  fix k assume "k < length (xs[i := h (xs ! i)])"
  then have k: "k < length xs" by simp
  with assms have "g (xs ! k) = g (xs ! i) \<longleftrightarrow> k = i"
    using nth_eq_iff_index_eq [of "map g xs" k i] by simp
  with k show "xs[i := h (xs ! i)] ! k = map (\<lambda>x. if g x = g (xs ! i) then h x else x) xs ! k"
    by simp
qed simp

lemma field_key_set_name [simp]: "0 \<notin> set new \<Longrightarrow> field_key (set_name (new @ [0]) f) = new"
  by (simp add: field_key_def set_name_def cstr_append)

lemma wf_set_name:
  assumes "wf_field f" "0 \<notin> set new"
    and "sizeof_MMessageField + unat (mf_numItems f) * unat (mf_itemSize f) + length new + 1 < 2 ^ 32"
  shows "wf_field (set_name (new @ [0]) f)"
  using assms by (cases f rule: wf_field.cases) (auto simp: set_name_def wf_head_def)

lemma wf_field_alloc:
  "wf_field f \<Longrightarrow> sizeof_MMessageField + unat (mf_numItems f) * unat (mf_itemSize f)
      + length (mf_name f) < 2 ^ 32"
  by (drule wf_field_head, unfold wf_head_def, elim conjE)

lemma field_alloc_exact:
  "wf_field f \<Longrightarrow> unat (mf_numItems f * mf_itemSize f) = unat (mf_numItems f) * unat (mf_itemSize f)"
  by (drule wf_field_alloc, rule unat_mult_no_wrap) linarith

lemma MMRenameField_wf [field_simps_mm]:
  assumes wf: "wf_msg msg" "is_cstr old" "is_cstr new"
    and fits: "rename_fits msg (cstr old) (cstr new)"
    and am: "\<And>k. am k"
  shows "MMRenameField am msg old new =
    Ok (if cstr old = cstr new then (B_NO_ERROR, msg)
        else if fmap msg (cstr old) = None then (B_ERROR, msg)
        else (B_NO_ERROR, rename_in (cstr old) (cstr new) msg))"
proof (cases "cstr old = cstr new \<or> fmap msg (cstr old) = None")
  case True
  then show ?thesis using wf fmap_None [of msg "cstr old"] field_index_None [of msg "cstr old"]
    by (auto simp: MMRenameField_def strcmp_eq_cstr Lookup_any_field_index wf_named_fields)
next
  case False
  let ?xs = "mm_fields msg"
  from False obtain i where i: "field_index msg (cstr old) = Some i"
    unfolding fmap_None field_index_None [symmetric] by blast
  then have ilt: "i < length ?xs" and ikey: "field_key (?xs ! i) = cstr old"
    using field_index_Some by blast+
  have wfi: "wf_field (?xs ! i)" using wf(1) ilt wf_nth by blast
  have small: "sizeof_MMessageField + unat (mf_numItems (?xs ! i) * mf_itemSize (?xs ! i))
      + (length (cstr new) + 1) < 2 ^ 32"
    using fits ilt ikey field_alloc_exact [OF wfi] by (simp add: rename_fits_def)
  let ?msg' = "set_field msg i (set_name (cstr new @ [0]) (?xs ! i))"
  have upd: "mm_fields ?msg' = map (renamed (cstr old) (cstr new)) ?xs"
    using update_distinct_key [of field_key ?xs i "set_name (cstr new @ [0])"] wf_uniq [OF wf(1)]
      ilt ikey by (simp add: uniq_names_def renamed_def [abs_def])
  have neq: "cstr old \<noteq> cstr new" "fmap msg (cstr old) \<noteq> None" using False by simp_all
  note unfolds = MMRenameField_def strcmp_eq_cstr [OF wf(2,3)]
    Lookup_any_field_index [OF wf_named_fields [OF wf(1)]] strlen_cstr [OF wf(3)] take_cstr [OF wf(3)]
  show ?thesis
  proof (cases "field_index msg (cstr new)")
    case None
    then have "filter (\<lambda>g. field_key g \<noteq> cstr new) ?xs = ?xs" by (rule filter_absent)
    then have "?msg' = rename_in (cstr old) (cstr new) msg"
      using upd by (simp add: rename_in_def set_field_def)
    then show ?thesis using neq None i wf(2,3) am small
      by (simp add: unfolds Let_def linorder_not_le del: mm_fields_set_field)
  next
    case (Some j)
    then have jlt: "j < length ?xs" and jkey: "field_key (?xs ! j) = cstr new"
      using field_index_Some by blast+
    have "j \<noteq> i" using ikey jkey False by auto
    then have nthj: "mm_fields ?msg' ! j = ?xs ! j" by simp
    have "take j (mm_fields ?msg') @ drop (Suc j) (mm_fields ?msg')
        = map (renamed (cstr old) (cstr new)) (take j ?xs @ drop (Suc j) ?xs)"
      unfolding upd by (simp add: take_map drop_map)
    also have "take j ?xs @ drop (Suc j) ?xs = filter (\<lambda>g. field_key g \<noteq> cstr new) ?xs"
      using filter_neq_remove [of field_key ?xs j] wf_uniq [OF wf(1)] jlt jkey
      by (simp add: uniq_names_def)
    finally have "DetachMMessageField ?msg' j = rename_in (cstr old) (cstr new) msg"
      by (simp add: DetachMMessageField_def rename_in_def del: mm_fields_set_field)
    moreover have "FreeMMessageField (?xs ! j) = Ok ()"
      using wf(1) jlt wf_nth free_wf by blast
    ultimately have "detach_and_free ?msg' j = Ok (rename_in (cstr old) (cstr new) msg)"
      using nthj by (simp add: detach_and_free_def del: mm_fields_set_field)
    then show ?thesis using neq Some i wf(2,3) am small
      by (simp add: unfolds Let_def linorder_not_le del: mm_fields_set_field)
  qed
qed

lemma fmap_eq_iff: "uniq_names msg \<Longrightarrow> fmap msg k = Some f \<longleftrightarrow> f \<in> set (mm_fields msg) \<and> field_key f = k"
  by (auto simp: fmap_def uniq_names_def rev_map [symmetric] comp_def dest!: map_of_SomeD
      intro!: map_of_is_SomeI)

lemma fmap_eqI:
  assumes "uniq_names m" "\<And>k f. (f \<in> set (mm_fields m) \<and> field_key f = k) \<longleftrightarrow> g k = Some f"
  shows "fmap m = g"
proof
  fix k
  show "fmap m k = g k"
    using fmap_eq_iff [OF assms(1), of k] assms(2) [of _ k] by (cases "g k"; cases "fmap m k") auto
qed

lemma uniq_rename_in:
  assumes "uniq_names msg" "0 \<notin> set new"
  shows "uniq_names (rename_in old new msg)"
proof -
  have "distinct (map field_key (map (renamed old new) (filter (\<lambda>g. field_key g \<noteq> new) xs)))"
    if "distinct (map field_key xs)" for xs
    using that assms(2)
    by (induction xs) (auto simp: renamed_def split: if_splits, metis image_eqI)
  with assms(1) show ?thesis by (simp add: uniq_names_def rename_in_def)
qed

lemma wf_rename_in:
  "wf_msg msg \<Longrightarrow> 0 \<notin> set new \<Longrightarrow> rename_fits msg old new \<Longrightarrow> wf_msg (rename_in old new msg)"
  using uniq_rename_in [of msg new old] wf_set_name
  by (auto simp: wf_msg_fields wf_fields_iff rename_in_def renamed_def rename_fits_def)

lemma fmap_rename_in:
  assumes "uniq_names msg" "0 \<notin> set new" "old \<noteq> new" "fmap msg old = Some f"
  shows "fmap (rename_in old new msg) = (fmap msg)(old := None, new \<mapsto> set_name (new @ [0]) f)"
proof (rule fmap_eqI)
  show "uniq_names (rename_in old new msg)" using assms uniq_rename_in by blast
  have inj: "x = y" if "x \<in> set (mm_fields msg)" "y \<in> set (mm_fields msg)"
      "field_key x = field_key y" for x y
    using that assms(1) by (auto simp: uniq_names_def distinct_map dest: inj_onD)
  fix k g
  show "(g \<in> set (mm_fields (rename_in old new msg)) \<and> field_key g = k) \<longleftrightarrow>
      ((fmap msg)(old := None, new \<mapsto> set_name (new @ [0]) f)) k = Some g"
    using assms fmap_eq_iff [OF assms(1)]
    by (auto simp: rename_in_def renamed_def image_iff split: if_splits dest: inj)
qed

subsection \<open>Copying and moving between Messages\<close>

lemma MMCopyField_wf [field_simps_mm]:
  assumes "wf_msg src" "wf_msg dest" "is_cstr fn"
  shows "MMCopyField am src fn (Some dest) False =
    Ok (case fmap src (cstr fn) of
          None \<Rightarrow> (B_ERROR, Some dest)
        | Some f \<Rightarrow>
            if CloneMMessageField am f = Ok None then (B_ERROR, Some dest)
            else (B_NO_ERROR, Some (AddMMessageField (without (cstr fn) dest) f)))"
proof (cases "field_index src (cstr fn)")
  case None
  then have "fmap src (cstr fn) = None" by (simp add: fmap_None field_index_None)
  with None show ?thesis using assms
    by (simp add: MMCopyField_def Lookup_any_field_index wf_named_fields)
next
  case (Some i)
  then have f: "fmap src (cstr fn) = Some (mm_fields src ! i)" "wf_field (mm_fields src ! i)"
    using assms field_index_Some wf_nth by blast+
  have "(case field_index dest (cstr fn) of None \<Rightarrow> Ok dest | Some j \<Rightarrow> detach_and_free dest j)
      = Ok (without (cstr fn) dest)"
    using detach_and_free_wf [OF assms(2)] without_absent
    by (auto split: option.split)
  with Some f clone_wf(3) [OF f(2), of am] show ?thesis using assms
    by (auto simp: MMCopyField_def Lookup_any_field_index wf_named_fields)
qed

lemma MMMoveField_wf [field_simps_mm]:
  assumes "wf_msg src" "wf_msg dest" "is_cstr fn" "fmap dest (cstr fn) = None"
  shows "MMMoveField src fn (Some dest) False =
    Ok (case fmap src (cstr fn) of
          None \<Rightarrow> (B_ERROR, src, Some dest)
        | Some f \<Rightarrow> (B_NO_ERROR, without (cstr fn) src, Some (AddMMessageField dest f)))"
proof -
  have "field_index dest (cstr fn) = None" using assms(4) by (simp add: fmap_None field_index_None)
  then show ?thesis
    using assms fmap_None [of src "cstr fn"] field_index_None [of src "cstr fn"]
      field_index_Some [of src "cstr fn"] Detach_filter [of src "cstr fn"] wf_uniq [of src]
    by (auto simp: MMMoveField_def Lookup_any_field_index wf_named_fields Let_def without_def
        split: option.splits)
qed

lemma MMMoveField_use_after_free:
  assumes "wf_msg src" "wf_msg dest" "is_cstr fn"
    and "fmap src (cstr fn) \<noteq> None" "fmap dest (cstr fn) \<noteq> None"
  shows "MMMoveField src fn (Some dest) False = Fault"
proof -
  obtain i j where "field_index src (cstr fn) = Some i" "field_index dest (cstr fn) = Some j"
    using assms(4,5) fmap_None field_index_None by (metis not_None_eq)
  moreover from this have "FreeMMessageField (mm_fields src ! i) = Ok ()"
    using assms(1) field_index_Some wf_nth free_wf by blast
  ultimately show ?thesis using assms
    by (simp add: MMMoveField_def Lookup_any_field_index wf_named_fields)
qed

subsection \<open>Iterating and comparing\<close>

definition type_matches :: "u32 \<Rightarrow> MMessageField \<Rightarrow> bool" where
  "type_matches tc f \<longleftrightarrow> tc = B_ANY_TYPE \<or> tc = mf_typeCode f"

lemma next_name_filter:
  "case filter (type_matches tc) fs of
     [] \<Rightarrow> next_name tc fs = (None, [])
   | f # rest \<Rightarrow> (\<exists>fs'. next_name tc fs = (Some (mf_name f, mf_typeCode f), fs')
                   \<and> filter (type_matches tc) fs' = rest)"
proof (induction fs)
  case (Cons f fs)
  have "next_name tc (f # fs) =
      (if type_matches tc f then (Some (mf_name f, mf_typeCode f), fs) else next_name tc fs)"
    by (simp add: type_matches_def)
  with Cons show ?case
    by (simp del: next_name.simps(2) split del: list.split cong del: list.case_cong)
qed simp

lemma equal_refl:
  "wf_msg m \<Longrightarrow> MMAreMessagesEqual False m m = Ok True"
  "wf_fields fs \<Longrightarrow> (\<forall>f \<in> set fs. EqualField f f = Ok True)"
  "wf_field f \<Longrightarrow> EqualField f f = Ok True"
  "wf_slots ms \<Longrightarrow> EqualSlots ms ms = Ok True"
proof (induction m and fs and f and ms rule: MMessage_induct)
  case (1 w fs)
  let ?m = "MMsg w fs"
  have "EqualFields gs ?m = Ok True" if "set gs \<subseteq> set fs" for gs
    using that
  proof (induction gs)
    case (Cons g gs)
    then have "fmap ?m (field_key g) = Some g" using fmap_eq_iff [OF wf_uniq [OF "1.prems"]] by simp
    then obtain j where j: "field_index ?m (field_key g) = Some j" "fs ! j = g"
      using field_index_Some [of ?m "field_key g"] fmap_None field_index_None
      by (metis MMessage.sel(2) not_None_eq option.inject)
    have "is_cstr (mf_name g)"
      using wf_named_fields [OF "1.prems"] Cons.prems by (auto simp: named_fields_def)
    with j Cons "1" show ?case
      using wf_named_fields [OF "1.prems"]
      by (auto simp: Lookup_field_index field_key_def)
  qed simp
  then show ?case by simp
next
  case (5 nm tc isz n bufs fl)
  have "bufs_equal xs xs" for xs
    by (auto simp: bufs_equal_def list_all2_same MBAreByteBuffersEqual_def split: option.split)
  with 5 show ?case by (auto simp: buf_slots_def)
next
  case (4 nm tc isz n bs fl)
  then have "unat (n * isz) = unat n * unat isz"
    using field_alloc_exact [of "MField nm tc isz n (FixedData bs) fl"] by simp
  with 4 show ?case by (simp add: fixed_bytes_def)
qed (auto simp: msg_slots_def)

end
