(* ===== verification/Mini_Codec.thy ===== *)
theory Mini_Codec
  imports Mini_Table
begin

section \<open>MiniMessage: flattening\<close>

text \<open>
  \<^verbatim>\<open>GetMMessageFieldFlattenedSize\<close>, \<^verbatim>\<open>SwapCopy\<close>, \<^verbatim>\<open>FlattenMMessageField\<close>,
  \<^verbatim>\<open>MMGetFlattenedSize\<close> and \<^verbatim>\<open>MMFlattenMessage\<close> of
  \<^verbatim>\<open>source/muscle/minimessage/MiniMessage.c\<close>, and the wire format they implement.  The output
  buffer is a block of memory \<open>buf\<close>; a pointer into it is the position \<open>base\<close>, and
  \<^verbatim>\<open>writeOffset\<close> is the 32-bit \<open>off\<close>.  A write outside of the block is a \<open>Fault\<close>.  The
  parameter \<open>big\<close> says that the host is not little-endian.  Field data is kept in host order.
\<close>

named_theorems flat_simps "evaluation of the writers on a partly written buffer"

subsection \<open>Sizes\<close>

text \<open>A NULL buffer counts as an empty one, a NULL Message as an empty Message.\<close>

definition buf_bytes :: "u8 list option \<Rightarrow> u8 list" where
  "buf_bytes b = (case b of None \<Rightarrow> [] | Some x \<Rightarrow> x)"

definition BufsSize :: "u8 list option list \<Rightarrow> u32" where
  "BufsSize bufs = sum_list (map (\<lambda>b. word_of_nat (length (buf_bytes b))) bufs)"

fun MMGetFlattenedSize :: "MMessage \<Rightarrow> u32 outcome"
and FieldsFlattenedSize :: "MMessageField list \<Rightarrow> u32 outcome"
and GetMMessageFieldFlattenedSize :: "MMessageField \<Rightarrow> bool \<Rightarrow> u32 outcome"
and SlotsFlattenedSize :: "MMessage option list \<Rightarrow> u32 outcome"
where
  "MMGetFlattenedSize (MMsg w fs) = obind (FieldsFlattenedSize fs) (\<lambda>sum. Ok (3 * 4 + sum))"
| "FieldsFlattenedSize [] = Ok 0"
| "FieldsFlattenedSize (f # fs) =
     (if mf_isFlattenable f
      then obind (GetMMessageFieldFlattenedSize f True) (\<lambda>a.
           obind (FieldsFlattenedSize fs) (\<lambda>b. Ok (a + b)))
      else FieldsFlattenedSize fs)"
| "GetMMessageFieldFlattenedSize (MField nm tc isz n d fl) includeHeaders =
     (let sum = (if includeHeaders then 4 + word_of_nat (length nm) + 4 + 4 else 0) in
      if IsTypeCodeVariableSize tc then
        (case d of
           FixedData bs \<Rightarrow> Fault
         | MsgData msgs \<Rightarrow>
             if tc \<noteq> B_MESSAGE_TYPE \<or> length msgs < unat n then Fault
             else obind (SlotsFlattenedSize msgs) (\<lambda>s. Ok (sum + n * 4 + s))
         | BufData bufs \<Rightarrow>
             if tc = B_MESSAGE_TYPE then Fault
             else obind (slots n bufs) (\<lambda>bs. Ok (sum + n * 4 + 4 + BufsSize bs)))
      else Ok (sum + n * isz))"
| "SlotsFlattenedSize [] = Ok 0"
| "SlotsFlattenedSize (None # ms) = obind (SlotsFlattenedSize ms) (\<lambda>b. Ok (3 * 4 + b))"
| "SlotsFlattenedSize (Some m # ms) =
     obind (MMGetFlattenedSize m) (\<lambda>a. obind (SlotsFlattenedSize ms) (\<lambda>b. Ok (a + b)))"

subsection \<open>Byte swapping\<close>

text \<open>
  \<^verbatim>\<open>SwapCopy(out, in, numItems, itemSize)\<close>: \<open>dst\<close> and \<open>src\<close> are the memory from the two
  pointers on.  One pass per byte of an item, from the last to the first, each over all the items;
  \<open>SwapColumn\<close> is the inner loop, \<open>SwapRows\<close> the outer one.
\<close>

function SwapColumn :: "u8 list \<Rightarrow> nat \<Rightarrow> nat \<Rightarrow> nat \<Rightarrow> nat \<Rightarrow> nat \<Rightarrow> u8 list \<Rightarrow> u8 list outcome" where
  "SwapColumn src inp outp numBytes itemSize i dst =
     (if i < numBytes \<and> 0 < itemSize
      then if outp + i < length dst \<and> inp + i < length src
           then SwapColumn src inp outp numBytes itemSize (i + itemSize)
                  (dst[outp + i := src ! (inp + i)])
           else Fault
      else Ok dst)"
  by auto
termination
  by (relation "measure (\<lambda>(src, inp, outp, numBytes, itemSize, i, dst). numBytes - i)") auto

declare SwapColumn.simps [simp del]

fun SwapRows :: "u8 list \<Rightarrow> nat \<Rightarrow> nat \<Rightarrow> nat \<Rightarrow> u8 list \<Rightarrow> u8 list outcome" where
  "SwapRows src numBytes itemSize 0 dst = Ok dst"
| "SwapRows src numBytes itemSize (Suc whichByte) dst =
     obind (SwapColumn src (itemSize - (whichByte + 1)) whichByte numBytes itemSize 0 dst)
       (\<lambda>dst'. SwapRows src numBytes itemSize whichByte dst')"

definition SwapCopy :: "u8 list \<Rightarrow> u8 list \<Rightarrow> u32 \<Rightarrow> u32 \<Rightarrow> u8 list outcome" where
  "SwapCopy dst src numItems itemSize =
     (if 1 < itemSize
      then SwapRows src (nat (sint (numItems * itemSize))) (unat itemSize) (unat itemSize) dst
      else memcpy dst src (unat numItems))"

text \<open>What it is for: the bytes of each item in reverse order.\<close>

definition reverse_items :: "nat \<Rightarrow> u8 list \<Rightarrow> u8 list" where
  "reverse_items s bs = map (\<lambda>p. bs ! (p - p mod s + (s - 1 - p mod s))) [0..<length bs]"

lemma length_reverse_items [simp]: "length (reverse_items s bs) = length bs"
  by (simp add: reverse_items_def)

lemma item_end:
  fixes p s N :: nat
  assumes "p < N * s" "q < s"
  shows "p - p mod s + q < N * s"
proof -
  have "0 < s" "p div s < N" using assms by (auto simp: less_mult_imp_div_less)
  have "p - p mod s + q = p div s * s + q" by (simp add: minus_mod_eq_div_mult)
  also have "\<dots> < p div s * s + s" using assms(2) by simp
  also have "\<dots> = (p div s + 1) * s" by simp
  also have "\<dots> \<le> N * s" using \<open>p div s < N\<close> by (intro mult_le_mono1) simp
  finally show ?thesis .
qed

lemma reverse_items_involution:
  assumes "0 < s" "length bs = N * s"
  shows "reverse_items s (reverse_items s bs) = bs"
proof (rule nth_equalityI)
  fix p assume "p < length (reverse_items s (reverse_items s bs))"
  then have p: "p < N * s" using assms by simp
  let ?q = "p - p mod s + (s - 1 - p mod s)"
  have m: "p mod s < s" using assms(1) by simp
  have q: "?q < N * s" using p assms(1) by (intro item_end) auto
  have e: "p - p mod s = p div s * s" by (simp add: minus_mod_eq_div_mult)
  have qm: "?q mod s = s - 1 - p mod s" unfolding e using assms(1) by (simp add: mult.commute)
  have r: "?q - ?q mod s + (s - 1 - ?q mod s) = p"
    unfolding qm using m e by simp
  have nth: "reverse_items s xs ! k = xs ! (k - k mod s + (s - 1 - k mod s))"
    if "k < length xs" for xs k
    using that unfolding reverse_items_def by (subst nth_map) (simp_all only: length_upt nth_upt add_0_left diff_zero)
  have "reverse_items s (reverse_items s bs) ! p = reverse_items s bs ! ?q"
    by (rule nth) (simp only: length_reverse_items assms(2) p)
  also have "\<dots> = bs ! (?q - ?q mod s + (s - 1 - ?q mod s))"
    by (rule nth) (simp only: assms(2) q)
  finally show "reverse_items s (reverse_items s bs) ! p = bs ! p" by (simp only: r)
qed simp

lemma SwapColumn_eq:
  assumes "0 < s" "outp < s" "inp < s" "a \<le> N" "N * s \<le> length dst" "N * s \<le> length src"
  shows "SwapColumn src inp outp (N * s) s (a * s) dst =
    Ok (map (\<lambda>p. if a * s \<le> p \<and> p < N * s \<and> p mod s = outp then src ! (p - p mod s + inp)
                 else dst ! p) [0..<length dst])"
  using assms(4,5)
proof (induction "N - a" arbitrary: a dst)
  case 0
  then show ?case by (auto simp: SwapColumn.simps map_nth intro!: nth_equalityI)
next
  case (Suc k)
  then have a: "a < N" "k = N - Suc a" by simp_all
  then have "(a + 1) * s \<le> N * s" by (intro mult_le_mono1) simp
  then have b: "a * s + s \<le> N * s" by simp
  have step: "SwapColumn src inp outp (N * s) s (a * s) dst =
      SwapColumn src inp outp (N * s) s (Suc a * s) (dst[outp + a * s := src ! (inp + a * s)])"
    using a b assms Suc.prems by (subst SwapColumn.simps) (simp add: add.commute)
  show ?case
    unfolding step
  proof (subst Suc.hyps(1))
    show "k = N - Suc a" "Suc a \<le> N" using a by simp_all
    show "N * s \<le> length (dst[outp + a * s := src ! (inp + a * s)])" using Suc.prems by simp
    have eq: "(if Suc a * s \<le> p \<and> p < N * s \<and> p mod s = outp then src ! (p - p mod s + inp)
          else dst[outp + a * s := src ! (inp + a * s)] ! p) =
        (if a * s \<le> p \<and> p < N * s \<and> p mod s = outp then src ! (p - p mod s + inp) else dst ! p)"
      if "p < length dst" for p
    proof (cases "p = outp + a * s")
      case True
      then show ?thesis using that b assms(1,2) by (simp add: add.commute)
    next
      case False
      have "Suc a * s \<le> p" if "a * s \<le> p" "p mod s = outp"
      proof (rule ccontr)
        assume "\<not> Suc a * s \<le> p"
        then have "p div s = a" using that(1) assms(1)
          by (intro div_nat_eqI) (simp_all add: mult.commute)
        then have "p = outp + a * s" using that(2) by (metis mod_mult_div_eq add.commute mult.commute)
        with False show False by simp
      qed
      then show ?thesis using False by auto
    qed
    then show "Ok (map (\<lambda>p. if Suc a * s \<le> p \<and> p < N * s \<and> p mod s = outp
          then src ! (p - p mod s + inp) else dst[outp + a * s := src ! (inp + a * s)] ! p)
          [0..<length (dst[outp + a * s := src ! (inp + a * s)])]) =
        Ok (map (\<lambda>p. if a * s \<le> p \<and> p < N * s \<and> p mod s = outp then src ! (p - p mod s + inp)
                 else dst ! p) [0..<length dst])"
      by simp
  qed
qed

lemma SwapRows_eq:
  assumes "0 < s" "k \<le> s" "N * s \<le> length dst" "N * s \<le> length src"
  shows "SwapRows src (N * s) s k dst =
    Ok (map (\<lambda>p. if p < N * s \<and> p mod s < k then src ! (p - p mod s + (s - 1 - p mod s))
                 else dst ! p) [0..<length dst])"
  using assms(2,3)
proof (induction k arbitrary: dst)
  case 0
  then show ?case by (simp add: map_nth)
next
  case (Suc k)
  then show ?case
    using SwapColumn_eq [of s k "s - (k + 1)" 0 N dst src] assms(1,4)
    by (auto simp: less_Suc_eq intro!: nth_equalityI)
qed

lemma sint_u32_small: "unat (w :: u32) < 2 ^ 31 \<Longrightarrow> nat (sint w) = unat w"
proof -
  assume "unat w < 2 ^ 31"
  then have "int (unat w) < int (2 ^ 31)" by (simp only: of_nat_less_iff)
  then have u: "uint w < 2 ^ 31" by simp
  have "sint w = uint w"
    unfolding sint_uint
  proof (rule signed_take_bit_int_eq_self)
    have "- (2 ^ (LENGTH(32) - Suc 0)) \<le> (0 :: int)" by simp
    also have "\<dots> \<le> uint w" by simp
    finally show "- (2 ^ (LENGTH(32) - Suc 0)) \<le> uint w" .
    show "uint w < 2 ^ (LENGTH(32) - Suc 0)" using u by simp
  qed
  then show ?thesis by simp
qed

lemma SwapCopy_reverse_items:
  assumes "0 < s" "length bs = N * s" "N * s \<le> length dst" "N * s < 2 ^ 31"
    and "unat n = N" "unat isz = s"
  shows "SwapCopy dst (bs @ ys) n isz = Ok (reverse_items s bs @ drop (N * s) dst)"
proof (cases "s = 1")
  case True
  then have "isz = 1" using assms(6) by (metis unat_1 word_unat_eq_iff)
  moreover have "reverse_items 1 bs = bs" by (simp add: reverse_items_def map_nth)
  ultimately show ?thesis using assms True by (simp add: SwapCopy_def memcpy_def)
next
  case False
  have p: "unat (n * isz) = N * s"
    using assms by (subst unat_mult_no_wrap) simp_all
  have "1 < isz" using False assms(1,6) by (simp add: word_less_nat_alt)
  moreover have "map (\<lambda>p. if p < N * s \<and> p mod s < s
        then (bs @ ys) ! (p - p mod s + (s - 1 - p mod s)) else dst ! p) [0..<length dst] =
      reverse_items s bs @ drop (N * s) dst"
  proof (rule nth_equalityI, goal_cases)
    case (2 k)
    show ?case
    proof (cases "k < N * s")
      case True
      then have "k - k mod s + (s - 1 - k mod s) < length bs"
        unfolding assms(2) using assms(1) by (intro item_end) auto
      then have "(bs @ ys) ! (k - k mod s + (s - 1 - k mod s)) =
          bs ! (k - k mod s + (s - 1 - k mod s))"
        by (simp only: nth_append if_True)
      with True 2 assms(1-3) show ?thesis
        by (simp only: reverse_items_def nth_append length_map length_upt diff_zero nth_map nth_upt
            add_0_left mod_less_divisor if_True simp_thms)
    next
      case False
      with 2 assms(2,3) show ?thesis by (simp add: nth_append)
    qed
  qed (use assms in simp)
  ultimately show ?thesis
    using SwapRows_eq [of s s N dst "bs @ ys"] assms p
    by (simp add: SwapCopy_def sint_u32_small [of "n * isz"])
qed

subsection \<open>Writing\<close>

definition WriteData :: "u8 list \<Rightarrow> nat \<Rightarrow> u32 \<Rightarrow> u8 list \<Rightarrow> (u8 list \<times> u32) outcome" where
  "WriteData buf base off bs =
     obind (mem_write buf (base + unat off) bs) (\<lambda>buf'. Ok (buf', off + word_of_nat (length bs)))"

text \<open>
  The unit in which the bytes of an item are swapped, as the number of units per item and the
  size of one: points and rectangles are two and four floats.
\<close>

definition swap_units :: "u32 \<Rightarrow> u32 \<Rightarrow> u32 \<times> u32" where
  "swap_units tc itemSize =
     (if tc = B_POINT_TYPE then (2, 4) else if tc = B_RECT_TYPE then (4, 4) else (1, itemSize))"

definition WriteFixedData ::
    "bool \<Rightarrow> u32 \<Rightarrow> u32 \<Rightarrow> u32 \<Rightarrow> u8 list \<Rightarrow> u8 list \<Rightarrow> nat \<Rightarrow> u32 \<Rightarrow> (u8 list \<times> u32) outcome" where
  "WriteFixedData big tc n isz bs buf base off =
     (let dst = drop (base + unat off) buf; dataSize = n * isz; (k, u) = swap_units tc isz in
      obind (if big \<and> tc \<noteq> B_BOOL_TYPE \<and> tc \<noteq> B_INT8_TYPE then SwapCopy dst bs (n * k) u
             else memcpy dst bs (unat dataSize)) (\<lambda>dst'.
      Ok (take (base + unat off) buf @ dst', off + dataSize)))"

fun WriteBufs :: "u8 list option list \<Rightarrow> u8 list \<Rightarrow> nat \<Rightarrow> u32 \<Rightarrow> (u8 list \<times> u32) outcome" where
  "WriteBufs [] buf base off = Ok (buf, off)"
| "WriteBufs (b # bufs) buf base off =
     obind (WriteData buf base off (u32_le (word_of_nat (length (buf_bytes b))))) (\<lambda>s.
     obind (WriteData (fst s) base (snd s) (buf_bytes b)) (\<lambda>t.
     WriteBufs bufs (fst t) base (snd t)))"

definition numFlattenableEntries :: "MMessageField list \<Rightarrow> u32" where
  "numFlattenableEntries fs = word_of_nat (length (filter mf_isFlattenable fs))"

text \<open>One \<^verbatim>\<open>WriteData\<close> per 32-bit word, each \<^verbatim>\<open>B_HOST_TO_LENDIAN_INT32\<close> of its value.\<close>

fun WriteWords :: "u32 list \<Rightarrow> u8 list \<Rightarrow> nat \<Rightarrow> u32 \<Rightarrow> (u8 list \<times> u32) outcome" where
  "WriteWords [] buf base off = Ok (buf, off)"
| "WriteWords (w # ws) buf base off =
     obind (WriteData buf base off (u32_le w)) (\<lambda>s. WriteWords ws (fst s) base (snd s))"

text \<open>Steps 3 to 6 of \<^verbatim>\<open>FlattenMMessageField\<close>: what precedes the data of an entry.\<close>

definition WriteFieldHeader :: "MMessageField \<Rightarrow> u8 list \<Rightarrow> nat \<Rightarrow> (u8 list \<times> u32) outcome" where
  "WriteFieldHeader f buf base =
     obind (WriteData buf base 0 (u32_le (word_of_nat (length (mf_name f))))) (\<lambda>s.
     obind (WriteData (fst s) base (snd s) (mf_name f)) (\<lambda>t.
     obind (WriteData (fst t) base (snd t) (u32_le (mf_typeCode f))) (\<lambda>u.
     obind (GetMMessageFieldFlattenedSize f False) (\<lambda>dsize.
     WriteData (fst u) base (snd u) (u32_le dsize)))))"

function (sequential) MMFlattenMessage :: "bool \<Rightarrow> MMessage \<Rightarrow> u8 list \<Rightarrow> nat \<Rightarrow> u8 list outcome"
and FlattenFields :: "bool \<Rightarrow> MMessageField list \<Rightarrow> u8 list \<Rightarrow> nat \<Rightarrow> u32 \<Rightarrow>
      (u8 list \<times> u32) outcome"
and FlattenMMessageField :: "bool \<Rightarrow> MMessageField \<Rightarrow> u8 list \<Rightarrow> nat \<Rightarrow> (u8 list \<times> u32) outcome"
and FlattenSlots :: "bool \<Rightarrow> MMessage option list \<Rightarrow> u8 list \<Rightarrow> nat \<Rightarrow> u32 \<Rightarrow>
      (u8 list \<times> u32) outcome"
where
  "MMFlattenMessage big (MMsg w fs) buf base =
     obind (WriteWords [CURRENT_PROTOCOL_VERSION, w, numFlattenableEntries fs] buf base 0) (\<lambda>s.
     obind (FlattenFields big fs (fst s) base (snd s)) (\<lambda>t. Ok (fst t)))"
| "FlattenFields big [] buf base off = Ok (buf, off)"
| "FlattenFields big (f # fs) buf base off =
     (if mf_isFlattenable f
      then obind (FlattenMMessageField big f buf (base + unat off)) (\<lambda>s.
           FlattenFields big fs (fst s) base (off + snd s))
      else FlattenFields big fs buf base off)"
| "FlattenMMessageField big (MField nm tc isz n (FixedData bs) fl) buf base =
     obind (WriteFieldHeader (MField nm tc isz n (FixedData bs) fl) buf base) (\<lambda>s.
     if IsTypeCodeVariableSize tc then Fault
     else WriteFixedData big tc n isz bs (fst s) base (snd s))"
| "FlattenMMessageField big (MField nm tc isz n (BufData bufs) fl) buf base =
     obind (WriteFieldHeader (MField nm tc isz n (BufData bufs) fl) buf base) (\<lambda>s.
     if \<not> IsTypeCodeVariableSize tc \<or> tc = B_MESSAGE_TYPE then Fault
     else obind (slots n bufs) (\<lambda>xs.
          obind (WriteWords [n] (fst s) base (snd s)) (\<lambda>t.
          WriteBufs xs (fst t) base (snd t))))"
| "FlattenMMessageField big (MField nm tc isz n (MsgData msgs) fl) buf base =
     obind (WriteFieldHeader (MField nm tc isz n (MsgData msgs) fl) buf base) (\<lambda>s.
     if tc \<noteq> B_MESSAGE_TYPE \<or> length msgs < unat n then Fault
     else FlattenSlots big msgs (fst s) base (snd s))"
| "FlattenSlots big [] buf base off = Ok (buf, off)"
| "FlattenSlots big (None # ms) buf base off =
     obind (WriteWords [3 * 4, CURRENT_PROTOCOL_VERSION, 0, 0] buf base off) (\<lambda>s.
     FlattenSlots big ms (fst s) base (snd s))"
| "FlattenSlots big (Some m # ms) buf base off =
     obind (MMGetFlattenedSize m) (\<lambda>msgSize.
     obind (WriteWords [msgSize] buf base off) (\<lambda>s.
     obind (MMFlattenMessage big m (fst s) (base + unat (snd s))) (\<lambda>buf'.
     FlattenSlots big ms buf' base (snd s + msgSize))))"
  by pat_completeness auto
termination
  by (relation "measure (case_sum
      (case_sum (\<lambda>(_, m, _, _). size m) (\<lambda>(_, fs, _, _, _). size_list size fs))
      (case_sum (\<lambda>(_, f, _, _). size f) (\<lambda>(_, ms, _, _, _). size_list (size_option size) ms)))") auto

subsection \<open>The wire format\<close>

text \<open>
  The format as the comments of the C code describe it: all integers little-endian, the fields
  that are flattenable, in order; per field the length of its name, the name with its zero, the
  type code, the length of the data and the data.
\<close>

definition wire_fixed :: "bool \<Rightarrow> u32 \<Rightarrow> u32 \<Rightarrow> u8 list \<Rightarrow> u8 list" where
  "wire_fixed big tc isz bs = (if big then reverse_items (unat (snd (swap_units tc isz))) bs else bs)"

definition wire_bufs :: "u8 list option list \<Rightarrow> u8 list" where
  "wire_bufs bufs = concat (map (\<lambda>b. u32_le (word_of_nat (length (buf_bytes b))) @ buf_bytes b) bufs)"

definition wire_field :: "u8 list \<Rightarrow> u32 \<Rightarrow> u8 list \<Rightarrow> u8 list" where
  "wire_field nm tc payload =
     u32_le (word_of_nat (length nm)) @ nm @ u32_le tc @ u32_le (word_of_nat (length payload)) @ payload"

fun wire_msg :: "bool \<Rightarrow> MMessage \<Rightarrow> u8 list"
and wire_fields :: "bool \<Rightarrow> MMessageField list \<Rightarrow> u8 list"
and wire_data :: "bool \<Rightarrow> MMessageField \<Rightarrow> u8 list"
and wire_slots :: "bool \<Rightarrow> MMessage option list \<Rightarrow> u8 list"
where
  "wire_msg big (MMsg w fs) =
     u32_le CURRENT_PROTOCOL_VERSION @ u32_le w @ u32_le (numFlattenableEntries fs)
     @ wire_fields big fs"
| "wire_fields big [] = []"
| "wire_fields big (f # fs) =
     (if mf_isFlattenable f then wire_field (mf_name f) (mf_typeCode f) (wire_data big f) else [])
     @ wire_fields big fs"
| "wire_data big (MField nm tc isz n (FixedData bs) fl) = wire_fixed big tc isz bs"
| "wire_data big (MField nm tc isz n (BufData bufs) fl) = u32_le n @ wire_bufs bufs"
| "wire_data big (MField nm tc isz n (MsgData msgs) fl) = wire_slots big msgs"
| "wire_slots big [] = []"
| "wire_slots big (None # ms) =
     u32_le 12 @ u32_le CURRENT_PROTOCOL_VERSION @ u32_le 0 @ u32_le 0 @ wire_slots big ms"
| "wire_slots big (Some m # ms) =
     u32_le (word_of_nat (length (wire_msg big m))) @ wire_msg big m @ wire_slots big ms"

lemma length_wire_fixed [simp]: "length (wire_fixed big tc isz bs) = length bs"
  by (simp add: wire_fixed_def)

lemma length_wire_field:
  "length (wire_field nm tc p) = 12 + length nm + length p"
  by (simp add: wire_field_def)

lemma BufsSize_wire: "word_of_nat (length (wire_bufs bufs)) = word_of_nat (4 * length bufs) + BufsSize bufs"
  by (induction bufs) (simp_all add: wire_bufs_def BufsSize_def algebra_simps)

text \<open>The computed sizes are the lengths of the format, modulo \<open>2 ^ 32\<close>.\<close>

lemma size_wire:
  "wf_msg m \<Longrightarrow> MMGetFlattenedSize m = Ok (word_of_nat (length (wire_msg big m)))"
  "wf_fields fs \<Longrightarrow> FieldsFlattenedSize fs = Ok (word_of_nat (length (wire_fields big fs)))"
  "wf_field f \<Longrightarrow> \<forall>h. GetMMessageFieldFlattenedSize f h =
     Ok ((if h then 4 + word_of_nat (length (mf_name f)) + 4 + 4 else 0)
         + word_of_nat (length (wire_data big f)))"
  "wf_slots ms \<Longrightarrow> SlotsFlattenedSize ms =
     Ok (word_of_nat (length (wire_slots big ms)) - 4 * word_of_nat (length ms))"
proof (induction m and fs and f and ms rule: MMessage_induct)
  case (5 nm tc isz n bufs fl)
  then show ?case using BufsSize_wire [of bufs] by simp
next
  case (6 nm tc isz n msgs fl)
  then show ?case by (auto simp: algebra_simps)
qed (simp_all add: wire_field_def algebra_simps)

subsection \<open>The writers produce the format\<close>

text \<open>\<open>overlay buf base bs\<close>: the block after \<open>bs\<close> was written at \<open>base\<close>.\<close>

definition overlay :: "u8 list \<Rightarrow> nat \<Rightarrow> u8 list \<Rightarrow> u8 list" where
  "overlay buf base bs = take base buf @ bs @ drop (base + length bs) buf"

definition size_limit :: "bool \<Rightarrow> nat" where
  \<comment> \<open>\<^verbatim>\<open>SwapCopy\<close> counts bytes in an \<^verbatim>\<open>int\<close>\<close>
  "size_limit big = (if big then 2 ^ 31 else 2 ^ 32)"

definition room :: "bool \<Rightarrow> u8 list \<Rightarrow> nat \<Rightarrow> nat \<Rightarrow> bool" where
  "room big buf base n \<longleftrightarrow> base + n \<le> length buf \<and> n < size_limit big"

lemma size_limit_u32: "n < size_limit big \<Longrightarrow> n < 2 ^ 32"
  by (simp add: size_limit_def split: if_splits)

lemma room_mono: "room big buf base n \<Longrightarrow> k \<le> n \<Longrightarrow> room big buf base k"
  by (simp add: room_def)

lemma overlay_Nil [simp]: "overlay buf base [] = buf"
  by (simp add: overlay_def)

lemma overlay_overlay [flat_simps]:
  assumes "base + length a \<le> length buf"
  shows "overlay (overlay buf base a) (base + length a) b = overlay buf base (a @ b)"
  using assms by (simp add: overlay_def ac_simps)

lemma length_overlay: "room big buf base (length a) \<Longrightarrow> length (overlay buf base a) = length buf"
  by (simp add: overlay_def room_def)

text \<open>
  \<open>writes big W bs\<close>: the writer \<open>W\<close> appends \<open>bs\<close> to what was written from \<open>base\<close> on and advances
  the offset past it; \<open>writes_at\<close> is the same for the functions that start at offset zero.
\<close>

type_synonym writer = "u8 list \<Rightarrow> nat \<Rightarrow> u32 \<Rightarrow> (u8 list \<times> u32) outcome"

definition writes :: "bool \<Rightarrow> writer \<Rightarrow> u8 list \<Rightarrow> bool" where
  "writes big W bs \<longleftrightarrow>
     (\<forall>buf base acc. room big buf base (length acc + length bs) \<longrightarrow>
        W (overlay buf base acc) base (word_of_nat (length acc)) =
          Ok (overlay buf base (acc @ bs), word_of_nat (length acc + length bs)))"

definition writes_at ::
    "bool \<Rightarrow> (u8 list \<Rightarrow> nat \<Rightarrow> (u8 list \<times> u32) outcome) \<Rightarrow> u8 list \<Rightarrow> bool" where
  "writes_at big F bs \<longleftrightarrow>
     (\<forall>buf base. room big buf base (length bs) \<longrightarrow>
        F buf base = Ok (overlay buf base bs, word_of_nat (length bs)))"

lemma writesD:
  "writes big W bs \<Longrightarrow> room big buf base (length acc + length bs) \<Longrightarrow>
   W (overlay buf base acc) base (word_of_nat (length acc)) =
     Ok (overlay buf base (acc @ bs), word_of_nat (length acc + length bs))"
  by (simp add: writes_def)

lemma obind_assoc: "obind (obind r f) g = obind r (\<lambda>a. obind (f a) g)"
  by (cases r) simp_all

lemma writes_seq:
  assumes "writes big V a" "writes big W b"
  shows "writes big (\<lambda>buf base off. obind (V buf base off) (\<lambda>s. W (fst s) base (snd s))) (a @ b)"
  unfolding writes_def
proof (intro allI impI)
  fix buf base and acc :: "u8 list"
  assume r: "room big buf base (length acc + length (a @ b))"
  then have "room big buf base (length acc + length a)" by (elim room_mono) simp
  with assms(1) have "V (overlay buf base acc) base (word_of_nat (length acc)) =
      Ok (overlay buf base (acc @ a), word_of_nat (length (acc @ a)))"
    by (simp only: writes_def length_append)
  moreover have "W (overlay buf base (acc @ a)) base (word_of_nat (length (acc @ a))) =
      Ok (overlay buf base ((acc @ a) @ b), word_of_nat (length (acc @ a) + length b))"
    using r by (intro writesD [OF assms(2)]) (simp add: add.assoc)
  ultimately show "obind (V (overlay buf base acc) base (word_of_nat (length acc)))
      (\<lambda>s. W (fst s) base (snd s)) =
      Ok (overlay buf base (acc @ a @ b), word_of_nat (length acc + length (a @ b)))"
    by (simp only: obind_simps fst_conv snd_conv length_append append_assoc add.assoc)
qed

lemma writes_at_seq:
  assumes "writes_at big F a" "writes big W b"
  shows "writes_at big (\<lambda>buf base. obind (F buf base) (\<lambda>s. W (fst s) base (snd s))) (a @ b)"
  unfolding writes_at_def
proof (intro allI impI)
  fix buf base
  assume r: "room big buf base (length (a @ b))"
  then have "room big buf base (length a)" by (elim room_mono) simp
  with assms(1) have "F buf base = Ok (overlay buf base a, word_of_nat (length a))"
    by (simp only: writes_at_def)
  moreover have "W (overlay buf base a) base (word_of_nat (length a)) =
      Ok (overlay buf base (a @ b), word_of_nat (length a + length b))"
    using assms(2) r by (simp only: writes_def length_append)
  ultimately show "obind (F buf base) (\<lambda>s. W (fst s) base (snd s)) =
      Ok (overlay buf base (a @ b), word_of_nat (length (a @ b)))"
    by (simp only: obind_simps fst_conv snd_conv length_append)
qed

lemma writes_Nil: "writes big (\<lambda>buf base off. Ok (buf, off)) []"
  by (simp add: writes_def)

lemma writes_at_start: "writes big W bs \<Longrightarrow> writes_at big (\<lambda>buf base. W buf base 0) bs"
proof -
  assume "writes big W bs"
  from writesD [OF this, where acc = "[]"] show ?thesis by (simp add: writes_at_def)
qed

text \<open>A function that writes from its own offset zero, called at an offset of the caller's.\<close>

lemma unat_acc: "room big buf base (n + k) \<Longrightarrow> unat (word_of_nat n :: u32) = n"
  by (intro unat_word_of_nat_u32 size_limit_u32 [of _ big]) (simp add: room_def)

lemma writes_embed:
  assumes "writes_at big F bs"
  shows "writes big (\<lambda>buf base off. obind (F buf (base + unat off)) (\<lambda>s. Ok (fst s, off + snd s))) bs"
  unfolding writes_def
proof (intro allI impI)
  fix buf base and acc :: "u8 list"
  assume r: "room big buf base (length acc + length bs)"
  then have "room big (overlay buf base acc) (base + length acc) (length bs)"
    by (auto simp: room_def overlay_def)
  with assms have "F (overlay buf base acc) (base + length acc) =
      Ok (overlay (overlay buf base acc) (base + length acc) bs, word_of_nat (length bs))"
    by (simp add: writes_at_def)
  moreover have "overlay (overlay buf base acc) (base + length acc) bs = overlay buf base (acc @ bs)"
    using r by (intro overlay_overlay) (simp add: room_def)
  ultimately show "obind (F (overlay buf base acc) (base + unat (word_of_nat (length acc) :: u32)))
      (\<lambda>s. Ok (fst s, word_of_nat (length acc) + snd s)) =
      Ok (overlay buf base (acc @ bs), word_of_nat (length acc + length bs))"
    by (simp add: unat_acc [OF r])
qed

subsection \<open>The basic writers\<close>

lemma WriteData_writes: "writes big (\<lambda>buf base off. WriteData buf base off bs) bs"
  unfolding writes_def
proof (intro allI impI)
  fix buf base and acc :: "u8 list"
  assume r: "room big buf base (length acc + length bs)"
  have l: "length (overlay buf base acc) = length buf"
    by (rule length_overlay) (use r in \<open>auto elim: room_mono\<close>)
  have "mem_write (overlay buf base acc) (base + length acc) bs = Ok (overlay buf base (acc @ bs))"
    using r overlay_overlay [of base acc buf bs] l by (simp add: mem_write_def room_def overlay_def)
  then show "WriteData (overlay buf base acc) base (word_of_nat (length acc)) bs =
      Ok (overlay buf base (acc @ bs), word_of_nat (length acc + length bs))"
    by (simp add: WriteData_def unat_acc [OF r])
qed

lemma WriteWords_writes: "writes big (WriteWords ws) (concat (map u32_le ws))"
proof (induction ws)
  case (Cons w ws)
  from writes_seq [OF WriteData_writes this] show ?case by (simp add: WriteWords.simps [abs_def])
qed (simp add: writes_Nil WriteWords.simps [abs_def])

declare WriteWords.simps [simp del]

lemma WriteBufs_writes: "writes big (WriteBufs bufs) (wire_bufs bufs)"
proof (induction bufs)
  case (Cons b bufs)
  from writes_seq [OF WriteData_writes writes_seq [OF WriteData_writes this]]
  show ?case by (simp add: wire_bufs_def WriteBufs.simps [abs_def])
qed (simp add: writes_Nil wire_bufs_def WriteBufs.simps [abs_def])

lemma swap_units_item:
  assumes "\<not> IsTypeCodeVariableSize tc" "isz = type_item_size tc"
  shows "unat isz = unat (fst (swap_units tc isz)) * unat (snd (swap_units tc isz))"
    and "0 < unat (snd (swap_units tc isz))"
    and "unat (fst (swap_units tc isz)) \<le> 4"
  using assms
  by (auto simp: swap_units_def type_item_size_def type_code_defs)

lemma reverse_items_1 [simp]: "reverse_items (Suc 0) bs = bs"
  by (simp add: reverse_items_def map_nth)

lemma WriteFixedData_writes:
  assumes wf: "wf_field (MField nm tc isz n (FixedData bs) fl)"
  shows "writes big (WriteFixedData big tc n isz bs) (wire_fixed big tc isz bs)"
  unfolding writes_def length_wire_fixed
proof (intro allI impI)
  fix buf base and acc :: "u8 list"
  assume r: "room big buf base (length acc + length bs)"
  let ?k = "fst (swap_units tc isz)" and ?u = "snd (swap_units tc isz)"
  let ?dst = "drop (base + length acc) (overlay buf base acc)"
  have tc: "\<not> IsTypeCodeVariableSize tc" "isz = type_item_size tc"
    and len: "length bs = unat n * unat isz"
    using wf by (auto simp: wf_head_def)
  note su = swap_units_item [OF tc]
  note acc = unat_acc [OF r]
  have prod: "unat (n * isz) = length bs"
    using len wf field_alloc_exact [OF wf] by simp
  have e: "word_of_nat (length acc) + n * isz = (word_of_nat (length (acc @ bs)) :: u32)"
  proof -
    have "n * isz = word_of_nat (unat (n * isz))" by simp
    also have "\<dots> = word_of_nat (length bs)" by (simp only: prod)
    finally show ?thesis by simp
  qed
  have tk: "take (base + length acc) (overlay buf base acc) = take base buf @ acc"
    and dr: "?dst = drop (base + length acc) buf" and ld: "length bs \<le> length ?dst"
    using r by (auto simp add: overlay_def room_def)
  have le: "length bs = unat n * unat ?k * unat ?u" using len su(1) by (simp add: mult.assoc)
  have cp: "(if big \<and> tc \<noteq> B_BOOL_TYPE \<and> tc \<noteq> B_INT8_TYPE then SwapCopy ?dst bs (n * ?k) ?u
      else memcpy ?dst bs (unat (n * isz))) =
      Ok (wire_fixed big tc isz bs @ drop (length bs) ?dst)"
  proof (cases "big \<and> tc \<noteq> B_BOOL_TYPE \<and> tc \<noteq> B_INT8_TYPE")
    case True
    have lim: "length bs < 2 ^ 31" using r True by (simp add: room_def size_limit_def)
    have "unat n * unat ?k \<le> length bs" unfolding le using su(2) by simp
    then have "unat (n * ?k) = unat n * unat ?k" using lim by (intro unat_mult_no_wrap) simp
    then have "SwapCopy ?dst (bs @ []) (n * ?k) ?u =
        Ok (reverse_items (unat ?u) bs @ drop (unat n * unat ?k * unat ?u) ?dst)"
      using su(2) ld lim le by (intro SwapCopy_reverse_items) simp_all
    with True show ?thesis unfolding le [symmetric] by (simp add: wire_fixed_def)
  next
    case False
    then have "wire_fixed big tc isz bs = bs"
      using tc by (auto simp: wire_fixed_def swap_units_def type_item_size_def type_code_defs)
    with False ld prod show ?thesis by (auto simp: memcpy_def)
  qed
  have ov: "take base buf @ acc @ wire_fixed big tc isz bs @ drop (length bs) ?dst =
      overlay buf base (acc @ wire_fixed big tc isz bs)"
    unfolding dr by (simp add: overlay_def ac_simps)
  show "WriteFixedData big tc n isz bs (overlay buf base acc) base (word_of_nat (length acc)) =
      Ok (overlay buf base (acc @ wire_fixed big tc isz bs), word_of_nat (length acc + length bs))"
    unfolding WriteFixedData_def Let_def case_prod_beta acc cp tk
    using e by (simp only: obind_simps append_assoc ov length_append)
qed

lemma WriteFieldHeader_writes:
  assumes "wf_field f"
  shows "writes_at big (WriteFieldHeader f)
    (u32_le (word_of_nat (length (mf_name f))) @ mf_name f @ u32_le (mf_typeCode f)
     @ u32_le (word_of_nat (length (wire_data big f))))"
proof -
  have sz: "GetMMessageFieldFlattenedSize f False = Ok (word_of_nat (length (wire_data big f)))"
    using size_wire(3) [OF assms, of big] by simp
  show ?thesis
    using writes_at_start [OF writes_seq [OF WriteData_writes writes_seq [OF WriteData_writes
      writes_seq [OF WriteData_writes WriteData_writes]]]]
    by (simp only: WriteFieldHeader_def [abs_def] sz obind_simps)
qed

subsection \<open>The writers of Messages, fields and items\<close>

lemma writes_fun_eq: "writes big V bs \<Longrightarrow> (\<And>buf base off. W buf base off = V buf base off) \<Longrightarrow> writes big W bs"
  by (simp add: writes_def)

lemma writes_at_fun_eq: "writes_at big V bs \<Longrightarrow> (\<And>buf base. W buf base = V buf base) \<Longrightarrow> writes_at big W bs"
  by (simp add: writes_at_def)

lemma flatten_wire:
  "wf_msg m \<Longrightarrow> writes_at big
     (\<lambda>buf base. obind (MMFlattenMessage big m buf base)
        (\<lambda>buf'. Ok (buf', word_of_nat (length (wire_msg big m))))) (wire_msg big m)"
  "wf_fields fs \<Longrightarrow> writes big (FlattenFields big fs) (wire_fields big fs)"
  "wf_field f \<Longrightarrow> writes_at big (FlattenMMessageField big f)
     (wire_field (mf_name f) (mf_typeCode f) (wire_data big f))"
  "wf_slots ms \<Longrightarrow> writes big (FlattenSlots big ms) (wire_slots big ms)"
proof (induction m and fs and f and ms rule: MMessage_induct)
  case (1 w fs)
  then have "writes big (FlattenFields big fs) (wire_fields big fs)" by simp
  from writes_at_seq [OF writes_at_start [OF WriteWords_writes
      [of _ "[CURRENT_PROTOCOL_VERSION, w, numFlattenableEntries fs]"]] this]
  show ?case
    by (auto simp: writes_at_def obind_assoc [symmetric])
next
  case (3 f fs)
  then have f: "writes_at big (FlattenMMessageField big f)
      (wire_field (mf_name f) (mf_typeCode f) (wire_data big f))"
    and fs: "writes big (FlattenFields big fs) (wire_fields big fs)" by simp_all
  show ?case
  proof (cases "mf_isFlattenable f")
    case True
    from writes_seq [OF writes_embed [OF f] fs] show ?thesis
      using True by (simp add: writes_fun_eq obind_assoc)
  next
    case False
    with fs show ?thesis by (simp add: writes_fun_eq)
  qed
next
  case (4 nm tc isz n bs fl)
  then show ?case
    using writes_at_seq [OF WriteFieldHeader_writes [OF 4(1)] WriteFixedData_writes [OF 4(1)]]
    by (simp add: writes_at_fun_eq wire_field_def)
next
  case (5 nm tc isz n bufs fl)
  then show ?case
    using writes_at_seq [OF WriteFieldHeader_writes [OF 5(1)]
      writes_seq [OF WriteWords_writes [of _ "[n]"] WriteBufs_writes [of _ bufs]]]
    by (simp add: writes_at_fun_eq wire_field_def)
next
  case (6 nm tc isz n msgs fl)
  then have "writes big (FlattenSlots big msgs) (wire_slots big msgs)" by simp
  with 6 show ?case
    using writes_at_seq [OF WriteFieldHeader_writes [OF 6(2)]]
    by (simp add: writes_at_fun_eq wire_field_def)
next
  case (8 ms)
  then have "writes big (FlattenSlots big ms) (wire_slots big ms)" by simp
  from writes_seq [OF WriteWords_writes [of _ "[3 * 4, CURRENT_PROTOCOL_VERSION, 0, 0]"] this]
  show ?case by (simp add: writes_fun_eq)
next
  case (9 m ms)
  then have m: "writes_at big
     (\<lambda>buf base. obind (MMFlattenMessage big m buf base)
        (\<lambda>buf'. Ok (buf', word_of_nat (length (wire_msg big m))))) (wire_msg big m)"
    and ms: "writes big (FlattenSlots big ms) (wire_slots big ms)"
    and sz: "MMGetFlattenedSize m = Ok (word_of_nat (length (wire_msg big m)))"
    using size_wire(1) by simp_all
  from writes_seq [OF WriteWords_writes [of _ "[word_of_nat (length (wire_msg big m))]"]
      writes_seq [OF writes_embed [OF m] ms]]
  show ?case by (simp add: writes_fun_eq sz obind_assoc)
qed (simp_all add: writes_fun_eq [OF writes_Nil])

lemma MMFlattenMessage_wire:
  assumes "wf_msg m" "base + length (wire_msg big m) \<le> length buf"
    and "length (wire_msg big m) < size_limit big"
  shows "MMFlattenMessage big m buf base = Ok (overlay buf base (wire_msg big m))"
  using flatten_wire(1) [OF assms(1), of big] assms(2,3)
  by (auto simp: writes_at_def room_def obind_eq_Ok)

lemma wire_header: "length (wire_msg big m) \<ge> 12"
  by (cases m) simp

end
