(* ===== verification/Mini_Unflatten.thy ===== *)
theory Mini_Unflatten
  imports Mini_Codec
begin

section \<open>MiniMessage: unflattening\<close>

text \<open>
  \<^verbatim>\<open>ReadData\<close>, \<^verbatim>\<open>ImportMMessageField\<close> and \<^verbatim>\<open>MMUnflattenMessage\<close> of
  \<^verbatim>\<open>source/muscle/minimessage/MiniMessage.c\<close>.  \<open>mem\<close> is the memory from \<^verbatim>\<open>inBuf\<close> on that may
  be read and \<open>inSize\<close> the 32-bit \<^verbatim>\<open>inputBufferBytes\<close> the caller claims; all the arithmetic of the
  bounds checks is 32-bit, as in the code, and a read outside of \<open>mem\<close> is a \<open>Fault\<close>.

  \<^verbatim>\<open>MMUnflattenMessage\<close> and the loop over the sub-Messages of a field take fuel: with the 32-bit
  wrap-around of the bounds check that loop may run forever.
\<close>

named_theorems unflat_simps "the readers on a segment of memory"

subsection \<open>Reading\<close>

definition ReadData :: "u8 list \<Rightarrow> u32 \<Rightarrow> u32 \<Rightarrow> u32 \<Rightarrow> (u8 list \<times> u32) option outcome" where
  "ReadData mem inSize readOffset blockSize =
     (if readOffset + blockSize > inSize then Ok None
      else obind (mem_read mem (unat readOffset) (unat blockSize)) (\<lambda>bs.
           Ok (Some (bs, readOffset + blockSize))))"

text \<open>
  Reading a 32-bit integer: \<open>err\<close> is what happens when \<^verbatim>\<open>ReadData\<close> fails, \<open>k\<close> continues with
  the value in host order and the new offset.
\<close>

definition read_u32 :: "u8 list \<Rightarrow> u32 \<Rightarrow> u32 \<Rightarrow> 'a outcome \<Rightarrow> (u32 \<Rightarrow> u32 \<Rightarrow> 'a outcome) \<Rightarrow> 'a outcome" where
  "read_u32 mem inSize off err k =
     obind (ReadData mem inSize off 4) (\<lambda>r.
     case r of None \<Rightarrow> err | Some (bs, off') \<Rightarrow> k (le_u32 bs) off')"

lemma read_u32_cong [fundef_cong]:
  "mem = mem' \<Longrightarrow> inSize = inSize' \<Longrightarrow> off = off' \<Longrightarrow> err = err' \<Longrightarrow> (\<And>v p. k v p = k' v p) \<Longrightarrow>
   read_u32 mem inSize off err k = read_u32 mem' inSize' off' err' k'"
  by (simp add: read_u32_def cong: option.case_cong)

subsection \<open>Fields of fixed-size items\<close>

definition ImportMMessageField ::
    "alloc \<Rightarrow> bool \<Rightarrow> u8 list \<Rightarrow> u32 \<Rightarrow> u32 \<Rightarrow> u8 list \<Rightarrow> u32 \<Rightarrow> u32 \<Rightarrow> MMessageField option outcome"
where
  "ImportMMessageField am big nameMem tc eLength dataMem itemSize swapSize =
     (let numItems = eLength div itemSize in
      obind (AllocMMessageField am nameMem tc numItems itemSize) (\<lambda>r.
      case r of
        None \<Rightarrow> Ok None
      | Some field \<Rightarrow>
          obind (fixed_bytes field) (\<lambda>dst.
          obind (if big then SwapCopy dst dataMem (numItems * (itemSize div swapSize)) swapSize
                 else memcpy dst dataMem (unat (numItems * itemSize))) (\<lambda>bs.
          Ok (Some (set_data (FixedData bs) field))))))"

text \<open>
  The switch of \<^verbatim>\<open>MMUnflattenMessage\<close> on the type codes with fixed-size items: the type code of
  the new field, the size of its items and the size of the unit to swap.
\<close>

definition import_case :: "u32 \<Rightarrow> (u32 \<times> u32 \<times> u32) option" where
  "import_case tc =
     (if tc = B_BOOL_TYPE then Some (tc, 1, 1)
      else if tc = B_DOUBLE_TYPE then Some (tc, 8, 8)
      else if tc = B_FLOAT_TYPE then Some (tc, 4, 4)
      else if tc = B_INT64_TYPE then Some (tc, 8, 8)
      else if tc = B_INT32_TYPE then Some (tc, 4, 4)
      else if tc = B_INT16_TYPE then Some (tc, 2, 2)
      else if tc = B_INT8_TYPE then Some (tc, 1, 1)
      else if tc = B_POINTER_TYPE then Some (B_INT32_TYPE, 4, 4)
      else if tc = B_POINT_TYPE then Some (tc, 4 * 2, 4)
      else if tc = B_RECT_TYPE then Some (tc, 4 * 4, 4)
      else None)"

subsection \<open>Fields of sub-Messages\<close>

text \<open>
  The loop that reads the sub-Messages to a linked list (\<open>acc\<close>, from \<^verbatim>\<open>head\<close> to \<^verbatim>\<open>tail\<close>);
  \<open>unflat\<close> is the recursive call of \<^verbatim>\<open>MMUnflattenMessage\<close> on a new Message, the memory from
  \<^verbatim>\<open>&buffer[eOffset]\<close> on and \<^verbatim>\<open>entryLen\<close>.
\<close>

fun SubMessageLoop ::
    "(MMessage \<Rightarrow> u8 list \<Rightarrow> u32 \<Rightarrow> (status \<times> MMessage) outcome) \<Rightarrow> alloc \<Rightarrow> nat \<Rightarrow> u8 list \<Rightarrow> u32 \<Rightarrow>
     u32 \<Rightarrow> u32 \<Rightarrow> u32 \<Rightarrow> MMessage list \<Rightarrow> (status \<times> MMessage list) outcome" where
  "SubMessageLoop unflat am fuel mem inSize eLength eUsed eOffset acc =
     (if eUsed < eLength then
        (case fuel of
           0 \<Rightarrow> Spin
         | Suc fuel' \<Rightarrow>
             read_u32 mem inSize eOffset (Ok (B_ERROR, acc)) (\<lambda>entryLen eOff.
             if eOff + entryLen \<le> inSize then
               (case MMAllocMessage am 0 of
                  None \<Rightarrow> Ok (B_ERROR, acc)
                | Some newMsg \<Rightarrow>
                    obind (unflat newMsg (drop (unat eOff) mem) entryLen) (\<lambda>r.
                    if fst r = B_NO_ERROR
                    then SubMessageLoop unflat am fuel' mem inSize eLength
                           (eUsed + (4 + entryLen)) (eOff + entryLen) (acc @ [snd r])
                    else obind (MMFreeMessage (snd r)) (\<lambda>_. Ok (B_ERROR, acc))))
             else Ok (B_ERROR, acc)))
      else Ok (B_NO_ERROR, acc))"

declare SubMessageLoop.simps [simp del]

text \<open>Storing the list in the slots of the field just put, which is the last of the Message.\<close>

definition last_field :: "MMessage \<Rightarrow> MMessageField" where
  "last_field msg = last (mm_fields msg)"

definition set_last_field :: "MMessage \<Rightarrow> MMessageField \<Rightarrow> MMessage" where
  "set_last_field msg f = MMsg (mm_what msg) (butlast (mm_fields msg) @ [f])"

definition fill_slots :: "'a list \<Rightarrow> 'a option list \<Rightarrow> 'a option list outcome" where
  "fill_slots xs arr = (if length xs \<le> length arr then Ok (map Some xs @ drop (length xs) arr) else Fault)"

text \<open>
  The list is linked by the \<^verbatim>\<open>scratch\<close> pointers, and that of its last Message is never set: the clean-up of a
  list that is not empty ends with a pointer of unknown contents.
\<close>

definition UnflattenMessages ::
    "(MMessage \<Rightarrow> u8 list \<Rightarrow> u32 \<Rightarrow> (status \<times> MMessage) outcome) \<Rightarrow> alloc \<Rightarrow> nat \<Rightarrow> MMessage \<Rightarrow>
     u8 list \<Rightarrow> u8 list \<Rightarrow> u32 \<Rightarrow> u32 \<Rightarrow> u32 \<Rightarrow> (status \<times> MMessage) outcome" where
  "UnflattenMessages unflat am fuel msg fieldName mem inSize eLength readOffset =
     obind (SubMessageLoop unflat am fuel mem inSize eLength 0 readOffset []) (\<lambda>(ret, subs).
     let listLength = word_of_nat (length subs);
         cleanup = (\<lambda>msg'. if subs = [] then obind (MMRemoveField msg' fieldName) (\<lambda>r. Ok (B_ERROR, snd r))
           else Fault) in
     if ret = B_NO_ERROR then
       obind (MMPutMessageField am msg False fieldName listLength) (\<lambda>(ok, msg').
       if ok then
         obind (msg_slots (last_field msg')) (\<lambda>arr.
         obind (fill_slots subs arr) (\<lambda>arr'.
         Ok (B_NO_ERROR, set_last_field msg' (set_data (MsgData arr') (last_field msg')))))
       else cleanup msg')
     else cleanup msg)"

subsection \<open>Fields of byte buffers\<close>

text \<open>
  The loop over the items of a variable-size field: \<open>k\<close> items are left, \<open>bufs\<close> is the array.
  The sizes come from the buffer; \<^verbatim>\<open>eLeft\<close> starts as \<^verbatim>\<open>eLength\<close>, which still counts the four
  bytes of the number of items.
\<close>

fun BufferLoop :: "alloc \<Rightarrow> nat \<Rightarrow> nat \<Rightarrow> u8 list \<Rightarrow> u32 \<Rightarrow> u32 \<Rightarrow> u32 \<Rightarrow> u8 list option list \<Rightarrow>
    (bool \<times> u8 list option list) outcome" where
  "BufferLoop am 0 i mem inSize eOffset eLeft bufs = Ok (True, bufs)"
| "BufferLoop am (Suc k) i mem inSize eOffset eLeft bufs =
     read_u32 mem inSize eOffset (Ok (False, bufs)) (\<lambda>itemSize eOff.
     if itemSize + 4 \<le> eLeft then
       if i < length bufs then
         (case MBAllocByteBuffer am itemSize [] of
            None \<Rightarrow> Ok (False, bufs[i := None])
          | Some _ \<Rightarrow>
              obind (mem_read mem (unat eOff) (unat itemSize)) (\<lambda>bs.
              BufferLoop am k (Suc i) mem inSize (eOff + itemSize) (eLeft - (itemSize + 4))
                (bufs[i := Some bs])))
       else Fault
     else Ok (False, bufs))"

definition UnflattenBuffers ::
    "alloc \<Rightarrow> MMessage \<Rightarrow> u32 \<Rightarrow> u8 list \<Rightarrow> u8 list \<Rightarrow> u32 \<Rightarrow> u32 \<Rightarrow> u32 \<Rightarrow> (status \<times> MMessage) outcome"
where
  "UnflattenBuffers am msg tc fieldName mem inSize eLength readOffset =
     read_u32 mem inSize readOffset (Ok (B_ERROR, msg)) (\<lambda>numItems eOffset.
     obind (PutMMVariableFieldAux am msg False tc fieldName numItems) (\<lambda>(ok, msg').
     if ok then
       obind (buf_slots (last_field msg')) (\<lambda>arr.
       obind (BufferLoop am (unat numItems) 0 mem inSize eOffset eLength arr) (\<lambda>(good, arr').
       let msg'' = set_last_field msg' (set_data (BufData arr') (last_field msg')) in
       if good then Ok (B_NO_ERROR, msg'')
       else obind (MMRemoveField msg'' fieldName) (\<lambda>r. Ok (B_ERROR, snd r))))
     else Ok (B_ERROR, msg')))"

subsection \<open>Entries and Messages\<close>

text \<open>One iteration of the loop over the entries; it gives the new \<^verbatim>\<open>readOffset\<close>.\<close>

definition UnflattenEntry ::
    "(MMessage \<Rightarrow> u8 list \<Rightarrow> u32 \<Rightarrow> (status \<times> MMessage) outcome) \<Rightarrow> alloc \<Rightarrow> bool \<Rightarrow> nat \<Rightarrow> MMessage \<Rightarrow>
     u8 list \<Rightarrow> u32 \<Rightarrow> u32 \<Rightarrow> (status \<times> MMessage \<times> u32) outcome" where
  "UnflattenEntry unflat am big fuel msg mem inSize readOffset =
     (let fail = Ok (B_ERROR, msg, readOffset) in
      read_u32 mem inSize readOffset fail (\<lambda>nameLength off1.
      if nameLength > inSize - off1 then fail
      else
        let fieldName = drop (unat off1) mem in
        read_u32 mem inSize (off1 + nameLength) fail (\<lambda>tc off2.
        read_u32 mem inSize off2 fail (\<lambda>eLength off3.
        if eLength > inSize - off3 then fail
        else
          (case import_case tc of
             Some (newTc, itemSize, swapSize) \<Rightarrow>
               obind (mem_read fieldName 0 (unat nameLength)) (\<lambda>nameMem.
               obind (ImportMMessageField am big nameMem newTc eLength (drop (unat off3) mem)
                        itemSize swapSize) (\<lambda>r.
               case r of
                 None \<Rightarrow> fail
               | Some newField \<Rightarrow>
                   Ok (B_NO_ERROR, AddMMessageField msg newField, off3 + eLength)))
           | None \<Rightarrow>
               obind (if tc = B_MESSAGE_TYPE
                      then UnflattenMessages unflat am fuel msg fieldName mem inSize eLength off3
                      else UnflattenBuffers am msg tc fieldName mem inSize eLength off3) (\<lambda>r.
               Ok (fst r, snd r, off3 + eLength)))))))"

fun UnflattenEntries ::
    "(MMessage \<Rightarrow> u8 list \<Rightarrow> u32 \<Rightarrow> (status \<times> MMessage) outcome) \<Rightarrow> alloc \<Rightarrow> bool \<Rightarrow> nat \<Rightarrow> nat \<Rightarrow>
     MMessage \<Rightarrow> u8 list \<Rightarrow> u32 \<Rightarrow> u32 \<Rightarrow> (status \<times> MMessage) outcome" where
  "UnflattenEntries unflat am big fuel 0 msg mem inSize readOffset = Ok (B_NO_ERROR, msg)"
| "UnflattenEntries unflat am big fuel (Suc k) msg mem inSize readOffset =
     obind (UnflattenEntry unflat am big fuel msg mem inSize readOffset) (\<lambda>(st, msg', off).
     if st = B_NO_ERROR then UnflattenEntries unflat am big fuel k msg' mem inSize off
     else Ok (B_ERROR, msg'))"

fun MMUnflattenMessage ::
    "alloc \<Rightarrow> bool \<Rightarrow> nat \<Rightarrow> MMessage \<Rightarrow> u8 list \<Rightarrow> u32 \<Rightarrow> (status \<times> MMessage) outcome" where
  "MMUnflattenMessage am big 0 msg mem inSize = Spin"
| "MMUnflattenMessage am big (Suc fuel) msg mem inSize =
     read_u32 mem inSize 0 (Ok (B_ERROR, msg)) (\<lambda>messageProtocolVersion off1.
     if messageProtocolVersion < OLDEST_SUPPORTED_PROTOCOL_VERSION
        \<or> messageProtocolVersion > CURRENT_PROTOCOL_VERSION then Ok (B_ERROR, msg)
     else
       read_u32 mem inSize off1 (Ok (B_ERROR, msg)) (\<lambda>w off2.
       let msg' = MMSetWhat msg w in
       read_u32 mem inSize off2 (Ok (B_ERROR, msg')) (\<lambda>numEntries off3.
       obind (MMClearMessage msg') (\<lambda>msg''.
       UnflattenEntries (MMUnflattenMessage am big fuel) am big fuel (unat numEntries)
         msg'' mem inSize off3))))"

subsection \<open>Segments of the input\<close>

text \<open>\<open>seg mem inSize off bs\<close>: the bytes \<open>bs\<close> are at \<open>off\<close>, within memory and the claimed size.\<close>

definition seg :: "u8 list \<Rightarrow> u32 \<Rightarrow> u32 \<Rightarrow> u8 list \<Rightarrow> bool" where
  "seg mem inSize off bs \<longleftrightarrow>
     (\<exists>pre rest. mem = pre @ bs @ rest \<and> length pre = unat off)
     \<and> unat off + length bs \<le> unat inSize"

lemma seg_drop: "seg mem inSize off bs \<Longrightarrow> \<exists>rest. drop (unat off) mem = bs @ rest"
  by (auto simp: seg_def)

lemma seg_unat:
  assumes "seg mem inSize off (a @ bs)"
  shows "unat (off + word_of_nat (length a)) = unat off + length a"
proof -
  have "unat off + length a < 2 ^ 32"
    using assms unat_u32_less [of inSize] by (simp add: seg_def)
  then show ?thesis by (subst unat_add_no_wrap) (simp_all add: unat_word_of_nat_u32)
qed

lemma seg_skip:
  assumes "seg mem inSize off (a @ bs)"
  shows "seg mem inSize (off + word_of_nat (length a)) bs"
proof -
  from assms obtain pre rest where "mem = pre @ a @ bs @ rest" "length pre = unat off"
    by (auto simp: seg_def)
  then have "mem = (pre @ a) @ bs @ rest" "length (pre @ a) = unat off + length a" by simp_all
  then show ?thesis using assms unfolding seg_def seg_unat [OF assms] by fastforce
qed

lemma seg_mem_read:
  assumes "seg mem inSize off (a @ bs)"
  shows "mem_read mem (unat off) (length a) = Ok a" "mem_read (drop (unat off) mem) 0 (length a) = Ok a"
  using assms by (auto simp: seg_def mem_read_def)

lemma seg_read_u32 [unflat_simps]:
  assumes "seg mem inSize off (u32_le v @ bs)"
  shows "read_u32 mem inSize off err k = k v (off + 4)"
proof -
  have "unat (off + 4) = unat off + 4" using seg_unat [OF assms] by simp
  then have "\<not> off + 4 > inSize" using assms by (simp add: seg_def word_less_nat_alt)
  moreover have "mem_read mem (unat off) 4 = Ok (u32_le v)" using seg_mem_read(1) [OF assms] by simp
  ultimately show ?thesis by (simp add: read_u32_def ReadData_def)
qed

lemma seg_skip_u32: "seg mem inSize off (u32_le v @ bs) \<Longrightarrow> seg mem inSize (off + 4) bs"
  using seg_skip [of mem inSize off "u32_le v" bs] by simp

lemma seg_left: "seg mem inSize off (a @ bs) \<Longrightarrow> length a \<le> unat (inSize - off)"
proof -
  assume s: "seg mem inSize off (a @ bs)"
  then have "unat off + length a \<le> unat inSize" by (simp add: seg_def)
  moreover from this have "unat (inSize - off) = unat inSize - unat off"
    by (intro unat_sub_le) (simp add: word_le_nat_alt)
  ultimately show ?thesis by simp
qed

lemma seg_left_word:
  assumes "seg mem inSize off (a @ bs)" "unat w = length a"
  shows "\<not> w > inSize - off"
  using seg_left [OF assms(1)] assms(2) by (simp add: word_less_nat_alt)

lemma seg_size_bound: "seg mem inSize off bs \<Longrightarrow> length bs < 2 ^ 32"
  using unat_u32_less [of inSize] by (simp add: seg_def)

lemma seg_word_len: "seg mem inSize off (a @ bs) \<Longrightarrow> unat (word_of_nat (length a) :: u32) = length a"
  using seg_size_bound [of mem inSize off "a @ bs"] by (intro unat_word_of_nat_u32) simp

lemma seg_prefix: "seg mem inSize off (a @ bs) \<Longrightarrow> seg mem inSize off a"
  by (auto simp: seg_def)

subsection \<open>What a round trip gives\<close>

text \<open>
  Fields that are not flattenable are lost, a NULL buffer comes back as an empty one and a NULL
  sub-Message as an empty Message with the what-code zero.
\<close>

fun norm_msg :: "MMessage \<Rightarrow> MMessage"
and norm_fields :: "MMessageField list \<Rightarrow> MMessageField list"
and norm_field :: "MMessageField \<Rightarrow> MMessageField"
and norm_slots :: "MMessage option list \<Rightarrow> MMessage list"
where
  "norm_msg (MMsg w fs) = MMsg w (norm_fields fs)"
| "norm_fields [] = []"
| "norm_fields (f # fs) = (if mf_isFlattenable f then [norm_field f] else []) @ norm_fields fs"
| "norm_field (MField nm tc isz n (FixedData bs) fl) = MField nm tc isz n (FixedData bs) fl"
| "norm_field (MField nm tc isz n (BufData bufs) fl) =
     MField nm tc isz n (BufData (map (\<lambda>b. Some (buf_bytes b)) bufs)) fl"
| "norm_field (MField nm tc isz n (MsgData msgs) fl) =
     MField nm tc isz n (MsgData (map Some (norm_slots msgs))) fl"
| "norm_slots [] = []"
| "norm_slots (None # ms) = MMsg 0 [] # norm_slots ms"
| "norm_slots (Some m # ms) = norm_msg m # norm_slots ms"

lemma norm_field_head [simp]:
  "mf_name (norm_field f) = mf_name f" "mf_typeCode (norm_field f) = mf_typeCode f"
  "mf_isFlattenable (norm_field f) = mf_isFlattenable f"
  by (cases f rule: norm_field.cases; simp)+

lemma length_norm_slots [simp]: "length (norm_slots ms) = length ms"
proof (induction ms)
  case (Cons x ms)
  then show ?case by (cases x) auto
qed simp

lemma set_norm_fields: "set (norm_fields fs) = norm_field ` {f \<in> set fs. mf_isFlattenable f}"
  by (induction fs) auto

lemma norm_fields_keys:
  "map (\<lambda>f. cstr (mf_name f)) (norm_fields fs) =
   map (\<lambda>f. cstr (mf_name f)) (filter mf_isFlattenable fs)"
  by (induction fs) auto

lemma norm_wf:
  "wf_msg m \<Longrightarrow> wf_msg (norm_msg m)"
  "wf_fields fs \<Longrightarrow> wf_fields (norm_fields fs)"
  "wf_field f \<Longrightarrow> wf_field (norm_field f)"
  "wf_slots ms \<Longrightarrow> \<forall>m \<in> set (norm_slots ms). wf_msg m"
proof (induction m and fs and f and ms rule: MMessage_induct)
  case (1 w fs)
  then show ?case by (simp add: norm_fields_keys distinct_map_filter)
next
  case (5 nm tc isz n bufs fl)
  then show ?case
    by (auto simp: wf_head_def list_all_iff wf_buf_def buf_bytes_def split: option.splits)
next
  case (6 nm tc isz n msgs fl)
  moreover have "B_MESSAGE_TYPE \<noteq> B_POINTER_TYPE" by (simp add: type_code_defs)
  ultimately show ?case by (auto simp: wf_head_def wf_slots_iff)
qed auto

subsection \<open>Reading the fixed-size fields back\<close>

lemma wf_fixed_not_var:
  "wf_field (MField nm tc isz n (FixedData bs) fl) \<Longrightarrow>
   \<not> IsTypeCodeVariableSize tc \<and> isz = type_item_size tc \<and> length bs = unat n * unat isz"
  by (auto simp: wf_head_def)

lemma import_case_wf:
  assumes "\<not> IsTypeCodeVariableSize tc" "tc \<noteq> B_POINTER_TYPE"
  shows "\<exists>u. import_case tc = Some (tc, type_item_size tc, u) \<and> 0 < unat u
    \<and> u = snd (swap_units tc (type_item_size tc))
    \<and> type_item_size tc div u = fst (swap_units tc (type_item_size tc))"
  using assms unfolding IsTypeCodeVariableSize_def
  by (auto simp: import_case_def type_item_size_def swap_units_def type_code_defs
      word_div_def split: if_splits)

lemma import_case_var [simp]:
  "IsTypeCodeVariableSize tc \<Longrightarrow> import_case tc = None"
  by (auto simp: IsTypeCodeVariableSize_def import_case_def type_code_defs split: if_splits)

lemma length_wire_fixed_limit:
  "length bs < size_limit big \<Longrightarrow> big \<Longrightarrow> length bs < 2 ^ 31"
  by (simp add: size_limit_def)

lemma Import_wire:
  assumes wf: "wf_field (MField nm tc isz n (FixedData bs) fl)" and fl: fl
    and am: "\<And>k. am k" and lim: "length bs < size_limit big"
    and u: "u = snd (swap_units tc isz)" "isz div u = fst (swap_units tc isz)"
  shows "ImportMMessageField am big nm tc (word_of_nat (length bs))
      (wire_fixed big tc isz bs @ rest) isz u =
    Ok (Some (MField nm tc isz n (FixedData bs) fl))"
proof -
  let ?k = "fst (swap_units tc isz)"
  have tc: "\<not> IsTypeCodeVariableSize tc" "isz = type_item_size tc"
    and len: "length bs = unat n * unat isz"
    using wf_fixed_not_var [OF wf] by simp_all
  note su = swap_units_item [OF tc]
  have isz: "0 < unat isz" unfolding tc(2) by (simp add: type_item_size_def)
  have n: "0 < n" and nm: "wf_name nm"
    and sz: "sizeof_MMessageField + unat n * unat isz + length nm < 2 ^ 32"
    using wf_field_head [OF wf] wf_field_alloc [OF wf] by (simp_all add: wf_head_def)
  have wl: "unat (word_of_nat (length bs) :: u32) = length bs"
    using size_limit_u32 [OF lim] by (rule unat_word_of_nat_u32)
  have "unat (word_of_nat (length bs) div isz) = length bs div unat isz"
    by (simp only: unat_div wl)
  also have "\<dots> = unat n"
    unfolding len using isz by (intro nonzero_mult_div_cancel_right) simp
  finally have "unat (word_of_nat (length bs) div isz) = unat n" .
  then have dv: "word_of_nat (length bs) div isz = n" by (simp only: word_unat_eq_iff)
  have nmz: "nm = cstr nm @ [0]" "is_cstr nm" using wf_name_cstr [OF nm] by simp_all
  have fits: "alloc_fits n isz nm"
    using n sz nmz(1) unfolding alloc_fits_def by (metis add.assoc length_append list.size(3,4) add_0 One_nat_def)
  have al: "AllocMMessageField am nm tc n isz =
      Ok (Some (MField nm tc isz n (FixedData (replicate (length bs) 0)) True))"
    using Alloc_fits [OF fits nmz(2), of am tc] am nmz(1) len by simp
  have p: "unat (n * isz) = length bs" using field_alloc_exact [OF wf] len by simp
  let ?dst = "replicate (length bs) 0 :: u8 list"
  have cp: "(if big then SwapCopy ?dst (wire_fixed big tc isz bs @ rest) (n * (isz div u)) u
      else memcpy ?dst (wire_fixed big tc isz bs @ rest) (unat (n * isz))) = Ok bs"
  proof (cases big)
    case True
    have le: "length bs = unat n * unat ?k * unat u" using len su(1) u by (simp add: mult.assoc)
    have l31: "length bs < 2 ^ 31" using lim True by (simp add: size_limit_def)
    have "unat n * unat ?k \<le> length bs" unfolding le using su(2) u by simp
    then have nk: "unat (n * ?k) = unat n * unat ?k" using l31 by (intro unat_mult_no_wrap) simp
    have "SwapCopy ?dst (wire_fixed big tc isz bs @ rest) (n * ?k) u =
        Ok (reverse_items (unat u) (wire_fixed big tc isz bs) @ drop (unat n * unat ?k * unat u) ?dst)"
      using su(2) u l31 le nk by (intro SwapCopy_reverse_items) simp_all
    moreover have "reverse_items (unat u) (wire_fixed big tc isz bs) = bs"
      using True u su(2) le by (simp add: wire_fixed_def reverse_items_involution [where N = "unat n * unat ?k"])
    ultimately show ?thesis using True le u by simp
  qed (simp add: memcpy_def p wire_fixed_def)
  show ?thesis
    unfolding ImportMMessageField_def Let_def dv al
    using cp fl by (simp add: fixed_bytes_def set_data_def)
qed

subsection \<open>Reading the variable-size fields back\<close>

lemma BufferLoop_wire:
  assumes "\<And>k. am k"
  shows "seg mem inSize off (wire_bufs bufs @ more') \<Longrightarrow> length (wire_bufs bufs) \<le> unat eLeft \<Longrightarrow>
    i + length bufs = length arr \<Longrightarrow>
    BufferLoop am (length bufs) i mem inSize off eLeft arr =
      Ok (True, take i arr @ map (\<lambda>b. Some (buf_bytes b)) bufs)"
proof (induction bufs arbitrary: i off eLeft arr)
  case (Cons b bufs)
  let ?n = "word_of_nat (length (buf_bytes b)) :: u32"
  have s: "seg mem inSize off (u32_le ?n @ buf_bytes b @ wire_bufs bufs @ more')"
    using Cons.prems(1) by (simp add: wire_bufs_def)
  note s2 = seg_skip_u32 [OF s]
  have n: "unat ?n = length (buf_bytes b)" using seg_word_len [OF s2] .
  have len: "4 + length (buf_bytes b) + length (wire_bufs bufs) \<le> unat eLeft"
    using Cons.prems(2) by (simp add: wire_bufs_def)
  have n4: "unat (?n + 4) = length (buf_bytes b) + 4"
    using len unat_u32_less [of eLeft] n by (subst unat_add_no_wrap) simp_all
  have le: "?n + 4 \<le> eLeft" using len n4 by (simp add: word_le_nat_alt)
  have left: "length (wire_bufs bufs) \<le> unat (eLeft - (?n + 4))"
    using len n4 unat_sub_le [OF le] by simp
  have rd: "mem_read mem (unat (off + 4)) (unat ?n) = Ok (buf_bytes b)"
    using seg_mem_read(1) [OF s2] n by simp
  have al: "MBAllocByteBuffer am ?n [] \<noteq> None" using assms by (simp add: MBAllocByteBuffer_def)
  have i: "i < length arr" using Cons.prems(3) by simp
  have ih: "BufferLoop am (length bufs) (Suc i) mem inSize (off + 4 + ?n) (eLeft - (?n + 4))
      (arr[i := Some (buf_bytes b)]) =
      Ok (True, take (Suc i) (arr[i := Some (buf_bytes b)]) @ map (\<lambda>b. Some (buf_bytes b)) bufs)"
    using Cons.prems(3) by (intro Cons.IH seg_skip [OF s2] left) simp
  have tk: "take (Suc i) (arr[i := Some (buf_bytes b)]) = take i arr @ [Some (buf_bytes b)]"
    using i by (simp add: take_Suc_conv_app_nth)
  show ?case
    using al i by (auto simp: seg_read_u32 [OF s] le rd ih tk)
qed simp

lemma PutBuffers_absent:
  assumes "wf_msg msg" "is_cstr fn" "fmap msg (cstr fn) = None"
    and "alloc_fits n sizeof_ptr fn" "IsTypeCodeVariableSize tc" "tc \<noteq> B_MESSAGE_TYPE" "\<And>k. am k"
  shows "PutMMVariableFieldAux am msg False tc fn n =
    Ok (True, AddMMessageField msg (MField (cstr fn @ [0]) tc sizeof_ptr n
                (BufData (replicate (unat n) None)) True))"
proof -
  have "field_index msg (cstr fn) = None" using assms(3) by (simp add: fmap_None field_index_None)
  then show ?thesis
    using PutMMVariableFieldAux_wf [of msg fn n tc am False] assms
    by (simp add: without_absent buf_field_def)
qed

lemma PutMessages_absent:
  assumes "wf_msg msg" "is_cstr fn" "fmap msg (cstr fn) = None"
    and "alloc_fits n sizeof_ptr fn" "\<And>k. am k"
  shows "MMPutMessageField am msg False fn n =
    Ok (True, AddMMessageField msg (MField (cstr fn @ [0]) B_MESSAGE_TYPE sizeof_ptr n
                (MsgData (replicate (unat n) None)) True))"
proof -
  have "field_index msg (cstr fn) = None" using assms(3) by (simp add: fmap_None field_index_None)
  then show ?thesis
    using MMPutMessageField_wf [of msg fn n am False] assms
    by (simp add: without_absent msg_field_def)
qed

subsection \<open>Reading entries back\<close>

text \<open>The header of an entry: what is left is the case of its type code.\<close>

lemma UnflattenEntry_header:
  assumes s: "seg mem inSize off (wire_field nm tc payload @ ys)"
  obtains off3 r where
    "seg mem inSize off3 (payload @ ys)"
    "off3 + word_of_nat (length payload) = off + word_of_nat (length (wire_field nm tc payload))"
    "UnflattenEntry unflat am big fuel msg mem inSize off =
      (case import_case tc of
         Some (newTc, itemSize, swapSize) \<Rightarrow>
           obind (ImportMMessageField am big nm newTc (word_of_nat (length payload))
                    (drop (unat off3) mem) itemSize swapSize) (\<lambda>r.
           case r of
             None \<Rightarrow> Ok (B_ERROR, msg, off)
           | Some newField \<Rightarrow>
               Ok (B_NO_ERROR, AddMMessageField msg newField,
                   off + word_of_nat (length (wire_field nm tc payload))))
       | None \<Rightarrow>
           obind (if tc = B_MESSAGE_TYPE
                  then UnflattenMessages unflat am fuel msg (nm @ r) mem inSize
                         (word_of_nat (length payload)) off3
                  else UnflattenBuffers am msg tc (nm @ r) mem inSize
                         (word_of_nat (length payload)) off3) (\<lambda>r.
           Ok (fst r, snd r, off + word_of_nat (length (wire_field nm tc payload)))))"
proof -
  let ?nl = "word_of_nat (length nm) :: u32" and ?pl = "word_of_nat (length payload) :: u32"
  have s0: "seg mem inSize off (u32_le ?nl @ nm @ u32_le tc @ u32_le ?pl @ payload @ ys)"
    using s by (simp add: wire_field_def)
  note s1 = seg_skip_u32 [OF s0]
  note s2 = seg_skip [OF s1]
  note s3 = seg_skip_u32 [OF s2]
  note s4 = seg_skip_u32 [OF s3]
  have nl: "unat ?nl = length nm" using seg_word_len [OF s1] .
  have pl: "unat ?pl = length payload" using seg_word_len [OF s4] .
  let ?off3 = "off + 4 + ?nl + 4 + 4"
  let ?name = "drop (unat (off + 4)) mem"
  have end_off: "?off3 + ?pl = off + word_of_nat (length (wire_field nm tc payload))"
    by (simp add: wire_field_def algebra_simps)
  have nmr: "mem_read ?name 0 (unat ?nl) = Ok nm" using seg_mem_read(2) [OF s1] nl by simp
  obtain r where r: "?name = nm @ r" using seg_drop [OF s1] by auto
  have eq: "UnflattenEntry unflat am big fuel msg mem inSize off =
      (case import_case tc of
         Some (newTc, itemSize, swapSize) \<Rightarrow>
           obind (ImportMMessageField am big nm newTc ?pl (drop (unat ?off3) mem) itemSize swapSize) (\<lambda>r.
           case r of
             None \<Rightarrow> Ok (B_ERROR, msg, off)
           | Some newField \<Rightarrow> Ok (B_NO_ERROR, AddMMessageField msg newField, ?off3 + ?pl))
       | None \<Rightarrow>
           obind (if tc = B_MESSAGE_TYPE
                  then UnflattenMessages unflat am fuel msg ?name mem inSize ?pl ?off3
                  else UnflattenBuffers am msg tc ?name mem inSize ?pl ?off3) (\<lambda>r.
           Ok (fst r, snd r, ?off3 + ?pl)))"
    unfolding UnflattenEntry_def Let_def seg_read_u32 [OF s0] seg_read_u32 [OF s2]
      seg_read_u32 [OF s3] if_not_P [OF seg_left_word [OF s1 nl]]
      if_not_P [OF seg_left_word [OF s4 pl]] nmr obind_simps ..
  show thesis by (rule that [OF s4 end_off, of r]) (unfold eq end_off r, rule refl)
qed

lemma wf_slot_field:
  assumes "wf_field f" "IsTypeCodeVariableSize (mf_typeCode f)" "mf_name f = nm"
  shows "alloc_fits (mf_numItems f) sizeof_ptr (nm @ r)" "is_cstr (nm @ r)" "cstr (nm @ r) = cstr nm"
    "mf_name f = cstr nm @ [0]" "mf_itemSize f = sizeof_ptr"
proof -
  have nm: "nm = cstr nm @ [0]" "is_cstr nm"
    using wf_field_name [OF assms(1)] assms(3) wf_name_cstr by auto
  then show c: "is_cstr (nm @ r)" "cstr (nm @ r) = cstr nm" "mf_name f = cstr nm @ [0]"
    using assms(3) by (simp_all add: cstr_prefix)
  show isz: "mf_itemSize f = sizeof_ptr"
    using wf_field_head [OF assms(1)] assms(2) by (simp add: wf_head_def)
  have "0 < mf_numItems f" using wf_field_head [OF assms(1)] by (simp add: wf_head_def)
  moreover have "length nm = length (cstr nm) + 1" using nm(1) by (metis length_append_singleton Suc_eq_plus1)
  ultimately show "alloc_fits (mf_numItems f) sizeof_ptr (nm @ r)"
    using wf_field_alloc [OF assms(1)] isz assms(3) c(2) by (simp add: alloc_fits_def)
qed

lemma last_field_Add [simp]:
  "last_field (AddMMessageField msg f) = f"
  "set_last_field (AddMMessageField msg f) g = AddMMessageField msg g"
  by (simp_all add: last_field_def set_last_field_def AddMMessageField_def)

lemma UnflattenBuffers_wire:
  assumes wf: "wf_field (MField nm tc isz n (BufData bufs) True)" and msg: "wf_msg msg"
    and new: "fmap msg (cstr nm) = None" and am: "\<And>k. am k"
    and s: "seg mem inSize off ((u32_le n @ wire_bufs bufs) @ ys)"
    and eL: "unat eLength = length (u32_le n @ wire_bufs bufs)"
  shows "UnflattenBuffers am msg tc (nm @ r) mem inSize eLength off =
    Ok (B_NO_ERROR, AddMMessageField msg
          (norm_field (MField nm tc isz n (BufData bufs) True)))"
proof -
  have tc: "IsTypeCodeVariableSize tc" "tc \<noteq> B_MESSAGE_TYPE" "length bufs = unat n" using wf by simp_all
  note f = wf_slot_field(1-3) [OF wf, simplified, OF tc(1) refl, where r = r]
    wf_slot_field(4,5) [OF wf, simplified, OF tc(1) refl]
  have s1: "seg mem inSize off (u32_le n @ wire_bufs bufs @ ys)" using s by simp
  have put: "PutMMVariableFieldAux am msg False tc (nm @ r) n =
      Ok (True, AddMMessageField msg (MField nm tc isz n (BufData (replicate (unat n) None)) True))"
    using PutBuffers_absent [OF msg f(2) _ f(1) tc(1,2) am] new f(3,4,5) by simp
  have loop: "BufferLoop am (length bufs) 0 mem inSize (off + 4) eLength (replicate (unat n) None) =
      Ok (True, take 0 (replicate (unat n) None) @ map (\<lambda>b. Some (buf_bytes b)) bufs)"
    using seg_skip_u32 [OF s1] eL tc(3) by (intro BufferLoop_wire [OF am]) simp_all
  show ?thesis
    using loop tc(3)
    by (simp add: UnflattenBuffers_def seg_read_u32 [OF s1] put buf_slots_def set_data_def)
qed

lemma UnflattenMessages_wire:
  assumes wf: "wf_field (MField nm tc isz n (MsgData msgs) True)" and msg: "wf_msg msg"
    and new: "fmap msg (cstr nm) = None" and am: "\<And>k. am k"
    and loop: "SubMessageLoop unflat am fuel mem inSize eLength 0 off [] = Ok (B_NO_ERROR, norm_slots msgs)"
  shows "UnflattenMessages unflat am fuel msg (nm @ r) mem inSize eLength off =
    Ok (B_NO_ERROR, AddMMessageField msg
          (norm_field (MField nm tc isz n (MsgData msgs) True)))"
proof -
  have tc: "tc = B_MESSAGE_TYPE" "length msgs = unat n" using wf by simp_all
  have var: "IsTypeCodeVariableSize tc" using tc(1) by simp
  note f = wf_slot_field(1-3) [OF wf, simplified, OF var refl, where r = r]
    wf_slot_field(4,5) [OF wf, simplified, OF var refl]
  have n: "word_of_nat (length (norm_slots msgs)) = n" using tc(2) by simp
  have put: "MMPutMessageField am msg False (nm @ r) n =
      Ok (True, AddMMessageField msg (MField nm tc isz n (MsgData (replicate (unat n) None)) True))"
    using PutMessages_absent [OF msg f(2) _ f(1) am] new f(3,4,5) tc(1) by simp
  show ?thesis
    unfolding UnflattenMessages_def loop obind_simps Let_def prod.case n put
    using tc(2) by (simp add: msg_slots_def fill_slots_def set_data_def)
qed

subsection \<open>The round trip\<close>

text \<open>
  One lemma per syntactic category, for an allocator that never fails: \<open>reads_msg\<close> says that a
  Message is read back from its bytes with any fuel above their number, whatever the Message
  object held before and whatever follows in memory.
\<close>

definition reads_msg :: "alloc \<Rightarrow> bool \<Rightarrow> u8 list \<Rightarrow> MMessage \<Rightarrow> bool" where
  "reads_msg am big bs m \<longleftrightarrow>
     (\<forall>fuel msg0 rest. length bs < size_limit big \<longrightarrow> length bs \<le> fuel
        \<longrightarrow> FreeFields (mm_fields msg0) = Ok () \<longrightarrow>
        MMUnflattenMessage am big fuel msg0 (bs @ rest) (word_of_nat (length bs)) = Ok (B_NO_ERROR, m))"

definition reads_entries :: "alloc \<Rightarrow> bool \<Rightarrow> u8 list \<Rightarrow> nat \<Rightarrow> MMessageField list \<Rightarrow> bool" where
  "reads_entries am big bs k gs \<longleftrightarrow>
     (\<forall>fuel msg mem inSize off ys. seg mem inSize off (bs @ ys) \<longrightarrow> length bs < size_limit big
        \<longrightarrow> length bs \<le> fuel \<longrightarrow> wf_msg (MMsg (mm_what msg) (mm_fields msg @ gs)) \<longrightarrow>
        UnflattenEntries (MMUnflattenMessage am big fuel) am big fuel k msg mem inSize off =
          Ok (B_NO_ERROR, MMsg (mm_what msg) (mm_fields msg @ gs)))"

definition reads_entry :: "alloc \<Rightarrow> bool \<Rightarrow> u8 list \<Rightarrow> MMessageField \<Rightarrow> bool" where
  "reads_entry am big bs g \<longleftrightarrow>
     (\<forall>fuel msg mem inSize off ys. seg mem inSize off (bs @ ys) \<longrightarrow> length bs < size_limit big
        \<longrightarrow> length bs \<le> fuel \<longrightarrow> wf_msg msg \<longrightarrow> fmap msg (field_key g) = None \<longrightarrow>
        UnflattenEntry (MMUnflattenMessage am big fuel) am big fuel msg mem inSize off =
          Ok (B_NO_ERROR, AddMMessageField msg g, off + word_of_nat (length bs)))"

definition reads_subs :: "alloc \<Rightarrow> bool \<Rightarrow> u8 list \<Rightarrow> MMessage list \<Rightarrow> bool" where
  "reads_subs am big bs ms \<longleftrightarrow>
     (\<forall>fuel n mem inSize off ys eLength eUsed acc. seg mem inSize off (bs @ ys)
        \<longrightarrow> length bs < size_limit big \<longrightarrow> length bs \<le> fuel \<longrightarrow> length bs \<le> n
        \<longrightarrow> unat eUsed + length bs = unat eLength \<longrightarrow>
        SubMessageLoop (MMUnflattenMessage am big fuel) am n mem inSize eLength eUsed off acc =
          Ok (B_NO_ERROR, acc @ ms))"

lemma reads_entriesD:
  "reads_entries am big bs k gs \<Longrightarrow> seg mem inSize off (bs @ ys) \<Longrightarrow> length bs < size_limit big \<Longrightarrow>
   length bs \<le> fuel \<Longrightarrow> wf_msg (MMsg w (hs @ gs)) \<Longrightarrow>
   UnflattenEntries (MMUnflattenMessage am big fuel) am big fuel k (MMsg w hs) mem inSize off =
     Ok (B_NO_ERROR, MMsg w (hs @ gs))"
  unfolding reads_entries_def by (metis MMessage.sel)

lemma reads_entryD:
  "reads_entry am big bs g \<Longrightarrow> seg mem inSize off (bs @ ys) \<Longrightarrow> length bs < size_limit big \<Longrightarrow>
   length bs \<le> fuel \<Longrightarrow> wf_msg msg \<Longrightarrow> fmap msg (field_key g) = None \<Longrightarrow>
   UnflattenEntry (MMUnflattenMessage am big fuel) am big fuel msg mem inSize off =
     Ok (B_NO_ERROR, AddMMessageField msg g, off + word_of_nat (length bs))"
  unfolding reads_entry_def by blast

lemma reads_subsD:
  "reads_subs am big bs ms \<Longrightarrow> seg mem inSize off (bs @ ys) \<Longrightarrow> length bs < size_limit big \<Longrightarrow>
   length bs \<le> fuel \<Longrightarrow> length bs \<le> n \<Longrightarrow> unat eUsed + length bs = unat eLength \<Longrightarrow>
   SubMessageLoop (MMUnflattenMessage am big fuel) am n mem inSize eLength eUsed off acc =
     Ok (B_NO_ERROR, acc @ ms)"
  unfolding reads_subs_def by blast

lemma reads_msg_intro:
  assumes "reads_entries am big bs (length (filter mf_isFlattenable fs)) gs"
    and "wf_msg (MMsg w gs)" "length (filter mf_isFlattenable fs) \<le> length bs"
  shows "reads_msg am big (u32_le CURRENT_PROTOCOL_VERSION @ u32_le w
    @ u32_le (numFlattenableEntries fs) @ bs) (MMsg w gs)"
  unfolding reads_msg_def
proof (intro allI impI)
  fix fuel msg0 rest
  let ?bs = "u32_le CURRENT_PROTOCOL_VERSION @ u32_le w @ u32_le (numFlattenableEntries fs) @ bs"
  let ?mem = "?bs @ rest" and ?sz = "word_of_nat (length ?bs) :: u32"
  assume lim: "length ?bs < size_limit big" and fuel: "length ?bs \<le> fuel"
    and free: "FreeFields (mm_fields msg0) = Ok ()"
  have "unat ?sz = length ?bs" by (rule unat_word_of_nat_u32) (rule size_limit_u32 [OF lim])
  then have s0: "seg ?mem ?sz 0 (u32_le CURRENT_PROTOCOL_VERSION @ u32_le w
      @ u32_le (numFlattenableEntries fs) @ bs @ [])"
    unfolding seg_def by (simp del: length_append)
  note s1 = seg_skip_u32 [OF s0]
  note s2 = seg_skip_u32 [OF s1]
  note s3 = seg_skip_u32 [OF s2]
  from fuel obtain f where f: "fuel = Suc f" "length bs \<le> f" by (cases fuel) auto
  have n: "unat (numFlattenableEntries fs) = length (filter mf_isFlattenable fs)"
    unfolding numFlattenableEntries_def using assms(3) lim
    by (intro unat_word_of_nat_u32 size_limit_u32 [of _ big]) simp
  have e: "UnflattenEntries (MMUnflattenMessage am big f) am big f
      (length (filter mf_isFlattenable fs)) (MMsg w []) ?mem ?sz (0 + 4 + 4 + 4) =
      Ok (B_NO_ERROR, MMsg w gs)"
    using reads_entriesD [OF assms(1) s3 _ f(2), of w "[]"]
      assms(2) lim by simp
  show "MMUnflattenMessage am big fuel msg0 ?mem ?sz = Ok (B_NO_ERROR, MMsg w gs)"
    unfolding f(1) MMUnflattenMessage.simps seg_read_u32 [OF s0] seg_read_u32 [OF s1]
      seg_read_u32 [OF s2] Let_def n
    using e free by (simp add: MMClearMessage_def MMSetWhat_def CURRENT_PROTOCOL_VERSION_def
        OLDEST_SUPPORTED_PROTOCOL_VERSION_def)
qed

lemma reads_subs_Nil: "reads_subs am big [] []"
  by (simp add: reads_subs_def SubMessageLoop.simps word_less_nat_alt)

lemma reads_subs_Cons:
  assumes m: "reads_msg am big bs m" and ms: "reads_subs am big cs ms" and am: "\<And>k. am k"
  shows "reads_subs am big (u32_le (word_of_nat (length bs)) @ bs @ cs) (m # ms)"
  unfolding reads_subs_def
proof (intro allI impI)
  fix fuel n mem inSize off ys acc and eLength eUsed :: u32
  let ?l = "word_of_nat (length bs) :: u32"
  assume s: "seg mem inSize off ((u32_le ?l @ bs @ cs) @ ys)"
    and lim: "length (u32_le ?l @ bs @ cs) < size_limit big"
    and fuel: "length (u32_le ?l @ bs @ cs) \<le> fuel" "length (u32_le ?l @ bs @ cs) \<le> n"
    and used: "unat eUsed + length (u32_le ?l @ bs @ cs) = unat eLength"
  have s0: "seg mem inSize off (u32_le ?l @ bs @ cs @ ys)" using s by simp
  note s1 = seg_skip_u32 [OF s0]
  note s2 = seg_skip [OF s1]
  have l: "unat ?l = length bs"
    using lim by (intro unat_word_of_nat_u32 size_limit_u32 [of _ big]) simp
  from fuel(2) obtain n' where n: "n = Suc n'" "length cs \<le> n'" by (cases n) auto
  have lt: "eUsed < eLength" using used by (simp add: word_less_nat_alt)
  have le: "off + 4 + ?l \<le> inSize"
    using s2 by (simp add: seg_def word_le_nat_alt)
  obtain rest where rest: "drop (unat (off + 4)) mem = bs @ rest" using seg_drop [OF s1] by auto
  have one: "MMUnflattenMessage am big fuel (MMsg 0 []) (bs @ rest) ?l = Ok (B_NO_ERROR, m)"
    using m lim fuel(1) by (simp add: reads_msg_def)
  have al: "MMAllocMessage am 0 = Some (MMsg 0 [])" using am by (simp add: MMAllocMessage_def)
  have u4: "unat (4 + ?l) = 4 + length bs"
    using used unat_u32_less [of eLength] l by (subst unat_add_no_wrap) simp_all
  have "unat (eUsed + (4 + ?l)) = unat eUsed + (4 + length bs)"
    using used unat_u32_less [of eLength] u4 by (subst unat_add_no_wrap) simp_all
  then have used': "unat (eUsed + (4 + ?l)) + length cs = unat eLength" using used by simp
  have "SubMessageLoop (MMUnflattenMessage am big fuel) am n' mem inSize eLength
      (eUsed + (4 + ?l)) (off + 4 + ?l) (acc @ [m]) = Ok (B_NO_ERROR, (acc @ [m]) @ ms)"
    using lim fuel(1) by (intro reads_subsD [OF ms s2 _ _ n(2) used']) simp_all
  then show "SubMessageLoop (MMUnflattenMessage am big fuel) am n mem inSize eLength eUsed off acc =
      Ok (B_NO_ERROR, acc @ m # ms)"
    unfolding n(1)
    by (subst SubMessageLoop.simps) (simp add: lt seg_read_u32 [OF s0] le al rest one)
qed

lemma reads_entries_Cons:
  assumes g: "reads_entry am big bs g" and gs: "reads_entries am big cs k gs"
  shows "reads_entries am big (bs @ cs) (Suc k) (g # gs)"
  unfolding reads_entries_def
proof (intro allI impI)
  fix fuel msg mem inSize off ys
  assume s: "seg mem inSize off ((bs @ cs) @ ys)" and lim: "length (bs @ cs) < size_limit big"
    and fuel: "length (bs @ cs) \<le> fuel" and wf: "wf_msg (MMsg (mm_what msg) (mm_fields msg @ g # gs))"
  have s0: "seg mem inSize off (bs @ cs @ ys)" using s by simp
  have wf1: "wf_msg msg" "fmap msg (field_key g) = None"
    using wf by (auto simp: wf_msg_fields wf_fields_iff uniq_names_def fmap_None)
  have "UnflattenEntry (MMUnflattenMessage am big fuel) am big fuel msg mem inSize off =
      Ok (B_NO_ERROR, AddMMessageField msg g, off + word_of_nat (length bs))"
    using lim fuel by (intro reads_entryD [OF g s0 _ _ wf1]) simp_all
  moreover have "UnflattenEntries (MMUnflattenMessage am big fuel) am big fuel k
      (AddMMessageField msg g) mem inSize (off + word_of_nat (length bs)) =
      Ok (B_NO_ERROR, MMsg (mm_what msg) ((mm_fields msg @ [g]) @ gs))"
    unfolding AddMMessageField_def
    using lim fuel wf by (intro reads_entriesD [OF gs seg_skip [OF s0]]) simp_all
  ultimately show "UnflattenEntries (MMUnflattenMessage am big fuel) am big fuel (Suc k) msg mem inSize off =
      Ok (B_NO_ERROR, MMsg (mm_what msg) (mm_fields msg @ g # gs))"
    by simp
qed

lemma length_wire_fields_ge: "length (filter mf_isFlattenable fs) \<le> length (wire_fields big fs)"
  by (induction fs) (auto simp: length_wire_field)

lemma reads_entry_fixed:
  assumes wf: "wf_field (MField nm tc isz n (FixedData bs) True)" and am: "\<And>k. am k"
  shows "reads_entry am big (wire_field nm tc (wire_fixed big tc isz bs))
    (MField nm tc isz n (FixedData bs) True)"
  unfolding reads_entry_def
proof (intro allI impI)
  fix fuel msg mem inSize off ys
  assume s: "seg mem inSize off (wire_field nm tc (wire_fixed big tc isz bs) @ ys)"
    and lim: "length (wire_field nm tc (wire_fixed big tc isz bs)) < size_limit big"
  have tc: "\<not> IsTypeCodeVariableSize tc" "tc \<noteq> B_POINTER_TYPE" "isz = type_item_size tc"
    using wf by (auto simp: wf_head_def)
  obtain u where u: "import_case tc = Some (tc, isz, u)" "u = snd (swap_units tc isz)"
    "isz div u = fst (swap_units tc isz)"
    using import_case_wf [OF tc(1,2)] tc(3) by auto
  obtain off3 where s3: "seg mem inSize off3 (wire_fixed big tc isz bs @ ys)"
    and eq: "UnflattenEntry (MMUnflattenMessage am big fuel) am big fuel msg mem inSize off =
      obind (ImportMMessageField am big nm tc (word_of_nat (length bs)) (drop (unat off3) mem) isz u)
        (\<lambda>r. case r of
             None \<Rightarrow> Ok (B_ERROR, msg, off)
           | Some newField \<Rightarrow>
               Ok (B_NO_ERROR, AddMMessageField msg newField,
                   off + word_of_nat (length (wire_field nm tc (wire_fixed big tc isz bs)))))"
    by (rule UnflattenEntry_header [OF s, of "MMUnflattenMessage am big fuel" am big fuel msg])
      (simp only: u(1) option.case prod.case length_wire_fixed)
  obtain rest where "drop (unat off3) mem = wire_fixed big tc isz bs @ rest"
    using seg_drop [OF s3] by auto
  moreover have "length bs < size_limit big" using lim by (simp add: length_wire_field)
  ultimately show "UnflattenEntry (MMUnflattenMessage am big fuel) am big fuel msg mem inSize off =
      Ok (B_NO_ERROR, AddMMessageField msg (MField nm tc isz n (FixedData bs) True),
          off + word_of_nat (length (wire_field nm tc (wire_fixed big tc isz bs))))"
    unfolding eq using Import_wire [OF wf _ am _ u(2,3)] by simp
qed

lemma reads_entry_bufs:
  assumes wf: "wf_field (MField nm tc isz n (BufData bufs) True)" and am: "\<And>k. am k"
  shows "reads_entry am big (wire_field nm tc (u32_le n @ wire_bufs bufs))
    (norm_field (MField nm tc isz n (BufData bufs) True))"
  unfolding reads_entry_def
proof (intro allI impI)
  let ?p = "u32_le n @ wire_bufs bufs"
  fix fuel msg mem inSize off ys
  assume s: "seg mem inSize off (wire_field nm tc ?p @ ys)"
    and msg: "wf_msg msg" "fmap msg (field_key (norm_field (MField nm tc isz n (BufData bufs) True))) = None"
  have tc: "IsTypeCodeVariableSize tc" "tc \<noteq> B_MESSAGE_TYPE" using wf by simp_all
  obtain off3 r where s3: "seg mem inSize off3 (?p @ ys)"
    and eq: "UnflattenEntry (MMUnflattenMessage am big fuel) am big fuel msg mem inSize off =
      obind (UnflattenBuffers am msg tc (nm @ r) mem inSize (word_of_nat (length ?p)) off3)
        (\<lambda>r. Ok (fst r, snd r, off + word_of_nat (length (wire_field nm tc ?p))))"
    by (rule UnflattenEntry_header [OF s, of "MMUnflattenMessage am big fuel" am big fuel msg])
      (simp only: import_case_var [OF tc(1)] option.case tc(2) if_False)
  have "unat (word_of_nat (length ?p) :: u32) = length ?p" using seg_word_len [OF s3] .
  then show "UnflattenEntry (MMUnflattenMessage am big fuel) am big fuel msg mem inSize off =
      Ok (B_NO_ERROR, AddMMessageField msg (norm_field (MField nm tc isz n (BufData bufs) True)),
          off + word_of_nat (length (wire_field nm tc ?p)))"
    unfolding eq using UnflattenBuffers_wire [OF wf msg(1) _ am s3] msg(2)
    by (simp add: field_key_def del: length_append)
qed

lemma reads_entry_msgs:
  assumes wf: "wf_field (MField nm tc isz n (MsgData msgs) True)" and am: "\<And>k. am k"
    and subs: "reads_subs am big (wire_slots big msgs) (norm_slots msgs)"
  shows "reads_entry am big (wire_field nm tc (wire_slots big msgs))
    (norm_field (MField nm tc isz n (MsgData msgs) True))"
  unfolding reads_entry_def
proof (intro allI impI)
  let ?p = "wire_slots big msgs"
  fix fuel msg mem inSize off ys
  assume s: "seg mem inSize off (wire_field nm tc ?p @ ys)"
    and lim: "length (wire_field nm tc ?p) < size_limit big" and fuel: "length (wire_field nm tc ?p) \<le> fuel"
    and msg: "wf_msg msg" "fmap msg (field_key (norm_field (MField nm tc isz n (MsgData msgs) True))) = None"
  have tc: "tc = B_MESSAGE_TYPE" "IsTypeCodeVariableSize tc" using wf by simp_all
  obtain off3 r where s3: "seg mem inSize off3 (?p @ ys)"
    and eq: "UnflattenEntry (MMUnflattenMessage am big fuel) am big fuel msg mem inSize off =
      obind (UnflattenMessages (MMUnflattenMessage am big fuel) am fuel msg (nm @ r) mem inSize
               (word_of_nat (length ?p)) off3)
        (\<lambda>r. Ok (fst r, snd r, off + word_of_nat (length (wire_field nm tc ?p))))"
    by (rule UnflattenEntry_header [OF s, of "MMUnflattenMessage am big fuel" am big fuel msg])
      (simp only: tc(1) import_case_var [OF tc(2) [unfolded tc(1)]] option.case simp_thms if_True)
  have "unat (0 :: u32) + length ?p = unat (word_of_nat (length ?p) :: u32)"
    using seg_word_len [OF s3] by simp
  then have "SubMessageLoop (MMUnflattenMessage am big fuel) am fuel mem inSize
      (word_of_nat (length ?p)) 0 off3 [] = Ok (B_NO_ERROR, [] @ norm_slots msgs)"
    using lim fuel by (intro reads_subsD [OF subs s3]) (simp_all add: length_wire_field)
  then show "UnflattenEntry (MMUnflattenMessage am big fuel) am big fuel msg mem inSize off =
      Ok (B_NO_ERROR, AddMMessageField msg (norm_field (MField nm tc isz n (MsgData msgs) True)),
          off + word_of_nat (length (wire_field nm tc ?p)))"
    unfolding eq using UnflattenMessages_wire [OF wf msg(1) _ am] msg(2)
    by (simp add: field_key_def)
qed

lemma unflatten_wire:
  assumes am: "\<And>k. am k"
  shows "wf_msg m \<Longrightarrow> reads_msg am big (wire_msg big m) (norm_msg m)"
    "wf_fields fs \<Longrightarrow> reads_entries am big (wire_fields big fs)
       (length (filter mf_isFlattenable fs)) (norm_fields fs)"
    "wf_field f \<Longrightarrow> mf_isFlattenable f \<longrightarrow>
       reads_entry am big (wire_field (mf_name f) (mf_typeCode f) (wire_data big f)) (norm_field f)"
    "wf_slots ms \<Longrightarrow> reads_subs am big (wire_slots big ms) (norm_slots ms)"
proof (induction m and fs and f and ms rule: MMessage_induct)
  case (1 w fs)
  then show ?case
    using reads_msg_intro [of am big "wire_fields big fs" fs "norm_fields fs" w]
      norm_wf(1) [of "MMsg w fs"] length_wire_fields_ge [of fs big] by simp
next
  case (3 f fs)
  then show ?case
    using reads_entries_Cons [of am big "wire_field (mf_name f) (mf_typeCode f) (wire_data big f)"
        "norm_field f" "wire_fields big fs"]
    by simp
next
  case (4 nm tc isz n bs fl)
  then show ?case using reads_entry_fixed [where am = am, OF _ am] by (cases fl) simp_all
next
  case (5 nm tc isz n bufs fl)
  then show ?case using reads_entry_bufs [where am = am, OF _ am] by (cases fl) simp_all
next
  case (6 nm tc isz n msgs fl)
  then have subs: "reads_subs am big (wire_slots big msgs) (norm_slots msgs)" by simp
  show ?case
  proof (cases fl)
    case True
    have "wf_field (MField nm tc isz n (MsgData msgs) True)" using 6(2) True by auto
    from reads_entry_msgs [where am = am, OF this am subs] True show ?thesis by simp
  qed simp
next
  case (8 ms)
  have "reads_msg am big (u32_le CURRENT_PROTOCOL_VERSION @ u32_le 0 @ u32_le (numFlattenableEntries [])
      @ []) (MMsg 0 [])"
    by (rule reads_msg_intro) (simp_all add: reads_entries_def)
  from reads_subs_Cons [OF this _ am, of "wire_slots big ms" "norm_slots ms"] 8
  show ?case by (simp add: numFlattenableEntries_def)
next
  case (9 m ms)
  then show ?case using reads_subs_Cons [where am = am, OF _ _ am] by simp
qed (simp_all add: reads_subs_Nil reads_entries_def)

lemma unflatten_flatten:
  assumes "wf_msg m" "\<And>k. am k" "length (wire_msg big m) < size_limit big"
    "length (wire_msg big m) \<le> fuel" "FreeFields (mm_fields msg0) = Ok ()"
  shows "MMUnflattenMessage am big fuel msg0 (wire_msg big m @ rest)
    (word_of_nat (length (wire_msg big m))) = Ok (B_NO_ERROR, norm_msg m)"
  using unflatten_wire(1) [where am = am, OF assms(2,1), of big] assms(3-5) by (simp add: reads_msg_def)

subsection \<open>Input that is rejected\<close>

lemma ReadData_short:
  "unat off + unat n \<le> unat inSize + 0 \<Longrightarrow> unat inSize \<le> length mem \<Longrightarrow>
   \<exists>bs. ReadData mem inSize off n = Ok (Some (bs, off + n))"
  using unat_u32_less [of inSize]
  by (auto simp: ReadData_def mem_read_def word_less_nat_alt unat_add_no_wrap)

lemma read_u32_short:
  assumes "unat inSize < unat off + 4" "unat off + 4 < 2 ^ 32"
  shows "read_u32 mem inSize off err k = err"
proof -
  have "unat (off + 4) = unat off + 4" using assms(2) by (subst unat_add_no_wrap) simp_all
  then have "off + 4 > inSize" using assms(1) by (simp add: word_less_nat_alt)
  then show ?thesis by (simp add: read_u32_def ReadData_def)
qed

lemma read_u32_in:
  assumes "unat off + 4 \<le> unat inSize" "unat inSize \<le> length mem"
  obtains v where "\<And>err (k :: u32 \<Rightarrow> u32 \<Rightarrow> 'a outcome). read_u32 mem inSize off err k = k v (off + 4)"
  using ReadData_short [of off 4 inSize mem] assms that by (auto simp: read_u32_def)

text \<open>A buffer without a whole header is rejected, and no field of the Message changes.\<close>

lemma unflatten_short_header:
  assumes "unat inSize < 12" "unat inSize \<le> length mem"
  shows "\<exists>w. MMUnflattenMessage am big (Suc fuel) msg mem inSize = Ok (B_ERROR, MMsg w (mm_fields msg))"
proof (cases "unat inSize < 4")
  case True
  then show ?thesis
    using read_u32_short [of inSize 0] by (auto intro!: exI [of _ "mm_what msg"])
next
  case False
  then obtain v where v: "\<And>err (k :: u32 \<Rightarrow> u32 \<Rightarrow> (status \<times> MMessage) outcome).
      read_u32 mem inSize 0 err k = k v (0 + 4)"
    using read_u32_in [of 0 inSize mem] assms(2) by auto
  show ?thesis
  proof (cases "unat inSize < 8")
    case True
    then have "read_u32 mem inSize 4 err k = err"
      for err and k :: "u32 \<Rightarrow> u32 \<Rightarrow> (status \<times> MMessage) outcome"
      by (intro read_u32_short) simp_all
    then show ?thesis by (auto simp: v intro!: exI [of _ "mm_what msg"])
  next
    case False
    then obtain w where w: "\<And>err (k :: u32 \<Rightarrow> u32 \<Rightarrow> (status \<times> MMessage) outcome).
        read_u32 mem inSize 4 err k = k w (4 + 4)"
      using read_u32_in [of 4 inSize mem] assms(2) by auto
    have "read_u32 mem inSize 8 err k = err"
      for err and k :: "u32 \<Rightarrow> u32 \<Rightarrow> (status \<times> MMessage) outcome"
      using assms(1) by (intro read_u32_short) simp_all
    then show ?thesis
      by (auto simp: v w MMSetWhat_def intro: exI [of _ "mm_what msg"] exI [of _ w])
  qed
qed

lemma unflatten_wrong_version:
  assumes "seg mem inSize 0 (u32_le v @ bs)" "v \<noteq> CURRENT_PROTOCOL_VERSION"
  shows "MMUnflattenMessage am big (Suc fuel) msg mem inSize = Ok (B_ERROR, msg)"
proof -
  have "v < OLDEST_SUPPORTED_PROTOCOL_VERSION \<or> v > CURRENT_PROTOCOL_VERSION"
    using assms(2) unfolding OLDEST_SUPPORTED_PROTOCOL_VERSION_def CURRENT_PROTOCOL_VERSION_def
    by (metis linorder_neq_iff)
  then show ?thesis by (simp add: seg_read_u32 [OF assms(1)])
qed

subsection \<open>Input on which the bounds checks fail\<close>

text \<open>A buffer with a single entry of a variable-size type.\<close>

definition one_entry :: "u8 list \<Rightarrow> u32 \<Rightarrow> u8 list \<Rightarrow> u8 list" where
  "one_entry nm tc payload =
     u32_le CURRENT_PROTOCOL_VERSION @ u32_le 0 @ u32_le 1 @ wire_field nm tc payload"

lemma status_pair:
  "(if fst r = B_NO_ERROR then Ok (B_NO_ERROR, snd r) else Ok (B_ERROR, snd r)) = Ok r"
  by (cases r; cases "fst r") auto

lemma obind_Ok [simp]: "obind r Ok = r"
  by (cases r) simp_all

lemma unflatten_one_entry:
  fixes nm tc payload
  defines "mem \<equiv> one_entry nm tc payload"
  defines "sz \<equiv> word_of_nat (length mem) :: u32"
  assumes len: "length mem < 2 ^ 32" and var: "IsTypeCodeVariableSize tc"
    and free: "FreeFields (mm_fields msg0) = Ok ()"
  obtains off3 r where "seg mem sz off3 (payload @ [])" "unat off3 = 24 + length nm"
    "MMUnflattenMessage am big (Suc f) msg0 mem sz =
      (if tc = B_MESSAGE_TYPE
       then UnflattenMessages (MMUnflattenMessage am big f) am f (MMsg 0 []) (nm @ r) mem sz
              (word_of_nat (length payload)) off3
       else UnflattenBuffers am (MMsg 0 []) tc (nm @ r) mem sz
              (word_of_nat (length payload)) off3)"
proof -
  have sz: "unat sz = length mem" unfolding sz_def using len by (rule unat_word_of_nat_u32)
  have s0: "seg mem sz 0 (u32_le CURRENT_PROTOCOL_VERSION @ u32_le 0 @ u32_le 1
      @ wire_field nm tc payload @ [])"
    by (simp add: seg_def sz) (simp add: mem_def one_entry_def)
  note s1 = seg_skip_u32 [OF s0]
  note s2 = seg_skip_u32 [OF s1]
  note s3 = seg_skip_u32 [OF s2]
  obtain off3 r where s4: "seg mem sz off3 (payload @ [])"
    and pos: "off3 + word_of_nat (length payload)
      = 0 + 4 + 4 + 4 + word_of_nat (length (wire_field nm tc payload))"
    and eq: "UnflattenEntry (MMUnflattenMessage am big f) am big f (MMsg 0 []) mem sz (0 + 4 + 4 + 4) =
      obind (if tc = B_MESSAGE_TYPE
             then UnflattenMessages (MMUnflattenMessage am big f) am f (MMsg 0 []) (nm @ r) mem sz
                    (word_of_nat (length payload)) off3
             else UnflattenBuffers am (MMsg 0 []) tc (nm @ r) mem sz
                    (word_of_nat (length payload)) off3)
        (\<lambda>r. Ok (fst r, snd r, 0 + 4 + 4 + 4 + word_of_nat (length (wire_field nm tc payload))))"
    by (rule UnflattenEntry_header [OF s3, of "MMUnflattenMessage am big f" am big f "MMsg 0 []"])
      (simp only: import_case_var [OF var] option.case)
  have "off3 = word_of_nat (24 + length nm)" using pos by (simp add: length_wire_field algebra_simps)
  moreover have "24 + length nm < 2 ^ 32" using len by (simp add: mem_def one_entry_def length_wire_field)
  ultimately have "unat off3 = 24 + length nm" by (simp only: unat_word_of_nat_u32)
  moreover have "MMUnflattenMessage am big (Suc f) msg0 mem sz =
      (if tc = B_MESSAGE_TYPE
       then UnflattenMessages (MMUnflattenMessage am big f) am f (MMsg 0 []) (nm @ r) mem sz
              (word_of_nat (length payload)) off3
       else UnflattenBuffers am (MMsg 0 []) tc (nm @ r) mem sz
              (word_of_nat (length payload)) off3)"
    unfolding MMUnflattenMessage.simps seg_read_u32 [OF s0] seg_read_u32 [OF s1]
      seg_read_u32 [OF s2] Let_def
    using free eq
    by (simp add: MMClearMessage_def MMSetWhat_def CURRENT_PROTOCOL_VERSION_def
        OLDEST_SUPPORTED_PROTOCOL_VERSION_def obind_assoc status_pair cong: if_cong)
  ultimately show thesis using that [OF s4] by simp
qed

text \<open>
  One entry with one sub-Message whose length is \<open>2 ^ 32 - 4\<close>.  The check
  \<^verbatim>\<open>eOffset + entryLen <= inputBufferBytes\<close> wraps around, the empty sub-Message is read, and
  both \<^verbatim>\<open>eOffset\<close> and \<^verbatim>\<open>eUsed\<close> are what they were before: the loop allocates Messages as
  long as \<^verbatim>\<open>malloc\<close> succeeds.
\<close>

definition endless_payload :: "u8 list" where
  "endless_payload = u32_le 4294967292 @ u32_le CURRENT_PROTOCOL_VERSION @ u32_le 0 @ u32_le 0"

definition endless_input :: "u8 list" where
  "endless_input = one_entry [109, 0] B_MESSAGE_TYPE endless_payload"

lemma endless_loop:
  assumes s: "seg mem inSize off (endless_payload @ ys)" and am: "\<And>k. am k" and "0 < eLength"
  shows "SubMessageLoop (MMUnflattenMessage am big fuel) am n mem inSize eLength 0 off acc = Spin"
proof (induction n arbitrary: acc)
  case 0
  then show ?case using assms(3) by (simp add: SubMessageLoop.simps)
next
  case (Suc n)
  let ?l = "4294967292 :: u32"
  have s0: "seg mem inSize off (u32_le ?l @ u32_le CURRENT_PROTOCOL_VERSION @ u32_le 0 @ u32_le 0 @ ys)"
    using s by (simp add: endless_payload_def)
  have e: "off + 4 + ?l = off" "(0 :: u32) + (4 + ?l) = 0" by simp_all
  have z: "(4294967296 :: u32) = 0" by simp
  have le: "off \<le> inSize" using s0 by (simp add: seg_def word_le_nat_alt)
  obtain rest where r: "drop (unat (off + 4)) mem =
      (u32_le CURRENT_PROTOCOL_VERSION @ u32_le 0 @ u32_le 0 @ []) @ rest"
    using seg_drop [OF seg_skip_u32 [OF s0]] by auto
  let ?sub = "(u32_le CURRENT_PROTOCOL_VERSION @ u32_le 0 @ u32_le 0 @ []) @ rest"
  have t0: "seg ?sub ?l 0 (u32_le CURRENT_PROTOCOL_VERSION @ u32_le 0 @ u32_le 0 @ [])"
    by (auto simp: seg_def)
  note t1 = seg_skip_u32 [OF t0]
  note t2 = seg_skip_u32 [OF t1]
  have one: "MMUnflattenMessage am big fuel (MMsg 0 []) ?sub ?l \<in> {Spin, Ok (B_NO_ERROR, MMsg 0 [])}"
  proof (cases fuel)
    case (Suc f)
    show ?thesis
      unfolding Suc MMUnflattenMessage.simps seg_read_u32 [OF t0] seg_read_u32 [OF t1]
        seg_read_u32 [OF t2] Let_def
      by (simp add: MMClearMessage_def MMSetWhat_def CURRENT_PROTOCOL_VERSION_def
          OLDEST_SUPPORTED_PROTOCOL_VERSION_def)
  qed simp
  have al: "MMAllocMessage am 0 = Some (MMsg 0 [])" using am by (simp add: MMAllocMessage_def)
  show ?case
    using assms(3) le one Suc.IH [of "acc @ [MMsg 0 []]"]
    by (subst SubMessageLoop.simps) (auto simp: seg_read_u32 [OF s0] e al r z)
qed

lemma unflatten_endless:
  assumes am: "\<And>k. am k" and free: "FreeFields (mm_fields msg0) = Ok ()"
  shows "MMUnflattenMessage am big fuel msg0 endless_input (word_of_nat (length endless_input)) = Spin"
proof (cases fuel)
  case (Suc f)
  have len: "length endless_payload = 16" "length endless_input < 2 ^ 32"
    by (simp_all add: endless_payload_def endless_input_def one_entry_def length_wire_field)
  obtain off3 r where
    s: "seg endless_input (word_of_nat (length endless_input)) off3 (endless_payload @ [])"
    and eq: "MMUnflattenMessage am big (Suc f) msg0 endless_input (word_of_nat (length endless_input)) =
      UnflattenMessages (MMUnflattenMessage am big f) am f (MMsg 0 []) ([109, 0] @ r)
        endless_input (word_of_nat (length endless_input)) (word_of_nat (length endless_payload)) off3"
    unfolding endless_input_def
    by (rule unflatten_one_entry [OF len(2) [unfolded endless_input_def] _ free, of am big f]) simp_all
  show ?thesis
    unfolding Suc eq UnflattenMessages_def using endless_loop [OF s am] len(1) by simp
qed simp

text \<open>
  A string field whose only item claims five bytes where one is left: the four bytes of the item
  count are still in \<^verbatim>\<open>eLeft\<close>, so the check passes and the copy reads past the buffer.
\<close>

definition overread_payload :: "u8 list" where
  "overread_payload = u32_le 1 @ u32_le 5 @ [0]"

definition overread_input :: "u8 list" where
  "overread_input = one_entry [115, 0] B_STRING_TYPE overread_payload"

text \<open>
  A string field that claims \<open>2 ^ 29\<close> items: the size of the array of pointers wraps around to
  zero, and the first pointer is written behind the block.
\<close>

definition overflow_payload :: "u8 list" where
  "overflow_payload = u32_le (2 ^ 29) @ u32_le 0"

definition overflow_input :: "u8 list" where
  "overflow_input = one_entry [115, 0] B_STRING_TYPE overflow_payload"

lemma unflatten_overread:
  assumes am: "\<And>k. am k" and free: "FreeFields (mm_fields msg0) = Ok ()"
  shows "MMUnflattenMessage am big (Suc f) msg0 overread_input (word_of_nat (length overread_input)) = Fault"
proof -
  let ?mem = overread_input and ?sz = "word_of_nat (length overread_input) :: u32"
  have len: "length overread_payload = 9" "length ?mem = 35"
    by (simp_all add: overread_payload_def overread_input_def one_entry_def length_wire_field)
  have tc: "B_STRING_TYPE \<noteq> B_MESSAGE_TYPE" by (simp add: type_code_defs)
  have "length ?mem < 2 ^ 32" using len by simp
  then obtain off3 r where s: "seg ?mem ?sz off3 (overread_payload @ [])" and off3: "unat off3 = 26"
    and eq: "MMUnflattenMessage am big (Suc f) msg0 ?mem ?sz =
      UnflattenBuffers am (MMsg 0 []) B_STRING_TYPE ([115, 0] @ r) ?mem ?sz
        (word_of_nat (length overread_payload)) off3"
    unfolding overread_input_def
    by (rule unflatten_one_entry [OF _ _ free, of "[115, 0]" B_STRING_TYPE overread_payload am big f])
      (simp_all add: tc)
  have s0: "seg ?mem ?sz off3 (u32_le 1 @ u32_le 5 @ [0])" using s by (simp add: overread_payload_def)
  note s1 = seg_skip_u32 [OF s0]
  note s2 = seg_skip_u32 [OF s1]
  have "unat (off3 + 4 + 4) = 34"
    using seg_unat [OF s0] seg_unat [OF s1] off3 by simp
  then have rd: "mem_read ?mem (unat (8 + off3)) 5 = Fault" by (simp add: mem_read_def len add.commute)
  have "PutMMVariableFieldAux am (MMsg 0 []) False B_STRING_TYPE ([115, 0] @ r) 1 =
      Ok (True, AddMMessageField (MMsg 0 []) (MField (cstr ([115, 0] @ r) @ [0]) B_STRING_TYPE
            sizeof_ptr 1 (BufData (replicate (unat (1 :: u32)) None)) True))"
    by (rule PutBuffers_absent)
      (simp_all add: am tc fmap_def is_cstr_def alloc_fits_def sizeof_ptr_def cstr_def
        sizeof_MMessageField_def)
  moreover have "BufferLoop am (Suc 0) 0 ?mem ?sz (off3 + 4) 9 [None] = Fault"
    using am by (simp add: seg_read_u32 [OF s1] rd MBAllocByteBuffer_def)
  ultimately show ?thesis
    unfolding eq UnflattenBuffers_def seg_read_u32 [OF s0]
    by (simp add: buf_slots_def len)
qed

lemma unflatten_overflow:
  assumes am: "\<And>k. am k" and free: "FreeFields (mm_fields msg0) = Ok ()"
  shows "MMUnflattenMessage am big (Suc f) msg0 overflow_input (word_of_nat (length overflow_input)) = Fault"
proof -
  let ?mem = overflow_input and ?sz = "word_of_nat (length overflow_input) :: u32"
  have len: "length overflow_payload = 8" "length ?mem < 2 ^ 32"
    by (simp_all add: overflow_payload_def overflow_input_def one_entry_def length_wire_field)
  have tc: "B_STRING_TYPE \<noteq> B_MESSAGE_TYPE" by (simp add: type_code_defs)
  obtain off3 r where s: "seg ?mem ?sz off3 (overflow_payload @ [])"
    and eq: "MMUnflattenMessage am big (Suc f) msg0 ?mem ?sz =
      UnflattenBuffers am (MMsg 0 []) B_STRING_TYPE ([115, 0] @ r) ?mem ?sz
        (word_of_nat (length overflow_payload)) off3"
    unfolding overflow_input_def
    by (rule unflatten_one_entry [OF len(2) [unfolded overflow_input_def] _ free, of am big f])
      (simp_all add: tc)
  have s0: "seg ?mem ?sz off3 (u32_le (2 ^ 29) @ u32_le 0 @ [])"
    using s by (simp add: overflow_payload_def)
  note s1 = seg_skip_u32 [OF s0]
  have z: "(2 ^ 29 :: u32) * sizeof_ptr = 0" "(536870912 :: u32) * sizeof_ptr = 0"
    by (simp_all add: sizeof_ptr_def)
  have nm: "strlen ([115, 0] @ r) = Ok 1" by simp
  have "AllocMMessageField am [115, 0] B_STRING_TYPE (2 ^ 29) sizeof_ptr =
      Ok (Some (MField [115, 0] B_STRING_TYPE sizeof_ptr (2 ^ 29) (FixedData []) True))"
    unfolding AllocMMessageField_def z(1) by (simp add: am sizeof_MMessageField_def terminate_name_def)
  then have put: "PutMMVariableFieldAux am (MMsg 0 []) False B_STRING_TYPE ([115, 0] @ r) (2 ^ 29) =
      Ok (True, AddMMessageField (MMsg 0 []) (MField [115, 0] B_STRING_TYPE sizeof_ptr (2 ^ 29)
            (BufData []) True))"
    by (simp add: PutMMVariableFieldAux_def LookupMMessageField_def as_buf_slots_def z)
  have k: "(536870912 :: nat) = Suc 536870911" by simp
  have "BufferLoop am 536870912 0 ?mem ?sz (off3 + 4) 8 [] = Fault"
    unfolding k BufferLoop.simps seg_read_u32 [OF s1] by simp
  then show ?thesis
    unfolding eq UnflattenBuffers_def seg_read_u32 [OF s0] put
    by (simp add: buf_slots_def len)
qed

text \<open>
  A field of Messages, the first of which is empty and the second announces a hundred bytes that are not
  there: the list that is to be freed has one Message, whose \<^verbatim>\<open>scratch\<close> pointer was never set.
\<close>

definition stale_payload :: "u8 list" where
  "stale_payload = u32_le 12 @ u32_le CURRENT_PROTOCOL_VERSION @ u32_le 0 @ u32_le 0 @ u32_le 100"

definition stale_input :: "u8 list" where
  "stale_input = one_entry [109, 0] B_MESSAGE_TYPE stale_payload"

lemma empty_unflattens:
  assumes "drop k mem = u32_le CURRENT_PROTOCOL_VERSION @ u32_le 0 @ u32_le 0 @ rest"
  shows "MMUnflattenMessage am big (Suc f) (MMsg 0 []) (drop k mem) 12 = Ok (B_NO_ERROR, MMsg 0 [])"
proof -
  have t0: "seg (drop k mem) 12 0 (u32_le CURRENT_PROTOCOL_VERSION @ u32_le 0 @ u32_le 0 @ [])"
    by (auto simp: seg_def assms)
  note t1 = seg_skip_u32 [OF t0]
  note t2 = seg_skip_u32 [OF t1]
  show ?thesis
    unfolding MMUnflattenMessage.simps seg_read_u32 [OF t0] seg_read_u32 [OF t1] seg_read_u32 [OF t2] Let_def
    by (simp add: MMClearMessage_def MMSetWhat_def CURRENT_PROTOCOL_VERSION_def OLDEST_SUPPORTED_PROTOCOL_VERSION_def)
qed

lemma stale_loop:
  assumes s: "seg mem 46 26 stale_payload" and am: "\<And>k. am k"
  shows "SubMessageLoop (MMUnflattenMessage am big (Suc (Suc f))) am (Suc (Suc f)) mem 46 20 0 26 [] =
    Ok (B_ERROR, [MMsg 0 []])"
proof -
  have s0: "seg mem 46 26 (u32_le 12 @ (u32_le CURRENT_PROTOCOL_VERSION @ u32_le 0 @ u32_le 0) @ u32_le 100 @ [])"
    using s by (simp add: stale_payload_def)
  note s1 = seg_skip_u32 [OF s0]
  have s2: "seg mem 46 42 (u32_le 100 @ [])" using seg_skip [OF s1] by simp
  obtain rest where d: "drop 30 mem = u32_le CURRENT_PROTOCOL_VERSION @ u32_le 0 @ u32_le 0 @ rest"
    using seg_drop [OF s1] by auto
  have al: "MMAllocMessage am 0 = Some (MMsg 0 [])" using am by (simp add: MMAllocMessage_def)
  show ?thesis
    by (subst SubMessageLoop.simps, simp add: seg_read_u32 [OF s0] al empty_unflattens [OF d] del: MMUnflattenMessage.simps)
      (subst SubMessageLoop.simps, simp add: seg_read_u32 [OF s2] del: MMUnflattenMessage.simps)
qed

lemma unflatten_stale:
  assumes am: "\<And>k. am k" and free: "FreeFields (mm_fields msg0) = Ok ()"
  shows "MMUnflattenMessage am big (Suc (Suc (Suc f))) msg0 stale_input (word_of_nat (length stale_input)) = Fault"
proof -
  have len: "length stale_payload = 20" "length stale_input = 46"
    by (simp_all add: stale_payload_def stale_input_def one_entry_def length_wire_field)
  obtain off3 r where
    s: "seg stale_input (word_of_nat (length stale_input)) off3 (stale_payload @ [])" "unat off3 = 24 + length [109, 0 :: u8]"
    and eq: "MMUnflattenMessage am big (Suc (Suc (Suc f))) msg0 stale_input (word_of_nat (length stale_input)) =
      UnflattenMessages (MMUnflattenMessage am big (Suc (Suc f))) am (Suc (Suc f)) (MMsg 0 []) ([109, 0] @ r)
        stale_input (word_of_nat (length stale_input)) (word_of_nat (length stale_payload)) off3"
    unfolding stale_input_def
    by (rule unflatten_one_entry [OF _ _ free, of "[109, 0]" B_MESSAGE_TYPE stale_payload am big "Suc (Suc f)"])
      (simp_all add: len(2) [unfolded stale_input_def])
  have o: "off3 = 26" using s(2) by (simp add: word_unat_eq_iff)
  have "seg stale_input 46 26 stale_payload" using s(1) len o by simp
  from stale_loop [where am = am, OF this am, of big f] show ?thesis
    unfolding eq UnflattenMessages_def by (simp add: len o)
qed

text \<open>
  A field with an empty name: \<^verbatim>\<open>AllocMMessageField\<close> is passed the length of the name in the input, and
  writes its terminating zero to \<^verbatim>\<open>name[nameBytes-1]\<close>, four gigabytes behind the field.
\<close>

definition nameless_input :: "u8 list" where
  "nameless_input = one_entry [] B_INT32_TYPE (u32_le 5)"

lemma nameless_import:
  assumes am: "\<And>k. am k"
  shows "ImportMMessageField am big [] B_INT32_TYPE 4 mem 4 4 = Fault"
  using am by (simp add: ImportMMessageField_def AllocMMessageField_def)

lemma unflatten_nameless:
  assumes am: "\<And>k. am k" and free: "FreeFields (mm_fields msg0) = Ok ()"
  shows "MMUnflattenMessage am big (Suc f) msg0 nameless_input (word_of_nat (length nameless_input)) = Fault"
proof -
  have len: "length nameless_input = 28"
    by (simp add: nameless_input_def one_entry_def length_wire_field)
  have s0: "seg nameless_input 28 0 (u32_le CURRENT_PROTOCOL_VERSION @ u32_le 0 @ u32_le 1 @ u32_le 0
      @ u32_le B_INT32_TYPE @ u32_le 4 @ u32_le 5 @ [])"
    by (simp add: seg_def nameless_input_def one_entry_def wire_field_def)
  note s1 = seg_skip_u32 [OF s0]
  note s2 = seg_skip_u32 [OF s1]
  note s3 = seg_skip_u32 [OF s2]
  note s4 = seg_skip_u32 [OF s3]
  note s5 = seg_skip_u32 [OF s4]
  have i: "import_case B_INT32_TYPE = Some (B_INT32_TYPE, 4, 4)" by code_simp
  have entry: "UnflattenEntry unflat am big f msg nameless_input 28 12 = Fault" for unflat msg
    using s3 s4 s5 by (simp add: UnflattenEntry_def seg_read_u32 [where v = 0] seg_read_u32 [where v = B_INT32_TYPE]
        seg_read_u32 [where v = 4] i mem_read_def nameless_import [OF am])
  show ?thesis
    unfolding len MMUnflattenMessage.simps of_nat_numeral seg_read_u32 [OF s0] seg_read_u32 [OF s1]
      seg_read_u32 [OF s2] Let_def
    using free entry
    by (simp add: MMClearMessage_def MMSetWhat_def CURRENT_PROTOCOL_VERSION_def OLDEST_SUPPORTED_PROTOCOL_VERSION_def)
qed

end
