(* ===== verification/Mini_Gateway.thy ===== *)
theory Mini_Gateway
  imports Mini_Unflatten
begin

section \<open>MiniMessageGateway: framing Messages on a byte stream\<close>

text \<open>
  \<^verbatim>\<open>source/muscle/minimessage/MiniMessageGateway.c\<close>.  The output buffers form a linked list whose
  next-pointers are in the first eight bytes of each buffer; the model has the list of the buffers
  from \<^verbatim>\<open>_curOutput\<close> to \<^verbatim>\<open>_outputTail\<close>, and those eight bytes are never sent.  \<^verbatim>\<open>sendFunc\<close> and
  \<^verbatim>\<open>recvFunc\<close> belong to the caller: they are functions on the state \<open>'e\<close> of the outside world.
  \<open>send e bs\<close> gives the number of bytes taken or a negative number, \<open>recv e n\<close> that number and
  the bytes it wrote.  The loops take fuel.
\<close>

record MMessageGateway =
  gw_curInput :: "u8 list"
  gw_output :: "u8 list list"
  gw_curInputPos :: u32
  gw_maxInputPos :: u32
  gw_curOutputPos :: u32

type_synonym 'e send_func = "'e \<Rightarrow> u8 list \<Rightarrow> int \<times> 'e"
type_synonym 'e recv_func = "'e \<Rightarrow> u32 \<Rightarrow> int \<times> u8 list \<times> 'e"

definition sizeof_MMessageGateway :: nat where "sizeof_MMessageGateway = 40"

definition MGAllocMessageGateway :: "alloc \<Rightarrow> MMessageGateway option" where
  "MGAllocMessageGateway am =
     (if am sizeof_MMessageGateway then
        (case MBAllocByteBuffer am (2 * 4) [] of
           None \<Rightarrow> None
         | Some b \<Rightarrow> Some \<lparr>gw_curInput = b, gw_output = [], gw_curInputPos = 0,
                          gw_maxInputPos = 2 * 4, gw_curOutputPos = sizeof_ptr\<rparr>)
      else None)"

definition MGAddOutgoingMessage ::
    "alloc \<Rightarrow> bool \<Rightarrow> MMessageGateway \<Rightarrow> MMessage \<Rightarrow> (status \<times> MMessageGateway) outcome" where
  "MGAddOutgoingMessage am big gw msg =
     obind (MMGetFlattenedSize msg) (\<lambda>flatSize.
     case MBAllocByteBuffer am (sizeof_ptr + 2 * 4 + flatSize) [] of
       None \<Rightarrow> Ok (B_ERROR, gw)
     | Some buf \<Rightarrow>
         obind (mem_write buf 0 (replicate 8 0)) (\<lambda>buf. \<comment> \<open>\<^verbatim>\<open>SetNextPointer(buf, NULL)\<close>\<close>
         obind (mem_write buf 8 (u32_le flatSize)) (\<lambda>buf.
         obind (mem_write buf 12 (u32_le MUSCLE_MESSAGE_ENCODING_DEFAULT)) (\<lambda>buf.
         obind (MMFlattenMessage big msg buf 16) (\<lambda>buf.
         Ok (B_NO_ERROR, gw\<lparr>gw_output := gw_output gw @ [buf]\<rparr>))))))"

definition MGHasBytesToOutput :: "MMessageGateway \<Rightarrow> bool" where
  "MGHasBytesToOutput gw \<longleftrightarrow> gw_output gw \<noteq> []"

subsection \<open>Output\<close>

fun MGDoOutput :: "'e send_func \<Rightarrow> nat \<Rightarrow> MMessageGateway \<Rightarrow> u32 \<Rightarrow> int \<Rightarrow> 'e \<Rightarrow>
    (int \<times> MMessageGateway \<times> 'e) outcome" where
  "MGDoOutput send fuel gw maxBytes totalSent e =
     (case gw_output gw of
        [] \<Rightarrow> Ok (totalSent, gw, e)
      | curOutput # rest \<Rightarrow>
          (case fuel of
             0 \<Rightarrow> Spin
           | Suc fuel' \<Rightarrow>
               let left = word_of_nat (length curOutput) - gw_curOutputPos gw;
                   bytesToSend = (if left > maxBytes then maxBytes else left) in
               obind (mem_read curOutput (unat (gw_curOutputPos gw)) (unat bytesToSend)) (\<lambda>bs.
               let (bytesSent, e') = send e bs in
               if bytesSent < 0 then Ok (-1, gw, e')
               else
                 let pos = gw_curOutputPos gw + word_of_int bytesSent;
                     gw' = (if pos = word_of_nat (length curOutput)
                            then gw\<lparr>gw_output := rest, gw_curOutputPos := sizeof_ptr\<rparr>
                            else gw\<lparr>gw_curOutputPos := pos\<rparr>) in
                 if word_of_int bytesSent < bytesToSend then Ok (totalSent + bytesSent, gw', e')
                 else MGDoOutput send fuel' gw' (maxBytes - word_of_int bytesSent)
                        (totalSent + bytesSent) e')))"

declare MGDoOutput.simps [simp del]

subsection \<open>Input\<close>

text \<open>What happens when \<^verbatim>\<open>_curInputPos\<close> reaches \<^verbatim>\<open>_maxInputPos\<close>.\<close>

datatype input_step =
    Input_error MMessageGateway \<comment> \<open>\<^verbatim>\<open>return -1\<close>\<close>
  | Input_more MMessageGateway \<comment> \<open>go on receiving\<close>
  | Input_message MMessage MMessageGateway \<comment> \<open>hand the Message to the caller\<close>

text \<open>The whole body is there.  \<open>want\<close>: the caller passed a non-NULL \<^verbatim>\<open>optRetMsg\<close>.\<close>

definition MGInputBody :: "alloc \<Rightarrow> bool \<Rightarrow> nat \<Rightarrow> bool \<Rightarrow> MMessageGateway \<Rightarrow> input_step outcome" where
  "MGInputBody am big fuel want gw =
     (case MMAllocMessage am 0 of
        None \<Rightarrow> Ok (Input_error gw)
      | Some msg \<Rightarrow>
          obind (MMUnflattenMessage am big fuel msg (drop 8 (gw_curInput gw)) (gw_maxInputPos gw - 2 * 4))
            (\<lambda>r.
          if fst r = B_NO_ERROR then
            let gw' = gw\<lparr>gw_curInputPos := 0, gw_maxInputPos := 2 * 4\<rparr> in
            (case (if 64 * 1024 < length (gw_curInput gw)
                   then map_option (\<lambda>b. gw'\<lparr>gw_curInput := b\<rparr>) (MBAllocByteBuffer am (64 * 1024) [])
                   else Some gw') of
               None \<Rightarrow> obind (MMFreeMessage (snd r)) (\<lambda>_. Ok (Input_error gw'))
             | Some gw'' \<Rightarrow>
                 if want then Ok (Input_message (snd r) gw'')
                 else obind (MMFreeMessage (snd r)) (\<lambda>_. Ok (Input_more gw'')))
          else obind (MMFreeMessage (snd r)) (\<lambda>_. Ok (Input_error gw))))"

text \<open>The eight bytes of the header are there.\<close>

definition MGInputHeader :: "alloc \<Rightarrow> MMessageGateway \<Rightarrow> input_step outcome" where
  "MGInputHeader am gw =
     obind (mem_read (gw_curInput gw) 0 4) (\<lambda>h0.
     obind (mem_read (gw_curInput gw) 4 4) (\<lambda>h1.
     if le_u32 h0 = 0 \<or> le_u32 h1 \<noteq> MUSCLE_MESSAGE_ENCODING_DEFAULT then Ok (Input_error gw)
     else
       let bodySize = le_u32 h0 + 2 * 4 in
       if bodySize > word_of_nat (length (gw_curInput gw)) then
         (case MBAllocByteBuffer am (2 * bodySize) [] of
            None \<Rightarrow> Ok (Input_error gw)
          | Some bigBuf \<Rightarrow>
              obind (memcpy bigBuf (gw_curInput gw) (unat (gw_curInputPos gw))) (\<lambda>b.
              Ok (Input_more (gw\<lparr>gw_curInput := b, gw_maxInputPos := bodySize\<rparr>))))
       else Ok (Input_more (gw\<lparr>gw_maxInputPos := bodySize\<rparr>))))"

fun MGDoInput :: "'e recv_func \<Rightarrow> alloc \<Rightarrow> bool \<Rightarrow> bool \<Rightarrow> nat \<Rightarrow> MMessageGateway \<Rightarrow> u32 \<Rightarrow> int \<Rightarrow> 'e \<Rightarrow>
    (int \<times> MMessage option \<times> MMessageGateway \<times> 'e) outcome" where
  "MGDoInput recv am big want 0 gw maxBytes totalRecvd e = Spin"
| "MGDoInput recv am big want (Suc fuel) gw maxBytes totalRecvd e =
     (let left = gw_maxInputPos gw - gw_curInputPos gw;
          bytesToRecv = (if left > maxBytes then maxBytes else left);
          (bytesReceived, bs, e') = recv e bytesToRecv in
      obind (mem_write (gw_curInput gw) (unat (gw_curInputPos gw)) bs) (\<lambda>buf.
      if bytesReceived < 0 then Ok (-1, None, gw\<lparr>gw_curInput := buf\<rparr>, e')
      else
        let gw1 = gw\<lparr>gw_curInput := buf,
                     gw_curInputPos := gw_curInputPos gw + word_of_int bytesReceived\<rparr> in
        obind (if gw_curInputPos gw1 = gw_maxInputPos gw1
               then if 2 * 4 < gw_curInputPos gw1 then MGInputBody am big fuel want gw1
                    else MGInputHeader am gw1
               else Ok (Input_more gw1)) (\<lambda>s.
        case s of
          Input_error gw2 \<Rightarrow> Ok (-1, None, gw2, e')
        | Input_message msg gw2 \<Rightarrow> Ok (totalRecvd + bytesReceived, Some msg, gw2, e')
        | Input_more gw2 \<Rightarrow>
            if word_of_int bytesReceived < bytesToRecv
            then Ok (totalRecvd + bytesReceived, None, gw2, e')
            else MGDoInput recv am big want fuel gw2 (maxBytes - word_of_int bytesReceived)
                   (totalRecvd + bytesReceived) e')))"

declare MGDoInput.simps(2) [simp del]

subsection \<open>The stream\<close>

text \<open>
  What the callers' functions promise (the comments of \<^verbatim>\<open>MiniMessageGateway.h\<close>): \<open>sent e\<close> is the
  stream written so far, \<open>arriving e\<close> the stream still to be read.
\<close>

definition good_send :: "'e send_func \<Rightarrow> ('e \<Rightarrow> u8 list) \<Rightarrow> bool" where
  "good_send send sent \<longleftrightarrow>
     (\<forall>e bs. case send e bs of (n, e') \<Rightarrow>
        (n < 0 \<longrightarrow> sent e' = sent e)
        \<and> (0 \<le> n \<longrightarrow> n \<le> int (length bs) \<and> sent e' = sent e @ take (nat n) bs))"

definition good_recv :: "'e recv_func \<Rightarrow> ('e \<Rightarrow> u8 list) \<Rightarrow> bool" where
  "good_recv recv arriving \<longleftrightarrow>
     (\<forall>e k. case recv e k of (n, bs, e') \<Rightarrow>
        (n < 0 \<longrightarrow> bs = [] \<and> arriving e' = arriving e)
        \<and> (0 \<le> n \<longrightarrow> int (length bs) = n \<and> length bs \<le> unat k \<and> arriving e = bs @ arriving e'))"

text \<open>A Message on the stream, and the bytes a gateway still has to send.\<close>

definition frame :: "bool \<Rightarrow> MMessage \<Rightarrow> u8 list" where
  "frame big m = u32_le (word_of_nat (length (wire_msg big m)))
     @ u32_le MUSCLE_MESSAGE_ENCODING_DEFAULT @ wire_msg big m"

definition pending :: "MMessageGateway \<Rightarrow> u8 list" where
  "pending gw = (case gw_output gw of
       [] \<Rightarrow> []
     | b # bs \<Rightarrow> drop (unat (gw_curOutputPos gw)) b @ concat (map (drop 8) bs))"

definition wf_output :: "MMessageGateway \<Rightarrow> bool" where
  "wf_output gw \<longleftrightarrow>
     (\<forall>b \<in> set (gw_output gw). 8 < length b \<and> length b < 2 ^ 32)
     \<and> (case gw_output gw of [] \<Rightarrow> gw_curOutputPos gw = 8
        | b # _ \<Rightarrow> 8 \<le> unat (gw_curOutputPos gw) \<and> unat (gw_curOutputPos gw) < length b)"

text \<open>Queueing a Message appends its frame to what is pending.\<close>

lemma mem_write_at:
  "length pre = n \<Longrightarrow> length old = length bs \<Longrightarrow> mem_write (pre @ old @ post) n bs = Ok (pre @ bs @ post)"
  by (simp add: mem_write_def)

lemma AddOutgoing_frame:
  assumes wf: "wf_msg msg" and len: "length (wire_msg big msg) < size_limit big"
    "length (wire_msg big msg) + 16 < 2 ^ 32" and am: "am (23 + length (wire_msg big msg))"
  shows "MGAddOutgoingMessage am big gw msg =
    Ok (B_NO_ERROR, gw\<lparr>gw_output := gw_output gw @ [replicate 8 0 @ frame big msg]\<rparr>)"
proof -
  let ?w = "wire_msg big msg"
  let ?n = "word_of_nat (length ?w) :: u32"
  have n: "unat (sizeof_ptr + 2 * 4 + ?n) = length ?w + 16"
    using len by (subst unat_add_no_wrap) (simp_all add: sizeof_ptr_def unat_word_of_nat_u32)
  have z: "replicate (length ?w + 16) (0 :: u8) = replicate 8 0 @ replicate 4 0 @ replicate 4 0 @ replicate (length ?w) 0"
    by (simp add: replicate_add [symmetric] add.commute)
  have al: "MBAllocByteBuffer am (sizeof_ptr + 2 * 4 + ?n) [] =
      Some (replicate 8 0 @ replicate 4 0 @ replicate 4 0 @ replicate (length ?w) 0)"
    unfolding MBAllocByteBuffer_def n using am by (simp add: z add.commute)
  have fl: "MMFlattenMessage big msg
      (replicate 8 0 @ u32_le ?n @ u32_le MUSCLE_MESSAGE_ENCODING_DEFAULT @ replicate (length ?w) 0) 16 =
      Ok (replicate 8 0 @ frame big msg)"
    using MMFlattenMessage_wire [OF wf, of 16 big] len
    by (simp add: overlay_def frame_def)
  have sz: "MMGetFlattenedSize msg = Ok ?n" using size_wire(1) [OF wf] by simp
  have "mem_write (replicate 8 0 @ replicate 4 0 @ replicate 4 0 @ replicate (length ?w) 0) 0 (replicate 8 0) =
      Ok (replicate 8 0 @ replicate 4 0 @ replicate 4 0 @ replicate (length ?w) (0 :: u8))"
    using mem_write_at [of "[]" 0 "replicate 8 (0 :: u8)" "replicate 8 0"] by simp
  moreover have "mem_write (replicate 8 0 @ replicate 4 0 @ replicate 4 0 @ replicate (length ?w) 0) 8 (u32_le ?n) =
      Ok (replicate 8 0 @ u32_le ?n @ replicate 4 0 @ replicate (length ?w) 0)"
    by (rule mem_write_at) simp_all
  moreover have "mem_write (replicate 8 0 @ u32_le ?n @ replicate 4 0 @ replicate (length ?w) 0) 12
      (u32_le MUSCLE_MESSAGE_ENCODING_DEFAULT) =
      Ok (replicate 8 0 @ u32_le ?n @ u32_le MUSCLE_MESSAGE_ENCODING_DEFAULT @ replicate (length ?w) 0)"
    using mem_write_at [of "replicate 8 0 @ u32_le ?n" 12 "replicate 4 0"] by simp
  ultimately show ?thesis
    by (simp only: MGAddOutgoingMessage_def sz obind_simps al option.case fl)
qed

lemma pending_Add:
  assumes "wf_output gw" "length f < 2 ^ 32 - 8" "f \<noteq> []"
  shows "pending (gw\<lparr>gw_output := gw_output gw @ [replicate 8 0 @ f]\<rparr>) = pending gw @ f"
    and "wf_output (gw\<lparr>gw_output := gw_output gw @ [replicate 8 0 @ f]\<rparr>)"
  using assms by (auto simp: pending_def wf_output_def split: list.splits)

subsection \<open>Output sends what is pending, in order\<close>

lemma output_left:
  assumes "wf_output gw" "gw_output gw = b # rest"
  shows "unat (word_of_nat (length b) - gw_curOutputPos gw) = length b - unat (gw_curOutputPos gw)"
    "unat (gw_curOutputPos gw) < length b" "unat (word_of_nat (length b) :: u32) = length b"
    "pending gw = drop (unat (gw_curOutputPos gw)) b @ concat (map (drop 8) rest)"
proof -
  show *: "unat (gw_curOutputPos gw) < length b" "unat (word_of_nat (length b) :: u32) = length b"
    using assms by (simp_all add: wf_output_def unat_word_of_nat_u32)
  then show "unat (word_of_nat (length b) - gw_curOutputPos gw) = length b - unat (gw_curOutputPos gw)"
    by (subst unat_sub_le) (simp_all add: word_le_nat_alt)
  show "pending gw = drop (unat (gw_curOutputPos gw)) b @ concat (map (drop 8) rest)"
    using assms(2) by (simp add: pending_def)
qed

lemma output_popped:
  assumes "wf_output gw" "gw_output gw = b # rest"
  shows "wf_output (gw\<lparr>gw_output := rest, gw_curOutputPos := sizeof_ptr\<rparr>)"
    "pending (gw\<lparr>gw_output := rest, gw_curOutputPos := sizeof_ptr\<rparr>) = concat (map (drop 8) rest)"
  using assms by (auto simp: wf_output_def pending_def sizeof_ptr_def split: list.splits)

lemma output_advanced:
  assumes "wf_output gw" "gw_output gw = b # rest" "unat (gw_curOutputPos gw) + n < length b"
  shows "unat (gw_curOutputPos gw + word_of_nat n) = unat (gw_curOutputPos gw) + n"
    "wf_output (gw\<lparr>gw_curOutputPos := gw_curOutputPos gw + word_of_nat n\<rparr>)"
    "pending (gw\<lparr>gw_curOutputPos := gw_curOutputPos gw + word_of_nat n\<rparr>) = drop n (pending gw)"
proof -
  have lt: "length b < 2 ^ 32" using assms(1,2) by (simp add: wf_output_def)
  show *: "unat (gw_curOutputPos gw + word_of_nat n) = unat (gw_curOutputPos gw) + n"
    using assms(3) lt by (subst unat_add_no_wrap) (simp_all add: unat_word_of_nat_u32)
  show "wf_output (gw\<lparr>gw_curOutputPos := gw_curOutputPos gw + word_of_nat n\<rparr>)"
    using assms * by (simp add: wf_output_def)
  show "pending (gw\<lparr>gw_curOutputPos := gw_curOutputPos gw + word_of_nat n\<rparr>) = drop n (pending gw)"
    using assms * by (simp add: pending_def add.commute)
qed

text \<open>
  One round of the loop: the whole rest of the current buffer is offered when the budget allows it.
\<close>

lemma MGDoOutput_step:
  assumes wf: "wf_output gw" and out: "gw_output gw = b # rest"
    and budget: "length b - unat (gw_curOutputPos gw) \<le> unat maxBytes"
    and send: "send e (drop (unat (gw_curOutputPos gw)) b) = (int n, e')"
    and n: "n \<le> length b - unat (gw_curOutputPos gw)"
  shows "MGDoOutput send (Suc fuel) gw maxBytes tot e =
    (if n < length b - unat (gw_curOutputPos gw)
     then Ok (tot + int n, gw\<lparr>gw_curOutputPos := gw_curOutputPos gw + word_of_nat n\<rparr>, e')
     else MGDoOutput send fuel (gw\<lparr>gw_output := rest, gw_curOutputPos := sizeof_ptr\<rparr>)
            (maxBytes - word_of_nat n) (tot + int n) e')"
proof -
  let ?left = "word_of_nat (length b) - gw_curOutputPos gw"
  note l = output_left [OF wf out]
  have bl: "\<not> ?left > maxBytes" using budget l by (simp add: word_less_nat_alt)
  have rd: "mem_read b (unat (gw_curOutputPos gw)) (unat ?left) = Ok (drop (unat (gw_curOutputPos gw)) b)"
    using l by (simp add: mem_read_def)
  have lt: "length b < 2 ^ 32" using wf out by (simp add: wf_output_def)
  have un: "unat (word_of_nat n :: u32) = n" using n lt by (intro unat_word_of_nat_u32) simp
  have pos: "gw_curOutputPos gw + word_of_nat n = word_of_nat (length b) \<longleftrightarrow>
      n = length b - unat (gw_curOutputPos gw)"
  proof -
    have "unat (gw_curOutputPos gw + word_of_nat n) = unat (gw_curOutputPos gw) + n"
      using n lt l(2) un by (subst unat_add_no_wrap) simp_all
    then show ?thesis using n l(2,3) by (auto simp: word_unat_eq_iff)
  qed
  have sh: "(word_of_nat n :: u32) < ?left \<longleftrightarrow> n < length b - unat (gw_curOutputPos gw)"
    using un l(1) by (simp add: word_less_nat_alt)
  show ?thesis
  proof (cases "n < length b - unat (gw_curOutputPos gw)")
    case True
    then show ?thesis
      using pos sh by (subst MGDoOutput.simps) (simp add: out Let_def bl rd send)
  next
    case False
    with n have "n = length b - unat (gw_curOutputPos gw)" by simp
    with pos sh False have "gw_curOutputPos gw + word_of_nat n = word_of_nat (length b)"
      "\<not> (word_of_nat n :: u32) < ?left" by blast+
    with False show ?thesis
      by (subst MGDoOutput.simps) (simp add: out Let_def bl rd send)
  qed
qed

lemma MGDoOutput_error:
  assumes wf: "wf_output gw" and out: "gw_output gw = b # rest"
    and budget: "length b - unat (gw_curOutputPos gw) \<le> unat maxBytes"
    and send: "send e (drop (unat (gw_curOutputPos gw)) b) = (n, e')" "n < 0"
  shows "MGDoOutput send (Suc fuel) gw maxBytes tot e = Ok (-1, gw, e')"
proof -
  let ?left = "word_of_nat (length b) - gw_curOutputPos gw"
  note l = output_left [OF wf out]
  have bl: "\<not> ?left > maxBytes" using budget l by (simp add: word_less_nat_alt)
  have rd: "mem_read b (unat (gw_curOutputPos gw)) (unat ?left) = Ok (drop (unat (gw_curOutputPos gw)) b)"
    using l by (simp add: mem_read_def)
  show ?thesis by (subst MGDoOutput.simps) (simp add: out Let_def bl rd send)
qed

lemma MGDoOutput_stream:
  assumes send: "good_send send sent"
  shows "wf_output gw \<Longrightarrow> length (pending gw) \<le> unat maxBytes \<Longrightarrow> length (gw_output gw) \<le> fuel \<Longrightarrow>
    \<exists>n gw' e' s. MGDoOutput send fuel gw maxBytes tot e = Ok (n, gw', e')
      \<and> wf_output gw' \<and> pending gw = s @ pending gw' \<and> sent e' = sent e @ s
      \<and> (n = -1 \<or> n = tot + int (length s))"
proof (induction fuel arbitrary: gw maxBytes tot e)
  case 0
  then show ?case by (subst MGDoOutput.simps) auto
next
  case (Suc fuel)
  show ?case
  proof (cases "gw_output gw")
    case Nil
    with Suc.prems show ?thesis by (subst MGDoOutput.simps) auto
  next
    case (Cons b rest)
    let ?pos = "unat (gw_curOutputPos gw)"
    note l = output_left [OF Suc.prems(1) Cons]
    have budget: "length b - ?pos \<le> unat maxBytes" using Suc.prems(2) l(4) by simp
    obtain n e' where s: "send e (drop ?pos b) = (n, e')" by fastforce
    show ?thesis
    proof (cases "n < 0")
      case True
      then have "sent e' = sent e"
        using send [unfolded good_send_def, rule_format, of e "drop ?pos b"] s by simp
      with MGDoOutput_error [where send = send and e = e, OF Suc.prems(1) Cons budget s True] Suc.prems(1) show ?thesis by auto
    next
      case False
      then obtain k where k: "n = int k" by (metis nonneg_int_cases not_less)
      have c: "k \<le> length b - ?pos" "sent e' = sent e @ take k (drop ?pos b)"
        using send [unfolded good_send_def, rule_format, of e "drop ?pos b"] s k by simp_all
      note step = MGDoOutput_step [where send = send and e = e, OF Suc.prems(1) Cons budget s [unfolded k] c(1)]
      show ?thesis
      proof (cases "k < length b - ?pos")
        case True
        then have adv: "?pos + k < length b" by simp
        have "take k (drop ?pos b) = take k (pending gw)" using l(4) True by simp
        then have "pending gw = take k (drop ?pos b)
            @ pending (gw\<lparr>gw_curOutputPos := gw_curOutputPos gw + word_of_nat k\<rparr>)"
          unfolding output_advanced(3) [OF Suc.prems(1) Cons adv] by simp
        with True step c(2) output_advanced(2) [OF Suc.prems(1) Cons adv] show ?thesis by auto
      next
        case False
        then have kk: "k = length b - ?pos" using c(1) by simp
        let ?gw = "gw\<lparr>gw_output := rest, gw_curOutputPos := sizeof_ptr\<rparr>"
        have un: "unat (maxBytes - word_of_nat k) = unat maxBytes - k"
          using budget kk unat_u32_less [of maxBytes]
          by (subst unat_sub_le) (simp_all add: word_le_nat_alt unat_word_of_nat_u32)
        have "length (pending ?gw) \<le> unat (maxBytes - word_of_nat k)" "length (gw_output ?gw) \<le> fuel"
          using Suc.prems(2,3) l(4) kk Cons output_popped(2) [OF Suc.prems(1) Cons] un by simp_all
        from Suc.IH [OF output_popped(1) [OF Suc.prems(1) Cons] this, of "tot + int k" e']
        obtain n' gw' e2 s where ih: "MGDoOutput send fuel ?gw (maxBytes - word_of_nat k) (tot + int k) e' = Ok (n', gw', e2)"
          "wf_output gw'" "pending ?gw = s @ pending gw'" "sent e2 = sent e' @ s"
          "n' = -1 \<or> n' = tot + int k + int (length s)" by blast
        have "pending gw = (drop ?pos b @ s) @ pending gw'" "sent e2 = sent e @ (drop ?pos b @ s)"
          using l(4) ih(3,4) output_popped(2) [OF Suc.prems(1) Cons] c(2) kk by simp_all
        with step False ih(1,2,5) kk show ?thesis
          by (intro exI [of _ n'] exI [of _ gw'] exI [of _ e2] exI [of _ "drop ?pos b @ s"]) auto
      qed
    qed
  qed
qed

text \<open>
  A finite budget below what is pending: once it is used up the loop offers zero bytes, gets zero
  back, which is not a short write, and goes on for ever.
\<close>

lemma MGDoOutput_spins:
  assumes send: "\<And>e bs. fst (send e bs) = int (length bs)"
  shows "wf_output gw \<Longrightarrow> unat maxBytes < length (pending gw) \<Longrightarrow>
    MGDoOutput send fuel gw maxBytes tot e = Spin"
proof (induction fuel arbitrary: gw maxBytes tot e)
  case 0
  then have "gw_output gw \<noteq> []" by (auto simp: pending_def)
  then show ?case by (subst MGDoOutput.simps) (simp split: list.split)
next
  case (Suc fuel)
  then obtain b rest where out: "gw_output gw = b # rest"
    by (cases "gw_output gw") (auto simp: pending_def)
  let ?pos = "unat (gw_curOutputPos gw)"
  note l = output_left [OF Suc.prems(1) out]
  have lt: "length b < 2 ^ 32" using Suc.prems(1) out by (simp add: wf_output_def)
  show ?case
  proof (cases "length b - ?pos \<le> unat maxBytes")
    case True
    let ?n = "length b - ?pos"
    obtain e' where s: "send e (drop ?pos b) = (int ?n, e')"
      using send [of e "drop ?pos b"] by (cases "send e (drop ?pos b)") simp
    have un: "unat (maxBytes - word_of_nat ?n) = unat maxBytes - ?n"
      using True lt by (subst unat_sub_le) (simp_all add: word_le_nat_alt unat_word_of_nat_u32)
    have "unat (maxBytes - word_of_nat ?n)
        < length (pending (gw\<lparr>gw_output := rest, gw_curOutputPos := sizeof_ptr\<rparr>))"
      unfolding output_popped(2) [OF Suc.prems(1) out] un using Suc.prems(2) l(4) True by simp
    from Suc.IH [OF output_popped(1) [OF Suc.prems(1) out] this]
      MGDoOutput_step [where send = send and e = e, OF Suc.prems(1) out True s le_refl]
    show ?thesis by simp
  next
    case False
    let ?m = "unat maxBytes"
    let ?left = "word_of_nat (length b) - gw_curOutputPos gw"
    have bl: "?left > maxBytes" using False l(1) by (simp add: word_less_nat_alt)
    have rd: "mem_read b ?pos ?m = Ok (take ?m (drop ?pos b))"
      using False l(2) by (simp add: mem_read_def)
    obtain e' where s: "send e (take ?m (drop ?pos b)) = (int ?m, e')"
      using send [of e "take ?m (drop ?pos b)"] False
      by (cases "send e (take ?m (drop ?pos b))") (simp add: min_def)
    have adv: "?pos + ?m < length b" using False by simp
    note a = output_advanced [OF Suc.prems(1) out adv]
    have ne: "gw_curOutputPos gw + maxBytes \<noteq> word_of_nat (length b)"
    proof
      assume "gw_curOutputPos gw + maxBytes = word_of_nat (length b)"
      then have "unat (gw_curOutputPos gw + word_of_nat ?m) = length b" using l(3) by simp
      with a(1) adv show False by simp
    qed
    have "MGDoOutput send (Suc fuel) gw maxBytes tot e =
        MGDoOutput send fuel (gw\<lparr>gw_curOutputPos := gw_curOutputPos gw + maxBytes\<rparr>) (maxBytes - maxBytes)
          (tot + int ?m) e'"
      by (subst MGDoOutput.simps) (simp add: out Let_def bl rd s ne)
    also have "\<dots> = Spin"
      using Suc.prems(2) l(4) a False by (intro Suc.IH) simp_all
    finally show ?thesis .
  qed
qed

subsection \<open>Input gives the Messages of the stream\<close>

text \<open>
  \<open>progress gw p f\<close>: the gateway has received the beginning \<open>p\<close> of the frame \<open>f\<close>.
\<close>

definition progress :: "MMessageGateway \<Rightarrow> u8 list \<Rightarrow> u8 list \<Rightarrow> bool" where
  "progress gw p f \<longleftrightarrow>
     8 \<le> length (gw_curInput gw) \<and> length (gw_curInput gw) < 2 ^ 32
     \<and> unat (gw_curInputPos gw) = length p \<and> take (length p) (gw_curInput gw) = p
     \<and> unat (gw_maxInputPos gw) = (if length p < 8 then 8 else length f)
     \<and> (8 \<le> length p \<longrightarrow> length f \<le> length (gw_curInput gw))"

lemma write_prefix:
  assumes "take (length p) buf = p" "length p + length bs \<le> length buf"
  obtains buf' where "mem_write buf (length p) bs = Ok buf'" "take (length p + length bs) buf' = p @ bs"
    "length buf' = length buf"
  using that assms by (simp add: mem_write_def)

lemma frame_split: "length (frame big m) = 8 + length (wire_msg big m)" "20 \<le> length (frame big m)"
  using wire_header [of big m] by (simp_all add: frame_def)

lemma frame_prefix8:
  assumes "take 8 buf = take 8 (frame big m)" "8 \<le> length buf"
  shows "mem_read buf 0 4 = Ok (u32_le (word_of_nat (length (wire_msg big m))))"
    "mem_read buf 4 4 = Ok (u32_le MUSCLE_MESSAGE_ENCODING_DEFAULT)"
proof -
  have "buf = take 8 buf @ drop 8 buf" by simp
  also have "take 8 buf = u32_le (word_of_nat (length (wire_msg big m))) @ u32_le MUSCLE_MESSAGE_ENCODING_DEFAULT"
    unfolding assms(1) by (simp add: frame_def)
  finally have b: "buf = u32_le (word_of_nat (length (wire_msg big m)))
      @ u32_le MUSCLE_MESSAGE_ENCODING_DEFAULT @ drop 8 buf" by simp
  show "mem_read buf 0 4 = Ok (u32_le (word_of_nat (length (wire_msg big m))))"
    by (subst b) (simp add: mem_read_def)
  show "mem_read buf 4 4 = Ok (u32_le MUSCLE_MESSAGE_ENCODING_DEFAULT)"
    by (subst b) (simp add: mem_read_def)
qed

lemma InputHeader_progress:
  assumes am: "\<And>k. am k" and len: "2 * (length (wire_msg big m) + 8) < 2 ^ 32"
    and p: "progress gw p (frame big m)" "length p < 8"
    and gw1: "gw1 = gw\<lparr>gw_curInput := buf, gw_curInputPos := gw_curInputPos gw + word_of_nat (length bs)\<rparr>"
    and buf: "take 8 buf = take 8 (frame big m)" "length buf = length (gw_curInput gw)"
    and bs: "length p + length bs = 8"
  shows "\<exists>gw2. MGInputHeader am gw1 = Ok (Input_more gw2) \<and> progress gw2 (take 8 (frame big m)) (frame big m)"
proof -
  let ?n = "length (wire_msg big m)"
  have n12: "12 \<le> ?n" by (rule wire_header)
  have n: "unat (word_of_nat ?n :: u32) = ?n" using len by (intro unat_word_of_nat_u32) simp
  have nz: "word_of_nat ?n \<noteq> (0 :: u32)" using n n12 by (metis not_numeral_le_zero unat_0)
  have n8: "unat (word_of_nat ?n + 2 * 4 :: u32) = ?n + 8"
    using len n by (subst unat_add_no_wrap) simp_all
  have n28: "unat (2 * (word_of_nat ?n + 2 * 4) :: u32) = 2 * (?n + 8)"
    using len n8 by (subst unat_mult_no_wrap) simp_all
  have b8: "8 \<le> length buf" "length buf < 2 ^ 32" using p(1) buf(2) by (simp_all add: progress_def)
  note rd = frame_prefix8 [OF buf(1) b8(1)]
  have pos: "unat (gw_curInputPos gw1) = 8"
    using p(1) bs gw1 by (subst gw1) (simp add: progress_def unat_add_no_wrap unat_word_of_nat_u32)
  have cur: "gw_curInput gw1 = buf" by (simp add: gw1)
  have bl: "unat (word_of_nat (length buf) :: u32) = length buf" using b8(2) by (rule unat_word_of_nat_u32)
  have lf: "length (take 8 (frame big m)) = 8" using frame_split(2) [of big m] by simp
  show ?thesis
  proof (cases "word_of_nat ?n + 2 * 4 > (word_of_nat (length buf) :: u32)")
    case True
    let ?b = "take 8 buf @ drop 8 (replicate (2 * (?n + 8)) 0)"
    have "MGInputHeader am gw1 = Ok (Input_more (gw1\<lparr>gw_curInput := ?b, gw_maxInputPos := word_of_nat ?n + 2 * 4\<rparr>))"
      using True nz am b8(1) n28 pos
      by (simp add: MGInputHeader_def cur rd Let_def MBAllocByteBuffer_def memcpy_def)
    moreover have "progress (gw1\<lparr>gw_curInput := ?b, gw_maxInputPos := word_of_nat ?n + 2 * 4\<rparr>)
        (take 8 (frame big m)) (frame big m)"
      using pos len b8 n8 buf(1) lf unfolding progress_def by (simp add: frame_split)
    ultimately show ?thesis by blast
  next
    case False
    then have "?n + 8 \<le> length buf" using n8 bl by (simp add: word_less_nat_alt)
    then have "progress (gw1\<lparr>gw_maxInputPos := word_of_nat ?n + 2 * 4\<rparr>) (take 8 (frame big m)) (frame big m)"
      using pos b8 n8 buf(1) lf cur unfolding progress_def by (simp add: frame_split)
    moreover have "MGInputHeader am gw1 = Ok (Input_more (gw1\<lparr>gw_maxInputPos := word_of_nat ?n + 2 * 4\<rparr>))"
      using False nz by (simp add: MGInputHeader_def cur rd Let_def)
    ultimately show ?thesis by blast
  qed
qed

lemma InputBody_message:
  assumes am: "\<And>k. am k" and wf: "wf_msg m" and len: "length (wire_msg big m) < size_limit big"
    and fuel: "length (wire_msg big m) \<le> fuel"
    and buf: "gw_curInput gw1 = frame big m @ rest" "length (gw_curInput gw1) < 2 ^ 32"
    and mx: "unat (gw_maxInputPos gw1) = length (frame big m)"
  shows "\<exists>gw2. MGInputBody am big fuel True gw1 = Ok (Input_message (norm_msg m) gw2)
    \<and> progress gw2 [] f"
proof -
  have "unat (gw_maxInputPos gw1 - 2 * 4) = length (wire_msg big m)"
    using mx frame_split [of big m] by (subst unat_sub_le) (simp_all add: word_le_nat_alt)
  then have sz: "gw_maxInputPos gw1 - 2 * 4 = word_of_nat (length (wire_msg big m))"
    by (metis unat_u32_less unat_word_of_nat_u32 word_unat_eq_iff)
  have "drop 8 (gw_curInput gw1) = wire_msg big m @ rest" by (simp add: buf frame_def)
  then have un: "MMUnflattenMessage am big fuel (MMsg 0 []) (drop 8 (gw_curInput gw1)) (gw_maxInputPos gw1 - 2 * 4) =
      Ok (B_NO_ERROR, norm_msg m)"
    unfolding sz using unflatten_flatten [where am = am, OF wf am len fuel] by simp
  have al: "MMAllocMessage am 0 = Some (MMsg 0 [])" using am by (simp add: MMAllocMessage_def)
  have b8: "8 \<le> length (gw_curInput gw1)" using buf(1) frame_split [of big m] by simp
  show ?thesis
  proof (cases "64 * 1024 < length (gw_curInput gw1)")
    case True
    then show ?thesis
      unfolding MGInputBody_def al option.case un obind_simps
      using am by (simp add: Let_def MBAllocByteBuffer_def progress_def)
  next
    case False
    then show ?thesis
      unfolding MGInputBody_def al option.case un obind_simps
      using b8 buf(2) by (simp add: Let_def progress_def)
  qed
qed

text \<open>One call of \<^verbatim>\<open>recvFunc\<close>: the bytes it wrote extend the prefix.\<close>

lemma recv_progress:
  assumes p: "progress gw p f" "f = p @ q" and arr: "arriving e = q @ ys"
    and recv: "good_recv recv arriving" "recv e (gw_maxInputPos gw - gw_curInputPos gw) = (int n, bs, e')"
    and f: "20 \<le> length f" "length f < 2 ^ 32" "q \<noteq> []"
  obtains q' buf where "length bs = n" "q = bs @ q'" "arriving e' = q' @ ys"
    "mem_write (gw_curInput gw) (unat (gw_curInputPos gw)) bs = Ok buf"
    "take (length (p @ bs)) buf = p @ bs" "length buf = length (gw_curInput gw)"
    "unat (gw_curInputPos gw + word_of_nat n) = length (p @ bs)"
    "length (p @ bs) \<le> unat (gw_maxInputPos gw)"
    "unat (gw_maxInputPos gw - gw_curInputPos gw) = unat (gw_maxInputPos gw) - length p"
proof -
  have pos: "unat (gw_curInputPos gw) = length p" and cur: "take (length p) (gw_curInput gw) = p"
    and c8: "8 \<le> length (gw_curInput gw)"
    and mx: "unat (gw_maxInputPos gw) = (if length p < 8 then 8 else length f)"
    and cf: "8 \<le> length p \<Longrightarrow> length f \<le> length (gw_curInput gw)"
    using p(1) by (auto simp: progress_def)
  have lq: "length f = length p + length q" "0 < length q" using p(2) f(3) by simp_all
  have left: "unat (gw_maxInputPos gw - gw_curInputPos gw) = unat (gw_maxInputPos gw) - length p"
    using mx lq pos by (subst unat_sub_le) (simp_all add: word_le_nat_alt)
  have c: "length bs = n" "length bs \<le> unat (gw_maxInputPos gw) - length p" "arriving e = bs @ arriving e'"
    using recv(1) [unfolded good_recv_def, rule_format, of e "gw_maxInputPos gw - gw_curInputPos gw"]
      recv(2) left by simp_all
  have lb: "length bs \<le> length q" using c(2) mx lq f(1) by (auto split: if_splits)
  then have q: "q = bs @ drop (length bs) q" "arriving e' = drop (length bs) q @ ys"
    using c(3) arr by (metis append_eq_append_conv_if append_take_drop_id same_append_eq append.assoc)+
  have fit: "length p + length bs \<le> length (gw_curInput gw)"
    using c(2) mx c8 cf lq by (auto split: if_splits)
  obtain buf where buf: "mem_write (gw_curInput gw) (length p) bs = Ok buf"
    "take (length p + length bs) buf = p @ bs" "length buf = length (gw_curInput gw)"
    by (rule write_prefix [OF cur fit])
  have "unat (gw_curInputPos gw + word_of_nat n) = length p + n"
    using lb lq f(2) c(1) pos by (subst unat_add_no_wrap) (simp_all add: unat_word_of_nat_u32)
  then show thesis
    using that [OF c(1) q(1) q(2), of buf] buf c(1,2) pos left mx lq by (auto split: if_splits)
qed

lemma MGDoInput_round:
  assumes p: "progress gw p f" "f = p @ q" and arr: "arriving e = q @ ys"
    and recv: "good_recv recv arriving" and budget: "length q \<le> unat maxBytes"
    and f: "f = frame big m" "length (frame big m) < 2 ^ 32" "q \<noteq> []"
  obtains
    (failed) e' where "MGDoInput recv am big want (Suc fuel) gw maxBytes tot e = Ok (-1, None, gw, e')"
      "arriving e' = q @ ys"
  | (partial) gw' p' q' n e' where
      "MGDoInput recv am big want (Suc fuel) gw maxBytes tot e = Ok (tot + int n, None, gw', e')"
      "progress gw' p' f" "f = p' @ q'" "q' \<noteq> []" "arriving e' = q' @ ys" "length p' = length p + n"
  | (filled) gw1 bs q' buf e' where
      "q = bs @ q'" "arriving e' = q' @ ys" "length (p @ bs) = unat (gw_maxInputPos gw)"
      "gw1 = gw\<lparr>gw_curInput := buf, gw_curInputPos := gw_curInputPos gw + word_of_nat (length bs)\<rparr>"
      "take (length (p @ bs)) buf = p @ bs" "length buf = length (gw_curInput gw)"
      "unat (gw_curInputPos gw1) = length (p @ bs)"
      "MGDoInput recv am big want (Suc fuel) gw maxBytes tot e =
        obind (if 8 < length (p @ bs) then MGInputBody am big fuel want gw1 else MGInputHeader am gw1) (\<lambda>s.
        case s of
          Input_error gw2 \<Rightarrow> Ok (-1, None, gw2, e')
        | Input_message msg gw2 \<Rightarrow> Ok (tot + int (length bs), Some msg, gw2, e')
        | Input_more gw2 \<Rightarrow> MGDoInput recv am big want fuel gw2 (maxBytes - word_of_nat (length bs))
                   (tot + int (length bs)) e')"
proof -
  let ?left = "gw_maxInputPos gw - gw_curInputPos gw"
  have pos: "unat (gw_curInputPos gw) = length p"
    and mx: "unat (gw_maxInputPos gw) = (if length p < 8 then 8 else length f)"
    using p(1) by (auto simp: progress_def)
  have f20: "20 \<le> length f" "length f < 2 ^ 32" using f frame_split(2) [of big m] by simp_all
  have lq: "length f = length p + length q" "0 < length q" using p(2) f(3) by simp_all
  have "unat ?left = unat (gw_maxInputPos gw) - length p"
    using mx lq pos by (subst unat_sub_le) (simp_all add: word_le_nat_alt)
  then have nl: "\<not> ?left > maxBytes" using budget mx lq f20 by (auto simp: word_less_nat_alt split: if_splits)
  obtain r bs e' where rv: "recv e ?left = (r, bs, e')" by (metis prod_cases3)
  show thesis
  proof (cases "r < 0")
    case True
    have "bs = []" "arriving e' = q @ ys"
      using recv [unfolded good_recv_def, rule_format, of e ?left] rv True arr by simp_all
    moreover have "length p \<le> length (gw_curInput gw)"
      using p(1) lq by (auto simp: progress_def split: if_splits)
    ultimately show thesis
      using failed [of e'] True pos by (simp add: MGDoInput.simps(2) Let_def nl rv mem_write_def)
  next
    case False
    then obtain n where n: "r = int n" by (metis nonneg_int_cases not_less)
    obtain q' buf where s: "length bs = n" "q = bs @ q'" "arriving e' = q' @ ys"
      "mem_write (gw_curInput gw) (unat (gw_curInputPos gw)) bs = Ok buf"
      "take (length (p @ bs)) buf = p @ bs" "length buf = length (gw_curInput gw)"
      "unat (gw_curInputPos gw + word_of_nat n) = length (p @ bs)"
      "length (p @ bs) \<le> unat (gw_maxInputPos gw)"
      "unat ?left = unat (gw_maxInputPos gw) - length p"
      by (rule recv_progress [OF p arr recv rv [unfolded n] f20 f(3)])
    let ?gw1 = "gw\<lparr>gw_curInput := buf, gw_curInputPos := gw_curInputPos gw + word_of_nat n\<rparr>"
    have eqp: "gw_curInputPos gw + word_of_nat n = gw_maxInputPos gw \<longleftrightarrow>
        length (p @ bs) = unat (gw_maxInputPos gw)"
      using s(7) by (simp add: word_unat_eq_iff)
    have un: "unat (word_of_nat n :: u32) = n"
      using s(1,8) unat_u32_less [of "gw_maxInputPos gw"] by (intro unat_word_of_nat_u32) simp
    have short: "(word_of_nat n :: u32) < ?left \<longleftrightarrow> length (p @ bs) < unat (gw_maxInputPos gw)"
      using un s(1,8,9) by (auto simp: word_less_nat_alt)
    show thesis
    proof (cases "length (p @ bs) = unat (gw_maxInputPos gw)")
      case True
      have ns: "\<not> (word_of_nat n :: u32) < ?left" using short True by simp
      have g8: "2 * 4 < gw_curInputPos gw + word_of_nat n \<longleftrightarrow> 8 < length (p @ bs)"
        using s(7) by (simp add: word_less_nat_alt)
      show thesis
        by (rule filled [of bs q' e' ?gw1 buf])
          (use s True eqp ns g8 in \<open>simp_all add: MGDoInput.simps(2) Let_def nl rv n split del: if_split cong del: if_weak_cong\<close>)
    next
      case False
      then have lt: "length (p @ bs) < unat (gw_maxInputPos gw)" using s(8) by simp
      then have q': "q' \<noteq> []" using mx lq s(2) f20 by (auto split: if_splits)
      have "progress ?gw1 (p @ bs) f"
        using p(1) lt mx s(5-7) unfolding progress_def by (auto split: if_splits)
      moreover have "MGDoInput recv am big want (Suc fuel) gw maxBytes tot e =
          Ok (tot + int n, None, ?gw1, e')"
        using False eqp short lt s(4) by (simp add: MGDoInput.simps(2) Let_def nl rv n)
      ultimately show thesis
        using partial [of n ?gw1 e' "p @ bs" q'] p(2) s(1-3) q' by simp
    qed
  qed
qed

text \<open>
  The outcome of a call while the frame of \<open>m\<close> arrives: either the Message, with the stream
  behind its frame, or a state further on in the same frame.
\<close>

definition input_outcome ::
    "('e \<Rightarrow> u8 list) \<Rightarrow> bool \<Rightarrow> MMessage \<Rightarrow> u8 list \<Rightarrow> u8 list \<Rightarrow> int \<Rightarrow>
     (int \<times> MMessage option \<times> MMessageGateway \<times> 'e) outcome \<Rightarrow> bool" where
  "input_outcome arriving big m p ys tot r \<longleftrightarrow>
     (\<exists>gw' e' p' q' n. r = Ok (n, None, gw', e') \<and> progress gw' p' (frame big m)
        \<and> frame big m = p' @ q' \<and> q' \<noteq> [] \<and> arriving e' = q' @ ys
        \<and> (n = -1 \<or> n + int (length p) = tot + int (length p')))
     \<or> (\<exists>gw' e' n. r = Ok (n, Some (norm_msg m), gw', e') \<and> arriving e' = ys
        \<and> (\<forall>f. progress gw' [] f) \<and> n + int (length p) = tot + int (length (frame big m)))"

lemma MGDoInput_body:
  assumes wf: "wf_msg m" and am: "\<And>k. am k"
    and len: "length (wire_msg big m) < size_limit big" "length (frame big m) < 2 ^ 32"
    and recv: "good_recv recv arriving" and fuel: "length (wire_msg big m) \<le> fuel"
    and p: "progress gw p (frame big m)" "frame big m = p @ q" "8 \<le> length p" "q \<noteq> []"
    and arr: "arriving e = q @ ys" and budget: "length q \<le> unat maxBytes"
  shows "input_outcome arriving big m p ys tot (MGDoInput recv am big True (Suc fuel) gw maxBytes tot e)"
proof (rule MGDoInput_round [where am = am and want = True and fuel = fuel and tot = tot,
      OF p(1,2) arr recv budget refl len(2) p(4)], goal_cases)
  case (1 e')
  then show ?case using p unfolding input_outcome_def by blast
next
  case (2 gw' p' q' n e')
  then show ?case unfolding input_outcome_def
    by (intro disjI1 exI [of _ gw'] exI [of _ e'] exI [of _ p'] exI [of _ q'] exI [of _ "tot + int n"]) simp
next
  case (3 gw1 bs q' buf e')
  have mx: "unat (gw_maxInputPos gw) = length (frame big m)"
    using p(1,3) by (simp add: progress_def)
  then have pb: "length (p @ bs) = length (frame big m)" using 3(3) by simp
  then have "frame big m = (p @ bs) @ q'" "q' = []" using p(2) 3(1) by simp_all
  then have f: "frame big m = p @ bs" "arriving e' = ys" using 3(2) by simp_all
  then have cur: "gw_curInput gw1 = frame big m @ drop (length (p @ bs)) buf"
    unfolding 3(4) using 3(5) by (metis (no_types, lifting) MMessageGateway.select_convs(1)
      MMessageGateway.surjective MMessageGateway.update_convs(1,3) append_take_drop_id)
  have lt: "length (gw_curInput gw1) < 2 ^ 32" using p(1) 3(4,6) by (simp add: progress_def)
  have mx1: "unat (gw_maxInputPos gw1) = length (frame big m)" using mx 3(4) by simp
  obtain gw2 where body: "MGInputBody am big fuel True gw1 = Ok (Input_message (norm_msg m) gw2)"
    and prog: "\<forall>f. progress gw2 [] f"
    using InputBody_message [where am = am, OF am wf len(1) fuel cur lt mx1]
    by (auto simp: progress_def)
  have "8 < length (p @ bs)" using pb frame_split(2) [of big m] by simp
  then have "MGDoInput recv am big True (Suc fuel) gw maxBytes tot e =
      Ok (tot + int (length bs), Some (norm_msg m), gw2, e')"
    using 3(8) body by simp
  then show ?case
    unfolding input_outcome_def using f prog by auto
qed

lemma MGDoInput_stream:
  assumes wf: "wf_msg m" and am: "\<And>k. am k"
    and len: "length (wire_msg big m) < size_limit big" "2 * (length (wire_msg big m) + 8) < 2 ^ 32"
    and recv: "good_recv recv arriving" and fuel: "length (wire_msg big m) + 2 \<le> fuel"
    and p: "progress gw p (frame big m)" "frame big m = p @ q" "q \<noteq> []"
    and arr: "arriving e = q @ ys" and budget: "length q \<le> unat maxBytes"
  shows "input_outcome arriving big m p ys tot (MGDoInput recv am big True fuel gw maxBytes tot e)"
proof -
  obtain k where k: "fuel = Suc (Suc k)" "length (wire_msg big m) \<le> k"
    using fuel by (metis Suc_le_D add_2_eq_Suc' Suc_le_mono)
  have l32: "length (frame big m) < 2 ^ 32" using len(2) by (simp add: frame_split)
  show ?thesis
  proof (cases "8 \<le> length p")
    case True
    then show ?thesis
      unfolding k(1) using k(2)
      by (intro MGDoInput_body [OF wf am len(1) l32 recv _ p(1,2) True p(3) arr budget]) simp
  next
    case False
    then have p8: "length p < 8" by simp
    show ?thesis
      unfolding k(1)
    proof (rule MGDoInput_round [where am = am and want = True and fuel = "Suc k" and tot = tot,
          OF p(1,2) arr recv budget refl l32 p(3)], goal_cases)
      case (1 e')
      then show ?case using p unfolding input_outcome_def by blast
    next
      case (2 gw' p' q' n e')
      then show ?case unfolding input_outcome_def
        by (intro disjI1 exI [of _ gw'] exI [of _ e'] exI [of _ p'] exI [of _ q'] exI [of _ "tot + int n"]) simp
    next
      case (3 gw1 bs q' buf e')
      have "unat (gw_maxInputPos gw) = 8" using p(1) p8 by (simp add: progress_def)
      then have l8: "length (p @ bs) = 8" using 3(3) by simp
      have f: "frame big m = (p @ bs) @ q'" using p(2) 3(1) by simp
      then have t8: "take 8 (frame big m) = p @ bs" using l8 by simp
      have buf8: "take 8 buf = take 8 (frame big m)" using 3(5) t8 l8 by simp
      obtain gw2 where hd: "MGInputHeader am gw1 = Ok (Input_more gw2)"
        and prog: "progress gw2 (p @ bs) (frame big m)"
        using InputHeader_progress [where am = am, OF am len(2) p(1) p8 3(4) buf8 3(6)] l8 t8 by auto
      have ub: "unat (word_of_nat (length bs) :: u32) = length bs"
        using l8 by (intro unat_word_of_nat_u32) simp
      have "length bs \<le> unat maxBytes" using budget 3(1) by simp
      then have "unat (maxBytes - word_of_nat (length bs)) = unat maxBytes - length bs"
        using ub by (subst unat_sub_le) (simp_all add: word_le_nat_alt)
      then have budget': "length q' \<le> unat (maxBytes - word_of_nat (length bs))"
        using budget 3(1) by simp
      have q': "q' \<noteq> []" using f l8 frame_split(2) [of big m] by auto
      have "input_outcome arriving big m (p @ bs) ys (tot + int (length bs))
          (MGDoInput recv am big True (Suc k) gw2 (maxBytes - word_of_nat (length bs))
             (tot + int (length bs)) e')"
        using k(2) l8 by (intro MGDoInput_body [OF wf am len(1) l32 recv _ prog f _ q' 3(2) budget']) simp_all
      moreover have "MGDoInput recv am big True (Suc (Suc k)) gw maxBytes tot e =
          MGDoInput recv am big True (Suc k) gw2 (maxBytes - word_of_nat (length bs))
             (tot + int (length bs)) e'"
        using 3(8) l8 hd by simp
      ultimately show ?case by (auto simp: input_outcome_def)
    qed
  qed
qed

lemma Alloc_progress:
  "MGAllocMessageGateway am = Some gw \<Longrightarrow> progress gw [] f \<and> wf_output gw \<and> pending gw = []"
  by (auto simp: MGAllocMessageGateway_def MBAllocByteBuffer_def progress_def wf_output_def
      pending_def sizeof_ptr_def split: if_splits)

subsection \<open>Input on which the code goes wrong\<close>

text \<open>A caller's stream that is a list of bytes, all there.\<close>

definition list_recv :: "u8 list recv_func" where
  "list_recv e k = (int (length (take (unat k) e)), take (unat k) e, drop (unat k) e)"

lemma good_list_recv: "good_recv list_recv (\<lambda>e. e)"
  by (simp add: good_recv_def list_recv_def)

text \<open>
  A receive function that always delivers what it is asked for, while there is that much.  With it, a
  budget that ends inside a frame is used up, zero bytes are asked for and zero bytes arrive, for ever.
\<close>

definition full_recv :: "'e recv_func \<Rightarrow> ('e \<Rightarrow> u8 list) \<Rightarrow> bool" where
  "full_recv recv arriving \<longleftrightarrow> good_recv recv arriving
     \<and> (\<forall>e k. unat k \<le> length (arriving e) \<longrightarrow> fst (recv e k) = int (unat k))"

lemma full_recv_list: "full_recv list_recv (\<lambda>e. e)"
  by (simp add: full_recv_def good_list_recv) (simp add: list_recv_def)

lemma full_recv_bytes:
  assumes "full_recv recv arriving" "unat k \<le> length (arriving e)"
  obtains bs e' where "recv e k = (int (unat k), bs, e')" "length bs = unat k" "arriving e = bs @ arriving e'"
proof -
  obtain n bs e' where r: "recv e k = (n, bs, e')" by (metis prod_cases3)
  then have n: "n = int (unat k)" using assms by (metis full_recv_def fst_conv)
  have "0 \<le> n \<longrightarrow> int (length bs) = n \<and> arriving e = bs @ arriving e'"
    using assms(1) [unfolded full_recv_def good_recv_def, THEN conjunct1, rule_format, of e k] by (simp add: r)
  then have c: "int (length bs) = int (unat k)" "arriving e = bs @ arriving e'" using n by simp_all
  show thesis
    by (rule that [of bs e']) (use r n c in \<open>simp_all only: of_nat_eq_iff\<close>)
qed

lemma MGDoInput_zero_budget:
  assumes "full_recv recv arriving" "unat (gw_curInputPos gw) \<le> length (gw_curInput gw)"
    "gw_curInputPos gw \<noteq> gw_maxInputPos gw"
  shows "MGDoInput recv am big want fuel gw 0 tot e = Spin"
proof (induction fuel arbitrary: tot e)
  case (Suc fuel)
  have z: "0 < gw_maxInputPos gw - gw_curInputPos gw" using assms(3) by (auto simp: word_gt_0)
  obtain bs e' where r: "recv e 0 = (0, bs, e')" "bs = []"
    using full_recv_bytes [OF assms(1), of 0 e] by (simp, metis)
  have w: "mem_write (gw_curInput gw) (unat (gw_curInputPos gw)) [] = Ok (gw_curInput gw)"
    using assms(2) by (simp add: mem_write_def)
  show ?case
    unfolding MGDoInput.simps(2)
    using assms(3) Suc.IH z by (simp add: Let_def r w)
qed simp

lemma MGDoInput_short_budget:
  assumes recv: "full_recv recv arriving" and short: "maxBytes < gw_maxInputPos gw - gw_curInputPos gw"
    and fits: "unat (gw_curInputPos gw) + unat maxBytes \<le> length (gw_curInput gw)" "length (gw_curInput gw) < 2 ^ 32"
    and there: "unat maxBytes \<le> length (arriving e)"
  shows "MGDoInput recv am big want fuel gw maxBytes tot e = Spin"
proof (cases fuel)
  case (Suc k)
  obtain bs e' where r: "recv e maxBytes = (int (unat maxBytes), bs, e')" "length bs = unat maxBytes"
    using full_recv_bytes [OF recv there] by metis
  obtain buf where w: "mem_write (gw_curInput gw) (unat (gw_curInputPos gw)) bs = Ok buf" "length buf = length (gw_curInput gw)"
    using fits(1) r(2) by (auto simp: mem_write_def)
  have ne: "gw_curInputPos gw + maxBytes \<noteq> gw_maxInputPos gw"
    using short by (metis add_diff_cancel_left' less_irrefl)
  have "unat (gw_curInputPos gw + maxBytes) = unat (gw_curInputPos gw) + unat maxBytes"
    using fits by (subst unat_add_no_wrap) simp_all
  then have "MGDoInput recv am big want k (gw\<lparr>gw_curInput := buf, gw_curInputPos := gw_curInputPos gw + maxBytes\<rparr>) 0
      (tot + int (unat maxBytes)) e' = Spin"
    using w(2) ne fits(1) by (intro MGDoInput_zero_budget [OF recv]) simp_all
  then show ?thesis
    unfolding Suc MGDoInput.simps(2) using short ne by (simp add: Let_def r(1) w(1))
qed simp

lemma MGDoInput_spins:
  assumes recv: "full_recv recv arriving" and am: "\<And>k. am k" and len: "2 * (length (wire_msg big m) + 8) < 2 ^ 32"
    and p: "progress gw p (frame big m)" "frame big m = p @ q" and arr: "arriving e = q @ ys"
    and short: "unat maxBytes < length q"
  shows "MGDoInput recv am big want fuel gw maxBytes tot e = Spin"
proof -
  have lf: "20 \<le> length (frame big m)" "length (frame big m) < 2 ^ 32" using frame_split [of big m] len by simp_all
  have spin: "MGDoInput recv am big want k g mx t e1 = Spin"
    if "progress g p1 (frame big m)" "frame big m = p1 @ q1" "arriving e1 = q1 @ ys" "unat mx < length q1"
      "mx < gw_maxInputPos g - gw_curInputPos g" for k g mx t e1 p1 q1
  proof (rule MGDoInput_short_budget [OF recv that(5)])
    have "unat (gw_curInputPos g) = length p1" "8 \<le> length (gw_curInput g)" "length (gw_curInput g) < 2 ^ 32"
      "unat (gw_maxInputPos g) = (if length p1 < 8 then 8 else length (frame big m))"
      "8 \<le> length p1 \<Longrightarrow> length (frame big m) \<le> length (gw_curInput g)"
      using that(1) by (auto simp: progress_def)
    note g = this
    have "length (frame big m) = length p1 + length q1" using that(2) by simp
    then have "unat (gw_maxInputPos g - gw_curInputPos g) = unat (gw_maxInputPos g) - length p1"
      using g(1,4) by (subst unat_sub_le) (simp_all add: word_le_nat_alt)
    then have "unat mx < unat (gw_maxInputPos g) - length p1" using that(5) by (simp add: word_less_nat_alt)
    then show "unat (gw_curInputPos g) + unat mx \<le> length (gw_curInput g)"
      using g by (auto split: if_splits)
    show "length (gw_curInput g) < 2 ^ 32" by (rule g(3))
    show "unat mx \<le> length (arriving e1)" using that(3,4) by simp
  qed
  let ?left = "gw_maxInputPos gw - gw_curInputPos gw"
  show ?thesis
  proof (cases "maxBytes < ?left")
    case True
    then show ?thesis by (rule spin [OF p arr short])
  next
    case False
    have q: "q \<noteq> []" using short by auto
    have pos: "unat (gw_curInputPos gw) = length p" "unat (gw_maxInputPos gw) = (if length p < 8 then 8 else length (frame big m))"
      using p(1) by (simp_all add: progress_def)
    have lpq: "length (frame big m) = length p + length q" using p(2) by simp
    have left: "unat ?left = unat (gw_maxInputPos gw) - length p"
      using pos lpq by (subst unat_sub_le) (simp_all add: word_le_nat_alt)
    have p8: "length p < 8"
      using False short pos(2) lpq left by (auto simp: word_le_nat_alt not_less split: if_splits)
    have l8: "unat ?left = 8 - length p" using left pos(2) p8 by simp
    show ?thesis
    proof (cases fuel)
      case (Suc k)
      have there: "unat ?left \<le> length (arriving e)" using l8 arr lpq lf(1) by simp
      obtain bs e' where r: "recv e ?left = (int (length bs), bs, e')" "length bs = unat ?left"
        using full_recv_bytes [OF recv there] by metis
      have lb: "length bs = 8 - length p" using r(2) l8 by simp
      have w: "word_of_nat (length bs) = ?left" by (simp add: r(2))
      have good: "good_recv recv arriving" using recv by (simp add: full_recv_def)
      obtain q' buf where s: "q = bs @ q'" "arriving e' = q' @ ys"
        "mem_write (gw_curInput gw) (unat (gw_curInputPos gw)) bs = Ok buf"
        "take (length (p @ bs)) buf = p @ bs" "length buf = length (gw_curInput gw)"
        "unat (gw_curInputPos gw + word_of_nat (length bs)) = length (p @ bs)"
        by (rule recv_progress [OF p arr good r(1) lf q])
      have pb: "length (p @ bs) = 8" using lb p8 by simp
      let ?gw1 = "gw\<lparr>gw_curInput := buf, gw_curInputPos := gw_curInputPos gw + word_of_nat (length bs)\<rparr>"
      have t8: "take 8 (frame big m) = p @ bs" using p(2) s(1) pb by simp
      have b8: "take 8 buf = take 8 (frame big m)" using s(4) pb t8 by simp
      have "length p + length bs = 8" using lb p8 by simp
      from InputHeader_progress [where am = am, OF am len p(1) p8 refl b8 s(5) this, unfolded t8]
      obtain gw2 where hd: "MGInputHeader am ?gw1 = Ok (Input_more gw2)" "progress gw2 (p @ bs) (frame big m)"
        by blast
      have c1: "gw_curInputPos ?gw1 = 8" "gw_maxInputPos gw = 8"
        using s(6) pb pos(2) p8 by (simp_all add: word_unat_eq_iff)
      have un: "unat (maxBytes - ?left) = unat maxBytes - unat ?left"
        using False by (subst unat_sub_le) (simp_all add: not_less)
      have pos2: "unat (gw_curInputPos gw2) = 8" "unat (gw_maxInputPos gw2) = length (frame big m)"
        using hd(2) pb unfolding progress_def by simp_all
      have "unat (gw_maxInputPos gw2 - gw_curInputPos gw2) = length q'"
        using pos2 lf(1) lpq s(1) pb by (subst unat_sub_le) (simp_all add: word_le_nat_alt)
      moreover have lt: "unat (maxBytes - ?left) < length q'" using un l8 short s(1) lb False by (simp add: word_le_nat_alt not_less)
      ultimately have "maxBytes - ?left < gw_maxInputPos gw2 - gw_curInputPos gw2" by (simp add: word_less_nat_alt)
      then have "MGDoInput recv am big want k gw2 (maxBytes - ?left) (tot + int (length bs)) e' = Spin"
        using p(2) s(1,2) lt by (intro spin [OF hd(2)]) simp_all
      then show ?thesis
        unfolding Suc MGDoInput.simps(2)
        using False c1 hd(1) by (simp add: Let_def r(1) [unfolded c1(2)] s(3) w [unfolded c1(2)])
    qed simp
  qed
qed

text \<open>
  A header with the body size \<open>2 ^ 32 - 8\<close>: adding the eight bytes of the header wraps around to
  zero, so \<^verbatim>\<open>_maxInputPos\<close> is before \<^verbatim>\<open>_curInputPos\<close> and the next bytes are received behind the
  end of the buffer.
\<close>

lemma MGDoInput_wraps:
  assumes gw: "progress gw [] f" "length (gw_curInput gw) = 8" and "ys \<noteq> []" "8 < unat maxBytes"
  shows "MGDoInput list_recv am big want (Suc (Suc fuel)) gw maxBytes tot
    (u32_le 4294967288 @ u32_le MUSCLE_MESSAGE_ENCODING_DEFAULT @ ys) = Fault"
proof -
  let ?h = "u32_le 4294967288 @ u32_le MUSCLE_MESSAGE_ENCODING_DEFAULT"
  have g: "gw_curInputPos gw = 0" "gw_maxInputPos gw = 8"
    using gw(1) by (auto simp: progress_def word_unat_eq_iff)
  let ?gw = "gw\<lparr>gw_curInput := ?h, gw_curInputPos := 8, gw_maxInputPos := 0\<rparr>"
  have w: "mem_write (gw_curInput gw) 0 ?h = Ok ?h" using gw(2) by (simp add: mem_write_def)
  have hd: "MGInputHeader am (gw\<lparr>gw_curInput := ?h, gw_curInputPos := 8\<rparr>) = Ok (Input_more ?gw)"
    by (simp add: MGInputHeader_def mem_read_def Let_def)
  have nl: "\<not> 8 > maxBytes" "maxBytes - 8 \<noteq> 0"
    using assms(4) by (auto simp: word_less_nat_alt)
  have step: "MGDoInput list_recv am big want (Suc (Suc fuel)) gw maxBytes tot (?h @ ys) =
      MGDoInput list_recv am big want (Suc fuel) ?gw (maxBytes - 8) (tot + 8) ys"
    by (subst MGDoInput.simps(2)) (simp add: g Let_def nl list_recv_def w hd)
  let ?k = "unat (if maxBytes - 8 < - 8 then maxBytes - 8 else - 8)"
  have "0 < ?k" using nl(2) by (simp add: unat_gt_0)
  then have "take ?k ys \<noteq> []" using assms(3) by simp
  then have "mem_write ?h 8 (take ?k ys) = Fault" by (simp add: mem_write_def)
  then have "MGDoInput list_recv am big want (Suc fuel) ?gw (maxBytes - 8) (tot + 8) ys = Fault"
    by (subst MGDoInput.simps(2)) (simp add: Let_def list_recv_def split del: if_split cong del: if_weak_cong)
  then show ?thesis using step by simp
qed

end
