(* ===== verification/Micro_Message.thy ===== *)
theory Micro_Message
  imports Mini_Codec
begin

section \<open>MicroMessage: Messages built and read in place\<close>

text \<open>
  \<^verbatim>\<open>source/muscle/micromessage/MicroMessage.c\<close>: a \<^verbatim>\<open>UMessage\<close> is a view on a buffer that holds
  the flattened bytes.  \<open>mem\<close> is the memory the buffers lie in, a pointer into it a position.  The
  reads of the code that are not guarded are reads of \<open>mem\<close>, a \<open>Fault\<close> when outside of it.

  A UMessage that is built inside its parent keeps a pointer to the parent, whose sizes it updates.
  The operations that add data work on the chain of the UMessage, its parent, its grandparent and
  so on: the tail of the list is what \<^verbatim>\<open>_parentMsg\<close> points to.  The static
  \<^verbatim>\<open>_enforceFieldNameUniqueness\<close> is the parameter \<open>enforce\<close>.  Floating-point values are their bits.
\<close>

named_theorems micro_simps "evaluation of the MicroMessage operations"

record UMessage =
  um_buffer :: "nat option"
  um_bufferSize :: u32
  um_numValidBytes :: u32
  um_currentAddField :: "nat option"
  um_isReadOnly :: bool
  um_sizeField :: "nat option"
  um_readFieldCache :: "nat option"

record UMessageFieldNameIterator =
  it_message :: UMessage
  it_currentField :: "nat option"
  it_typeCode :: u32

definition buf_addr :: "UMessage \<Rightarrow> nat" where
  "buf_addr msg = (case um_buffer msg of None \<Rightarrow> 0 | Some a \<Rightarrow> a)"

definition GetNumValidBytesAt :: "UMessage \<Rightarrow> nat \<Rightarrow> u32" where
  "GetNumValidBytesAt msg ptr =
     (let afterLast = buf_addr msg + unat (um_numValidBytes msg) in
      if buf_addr msg \<le> ptr \<and> ptr < afterLast then word_of_nat (afterLast - ptr) else 0)"

definition GetNumBufferBytesAt :: "UMessage \<Rightarrow> nat \<Rightarrow> u32" where
  "GetNumBufferBytesAt msg ptr =
     (let afterLast = buf_addr msg + unat (um_bufferSize msg) in
      if buf_addr msg \<le> ptr \<and> ptr < afterLast then word_of_nat (afterLast - ptr) else 0)"

definition GetNumRemainingSpareBufferBytes :: "UMessage \<Rightarrow> u32" where
  "GetNumRemainingSpareBufferBytes msg =
     GetNumBufferBytesAt msg (buf_addr msg + unat (um_numValidBytes msg))"

definition UMWriteInt32 :: "u8 list \<Rightarrow> nat \<Rightarrow> u32 \<Rightarrow> u8 list outcome" where
  "UMWriteInt32 mem ptr val = mem_write mem ptr (u32_le val)"

definition UMReadInt32 :: "u8 list \<Rightarrow> nat \<Rightarrow> u32 outcome" where
  "UMReadInt32 mem ptr = obind (mem_read mem ptr 4) (\<lambda>bs. Ok (le_u32 bs))"

definition UMWriteInt32AtOffset :: "u8 list \<Rightarrow> UMessage \<Rightarrow> nat \<Rightarrow> u32 \<Rightarrow> (status \<times> u8 list) outcome" where
  "UMWriteInt32AtOffset mem msg offset val =
     (let ptr = buf_addr msg + offset in
      if GetNumBufferBytesAt msg ptr < 4 then Ok (B_ERROR, mem)
      else obind (UMWriteInt32 mem ptr val) (\<lambda>mem. Ok (B_NO_ERROR, mem)))"

definition UMReadInt32AtOffset :: "u8 list \<Rightarrow> UMessage \<Rightarrow> nat \<Rightarrow> u32 outcome" where
  "UMReadInt32AtOffset mem msg offset =
     (let ptr = buf_addr msg + offset in
      if GetNumValidBytesAt msg ptr \<ge> 4 then UMReadInt32 mem ptr else Ok 0)"

definition MESSAGE_HEADER_SIZE :: nat where "MESSAGE_HEADER_SIZE = 3 * 4"

definition UMSetNumFields where "UMSetNumFields mem msg n = UMWriteInt32AtOffset mem msg (2 * 4) n"
definition UMGetNumFields where "UMGetNumFields mem msg = UMReadInt32AtOffset mem msg (2 * 4)"
definition UMGetFlattenedSize :: "UMessage \<Rightarrow> u32" where
  "UMGetFlattenedSize msg = um_numValidBytes msg"
definition UMGetMaximumSize :: "UMessage \<Rightarrow> u32" where "UMGetMaximumSize msg = um_bufferSize msg"
definition UMGetFlattenedBuffer :: "UMessage \<Rightarrow> nat option" where
  "UMGetFlattenedBuffer msg = um_buffer msg"
definition UMIsMessageReadOnly :: "UMessage \<Rightarrow> bool" where
  "UMIsMessageReadOnly msg = um_isReadOnly msg"
definition UMIsMessageValid :: "UMessage \<Rightarrow> bool" where
  "UMIsMessageValid msg \<longleftrightarrow>
     um_buffer msg \<noteq> None \<and> um_numValidBytes msg \<ge> word_of_nat MESSAGE_HEADER_SIZE"
definition UMGetWhatCode where "UMGetWhatCode mem msg = UMReadInt32AtOffset mem msg (1 * 4)"
definition UMSetWhatCode where "UMSetWhatCode mem msg w = UMWriteInt32AtOffset mem msg (1 * 4) w"

subsection \<open>Initialization\<close>

text \<open>\<^verbatim>\<open>msg\<close> is not touched when the buffer is too small.\<close>

definition UMInitializeToEmptyMessage ::
    "u8 list \<Rightarrow> UMessage \<Rightarrow> nat \<Rightarrow> u32 \<Rightarrow> u32 \<Rightarrow> (status \<times> u8 list \<times> UMessage) outcome" where
  "UMInitializeToEmptyMessage mem msg buf numBytesInBuf whatCode =
     (if numBytesInBuf < word_of_nat MESSAGE_HEADER_SIZE then Ok (B_ERROR, mem, msg)
      else
        let m = \<lparr>um_buffer = Some buf, um_bufferSize = numBytesInBuf,
                 um_numValidBytes = word_of_nat MESSAGE_HEADER_SIZE, um_currentAddField = None,
                 um_isReadOnly = False, um_sizeField = None, um_readFieldCache = None\<rparr> in
        obind (UMWriteInt32AtOffset mem m 0 CURRENT_PROTOCOL_VERSION) (\<lambda>(s1, mem).
        if s1 = B_NO_ERROR then
          obind (UMSetWhatCode mem m whatCode) (\<lambda>(s2, mem).
          if s2 = B_NO_ERROR then
            obind (UMSetNumFields mem m 0) (\<lambda>(s3, mem). Ok (s3, mem, m))
          else Ok (B_ERROR, mem, m))
        else Ok (B_ERROR, mem, m)))"

definition existing_view :: "nat \<Rightarrow> u32 \<Rightarrow> UMessage" where
  "existing_view buf numBytesInBuf =
     \<lparr>um_buffer = Some buf, um_bufferSize = numBytesInBuf, um_numValidBytes = numBytesInBuf,
      um_currentAddField = None, um_isReadOnly = True, um_sizeField = None, um_readFieldCache = None\<rparr>"

definition UMInitializeWithExistingData ::
    "u8 list \<Rightarrow> nat \<Rightarrow> u32 \<Rightarrow> (status \<times> UMessage) outcome" where
  "UMInitializeWithExistingData mem buf numBytesInBuf =
     (let m = existing_view buf numBytesInBuf in
      if numBytesInBuf \<ge> word_of_nat MESSAGE_HEADER_SIZE then
        obind (UMReadInt32AtOffset mem m 0) (\<lambda>v.
        Ok (if v = CURRENT_PROTOCOL_VERSION then B_NO_ERROR else B_ERROR, m))
      else Ok (B_ERROR, m))"

definition UMInitializeToInvalid :: UMessage where
  "UMInitializeToInvalid =
     \<lparr>um_buffer = None, um_bufferSize = 0, um_numValidBytes = 0, um_currentAddField = None,
      um_isReadOnly = True, um_sizeField = None, um_readFieldCache = None\<rparr>"

subsection \<open>Fields\<close>

definition GetFieldNameLength :: "u8 list \<Rightarrow> nat \<Rightarrow> u32 outcome" where
  "GetFieldNameLength mem field = UMReadInt32 mem field"
definition GetFieldName :: "nat \<Rightarrow> nat" where "GetFieldName field = field + 4"
definition GetFieldTypePointer :: "u8 list \<Rightarrow> nat \<Rightarrow> nat outcome" where
  "GetFieldTypePointer mem field =
     obind (GetFieldNameLength mem field) (\<lambda>n. Ok (GetFieldName field + unat n))"
definition GetFieldType :: "u8 list \<Rightarrow> nat \<Rightarrow> u32 outcome" where
  "GetFieldType mem ftptr = UMReadInt32 mem ftptr"
definition GetFieldDataLength :: "u8 list \<Rightarrow> nat \<Rightarrow> u32 outcome" where
  "GetFieldDataLength mem ftptr = UMReadInt32 mem (ftptr + 4)"
definition GetFieldData :: "nat \<Rightarrow> nat" where "GetFieldData ftptr = ftptr + 4 + 4"
definition SetFieldDataLength :: "u8 list \<Rightarrow> nat \<Rightarrow> u32 \<Rightarrow> u8 list outcome" where
  "SetFieldDataLength mem ftptr newVal = UMWriteInt32 mem (ftptr + 4) newVal"

definition MINIMUM_FIELD_HEADERS_SIZE :: u32 where "MINIMUM_FIELD_HEADERS_SIZE = 3 * 4"

definition IsFieldPointerValid :: "u8 list \<Rightarrow> UMessage \<Rightarrow> nat \<Rightarrow> bool outcome" where
  "IsFieldPointerValid mem msg ptr =
     (if GetNumValidBytesAt msg ptr \<ge> MINIMUM_FIELD_HEADERS_SIZE then
        obind (GetFieldTypePointer mem ptr) (\<lambda>ftptr.
        if GetNumValidBytesAt msg ftptr \<ge> 4 + 4
        then Ok (GetNumValidBytesAt msg (GetFieldData ftptr) > 0) else Ok False)
      else Ok False)"

definition GetNextField :: "u8 list \<Rightarrow> UMessage \<Rightarrow> nat \<Rightarrow> nat option outcome" where
  "GetNextField mem msg field =
     obind (GetFieldTypePointer mem field) (\<lambda>ftptr.
     obind (GetFieldDataLength mem ftptr) (\<lambda>n.
     let afterData = GetFieldData ftptr + unat n in
     obind (IsFieldPointerValid mem msg afterData) (\<lambda>v. Ok (if v then Some afterData else None))))"

lemma valid_pointer_before_end:
  "IsFieldPointerValid mem msg ptr = Ok True \<Longrightarrow> ptr < buf_addr msg + unat (um_numValidBytes msg)"
  by (auto simp: IsFieldPointerValid_def GetNumValidBytesAt_def Let_def MINIMUM_FIELD_HEADERS_SIZE_def
      split: if_splits)

function GetFieldByNameLoop :: "u8 list \<Rightarrow> UMessage \<Rightarrow> u8 list \<Rightarrow> u32 \<Rightarrow> u32 \<Rightarrow> nat \<Rightarrow> nat option outcome" where
  "GetFieldByNameLoop mem msg fieldName fieldNameLength desiredTypeCode ptr =
     obind (IsFieldPointerValid mem msg ptr) (\<lambda>valid.
     if valid then
       obind (GetFieldTypePointer mem ptr) (\<lambda>ftptr.
       obind (GetFieldType mem ftptr) (\<lambda>tc.
       obind (GetFieldNameLength mem ptr) (\<lambda>nl.
       obind (if (desiredTypeCode = B_ANY_TYPE \<or> desiredTypeCode = tc) \<and> nl = fieldNameLength
              then strcmp_eq (drop (GetFieldName ptr) mem) fieldName else Ok False) (\<lambda>found.
       if found then Ok (Some ptr)
       else
         obind (GetFieldDataLength mem ftptr) (\<lambda>n.
         GetFieldByNameLoop mem msg fieldName fieldNameLength desiredTypeCode
           (GetFieldData ftptr + unat n))))))
     else Ok None)"
  by pat_completeness auto
termination
  by (relation "measure (\<lambda>(mem, msg, _, _, _, ptr). buf_addr msg + unat (um_numValidBytes msg) - ptr)")
    (auto simp: GetFieldTypePointer_def GetFieldData_def GetFieldName_def obind_eq_Ok
      dest!: valid_pointer_before_end intro!: diff_less_mono2)

declare GetFieldByNameLoop.simps [simp del]

definition GetFieldByNameAux :: "u8 list \<Rightarrow> UMessage \<Rightarrow> u8 list \<Rightarrow> u32 \<Rightarrow> u32 \<Rightarrow> nat option outcome" where
  "GetFieldByNameAux mem msg fieldName fieldNameLength desiredTypeCode =
     GetFieldByNameLoop mem msg fieldName fieldNameLength desiredTypeCode
       (buf_addr msg + MESSAGE_HEADER_SIZE)"

subsection \<open>Adding data\<close>

text \<open>
  \<^verbatim>\<open>IncreaseCurrentFieldDataLength\<close> and \<^verbatim>\<open>IncreaseParentValidBytesBy\<close> call each other up the
  chain of parents; a NULL \<^verbatim>\<open>_currentAddField\<close> is dereferenced.
\<close>

definition bump_size_field :: "u8 list \<Rightarrow> UMessage \<Rightarrow> u32 \<Rightarrow> u8 list outcome" where
  "bump_size_field mem msg numBytes =
     (case um_sizeField msg of
        None \<Rightarrow> Ok mem
      | Some a \<Rightarrow> obind (UMReadInt32 mem a) (\<lambda>v. UMWriteInt32 mem a (v + numBytes)))"

fun IncreaseCurrentFieldDataLength ::
    "u8 list \<Rightarrow> UMessage list \<Rightarrow> u32 \<Rightarrow> (u8 list \<times> UMessage list) outcome" where
  "IncreaseCurrentFieldDataLength mem [] numBytes = Ok (mem, [])"
| "IncreaseCurrentFieldDataLength mem (msg # parents) numBytes =
     (case um_currentAddField msg of
        None \<Rightarrow> Fault
      | Some field \<Rightarrow>
          obind (GetFieldTypePointer mem field) (\<lambda>ftptr.
          obind (GetFieldDataLength mem ftptr) (\<lambda>n.
          obind (SetFieldDataLength mem ftptr (n + numBytes)) (\<lambda>mem.
          obind (IncreaseCurrentFieldDataLength mem parents numBytes) (\<lambda>r.
          obind (bump_size_field (fst r) msg numBytes) (\<lambda>mem.
          Ok (mem, msg\<lparr>um_numValidBytes := um_numValidBytes msg + numBytes\<rparr> # snd r)))))))"

definition IncreaseParentValidBytesBy ::
    "u8 list \<Rightarrow> UMessage \<Rightarrow> UMessage list \<Rightarrow> u32 \<Rightarrow> (u8 list \<times> UMessage list) outcome" where
  "IncreaseParentValidBytesBy mem msg parents numBytes =
     obind (IncreaseCurrentFieldDataLength mem parents numBytes) (\<lambda>r.
     obind (bump_size_field (fst r) msg numBytes) (\<lambda>mem. Ok (mem, snd r)))"

text \<open>
  \<^verbatim>\<open>GetOrAddFieldDataPointer\<close>: the address where the caller writes its data (None is NULL), the
  address of the extra header (\<^verbatim>\<open>optRetExtraFieldHeader\<close>), the memory and the chain.
\<close>

type_synonym add_result = "((nat \<times> nat) option \<times> u8 list \<times> UMessage list) outcome"

definition add_new_field :: "u8 list \<Rightarrow> UMessage \<Rightarrow> UMessage list \<Rightarrow> u8 list \<Rightarrow> u32 \<Rightarrow> u32 \<Rightarrow> u32 \<Rightarrow> u32 \<Rightarrow> add_result"
where
  "add_new_field mem msg parents fieldName nameLen fieldType numDataBytesNeeded fieldHeaderSizeBytes =
     (let numRequiredBytes = 4 + nameLen + 4 + 4 + fieldHeaderSizeBytes + numDataBytesNeeded in
      if GetNumRemainingSpareBufferBytes msg < numRequiredBytes then Ok (None, mem, msg # parents)
      else
        let ptr0 = buf_addr msg + unat (um_numValidBytes msg);
            ptr1 = ptr0 + 4; ptr2 = ptr1 + unat nameLen; ptr3 = ptr2 + 4; ptr4 = ptr3 + 4;
            ptr5 = ptr4 + unat fieldHeaderSizeBytes;
            msg' = msg\<lparr>um_currentAddField := Some ptr0,
                       um_numValidBytes := word_of_nat (ptr5 - buf_addr msg)\<rparr> in
        obind (UMWriteInt32 mem ptr0 nameLen) (\<lambda>mem.
        obind (mem_read fieldName 0 (unat nameLen)) (\<lambda>nm.
        obind (mem_write mem ptr1 nm) (\<lambda>mem.
        obind (UMWriteInt32 mem ptr2 fieldType) (\<lambda>mem.
        obind (UMWriteInt32 mem ptr3 fieldHeaderSizeBytes) (\<lambda>mem.
        obind (mem_write mem ptr4 (replicate (unat fieldHeaderSizeBytes) 0)) (\<lambda>mem.
        obind (IncreaseParentValidBytesBy mem msg' parents
                 (um_numValidBytes msg' - um_numValidBytes msg)) (\<lambda>r.
        obind (UMGetNumFields (fst r) msg') (\<lambda>n.
        obind (UMSetNumFields (fst r) msg' (n + 1)) (\<lambda>q.
        Ok (Some (ptr5, ptr4), snd q, msg' # snd r)))))))))))"

fun GetOrAddFieldDataPointer ::
    "bool \<Rightarrow> u8 list \<Rightarrow> UMessage list \<Rightarrow> u8 list \<Rightarrow> u32 \<Rightarrow> u32 \<Rightarrow> u32 \<Rightarrow> add_result" where
  "GetOrAddFieldDataPointer enforce mem [] fieldName fieldType numDataBytesNeeded fieldHeaderSizeBytes = Fault"
| "GetOrAddFieldDataPointer enforce mem (msg # parents) fieldName fieldType numDataBytesNeeded fieldHeaderSizeBytes =
     (if um_isReadOnly msg then Ok (None, mem, msg # parents)
      else
        obind (strlen fieldName) (\<lambda>n.
        let nameLen = word_of_nat n + 1 in
        (case um_currentAddField msg of
           None \<Rightarrow> add_new_field mem msg parents fieldName nameLen fieldType numDataBytesNeeded
                     fieldHeaderSizeBytes
         | Some cur \<Rightarrow>
             obind (GetFieldTypePointer mem cur) (\<lambda>curFieldTypePtr.
             obind (GetFieldType mem curFieldTypePtr) (\<lambda>tc.
             obind (GetFieldNameLength mem cur) (\<lambda>nl.
             obind (if tc = fieldType \<and> nl = nameLen
                    then strcmp_eq (drop (GetFieldName cur) mem) fieldName else Ok False) (\<lambda>same.
             if same then
               let hdr = GetFieldData curFieldTypePtr in
               obind (GetFieldDataLength mem curFieldTypePtr) (\<lambda>dl.
               let fieldData = hdr + unat dl in
               if GetNumBufferBytesAt msg fieldData \<ge> numDataBytesNeeded
               then Ok (Some (fieldData, hdr), mem, msg # parents)
               else Ok (None, mem, msg # parents))
             else
               obind (if enforce then GetFieldByNameAux mem msg fieldName nameLen B_ANY_TYPE
                      else Ok None) (\<lambda>dup.
               if dup \<noteq> None then Ok (None, mem, msg # parents)
               else add_new_field mem msg parents fieldName nameLen fieldType numDataBytesNeeded
                      fieldHeaderSizeBytes))))))))"

text \<open>The loops \<^verbatim>\<open>for (i=0; i<numVals; i++) d[i] = B_HOST_TO_LENDIAN(vals[i])\<close>.\<close>

fun write_items :: "('a \<Rightarrow> u8 list) \<Rightarrow> u8 list \<Rightarrow> nat \<Rightarrow> 'a list \<Rightarrow> u8 list outcome" where
  "write_items enc mem ptr [] = Ok mem"
| "write_items enc mem ptr (v # vs) =
     obind (mem_write mem ptr (enc v)) (\<lambda>mem. write_items enc mem (ptr + length (enc v)) vs)"

definition add_items ::
    "('a \<Rightarrow> u8 list) \<Rightarrow> u32 \<Rightarrow> u32 \<Rightarrow> bool \<Rightarrow> u8 list \<Rightarrow> UMessage list \<Rightarrow> u8 list \<Rightarrow> 'a list \<Rightarrow>
     (status \<times> u8 list \<times> UMessage list) outcome" where
  "add_items enc typeCode itemSize enforce mem chain fieldName vals =
     (let numDataBytes = word_of_nat (length vals) * itemSize in
      obind (GetOrAddFieldDataPointer enforce mem chain fieldName typeCode numDataBytes 0)
        (\<lambda>(r, mem, chain).
      case r of
        None \<Rightarrow> Ok (B_ERROR, mem, chain)
      | Some (dataPtr, _) \<Rightarrow>
          obind (write_items enc mem dataPtr vals) (\<lambda>mem.
          obind (IncreaseCurrentFieldDataLength mem chain numDataBytes) (\<lambda>(mem, chain).
          Ok (B_NO_ERROR, mem, chain)))))"

definition UMAddBools where
  "UMAddBools = add_items (\<lambda>v :: u8. [if v \<noteq> 0 then 1 else 0]) B_BOOL_TYPE 1"
definition UMAddInt8s where "UMAddInt8s = add_items (\<lambda>v :: u8. [v]) B_INT8_TYPE 1"
definition UMAddInt16s where "UMAddInt16s = add_items u16_le B_INT16_TYPE 2"
definition UMAddInt32s where "UMAddInt32s = add_items u32_le B_INT32_TYPE 4"
definition UMAddInt64s where "UMAddInt64s = add_items u64_le B_INT64_TYPE 8"
definition UMAddFloats where "UMAddFloats = add_items u32_le B_FLOAT_TYPE 4"
definition UMAddDoubles where "UMAddDoubles = add_items u64_le B_DOUBLE_TYPE 8"
definition UMAddPoints where
  "UMAddPoints = add_items (\<lambda>(x, y). u32_le x @ u32_le y) B_POINT_TYPE (4 * 2)"
definition UMAddRects where
  "UMAddRects = add_items (\<lambda>(l, t, r, b). u32_le l @ u32_le t @ u32_le r @ u32_le b) B_RECT_TYPE (4 * 4)"

text \<open>\<^verbatim>\<open>UMAddStrings\<close>: a NULL string counts as the empty one.\<close>

definition c_string :: "u8 list option \<Rightarrow> u8 list" where
  "c_string s = (case s of None \<Rightarrow> [0] | Some m \<Rightarrow> m)"

fun sum_strlens :: "u8 list option list \<Rightarrow> u32 outcome" where
  "sum_strlens [] = Ok 0"
| "sum_strlens (s # ss) =
     obind (strlen (c_string s)) (\<lambda>n. obind (sum_strlens ss) (\<lambda>k. Ok (word_of_nat n + k)))"

fun write_strings :: "u8 list \<Rightarrow> nat \<Rightarrow> u8 list option list \<Rightarrow> u8 list outcome" where
  "write_strings mem ptr [] = Ok mem"
| "write_strings mem ptr (s # ss) =
     obind (strlen (c_string s)) (\<lambda>n.
     let stringFieldLength = word_of_nat n + 1 :: u32 in
     obind (UMWriteInt32 mem ptr stringFieldLength) (\<lambda>mem.
     obind (mem_read (c_string s) 0 (unat stringFieldLength)) (\<lambda>bs.
     obind (mem_write mem (ptr + 4) bs) (\<lambda>mem.
     write_strings mem (ptr + 4 + unat stringFieldLength) ss))))"

definition UMAddStrings ::
    "bool \<Rightarrow> u8 list \<Rightarrow> UMessage list \<Rightarrow> u8 list \<Rightarrow> u8 list option list \<Rightarrow>
     (status \<times> u8 list \<times> UMessage list) outcome" where
  "UMAddStrings enforce mem chain fieldName strings =
     obind (sum_strlens strings) (\<lambda>k.
     let numStrings = word_of_nat (length strings) :: u32; numDataBytes = numStrings * (4 + 1) + k in
     obind (GetOrAddFieldDataPointer enforce mem chain fieldName B_STRING_TYPE numDataBytes 4)
       (\<lambda>(r, mem, chain).
     case r of
       None \<Rightarrow> Ok (B_ERROR, mem, chain)
     | Some (dataPtr, hdr) \<Rightarrow>
         obind (UMReadInt32 mem hdr) (\<lambda>c.
         obind (UMWriteInt32 mem hdr (c + numStrings)) (\<lambda>mem.
         obind (write_strings mem dataPtr strings) (\<lambda>mem.
         obind (IncreaseCurrentFieldDataLength mem chain numDataBytes) (\<lambda>(mem, chain).
         Ok (B_NO_ERROR, mem, chain)))))))"

definition UMAddData ::
    "bool \<Rightarrow> u8 list \<Rightarrow> UMessage list \<Rightarrow> u8 list \<Rightarrow> u32 \<Rightarrow> u8 list \<Rightarrow> u32 \<Rightarrow>
     (status \<times> u8 list \<times> UMessage list) outcome" where
  "UMAddData enforce mem chain fieldName dataType dataBytes numBytes =
     (let numDataBytes = 4 + numBytes in
      obind (GetOrAddFieldDataPointer enforce mem chain fieldName dataType numDataBytes 4)
        (\<lambda>(r, mem, chain).
      case r of
        None \<Rightarrow> Ok (B_ERROR, mem, chain)
      | Some (dataPtr, hdr) \<Rightarrow>
          obind (UMReadInt32 mem hdr) (\<lambda>c.
          obind (UMWriteInt32 mem hdr (c + 1)) (\<lambda>mem.
          obind (UMWriteInt32 mem dataPtr numBytes) (\<lambda>mem.
          obind (mem_read dataBytes 0 (unat numBytes)) (\<lambda>bs.
          obind (mem_write mem (dataPtr + 4) bs) (\<lambda>mem.
          obind (IncreaseCurrentFieldDataLength mem chain numDataBytes) (\<lambda>(mem, chain).
          Ok (B_NO_ERROR, mem, chain)))))))))"

text \<open>The Messages that are added lie in the same memory.\<close>

fun write_messages :: "u8 list \<Rightarrow> nat \<Rightarrow> UMessage list \<Rightarrow> u8 list outcome" where
  "write_messages mem ptr [] = Ok mem"
| "write_messages mem ptr (m # ms) =
     (let len = UMGetFlattenedSize m in
      obind (UMWriteInt32 mem ptr len) (\<lambda>mem.
      obind (mem_read mem (buf_addr m) (unat len)) (\<lambda>bs.
      obind (mem_write mem (ptr + 4) bs) (\<lambda>mem.
      write_messages mem (ptr + 4 + unat len) ms))))"

definition UMAddMessages ::
    "bool \<Rightarrow> u8 list \<Rightarrow> UMessage list \<Rightarrow> u8 list \<Rightarrow> UMessage list \<Rightarrow>
     (status \<times> u8 list \<times> UMessage list) outcome" where
  "UMAddMessages enforce mem chain fieldName messageArray =
     (let numDataBytes = word_of_nat (length messageArray) * 4
                         + sum_list (map UMGetFlattenedSize messageArray) in
      obind (GetOrAddFieldDataPointer enforce mem chain fieldName B_MESSAGE_TYPE numDataBytes 0)
        (\<lambda>(r, mem, chain).
      case r of
        None \<Rightarrow> Ok (B_ERROR, mem, chain)
      | Some (dataPtr, _) \<Rightarrow>
          obind (write_messages mem dataPtr messageArray) (\<lambda>mem.
          obind (IncreaseCurrentFieldDataLength mem chain numDataBytes) (\<lambda>(mem, chain).
          Ok (B_NO_ERROR, mem, chain)))))"

text \<open>The child under construction is put in front of the chain; None is the unusable UMessage.\<close>

definition UMInlineAddMessage ::
    "bool \<Rightarrow> u8 list \<Rightarrow> UMessage list \<Rightarrow> u8 list \<Rightarrow> u32 \<Rightarrow>
     (UMessage option \<times> u8 list \<times> UMessage list) outcome" where
  "UMInlineAddMessage enforce mem chain fieldName whatCode =
     (let numDataBytes = 4 + word_of_nat MESSAGE_HEADER_SIZE in
      obind (GetOrAddFieldDataPointer enforce mem chain fieldName B_MESSAGE_TYPE numDataBytes 0)
        (\<lambda>(r, mem, chain).
      case r of
        None \<Rightarrow> Ok (None, mem, chain)
      | Some (dataPtr, _) \<Rightarrow>
          obind (UMWriteInt32 mem dataPtr (word_of_nat MESSAGE_HEADER_SIZE)) (\<lambda>mem.
          let childDataPtr = dataPtr + 4 in
          obind (UMInitializeToEmptyMessage mem UMInitializeToInvalid childDataPtr
                   (GetNumBufferBytesAt (hd chain) childDataPtr) whatCode) (\<lambda>(_, mem, child).
          obind (IncreaseCurrentFieldDataLength mem chain numDataBytes) (\<lambda>(mem, chain).
          Ok (Some (child\<lparr>um_sizeField := Some dataPtr\<rparr>), mem, chain))))))"

subsection \<open>Looking fields up\<close>

text \<open>The one-item cache of a UMessage is updated by the look-up.\<close>

definition GetFieldByName ::
    "u8 list \<Rightarrow> UMessage \<Rightarrow> u8 list \<Rightarrow> u32 \<Rightarrow> (nat option \<times> UMessage) outcome" where
  "GetFieldByName mem msg fieldName typeCode =
     obind (strlen fieldName) (\<lambda>n.
     let fieldNameLen = word_of_nat n + 1;
         search = obind (GetFieldByNameAux mem msg fieldName fieldNameLen typeCode) (\<lambda>r.
           Ok (r, case r of None \<Rightarrow> msg | Some p \<Rightarrow> msg\<lparr>um_readFieldCache := Some p\<rparr>)) in
     case um_readFieldCache msg of
       None \<Rightarrow> search
     | Some rfc \<Rightarrow>
         obind (GetFieldTypePointer mem rfc) (\<lambda>ftptr.
         obind (GetFieldNameLength mem rfc) (\<lambda>nl.
         obind (if nl = fieldNameLen then strcmp_eq fieldName (drop (GetFieldName rfc) mem)
                else Ok False) (\<lambda>hit.
         if hit then
           obind (if typeCode = B_ANY_TYPE then Ok True
                  else obind (GetFieldType mem ftptr) (\<lambda>tc. Ok (typeCode = tc))) (\<lambda>ok.
           Ok (if ok then Some rfc else None, msg))
         else search))))"

text \<open>The loop that counts the sub-Messages of a field; every round moves \<^verbatim>\<open>fdata\<close> forward.\<close>

function CountMessages :: "u8 list \<Rightarrow> nat \<Rightarrow> nat \<Rightarrow> u32 \<Rightarrow> u32 \<Rightarrow> u32 outcome" where
  "CountMessages mem afterLast fdata numBytes ret =
     (if numBytes \<ge> 4 * 2 then
        obind (UMReadInt32 mem fdata) (\<lambda>msgSize.
        obind (UMReadInt32 mem (fdata + 4)) (\<lambda>msgMagic.
        if msgMagic \<noteq> CURRENT_PROTOCOL_VERSION then Ok ret
        else if msgSize < word_of_nat MESSAGE_HEADER_SIZE then Ok ret
        else
          let fdata' = fdata + 4 + unat msgSize; moveBy = 4 + msgSize in
          CountMessages mem afterLast fdata'
            (if fdata' > afterLast then 0 else if numBytes > moveBy then numBytes - moveBy else 0)
            (ret + 1)))
      else Ok ret)"
  by pat_completeness auto
termination
proof (relation "measure (\<lambda>(mem, e, f, n, ret). if n = 0 then 0 else Suc (e + 1 - f))", goal_cases)
  case (2 mem afterLast fdata numBytes ret msgSize msgMagic fdata' moveBy)
  have "numBytes \<noteq> 0" using 2(1) by auto
  then show ?case using 2 by auto
qed simp

declare CountMessages.simps [simp del]

definition GetNumItemsInField :: "u8 list \<Rightarrow> UMessage \<Rightarrow> nat \<Rightarrow> u32 outcome" where
  "GetNumItemsInField mem msg ftptr =
     (let fdata = GetFieldData ftptr in
      obind (GetFieldDataLength mem ftptr) (\<lambda>numBytes.
      obind (GetFieldType mem ftptr) (\<lambda>tc.
      if tc = B_BOOL_TYPE then Ok numBytes
      else if tc = B_DOUBLE_TYPE then Ok (numBytes div 8)
      else if tc = B_FLOAT_TYPE then Ok (numBytes div 4)
      else if tc = B_INT64_TYPE then Ok (numBytes div 8)
      else if tc = B_INT32_TYPE then Ok (numBytes div 4)
      else if tc = B_INT16_TYPE then Ok (numBytes div 2)
      else if tc = B_INT8_TYPE then Ok (numBytes div 1)
      else if tc = B_MESSAGE_TYPE then
        CountMessages mem (buf_addr msg + unat (um_numValidBytes msg)) fdata numBytes 0
      else if tc = B_POINTER_TYPE then Ok (numBytes div 8)
      else if tc = B_POINT_TYPE then Ok (numBytes div 8)
      else if tc = B_RECT_TYPE then Ok (numBytes div 16)
      else if numBytes \<ge> 4 then UMReadInt32 mem fdata else Ok 0)))"

definition UMGetNumItemsInField ::
    "u8 list \<Rightarrow> UMessage \<Rightarrow> u8 list \<Rightarrow> u32 \<Rightarrow> (u32 \<times> UMessage) outcome" where
  "UMGetNumItemsInField mem msg fieldName typeCode =
     obind (GetFieldByName mem msg fieldName typeCode) (\<lambda>(field, msg).
     case field of
       None \<Rightarrow> Ok (0, msg)
     | Some f \<Rightarrow>
         obind (GetFieldTypePointer mem f) (\<lambda>ftptr.
         obind (GetNumItemsInField mem msg ftptr) (\<lambda>n. Ok (n, msg))))"

definition UMGetFieldTypeCode :: "u8 list \<Rightarrow> UMessage \<Rightarrow> u8 list \<Rightarrow> (u32 \<times> UMessage) outcome" where
  "UMGetFieldTypeCode mem msg fieldName =
     obind (GetFieldByName mem msg fieldName B_ANY_TYPE) (\<lambda>(field, msg).
     case field of
       None \<Rightarrow> Ok (B_ANY_TYPE, msg)
     | Some f \<Rightarrow>
         obind (GetFieldTypePointer mem f) (\<lambda>ftptr.
         obind (GetFieldType mem ftptr) (\<lambda>tc. Ok (tc, msg))))"

subsection \<open>Iterating\<close>

definition UMIteratorCurrentFieldMatches ::
    "u8 list \<Rightarrow> UMessageFieldNameIterator \<Rightarrow> bool outcome" where
  "UMIteratorCurrentFieldMatches mem iter =
     (case it_currentField iter of
        None \<Rightarrow> Ok True
      | Some f \<Rightarrow>
          if it_typeCode iter = B_ANY_TYPE then Ok True
          else obind (GetFieldTypePointer mem f) (\<lambda>ftptr.
               obind (UMReadInt32 mem ftptr) (\<lambda>tc. Ok (tc = it_typeCode iter))))"

text \<open>One round of the loop of \<^verbatim>\<open>UMIteratorAdvance\<close>: the next value of \<^verbatim>\<open>_currentField\<close>.\<close>

definition AdvanceField :: "u8 list \<Rightarrow> UMessage \<Rightarrow> nat \<Rightarrow> nat option outcome" where
  "AdvanceField mem msg f =
     obind (GetFieldTypePointer mem f) (\<lambda>ftptr.
     obind (GetFieldDataLength mem ftptr) (\<lambda>fieldDataLen.
     let f' = ftptr + (4 + 4 + unat fieldDataLen) in
     Ok (if f' > buf_addr msg + unat (um_numValidBytes msg) then None
         else if GetNumValidBytesAt msg f' < MINIMUM_FIELD_HEADERS_SIZE then None
         else Some f')))"

lemma AdvanceField_forward:
  "AdvanceField mem msg f = Ok (Some f') \<Longrightarrow>
   f < f' \<and> f' < buf_addr msg + unat (um_numValidBytes msg)"
  by (auto simp: AdvanceField_def obind_eq_Ok GetFieldTypePointer_def GetFieldName_def
      GetNumValidBytesAt_def Let_def MINIMUM_FIELD_HEADERS_SIZE_def split: if_splits)

function UMIteratorAdvance ::
    "u8 list \<Rightarrow> UMessageFieldNameIterator \<Rightarrow> UMessageFieldNameIterator outcome" where
  "UMIteratorAdvance mem iter =
     (case it_currentField iter of
        None \<Rightarrow> Ok iter
      | Some f \<Rightarrow>
          obind (AdvanceField mem (it_message iter) f) (\<lambda>f'.
          let iter' = iter\<lparr>it_currentField := f'\<rparr> in
          obind (UMIteratorCurrentFieldMatches mem iter') (\<lambda>ok.
          if ok then Ok iter' else UMIteratorAdvance mem iter')))"
  by pat_completeness auto
termination
proof (relation "measure (\<lambda>(mem, iter). case it_currentField iter of None \<Rightarrow> 0
    | Some f \<Rightarrow> Suc (buf_addr (it_message iter) + unat (um_numValidBytes (it_message iter)) - f))",
    goal_cases)
  case (2 mem iter f f' iter' ok)
  then show ?case
    by (cases f') (auto dest!: AdvanceField_forward intro!: diff_less_mono2)
qed simp

declare UMIteratorAdvance.simps [simp del]

definition UMIteratorInitialize ::
    "u8 list \<Rightarrow> UMessage \<Rightarrow> u32 \<Rightarrow> UMessageFieldNameIterator outcome" where
  "UMIteratorInitialize mem msg typeCode =
     (let iter = \<lparr>it_message = msg, it_currentField = None, it_typeCode = typeCode\<rparr> in
      if um_numValidBytes msg > word_of_nat MESSAGE_HEADER_SIZE then
        let iter = iter\<lparr>it_currentField := Some (buf_addr msg + MESSAGE_HEADER_SIZE)\<rparr> in
        obind (UMIteratorCurrentFieldMatches mem iter) (\<lambda>ok.
        if ok then Ok iter else UMIteratorAdvance mem iter)
      else Ok iter)"

text \<open>The address of the name, the number of items and the type code; both are asked for.\<close>

definition UMIteratorGetCurrentFieldName ::
    "u8 list \<Rightarrow> UMessageFieldNameIterator \<Rightarrow> (nat \<times> u32 \<times> u32) option outcome" where
  "UMIteratorGetCurrentFieldName mem iter =
     (case it_currentField iter of
        None \<Rightarrow> Ok None
      | Some f \<Rightarrow>
          obind (GetFieldTypePointer mem f) (\<lambda>ftptr.
          obind (GetFieldType mem ftptr) (\<lambda>tc.
          obind (GetNumItemsInField mem (it_message iter) ftptr) (\<lambda>n.
          Ok (Some (GetFieldName f, n, tc))))))"

subsection \<open>Reading items\<close>

text \<open>\<^verbatim>\<open>UMGet*s\<close>: the address of the array and the number of items.\<close>

definition get_items :: "u32 \<Rightarrow> u8 list \<Rightarrow> UMessage \<Rightarrow> u8 list \<Rightarrow> ((nat \<times> u32) option \<times> UMessage) outcome"
where
  "get_items typeCode mem msg fieldName =
     obind (GetFieldByName mem msg fieldName typeCode) (\<lambda>(field, msg).
     case field of
       None \<Rightarrow> Ok (None, msg)
     | Some f \<Rightarrow>
         obind (GetFieldTypePointer mem f) (\<lambda>ftptr.
         obind (GetNumItemsInField mem msg ftptr) (\<lambda>n.
         Ok (Some (GetFieldData ftptr, n), msg))))"

definition UMGetBools where "UMGetBools = get_items B_BOOL_TYPE"
definition UMGetInt8s where "UMGetInt8s = get_items B_INT8_TYPE"
definition UMGetInt16s where "UMGetInt16s = get_items B_INT16_TYPE"
definition UMGetInt32s where "UMGetInt32s = get_items B_INT32_TYPE"
definition UMGetInt64s where "UMGetInt64s = get_items B_INT64_TYPE"
definition UMGetFloats where "UMGetFloats = get_items B_FLOAT_TYPE"
definition UMGetDoubles where "UMGetDoubles = get_items B_DOUBLE_TYPE"
definition UMGetPoints where "UMGetPoints = get_items B_POINT_TYPE"
definition UMGetRects where "UMGetRects = get_items B_RECT_TYPE"

text \<open>
  \<^verbatim>\<open>UMFind*\<close>: the item at an index; None is \<^verbatim>\<open>B_ERROR\<close>.  The result is the bytes of the item as
  they are in the buffer: on a little-endian host, those of the value.
\<close>

definition find_item ::
    "(u8 list \<Rightarrow> UMessage \<Rightarrow> u8 list \<Rightarrow> ((nat \<times> u32) option \<times> UMessage) outcome) \<Rightarrow> nat \<Rightarrow>
     u8 list \<Rightarrow> UMessage \<Rightarrow> u8 list \<Rightarrow> u32 \<Rightarrow> (u8 list option \<times> UMessage) outcome" where
  "find_item getter itemSize mem msg fieldName idx =
     obind (getter mem msg fieldName) (\<lambda>(r, msg).
     case r of
       None \<Rightarrow> Ok (None, msg)
     | Some (b, n) \<Rightarrow>
         if idx \<ge> n then Ok (None, msg)
         else obind (mem_read mem (b + unat idx * itemSize) itemSize) (\<lambda>v. Ok (Some v, msg)))"

definition UMFindBool where "UMFindBool = find_item UMGetBools 1"
definition UMFindInt8 where "UMFindInt8 = find_item UMGetInt8s 1"
definition UMFindInt16 where "UMFindInt16 = find_item UMGetInt16s 2"
definition UMFindInt32 where "UMFindInt32 = find_item UMGetInt32s 4"
definition UMFindInt64 where "UMFindInt64 = find_item UMGetInt64s 8"
definition UMFindFloat where "UMFindFloat = find_item UMGetFloats 4"
definition UMFindDouble where "UMFindDouble = find_item UMGetDoubles 8"
definition UMFindPoint where "UMFindPoint = find_item UMGetPoints 8"
definition UMFindRect where "UMFindRect = find_item UMGetRects 16"

text \<open>
  \<open>afterEndOfField - pointer\<close> is a signed difference that is compared with an unsigned sum: when
  it is negative it counts as a huge number.
\<close>

definition ptr_room :: "nat \<Rightarrow> nat \<Rightarrow> nat" where
  "ptr_room afterEnd ptr = (if ptr \<le> afterEnd then afterEnd - ptr else 2 ^ 64 - (ptr - afterEnd))"

text \<open>The loops that skip \<open>k\<close> items of at least \<open>least\<close> bytes; None is the early return.\<close>

fun skip_items :: "u8 list \<Rightarrow> u32 \<Rightarrow> nat \<Rightarrow> nat \<Rightarrow> nat \<Rightarrow> nat option outcome" where
  "skip_items mem least afterEnd 0 ptr = Ok (Some ptr)"
| "skip_items mem least afterEnd (Suc k) ptr =
     obind (UMReadInt32 mem (ptr - 4)) (\<lambda>itemSize.
     if itemSize < least \<or> unat itemSize + 4 > ptr_room afterEnd ptr then Ok None
     else skip_items mem least afterEnd k (ptr + unat itemSize + 4))"

definition UMGetString ::
    "u8 list \<Rightarrow> UMessage \<Rightarrow> u8 list \<Rightarrow> u32 \<Rightarrow> (nat option \<times> UMessage) outcome" where
  "UMGetString mem msg fieldName idx =
     obind (GetFieldByName mem msg fieldName B_STRING_TYPE) (\<lambda>(field, msg).
     case field of
       None \<Rightarrow> Ok (None, msg)
     | Some f \<Rightarrow>
         obind (GetFieldTypePointer mem f) (\<lambda>ftptr.
         obind (GetNumItemsInField mem msg ftptr) (\<lambda>n.
         if idx \<ge> n then Ok (None, msg)
         else
           obind (GetFieldDataLength mem ftptr) (\<lambda>dl.
           obind (skip_items mem 0 (GetFieldData ftptr + unat dl) (unat idx) (ftptr + 4 * 4)) (\<lambda>p.
           Ok (p, msg))))))"

definition UMFindData ::
    "u8 list \<Rightarrow> UMessage \<Rightarrow> u8 list \<Rightarrow> u32 \<Rightarrow> u32 \<Rightarrow> ((nat \<times> u32) option \<times> UMessage) outcome" where
  "UMFindData mem msg fieldName dataType idx =
     obind (GetFieldByName mem msg fieldName dataType) (\<lambda>(field, msg).
     case field of
       None \<Rightarrow> Ok (None, msg)
     | Some f \<Rightarrow>
         obind (GetFieldTypePointer mem f) (\<lambda>ftptr.
         obind (GetNumItemsInField mem msg ftptr) (\<lambda>n.
         if idx \<ge> n then Ok (None, msg)
         else
           obind (GetFieldDataLength mem ftptr) (\<lambda>dl.
           obind (skip_items mem 0 (GetFieldData ftptr + unat dl) (unat idx) (ftptr + 4 * 4)) (\<lambda>p.
           case p of
             None \<Rightarrow> Ok (None, msg)
           | Some q \<Rightarrow> obind (UMReadInt32 mem (q - 4)) (\<lambda>len. Ok (Some (q, len), msg)))))))"

definition UMFindMessage ::
    "u8 list \<Rightarrow> UMessage \<Rightarrow> u8 list \<Rightarrow> u32 \<Rightarrow> ((status \<times> UMessage option) \<times> UMessage) outcome" where
  "UMFindMessage mem msg fieldName idx =
     obind (GetFieldByName mem msg fieldName B_MESSAGE_TYPE) (\<lambda>(field, msg).
     case field of
       None \<Rightarrow> Ok ((B_ERROR, None), msg)
     | Some f \<Rightarrow>
         obind (GetFieldTypePointer mem f) (\<lambda>ftptr.
         obind (GetFieldDataLength mem ftptr) (\<lambda>dl.
         obind (skip_items mem (word_of_nat MESSAGE_HEADER_SIZE) (GetFieldData ftptr + unat dl)
                  (unat idx) (ftptr + 3 * 4)) (\<lambda>p.
         case p of
           None \<Rightarrow> Ok ((B_ERROR, None), msg)
         | Some q \<Rightarrow>
             obind (UMReadInt32 mem (q - 4)) (\<lambda>len.
             obind (UMInitializeWithExistingData mem q len) (\<lambda>(st, m).
             Ok ((st, Some m), msg)))))))"

end
