(* ===== verification/Micro_Build.thy ===== *)
theory Micro_Build
  imports Micro_Message
begin

section \<open>MicroMessage: building a Message in its buffer\<close>

text \<open>
  The abstract content of a UMessage under construction is its what-code and the list of its
  fields, each a name (with its zero), a type code and the bytes of its data.  \<open>um_rep\<close> relates it
  to the memory: the valid bytes are the flattened format of that content, and the spare bytes of
  the buffer follow.  The operations that add data are the operations of the same name on the
  list: append to the last field, add a new field, or leave everything as it was.
\<close>

type_synonym ufield = "u8 list \<times> u32 \<times> u8 list"

definition ufields_bytes :: "ufield list \<Rightarrow> u8 list" where
  "ufields_bytes fs = concat (map (\<lambda>(nm, tc, p). wire_field nm tc p) fs)"

definition ubytes :: "u32 \<Rightarrow> ufield list \<Rightarrow> u8 list" where
  "ubytes w fs = u32_le CURRENT_PROTOCOL_VERSION @ u32_le w @ u32_le (word_of_nat (length fs))
     @ ufields_bytes fs"

lemma ufields_bytes_simps [simp]:
  "ufields_bytes [] = []" "ufields_bytes ((nm, tc, p) # fs) = wire_field nm tc p @ ufields_bytes fs"
  "ufields_bytes (fs @ gs) = ufields_bytes fs @ ufields_bytes gs"
  by (simp_all add: ufields_bytes_def)

lemma length_ubytes: "length (ubytes w fs) = 12 + length (ufields_bytes fs)"
  by (simp add: ubytes_def)

subsection \<open>Reading and writing at a known place\<close>

lemma UMReadInt32_at [micro_simps]:
  "length A = n \<Longrightarrow> UMReadInt32 (A @ u32_le v @ B) n = Ok v"
  by (simp add: UMReadInt32_def mem_read_def)

lemma UMWriteInt32_at [micro_simps]:
  "length A = n \<Longrightarrow> length old = 4 \<Longrightarrow> UMWriteInt32 (A @ old @ B) n v = Ok (A @ u32_le v @ B)"
  by (simp add: UMWriteInt32_def mem_write_def)

lemma mem_write_mid [micro_simps]:
  "length A = n \<Longrightarrow> length old = length bs \<Longrightarrow> mem_write (A @ old @ B) n bs = Ok (A @ bs @ B)"
  by (simp add: mem_write_def)

lemma field_type_pointer:
  assumes "length nm < 2 ^ 32"
  shows "GetFieldNameLength (A @ wire_field nm tc p @ B) (length A) = Ok (word_of_nat (length nm))"
    "GetFieldTypePointer (A @ wire_field nm tc p @ B) (length A) = Ok (length A + 4 + length nm)"
proof -
  show *: "GetFieldNameLength (A @ wire_field nm tc p @ B) (length A) = Ok (word_of_nat (length nm))"
    by (simp add: GetFieldNameLength_def wire_field_def UMReadInt32_at)
  show "GetFieldTypePointer (A @ wire_field nm tc p @ B) (length A) = Ok (length A + 4 + length nm)"
    using assms by (simp add: GetFieldTypePointer_def * GetFieldName_def unat_word_of_nat_u32)
qed

lemma field_type:
  "GetFieldType (A @ wire_field nm tc p @ B) (length A + 4 + length nm) = Ok tc"
  using UMReadInt32_at [of "A @ u32_le (word_of_nat (length nm)) @ nm" "length A + 4 + length nm" tc]
  by (simp add: GetFieldType_def wire_field_def)

lemma field_data_length:
  "GetFieldDataLength (A @ wire_field nm tc p @ B) (length A + 4 + length nm) = Ok (word_of_nat (length p))"
  using UMReadInt32_at [of "A @ u32_le (word_of_nat (length nm)) @ nm @ u32_le tc"
      "length A + 4 + length nm + 4" "word_of_nat (length p)" "p @ B"]
  by (simp add: GetFieldDataLength_def wire_field_def add.assoc)

text \<open>Growing the last field by the bytes \<open>d\<close> behind it.\<close>

lemma set_field_data_length:
  "SetFieldDataLength (A @ wire_field nm tc p @ d @ B) (length A + 4 + length nm)
     (word_of_nat (length p) + word_of_nat (length d)) = Ok (A @ wire_field nm tc (p @ d) @ B)"
  using UMWriteInt32_at [of "A @ u32_le (word_of_nat (length nm)) @ nm @ u32_le tc"
      "length A + 4 + length nm + 4" "u32_le (word_of_nat (length p))" "p @ d @ B"
      "word_of_nat (length p) + word_of_nat (length d)"]
  by (simp add: SetFieldDataLength_def wire_field_def add.assoc)

lemmas field_reads = field_type_pointer field_type field_data_length

subsection \<open>The representation\<close>

definition wf_ufield :: "ufield \<Rightarrow> bool" where
  "wf_ufield f = (case f of (nm, tc, p) \<Rightarrow> wf_name nm)"

definition um_view :: "u8 list \<Rightarrow> UMessage \<Rightarrow> u8 list \<Rightarrow> u32 \<Rightarrow> ufield list \<Rightarrow> u8 list \<Rightarrow> u8 list \<Rightarrow> bool" where
  "um_view mem msg pre w fs spare post \<longleftrightarrow>
     mem = pre @ ubytes w fs @ spare @ post
     \<and> um_buffer msg = Some (length pre)
     \<and> unat (um_numValidBytes msg) = length (ubytes w fs)
     \<and> unat (um_bufferSize msg) = length (ubytes w fs) + length spare
     \<and> list_all wf_ufield fs"

text \<open>A UMessage that can be added to points to its last field as well.\<close>

definition um_rep :: "u8 list \<Rightarrow> UMessage \<Rightarrow> u8 list \<Rightarrow> u32 \<Rightarrow> ufield list \<Rightarrow> u8 list \<Rightarrow> u8 list \<Rightarrow> bool" where
  "um_rep mem msg pre w fs spare post \<longleftrightarrow>
     um_view mem msg pre w fs spare post
     \<and> um_currentAddField msg =
         (if fs = [] then None else Some (length pre + 12 + length (ufields_bytes (butlast fs))))"

lemma um_rep_view: "um_rep mem msg pre w fs spare post \<Longrightarrow> um_view mem msg pre w fs spare post"
  by (simp add: um_rep_def um_view_def)

definition can_add :: "UMessage \<Rightarrow> bool" where
  "can_add msg \<longleftrightarrow> \<not> um_isReadOnly msg \<and> um_sizeField msg = None"

lemma um_view_addr: "um_view mem msg pre w fs spare post \<Longrightarrow> buf_addr msg = length pre"
  by (simp add: um_view_def buf_addr_def)

lemmas um_rep_addr = um_view_addr [OF um_rep_view]

lemma um_view_len:
  "um_view mem msg pre w fs spare post \<Longrightarrow> length (ubytes w fs) + length spare < 2 ^ 32"
  using unat_u32_less [of "um_bufferSize msg"] by (simp add: um_view_def)

lemmas um_rep_len = um_view_len [OF um_rep_view]

lemma um_rep_spare:
  assumes "um_rep mem msg pre w fs spare post"
  shows "unat (GetNumBufferBytesAt msg (length pre + length (ubytes w fs))) = length spare"
    "unat (GetNumRemainingSpareBufferBytes msg) = length spare"
proof -
  show *: "unat (GetNumBufferBytesAt msg (length pre + length (ubytes w fs))) = length spare"
    using assms um_rep_len [OF assms] um_rep_addr [OF assms]
    by (auto simp: GetNumBufferBytesAt_def um_rep_def um_view_def Let_def unat_word_of_nat_u32)
  then show "unat (GetNumRemainingSpareBufferBytes msg) = length spare"
    using assms um_rep_addr [OF assms]
    by (simp add: GetNumRemainingSpareBufferBytes_def um_rep_def um_view_def)
qed

text \<open>The bytes of a field that is one of several.\<close>

lemma um_view_field:
  assumes "um_view mem msg pre w (gs @ (nm, tc, p) # hs) spare post"
  obtains A B where "mem = A @ wire_field nm tc p @ B"
    "length A = length pre + 12 + length (ufields_bytes gs)" "B = ufields_bytes hs @ spare @ post"
    "length nm < 2 ^ 32" "length p < 2 ^ 32" "wf_name nm"
proof
  let ?A = "pre @ u32_le CURRENT_PROTOCOL_VERSION @ u32_le w
      @ u32_le (word_of_nat (length (gs @ (nm, tc, p) # hs))) @ ufields_bytes gs"
  show "mem = ?A @ wire_field nm tc p @ ufields_bytes hs @ spare @ post"
    using assms by (simp add: um_view_def ubytes_def)
  show "length nm < 2 ^ 32" "length p < 2 ^ 32"
    using um_view_len [OF assms] by (simp_all add: ubytes_def wire_field_def)
  show "wf_name nm" using assms by (simp add: um_view_def wf_ufield_def)
qed simp_all

lemmas um_rep_field = um_view_field [OF um_rep_view]

subsection \<open>Finding a field by name\<close>

text \<open>
  \<open>IsFieldPointerValid\<close> asks for at least one byte behind the header of a field, so an empty last
  field is not seen.
\<close>

definition visible :: "ufield list \<Rightarrow> ufield list" where
  "visible fs = (if fs \<noteq> [] \<and> snd (snd (last fs)) = [] then butlast fs else fs)"

fun first_field :: "u8 list \<Rightarrow> u32 \<Rightarrow> nat \<Rightarrow> ufield list \<Rightarrow> nat option" where
  "first_field nm tc off [] = None"
| "first_field nm tc off ((n, t, p) # fs) =
     (if (tc = B_ANY_TYPE \<or> tc = t) \<and> n = nm then Some off
      else first_field nm tc (off + length (wire_field n t p)) fs)"

lemma visible_Cons:
  "visible (f # fs) = (if fs = [] \<and> snd (snd f) = [] then [] else f # visible fs)"
  by (auto simp: visible_def)

lemma valid_bytes_at: "unat (GetNumValidBytesAt msg (buf_addr msg + k)) = unat (um_numValidBytes msg) - k"
proof (cases "k < unat (um_numValidBytes msg)")
  case True
  have "unat (um_numValidBytes msg) - k < 2 ^ 32" using unat_u32_less [of "um_numValidBytes msg"] by simp
  then have "unat (word_of_nat (unat (um_numValidBytes msg) - k) :: u32) = unat (um_numValidBytes msg) - k"
    by (rule unat_word_of_nat_u32)
  with True show ?thesis by (simp add: GetNumValidBytesAt_def Let_def del: of_nat_diff)
qed (simp add: GetNumValidBytesAt_def Let_def)

lemma buffer_bytes_at: "unat (GetNumBufferBytesAt msg (buf_addr msg + k)) = unat (um_bufferSize msg) - k"
  using valid_bytes_at [of "msg\<lparr>um_numValidBytes := um_bufferSize msg\<rparr>" k]
  by (simp add: GetNumBufferBytesAt_def GetNumValidBytesAt_def buf_addr_def)

lemma view_valid_at_field:
  assumes rep: "um_view mem msg pre w (gs @ (nm, tc, p) # hs) spare post"
  shows "IsFieldPointerValid mem msg (length pre + 12 + length (ufields_bytes gs)) =
    Ok (p \<noteq> [] \<or> hs \<noteq> [])"
proof -
  obtain A B where m: "mem = A @ wire_field nm tc p @ B"
    and A: "length A = length pre + 12 + length (ufields_bytes gs)"
    and nm: "length nm < 2 ^ 32"
    using um_view_field [OF rep] by metis
  let ?n = "length (ufields_bytes gs)" and ?e = "length p + length (ufields_bytes hs)"
  have v: "unat (um_numValidBytes msg) = 12 + ?n + (12 + length nm + ?e)"
    using rep by (simp add: um_view_def length_ubytes length_wire_field)
  have at: "unat (GetNumValidBytesAt msg (length pre + k)) = 12 + ?n + (12 + length nm + ?e) - k" for k
    using valid_bytes_at [of msg k] v um_view_addr [OF rep] by simp
  have 1: "GetNumValidBytesAt msg (length A) \<ge> MINIMUM_FIELD_HEADERS_SIZE"
    using at [of "12 + ?n"] by (simp add: A word_le_nat_alt MINIMUM_FIELD_HEADERS_SIZE_def add.assoc)
  have 2: "GetNumValidBytesAt msg (length A + 4 + length nm) \<ge> 4 + 4"
    using at [of "12 + ?n + 4 + length nm"] by (simp add: A word_le_nat_alt add.assoc)
  have 3: "GetNumValidBytesAt msg (GetFieldData (length A + 4 + length nm)) > 0 \<longleftrightarrow> 0 < ?e"
    using at [of "12 + ?n + 4 + length nm + 8"]
    by (simp add: A word_less_nat_alt GetFieldData_def add.assoc)
  have 4: "0 < ?e \<longleftrightarrow> p \<noteq> [] \<or> hs \<noteq> []"
    by (cases hs) (auto simp: wire_field_def)
  show ?thesis
    unfolding A [symmetric]
    using 1 2 3 4 field_type_pointer(2) [OF nm, of A tc p B] m
    by (simp add: IsFieldPointerValid_def)
qed

lemma view_invalid_at_end:
  assumes rep: "um_view mem msg pre w fs spare post"
  shows "IsFieldPointerValid mem msg (length pre + length (ubytes w fs)) = Ok False"
  using rep um_view_addr [OF rep]
  by (simp add: IsFieldPointerValid_def GetNumValidBytesAt_def um_view_def Let_def
      MINIMUM_FIELD_HEADERS_SIZE_def)

lemma cstr_wf_eq: "wf_name nm \<Longrightarrow> wf_name nm' \<Longrightarrow> cstr nm = cstr nm' \<longleftrightarrow> nm = nm'"
  using wf_name_cstr by metis

lemma GetFieldByNameLoop_view:
  assumes rep: "um_view mem msg pre w (gs @ fs) spare post" and nm: "wf_name nm" "length nm < 2 ^ 32"
    and fn: "is_cstr fn" "cstr fn @ [0] = nm"
  shows "GetFieldByNameLoop mem msg fn (word_of_nat (length nm)) tc
      (length pre + 12 + length (ufields_bytes gs)) =
    Ok (first_field nm tc (length pre + 12 + length (ufields_bytes gs)) (visible fs))"
  using rep
proof (induction fs arbitrary: gs)
  case Nil
  then show ?case
    using view_invalid_at_end [OF Nil(1)]
    by (subst GetFieldByNameLoop.simps) (simp add: length_ubytes visible_def add.assoc)
next
  case (Cons f fs)
  obtain n t p where f: "f = (n, t, p)" by (cases f)
  note rep = Cons.prems [unfolded f]
  obtain A B where m: "mem = A @ wire_field n t p @ B"
    and A: "length A = length pre + 12 + length (ufields_bytes gs)"
    and n: "length n < 2 ^ 32" "wf_name n" and p: "length p < 2 ^ 32"
    using um_view_field [OF rep] by metis
  note r = field_reads(1,2) [OF n(1), of A t p B, folded m] field_reads(3) [of A n t p B, folded m]
    field_reads(4) [of A n t p B, folded m]
  note val = view_valid_at_field [OF rep, folded A]
  have rep': "um_view mem msg pre w ((gs @ [(n, t, p)]) @ fs) spare post" using rep by simp
  have nx: "GetFieldData (length A + 4 + length n) + unat (word_of_nat (length p) :: u32) =
      length pre + 12 + length (ufields_bytes (gs @ [(n, t, p)]))"
    using p A by (simp add: GetFieldData_def length_wire_field unat_word_of_nat_u32)
  have len: "word_of_nat (length n) = (word_of_nat (length nm) :: u32) \<longleftrightarrow> length n = length nm"
    using n(1) nm(2) by (metis unat_word_of_nat_u32)
  have "drop (GetFieldName (length A)) mem = n @ u32_le t @ u32_le (word_of_nat (length p)) @ p @ B"
    unfolding m by (simp add: GetFieldName_def wire_field_def)
  moreover have "is_cstr n" "n = cstr n @ [0]" using wf_name_cstr [OF n(2)] by simp_all
  ultimately have cmp: "strcmp_eq (drop (GetFieldName (length A)) mem) fn = Ok (n = nm)"
    using fn by (simp add: strcmp_eq_cstr cstr_prefix) (metis append1_eq_conv)
  show ?case
  proof (cases "p \<noteq> [] \<or> fs \<noteq> []")
    case False
    then show ?thesis
      using val unfolding A [symmetric] by (subst GetFieldByNameLoop.simps) (simp add: visible_def f)
  next
    case True
    have c: "(if (tc = B_ANY_TYPE \<or> tc = t) \<and> word_of_nat (length n) = (word_of_nat (length nm) :: u32)
        then strcmp_eq (drop (GetFieldName (length A)) mem) fn else Ok False) =
        Ok ((tc = B_ANY_TYPE \<or> tc = t) \<and> n = nm)"
      using len cmp by auto
    have "GetFieldByNameLoop mem msg fn (word_of_nat (length nm)) tc (length A) =
        (if (tc = B_ANY_TYPE \<or> tc = t) \<and> n = nm then Ok (Some (length A))
         else GetFieldByNameLoop mem msg fn (word_of_nat (length nm)) tc
           (length pre + 12 + length (ufields_bytes (gs @ [(n, t, p)]))))"
      using val True unfolding nx [symmetric]
      by (subst GetFieldByNameLoop.simps) (simp add: r c)
    also have "\<dots> = Ok (first_field nm tc (length A) (visible (f # fs)))"
      using Cons.IH [OF rep'] True f A by (auto simp: visible_Cons add.assoc)
    finally show ?thesis unfolding A [symmetric] .
  qed
qed

lemma GetFieldByNameAux_view:
  assumes "um_view mem msg pre w fs spare post" "wf_name nm" "length nm < 2 ^ 32"
    and "is_cstr fn" "cstr fn @ [0] = nm"
  shows "GetFieldByNameAux mem msg fn (word_of_nat (length nm)) tc =
    Ok (first_field nm tc (length pre + 12) (visible fs))"
  using GetFieldByNameLoop_view [of mem msg pre w "[]" fs spare post, OF _ assms(2-5)] assms(1)
    um_view_addr [OF assms(1)]
  by (simp add: GetFieldByNameAux_def MESSAGE_HEADER_SIZE_def)

lemmas GetFieldByNameAux_rep = GetFieldByNameAux_view [OF um_rep_view]

subsection \<open>Getting the place for new data\<close>

text \<open>
  What an addition of the bytes \<open>d\<close> to the field \<open>nm\<close> with the type \<open>tc\<close> does to the content:
  \<open>hdr\<close> are the extra header bytes of a new field and \<open>upd\<close> is how the header of the field's data
  changes.
\<close>

definition continues :: "ufield list \<Rightarrow> u8 list \<Rightarrow> u32 \<Rightarrow> bool" where
  "continues fs nm tc \<longleftrightarrow> fs \<noteq> [] \<and> fst (last fs) = nm \<and> fst (snd (last fs)) = tc"

definition added :: "bool \<Rightarrow> nat \<Rightarrow> ufield list \<Rightarrow> u8 list \<Rightarrow> u32 \<Rightarrow> u8 list \<Rightarrow> (u8 list \<Rightarrow> u8 list) \<Rightarrow>
    u8 list \<Rightarrow> ufield list option" where
  "added enforce space fs nm tc hdr upd d =
     (if continues fs nm tc then
        (if length d \<le> space then Some (butlast fs @ [(nm, tc, upd (snd (snd (last fs))) @ d)]) else None)
      else if enforce \<and> nm \<in> fst ` set (visible fs) then None
      else if 12 + length nm + length hdr + length d \<le> space
      then Some (fs @ [(nm, tc, upd hdr @ d)]) else None)"

lemma first_field_None: "first_field nm B_ANY_TYPE off fs = None \<longleftrightarrow> nm \<notin> fst ` set fs"
  by (induction fs arbitrary: off) (auto split: if_splits, force)

lemma split_length: "n \<le> length xs \<Longrightarrow> \<exists>a b. xs = a @ b \<and> length a = n"
  by (metis append_take_drop_id length_take min_absorb2)

lemma um_rep_spare_change:
  "um_rep mem msg pre w fs spare post \<Longrightarrow> length spare' = length spare \<Longrightarrow>
   um_rep (pre @ ubytes w fs @ spare' @ post) msg pre w fs spare' post"
  by (simp add: um_rep_def um_view_def)

lemma GetOrAdd_append:
  assumes rep: "um_rep mem msg pre w (gs @ [(nm, tc, p)]) spare post" and can: "can_add msg"
    and fn: "is_cstr fn" "cstr fn @ [0] = nm"
  shows "GetOrAddFieldDataPointer enforce mem [msg] fn tc needed hdrSize =
    Ok (if unat needed \<le> length spare
        then Some (length pre + length (ubytes w (gs @ [(nm, tc, p)])),
                   length pre + length (ubytes w (gs @ [(nm, tc, p)])) - length p) else None, mem, [msg])"
proof -
  obtain A B where m: "mem = A @ wire_field nm tc p @ B"
    and A: "length A = length pre + 12 + length (ufields_bytes gs)"
    and nm: "length nm < 2 ^ 32" and p: "length p < 2 ^ 32" and wn: "wf_name nm"
    using um_rep_field [OF rep] by metis
  note r = field_reads(1,2) [OF nm, of A tc p B, folded m] field_reads(3) [of A nm tc p B, folded m]
    field_reads(4) [of A nm tc p B, folded m]
  have cur: "um_currentAddField msg = Some (length A)" using rep A by (simp add: um_rep_def um_view_def)
  have len: "word_of_nat (length (cstr fn)) + 1 = (word_of_nat (length nm) :: u32)"
    using fn(2) [symmetric] by simp
  have "drop (GetFieldName (length A)) mem = nm @ u32_le tc @ u32_le (word_of_nat (length p)) @ p @ B"
    unfolding m by (simp add: GetFieldName_def wire_field_def)
  then have cmp: "strcmp_eq (drop (GetFieldName (length A)) mem) fn = Ok True"
    using fn wf_name_cstr [OF wn] by (simp add: strcmp_eq_cstr cstr_prefix) (metis append1_eq_conv)
  have fd: "GetFieldData (length A + 4 + length nm) + length p = length pre + length (ubytes w (gs @ [(nm, tc, p)]))"
    "GetFieldData (length A + 4 + length nm) = length pre + length (ubytes w (gs @ [(nm, tc, p)])) - length p"
    using A by (simp_all add: GetFieldData_def length_ubytes length_wire_field)
  have sp: "GetNumBufferBytesAt msg (length pre + length (ubytes w (gs @ [(nm, tc, p)]))) \<ge> needed
      \<longleftrightarrow> unat needed \<le> length spare"
    using um_rep_spare(1) [OF rep] by (simp add: word_le_nat_alt)
  show ?thesis
    using can sp p fd
    by (simp add: can_add_def cur strlen_cstr [OF fn(1)] r len cmp Let_def unat_word_of_nat_u32)
qed

lemma ubytes_snoc:
  "ubytes w (fs @ [(nm, tc, p)]) = u32_le CURRENT_PROTOCOL_VERSION @ u32_le w
     @ u32_le (word_of_nat (length fs) + 1) @ ufields_bytes fs @ wire_field nm tc p"
  by (simp add: ubytes_def add.commute)

lemma GetOrAdd_new_field:
  assumes rep: "um_rep mem msg pre w fs spare post" and can: "can_add msg"
    and fn: "is_cstr fn" "cstr fn @ [0] = nm"
    and fits: "12 + length nm + unat hdrSize + unat needed < 2 ^ 32"
  shows "add_new_field mem msg [] fn (word_of_nat (length nm)) tc needed hdrSize =
    (if 12 + length nm + unat hdrSize + unat needed \<le> length spare
     then let bytes = ubytes w (fs @ [(nm, tc, replicate (unat hdrSize) 0)]) in
       Ok (Some (length pre + length bytes, length pre + length bytes - unat hdrSize),
           pre @ bytes @ drop (12 + length nm + unat hdrSize) spare @ post,
           [msg\<lparr>um_currentAddField := Some (length pre + length (ubytes w fs)),
                um_numValidBytes := word_of_nat (length bytes)\<rparr>])
     else Ok (None, mem, [msg]))"
proof -
  let ?nl = "word_of_nat (length nm) :: u32"
  have nl: "unat ?nl = length nm" using fits by (intro unat_word_of_nat_u32) simp
  have req: "unat (4 + ?nl + 4 + 4 + hdrSize + needed) = 12 + length nm + unat hdrSize + unat needed"
    using fits nl by (simp add: unat_word_ariths)
  have lt: "GetNumRemainingSpareBufferBytes msg < 4 + ?nl + 4 + 4 + hdrSize + needed \<longleftrightarrow>
      \<not> 12 + length nm + unat hdrSize + unat needed \<le> length spare"
    using um_rep_spare(2) [OF rep] req by (auto simp: word_less_nat_alt)
  show ?thesis
  proof (cases "12 + length nm + unat hdrSize + unat needed \<le> length spare")
    case False
    then show ?thesis using lt by (simp add: add_new_field_def)
  next
    case True
    let ?h = "unat hdrSize"
    obtain s0 r0 where s0: "spare = s0 @ r0" "length s0 = 4" using True split_length [of 4 spare] by auto
    obtain s1 r1 where s1: "r0 = s1 @ r1" "length s1 = length nm"
      using True s0 split_length [of "length nm" r0] by auto
    obtain s2 r2 where s2: "r1 = s2 @ r2" "length s2 = 4" using True s0 s1 split_length [of 4 r1] by auto
    obtain s3 r3 where s3: "r2 = s3 @ r3" "length s3 = 4" using True s0 s1 s2 split_length [of 4 r2] by auto
    obtain s4 s5 where s4: "r3 = s4 @ s5" "length s4 = ?h"
      using True s0 s1 s2 s3 split_length [of ?h r3] by auto
    let ?H = "u32_le CURRENT_PROTOCOL_VERSION @ u32_le w" and ?n = "word_of_nat (length fs) :: u32"
    let ?F = "ufields_bytes fs" and ?a = "length pre" and ?z = "replicate ?h (0 :: u8)"
    let ?c = "?a + (12 + length ?F)"
    have m: "mem = (pre @ ?H @ u32_le ?n @ ?F) @ s0 @ s1 @ s2 @ s3 @ s4 @ s5 @ post"
      using rep s0 s1 s2 s3 s4 by (simp add: um_rep_def um_view_def ubytes_def)
    have ad: "buf_addr msg = ?a" "unat (um_numValidBytes msg) = 12 + length ?F"
      using rep um_rep_addr [OF rep] by (simp_all add: um_rep_def um_view_def length_ubytes)
    have nmr: "mem_read fn 0 (length nm) = Ok nm"
    proof -
      have "length nm = Suc (length (cstr fn))" unfolding fn(2) [symmetric] by simp
      then have "take (length nm) fn = nm" using take_cstr [OF fn(1)] fn(2) by simp
      moreover have "length nm \<le> length fn" using calculation by (metis length_take min.cobounded1)
      ultimately show ?thesis by (simp add: mem_read_def)
    qed
    have w1: "UMWriteInt32 mem ?c ?nl =
        Ok ((pre @ ?H @ u32_le ?n @ ?F @ u32_le ?nl) @ s1 @ s2 @ s3 @ s4 @ s5 @ post)"
      unfolding m by (subst UMWriteInt32_at) (simp_all add: s0)
    have w2: "mem_write ((pre @ ?H @ u32_le ?n @ ?F @ u32_le ?nl) @ s1 @ s2 @ s3 @ s4 @ s5 @ post) (?c + 4) nm =
        Ok ((pre @ ?H @ u32_le ?n @ ?F @ u32_le ?nl @ nm) @ s2 @ s3 @ s4 @ s5 @ post)"
      by (subst mem_write_mid) (simp_all add: s1)
    have w3: "UMWriteInt32 ((pre @ ?H @ u32_le ?n @ ?F @ u32_le ?nl @ nm) @ s2 @ s3 @ s4 @ s5 @ post)
          (?c + 4 + length nm) tc =
        Ok ((pre @ ?H @ u32_le ?n @ ?F @ u32_le ?nl @ nm @ u32_le tc) @ s3 @ s4 @ s5 @ post)"
      by (subst UMWriteInt32_at) (simp_all add: s2)
    have w4: "UMWriteInt32 ((pre @ ?H @ u32_le ?n @ ?F @ u32_le ?nl @ nm @ u32_le tc) @ s3 @ s4 @ s5 @ post)
          (?c + 4 + length nm + 4) hdrSize =
        Ok ((pre @ ?H @ u32_le ?n @ ?F @ u32_le ?nl @ nm @ u32_le tc @ u32_le hdrSize) @ s4 @ s5 @ post)"
      by (subst UMWriteInt32_at) (simp_all add: s3)
    have w5: "mem_write ((pre @ ?H @ u32_le ?n @ ?F @ u32_le ?nl @ nm @ u32_le tc @ u32_le hdrSize) @ s4 @ s5 @ post)
          (?c + 4 + length nm + 4 + 4) ?z =
        Ok ((pre @ ?H) @ u32_le ?n @ (?F @ wire_field nm tc ?z @ s5 @ post))"
      by (subst mem_write_mid) (simp_all add: s4 wire_field_def)
    define msg' where "msg' = msg\<lparr>um_currentAddField := Some ?c,
        um_numValidBytes := word_of_nat (?c + 4 + length nm + 4 + 4 + ?h - ?a)\<rparr>"
    have sf: "um_sizeField msg' = None" using can by (simp add: msg'_def can_add_def)
    have lenB: "?c + 4 + length nm + 4 + 4 + ?h - ?a = length (ubytes w (fs @ [(nm, tc, ?z)]))"
      by (simp add: ubytes_snoc length_wire_field)
    have "unat (um_numValidBytes msg') = length (ubytes w (fs @ [(nm, tc, ?z)]))"
      unfolding msg'_def lenB using um_rep_len [OF rep] True
      by (simp add: length_ubytes length_wire_field unat_word_of_nat_u32 del: of_nat_add)
    moreover have "12 \<le> length (ubytes w (fs @ [(nm, tc, ?z)]))" by (simp add: length_ubytes)
    moreover have "buf_addr msg' = ?a" using ad(1) by (simp add: msg'_def buf_addr_def)
    ultimately have vb: "GetNumValidBytesAt msg' (?a + 2 * 4) \<ge> 4"
      using valid_bytes_at [of msg' "2 * 4"] by (simp add: word_le_nat_alt)
    have bb: "\<not> GetNumBufferBytesAt msg' (?a + 2 * 4) < 4"
      using buffer_bytes_at [of msg' "2 * 4"] rep ad(1)
      by (simp add: msg'_def buf_addr_def um_rep_def um_view_def length_ubytes word_less_nat_alt)
    have gn: "UMGetNumFields ((pre @ ?H) @ u32_le ?n @ (?F @ wire_field nm tc ?z @ s5 @ post)) msg' = Ok ?n"
      using vb ad(1) UMReadInt32_at [of "pre @ ?H" "?a + 2 * 4" ?n]
      by (simp add: UMGetNumFields_def UMReadInt32AtOffset_def msg'_def buf_addr_def Let_def)
    have sn: "UMSetNumFields ((pre @ ?H) @ u32_le ?n @ (?F @ wire_field nm tc ?z @ s5 @ post)) msg' (?n + 1) =
        Ok (B_NO_ERROR, (pre @ ?H) @ u32_le (?n + 1) @ (?F @ wire_field nm tc ?z @ s5 @ post))"
      using bb ad(1) UMWriteInt32_at [of "pre @ ?H" "?a + 2 * 4" "u32_le ?n"]
      by (simp add: UMSetNumFields_def UMWriteInt32AtOffset_def msg'_def buf_addr_def Let_def)
    have ip: "IncreaseParentValidBytesBy M msg' [] k = Ok (M, [])" for M k
      using sf by (simp add: IncreaseParentValidBytesBy_def bump_size_field_def)
    have d5: "drop (12 + length nm + ?h) spare = s5" using s0 s1 s2 s3 s4 by simp
    have nz: "\<not> GetNumRemainingSpareBufferBytes msg < 4 + ?nl + 4 + 4 + hdrSize + needed"
      using lt True by simp
    have "add_new_field mem msg [] fn ?nl tc needed hdrSize =
        Ok (Some (?c + 4 + length nm + 4 + 4 + ?h, ?c + 4 + length nm + 4 + 4),
            (pre @ ?H) @ u32_le (?n + 1) @ (?F @ wire_field nm tc ?z @ s5 @ post), [msg'])"
      unfolding add_new_field_def Let_def if_not_P [OF nz] nl ad
      by (simp only: w1 w2 w3 w4 w5 nmr obind_simps msg'_def [symmetric] ip gn sn fst_conv snd_conv)
    then show ?thesis
      using True lenB d5
      by (simp add: Let_def ubytes_snoc msg'_def length_wire_field length_ubytes)
  qed
qed

lemma um_rep_new:
  assumes rep: "um_rep mem msg pre w fs spare post" and nm: "wf_name nm"
    and fits: "12 + length nm + length hdr \<le> length spare"
  shows "um_rep (pre @ ubytes w (fs @ [(nm, tc, hdr)]) @ drop (12 + length nm + length hdr) spare @ post)
    (msg\<lparr>um_currentAddField := Some (length pre + length (ubytes w fs)),
         um_numValidBytes := word_of_nat (length (ubytes w (fs @ [(nm, tc, hdr)])))\<rparr>)
    pre w (fs @ [(nm, tc, hdr)]) (drop (12 + length nm + length hdr) spare) post"
proof -
  have l: "length (ubytes w (fs @ [(nm, tc, hdr)])) = length (ubytes w fs) + (12 + length nm + length hdr)"
    by (simp add: length_ubytes length_wire_field)
  have "length (ubytes w (fs @ [(nm, tc, hdr)])) < 2 ^ 32"
    using um_rep_len [OF rep] fits unfolding l by simp
  then have "unat (word_of_nat (length (ubytes w (fs @ [(nm, tc, hdr)]))) :: u32) =
      length (ubytes w (fs @ [(nm, tc, hdr)]))" by (rule unat_word_of_nat_u32)
  then show ?thesis
    using rep nm fits l by (simp add: um_rep_def um_view_def wf_ufield_def length_ubytes)
qed

lemma GetOrAdd_cases:
  assumes rep: "um_rep mem msg pre w fs spare post" and can: "can_add msg"
    and fn: "is_cstr fn" "cstr fn @ [0] = nm"
    and sz: "unat needed = length d" "hdr = replicate (unat hdrSize) 0"
    and fits: "12 + length nm + length hdr + length d < 2 ^ 32"
  obtains
    (refused) "added enforce (length spare) fs nm tc hdr upd d = None"
      "GetOrAddFieldDataPointer enforce mem [msg] fn tc needed hdrSize = Ok (None, mem, [msg])"
  | (granted) gs p spare1 msg1 where
      "added enforce (length spare) fs nm tc hdr upd d = Some (gs @ [(nm, tc, upd p @ d)])"
      "length d \<le> length spare1"
      "GetOrAddFieldDataPointer enforce mem [msg] fn tc needed hdrSize =
        Ok (Some (length pre + length (ubytes w (gs @ [(nm, tc, p)])),
                  length pre + length (ubytes w (gs @ [(nm, tc, p)])) - length p),
            pre @ ubytes w (gs @ [(nm, tc, p)]) @ spare1 @ post, [msg1])"
      "um_rep (pre @ ubytes w (gs @ [(nm, tc, p)]) @ spare1 @ post) msg1 pre w (gs @ [(nm, tc, p)]) spare1 post"
      "can_add msg1" "p = hdr \<or> fs = gs @ [(nm, tc, p)]"
      "um_bufferSize msg1 = um_bufferSize msg"
proof (cases "continues fs nm tc")
  case True
  then obtain gs p where fs: "fs = gs @ [(nm, tc, p)]"
    unfolding continues_def by (metis append_butlast_last_id prod.collapse)
  note g = GetOrAdd_append [OF rep [unfolded fs] can fn, of enforce needed hdrSize]
  have m: "mem = pre @ ubytes w (gs @ [(nm, tc, p)]) @ spare @ post" using rep fs by (simp add: um_rep_def um_view_def)
  show thesis
  proof (cases "length d \<le> length spare")
    case True
    then show thesis
      using granted [of gs p spare msg] g sz rep fs can m by (simp add: added_def continues_def)
  next
    case False
    then show thesis using refused g sz fs by (simp add: added_def continues_def)
  qed
next
  case False
  have wn: "wf_name nm" using fn(2) zero_notin_cstr wf_name_append_zero by metis
  have nm32: "length nm < 2 ^ 32" using fits by simp
  have len: "word_of_nat (length (cstr fn)) + 1 = (word_of_nat (length nm) :: u32)"
    using fn(2) [symmetric] by simp
  have dup: "GetFieldByNameAux mem msg fn (word_of_nat (length nm)) B_ANY_TYPE =
      Ok (first_field nm B_ANY_TYPE (length pre + 12) (visible fs))"
    by (rule GetFieldByNameAux_rep [OF rep wn nm32 fn])
  have new: "GetOrAddFieldDataPointer enforce mem [msg] fn tc needed hdrSize =
      (if enforce \<and> nm \<in> fst ` set (visible fs) then Ok (None, mem, [msg])
       else add_new_field mem msg [] fn (word_of_nat (length nm)) tc needed hdrSize)"
  proof (cases fs rule: rev_cases)
    case Nil
    then have "um_currentAddField msg = None" using rep by (simp add: um_rep_def um_view_def)
    with Nil can show ?thesis
      by (simp add: can_add_def strlen_cstr [OF fn(1)] Let_def len visible_def)
  next
    case (snoc gs f)
    obtain n t p where f: "f = (n, t, p)" by (cases f)
    obtain A B where m: "mem = A @ wire_field n t p @ B"
      and A: "length A = length pre + 12 + length (ufields_bytes gs)"
      and n: "length n < 2 ^ 32" and wn': "wf_name n"
      using um_rep_field [OF rep [unfolded snoc f]] by metis
    note r = field_reads(1,2) [OF n, of A t p B, folded m] field_reads(3) [of A n t p B, folded m]
      field_reads(4) [of A n t p B, folded m]
    have cur: "um_currentAddField msg = Some (length A)" using rep A snoc by (simp add: um_rep_def um_view_def)
    have l: "word_of_nat (length n) = (word_of_nat (length nm) :: u32) \<longleftrightarrow> length n = length nm"
      using n nm32 by (metis unat_word_of_nat_u32)
    have "drop (GetFieldName (length A)) mem = n @ u32_le t @ u32_le (word_of_nat (length p)) @ p @ B"
      unfolding m by (simp add: GetFieldName_def wire_field_def)
    then have "strcmp_eq (drop (GetFieldName (length A)) mem) fn = Ok (n = nm)"
      using fn wf_name_cstr [OF wn'] by (simp add: strcmp_eq_cstr cstr_prefix) (metis append1_eq_conv)
    then have c: "(if t = tc \<and> word_of_nat (length n) = (word_of_nat (length nm) :: u32)
        then strcmp_eq (drop (GetFieldName (length A)) mem) fn else Ok False) = Ok False"
      using False l snoc f by (auto simp: continues_def)
    show ?thesis
    proof (cases enforce)
      case True
      show ?thesis
      proof (cases "nm \<in> fst ` set (visible fs)")
        case True
        with \<open>enforce\<close> obtain y where "first_field nm B_ANY_TYPE (length pre + 12) (visible fs) = Some y"
          using first_field_None [of nm "length pre + 12" "visible fs"] by auto
        with \<open>enforce\<close> True show ?thesis
          using can dup by (simp add: can_add_def strlen_cstr [OF fn(1)] Let_def len cur r c)
      next
        case False
        then have "first_field nm B_ANY_TYPE (length pre + 12) (visible fs) = None"
          by (simp add: first_field_None)
        with False show ?thesis
          using can dup by (simp add: can_add_def strlen_cstr [OF fn(1)] Let_def len cur r c)
      qed
    next
      case False
      then show ?thesis
        using can by (simp add: can_add_def strlen_cstr [OF fn(1)] Let_def len cur r c)
    qed
  qed
  have lh: "length hdr = unat hdrSize" using sz(2) by simp
  note nf = GetOrAdd_new_field [OF rep can fn fits [unfolded lh sz(1) [symmetric]], of tc]
  show thesis
  proof (cases "enforce \<and> nm \<in> fst ` set (visible fs) \<or> \<not> 12 + length nm + length hdr + length d \<le> length spare")
    case True
    have "GetOrAddFieldDataPointer enforce mem [msg] fn tc needed hdrSize = Ok (None, mem, [msg])"
    proof (cases "enforce \<and> nm \<in> fst ` set (visible fs)")
      case True
      then show ?thesis unfolding new by (rule if_P)
    next
      case False
      then have "\<not> 12 + length nm + length hdr + length d \<le> length spare" using True by blast
      then have "\<not> 12 + length nm + unat hdrSize + unat needed \<le> length spare" using sz lh by simp
      then have "add_new_field mem msg [] fn (word_of_nat (length nm)) tc needed hdrSize = Ok (None, mem, [msg])"
        unfolding nf by (rule if_not_P)
      then show ?thesis unfolding new if_not_P [OF False] .
    qed
    moreover have "added enforce (length spare) fs nm tc hdr upd d = None"
      using True False by (simp add: added_def) blast
    ultimately show thesis using refused by blast
  next
    case True': False
    then have le: "12 + length nm + length hdr + length d \<le> length spare" by simp
    let ?m1 = "msg\<lparr>um_currentAddField := Some (length pre + length (ubytes w fs)),
         um_numValidBytes := word_of_nat (length (ubytes w (fs @ [(nm, tc, hdr)])))\<rparr>"
    have "um_rep (pre @ ubytes w (fs @ [(nm, tc, hdr)]) @ drop (12 + length nm + length hdr) spare @ post)
        ?m1 pre w (fs @ [(nm, tc, hdr)]) (drop (12 + length nm + length hdr) spare) post"
      using le by (intro um_rep_new [OF rep wn]) simp
    moreover have nd: "\<not> (enforce \<and> nm \<in> fst ` set (visible fs))" using True' by blast
    have "GetOrAddFieldDataPointer enforce mem [msg] fn tc needed hdrSize =
        Ok (Some (length pre + length (ubytes w (fs @ [(nm, tc, hdr)])),
                  length pre + length (ubytes w (fs @ [(nm, tc, hdr)])) - length hdr),
            pre @ ubytes w (fs @ [(nm, tc, hdr)]) @ drop (12 + length nm + length hdr) spare @ post, [?m1])"
      unfolding new if_not_P [OF nd] nf using le sz(1) by (simp add: Let_def sz(2))
    moreover have "added enforce (length spare) fs nm tc hdr upd d = Some (fs @ [(nm, tc, upd hdr @ d)])"
      unfolding added_def if_not_P [OF False] if_not_P [OF nd] using le by simp
    moreover have "length d \<le> length (drop (12 + length nm + length hdr) spare)" using le by simp
    ultimately show thesis
      using granted [of fs hdr "drop (12 + length nm + length hdr) spare" ?m1] can
      by (simp add: can_add_def)
  qed
qed

lemma IncreaseCurrent_rep:
  assumes rep: "um_rep mem msg pre w (gs @ [(nm, tc, p)]) (d @ sp) post" and can: "can_add msg"
    and k: "unat k = length d"
  shows "IncreaseCurrentFieldDataLength mem [msg] k =
      Ok (pre @ ubytes w (gs @ [(nm, tc, p @ d)]) @ sp @ post,
          [msg\<lparr>um_numValidBytes := um_numValidBytes msg + k\<rparr>])"
    "um_rep (pre @ ubytes w (gs @ [(nm, tc, p @ d)]) @ sp @ post)
       (msg\<lparr>um_numValidBytes := um_numValidBytes msg + k\<rparr>) pre w (gs @ [(nm, tc, p @ d)]) sp post"
proof -
  let ?A = "pre @ u32_le CURRENT_PROTOCOL_VERSION @ u32_le w
      @ u32_le (word_of_nat (length (gs @ [(nm, tc, p)]))) @ ufields_bytes gs"
  have m: "mem = ?A @ wire_field nm tc p @ d @ sp @ post" using rep by (simp add: um_rep_def um_view_def ubytes_def)
  have nm: "length nm < 2 ^ 32" using um_rep_field [OF rep] by metis
  have A: "length ?A = length pre + 12 + length (ufields_bytes gs)" by simp
  have cur: "um_currentAddField msg = Some (length ?A)" using rep by (simp add: um_rep_def um_view_def)
  have kw: "k = word_of_nat (length d)" using k by (metis unat_u32_less unat_word_of_nat_u32 word_unat_eq_iff)
  have tp: "GetFieldTypePointer mem (length ?A) = Ok (length ?A + 4 + length nm)"
    "GetFieldDataLength mem (length ?A + 4 + length nm) = Ok (word_of_nat (length p))"
    "SetFieldDataLength mem (length ?A + 4 + length nm) (word_of_nat (length p) + word_of_nat (length d)) =
      Ok (?A @ wire_field nm tc (p @ d) @ sp @ post)"
    unfolding m using field_type_pointer(2) [OF nm] field_data_length set_field_data_length by blast+
  show "IncreaseCurrentFieldDataLength mem [msg] k =
      Ok (pre @ ubytes w (gs @ [(nm, tc, p @ d)]) @ sp @ post,
          [msg\<lparr>um_numValidBytes := um_numValidBytes msg + k\<rparr>])"
    using can unfolding IncreaseCurrentFieldDataLength.simps cur option.case tp obind_simps kw
    by (simp add: bump_size_field_def can_add_def ubytes_def)
  have len: "length (ubytes w (gs @ [(nm, tc, p @ d)])) = length (ubytes w (gs @ [(nm, tc, p)])) + length d"
    by (simp add: length_ubytes length_wire_field)
  have "unat (um_numValidBytes msg + k) = length (ubytes w (gs @ [(nm, tc, p @ d)]))"
    unfolding len using rep k um_rep_len [OF rep]
    by (subst unat_add_no_wrap) (simp_all add: um_rep_def um_view_def)
  then show "um_rep (pre @ ubytes w (gs @ [(nm, tc, p @ d)]) @ sp @ post)
       (msg\<lparr>um_numValidBytes := um_numValidBytes msg + k\<rparr>) pre w (gs @ [(nm, tc, p @ d)]) sp post"
    using rep len by (simp add: um_rep_def um_view_def butlast_append wf_ufield_def)
qed

subsection \<open>The operations that add\<close>

lemma write_items_at:
  "length A = n \<Longrightarrow> length old = length (concat (map enc vals)) \<Longrightarrow>
   write_items enc (A @ old @ B) n vals = Ok (A @ concat (map enc vals) @ B)"
proof (induction vals arbitrary: A old n)
  case (Cons v vals)
  obtain a b where old: "old = a @ b" "length a = length (enc v)" "length b = length (concat (map enc vals))"
    using Cons.prems(2) split_length [of "length (enc v)" old] by auto
  show ?case
    using Cons.IH [of "A @ enc v" "n + length (enc v)" b] Cons.prems(1) old
      mem_write_mid [of A n a "enc v" "b @ B"]
    by simp
qed simp

lemma write_after:
  "length d \<le> length spare \<Longrightarrow> \<exists>old sp. spare = old @ sp \<and> length old = length d"
  using split_length by metis

text \<open>What an operation may do to a UMessage, seen from its content.\<close>

definition adds :: "u8 list \<Rightarrow> UMessage \<Rightarrow> u8 list \<Rightarrow> u32 \<Rightarrow> u8 list \<Rightarrow> ufield list option \<Rightarrow>
    (status \<times> u8 list \<times> UMessage list) outcome \<Rightarrow> bool" where
  "adds mem msg pre w post fs' r =
     (case fs' of
        None \<Rightarrow> r = Ok (B_ERROR, mem, [msg])
      | Some fs' \<Rightarrow> \<exists>mem' msg' spare'. r = Ok (B_NO_ERROR, mem', [msg'])
          \<and> um_rep mem' msg' pre w fs' spare' post \<and> can_add msg'
          \<and> um_bufferSize msg' = um_bufferSize msg)"

lemma concat_const_length: "(\<And>v. length (enc v) = k) \<Longrightarrow> length (concat (map enc vs)) = length vs * k"
  by (induction vs) auto

lemma add_items_rep:
  assumes rep: "um_rep mem msg pre w fs spare post" and can: "can_add msg"
    and fn: "is_cstr fn" "cstr fn @ [0] = nm"
    and enc: "\<And>v. length (enc v) = unat k"
    and fits: "12 + length nm + length vals * unat k < 2 ^ 32"
  shows "adds mem msg pre w post
    (added enforce (length spare) fs nm tc [] (\<lambda>p. p) (concat (map enc vals)))
    (add_items enc tc k enforce mem [msg] fn vals)"
proof -
  let ?d = "concat (map enc vals)" and ?n = "word_of_nat (length vals) * k :: u32"
  have ld: "length ?d = length vals * unat k" by (rule concat_const_length [OF enc])
  have "unat ?n = length ?d"
  proof (cases "unat k = 0")
    case True
    then have "k = 0" by (metis unat_eq_zero)
    then show ?thesis by (simp add: ld)
  next
    case False
    then have "length vals \<le> length vals * unat k" by simp
    then have "unat (word_of_nat (length vals) :: u32) = length vals"
      using fits by (intro unat_word_of_nat_u32) linarith
    then show ?thesis using fits ld by (simp add: unat_word_ariths)
  qed
  note n = this
  show ?thesis
  proof (rule GetOrAdd_cases [OF rep can fn n,
        where hdr = "[]" and hdrSize = 0 and enforce = enforce and upd = "\<lambda>p. p" and tc = tc])
    show "[] = replicate (unat (0 :: u32)) 0" by simp
    show "12 + length nm + length ([] :: u8 list) + length ?d < 2 ^ 32" using fits ld by simp
  next
    assume "added enforce (length spare) fs nm tc [] (\<lambda>p. p) ?d = None"
      "GetOrAddFieldDataPointer enforce mem [msg] fn tc ?n 0 = Ok (None, mem, [msg])"
    then show ?thesis by (simp add: adds_def add_items_def)
  next
    fix gs p spare1 msg1
    let ?U = "ubytes w (gs @ [(nm, tc, p)])"
    assume a: "added enforce (length spare) fs nm tc [] (\<lambda>p. p) ?d = Some (gs @ [(nm, tc, p @ ?d)])"
      and le: "length ?d \<le> length spare1"
      and g: "GetOrAddFieldDataPointer enforce mem [msg] fn tc ?n 0 =
        Ok (Some (length pre + length (ubytes w (gs @ [(nm, tc, p)])),
                  length pre + length (ubytes w (gs @ [(nm, tc, p)])) - length p),
            pre @ ?U @ spare1 @ post, [msg1])"
      and rep1: "um_rep (pre @ ?U @ spare1 @ post) msg1 pre w (gs @ [(nm, tc, p)]) spare1 post"
      and can1: "can_add msg1" and bs: "um_bufferSize msg1 = um_bufferSize msg"
    obtain old sp where sp: "spare1 = old @ sp" "length old = length ?d" using write_after [OF le] by blast
    have wr: "write_items enc (pre @ ?U @ spare1 @ post) (length pre + length (ubytes w (gs @ [(nm, tc, p)]))) vals =
        Ok (pre @ ?U @ ?d @ sp @ post)"
      using write_items_at [of "pre @ ?U" "length pre + length (ubytes w (gs @ [(nm, tc, p)]))" old enc vals "sp @ post"] sp
      by simp
    have rep2: "um_rep (pre @ ?U @ ?d @ sp @ post) msg1 pre w (gs @ [(nm, tc, p)]) (?d @ sp) post"
      using um_rep_spare_change [OF rep1, of "?d @ sp"] sp by simp
    note inc = IncreaseCurrent_rep [OF rep2 can1 n]
    show ?thesis
      unfolding adds_def a option.case
      using inc(2) can1 bs
      by (intro exI conjI, unfold add_items_def Let_def g obind_simps prod.case option.case wr inc(1))
        (rule refl, auto simp: can_add_def)
  qed
qed

end
