(* ===== verification/Micro_Ops.thy ===== *)
theory Micro_Ops
  imports Micro_Build
begin

section \<open>MicroMessage: counted data, empty Messages and look-ups\<close>

text \<open>
  The operations on a UMessage whose field data starts with a count (strings and raw data), the
  representation of a fresh UMessage, and what the look-ups find in a UMessage that represents a
  list of fields.
\<close>

subsection \<open>The count at the front of the data of a field\<close>

definition inc_count :: "u32 \<Rightarrow> u8 list \<Rightarrow> u8 list" where
  "inc_count k p = u32_le (le_u32 (take 4 p) + k) @ drop 4 p"

lemma length_inc_count: "4 \<le> length p \<Longrightarrow> length (inc_count k p) = length p"
  by (simp add: inc_count_def)

lemma inc_count_eq: "inc_count k (u32_le c @ q) = u32_le (c + k) @ q"
  by (simp add: inc_count_def)

lemma ubytes_last:
  "ubytes w (gs @ [(nm, tc, p)]) = (u32_le CURRENT_PROTOCOL_VERSION @ u32_le w
     @ u32_le (word_of_nat (length gs) + 1) @ ufields_bytes gs
     @ u32_le (word_of_nat (length nm)) @ nm @ u32_le tc @ u32_le (word_of_nat (length p))) @ p"
  by (simp add: ubytes_snoc wire_field_def)

lemma count_rep:
  assumes rep: "um_rep mem msg pre w (gs @ [(nm, tc, p)]) spare post" and p: "4 \<le> length p"
    and at: "hdr = length pre + length (ubytes w (gs @ [(nm, tc, p)])) - length p"
  shows "UMReadInt32 mem hdr = Ok (le_u32 (take 4 p))"
    "UMWriteInt32 mem hdr (le_u32 (take 4 p) + k) =
      Ok (pre @ ubytes w (gs @ [(nm, tc, inc_count k p)]) @ spare @ post)"
    "um_rep (pre @ ubytes w (gs @ [(nm, tc, inc_count k p)]) @ spare @ post) msg pre w
       (gs @ [(nm, tc, inc_count k p)]) spare post"
proof -
  let ?H = "\<lambda>p. pre @ u32_le CURRENT_PROTOCOL_VERSION @ u32_le w
     @ u32_le (word_of_nat (length gs) + 1) @ ufields_bytes gs
     @ u32_le (word_of_nat (length nm)) @ nm @ u32_le tc @ u32_le (word_of_nat (length p))"
  have mem: "mem = ?H p @ take 4 p @ drop 4 p @ spare @ post"
    using rep by (simp add: um_rep_def um_view_def ubytes_last)
  have len: "length (?H p) = hdr" unfolding at by (simp add: ubytes_last)
  have t: "u32_le (le_u32 (take 4 p)) = take 4 p" using p by (intro u32_le_le_u32) simp
  show "UMReadInt32 mem hdr = Ok (le_u32 (take 4 p))"
    unfolding mem using UMReadInt32_at [OF len, of "le_u32 (take 4 p)" "drop 4 p @ spare @ post"] t by simp
  have "length (take 4 p) = 4" using p by simp
  note wfn = UMWriteInt32_at [OF len this, of "drop 4 p @ spare @ post" "le_u32 (take 4 p) + k"]
  show "UMWriteInt32 mem hdr (le_u32 (take 4 p) + k) =
      Ok (pre @ ubytes w (gs @ [(nm, tc, inc_count k p)]) @ spare @ post)"
    unfolding mem wfn using p by (simp add: ubytes_last length_inc_count) (simp add: inc_count_def)
  show "um_rep (pre @ ubytes w (gs @ [(nm, tc, inc_count k p)]) @ spare @ post) msg pre w
       (gs @ [(nm, tc, inc_count k p)]) spare post"
    using rep length_inc_count [OF p, of k]
    by (simp add: um_rep_def um_view_def length_ubytes length_wire_field wf_ufield_def)
qed

text \<open>The two shapes that the data of the last field can have before an addition.\<close>

definition counted :: "ufield list \<Rightarrow> u8 list \<Rightarrow> u32 \<Rightarrow> bool" where
  "counted fs nm tc \<longleftrightarrow> (continues fs nm tc \<longrightarrow> 4 \<le> length (snd (snd (last fs))))"

text \<open>The part of the additions that is common to strings and raw data.\<close>

lemma add_counted:
  assumes rep: "um_rep mem msg pre w fs spare post" and can: "can_add msg"
    and fn: "is_cstr fn" "cstr fn @ [0] = nm" and cnt: "counted fs nm tc"
    and n: "unat needed = length d" and fits: "16 + length nm + length d < 2 ^ 32"
    and op: "\<And>dataPtr hdr mem1 chain. G = Ok (Some (dataPtr, hdr), mem1, chain) \<Longrightarrow>
        R = obind (UMReadInt32 mem1 hdr) (\<lambda>c. obind (UMWriteInt32 mem1 hdr (c + k)) (\<lambda>mem2.
            obind (wfn mem2 dataPtr) (\<lambda>mem3. obind (IncreaseCurrentFieldDataLength mem3 chain needed)
              (\<lambda>(mem4, chain'). Ok (B_NO_ERROR, mem4, chain')))))"
    and none: "\<And>mem1 chain. G = Ok (None, mem1, chain) \<Longrightarrow> R = Ok (B_ERROR, mem1, chain)"
    and G: "G = GetOrAddFieldDataPointer enforce mem [msg] fn tc needed 4"
    and wfn: "\<And>A old B. length old = length d \<Longrightarrow> wfn (A @ old @ B) (length A) = Ok (A @ d @ B)"
  shows "adds mem msg pre w post
    (added enforce (length spare) fs nm tc (replicate 4 0) (inc_count k) d) R"
proof (rule GetOrAdd_cases [OF rep can fn n,
      where hdr = "replicate 4 0" and hdrSize = 4 and enforce = enforce and upd = "inc_count k" and tc = tc])
  show "replicate 4 0 = replicate (unat (4 :: u32)) (0 :: u8)" by simp
  show "12 + length nm + length (replicate 4 0 :: u8 list) + length d < 2 ^ 32" using fits by simp
next
  assume "added enforce (length spare) fs nm tc (replicate 4 0) (inc_count k) d = None"
    "GetOrAddFieldDataPointer enforce mem [msg] fn tc needed 4 = Ok (None, mem, [msg])"
  then show ?thesis using none G by (simp add: adds_def)
next
  fix gs p spare1 msg1
  let ?U = "ubytes w (gs @ [(nm, tc, p)])" and ?V = "ubytes w (gs @ [(nm, tc, inc_count k p)])"
  assume a: "added enforce (length spare) fs nm tc (replicate 4 0) (inc_count k) d =
      Some (gs @ [(nm, tc, inc_count k p @ d)])"
    and le: "length d \<le> length spare1"
    and g: "GetOrAddFieldDataPointer enforce mem [msg] fn tc needed 4 =
      Ok (Some (length pre + length ?U, length pre + length ?U - length p), pre @ ?U @ spare1 @ post, [msg1])"
    and rep1: "um_rep (pre @ ?U @ spare1 @ post) msg1 pre w (gs @ [(nm, tc, p)]) spare1 post"
    and can1: "can_add msg1" and bs: "um_bufferSize msg1 = um_bufferSize msg"
    and p: "p = replicate 4 0 \<or> fs = gs @ [(nm, tc, p)]"
  have p4: "4 \<le> length p" using p cnt by (auto simp: counted_def continues_def)
  obtain old sp where sp: "spare1 = old @ sp" "length old = length d" using write_after [OF le] by blast
  note c = count_rep(1) [OF rep1 p4 refl] count_rep(2,3) [OF rep1 p4 refl, of k]
  have UV: "length ?V = length ?U" using p4 by (simp add: ubytes_last length_inc_count)
  have w: "wfn (pre @ ?V @ spare1 @ post) (length pre + length ?U) = Ok (pre @ ?V @ d @ sp @ post)"
    using wfn [OF sp(2), of "pre @ ?V" "sp @ post"] UV sp by simp
  have rep2: "um_rep (pre @ ?V @ d @ sp @ post) msg1 pre w (gs @ [(nm, tc, inc_count k p)]) (d @ sp) post"
    using um_rep_spare_change [OF c(3), of "d @ sp"] sp by simp
  note inc = IncreaseCurrent_rep [OF rep2 can1 n]
  show ?thesis
    unfolding adds_def a option.case
    using inc(2) can1 bs
    by (intro exI conjI, unfold op [OF G [unfolded g]] obind_simps c(1,2) w inc(1) prod.case)
      (rule refl, auto simp: can_add_def)
qed

lemma UMAddData_rep:
  assumes rep: "um_rep mem msg pre w fs spare post" and can: "can_add msg"
    and fn: "is_cstr fn" "cstr fn @ [0] = nm" and cnt: "counted fs nm tc"
    and bytes: "unat n \<le> length bytes" and fits: "20 + length nm + unat n < 2 ^ 32"
  shows "adds mem msg pre w post
    (added enforce (length spare) fs nm tc (replicate 4 0) (inc_count 1) (u32_le n @ take (unat n) bytes))
    (UMAddData enforce mem [msg] fn tc bytes n)"
proof (rule add_counted [OF rep can fn cnt _ _ _ _ refl, where
      wfn = "\<lambda>mem ptr. obind (UMWriteInt32 mem ptr n) (\<lambda>mem. obind (mem_read bytes 0 (unat n)) (\<lambda>bs.
        mem_write mem (ptr + 4) bs))" and needed = "4 + n"])
  have n: "unat (4 + n) = 4 + unat n" using fits by (subst unat_add_no_wrap) simp_all
  then show "unat (4 + n) = length (u32_le n @ take (unat n) bytes)" using bytes by simp
  show "16 + length nm + length (u32_le n @ take (unat n) bytes) < 2 ^ 32" using fits bytes by simp
  fix A old B :: "u8 list"
  assume "length old = length (u32_le n @ take (unat n) bytes)"
  then obtain a b where ab: "old = a @ b" "length a = 4" "length b = length (take (unat n) bytes)"
    using split_length [of 4 old] bytes by auto
  then show "obind (UMWriteInt32 (A @ old @ B) (length A) n) (\<lambda>mem. obind (mem_read bytes 0 (unat n)) (\<lambda>bs.
      mem_write mem (length A + 4) bs)) = Ok (A @ (u32_le n @ take (unat n) bytes) @ B)"
    using UMWriteInt32_at [of A "length A" a "b @ B" n] bytes
      mem_write_mid [of "A @ u32_le n" "length A + 4" b "take (unat n) bytes" B]
    by (simp add: mem_read_def)
next
  fix dataPtr hdr mem1 chain
  assume "GetOrAddFieldDataPointer enforce mem [msg] fn tc (4 + n) 4 = Ok (Some (dataPtr, hdr), mem1, chain)"
  then show "UMAddData enforce mem [msg] fn tc bytes n =
      obind (UMReadInt32 mem1 hdr) (\<lambda>c. obind (UMWriteInt32 mem1 hdr (c + 1)) (\<lambda>mem2.
      obind (obind (UMWriteInt32 mem2 dataPtr n) (\<lambda>mem. obind (mem_read bytes 0 (unat n)) (\<lambda>bs.
        mem_write mem (dataPtr + 4) bs))) (\<lambda>mem3. obind (IncreaseCurrentFieldDataLength mem3 chain (4 + n))
      (\<lambda>(mem4, chain'). Ok (B_NO_ERROR, mem4, chain')))))"
    by (simp add: UMAddData_def Let_def obind_assoc)
qed (simp add: UMAddData_def Let_def)

text \<open>\<^verbatim>\<open>UMAddStrings\<close>: each string with its length and its zero.\<close>

definition string_item :: "u8 list option \<Rightarrow> u8 list" where
  "string_item s = u32_le (word_of_nat (length (cstr (c_string s)) + 1)) @ cstr (c_string s) @ [0]"

definition c_strings :: "u8 list option list \<Rightarrow> bool" where
  "c_strings ss \<longleftrightarrow> list_all (\<lambda>s. is_cstr (c_string s)) ss"

lemma length_string_item: "length (string_item s) = 5 + length (cstr (c_string s))"
  by (simp add: string_item_def)

lemma sum_strlens_eq:
  "c_strings ss \<Longrightarrow> sum_strlens ss = Ok (word_of_nat (sum_list (map (\<lambda>s. length (cstr (c_string s))) ss)))"
  by (induction ss) (simp_all add: c_strings_def strlen_cstr)

lemma length_string_items:
  "length (concat (map string_item ss)) =
   length ss * 5 + sum_list (map (\<lambda>s. length (cstr (c_string s))) ss)"
  by (induction ss) (simp_all add: length_string_item)

lemma write_strings_at:
  "c_strings ss \<Longrightarrow> length A = n \<Longrightarrow> length old = length (concat (map string_item ss)) \<Longrightarrow>
   length old < 2 ^ 32 \<Longrightarrow>
   write_strings (A @ old @ B) n ss = Ok (A @ concat (map string_item ss) @ B)"
proof (induction ss arbitrary: A old n)
  case (Cons s ss)
  let ?s = "cstr (c_string s)"
  have cs: "is_cstr (c_string s)" "c_strings ss" using Cons.prems(1) by (simp_all add: c_strings_def)
  obtain a b1 where old: "old = a @ b1" "length a = 4"
    using Cons.prems(3) split_length [of 4 old] by (auto simp: length_string_item)
  obtain b c where b: "b1 = b @ c" "length b = length ?s + 1" "length c = length (concat (map string_item ss))"
    using Cons.prems(3) old split_length [of "length ?s + 1" b1] by (auto simp: length_string_item)
  let ?l = "word_of_nat (length ?s) + 1 :: u32"
  have "length ?s + 1 < 2 ^ 32" using Cons.prems(4) old b by simp
  then have "unat (word_of_nat (length ?s + 1) :: u32) = length ?s + 1" by (rule unat_word_of_nat_u32)
  then have l: "unat ?l = length ?s + 1" by (simp add: add.commute)
  have rd: "mem_read (c_string s) 0 (length ?s + 1) = Ok (?s @ [0])"
    using take_cstr [OF cs(1)] by (simp add: mem_read_def) (metis Suc_leI length_append_singleton length_take
      less_or_eq_imp_le min.absorb_iff1 min.commute not_less_eq_eq)
  have w: "mem_write (A @ u32_le ?l @ b @ c @ B) (n + 4) (?s @ [0]) = Ok (A @ u32_le ?l @ (?s @ [0]) @ c @ B)"
    using mem_write_mid [of "A @ u32_le ?l" "n + 4" b "?s @ [0]" "c @ B"] b Cons.prems(2) by simp
  have "write_strings (A @ u32_le ?l @ (?s @ [0]) @ c @ B) (n + 4 + (length ?s + 1)) ss =
      Ok ((A @ string_item s) @ concat (map string_item ss) @ B)"
    using Cons.IH [OF cs(2), of "A @ string_item s" "n + 4 + (length ?s + 1)" c] b(3) Cons.prems(2,4) old b(1)
    by (simp add: string_item_def [of s] add.commute)
  then show ?case
    using UMWriteInt32_at [OF Cons.prems(2) old(2), of "b @ c @ B" ?l] old(1) b(1) rd w
    by (simp add: strlen_cstr [OF cs(1)] Let_def l string_item_def [of s])
qed simp

lemma UMAddStrings_rep:
  assumes rep: "um_rep mem msg pre w fs spare post" and can: "can_add msg"
    and fn: "is_cstr fn" "cstr fn @ [0] = nm" and cnt: "counted fs nm B_STRING_TYPE"
    and ss: "c_strings ss" and fits: "16 + length nm + length (concat (map string_item ss)) < 2 ^ 32"
  shows "adds mem msg pre w post
    (added enforce (length spare) fs nm B_STRING_TYPE (replicate 4 0) (inc_count (word_of_nat (length ss)))
       (concat (map string_item ss)))
    (UMAddStrings enforce mem [msg] fn ss)"
proof -
  let ?k = "sum_list (map (\<lambda>s. length (cstr (c_string s))) ss)"
  let ?n = "word_of_nat (length ss) * (4 + 1) + word_of_nat ?k :: u32"
  have "?n = word_of_nat (length (concat (map string_item ss)))" by (simp add: length_string_items)
  moreover have "length (concat (map string_item ss)) < 2 ^ 32" using fits by simp
  ultimately have n: "unat ?n = length (concat (map string_item ss))" by (simp only: unat_word_of_nat_u32)
  show ?thesis
  proof (rule add_counted [OF rep can fn cnt n fits _ _ refl, where
        wfn = "\<lambda>mem ptr. write_strings mem ptr ss"])
    fix A old B :: "u8 list"
    assume "length old = length (concat (map string_item ss))"
    then show "write_strings (A @ old @ B) (length A) ss = Ok (A @ concat (map string_item ss) @ B)"
      using write_strings_at [OF ss refl, of old A B] fits by simp
  qed (simp_all add: UMAddStrings_def sum_strlens_eq [OF ss] Let_def)
qed

subsection \<open>A fresh UMessage\<close>

lemma UMInitializeToEmptyMessage_rep:
  assumes "length buf = unat n" and "12 \<le> n"
  obtains mem' msg' where
    "UMInitializeToEmptyMessage (pre @ buf @ post) msg (length pre) n w = Ok (B_NO_ERROR, mem', msg')"
    "um_rep mem' msg' pre w [] (drop 12 buf) post" "can_add msg'" "um_bufferSize msg' = n"
    "um_readFieldCache msg' = None"
proof -
  have l12: "12 \<le> length buf" using assms by (simp add: word_le_nat_alt)
  obtain a r where a: "buf = a @ r" "length a = 4" using l12 split_length [of 4 buf] by auto
  obtain b s where b: "r = b @ s" "length b = 4" using l12 a split_length [of 4 r] by auto
  obtain c d where c: "s = c @ d" "length c = 4" using l12 a b split_length [of 4 s] by auto
  define m where "m = \<lparr>um_buffer = Some (length pre), um_bufferSize = n,
    um_numValidBytes = word_of_nat MESSAGE_HEADER_SIZE, um_currentAddField = None,
    um_isReadOnly = False, um_sizeField = None, um_readFieldCache = None\<rparr>"
  have ad: "buf_addr m = length pre" by (simp add: m_def buf_addr_def)
  have sp: "\<not> GetNumBufferBytesAt m (length pre + k) < 4" if "k \<le> 8" for k
    using that buffer_bytes_at [of m k] ad l12 assms(1)
    by (simp add: word_less_nat_alt) (simp add: m_def)
  let ?v = CURRENT_PROTOCOL_VERSION
  have w0: "UMWriteInt32AtOffset (pre @ a @ b @ c @ d @ post) m 0 ?v = Ok (B_NO_ERROR, pre @ u32_le ?v @ b @ c @ d @ post)"
    using sp [of 0] a by (simp add: UMWriteInt32AtOffset_def ad UMWriteInt32_at)
  have w1: "UMSetWhatCode (pre @ u32_le ?v @ b @ c @ d @ post) m w =
      Ok (B_NO_ERROR, pre @ u32_le ?v @ u32_le w @ c @ d @ post)"
    using sp [of 4] b UMWriteInt32_at [of "pre @ u32_le ?v" "length pre + 4" b "c @ d @ post" w]
    by (simp add: UMSetWhatCode_def UMWriteInt32AtOffset_def ad)
  have w2: "UMSetNumFields (pre @ u32_le ?v @ u32_le w @ c @ d @ post) m 0 =
      Ok (B_NO_ERROR, pre @ u32_le ?v @ u32_le w @ u32_le 0 @ d @ post)"
    using sp [of 8] c UMWriteInt32_at [of "pre @ u32_le ?v @ u32_le w" "length pre + 8" c "d @ post" 0]
    by (simp add: UMSetNumFields_def UMWriteInt32AtOffset_def ad)
  have g: "\<not> n < word_of_nat MESSAGE_HEADER_SIZE"
    using assms(2) by (simp add: MESSAGE_HEADER_SIZE_def not_less)
  have "UMInitializeToEmptyMessage (pre @ buf @ post) msg (length pre) n w =
      Ok (B_NO_ERROR, pre @ u32_le ?v @ u32_le w @ u32_le 0 @ d @ post, m)"
    using g w0 w1 w2 a b c by (simp add: UMInitializeToEmptyMessage_def m_def [symmetric])
  moreover have "um_rep (pre @ u32_le ?v @ u32_le w @ u32_le 0 @ d @ post) m pre w [] (drop 12 buf) post"
    using assms a b c by (simp add: um_rep_def um_view_def ubytes_def m_def MESSAGE_HEADER_SIZE_def)
  moreover have "can_add m" "um_bufferSize m = n" "um_readFieldCache m = None"
    by (simp_all add: m_def can_add_def)
  ultimately show thesis by (rule that)
qed

lemma UMInitializeToEmptyMessage_too_small:
  "n < 12 \<Longrightarrow> UMInitializeToEmptyMessage mem msg buf n w = Ok (B_ERROR, mem, msg)"
  by (simp add: UMInitializeToEmptyMessage_def MESSAGE_HEADER_SIZE_def)

end
