(* ===== verification/Micro_Lookup.thy ===== *)
theory Micro_Lookup
  imports Micro_Ops
begin

section \<open>MicroMessage: what the look-ups find\<close>

text \<open>
  A look-up by name in a UMessage that represents a list of fields: the field it finds, the cache
  it leaves, and the items the \<^verbatim>\<open>UMFind*\<close> functions and \<^verbatim>\<open>UMGetString\<close> read from it.
\<close>

definition matches :: "u32 \<Rightarrow> u32 \<Rightarrow> bool" where
  "matches tc t \<longleftrightarrow> tc = B_ANY_TYPE \<or> tc = t"

text \<open>The data of the first field with the name and a type that is asked for.\<close>

fun field_data :: "u8 list \<Rightarrow> u32 \<Rightarrow> ufield list \<Rightarrow> u8 list option" where
  "field_data nm tc [] = None"
| "field_data nm tc ((n, t, p) # fs) = (if matches tc t \<and> n = nm then Some p else field_data nm tc fs)"

lemma first_field_found:
  assumes "first_field nm tc off fs = r"
  obtains "r = None" "field_data nm tc fs = None"
  | gs t p hs where "r = Some (off + length (ufields_bytes gs))" "fs = gs @ (nm, t, p) # hs"
      "matches tc t" "field_data nm tc fs = Some p"
proof -
  have "first_field nm tc off fs = None \<and> field_data nm tc fs = None \<or>
    (\<exists>gs t p hs. first_field nm tc off fs = Some (off + length (ufields_bytes gs))
       \<and> fs = gs @ (nm, t, p) # hs \<and> matches tc t \<and> field_data nm tc fs = Some p)"
  proof (induction fs arbitrary: off)
    case (Cons f fs)
    obtain n t p where f: "f = (n, t, p)" by (cases f)
    show ?case
    proof (cases "matches tc t \<and> n = nm")
      case True
      then have "\<exists>t' p' hs. f # fs = [] @ (nm, t', p') # hs \<and> matches tc t' \<and> p' = p"
        using f by auto
      moreover have "first_field nm tc off (f # fs) = Some (off + length (ufields_bytes []))"
        "field_data nm tc (f # fs) = Some p" using True f by (auto simp: matches_def)
      ultimately show ?thesis by metis
    next
      case False
      then have e: "first_field nm tc off (f # fs) = first_field nm tc (off + length (wire_field n t p)) fs"
        "field_data nm tc (f # fs) = field_data nm tc fs"
        using f by (auto simp: matches_def)
      from Cons.IH [of "off + length (wire_field n t p)"] show ?thesis
      proof (elim disjE exE conjE)
        fix gs t' p' hs
        assume a: "first_field nm tc (off + length (wire_field n t p)) fs =
            Some (off + length (wire_field n t p) + length (ufields_bytes gs))"
          "fs = gs @ (nm, t', p') # hs" "matches tc t'" "field_data nm tc fs = Some p'"
        then have "first_field nm tc off (f # fs) = Some (off + length (ufields_bytes (f # gs)))"
          "f # fs = (f # gs) @ (nm, t', p') # hs" using e f by simp_all
        then show ?thesis using a e by metis
      qed (simp add: e)
    qed
  qed simp
  then show thesis using assms that by metis
qed

lemma first_field_notin: "n \<notin> fst ` set hs \<Longrightarrow> first_field n tc off hs = None"
  by (induction n tc off hs rule: first_field.induct) auto

lemma first_field_distinct:
  "distinct (map fst (gs @ (n, t, p) # hs)) \<Longrightarrow>
   first_field n tc off (gs @ (n, t, p) # hs) =
     (if matches tc t then Some (off + length (ufields_bytes gs)) else None)"
proof (induction gs arbitrary: off)
  case Nil
  then show ?case by (auto simp: matches_def first_field_notin)
qed (auto simp: add.assoc)

lemma visible_split:
  assumes "visible fs = gs @ f # hs"
  shows "\<exists>hs'. fs = gs @ f # hs' \<and> (hs' \<noteq> [] \<or> snd (snd f) \<noteq> [])"
proof (cases "fs \<noteq> [] \<and> snd (snd (last fs)) = []")
  case True
  then have "fs = gs @ f # hs @ [last fs]"
    using assms append_butlast_last_id [of fs] by (simp add: visible_def)
  then show ?thesis by blast
next
  case False
  then have fs: "fs = gs @ f # hs" "snd (snd (last fs)) \<noteq> []" using assms by (auto simp: visible_def)
  then show ?thesis by (cases "hs = []") auto
qed

lemma visible_here:
  assumes "fs = gs @ f # hs" "hs \<noteq> [] \<or> snd (snd f) \<noteq> []"
  shows "\<exists>hs'. visible fs = gs @ f # hs'"
  using assms by (cases "hs = []") (auto simp: visible_def butlast_append)

lemma distinct_visible: "distinct (map fst fs) \<Longrightarrow> distinct (map fst (visible fs))"
  by (simp add: visible_def map_butlast distinct_butlast)

subsection \<open>The cache\<close>

definition cache_ok :: "u8 list \<Rightarrow> ufield list \<Rightarrow> UMessage \<Rightarrow> bool" where
  "cache_ok pre fs msg \<longleftrightarrow> (case um_readFieldCache msg of
     None \<Rightarrow> True
   | Some a \<Rightarrow> \<exists>gs f hs. visible fs = gs @ f # hs \<and> a = length pre + 12 + length (ufields_bytes gs))"

lemma um_view_cache: "um_view mem (msg\<lparr>um_readFieldCache := c\<rparr>) pre w fs spare post = um_view mem msg pre w fs spare post"
  by (simp add: um_view_def)

definition same_but_cache :: "UMessage \<Rightarrow> UMessage \<Rightarrow> bool" where
  "same_but_cache msg msg' \<longleftrightarrow> (\<exists>c. msg' = msg\<lparr>um_readFieldCache := c\<rparr>)"

lemma same_but_cache_view:
  "same_but_cache msg msg' \<Longrightarrow> um_view mem msg pre w fs spare post \<Longrightarrow> um_view mem msg' pre w fs spare post"
  by (auto simp: same_but_cache_def um_view_cache)

lemma same_but_cache_refl [simp]: "same_but_cache msg msg"
  unfolding same_but_cache_def by (rule exI [of _ "um_readFieldCache msg"]) simp

lemma GetFieldByName_rep:
  assumes rep: "um_view mem msg pre w fs spare post" and nm: "length nm < 2 ^ 32"
    and fn: "is_cstr fn" "cstr fn @ [0] = nm"
    and dist: "distinct (map fst fs)" and cache: "cache_ok pre fs msg"
  obtains msg' where
    "GetFieldByName mem msg fn tc = Ok (first_field nm tc (length pre + 12) (visible fs), msg')"
    "same_but_cache msg msg'" "cache_ok pre fs msg'"
proof -
  have wn: "wf_name nm" using fn(2) zero_notin_cstr wf_name_append_zero by metis
  have len: "word_of_nat (length (cstr fn)) + 1 = (word_of_nat (length nm) :: u32)"
    using fn(2) [symmetric] by simp
  let ?r = "first_field nm tc (length pre + 12) (visible fs)"
  define m' where "m' = (case ?r of None \<Rightarrow> msg | Some p \<Rightarrow> msg\<lparr>um_readFieldCache := Some p\<rparr>)"
  have srch: "obind (GetFieldByNameAux mem msg fn (word_of_nat (length nm)) tc) (\<lambda>r.
       Ok (r, case r of None \<Rightarrow> msg | Some p \<Rightarrow> msg\<lparr>um_readFieldCache := Some p\<rparr>)) = Ok (?r, m')"
    using GetFieldByNameAux_view [OF rep wn nm fn, of tc] by (simp add: m'_def)
  have "same_but_cache msg m'"
    unfolding same_but_cache_def m'_def
    by (cases ?r) (auto intro: exI [where x = "um_readFieldCache msg"])
  moreover have "cache_ok pre fs m'"
  proof (rule first_field_found [OF refl, of nm tc "length pre + 12" "visible fs"])
    assume "?r = None"
    then show ?thesis using cache by (simp add: m'_def)
  next
    fix gs t p hs
    assume "?r = Some (length pre + 12 + length (ufields_bytes gs))" "visible fs = gs @ (nm, t, p) # hs"
    then show ?thesis unfolding m'_def cache_ok_def by (simp del: append_eq_append_conv) blast
  qed
  ultimately have m': "same_but_cache msg m'" "cache_ok pre fs m'" by blast+
  show thesis
  proof (cases "um_readFieldCache msg")
    case None
    then show thesis
      using that [OF _ m'] srch by (simp add: GetFieldByName_def strlen_cstr [OF fn(1)] Let_def len)
  next
    case (Some a)
    obtain gs f hs where v: "visible fs = gs @ f # hs" "a = length pre + 12 + length (ufields_bytes gs)"
      using cache Some by (auto simp: cache_ok_def)
    obtain n t p where f: "f = (n, t, p)" by (cases f)
    obtain hs' where fs: "fs = gs @ (n, t, p) # hs'" using visible_split [OF v(1)] f by auto
    obtain A B where m: "mem = A @ wire_field n t p @ B" and A: "length A = a"
      and n: "length n < 2 ^ 32" "wf_name n"
      using um_view_field [OF rep [unfolded fs]] v(2) by metis
    note r = field_reads(1,2) [OF n(1), of A t p B, folded m, unfolded A]
      field_reads(3) [of A n t p B, folded m, unfolded A]
    have l: "word_of_nat (length n) = (word_of_nat (length nm) :: u32) \<longleftrightarrow> length n = length nm"
      using n nm by (metis unat_word_of_nat_u32)
    have "drop (GetFieldName a) mem = n @ u32_le t @ u32_le (word_of_nat (length p)) @ p @ B"
      unfolding m by (simp add: GetFieldName_def wire_field_def A)
    then have cmp: "strcmp_eq fn (drop (GetFieldName a) mem) = Ok (n = nm)"
      using fn wf_name_cstr [OF n(2)] by (simp add: strcmp_eq_cstr cstr_prefix) (metis append1_eq_conv)
    have hit: "(if word_of_nat (length n) = (word_of_nat (length nm) :: u32)
        then strcmp_eq fn (drop (GetFieldName a) mem) else Ok False) = Ok (n = nm)"
      using l cmp by auto
    have ty: "n = nm \<Longrightarrow> GetFieldType mem (a + 4 + length nm) = Ok t" using r(3) by simp
    have G: "GetFieldByName mem msg fn tc =
        (if n = nm then Ok (if matches tc t then Some a else None, msg)
         else Ok (first_field nm tc (length pre + 12) (visible fs), m'))"
      using srch by (simp add: GetFieldByName_def strlen_cstr [OF fn(1)] Let_def len Some r ty hit matches_def)
    show thesis
    proof (cases "n = nm")
      case True
      then have "first_field nm tc (length pre + 12) (visible fs) = (if matches tc t then Some a else None)"
        using first_field_distinct [of gs n t p hs tc "length pre + 12"] distinct_visible [OF dist] v f
        by simp
      then show thesis using that [of msg] G True cache by simp
    next
      case False
      then show thesis using that [OF _ m'] G by simp
    qed
  qed
qed

subsection \<open>Reading fixed-size items\<close>

text \<open>The types whose items have a fixed size in the buffer, with that size.\<close>

definition micro_types :: "(u32 \<times> nat) list" where
  "micro_types = [(B_BOOL_TYPE, 1), (B_INT8_TYPE, 1), (B_INT16_TYPE, 2), (B_INT32_TYPE, 4),
     (B_INT64_TYPE, 8), (B_FLOAT_TYPE, 4), (B_DOUBLE_TYPE, 8), (B_POINT_TYPE, 8), (B_RECT_TYPE, 16)]"

lemma field_data_found:
  assumes rep: "um_view mem msg pre w fs spare post" and nm: "length nm < 2 ^ 32"
    and fn: "is_cstr fn" "cstr fn @ [0] = nm"
    and dist: "distinct (map fst fs)" and cache: "cache_ok pre fs msg"
  obtains (none) msg' where "GetFieldByName mem msg fn tc = Ok (None, msg')"
      "field_data nm tc (visible fs) = None" "same_but_cache msg msg'" "cache_ok pre fs msg'"
  | (found) msg' A t p B where "GetFieldByName mem msg fn tc = Ok (Some (length A), msg')"
      "field_data nm tc (visible fs) = Some p" "same_but_cache msg msg'" "cache_ok pre fs msg'"
      "mem = A @ wire_field nm t p @ B" "length p < 2 ^ 32" "matches tc t"
      "(nm, t, p) \<in> set fs"
proof -
  obtain msg' where g: "GetFieldByName mem msg fn tc =
      Ok (first_field nm tc (length pre + 12) (visible fs), msg')"
    and m: "same_but_cache msg msg'" "cache_ok pre fs msg'"
    using GetFieldByName_rep [OF rep nm fn dist cache] by metis
  show thesis
  proof (rule first_field_found [OF refl, of nm tc "length pre + 12" "visible fs"])
    assume "first_field nm tc (length pre + 12) (visible fs) = None" "field_data nm tc (visible fs) = None"
    then show thesis using none g m by simp
  next
    fix gs t p hs
    assume a: "first_field nm tc (length pre + 12) (visible fs) =
        Some (length pre + 12 + length (ufields_bytes gs))"
      "visible fs = gs @ (nm, t, p) # hs" "matches tc t" "field_data nm tc (visible fs) = Some p"
    obtain hs' where fs: "fs = gs @ (nm, t, p) # hs'" using visible_split [OF a(2)] by blast
    obtain A B where A: "mem = A @ wire_field nm t p @ B"
        "length A = length pre + 12 + length (ufields_bytes gs)" "length p < 2 ^ 32"
      using um_view_field [OF rep [unfolded fs]] by metis
    have "(nm, t, p) \<in> set fs" using fs by simp
    moreover have "GetFieldByName mem msg fn tc = Ok (Some (length A), msg')" using g a(1) A(2) by simp
    ultimately show thesis using found [OF _ a(4) m A(1,3) a(3)] by blast
  qed
qed

lemma wire_field_split: "wire_field nm t p = (u32_le (word_of_nat (length nm)) @ nm @ u32_le t
    @ u32_le (word_of_nat (length p))) @ p"
  by (simp add: wire_field_def)

lemma items_in_field:
  assumes m: "mem = A @ wire_field nm tc p @ B" and p: "length p < 2 ^ 32" and nm: "length nm < 2 ^ 32"
    and tc: "(tc, k) \<in> set micro_types"
  shows "obind (GetNumItemsInField mem msg (length A + 4 + length nm)) (\<lambda>n. Ok (unat n)) = Ok (length p div k)"
proof -
  note r = field_reads(3) [of A nm tc p B, folded m] field_reads(4) [of A nm tc p B, folded m]
  have d: "unat (word_of_nat (length p) div (word_of_nat j) :: u32) = length p div j" if "j < 2 ^ 32" for j
    using p that by (simp add: unat_div unat_word_of_nat_u32)
  have num: "GetNumItemsInField mem msg (length A + 4 + length nm) =
      Ok (word_of_nat (length p) div word_of_nat k)"
    using tc unfolding GetNumItemsInField_def Let_def r obind_simps
    by (simp only: micro_types_def set_simps insert_iff prod.inject empty_iff)
      (elim disjE conjE; simp add: type_code_defs)
  have "k < 2 ^ 32" using tc by (auto simp: micro_types_def)
  with d [of k] num show ?thesis by simp
qed

text \<open>
  The item that a \<^verbatim>\<open>UMFind*\<close> function finds: the bytes at its place in the data, or \<^verbatim>\<open>B_ERROR\<close>
  without the field, with a field of another type, or with an index out of range.
\<close>

definition item_at :: "nat \<Rightarrow> u8 list option \<Rightarrow> nat \<Rightarrow> u8 list option" where
  "item_at k data i = (case data of None \<Rightarrow> None
     | Some p \<Rightarrow> if i < length p div k then Some (take k (drop (i * k) p)) else None)"

lemma item_read:
  assumes "mem = A @ wire_field nm tc p @ B" "i < length p div k"
  shows "mem_read mem (GetFieldData (length A + 4 + length nm) + i * k) k = Ok (take k (drop (i * k) p))"
proof -
  have "(i + 1) * k \<le> length p div k * k" using assms(2) by (intro mult_le_mono1) simp
  also have "\<dots> \<le> length p" by simp
  finally have le: "i * k + k \<le> length p" by simp
  let ?H = "A @ u32_le (word_of_nat (length nm)) @ nm @ u32_le tc @ u32_le (word_of_nat (length p))"
  have mem: "mem = ?H @ p @ B" using assms(1) by (simp add: wire_field_def)
  have at: "GetFieldData (length A + 4 + length nm) + i * k = length ?H + i * k" by (simp add: GetFieldData_def)
  have "drop (length ?H + i * k) mem = drop (i * k) p @ B" unfolding mem using le
    by (simp only: drop_append) simp
  then show ?thesis unfolding at using le mem by (simp add: mem_read_def)
qed

lemma find_item_rep:
  assumes rep: "um_view mem msg pre w fs spare post" and nm: "length nm < 2 ^ 32"
    and fn: "is_cstr fn" "cstr fn @ [0] = nm"
    and dist: "distinct (map fst fs)" and cache: "cache_ok pre fs msg"
    and tc: "(tc, k) \<in> set micro_types"
  obtains msg' where
    "find_item (get_items tc) k mem msg fn idx = Ok (item_at k (field_data nm tc (visible fs)) (unat idx), msg')"
    "same_but_cache msg msg'" "cache_ok pre fs msg'"
proof (rule field_data_found [OF rep nm fn dist cache, of tc])
  fix msg'
  assume "GetFieldByName mem msg fn tc = Ok (None, msg')" "field_data nm tc (visible fs) = None"
    "same_but_cache msg msg'" "cache_ok pre fs msg'"
  then show thesis using that by (simp add: find_item_def get_items_def item_at_def)
next
  fix msg' A t p B
  assume g: "GetFieldByName mem msg fn tc = Ok (Some (length A), msg')"
    and d: "field_data nm tc (visible fs) = Some p"
    and m: "same_but_cache msg msg'" "cache_ok pre fs msg'" and mem: "mem = A @ wire_field nm t p @ B"
    and p: "length p < 2 ^ 32" and t: "matches tc t"
  have "tc \<noteq> B_ANY_TYPE" using tc by (auto simp: micro_types_def type_code_defs)
  then have "t = tc" using t by (auto simp: matches_def)
  note mem = mem [unfolded this]
  obtain n where n: "GetNumItemsInField mem msg' (length A + 4 + length nm) = Ok n" "unat n = length p div k"
    using items_in_field [OF mem p nm tc, of msg'] by (auto simp: obind_eq_Ok)
  have lt: "n \<le> idx \<longleftrightarrow> \<not> unat idx < length p div k" using n(2) by (simp add: word_le_nat_alt not_less)
  have "find_item (get_items tc) k mem msg fn idx = Ok (item_at k (Some p) (unat idx), msg')"
  proof (cases "unat idx < length p div k")
    case True
    then show ?thesis
      using item_read [OF mem True] field_type_pointer(2) [OF nm, of A tc p B] mem g n lt
      by (simp add: find_item_def get_items_def item_at_def)
  next
    case False
    then show ?thesis
      using field_type_pointer(2) [OF nm, of A tc p B] mem g n lt
      by (simp add: find_item_def get_items_def item_at_def)
  qed
  then show thesis using that d m by simp
qed

lemma item_at_concat:
  assumes "\<And>v. length (enc v) = k" and "0 < k" and "i < length vs"
  shows "item_at k (Some (concat (map enc vs))) i = Some (enc (vs ! i))"
proof -
  have "length (concat (map enc us)) = length us * k" for us by (rule concat_const_length [OF assms(1)])
  moreover have "vs = take i vs @ vs ! i # drop (Suc i) vs" using assms(3) by (rule id_take_nth_drop)
  then have "concat (map enc vs) = concat (map enc (take i vs)) @ enc (vs ! i) @ concat (map enc (drop (Suc i) vs))"
    by (metis append.assoc concat.simps(2) concat_append list.simps(9) map_append)
  ultimately show ?thesis using assms by (simp add: item_at_def)
qed

subsection \<open>Reading strings\<close>

lemma skip_strings:
  assumes "mem = A @ concat (map string_item ss) @ B" "length (concat (map string_item ss)) < 2 ^ 32"
  shows "j + k < length ss \<Longrightarrow>
    skip_items mem 0 (length A + length (concat (map string_item ss))) k
      (length A + 4 + length (concat (map string_item (take j ss)))) =
    Ok (Some (length A + 4 + length (concat (map string_item (take (j + k) ss)))))"
proof (induction k arbitrary: j)
  case (Suc k)
  let ?c = "\<lambda>ss. concat (map string_item ss)" and ?s = "cstr (c_string (ss ! j))"
  have ss: "ss = take j ss @ ss ! j # drop (Suc j) ss"
    using Suc.prems by (intro id_take_nth_drop) simp
  have split: "?c ss = ?c (take j ss) @ string_item (ss ! j) @ ?c (drop (Suc j) ss)"
    by (subst ss) simp
  have next_eq: "?c (take (Suc j) ss) = ?c (take j ss) @ string_item (ss ! j)"
    using Suc.prems by (simp add: take_Suc_conv_app_nth)
  have "drop (Suc j) ss \<noteq> []" using Suc.prems by simp
  then obtain s' ss' where "drop (Suc j) ss = s' # ss'" by (cases "drop (Suc j) ss") auto
  then have more: "5 \<le> length (?c (drop (Suc j) ss))" by (simp add: length_string_item)
  have "length ?s + 1 < 2 ^ 32" using assms(2) unfolding split by (simp add: length_string_item)
  then have sz: "unat (word_of_nat (length ?s + 1) :: u32) = length ?s + 1" by (rule unat_word_of_nat_u32)
  have rd: "UMReadInt32 mem (length A + length (?c (take j ss))) = Ok (word_of_nat (length ?s + 1))"
    using UMReadInt32_at [of "A @ ?c (take j ss)" _ "word_of_nat (length ?s + 1)"
        "?s @ [0] @ ?c (drop (Suc j) ss) @ B"]
    unfolding assms(1) split by (simp add: string_item_def [of "ss ! j"])
  have room: "\<not> unat (word_of_nat (length ?s + 1) :: u32) + 4 >
      ptr_room (length A + length (?c ss)) (length A + 4 + length (?c (take j ss)))"
    unfolding sz using more by (simp add: split length_string_item ptr_room_def)
  have nx: "length A + 4 + length (?c (take j ss)) + unat (word_of_nat (length ?s + 1) :: u32) + 4 =
      length A + 4 + length (?c (take (Suc j) ss))"
    unfolding sz next_eq by (simp add: length_string_item)
  have at: "length A + 4 + length (?c (take j ss)) - 4 = length A + length (?c (take j ss))" by simp
  have "skip_items mem 0 (length A + length (?c ss)) (Suc k) (length A + 4 + length (?c (take j ss))) =
      skip_items mem 0 (length A + length (?c ss)) k (length A + 4 + length (?c (take (Suc j) ss)))"
    unfolding skip_items.simps at rd obind_simps nx using room by (simp del: of_nat_add)
  then show ?case using Suc.IH [of "Suc j"] Suc.prems by simp
qed simp

lemma UMGetString_rep:
  assumes rep: "um_view mem msg pre w fs spare post" and nm: "length nm < 2 ^ 32"
    and fn: "is_cstr fn" "cstr fn @ [0] = nm"
    and dist: "distinct (map fst fs)" and cache: "cache_ok pre fs msg"
    and d: "field_data nm B_STRING_TYPE (visible fs) =
      Some (u32_le (word_of_nat (length ss)) @ concat (map string_item ss))"
  obtains msg' ptr where
    "UMGetString mem msg fn idx = Ok (if unat idx < length ss then Some ptr else None, msg')"
    "same_but_cache msg msg'" "cache_ok pre fs msg'"
    "unat idx < length ss \<Longrightarrow> \<exists>B. drop ptr mem = cstr (c_string (ss ! unat idx)) @ [0] @ B"
proof (rule field_data_found [OF rep nm fn dist cache, of B_STRING_TYPE])
  fix msg'
  assume "field_data nm B_STRING_TYPE (visible fs) = None"
  then show thesis using d by simp
next
  let ?c = "\<lambda>ss. concat (map string_item ss)"
  fix msg' A t p B
  assume g: "GetFieldByName mem msg fn B_STRING_TYPE = Ok (Some (length A), msg')"
    and d': "field_data nm B_STRING_TYPE (visible fs) = Some p"
    and m: "same_but_cache msg msg'" "cache_ok pre fs msg'" and mem: "mem = A @ wire_field nm t p @ B"
    and p: "length p < 2 ^ 32" and t: "matches B_STRING_TYPE t"
  have t: "t = B_STRING_TYPE" using t by (auto simp: matches_def type_code_defs)
  have p_eq: "p = u32_le (word_of_nat (length ss)) @ ?c ss" using d d' by simp
  let ?f = "length A + 4 + length nm"
  let ?H = "A @ u32_le (word_of_nat (length nm)) @ nm @ u32_le t @ u32_le (word_of_nat (length p))"
  have mem1: "mem = ?H @ u32_le (word_of_nat (length ss)) @ ?c ss @ B"
    unfolding mem p_eq by (simp add: wire_field_def)
  have H: "length ?H = ?f + 8" by simp
  have cl: "length (?c ss) < 2 ^ 32" using p by (simp add: p_eq)
  have "length ss \<le> length (?c ss)" by (simp add: length_string_items)
  then have n: "unat (word_of_nat (length ss) :: u32) = length ss" using cl by (intro unat_word_of_nat_u32) simp
  have up: "unat (word_of_nat (length p) :: u32) = length p" using p by (rule unat_word_of_nat_u32)
  note r = field_reads(1,2) [OF nm, of A t p B, folded mem] field_reads(3) [of A nm t p B, folded mem]
    field_reads(4) [of A nm t p B, folded mem]
  have rdn: "UMReadInt32 mem (?f + 8) = Ok (word_of_nat (length ss))"
    unfolding mem1 using UMReadInt32_at [of ?H "?f + 8"] by simp
  have "(4 :: u32) \<le> word_of_nat (length p)" using up by (simp add: word_le_nat_alt p_eq)
  then have num: "GetNumItemsInField mem msg' ?f = Ok (word_of_nat (length ss))"
    using r(3,4) rdn t by (simp add: GetNumItemsInField_def Let_def type_code_defs GetFieldData_def)
  show thesis
  proof (cases "unat idx < length ss")
    case False
    then have "word_of_nat (length ss) \<le> idx" using n by (simp add: word_le_nat_alt)
    then show thesis using that [of _ msg'] False m g r(2) num by (simp add: UMGetString_def)
  next
    case True
    let ?i = "unat idx"
    have lt: "\<not> word_of_nat (length ss) \<le> idx" using True n by (simp add: word_le_nat_alt)
    have mem2: "mem = (?H @ u32_le (word_of_nat (length ss))) @ ?c ss @ B" using mem1 by simp
    have "skip_items mem 0 (?f + 12 + length (?c ss)) ?i (?f + 12 + 4) =
        Ok (Some (?f + 16 + length (?c (take ?i ss))))"
      using skip_strings [OF mem2 cl, of 0 ?i] True by (simp add: add.commute add.left_commute)
    moreover have "GetFieldData ?f + length p = ?f + 12 + length (?c ss)" by (simp add: GetFieldData_def p_eq)
    ultimately have "UMGetString mem msg fn idx = Ok (Some (?f + 16 + length (?c (take ?i ss))), msg')"
      using g r num lt up by (simp add: UMGetString_def)
    moreover have "\<exists>B. drop (?f + 16 + length (?c (take ?i ss))) mem = cstr (c_string (ss ! ?i)) @ [0] @ B"
    proof -
      have ss: "?c ss = ?c (take ?i ss) @ string_item (ss ! ?i) @ ?c (drop (Suc ?i) ss)"
        by (subst id_take_nth_drop [OF True]) simp
      have "mem = (?H @ u32_le (word_of_nat (length ss)) @ ?c (take ?i ss)
            @ u32_le (word_of_nat (length (cstr (c_string (ss ! ?i))) + 1)))
          @ cstr (c_string (ss ! ?i)) @ [0] @ ?c (drop (Suc ?i) ss) @ B"
        unfolding mem1 ss by (simp add: string_item_def [of "ss ! ?i"])
      moreover have "length (?H @ u32_le (word_of_nat (length ss)) @ ?c (take ?i ss)
            @ u32_le (word_of_nat (length (cstr (c_string (ss ! ?i))) + 1))) = ?f + 16 + length (?c (take ?i ss))"
        by simp
      ultimately show ?thesis by (metis append_eq_conv_conj)
    qed
    ultimately show thesis using that [of "?f + 16 + length (?c (take ?i ss))" msg'] m True by simp
  qed
qed

end
