(* ===== verification/Micro_Interop.thy ===== *)
theory Micro_Interop
  imports Micro_Lookup Mini_Unflatten
begin

section \<open>MicroMessage and MiniMessage share one format\<close>

text \<open>
  What \<^verbatim>\<open>MMFlattenMessage\<close> writes is the representation of a UMessage with the flattenable fields of
  the Message: a UMessage on these bytes finds the items and the strings of the MMessage.
\<close>

definition ufields_of :: "bool \<Rightarrow> MMessageField list \<Rightarrow> ufield list" where
  "ufields_of big fs =
     map (\<lambda>f. (mf_name f, mf_typeCode f, wire_data big f)) (filter mf_isFlattenable fs)"

lemma wire_fields_ufields: "wire_fields big fs = ufields_bytes (ufields_of big fs)"
  by (induction fs) (simp_all add: ufields_of_def)

lemma wire_msg_ubytes: "wire_msg big m = ubytes (mm_what m) (ufields_of big (mm_fields m))"
  by (cases m) (simp add: ubytes_def wire_fields_ufields numFlattenableEntries_def ufields_of_def)

lemma wire_data_not_empty:
  assumes "wf_field f"
  shows "wire_data big f \<noteq> []"
proof (cases "mf_data f")
  case (FixedData bs)
  obtain nm tc isz n fl where f: "f = MField nm tc isz n (FixedData bs) fl"
    using FixedData by (cases f) simp
  have "0 < unat n" "0 < unat isz" "length bs = unat n * unat isz"
    using assms f
    by (auto simp: wf_head_def word_less_nat_alt type_item_size_def type_code_defs IsTypeCodeVariableSize_def
        split: if_splits)
  then have "0 < length (wire_data big f)" using f by simp
  then show ?thesis by simp
next
  case (BufData bufs)
  then show ?thesis by (cases f) simp
next
  case (MsgData msgs)
  obtain nm tc isz n fl where f: "f = MField nm tc isz n (MsgData msgs) fl"
    using MsgData by (cases f) simp
  have "0 < n" "length msgs = unat n" using assms f by (simp_all add: wf_head_def)
  then obtain x xs where "msgs = x # xs" by (cases msgs) (auto simp: word_less_nat_alt)
  then show ?thesis using f by (cases x) simp_all
qed

lemma visible_ufields:
  assumes "wf_fields fs"
  shows "visible (ufields_of big fs) = ufields_of big fs"
proof -
  have "snd (snd f) \<noteq> []" if "f \<in> set (ufields_of big fs)" for f
    using that assms wire_data_not_empty by (auto simp: ufields_of_def wf_fields_iff)
  then have "ufields_of big fs = [] \<or> snd (snd (last (ufields_of big fs))) \<noteq> []"
    using last_in_set by blast
  then show ?thesis by (auto simp: visible_def)
qed

lemma distinct_ufields:
  assumes "wf_msg m"
  shows "distinct (map fst (ufields_of big (mm_fields m)))"
proof -
  have "distinct (map field_key (mm_fields m))" using assms wf_uniq by (simp add: uniq_names_def)
  then have "distinct (map mf_name (mm_fields m))"
    by (auto simp: distinct_map field_key_def inj_on_def)
  then have "distinct (map mf_name (filter mf_isFlattenable (mm_fields m)))"
    by (rule distinct_map_filter)
  moreover have "map fst (ufields_of big (mm_fields m)) = map mf_name (filter mf_isFlattenable (mm_fields m))"
    by (simp add: ufields_of_def)
  ultimately show ?thesis by simp
qed

text \<open>What a look-up in the flattened Message is to find, in terms of the MMessage.\<close>

definition flat_data :: "bool \<Rightarrow> MMessage \<Rightarrow> u8 list \<Rightarrow> u32 \<Rightarrow> u8 list option" where
  "flat_data big m s tc = (case fmap m s of
     None \<Rightarrow> None
   | Some f \<Rightarrow> if mf_isFlattenable f \<and> matches tc (mf_typeCode f) then Some (wire_data big f) else None)"

lemma field_data_ufields:
  assumes "wf_fields fs" "distinct (map field_key fs)" "0 \<notin> set s"
  shows "field_data (s @ [0]) tc (ufields_of big fs) = flat_data big (MMsg w fs) s tc"
  using assms
proof (induction fs)
  case Nil
  then show ?case by (simp add: ufields_of_def flat_data_def fmap_def)
next
  case (Cons f fs)
  have nm: "mf_name f = field_key f @ [0]"
    using Cons.prems(1) wf_field_name wf_name_cstr unfolding field_key_def by simp
  have IH: "field_data (s @ [0]) tc (ufields_of big fs) = flat_data big (MMsg w fs) s tc"
    using Cons by simp
  have fm: "fmap (MMsg w (f # fs)) s = (if field_key f = s then Some f else fmap (MMsg w fs) s)"
    using Cons.prems(2) fmap_None [of "MMsg w fs" s]
    by (auto simp: fmap_def map_add_def split: option.splits)
  show ?case
  proof (cases "field_key f = s")
    case True
    then have "fmap (MMsg w fs) s = None" using Cons.prems(2) by (simp add: fmap_None)
    then show ?thesis
      using True IH nm fm by (simp add: ufields_of_def flat_data_def)
  next
    case False
    then show ?thesis using IH nm fm by (simp add: ufields_of_def flat_data_def)
  qed
qed

lemma existing_view_rep:
  assumes wf: "wf_msg m" and len: "length (wire_msg big m) < 2 ^ 32"
  shows "um_view (pre @ wire_msg big m @ post)
      (existing_view (length pre) (word_of_nat (length (wire_msg big m)))) pre (mm_what m)
      (ufields_of big (mm_fields m)) [] post"
    "UMInitializeWithExistingData (pre @ wire_msg big m @ post) (length pre)
      (word_of_nat (length (wire_msg big m))) =
      Ok (B_NO_ERROR, existing_view (length pre) (word_of_nat (length (wire_msg big m))))"
proof -
  let ?n = "word_of_nat (length (wire_msg big m)) :: u32"
  let ?v = "existing_view (length pre) ?n"
  have n: "unat ?n = length (wire_msg big m)" using len by (rule unat_word_of_nat_u32)
  have l12: "12 \<le> length (wire_msg big m)" by (simp add: wire_msg_ubytes length_ubytes)
  have "list_all wf_ufield (ufields_of big (mm_fields m))"
    using wf wf_field_name
    by (auto simp: ufields_of_def list_all_iff wf_ufield_def wf_msg_fields wf_fields_iff)
  then show "um_view (pre @ wire_msg big m @ post) ?v pre (mm_what m) (ufields_of big (mm_fields m)) [] post"
    using n by (simp add: um_view_def wire_msg_ubytes existing_view_def)
  have "unat (GetNumValidBytesAt ?v (length pre)) = length (wire_msg big m)"
    using valid_bytes_at [of ?v 0] n by (simp add: existing_view_def buf_addr_def)
  then have "GetNumValidBytesAt ?v (length pre) \<ge> 4" using l12 by (simp add: word_le_nat_alt)
  moreover have "UMReadInt32 (pre @ wire_msg big m @ post) (length pre) = Ok CURRENT_PROTOCOL_VERSION"
    using UMReadInt32_at [of pre "length pre" CURRENT_PROTOCOL_VERSION] by (simp add: wire_msg_ubytes ubytes_def)
  ultimately have "UMReadInt32AtOffset (pre @ wire_msg big m @ post) ?v 0 = Ok CURRENT_PROTOCOL_VERSION"
    by (simp add: UMReadInt32AtOffset_def existing_view_def buf_addr_def)
  moreover have "?n \<ge> word_of_nat MESSAGE_HEADER_SIZE"
    using n l12 by (simp add: word_le_nat_alt MESSAGE_HEADER_SIZE_def)
  ultimately show "UMInitializeWithExistingData (pre @ wire_msg big m @ post) (length pre) ?n = Ok (B_NO_ERROR, ?v)"
    by (simp add: UMInitializeWithExistingData_def)
qed

text \<open>The look-ups on the view that \<open>UMInitializeWithExistingData\<close> makes of a flattened Message.\<close>

definition flat_view :: "bool \<Rightarrow> MMessage \<Rightarrow> nat \<Rightarrow> UMessage" where
  "flat_view big m at = existing_view at (word_of_nat (length (wire_msg big m)))"

lemma flat_view_cache: "cache_ok pre fs (flat_view big m n)"
  by (simp add: cache_ok_def flat_view_def existing_view_def)

lemma field_data_flat:
  assumes "wf_msg m" "is_cstr fn"
  shows "field_data (cstr fn @ [0]) tc (visible (ufields_of big (mm_fields m))) = flat_data big m (cstr fn) tc"
  using assms field_data_ufields [of "mm_fields m" "cstr fn" tc big "mm_what m"]
  by (cases m) (simp add: visible_ufields wf_msg_fields uniq_names_def)

lemma micro_view_finds:
  assumes wf: "wf_msg m" and len: "length (wire_msg big m) < 2 ^ 32"
    and fn: "is_cstr fn" "length (cstr fn) + 1 < 2 ^ 32" and tc: "(tc, k) \<in> set micro_types"
  shows "\<exists>v'. find_item (get_items tc) k (pre @ wire_msg big m @ post) (flat_view big m (length pre)) fn idx =
        Ok (item_at k (flat_data big m (cstr fn) tc) (unat idx), v')"
proof -
  have nm: "length (cstr fn @ [0]) < 2 ^ 32" using fn(2) by simp
  show ?thesis
    using find_item_rep [OF existing_view_rep(1) [OF wf len, folded flat_view_def] nm fn(1) refl distinct_ufields [OF wf]
        flat_view_cache tc, of _ post idx] field_data_flat [OF wf fn(1), of tc big] by metis
qed

text \<open>What \<^verbatim>\<open>UMGetString\<close> is to answer for the strings \<open>ss\<close> of a field.\<close>

definition string_answer :: "u8 list \<Rightarrow> u8 list list \<Rightarrow> nat \<Rightarrow> nat option \<Rightarrow> bool" where
  "string_answer mem ss i r =
     (case r of
        None \<Rightarrow> length ss \<le> i
      | Some ptr \<Rightarrow> i < length ss \<and> (\<exists>rest. drop ptr mem = ss ! i @ [0] @ rest))"

definition zstring :: "u8 list \<Rightarrow> u8 list option" where
  "zstring s = Some (s @ [0])"

definition strings_data :: "u8 list list \<Rightarrow> u8 list" where
  "strings_data ss = u32_le (word_of_nat (length ss)) @ concat (map (\<lambda>s. u32_le (word_of_nat (length s + 1)) @ s @ [0]) ss)"

lemma zstring_item: "0 \<notin> set s \<Longrightarrow> string_item (zstring s) = u32_le (word_of_nat (length s + 1)) @ s @ [0]"
  by (simp add: string_item_def zstring_def c_string_def cstr_append)

lemma strings_data_items:
  "\<forall>s \<in> set ss. 0 \<notin> set s \<Longrightarrow>
   strings_data ss = u32_le (word_of_nat (length (map zstring ss))) @ concat (map string_item (map zstring ss))"
  by (induction ss) (simp_all add: strings_data_def zstring_item)

lemma micro_view_string:
  assumes wf: "wf_msg m" and len: "length (wire_msg big m) < 2 ^ 32"
    and fn: "is_cstr fn" "length (cstr fn) + 1 < 2 ^ 32"
    and d: "flat_data big m (cstr fn) B_STRING_TYPE = Some (strings_data ss)" and z: "\<forall>s \<in> set ss. 0 \<notin> set s"
  shows "\<exists>r v'. UMGetString (pre @ wire_msg big m @ post) (flat_view big m (length pre)) fn idx = Ok (r, v')
    \<and> string_answer (pre @ wire_msg big m @ post) ss (unat idx) r"
proof (rule UMGetString_rep [OF existing_view_rep(1) [OF wf len, folded flat_view_def] _ fn(1) refl distinct_ufields [OF wf]
        flat_view_cache, of "map zstring ss" _ post idx])
  show "length (cstr fn @ [0]) < 2 ^ 32" using fn(2) by simp
  show "field_data (cstr fn @ [0]) B_STRING_TYPE (visible (ufields_of big (mm_fields m))) =
      Some (u32_le (word_of_nat (length (map zstring ss))) @ concat (map string_item (map zstring ss)))"
    using d strings_data_items [OF z] by (simp add: field_data_flat [OF wf fn(1)])
next
  fix v' ptr
  let ?mem = "pre @ wire_msg big m @ post"
  assume g: "UMGetString ?mem (flat_view big m (length pre)) fn idx =
      Ok (if unat idx < length (map zstring ss) then Some ptr else None, v')"
    and p: "unat idx < length (map zstring ss) \<Longrightarrow>
      \<exists>B. drop ptr ?mem = cstr (c_string (map zstring ss ! unat idx)) @ [0] @ B"
  have "cstr (c_string (zstring (ss ! unat idx))) = ss ! unat idx" if "unat idx < length ss"
    using z that by (simp add: zstring_def c_string_def cstr_append)
  then show ?thesis using g p
    by (intro exI [of _ "if unat idx < length ss then Some ptr else None"] exI [of _ v'])
      (simp add: string_answer_def)
qed

lemma micro_finds_mini:
  assumes wf: "wf_msg m" and len: "length (wire_msg big m) < 2 ^ 32"
    and fn: "is_cstr fn" "length (cstr fn) + 1 < 2 ^ 32"
  shows "\<exists>v. UMInitializeWithExistingData (pre @ wire_msg big m @ post) (length pre)
      (word_of_nat (length (wire_msg big m))) = Ok (B_NO_ERROR, v)
    \<and> (\<forall>(tc, k) \<in> set micro_types. \<exists>v'. find_item (get_items tc) k (pre @ wire_msg big m @ post) v fn idx =
        Ok (item_at k (flat_data big m (cstr fn) tc) (unat idx), v'))
    \<and> (\<forall>ss. flat_data big m (cstr fn) B_STRING_TYPE = Some (strings_data ss) \<and> (\<forall>s \<in> set ss. 0 \<notin> set s) \<longrightarrow>
        (\<exists>r v'. UMGetString (pre @ wire_msg big m @ post) v fn idx = Ok (r, v')
          \<and> string_answer (pre @ wire_msg big m @ post) ss (unat idx) r))"
  using existing_view_rep(2) [OF wf len, of pre post] micro_view_finds [OF wf len fn, of _ _ pre post idx]
    micro_view_string [OF wf len fn, of _ pre post idx]
  by (intro exI [of _ "flat_view big m (length pre)"]) (auto simp: flat_view_def)

end
