(* ===== verification/Micro_Gateway.thy ===== *)
theory Micro_Gateway
  imports Micro_Interop Mini_Gateway
begin

section \<open>MicroMessageGateway: framing UMessages between two fixed buffers\<close>

text \<open>
  \<^verbatim>\<open>source/muscle/micromessage/MicroMessageGateway.c\<close>.  The gateway owns an input and an output
  buffer in \<open>mem\<close>; the UMessage under construction lies behind the queued bytes of the output buffer,
  a received UMessage at the front of the input buffer.  \<^verbatim>\<open>sendFunc\<close> and \<^verbatim>\<open>recvFunc\<close> are the
  caller's functions, as for MiniMessageGateway.  The loops take fuel.
\<close>

record UMessageGateway =
  ug_inputBuffer :: nat
  ug_inputBufferSize :: u32
  ug_numValidInputBytes :: u32
  ug_numInputBytesToRead :: u32
  ug_outputBuffer :: nat
  ug_outputBufferSize :: u32
  ug_firstValidOutputByte :: nat
  ug_numValidOutputBytes :: u32
  ug_preparingOutgoingMessage :: bool

definition GATEWAY_HEADER_SIZE :: u32 where "GATEWAY_HEADER_SIZE = 2 * 4"

definition UGGatewayInitialize :: "nat \<Rightarrow> u32 \<Rightarrow> nat \<Rightarrow> u32 \<Rightarrow> UMessageGateway" where
  "UGGatewayInitialize inputBuffer numInputBufferBytes outputBuffer numOutputBufferBytes =
     \<lparr>ug_inputBuffer = inputBuffer, ug_inputBufferSize = numInputBufferBytes,
      ug_numValidInputBytes = 0, ug_numInputBytesToRead = GATEWAY_HEADER_SIZE,
      ug_outputBuffer = outputBuffer, ug_outputBufferSize = numOutputBufferBytes,
      ug_firstValidOutputByte = outputBuffer, ug_numValidOutputBytes = 0,
      ug_preparingOutgoingMessage = False\<rparr>"

definition UGGetAvailableBytesCount :: "UMessageGateway \<Rightarrow> u32" where
  "UGGetAvailableBytesCount gw = word_of_int
     (int (ug_outputBuffer gw + unat (ug_outputBufferSize gw))
      - int (ug_firstValidOutputByte gw + unat (ug_numValidOutputBytes gw)))"

definition UGGetOutgoingMessage ::
    "u8 list \<Rightarrow> UMessageGateway \<Rightarrow> u32 \<Rightarrow> (UMessage \<times> u8 list \<times> UMessageGateway) outcome" where
  "UGGetOutgoingMessage mem gw whatCode =
     (if ug_preparingOutgoingMessage gw then Ok (UMInitializeToInvalid, mem, gw)
      else
        obind (if UGGetAvailableBytesCount gw < ug_outputBufferSize gw div 4 then
                 obind (mem_read mem (ug_firstValidOutputByte gw) (unat (ug_numValidOutputBytes gw)))
                   (\<lambda>bs. obind (mem_write mem (ug_outputBuffer gw) bs) (\<lambda>mem.
                 Ok (mem, gw\<lparr>ug_firstValidOutputByte := ug_outputBuffer gw\<rparr>)))
               else Ok (mem, gw)) (\<lambda>(mem, gw).
        let bytesAvail = UGGetAvailableBytesCount gw;
            nextAvailByte = ug_firstValidOutputByte gw + unat (ug_numValidOutputBytes gw) in
        if bytesAvail \<ge> GATEWAY_HEADER_SIZE + word_of_nat MESSAGE_HEADER_SIZE then
          obind (UMInitializeToEmptyMessage mem UMInitializeToInvalid
                   (nextAvailByte + unat GATEWAY_HEADER_SIZE) (bytesAvail - GATEWAY_HEADER_SIZE) whatCode)
            (\<lambda>(_, mem, ret). Ok (ret, mem, gw\<lparr>ug_preparingOutgoingMessage := True\<rparr>))
        else Ok (UMInitializeToInvalid, mem, gw)))"

definition UGOutgoingMessagePrepared ::
    "u8 list \<Rightarrow> UMessageGateway \<Rightarrow> UMessage \<Rightarrow> (u8 list \<times> UMessageGateway) outcome" where
  "UGOutgoingMessagePrepared mem gw msg =
     (if ug_preparingOutgoingMessage gw then
        let nextAvailByte = ug_firstValidOutputByte gw + unat (ug_numValidOutputBytes gw) in
        if um_buffer msg = Some (nextAvailByte + 2 * 4) then
          let msgSize = UMGetFlattenedSize msg in
          obind (UMWriteInt32 mem nextAvailByte msgSize) (\<lambda>mem.
          obind (UMWriteInt32 mem (nextAvailByte + 4) MUSCLE_MESSAGE_ENCODING_DEFAULT) (\<lambda>mem.
          Ok (mem, gw\<lparr>ug_numValidOutputBytes := ug_numValidOutputBytes gw + (GATEWAY_HEADER_SIZE + msgSize),
                      ug_preparingOutgoingMessage := False\<rparr>)))
        else Ok (mem, gw)
      else Ok (mem, gw))"

definition UGOutgoingMessageCancelled :: "UMessageGateway \<Rightarrow> UMessage \<Rightarrow> UMessageGateway" where
  "UGOutgoingMessageCancelled gw msg = gw\<lparr>ug_preparingOutgoingMessage := False\<rparr>"

definition UGHasBytesToOutput :: "UMessageGateway \<Rightarrow> bool" where
  "UGHasBytesToOutput gw \<longleftrightarrow> ug_numValidOutputBytes gw > 0"

text \<open>\<^verbatim>\<open>bytesToSend > maxBytes\<close> is unsigned, \<^verbatim>\<open>bytesSent < bytesToSend\<close> signed.\<close>

fun UGDoOutput :: "'e send_func \<Rightarrow> u8 list \<Rightarrow> nat \<Rightarrow> UMessageGateway \<Rightarrow> u32 \<Rightarrow> int \<Rightarrow> 'e \<Rightarrow>
    (int \<times> UMessageGateway \<times> 'e) outcome" where
  "UGDoOutput send mem fuel gw maxBytes totalSent e =
     (if ug_numValidOutputBytes gw > 0 \<and> word_of_int totalSent < maxBytes then
        (case fuel of
           0 \<Rightarrow> Spin
         | Suc fuel' \<Rightarrow>
             let bytesToSend = (if ug_numValidOutputBytes gw > maxBytes then maxBytes
                                else ug_numValidOutputBytes gw) in
             obind (mem_read mem (ug_firstValidOutputByte gw) (unat bytesToSend)) (\<lambda>bs.
             let (bytesSent, e') = send e bs in
             if bytesSent < 0 then Ok (-1, gw, e')
             else
               let n = ug_numValidOutputBytes gw - word_of_int bytesSent;
                   gw' = gw\<lparr>ug_numValidOutputBytes := n,
                            ug_firstValidOutputByte := (if n = 0 then ug_outputBuffer gw
                              else ug_firstValidOutputByte gw + nat bytesSent)\<rparr> in
               if bytesSent < sint bytesToSend then Ok (totalSent + bytesSent, gw', e')
               else UGDoOutput send mem fuel' gw' maxBytes (totalSent + bytesSent) e'))
      else Ok (totalSent, gw, e))"

declare UGDoOutput.simps [simp del]

text \<open>What happens when \<^verbatim>\<open>_numValidInputBytes\<close> reaches \<^verbatim>\<open>_numInputBytesToRead\<close>.\<close>

datatype u_input_step =
    UInput_error \<comment> \<open>\<^verbatim>\<open>return -1\<close>\<close>
  | UInput_more UMessageGateway \<comment> \<open>go on receiving\<close>
  | UInput_message UMessage UMessageGateway \<comment> \<open>\<^verbatim>\<open>*optRetMsg\<close> is the message: leave the loop\<close>

definition UGInputFilled :: "u8 list \<Rightarrow> UMessageGateway \<Rightarrow> u_input_step outcome" where
  "UGInputFilled mem gw =
     (if ug_numValidInputBytes gw = GATEWAY_HEADER_SIZE then
        obind (UMReadInt32 mem (ug_inputBuffer gw)) (\<lambda>bodySize.
        obind (UMReadInt32 mem (ug_inputBuffer gw + 4)) (\<lambda>magic.
        if bodySize < word_of_nat MESSAGE_HEADER_SIZE \<or> bodySize > ug_inputBufferSize gw
           \<or> magic \<noteq> MUSCLE_MESSAGE_ENCODING_DEFAULT then Ok UInput_error
        else Ok (UInput_more (gw\<lparr>ug_numValidInputBytes := 0, ug_numInputBytesToRead := bodySize\<rparr>))))
      else
        obind (UMInitializeWithExistingData mem (ug_inputBuffer gw) (ug_numValidInputBytes gw)) (\<lambda>(_, m).
        Ok (UInput_message m
          (gw\<lparr>ug_numValidInputBytes := 0, ug_numInputBytesToRead := GATEWAY_HEADER_SIZE\<rparr>))))"

fun UGDoInput :: "'e recv_func \<Rightarrow> nat \<Rightarrow> u8 list \<Rightarrow> UMessageGateway \<Rightarrow> u32 \<Rightarrow> int \<Rightarrow> 'e \<Rightarrow>
    (int \<times> UMessage \<times> u8 list \<times> UMessageGateway \<times> 'e) outcome" where
  "UGDoInput recv 0 mem gw maxBytes totalRecvd e = Spin"
| "UGDoInput recv (Suc fuel) mem gw maxBytes totalRecvd e =
     (let left = ug_numInputBytesToRead gw - ug_numValidInputBytes gw;
          bytesToRecv = (if left > maxBytes then maxBytes else left);
          (bytesReceived, bs, e') = recv e bytesToRecv in
      obind (mem_write mem (ug_inputBuffer gw + unat (ug_numValidInputBytes gw)) bs) (\<lambda>mem.
      if bytesReceived < 0 then Ok (-1, UMInitializeToInvalid, mem, gw, e')
      else
        let gw1 = gw\<lparr>ug_numValidInputBytes := ug_numValidInputBytes gw + word_of_int bytesReceived\<rparr> in
        obind (if ug_numValidInputBytes gw1 = ug_numInputBytesToRead gw1 then UGInputFilled mem gw1
               else Ok (UInput_more gw1)) (\<lambda>s.
        case s of
          UInput_error \<Rightarrow> Ok (-1, UMInitializeToInvalid, mem, gw1, e')
        | UInput_message m gw2 \<Rightarrow> Ok (totalRecvd + bytesReceived, m, mem, gw2, e')
        | UInput_more gw2 \<Rightarrow>
            if word_of_int bytesReceived < bytesToRecv
            then Ok (totalRecvd + bytesReceived, UMInitializeToInvalid, mem, gw2, e')
            else UGDoInput recv fuel mem gw2 maxBytes (totalRecvd + bytesReceived) e')))"

declare UGDoInput.simps(2) [simp del]

subsection \<open>The output buffer\<close>

text \<open>
  The output buffer holds bytes that are already sent, the queued bytes \<open>out\<close> and free space.
\<close>

definition ug_out :: "u8 list \<Rightarrow> UMessageGateway \<Rightarrow> u8 list \<Rightarrow> u8 list \<Rightarrow> u8 list \<Rightarrow> u8 list \<Rightarrow> u8 list \<Rightarrow> bool"
where
  "ug_out mem gw pre gone out free post \<longleftrightarrow>
     mem = pre @ gone @ out @ free @ post
     \<and> ug_outputBuffer gw = length pre
     \<and> unat (ug_outputBufferSize gw) = length gone + length out + length free
     \<and> ug_firstValidOutputByte gw = length pre + length gone
     \<and> unat (ug_numValidOutputBytes gw) = length out"

definition uframe :: "u8 list \<Rightarrow> u8 list" where
  "uframe body = u32_le (word_of_nat (length body)) @ u32_le MUSCLE_MESSAGE_ENCODING_DEFAULT @ body"

lemma frame_uframe: "frame big m = uframe (wire_msg big m)"
  by (simp add: frame_def uframe_def)

lemma ug_out_len: "ug_out mem gw pre gone out free post \<Longrightarrow> length gone + length out + length free < 2 ^ 32"
  using unat_u32_less [of "ug_outputBufferSize gw"] by (simp add: ug_out_def)

lemma ug_available:
  assumes "ug_out mem gw pre gone out free post"
  shows "unat (UGGetAvailableBytesCount gw) = length free"
proof -
  have "UGGetAvailableBytesCount gw = word_of_nat (length free)"
    using assms by (simp add: UGGetAvailableBytesCount_def ug_out_def)
  then show ?thesis using ug_out_len [OF assms] by (simp add: unat_word_of_nat_u32)
qed

lemma ug_out_move:
  assumes out: "ug_out mem gw pre gone out free post"
  obtains junk mem' where
    "mem_read mem (ug_firstValidOutputByte gw) (unat (ug_numValidOutputBytes gw)) = Ok out"
    "mem_write mem (ug_outputBuffer gw) out = Ok mem'"
    "ug_out mem' (gw\<lparr>ug_firstValidOutputByte := ug_outputBuffer gw\<rparr>) pre [] out junk post"
    "length junk = length gone + length free"
proof -
  have m: "mem = (pre @ gone) @ out @ (free @ post)" using out by (simp add: ug_out_def)
  have rd: "mem_read mem (ug_firstValidOutputByte gw) (unat (ug_numValidOutputBytes gw)) = Ok out"
    using out mem_read_append_left [of "pre @ gone" out "free @ post"] by (simp add: ug_out_def)
  obtain a junk where aj: "gone @ out @ free = a @ junk" "length a = length out"
    using split_length [of "length out" "gone @ out @ free"] by auto
  then have "length (gone @ out @ free) = length a + length junk" by simp
  then have lj: "length junk = length gone + length free" using aj(2) by simp
  have "mem = pre @ a @ (junk @ post)" unfolding m using aj(1) by simp
  then have wr: "mem_write mem (ug_outputBuffer gw) out = Ok (pre @ out @ (junk @ post))"
    using out aj(2) mem_write_mid [of pre "length pre" a out "junk @ post"] by (simp add: ug_out_def)
  have "ug_out (pre @ out @ (junk @ post)) (gw\<lparr>ug_firstValidOutputByte := ug_outputBuffer gw\<rparr>) pre [] out junk post"
    using out lj by (simp add: ug_out_def)
  then show thesis using that [OF rd wr] lj by blast
qed

text \<open>
  A UMessage under construction: eight bytes are kept free in front of it, and it may grow to the
  end of the output buffer.
\<close>

definition ug_building ::
    "u8 list \<Rightarrow> UMessageGateway \<Rightarrow> UMessage \<Rightarrow> u8 list \<Rightarrow> u8 list \<Rightarrow> u32 \<Rightarrow> ufield list \<Rightarrow> u8 list \<Rightarrow> bool" where
  "ug_building mem gw msg pre out w fs post \<longleftrightarrow>
     (\<exists>gone hdr spare. ug_out mem gw pre gone out (hdr @ ubytes w fs @ spare) post \<and> length hdr = 8
        \<and> um_rep mem msg (pre @ gone @ out @ hdr) w fs spare post \<and> can_add msg)
     \<and> ug_preparingOutgoingMessage gw"

text \<open>The room there is for a UMessage once the queued bytes are at the front, if they move there.\<close>

definition ug_room :: "u8 list \<Rightarrow> u8 list \<Rightarrow> u8 list \<Rightarrow> nat" where
  "ug_room gone out free =
     (if length free < (length gone + length out + length free) div 4 then length gone + length free
      else length free)"

lemma UGGetOutgoingMessage_rep:
  assumes out: "ug_out mem gw pre gone out free post" and np: "\<not> ug_preparingOutgoingMessage gw"
  obtains (room) msg mem' gw' where
      "20 \<le> ug_room gone out free" "UGGetOutgoingMessage mem gw w = Ok (msg, mem', gw')"
      "ug_building mem' gw' msg pre out w [] post"
  | (full) mem' gw' gone' free' where
      "ug_room gone out free < 20" "UGGetOutgoingMessage mem gw w = Ok (UMInitializeToInvalid, mem', gw')"
      "ug_out mem' gw' pre gone' out free' post" "\<not> ug_preparingOutgoingMessage gw'"
proof -
  have lt: "UGGetAvailableBytesCount gw < ug_outputBufferSize gw div 4 \<longleftrightarrow>
      length free < (length gone + length out + length free) div 4"
    using out ug_available [OF out] by (simp add: word_less_nat_alt unat_div ug_out_def)
  obtain mem1 gw1 gone1 free1 where
    mv: "(if UGGetAvailableBytesCount gw < ug_outputBufferSize gw div 4 then
            obind (mem_read mem (ug_firstValidOutputByte gw) (unat (ug_numValidOutputBytes gw)))
              (\<lambda>bs. obind (mem_write mem (ug_outputBuffer gw) bs) (\<lambda>mem.
            Ok (mem, gw\<lparr>ug_firstValidOutputByte := ug_outputBuffer gw\<rparr>)))
          else Ok (mem, gw)) = Ok (mem1, gw1)"
    and out1: "ug_out mem1 gw1 pre gone1 out free1 post" and np1: "\<not> ug_preparingOutgoingMessage gw1"
    and l1: "length free1 = ug_room gone out free"
  proof (cases "UGGetAvailableBytesCount gw < ug_outputBufferSize gw div 4")
    case True
    obtain junk mem' where j: "mem_read mem (ug_firstValidOutputByte gw) (unat (ug_numValidOutputBytes gw)) = Ok out"
      "mem_write mem (ug_outputBuffer gw) out = Ok mem'"
      "ug_out mem' (gw\<lparr>ug_firstValidOutputByte := ug_outputBuffer gw\<rparr>) pre [] out junk post"
      "length junk = length gone + length free"
      by (rule ug_out_move [OF out])
    show thesis
      by (rule that [OF _ j(3)]) (use True lt j np in \<open>simp_all add: ug_room_def\<close>)
  next
    case False
    show thesis by (rule that [OF _ out np]) (use False lt in \<open>simp_all add: ug_room_def\<close>)
  qed
  let ?av = "UGGetAvailableBytesCount gw1"
  note av = ug_available [OF out1]
  have G: "UGGetOutgoingMessage mem gw w =
      (if 20 \<le> length free1 then
         obind (UMInitializeToEmptyMessage mem1 UMInitializeToInvalid
             (length (pre @ gone1 @ out) + 8) (?av - 8) w)
           (\<lambda>(_, mem, ret). Ok (ret, mem, gw1\<lparr>ug_preparingOutgoingMessage := True\<rparr>))
       else Ok (UMInitializeToInvalid, mem1, gw1))"
  proof -
    have "?av \<ge> GATEWAY_HEADER_SIZE + word_of_nat MESSAGE_HEADER_SIZE \<longleftrightarrow> 20 \<le> length free1"
      using av by (simp add: word_le_nat_alt GATEWAY_HEADER_SIZE_def MESSAGE_HEADER_SIZE_def)
    then show ?thesis
      using np mv out1
      by (simp add: UGGetOutgoingMessage_def Let_def GATEWAY_HEADER_SIZE_def ug_out_def add.assoc)
  qed
  show thesis
  proof (cases "20 \<le> length free1")
    case False
    then show thesis using full [OF _ _ out1 np1] G l1 by simp
  next
    case True
    obtain hdr buf where hb: "free1 = hdr @ buf" "length hdr = 8" using True split_length [of 8 free1] by auto
    have a8: "unat (?av - 8) = length buf"
      using av hb True by (subst unat_sub_le) (simp_all add: word_le_nat_alt)
    have a12: "12 \<le> ?av - 8" using a8 True hb by (simp add: word_le_nat_alt)
    let ?p = "pre @ gone1 @ out @ hdr"
    have m1: "mem1 = ?p @ buf @ post" using out1 hb by (simp add: ug_out_def)
    obtain mem' msg' where in1: "UMInitializeToEmptyMessage (?p @ buf @ post) UMInitializeToInvalid (length ?p)
        (?av - 8) w = Ok (B_NO_ERROR, mem', msg')"
      and rep: "um_rep mem' msg' ?p w [] (drop 12 buf) post" and can: "can_add msg'"
      by (rule UMInitializeToEmptyMessage_rep [where pre = ?p and post = post and w = w
            and msg = UMInitializeToInvalid, OF a8 [symmetric] a12])
    have lb: "12 \<le> length buf" using True hb by simp
    have ad: "length ?p = length (pre @ gone1 @ out) + 8" using hb by simp
    have "UGGetOutgoingMessage mem gw w = Ok (msg', mem', gw1\<lparr>ug_preparingOutgoingMessage := True\<rparr>)"
      unfolding G if_P [OF True] using in1 [folded m1, unfolded ad] by simp
    moreover have "ug_building mem' (gw1\<lparr>ug_preparingOutgoingMessage := True\<rparr>) msg' pre out w [] post"
    proof -
      have "mem' = ?p @ ubytes w [] @ drop 12 buf @ post" using rep by (simp add: um_rep_def um_view_def)
      then have "ug_out mem' (gw1\<lparr>ug_preparingOutgoingMessage := True\<rparr>) pre gone1 out
          (hdr @ ubytes w [] @ drop 12 buf) post"
        using out1 hb lb by (simp add: ug_out_def ubytes_def)
      then show ?thesis using rep can hb(2) unfolding ug_building_def by auto
    qed
    ultimately show thesis using room True l1 by simp
  qed
qed

text \<open>An operation that adds to the UMessage leaves the gateway in order.\<close>

lemma ug_building_adds:
  assumes b: "ug_building mem gw msg pre out w fs post"
    and op: "\<And>gone hdr spare. length hdr = 8 \<Longrightarrow> um_rep mem msg (pre @ gone @ out @ hdr) w fs spare post \<Longrightarrow>
      can_add msg \<Longrightarrow> adds mem msg (pre @ gone @ out @ hdr) w post (fs' (length spare)) r"
  shows "\<exists>st mem' msg'. r = Ok (st, mem', [msg'])
    \<and> (st = B_ERROR \<longrightarrow> mem' = mem \<and> msg' = msg)
    \<and> (st = B_NO_ERROR \<longrightarrow> (\<exists>sp gs. fs' sp = Some gs \<and> ug_building mem' gw msg' pre out w gs post))"
proof -
  obtain gone hdr spare where o: "ug_out mem gw pre gone out (hdr @ ubytes w fs @ spare) post" "length hdr = 8"
    and rep: "um_rep mem msg (pre @ gone @ out @ hdr) w fs spare post" and can: "can_add msg"
    and pr: "ug_preparingOutgoingMessage gw"
    using b unfolding ug_building_def by auto
  note a = op [OF o(2) rep can]
  show ?thesis
  proof (cases "fs' (length spare)")
    case None
    then show ?thesis using a by (simp add: adds_def)
  next
    case (Some gs)
    then obtain mem' msg' spare' where r: "r = Ok (B_NO_ERROR, mem', [msg'])"
      and rep': "um_rep mem' msg' (pre @ gone @ out @ hdr) w gs spare' post" and can': "can_add msg'"
      and bs: "um_bufferSize msg' = um_bufferSize msg"
      using a by (auto simp: adds_def)
    have "length (ubytes w gs) + length spare' = length (ubytes w fs) + length spare"
      using rep rep' bs by (simp add: um_rep_def um_view_def)
    then have "ug_out mem' gw pre gone out (hdr @ ubytes w gs @ spare') post"
      using o rep' by (simp add: ug_out_def um_rep_def um_view_def)
    then have "ug_building mem' gw msg' pre out w gs post"
      using o(2) rep' can' pr unfolding ug_building_def by blast
    then show ?thesis using r Some by auto
  qed
qed

lemma UGOutgoingMessagePrepared_rep:
  assumes b: "ug_building mem gw msg pre out w fs post"
  obtains mem' gw' gone spare where
    "UGOutgoingMessagePrepared mem gw msg = Ok (mem', gw')"
    "ug_out mem' gw' pre gone (out @ uframe (ubytes w fs)) spare post" "\<not> ug_preparingOutgoingMessage gw'"
proof -
  obtain gone hdr spare where o: "ug_out mem gw pre gone out (hdr @ ubytes w fs @ spare) post" "length hdr = 8"
    and rep: "um_rep mem msg (pre @ gone @ out @ hdr) w fs spare post"
    and pr: "ug_preparingOutgoingMessage gw"
    using b unfolding ug_building_def by auto
  let ?p = "pre @ gone @ out" and ?n = "UMGetFlattenedSize msg"
  obtain h1 h2 where h: "hdr = h1 @ h2" "length h1 = 4" "length h2 = 4"
    using o(2) split_length [of 4 hdr] by auto
  have n: "unat ?n = length (ubytes w fs)" using rep by (simp add: um_rep_def um_view_def UMGetFlattenedSize_def)
  have nw: "?n = word_of_nat (length (ubytes w fs))"
    using n by (metis unat_u32_less unat_word_of_nat_u32 word_unat_eq_iff)
  have bf: "um_buffer msg = Some (ug_firstValidOutputByte gw + unat (ug_numValidOutputBytes gw) + 2 * 4)"
    using rep o by (simp add: um_rep_def um_view_def ug_out_def)
  have at: "ug_firstValidOutputByte gw + unat (ug_numValidOutputBytes gw) = length ?p"
    using o(1) by (simp add: ug_out_def)
  have mem: "mem = ?p @ h1 @ h2 @ ubytes w fs @ spare @ post" using o(1) h by (simp add: ug_out_def)
  have w1: "UMWriteInt32 mem (length ?p) ?n = Ok (?p @ u32_le ?n @ h2 @ ubytes w fs @ spare @ post)"
    unfolding mem by (rule UMWriteInt32_at [OF refl h(2)])
  have w2: "UMWriteInt32 (?p @ u32_le ?n @ h2 @ ubytes w fs @ spare @ post) (length ?p + 4)
      MUSCLE_MESSAGE_ENCODING_DEFAULT = Ok (?p @ uframe (ubytes w fs) @ spare @ post)"
    using UMWriteInt32_at [of "?p @ u32_le ?n" "length ?p + 4" h2 "ubytes w fs @ spare @ post"
        MUSCLE_MESSAGE_ENCODING_DEFAULT] h(3)
    by (simp add: uframe_def nw)
  let ?g = "gw\<lparr>ug_numValidOutputBytes := ug_numValidOutputBytes gw + (GATEWAY_HEADER_SIZE + ?n),
      ug_preparingOutgoingMessage := False\<rparr>"
  have P: "UGOutgoingMessagePrepared mem gw msg = Ok (?p @ uframe (ubytes w fs) @ spare @ post, ?g)"
    unfolding UGOutgoingMessagePrepared_def Let_def if_P [OF pr] if_P [OF bf] unfolding at w1 obind_simps w2 ..
  have tot: "length gone + length out + (8 + length (ubytes w fs) + length spare) < 2 ^ 32"
    using ug_out_len [OF o(1)] o(2) by simp
  have h8: "unat (GATEWAY_HEADER_SIZE + ?n) = 8 + length (ubytes w fs)"
    using n tot by (subst unat_add_no_wrap) (simp_all add: GATEWAY_HEADER_SIZE_def)
  have "unat (ug_numValidOutputBytes gw + (GATEWAY_HEADER_SIZE + ?n)) = length out + (8 + length (ubytes w fs))"
    using h8 tot o(1) by (subst unat_add_no_wrap) (simp_all add: ug_out_def)
  then have "ug_out (?p @ uframe (ubytes w fs) @ spare @ post) ?g pre gone (out @ uframe (ubytes w fs)) spare post"
    using o by (simp add: ug_out_def uframe_def)
  then show thesis using that [OF P] by simp
qed

subsection \<open>Output sends what is queued, in order\<close>

lemma ug_out_sent:
  assumes out: "ug_out mem gw pre gone out free post" and k: "k \<le> length out"
  defines "n \<equiv> ug_numValidOutputBytes gw - word_of_nat k"
  shows "unat n = length out - k"
    "\<exists>gone' free'. ug_out mem (gw\<lparr>ug_numValidOutputBytes := n, ug_firstValidOutputByte :=
      (if n = 0 then ug_outputBuffer gw else ug_firstValidOutputByte gw + k)\<rparr>) pre gone' (drop k out) free' post"
proof -
  have "k < 2 ^ 32" using ug_out_len [OF out] k by simp
  then have uk: "unat (word_of_nat k :: u32) = k" by (rule unat_word_of_nat_u32)
  have nv: "unat (ug_numValidOutputBytes gw) = length out" using out by (simp add: ug_out_def)
  show n: "unat n = length out - k"
    unfolding n_def using uk k nv by (subst unat_sub_le) (simp_all add: word_le_nat_alt)
  show "\<exists>gone' free'. ug_out mem (gw\<lparr>ug_numValidOutputBytes := n, ug_firstValidOutputByte :=
      (if n = 0 then ug_outputBuffer gw else ug_firstValidOutputByte gw + k)\<rparr>) pre gone' (drop k out) free' post"
  proof (cases "n = 0")
    case True
    then have "k = length out" using n k by simp
    then have "ug_out mem (gw\<lparr>ug_numValidOutputBytes := n, ug_firstValidOutputByte := ug_outputBuffer gw\<rparr>)
        pre [] (drop k out) (gone @ out @ free) post"
      using out True by (simp add: ug_out_def)
    then show ?thesis using True by auto
  next
    case False
    have "ug_out mem (gw\<lparr>ug_numValidOutputBytes := n, ug_firstValidOutputByte := ug_firstValidOutputByte gw + k\<rparr>)
        pre (gone @ take k out) (drop k out) free post"
      using out n k by (simp add: ug_out_def)
    then show ?thesis using False by auto
  qed
qed

lemma sint_small:
  assumes "unat (b :: u32) < 2 ^ 31"
  shows "sint b = int (unat b)"
proof -
  have "uint b = int (unat b)" by simp
  moreover have "int (unat b) < int (2 ^ 31)" using assms by (simp only: of_nat_less_iff)
  ultimately have "uint b < 2 ^ 31" by simp
  moreover have "- (2 ^ 31) \<le> uint b" by (rule order_trans [OF _ uint_ge_0]) simp
  ultimately have "signed_take_bit 31 (uint b) = uint b" by (intro signed_take_bit_int_eq_self)
  then show ?thesis by (simp add: sint_uint)
qed
lemma UGDoOutput_rep:
  assumes out: "ug_out mem gw pre gone out free post" and send: "good_send send sent"
    and len: "length out < 2 ^ 31" and some: "out \<noteq> []" "0 < maxBytes"
  obtains (failed) e' where "UGDoOutput send mem (Suc fuel) gw maxBytes 0 e = Ok (-1, gw, e')" "sent e' = sent e"
  | (progressed) k gw' gone' free' e' where
      "UGDoOutput send mem (Suc fuel) gw maxBytes 0 e = Ok (int k, gw', e')"
      "k \<le> length out" "k \<le> unat maxBytes" "sent e' = sent e @ take k out"
      "ug_out mem gw' pre gone' (drop k out) free' post"
proof -
  have nv: "unat (ug_numValidOutputBytes gw) = length out" using out by (simp add: ug_out_def)
  have go: "0 < ug_numValidOutputBytes gw" using nv some(1) by (simp add: word_less_nat_alt)
  let ?b = "if ug_numValidOutputBytes gw > maxBytes then maxBytes else ug_numValidOutputBytes gw"
  let ?k = "min (length out) (unat maxBytes)"
  have b: "unat ?b = ?k" using nv by (auto simp: word_less_nat_alt)
  have sb: "sint ?b = int ?k"
    using sint_small [of ?b] b len by simp
  have m: "mem = (pre @ gone) @ take ?k out @ (drop ?k out @ free @ post)"
    using out by (simp add: ug_out_def)
  have ad: "ug_firstValidOutputByte gw = length (pre @ gone)" using out by (simp add: ug_out_def)
  have rd: "mem_read mem (ug_firstValidOutputByte gw) (unat ?b) = Ok (take ?k out)"
    using mem_read_append_left [of "pre @ gone" "take ?k out" "drop ?k out @ free @ post"]
    unfolding m [symmetric] ad b by simp
  obtain r e' where sd: "send e (take ?k out) = (r, e')" by (cases "send e (take ?k out)")
  note g = send [unfolded good_send_def, rule_format, of e "take ?k out", unfolded sd prod.case]
  show thesis
  proof (cases "r < 0")
    case True
    then have "UGDoOutput send mem (Suc fuel) gw maxBytes 0 e = Ok (-1, gw, e')"
      using go some(2) by (subst UGDoOutput.simps) (simp add: Let_def rd sd del: if_split)
    then show thesis using failed g True by simp
  next
    case False
    then obtain k where r: "r = int k" by (metis nonneg_int_cases not_less)
    have k: "k \<le> ?k" "sent e' = sent e @ take k out" using g r by (auto simp: take_take min_absorb1)
    have k1: "k \<le> length out" using k(1) by simp
    let ?n = "ug_numValidOutputBytes gw - word_of_nat k"
    let ?g = "gw\<lparr>ug_numValidOutputBytes := ?n, ug_firstValidOutputByte :=
        (if ?n = 0 then ug_outputBuffer gw else ug_firstValidOutputByte gw + k)\<rparr>"
    note s = ug_out_sent [OF out k1]
    have stop: "UGDoOutput send mem fuel ?g maxBytes (int k) e' = Ok (int k, ?g, e')" if "k = ?k"
    proof (cases "length out \<le> unat maxBytes")
      case True
      then have "?n = 0" using that s(1) by (simp add: unat_eq_zero)
      then show ?thesis by (subst UGDoOutput.simps) simp
    next
      case False
      then have "word_of_nat k = maxBytes" using that by simp
      then show ?thesis by (subst UGDoOutput.simps) simp
    qed
    have "UGDoOutput send mem (Suc fuel) gw maxBytes 0 e =
        (if r < sint ?b then Ok (r, ?g, e') else UGDoOutput send mem fuel ?g maxBytes r e')"
      using go some(2) r by (subst UGDoOutput.simps) (simp add: Let_def rd sd del: if_split)
    then have "UGDoOutput send mem (Suc fuel) gw maxBytes 0 e = Ok (int k, ?g, e')"
      using stop k(1) unfolding sb r by (cases "k = ?k") auto
    then show thesis using progressed [of k ?g e'] k k1 s(2) by auto
  qed
qed

text \<open>
  Output while a UMessage is under construction: when everything queued before it goes out, the
  queue is moved to the front of the buffer, and \<^verbatim>\<open>UGOutgoingMessagePrepared\<close> does not take the
  UMessage at its old place.  Nothing is queued and the gateway stays in its preparing state.
\<close>

lemma UGOutgoingMessagePrepared_stranded:
  assumes b: "ug_building mem gw msg pre out w fs post" and out: "out \<noteq> []"
    and gw': "gw' = gw\<lparr>ug_numValidOutputBytes := 0, ug_firstValidOutputByte := ug_outputBuffer gw\<rparr>"
  shows "UGOutgoingMessagePrepared mem gw' msg = Ok (mem, gw')" "ug_preparingOutgoingMessage gw'"
proof -
  obtain gone hdr spare where o: "ug_out mem gw pre gone out (hdr @ ubytes w fs @ spare) post" "length hdr = 8"
    and rep: "um_rep mem msg (pre @ gone @ out @ hdr) w fs spare post"
    and pr: "ug_preparingOutgoingMessage gw"
    using b unfolding ug_building_def by auto
  show "ug_preparingOutgoingMessage gw'" using pr gw' by simp
  then show "UGOutgoingMessagePrepared mem gw' msg = Ok (mem, gw')"
    using o rep out gw' by (simp add: UGOutgoingMessagePrepared_def um_rep_def um_view_def ug_out_def)
qed

subsection \<open>Input hands over the UMessage of each frame\<close>

definition ug_in :: "u8 list \<Rightarrow> UMessageGateway \<Rightarrow> u8 list \<Rightarrow> u8 list \<Rightarrow> u8 list \<Rightarrow> bool" where
  "ug_in mem gw pre ibuf post \<longleftrightarrow>
     mem = pre @ ibuf @ post \<and> ug_inputBuffer gw = length pre
     \<and> unat (ug_inputBufferSize gw) = length ibuf \<and> 8 \<le> length ibuf"

text \<open>
  The part \<open>p\<close> of the frame \<open>f\<close> has arrived.  The header is overwritten by the body, so the buffer
  holds the part of \<open>p\<close> behind the header once that is complete.
\<close>

definition ug_progress :: "UMessageGateway \<Rightarrow> u8 list \<Rightarrow> u8 list \<Rightarrow> u8 list \<Rightarrow> bool" where
  "ug_progress gw ibuf p f \<longleftrightarrow>
     (if length p < 8
      then ug_numInputBytesToRead gw = 8 \<and> unat (ug_numValidInputBytes gw) = length p \<and> take (length p) ibuf = p
      else unat (ug_numInputBytesToRead gw) = length f - 8
           \<and> unat (ug_numValidInputBytes gw) = length p - 8 \<and> take (length p - 8) ibuf = drop 8 p)"

lemma UGInputFilled_header:
  assumes inb: "ug_in mem gw pre ibuf post" and t8: "take 8 ibuf = take 8 (uframe body)"
    and v: "ug_numValidInputBytes gw = 8" and body: "12 \<le> length body" "length body \<le> length ibuf"
  shows "UGInputFilled mem gw =
    Ok (UInput_more (gw\<lparr>ug_numValidInputBytes := 0, ug_numInputBytesToRead := word_of_nat (length body)\<rparr>))"
proof -
  let ?n = "word_of_nat (length body) :: u32"
  have lb: "length ibuf < 2 ^ 32" using inb unat_u32_less [of "ug_inputBufferSize gw"] by (simp add: ug_in_def)
  have n: "unat ?n = length body" using body lb by (intro unat_word_of_nat_u32) simp
  have "ibuf = take 8 ibuf @ drop 8 ibuf" by simp
  then have ib: "ibuf = u32_le ?n @ u32_le MUSCLE_MESSAGE_ENCODING_DEFAULT @ drop 8 ibuf"
    unfolding t8 by (simp add: uframe_def)
  have mem: "mem = pre @ u32_le ?n @ u32_le MUSCLE_MESSAGE_ENCODING_DEFAULT @ drop 8 ibuf @ post"
    using inb ib by (simp add: ug_in_def)
  have r1: "UMReadInt32 mem (ug_inputBuffer gw) = Ok ?n"
    using inb unfolding mem by (simp add: ug_in_def UMReadInt32_at)
  have r2: "UMReadInt32 mem (ug_inputBuffer gw + 4) = Ok MUSCLE_MESSAGE_ENCODING_DEFAULT"
    using inb UMReadInt32_at [of "pre @ u32_le ?n" "length pre + 4"] unfolding mem by (simp add: ug_in_def)
  have "\<not> ?n < word_of_nat MESSAGE_HEADER_SIZE" "\<not> ?n > ug_inputBufferSize gw"
    using n body inb by (simp_all add: word_less_nat_alt MESSAGE_HEADER_SIZE_def ug_in_def)
  then show ?thesis using v r1 r2 by (simp add: UGInputFilled_def GATEWAY_HEADER_SIZE_def)
qed

lemma UGInputFilled_body:
  assumes v: "unat (ug_numValidInputBytes gw) = length body" "12 \<le> length body" "length body < 2 ^ 32"
    and mem: "mem = pre @ body @ post" "ug_inputBuffer gw = length pre"
  shows "UGInputFilled mem gw =
    Ok (UInput_message (existing_view (length pre) (word_of_nat (length body)))
      (gw\<lparr>ug_numValidInputBytes := 0, ug_numInputBytesToRead := 8\<rparr>))"
proof -
  have nv: "ug_numValidInputBytes gw = word_of_nat (length body)"
    using v(1) by (metis unat_u32_less unat_word_of_nat_u32 word_unat_eq_iff)
  have n: "unat (word_of_nat (length body) :: u32) = length body" using v(3) by (rule unat_word_of_nat_u32)
  have n8: "word_of_nat (length body) \<noteq> (8 :: u32)" using n v(2) by auto
  have ge: "(word_of_nat (length body) :: u32) \<ge> word_of_nat MESSAGE_HEADER_SIZE"
    using n v(2) by (simp add: word_le_nat_alt MESSAGE_HEADER_SIZE_def)
  let ?v = "existing_view (length pre) (word_of_nat (length body))"
  have "unat (GetNumValidBytesAt ?v (length pre)) = length body"
    using valid_bytes_at [of ?v 0] n by (simp add: existing_view_def buf_addr_def)
  then have g: "GetNumValidBytesAt ?v (length pre) \<ge> 4" using v(2) by (simp add: word_le_nat_alt)
  have "\<exists>x. UMReadInt32 mem (length pre) = Ok x"
    using mem v(2) by (simp add: UMReadInt32_def mem_read_def)
  then obtain x where "UMReadInt32AtOffset mem ?v 0 = Ok x"
    using g by (auto simp: UMReadInt32AtOffset_def existing_view_def buf_addr_def)
  then show ?thesis
    using n8 ge mem(2) nv
    by (simp add: UGInputFilled_def GATEWAY_HEADER_SIZE_def UMInitializeWithExistingData_def)
qed

lemma UGDoInput_round:
  assumes inb: "ug_in mem gw pre ibuf post" and pr: "ug_progress gw ibuf p (uframe body)"
    and f: "uframe body = p @ q" "q \<noteq> []" and body: "12 \<le> length body" "length body \<le> length ibuf"
    and arr: "arriving e = q @ ys" and recv: "good_recv recv arriving" and mx: "0 < maxBytes"
  obtains (failed) e' where
      "UGDoInput recv (Suc fuel) mem gw maxBytes tot e = Ok (-1, UMInitializeToInvalid, mem, gw, e')"
      "arriving e' = q @ ys"
  | (goes_on) bs q' ibuf' gw' e' where
      "q = bs @ q'" "q' \<noteq> []" "arriving e' = q' @ ys"
      "ug_in (pre @ ibuf' @ post) gw' pre ibuf' post" "ug_progress gw' ibuf' (p @ bs) (uframe body)"
      "UGDoInput recv (Suc fuel) mem gw maxBytes tot e =
         Ok (tot + int (length bs), UMInitializeToInvalid, pre @ ibuf' @ post, gw', e')
       \<or> bs \<noteq> [] \<and> UGDoInput recv (Suc fuel) mem gw maxBytes tot e =
         UGDoInput recv fuel (pre @ ibuf' @ post) gw' maxBytes (tot + int (length bs)) e'"
      "length ibuf' = length ibuf"
  | (message) ibuf' gw' e' where
      "UGDoInput recv (Suc fuel) mem gw maxBytes tot e = Ok (tot + int (length q),
         existing_view (length pre) (word_of_nat (length body)), pre @ (body @ ibuf') @ post, gw', e')"
      "arriving e' = ys" "ug_in (pre @ (body @ ibuf') @ post) gw' pre (body @ ibuf') post"
      "\<forall>f. ug_progress gw' (body @ ibuf') [] f" "length (body @ ibuf') = length ibuf"
proof -
  let ?v = "ug_numValidInputBytes gw" and ?R = "ug_numInputBytesToRead gw"
  define c where "c = (if length p < 8 then p else drop 8 p)"
  have ib: "length ibuf < 2 ^ 32" using inb unat_u32_less [of "ug_inputBufferSize gw"] by (simp add: ug_in_def)
  have lf: "length (uframe body) = 8 + length body" by (simp add: uframe_def)
  have lq: "length p + length q = 8 + length body" "0 < length q" using f lf by (metis length_append, simp)
  have lp: "length p < 8 + length body" using lq by linarith
  have v: "unat ?v = length c" "take (length c) ibuf = c"
    using pr by (auto simp: ug_progress_def c_def)
  have R: "unat ?R = (if length p < 8 then 8 else length body)"
    using pr lf by (simp add: ug_progress_def)
  have vR: "length c < unat ?R" "unat ?R \<le> length ibuf" "unat ?R - length c \<le> length q"
    using R lq lp body inb by (auto simp: c_def ug_in_def)
  have left: "unat (?R - ?v) = unat ?R - length c"
    using v(1) vR by (subst unat_sub_le) (simp_all add: word_le_nat_alt)
  let ?b = "if ?R - ?v > maxBytes then maxBytes else ?R - ?v"
  have b: "unat ?b = min (unat ?R - length c) (unat maxBytes)" using left by (auto simp: word_less_nat_alt)
  obtain r bs e' where rv: "recv e ?b = (r, bs, e')" by (metis prod_cases3)
  note g = recv [unfolded good_recv_def, rule_format, of e ?b, unfolded rv prod.case]
  have mem: "mem = pre @ ibuf @ post" and ad: "ug_inputBuffer gw = length pre" using inb by (simp_all add: ug_in_def)
  show thesis
  proof (cases "r < 0")
    case True
    then have "bs = []" "arriving e' = q @ ys" using g arr by simp_all
    moreover have "length pre + length c \<le> length mem" using mem vR by simp
    ultimately show thesis
      using failed [of e'] True v(1) ad rv
      by (simp add: UGDoInput.simps(2) Let_def mem_write_def del: if_split)
  next
    case False
    then obtain n where n: "r = int n" by (metis nonneg_int_cases not_less)
    have bs: "length bs = n" "length bs \<le> unat ?b" "arriving e = bs @ arriving e'" using g n by simp_all
    have lb: "length bs \<le> unat ?R - length c" "length bs \<le> length q" using bs(2) vR b by simp_all
    have e: "q @ ys = bs @ arriving e'" using bs(3) arr by simp
    have "take (length bs) (q @ ys) = bs" "drop (length bs) (q @ ys) = arriving e'" unfolding e by simp_all
    then have "take (length bs) q = bs" "drop (length bs) q @ ys = arriving e'" using lb(2) by simp_all
    then obtain q' where q: "q = bs @ q'" "arriving e' = q' @ ys" by (metis append_take_drop_id)
    have "length bs \<le> length (drop (length c) ibuf)" unfolding length_drop using lb(1) vR(1,2) by linarith
    then obtain a d where ad2: "drop (length c) ibuf = a @ d" "length a = length bs"
      using split_length by blast
    have ibuf: "ibuf = c @ a @ d" using v(2) ad2(1) by (metis append_take_drop_id)
    have wr: "mem_write mem (ug_inputBuffer gw + unat ?v) bs = Ok (pre @ (c @ bs @ d) @ post)"
      using mem_write_mid [of "pre @ c" "length pre + length c" a bs "d @ post"] ad2(2) ad v(1)
      unfolding mem ibuf by simp
    let ?ib = "c @ bs @ d" and ?gw1 = "gw\<lparr>ug_numValidInputBytes := ?v + word_of_nat n\<rparr>"
    have inb1: "ug_in (pre @ ?ib @ post) (gw\<lparr>ug_numValidInputBytes := x, ug_numInputBytesToRead := y\<rparr>) pre ?ib post"
      for x y using inb ibuf ad2(2) by (simp add: ug_in_def)
    have inb2: "ug_in (pre @ ?ib @ post) ?gw1 pre ?ib post" using inb ibuf ad2(2) by (simp add: ug_in_def)
    have un: "unat (word_of_nat n :: u32) = n"
      using bs(1) lb unat_u32_less [of ?R] by (intro unat_word_of_nat_u32) simp
    have v1: "unat (?v + word_of_nat n) = length c + length bs"
    proof -
      have "length c + length bs < 2 ^ 32" using lb(1) vR(1) unat_u32_less [of ?R] by linarith
      then show ?thesis using un bs(1) v(1) by (subst unat_add_no_wrap) simp_all
    qed
    have full: "?v + word_of_nat n = ?R \<longleftrightarrow> length c + length bs = unat ?R"
      using v1 by (simp add: word_unat_eq_iff)
    have G: "UGDoInput recv (Suc fuel) mem gw maxBytes tot e =
        obind (if length c + length bs = unat ?R then UGInputFilled (pre @ ?ib @ post) ?gw1
               else Ok (UInput_more ?gw1)) (\<lambda>s.
        case s of
          UInput_error \<Rightarrow> Ok (-1, UMInitializeToInvalid, pre @ ?ib @ post, ?gw1, e')
        | UInput_message m gw2 \<Rightarrow> Ok (tot + int n, m, pre @ ?ib @ post, gw2, e')
        | UInput_more gw2 \<Rightarrow>
            if word_of_nat n < ?b
            then Ok (tot + int n, UMInitializeToInvalid, pre @ ?ib @ post, gw2, e')
            else UGDoInput recv fuel (pre @ ?ib @ post) gw2 maxBytes (tot + int n) e')"
      using rv n wr full by (simp add: UGDoInput.simps(2) Let_def del: append_assoc split del: if_split)
    have pos: "\<not> (word_of_nat n < ?b) \<Longrightarrow> bs \<noteq> []"
      using un bs(1) b vR mx by (auto simp: word_less_nat_alt)
    show thesis
    proof (cases "length c + length bs = unat ?R")
      case False
      have q': "q' \<noteq> []"
      proof
        assume "q' = []"
        then have "length bs = length q" using q(1) by simp
        then show False using False lb(1) vR(1,3) by linarith
      qed
      have pr': "ug_progress ?gw1 ?ib (p @ bs) (uframe body)"
        using pr False lb R v1 ad2 v(2) unfolding ug_progress_def c_def by (auto split: if_splits)
      show thesis
        by (rule goes_on [OF q(1) q' q(2) inb2 pr'])
          (use G False pos bs(1) ibuf ad2(2) in \<open>auto simp del: append_assoc\<close>)
    next
      case True
      show thesis
      proof (cases "length p < 8")
        case True': True
        have c: "c = p" using True' by (simp add: c_def)
        have R8: "length p + length bs = 8" using True True' R c by simp
        have f8: "take 8 (uframe body) = p @ bs" using f(1) q(1) R8 by simp
        have "UGInputFilled (pre @ ?ib @ post) ?gw1 = Ok (UInput_more
            (?gw1\<lparr>ug_numValidInputBytes := 0, ug_numInputBytesToRead := word_of_nat (length body)\<rparr>))"
        proof (rule UGInputFilled_header [OF inb2 _ _ body(1)])
          show "take 8 ?ib = take 8 (uframe body)" using f8 R8 c by simp
          show "ug_numValidInputBytes ?gw1 = 8"
            using v1 R8 c by (simp add: word_unat_eq_iff)
          show "length body \<le> length ?ib" using body(2) ibuf ad2(2) by simp
        qed
        then have F: "UGInputFilled (pre @ ?ib @ post) ?gw1 = Ok (UInput_more
            (gw\<lparr>ug_numValidInputBytes := 0, ug_numInputBytesToRead := word_of_nat (length body)\<rparr>))" by simp
        have q': "q' \<noteq> []" using q(1) lq R8 body(1) by auto
        have "unat (word_of_nat (length body) :: u32) = length body"
          using body(2) ib by (intro unat_word_of_nat_u32) simp
        then have pr': "ug_progress (gw\<lparr>ug_numValidInputBytes := 0, ug_numInputBytesToRead := word_of_nat (length body)\<rparr>)
            ?ib (p @ bs) (uframe body)" using R8 lf by (simp add: ug_progress_def)
        show thesis
          by (rule goes_on [OF q(1) q' q(2) inb1 pr'])
            (use G True F pos bs(1) ibuf ad2(2) in \<open>auto simp del: append_assoc\<close>)
      next
        case False
        have c: "c = drop 8 p" using False by (simp add: c_def)
        have Rb: "length c + length bs = length body" using True R False by simp
        have "length p = 8 + length c" using False c by simp
        moreover have "length q = length bs + length q'" using q(1) by simp
        ultimately have "length q' = 0" using lq(1) Rb by linarith
        then have q': "q' = []" by simp
        have body_eq: "body = c @ bs"
        proof -
          have "drop 8 (uframe body) = body" by (simp add: uframe_def)
          then show ?thesis using f(1) q(1) q' c False by simp
        qed
        have "UGInputFilled (pre @ ?ib @ post) ?gw1 =
            Ok (UInput_message (existing_view (length pre) (word_of_nat (length body)))
              (?gw1\<lparr>ug_numValidInputBytes := 0, ug_numInputBytesToRead := 8\<rparr>))"
        proof (rule UGInputFilled_body [where post = "d @ post", OF _ body(1)])
          show "unat (ug_numValidInputBytes ?gw1) = length body" using v1 Rb by simp
          show "length body < 2 ^ 32" using body(2) ib by linarith
          show "pre @ ?ib @ post = pre @ body @ d @ post" by (simp add: body_eq)
          show "ug_inputBuffer ?gw1 = length pre" using ad by simp
        qed
        then have "UGDoInput recv (Suc fuel) mem gw maxBytes tot e = Ok (tot + int (length q),
            existing_view (length pre) (word_of_nat (length body)), pre @ (body @ d) @ post,
            gw\<lparr>ug_numValidInputBytes := 0, ug_numInputBytesToRead := 8\<rparr>, e')"
          unfolding G if_P [OF True] using bs(1) q(1) q'
          by (simp del: append_assoc) (simp add: body_eq)
        moreover have "ug_in (pre @ (body @ d) @ post)
            (gw\<lparr>ug_numValidInputBytes := 0, ug_numInputBytesToRead := 8\<rparr>) pre (body @ d) post"
          using inb1 [of 8 0] by (simp add: body_eq)
        moreover have "length (body @ d) = length ibuf" using ibuf ad2(2) Rb by simp
        ultimately show thesis
          using message q' q(2) by (simp add: ug_progress_def)
      qed
    qed
  qed
qed

text \<open>
  The outcome of a call while the frame of \<open>body\<close> arrives: the UMessage on the body at the front of
  the input buffer, or a state further on in the same frame and an invalid UMessage.
\<close>

definition ug_input_outcome ::
    "('e \<Rightarrow> u8 list) \<Rightarrow> u8 list \<Rightarrow> u8 list \<Rightarrow> nat \<Rightarrow> u8 list \<Rightarrow> u8 list \<Rightarrow> u8 list \<Rightarrow> int \<Rightarrow>
     (int \<times> UMessage \<times> u8 list \<times> UMessageGateway \<times> 'e) outcome \<Rightarrow> bool" where
  "ug_input_outcome arriving pre post isz body p ys tot r \<longleftrightarrow>
     (\<exists>n mem' gw' e' ibuf' p' q'. r = Ok (n, UMInitializeToInvalid, mem', gw', e')
        \<and> ug_in mem' gw' pre ibuf' post \<and> length ibuf' = isz \<and> ug_progress gw' ibuf' p' (uframe body)
        \<and> uframe body = p' @ q' \<and> q' \<noteq> [] \<and> arriving e' = q' @ ys
        \<and> (n = -1 \<or> n + int (length p) = tot + int (length p')))
     \<or> (\<exists>n mem' gw' e' ibuf'. r = Ok (n, existing_view (length pre) (word_of_nat (length body)), mem', gw', e')
        \<and> ug_in mem' gw' pre (body @ ibuf') post \<and> length (body @ ibuf') = isz \<and> (\<forall>f. ug_progress gw' (body @ ibuf') [] f)
        \<and> arriving e' = ys \<and> n + int (length p) = tot + int (length (uframe body)))"

lemma UGDoInput_stream:
  assumes body: "12 \<le> length body" "length body \<le> length ibuf"
    and recv: "good_recv recv arriving" and mx: "0 < maxBytes"
    and inb: "ug_in mem gw pre ibuf post" and pr: "ug_progress gw ibuf p (uframe body)"
    and f: "uframe body = p @ q" "q \<noteq> []" and arr: "arriving e = q @ ys" and fuel: "length q \<le> fuel"
  shows "ug_input_outcome arriving pre post (length ibuf) body p ys tot (UGDoInput recv fuel mem gw maxBytes tot e)"
  using inb pr f arr fuel body(2)
proof (induction fuel arbitrary: mem gw ibuf p q e tot)
  case (Suc fuel)
  show ?case
  proof (rule UGDoInput_round [where fuel = fuel and tot = tot,
        OF Suc.prems(1-4) body(1) Suc.prems(7,5) recv mx], goal_cases)
    case (1 e')
    then show ?case using Suc.prems unfolding ug_input_outcome_def by blast
  next
    case (2 bs q' ibuf' gw' e')
    have f': "uframe body = (p @ bs) @ q'" using Suc.prems(3) 2(1) by simp
    from 2(6) show ?case
    proof (elim disjE conjE)
      assume "UGDoInput recv (Suc fuel) mem gw maxBytes tot e =
         Ok (tot + int (length bs), UMInitializeToInvalid, pre @ ibuf' @ post, gw', e')"
      moreover have "tot + int (length bs) + int (length p) = tot + int (length (p @ bs))" by simp
      ultimately show ?case unfolding ug_input_outcome_def using 2(2-5,7) f' by blast
    next
      assume bs: "bs \<noteq> []" and r: "UGDoInput recv (Suc fuel) mem gw maxBytes tot e =
         UGDoInput recv fuel (pre @ ibuf' @ post) gw' maxBytes (tot + int (length bs)) e'"
      have "length q' \<le> fuel" "length body \<le> length ibuf'"
        using Suc.prems(6,7) 2(1,7) bs by (cases bs; simp)+
      then have "ug_input_outcome arriving pre post (length ibuf') body (p @ bs) ys (tot + int (length bs))
          (UGDoInput recv fuel (pre @ ibuf' @ post) gw' maxBytes (tot + int (length bs)) e')"
        by (intro Suc.IH [OF 2(4,5) f' 2(2,3)])
      then show ?case unfolding r 2(7) by (auto simp: ug_input_outcome_def)
    qed
  next
    case (3 ibuf' gw' e')
    have "length (uframe body) = length p + length q" using Suc.prems(3) by simp
    then have "tot + int (length q) + int (length p) = tot + int (length (uframe body))" by simp
    then show ?case unfolding ug_input_outcome_def using 3 by blast
  qed
qed simp

lemma UGGatewayInitialize_rep:
  assumes "unat insz = length ibuf" "8 \<le> length ibuf" "unat outsz = length obuf"
  shows "ug_in (pre @ ibuf @ post) (UGGatewayInitialize (length pre) insz outb outsz) pre ibuf post"
    "ug_progress (UGGatewayInitialize (length pre) insz outb outsz) ibuf [] f"
    "ug_out (pre' @ obuf @ post') (UGGatewayInitialize inb insz (length pre') outsz) pre' [] [] obuf post'"
    "\<not> ug_preparingOutgoingMessage (UGGatewayInitialize inb insz outb outsz)"
  using assms by (simp_all add: ug_in_def ug_progress_def ug_out_def UGGatewayInitialize_def GATEWAY_HEADER_SIZE_def)

text \<open>With \<^verbatim>\<open>maxBytes\<close> zero the code asks for zero bytes, gets them, and goes on for ever.\<close>

lemma UGDoInput_zero_spins:
  assumes "\<And>e. recv e 0 = (0, [], e)"
    and "ug_numValidInputBytes gw \<noteq> ug_numInputBytesToRead gw"
    and "ug_inputBuffer gw + unat (ug_numValidInputBytes gw) \<le> length mem"
  shows "UGDoInput recv fuel mem gw 0 tot e = Spin"
proof (induction fuel arbitrary: tot)
  case (Suc fuel)
  have "ug_numInputBytesToRead gw - ug_numValidInputBytes gw > 0"
    using assms(2) by (simp add: word_greater_zero_iff)
  then show ?case
    using Suc assms by (simp add: UGDoInput.simps(2) Let_def mem_write_def)
qed simp

end
