(* ===== verification/Gateway_Stream.thy ===== *)
theory Gateway_Stream
  imports Mini_Gateway Micro_Gateway
begin

section \<open>Streams of frames: what the callers of the gateways rely on\<close>

text \<open>
  Two interfaces.  A \<open>frame_sender\<close> queues the encodings of what it is given; a \<open>frame_receiver\<close>
  is called again and again while bytes arrive, and hands over one item per frame.  The lemmas for
  the callers are proved from the laws of the interfaces; MiniMessageGateway provides both, and
  MicroMessageGateway the second.
\<close>

subsection \<open>The sender\<close>

locale frame_sender =
  fixes add :: "'m \<Rightarrow> 's \<Rightarrow> 's outcome"
    and queued :: "'s \<Rightarrow> u8 list"
    and valid :: "'s \<Rightarrow> bool"
    and sendable :: "'m \<Rightarrow> bool"
    and enc :: "'m \<Rightarrow> u8 list"
  assumes add_queues: "valid s \<Longrightarrow> sendable m \<Longrightarrow> \<exists>s'. add m s = Ok s' \<and> valid s' \<and> queued s' = queued s @ enc m"
begin

primrec add_all :: "'m list \<Rightarrow> 's \<Rightarrow> 's outcome" where
  "add_all [] s = Ok s"
| "add_all (m # ms) s = obind (add m s) (add_all ms)"

lemma add_all_queues:
  "valid s \<Longrightarrow> list_all sendable ms \<Longrightarrow>
   \<exists>s'. add_all ms s = Ok s' \<and> valid s' \<and> queued s' = queued s @ concat (map enc ms)"
proof (induction ms arbitrary: s)
  case (Cons m ms)
  obtain s1 where s1: "add m s = Ok s1" "valid s1" "queued s1 = queued s @ enc m"
    using add_queues [of s m] Cons.prems by auto
  then show ?case using Cons.IH [of s1] Cons.prems by auto
qed simp

end

subsection \<open>The receiver\<close>

text \<open>
  \<open>at s p f\<close>: the part \<open>p\<close> of the frame \<open>f\<close> has been read; \<open>coming s\<close> are the bytes that will
  arrive; \<open>img m\<close> is what the caller gets for \<open>m\<close>.
\<close>

locale frame_receiver =
  fixes call :: "'s \<Rightarrow> ('r option \<times> 's) outcome"
    and at :: "'s \<Rightarrow> u8 list \<Rightarrow> u8 list \<Rightarrow> bool"
    and coming :: "'s \<Rightarrow> u8 list"
    and readable :: "'m \<Rightarrow> bool"
    and enc :: "'m \<Rightarrow> u8 list"
    and img :: "'m \<Rightarrow> 'r"
  assumes enc_not_empty: "readable m \<Longrightarrow> enc m \<noteq> []"
    and call_reads: "readable m \<Longrightarrow> at s p (enc m) \<Longrightarrow> enc m = p @ q \<Longrightarrow> q \<noteq> [] \<Longrightarrow> coming s = q @ ys \<Longrightarrow>
      (\<exists>s' p' q'. call s = Ok (None, s') \<and> at s' p' (enc m) \<and> enc m = p' @ q' \<and> q' \<noteq> [] \<and> coming s' = q' @ ys)
      \<or> (\<exists>s'. call s = Ok (Some (img m), s') \<and> coming s' = ys \<and> (\<forall>f. at s' [] f))"
begin

text \<open>A caller that wants \<open>k\<close> items and makes at most \<open>n\<close> calls.\<close>

fun fetch :: "nat \<Rightarrow> nat \<Rightarrow> 's \<Rightarrow> ('r list \<times> 's) outcome" where
  "fetch (Suc n) (Suc k) s =
     obind (call s) (\<lambda>(r, s'). case r of
       None \<Rightarrow> fetch n (Suc k) s'
     | Some x \<Rightarrow> obind (fetch n k s') (\<lambda>(xs, s''). Ok (x # xs, s'')))"
| "fetch n k s = Ok ([], s)"

definition inside :: "'m list \<Rightarrow> 's \<Rightarrow> bool" where
  "inside ms s \<longleftrightarrow> (case ms of [] \<Rightarrow> coming s = []
     | m # ms' \<Rightarrow> \<exists>p q. at s p (enc m) \<and> enc m = p @ q \<and> q \<noteq> [] \<and> coming s = q @ concat (map enc ms'))"

lemma inside_start:
  assumes "\<And>f. at s [] f" "list_all readable ms" "coming s = concat (map enc ms)"
  shows "inside ms s"
proof (cases ms)
  case (Cons m ms')
  then have "at s [] (enc m) \<and> enc m = [] @ enc m \<and> enc m \<noteq> [] \<and> coming s = enc m @ concat (map enc ms')"
    using assms enc_not_empty by simp
  then show ?thesis unfolding inside_def Cons list.case by blast
qed (use assms in \<open>simp add: inside_def\<close>)

lemma call_inside:
  assumes "inside (m # ms) s" "list_all readable (m # ms)"
  obtains s' where "call s = Ok (None, s')" "inside (m # ms) s'"
  | s' where "call s = Ok (Some (img m), s')" "inside ms s'"
proof -
  obtain p q where "at s p (enc m)" "enc m = p @ q" "q \<noteq> []" "coming s = q @ concat (map enc ms)"
    using assms(1) by (auto simp: inside_def)
  from call_reads [OF _ this] assms(2)
  have "(\<exists>s' p' q'. call s = Ok (None, s') \<and> at s' p' (enc m) \<and> enc m = p' @ q' \<and> q' \<noteq> []
        \<and> coming s' = q' @ concat (map enc ms))
    \<or> (\<exists>s'. call s = Ok (Some (img m), s') \<and> coming s' = concat (map enc ms) \<and> (\<forall>f. at s' [] f))" by simp
  then show thesis
  proof (elim disjE exE conjE)
    fix s' p' q'
    assume "call s = Ok (None, s')" "at s' p' (enc m)" "enc m = p' @ q'" "q' \<noteq> []"
      "coming s' = q' @ concat (map enc ms)"
    then show thesis using that(1) [of s'] unfolding inside_def by auto
  next
    fix s'
    assume "call s = Ok (Some (img m), s')" "coming s' = concat (map enc ms)" "\<forall>f. at s' [] f"
    then show thesis using that(2) [of s'] inside_start [of s' ms] assms(2) by simp
  qed
qed

lemma fetch_in_order:
  "inside ms s \<Longrightarrow> list_all readable ms \<Longrightarrow> k \<le> length ms \<Longrightarrow>
   \<exists>j s'. fetch n k s = Ok (map img (take j ms), s') \<and> j \<le> k \<and> inside (drop j ms) s'"
proof (induction n k s arbitrary: ms rule: fetch.induct)
  case (1 n k s)
  then obtain m ms' where ms: "ms = m # ms'" by (cases ms) auto
  show ?case
  proof (rule call_inside [OF "1.prems"(1,2) [unfolded ms]])
    fix s'
    assume c: "call s = Ok (None, s')" "inside (m # ms') s'"
    then show ?thesis using "1.IH"(1) [OF c(1) refl refl, of ms] "1.prems" ms by simp
  next
    fix s'
    assume c: "call s = Ok (Some (img m), s')" "inside ms' s'"
    obtain j s'' where "fetch n k s' = Ok (map img (take j ms'), s'')" "j \<le> k" "inside (drop j ms') s''"
      using "1.IH"(2) [OF c(1) refl refl c(2)] "1.prems" ms by auto
    then show ?thesis using c ms by (intro exI [of _ "Suc j"] exI [of _ s'']) simp
  qed
qed (auto intro: exI [of _ 0])

end

subsection \<open>MiniMessageGateway\<close>

definition mini_send :: "alloc \<Rightarrow> bool \<Rightarrow> MMessage \<Rightarrow> MMessageGateway \<Rightarrow> MMessageGateway outcome" where
  "mini_send am big m gw = obind (MGAddOutgoingMessage am big gw m) (\<lambda>(st, gw'). Ok gw')"

definition mini_sendable :: "alloc \<Rightarrow> bool \<Rightarrow> MMessage \<Rightarrow> bool" where
  "mini_sendable am big m \<longleftrightarrow> (\<forall>k. am k) \<and> wf_msg m \<and> length (wire_msg big m) < size_limit big
     \<and> 2 * (length (wire_msg big m) + 8) < 2 ^ 32"

definition mini_receive ::
    "'e recv_func \<Rightarrow> alloc \<Rightarrow> bool \<Rightarrow> nat \<Rightarrow> u32 \<Rightarrow> MMessageGateway \<times> 'e \<Rightarrow>
     (MMessage option \<times> MMessageGateway \<times> 'e) outcome" where
  "mini_receive recv am big fuel maxBytes s =
     (case s of (gw, e) \<Rightarrow> obind (MGDoInput recv am big True fuel gw maxBytes 0 e)
        (\<lambda>(n, m, gw', e'). Ok (m, gw', e')))"

definition mini_readable ::
    "'e recv_func \<Rightarrow> ('e \<Rightarrow> u8 list) \<Rightarrow> alloc \<Rightarrow> bool \<Rightarrow> nat \<Rightarrow> u32 \<Rightarrow> MMessage \<Rightarrow> bool" where
  "mini_readable recv arriving am big fuel maxBytes m \<longleftrightarrow>
     good_recv recv arriving \<and> mini_sendable am big m
     \<and> length (wire_msg big m) + 2 \<le> fuel \<and> length (frame big m) \<le> unat maxBytes"

interpretation mini_tx: frame_sender "mini_send am big" pending wf_output "mini_sendable am big" "frame big"
  for am big
proof
  fix gw m
  assume wf: "wf_output gw" and m: "mini_sendable am big m"
  have l: "length (wire_msg big m) < size_limit big" "length (wire_msg big m) + 16 < 2 ^ 32"
    "wf_msg m" "am (23 + length (wire_msg big m))"
    using m size_limit_u32 [of _ big] by (auto simp: mini_sendable_def)
  have "length (frame big m) < 2 ^ 32 - 8" "frame big m \<noteq> []"
    using l(2) frame_split [of big m] by auto
  then show "\<exists>gw'. mini_send am big m gw = Ok gw' \<and> wf_output gw' \<and> pending gw' = pending gw @ frame big m"
    using AddOutgoing_frame [where am = am and big = big and msg = m, OF l(3,1,2,4)] pending_Add [OF wf] by (simp add: mini_send_def)
qed

interpretation mini_rx: frame_receiver "mini_receive recv am big fuel maxBytes"
    "\<lambda>s p f. progress (fst s) p f" "\<lambda>s. arriving (snd s)"
    "mini_readable recv arriving am big fuel maxBytes" "frame big" norm_msg
  for recv :: "'e recv_func" and am big fuel maxBytes arriving
proof
  fix m assume "mini_readable recv arriving am big fuel maxBytes m"
  show "frame big m \<noteq> []" using frame_split(2) [of big m] by auto
next
  fix m s p q ys
  assume m: "mini_readable recv arriving am big fuel maxBytes m" and p: "progress (fst s) p (frame big m)"
    and f: "frame big m = p @ q" "q \<noteq> []" and arr: "arriving (snd s) = q @ ys"
  obtain gw e where s: "s = (gw, e)" by (cases s)
  have h: "wf_msg m" "\<And>k. am k" "length (wire_msg big m) < size_limit big"
      "2 * (length (wire_msg big m) + 8) < 2 ^ 32" "good_recv recv arriving"
      "length (wire_msg big m) + 2 \<le> fuel" "length q \<le> unat maxBytes"
    using m f(1) by (auto simp: mini_readable_def mini_sendable_def)
  have "input_outcome arriving big m p ys 0 (MGDoInput recv am big True fuel gw maxBytes 0 e)"
    using p f arr s h(7) by (intro MGDoInput_stream [where am = am, OF h(1,2,3,4,5,6)] h(7)) simp_all
  then show "(\<exists>s' p' q'. mini_receive recv am big fuel maxBytes s = Ok (None, s') \<and> progress (fst s') p' (frame big m)
        \<and> frame big m = p' @ q' \<and> q' \<noteq> [] \<and> arriving (snd s') = q' @ ys)
    \<or> (\<exists>s'. mini_receive recv am big fuel maxBytes s = Ok (Some (norm_msg m), s') \<and> arriving (snd s') = ys
        \<and> (\<forall>f. progress (fst s') [] f))"
    unfolding input_outcome_def s by (auto simp: mini_receive_def)
qed

subsection \<open>MicroMessageGateway\<close>

text \<open>The caller looks at the bytes of the UMessage it was given, before the next call.\<close>

definition micro_receive ::
    "'e recv_func \<Rightarrow> nat \<Rightarrow> u32 \<Rightarrow> u8 list \<times> UMessageGateway \<times> 'e \<Rightarrow>
     (u8 list option \<times> u8 list \<times> UMessageGateway \<times> 'e) outcome" where
  "micro_receive recv fuel maxBytes s =
     (case s of (mem, gw, e) \<Rightarrow> obind (UGDoInput recv fuel mem gw maxBytes 0 e) (\<lambda>(n, m, mem', gw', e').
        Ok (if UMIsMessageValid m
            then Some (take (unat (UMGetFlattenedSize m)) (drop (buf_addr m) mem')) else None, mem', gw', e')))"

definition micro_at :: "u8 list \<Rightarrow> u8 list \<Rightarrow> nat \<Rightarrow> u8 list \<times> UMessageGateway \<times> 'e \<Rightarrow> u8 list \<Rightarrow> u8 list \<Rightarrow> bool"
where
  "micro_at pre post isz s p f \<longleftrightarrow> (case s of (mem, gw, e) \<Rightarrow>
     \<exists>ibuf. ug_in mem gw pre ibuf post \<and> length ibuf = isz \<and> ug_progress gw ibuf p f)"

definition micro_readable :: "'e recv_func \<Rightarrow> ('e \<Rightarrow> u8 list) \<Rightarrow> nat \<Rightarrow> nat \<Rightarrow> u32 \<Rightarrow> u8 list \<Rightarrow> bool" where
  "micro_readable recv arriving isz fuel maxBytes body \<longleftrightarrow>
     good_recv recv arriving \<and> 12 \<le> length body \<and> length body \<le> isz \<and> isz < 2 ^ 32
     \<and> 0 < maxBytes \<and> length (uframe body) \<le> fuel"

lemma existing_view_bytes:
  assumes "12 \<le> length body" "length body < 2 ^ 32"
  shows "UMIsMessageValid (existing_view a (word_of_nat (length body)))"
    "unat (UMGetFlattenedSize (existing_view a (word_of_nat (length body)))) = length body"
    "buf_addr (existing_view a (word_of_nat (length body))) = a"
  using assms unat_word_of_nat_u32 [OF assms(2)]
  by (simp_all add: UMIsMessageValid_def existing_view_def UMGetFlattenedSize_def buf_addr_def
      word_le_nat_alt MESSAGE_HEADER_SIZE_def)

interpretation micro_rx: frame_receiver "micro_receive recv fuel maxBytes" "micro_at pre post isz"
    "\<lambda>s. arriving (snd (snd s))" "micro_readable recv arriving isz fuel maxBytes" uframe "\<lambda>body. body"
  for recv :: "'e recv_func" and fuel maxBytes pre post isz arriving
proof
  fix m :: "u8 list" show "uframe m \<noteq> []" by (simp add: uframe_def)
next
  fix body s p q ys
  assume b: "micro_readable recv arriving isz fuel maxBytes body" and p: "micro_at pre post isz s p (uframe body)"
    and f: "uframe body = p @ q" "q \<noteq> []" and arr: "arriving (snd (snd s)) = q @ ys"
  obtain mem gw e where s: "s = (mem, gw, e)" by (cases s)
  obtain ibuf where i: "ug_in mem gw pre ibuf post" "length ibuf = isz" "ug_progress gw ibuf p (uframe body)"
    using p s by (auto simp: micro_at_def)
  have h: "12 \<le> length body" "length body \<le> length ibuf" "good_recv recv arriving" "0 < maxBytes"
      "length q \<le> fuel" "length body < 2 ^ 32"
    using b f(1) i(2) by (auto simp: micro_readable_def)
  have "ug_input_outcome arriving pre post isz body p ys 0 (UGDoInput recv fuel mem gw maxBytes 0 e)"
    using UGDoInput_stream [OF h(1-4) i(1,3) f _ h(5), of e ys 0] arr s i(2) by simp
  then show "(\<exists>s' p' q'. micro_receive recv fuel maxBytes s = Ok (None, s') \<and> micro_at pre post isz s' p' (uframe body)
        \<and> uframe body = p' @ q' \<and> q' \<noteq> [] \<and> arriving (snd (snd s')) = q' @ ys)
    \<or> (\<exists>s'. micro_receive recv fuel maxBytes s = Ok (Some body, s') \<and> arriving (snd (snd s')) = ys
        \<and> (\<forall>f. micro_at pre post isz s' [] f))"
    unfolding ug_input_outcome_def
  proof (rule disjE)
    assume "\<exists>n mem' gw' e' ibuf' p' q'. UGDoInput recv fuel mem gw maxBytes 0 e = Ok (n, UMInitializeToInvalid, mem', gw', e')
        \<and> ug_in mem' gw' pre ibuf' post \<and> length ibuf' = isz \<and> ug_progress gw' ibuf' p' (uframe body)
        \<and> uframe body = p' @ q' \<and> q' \<noteq> [] \<and> arriving e' = q' @ ys
        \<and> (n = -1 \<or> n + int (length p) = 0 + int (length p'))"
    then obtain n mem' gw' e' ibuf' p' q' where
      "UGDoInput recv fuel mem gw maxBytes 0 e = Ok (n, UMInitializeToInvalid, mem', gw', e')"
      "ug_in mem' gw' pre ibuf' post" "length ibuf' = isz" "ug_progress gw' ibuf' p' (uframe body)"
      "uframe body = p' @ q'" "q' \<noteq> []" "arriving e' = q' @ ys" by blast
    moreover have "\<not> UMIsMessageValid UMInitializeToInvalid"
      by (simp add: UMIsMessageValid_def UMInitializeToInvalid_def)
    ultimately show ?thesis
      by (intro disjI1 exI [of _ "(mem', gw', e')"] exI [of _ p'] exI [of _ q'])
        (auto simp: micro_receive_def micro_at_def s)
  next
    assume "\<exists>n mem' gw' e' ibuf'. UGDoInput recv fuel mem gw maxBytes 0 e =
          Ok (n, existing_view (length pre) (word_of_nat (length body)), mem', gw', e')
        \<and> ug_in mem' gw' pre (body @ ibuf') post \<and> length (body @ ibuf') = isz
        \<and> (\<forall>f. ug_progress gw' (body @ ibuf') [] f)
        \<and> arriving e' = ys \<and> n + int (length p) = 0 + int (length (uframe body))"
    then obtain n mem' gw' e' ibuf' where
      "UGDoInput recv fuel mem gw maxBytes 0 e =
        Ok (n, existing_view (length pre) (word_of_nat (length body)), mem', gw', e')"
      "ug_in mem' gw' pre (body @ ibuf') post" "length (body @ ibuf') = isz"
      "\<forall>f. ug_progress gw' (body @ ibuf') [] f" "arriving e' = ys" by blast
    then show ?thesis
      by (intro disjI2 exI [of _ "(mem', gw', e')"])
        (auto simp: micro_receive_def micro_at_def s existing_view_bytes [OF h(1,6)] ug_in_def)
  qed
qed

end
