(* ===== verification/Gateway_Live.thy ===== *)
theory Gateway_Live
  imports Gateway_Stream
begin

section \<open>Streams of frames: that everything arrives\<close>

text \<open>
  The receivers deliver nothing wrong for every way in which the bytes arrive.  Here the caller's receive function
  gives at least one byte whenever some are there (a blocking socket): then every call takes bytes off the stream,
  and as many calls as there are bytes are enough to get all items.
\<close>

subsection \<open>The interface\<close>

locale eager_receiver = frame_receiver +
  assumes eager: "\<And>m s p q ys s'. readable m \<Longrightarrow> at s p (enc m) \<Longrightarrow> enc m = p @ q \<Longrightarrow> q \<noteq> [] \<Longrightarrow>
    coming s = q @ ys \<Longrightarrow> call s = Ok (None, s') \<Longrightarrow> length (coming s') < length (coming s)"
begin

lemma coming_inside: "inside (m # ms) s \<Longrightarrow> inside ms s' \<Longrightarrow> list_all readable ms \<Longrightarrow> length (coming s') < length (coming s)"
proof -
  assume a: "inside (m # ms) s" "inside ms s'" "list_all readable ms"
  then obtain q where q: "q \<noteq> []" "coming s = q @ concat (map enc ms)" by (auto simp: inside_def)
  have "length (coming s') \<le> length (concat (map enc ms))"
  proof (cases ms)
    case (Cons m' ms')
    with a(2) obtain p' q' where "enc m' = p' @ q'" "coming s' = q' @ concat (map enc ms')"
      by (auto simp: inside_def)
    then show ?thesis by (simp add: Cons)
  qed (use a(2) in \<open>simp add: inside_def\<close>)
  with q show ?thesis by (cases q) simp_all
qed

lemma fetch_all:
  "inside ms s \<Longrightarrow> list_all readable ms \<Longrightarrow> length (coming s) \<le> n \<Longrightarrow>
   \<exists>s'. fetch n (length ms) s = Ok (map img ms, s') \<and> coming s' = []"
proof (induction n arbitrary: ms s)
  case 0
  then show ?case by (cases ms) (auto simp: inside_def)
next
  case (Suc n)
  show ?case
  proof (cases ms)
    case Nil
    then show ?thesis using Suc.prems(1) by (simp add: inside_def)
  next
    case (Cons m ms')
    show ?thesis
    proof (rule call_inside [OF Suc.prems(1,2) [unfolded Cons]])
      fix s'
      assume c: "call s = Ok (None, s')" "inside (m # ms') s'"
      obtain p q where "at s p (enc m)" "enc m = p @ q" "q \<noteq> []" "coming s = q @ concat (map enc ms')"
        using Suc.prems(1) by (auto simp: Cons inside_def)
      from eager [OF _ this c(1)] Suc.prems(2,3) have "length (coming s') \<le> n" by (simp add: Cons)
      from Suc.IH [of ms s'] c this Suc.prems(2) show ?thesis by (simp add: Cons)
    next
      fix s'
      assume c: "call s = Ok (Some (img m), s')" "inside ms' s'"
      have "list_all readable ms'" using Suc.prems(2) by (simp add: Cons)
      moreover from this have "length (coming s') \<le> n"
        using coming_inside [OF Suc.prems(1) [unfolded Cons] c(2)] Suc.prems(3) by simp
      ultimately show ?thesis using Suc.IH [OF c(2)] c(1) by (auto simp: Cons)
    qed
  qed
qed

end

subsection \<open>Receive functions that always deliver\<close>

definition eager_recv :: "'e recv_func \<Rightarrow> ('e \<Rightarrow> u8 list) \<Rightarrow> bool" where
  "eager_recv recv arriving \<longleftrightarrow> (\<forall>e k. 0 < k \<longrightarrow> arriving e \<noteq> [] \<longrightarrow> 0 < fst (recv e k))"

lemma recv_arriving:
  assumes "good_recv recv arriving" "recv e k = (n, bs, e')"
  shows "length (arriving e') \<le> length (arriving e)" "0 < n \<Longrightarrow> length (arriving e') < length (arriving e)"
proof -
  from assms(1) have "case recv e k of (n, bs, e') \<Rightarrow> (n < 0 \<longrightarrow> bs = [] \<and> arriving e' = arriving e)
        \<and> (0 \<le> n \<longrightarrow> int (length bs) = n \<and> length bs \<le> unat k \<and> arriving e = bs @ arriving e')"
    unfolding good_recv_def by simp
  with assms(2) have *: "n < 0 \<longrightarrow> arriving e' = arriving e" "0 \<le> n \<longrightarrow> int (length bs) = n \<and> arriving e = bs @ arriving e'"
    by simp_all
  then show "length (arriving e') \<le> length (arriving e)" by (cases "n < 0") auto
  show "0 < n \<Longrightarrow> length (arriving e') < length (arriving e)" using * by auto
qed

lemma list_recv_eager: "eager_recv list_recv (\<lambda>e. e)"
  unfolding eager_recv_def
proof (intro allI impI)
  fix e :: "u8 list" and k :: u32
  assume "0 < k" "e \<noteq> []"
  then show "0 < fst (list_recv e k)" by (cases e) (auto simp: list_recv_def word_less_nat_alt min_def)
qed

subsection \<open>MiniMessageGateway\<close>

lemma input_step_Ok:
  "obind x (\<lambda>s. case s of Input_error g \<Rightarrow> A g | Input_more g \<Rightarrow> C g | Input_message m g \<Rightarrow> B m g) = Ok z \<Longrightarrow>
   (\<exists>g. A g = Ok z) \<or> (\<exists>m g. B m g = Ok z) \<or> (\<exists>g. C g = Ok z)"
  by (cases x) (auto split: input_step.splits)

lemma MGDoInput_step:
  assumes "recv e (if maxBytes < gw_maxInputPos gw - gw_curInputPos gw then maxBytes
      else gw_maxInputPos gw - gw_curInputPos gw) = (r, bs, e1)"
    and "MGDoInput recv am big want (Suc fuel) gw maxBytes tot e = Ok (n, m, gw', e')"
  shows "e' = e1 \<or> (\<exists>gw2 mx2 tot2. MGDoInput recv am big want fuel gw2 mx2 tot2 e1 = Ok (n, m, gw', e'))"
  using assms
  by (cases "mem_write (gw_curInput gw) (unat (gw_curInputPos gw)) bs")
    (auto simp: MGDoInput.simps(2) Let_def split: if_split_asm dest!: input_step_Ok)

lemma MGDoInput_arriving:
  assumes recv: "good_recv recv arriving"
  shows "MGDoInput recv am big want fuel gw maxBytes tot e = Ok (n, m, gw', e') \<Longrightarrow>
    length (arriving e') \<le> length (arriving e)"
proof (induction fuel arbitrary: gw maxBytes tot e)
  case (Suc fuel)
  obtain r bs e1 where rv: "recv e (if maxBytes < gw_maxInputPos gw - gw_curInputPos gw then maxBytes
      else gw_maxInputPos gw - gw_curInputPos gw) = (r, bs, e1)" by (metis prod_cases3)
  have "e' = e1 \<or> length (arriving e') \<le> length (arriving e1)"
    using MGDoInput_step [OF rv Suc.prems] Suc.IH by blast
  then show ?case using recv_arriving(1) [OF recv rv] by auto
qed simp

lemma MGDoInput_eager:
  assumes recv: "good_recv recv arriving" "eager_recv recv arriving"
    and k: "0 < maxBytes" "gw_curInputPos gw \<noteq> gw_maxInputPos gw" "arriving e \<noteq> []"
    and run: "MGDoInput recv am big want (Suc fuel) gw maxBytes tot e = Ok (n, m, gw', e')"
  shows "length (arriving e') < length (arriving e)"
proof -
  let ?k = "if maxBytes < gw_maxInputPos gw - gw_curInputPos gw then maxBytes else gw_maxInputPos gw - gw_curInputPos gw"
  obtain r bs e1 where rv: "recv e ?k = (r, bs, e1)" by (metis prod_cases3)
  have "0 < ?k" using k(1,2) by (simp add: word_greater_zero_iff)
  then have "0 < r" using recv(2) k(3) rv unfolding eager_recv_def by (metis fst_conv)
  then have "length (arriving e1) < length (arriving e)" by (rule recv_arriving(2) [OF recv(1) rv])
  moreover have "e' = e1 \<or> length (arriving e') \<le> length (arriving e1)"
    using MGDoInput_step [OF rv run] MGDoInput_arriving [OF recv(1)] by blast
  ultimately show ?thesis by auto
qed

definition mini_eager ::
    "'e recv_func \<Rightarrow> ('e \<Rightarrow> u8 list) \<Rightarrow> alloc \<Rightarrow> bool \<Rightarrow> nat \<Rightarrow> u32 \<Rightarrow> MMessage \<Rightarrow> bool" where
  "mini_eager recv arriving am big fuel maxBytes m \<longleftrightarrow>
     mini_readable recv arriving am big fuel maxBytes m \<and> eager_recv recv arriving"

interpretation mini_live: eager_receiver "mini_receive recv am big fuel maxBytes"
    "\<lambda>s p f. progress (fst s) p f" "\<lambda>s. arriving (snd s)"
    "mini_eager recv arriving am big fuel maxBytes" "frame big" norm_msg
  for recv :: "'e recv_func" and am big fuel maxBytes arriving
proof
  fix m assume "mini_eager recv arriving am big fuel maxBytes m"
  show "frame big m \<noteq> []" using frame_split(2) [of big m] by auto
next
  fix m s p q ys
  assume "mini_eager recv arriving am big fuel maxBytes m" "progress (fst s) p (frame big m)"
    "frame big m = p @ q" "q \<noteq> []" "arriving (snd s) = q @ ys"
  then show "(\<exists>s' p' q'. mini_receive recv am big fuel maxBytes s = Ok (None, s') \<and> progress (fst s') p' (frame big m)
        \<and> frame big m = p' @ q' \<and> q' \<noteq> [] \<and> arriving (snd s') = q' @ ys)
    \<or> (\<exists>s'. mini_receive recv am big fuel maxBytes s = Ok (Some (norm_msg m), s') \<and> arriving (snd s') = ys
        \<and> (\<forall>f. progress (fst s') [] f))"
    using mini_rx.call_reads [of recv arriving am big fuel maxBytes m s p q ys] by (simp add: mini_eager_def)
next
  fix m s p q ys s'
  assume m: "mini_eager recv arriving am big fuel maxBytes m" and p: "progress (fst s) p (frame big m)"
    and f: "frame big m = p @ q" "q \<noteq> []" and arr: "arriving (snd s) = q @ ys"
    and run: "mini_receive recv am big fuel maxBytes s = Ok (None, s')"
  obtain gw e where s: "s = (gw, e)" by (cases s)
  obtain k where k: "fuel = Suc k" using m by (cases fuel) (auto simp: mini_eager_def mini_readable_def)
  have g: "good_recv recv arriving" "eager_recv recv arriving" "length (frame big m) \<le> unat maxBytes"
    using m by (auto simp: mini_eager_def mini_readable_def)
  have "0 < unat maxBytes" using g(3) f by (cases q) simp_all
  then have "0 < maxBytes" by (simp add: word_less_nat_alt)
  moreover have "gw_curInputPos gw \<noteq> gw_maxInputPos gw"
  proof
    assume "gw_curInputPos gw = gw_maxInputPos gw"
    moreover have "unat (gw_curInputPos gw) = length p"
      "unat (gw_maxInputPos gw) = (if length p < 8 then 8 else length (frame big m))"
      using p by (simp_all only: s progress_def fst_conv)
    moreover have "length p < length (frame big m)" using f by simp
    ultimately show False by (simp split: if_splits)
  qed
  moreover have "arriving e \<noteq> []" using arr f(2) by (simp add: s)
  ultimately show "length (arriving (snd s')) < length (arriving (snd s))"
    using MGDoInput_eager [OF g(1,2)] run by (auto simp: s k mini_receive_def obind_eq_Ok)
qed

subsection \<open>A gateway that is called until its queue is empty\<close>

text \<open>The caller's loop around \<^verbatim>\<open>MGDoOutput\<close>: at most \<open>n\<close> calls, none when nothing is left to send.\<close>

fun mini_flush :: "'e send_func \<Rightarrow> nat \<Rightarrow> u32 \<Rightarrow> nat \<Rightarrow> MMessageGateway \<times> 'e \<Rightarrow> (MMessageGateway \<times> 'e) outcome" where
  "mini_flush send fuel maxBytes 0 s = Ok s"
| "mini_flush send fuel maxBytes (Suc n) (gw, e) =
     (if MGHasBytesToOutput gw
      then obind (MGDoOutput send fuel gw maxBytes 0 e) (\<lambda>(r, gw', e'). mini_flush send fuel maxBytes n (gw', e'))
      else Ok (gw, e))"

definition eager_send :: "'e send_func \<Rightarrow> bool" where
  "eager_send send \<longleftrightarrow> (\<forall>e bs. bs \<noteq> [] \<longrightarrow> 0 < fst (send e bs))"

lemma output_not_longer:
  assumes "wf_output gw"
  shows "length (gw_output gw) \<le> length (pending gw)"
proof (cases "gw_output gw")
  case (Cons b rest)
  have "\<forall>x \<in> set rest. 8 < length x" "unat (gw_curOutputPos gw) < length b"
    using assms Cons by (simp_all add: wf_output_def)
  moreover from this(1) have "length rest \<le> length (concat (map (drop 8) rest))"
    by (induction rest) auto
  ultimately show ?thesis by (simp add: pending_def Cons)
qed simp

lemma MGDoOutput_eager:
  assumes send: "good_send send sent" "eager_send send" and wf: "wf_output gw"
    and budget: "length (pending gw) \<le> unat maxBytes" "length (gw_output gw) \<le> fuel" and p: "gw_output gw \<noteq> []"
    and run: "MGDoOutput send fuel gw maxBytes tot e = Ok (n, gw', e')"
  shows "length (pending gw') < length (pending gw)"
proof -
  obtain b rest where out: "gw_output gw = b # rest" using p by (cases "gw_output gw") auto
  obtain k where k: "fuel = Suc k" using budget(2) out by (cases fuel) auto
  let ?pos = "unat (gw_curOutputPos gw)"
  note l = output_left [OF wf out]
  have room: "length b - ?pos \<le> unat maxBytes" using budget(1) l(4) by simp
  obtain r e1 where s: "send e (drop ?pos b) = (r, e1)" by (metis surj_pair)
  have "drop ?pos b \<noteq> []" using l(2) by simp
  then have "0 < r" using send(2) s by (metis eager_send_def fst_conv)
  moreover have "r \<le> int (length b - ?pos)"
    using send(1) [unfolded good_send_def, rule_format, of e "drop ?pos b"] s \<open>0 < r\<close> by simp
  ultimately obtain j where j: "r = int j" "0 < j" "j \<le> length b - ?pos"
    by (metis of_nat_0_less_iff of_nat_le_iff zero_less_imp_eq_int)
  note step = MGDoOutput_step [where send = send and e = e and fuel = k and tot = tot, OF wf out room s [unfolded j(1)] j(3)]
  show ?thesis
  proof (cases "j < length b - ?pos")
    case True
    then have adv: "?pos + j < length b" by simp
    have "pending gw' = drop j (pending gw)"
      using run step True output_advanced(3) [OF wf out adv] by (simp add: k)
    then show ?thesis using j(2,3) l(4) by simp
  next
    case False
    let ?gw = "gw\<lparr>gw_output := rest, gw_curOutputPos := sizeof_ptr\<rparr>"
    note popped = output_popped [OF wf out]
    have un: "unat (maxBytes - word_of_nat j) = unat maxBytes - j"
      using room j(3) unat_u32_less [of maxBytes]
      by (subst unat_sub_le) (simp_all add: word_le_nat_alt unat_word_of_nat_u32)
    have lt: "length (pending ?gw) \<le> unat (maxBytes - word_of_nat j)" "length (gw_output ?gw) \<le> k"
      using budget l(4) j(3) popped(2) un out k False by simp_all
    from MGDoOutput_stream [OF send(1) popped(1) lt, of "tot + int j" e1]
    have "\<exists>s. pending ?gw = s @ pending gw'" using run step False by (auto simp: k)
    then have "length (pending gw') \<le> length (pending ?gw)" by auto
    also have "\<dots> < length (pending gw)" using popped(2) l(2,4) by simp
    finally show ?thesis .
  qed
qed

lemma pending_empty: "wf_output gw \<Longrightarrow> pending gw = [] \<longleftrightarrow> gw_output gw = []"
  using output_not_longer [of gw] by (auto simp: pending_def)

lemma mini_flush_sends:
  assumes send: "good_send send sent"
  shows "wf_output gw \<Longrightarrow> length (pending gw) \<le> unat maxBytes \<Longrightarrow> length (pending gw) \<le> fuel \<Longrightarrow>
    \<exists>gw' e'. mini_flush send fuel maxBytes n (gw, e) = Ok (gw', e') \<and> wf_output gw'
      \<and> sent e' @ pending gw' = sent e @ pending gw
      \<and> (eager_send send \<longrightarrow> length (pending gw) \<le> n \<longrightarrow> pending gw' = [])"
proof (induction n arbitrary: gw e)
  case (Suc n)
  show ?case
  proof (cases "gw_output gw = []")
    case True
    then show ?thesis using Suc.prems(1) by (simp add: MGHasBytesToOutput_def pending_def)
  next
    case False
    have f: "length (gw_output gw) \<le> fuel" using output_not_longer [OF Suc.prems(1)] Suc.prems(3) by simp
    from MGDoOutput_stream [OF send Suc.prems(1,2) f, of 0 e]
    obtain r gw1 e1 s where o: "MGDoOutput send fuel gw maxBytes 0 e = Ok (r, gw1, e1)" "wf_output gw1"
      "pending gw = s @ pending gw1" "sent e1 = sent e @ s" by blast
    have le: "length (pending gw1) \<le> unat maxBytes" "length (pending gw1) \<le> fuel"
      using Suc.prems(2,3) o(3) by simp_all
    from Suc.IH [OF o(2) le, of e1] obtain gw' e' where r:
      "mini_flush send fuel maxBytes n (gw1, e1) = Ok (gw', e')" "wf_output gw'"
      "sent e' @ pending gw' = sent e1 @ pending gw1"
      "eager_send send \<longrightarrow> length (pending gw1) \<le> n \<longrightarrow> pending gw' = []" by blast
    have "pending gw' = []" if "eager_send send" "length (pending gw) \<le> Suc n"
      using MGDoOutput_eager [OF send that(1) Suc.prems(1,2) f False o(1)] that r(4) by simp
    then show ?thesis using False o r by (auto simp: MGHasBytesToOutput_def)
  qed
qed (auto simp: pending_def)

subsection \<open>MicroMessageGateway\<close>

lemma u_input_step_Ok:
  "obind x (\<lambda>s. case s of UInput_error \<Rightarrow> A | UInput_more g \<Rightarrow> C g | UInput_message m g \<Rightarrow> B m g) = Ok z \<Longrightarrow>
   A = Ok z \<or> (\<exists>m g. B m g = Ok z) \<or> (\<exists>g. C g = Ok z)"
  by (cases x) (auto split: u_input_step.splits)

lemma UGDoInput_step:
  assumes "recv e (if maxBytes < ug_numInputBytesToRead gw - ug_numValidInputBytes gw then maxBytes
      else ug_numInputBytesToRead gw - ug_numValidInputBytes gw) = (r, bs, e1)"
    and "UGDoInput recv (Suc fuel) mem gw maxBytes tot e = Ok (n, m, mem', gw', e')"
  shows "e' = e1 \<or> (\<exists>mem2 gw2 tot2. UGDoInput recv fuel mem2 gw2 maxBytes tot2 e1 = Ok (n, m, mem', gw', e'))"
  using assms
  by (cases "mem_write mem (ug_inputBuffer gw + unat (ug_numValidInputBytes gw)) bs")
    (auto simp: UGDoInput.simps(2) Let_def split: if_split_asm dest!: u_input_step_Ok)

lemma UGDoInput_arriving:
  assumes recv: "good_recv recv arriving"
  shows "UGDoInput recv fuel mem gw maxBytes tot e = Ok (n, m, mem', gw', e') \<Longrightarrow>
    length (arriving e') \<le> length (arriving e)"
proof (induction fuel arbitrary: mem gw tot e)
  case (Suc fuel)
  obtain r bs e1 where rv: "recv e (if maxBytes < ug_numInputBytesToRead gw - ug_numValidInputBytes gw then maxBytes
      else ug_numInputBytesToRead gw - ug_numValidInputBytes gw) = (r, bs, e1)" by (metis prod_cases3)
  have "e' = e1 \<or> length (arriving e') \<le> length (arriving e1)"
    using UGDoInput_step [OF rv Suc.prems] Suc.IH by blast
  then show ?case using recv_arriving(1) [OF recv rv] by auto
qed simp

lemma UGDoInput_eager:
  assumes recv: "good_recv recv arriving" "eager_recv recv arriving"
    and k: "0 < maxBytes" "ug_numValidInputBytes gw \<noteq> ug_numInputBytesToRead gw" "arriving e \<noteq> []"
    and run: "UGDoInput recv (Suc fuel) mem gw maxBytes tot e = Ok (n, m, mem', gw', e')"
  shows "length (arriving e') < length (arriving e)"
proof -
  let ?k = "if maxBytes < ug_numInputBytesToRead gw - ug_numValidInputBytes gw then maxBytes
      else ug_numInputBytesToRead gw - ug_numValidInputBytes gw"
  obtain r bs e1 where rv: "recv e ?k = (r, bs, e1)" by (metis prod_cases3)
  have "0 < ?k" using k(1,2) by (simp add: word_greater_zero_iff)
  then have "0 < r" using recv(2) k(3) rv unfolding eager_recv_def by (metis fst_conv)
  then have "length (arriving e1) < length (arriving e)" by (rule recv_arriving(2) [OF recv(1) rv])
  moreover have "e' = e1 \<or> length (arriving e') \<le> length (arriving e1)"
    using UGDoInput_step [OF rv run] UGDoInput_arriving [OF recv(1)] by blast
  ultimately show ?thesis by auto
qed

definition micro_eager :: "'e recv_func \<Rightarrow> ('e \<Rightarrow> u8 list) \<Rightarrow> nat \<Rightarrow> nat \<Rightarrow> u32 \<Rightarrow> u8 list \<Rightarrow> bool" where
  "micro_eager recv arriving isz fuel maxBytes body \<longleftrightarrow>
     micro_readable recv arriving isz fuel maxBytes body \<and> eager_recv recv arriving"

interpretation micro_live: eager_receiver "micro_receive recv fuel maxBytes" "micro_at pre post isz"
    "\<lambda>s. arriving (snd (snd s))" "micro_eager recv arriving isz fuel maxBytes" uframe "\<lambda>body. body"
  for recv :: "'e recv_func" and fuel maxBytes pre post isz arriving
proof
  fix m :: "u8 list" show "uframe m \<noteq> []" by (simp add: uframe_def)
next
  fix body s p q ys
  assume "micro_eager recv arriving isz fuel maxBytes body" "micro_at pre post isz s p (uframe body)"
    "uframe body = p @ q" "q \<noteq> []" "arriving (snd (snd s)) = q @ ys"
  then show "(\<exists>s' p' q'. micro_receive recv fuel maxBytes s = Ok (None, s') \<and> micro_at pre post isz s' p' (uframe body)
        \<and> uframe body = p' @ q' \<and> q' \<noteq> [] \<and> arriving (snd (snd s')) = q' @ ys)
    \<or> (\<exists>s'. micro_receive recv fuel maxBytes s = Ok (Some body, s') \<and> arriving (snd (snd s')) = ys
        \<and> (\<forall>f. micro_at pre post isz s' [] f))"
    using micro_rx.call_reads [of recv arriving isz fuel maxBytes body pre post s p q ys] by (simp add: micro_eager_def)
next
  fix body s p q ys s'
  assume m: "micro_eager recv arriving isz fuel maxBytes body" and p: "micro_at pre post isz s p (uframe body)"
    and f: "uframe body = p @ q" "q \<noteq> []" and arr: "arriving (snd (snd s)) = q @ ys"
    and run: "micro_receive recv fuel maxBytes s = Ok (None, s')"
  obtain mem gw e where s: "s = (mem, gw, e)" by (cases s)
  have "uframe body \<noteq> []" by (simp add: uframe_def)
  then obtain k where k: "fuel = Suc k" using m by (cases fuel) (auto simp: micro_eager_def micro_readable_def)
  have g: "good_recv recv arriving" "eager_recv recv arriving" "0 < maxBytes" "12 \<le> length body"
    using m by (auto simp: micro_eager_def micro_readable_def)
  have "ug_numValidInputBytes gw \<noteq> ug_numInputBytesToRead gw"
  proof
    assume eq: "ug_numValidInputBytes gw = ug_numInputBytesToRead gw"
    have pl: "length p < length (uframe body)" using f by simp
    show False
    proof (cases "length p < 8")
      case True
      with p have "ug_numInputBytesToRead gw = 8 \<and> unat (ug_numValidInputBytes gw) = length p"
        by (auto simp: s micro_at_def ug_progress_def)
      then have "unat (8 :: u32) = length p" using eq by metis
      then show False using True by simp
    next
      case False
      with p have "unat (ug_numInputBytesToRead gw) = length (uframe body) - 8 \<and> unat (ug_numValidInputBytes gw) = length p - 8"
        by (auto simp: s micro_at_def ug_progress_def)
      then have "length (uframe body) - 8 = length p - 8" using eq by metis
      then show False using False pl by linarith
    qed
  qed
  moreover have "arriving e \<noteq> []" using arr f(2) by (simp add: s)
  ultimately show "length (arriving (snd (snd s'))) < length (arriving (snd (snd s)))"
    using UGDoInput_eager [OF g(1,2,3)] run by (auto simp: s k micro_receive_def obind_eq_Ok)
qed

end
