(* ===== verification/Mini_Equal.thy ===== *)
theory Mini_Equal
  imports Mini_Table "HOL-Library.List_Lexorder"
begin

section \<open>MiniMessage: what equality of Messages means\<close>

text \<open>
  \<^verbatim>\<open>MMAreMessagesEqual\<close> looks the fields of one Message up in the other.  For well-formed Messages
  that decides equality up to the order of the fields, at every level of nesting: \<open>canon\<close> sorts the
  fields by name, and the code compares the canonical forms.
\<close>

fun canon :: "MMessage \<Rightarrow> MMessage"
and canon_fields :: "MMessageField list \<Rightarrow> MMessageField list"
and canon_field :: "MMessageField \<Rightarrow> MMessageField"
and canon_slots :: "MMessage option list \<Rightarrow> MMessage option list"
where
  "canon (MMsg w fs) = MMsg w (sort_key field_key (canon_fields fs))"
| "canon_fields [] = []"
| "canon_fields (f # fs) = canon_field f # canon_fields fs"
| "canon_field (MField nm tc isz n (FixedData bs) fl) = MField nm tc isz n (FixedData bs) fl"
| "canon_field (MField nm tc isz n (BufData bufs) fl) = MField nm tc isz n (BufData bufs) fl"
| "canon_field (MField nm tc isz n (MsgData ms) fl) = MField nm tc isz n (MsgData (canon_slots ms)) fl"
| "canon_slots [] = []"
| "canon_slots (None # ms) = None # canon_slots ms"
| "canon_slots (Some m # ms) = Some (canon m) # canon_slots ms"

lemma canon_fields_map: "canon_fields fs = map canon_field fs"
  by (induction fs) simp_all

lemma canon_field_sel [simp]:
  "mf_name (canon_field f) = mf_name f" "mf_typeCode (canon_field f) = mf_typeCode f"
  "mf_numItems (canon_field f) = mf_numItems f" "mf_itemSize (canon_field f) = mf_itemSize f"
  "mf_isFlattenable (canon_field f) = mf_isFlattenable f"
  by (cases f rule: canon_field.cases; simp)+

lemma field_key_canon [simp]: "field_key (canon_field f) = field_key f"
  by (simp add: field_key_def)

lemma sort_key_same_set:
  fixes k :: "'a \<Rightarrow> 'b::linorder"
  assumes "distinct (map k xs)" "distinct (map k ys)" "set xs = set ys"
  shows "sort_key k xs = sort_key k ys"
proof (rule map_sorted_distinct_set_unique [where f = k])
  show "inj_on k (set (sort_key k xs) \<union> set (sort_key k ys))"
    using assms by (simp add: distinct_map)
qed (use assms in \<open>simp_all add: distinct_map\<close>)

lemma sort_key_eq_iff:
  fixes k :: "'a \<Rightarrow> 'b::linorder"
  assumes "distinct (map k xs)" "distinct (map k ys)"
  shows "sort_key k xs = sort_key k ys \<longleftrightarrow> set xs = set ys"
  using sort_key_same_set [OF assms] by (metis set_sort)

lemma canon_eq_iff:
  assumes "distinct (map field_key fs)" "distinct (map field_key gs)"
  shows "canon (MMsg w fs) = canon (MMsg v gs) \<longleftrightarrow>
    w = v \<and> length fs = length gs \<and> (\<forall>f \<in> set fs. \<exists>g \<in> set gs. canon_field f = canon_field g)"
proof -
  have d: "distinct (map field_key (canon_fields fs))" "distinct (map field_key (canon_fields gs))"
    using assms by (simp_all add: canon_fields_map comp_def)
  have card: "card (canon_field ` set hs) = length hs" if "distinct (map field_key hs)" for hs
  proof -
    have "inj_on canon_field (set hs)"
      using that unfolding distinct_map by (metis field_key_canon inj_on_def)
    then show ?thesis using that by (simp add: card_image distinct_map distinct_card)
  qed
  have "canon_field ` set fs = canon_field ` set gs \<longleftrightarrow>
      length fs = length gs \<and> canon_field ` set fs \<subseteq> canon_field ` set gs"
    using card [OF assms(1)] card [OF assms(2)]
    by (metis List.finite_set card_subset_eq finite_imageI order_refl)
  then show ?thesis
    using sort_key_eq_iff [OF d] by (auto simp: canon_fields_map)
qed

lemma wf_lookup_equal:
  assumes wf: "wf_msg msg2" and nm: "is_cstr nm"
  obtains (absent) "fmap msg2 (cstr nm) = None" "LookupMMessageField msg2 nm tc = Ok None"
  | (other) g where "fmap msg2 (cstr nm) = Some g" "mf_typeCode g \<noteq> tc" "LookupMMessageField msg2 nm tc = Ok None"
  | (found) g j where "fmap msg2 (cstr nm) = Some g" "LookupMMessageField msg2 nm tc = Ok (Some j)"
      "mm_fields msg2 ! j = g"
proof (cases "field_index msg2 (cstr nm)")
  case None
  then have "fmap msg2 (cstr nm) = None" by (simp add: fmap_None field_index_None)
  then show thesis
    using absent None wf_named_fields [OF wf] nm by (simp add: Lookup_field_index)
next
  case (Some j)
  then have j: "fmap msg2 (cstr nm) = Some (mm_fields msg2 ! j)" by (rule field_index_Some [THEN conjunct2, THEN conjunct2])
  show thesis
  proof (cases "tc = B_ANY_TYPE \<or> tc = mf_typeCode (mm_fields msg2 ! j)")
    case True
    then show thesis using found [OF j, of j] Some wf_named_fields [OF wf] nm by (simp add: Lookup_field_index)
  next
    case False
    then show thesis using other [OF j] Some wf_named_fields [OF wf] nm by (auto simp: Lookup_field_index)
  qed
qed

lemma bufs_equal_eq: "bufs_equal xs ys \<longleftrightarrow> xs = ys"
proof -
  have "(case (a, b) of (None, None) \<Rightarrow> True | (Some x, Some y) \<Rightarrow> MBAreByteBuffersEqual x y | _ \<Rightarrow> False) = (a = b)"
    for a b by (cases a; cases b) (auto simp: MBAreByteBuffersEqual_def)
  then show ?thesis by (simp add: bufs_equal_def list.rel_eq)
qed

lemma EqualFields_canon:
  assumes wf: "wf_msg msg2" and fs: "wf_fields fs"
    and eq: "\<And>f g. f \<in> set fs \<Longrightarrow> wf_field g \<Longrightarrow> field_key g = field_key f \<Longrightarrow>
      EqualField f g = Ok (canon_field f = canon_field g)"
  shows "EqualFields fs msg2 = Ok (\<forall>f \<in> set fs. \<exists>g \<in> set (mm_fields msg2). canon_field f = canon_field g)"
  using fs eq
proof (induction fs)
  case (Cons f fs)
  have IH: "EqualFields fs msg2 = Ok (\<forall>f \<in> set fs. \<exists>g \<in> set (mm_fields msg2). canon_field f = canon_field g)"
    using Cons by simp
  have key: "\<exists>g \<in> set (mm_fields msg2). canon_field f = canon_field g \<Longrightarrow>
      \<exists>g. fmap msg2 (field_key f) = Some g \<and> canon_field f = canon_field g"
    using fmap_eq_iff [OF wf_uniq [OF wf]] by (metis field_key_canon)
  have c: "is_cstr (mf_name f)" using Cons.prems(1) wf_field_name wf_name_cstr by simp
  show ?case
  proof (rule wf_lookup_equal [OF wf c, of "mf_typeCode f"])
    assume "fmap msg2 (cstr (mf_name f)) = None" "LookupMMessageField msg2 (mf_name f) (mf_typeCode f) = Ok None"
    then show ?thesis using key by (auto simp: field_key_def)
  next
    fix g assume other: "fmap msg2 (cstr (mf_name f)) = Some g" "mf_typeCode g \<noteq> mf_typeCode f"
      "LookupMMessageField msg2 (mf_name f) (mf_typeCode f) = Ok None"
    have "canon_field f \<noteq> canon_field g" using other(2) by (metis canon_field_sel(2))
    then show ?thesis using other key by (auto simp: field_key_def)
  next
    fix g j assume found: "fmap msg2 (cstr (mf_name f)) = Some g"
      "LookupMMessageField msg2 (mf_name f) (mf_typeCode f) = Ok (Some j)" "mm_fields msg2 ! j = g"
    then have g: "g \<in> set (mm_fields msg2)" "field_key g = field_key f"
      using fmap_eq_iff [OF wf_uniq [OF wf]] by (auto simp: field_key_def)
    then have "wf_field g" using wf by (simp add: wf_msg_fields wf_fields_iff)
    then have "EqualField f g = Ok (canon_field f = canon_field g)" using Cons.prems(2) g(2) by simp
    moreover have "canon_field f = canon_field g \<longleftrightarrow> (\<exists>g \<in> set (mm_fields msg2). canon_field f = canon_field g)"
      using g(1) key found(1) by (auto simp: field_key_def)
    ultimately show ?thesis using found IH by auto
  qed
qed simp

lemma canon_field_head:
  "canon_field f = canon_field g \<Longrightarrow> mf_numItems g = mf_numItems f \<and> mf_typeCode g = mf_typeCode f"
  by (metis canon_field_sel(2,3))

lemma wf_same_head:
  assumes "wf_field f" "wf_field g" "field_key f = field_key g" "mf_typeCode f = mf_typeCode g"
  shows "mf_name f = mf_name g" "mf_itemSize f = mf_itemSize g" "mf_isFlattenable f = mf_isFlattenable g"
proof -
  have "wf_head f" "wf_head g" using assms wf_field_head by blast+
  moreover have "mf_name f = field_key f @ [0]" "mf_name g = field_key g @ [0]"
    using assms(1,2) wf_field_name wf_name_cstr by (metis field_key_def)+
  ultimately show "mf_name f = mf_name g" "mf_itemSize f = mf_itemSize g"
    "mf_isFlattenable f = mf_isFlattenable g"
    using assms(3,4) by (simp_all add: wf_head_def)
qed

lemma equal_canon:
  "wf_msg m \<Longrightarrow> (\<forall>m2. wf_msg m2 \<longrightarrow> MMAreMessagesEqual False m m2 = Ok (canon m = canon m2))"
  "wf_fields fs \<Longrightarrow> (\<forall>f \<in> set fs. \<forall>g. wf_field g \<longrightarrow> field_key g = field_key f \<longrightarrow>
      EqualField f g = Ok (canon_field f = canon_field g))"
  "wf_field f \<Longrightarrow> (\<forall>g. wf_field g \<longrightarrow> field_key g = field_key f \<longrightarrow>
      EqualField f g = Ok (canon_field f = canon_field g))"
  "wf_slots ms \<Longrightarrow> (\<forall>ms2. wf_slots ms2 \<longrightarrow> length ms2 = length ms \<longrightarrow>
      EqualSlots ms ms2 = Ok (canon_slots ms = canon_slots ms2))"
proof (induction m and fs and f and ms rule: MMessage_induct)
  case (1 w fs)
  show ?case
  proof (intro allI impI)
    fix m2 assume wf2: "wf_msg m2"
    obtain v gs where m2: "m2 = MMsg v gs" by (cases m2)
    have d: "distinct (map field_key fs)" "distinct (map field_key gs)"
      using "1.prems" wf2 m2 wf_uniq by (fastforce simp: uniq_names_def)+
    have "EqualFields fs m2 = Ok (\<forall>f \<in> set fs. \<exists>g \<in> set gs. canon_field f = canon_field g)"
      using EqualFields_canon [OF wf2, of fs] "1" m2 by (simp add: wf_msg_fields)
    then show "MMAreMessagesEqual False (MMsg w fs) m2 = Ok (canon (MMsg w fs) = canon m2)"
      unfolding m2 canon_eq_iff [OF d] by auto
  qed
next
  case (4 nm tc isz n bs fl)
  show ?case
  proof (intro allI impI)
    fix g assume g: "wf_field g" "field_key g = field_key (MField nm tc isz n (FixedData bs) fl)"
    note same = wf_same_head [OF "4.prems" g(1) g(2) [symmetric]]
    show "EqualField (MField nm tc isz n (FixedData bs) fl) g =
        Ok (canon_field (MField nm tc isz n (FixedData bs) fl) = canon_field g)"
    proof (cases "mf_numItems g = n \<and> mf_typeCode g = tc")
      case False
      then have "canon_field (MField nm tc isz n (FixedData bs) fl) \<noteq> canon_field g"
        using canon_field_head [of "MField nm tc isz n (FixedData bs) fl" g] by (simp only: MMessageField.sel) blast
      then show ?thesis using False by auto
    next
      case True
      have k: "unat (n * isz) = length bs"
        using "4.prems" field_alloc_exact [of "MField nm tc isz n (FixedData bs) fl"] by simp
      have var: "\<not> IsTypeCodeVariableSize tc" using "4.prems" by simp
      then obtain bs2 where "mf_data g = FixedData bs2" "length bs2 = unat n * unat (mf_itemSize g)"
        using True g(1) by (cases g rule: wf_field.cases) auto
      then have "g = MField nm tc isz n (FixedData bs2) fl" "length bs2 = length bs"
        using True same "4.prems" by (cases g; simp)+
      then show ?thesis using k var by (simp add: fixed_bytes_def)
    qed
  qed
next
  case (5 nm tc isz n bufs fl)
  show ?case
  proof (intro allI impI)
    fix g assume g: "wf_field g" "field_key g = field_key (MField nm tc isz n (BufData bufs) fl)"
    note same = wf_same_head [OF "5.prems" g(1) g(2) [symmetric]]
    show "EqualField (MField nm tc isz n (BufData bufs) fl) g =
        Ok (canon_field (MField nm tc isz n (BufData bufs) fl) = canon_field g)"
    proof (cases "mf_numItems g = n \<and> mf_typeCode g = tc")
      case False
      then have "canon_field (MField nm tc isz n (BufData bufs) fl) \<noteq> canon_field g"
        using canon_field_head [of "MField nm tc isz n (BufData bufs) fl" g] by (simp only: MMessageField.sel) blast
      then show ?thesis using False by auto
    next
      case True
      have var: "IsTypeCodeVariableSize tc" "tc \<noteq> B_MESSAGE_TYPE" "length bufs = unat n" using "5.prems" by simp_all
      then obtain bufs2 where "mf_data g = BufData bufs2" "length bufs2 = unat n"
        using True g(1) by (cases g rule: wf_field.cases) auto
      moreover then have "g = MField nm tc isz n (BufData bufs2) fl"
        using True same by (cases g) simp
      ultimately show ?thesis using var by (auto simp: buf_slots_def bufs_equal_eq)
    qed
  qed
next
  case (6 nm tc isz n msgs fl)
  show ?case
  proof (intro allI impI)
    fix g assume g: "wf_field g" "field_key g = field_key (MField nm tc isz n (MsgData msgs) fl)"
    note same = wf_same_head [OF "6.prems" g(1) g(2) [symmetric]]
    show "EqualField (MField nm tc isz n (MsgData msgs) fl) g =
        Ok (canon_field (MField nm tc isz n (MsgData msgs) fl) = canon_field g)"
    proof (cases "mf_numItems g = n \<and> mf_typeCode g = tc")
      case False
      then have "canon_field (MField nm tc isz n (MsgData msgs) fl) \<noteq> canon_field g"
        using canon_field_head [of "MField nm tc isz n (MsgData msgs) fl" g] by (simp only: MMessageField.sel) blast
      then show ?thesis using False by auto
    next
      case True
      have var: "tc = B_MESSAGE_TYPE" "length msgs = unat n" "wf_slots msgs" using "6.prems" by simp_all
      then have "IsTypeCodeVariableSize tc" by (simp add: IsTypeCodeVariableSize_def type_code_defs)
      then obtain ms2 where ms2: "mf_data g = MsgData ms2" "length ms2 = unat n" "wf_slots ms2"
        using True g(1) var by (cases g rule: wf_field.cases) auto
      then have "g = MField nm tc isz n (MsgData ms2) fl" using True same by (cases g) simp
      then show ?thesis using var ms2 "6.IH" by (simp add: msg_slots_def)
    qed
  qed
next
  case (8 ms)
  show ?case
  proof (intro allI impI)
    fix ms2 assume "wf_slots ms2" "length ms2 = length (None # ms)"
    then show "EqualSlots (None # ms) ms2 = Ok (canon_slots (None # ms) = canon_slots ms2)"
      using "8" by (cases ms2 rule: wf_slots.cases) auto
  qed
next
  case (9 m ms)
  show ?case
  proof (intro allI impI)
    fix ms2 assume "wf_slots ms2" "length ms2 = length (Some m # ms)"
    then show "EqualSlots (Some m # ms) ms2 = Ok (canon_slots (Some m # ms) = canon_slots ms2)"
      using "9" by (cases ms2 rule: wf_slots.cases) auto
  qed
qed auto

end
