(* ===== verification/Mini_Properties.thy ===== *)
theory Mini_Properties
  imports Mini_Unflatten Mini_Equal
begin

section \<open>MiniMessage: what its API promises\<close>

text \<open>
  The properties of MiniMessage.c, each one theorem over the definitions of the theories
  \<open>Mini_Message\<close> to \<open>Mini_Unflatten\<close>: the table of fields as a map from names to fields, the wire
  format, and the input on which the reader fails.  The sample Messages are the inputs of the
  witnesses.
\<close>

definition sample_msg :: MMessage where
  "sample_msg = MMsg 7 [
     MField [97, 0] B_INT32_TYPE 4 1 (FixedData [1, 2, 3, 4]) True,
     MField [98, 0] B_STRING_TYPE 8 2 (BufData [Some [104, 105, 0], None]) True,
     MField [99, 0] B_MESSAGE_TYPE 8 1 (MsgData [None]) True,
     MField [100, 0] B_POINTER_TYPE 8 1 (FixedData [0, 0, 0, 0, 0, 0, 0, 9]) False]"

lemma sample_msg_wf: "wf_msg sample_msg"
  by (simp add: sample_msg_def wf_head_def wf_name_def wf_buf_def cstr_def sizeof_MMessageField_def
      sizeof_ptr_def type_item_size_def type_code_defs IsTypeCodeVariableSize_def)

lemma sample_msg_length: "length (wire_msg big sample_msg) = 89"
  by (simp add: sample_msg_def length_wire_field wire_bufs_def buf_bytes_def)

text \<open>The name "a" as the caller passes it: a zero, and whatever is behind it.\<close>

definition name_a :: "u8 list" where "name_a = [97, 0, 5]"
definition name_z :: "u8 list" where "name_z = [122, 0]"

lemma cstr_names [simp]: "cstr name_a = [97]" "cstr name_z = [122]" "is_cstr name_a" "is_cstr name_z"
  by (simp_all add: name_a_def name_z_def cstr_def is_cstr_def)

lemma fmap_sample:
  "fmap sample_msg [97] = Some (MField [97, 0] B_INT32_TYPE 4 1 (FixedData [1, 2, 3, 4]) True)"
  "fmap sample_msg [122] = None" "fmap (MMsg w []) k = None"
  by (simp_all add: fmap_def sample_msg_def field_key_def cstr_def)

lemma sample_rename_fits: "rename_fits sample_msg old [122]"
  by (simp add: rename_fits_def sample_msg_def sizeof_MMessageField_def)

subsection \<open>Flattening and unflattening\<close>

text \<open>
  C1.  A flattened Message is read back: for every well-formed Message whose flattened size is in
  the range of the code's sizes, \<^verbatim>\<open>MMFlattenMessage\<close> writes the whole Message at the given position
  of any buffer with room for it, and \<^verbatim>\<open>MMUnflattenMessage\<close> of those bytes, with the size that
  \<^verbatim>\<open>MMGetFlattenedSize\<close> gives, succeeds and returns the Message again, less the fields that are not
  flattenable and with NULL items as empty ones, on either byte order, whatever the Message object
  held before.  Any fuel from the size on is enough, so the reader returns.
  Memory is available.
\<close>

theorem MMUnflatten_MMFlatten:
  assumes "wf_msg m" "length (wire_msg big m) < size_limit big"
    and "base + length (wire_msg big m) \<le> length buf"
    and "\<And>k. am k" "length (wire_msg big m) \<le> fuel" "wf_msg msg0"
  shows "\<exists>buf' sz. MMFlattenMessage big m buf base = Ok buf' \<and> MMGetFlattenedSize m = Ok sz
    \<and> length buf' = length buf
    \<and> MMUnflattenMessage am big fuel msg0 (drop base buf') sz = Ok (B_NO_ERROR, norm_msg m)"
proof (intro exI conjI)
  show "MMFlattenMessage big m buf base = Ok (overlay buf base (wire_msg big m))"
    using assms(1,3,2) by (rule MMFlattenMessage_wire)
  show "MMGetFlattenedSize m = Ok (word_of_nat (length (wire_msg big m)))"
    using assms(1) by (rule size_wire)
  show "length (overlay buf base (wire_msg big m)) = length buf"
    using assms(3) by (simp add: overlay_def)
  have "drop base (overlay buf base (wire_msg big m)) =
      wire_msg big m @ drop (base + length (wire_msg big m)) buf"
    using assms(3) by (simp add: overlay_def)
  moreover have "FreeFields (mm_fields msg0) = Ok ()"
    using assms(6) free_wf(2) by (simp add: wf_msg_fields)
  ultimately show "MMUnflattenMessage am big fuel msg0 (drop base (overlay buf base (wire_msg big m)))
      (word_of_nat (length (wire_msg big m))) = Ok (B_NO_ERROR, norm_msg m)"
    using unflatten_flatten [where am = am, OF assms(1,4,2,5)] by simp
qed

theorem MMUnflatten_MMFlatten_witness:
  "\<exists>buf' sz. MMFlattenMessage True sample_msg (replicate 100 0) 3 = Ok buf'
    \<and> MMGetFlattenedSize sample_msg = Ok sz \<and> length buf' = length (replicate 100 (0 :: u8))
    \<and> MMUnflattenMessage (\<lambda>_. True) True 89 (MMsg 0 []) (drop 3 buf') sz
        = Ok (B_NO_ERROR, norm_msg sample_msg)"
  by (rule MMUnflatten_MMFlatten)
    (simp_all add: sample_msg_wf sample_msg_length size_limit_def)

text \<open>
  \<^verbatim>\<open>MMFlattenMessage\<close> writes exactly the bytes that \<^verbatim>\<open>MMGetFlattenedSize\<close> announces, in the
  wire format \<open>wire_msg\<close> (header, then per field the name, type code, data length and data), and
  leaves every byte before and behind them as it was; the same bytes on either byte order of the
  host when the fixed-size data are the same numbers.
\<close>

theorem MMFlattenMessage_writes_wire:
  assumes "wf_msg m" "length (wire_msg big m) < size_limit big" "length mid = length (wire_msg big m)"
  shows "MMFlattenMessage big m (pre @ mid @ post) (length pre) = Ok (pre @ wire_msg big m @ post)
    \<and> MMGetFlattenedSize m = Ok (word_of_nat (length mid))"
  using MMFlattenMessage_wire [OF assms(1) _ assms(2), of "length pre" "pre @ mid @ post"]
    size_wire(1) [OF assms(1), of big] assms(3)
  by (simp add: overlay_def)

theorem MMFlattenMessage_writes_wire_witness:
  "MMFlattenMessage False sample_msg ([1, 2] @ replicate 89 0 @ [3]) (length [1, 2 :: u8]) =
     Ok ([1, 2] @ wire_msg False sample_msg @ [3])
   \<and> MMGetFlattenedSize sample_msg = Ok (word_of_nat (length (replicate 89 (0 :: u8))))"
  by (rule MMFlattenMessage_writes_wire) (simp_all add: sample_msg_wf sample_msg_length size_limit_def)

text \<open>
  \<^verbatim>\<open>MMUnflattenMessage\<close> rejects input that is too short for the header, or that has another
  protocol version, with \<^verbatim>\<open>B_ERROR\<close>; the fields of the Message object stay as they were.
\<close>

theorem MMUnflattenMessage_rejects:
  assumes "unat inSize \<le> length mem"
    and "unat inSize < 12 \<or> (\<exists>v bs. seg mem inSize 0 (u32_le v @ bs) \<and> v \<noteq> CURRENT_PROTOCOL_VERSION)"
  shows "\<exists>w. MMUnflattenMessage am big (Suc fuel) msg mem inSize = Ok (B_ERROR, MMsg w (mm_fields msg))"
  using assms(2)
proof
  assume "unat inSize < 12"
  then show ?thesis using assms(1) by (rule unflatten_short_header)
next
  assume "\<exists>v bs. seg mem inSize 0 (u32_le v @ bs) \<and> v \<noteq> CURRENT_PROTOCOL_VERSION"
  then show ?thesis using unflatten_wrong_version by (metis MMsg_sel)
qed

theorem MMUnflattenMessage_rejects_witness:
  "\<exists>w. MMUnflattenMessage (\<lambda>_. True) False (Suc 0) sample_msg [0, 0, 0] 3 =
     Ok (B_ERROR, MMsg w (mm_fields sample_msg))"
  by (rule MMUnflattenMessage_rejects) simp_all

text \<open>
  C36.  A single message field whose first sub-Message claims the size \<open>2 ^ 32 - 4\<close> makes
  \<^verbatim>\<open>MMUnflattenMessage\<close> run for ever: the 32-bit sum of the size and its own four bytes wraps around
  to zero, the loop over the sub-Messages never advances, and no fuel is enough.
\<close>

theorem MMUnflattenMessage_endless:
  assumes "\<And>k. am k" "wf_msg msg0"
  shows "MMUnflattenMessage am big fuel msg0 endless_input (word_of_nat (length endless_input)) = Spin"
  using assms unflatten_endless [of am msg0 big fuel] free_wf(2) by (simp add: wf_msg_fields)

theorem MMUnflattenMessage_endless_witness:
  "MMUnflattenMessage (\<lambda>_. True) False 1000 sample_msg endless_input (word_of_nat (length endless_input)) = Spin"
  by (rule MMUnflattenMessage_endless) (simp_all add: sample_msg_wf)

text \<open>
  C37.  Two short inputs make \<^verbatim>\<open>MMUnflattenMessage\<close> leave its buffers: a string field whose item is
  longer than what is left of the entry is copied from behind the input, and an item count of
  \<open>2 ^ 29\<close> wraps the size of the pointer array around to zero, so that the first pointer is stored
  behind the block.
\<close>

theorem MMUnflattenMessage_out_of_bounds:
  assumes "\<And>k. am k" "wf_msg msg0"
  shows "MMUnflattenMessage am big (Suc f) msg0 overread_input (word_of_nat (length overread_input)) = Fault
    \<and> MMUnflattenMessage am big (Suc f) msg0 overflow_input (word_of_nat (length overflow_input)) = Fault"
  using assms unflatten_overread [of am msg0 big f] unflatten_overflow [of am msg0 big f] free_wf(2)
  by (simp add: wf_msg_fields)

theorem MMUnflattenMessage_out_of_bounds_witness:
  "MMUnflattenMessage (\<lambda>_. True) True (Suc 3) sample_msg overread_input (word_of_nat (length overread_input)) = Fault
   \<and> MMUnflattenMessage (\<lambda>_. True) True (Suc 3) sample_msg overflow_input (word_of_nat (length overflow_input)) = Fault"
  by (rule MMUnflattenMessage_out_of_bounds) (simp_all add: sample_msg_wf)

subsection \<open>The table of fields\<close>

text \<open>
  Putting a field of a fixed-size type (\<^verbatim>\<open>MMPutInt32Field\<close> and its siblings): when the block
  fits in 32 bits and is allocated, the call succeeds, the Message stays well-formed and its map
  changes at that name alone; the new field has zeroed items, after those of an old field of the
  same type when the caller retains them.
\<close>

theorem MMPut_fixed_updates:
  assumes "wf_msg msg" "is_cstr fn" "alloc_fits n (type_item_size tc) fn"
    and "\<not> IsTypeCodeVariableSize tc" "tc \<noteq> B_POINTER_TYPE" "\<And>k. am k"
  shows "\<exists>msg'. PutMMFixedFieldAux am msg retain tc fn n (type_item_size tc) = Ok (True, msg')
    \<and> wf_msg msg' \<and> mm_what msg' = mm_what msg
    \<and> fmap msg' = (fmap msg)(cstr fn \<mapsto> fixed_field retain (fmap msg (cstr fn)) tc fn n (type_item_size tc))"
  using PutMMFixedFieldAux_wf [where am = am, OF assms(1-4,6)] wf_fixed_field [OF assms(3-5)]
    wf_Add_without [OF assms(1)]
  by (simp add: fmap_Add fmap_without)

theorem MMPut_fixed_updates_witness:
  "\<exists>msg'. PutMMFixedFieldAux (\<lambda>_. True) sample_msg True B_INT32_TYPE name_a 3 (type_item_size B_INT32_TYPE)
       = Ok (True, msg')
    \<and> wf_msg msg' \<and> mm_what msg' = mm_what sample_msg
    \<and> fmap msg' = (fmap sample_msg)(cstr name_a \<mapsto> fixed_field True (fmap sample_msg (cstr name_a)) B_INT32_TYPE
        name_a 3 (type_item_size B_INT32_TYPE))"
  by (rule MMPut_fixed_updates)
    (simp_all add: sample_msg_wf alloc_fits_def sizeof_MMessageField_def type_item_size_def type_code_defs
      IsTypeCodeVariableSize_def)

text \<open>
  Putting a field of strings or data (\<^verbatim>\<open>MMPutStringField\<close>, \<^verbatim>\<open>MMPutDataField\<close>): the same, with
  NULL items; the buffers that the caller retains move to the new field, so that freeing the old
  field does not free them.
\<close>

theorem MMPut_variable_updates:
  assumes "wf_msg msg" "is_cstr fn" "alloc_fits n sizeof_ptr fn"
    and "IsTypeCodeVariableSize tc" "tc \<noteq> B_MESSAGE_TYPE" "\<And>k. am k"
  shows "\<exists>msg'. PutMMVariableFieldAux am msg retain tc fn n = Ok (True, msg')
    \<and> wf_msg msg' \<and> mm_what msg' = mm_what msg
    \<and> fmap msg' = (fmap msg)(cstr fn \<mapsto> buf_field retain (fmap msg (cstr fn)) tc fn n)"
proof -
  have "wf_field f" if "fmap msg (cstr fn) = Some f" for f
    using that assms(1) fmap_eq_iff [OF wf_uniq [OF assms(1)]] by (auto simp: wf_msg_fields wf_fields_iff)
  then show ?thesis
    using PutMMVariableFieldAux_wf [where am = am, OF assms] wf_buf_field [OF assms(3-5)]
      wf_Add_without [OF assms(1)]
    by (simp add: fmap_Add fmap_without)
qed

theorem MMPut_variable_updates_witness:
  "\<exists>msg'. PutMMVariableFieldAux (\<lambda>_. True) sample_msg True B_STRING_TYPE name_z 3 = Ok (True, msg')
    \<and> wf_msg msg' \<and> mm_what msg' = mm_what sample_msg
    \<and> fmap msg' = (fmap sample_msg)(cstr name_z \<mapsto> buf_field True (fmap sample_msg (cstr name_z)) B_STRING_TYPE
        name_z 3)"
  by (rule MMPut_variable_updates)
    (simp_all add: sample_msg_wf alloc_fits_def sizeof_MMessageField_def sizeof_ptr_def type_code_defs
      IsTypeCodeVariableSize_def)

text \<open>
  A typed lookup (\<^verbatim>\<open>MMGetInt32Field\<close> and its siblings) of a well-formed Message returns the data
  and item count of the field the map has at that name when its type is the one asked for (or any
  is), and NULL otherwise.
\<close>

theorem MMGet_reads_map:
  assumes "wf_msg msg" "is_cstr fn"
  shows "GetFieldDataAux msg fn tc =
    Ok (case fmap msg (cstr fn) of
          None \<Rightarrow> None
        | Some f \<Rightarrow> if tc = B_ANY_TYPE \<or> tc = mf_typeCode f then Some (mf_data f, mf_numItems f) else None)"
proof -
  have "0 < mf_numItems f" if "fmap msg (cstr fn) = Some f" for f
    using that assms(1) fmap_eq_iff [OF wf_uniq [OF assms(1)]] wf_field_head [of f]
    by (auto simp: wf_msg_fields wf_fields_iff wf_head_def)
  then show ?thesis
    using GetFieldDataAux_fmap [OF wf_named_fields [OF assms(1)] assms(2), of tc] by (simp split: option.split)
qed

theorem MMGet_reads_map_witness:
  "GetFieldDataAux sample_msg name_a B_INT32_TYPE = Ok (Some (FixedData [1, 2, 3, 4], 1))
   \<and> GetFieldDataAux sample_msg name_a B_BOOL_TYPE = Ok None"
  using MMGet_reads_map [OF sample_msg_wf, of name_a B_INT32_TYPE]
    MMGet_reads_map [OF sample_msg_wf, of name_a B_BOOL_TYPE]
  by (simp add: fmap_sample) (simp add: type_code_defs)

text \<open>
  \<^verbatim>\<open>MMRemoveField\<close> deletes the name from the map, keeps the Message well-formed and frees the
  field without a fault; it fails, changing nothing, exactly when there is no such field.
\<close>

theorem MMRemoveField_deletes:
  assumes "wf_msg msg" "is_cstr fn"
  shows "\<exists>msg'. MMRemoveField msg fn = Ok (if fmap msg (cstr fn) = None then B_ERROR else B_NO_ERROR, msg')
    \<and> wf_msg msg' \<and> mm_what msg' = mm_what msg \<and> fmap msg' = (fmap msg)(cstr fn := None)"
  using MMRemoveField_wf [OF assms] wf_without [OF assms(1)] by (simp add: fmap_without)

theorem MMRemoveField_deletes_witness:
  "\<exists>msg'. MMRemoveField sample_msg name_a =
      Ok (if fmap sample_msg (cstr name_a) = None then B_ERROR else B_NO_ERROR, msg')
    \<and> wf_msg msg' \<and> mm_what msg' = mm_what sample_msg \<and> fmap msg' = (fmap sample_msg)(cstr name_a := None)"
  by (rule MMRemoveField_deletes) (simp_all add: sample_msg_wf)

text \<open>
  \<^verbatim>\<open>MMRenameField\<close> moves a field to the new name, replacing the field that was there, and keeps
  the Message well-formed; an unknown old name is an error and renaming a field to itself is not.
\<close>

theorem MMRenameField_renames:
  assumes "wf_msg msg" "is_cstr old" "is_cstr new" "rename_fits msg (cstr old) (cstr new)" "\<And>k. am k"
  shows "\<exists>msg'. MMRenameField am msg old new =
      Ok (if cstr old \<noteq> cstr new \<and> fmap msg (cstr old) = None then B_ERROR else B_NO_ERROR, msg')
    \<and> wf_msg msg'
    \<and> fmap msg' = (case fmap msg (cstr old) of
        None \<Rightarrow> fmap msg
      | Some f \<Rightarrow> if cstr old = cstr new then fmap msg
                  else (fmap msg)(cstr old := None, cstr new \<mapsto> set_name (cstr new @ [0]) f))"
  using MMRenameField_wf [where am = am, OF assms] assms(1) zero_notin_cstr [of new]
    wf_rename_in [OF assms(1) _ assms(4)] fmap_rename_in [OF wf_uniq [OF assms(1)], of "cstr new" "cstr old"]
  by (auto split: option.split)

theorem MMRenameField_renames_witness:
  "\<exists>msg'. MMRenameField (\<lambda>_. True) sample_msg name_a name_z =
      Ok (if cstr name_a \<noteq> cstr name_z \<and> fmap sample_msg (cstr name_a) = None then B_ERROR else B_NO_ERROR, msg')
    \<and> wf_msg msg'
    \<and> fmap msg' = (case fmap sample_msg (cstr name_a) of
        None \<Rightarrow> fmap sample_msg
      | Some f \<Rightarrow> if cstr name_a = cstr name_z then fmap sample_msg
                  else (fmap sample_msg)(cstr name_a := None, cstr name_z \<mapsto> set_name (cstr name_z @ [0]) f))"
  by (rule MMRenameField_renames) (simp_all add: sample_msg_wf sample_rename_fits)

text \<open>
  \<^verbatim>\<open>MMCopyField\<close> puts a copy of the field into the other Message, replacing the field of that
  name there and nothing else; when the copy cannot be allocated, or there is no such field, it
  fails and the destination is as before.
\<close>

theorem MMCopyField_copies:
  assumes "wf_msg src" "wf_msg dest" "is_cstr fn"
  shows "\<exists>st dest'. MMCopyField am src fn (Some dest) False = Ok (st, Some dest') \<and> wf_msg dest'
    \<and> (st = B_NO_ERROR \<longrightarrow> (\<exists>f. fmap src (cstr fn) = Some f \<and> fmap dest' = (fmap dest)(cstr fn \<mapsto> f)))
    \<and> (st = B_ERROR \<longrightarrow> dest' = dest)
    \<and> ((\<forall>k. am k) \<longrightarrow> (st = B_NO_ERROR \<longleftrightarrow> fmap src (cstr fn) \<noteq> None))"
proof (cases "fmap src (cstr fn)")
  case None
  then show ?thesis using MMCopyField_wf [OF assms, of am] assms by simp
next
  case (Some f)
  then have f: "wf_field f" "field_key f = cstr fn"
    using fmap_eq_iff [OF wf_uniq [OF assms(1)]] assms(1) by (auto simp: wf_msg_fields wf_fields_iff)
  have "CloneMMessageField am f \<noteq> Ok None" if "\<forall>k. am k"
    using clone_total(3) [OF f(1)] that by (metis (full_types) ext option.distinct(1) outcome.inject)
  with Some show ?thesis
    using MMCopyField_wf [OF assms, of am] wf_Add_without [OF assms(2) f] assms(2) f(2)
    by (auto simp: fmap_Add fmap_without)
qed

theorem MMCopyField_copies_witness:
  "\<exists>st dest'. MMCopyField (\<lambda>_. True) sample_msg name_a (Some (MMsg 1 [])) False = Ok (st, Some dest')
    \<and> wf_msg dest'
    \<and> (st = B_NO_ERROR \<longrightarrow> (\<exists>f. fmap sample_msg (cstr name_a) = Some f
          \<and> fmap dest' = (fmap (MMsg 1 []))(cstr name_a \<mapsto> f)))
    \<and> (st = B_ERROR \<longrightarrow> dest' = MMsg 1 [])
    \<and> ((\<forall>k. (\<lambda>_ :: nat. True) k) \<longrightarrow> (st = B_NO_ERROR \<longleftrightarrow> fmap sample_msg (cstr name_a) \<noteq> None))"
  by (rule MMCopyField_copies) (simp_all add: sample_msg_wf)

text \<open>
  \<^verbatim>\<open>MMMoveField\<close> moves the field when the destination has none of that name; when it has one,
  the code frees the field it is moving (and not the one it replaces) and then links it into the
  destination, so that the call uses freed memory.
\<close>

theorem MMMoveField_moves:
  assumes "wf_msg src" "wf_msg dest" "is_cstr fn"
  shows "MMMoveField src fn (Some dest) False =
    (case fmap src (cstr fn) of
       None \<Rightarrow> Ok (B_ERROR, src, Some dest)
     | Some f \<Rightarrow> if fmap dest (cstr fn) = None
                 then Ok (B_NO_ERROR, without (cstr fn) src, Some (AddMMessageField dest f))
                 else Fault)"
proof (cases "fmap dest (cstr fn)")
  case None
  then show ?thesis using MMMoveField_wf [OF assms] by (simp split: option.split)
next
  case (Some g)
  show ?thesis
  proof (cases "fmap src (cstr fn)")
    case None
    then have "field_index src (cstr fn) = None" by (simp add: fmap_None field_index_None)
    with None show ?thesis using assms
      by (simp add: MMMoveField_def Lookup_any_field_index wf_named_fields)
  next
    case (Some f)
    then show ?thesis using MMMoveField_use_after_free [OF assms] \<open>fmap dest (cstr fn) = Some g\<close> by simp
  qed
qed

theorem MMMoveField_moves_witness:
  "MMMoveField sample_msg name_a (Some sample_msg) False = Fault"
  using MMMoveField_moves [OF sample_msg_wf sample_msg_wf, of name_a] by (simp add: fmap_sample)

text \<open>
  \<^verbatim>\<open>MMCloneMessage\<close> of a well-formed Message returns an equal Message or, when an allocation
  fails, NULL; it returns NULL only when one does, and never faults.
\<close>

theorem MMCloneMessage_equal:
  assumes "wf_msg m"
  shows "(MMCloneMessage am m = Ok (Some m) \<or> MMCloneMessage am m = Ok None)
    \<and> ((\<forall>k. am k) \<longrightarrow> MMCloneMessage am m = Ok (Some m))
    \<and> MMAreMessagesEqual False m m = Ok True"
proof -
  have "am = (\<lambda>_. True)" if "\<forall>k. am k" using that by auto
  then show ?thesis
    using clone_wf(1) [OF assms, of am] clone_total(1) [OF assms] equal_refl(1) [OF assms] by auto
qed

theorem MMCloneMessage_equal_witness:
  "MMCloneMessage (\<lambda>_. True) sample_msg = Ok (Some sample_msg) \<and> MMAreMessagesEqual False sample_msg sample_msg = Ok True"
  using MMCloneMessage_equal [OF sample_msg_wf, of "\<lambda>_. True"] by blast

text \<open>
  \<^verbatim>\<open>MMAreMessagesEqual\<close> decides equality up to the order of the fields, at every level of
  nesting: it returns true exactly when the two Messages are the same after sorting the fields by
  name.
\<close>

theorem MMAreMessagesEqual_canon:
  assumes "wf_msg m" "wf_msg m2"
  shows "MMAreMessagesEqual False m m2 = Ok (canon m = canon m2)"
  using equal_canon(1) [OF assms(1)] assms(2) by blast

theorem MMAreMessagesEqual_canon_witness:
  "MMAreMessagesEqual False sample_msg (MMsg 7 []) = Ok (canon sample_msg = canon (MMsg 7 []))"
  by (rule MMAreMessagesEqual_canon) (simp_all add: sample_msg_wf)

primrec field_names :: "nat \<Rightarrow> MMessageIterator \<Rightarrow> (u8 list \<times> u32) list" where
  "field_names 0 iter = []"
| "field_names (Suc n) iter =
     (case MMGetNextFieldName iter of
        (None, iter') \<Rightarrow> []
      | (Some x, iter') \<Rightarrow> x # field_names n iter')"

lemma field_names_filter:
  "field_names n \<lparr>iterState = fs, iterTypeCode = tc\<rparr> =
   take n (map (\<lambda>f. (mf_name f, mf_typeCode f)) (filter (type_matches tc) fs))"
proof (induction n arbitrary: fs)
  case (Suc n)
  show ?case
  proof (cases "filter (type_matches tc) fs")
    case Nil
    then show ?thesis using next_name_filter [of tc fs] by (simp add: MMGetNextFieldName_def)
  next
    case (Cons f rest)
    then obtain fs' where "next_name tc fs = (Some (mf_name f, mf_typeCode f), fs')"
      "filter (type_matches tc) fs' = rest"
      using next_name_filter [of tc fs] by auto
    then show ?thesis using Cons Suc [of fs'] by (simp add: MMGetNextFieldName_def)
  qed
qed simp

text \<open>
  Iterating with \<^verbatim>\<open>MMGetNextFieldName\<close> until it returns NULL gives the names and types of the
  fields of the type asked for (of all fields for \<^verbatim>\<open>B_ANY_TYPE\<close>), each once, in the order they were
  added.
\<close>

theorem MMGetNextFieldName_enumerates:
  "length (mm_fields msg) \<le> n \<Longrightarrow>
   field_names n (MMGetFieldNameIterator msg tc) =
   map (\<lambda>f. (mf_name f, mf_typeCode f)) (filter (type_matches tc) (mm_fields msg))"
  using order_trans [OF length_filter_le [of "type_matches tc" "mm_fields msg"]]
  by (simp add: MMGetFieldNameIterator_def field_names_filter)

theorem MMGetNextFieldName_enumerates_witness:
  "field_names 10 (MMGetFieldNameIterator sample_msg B_STRING_TYPE) =
   map (\<lambda>f. (mf_name f, mf_typeCode f)) (filter (type_matches B_STRING_TYPE) (mm_fields sample_msg))"
  by (rule MMGetNextFieldName_enumerates) (simp add: sample_msg_def)

end
