(* ===== verification/Micro_Properties.thy ===== *)
theory Micro_Properties
  imports Micro_Interop
begin

section \<open>MicroMessage: what its API promises\<close>

text \<open>
  The properties of MicroMessage.c, over the views of theory \<open>Micro_Build\<close>: a UMessage at \<open>pre\<close> of
  the memory holds the fields \<open>fs\<close> (\<open>um_view\<close>), and can be added to (\<open>um_rep\<close>, \<open>can_add\<close>).  The last
  property composes it with MiniMessage.
\<close>

text \<open>The UMessages of the witnesses: some fields at the start of a buffer of 100 bytes.\<close>

definition sample_um :: "ufield list \<Rightarrow> UMessage" where
  "sample_um fs = \<lparr>um_buffer = Some 0, um_bufferSize = 100,
     um_numValidBytes = word_of_nat (length (ubytes 7 fs)),
     um_currentAddField = (if fs = [] then None else Some (12 + length (ufields_bytes (butlast fs)))),
     um_isReadOnly = False, um_sizeField = None, um_readFieldCache = None\<rparr>"

definition sample_mem :: "ufield list \<Rightarrow> u8 list" where
  "sample_mem fs = ubytes 7 fs @ replicate (100 - length (ubytes 7 fs)) 0"

definition int_field :: ufield where "int_field = ([97, 0], B_INT32_TYPE, u32_le 5 @ u32_le 6)"
definition text_field :: ufield where
  "text_field = ([98, 0], B_STRING_TYPE, u32_le 1 @ string_item (Some [104, 105, 0]))"

lemma sample_um_rep:
  "list_all wf_ufield fs \<Longrightarrow> length (ubytes 7 fs) \<le> 100 \<Longrightarrow>
   um_rep (sample_mem fs) (sample_um fs) [] 7 fs (replicate (100 - length (ubytes 7 fs)) 0) []"
  "can_add (sample_um fs)" "cache_ok pre fs (sample_um fs)"
  by (simp_all add: um_rep_def um_view_def sample_mem_def sample_um_def can_add_def cache_ok_def
      unat_word_of_nat_u32)

lemma sample_fields:
  "wf_ufield int_field" "length (ubytes 7 []) = 12" "length (ubytes 7 [int_field]) = 34"
  "wf_ufield text_field" "length (ubytes 7 [text_field]) = 37" "cstr [97, 0] = [97]" "is_cstr [97, 0]"
  "cstr [98, 0] = [98]" "is_cstr [98, 0]"
  by (simp_all add: wf_ufield_def wf_name_def int_field_def text_field_def length_ubytes length_wire_field
      string_item_def c_string_def cstr_def is_cstr_def)

lemma sample_views:
  "visible [int_field] = [int_field]" "visible [text_field] = [text_field]" "map fst [f] = [fst f]"
  "field_data [98, 0] B_STRING_TYPE [text_field] = Some (u32_le 1 @ string_item (Some [104, 105, 0]))"
  "counted [text_field] nm tc" "c_strings [Some [120, 0], None]"
  "length (string_item (Some [120, 0])) = 6" "length (string_item None) = 5"
  by (simp_all add: visible_def int_field_def text_field_def matches_def counted_def c_strings_def
      c_string_def is_cstr_def cstr_def string_item_def)

text \<open>
  The \<^verbatim>\<open>UMAdd*s\<close> operations for the types of a fixed width append the encoded items to the last
  field when it has that name and type, and otherwise add a new field behind it; they fail, with
  the memory and the UMessage unchanged, when there is not enough room in the buffer (or, with
  uniqueness enforced, when another field has the name).  Nothing outside the buffer is written.
\<close>

theorem UMAdd_items_appends:
  assumes "um_rep mem msg pre w fs spare post" "can_add msg" "is_cstr fn"
    and "\<And>v. length (enc v) = unat k" "13 + length (cstr fn) + length vals * unat k < 2 ^ 32"
  shows "adds mem msg pre w post
    (added enforce (length spare) fs (cstr fn @ [0]) tc [] (\<lambda>p. p) (concat (map enc vals)))
    (add_items enc tc k enforce mem [msg] fn vals)"
  by (rule add_items_rep [OF assms(1-3) refl assms(4)]) (use assms(5) in simp)

theorem UMAdd_items_appends_witness:
  "adds (sample_mem [int_field]) (sample_um [int_field]) [] 7 []
    (added True (length (replicate 66 (0 :: u8))) [int_field] (cstr [97, 0] @ [0]) B_INT32_TYPE [] (\<lambda>p. p)
       (concat (map u32_le [8, 9])))
    (add_items u32_le B_INT32_TYPE 4 True (sample_mem [int_field]) [sample_um [int_field]] [97, 0] [8, 9])"
  using UMAdd_items_appends [OF sample_um_rep(1) sample_um_rep(2), of "[int_field]" "[97, 0]" u32_le 4 "[8, 9]" True
      B_INT32_TYPE]
  by (simp add: sample_fields)

text \<open>
  \<^verbatim>\<open>UMAddStrings\<close> appends each string as a length, its characters and the zero, and keeps the
  count at the start of the field's data; a NULL string is stored as the empty one.
\<close>

theorem UMAddStrings_appends:
  assumes "um_rep mem msg pre w fs spare post" "can_add msg" "is_cstr fn"
    and "counted fs (cstr fn @ [0]) B_STRING_TYPE" "c_strings ss"
    and "17 + length (cstr fn) + length (concat (map string_item ss)) < 2 ^ 32"
  shows "adds mem msg pre w post
    (added enforce (length spare) fs (cstr fn @ [0]) B_STRING_TYPE (replicate 4 0)
       (inc_count (word_of_nat (length ss))) (concat (map string_item ss)))
    (UMAddStrings enforce mem [msg] fn ss)"
  by (rule UMAddStrings_rep [OF assms(1-3) refl assms(4,5)]) (use assms(6) in simp)

theorem UMAddStrings_appends_witness:
  "adds (sample_mem [text_field]) (sample_um [text_field]) [] 7 []
    (added True (length (replicate 63 (0 :: u8))) [text_field] (cstr [98, 0] @ [0]) B_STRING_TYPE (replicate 4 0)
       (inc_count (word_of_nat (length [Some [120, 0], None]))) (concat (map string_item [Some [120, 0], None])))
    (UMAddStrings True (sample_mem [text_field]) [sample_um [text_field]] [98, 0] [Some [120, 0], None])"
  using UMAddStrings_appends [OF sample_um_rep(1) sample_um_rep(2), of "[text_field]" "[98, 0]" "[Some [120, 0], None]" True]
  by (simp add: sample_fields sample_views)

text \<open>
  Looking an item up (\<^verbatim>\<open>UMGetInt32\<close> and its siblings) returns the bytes of that item of the
  field with the name and type, or nothing when there is no such field or item, whatever the state
  of the field cache; it changes no more than the cache.
\<close>

theorem UMGet_item_reads:
  assumes "um_view mem msg pre w fs spare post" "is_cstr fn" "length (cstr fn) + 1 < 2 ^ 32"
    and "distinct (map fst fs)" "cache_ok pre fs msg" "(tc, k) \<in> set micro_types"
  shows "\<exists>msg'. find_item (get_items tc) k mem msg fn idx =
      Ok (item_at k (field_data (cstr fn @ [0]) tc (visible fs)) (unat idx), msg')
    \<and> same_but_cache msg msg' \<and> cache_ok pre fs msg'"
  using find_item_rep [OF assms(1) _ assms(2) refl assms(4-6), of idx] assms(3) by (metis length_append_singleton Suc_eq_plus1)

theorem UMGet_item_reads_witness:
  "\<exists>msg'. find_item (get_items B_INT32_TYPE) 4 (sample_mem [int_field]) (sample_um [int_field]) [97, 0] 1 =
      Ok (item_at 4 (field_data (cstr [97, 0] @ [0]) B_INT32_TYPE (visible [int_field])) (unat (1 :: u32)), msg')
    \<and> same_but_cache (sample_um [int_field]) msg' \<and> cache_ok [] [int_field] msg'"
  by (rule UMGet_item_reads [OF um_rep_view [OF sample_um_rep(1)] _ _ _ sample_um_rep(3)])
    (simp_all add: sample_fields micro_types_def)

text \<open>
  \<^verbatim>\<open>UMGetString\<close> of a string field returns a pointer to the string of that index, zero
  terminated inside the buffer, and NULL for an index that is not there.
\<close>

theorem UMGetString_reads:
  assumes "um_view mem msg pre w fs spare post" "is_cstr fn" "length (cstr fn) + 1 < 2 ^ 32"
    and "distinct (map fst fs)" "cache_ok pre fs msg"
    and "field_data (cstr fn @ [0]) B_STRING_TYPE (visible fs) =
      Some (u32_le (word_of_nat (length ss)) @ concat (map string_item ss))"
  shows "\<exists>r msg'. UMGetString mem msg fn idx = Ok (r, msg') \<and> same_but_cache msg msg' \<and> cache_ok pre fs msg'
    \<and> (case r of None \<Rightarrow> length ss \<le> unat idx
       | Some ptr \<Rightarrow> unat idx < length ss \<and> (\<exists>B. drop ptr mem = cstr (c_string (ss ! unat idx)) @ [0] @ B))"
proof (rule UMGetString_rep [OF assms(1) _ assms(2) refl assms(4-6), of idx])
  fix msg' ptr
  assume "UMGetString mem msg fn idx = Ok (if unat idx < length ss then Some ptr else None, msg')"
    "same_but_cache msg msg'" "cache_ok pre fs msg'"
    "unat idx < length ss \<Longrightarrow> \<exists>B. drop ptr mem = cstr (c_string (ss ! unat idx)) @ [0] @ B"
  then show ?thesis
    by (intro exI [of _ "if unat idx < length ss then Some ptr else None"] exI [of _ msg']) simp
qed (use assms(3) in simp)

theorem UMGetString_reads_witness:
  "\<exists>r msg'. UMGetString (sample_mem [text_field]) (sample_um [text_field]) [98, 0] 0 = Ok (r, msg')
    \<and> same_but_cache (sample_um [text_field]) msg' \<and> cache_ok [] [text_field] msg'
    \<and> (case r of None \<Rightarrow> length [Some [104, 105, 0 :: u8]] \<le> unat (0 :: u32)
       | Some ptr \<Rightarrow> unat (0 :: u32) < length [Some [104, 105, 0 :: u8]]
           \<and> (\<exists>B. drop ptr (sample_mem [text_field]) = cstr (c_string ([Some [104, 105, 0]] ! unat (0 :: u32))) @ [0] @ B))"
  by (rule UMGetString_reads [OF um_rep_view [OF sample_um_rep(1)] _ _ _ sample_um_rep(3)])
    (simp_all add: sample_fields sample_views)

text \<open>
  With uniqueness enforced, the names of a UMessage stay distinct under every addition, as long
  as its last field is not empty.
\<close>

theorem UMAdd_keeps_distinct:
  assumes "um_rep mem msg pre w fs spare post" "can_add msg" "is_cstr fn"
    and "\<And>v. length (enc v) = unat k" "13 + length (cstr fn) + length vals * unat k < 2 ^ 32"
    and "distinct (map fst fs)" "visible fs = fs"
    and "add_items enc tc k True mem [msg] fn vals = Ok (B_NO_ERROR, mem', [msg'])"
  shows "\<exists>fs' spare'. um_rep mem' msg' pre w fs' spare' post \<and> distinct (map fst fs')"
proof -
  let ?a = "added True (length spare) fs (cstr fn @ [0]) tc [] (\<lambda>p. p) (concat (map enc vals))"
  have a: "adds mem msg pre w post ?a (Ok (B_NO_ERROR, mem', [msg']))"
    using add_items_rep [where enc = enc, OF assms(1-3) refl assms(4), of vals True tc] assms(5,8) by simp
  have d: "distinct (map fst fs')" if "?a = Some fs'" for fs'
  proof (cases "continues fs (cstr fn @ [0]) tc")
    case True
    then obtain gs p where gs: "fs = gs @ [(cstr fn @ [0], tc, p)]"
      by (cases fs rule: rev_cases) (auto simp: continues_def)
    then have "fs' = gs @ [(cstr fn @ [0], tc, p @ concat (map enc vals))]"
      using that by (simp add: added_def continues_def split: if_splits)
    with gs assms(6) show ?thesis by simp
  next
    case False
    then have "fs' = fs @ [(cstr fn @ [0], tc, concat (map enc vals))]" "cstr fn @ [0] \<notin> fst ` set fs"
      using that assms(7) by (simp_all add: added_def split: if_splits)
    with assms(6) show ?thesis by simp
  qed
  show ?thesis
  proof (cases ?a)
    case (Some fs')
    with a d show ?thesis by (auto simp: adds_def)
  qed (use a in \<open>simp add: adds_def\<close>)
qed

text \<open>The UMessage after an addition, for the witness.\<close>

lemma int_added:
  "\<exists>mem' msg'. add_items u32_le B_INT32_TYPE 4 True (sample_mem [int_field]) [sample_um [int_field]] [97, 0] [8]
     = Ok (B_NO_ERROR, mem', [msg'])"
proof -
  have "added True 66 [int_field] [97, 0] B_INT32_TYPE [] (\<lambda>p. p) (concat (map u32_le [8])) \<noteq> None"
    by (simp add: added_def continues_def int_field_def)
  then show ?thesis
    using add_items_rep [OF sample_um_rep(1) sample_um_rep(2), of "[int_field]" "[97, 0]" "[97, 0]" u32_le 4 "[8]" True
        B_INT32_TYPE]
    by (auto simp: sample_fields adds_def split: option.splits)
qed

theorem UMAdd_keeps_distinct_witness:
  "\<exists>mem' msg' fs' spare'.
     add_items u32_le B_INT32_TYPE 4 True (sample_mem [int_field]) [sample_um [int_field]] [97, 0] [8]
       = Ok (B_NO_ERROR, mem', [msg'])
     \<and> um_rep mem' msg' [] 7 fs' spare' [] \<and> distinct (map fst fs')"
proof -
  obtain mem' msg' where a: "add_items u32_le B_INT32_TYPE 4 True (sample_mem [int_field]) [sample_um [int_field]]
      [97, 0] [8] = Ok (B_NO_ERROR, mem', [msg'])"
    using int_added by blast
  have "\<exists>fs' spare'. um_rep mem' msg' [] 7 fs' spare' [] \<and> distinct (map fst fs')"
    by (rule UMAdd_keeps_distinct [OF sample_um_rep(1) sample_um_rep(2) _ _ _ _ _ a])
      (simp_all add: sample_fields sample_views)
  with a show ?thesis by blast
qed

text \<open>
  An empty field at the end is not seen by the search for duplicates: adding items of another
  type under its name succeeds although uniqueness is enforced, and leaves two fields of the name.
\<close>

theorem UMAdd_duplicates_empty:
  assumes "um_rep mem msg pre w (fs @ [(cstr fn @ [0], t, [])]) spare post" "can_add msg" "is_cstr fn"
    and "\<And>v. length (enc v) = unat k" "13 + length (cstr fn) + length vals * unat k < 2 ^ 32"
    and "t \<noteq> tc" "cstr fn @ [0] \<notin> fst ` set fs" "13 + length (cstr fn) + length vals * unat k \<le> length spare"
  shows "\<exists>mem' msg' spare'. add_items enc tc k True mem [msg] fn vals = Ok (B_NO_ERROR, mem', [msg'])
    \<and> um_rep mem' msg' pre w
        (fs @ [(cstr fn @ [0], t, []), (cstr fn @ [0], tc, concat (map enc vals))]) spare' post"
proof -
  have l: "length (concat (map enc vals)) = length vals * unat k" by (rule concat_const_length [OF assms(4)])
  have "added True (length spare) (fs @ [(cstr fn @ [0], t, [])]) (cstr fn @ [0]) tc [] (\<lambda>p. p)
      (concat (map enc vals)) = Some (fs @ [(cstr fn @ [0], t, []), (cstr fn @ [0], tc, concat (map enc vals))])"
    using assms(6,7,8) by (simp add: added_def continues_def visible_def l)
  then show ?thesis
    using add_items_rep [where enc = enc, OF assms(1-3) refl assms(4), of vals True tc] assms(5) by (auto simp: adds_def)
qed

definition empty_field :: ufield where "empty_field = ([97, 0], B_INT32_TYPE, [])"

theorem UMAdd_duplicates_empty_witness:
  "\<exists>mem' msg' spare'. add_items (\<lambda>v :: u8. [v]) B_INT8_TYPE 1 True (sample_mem [empty_field])
      [sample_um [empty_field]] [97, 0] [8] = Ok (B_NO_ERROR, mem', [msg'])
    \<and> um_rep mem' msg' [] 7 ([] @ [(cstr [97, 0] @ [0], B_INT32_TYPE, []),
        (cstr [97, 0] @ [0], B_INT8_TYPE, concat (map (\<lambda>v. [v]) [8]))]) spare' []"
proof -
  have w: "wf_ufield empty_field" "length (ubytes 7 [empty_field]) = 26"
    by (simp_all add: wf_ufield_def wf_name_def empty_field_def length_ubytes length_wire_field)
  have "um_rep (sample_mem [empty_field]) (sample_um [empty_field]) [] 7
      ([] @ [(cstr [97, 0] @ [0], B_INT32_TYPE, [])]) (replicate 74 0) []"
    using sample_um_rep(1) [of "[empty_field]"] w by (simp add: empty_field_def sample_fields)
  then show ?thesis
    by (rule UMAdd_duplicates_empty [OF _ sample_um_rep(2)]) (simp_all add: sample_fields type_code_defs)
qed

subsection \<open>MicroMessage and MiniMessage read each other's bytes\<close>

text \<open>
  C26.  What MiniMessage flattens, MicroMessage reads: on the bytes of a well-formed Message of less than
  \<open>2 ^ 32\<close> bytes, \<^verbatim>\<open>UMInitializeWithExistingData\<close> succeeds; a look-up for one of the nine types of a fixed
  width (\<^verbatim>\<open>UMFindBool\<close>, ..., \<^verbatim>\<open>UMFindRect\<close>: \<open>micro_types\<close>) gives the bytes that the item of that name, type and index
  has on the wire, and nothing for a name, type or index that the Message does not have; and \<^verbatim>\<open>UMGetString\<close>,
  where the Message has strings under the name, points to the string of that index, ended by a zero,
  and gives NULL behind the last.  Look-ups of data and of sub-Messages are not covered.
\<close>

theorem micro_reads_mini:
  assumes "wf_msg m" "length (wire_msg big m) < 2 ^ 32" "is_cstr fn" "length (cstr fn) + 1 < 2 ^ 32"
  shows "\<exists>v. UMInitializeWithExistingData (pre @ wire_msg big m @ post) (length pre)
      (word_of_nat (length (wire_msg big m))) = Ok (B_NO_ERROR, v)
    \<and> (\<forall>(tc, k) \<in> set micro_types. \<exists>v'. find_item (get_items tc) k (pre @ wire_msg big m @ post) v fn idx =
        Ok (item_at k (flat_data big m (cstr fn) tc) (unat idx), v'))
    \<and> (\<forall>ss. flat_data big m (cstr fn) B_STRING_TYPE = Some (strings_data ss) \<and> (\<forall>s \<in> set ss. 0 \<notin> set s) \<longrightarrow>
        (\<exists>r v'. UMGetString (pre @ wire_msg big m @ post) v fn idx = Ok (r, v')
          \<and> string_answer (pre @ wire_msg big m @ post) ss (unat idx) r))"
  using assms by (rule micro_finds_mini)

definition one_int :: MMessage where
  "one_int = MMsg 7 [MField [97, 0] B_INT32_TYPE 4 2 (FixedData [1, 2, 3, 4, 5, 6, 7, 8]) True]"

lemma one_int_wf: "wf_msg one_int" "length (wire_msg big one_int) = 34"
  by (simp_all add: one_int_def wf_head_def wf_name_def sizeof_MMessageField_def type_item_size_def
      type_code_defs IsTypeCodeVariableSize_def length_wire_field)

theorem micro_reads_mini_witness:
  "\<exists>v v'. UMInitializeWithExistingData ([9] @ wire_msg False one_int @ []) (length [9 :: u8])
      (word_of_nat (length (wire_msg False one_int))) = Ok (B_NO_ERROR, v)
    \<and> find_item (get_items B_INT32_TYPE) 4 ([9] @ wire_msg False one_int @ []) v [97, 0] 1 =
        Ok (item_at 4 (flat_data False one_int [97] B_INT32_TYPE) (unat (1 :: u32)), v')"
proof -
  have l: "length (wire_msg False one_int) < 2 ^ 32" "length (cstr [97, 0 :: u8]) + 1 < 2 ^ 32"
    by (simp_all add: one_int_wf sample_fields)
  obtain v where v: "UMInitializeWithExistingData ([9] @ wire_msg False one_int @ []) (length [9 :: u8])
      (word_of_nat (length (wire_msg False one_int))) = Ok (B_NO_ERROR, v)"
    and f: "\<forall>(tc, k) \<in> set micro_types. \<exists>v'. find_item (get_items tc) k ([9] @ wire_msg False one_int @ []) v [97, 0] 1 =
        Ok (item_at k (flat_data False one_int (cstr [97, 0]) tc) (unat (1 :: u32)), v')"
    using micro_reads_mini [OF one_int_wf(1) l(1) sample_fields(7) l(2), of "[9]" "[]" 1] by blast
  have "(B_INT32_TYPE, 4) \<in> set micro_types" by (simp add: micro_types_def)
  from bspec [OF f this] v show ?thesis by (simp add: sample_fields)
qed

end
