(* ===== verification/Gateway_Properties.thy ===== *)
theory Gateway_Properties
  imports Gateway_Live Mini_Properties Micro_Properties
begin

section \<open>The gateways: what they send and what they hand over\<close>

text \<open>
  The properties of MiniMessageGateway.c and MicroMessageGateway.c: every Message that is queued
  goes out as one frame, in order, over any send function that takes a prefix of what it is given,
  and the receiving side cuts the stream into the frames again, however the bytes arrive.
\<close>

subsection \<open>MiniMessageGateway\<close>

lemma MGAlloc_fresh:
  "MGAllocMessageGateway am = Some gw \<Longrightarrow> wf_output gw \<and> pending gw = [] \<and> (\<forall>f. progress gw [] f)"
  by (auto simp: MGAllocMessageGateway_def MBAllocByteBuffer_def wf_output_def pending_def progress_def
      sizeof_ptr_def split: if_splits option.splits)

lemma MGAlloc_total: "\<exists>gw. MGAllocMessageGateway (\<lambda>_. True) = Some gw"
  by (simp add: MGAllocMessageGateway_def MBAllocByteBuffer_def)

text \<open>
  \<^verbatim>\<open>MGAddOutgoingMessage\<close> queues one frame behind what is pending: the flattened size, the
  encoding and the flattened Message; the invariant of the output queue is kept.
\<close>

theorem MGAddOutgoing_queues:
  assumes "wf_output gw" "wf_msg m" "length (wire_msg big m) < size_limit big"
    and "length (wire_msg big m) + 16 < 2 ^ 32" "am (23 + length (wire_msg big m))"
  shows "\<exists>gw'. MGAddOutgoingMessage am big gw m = Ok (B_NO_ERROR, gw') \<and> wf_output gw'
    \<and> pending gw' = pending gw @ u32_le (word_of_nat (length (wire_msg big m)))
        @ u32_le MUSCLE_MESSAGE_ENCODING_DEFAULT @ wire_msg big m"
proof -
  have "length (frame big m) < 2 ^ 32 - 8" "frame big m \<noteq> []" using assms(4) by (simp_all add: frame_def)
  then show ?thesis
    using AddOutgoing_frame [where am = am, OF assms(2-5)] pending_Add [OF assms(1)]
    by (simp add: frame_def)
qed

theorem MGAddOutgoing_queues_witness:
  "\<exists>gw gw'. MGAllocMessageGateway (\<lambda>_. True) = Some gw
    \<and> MGAddOutgoingMessage (\<lambda>_. True) False gw sample_msg = Ok (B_NO_ERROR, gw') \<and> wf_output gw'
    \<and> pending gw' = pending gw @ u32_le (word_of_nat (length (wire_msg False sample_msg)))
        @ u32_le MUSCLE_MESSAGE_ENCODING_DEFAULT @ wire_msg False sample_msg"
proof -
  obtain gw where gw: "MGAllocMessageGateway (\<lambda>_. True) = Some gw" using MGAlloc_total by blast
  then have "wf_output gw" using MGAlloc_fresh by blast
  from MGAddOutgoing_queues [OF this sample_msg_wf, of False "\<lambda>_. True"] gw show ?thesis
    by (simp add: sample_msg_length size_limit_def)
qed

text \<open>
  \<^verbatim>\<open>MGDoOutput\<close> hands the pending bytes to the send function in order and drops exactly those
  that were taken, with an error or with the number of bytes as its result; it returns when the
  budget covers what is pending, with fuel for one round per queued buffer.
\<close>

theorem MGDoOutput_sends:
  assumes "good_send send sent" "wf_output gw" "length (pending gw) \<le> unat maxBytes"
    and "length (gw_output gw) \<le> fuel"
  shows "\<exists>n gw' e' s. MGDoOutput send fuel gw maxBytes 0 e = Ok (n, gw', e')
    \<and> wf_output gw' \<and> pending gw = s @ pending gw' \<and> sent e' = sent e @ s
    \<and> (n = -1 \<or> n = int (length s))"
  using MGDoOutput_stream [OF assms(1-4), of 0 e] by simp

definition list_send :: "u8 list send_func" where
  "list_send e bs = (int (length (take 5 bs)), e @ take 5 bs)"

definition out_gw :: MMessageGateway where
  "out_gw = \<lparr>gw_curInput = replicate 8 0, gw_output = [replicate 8 0 @ [1, 2, 3, 4, 5, 6, 7]],
     gw_curInputPos = 0, gw_maxInputPos = 8, gw_curOutputPos = 8\<rparr>"

lemma out_gw: "wf_output out_gw" "pending out_gw = [1, 2, 3, 4, 5, 6, 7]" "length (gw_output out_gw) = 1"
  by (simp_all add: out_gw_def wf_output_def pending_def)

lemma good_list_send: "good_send list_send (\<lambda>e. e)"
  by (simp add: good_send_def list_send_def min_def)

theorem MGDoOutput_sends_witness:
  "\<exists>n gw' e' s. MGDoOutput list_send 3 out_gw 100 0 [9] = Ok (n, gw', e')
    \<and> wf_output gw' \<and> pending out_gw = s @ pending gw' \<and> e' = [9] @ s \<and> (n = -1 \<or> n = int (length s))"
  using MGDoOutput_sends [OF good_list_send out_gw(1), of 100 3 "[9]"] by (simp add: out_gw)

text \<open>
  C40.  A byte budget that ends inside a frame makes both directions run for ever, and no fuel is enough.
  \<^verbatim>\<open>MGDoOutput\<close>, with a send function that takes all that it is offered: any budget below what is pending.
  \<^verbatim>\<open>MGDoInput\<close>, with a receive function that delivers all that it is asked for while the bytes are there:
  at any place of a frame, in the header or in the body, any budget below the rest of the frame (the
  frame is one that is read otherwise: its length is announced in the header and twice its length is
  below \<open>2 ^ 32\<close>, memory is available, and its bytes are arriving).  The function is then called with
  zero bytes again and again.
\<close>

theorem MGDoIO_spins:
  assumes "\<And>e bs. fst (send e bs) = int (length bs)" "wf_output gw" "unat maxBytes < length (pending gw)"
    and "full_recv recv arriving" "\<And>k. am k" "2 * (length (wire_msg big m) + 8) < 2 ^ 32"
    and "progress gw p (frame big m)" "frame big m = p @ q" "arriving r = q @ ys" "unat maxIn < length q"
  shows "MGDoOutput send fuel gw maxBytes tot e = Spin
    \<and> MGDoInput recv am big want fuel gw maxIn tot r = Spin"
  using MGDoOutput_spins [where send = send, OF assms(1-3)] MGDoInput_spins [where am = am, OF assms(4-10)] by blast

text \<open>A gateway with seven bytes to send, that has received thirty bytes of a frame of forty-two.\<close>

definition half_frame :: "u8 list" where "half_frame = take 30 (frame False one_int)"

definition busy_gw :: MMessageGateway where
  "busy_gw = \<lparr>gw_curInput = half_frame @ replicate 20 0, gw_output = [replicate 8 0 @ [1, 2, 3, 4, 5, 6, 7]],
     gw_curInputPos = 30, gw_maxInputPos = 42, gw_curOutputPos = 8\<rparr>"

lemma busy_gw: "progress busy_gw half_frame (frame False one_int)" "wf_output busy_gw"
  "pending busy_gw = [1, 2, 3, 4, 5, 6, 7]" "frame False one_int = half_frame @ drop 30 (frame False one_int)"
  by (simp_all add: half_frame_def busy_gw_def wf_output_def pending_def progress_def frame_def one_int_wf)

theorem MGDoIO_spins_witness:
  "MGDoOutput (\<lambda>e bs. (int (length bs), e @ bs)) 50 busy_gw 3 0 [] = Spin
    \<and> MGDoInput list_recv (\<lambda>_. True) False True 50 busy_gw 5 0 (drop 30 (frame False one_int) @ [7]) = Spin"
  by (rule MGDoIO_spins [OF _ busy_gw(2) _ full_recv_list _ _ busy_gw(1,4) refl])
    (simp_all add: busy_gw(3) one_int_wf frame_def)

text \<open>
  C29.  One call of \<^verbatim>\<open>MGDoInput\<close> inside the frame of a well-formed Message: for every receive function that
  delivers the arriving bytes in order, in pieces of any size, or fails, the call either takes more of
  the frame, or completes it and hands over the Message that was flattened (normalised), leaving the bytes
  of the next frame unread; it never hands over anything else, and it returns.  This is for a byte budget
  \<^verbatim>\<open>maxBytes\<close> that covers the rest of the frame (with a smaller one the call may not return, see
  \<open>MGDoIO_spins\<close>), for a frame with twice its length below \<open>2 ^ 32\<close> (and the Message below \<open>2 ^ 31\<close> bytes on a
  big-endian host), and where every allocation succeeds; any fuel from the size of the Message plus two on
  is enough.
\<close>

theorem MGDoInput_reads_frame:
  assumes "wf_msg m" "\<And>k. am k" "length (wire_msg big m) < size_limit big"
    and "2 * (length (wire_msg big m) + 8) < 2 ^ 32" "good_recv recv arriving"
    and "length (wire_msg big m) + 2 \<le> fuel" "progress gw p (frame big m)" "frame big m = p @ q" "q \<noteq> []"
    and "arriving e = q @ ys" "length q \<le> unat maxBytes"
  shows "input_outcome arriving big m p ys 0 (MGDoInput recv am big True fuel gw maxBytes 0 e)"
  using assms by (rule MGDoInput_stream)

theorem MGDoInput_reads_frame_witness:
  "input_outcome (\<lambda>e. e) True sample_msg [] [7, 7] 0
     (MGDoInput list_recv (\<lambda>_. True) True True 91
        \<lparr>gw_curInput = replicate 8 0, gw_output = [], gw_curInputPos = 0, gw_maxInputPos = 8, gw_curOutputPos = 8\<rparr>
        97 0 (frame True sample_msg @ [7, 7]))"
  by (rule MGDoInput_reads_frame [where q = "frame True sample_msg"])
    (simp_all add: sample_msg_wf sample_msg_length size_limit_def good_list_recv progress_def frame_def)

text \<open>
  A frame header that announces a body of \<open>2 ^ 32 - 8\<close> bytes passes the size check, because
  adding the eight bytes of the header wraps around to zero; the next bytes are stored behind the
  input buffer.
\<close>

theorem MGDoInput_wraps_header:
  assumes "\<forall>f. progress gw [] f" "length (gw_curInput gw) = 8" "ys \<noteq> []" "8 < unat maxBytes" "2 \<le> fuel"
  shows "MGDoInput list_recv am big want fuel gw maxBytes tot
    (u32_le (2 ^ 32 - 8) @ u32_le MUSCLE_MESSAGE_ENCODING_DEFAULT @ ys) = Fault"
proof -
  obtain k where "fuel = Suc (Suc k)" using assms(5) by (metis Suc_le_D add_2_eq_Suc' le_Suc_ex add.commute)
  then show ?thesis using MGDoInput_wraps [OF spec [OF assms(1)] assms(2-4)] by simp
qed

theorem MGDoInput_wraps_header_witness:
  "MGDoInput list_recv (\<lambda>_. True) False True 2 out_gw 100 0
     (u32_le (2 ^ 32 - 8) @ u32_le MUSCLE_MESSAGE_ENCODING_DEFAULT @ [1]) = Fault"
  by (rule MGDoInput_wraps_header) (simp_all add: out_gw_def progress_def)

text \<open>
  C6.  End to end: Messages are queued in a fresh gateway with \<^verbatim>\<open>MGAddOutgoingMessage\<close>, and \<^verbatim>\<open>MGDoOutput\<close> is
  called again and again, while there is something to output, with any send function that takes some
  prefix of what it is offered, or fails.  What was sent and what is still queued are together the frames
  of the Messages, in order; and if the send function always takes at least one byte, as many calls as
  there are bytes send everything.  When everything was sent and these bytes arrive at a fresh gateway on the
  other side, repeated calls of \<^verbatim>\<open>MGDoInput\<close> hand the Messages over in the same order, none lost, none
  twice and none changed (but for normalisation), for any number of calls and any way the bytes arrive; and
  when the receive function always delivers something, as many calls as there are bytes hand over all of
  them.  Assumed: both hosts have the same byte order; the Messages are well-formed, with twice the length of
  each frame below \<open>2 ^ 32\<close>; every allocation succeeds; the byte budget of an output call covers all that is
  queued, and that of an input call every single frame (see \<open>MGDoIO_spins\<close> for smaller ones).
\<close>

theorem mini_gateways_stream:
  assumes "MGAllocMessageGateway am = Some tx" "MGAllocMessageGateway am' = Some rx"
    and "list_all (mini_sendable am big) ms" "list_all (mini_readable recv arriving am' big fuel maxIn) ms"
    and "good_send send sent" "length (concat (map (frame big) ms)) \<le> unat maxOut"
    and "length (concat (map (frame big) ms)) \<le> outFuel" "k \<le> length ms"
  shows "\<exists>tx1 tx2 e'. mini_tx.add_all am big ms tx = Ok tx1
    \<and> mini_flush send outFuel maxOut calls (tx1, e) = Ok (tx2, e')
    \<and> sent e' @ pending tx2 = sent e @ concat (map (frame big) ms)
    \<and> (eager_send send \<and> length (concat (map (frame big) ms)) \<le> calls \<longrightarrow> pending tx2 = [])
    \<and> (pending tx2 = [] \<and> sent e' = sent e @ arriving r \<longrightarrow>
         (\<exists>j s'. mini_rx.fetch recv am' big fuel maxIn n k (rx, r) = Ok (map norm_msg (take j ms), s') \<and> j \<le> k)
         \<and> (eager_recv recv arriving \<and> length (arriving r) \<le> n \<longrightarrow>
             (\<exists>s'. mini_rx.fetch recv am' big fuel maxIn n (length ms) (rx, r) = Ok (map norm_msg ms, s')
               \<and> arriving (snd s') = [])))"
proof -
  have tx: "wf_output tx" "pending tx = []" and rx: "\<And>f. progress rx [] f"
    using assms(1,2) MGAlloc_fresh by blast+
  obtain tx1 where q: "mini_tx.add_all am big ms tx = Ok tx1" "wf_output tx1" "pending tx1 = concat (map (frame big) ms)"
    using mini_tx.add_all_queues [OF tx(1) assms(3)] tx(2) by auto
  obtain tx2 e' where o: "mini_flush send outFuel maxOut calls (tx1, e) = Ok (tx2, e')"
    "sent e' @ pending tx2 = sent e @ concat (map (frame big) ms)"
    "eager_send send \<longrightarrow> length (concat (map (frame big) ms)) \<le> calls \<longrightarrow> pending tx2 = []"
    using mini_flush_sends [OF assms(5) q(2), of maxOut outFuel calls e] assms(6,7) q(3) by auto
  have "(\<exists>j s'. mini_rx.fetch recv am' big fuel maxIn n k (rx, r) = Ok (map norm_msg (take j ms), s') \<and> j \<le> k)
      \<and> (eager_recv recv arriving \<and> length (arriving r) \<le> n \<longrightarrow>
          (\<exists>s'. mini_rx.fetch recv am' big fuel maxIn n (length ms) (rx, r) = Ok (map norm_msg ms, s')
            \<and> arriving (snd s') = []))" if "pending tx2 = []" "sent e' = sent e @ arriving r"
  proof -
    have "arriving r = concat (map (frame big) ms)" using o(2) that by simp
    then have ins: "mini_rx.inside arriving big ms (rx, r)"
      by (intro mini_rx.inside_start [OF _ assms(4)]) (use rx in simp_all)
    have "\<exists>s'. mini_rx.fetch recv am' big fuel maxIn n (length ms) (rx, r) = Ok (map norm_msg ms, s')
        \<and> arriving (snd s') = []" if "eager_recv recv arriving" "length (arriving r) \<le> n"
    proof (rule mini_live.fetch_all [OF ins])
      show "list_all (mini_eager recv arriving am' big fuel maxIn) ms"
        using assms(4) that(1) by (simp add: list_all_iff mini_eager_def)
    qed (use that(2) in simp)
    then show ?thesis using mini_rx.fetch_in_order [OF ins assms(4,8)] by blast
  qed
  then show ?thesis using q(1) o by blast
qed

lemma eager_list_send: "eager_send list_send"
  by (auto simp: eager_send_def list_send_def)

theorem mini_gateways_stream_witness:
  "\<exists>tx rx tx1 tx2 e' s'. MGAllocMessageGateway (\<lambda>_. True) = Some tx \<and> MGAllocMessageGateway (\<lambda>_. True) = Some rx
    \<and> mini_tx.add_all (\<lambda>_. True) False [one_int, sample_msg] tx = Ok tx1
    \<and> mini_flush list_send 1000 1000 1000 (tx1, []) = Ok (tx2, e') \<and> pending tx2 = []
    \<and> mini_rx.fetch list_recv (\<lambda>_. True) False 100 1000 1000 2 (rx, e')
        = Ok (map norm_msg [one_int, sample_msg], s') \<and> snd s' = []"
proof -
  let ?ms = "[one_int, sample_msg]"
  obtain g0 where g0: "MGAllocMessageGateway (\<lambda>_. True) = Some g0" using MGAlloc_total by blast
  have w: "list_all (mini_sendable (\<lambda>_. True) False) ?ms"
    "list_all (mini_readable list_recv (\<lambda>e. e) (\<lambda>_. True) False 100 1000) ?ms"
    by (simp_all add: mini_readable_def mini_sendable_def good_list_recv one_int_wf sample_msg_wf sample_msg_length
        size_limit_def frame_def)
  have l: "length (concat (map (frame False) ?ms)) \<le> 1000"
    by (simp add: frame_def sample_msg_length one_int_wf)
  have u: "length (concat (map (frame False) ?ms)) \<le> unat (1000 :: u32)" using l by simp
  have k: "2 \<le> length ?ms" by simp
  let ?bytes = "concat (map (frame False) ?ms)"
  obtain tx1 tx2 e' where t: "mini_tx.add_all (\<lambda>_. True) False ?ms g0 = Ok tx1"
      "mini_flush list_send 1000 1000 1000 (tx1, []) = Ok (tx2, e')" "e' @ pending tx2 = [] @ ?bytes"
    and p: "eager_send list_send \<and> length ?bytes \<le> 1000 \<longrightarrow> pending tx2 = []"
    and f: "pending tx2 = [] \<and> e' = [] @ ?bytes \<longrightarrow> (eager_recv list_recv (\<lambda>e. e) \<and> length ?bytes \<le> 1000 \<longrightarrow>
       (\<exists>s'. mini_rx.fetch list_recv (\<lambda>_. True) False 100 1000 1000 (length ?ms) (g0, ?bytes) = Ok (map norm_msg ?ms, s')
         \<and> snd s' = []))"
    using mini_gateways_stream [OF g0 g0 w good_list_send u l k, of 1000 "[]" ?bytes 1000] by blast
  have e: "pending tx2 = []" "e' = ?bytes" using p eager_list_send l t(3) by auto
  then have "\<exists>s'. mini_rx.fetch list_recv (\<lambda>_. True) False 100 1000 1000 (length ?ms) (g0, e') = Ok (map norm_msg ?ms, s') \<and> snd s' = []"
    using f list_recv_eager l by simp
  then show ?thesis using g0 t(1,2) e(1) by (simp only: length_Cons list.size numeral_2_eq_2 add_0) blast
qed

subsection \<open>MicroMessageGateway\<close>

text \<open>
  \<^verbatim>\<open>UGGetOutgoingMessage\<close> either starts an empty UMessage behind the bytes that are queued (moving
  those to the front of the buffer when less than a quarter of it is free), or returns an invalid
  UMessage when there is no room for one; the queued bytes are the same in both cases.
\<close>

theorem UGGetOutgoingMessage_starts:
  assumes "ug_out mem gw pre gone out free post" "\<not> ug_preparingOutgoingMessage gw"
  shows "\<exists>msg mem' gw'. UGGetOutgoingMessage mem gw w = Ok (msg, mem', gw')
    \<and> (if 20 \<le> ug_room gone out free then ug_building mem' gw' msg pre out w [] post
       else msg = UMInitializeToInvalid \<and> \<not> ug_preparingOutgoingMessage gw'
         \<and> (\<exists>gone' free'. ug_out mem' gw' pre gone' out free' post))"
proof (rule UGGetOutgoingMessage_rep [OF assms, of w])
  fix msg mem' gw'
  assume "20 \<le> ug_room gone out free" "UGGetOutgoingMessage mem gw w = Ok (msg, mem', gw')"
    "ug_building mem' gw' msg pre out w [] post"
  then show ?thesis by simp
next
  fix mem' gw' gone' free'
  assume *: "ug_room gone out free < 20" "UGGetOutgoingMessage mem gw w = Ok (UMInitializeToInvalid, mem', gw')"
    "ug_out mem' gw' pre gone' out free' post" "\<not> ug_preparingOutgoingMessage gw'"
  then have "\<not> 20 \<le> ug_room gone out free" by simp
  then show ?thesis unfolding if_not_P [OF \<open>\<not> 20 \<le> ug_room gone out free\<close>] using * by blast
qed

definition fresh_ug :: UMessageGateway where
  "fresh_ug = UGGatewayInitialize 0 40 40 60"

lemma fresh_ug:
  "ug_out (replicate 40 0 @ replicate 60 0 @ []) fresh_ug (replicate 40 0) [] [] (replicate 60 0) []"
  "ug_in ([] @ replicate 40 0 @ replicate 60 0) fresh_ug [] (replicate 40 0) (replicate 60 0)"
  "ug_progress fresh_ug (replicate 40 0) [] f" "\<not> ug_preparingOutgoingMessage fresh_ug"
  using UGGatewayInitialize_rep [of 40 "replicate 40 0" 60 "replicate 60 0"]
  by (simp_all add: fresh_ug_def ug_in_def ug_out_def ug_progress_def UGGatewayInitialize_def GATEWAY_HEADER_SIZE_def)

theorem UGGetOutgoingMessage_starts_witness:
  "\<exists>msg mem' gw'. UGGetOutgoingMessage (replicate 40 0 @ replicate 60 0 @ []) fresh_ug 5 = Ok (msg, mem', gw')
    \<and> (if 20 \<le> ug_room [] [] (replicate 60 0) then ug_building mem' gw' msg (replicate 40 0) [] 5 [] []
       else msg = UMInitializeToInvalid \<and> \<not> ug_preparingOutgoingMessage gw'
         \<and> (\<exists>gone' free'. ug_out mem' gw' (replicate 40 0) gone' [] free' []))"
  by (rule UGGetOutgoingMessage_starts [OF fresh_ug(1,4)])

text \<open>
  \<^verbatim>\<open>UGOutgoingMessagePrepared\<close> queues the UMessage that was built as one frame behind the queued
  bytes; but when the queue was drained in between, which \<^verbatim>\<open>UGDoOutput\<close> does by resetting its
  pointer, the call does nothing and the gateway stays in the preparing state.
\<close>

theorem UGOutgoingMessagePrepared_queues:
  assumes "ug_building mem gw msg pre out w fs post"
  shows "(\<exists>mem' gw' gone spare. UGOutgoingMessagePrepared mem gw msg = Ok (mem', gw')
      \<and> ug_out mem' gw' pre gone (out @ uframe (ubytes w fs)) spare post \<and> \<not> ug_preparingOutgoingMessage gw')
    \<and> (out \<noteq> [] \<longrightarrow> (let drained = gw\<lparr>ug_numValidOutputBytes := 0, ug_firstValidOutputByte := ug_outputBuffer gw\<rparr>
         in UGOutgoingMessagePrepared mem drained msg = Ok (mem, drained) \<and> ug_preparingOutgoingMessage drained))"
  unfolding Let_def
proof (intro conjI impI)
  show "\<exists>mem' gw' gone spare. UGOutgoingMessagePrepared mem gw msg = Ok (mem', gw')
      \<and> ug_out mem' gw' pre gone (out @ uframe (ubytes w fs)) spare post \<and> \<not> ug_preparingOutgoingMessage gw'"
    by (rule UGOutgoingMessagePrepared_rep [OF assms]) blast
qed (rule UGOutgoingMessagePrepared_stranded [OF assms _ refl], assumption)+

theorem UGOutgoingMessagePrepared_queues_witness:
  "\<exists>mem gw msg mem' gw' gone spare.
     UGGetOutgoingMessage (replicate 40 0 @ replicate 60 0 @ []) fresh_ug 5 = Ok (msg, mem, gw)
     \<and> UGOutgoingMessagePrepared mem gw msg = Ok (mem', gw')
     \<and> ug_out mem' gw' (replicate 40 0) gone (uframe (ubytes 5 [])) spare []"
proof -
  have r: "\<not> ug_room [] [] (replicate 60 (0 :: u8)) < 20" by (simp add: ug_room_def)
  show ?thesis
  proof (rule UGGetOutgoingMessage_rep [OF fresh_ug(1,4), of 5])
    fix msg mem gw
    assume g: "UGGetOutgoingMessage (replicate 40 0 @ replicate 60 0 @ []) fresh_ug 5 = Ok (msg, mem, gw)"
      and b: "ug_building mem gw msg (replicate 40 0) [] 5 [] []"
    from UGOutgoingMessagePrepared_queues [OF b] g show ?thesis by auto
  qed (use r in blast)
qed

text \<open>
  \<^verbatim>\<open>UGDoOutput\<close> sends a prefix of the queued bytes, at most \<^verbatim>\<open>maxBytes\<close> of them, and keeps the
  rest queued, in order; it returns the number of bytes sent, or -1 with nothing lost.
\<close>

theorem UGDoOutput_sends:
  assumes "ug_out mem gw pre gone out free post" "good_send send sent"
    and "length out < 2 ^ 31" "out \<noteq> []" "0 < maxBytes"
  shows "\<exists>n gw' gone' free' e' k. UGDoOutput send mem (Suc fuel) gw maxBytes 0 e = Ok (n, gw', e')
    \<and> ug_out mem gw' pre gone' (drop k out) free' post \<and> sent e' = sent e @ take k out
    \<and> k \<le> length out \<and> k \<le> unat maxBytes \<and> (n = int k \<or> n = -1 \<and> k = 0)"
proof (rule UGDoOutput_rep [OF assms, of fuel e])
  fix e'
  assume "UGDoOutput send mem (Suc fuel) gw maxBytes 0 e = Ok (-1, gw, e')" "sent e' = sent e"
  then show ?thesis using assms(1) by (intro exI [of _ "-1"] exI [of _ gw] exI [of _ gone] exI [of _ free]
        exI [of _ e'] exI [of _ 0]) simp
next
  fix k gw' gone' free' e'
  assume "UGDoOutput send mem (Suc fuel) gw maxBytes 0 e = Ok (int k, gw', e')" "k \<le> length out"
    "k \<le> unat maxBytes" "sent e' = sent e @ take k out" "ug_out mem gw' pre gone' (drop k out) free' post"
  then show ?thesis by blast
qed

definition full_ug :: UMessageGateway where
  "full_ug = fresh_ug\<lparr>ug_numValidOutputBytes := 3\<rparr>"

theorem UGDoOutput_sends_witness:
  "\<exists>n gw' gone' free' e' k. UGDoOutput list_send (replicate 40 0 @ [1, 2, 3] @ replicate 57 0) (Suc 0) full_ug 2 0 []
      = Ok (n, gw', e')
    \<and> ug_out (replicate 40 0 @ [1, 2, 3] @ replicate 57 0) gw' (replicate 40 0) gone' (drop k [1, 2, 3]) free' []
    \<and> e' = [] @ take k [1, 2, 3]
    \<and> k \<le> length [1, 2, 3 :: u8] \<and> k \<le> unat (2 :: u32) \<and> (n = int k \<or> n = -1 \<and> k = 0)"
proof -
  have "ug_out (replicate 40 0 @ [1, 2, 3] @ replicate 57 0) full_ug (replicate 40 0) [] [1, 2, 3] (replicate 57 0) []"
    by (simp add: full_ug_def fresh_ug_def ug_out_def UGGatewayInitialize_def GATEWAY_HEADER_SIZE_def)
  from UGDoOutput_sends [OF this good_list_send, of 2 0 "[]"] show ?thesis by simp
qed

text \<open>
  C30.  A receiver that calls \<^verbatim>\<open>UGDoInput\<close> again and again gets the UMessages of the frames, byte for
  byte and in order, however the bytes arrive, as long as each fits in the input buffer; and all of them
  within as many calls as there are bytes, when the receive function always delivers something.
  Each UMessage has at least the 12 bytes of its header, and \<^verbatim>\<open>maxBytes\<close> is not zero.
\<close>

theorem micro_gateway_stream:
  assumes "ug_in mem gw pre ibuf post" "\<And>f. ug_progress gw ibuf [] f"
    and "list_all (micro_readable recv arriving (length ibuf) fuel maxBytes) bodies"
    and "arriving e = concat (map uframe bodies)" "k \<le> length bodies"
  shows "(\<exists>j s'. micro_rx.fetch recv fuel maxBytes n k (mem, gw, e) = Ok (take j bodies, s') \<and> j \<le> k)
    \<and> (eager_recv recv arriving \<longrightarrow> length (arriving e) \<le> n \<longrightarrow>
         (\<exists>s'. micro_rx.fetch recv fuel maxBytes n (length bodies) (mem, gw, e) = Ok (bodies, s')
           \<and> arriving (snd (snd s')) = []))"
proof -
  have ins: "micro_rx.inside pre post (length ibuf) arriving bodies (mem, gw, e)"
    by (rule micro_rx.inside_start [OF _ assms(3)])
      (use assms(1,2,4) in \<open>auto simp: micro_at_def\<close>)
  have "\<exists>s'. micro_rx.fetch recv fuel maxBytes n (length bodies) (mem, gw, e) = Ok (map (\<lambda>body. body) bodies, s')
      \<and> arriving (snd (snd s')) = []" if "eager_recv recv arriving" "length (arriving e) \<le> n"
  proof (rule micro_live.fetch_all [OF ins])
    show "list_all (micro_eager recv arriving (length ibuf) fuel maxBytes) bodies"
      using assms(3) that(1) by (simp add: list_all_iff micro_eager_def)
  qed (use that(2) in simp)
  then show ?thesis using micro_rx.fetch_in_order [OF ins assms(3,5), of n] by fastforce
qed

theorem micro_gateway_stream_witness:
  "\<exists>s'. micro_rx.fetch list_recv 50 7 100 2
     ([] @ replicate 40 0 @ replicate 60 0, fresh_ug, concat (map uframe [ubytes 1 [], ubytes 2 []])) =
       Ok ([ubytes 1 [], ubytes 2 []], s') \<and> snd (snd s') = []"
proof -
  have "list_all (micro_readable list_recv (\<lambda>e. e) (length (replicate 40 (0 :: u8))) 50 7) [ubytes 1 [], ubytes 2 []]"
    by (simp add: micro_readable_def good_list_recv length_ubytes uframe_def)
  moreover have "length (concat (map uframe [ubytes 1 [], ubytes 2 []])) \<le> 100"
    by (simp add: length_ubytes uframe_def)
  ultimately show ?thesis
    using micro_gateway_stream [OF fresh_ug(2,3), where arriving = "\<lambda>e. e" and recv = list_recv and fuel = 50
        and maxBytes = 7 and bodies = "[ubytes 1 [], ubytes 2 []]" and k = 2 and n = 100] list_recv_eager
    by (auto simp: numeral_2_eq_2)
qed

end
