(* ===== verification/Queue_Model.thy ===== *)
theory Queue_Model
  imports Muscle_Base
begin

section \<open>Queue: the double-ended queue of MUSCLE\<close>

text \<open>
  The class template \<^verbatim>\<open>Queue\<close> of \<^verbatim>\<open>source/muscle/util/Queue.h\<close>: a circular array, stored inline in
  the object while it has at most three slots.  The state is the object's data members; \<open>q_place\<close>
  says where \<^verbatim>\<open>_queue\<close> points to.  The indices are 32-bit numbers with the wrap-around of the
  code's additions and subtractions written out (\<open>add32\<close>, \<open>sub32\<close>).  An access outside of the array, the remainder by
  a \<^verbatim>\<open>_queueSize\<close> of zero and a failed \<^verbatim>\<open>MASSERT\<close> are the outcome \<open>Fault\<close>.

  The parameters of the operations are \<open>am\<close>, which says whether an array of so many items can be
  allocated, and \<open>d\<close>, the default item (\<^verbatim>\<open>GetDefaultItem\<close>), which is also what the slots of a new
  array hold: the items are of a type with a default constructor.  The model is the C++03 variant,
  in which \<^verbatim>\<open>QQ_PlunderItem\<close> and \<^verbatim>\<open>QQ_ForwardItem\<close> are copies.
\<close>

definition SMALL_QUEUE_SIZE :: nat where "SMALL_QUEUE_SIZE = 3"

datatype place = QNull | QSmall | QHeap

record 'a queue =
  q_small :: "'a list"
  q_heap :: "'a list"
  q_place :: place
  q_size :: nat
  q_count :: nat
  q_head :: nat
  q_tail :: nat

subsection \<open>Construction and access\<close>

text \<open>The constructor leaves \<^verbatim>\<open>_headIndex\<close> and \<^verbatim>\<open>_tailIndex\<close> uninitialised.\<close>

definition NewQueue :: "'a \<Rightarrow> nat \<Rightarrow> nat \<Rightarrow> 'a queue" where
  "NewQueue d h t = \<lparr>q_small = replicate SMALL_QUEUE_SIZE d, q_heap = [], q_place = QNull, q_size = 0,
     q_count = 0, q_head = h, q_tail = t\<rparr>"

definition q_array :: "'a queue \<Rightarrow> 'a list" where
  "q_array q = (case q_place q of QNull \<Rightarrow> [] | QSmall \<Rightarrow> q_small q | QHeap \<Rightarrow> q_heap q)"

definition set_array :: "'a queue \<Rightarrow> 'a list \<Rightarrow> 'a queue" where
  "set_array q xs = (case q_place q of
     QNull \<Rightarrow> q | QSmall \<Rightarrow> q\<lparr>q_small := xs\<rparr> | QHeap \<Rightarrow> q\<lparr>q_heap := xs\<rparr>)"

text \<open>\<^verbatim>\<open>_queue[p]\<close> as a value and as the target of an assignment.\<close>

definition q_rd :: "'a queue \<Rightarrow> nat \<Rightarrow> 'a outcome" where
  "q_rd q p = rd (q_array q) p"

definition q_wr :: "'a queue \<Rightarrow> nat \<Rightarrow> 'a \<Rightarrow> 'a queue outcome" where
  "q_wr q p v = obind (wr (q_array q) p v) (\<lambda>xs. Ok (set_array q xs))"

definition NextIndex :: "'a queue \<Rightarrow> nat \<Rightarrow> nat" where
  "NextIndex q idx = (if idx \<ge> sub32 (q_size q) 1 then 0 else add32 idx 1)"

definition PrevIndex :: "'a queue \<Rightarrow> nat \<Rightarrow> nat" where
  "PrevIndex q idx = (if idx = 0 then sub32 (q_size q) 1 else sub32 idx 1)"

definition InternalizeIndex :: "'a queue \<Rightarrow> nat \<Rightarrow> nat outcome" where
  "InternalizeIndex q idx = (if q_size q = 0 then Fault else Ok (add32 (q_head q) idx mod q_size q))"

definition GetItemAtUnchecked :: "'a queue \<Rightarrow> nat \<Rightarrow> 'a outcome" where
  "GetItemAtUnchecked q i = obind (InternalizeIndex q i) (q_rd q)"

definition GetItemAt :: "'a queue \<Rightarrow> nat \<Rightarrow> 'a option outcome" where
  "GetItemAt q i = (if i < q_count q then obind (GetItemAtUnchecked q i) (\<lambda>v. Ok (Some v)) else Ok None)"

definition GetItemAtReturn :: "'a queue \<Rightarrow> nat \<Rightarrow> 'a \<Rightarrow> (status \<times> 'a) outcome" where
  "GetItemAtReturn q i returnItem =
     obind (GetItemAt q i) (\<lambda>p. Ok (case p of Some v \<Rightarrow> (B_NO_ERROR, v) | None \<Rightarrow> (B_ERROR, returnItem)))"

text \<open>\<^verbatim>\<open>(*this)[i]\<close> as a value and as the target of an assignment.\<close>

definition q_at :: "'a queue \<Rightarrow> nat \<Rightarrow> 'a outcome" where
  "q_at q i = (if i < q_count q then GetItemAtUnchecked q i else Fault)"

definition q_at_put :: "'a queue \<Rightarrow> nat \<Rightarrow> 'a \<Rightarrow> 'a queue outcome" where
  "q_at_put q i v = (if i < q_count q then obind (InternalizeIndex q i) (\<lambda>p. q_wr q p v) else Fault)"

definition GetWithDefault :: "'a \<Rightarrow> 'a queue \<Rightarrow> nat \<Rightarrow> 'a outcome" where
  "GetWithDefault d q i = (if i < q_count q then q_at q i else Ok d)"

definition q_Head :: "'a queue \<Rightarrow> 'a outcome" where
  "q_Head q = GetItemAtUnchecked q 0"

definition q_Tail :: "'a queue \<Rightarrow> 'a outcome" where
  "q_Tail q = GetItemAtUnchecked q (sub32 (q_count q) 1)"

definition HeadWithDefault :: "'a queue \<Rightarrow> 'a \<Rightarrow> 'a outcome" where
  "HeadWithDefault q defaultItem = (if q_count q > 0 then q_Head q else Ok defaultItem)"

definition TailWithDefault :: "'a queue \<Rightarrow> 'a \<Rightarrow> 'a outcome" where
  "TailWithDefault q defaultItem = (if q_count q > 0 then q_Tail q else Ok defaultItem)"

definition IsNormalized :: "'a queue \<Rightarrow> bool" where
  "IsNormalized q \<longleftrightarrow> q_count q = 0 \<or> q_head q \<le> q_tail q"

text \<open>The two contiguous parts of the items: the start and the length in \<^verbatim>\<open>_queue\<close>, NULL as \<open>None\<close>.\<close>

definition GetArrayPointerAux :: "'a queue \<Rightarrow> nat \<Rightarrow> (nat \<times> nat) option" where
  "GetArrayPointerAux q whichArray =
     (if q_count q > 0 then
        (if whichArray = 0 then
           Some (q_head q, if q_head q \<le> q_tail q then add32 (sub32 (q_tail q) (q_head q)) 1
                           else sub32 (q_size q) (q_head q))
         else if whichArray = 1 \<and> q_head q > q_tail q then Some (0, add32 (q_tail q) 1)
         else None)
      else None)"

subsection \<open>Removing at the ends, and clearing\<close>

definition RemoveHead :: "'a \<Rightarrow> 'a queue \<Rightarrow> (status \<times> 'a queue) outcome" where
  "RemoveHead d q =
     (if q_count q = 0 then Ok (B_ERROR, q)
      else let oldHeadIndex = q_head q;
               q = q\<lparr>q_head := NextIndex q (q_head q), q_count := q_count q - 1\<rparr>
           in obind (q_wr q oldHeadIndex d) (\<lambda>q. Ok (B_NO_ERROR, q)))"

definition RemoveHeadReturn :: "'a \<Rightarrow> 'a queue \<Rightarrow> 'a \<Rightarrow> (status \<times> 'a \<times> 'a queue) outcome" where
  "RemoveHeadReturn d q returnItem =
     (if q_count q = 0 then Ok (B_ERROR, returnItem, q)
      else obind (q_rd q (q_head q)) (\<lambda>v. obind (RemoveHead d q) (\<lambda>(st, q). Ok (st, v, q))))"

definition RemoveHeadWithDefault :: "'a \<Rightarrow> 'a queue \<Rightarrow> ('a \<times> 'a queue) outcome" where
  "RemoveHeadWithDefault d q =
     (if q_count q = 0 then Ok (d, q)
      else obind (q_Head q) (\<lambda>v. obind (RemoveHead d q) (\<lambda>(st, q). Ok (v, q))))"

definition RemoveTail :: "'a \<Rightarrow> 'a queue \<Rightarrow> (status \<times> 'a queue) outcome" where
  "RemoveTail d q =
     (if q_count q = 0 then Ok (B_ERROR, q)
      else let removedItemIndex = q_tail q;
               q = q\<lparr>q_tail := PrevIndex q (q_tail q), q_count := q_count q - 1\<rparr>
           in obind (q_wr q removedItemIndex d) (\<lambda>q. Ok (B_NO_ERROR, q)))"

definition RemoveTailReturn :: "'a \<Rightarrow> 'a queue \<Rightarrow> 'a \<Rightarrow> (status \<times> 'a \<times> 'a queue) outcome" where
  "RemoveTailReturn d q returnItem =
     (if q_count q = 0 then Ok (B_ERROR, returnItem, q)
      else obind (q_rd q (q_tail q)) (\<lambda>v. obind (RemoveTail d q) (\<lambda>(st, q). Ok (st, v, q))))"

definition RemoveTailWithDefault :: "'a \<Rightarrow> 'a queue \<Rightarrow> ('a \<times> 'a queue) outcome" where
  "RemoveTailWithDefault d q =
     (if q_count q = 0 then Ok (d, q)
      else obind (q_Tail q) (\<lambda>v. obind (RemoveTail d q) (\<lambda>(st, q). Ok (v, q))))"

definition FastClear :: "'a queue \<Rightarrow> 'a queue" where
  "FastClear q = q\<lparr>q_count := 0, q_head := 0, q_tail := 0\<rparr>"

definition clear_part :: "'a \<Rightarrow> nat \<Rightarrow> 'a queue \<Rightarrow> 'a queue outcome" where
  "clear_part d whichArray q =
     (case GetArrayPointerAux q whichArray of
        None \<Rightarrow> Ok q
      | Some (p, arrayLen) \<Rightarrow> for_up 0 arrayLen (\<lambda>j q. q_wr q (p + j) d) q)"

definition Clear :: "'a \<Rightarrow> bool \<Rightarrow> 'a queue \<Rightarrow> 'a queue outcome" where
  "Clear d releaseCachedBuffers q =
     (if releaseCachedBuffers \<and> q_place q \<noteq> QSmall
      then Ok (q\<lparr>q_heap := [], q_place := QNull, q_size := 0, q_count := 0\<rparr>)
      else if q_count q > 0
      then obind (for_up 0 2 (clear_part d) q) (\<lambda>q. Ok (FastClear q))
      else Ok q)"

definition RemoveHeadMulti :: "'a \<Rightarrow> 'a queue \<Rightarrow> nat \<Rightarrow> (nat \<times> 'a queue) outcome" where
  "RemoveHeadMulti d q numItems =
     (let numItems = min numItems (q_count q) in
      obind (if numItems = q_count q then Clear d False q
             else for_up 0 numItems (\<lambda>i q. obind (RemoveHead d q) (\<lambda>(st, q). Ok q)) q)
        (\<lambda>q. Ok (numItems, q)))"

definition RemoveTailMulti :: "'a \<Rightarrow> 'a queue \<Rightarrow> nat \<Rightarrow> (nat \<times> 'a queue) outcome" where
  "RemoveTailMulti d q numItems =
     (let numItems = min numItems (q_count q) in
      obind (if numItems = q_count q then Clear d False q
             else for_up 0 numItems (\<lambda>i q. obind (RemoveTail d q) (\<lambda>(st, q). Ok q)) q)
        (\<lambda>q. Ok (numItems, q)))"

subsection \<open>Room for more items\<close>

text \<open>
  The part of \<^verbatim>\<open>EnsureSizeAux\<close> that moves the items to another array.  The result has the array
  that \<^verbatim>\<open>retOldArray\<close> hands to the caller, who deletes it.  A new array that is the inline one
  while the items are on the heap (or the other way round) never overlaps the old one.
\<close>

definition new_slots :: "nat \<Rightarrow> bool \<Rightarrow> nat \<Rightarrow> nat" where
  "new_slots slots setNumItems extraPreallocs =
     (let sqLen = SMALL_QUEUE_SIZE; temp = add32 slots extraPreallocs
      in max SMALL_QUEUE_SIZE (if setNumItems \<or> temp \<le> sqLen then max sqLen temp else temp))"

definition q_realloc ::
    "(nat \<Rightarrow> bool) \<Rightarrow> 'a \<Rightarrow> 'a queue \<Rightarrow> nat \<Rightarrow> bool \<Rightarrow> nat \<Rightarrow> (status \<times> 'a queue \<times> 'a list option) outcome"
where
  "q_realloc am d q slots setNumItems extraPreallocs =
     (let newQLen = new_slots slots setNumItems extraPreallocs;
          onHeap = (q_place q = QSmall \<or> newQLen > SMALL_QUEUE_SIZE)
      in if onHeap \<and> \<not> am newQLen then Ok (B_ERROR, q, None)
      else
        let newQLen = (if onHeap then newQLen else SMALL_QUEUE_SIZE) in
        obind (if q_size q > 0
               then for_up 0 (q_count q) (\<lambda>i new. obind (GetItemAtUnchecked q i) (wr new i))
                      (if onHeap then replicate newQLen d else q_small q)
               else Ok (if onHeap then replicate newQLen d else q_small q)) (\<lambda>new.
        let q = (if setNumItems then q\<lparr>q_count := slots\<rparr> else q);
            q = q\<lparr>q_head := 0, q_tail := sub32 (q_count q) 1\<rparr>;
            oldArray = (if q_place q = QHeap then Some (q_heap q) else None);
            q = (if q_place q = QSmall then q\<lparr>q_small := replicate SMALL_QUEUE_SIZE d\<rparr> else q);
            q = (if onHeap then q\<lparr>q_heap := new, q_place := QHeap\<rparr>
                 else q\<lparr>q_small := new, q_heap := [], q_place := QSmall\<rparr>)
        in Ok (B_NO_ERROR, q\<lparr>q_size := newQLen\<rparr>, oldArray)))"

definition EnsureSizeAux ::
    "(nat \<Rightarrow> bool) \<Rightarrow> 'a \<Rightarrow> 'a queue \<Rightarrow> nat \<Rightarrow> bool \<Rightarrow> nat \<Rightarrow> bool \<Rightarrow> (status \<times> 'a queue \<times> 'a list option) outcome"
where
  "EnsureSizeAux am d q slots setNumItems extraPreallocs allowShrink =
     obind (if q_place q = QNull
               \<or> (if allowShrink then q_size q \<noteq> add32 slots extraPreallocs else q_size q < slots)
            then q_realloc am d q slots setNumItems extraPreallocs
            else Ok (B_NO_ERROR, q, None)) (\<lambda>(st, q, oldArray).
     if st = B_ERROR then Ok (B_ERROR, q, oldArray)
     else if setNumItems then
       (if slots > q_count q then
          (if q_size q = 0 then Fault
           else Ok (B_NO_ERROR, q\<lparr>q_tail := PrevIndex q (add32 (q_head q) slots mod q_size q), q_count := slots\<rparr>,
                    oldArray))
        else obind (RemoveTailMulti d q (q_count q - slots)) (\<lambda>(n, q). Ok (B_NO_ERROR, q, oldArray)))
     else Ok (B_NO_ERROR, q, oldArray))"

text \<open>\<^verbatim>\<open>EnsureSize\<close>, \<^verbatim>\<open>EnsureCanAdd\<close> and \<^verbatim>\<open>ShrinkToFit\<close>; the old array is deleted at once.\<close>

definition EnsureSize ::
    "(nat \<Rightarrow> bool) \<Rightarrow> 'a \<Rightarrow> 'a queue \<Rightarrow> nat \<Rightarrow> bool \<Rightarrow> nat \<Rightarrow> bool \<Rightarrow> (status \<times> 'a queue) outcome" where
  "EnsureSize am d q numSlots setNumItems extraReallocItems allowShrink =
     obind (EnsureSizeAux am d q numSlots setNumItems extraReallocItems allowShrink) (\<lambda>(st, q, _). Ok (st, q))"

definition EnsureCanAdd :: "(nat \<Rightarrow> bool) \<Rightarrow> 'a \<Rightarrow> 'a queue \<Rightarrow> nat \<Rightarrow> (status \<times> 'a queue) outcome" where
  "EnsureCanAdd am d q numExtraSlots = EnsureSize am d q (add32 (q_count q) numExtraSlots) False 0 False"

definition ShrinkToFit :: "(nat \<Rightarrow> bool) \<Rightarrow> 'a \<Rightarrow> 'a queue \<Rightarrow> nat \<Rightarrow> (status \<times> 'a queue) outcome" where
  "ShrinkToFit am d q numExtraSlots = EnsureSize am d q (add32 (q_count q) numExtraSlots) False 0 True"

subsection \<open>Adding at the ends\<close>

text \<open>
  An item that is passed by reference: a value elsewhere, or the slot \<open>p\<close> of the queue's own array at
  the time of the call.  \<open>deref\<close> reads it after \<^verbatim>\<open>EnsureSizeAux\<close>, which may have moved the items
  away from there: \<open>was\<close> is where the array was, \<open>oldArray\<close> the array on the heap that is not
  deleted yet.
\<close>

datatype 'a arg = Val 'a | Slot nat

definition deref :: "place \<Rightarrow> 'a list option \<Rightarrow> 'a queue \<Rightarrow> 'a arg \<Rightarrow> 'a outcome" where
  "deref was oldArray q item = (case item of
     Val v \<Rightarrow> Ok v
   | Slot p \<Rightarrow> (case was of
        QNull \<Rightarrow> Fault
      | QSmall \<Rightarrow> rd (q_small q) p
      | QHeap \<Rightarrow> (case oldArray of Some xs \<Rightarrow> rd xs p | None \<Rightarrow> rd (q_heap q) p)))"

text \<open>What \<^verbatim>\<open>AddTailAndGet\<close> and \<^verbatim>\<open>AddHeadAndGet\<close> do once there is room.\<close>

definition open_tail :: "'a queue \<Rightarrow> 'a queue" where
  "open_tail q =
     (let q = (if q_count q = 0 then q\<lparr>q_head := 0, q_tail := 0\<rparr>
               else q\<lparr>q_tail := NextIndex q (q_tail q)\<rparr>)
      in q\<lparr>q_count := add32 (q_count q) 1\<rparr>)"

definition open_head :: "'a queue \<Rightarrow> 'a queue" where
  "open_head q =
     (let q = (if q_count q = 0 then q\<lparr>q_head := 0, q_tail := 0\<rparr>
               else q\<lparr>q_head := PrevIndex q (q_head q)\<rparr>)
      in q\<lparr>q_count := add32 (q_count q) 1\<rparr>)"

definition AddTail :: "(nat \<Rightarrow> bool) \<Rightarrow> 'a \<Rightarrow> 'a queue \<Rightarrow> 'a arg \<Rightarrow> (status \<times> 'a queue) outcome" where
  "AddTail am d q item =
     (let n = add32 (q_count q) 1; was = q_place q in
      obind (EnsureSizeAux am d q n False n False) (\<lambda>(st, q, oldArray).
      if st = B_ERROR then Ok (B_ERROR, q)
      else let q = open_tail q in
        obind (deref was oldArray q item) (\<lambda>v.
        obind (q_wr q (q_tail q) v) (\<lambda>q. Ok (B_NO_ERROR, q)))))"

definition AddTailDefault :: "(nat \<Rightarrow> bool) \<Rightarrow> 'a \<Rightarrow> 'a queue \<Rightarrow> (status \<times> 'a queue) outcome" where
  "AddTailDefault am d q =
     (let n = add32 (q_count q) 1 in
      obind (EnsureSize am d q n False n False) (\<lambda>(st, q).
      if st = B_ERROR then Ok (B_ERROR, q) else Ok (B_NO_ERROR, open_tail q)))"

definition AddHead :: "(nat \<Rightarrow> bool) \<Rightarrow> 'a \<Rightarrow> 'a queue \<Rightarrow> 'a arg \<Rightarrow> (status \<times> 'a queue) outcome" where
  "AddHead am d q item =
     (let n = add32 (q_count q) 1; was = q_place q in
      obind (EnsureSizeAux am d q n False n False) (\<lambda>(st, q, oldArray).
      if st = B_ERROR then Ok (B_ERROR, q)
      else let q = open_head q in
        obind (deref was oldArray q item) (\<lambda>v.
        obind (q_wr q (q_head q) v) (\<lambda>q. Ok (B_NO_ERROR, q)))))"

definition AddHeadDefault :: "(nat \<Rightarrow> bool) \<Rightarrow> 'a \<Rightarrow> 'a queue \<Rightarrow> (status \<times> 'a queue) outcome" where
  "AddHeadDefault am d q =
     (let n = add32 (q_count q) 1 in
      obind (EnsureSize am d q n False n False) (\<lambda>(st, q).
      if st = B_ERROR then Ok (B_ERROR, q) else Ok (B_NO_ERROR, open_head q)))"

text \<open>Adding many items, from another queue or from an array that is not this queue's.\<close>

definition how_many :: "'a queue \<Rightarrow> nat \<Rightarrow> nat \<Rightarrow> nat" where
  "how_many queue startIndex numNewItems =
     (let hisSize = q_count queue
      in min numNewItems (if startIndex < hisSize then hisSize - startIndex else 0))"

definition AddTailMulti ::
    "(nat \<Rightarrow> bool) \<Rightarrow> 'a \<Rightarrow> 'a queue \<Rightarrow> 'a queue \<Rightarrow> nat \<Rightarrow> nat \<Rightarrow> (status \<times> 'a queue) outcome" where
  "AddTailMulti am d q queue startIndex numNewItems =
     (let numNewItems = how_many queue startIndex numNewItems;
          mySize = q_count q; newSize = add32 mySize numNewItems in
      obind (EnsureSize am d q newSize True 0 False) (\<lambda>(st, q).
      if st = B_ERROR then Ok (B_ERROR, q)
      else obind (for_up mySize newSize
             (\<lambda>i q. obind (q_at queue (startIndex + (i - mySize))) (q_at_put q i)) q) (\<lambda>q.
           Ok (B_NO_ERROR, q))))"

definition AddTailMultiArray ::
    "(nat \<Rightarrow> bool) \<Rightarrow> 'a \<Rightarrow> 'a queue \<Rightarrow> 'a list \<Rightarrow> nat \<Rightarrow> (status \<times> 'a queue) outcome" where
  "AddTailMultiArray am d q items numItems =
     (let mySize = q_count q; newSize = add32 mySize numItems in
      obind (EnsureSizeAux am d q newSize True 0 False) (\<lambda>(st, q, _).
      if st = B_ERROR then Ok (B_ERROR, q)
      else obind (for_up mySize newSize (\<lambda>i q. obind (rd items (i - mySize)) (q_at_put q i)) q) (\<lambda>q.
           Ok (B_NO_ERROR, q))))"

definition AddHeadMulti ::
    "(nat \<Rightarrow> bool) \<Rightarrow> 'a \<Rightarrow> 'a queue \<Rightarrow> 'a queue \<Rightarrow> nat \<Rightarrow> nat \<Rightarrow> (status \<times> 'a queue) outcome" where
  "AddHeadMulti am d q queue startIndex numNewItems =
     (let numNewItems = how_many queue startIndex numNewItems in
      obind (EnsureSize am d q (add32 numNewItems (q_count q)) False 0 False) (\<lambda>(st, q).
      if st = B_ERROR then Ok (B_ERROR, q)
      else obind (for_down startIndex (startIndex + numNewItems)
             (\<lambda>i q. obind (q_at queue i) (\<lambda>v. obind (AddHead am d q (Val v)) (\<lambda>(st, q). Ok q))) q) (\<lambda>q.
           Ok (B_NO_ERROR, q))))"

definition AddHeadMultiArray ::
    "(nat \<Rightarrow> bool) \<Rightarrow> 'a \<Rightarrow> 'a queue \<Rightarrow> 'a list \<Rightarrow> nat \<Rightarrow> (status \<times> 'a queue) outcome" where
  "AddHeadMultiArray am d q items numItems =
     obind (EnsureSizeAux am d q (add32 (q_count q) numItems) False 0 False) (\<lambda>(st, q, _).
     if st = B_ERROR then Ok (B_ERROR, q)
     else obind (for_down 0 numItems
            (\<lambda>i q. obind (rd items i) (\<lambda>v. obind (AddHead am d q (Val v)) (\<lambda>(st, q). Ok q))) q) (\<lambda>q.
          Ok (B_NO_ERROR, q)))"

subsection \<open>Items in the middle\<close>

definition ReplaceItemAt :: "'a queue \<Rightarrow> nat \<Rightarrow> 'a \<Rightarrow> (status \<times> 'a queue) outcome" where
  "ReplaceItemAt q index newItem =
     (if index \<ge> q_count q then Ok (B_ERROR, q)
      else obind (InternalizeIndex q index) (\<lambda>p. obind (q_wr q p newItem) (\<lambda>q. Ok (B_NO_ERROR, q))))"

text \<open>
  The loops of \<^verbatim>\<open>RemoveItemAt\<close> move over at most all slots: \<open>fuel\<close> is the number of slots.
\<close>

fun shift_from_head :: "nat \<Rightarrow> nat \<Rightarrow> 'a queue \<Rightarrow> 'a queue outcome" where
  "shift_from_head fuel internalizedIndex q =
     (if internalizedIndex \<noteq> q_head q then
        (case fuel of
           0 \<Rightarrow> Spin
         | Suc fuel' \<Rightarrow>
             let prev = PrevIndex q internalizedIndex in
             obind (q_rd q prev) (\<lambda>v. obind (q_wr q internalizedIndex v) (shift_from_head fuel' prev)))
      else Ok q)"

fun shift_from_tail :: "nat \<Rightarrow> nat \<Rightarrow> 'a queue \<Rightarrow> 'a queue outcome" where
  "shift_from_tail fuel internalizedIndex q =
     (if internalizedIndex \<noteq> q_tail q then
        (case fuel of
           0 \<Rightarrow> Spin
         | Suc fuel' \<Rightarrow>
             let next = NextIndex q internalizedIndex in
             obind (q_rd q next) (\<lambda>v. obind (q_wr q internalizedIndex v) (shift_from_tail fuel' next)))
      else Ok q)"

definition RemoveItemAt :: "'a \<Rightarrow> 'a queue \<Rightarrow> nat \<Rightarrow> (status \<times> 'a queue) outcome" where
  "RemoveItemAt d q index =
     (if index \<ge> q_count q then Ok (B_ERROR, q)
      else obind (InternalizeIndex q index) (\<lambda>internalizedIndex.
        if index < q_count q div 2 then
          obind (shift_from_head (q_size q) internalizedIndex q) (\<lambda>q.
          let indexToClear = q_head q; q = q\<lparr>q_head := NextIndex q (q_head q), q_count := q_count q - 1\<rparr> in
          obind (q_wr q indexToClear d) (\<lambda>q. Ok (B_NO_ERROR, q)))
        else
          obind (shift_from_tail (q_size q) internalizedIndex q) (\<lambda>q.
          let indexToClear = q_tail q; q = q\<lparr>q_tail := PrevIndex q (q_tail q), q_count := q_count q - 1\<rparr> in
          obind (q_wr q indexToClear d) (\<lambda>q. Ok (B_NO_ERROR, q)))))"

definition RemoveItemAtReturn :: "'a \<Rightarrow> 'a queue \<Rightarrow> nat \<Rightarrow> 'a \<Rightarrow> (status \<times> 'a \<times> 'a queue) outcome" where
  "RemoveItemAtReturn d q index returnItem =
     (if index \<ge> q_count q then Ok (B_ERROR, returnItem, q)
      else obind (InternalizeIndex q index) (\<lambda>p. obind (q_rd q p) (\<lambda>v.
        obind (RemoveItemAt d q index) (\<lambda>(st, q). Ok (st, v, q)))))"

definition RemoveItemAtWithDefault :: "'a \<Rightarrow> 'a queue \<Rightarrow> nat \<Rightarrow> ('a \<times> 'a queue) outcome" where
  "RemoveItemAtWithDefault d q index =
     (if index \<ge> q_count q then Ok (d, q)
      else obind (q_at q index) (\<lambda>v. obind (RemoveItemAt d q index) (\<lambda>(st, q). Ok (v, q))))"

text \<open>
  The address test \<^verbatim>\<open>IsItemLocatedInThisContainer\<close>: slots from \<^verbatim>\<open>GetNumItems()\<close> on do not count.
\<close>

definition IsItemLocatedInThisContainer :: "'a queue \<Rightarrow> 'a arg \<Rightarrow> bool" where
  "IsItemLocatedInThisContainer q val =
     (q_count q > 0 \<and> (case val of Val v \<Rightarrow> False | Slot p \<Rightarrow> p < q_count q))"

text \<open>\<^verbatim>\<open>ReplaceItemAt(to, *GetItemAtUnchecked(from))\<close>.\<close>

definition move_item :: "nat \<Rightarrow> nat \<Rightarrow> 'a queue \<Rightarrow> 'a queue outcome" where
  "move_item to from q = obind (GetItemAtUnchecked q from) (\<lambda>v. obind (ReplaceItemAt q to v) (\<lambda>(st, q). Ok q))"

definition InsertItem :: "(nat \<Rightarrow> bool) \<Rightarrow> 'a \<Rightarrow> 'a queue \<Rightarrow> nat \<Rightarrow> 'a arg \<Rightarrow> (status \<times> 'a queue) outcome" where
  "InsertItem am d q index newItem =
     (if index > q_count q then Ok (B_ERROR, q)
      else if index = q_count q then AddTail am d q newItem
      else if index = 0 then AddHead am d q newItem
      else
        let was = q_place q in
        obind (if index < q_count q div 2 then
                 obind (AddHeadDefault am d q) (\<lambda>(st, q).
                 if st = B_ERROR then Ok (B_ERROR, q)
                 else obind (for_up 0 index (\<lambda>i. move_item i (i + 1)) q) (\<lambda>q. Ok (B_NO_ERROR, q)))
               else
                 obind (AddTailDefault am d q) (\<lambda>(st, q).
                 if st = B_ERROR then Ok (B_ERROR, q)
                 else obind (for_down (index + 1) (q_count q) (\<lambda>i. move_item i (i - 1)) q) (\<lambda>q. Ok (B_NO_ERROR, q))))
          (\<lambda>(st, q).
        if st = B_ERROR then Ok (B_ERROR, q)
        else obind (deref was None q newItem) (ReplaceItemAt q index)))"

definition InsertItemAt :: "(nat \<Rightarrow> bool) \<Rightarrow> 'a \<Rightarrow> 'a queue \<Rightarrow> nat \<Rightarrow> 'a arg \<Rightarrow> (status \<times> 'a queue) outcome" where
  "InsertItemAt am d q index newItem =
     (if q_size q - q_count q < 1 \<and> IsItemLocatedInThisContainer q newItem
      then obind (deref (q_place q) None q newItem) (\<lambda>temp. InsertItem am d q index (Val temp))
      else InsertItem am d q index newItem)"

definition InsertItemsAt ::
    "(nat \<Rightarrow> bool) \<Rightarrow> 'a \<Rightarrow> 'a queue \<Rightarrow> nat \<Rightarrow> 'a queue \<Rightarrow> nat \<Rightarrow> nat \<Rightarrow> (status \<times> 'a queue) outcome" where
  "InsertItemsAt am d q index queue startIndex numNewItems =
     (let numNewItems = how_many queue startIndex numNewItems in
      if numNewItems = 0 then Ok (B_NO_ERROR, q)
      else if index > q_count q then Ok (B_ERROR, q)
      else if numNewItems = 1 \<and> index = 0 then obind (q_Head queue) (\<lambda>v. AddHead am d q (Val v))
      else if numNewItems = 1 \<and> index = q_count q then obind (q_Head queue) (\<lambda>v. AddTail am d q (Val v))
      else
        let oldSize = q_count q; newSize = add32 oldSize numNewItems in
        obind (EnsureSize am d q newSize True 0 False) (\<lambda>(st, q).
        if st = B_ERROR then Ok (B_ERROR, q)
        else obind (for_up index oldSize (\<lambda>i q. obind (q_at q i) (q_at_put q (i + numNewItems))) q) (\<lambda>q.
             obind (for_up index (index + numNewItems)
                      (\<lambda>i q. obind (q_at queue (startIndex + (i - index))) (q_at_put q i)) q) (\<lambda>q.
             Ok (B_NO_ERROR, q)))))"

subsection \<open>Searching, swapping and reversing\<close>

text \<open>The first of the indices \<open>is\<close> at which the item satisfies \<open>P\<close>.\<close>

fun first_at :: "('a \<Rightarrow> bool) \<Rightarrow> 'a queue \<Rightarrow> nat list \<Rightarrow> nat option outcome" where
  "first_at P q [] = Ok None"
| "first_at P q (i # is) = obind (GetItemAtUnchecked q i) (\<lambda>v. if P v then Ok (Some i) else first_at P q is)"

definition index_or_minus_one :: "nat option \<Rightarrow> int" where
  "index_or_minus_one r = (case r of None \<Rightarrow> -1 | Some i \<Rightarrow> int i)"

definition IndexOf :: "'a queue \<Rightarrow> 'a \<Rightarrow> nat \<Rightarrow> nat \<Rightarrow> int outcome" where
  "IndexOf q item startAt endAtPlusOne =
     (if startAt \<ge> q_count q then Ok (-1)
      else obind (first_at (\<lambda>v. v = item) q [startAt..<min endAtPlusOne (q_count q)])
             (\<lambda>r. Ok (index_or_minus_one r)))"

definition LastIndexOf :: "'a queue \<Rightarrow> 'a \<Rightarrow> nat \<Rightarrow> nat \<Rightarrow> int outcome" where
  "LastIndexOf q item startAt endAt =
     (if endAt \<ge> q_count q then Ok (-1)
      else obind (first_at (\<lambda>v. v = item) q (rev [endAt..<Suc (min startAt (q_count q - 1))]))
             (\<lambda>r. Ok (index_or_minus_one r)))"

definition Contains :: "'a queue \<Rightarrow> 'a \<Rightarrow> nat \<Rightarrow> nat \<Rightarrow> bool outcome" where
  "Contains q item startAt endAtPlusOne = obind (IndexOf q item startAt endAtPlusOne) (\<lambda>i. Ok (i \<ge> 0))"

definition Swap :: "'a queue \<Rightarrow> nat \<Rightarrow> nat \<Rightarrow> 'a queue outcome" where
  "Swap q fromIndex toIndex =
     obind (q_at q fromIndex) (\<lambda>a. obind (q_at q toIndex) (\<lambda>b.
     obind (q_at_put q fromIndex b) (\<lambda>q. q_at_put q toIndex a)))"

function reverse_loop :: "nat \<Rightarrow> nat \<Rightarrow> 'a queue \<Rightarrow> 'a queue outcome" where
  "reverse_loop from to q =
     (if from < to then obind (Swap q from to) (reverse_loop (Suc from) (to - 1)) else Ok q)"
  by auto
termination by (relation "measure (\<lambda>(from, to, q). to - from)") auto

declare reverse_loop.simps [simp del]

definition ReverseItemOrdering :: "'a queue \<Rightarrow> nat \<Rightarrow> nat \<Rightarrow> 'a queue outcome" where
  "ReverseItemOrdering q from to =
     (let slots = q_count q in
      if slots > 0 then
        let to = sub32 to 1; to = (if to \<ge> slots then slots - 1 else to) in reverse_loop from to q
      else Ok q)"

definition RemoveFirstInstanceOf :: "'a \<Rightarrow> 'a queue \<Rightarrow> 'a \<Rightarrow> (status \<times> 'a queue) outcome" where
  "RemoveFirstInstanceOf d q val =
     obind (first_at (\<lambda>v. v = val) q [0..<q_count q]) (\<lambda>r.
     case r of None \<Rightarrow> Ok (B_ERROR, q) | Some i \<Rightarrow> RemoveItemAt d q i)"

definition RemoveLastInstanceOf :: "'a \<Rightarrow> 'a queue \<Rightarrow> 'a \<Rightarrow> (status \<times> 'a queue) outcome" where
  "RemoveLastInstanceOf d q val =
     obind (first_at (\<lambda>v. v = val) q (rev [0..<q_count q])) (\<lambda>r.
     case r of None \<Rightarrow> Ok (B_ERROR, q) | Some i \<Rightarrow> RemoveItemAt d q i)"

text \<open>
  \<^verbatim>\<open>RemoveAllInstancesOf\<close> of a value that is not in the array.  The state of the loop is
  \<^verbatim>\<open>ret\<close>, \<^verbatim>\<open>writeTo\<close> and the queue.
\<close>

definition RemoveAllInstancesOf :: "'a \<Rightarrow> 'a queue \<Rightarrow> 'a \<Rightarrow> (nat \<times> 'a queue) outcome" where
  "RemoveAllInstancesOf d q val =
     (let origSize = q_count q in
      obind (for_up 0 origSize (\<lambda>readFrom (ret, writeTo, q).
               obind (q_at q readFrom) (\<lambda>nextRead.
               if nextRead = val then Ok (ret + 1, writeTo, q)
               else obind (if readFrom > writeTo then q_at_put q writeTo nextRead else Ok q) (\<lambda>q.
                    Ok (ret, writeTo + 1, q)))) (0, 0, q)) (\<lambda>(ret, writeTo, q).
      obind (for_up writeTo origSize (\<lambda>i q. obind (RemoveTail d q) (\<lambda>(st, q). Ok q)) q) (\<lambda>q.
      Ok (ret, q))))"

definition InsertItemAtSortedPosition ::
    "(nat \<Rightarrow> bool) \<Rightarrow> 'a \<Rightarrow> ('a \<Rightarrow> 'a \<Rightarrow> int) \<Rightarrow> 'a queue \<Rightarrow> 'a \<Rightarrow> (int \<times> 'a queue) outcome" where
  "InsertItemAtSortedPosition am d Compare q item =
     (let addHead = obind (AddHead am d q (Val item)) (\<lambda>(st, q). Ok (if st = B_NO_ERROR then 0 else -1, q)) in
      if q_count q > 0 then
        obind (q_Head q) (\<lambda>h.
        if Compare item h \<ge> 0 then
          obind (first_at (\<lambda>v. Compare item v \<ge> 0) q (rev [0..<q_count q])) (\<lambda>r.
          case r of
            None \<Rightarrow> addHead
          | Some insertAfter \<Rightarrow>
              obind (InsertItemAt am d q (insertAfter + 1) (Val item)) (\<lambda>(st, q).
              Ok (if st = B_NO_ERROR then int insertAfter + 1 else -1, q)))
        else addHead)
      else addHead)"

subsection \<open>Comparing and copying\<close>

fun all_at :: "(nat \<Rightarrow> bool outcome) \<Rightarrow> nat list \<Rightarrow> bool outcome" where
  "all_at P [] = Ok True"
| "all_at P (i # is) = obind (P i) (\<lambda>b. if b then all_at P is else Ok False)"

definition same_at :: "'a queue \<Rightarrow> nat \<Rightarrow> 'a queue \<Rightarrow> nat \<Rightarrow> bool outcome" where
  "same_at q i r j = obind (q_at q i) (\<lambda>a. obind (q_at r j) (\<lambda>b. Ok (a = b)))"

text \<open>\<^verbatim>\<open>operator ==\<close> and \<^verbatim>\<open>operator =\<close> for two different objects.\<close>

definition QueueEq :: "'a queue \<Rightarrow> 'a queue \<Rightarrow> bool outcome" where
  "QueueEq q rhs =
     (if q_count q \<noteq> q_count rhs then Ok False
      else all_at (\<lambda>i. same_at q i rhs i) (rev [0..<q_count q]))"

definition StartsWithQueue :: "'a queue \<Rightarrow> 'a queue \<Rightarrow> bool outcome" where
  "StartsWithQueue q prefixQueue =
     (if q_count prefixQueue > q_count q then Ok False
      else all_at (\<lambda>i. same_at prefixQueue i q i) [0..<q_count prefixQueue])"

text \<open>The index into \<^verbatim>\<open>suffixQueue\<close> is that of the longer queue.\<close>

definition EndsWithQueue :: "'a queue \<Rightarrow> 'a queue \<Rightarrow> bool outcome" where
  "EndsWithQueue q suffixQueue =
     (if q_count suffixQueue > q_count q then Ok False
      else let lastToCheck = q_count q - q_count suffixQueue
           in all_at (\<lambda>i. same_at suffixQueue i q i) (rev [lastToCheck..<q_count q]))"

definition StartsWithItem :: "'a queue \<Rightarrow> 'a \<Rightarrow> bool outcome" where
  "StartsWithItem q prefix = (if q_count q > 0 then obind (q_Head q) (\<lambda>v. Ok (v = prefix)) else Ok False)"

definition EndsWithItem :: "'a queue \<Rightarrow> 'a \<Rightarrow> bool outcome" where
  "EndsWithItem q suffix = (if q_count q > 0 then obind (q_Tail q) (\<lambda>v. Ok (v = suffix)) else Ok False)"

definition copy_items :: "'a queue \<Rightarrow> nat \<Rightarrow> 'a queue \<Rightarrow> 'a queue outcome" where
  "copy_items rhs n q = for_up 0 n (\<lambda>i q. obind (q_at rhs i) (q_at_put q i)) q"

definition QueueAssign :: "(nat \<Rightarrow> bool) \<Rightarrow> 'a \<Rightarrow> 'a queue \<Rightarrow> 'a queue \<Rightarrow> 'a queue outcome" where
  "QueueAssign am d q rhs =
     (let hisNumItems = q_count rhs in
      if hisNumItems = 0 then Clear d True q
      else obind (EnsureSize am d q hisNumItems True 0 False) (\<lambda>(st, q).
        if st = B_NO_ERROR then copy_items rhs hisNumItems q else Ok q))"

definition CopyFrom :: "(nat \<Rightarrow> bool) \<Rightarrow> 'a \<Rightarrow> 'a queue \<Rightarrow> 'a queue \<Rightarrow> (status \<times> 'a queue) outcome" where
  "CopyFrom am d q rhs =
     (let numItems = q_count rhs in
      obind (EnsureSize am d q numItems True 0 False) (\<lambda>(st, q).
      if st = B_NO_ERROR then obind (copy_items rhs numItems q) (\<lambda>q. Ok (B_NO_ERROR, q))
      else Ok (B_ERROR, q)))"

end
