(* ===== verification/Queue_Layout.thy ===== *)
theory Queue_Layout
  imports Queue_Model
begin

section \<open>Queue: the circular array holds a list\<close>

text \<open>
  The abstract view of a queue is the list of its items.  \<open>q_lay q xs junk\<close>: the state is coherent,
  and the array, read round from the head, has the items \<open>xs\<close> and then \<open>junk\<close> in the slots that are
  not in use.  The operations keep that layout; each lemma says what they make of \<open>xs\<close> and \<open>junk\<close>.
  \<open>q_clean\<close> is the layout in which every slot that is not in use has the default item.
\<close>

named_theorems queue_ops "what the operations do to the items of a queue"

definition q_lay :: "'a queue \<Rightarrow> 'a list \<Rightarrow> 'a list \<Rightarrow> bool" where
  "q_lay q xs junk \<longleftrightarrow>
     length (q_small q) = SMALL_QUEUE_SIZE
     \<and> (q_place q = QHeap \<longrightarrow> q_heap q \<noteq> [])
     \<and> q_size q = length (q_array q) \<and> q_size q < 2 ^ 31
     \<and> q_count q = length xs
     \<and> rotate (q_head q) (q_array q) = xs @ junk
     \<and> (q_size q \<noteq> 0 \<longrightarrow> q_head q < q_size q)
     \<and> (xs \<noteq> [] \<longrightarrow> q_tail q = (q_head q + (length xs - 1)) mod q_size q)"

definition q_spare :: "'a \<Rightarrow> 'a queue \<Rightarrow> bool" where
  "q_spare d q \<longleftrightarrow> (q_place q \<noteq> QSmall \<longrightarrow> q_small q = replicate SMALL_QUEUE_SIZE d)"

definition q_clean :: "'a \<Rightarrow> 'a queue \<Rightarrow> 'a list \<Rightarrow> bool" where
  "q_clean d q xs \<longleftrightarrow> (\<exists>junk. q_lay q xs junk \<and> set junk \<subseteq> {d}) \<and> q_spare d q"

subsection \<open>Reading round from the head\<close>

lemma mod_add_left_inj:
  fixes h i j n :: nat
  assumes "(h + i) mod n = (h + j) mod n" "i < n" "j < n"
  shows "i = j"
proof -
  have "x = y" if "x \<le> y" "y < n" "(h + x) mod n = (h + y) mod n" for x y
  proof -
    have "n dvd (h + y) - (h + x)" using that(1,3) by (metis mod_eq_dvd_iff_nat nat_add_left_cancel_le)
    then have "n dvd y - x" by simp
    with that(1,2) show ?thesis using nat_dvd_not_less [of "y - x" n] by (cases "x = y") auto
  qed
  from this [of i j] this [of j i] show ?thesis using assms by (metis nat_le_linear)
qed

lemma rotate_update:
  assumes "i < length xs"
  shows "rotate h (xs[(h + i) mod length xs := v]) = (rotate h xs)[i := v]"
proof (rule nth_equalityI)
  fix j assume "j < length (rotate h (xs[(h + i) mod length xs := v]))"
  then have j: "j < length xs" by simp
  have "(h + i) mod length xs = (h + j) mod length xs \<longleftrightarrow> i = j"
    using mod_add_left_inj [OF _ assms j] by auto
  moreover have "(h + i) mod length xs < length xs" using assms by (cases xs) simp_all
  ultimately show "rotate h (xs[(h + i) mod length xs := v]) ! j = (rotate h xs)[i := v] ! j"
    using assms j by (simp add: nth_rotate nth_list_update)
qed simp

lemma rotate_replicate [simp]: "rotate n (replicate k x) = replicate k x"
proof (rule nth_equalityI)
  fix i assume "i < length (rotate n (replicate k x))"
  then show "rotate n (replicate k x) ! i = replicate k x ! i"
    by (cases "k = 0") (simp_all add: nth_rotate)
qed simp

lemma q_lay_size: "q_lay q xs junk \<Longrightarrow> q_size q = length xs + length junk"
  by (metis q_lay_def length_append length_rotate)

lemma q_array_set [simp]: "length xs = length (q_array q) \<Longrightarrow> q_place q \<noteq> QNull \<Longrightarrow> q_array (set_array q xs) = xs"
  by (cases "q_place q") (simp_all add: q_array_def set_array_def)

lemma set_array_sel [simp]:
  "q_place (set_array q xs) = q_place q" "q_size (set_array q xs) = q_size q"
  "q_count (set_array q xs) = q_count q" "q_head (set_array q xs) = q_head q" "q_tail (set_array q xs) = q_tail q"
  by (cases "q_place q"; simp add: set_array_def)+

lemma q_array_upd [simp]:
  "q_array (q\<lparr>q_count := a\<rparr>) = q_array q" "q_array (q\<lparr>q_head := b\<rparr>) = q_array q"
  "q_array (q\<lparr>q_tail := c\<rparr>) = q_array q" "q_array (q\<lparr>q_size := e\<rparr>) = q_array q"
  by (simp_all add: q_array_def split: place.split)

text \<open>The slot of item \<open>i\<close>, and of the slots behind the items.\<close>

definition phys :: "'a queue \<Rightarrow> nat \<Rightarrow> nat" where
  "phys q i = (q_head q + i) mod q_size q"

lemma lay_internalize:
  assumes "q_lay q xs junk" "i < length xs + length junk"
  shows "InternalizeIndex q i = Ok (phys q i)" "phys q i < q_size q"
proof -
  have s: "q_size q = length xs + length junk" "q_size q < 2 ^ 31" "q_head q < q_size q"
    using assms q_lay_size [OF assms(1)] by (auto simp: q_lay_def)
  show "phys q i < q_size q" unfolding phys_def by (rule mod_less_divisor) (use s in linarith)
  have "q_head q + i < 2 ^ 32" using s(2,3) assms(2) unfolding s(1) [symmetric] by simp
  moreover have "q_size q \<noteq> 0" using s(3) by linarith
  ultimately show "InternalizeIndex q i = Ok (phys q i)" by (simp add: InternalizeIndex_def phys_def)
qed

lemma lay_read:
  assumes "q_lay q xs junk" "i < length xs + length junk"
  shows "q_rd q (phys q i) = Ok ((xs @ junk) ! i)"
proof -
  have "q_size q = length (q_array q)" "rotate (q_head q) (q_array q) = xs @ junk"
    using assms(1) by (simp_all add: q_lay_def)
  moreover have "phys q i < q_size q" using assms by (rule lay_internalize)
  moreover have "i < length (q_array q)"
    using calculation(1) assms(2) q_lay_size [OF assms(1)] by simp
  then have "rotate (q_head q) (q_array q) ! i = q_array q ! phys q i"
    using calculation(1) by (simp only: nth_rotate phys_def)
  ultimately show ?thesis by (simp add: q_rd_def)
qed

text \<open>Writing keeps everything but the item.\<close>

lemma lay_write:
  assumes "q_lay q xs junk" "i < length xs + length junk"
  obtains q' where "q_wr q (phys q i) v = Ok q'"
    "rotate (q_head q) (q_array q') = (xs @ junk)[i := v]" "length (q_array q') = q_size q"
    "length (q_small q') = SMALL_QUEUE_SIZE" "q_place q' = QHeap \<Longrightarrow> q_heap q' \<noteq> []"
    "q_place q' = q_place q" "q_size q' = q_size q" "q_count q' = q_count q"
    "q_head q' = q_head q" "q_tail q' = q_tail q" "q_place q \<noteq> QSmall \<Longrightarrow> q_small q' = q_small q"
proof -
  have p: "phys q i < length (q_array q)" "q_size q = length (q_array q)"
    using assms(1) lay_internalize(2) [OF assms] by (simp_all add: q_lay_def)
  then have n: "q_place q \<noteq> QNull" by (auto simp: q_array_def)
  let ?xs = "(q_array q)[phys q i := v]"
  have "rotate (q_head q) ?xs = (xs @ junk)[i := v]"
    using rotate_update [of i "q_array q" "q_head q" v] p assms q_lay_size [OF assms(1)]
    by (simp add: phys_def q_lay_def)
  moreover have "length (q_small (set_array q ?xs)) = SMALL_QUEUE_SIZE"
    "q_place q = QHeap \<Longrightarrow> q_heap (set_array q ?xs) \<noteq> []"
    "q_place q \<noteq> QSmall \<Longrightarrow> q_small (set_array q ?xs) = q_small q"
    using assms(1) p n by (cases "q_place q"; auto simp: q_lay_def set_array_def q_array_def)+
  ultimately show thesis
    using that [of "set_array q ?xs"] p n by (simp add: q_wr_def)
qed

lemma lay_put:
  assumes "q_lay q xs junk" "i < length xs"
  obtains q' where "q_wr q (phys q i) v = Ok q'" "q_lay q' (xs[i := v]) junk" "q_size q' = q_size q"
    "q_spare d q \<Longrightarrow> q_spare d q'" "q_head q' = q_head q" "q_tail q' = q_tail q" "q_place q' = q_place q"
proof -
  have "i < length xs + length junk" using assms(2) by simp
  from lay_write [OF assms(1) this, of v] obtain q' where
    *: "q_wr q (phys q i) v = Ok q'" "rotate (q_head q) (q_array q') = (xs @ junk)[i := v]"
    "length (q_array q') = q_size q" "length (q_small q') = SMALL_QUEUE_SIZE"
    "q_place q' = QHeap \<Longrightarrow> q_heap q' \<noteq> []" "q_place q' = q_place q" "q_size q' = q_size q"
    "q_count q' = q_count q" "q_head q' = q_head q" "q_tail q' = q_tail q"
    "q_place q \<noteq> QSmall \<Longrightarrow> q_small q' = q_small q" by metis
  have "q_lay q' (xs[i := v]) junk"
    using assms * by (auto simp: q_lay_def list_update_append)
  then show thesis using that * by (simp add: q_spare_def)
qed

subsection \<open>Access by index\<close>

lemma get_unchecked [queue_ops]:
  "q_lay q xs junk \<Longrightarrow> i < length xs \<Longrightarrow> GetItemAtUnchecked q i = Ok (xs ! i)"
  by (simp add: GetItemAtUnchecked_def lay_internalize lay_read nth_append)

lemma q_at_lay [queue_ops]: "q_lay q xs junk \<Longrightarrow> i < length xs \<Longrightarrow> q_at q i = Ok (xs ! i)"
  by (simp add: q_at_def get_unchecked) (simp add: q_lay_def)

lemma count_lay [queue_ops]: "q_lay q xs junk \<Longrightarrow> q_count q = length xs"
  by (simp add: q_lay_def)

lemma GetItemAt_lay [queue_ops]:
  "q_lay q xs junk \<Longrightarrow> GetItemAt q i = Ok (if i < length xs then Some (xs ! i) else None)"
  by (simp add: GetItemAt_def get_unchecked count_lay)

lemma Head_Tail_lay [queue_ops]:
  assumes "q_lay q xs junk" "xs \<noteq> []"
  shows "q_Head q = Ok (hd xs)" "q_Tail q = Ok (last xs)"
proof -
  have "length xs < 2 ^ 32" using assms q_lay_size [OF assms(1)] by (simp add: q_lay_def)
  moreover from assms(2) have "1 \<le> length xs" by (cases xs) simp_all
  ultimately have "sub32 (q_count q) 1 = length xs - 1" using count_lay [OF assms(1)] by simp
  then show "q_Head q = Ok (hd xs)" "q_Tail q = Ok (last xs)"
    using assms by (simp_all add: q_Head_def q_Tail_def hd_conv_nth last_conv_nth get_unchecked)
qed

lemma q_at_put_lay:
  assumes "q_lay q xs junk" "i < length xs"
  obtains q' where "q_at_put q i v = Ok q'" "q_lay q' (xs[i := v]) junk" "q_size q' = q_size q"
    "q_spare d q \<Longrightarrow> q_spare d q'" "q_head q' = q_head q" "q_tail q' = q_tail q" "q_place q' = q_place q"
proof -
  obtain q' where "q_wr q (phys q i) v = Ok q'" "q_lay q' (xs[i := v]) junk" "q_size q' = q_size q"
    "q_spare d q \<Longrightarrow> q_spare d q'" "q_head q' = q_head q" "q_tail q' = q_tail q" "q_place q' = q_place q"
    using lay_put [OF assms, of v d] by metis
  then show thesis using that assms lay_internalize(1) [OF assms(1), of i]
    by (simp add: q_at_put_def count_lay)
qed

lemma ReplaceItemAt_lay:
  assumes "q_lay q xs junk" "i < length xs"
  obtains q' where "ReplaceItemAt q i v = Ok (B_NO_ERROR, q')" "q_lay q' (xs[i := v]) junk" "q_size q' = q_size q"
    "q_spare d q \<Longrightarrow> q_spare d q'" "q_head q' = q_head q" "q_tail q' = q_tail q" "q_place q' = q_place q"
proof -
  obtain q' where "q_wr q (phys q i) v = Ok q'" "q_lay q' (xs[i := v]) junk" "q_size q' = q_size q"
    "q_spare d q \<Longrightarrow> q_spare d q'" "q_head q' = q_head q" "q_tail q' = q_tail q" "q_place q' = q_place q"
    using lay_put [OF assms, of v d] by metis
  then show thesis using that assms lay_internalize(1) [OF assms(1), of i]
    by (simp add: ReplaceItemAt_def count_lay)
qed

lemma Swap_lay:
  assumes "q_lay q xs junk" "i < length xs" "j < length xs"
  obtains q' where "Swap q i j = Ok q'" "q_lay q' (xs[i := xs ! j, j := xs ! i]) junk" "q_size q' = q_size q"
    "q_spare d q \<Longrightarrow> q_spare d q'"
proof -
  obtain q1 where 1: "q_at_put q i (xs ! j) = Ok q1" "q_lay q1 (xs[i := xs ! j]) junk" "q_size q1 = q_size q"
    "q_spare d q \<Longrightarrow> q_spare d q1"
    using q_at_put_lay [OF assms(1,2), of "xs ! j" d] by metis
  obtain q2 where "q_at_put q1 j (xs ! i) = Ok q2" "q_lay q2 (xs[i := xs ! j, j := xs ! i]) junk"
    "q_size q2 = q_size q1" "q_spare d q1 \<Longrightarrow> q_spare d q2"
    using q_at_put_lay [OF 1(2), of j "xs ! i" d] assms(3) by (metis length_list_update)
  then show thesis using that 1 assms by (simp add: Swap_def q_at_lay)
qed

end
