(* ===== verification/Queue_Ends.thy ===== *)
theory Queue_Ends
  imports Queue_Layout
begin

section \<open>Queue: adding and removing at the ends\<close>

text \<open>
  What the operations at the two ends, the reallocation of the array and the clearing operations
  do to the layout of theory \<open>Queue_Layout\<close>.
\<close>

subsection \<open>Moving the indices\<close>

lemma Next_mod: "0 < q_size q \<Longrightarrow> q_size q < 2 ^ 31 \<Longrightarrow> i < q_size q \<Longrightarrow> NextIndex q i = (i + 1) mod q_size q"
  by (auto simp: NextIndex_def mod_if)

lemma Prev_mod: "q_size q < 2 ^ 31 \<Longrightarrow> i < q_size q \<Longrightarrow> PrevIndex q i = (i + (q_size q - 1)) mod q_size q"
  by (auto simp: PrevIndex_def mod_if)

lemma q_wr_upd [simp]:
  "q_wr (q\<lparr>q_count := a\<rparr>) p v = obind (q_wr q p v) (\<lambda>q. Ok (q\<lparr>q_count := a\<rparr>))"
  "q_wr (q\<lparr>q_head := b\<rparr>) p v = obind (q_wr q p v) (\<lambda>q. Ok (q\<lparr>q_head := b\<rparr>))"
  "q_wr (q\<lparr>q_tail := c\<rparr>) p v = obind (q_wr q p v) (\<lambda>q. Ok (q\<lparr>q_tail := c\<rparr>))"
  by (cases "q_place q"; auto simp: q_wr_def wr_def set_array_def)+

lemma q_spare_upd [simp]:
  "q_spare d (q\<lparr>q_count := a\<rparr>) = q_spare d q" "q_spare d (q\<lparr>q_head := b\<rparr>) = q_spare d q"
  "q_spare d (q\<lparr>q_tail := c\<rparr>) = q_spare d q"
  by (simp_all add: q_spare_def)

lemma rotate_next: "rotate ((h + 1) mod length xs) xs = rotate1 (rotate h xs)"
  using rotate_conv_mod [of "h + 1" xs] by simp

lemma rotate_prev: "rotate ((h + (length xs - 1)) mod length xs) xs = rotate (length xs - 1) (rotate h xs)"
  using rotate_conv_mod [of "h + (length xs - 1)" xs] by (simp add: rotate_rotate add.commute)

lemma rotate_last: "xs \<noteq> [] \<Longrightarrow> rotate (length xs - 1) xs = last xs # butlast xs"
  using rotate_append [of "butlast xs" "[last xs]"] by simp

lemma mod_pred: "0 < a \<Longrightarrow> 0 < n \<Longrightarrow> (a mod n + (n - 1)) mod n = (a - 1) mod (n :: nat)"
proof -
  assume "0 < a" "0 < n"
  then have "a + (n - 1) = (a - 1) + n" by simp
  then show ?thesis by (metis mod_add_left_eq mod_add_self2)
qed

subsection \<open>Removing\<close>

lemma RemoveHead_lay:
  assumes "q_lay q (x # xs) junk"
  obtains q' where "RemoveHead d q = Ok (B_NO_ERROR, q')" "q_lay q' xs (junk @ [d])" "q_size q' = q_size q"
    "q_spare d q \<Longrightarrow> q_spare d q'"
proof -
  have s: "q_size q = Suc (length xs + length junk)" using q_lay_size [OF assms] by simp
  then have h: "q_head q < q_size q" "q_size q < 2 ^ 31" "0 < q_size q"
    using assms by (auto simp: q_lay_def)
  then have p: "phys q 0 = q_head q" by (simp add: phys_def)
  obtain q1 where w: "q_wr q (q_head q) d = Ok q1"
    "rotate (q_head q) (q_array q1) = d # xs @ junk" "length (q_array q1) = q_size q"
    "length (q_small q1) = SMALL_QUEUE_SIZE" "q_place q1 = QHeap \<Longrightarrow> q_heap q1 \<noteq> []"
    "q_place q1 = q_place q" "q_size q1 = q_size q" "q_head q1 = q_head q"
    "q_tail q1 = q_tail q" "q_place q \<noteq> QSmall \<Longrightarrow> q_small q1 = q_small q"
    using lay_write [OF assms, of 0 d] p by auto
  let ?q = "q1\<lparr>q_head := NextIndex q (q_head q), q_count := q_count q - 1\<rparr>"
  have n: "NextIndex q (q_head q) = (q_head q + 1) mod q_size q" using h by (simp add: Next_mod)
  have "rotate ((q_head q + 1) mod q_size q) (q_array q1) = xs @ junk @ [d]"
    using rotate_next [of "q_head q" "q_array q1"] w(2,3) by simp
  moreover have "q_tail q = ((q_head q + 1) mod q_size q + (length xs - 1)) mod q_size q" if "xs \<noteq> []"
  proof -
    have "q_head q + 1 + (length xs - 1) = q_head q + length xs" using that by (simp add: Suc_leI)
    moreover have "q_tail q = (q_head q + length xs) mod q_size q" using assms by (simp add: q_lay_def)
    ultimately show ?thesis by (simp only: mod_add_left_eq)
  qed
  ultimately have "q_lay ?q xs (junk @ [d])"
    using w n h assms by (simp add: q_lay_def)
  moreover have "RemoveHead d q = Ok (B_NO_ERROR, ?q)"
    using w(1) assms by (simp add: RemoveHead_def q_lay_def)
  moreover have "q_spare d q \<Longrightarrow> q_spare d ?q" using w by (simp add: q_spare_def)
  ultimately show thesis using that w by simp
qed

lemma RemoveTail_lay:
  assumes "q_lay q (xs @ [x]) junk"
  obtains q' where "RemoveTail d q = Ok (B_NO_ERROR, q')" "q_lay q' xs (d # junk)" "q_size q' = q_size q"
    "q_spare d q \<Longrightarrow> q_spare d q'"
proof -
  have s: "q_size q = Suc (length xs + length junk)" using q_lay_size [OF assms] by simp
  then have h: "q_head q < q_size q" "q_size q < 2 ^ 31" "0 < q_size q"
    using assms by (auto simp: q_lay_def)
  have p: "phys q (length xs) = q_tail q" "q_tail q = (q_head q + length xs) mod q_size q"
    using assms by (simp_all add: phys_def q_lay_def)
  obtain q1 where w: "q_wr q (q_tail q) d = Ok q1"
    "rotate (q_head q) (q_array q1) = xs @ d # junk" "length (q_array q1) = q_size q"
    "length (q_small q1) = SMALL_QUEUE_SIZE" "q_place q1 = QHeap \<Longrightarrow> q_heap q1 \<noteq> []"
    "q_place q1 = q_place q" "q_size q1 = q_size q" "q_head q1 = q_head q"
    "q_tail q1 = q_tail q" "q_place q \<noteq> QSmall \<Longrightarrow> q_small q1 = q_small q"
    using lay_write [OF assms, of "length xs" d] p(1) by auto
  let ?q = "q1\<lparr>q_tail := PrevIndex q (q_tail q), q_count := q_count q - 1\<rparr>"
  have "PrevIndex q (q_tail q) = (q_head q + (length xs - 1)) mod q_size q" if "xs \<noteq> []"
  proof -
    have "q_tail q < q_size q" using p(2) h(3) by simp
    then have "PrevIndex q (q_tail q) = (q_head q + length xs - 1) mod q_size q"
      using h that mod_pred [of "q_head q + length xs" "q_size q"]
      by (simp only: Prev_mod p(2)) simp
    then show ?thesis using that by (simp add: Suc_leI)
  qed
  then have "q_lay ?q xs (d # junk)" using w h assms by (simp add: q_lay_def)
  moreover have "RemoveTail d q = Ok (B_NO_ERROR, ?q)"
    using w(1) assms by (simp add: RemoveTail_def q_lay_def)
  moreover have "q_spare d q \<Longrightarrow> q_spare d ?q" using w by (simp add: q_spare_def)
  ultimately show thesis using that w by simp
qed

lemma Remove_empty [queue_ops]:
  "q_lay q [] junk \<Longrightarrow> RemoveHead d q = Ok (B_ERROR, q)"
  "q_lay q [] junk \<Longrightarrow> RemoveTail d q = Ok (B_ERROR, q)"
  by (simp_all add: RemoveHead_def RemoveTail_def q_lay_def)

subsection \<open>Filling slots\<close>

definition q_frame :: "'a queue \<Rightarrow> 'a queue \<Rightarrow> bool" where
  "q_frame q q' \<longleftrightarrow> q_place q' = q_place q \<and> q_size q' = q_size q \<and> q_count q' = q_count q
     \<and> q_head q' = q_head q \<and> q_tail q' = q_tail q \<and> length (q_array q') = length (q_array q)
     \<and> length (q_small q') = length (q_small q) \<and> (q_place q \<noteq> QSmall \<longrightarrow> q_small q' = q_small q)"

lemma q_frame_refl [simp]: "q_frame q q"
  by (simp add: q_frame_def)

lemma q_frame_trans [trans]: "q_frame q q' \<Longrightarrow> q_frame q' q'' \<Longrightarrow> q_frame q q''"
  by (simp add: q_frame_def)

lemma q_frame_spare: "q_frame q q' \<Longrightarrow> q_spare d q \<Longrightarrow> q_spare d q'"
  by (simp add: q_frame_def q_spare_def)

lemma q_wr_frame:
  assumes "p < length (q_array q)"
  obtains q' where "q_wr q p v = Ok q'" "q_frame q q'" "q_array q' = (q_array q)[p := v]"
proof -
  have "q_place q \<noteq> QNull" using assms by (auto simp: q_array_def)
  then have "q_frame q (set_array q ((q_array q)[p := v]))"
    by (cases "q_place q") (auto simp: q_frame_def set_array_def q_array_def)
  with assms \<open>q_place q \<noteq> QNull\<close> that [of "set_array q ((q_array q)[p := v])"] show thesis
    by (simp add: q_wr_def)
qed

lemma fill_slots:
  assumes "p + n \<le> length (q_array q)"
  shows "\<exists>q'. for_up 0 n (\<lambda>j q. q_wr q (p + j) d) q = Ok q' \<and> q_frame q q'
    \<and> (\<forall>x < length (q_array q). q_array q' ! x = (if p \<le> x \<and> x < p + n then d else q_array q ! x))"
proof (rule for_up_induct [where P = "\<lambda>j s. q_frame q s
    \<and> (\<forall>x < length (q_array q). q_array s ! x = (if p \<le> x \<and> x < p + j then d else q_array q ! x))"])
  fix j s
  assume *: "j < n" "q_frame q s
    \<and> (\<forall>x < length (q_array q). q_array s ! x = (if p \<le> x \<and> x < p + j then d else q_array q ! x))"
  then have "p + j < length (q_array s)" using assms by (simp add: q_frame_def)
  then obtain s' where "q_wr s (p + j) d = Ok s'" "q_frame s s'" "q_array s' = (q_array s)[p + j := d]"
    using q_wr_frame by metis
  moreover have "q_array s' ! x = (if p \<le> x \<and> x < p + Suc j then d else q_array q ! x)"
    if "x < length (q_array q)" for x
    using * that calculation(3) by (cases "x = p + j") (auto simp: q_frame_def)
  ultimately show "\<exists>s'. q_wr s (p + j) d = Ok s' \<and> q_frame q s'
      \<and> (\<forall>x < length (q_array q). q_array s' ! x = (if p \<le> x \<and> x < p + Suc j then d else q_array q ! x))"
    using * q_frame_trans by blast
qed auto

subsection \<open>Clearing\<close>

lemma lay_index:
  assumes "q_lay q xs junk" "p < q_size q"
  obtains i where "i < length xs + length junk" "p = phys q i" "q_array q ! p = (xs @ junk) ! i"
proof -
  have s: "q_size q = length xs + length junk" "q_head q < q_size q" "q_size q = length (q_array q)"
    "rotate (q_head q) (q_array q) = xs @ junk"
    using assms q_lay_size [OF assms(1)] by (auto simp: q_lay_def)
  define i where "i = (if q_head q \<le> p then p - q_head q else p + q_size q - q_head q)"
  have i: "i < q_size q" "p = phys q i"
    using s(2) assms(2) by (auto simp: i_def phys_def)
  then have "q_array q ! p = rotate (q_head q) (q_array q) ! i"
    using s(3) by (simp add: nth_rotate phys_def)
  then show thesis using that [of i] i s by simp
qed

text \<open>The items lie in the two parts that \<^verbatim>\<open>GetArrayPointerAux\<close> gives.\<close>

lemma array_parts:
  assumes "q_lay q xs junk" "i < length xs" "phys q i = p"
  shows "q_head q \<le> q_tail q \<and> q_head q \<le> p \<and> p \<le> q_tail q
    \<or> q_tail q < q_head q \<and> (q_head q \<le> p \<or> p \<le> q_tail q)"
proof -
  have s: "q_size q = length xs + length junk" "q_head q < q_size q"
    "q_tail q = (q_head q + (length xs - 1)) mod q_size q"
    using assms q_lay_size [OF assms(1)] by (auto simp: q_lay_def)
  have m: "a mod n = (if a < n then a else a - n)" if "a < n + n" for a n :: nat
    using that by (simp add: mod_if)
  have "q_tail q = (if q_head q + (length xs - 1) < q_size q then q_head q + (length xs - 1)
      else q_head q + (length xs - 1) - q_size q)"
    unfolding s(3) by (rule m) (use s(1,2) assms(2) in linarith)
  moreover have "p = (if q_head q + i < q_size q then q_head q + i else q_head q + i - q_size q)"
    unfolding assms(3) [symmetric] phys_def by (rule m) (use s(1,2) assms(2) in linarith)
  ultimately show ?thesis using s(1,2) assms(2) by (auto split: if_splits)
qed

lemma lay_tail:
  assumes "q_lay q xs junk" "xs \<noteq> []"
  shows "q_tail q < q_size q \<and> q_head q < q_size q \<and> q_size q < 2 ^ 31"
proof -
  have "0 < q_size q" using assms q_lay_size [OF assms(1)] by simp
  then show ?thesis using assms by (simp add: q_lay_def)
qed

lemma Clear_lay:
  assumes "q_lay q xs junk"
  obtains q' junk' where "Clear d False q = Ok q'" "q_lay q' [] junk'" "set junk' \<subseteq> insert d (set junk)"
    "q_size q' = q_size q" "q_spare d q \<Longrightarrow> q_spare d q'"
proof (cases "xs = []")
  case True
  show thesis
    by (rule that [of q junk]) (use True assms in \<open>auto simp: Clear_def count_lay [OF assms]\<close>)
next
  case False
  note t = lay_tail [OF assms False]
  have len: "length (q_array q) = q_size q" using assms by (simp add: q_lay_def)
  let ?P = "\<lambda>(k :: nat) q'. q_frame q q' \<and> (\<forall>x < q_size q. q_array q' ! x = q_array q ! x \<or> q_array q' ! x = d)
    \<and> (\<forall>x < q_size q. (0 < k \<and> q_head q \<le> x \<and> (q_head q \<le> q_tail q \<longrightarrow> x \<le> q_tail q)
          \<or> 1 < k \<and> q_tail q < q_head q \<and> x \<le> q_tail q) \<longrightarrow> q_array q' ! x = d)"
  have "\<exists>q'. for_up 0 2 (clear_part d) q = Ok q' \<and> ?P 2 q'"
  proof (rule for_up_induct [where P = ?P])
    fix k q1 assume k: "k < (2 :: nat)" and P: "?P k q1"
    have g: "GetArrayPointerAux q1 k = GetArrayPointerAux q k" using P by (simp add: GetArrayPointerAux_def q_frame_def)
    have c: "q_count q > 0" using assms False by (simp add: q_lay_def)
    show "\<exists>q'. clear_part d k q1 = Ok q' \<and> ?P (Suc k) q'"
    proof (cases "GetArrayPointerAux q k")
      case None
      then have "k = 1 \<and> q_head q \<le> q_tail q" using c k by (auto simp: GetArrayPointerAux_def split: if_splits)
      with None g P show ?thesis by (auto simp: clear_part_def)
    next
      case (Some r)
      then obtain p n where pn: "GetArrayPointerAux q k = Some (p, n)" by (cases r) auto
      have r: "k = 0 \<and> p = q_head q \<and> p + n = (if q_head q \<le> q_tail q then Suc (q_tail q) else q_size q)
          \<or> k = 1 \<and> p = 0 \<and> n = Suc (q_tail q) \<and> q_tail q < q_head q"
        using pn c k t by (auto simp: GetArrayPointerAux_def split: if_splits)
      have l1: "length (q_array q1) = q_size q" using P len by (simp add: q_frame_def)
      from r have "p + n \<le> length (q_array q1)" unfolding l1 using t by (auto split: if_splits)
      from fill_slots [OF this] obtain q' where q': "for_up 0 n (\<lambda>j q. q_wr q (p + j) d) q1 = Ok q'" "q_frame q1 q'"
        "\<forall>x < length (q_array q1). q_array q' ! x = (if p \<le> x \<and> x < p + n then d else q_array q1 ! x)"
        by blast
      have P1: "\<forall>x < q_size q. (0 < k \<and> q_head q \<le> x \<and> (q_head q \<le> q_tail q \<longrightarrow> x \<le> q_tail q)
          \<or> 1 < k \<and> q_tail q < q_head q \<and> x \<le> q_tail q) \<longrightarrow> q_array q1 ! x = d" using P by blast
      have old: "\<forall>x < q_size q. q_array q1 ! x = q_array q ! x \<or> q_array q1 ! x = d" using P by blast
      have "?P (Suc k) q'"
      proof (intro conjI)
        show "q_frame q q'" using P q'(2) q_frame_trans by blast
        show "\<forall>x < q_size q. q_array q' ! x = q_array q ! x \<or> q_array q' ! x = d"
          using q'(3) old unfolding l1 by auto
        show "\<forall>x < q_size q. (0 < Suc k \<and> q_head q \<le> x \<and> (q_head q \<le> q_tail q \<longrightarrow> x \<le> q_tail q)
          \<or> 1 < Suc k \<and> q_tail q < q_head q \<and> x \<le> q_tail q) \<longrightarrow> q_array q' ! x = d"
          using q'(3) P1 r unfolding l1 by (auto split: if_splits)
      qed
      with q' pn g show ?thesis by (simp add: clear_part_def)
    qed
  qed simp_all
  then obtain q' where q': "for_up 0 2 (clear_part d) q = Ok q'" "?P 2 q'" by blast
  have d: "q_array q' ! x \<in> insert d (set junk)" if x: "x < q_size q" for x
  proof -
    obtain i where i: "i < length xs + length junk" "x = phys q i" "q_array q ! x = (xs @ junk) ! i"
      using lay_index [OF assms x] .
    show ?thesis
    proof (cases "i < length xs")
      case True
      from array_parts [OF assms True] i(2) x q'(2) show ?thesis by auto
    next
      case False
      with i q'(2) x show ?thesis by (auto simp: nth_append)
    qed
  qed
  have fr: "q_frame q q'" using q'(2) by blast
  then have "q_array q' \<noteq> []" using len t by (auto simp: q_frame_def)
  then have "q_place q' = QHeap \<Longrightarrow> q_heap q' \<noteq> []" by (simp add: q_array_def)
  then have "q_lay (FastClear q') [] (q_array q')"
    using fr assms len t by (auto simp: q_lay_def FastClear_def q_frame_def)
  moreover have "set (q_array q') \<subseteq> insert d (set junk)"
  proof
    fix y assume "y \<in> set (q_array q')"
    then obtain x where "x < length (q_array q')" "y = q_array q' ! x" by (auto simp: in_set_conv_nth)
    moreover have "length (q_array q') = q_size q" using fr len by (simp add: q_frame_def)
    ultimately show "y \<in> insert d (set junk)" using d [of x] by simp
  qed
  moreover have "q_size (FastClear q') = q_size q" using fr by (simp add: FastClear_def q_frame_def)
  moreover have "q_spare d q \<Longrightarrow> q_spare d (FastClear q')"
    using fr q_frame_spare by (simp add: FastClear_def)
  moreover have "Clear d False q = Ok (FastClear q')"
    using q'(1) False assms by (simp add: Clear_def q_lay_def)
  ultimately show thesis by (rule that [rotated])
qed

lemma Clear_release_lay:
  assumes "q_lay q xs junk" "q_place q \<noteq> QSmall"
  shows "q_lay (q\<lparr>q_heap := [], q_place := QNull, q_size := 0, q_count := 0\<rparr>) [] []"
    "Clear d True q = Ok (q\<lparr>q_heap := [], q_place := QNull, q_size := 0, q_count := 0\<rparr>)"
  using assms by (simp_all add: q_lay_def Clear_def q_array_def)

lemma RemoveTailMulti_lay:
  assumes "q_lay q xs junk"
  obtains q' junk' where "RemoveTailMulti d q n = Ok (min n (length xs), q')"
    "q_lay q' (take (length xs - n) xs) junk'" "set junk' \<subseteq> insert d (set junk)"
    "q_size q' = q_size q" "q_spare d q \<Longrightarrow> q_spare d q'"
proof (cases "length xs \<le> n")
  case True
  obtain q' junk' where "Clear d False q = Ok q'" "q_lay q' [] junk'" "set junk' \<subseteq> insert d (set junk)"
    "q_size q' = q_size q" "q_spare d q \<Longrightarrow> q_spare d q'"
    using Clear_lay [OF assms, of d] by metis
  then show thesis using that True by (simp add: RemoveTailMulti_def count_lay [OF assms] min_absorb2)
next
  case False
  let ?P = "\<lambda>k s. (\<exists>junk'. q_lay s (take (length xs - k) xs) junk' \<and> set junk' \<subseteq> insert d (set junk))
    \<and> q_size s = q_size q \<and> (q_spare d q \<longrightarrow> q_spare d s)"
  have "\<exists>s. for_up 0 n (\<lambda>i q. obind (RemoveTail d q) (\<lambda>(st, q). Ok q)) q = Ok s \<and> ?P n s"
  proof (rule for_up_induct [where P = ?P])
    fix k s assume "k < n" "?P k s"
    moreover from this False have "take (length xs - k) xs = take (length xs - Suc k) xs @ [xs ! (length xs - Suc k)]"
      by (simp add: take_Suc_conv_app_nth [symmetric] Suc_diff_Suc)
    ultimately obtain junk' where s: "q_lay s (take (length xs - Suc k) xs @ [xs ! (length xs - Suc k)]) junk'"
      "set junk' \<subseteq> insert d (set junk)" "q_size s = q_size q" "q_spare d q \<longrightarrow> q_spare d s" by auto
    obtain s' where "RemoveTail d s = Ok (B_NO_ERROR, s')" "q_lay s' (take (length xs - Suc k) xs) (d # junk')"
      "q_size s' = q_size s" "q_spare d s \<Longrightarrow> q_spare d s'"
      using RemoveTail_lay [OF s(1), of d] by metis
    with s show "\<exists>s'. obind (RemoveTail d s) (\<lambda>(st, q). Ok q) = Ok s' \<and> ?P (Suc k) s'" by fastforce
  qed (use assms in auto)
  then obtain s where "for_up 0 n (\<lambda>i q. obind (RemoveTail d q) (\<lambda>(st, q). Ok q)) q = Ok s" "?P n s" by blast
  then show thesis using that False by (fastforce simp: RemoveTailMulti_def count_lay [OF assms] min_absorb1 Let_def)
qed

lemma RemoveHeadMulti_lay:
  assumes "q_lay q xs junk"
  obtains q' junk' where "RemoveHeadMulti d q n = Ok (min n (length xs), q')"
    "q_lay q' (drop n xs) junk'" "set junk' \<subseteq> insert d (set junk)"
    "q_size q' = q_size q" "q_spare d q \<Longrightarrow> q_spare d q'"
proof (cases "length xs \<le> n")
  case True
  obtain q' junk' where "Clear d False q = Ok q'" "q_lay q' [] junk'" "set junk' \<subseteq> insert d (set junk)"
    "q_size q' = q_size q" "q_spare d q \<Longrightarrow> q_spare d q'"
    using Clear_lay [OF assms, of d] by metis
  then show thesis using that True by (simp add: RemoveHeadMulti_def count_lay [OF assms] min_absorb2)
next
  case False
  let ?P = "\<lambda>k s. (\<exists>junk'. q_lay s (drop k xs) junk' \<and> set junk' \<subseteq> insert d (set junk))
    \<and> q_size s = q_size q \<and> (q_spare d q \<longrightarrow> q_spare d s)"
  have "\<exists>s. for_up 0 n (\<lambda>i q. obind (RemoveHead d q) (\<lambda>(st, q). Ok q)) q = Ok s \<and> ?P n s"
  proof (rule for_up_induct [where P = ?P])
    fix k s assume "k < n" "?P k s"
    moreover from this False have "drop k xs = xs ! k # drop (Suc k) xs" by (simp add: Cons_nth_drop_Suc)
    ultimately obtain junk' where s: "q_lay s (xs ! k # drop (Suc k) xs) junk'"
      "set junk' \<subseteq> insert d (set junk)" "q_size s = q_size q" "q_spare d q \<longrightarrow> q_spare d s" by auto
    obtain s' where "RemoveHead d s = Ok (B_NO_ERROR, s')" "q_lay s' (drop (Suc k) xs) (junk' @ [d])"
      "q_size s' = q_size s" "q_spare d s \<Longrightarrow> q_spare d s'"
      using RemoveHead_lay [OF s(1), of d] by metis
    with s show "\<exists>s'. obind (RemoveHead d s) (\<lambda>(st, q). Ok q) = Ok s' \<and> ?P (Suc k) s'" by fastforce
  qed (use assms in auto)
  then obtain s where "for_up 0 n (\<lambda>i q. obind (RemoveHead d q) (\<lambda>(st, q). Ok q)) q = Ok s" "?P n s" by blast
  then show thesis using that False by (fastforce simp: RemoveHeadMulti_def count_lay [OF assms] min_absorb1 Let_def)
qed

end
