(* ===== verification/Queue_Grow.thy ===== *)
theory Queue_Grow
  imports Queue_Ends
begin

section \<open>Queue: reallocation and adding\<close>

text \<open>
  \<^verbatim>\<open>EnsureSizeAux\<close> moves the items to a larger array, or fails and leaves the queue as it was; the
  operations that add build on it.  The sizes are in the range in which the code's 32-bit sums are
  exact; the number of slots after a reallocation is given.
\<close>

subsection \<open>One more item\<close>

lemma open_tail_lay:
  assumes "q_lay q xs junk" "junk \<noteq> []"
  obtains j junk' where "q_lay (open_tail q) (xs @ [j]) junk'" "set (j # junk') = set junk"
    "q_size (open_tail q) = q_size q" "q_spare d (open_tail q) = q_spare d q"
    "q_tail (open_tail q) = phys (open_tail q) (length xs)"
    "q_array (open_tail q) = q_array q" "q_small (open_tail q) = q_small q" "q_heap (open_tail q) = q_heap q"
proof -
  have s: "q_size q = length xs + length junk" "q_size q < 2 ^ 31" "q_head q < q_size q"
    "q_size q = length (q_array q)" "rotate (q_head q) (q_array q) = xs @ junk" "q_count q = length xs"
    using assms q_lay_size [OF assms(1)] by (auto simp: q_lay_def)
  have c: "add32 (q_count q) 1 = Suc (length xs)" using s(1,2,6) by (subst add32_small) simp_all
  show thesis
  proof (cases "xs = []")
    case True
    then obtain j junk' where a: "q_array q = j # junk'"
      using s(1,4) assms(2) by (cases "q_array q") auto
    have "set (j # junk') = set junk" using s(5) True a by (metis append_Nil set_rotate)
    moreover have "open_tail q = q\<lparr>q_head := 0, q_tail := 0, q_count := Suc 0\<rparr>"
      using c True s(6) by (simp add: open_tail_def)
    ultimately show thesis using that [of j junk'] True a assms(1)
      by (auto simp: q_lay_def phys_def)
  next
    case False
    then obtain j junk' where junk: "junk = j # junk'" using assms(2) by (cases junk) auto
    have t: "q_tail q = (q_head q + (length xs - 1)) mod q_size q" "q_tail q < q_size q"
      using assms(1) False lay_tail [OF assms(1) False] by (simp_all add: q_lay_def)
    have "NextIndex q (q_tail q) = (q_tail q + 1) mod q_size q"
      by (rule Next_mod) (use s t(2) in linarith)+
    also have "\<dots> = (q_head q + (length xs - 1) + 1) mod q_size q" by (simp only: t(1) mod_add_left_eq)
    finally have "NextIndex q (q_tail q) = (q_head q + (length xs - 1) + 1) mod q_size q" .
    then have n: "NextIndex q (q_tail q) = (q_head q + length xs) mod q_size q" using False by (simp add: Suc_leI)
    have "open_tail q = q\<lparr>q_tail := (q_head q + length xs) mod q_size q, q_count := Suc (length xs)\<rparr>"
      using c n False s(6) by (simp add: open_tail_def)
    then show thesis using that [of j junk'] junk assms(1) s
      by (auto simp: q_lay_def phys_def)
  qed
qed

lemma open_head_lay:
  assumes "q_lay q xs junk" "junk \<noteq> []"
  obtains j junk' where "q_lay (open_head q) (j # xs) junk'" "set (j # junk') = set junk"
    "q_size (open_head q) = q_size q" "q_spare d (open_head q) = q_spare d q"
    "q_head (open_head q) = phys (open_head q) 0"
proof -
  have s: "q_size q = length xs + length junk" "q_size q < 2 ^ 31" "q_head q < q_size q"
    "q_size q = length (q_array q)" "rotate (q_head q) (q_array q) = xs @ junk" "q_count q = length xs"
    using assms q_lay_size [OF assms(1)] by (auto simp: q_lay_def)
  have c: "add32 (q_count q) 1 = Suc (length xs)" using s(1,2,6) by (subst add32_small) simp_all
  show thesis
  proof (cases "xs = []")
    case True
    then obtain j junk' where a: "q_array q = j # junk'"
      using s(1,4) assms(2) by (cases "q_array q") auto
    have "set (j # junk') = set junk" using s(5) True a by (metis append_Nil set_rotate)
    moreover have "open_head q = q\<lparr>q_head := 0, q_tail := 0, q_count := Suc 0\<rparr>"
      using c True s(6) by (simp add: open_head_def)
    ultimately show thesis using that [of j junk'] True a assms(1)
      by (auto simp: q_lay_def phys_def)
  next
    case False
    obtain j junk' where junk: "junk = junk' @ [j]" using assms(2) by (cases junk rule: rev_cases) auto
    define h where "h = (q_head q + (q_size q - 1)) mod q_size q"
    have p: "PrevIndex q (q_head q) = h" unfolding h_def using s(2,3) by (rule Prev_mod)
    have "rotate h (q_array q) = rotate (length (q_array q) - 1) (xs @ junk)"
      using rotate_prev [of "q_head q" "q_array q"] s(4,5) by (simp add: h_def)
    also have "\<dots> = j # xs @ junk'"
      using rotate_last [of "xs @ junk"] s(1,4) junk by (simp add: butlast_append)
    finally have r: "rotate h (q_array q) = j # xs @ junk'" .
    have "q_head q + (q_size q - 1) + length xs = q_head q + (length xs - 1) + q_size q"
      using False s(3) by (cases xs) auto
    then have "(h + length xs) mod q_size q = (q_head q + (length xs - 1)) mod q_size q"
      unfolding h_def by (metis mod_add_left_eq mod_add_self2)
    then have t: "q_tail q = (h + length xs) mod q_size q" using assms(1) False by (simp add: q_lay_def)
    have "h < q_size q" unfolding h_def by (rule mod_less_divisor) (use s(3) in linarith)
    moreover have "open_head q = q\<lparr>q_head := h, q_count := Suc (length xs)\<rparr>"
      using c p False s(6) by (simp add: open_head_def)
    ultimately show thesis using that [of j junk'] junk assms(1) s t r
      by (auto simp: q_lay_def phys_def)
  qed
qed

subsection \<open>Reallocation\<close>

lemma copy_loop:
  assumes "q_lay q xs junk" "length xs \<le> N"
  shows "for_up 0 (length xs) (\<lambda>i new. obind (GetItemAtUnchecked q i) (wr new i)) (replicate N d)
    = Ok (xs @ replicate (N - length xs) d)"
proof -
  have "\<exists>s. for_up 0 (length xs) (\<lambda>i new. obind (GetItemAtUnchecked q i) (wr new i)) (replicate N d) = Ok s
    \<and> s = take (length xs) xs @ replicate (N - length xs) d"
  proof (rule for_up_induct [where P = "\<lambda>i s. s = take i xs @ replicate (N - i) d"])
    fix i s assume i: "i < length xs" "s = take i xs @ replicate (N - i) d"
    then have "replicate (N - i) d = d # replicate (N - Suc i) d"
      using assms(2) by (metis Suc_diff_Suc less_le_trans replicate_Suc)
    with i assms show "\<exists>s'. obind (GetItemAtUnchecked q i) (wr s i) = Ok s' \<and> s' = take (Suc i) xs @ replicate (N - Suc i) d"
      by (simp add: get_unchecked list_update_append take_Suc_conv_app_nth)
  qed simp_all
  then show ?thesis by simp
qed

lemma set_replicate_sub [simp]: "set (replicate n d) \<subseteq> {d}"
  by (cases n) auto

lemma new_slots_eq: "slots + extra < 2 ^ 31 \<Longrightarrow> new_slots slots b extra = max 3 (slots + extra)"
  by (auto simp: new_slots_def SMALL_QUEUE_SIZE_def Let_def)

lemma q_realloc_lay:
  assumes lay: "q_lay q xs junk" and sp: "q_spare d q"
    and len: "length xs \<le> slots" "slots + extra < 2 ^ 31"
  obtains (failed) "q_realloc am d q slots b extra = Ok (B_ERROR, q, None)" "\<not> am (max 3 (slots + extra))"
  | (moved) q' junk' old where
      "q_realloc am d q slots b extra = Ok (B_NO_ERROR, q', old)"
      "q_lay q' (if b then xs @ replicate (slots - length xs) d else xs) junk'" "set junk' \<subseteq> {d}"
      "q_size q' = max 3 (slots + extra)" "q_spare d q'"
      "old = (if q_place q = QHeap then Some (q_heap q) else None)"
      "q_place q = QSmall \<Longrightarrow> q_small q' = replicate 3 d" "q_place q' \<noteq> QNull"
proof -
  let ?N = "max 3 (slots + extra)"
  let ?onHeap = "q_place q = QSmall \<or> ?N > SMALL_QUEUE_SIZE"
  have N: "new_slots slots b extra = ?N" using len(2) by (rule new_slots_eq)
  let ?new = "xs @ replicate (?N - length xs) d"
  have start: "(if ?onHeap then replicate ?N d else q_small q) = replicate ?N d"
  proof (cases ?onHeap)
    case False
    then have "q_small q = replicate SMALL_QUEUE_SIZE d" "?N = SMALL_QUEUE_SIZE"
      using sp by (auto simp: q_spare_def SMALL_QUEUE_SIZE_def)
    with False show ?thesis by simp
  qed simp
  have cp: "(if q_size q > 0
               then for_up 0 (q_count q) (\<lambda>i new. obind (GetItemAtUnchecked q i) (wr new i)) (replicate ?N d)
               else Ok (replicate ?N d)) = Ok ?new"
    using copy_loop [OF lay, of ?N d] len(1) q_lay_size [OF lay] count_lay [OF lay] by auto
  show thesis
  proof (cases "?onHeap \<and> \<not> am ?N")
    case True
    then show thesis using failed by (simp add: q_realloc_def N Let_def)
  next
    case ok: False
    let ?xs = "if b then xs @ replicate (slots - length xs) d else xs"
    let ?q1 = "(if b then q\<lparr>q_count := slots\<rparr> else q)"
    let ?q2 = "?q1\<lparr>q_head := 0, q_tail := sub32 (q_count ?q1) 1\<rparr>"
    let ?q3 = "if q_place q = QSmall then ?q2\<lparr>q_small := replicate SMALL_QUEUE_SIZE d\<rparr> else ?q2"
    let ?q4 = "(if ?onHeap then ?q3\<lparr>q_heap := ?new, q_place := QHeap\<rparr>
        else ?q3\<lparr>q_small := ?new, q_heap := [], q_place := QSmall\<rparr>)\<lparr>q_size := ?N\<rparr>"
    have N': "(if ?onHeap then ?N else SMALL_QUEUE_SIZE) = ?N" by (auto simp: SMALL_QUEUE_SIZE_def)
    have run: "q_realloc am d q slots b extra =
        Ok (B_NO_ERROR, ?q4, if q_place q = QHeap then Some (q_heap q) else None)"
      unfolding q_realloc_def N Let_def if_not_P [OF ok] N' start cp obind_simps
      by (simp split del: if_split) simp
    have l: "length ?new = ?N" using len(1) by simp
    have cnt: "q_count ?q1 = length ?xs" using len(1) count_lay [OF lay] by simp
    have tl: "?xs \<noteq> [] \<Longrightarrow> sub32 (q_count ?q1) 1 = length ?xs - 1"
      unfolding cnt using len by (subst sub32_small) (auto simp: Suc_le_eq)
    let ?junk = "replicate (?N - length ?xs) d"
    have arr: "q_array ?q4 = ?new" by (simp add: q_array_def)
    have split: "?new = ?xs @ ?junk" using len(1) by (auto simp: replicate_add [symmetric])
    have "q_lay ?q4 ?xs ?junk"
      unfolding q_lay_def arr
    proof (intro conjI impI)
      show "length (q_small ?q4) = SMALL_QUEUE_SIZE"
        using lay l by (auto simp: q_lay_def SMALL_QUEUE_SIZE_def)
      show "q_heap ?q4 \<noteq> []" if "q_place ?q4 = QHeap"
        using that l by (auto split: if_splits)
      show "q_size ?q4 = length ?new" using l by simp
      show "q_size ?q4 < 2 ^ 31" using len by simp
      show "q_count ?q4 = length ?xs" using len(1) count_lay [OF lay] by simp
      show "rotate (q_head ?q4) ?new = ?xs @ ?junk" using split by simp
      show "q_head ?q4 < q_size ?q4" if "q_size ?q4 \<noteq> 0" by (simp add: less_max_iff_disj)
      show "q_tail ?q4 = (q_head ?q4 + (length ?xs - 1)) mod q_size ?q4" if "?xs \<noteq> []"
      proof -
        have "length ?xs - 1 < ?N" using that len by (auto simp: less_max_iff_disj)
        then show ?thesis using tl [OF that] by simp
      qed
    qed
    moreover have "q_spare d ?q4" using sp by (simp add: q_spare_def)
    moreover have "q_place q = QSmall \<Longrightarrow> q_small ?q4 = replicate 3 d" "q_place ?q4 \<noteq> QNull" "q_size ?q4 = ?N"
      by (simp_all add: SMALL_QUEUE_SIZE_def)
    ultimately show thesis using set_replicate_sub refl by (intro moved [OF run])
  qed
qed

subsection \<open>Ensuring room\<close>

text \<open>The value that a reference argument has after the reallocation.\<close>

definition arg_value :: "'a \<Rightarrow> 'a queue \<Rightarrow> nat \<Rightarrow> 'a arg \<Rightarrow> 'a" where
  "arg_value d q slots item = (case item of
     Val v \<Rightarrow> v
   | Slot p \<Rightarrow> if q_place q = QSmall \<and> q_size q < slots then d else q_array q ! p)"

definition arg_ok :: "'a queue \<Rightarrow> 'a arg \<Rightarrow> bool" where
  "arg_ok q item = (case item of Val v \<Rightarrow> True | Slot p \<Rightarrow> p < length (q_array q))"

lemma arg_Val [simp]: "arg_value d q n (Val v) = v" "arg_ok q (Val v)"
  by (simp_all add: arg_value_def arg_ok_def)

lemma deref_open [simp]:
  "deref w old (open_tail q) item = deref w old q item" "deref w old (open_head q) item = deref w old q item"
  by (auto simp: deref_def open_tail_def open_head_def Let_def split: arg.split place.split option.split)

lemma EnsureSizeAux_room:
  assumes lay: "q_lay q xs junk" and sp: "q_spare d q"
    and len: "length xs \<le> slots" "slots + extra < 2 ^ 31"
  obtains (failed) "EnsureSizeAux am d q slots False extra False = Ok (B_ERROR, q, None)"
      "\<not> am (max 3 (slots + extra))"
  | (room) q' junk' old where
      "EnsureSizeAux am d q slots False extra False = Ok (B_NO_ERROR, q', old)"
      "q_lay q' xs junk'" "set junk' \<subseteq> insert d (set junk)" "slots \<le> q_size q'" "q_spare d q'"
      "\<And>item. arg_ok q item \<Longrightarrow> deref (q_place q) old q' item = Ok (arg_value d q slots item)"
      "q_size q' = (if q_place q \<noteq> QNull \<and> slots \<le> q_size q then q_size q else max 3 (slots + extra))"
proof (cases "q_place q = QNull \<or> q_size q < slots")
  case True
  then have e: "EnsureSizeAux am d q slots False extra False =
      obind (q_realloc am d q slots False extra) (\<lambda>(st, q, oldArray).
        if st = B_ERROR then Ok (B_ERROR, q, oldArray) else Ok (B_NO_ERROR, q, oldArray))"
    by (simp add: EnsureSizeAux_def cong: if_cong)
  show thesis
  proof (cases rule: q_realloc_lay [OF lay sp len, of am False])
    case 1
    then show thesis by (intro failed) (simp_all add: e)
  next
    case (2 q' junk' old)
    have "deref (q_place q) old q' item = Ok (arg_value d q slots item)" if "arg_ok q item" for item
    proof (cases item)
      case (Slot p)
      then have p: "p < length (q_array q)" using that by (simp add: arg_ok_def)
      then have "q_place q \<noteq> QNull" by (auto simp: q_array_def)
      with p lay True 2(6,7) Slot show ?thesis
        by (cases "q_place q") (auto simp: deref_def arg_value_def q_array_def rd_def q_lay_def SMALL_QUEUE_SIZE_def)
    qed (simp add: deref_def)
    with 2 True show thesis by (intro room [of q' old junk']) (auto simp: e)
  qed
next
  case False
  then have "EnsureSizeAux am d q slots False extra False = Ok (B_NO_ERROR, q, None)"
    by (simp add: EnsureSizeAux_def)
  moreover have "deref (q_place q) None q item = Ok (arg_value d q slots item)" if "arg_ok q item" for item
    using that False
    by (cases item; cases "q_place q") (auto simp: deref_def arg_value_def arg_ok_def q_array_def)
  ultimately show thesis using False lay sp by (intro room [of q None junk]) auto
qed

text \<open>With \<^verbatim>\<open>setNumItems\<close>: the queue gets as many items as asked for.\<close>

lemma EnsureSizeAux_set:
  assumes lay: "q_lay q xs junk" and sp: "q_spare d q" and len: "slots < 2 ^ 31"
  obtains (failed) "EnsureSizeAux am d q slots True 0 False = Ok (B_ERROR, q, None)" "\<not> am (max 3 slots)"
  | (sized) q' ys junk' old where
      "EnsureSizeAux am d q slots True 0 False = Ok (B_NO_ERROR, q', old)"
      "q_lay q' (take slots xs @ ys) junk'" "length ys = slots - length xs"
      "set ys \<subseteq> insert d (set junk)" "set junk' \<subseteq> insert d (set junk)" "q_spare d q'"
      "q_size q' = (if q_place q \<noteq> QNull \<and> slots \<le> q_size q then q_size q else max 3 slots)"
      "q_size q < slots \<Longrightarrow> set ys \<subseteq> {d}"
proof -
  have small: "RemoveTailMulti d q' 0 = Ok (0, q')" if "q_lay q' zs junk'" for q' zs junk'
  proof (cases "zs = []")
    case True
    with that show ?thesis by (simp add: RemoveTailMulti_def Clear_def count_lay [OF that])
  next
    case False
    with that show ?thesis by (simp add: RemoveTailMulti_def count_lay [OF that])
  qed
  show thesis
  proof (cases "q_place q = QNull \<or> q_size q < slots")
    case True
    then have c: "length xs \<le> slots" using lay q_lay_size [OF lay] by (auto simp: q_lay_def q_array_def)
    have l0: "slots + 0 < 2 ^ 31" using len by simp
    show thesis
    proof (cases rule: q_realloc_lay [OF lay sp c l0, of am True])
      case 1
      then show thesis using True by (intro failed) (simp_all add: EnsureSizeAux_def)
    next
      case (2 q' junk' old)
      have "EnsureSizeAux am d q slots True 0 False = Ok (B_NO_ERROR, q', old)"
        using True 2(1) count_lay [OF 2(2)] c small [OF 2(2)] by (auto simp: EnsureSizeAux_def)
      with 2 True c show thesis
        by (intro sized [of q' old "replicate (slots - length xs) d" junk']) auto
    qed
  next
    case False
    then have sz: "slots \<le> q_size q" "q_place q \<noteq> QNull" by auto
    show thesis
    proof (cases "slots > length xs")
      case True
      have s: "q_size q = length xs + length junk" "q_size q < 2 ^ 31" "q_head q < q_size q"
        using lay True sz q_lay_size [OF lay] by (auto simp: q_lay_def)
      let ?t = "(q_head q + slots) mod q_size q"
      have "?t < q_size q" by (rule mod_less_divisor) (use s in linarith)
      then have "PrevIndex q ?t = (?t + (q_size q - 1)) mod q_size q" using s by (intro Prev_mod)
      also have "\<dots> = (q_head q + slots - 1) mod q_size q" using s True by (intro mod_pred) auto
      finally have p: "PrevIndex q ?t = (q_head q + (slots - 1)) mod q_size q" using True by simp
      let ?q = "q\<lparr>q_tail := PrevIndex q ?t, q_count := slots\<rparr>"
      have "add32 (q_head q) slots = q_head q + slots" using s sz by (intro add32_small) simp
      then have run: "EnsureSizeAux am d q slots True 0 False = Ok (B_NO_ERROR, ?q, None)"
        using False True s count_lay [OF lay] by (auto simp: EnsureSizeAux_def)
      have k: "slots - length xs \<le> length junk" using s sz by linarith
      have "q_lay ?q (xs @ take (slots - length xs) junk) (drop (slots - length xs) junk)"
        using lay p k True by (auto simp: q_lay_def min_absorb2)
      then have "q_lay ?q (take slots xs @ take (slots - length xs) junk) (drop (slots - length xs) junk)"
        using True by simp
      then show thesis
        using k sz sp by (intro sized [OF run]) (auto dest: in_set_takeD in_set_dropD)
    next
      case 2: False
      obtain q' junk' where r: "RemoveTailMulti d q (length xs - slots) = Ok (min (length xs - slots) (length xs), q')"
        "q_lay q' (take (length xs - (length xs - slots)) xs) junk'" "set junk' \<subseteq> insert d (set junk)"
        "q_size q' = q_size q" "q_spare d q \<Longrightarrow> q_spare d q'"
        using RemoveTailMulti_lay [OF lay, of d "length xs - slots"] by metis
      have run: "EnsureSizeAux am d q slots True 0 False = Ok (B_NO_ERROR, q', None)"
        using False 2 r(1) count_lay [OF lay] by (auto simp: EnsureSizeAux_def)
      show thesis using r 2 sz sp by (intro sized [OF run, of "[]" junk']) auto
    qed
  qed
qed

subsection \<open>Adding at the ends\<close>

lemma AddTail_lay:
  assumes lay: "q_lay q xs junk" and sp: "q_spare d q" and len: "length xs + 1 < 2 ^ 30"
    and arg: "arg_ok q item"
  obtains (failed) "AddTail am d q item = Ok (B_ERROR, q)" "\<not> am (max 3 (2 * (length xs + 1)))"
  | (added) q' junk' where "AddTail am d q item = Ok (B_NO_ERROR, q')"
      "q_lay q' (xs @ [arg_value d q (length xs + 1) item]) junk'" "set junk' \<subseteq> insert d (set junk)" "q_spare d q'"
      "q_size q' = (if q_place q \<noteq> QNull \<and> length xs + 1 \<le> q_size q then q_size q else max 3 (2 * (length xs + 1)))"
proof -
  have n: "add32 (q_count q) 1 = length xs + 1" using len count_lay [OF lay] by (subst add32_small) simp_all
  have two: "length xs + 1 + (length xs + 1) = 2 * (length xs + 1)" by simp
  have l: "length xs \<le> length xs + 1" "length xs + 1 + (length xs + 1) < 2 ^ 31" using len by simp_all
  let ?w = "arg_value d q (length xs + 1) item"
  show thesis
  proof (cases rule: EnsureSizeAux_room [OF lay sp l, of am])
    case 1
    show thesis
    proof (rule failed)
      show "AddTail am d q item = Ok (B_ERROR, q)" unfolding AddTail_def n Let_def 1(1) by simp
      show "\<not> am (max 3 (2 * (length xs + 1)))" using 1(2) unfolding two .
    qed
  next
    case (2 q' junk' old)
    have "junk' \<noteq> []" using 2(4) q_lay_size [OF 2(2)] by auto
    then obtain j js where o: "q_lay (open_tail q') (xs @ [j]) js" "set (j # js) = set junk'"
      "q_size (open_tail q') = q_size q'" "q_spare d (open_tail q') = q_spare d q'"
      "q_tail (open_tail q') = phys (open_tail q') (length xs)"
      using open_tail_lay [OF 2(2), of d] by metis
    obtain q'' where w: "q_wr (open_tail q') (phys (open_tail q') (length xs)) ?w = Ok q''"
      "q_lay q'' ((xs @ [j])[length xs := ?w]) js" "q_size q'' = q_size (open_tail q')"
      "q_spare d (open_tail q') \<Longrightarrow> q_spare d q''"
      using lay_put [OF o(1), of "length xs" ?w d] by auto
    have "AddTail am d q item = Ok (B_NO_ERROR, q'')"
      unfolding AddTail_def n Let_def 2(1) using 2(6) [OF arg] w(1) o(5) by simp
    moreover have "q_size q'' = (if q_place q \<noteq> QNull \<and> length xs + 1 \<le> q_size q then q_size q
        else max 3 (2 * (length xs + 1)))" using 2(7) w(3) o(3) unfolding two by simp
    ultimately show thesis using w o 2 by (intro added [of q'' js]) auto
  qed
qed

lemma AddHead_lay:
  assumes lay: "q_lay q xs junk" and sp: "q_spare d q" and len: "length xs + 1 < 2 ^ 30"
    and arg: "arg_ok q item"
  obtains (failed) "AddHead am d q item = Ok (B_ERROR, q)" "\<not> am (max 3 (2 * (length xs + 1)))"
  | (added) q' junk' where "AddHead am d q item = Ok (B_NO_ERROR, q')"
      "q_lay q' (arg_value d q (length xs + 1) item # xs) junk'" "set junk' \<subseteq> insert d (set junk)" "q_spare d q'"
      "q_size q' = (if q_place q \<noteq> QNull \<and> length xs + 1 \<le> q_size q then q_size q else max 3 (2 * (length xs + 1)))"
proof -
  have n: "add32 (q_count q) 1 = length xs + 1" using len count_lay [OF lay] by (subst add32_small) simp_all
  have two: "length xs + 1 + (length xs + 1) = 2 * (length xs + 1)" by simp
  have l: "length xs \<le> length xs + 1" "length xs + 1 + (length xs + 1) < 2 ^ 31" using len by simp_all
  let ?w = "arg_value d q (length xs + 1) item"
  show thesis
  proof (cases rule: EnsureSizeAux_room [OF lay sp l, of am])
    case 1
    show thesis
    proof (rule failed)
      show "AddHead am d q item = Ok (B_ERROR, q)" unfolding AddHead_def n Let_def 1(1) by simp
      show "\<not> am (max 3 (2 * (length xs + 1)))" using 1(2) unfolding two .
    qed
  next
    case (2 q' junk' old)
    have "junk' \<noteq> []" using 2(4) q_lay_size [OF 2(2)] by auto
    then obtain j js where o: "q_lay (open_head q') (j # xs) js" "set (j # js) = set junk'"
      "q_size (open_head q') = q_size q'" "q_spare d (open_head q') = q_spare d q'"
      "q_head (open_head q') = phys (open_head q') 0"
      using open_head_lay [OF 2(2), of d] by metis
    obtain q'' where w: "q_wr (open_head q') (phys (open_head q') 0) ?w = Ok q''"
      "q_lay q'' ((j # xs)[0 := ?w]) js" "q_size q'' = q_size (open_head q')"
      "q_spare d (open_head q') \<Longrightarrow> q_spare d q''"
      using lay_put [OF o(1), of 0 ?w d] by auto
    have "AddHead am d q item = Ok (B_NO_ERROR, q'')"
      unfolding AddHead_def n Let_def 2(1) using 2(6) [OF arg] w(1) o(5) by simp
    moreover have "q_size q'' = (if q_place q \<noteq> QNull \<and> length xs + 1 \<le> q_size q then q_size q
        else max 3 (2 * (length xs + 1)))" using 2(7) w(3) o(3) unfolding two by simp
    ultimately show thesis using w o 2 by (intro added [of q'' js]) auto
  qed
qed

end
