(* ===== verification/Queue_Items.thy ===== *)
theory Queue_Items
  imports Queue_Grow
begin

section \<open>Queue: removing, inserting, copying and searching\<close>

text \<open>
  The operations on items in the middle and on many items, as operations on the list of items.
\<close>

subsection \<open>Removing an item\<close>

lemma phys_less: "i < q_size q \<Longrightarrow> phys q j < q_size q"
  unfolding phys_def by (rule mod_less_divisor) linarith

lemma lay_bound: "q_lay q xs junk \<Longrightarrow> q_size q < 2 ^ 31"
  by (simp add: q_lay_def)

lemma phys_next:
  assumes "q_lay q xs junk" "i < q_size q"
  shows "NextIndex q (phys q i) = phys q (Suc i)"
proof -
  have "NextIndex q (phys q i) = (phys q i + 1) mod q_size q"
    using assms phys_less lay_bound by (intro Next_mod) auto
  also have "\<dots> = (q_head q + i + 1) mod q_size q" by (simp only: phys_def mod_add_left_eq)
  finally show ?thesis by (simp add: phys_def)
qed

lemma phys_prev:
  assumes "q_lay q xs junk" "i < q_size q"
  shows "PrevIndex q (phys q (Suc i)) = phys q i"
proof -
  have "PrevIndex q (phys q (Suc i)) = (phys q (Suc i) + (q_size q - 1)) mod q_size q"
    using assms phys_less lay_bound by (intro Prev_mod) auto
  also have "\<dots> = (q_head q + Suc i - 1) mod q_size q"
    unfolding phys_def by (rule mod_pred) (use assms(2) in linarith)+
  finally show ?thesis by (simp add: phys_def)
qed

lemma phys_inj: "i < q_size q \<Longrightarrow> j < q_size q \<Longrightarrow> phys q i = phys q j \<longleftrightarrow> i = j"
  using mod_add_left_inj [of "q_head q" i "q_size q" j] by (auto simp: phys_def)

lemma phys_same: "q_head q' = q_head q \<Longrightarrow> q_size q' = q_size q \<Longrightarrow> phys q' = phys q"
  by (simp add: phys_def fun_eq_iff)

lemma lay_head_tail:
  assumes "q_lay q xs junk" "xs \<noteq> []"
  shows "q_head q = phys q 0" "q_tail q = phys q (length xs - 1)" "length xs \<le> q_size q"
  using assms lay_tail [OF assms] q_lay_size [OF assms(1)] by (simp_all add: phys_def q_lay_def)

declare shift_from_head.simps [simp del] shift_from_tail.simps [simp del]

lemma shift_from_head_lay:
  "q_lay q xs junk \<Longrightarrow> i < length xs \<Longrightarrow> i \<le> fuel \<Longrightarrow>
   \<exists>q'. shift_from_head fuel (phys q i) q = Ok q' \<and> q_lay q' (hd xs # take i xs @ drop (Suc i) xs) junk
     \<and> q_size q' = q_size q \<and> (q_spare d q \<longrightarrow> q_spare d q')"
proof (induction i arbitrary: q xs fuel)
  case 0
  then have "xs \<noteq> []" by auto
  then have "xs = hd xs # drop (Suc 0) xs" by (cases xs) simp_all
  with 0 lay_head_tail(1) [OF 0(1) \<open>xs \<noteq> []\<close>] show ?case by (subst shift_from_head.simps) simp
next
  case (Suc i)
  obtain k where k: "fuel = Suc k" "i \<le> k" using Suc.prems(3) by (cases fuel) auto
  have ne: "xs \<noteq> []" and sz: "Suc i < q_size q" and i: "i < length xs + length junk"
    using Suc.prems(2) q_lay_size [OF Suc.prems(1)] by auto
  obtain q1 where w: "q_wr q (phys q (Suc i)) (xs ! i) = Ok q1" "q_lay q1 (xs[Suc i := xs ! i]) junk"
    "q_size q1 = q_size q" "q_spare d q \<Longrightarrow> q_spare d q1" "q_head q1 = q_head q"
    using lay_put [OF Suc.prems(1,2), of "xs ! i" d] by metis
  have "phys q (Suc i) \<noteq> q_head q"
    using phys_inj [of "Suc i" q 0] sz lay_head_tail(1) [OF Suc.prems(1) ne] by simp
  then have step: "shift_from_head fuel (phys q (Suc i)) q = shift_from_head k (phys q1 i) q1"
    using k(1) w(1) Suc.prems sz i lay_read [OF Suc.prems(1) i] phys_prev [OF Suc.prems(1), of i]
      phys_same [OF w(5,3)]
    by (subst shift_from_head.simps) (simp add: nth_append)
  have "hd (xs[Suc i := xs ! i]) # take i (xs[Suc i := xs ! i]) @ drop (Suc i) (xs[Suc i := xs ! i])
      = hd xs # take (Suc i) xs @ drop (Suc (Suc i)) xs"
    using Suc.prems(2) ne
    by (simp add: hd_conv_nth take_Suc_conv_app_nth Cons_nth_drop_Suc [of "Suc i", symmetric] drop_update_cancel)
  moreover obtain q' where "shift_from_head k (phys q1 i) q1 = Ok q'"
    "q_lay q' (hd (xs[Suc i := xs ! i]) # take i (xs[Suc i := xs ! i]) @ drop (Suc i) (xs[Suc i := xs ! i])) junk"
    "q_size q' = q_size q1" "q_spare d q1 \<longrightarrow> q_spare d q'"
    using Suc.IH [OF w(2), of k] k(2) Suc.prems(2) by auto
  ultimately show ?case unfolding step using w(3,4) by metis
qed

lemma shift_from_tail_lay:
  "q_lay q xs junk \<Longrightarrow> i + n = length xs - 1 \<Longrightarrow> xs \<noteq> [] \<Longrightarrow> n \<le> fuel \<Longrightarrow>
   \<exists>q'. shift_from_tail fuel (phys q i) q = Ok q' \<and> q_lay q' (take i xs @ drop (Suc i) xs @ [last xs]) junk
     \<and> q_size q' = q_size q \<and> (q_spare d q \<longrightarrow> q_spare d q')"
proof (induction n arbitrary: q xs fuel i)
  case 0
  then have "xs = take i xs @ [last xs]" "drop (Suc i) xs = []"
    using append_butlast_last_id [OF 0(3)] by (simp_all add: butlast_conv_take)
  with 0 lay_head_tail(2) [OF 0(1,3)] show ?case by (subst shift_from_tail.simps) simp
next
  case (Suc n)
  obtain k where k: "fuel = Suc k" "n \<le> k" using Suc.prems(4) by (cases fuel) auto
  have i: "i < length xs" "Suc i < length xs" using Suc.prems(2,3) by auto
  then have sz: "i < q_size q" "length xs - 1 < q_size q" and i2: "Suc i < length xs + length junk"
    using q_lay_size [OF Suc.prems(1)] by auto
  obtain q1 where w: "q_wr q (phys q i) (xs ! Suc i) = Ok q1" "q_lay q1 (xs[i := xs ! Suc i]) junk"
    "q_size q1 = q_size q" "q_spare d q \<Longrightarrow> q_spare d q1" "q_head q1 = q_head q"
    using lay_put [OF Suc.prems(1) i(1), of "xs ! Suc i" d] by metis
  have "phys q i \<noteq> q_tail q"
    using phys_inj [of i q "length xs - 1"] sz lay_head_tail(2) [OF Suc.prems(1,3)] Suc.prems(2) by simp
  then have step: "shift_from_tail fuel (phys q i) q = shift_from_tail k (phys q1 (Suc i)) q1"
    using k(1) w(1) sz lay_read [OF Suc.prems(1) i2] phys_next [OF Suc.prems(1), of i]
      phys_same [OF w(5,3)] i
    by (subst shift_from_tail.simps) (simp add: nth_append)
  have "take (Suc i) (xs[i := xs ! Suc i]) @ drop (Suc (Suc i)) (xs[i := xs ! Suc i]) @ [last (xs[i := xs ! Suc i])]
      = take i xs @ drop (Suc i) xs @ [last xs]"
    using i Suc.prems(3)
    by (simp add: take_Suc_conv_app_nth Cons_nth_drop_Suc [of "Suc i", symmetric] last_conv_nth)
  moreover obtain q' where "shift_from_tail k (phys q1 (Suc i)) q1 = Ok q'"
    "q_lay q' (take (Suc i) (xs[i := xs ! Suc i]) @ drop (Suc (Suc i)) (xs[i := xs ! Suc i]) @ [last (xs[i := xs ! Suc i])]) junk"
    "q_size q' = q_size q1" "q_spare d q1 \<longrightarrow> q_spare d q'"
    using Suc.IH [OF w(2), of "Suc i" k] k(2) Suc.prems(2,3) by auto
  ultimately show ?case unfolding step using w(3,4) by metis
qed

lemma RemoveItemAt_lay:
  assumes lay: "q_lay q xs junk" and i: "i < length xs"
  obtains q' junk' where "RemoveItemAt d q i = Ok (B_NO_ERROR, q')" "q_lay q' (take i xs @ drop (Suc i) xs) junk'"
    "set junk' \<subseteq> insert d (set junk)" "q_size q' = q_size q" "q_spare d q \<Longrightarrow> q_spare d q'"
proof -
  have ne: "xs \<noteq> []" using i by auto
  have int: "InternalizeIndex q i = Ok (phys q i)" using lay_internalize(1) [OF lay] i by simp
  note sz = q_lay_size [OF lay]
  show thesis
  proof (cases "i < q_count q div 2")
    case True
    obtain q1 where 1: "shift_from_head (q_size q) (phys q i) q = Ok q1"
      "q_lay q1 (hd xs # take i xs @ drop (Suc i) xs) junk" "q_size q1 = q_size q" "q_spare d q \<Longrightarrow> q_spare d q1"
      using shift_from_head_lay [OF lay i, of "q_size q" d] sz i by auto
    obtain q2 where 2: "RemoveHead d q1 = Ok (B_NO_ERROR, q2)" "q_lay q2 (take i xs @ drop (Suc i) xs) (junk @ [d])"
      "q_size q2 = q_size q1" "q_spare d q1 \<Longrightarrow> q_spare d q2"
      using RemoveHead_lay [OF 1(2), of d] by metis
    have "RemoveItemAt d q i = RemoveHead d q1"
      using True 1(1) int i count_lay [OF lay] count_lay [OF 1(2)] by (simp add: RemoveItemAt_def RemoveHead_def)
    with 1 2 show thesis by (intro that [of q2 "junk @ [d]"]) auto
  next
    case False
    have "i + (length xs - 1 - i) = length xs - 1" "length xs - 1 - i \<le> q_size q" using i sz by linarith+
    from shift_from_tail_lay [OF lay this(1) ne this(2), of d]
    obtain q1 where 1: "shift_from_tail (q_size q) (phys q i) q = Ok q1"
      "q_lay q1 ((take i xs @ drop (Suc i) xs) @ [last xs]) junk" "q_size q1 = q_size q" "q_spare d q \<Longrightarrow> q_spare d q1"
      by auto
    obtain q2 where 2: "RemoveTail d q1 = Ok (B_NO_ERROR, q2)" "q_lay q2 (take i xs @ drop (Suc i) xs) (d # junk)"
      "q_size q2 = q_size q1" "q_spare d q1 \<Longrightarrow> q_spare d q2"
      using RemoveTail_lay [OF 1(2), of d] by metis
    have "RemoveItemAt d q i = RemoveTail d q1"
      using False 1(1) int i count_lay [OF lay] count_lay [OF 1(2)] by (simp add: RemoveItemAt_def RemoveTail_def)
    with 1 2 show thesis by (intro that [of q2 "d # junk"]) auto
  qed
qed

subsection \<open>Inserting an item\<close>

lemma AddTailDefault_lay:
  assumes lay: "q_lay q xs junk" and sp: "q_spare d q" and len: "length xs + 1 < 2 ^ 30"
  obtains (failed) "AddTailDefault am d q = Ok (B_ERROR, q)" "\<not> am (max 3 (2 * (length xs + 1)))"
  | (added) q' j junk' where "AddTailDefault am d q = Ok (B_NO_ERROR, q')" "q_lay q' (xs @ [j]) junk'"
      "set (j # junk') \<subseteq> insert d (set junk)" "q_spare d q'"
proof -
  have n: "add32 (q_count q) 1 = length xs + 1" using len count_lay [OF lay] by (subst add32_small) simp_all
  have two: "length xs + 1 + (length xs + 1) = 2 * (length xs + 1)" by simp
  have l: "length xs \<le> length xs + 1" "length xs + 1 + (length xs + 1) < 2 ^ 31" using len by simp_all
  show thesis
  proof (cases rule: EnsureSizeAux_room [OF lay sp l, of am])
    case 1
    show thesis
    proof (rule failed)
      show "AddTailDefault am d q = Ok (B_ERROR, q)" unfolding AddTailDefault_def EnsureSize_def n Let_def 1(1) by simp
      show "\<not> am (max 3 (2 * (length xs + 1)))" using 1(2) unfolding two .
    qed
  next
    case (2 q' junk' old)
    have "junk' \<noteq> []" using 2(4) q_lay_size [OF 2(2)] by auto
    then obtain j js where o: "q_lay (open_tail q') (xs @ [j]) js" "set (j # js) = set junk'"
      "q_spare d (open_tail q') = q_spare d q'"
      using open_tail_lay [OF 2(2), of d] by metis
    have "AddTailDefault am d q = Ok (B_NO_ERROR, open_tail q')"
      unfolding AddTailDefault_def EnsureSize_def n Let_def 2(1) by simp
    with o 2 show thesis by (intro added) auto
  qed
qed

lemma AddHeadDefault_lay:
  assumes lay: "q_lay q xs junk" and sp: "q_spare d q" and len: "length xs + 1 < 2 ^ 30"
  obtains (failed) "AddHeadDefault am d q = Ok (B_ERROR, q)" "\<not> am (max 3 (2 * (length xs + 1)))"
  | (added) q' j junk' where "AddHeadDefault am d q = Ok (B_NO_ERROR, q')" "q_lay q' (j # xs) junk'"
      "set (j # junk') \<subseteq> insert d (set junk)" "q_spare d q'"
proof -
  have n: "add32 (q_count q) 1 = length xs + 1" using len count_lay [OF lay] by (subst add32_small) simp_all
  have two: "length xs + 1 + (length xs + 1) = 2 * (length xs + 1)" by simp
  have l: "length xs \<le> length xs + 1" "length xs + 1 + (length xs + 1) < 2 ^ 31" using len by simp_all
  show thesis
  proof (cases rule: EnsureSizeAux_room [OF lay sp l, of am])
    case 1
    show thesis
    proof (rule failed)
      show "AddHeadDefault am d q = Ok (B_ERROR, q)" unfolding AddHeadDefault_def EnsureSize_def n Let_def 1(1) by simp
      show "\<not> am (max 3 (2 * (length xs + 1)))" using 1(2) unfolding two .
    qed
  next
    case (2 q' junk' old)
    have "junk' \<noteq> []" using 2(4) q_lay_size [OF 2(2)] by auto
    then obtain j js where o: "q_lay (open_head q') (j # xs) js" "set (j # js) = set junk'"
      "q_spare d (open_head q') = q_spare d q'"
      using open_head_lay [OF 2(2), of d] by metis
    have "AddHeadDefault am d q = Ok (B_NO_ERROR, open_head q')"
      unfolding AddHeadDefault_def EnsureSize_def n Let_def 2(1) by simp
    with o 2 show thesis by (intro added) auto
  qed
qed

text \<open>The two loops that move items by one place.\<close>

lemma move_item_lay:
  assumes "q_lay q xs junk" "from < length xs" "to < length xs"
  shows "\<exists>q'. move_item to from q = Ok q' \<and> q_lay q' (xs[to := xs ! from]) junk \<and> (q_spare d q \<longrightarrow> q_spare d q')"
proof -
  obtain q' where "ReplaceItemAt q to (xs ! from) = Ok (B_NO_ERROR, q')" "q_lay q' (xs[to := xs ! from]) junk"
    "q_spare d q \<Longrightarrow> q_spare d q'"
    using ReplaceItemAt_lay [OF assms(1,3), of "xs ! from" d] by metis
  then show ?thesis using assms by (simp add: move_item_def get_unchecked)
qed

lemma move_down_lay:
  assumes "q_lay q (j # xs) junk" "k \<le> length xs" "q_spare d q"
  shows "\<exists>q'. for_up 0 k (\<lambda>i. move_item i (i + 1)) q = Ok q'
    \<and> q_lay q' (take k xs @ (j # xs) ! k # drop k xs) junk \<and> q_spare d q'"
proof (rule for_up_induct [where P = "\<lambda>k q'. q_lay q' (take k xs @ (j # xs) ! k # drop k xs) junk \<and> q_spare d q'"])
  fix i s assume i: "i < k" "q_lay s (take i xs @ (j # xs) ! i # drop i xs) junk \<and> q_spare d s"
  let ?ys = "take i xs @ (j # xs) ! i # drop i xs"
  have "?ys ! (i + 1) = xs ! i" "?ys[i := xs ! i] = take (Suc i) xs @ (j # xs) ! Suc i # drop (Suc i) xs"
    using i(1) assms(2)
    by (simp_all add: nth_append list_update_append take_Suc_conv_app_nth Cons_nth_drop_Suc)
  then show "\<exists>s'. move_item i (i + 1) s = Ok s' \<and> q_lay s' (take (Suc i) xs @ (j # xs) ! Suc i # drop (Suc i) xs) junk
      \<and> q_spare d s'"
    using move_item_lay [of s ?ys junk "i + 1" i d] i assms(2) by auto
qed (use assms in auto)

lemma move_up_lay:
  assumes "q_lay q (xs @ [j]) junk" "k \<le> length xs" "q_spare d q"
  shows "\<exists>q'. for_down (k + 1) (length xs + 1) (\<lambda>i. move_item i (i - 1)) q = Ok q'
    \<and> q_lay q' (take k xs @ (xs @ [j]) ! k # drop k xs) junk \<and> q_spare d q'"
proof -
  let ?P = "\<lambda>k q'. q_lay q' (take (k - 1) xs @ (xs @ [j]) ! (k - 1) # drop (k - 1) xs) junk \<and> q_spare d q'"
  have "\<exists>q'. for_down (k + 1) (length xs + 1) (\<lambda>i. move_item i (i - 1)) q = Ok q' \<and> ?P (k + 1) q'"
  proof (rule for_down_induct [where P = ?P])
    fix i s assume i: "k + 1 \<le> i" "i < length xs + 1" "?P (Suc i) s"
    then obtain m where m: "i = Suc m" "m < length xs" by (cases i) auto
    let ?ys = "take i xs @ (xs @ [j]) ! i # drop i xs"
    have "?ys ! m = xs ! m" "?ys[i := xs ! m] = take m xs @ (xs @ [j]) ! m # drop m xs"
      using m by (simp_all add: nth_append list_update_append take_Suc_conv_app_nth Cons_nth_drop_Suc)
    then show "\<exists>s'. move_item i (i - 1) s = Ok s' \<and> ?P i s'"
      using move_item_lay [of s ?ys junk m i d] i m by auto
  qed (use assms in \<open>auto simp: nth_append\<close>)
  then show ?thesis by simp
qed

lemma InsertItem_front:
  assumes "0 < i" "i < q_count q div 2" "AddHeadDefault am d q = Ok (st, q1)"
  shows "InsertItem am d q i (Val v) = (if st = B_ERROR then Ok (B_ERROR, q1)
    else obind (for_up 0 i (\<lambda>i. move_item i (i + 1)) q1) (\<lambda>q2. ReplaceItemAt q2 i v))"
proof -
  have "\<not> i > q_count q" "i \<noteq> q_count q" "i \<noteq> 0" using assms(1,2) by auto
  then show ?thesis unfolding InsertItem_def
    using assms(2,3) by (cases "for_up 0 i (\<lambda>i. move_item i (i + 1)) q1") (simp_all add: deref_def)
qed

lemma InsertItem_back:
  assumes "0 < i" "q_count q div 2 \<le> i" "i < q_count q" "AddTailDefault am d q = Ok (st, q1)"
  shows "InsertItem am d q i (Val v) = (if st = B_ERROR then Ok (B_ERROR, q1)
    else obind (for_down (i + 1) (q_count q1) (\<lambda>i. move_item i (i - 1)) q1) (\<lambda>q2. ReplaceItemAt q2 i v))"
proof -
  have "\<not> i > q_count q" "i \<noteq> q_count q" "i \<noteq> 0" "\<not> i < q_count q div 2" using assms(1-3) by auto
  then show ?thesis unfolding InsertItem_def
    using assms(4) by (cases "for_down (i + 1) (q_count q1) (\<lambda>i. move_item i (i - 1)) q1") (simp_all add: deref_def)
qed

lemma InsertItem_lay:
  assumes lay: "q_lay q xs junk" and sp: "q_spare d q" and len: "length xs + 1 < 2 ^ 30" and i: "i \<le> length xs"
  obtains (failed) "InsertItem am d q i (Val v) = Ok (B_ERROR, q)"
      "\<not> am (max 3 (2 * (length xs + 1)))"
  | (inserted) q' junk' where "InsertItem am d q i (Val v) = Ok (B_NO_ERROR, q')"
      "q_lay q' (take i xs @ v # drop i xs) junk'" "set junk' \<subseteq> insert d (set junk)" "q_spare d q'"
proof -
  note c = count_lay [OF lay]
  consider "i = length xs" | "i = 0" "xs \<noteq> []" | "0 < i" "i < length xs div 2" | "length xs div 2 \<le> i" "0 < i" "i < length xs"
    using i by fastforce
  then show thesis
  proof cases
    case 1
    then have e: "InsertItem am d q i (Val v) = AddTail am d q (Val v)" using c by (simp add: InsertItem_def)
    show thesis
    proof (cases rule: AddTail_lay [OF lay sp len arg_Val(2), of am v])
      case 1
      then show ?thesis using failed e by simp
    next
      case (2 q' junk')
      then show ?thesis using inserted [of q' junk'] e \<open>i = length xs\<close> by simp
    qed
  next
    case 2
    then have e: "InsertItem am d q i (Val v) = AddHead am d q (Val v)" using c by (simp add: InsertItem_def)
    show thesis
    proof (cases rule: AddHead_lay [OF lay sp len arg_Val(2), of am v])
      case 1
      then show ?thesis using failed e by simp
    next
      case (2 q' junk')
      then show ?thesis using inserted [of q' junk'] e \<open>i = 0\<close> by simp
    qed
  next
    case 3
    have i2: "0 < i" "i < q_count q div 2" using 3 c by simp_all
    show thesis
    proof (cases rule: AddHeadDefault_lay [OF lay sp len, of am])
      case 1
      then show ?thesis using failed InsertItem_front [OF i2] by simp
    next
      case (2 q1 j junk')
      then obtain q2 where 2: "AddHeadDefault am d q = Ok (B_NO_ERROR, q1)"
        "for_up 0 i (\<lambda>i. move_item i (i + 1)) q1 = Ok q2"
        "q_lay q2 (take i xs @ (j # xs) ! i # drop i xs) junk'" "q_spare d q2"
        "set junk' \<subseteq> insert d (set junk)"
        using move_down_lay [of q1 j xs junk' i d] i by auto
      have "i < length (take i xs @ (j # xs) ! i # drop i xs)" using i by simp
      from ReplaceItemAt_lay [OF 2(3) this, of v d] obtain q3 where
        "ReplaceItemAt q2 i v = Ok (B_NO_ERROR, q3)" "q_lay q3 (take i xs @ v # drop i xs) junk'" "q_spare d q3"
        using i 2(4) by (auto simp: list_update_append)
      then show thesis using inserted [of q3 junk'] 2 InsertItem_front [OF i2 2(1)] by simp
    qed
  next
    case 4
    have i2: "0 < i" "q_count q div 2 \<le> i" "i < q_count q" using 4 c by simp_all
    show thesis
    proof (cases rule: AddTailDefault_lay [OF lay sp len, of am])
      case 1
      then show ?thesis using failed InsertItem_back [OF i2] by simp
    next
      case (2 q1 j junk')
      then obtain q2 where 2: "AddTailDefault am d q = Ok (B_NO_ERROR, q1)" "q_lay q1 (xs @ [j]) junk'"
        "for_down (i + 1) (length xs + 1) (\<lambda>i. move_item i (i - 1)) q1 = Ok q2"
        "q_lay q2 (take i xs @ (xs @ [j]) ! i # drop i xs) junk'" "q_spare d q2"
        "set junk' \<subseteq> insert d (set junk)"
        using move_up_lay [of q1 xs j junk' i d] i by auto
      have "i < length (take i xs @ (xs @ [j]) ! i # drop i xs)" using i by simp
      from ReplaceItemAt_lay [OF 2(4) this, of v d] obtain q3 where
        "ReplaceItemAt q2 i v = Ok (B_NO_ERROR, q3)" "q_lay q3 (take i xs @ v # drop i xs) junk'" "q_spare d q3"
        using i 2(5) by (auto simp: list_update_append)
      then show thesis using inserted [of q3 junk'] 2 count_lay [OF 2(2)] InsertItem_back [OF i2 2(1)] by simp
    qed
  qed
qed

end
