(* ===== verification/Queue_Bulk.thy ===== *)
theory Queue_Bulk
  imports Queue_Items
begin

section \<open>Queue: many items at a time, searching and comparing\<close>

subsection \<open>Copying items in\<close>

lemma put_loop_lay:
  assumes lay: "q_lay q xs junk" and b: "a \<le> b" "b \<le> length xs" and v: "length vs = b - a"
    and g: "\<And>i. a \<le> i \<Longrightarrow> i < b \<Longrightarrow> g i = Ok (vs ! (i - a))" and sp: "q_spare d q"
  shows "\<exists>q'. for_up a b (\<lambda>i q. obind (g i) (q_at_put q i)) q = Ok q'
    \<and> q_lay q' (take a xs @ vs @ drop b xs) junk \<and> q_spare d q' \<and> q_size q' = q_size q"
proof -
  let ?P = "\<lambda>i s. q_lay s (take a xs @ take (i - a) vs @ drop i xs) junk \<and> q_spare d s \<and> q_size s = q_size q"
  have "\<exists>q'. for_up a b (\<lambda>i q. obind (g i) (q_at_put q i)) q = Ok q' \<and> ?P b q'"
  proof (rule for_up_induct [where P = ?P])
    fix i s assume i: "a \<le> i" "i < b" "?P i s"
    let ?ys = "take a xs @ take (i - a) vs @ drop i xs"
    have l: "length ?ys = length xs" "i < length ?ys" using i b v by auto
    have "Suc i - a = Suc (i - a)" "i - a < length vs" using i v by auto
    then have e: "?ys[i := vs ! (i - a)] = take a xs @ take (Suc i - a) vs @ drop (Suc i) xs"
      using i b v by (simp add: list_update_append take_Suc_conv_app_nth Cons_nth_drop_Suc [of i, symmetric])
    from i have s: "q_lay s ?ys junk" by simp
    obtain s' where "q_at_put s i (vs ! (i - a)) = Ok s'" "q_lay s' (?ys[i := vs ! (i - a)]) junk"
      "q_size s' = q_size s" "q_spare d s \<Longrightarrow> q_spare d s'"
      using q_at_put_lay [OF s l(2), of "vs ! (i - a)" d] by metis
    then show "\<exists>s'. obind (g i) (q_at_put s i) = Ok s' \<and> ?P (Suc i) s'"
      using g [OF i(1,2)] i(3) unfolding e by simp
  qed (use assms in auto)
  then show ?thesis using v by simp
qed

lemma EnsureSize_set_lay:
  assumes lay: "q_lay q xs junk" and sp: "q_spare d q" and len: "slots < 2 ^ 31"
  obtains (failed) "EnsureSize am d q slots True 0 False = Ok (B_ERROR, q)" "\<not> am (max 3 slots)"
  | (sized) q' ys junk' where "EnsureSize am d q slots True 0 False = Ok (B_NO_ERROR, q')"
      "q_lay q' (take slots xs @ ys) junk'" "length ys = slots - length xs" "set ys \<subseteq> insert d (set junk)"
      "set junk' \<subseteq> insert d (set junk)" "q_spare d q'"
proof (cases rule: EnsureSizeAux_set [OF lay sp len, of am])
  case 1
  then show thesis using failed by (simp add: EnsureSize_def)
next
  case (2 q' ys junk' old)
  then show thesis using sized [of q' ys junk'] by (simp add: EnsureSize_def)
qed

lemma how_many_lay:
  "q_lay r ys junk \<Longrightarrow> how_many r start n = length (take n (drop start ys))"
  by (auto simp: how_many_def count_lay Let_def)

lemma drop_take_nth:
  "i < length (take n (drop k ys)) \<Longrightarrow> k + i < length ys \<and> take n (drop k ys) ! i = ys ! (k + i)"
  by auto

lemma AddTailMulti_lay:
  assumes lay: "q_lay q xs junk" and sp: "q_spare d q" and r: "q_lay r ys junk2"
    and len: "length xs + length (take n (drop k ys)) < 2 ^ 31"
  obtains (failed) "AddTailMulti am d q r k n = Ok (B_ERROR, q)"
      "\<not> am (max 3 (length xs + length (take n (drop k ys))))"
  | (added) q' junk' where "AddTailMulti am d q r k n = Ok (B_NO_ERROR, q')"
      "q_lay q' (xs @ take n (drop k ys)) junk'" "set junk' \<subseteq> insert d (set junk)" "q_spare d q'"
proof -
  let ?vs = "take n (drop k ys)" and ?N = "length xs + length (take n (drop k ys))"
  have N: "add32 (q_count q) (how_many r k n) = ?N"
    unfolding how_many_lay [OF r] count_lay [OF lay] by (rule add32_small) (use len in simp)
  show thesis
  proof (cases rule: EnsureSize_set_lay [OF lay sp len, of am])
    case 1
    have "AddTailMulti am d q r k n = Ok (B_ERROR, q)" unfolding AddTailMulti_def Let_def N 1(1) by simp
    with 1(2) show thesis by (rule failed [rotated])
  next
    case (2 q' zs junk')
    have l: "length (xs @ zs) = ?N" using 2(3) by simp
    have t: "take ?N xs = xs" by simp
    have "\<exists>q''. for_up (length xs) ?N (\<lambda>i q. obind (q_at r (k + (i - length xs))) (q_at_put q i)) q' = Ok q''
      \<and> q_lay q'' (take (length xs) (xs @ zs) @ ?vs @ drop ?N (xs @ zs)) junk' \<and> q_spare d q'' \<and> q_size q'' = q_size q'"
    proof (rule put_loop_lay)
      show "q_lay q' (xs @ zs) junk'" using 2(2) unfolding t .
      fix i assume "length xs \<le> i" "i < ?N"
      then have "i - length xs < length ?vs" by linarith
      from drop_take_nth [OF this] show "q_at r (k + (i - length xs)) = Ok (?vs ! (i - length xs))"
        using q_at_lay [OF r] by simp
    qed (use l 2 in auto)
    then obtain q'' where q'': "for_up (length xs) ?N (\<lambda>i q. obind (q_at r (k + (i - length xs))) (q_at_put q i)) q' = Ok q''"
      "q_lay q'' (xs @ ?vs) junk'" "q_spare d q''" using l by auto
    have "AddTailMulti am d q r k n = Ok (B_NO_ERROR, q'')"
      unfolding AddTailMulti_def Let_def N 2(1) using q''(1) count_lay [OF lay] by simp
    then show thesis using q''(2,3) 2(5) by (intro added)
  qed
qed

lemma AddTailMultiArray_lay:
  assumes lay: "q_lay q xs junk" and sp: "q_spare d q" and n: "n \<le> length items" and len: "length xs + n < 2 ^ 31"
  obtains (failed) "AddTailMultiArray am d q items n = Ok (B_ERROR, q)" "\<not> am (max 3 (length xs + n))"
  | (added) q' junk' where "AddTailMultiArray am d q items n = Ok (B_NO_ERROR, q')"
      "q_lay q' (xs @ take n items) junk'" "set junk' \<subseteq> insert d (set junk)" "q_spare d q'"
proof -
  have N: "add32 (q_count q) n = length xs + n" unfolding count_lay [OF lay] using len by (intro add32_small) simp
  show thesis
  proof (cases rule: EnsureSizeAux_set [OF lay sp len, of am])
    case 1
    have "AddTailMultiArray am d q items n = Ok (B_ERROR, q)" unfolding AddTailMultiArray_def Let_def N 1(1) by simp
    with 1(2) show thesis by (rule failed [rotated])
  next
    case (2 q' zs junk' old)
    have l: "length zs = n" using 2(3) by simp
    have t: "take (length xs + n) xs = xs" by simp
    have "\<exists>q''. for_up (length xs) (length xs + n) (\<lambda>i q. obind (rd items (i - length xs)) (q_at_put q i)) q' = Ok q''
      \<and> q_lay q'' (take (length xs) (xs @ zs) @ take n items @ drop (length xs + n) (xs @ zs)) junk' \<and> q_spare d q''
      \<and> q_size q'' = q_size q'"
    proof (rule put_loop_lay)
      show "q_lay q' (xs @ zs) junk'" using 2(2) unfolding t .
    qed (use l n 2 in auto)
    then obtain q'' where q'': "for_up (length xs) (length xs + n) (\<lambda>i q. obind (rd items (i - length xs)) (q_at_put q i)) q' = Ok q''"
      "q_lay q'' (xs @ take n items) junk'" "q_spare d q''" using l by auto
    have "AddTailMultiArray am d q items n = Ok (B_NO_ERROR, q'')"
      unfolding AddTailMultiArray_def Let_def N 2(1) using q''(1) count_lay [OF lay] by simp
    then show thesis using q''(2,3) 2(5) by (intro added)
  qed
qed

lemma copy_items_lay:
  assumes lay: "q_lay q xs junk" and sp: "q_spare d q" and r: "q_lay r ys junk2" and l: "length xs = length ys"
  obtains q' where "copy_items r (length ys) q = Ok q'" "q_lay q' ys junk" "q_spare d q'"
proof -
  have "\<exists>q'. for_up 0 (length ys) (\<lambda>i q. obind (q_at r i) (q_at_put q i)) q = Ok q'
    \<and> q_lay q' (take 0 xs @ ys @ drop (length ys) xs) junk \<and> q_spare d q' \<and> q_size q' = q_size q"
    by (rule put_loop_lay [OF lay]) (use l sp q_at_lay [OF r] in auto)
  with that l show thesis by (auto simp: copy_items_def)
qed

text \<open>\<^verbatim>\<open>CopyFrom\<close> makes this queue equal to the other.\<close>

lemma CopyFrom_lay:
  assumes lay: "q_lay q xs junk" and sp: "q_spare d q" and r: "q_lay r ys junk2"
  obtains (failed) "CopyFrom am d q r = Ok (B_ERROR, q)" "\<not> am (max 3 (length ys))"
  | (copied) q' junk' where "CopyFrom am d q r = Ok (B_NO_ERROR, q')" "q_lay q' ys junk'"
      "set junk' \<subseteq> insert d (set junk)" "q_spare d q'"
proof -
  have len: "length ys < 2 ^ 31" using lay_bound [OF r] q_lay_size [OF r] by simp
  show thesis
  proof (cases rule: EnsureSize_set_lay [OF lay sp len, of am])
    case 1
    then show thesis using failed by (simp add: CopyFrom_def count_lay [OF r])
  next
    case (2 q' zs junk')
    have "length (take (length ys) xs @ zs) = length ys" using 2(3) by simp
    then obtain q'' where "copy_items r (length ys) q' = Ok q''" "q_lay q'' ys junk'" "q_spare d q''"
      using copy_items_lay [OF 2(2,6) r] by metis
    then show thesis using copied [of q'' junk'] 2(1,5) by (simp add: CopyFrom_def count_lay [OF r])
  qed
qed

subsection \<open>Searching\<close>

lemma first_at_lay [queue_ops]:
  "q_lay q xs junk \<Longrightarrow> \<forall>i \<in> set is. i < length xs \<Longrightarrow>
   first_at P q is = Ok (List.find (\<lambda>i. P (xs ! i)) is)"
  by (induction "is") (simp_all add: get_unchecked)

lemma IndexOf_lay [queue_ops]:
  assumes "q_lay q xs junk"
  shows "IndexOf q v a b =
    Ok (index_or_minus_one (if a < length xs then List.find (\<lambda>i. xs ! i = v) [a..<min b (length xs)] else None))"
  using assms first_at_lay [OF assms, of "[a..<min b (length xs)]" "\<lambda>x. x = v"] count_lay [OF assms]
  by (simp add: IndexOf_def index_or_minus_one_def)

lemma LastIndexOf_lay [queue_ops]:
  assumes "q_lay q xs junk"
  shows "LastIndexOf q v a b =
    Ok (index_or_minus_one (if b < length xs then List.find (\<lambda>i. xs ! i = v) (rev [b..<Suc (min a (length xs - 1))]) else None))"
proof -
  define ks where "ks = rev [b..<Suc (min a (length xs - 1))]"
  show ?thesis
  proof (cases "b < length xs")
    case True
    then have "\<forall>i \<in> set ks. i < length xs" by (auto simp: ks_def)
    from first_at_lay [OF assms this, of "\<lambda>x. x = v"] True show ?thesis
      unfolding LastIndexOf_def count_lay [OF assms] ks_def [symmetric] by simp
  qed (simp add: LastIndexOf_def index_or_minus_one_def count_lay [OF assms])
qed

subsection \<open>Reversing\<close>

lemma reverse_loop_lay:
  "q_lay q xs junk \<Longrightarrow> to < length xs \<Longrightarrow> q_spare d q \<Longrightarrow>
   \<exists>q'. reverse_loop from to q = Ok q'
     \<and> q_lay q' (if from \<le> to then take from xs @ rev (take (Suc to - from) (drop from xs)) @ drop (Suc to) xs else xs) junk
     \<and> q_spare d q'"
proof (induction "to - from" arbitrary: "from" to q xs rule: less_induct)
  case less
  show ?case
  proof (cases "from < to")
    case False
    then have "from \<le> to \<Longrightarrow> take (Suc to - from) (drop from xs) = [xs ! from]" "from \<le> to \<Longrightarrow> from = to"
      using less.prems(2) by (auto simp: take_Suc_conv_app_nth)
    moreover have "take to xs @ xs ! to # drop (Suc to) xs = xs" using less.prems(2) by (simp add: id_take_nth_drop [symmetric])
    ultimately show ?thesis using False less.prems by (subst reverse_loop.simps) auto
  next
    case True
    have "from < length xs" using True less.prems(2) by simp
    from Swap_lay [OF less.prems(1) this less.prems(2), of d] obtain q1 where
      1: "Swap q from to = Ok q1" "q_lay q1 (xs[from := xs ! to, to := xs ! from]) junk" "q_spare d q1"
      using less.prems(3) by metis
    let ?ys = "xs[from := xs ! to, to := xs ! from]"
    obtain A m C where xs: "xs = A @ xs ! from # m @ xs ! to # C" "length A = from" "length m = to - Suc from"
    proof
      show "xs = take from xs @ xs ! from # take (to - Suc from) (drop (Suc from) xs) @ xs ! to # drop (Suc to) xs"
      proof -
        have "drop (Suc from) xs = take (to - Suc from) (drop (Suc from) xs) @ drop (to - Suc from) (drop (Suc from) xs)"
          by (rule append_take_drop_id [symmetric])
        also have "drop (to - Suc from) (drop (Suc from) xs) = drop to xs" using True by simp
        also have "drop to xs = xs ! to # drop (Suc to) xs"
          using less.prems(2) by (rule Cons_nth_drop_Suc [symmetric])
        finally show ?thesis using \<open>from < length xs\<close> by (metis id_take_nth_drop)
      qed
    qed (use True less.prems(2) in auto)
    define x y where "x = xs ! from" and "y = xs ! to"
    have l: "to = length A + Suc (length m)" using xs(2,3) True by simp
    have xs': "xs = A @ x # m @ y # C" using xs(1) by (simp only: x_def y_def)
    have ys: "?ys = A @ y # m @ x # C"
      unfolding x_def [symmetric] y_def [symmetric] unfolding xs' using xs(2) l
      by (simp add: list_update_append)
    have "to - 1 - Suc from < to - from" "to - 1 < length ?ys" using True less.prems(2) by auto
    from less.hyps [OF this(1) 1(2) this(2) 1(3)] obtain q2 where
      2: "reverse_loop (Suc from) (to - 1) q1 = Ok q2" "q_spare d q2"
      "q_lay q2 (if Suc from \<le> to - 1 then take (Suc from) ?ys @ rev (take (Suc (to - 1) - Suc from) (drop (Suc from) ?ys))
         @ drop (Suc (to - 1)) ?ys else ?ys) junk" by blast
    have "(if Suc from \<le> to - 1 then take (Suc from) ?ys @ rev (take (Suc (to - 1) - Suc from) (drop (Suc from) ?ys))
         @ drop (Suc (to - 1)) ?ys else ?ys) = A @ y # rev m @ x # C"
    proof (cases "m = []")
      case True
      then have "\<not> Suc from \<le> to - 1" using l xs(2) by simp
      then show ?thesis using True by (simp add: ys)
    next
      case False
      then have "Suc from \<le> to - 1" using l xs(2) by (cases m) auto
      then show ?thesis unfolding ys using l xs(2) by simp
    qed
    also have "\<dots> = take from xs @ rev (take (Suc to - from) (drop from xs)) @ drop (Suc to) xs"
      unfolding xs' using l xs(2) by simp
    finally have "q_lay q2 (take from xs @ rev (take (Suc to - from) (drop from xs)) @ drop (Suc to) xs) junk"
      using 2(3) by simp
    then show ?thesis using True 1(1) 2(1,2) by (subst reverse_loop.simps) simp
  qed
qed

lemma ReverseItemOrdering_lay:
  assumes "q_lay q xs junk" "q_spare d q" "0 < to" "to < 2 ^ 32"
  obtains q' where "ReverseItemOrdering q from to = Ok q'"
    "q_lay q' (take from xs @ rev (take (to - from) (drop from xs)) @ drop (max from to) xs) junk" "q_spare d q'"
proof (cases "xs = []")
  case True
  then show thesis using that [of q] assms by (simp add: ReverseItemOrdering_def count_lay)
next
  case False
  define t where "t = (if sub32 to 1 \<ge> length xs then length xs - 1 else sub32 to 1)"
  have t: "t = min to (length xs) - 1" "t < length xs" using assms(3,4) False by (auto simp: t_def Suc_leI)
  obtain q' where q': "reverse_loop from t q = Ok q'" "q_spare d q'"
    "q_lay q' (if from \<le> t then take from xs @ rev (take (Suc t - from) (drop from xs)) @ drop (Suc t) xs else xs) junk"
    using reverse_loop_lay [OF assms(1) t(2) assms(2), of "from"] by blast
  have "(if from \<le> t then take from xs @ rev (take (Suc t - from) (drop from xs)) @ drop (Suc t) xs else xs)
      = take from xs @ rev (take (to - from) (drop from xs)) @ drop (max from to) xs"
  proof (cases "from \<le> t")
    case True
    then have "from < to" "Suc t = min to (length xs)" using t(1) assms(3) False by auto
    then show ?thesis using True by (auto simp: min_def max_def)
  next
    case False: False
    then have "to \<le> from \<or> length xs \<le> from" using t(1) by auto
    then show ?thesis using False by (auto simp: max_def)
  qed
  moreover have "ReverseItemOrdering q from to = Ok q'"
    unfolding ReverseItemOrdering_def Let_def count_lay [OF assms(1)] t_def [symmetric]
    using q'(1) \<open>xs \<noteq> []\<close> by simp
  ultimately show thesis using that [of q'] q' by simp
qed

subsection \<open>Removing by value\<close>

lemma RemoveAllInstancesOf_lay:
  assumes lay: "q_lay q xs junk" and sp: "q_spare d q"
  obtains q' junk' where "RemoveAllInstancesOf d q v = Ok (length (filter (\<lambda>x. x = v) xs), q')"
    "q_lay q' (filter (\<lambda>x. x \<noteq> v) xs) junk'" "set junk' \<subseteq> insert d (set junk)" "q_spare d q'"
proof -
  let ?f = "\<lambda>readFrom (ret, writeTo, q).
               obind (q_at q readFrom) (\<lambda>nextRead.
               if nextRead = v then Ok (ret + 1, writeTo, q)
               else obind (if readFrom > writeTo then q_at_put q writeTo nextRead else Ok q) (\<lambda>q.
                    Ok (ret, writeTo + 1, q)))"
  let ?keep = "\<lambda>i. filter (\<lambda>x. x \<noteq> v) (take i xs)"
  let ?P = "\<lambda>i (ret :: nat, w, s). ret = length (filter (\<lambda>x. x = v) (take i xs)) \<and> w = length (?keep i)
     \<and> q_spare d s \<and> (\<exists>mid. q_lay s (?keep i @ mid @ drop i xs) junk \<and> length mid + length (?keep i) = i)"
  have "\<exists>t. for_up 0 (length xs) ?f (0, 0, q) = Ok t \<and> ?P (length xs) t"
  proof (rule for_up_induct [where P = ?P])
    fix i t assume i: "i < length xs" "?P i t"
    obtain ret w s where t: "t = (ret, w, s)" by (cases t)
    from i(2) obtain mid where m: "q_lay s (?keep i @ mid @ drop i xs) junk" "length mid + length (?keep i) = i"
      "ret = length (filter (\<lambda>x. x = v) (take i xs))" "w = length (?keep i)" "q_spare d s" by (auto simp: t)
    let ?ys = "?keep i @ mid @ drop i xs"
    have yi: "i < length ?ys" "?ys ! i = xs ! i" using i(1) m(2) by (auto simp: nth_append)
    then have r: "q_at s i = Ok (xs ! i)" using q_at_lay [OF m(1) yi(1)] by simp
    have tk: "take (Suc i) xs = take i xs @ [xs ! i]" using i(1) by (rule take_Suc_conv_app_nth)
    have dr: "drop i xs = xs ! i # drop (Suc i) xs" using i(1) by (simp add: Cons_nth_drop_Suc)
    show "\<exists>t'. ?f i t = Ok t' \<and> ?P (Suc i) t'"
    proof (cases "xs ! i = v")
      case True
      then have "q_lay s (?keep (Suc i) @ (mid @ [v]) @ drop (Suc i) xs) junk" using m(1) dr tk by simp
      with True show ?thesis using r m tk unfolding t by (auto intro!: exI [of _ "mid @ [v]"])
    next
      case False
      show ?thesis
      proof (cases mid)
        case Nil
        then have "\<not> i > w" using m by simp
        moreover have "q_lay s (?keep (Suc i) @ [] @ drop (Suc i) xs) junk" using m(1) Nil False dr tk by simp
        ultimately show ?thesis using r m tk False Nil unfolding t by auto
      next
        case (Cons y ms)
        then have w: "i > w" "w < length ?ys" using m by auto
        have "?ys[w := xs ! i] = ?keep (Suc i) @ (ms @ [xs ! i]) @ drop (Suc i) xs"
          unfolding Cons m(4) using False dr tk by (simp add: list_update_append)
        then obtain s' where "q_at_put s w (xs ! i) = Ok s'" "q_lay s' (?keep (Suc i) @ (ms @ [xs ! i]) @ drop (Suc i) xs) junk"
          "q_spare d s'"
          using q_at_put_lay [OF m(1) w(2), of "xs ! i" d] m(5) by metis
        moreover have "length (ms @ [xs ! i]) + length (?keep (Suc i)) = Suc i"
          using m(2) Cons False tk by simp
        ultimately show ?thesis using r m w(1) tk False unfolding t by (auto intro!: exI [of _ "ms @ [xs ! i]"])
      qed
    qed
  qed (use lay sp in auto)
  then obtain w s mid where 1: "for_up 0 (length xs) ?f (0, 0, q) = Ok (length (filter (\<lambda>x. x = v) xs), w, s)"
    "w = length (filter (\<lambda>x. x \<noteq> v) xs)" "q_spare d s" "q_lay s (filter (\<lambda>x. x \<noteq> v) xs @ mid) junk"
    "length mid + w = length xs"
    by auto
  let ?k = "filter (\<lambda>x. x \<noteq> v) xs"
  let ?Q = "\<lambda>i s. \<exists>js. q_lay s (?k @ take (length xs - i) mid) js \<and> set js \<subseteq> insert d (set junk) \<and> q_spare d s"
  have "\<exists>t. for_up w (length xs) (\<lambda>i q. obind (RemoveTail d q) (\<lambda>(st, q). Ok q)) s = Ok t \<and> ?Q (length xs) t"
  proof (rule for_up_induct [where P = ?Q])
    fix i t assume i: "w \<le> i" "i < length xs" "?Q i t"
    then have l: "length xs - i = Suc (length xs - Suc i)" "length xs - Suc i < length mid" using 1(5) by auto
    from i(3) obtain js where "q_lay t ((?k @ take (length xs - Suc i) mid) @ [mid ! (length xs - Suc i)]) js"
      "set js \<subseteq> insert d (set junk)" "q_spare d t"
      unfolding l(1) using l(2) by (auto simp: take_Suc_conv_app_nth)
    with RemoveTail_lay [OF this(1), of d] obtain t' where
      "RemoveTail d t = Ok (B_NO_ERROR, t')" "q_lay t' (?k @ take (length xs - Suc i) mid) (d # js)" "q_spare d t'"
      "set js \<subseteq> insert d (set junk)" by metis
    then show "\<exists>t'. obind (RemoveTail d t) (\<lambda>(st, q). Ok q) = Ok t' \<and> ?Q (Suc i) t'"
      by (auto intro!: exI [of _ "d # js"])
  qed (use 1 in auto)
  then obtain t js where 2: "for_up w (length xs) (\<lambda>i q. obind (RemoveTail d q) (\<lambda>(st, q). Ok q)) s = Ok t"
    "q_lay t ?k js" "set js \<subseteq> insert d (set junk)" "q_spare d t" by auto
  have "RemoveAllInstancesOf d q v = Ok (length (filter (\<lambda>x. x = v) xs), t)"
    unfolding RemoveAllInstancesOf_def Let_def count_lay [OF lay] 1(1) using 2(1) by simp
  then show thesis using 2(2-) by (rule that)
qed

subsection \<open>Comparing\<close>

lemma all_at_Ok: "(\<And>i. i \<in> set is \<Longrightarrow> P i = Ok (b i)) \<Longrightarrow> all_at P is = Ok (\<forall>i \<in> set is. b i)"
  by (induction "is") auto

lemma same_at_lay:
  "q_lay q xs junk \<Longrightarrow> q_lay r ys junk2 \<Longrightarrow> i < length xs \<Longrightarrow> j < length ys \<Longrightarrow> same_at q i r j = Ok (xs ! i = ys ! j)"
  by (simp add: same_at_def q_at_lay)

lemma same_items:
  "length xs = length ys \<Longrightarrow> set is = {0..<length xs} \<Longrightarrow> xs = ys \<longleftrightarrow> (\<forall>i \<in> set is. xs ! i = ys ! i)"
  by (auto intro: nth_equalityI)

lemma QueueEq_lay [queue_ops]:
  assumes "q_lay q xs junk" "q_lay r ys junk2"
  shows "QueueEq q r = Ok (xs = ys)"
proof -
  note c = count_lay [OF assms(1)] count_lay [OF assms(2)]
  show ?thesis
proof (cases "length xs = length ys")
  case True
  have "all_at (\<lambda>i. same_at q i r i) (rev [0..<length xs]) = Ok (\<forall>i \<in> set (rev [0..<length xs]). xs ! i = ys ! i)"
    by (rule all_at_Ok) (use True same_at_lay [OF assms] in simp)
  moreover have "xs = ys \<longleftrightarrow> (\<forall>i \<in> set (rev [0..<length xs]). xs ! i = ys ! i)"
    by (rule same_items) (use True in auto)
  ultimately show ?thesis using True unfolding QueueEq_def c by simp
qed (auto simp: QueueEq_def c)
qed

lemma StartsWithQueue_lay [queue_ops]:
  assumes "q_lay q xs junk" "q_lay r ys junk2"
  shows "StartsWithQueue q r = Ok (take (length ys) xs = ys)"
proof -
  note c = count_lay [OF assms(1)] count_lay [OF assms(2)]
  show ?thesis
proof (cases "length ys \<le> length xs")
  case True
  have "all_at (\<lambda>i. same_at r i q i) [0..<length ys] = Ok (\<forall>i \<in> set [0..<length ys]. ys ! i = xs ! i)"
    by (rule all_at_Ok) (use True same_at_lay [OF assms(2,1)] in simp)
  moreover have "ys = take (length ys) xs \<longleftrightarrow> (\<forall>i \<in> set [0..<length ys]. ys ! i = take (length ys) xs ! i)"
    by (rule same_items) (use True in auto)
  then have "(\<forall>i \<in> set [0..<length ys]. ys ! i = xs ! i) \<longleftrightarrow> take (length ys) xs = ys" by auto
  ultimately show ?thesis using True unfolding StartsWithQueue_def c by simp
next
  case False
  then have "take (length ys) xs \<noteq> ys" by (metis length_take min.cobounded1)
  with False show ?thesis by (simp add: StartsWithQueue_def c)
qed
qed

text \<open>
  \<^verbatim>\<open>EndsWith\<close> of a queue compares the suffix's items with the wrong ones; when the suffix is shorter
  (and not empty), it reads behind its last item, so that the assertion fails.
\<close>

lemma EndsWithQueue_asserts:
  assumes "q_lay q xs junk" "q_lay r ys junk2" "ys \<noteq> []" "length ys < length xs"
  shows "EndsWithQueue q r = Fault"
proof -
  have "length ys > 0" using assms(3) by simp
  with assms(4) obtain n where n: "length xs = Suc n" "Suc n - length ys \<le> n"
    by (cases "length xs") (simp_all add: diff_le_mono2 less_eq_Suc_le)
  then have "rev [length xs - length ys..<length xs] = (length xs - 1) # rev [length xs - length ys..<length xs - 1]"
    by (simp only: n(1) upt_Suc) simp
  moreover have "\<not> length xs - 1 < length ys" using assms(4) by linarith
  then have "same_at r (length xs - 1) q (length xs - 1) = Fault"
    by (simp add: same_at_def q_at_def [of r] count_lay [OF assms(2)] del: One_nat_def)
  ultimately show ?thesis using assms
    by (simp add: EndsWithQueue_def count_lay [OF assms(1)] count_lay [OF assms(2)] Let_def)
qed

end
