(* ===== verification/Queue_Sort.thy ===== *)
theory Queue_Sort
  imports Queue_Model
begin

section \<open>Queue: sorting, merging, normalizing and swapping contents\<close>

text \<open>
  The remaining operations of \<^verbatim>\<open>Queue.h\<close>.  \<open>Compare\<close> stands for \<^verbatim>\<open>compareFunctor.Compare\<close>
  with its cookie.  \<open>fuel\<close> bounds the recursions and the loops whose end depends on the data; running
  out of it is the outcome \<open>Spin\<close>.
\<close>

subsection \<open>Binary search\<close>

function Lower_loop :: "('a \<Rightarrow> 'a \<Rightarrow> int) \<Rightarrow> 'a queue \<Rightarrow> 'a \<Rightarrow> nat \<Rightarrow> nat \<Rightarrow> nat outcome" where
  "Lower_loop Compare q val from len =
     (if len > 0 then
        let half = len div 2; mid = add32 from half in
        obind (GetItemAtUnchecked q mid) (\<lambda>m.
        if Compare m val < 0 then Lower_loop Compare q val (add32 mid 1) (len - half - 1)
        else Lower_loop Compare q val from half)
      else Ok from)"
  by auto
termination by (relation "measure (\<lambda>(Compare, q, val, from, len). len)") auto

definition Lower :: "('a \<Rightarrow> 'a \<Rightarrow> int) \<Rightarrow> 'a queue \<Rightarrow> nat \<Rightarrow> nat \<Rightarrow> 'a \<Rightarrow> nat outcome" where
  "Lower Compare q from to val = (if to > from then Lower_loop Compare q val from (to - from) else Ok from)"

function Upper_loop :: "('a \<Rightarrow> 'a \<Rightarrow> int) \<Rightarrow> 'a queue \<Rightarrow> 'a \<Rightarrow> nat \<Rightarrow> nat \<Rightarrow> nat outcome" where
  "Upper_loop Compare q val from len =
     (if len > 0 then
        let half = len div 2; mid = add32 from half in
        obind (GetItemAtUnchecked q mid) (\<lambda>m.
        if Compare val m < 0 then Upper_loop Compare q val from half
        else Upper_loop Compare q val (add32 mid 1) (len - half - 1))
      else Ok from)"
  by auto
termination by (relation "measure (\<lambda>(Compare, q, val, from, len). len)") auto

definition Upper :: "('a \<Rightarrow> 'a \<Rightarrow> int) \<Rightarrow> 'a queue \<Rightarrow> nat \<Rightarrow> nat \<Rightarrow> 'a \<Rightarrow> nat outcome" where
  "Upper Compare q from to val = (if to > from then Upper_loop Compare q val from (to - from) else Ok from)"

declare Lower_loop.simps [simp del] Upper_loop.simps [simp del]

subsection \<open>The rotation in \<open>Merge\<close>\<close>

function gcd_loop :: "nat \<Rightarrow> nat \<Rightarrow> nat" where
  "gcd_loop n m = (if n \<noteq> 0 then gcd_loop (m mod n) n else m)"
  by auto
termination by (relation "measure fst") auto

declare gcd_loop.simps [simp del]

text \<open>The inner loop: it ends when \<^verbatim>\<open>p2\<close> is back at \<open>start\<close>; the result is \<^verbatim>\<open>p1\<close> and the queue.\<close>

definition next_p2 :: "nat \<Rightarrow> nat \<Rightarrow> nat \<Rightarrow> nat \<Rightarrow> nat" where
  "next_p2 first_cut second_cut shift p2 =
     (if sub32 second_cut p2 > shift then add32 p2 shift
      else add32 first_cut (sub32 shift (sub32 second_cut p2)))"

fun cycle_loop :: "nat \<Rightarrow> nat \<Rightarrow> nat \<Rightarrow> nat \<Rightarrow> nat \<Rightarrow> nat \<Rightarrow> nat \<Rightarrow> 'a queue \<Rightarrow> (nat \<times> 'a queue) outcome" where
  "cycle_loop fuel first_cut second_cut shift start p1 p2 q =
     (if p2 \<noteq> start then
        (case fuel of
           0 \<Rightarrow> Spin
         | Suc fuel' \<Rightarrow>
             obind (GetItemAtUnchecked q p2) (\<lambda>v. obind (ReplaceItemAt q p1 v) (\<lambda>(st, q).
             cycle_loop fuel' first_cut second_cut shift start p2 (next_p2 first_cut second_cut shift p2) q)))
      else Ok (p1, q))"

declare cycle_loop.simps [simp del]

definition rotate_cycle :: "nat \<Rightarrow> nat \<Rightarrow> nat \<Rightarrow> nat \<Rightarrow> 'a queue \<Rightarrow> 'a queue outcome" where
  "rotate_cycle first_cut pivot second_cut n q =
     obind (GetItemAtUnchecked q (add32 first_cut n)) (\<lambda>val.
     let shift = sub32 pivot first_cut; p1 = add32 first_cut n; p2 = add32 p1 shift in
     obind (cycle_loop (second_cut - first_cut) first_cut second_cut shift (add32 first_cut n) p1 p2 q) (\<lambda>(p1, q).
     obind (ReplaceItemAt q p1 val) (\<lambda>(st, q). Ok q)))"

definition rotate_items :: "nat \<Rightarrow> nat \<Rightarrow> nat \<Rightarrow> 'a queue \<Rightarrow> 'a queue outcome" where
  "rotate_items first_cut pivot second_cut q =
     (let n = gcd_loop (sub32 pivot first_cut) (sub32 second_cut first_cut)
      in for_down 0 n (rotate_cycle first_cut pivot second_cut) q)"

subsection \<open>Merging and sorting\<close>

text \<open>The two cuts: \<^verbatim>\<open>len11\<close>, \<^verbatim>\<open>len22\<close>, \<^verbatim>\<open>first_cut\<close> and \<^verbatim>\<open>second_cut\<close>.\<close>

definition merge_cuts ::
    "('a \<Rightarrow> 'a \<Rightarrow> int) \<Rightarrow> 'a queue \<Rightarrow> nat \<Rightarrow> nat \<Rightarrow> nat \<Rightarrow> nat \<Rightarrow> nat \<Rightarrow> (nat \<times> nat \<times> nat \<times> nat) outcome" where
  "merge_cuts Compare q from pivot to len1 len2 =
     (if len1 > len2 then
        let len11 = len1 div 2; first_cut = add32 from len11 in
        obind (GetItemAtUnchecked q first_cut) (\<lambda>v.
        obind (Lower Compare q pivot to v) (\<lambda>second_cut.
        Ok (len11, sub32 second_cut pivot, first_cut, second_cut)))
      else
        let len22 = len2 div 2; second_cut = add32 pivot len22 in
        obind (GetItemAtUnchecked q second_cut) (\<lambda>v.
        obind (Upper Compare q from pivot v) (\<lambda>first_cut.
        Ok (sub32 first_cut from, len22, first_cut, second_cut))))"

fun Merge ::
    "nat \<Rightarrow> ('a \<Rightarrow> 'a \<Rightarrow> int) \<Rightarrow> nat \<Rightarrow> nat \<Rightarrow> nat \<Rightarrow> nat \<Rightarrow> nat \<Rightarrow> 'a queue \<Rightarrow> 'a queue outcome" where
  "Merge fuel Compare from pivot to len1 len2 q =
     (if len1 \<noteq> 0 \<and> len2 \<noteq> 0 then
        (if add32 len1 len2 = 2 then
           obind (GetItemAtUnchecked q pivot) (\<lambda>a. obind (GetItemAtUnchecked q from) (\<lambda>b.
           if Compare a b < 0 then Swap q pivot from else Ok q))
         else (case fuel of
             0 \<Rightarrow> Spin
           | Suc fuel' \<Rightarrow>
               obind (merge_cuts Compare q from pivot to len1 len2) (\<lambda>(len11, len22, first_cut, second_cut).
               obind (if pivot \<noteq> first_cut \<and> pivot \<noteq> second_cut
                      then rotate_items first_cut pivot second_cut q else Ok q) (\<lambda>q.
               let new_mid = add32 first_cut len22 in
               obind (Merge fuel' Compare from first_cut new_mid len11 len22 q)
                 (Merge fuel' Compare new_mid second_cut to (sub32 len1 len11) (sub32 len2 len22))))))
      else Ok q)"

declare Merge.simps [simp del]

text \<open>The inner loop of the bubble sort.\<close>

fun bubble_down :: "('a \<Rightarrow> 'a \<Rightarrow> int) \<Rightarrow> nat \<Rightarrow> nat \<Rightarrow> 'a queue \<Rightarrow> 'a queue outcome" where
  "bubble_down Compare from 0 q = Ok q"
| "bubble_down Compare from (Suc j) q =
     (if Suc j > from then
        obind (GetItemAtUnchecked q (Suc j)) (\<lambda>a. obind (GetItemAtUnchecked q j) (\<lambda>b.
        if Compare a b < 0 then obind (Swap q (Suc j) j) (bubble_down Compare from j) else Ok q))
      else Ok q)"

fun Sort :: "nat \<Rightarrow> ('a \<Rightarrow> 'a \<Rightarrow> int) \<Rightarrow> nat \<Rightarrow> nat \<Rightarrow> 'a queue \<Rightarrow> 'a queue outcome" where
  "Sort fuel Compare from to q =
     (let slots = q_count q; to = (if to > slots then slots else to) in
      if to > from then
        (if to < add32 from 12 then
           (if to > add32 from 1 then for_up (add32 from 1) to (bubble_down Compare from) q else Ok q)
         else (case fuel of
             0 \<Rightarrow> Spin
           | Suc fuel' \<Rightarrow>
               let middle = add32 from to div 2 in
               obind (Sort fuel' Compare from middle q) (\<lambda>q.
               obind (Sort fuel' Compare middle to q)
                 (Merge (to - from) Compare from middle to (sub32 middle from) (sub32 to middle)))))
      else Ok q)"

declare Sort.simps [simp del]

subsection \<open>Removing duplicates\<close>

definition dedup_step :: "nat \<Rightarrow> nat \<times> 'a queue \<Rightarrow> (nat \<times> 'a queue) outcome" where
  "dedup_step i = (\<lambda>(numWrittenItems, q).
     obind (q_at q i) (\<lambda>nextItem. obind (q_at q (numWrittenItems - 1)) (\<lambda>wItem.
     if nextItem \<noteq> wItem
     then obind (q_at_put q numWrittenItems nextItem) (\<lambda>q. Ok (numWrittenItems + 1, q))
     else Ok (numWrittenItems, q))))"

definition RemoveDuplicateItems ::
    "(nat \<Rightarrow> bool) \<Rightarrow> 'a \<Rightarrow> ('a \<Rightarrow> 'a \<Rightarrow> int) \<Rightarrow> bool \<Rightarrow> 'a queue \<Rightarrow> (nat \<times> 'a queue) outcome" where
  "RemoveDuplicateItems am d Compare assumeAlreadySorted q =
     (if q_count q = 0 then Ok (0, q)
      else
        obind (if assumeAlreadySorted then Ok q else Sort (q_count q) Compare 0 (2 ^ 32 - 1) q) (\<lambda>q.
        obind (for_up 0 (q_count q) dedup_step (1, q)) (\<lambda>(numWrittenItems, q).
        let ret = sub32 (q_count q) numWrittenItems in
        obind (EnsureSize am d q numWrittenItems True 0 False) (\<lambda>(st, q). Ok (ret, q)))))"

subsection \<open>Normalizing\<close>

text \<open>The inner loop of Paul Hsieh's rotation; the result is \<^verbatim>\<open>t\<close>, \<^verbatim>\<open>c\<close> and the queue.\<close>

fun hsieh_cycle :: "nat \<Rightarrow> nat \<Rightarrow> nat \<Rightarrow> nat \<Rightarrow> nat \<Rightarrow> 'a queue \<Rightarrow> (nat \<times> nat \<times> 'a queue) outcome" where
  "hsieh_cycle fuel v t tp c q =
     (if tp \<noteq> v then
        (case fuel of
           0 \<Rightarrow> Spin
         | Suc fuel' \<Rightarrow>
             obind (q_rd q tp) (\<lambda>x. obind (q_wr q t x) (\<lambda>q.
             let t = tp; tp = add32 tp (q_head q); tp = (if tp \<ge> q_size q then sub32 tp (q_size q) else tp)
             in hsieh_cycle fuel' v t tp (c + 1) q)))
      else Ok (t, c, q))"

fun hsieh_loop :: "nat \<Rightarrow> nat \<Rightarrow> nat \<Rightarrow> 'a queue \<Rightarrow> 'a queue outcome" where
  "hsieh_loop fuel v c q =
     (if c < q_size q then
        (case fuel of
           0 \<Rightarrow> Spin
         | Suc fuel' \<Rightarrow>
             obind (q_rd q v) (\<lambda>tmp.
             obind (hsieh_cycle (q_size q) v v (add32 v (q_head q)) (c + 1) q) (\<lambda>(t, c, q).
             obind (q_wr q t tmp) (hsieh_loop fuel' (v + 1) c))))
      else Ok q)"

declare hsieh_cycle.simps [simp del] hsieh_loop.simps [simp del]

definition move_up :: "'a \<Rightarrow> nat \<Rightarrow> nat \<Rightarrow> 'a queue \<Rightarrow> 'a queue outcome" where
  "move_up d startAt i q =
     obind (q_at q i) (\<lambda>v. obind (q_wr q (add32 startAt i) v) (\<lambda>q. q_at_put q i d))"

definition Normalize :: "'a \<Rightarrow> 'a queue \<Rightarrow> 'a queue outcome" where
  "Normalize d q =
     (if IsNormalized q then Ok q
      else if q_count q * 2 mod 2 ^ 32 \<le> q_size q then
        let startAt = add32 (q_tail q) 1 in
        obind (for_up 0 (q_count q) (move_up d startAt) q) (\<lambda>q.
        Ok (q\<lparr>q_head := startAt, q_tail := sub32 (add32 startAt (q_count q)) 1\<rparr>))
      else
        obind (hsieh_loop (q_size q) 0 0 q) (\<lambda>q.
        Ok (q\<lparr>q_head := 0, q_tail := sub32 (q_count q) 1\<rparr>)))"

subsection \<open>Swapping the contents of two queues\<close>

text \<open>The result is this queue and the other one.\<close>

definition SwapContentsAux :: "'a queue \<Rightarrow> 'a queue \<Rightarrow> ('a queue \<times> 'a queue) outcome" where
  "SwapContentsAux q largeThat =
     (let ni = q_count q in
      obind (for_up 0 ni (\<lambda>i small. obind (q_at q i) (wr small i)) (q_small largeThat)) (\<lambda>small.
      let this = q\<lparr>q_heap := q_heap largeThat, q_place := q_place largeThat, q_size := q_size largeThat,
                   q_head := (if q_size largeThat > 0 then q_head largeThat else 0),
                   q_tail := (if q_size largeThat > 0 then q_tail largeThat else 0),
                   q_count := q_count largeThat\<rparr>;
          that = largeThat\<lparr>q_small := small, q_heap := [], q_count := ni\<rparr>;
          that = (if ni > 0
                  then that\<lparr>q_place := QSmall, q_size := SMALL_QUEUE_SIZE, q_head := 0, q_tail := ni - 1\<rparr>
                  else that\<lparr>q_place := QNull, q_size := 0\<rparr>)
      in Ok (this, that)))"

definition swap_common :: "nat \<Rightarrow> 'a queue \<times> 'a queue \<Rightarrow> ('a queue \<times> 'a queue) outcome" where
  "swap_common commonSize = for_up 0 commonSize (\<lambda>i (q, r).
     obind (q_at q i) (\<lambda>a. obind (q_at r i) (\<lambda>b.
     obind (q_at_put q i b) (\<lambda>q. obind (q_at_put r i a) (\<lambda>r. Ok (q, r))))))"

definition level_small :: "(nat \<Rightarrow> bool) \<Rightarrow> 'a \<Rightarrow> nat \<Rightarrow> 'a queue \<Rightarrow> 'a queue \<Rightarrow> ('a queue \<times> 'a queue) outcome" where
  "level_small am d commonSize copyTo copyFrom =
     obind (AddTailMulti am d copyTo copyFrom commonSize (2 ^ 32 - 1)) (\<lambda>(st, copyTo).
     obind (EnsureSize am d copyFrom commonSize True 0 False) (\<lambda>(st, copyFrom). Ok (copyTo, copyFrom)))"

definition SwapContents :: "(nat \<Rightarrow> bool) \<Rightarrow> 'a \<Rightarrow> 'a queue \<Rightarrow> 'a queue \<Rightarrow> ('a queue \<times> 'a queue) outcome" where
  "SwapContents am d q that =
     (if q_place q = QSmall \<and> q_place that = QSmall then
        let commonSize = min (q_count q) (q_count that) in
        obind (if q_count q > q_count that
               then obind (level_small am d commonSize that q) (\<lambda>(that, q). Ok (q, that))
               else level_small am d commonSize q that)
          (swap_common commonSize)
      else if q_place q = QSmall then SwapContentsAux q that
      else if q_place that = QSmall then
        obind (SwapContentsAux that q) (\<lambda>(that, q). Ok (q, that))
      else
        Ok (q\<lparr>q_heap := q_heap that, q_place := q_place that, q_size := q_size that, q_head := q_head that,
              q_tail := q_tail that, q_count := q_count that\<rparr>,
            that\<lparr>q_heap := q_heap q, q_place := q_place q, q_size := q_size q, q_head := q_head q,
                 q_tail := q_tail q, q_count := q_count q\<rparr>))"

end
