(* ===== verification/Queue_Rotate.thy ===== *)
theory Queue_Rotate
  imports Queue_Bulk Queue_Sort
begin

section \<open>Queue: the rotation by cycles\<close>

text \<open>
  \<^verbatim>\<open>Merge\<close> and \<^verbatim>\<open>Normalize\<close> rotate a range in place: they follow the cycles of \<open>r \<mapsto> r + s\<close>
  modulo the length, one for every residue modulo the greatest common divisor.  The lemmas here are
  about lists first, then about the loops of \<^verbatim>\<open>Merge\<close>.
\<close>

subsection \<open>Cycles\<close>

lemma gcd_loop_gcd [simp]: "gcd_loop n m = gcd n m"
proof (induction n m rule: gcd_loop.induct)
  case (1 n m)
  then show ?case by (subst gcd_loop.simps) (auto simp: gcd_non_0_nat gcd.commute)
qed

definition orbit :: "nat \<Rightarrow> nat \<Rightarrow> nat \<Rightarrow> nat \<Rightarrow> nat" where
  "orbit L s n k = (n + k * s) mod L"

text \<open>The list in which the positions of \<open>A\<close> have already their new items.\<close>

definition turned :: "nat \<Rightarrow> 'a list \<Rightarrow> nat set \<Rightarrow> 'a list" where
  "turned s ys A = map (\<lambda>r. if r \<in> A then ys ! ((r + s) mod length ys) else ys ! r) [0..<length ys]"

lemma length_turned [simp]: "length (turned s ys A) = length ys"
  by (simp add: turned_def)

lemma turned_nth: "r < length ys \<Longrightarrow> turned s ys A ! r = (if r \<in> A then ys ! ((r + s) mod length ys) else ys ! r)"
  by (simp add: turned_def)

lemma turned_empty [simp]: "turned s ys {} = ys"
  by (simp add: turned_def map_nth)

lemma turned_cong: "(\<And>r. r < length ys \<Longrightarrow> r \<in> A \<longleftrightarrow> r \<in> B) \<Longrightarrow> turned s ys A = turned s ys B"
  by (simp add: turned_def)

lemma turned_UNIV: "turned s ys UNIV = rotate s ys"
  by (rule nth_equalityI) (simp_all add: turned_nth nth_rotate add.commute)

lemma turned_update:
  "i < length ys \<Longrightarrow> (turned s ys A)[i := ys ! ((i + s) mod length ys)] = turned s ys (insert i A)"
  by (rule nth_equalityI) (auto simp: turned_nth nth_list_update)

lemma orbit_next: "(orbit L s n k + s) mod L = orbit L s n (Suc k)"
  by (simp add: orbit_def mod_simps add_ac)

text \<open>The cycle of \<open>n\<close> has \<open>N\<close> positions.\<close>

definition is_cycle :: "nat \<Rightarrow> nat \<Rightarrow> nat \<Rightarrow> nat \<Rightarrow> nat \<Rightarrow> bool" where
  "is_cycle L s n g N \<longleftrightarrow> 0 < L \<and> g = gcd s L \<and> N = L div g \<and> n < g"

lemma is_cycleD:
  assumes "is_cycle L s n g N"
  shows "0 < L" "g = gcd s L" "N = L div g" "n < g" "0 < g"
  using assms unfolding is_cycle_def by (blast, blast, blast, blast, linarith)

lemma cycle_length:
  assumes "is_cycle L s n g N"
  shows "N * g = L" "0 < N" "N \<le> L" "n < L" "orbit L s n k < L"
proof -
  have L: "0 < L" and g: "g = gcd s L" and N: "N = L div g" and n: "n < g"
    and "0 < g" by (rule is_cycleD [OF assms])+
  have "g dvd L" unfolding g by simp
  show *: "N * g = L" unfolding N using \<open>g dvd L\<close> by simp
  with L show "0 < N" by (cases N) auto
  show "N \<le> L" using N by simp
  have "g \<le> L" using \<open>g dvd L\<close> L by (rule dvd_imp_le)
  with n show "n < L" by linarith
  show "orbit L s n k < L" using L by (simp add: orbit_def)
qed

lemma orbit_period:
  assumes "is_cycle L s n g N"
  shows "L dvd k * s \<longleftrightarrow> N dvd k"
proof -
  note g0 = is_cycleD(5,2,3) [OF assms]
  obtain s' L' where *: "s = s' * g" "L = L' * g" "coprime s' L'"
    using gcd_coprime_exists [of s L, folded g0(2)] g0(1) by blast
  have "L' = N" unfolding g0(3) using *(2) g0(1) by (metis nonzero_mult_div_cancel_right less_irrefl)
  have "L dvd k * s \<longleftrightarrow> L' * g dvd (k * s') * g" unfolding * by (simp add: ac_simps)
  also have "\<dots> \<longleftrightarrow> L' dvd k * s'" using g0(1) by simp
  also have "\<dots> \<longleftrightarrow> L' dvd k" using *(3) by (simp add: coprime_commute coprime_dvd_mult_left_iff)
  finally show ?thesis using \<open>L' = N\<close> by simp
qed

lemma orbit_eq:
  assumes "is_cycle L s n g N" "i \<le> j"
  shows "orbit L s n i = orbit L s n j \<longleftrightarrow> N dvd j - i"
proof -
  have "n + i * s \<le> n + j * s" using assms(2) by simp
  from mod_eq_dvd_iff_nat [OF this, of L]
  have "orbit L s n i = orbit L s n j \<longleftrightarrow> L dvd (j - i) * s"
    unfolding orbit_def by (metis add_diff_cancel_left diff_mult_distrib)
  then show ?thesis by (simp only: orbit_period [OF assms(1)])
qed

lemma orbit_start:
  assumes "is_cycle L s n g N"
  shows "orbit L s n 0 = n" "orbit L s n N = n"
  using cycle_length [OF assms] orbit_eq [OF assms, of 0 N] by (simp_all add: orbit_def)

lemma orbit_back:
  assumes "is_cycle L s n g N" "0 < k" "k < N"
  shows "orbit L s n k \<noteq> n"
  using assms(2,3) orbit_eq [OF assms(1), of 0 k] orbit_start(1) [OF assms(1)] by (auto dest: dvd_imp_le)

lemma orbit_inj:
  assumes "is_cycle L s n g N"
  shows "inj_on (orbit L s n) {..<N}"
proof (rule linorder_inj_onI)
  fix i j assume "i < j" "i \<in> {..<N}" "j \<in> {..<N}"
  then show "orbit L s n i \<noteq> orbit L s n j" using orbit_eq [OF assms, of i j] by (auto dest: dvd_imp_le)
qed auto

lemma orbit_residue:
  assumes "is_cycle L s n g N"
  shows "orbit L s n k mod g = n"
proof -
  have "n < g" by (rule is_cycleD [OF assms])
  have "g dvd L" "g dvd s" unfolding is_cycleD(2) [OF assms] by simp_all
  then have "orbit L s n k mod g = (n + k * s) mod g" by (simp add: orbit_def mod_mod_cancel)
  also have "\<dots> = n mod g" using \<open>g dvd s\<close> by (metis dvd_mult mod_add_right_eq add_0_right dvd_imp_mod_0)
  finally show ?thesis using \<open>n < g\<close> by simp
qed

lemma orbit_all:
  assumes "is_cycle L s n g N"
  shows "orbit L s n ` {..<N} = {r. r < L \<and> r mod g = n}"
proof (rule card_seteq)
  show "orbit L s n ` {..<N} \<subseteq> {r. r < L \<and> r mod g = n}"
    using cycle_length(5) [OF assms] orbit_residue [OF assms] by auto
  have "{r. r < L \<and> r mod g = n} \<subseteq> (\<lambda>i. n + i * g) ` {..<N}"
  proof
    fix r assume r: "r \<in> {r. r < L \<and> r mod g = n}"
    then have r': "r < N * g" "r mod g = n" using cycle_length(1) [OF assms] by auto
    then have "r = n + r div g * g" by (metis (mono_tags) mem_Collect_eq add.commute div_mult_mod_eq)
    moreover have "r div g < N" 
      using r'(1) by (rule less_mult_imp_div_less)
    ultimately show "r \<in> (\<lambda>i. n + i * g) ` {..<N}" by blast
  qed
  then have "card {r. r < L \<and> r mod g = n} \<le> card ((\<lambda>i. n + i * g) ` {..<N})" by (rule card_mono [rotated]) simp
  also have "\<dots> \<le> N" using card_image_le [of "{..<N}"] by simp
  finally have "card {r. r < L \<and> r mod g = n} \<le> N" .
  then show "card {r. r < L \<and> r mod g = n} \<le> card (orbit L s n ` {..<N})"
    using card_image [OF orbit_inj [OF assms]] by simp
qed simp

text \<open>One step of a cycle, and its end, on the positions that have their items.\<close>

lemma turned_step:
  assumes c: "is_cycle (length ys) s n g N" and D: "\<forall>r \<in> D. r mod g \<noteq> n" and k: "Suc k < N"
  defines "A \<equiv> D \<union> orbit (length ys) s n ` {..<k}"
  shows "(turned s ys A)[orbit (length ys) s n k := turned s ys A ! orbit (length ys) s n (Suc k)]
    = turned s ys (D \<union> orbit (length ys) s n ` {..<Suc k})"
proof -
  let ?f = "orbit (length ys) s n"
  have "?f (Suc k) \<notin> ?f ` {..<k}" using inj_onD [OF orbit_inj [OF c], of "Suc k"] k by fastforce
  moreover have "?f (Suc k) \<notin> D" using D orbit_residue [OF c] by blast
  ultimately have "turned s ys A ! ?f (Suc k) = ys ! ((?f k + s) mod length ys)"
    using cycle_length(5) [OF c] by (simp add: A_def turned_nth orbit_next)
  moreover have "insert (?f k) A = D \<union> ?f ` {..<Suc k}" by (auto simp: A_def lessThan_Suc)
  ultimately show ?thesis using turned_update [OF cycle_length(5) [OF c]] by simp
qed

lemma turned_last:
  assumes c: "is_cycle (length ys) s n g N" and k: "Suc k = N"
  shows "(turned s ys (D \<union> orbit (length ys) s n ` {..<k}))[orbit (length ys) s n k := ys ! n]
    = turned s ys (D \<union> {r. r mod g = n})"
proof -
  let ?f = "orbit (length ys) s n"
  have n: "(?f k + s) mod length ys = n" unfolding orbit_next k by (rule orbit_start(2) [OF c])
  have "(turned s ys (D \<union> ?f ` {..<k}))[?f k := ys ! n] = turned s ys (insert (?f k) (D \<union> ?f ` {..<k}))"
    by (rule turned_update [OF cycle_length(5) [OF c, of k], where s = s, unfolded n])
  also have "insert (?f k) (D \<union> ?f ` {..<k}) = D \<union> ?f ` {..<N}" by (auto simp: k [symmetric] lessThan_Suc)
  also have "turned s ys (D \<union> ?f ` {..<N}) = turned s ys (D \<union> {r. r mod g = n})"
    unfolding orbit_all [OF c] by (rule turned_cong) auto
  finally show ?thesis .
qed

subsection \<open>The loops of the rotation\<close>

text \<open>The items of a queue around the range \<open>zs\<close>, which starts at index \<open>length pre\<close>.\<close>

lemma seg_read:
  assumes "q_lay q (pre @ zs @ post) junk" "r < length zs"
  shows "GetItemAtUnchecked q (length pre + r) = Ok (zs ! r)"
  using get_unchecked [OF assms(1), of "length pre + r"] assms(2) by (simp add: nth_append)

lemma seg_write:
  assumes "q_lay q (pre @ zs @ post) junk" "r < length zs" "q_spare d q"
  obtains q' where "ReplaceItemAt q (length pre + r) v = Ok (B_NO_ERROR, q')"
    "q_lay q' (pre @ zs[r := v] @ post) junk" "q_spare d q'"
proof -
  have i: "length pre + r < length (pre @ zs @ post)" using assms(2) by simp
  have e: "(pre @ zs @ post)[length pre + r := v] = pre @ zs[r := v] @ post"
    using assms(2) by (simp add: list_update_append)
  show thesis
    using ReplaceItemAt_lay [OF assms(1) i, where v = v and d = d] that assms(3) unfolding e by metis
qed

lemma next_p2_mod:
  assumes "r < L" "0 < s" "s < L" "a + L < 2 ^ 31"
  shows "next_p2 a (a + L) s (a + r) = a + (r + s) mod L"
  using assms by (auto simp: next_p2_def mod_if)

lemma cycle_loop_lay:
  assumes c: "is_cycle (length ys) s n g N" and s: "0 < s" "s < length ys"
    and b: "length pre + length ys < 2 ^ 31" and D: "\<forall>r \<in> D. r mod g \<noteq> n"
  shows "Suc k \<le> N \<Longrightarrow> N \<le> fuel + Suc k \<Longrightarrow>
    q_lay q (pre @ turned s ys (D \<union> orbit (length ys) s n ` {..<k}) @ post) junk \<Longrightarrow> q_spare d q \<Longrightarrow>
    \<exists>q'. cycle_loop fuel (length pre) (length pre + length ys) s (length pre + n)
           (length pre + orbit (length ys) s n k) (length pre + orbit (length ys) s n (Suc k)) q
         = Ok (length pre + orbit (length ys) s n (N - 1), q')
      \<and> q_lay q' (pre @ turned s ys (D \<union> orbit (length ys) s n ` {..<N - 1}) @ post) junk \<and> q_spare d q'"
proof (induction fuel arbitrary: k q)
  case 0
  then have "Suc k = N" by simp
  then have "orbit (length ys) s n (Suc k) = n" "N - 1 = k" using orbit_start(2) [OF c] by simp_all
  with 0 show ?case by (subst cycle_loop.simps) simp
next
  case (Suc fuel)
  let ?f = "orbit (length ys) s n" and ?A = "D \<union> orbit (length ys) s n ` {..<k}"
  show ?case
  proof (cases "Suc k = N")
    case True
    then have "?f (Suc k) = n" "N - 1 = k" using orbit_start(2) [OF c] by simp_all
    with Suc.prems show ?thesis by (subst cycle_loop.simps) simp
  next
    case False
    then have k: "Suc k < N" using Suc.prems(1) by simp
    note lt = cycle_length(5) [OF c]
    have r: "GetItemAtUnchecked q (length pre + ?f (Suc k)) = Ok (turned s ys ?A ! ?f (Suc k))"
      by (rule seg_read [OF Suc.prems(3)]) (simp add: lt)
    have "?f k < length (turned s ys ?A)" by (simp add: lt)
    from seg_write [OF Suc.prems(3) this Suc.prems(4), of "turned s ys ?A ! ?f (Suc k)"]
    obtain q1 where q1: "ReplaceItemAt q (length pre + ?f k) (turned s ys ?A ! ?f (Suc k)) = Ok (B_NO_ERROR, q1)"
      "q_lay q1 (pre @ turned s ys (D \<union> ?f ` {..<Suc k}) @ post) junk" "q_spare d q1"
      unfolding turned_step [OF c D k] by metis
    have nx: "next_p2 (length pre) (length pre + length ys) s (length pre + ?f (Suc k)) = length pre + ?f (Suc (Suc k))"
      unfolding next_p2_mod [OF lt s b] orbit_next ..
    have "?f (Suc k) \<noteq> n" by (rule orbit_back [OF c]) (use k in simp_all)
    moreover have "Suc (Suc k) \<le> N" "N \<le> fuel + Suc (Suc k)" using k Suc.prems(2) by simp_all
    note Suc.IH [OF this q1(2,3)]
    ultimately show ?thesis using r q1(1) nx by (subst cycle_loop.simps) simp
  qed
qed

lemma rotate_cycle_lay:
  assumes c: "is_cycle (length ys) s n g N" and s: "0 < s" "s < length ys"
    and b: "length pre + length ys < 2 ^ 31" and D: "\<forall>r \<in> D. r mod g \<noteq> n"
    and q: "q_lay q (pre @ turned s ys D @ post) junk" "q_spare d q"
  obtains q' where "rotate_cycle (length pre) (length pre + s) (length pre + length ys) n q = Ok q'"
    "q_lay q' (pre @ turned s ys (D \<union> {r. r mod g = n}) @ post) junk" "q_spare d q'"
proof -
  let ?f = "orbit (length ys) s n"
  note l = cycle_length [OF c]
  have "n mod g = n" using is_cycleD(4) [OF c] by simp
  then have "n \<notin> D" using D by blast
  then have v: "GetItemAtUnchecked q (length pre + n) = Ok (ys ! n)"
    using seg_read [OF q(1), of n] l(4) by (simp add: turned_nth)
  have "\<exists>q'. cycle_loop (length ys) (length pre) (length pre + length ys) s (length pre + n)
      (length pre + ?f 0) (length pre + ?f (Suc 0)) q = Ok (length pre + ?f (N - 1), q')
    \<and> q_lay q' (pre @ turned s ys (D \<union> ?f ` {..<N - 1}) @ post) junk \<and> q_spare d q'"
    by (rule cycle_loop_lay [OF c s b D]) (use l q in auto)
  then obtain q1 where q1: "cycle_loop (length ys) (length pre) (length pre + length ys) s (length pre + n)
      (length pre + ?f 0) (length pre + ?f (Suc 0)) q = Ok (length pre + ?f (N - 1), q1)"
    "q_lay q1 (pre @ turned s ys (D \<union> ?f ` {..<N - 1}) @ post) junk" "q_spare d q1" by blast
  have "?f (N - 1) < length (turned s ys (D \<union> ?f ` {..<N - 1}))" by (simp add: l(5))
  from seg_write [OF q1(2) this q1(3), of "ys ! n"] obtain q2 where
    q2: "ReplaceItemAt q1 (length pre + ?f (N - 1)) (ys ! n) = Ok (B_NO_ERROR, q2)"
    "q_lay q2 (pre @ turned s ys (D \<union> {r. r mod g = n}) @ post) junk" "q_spare d q2"
    using turned_last [OF c, of "N - 1" D] l(2) by auto
  have "orbit (length ys) s n (Suc 0) = (n + s) mod length ys" by (simp add: orbit_def)
  have "n + s < length ys"
  proof -
    have "g dvd length ys - s" using is_cycleD(2) [OF c] s(2) by (simp add: dvd_diff_nat)
    then have "g \<le> length ys - s" using s(2) by (intro dvd_imp_le) simp_all
    then show ?thesis using is_cycleD(4) [OF c] by linarith
  qed
  then have "?f 0 = n" "?f (Suc 0) = n + s" using l(4) by (simp_all add: orbit_def)
  with q1(1) q2(1) v s b l(4) \<open>n + s < length ys\<close>
  have "rotate_cycle (length pre) (length pre + s) (length pre + length ys) n q = Ok q2"
    by (simp add: rotate_cycle_def Let_def add.assoc)
  then show thesis using q2(2,3) by (rule that)
qed

lemma rotate_items_lay:
  assumes s: "0 < s" "s < length ys" and b: "length pre + length ys < 2 ^ 31"
    and q: "q_lay q (pre @ ys @ post) junk" "q_spare d q"
  obtains q' where "rotate_items (length pre) (length pre + s) (length pre + length ys) q = Ok q'"
    "q_lay q' (pre @ rotate s ys @ post) junk" "q_spare d q'"
proof -
  define g where "g = gcd s (length ys)"
  have g: "0 < g" using s unfolding g_def by simp
  let ?P = "\<lambda>n q. q_lay q (pre @ turned s ys {r. n \<le> r mod g} @ post) junk \<and> q_spare d q"
  have "\<exists>q'. for_down 0 g (rotate_cycle (length pre) (length pre + s) (length pre + length ys)) q = Ok q' \<and> ?P 0 q'"
  proof (rule for_down_induct [where P = ?P])
    have "r mod g < g" for r using g by (rule mod_less_divisor)
    then have "{r. g \<le> r mod g} = {}" by (auto simp: linorder_not_le)
    then show "?P g q" using q by (simp only: turned_empty)
    fix n q assume n: "n < g" "?P (Suc n) q"
    have c: "is_cycle (length ys) s n g (length ys div g)" using n(1) s by (auto simp: is_cycle_def g_def)
    have "{r. Suc n \<le> r mod g} \<union> {r. r mod g = n} = {r. n \<le> r mod g}" by auto
    with rotate_cycle_lay [OF c s b, of "{r. Suc n \<le> r mod g}" q post junk d] n(2)
    show "\<exists>q'. rotate_cycle (length pre) (length pre + s) (length pre + length ys) n q = Ok q' \<and> ?P n q'" by force
  qed simp
  then obtain q' where "for_down 0 g (rotate_cycle (length pre) (length pre + s) (length pre + length ys)) q = Ok q'"
    "q_lay q' (pre @ turned s ys UNIV @ post) junk" "q_spare d q'" by auto
  then show thesis using that b s unfolding turned_UNIV by (simp add: rotate_items_def g_def)
qed

end
