(* ===== verification/Stable_Sort.thy ===== *)
theory Stable_Sort
  imports Main "HOL-Library.Multiset"
begin

section \<open>Stable sorting of lists\<close>

text \<open>
  The comparison functions of the code return a negative, zero or positive number.  \<open>by_key\<close>: the
  negative ones order by a key; \<open>orders_by\<close>: the positive ones do as well.  The lemmas are about the
  stable sort \<open>sort_key\<close> of the library; the sorts of \<^verbatim>\<open>Queue\<close> and \<^verbatim>\<open>Hashtable\<close> are shown equal to it.
\<close>

definition by_key :: "('a \<Rightarrow> 'a \<Rightarrow> int) \<Rightarrow> ('a \<Rightarrow> 'k::linorder) \<Rightarrow> bool" where
  "by_key Compare key \<longleftrightarrow> (\<forall>a b. Compare a b < 0 \<longleftrightarrow> key a < key b)"

definition orders_by :: "('a \<Rightarrow> 'a \<Rightarrow> int) \<Rightarrow> ('a \<Rightarrow> 'k::linorder) \<Rightarrow> bool" where
  "orders_by Compare key \<longleftrightarrow> by_key Compare key \<and> (\<forall>a b. Compare a b > 0 \<longleftrightarrow> key b < key a)"

lemma sort_key_cong:
  assumes "mset xs = mset ys" "\<And>k. filter (\<lambda>x. key x = k) xs = filter (\<lambda>x. key x = k) ys"
  shows "sort_key key xs = sort_key key ys"
proof (rule properties_for_sort_key)
  show "filter (\<lambda>x. key k = key x) (sort_key key ys) = filter (\<lambda>x. key k = key x) xs" for k
    using assms(2) [of "key k"] sort_key_stable [of key "key k" ys] by (simp add: eq_commute [of "key k"])
qed (use assms in simp_all)

lemma sort_key_split:
  assumes "\<forall>x \<in> set xs. \<forall>y \<in> set ys. key x \<le> key y"
  shows "sort_key key (xs @ ys) = sort_key key xs @ sort_key key ys"
proof (rule properties_for_sort_key)
  show "filter (\<lambda>x. key k = key x) (sort_key key xs @ sort_key key ys) = filter (\<lambda>x. key k = key x) (xs @ ys)" for k
    using sort_key_stable [of key "key k" xs] sort_key_stable [of key "key k" ys]
    by (simp add: eq_commute [of "key k"])
  show "sorted (map key (sort_key key xs @ sort_key key ys))"
    using assms by (auto simp: sorted_append)
qed simp

lemma sort_key_sorted: "sorted (map key xs) \<Longrightarrow> sort_key key xs = xs"
  by (rule properties_for_sort_key) simp_all

lemma sort_key_parts: "sort_key key (sort_key key xs @ sort_key key ys) = sort_key key (xs @ ys)"
  by (rule sort_key_cong) (simp_all add: sort_key_stable)

lemma sort_key_swap:
  assumes "\<forall>x \<in> set xs. \<forall>y \<in> set ys. key y < key x"
  shows "sort_key key (as @ xs @ ys @ bs) = sort_key key (as @ ys @ xs @ bs)"
proof (rule sort_key_cong)
  fix k
  have "filter (\<lambda>x. key x = k) xs = [] \<or> filter (\<lambda>x. key x = k) ys = []"
    using assms by (force simp: filter_empty_conv)
  then show "filter (\<lambda>x. key x = k) (as @ xs @ ys @ bs) = filter (\<lambda>x. key x = k) (as @ ys @ xs @ bs)" by auto
qed simp

text \<open>Merging two lists, the first one first among equals.\<close>

fun merge_by :: "('a \<Rightarrow> 'k::linorder) \<Rightarrow> 'a list \<Rightarrow> 'a list \<Rightarrow> 'a list" where
  "merge_by key (x # xs) (y # ys) = (if key x \<le> key y then x # merge_by key xs (y # ys) else y # merge_by key (x # xs) ys)"
| "merge_by key [] ys = ys"
| "merge_by key xs [] = xs"

lemma merge_by_Nil [simp]: "merge_by key xs [] = xs"
  by (cases xs) simp_all

lemma merge_by_sort:
  "sorted (map key xs) \<Longrightarrow> sorted (map key ys) \<Longrightarrow> merge_by key xs ys = sort_key key (xs @ ys)"
proof (induction key xs ys rule: merge_by.induct)
  case (1 key x xs y ys)
  show ?case
  proof (cases "key x \<le> key y")
    case True
    have "key y \<le> key z" if "z \<in> set (y # ys)" for z using 1(4) that by (cases "z = y") simp_all
    then have "\<forall>u \<in> set [x]. \<forall>z \<in> set (xs @ y # ys). key u \<le> key z"
      using 1(3) True by (simp add: ball_Un) (blast intro: order_trans)
    then have "sort_key key ([x] @ xs @ y # ys) = sort_key key [x] @ sort_key key (xs @ y # ys)"
      by (intro sort_key_split) simp
    then show ?thesis using 1 True by simp
  next
    case False
    have "key x \<le> key z" if "z \<in> set (x # xs)" for z using 1(3) that by (cases "z = x") simp_all
    then have less: "\<forall>z \<in> set (x # xs). \<forall>w \<in> set [y]. key w < key z" using False by (simp add: not_le) (blast intro: less_le_trans)
    then have "sort_key key ([] @ (x # xs) @ [y] @ ys) = sort_key key ([] @ [y] @ (x # xs) @ ys)"
      by (intro sort_key_swap) simp
    moreover have "sort_key key ([y] @ (x # xs) @ ys) = sort_key key [y] @ sort_key key ((x # xs) @ ys)"
    proof (rule sort_key_split, intro ballI)
      fix u z assume "u \<in> set [y]" "z \<in> set ((x # xs) @ ys)"
      then show "key u \<le> key z" using less 1(4) by (auto dest: less_imp_le)
    qed
    moreover have "merge_by key (x # xs) ys = sort_key key ((x # xs) @ ys)" using 1 False by simp
    ultimately show ?thesis using False by simp
  qed
next
  case (3 key v va)
  from 3(1) have "sort_key key (v # va) = v # va" by (rule sort_key_sorted)
  then show ?case by simp
qed (simp add: sort_key_sorted)

text \<open>Bottom-up merge sort: one pass merges the runs of a length two by two.\<close>

function merge_pairs :: "('a \<Rightarrow> 'k::linorder) \<Rightarrow> nat \<Rightarrow> 'a list \<Rightarrow> 'a list" where
  "merge_pairs key m xs = (if xs = [] \<or> m = 0 then xs
     else merge_by key (take m xs) (take m (drop m xs)) @ merge_pairs key m (drop (2 * m) xs))"
  by pat_completeness auto
termination by (relation "measure (\<lambda>(key, m, xs). length xs)") (auto simp: length_greater_0_conv)

declare merge_pairs.simps [simp del]

lemma merge_pairs_step:
  "xs \<noteq> [] \<Longrightarrow> 0 < m \<Longrightarrow>
   merge_pairs key m xs = merge_by key (take m xs) (take m (drop m xs)) @ merge_pairs key m (drop (2 * m) xs)"
  by (subst merge_pairs.simps) simp

lemma merge_pairs_Nil [simp]: "merge_pairs key m [] = []"
  by (simp add: merge_pairs.simps)

text \<open>All runs of a length are sorted.\<close>

definition runs_sorted :: "('a \<Rightarrow> 'k::linorder) \<Rightarrow> nat \<Rightarrow> 'a list \<Rightarrow> bool" where
  "runs_sorted key m xs \<longleftrightarrow> (\<forall>i. sorted (map key (take m (drop (i * m) xs))))"

lemma runs_sorted_1: "runs_sorted key 1 xs"
proof -
  have "sorted (map key (take 1 ys))" for ys by (cases ys) simp_all
  then show ?thesis by (simp add: runs_sorted_def)
qed

lemma runs_sorted_drop: "runs_sorted key m xs \<Longrightarrow> runs_sorted key m (drop (j * m) xs)"
  unfolding runs_sorted_def by (metis add_mult_distrib drop_drop)

lemma runs_sorted_all: "runs_sorted key m xs \<Longrightarrow> length xs \<le> m \<Longrightarrow> sorted (map key xs)"
  unfolding runs_sorted_def by (metis drop0 mult_0 take_all_iff)

lemma length_merge_by [simp]: "length (merge_by key xs ys) = length xs + length ys"
  by (induction key xs ys rule: merge_by.induct) auto

lemma length_merge_pairs [simp]: "length (merge_pairs key m xs) = length xs"
proof (induction key m xs rule: merge_pairs.induct)
  case (1 key m xs)
  show ?case
  proof (cases "xs = [] \<or> m = 0")
    case True
    then show ?thesis by (simp add: merge_pairs.simps)
  next
    case False
    then show ?thesis using 1 merge_pairs_step [of xs m key] by simp
  qed
qed

lemma merge_pairs_sort:
  "runs_sorted key m xs \<Longrightarrow> 0 < m \<Longrightarrow> sort_key key (merge_pairs key m xs) = sort_key key xs \<and> runs_sorted key (2 * m) (merge_pairs key m xs)"
proof (induction key m xs rule: merge_pairs.induct)
  case (1 key m xs)
  show ?case
  proof (cases "xs = []")
    case True
    then show ?thesis by (simp add: runs_sorted_def)
  next
    case False
    let ?a = "take m xs" and ?b = "take m (drop m xs)" and ?c = "drop (2 * m) xs"
    have s: "sorted (map key ?a)" "sorted (map key ?b)"
      using spec [OF 1(2) [unfolded runs_sorted_def], of 0] spec [OF 1(2) [unfolded runs_sorted_def], of 1] by simp_all
    have r: "sort_key key (merge_pairs key m ?c) = sort_key key ?c" "runs_sorted key (2 * m) (merge_pairs key m ?c)"
      using 1(1) [OF _ runs_sorted_drop [of key m xs 2]] 1(2,3) False by simp_all
    have e: "merge_pairs key m xs = sort_key key (?a @ ?b) @ merge_pairs key m ?c"
      unfolding merge_pairs_step [OF False 1(3)] merge_by_sort [OF s] ..
    have x: "xs = (?a @ ?b) @ ?c" by (metis append_take_drop_id mult_2 take_add)
    have "sort_key key (merge_pairs key m xs) = sort_key key (sort_key key (?a @ ?b) @ sort_key key (merge_pairs key m ?c))"
      unfolding e by (metis sort_key_parts sort_key_sorted sorted_sort_key)
    also have "\<dots> = sort_key key ((?a @ ?b) @ ?c)" unfolding r(1) by (rule sort_key_parts)
    finally have "sort_key key (merge_pairs key m xs) = sort_key key xs" using x by simp
    moreover have "runs_sorted key (2 * m) (merge_pairs key m xs)"
    proof (cases "length xs \<le> 2 * m")
      case True
      then have "merge_pairs key m xs = sort_key key (?a @ ?b)" using e by simp
      then show ?thesis
        by (simp add: runs_sorted_def sorted_wrt_take sorted_wrt_drop flip: take_map drop_map)
    next
      case False
      then have l: "length (sort_key key (?a @ ?b)) = 2 * m" by simp
      show ?thesis unfolding runs_sorted_def
      proof
        fix i show "sorted (map key (take (2 * m) (drop (i * (2 * m)) (merge_pairs key m xs))))"
        proof (cases i)
          case 0
          then show ?thesis unfolding e using l by simp
        next
          case (Suc j)
          have "drop (i * (2 * m)) (merge_pairs key m xs) = drop (j * (2 * m)) (merge_pairs key m ?c)"
            unfolding e Suc using l by simp
          then show ?thesis using r(2) unfolding runs_sorted_def by simp
        qed
      qed
    qed
    ultimately show ?thesis by blast
  qed
qed

end
