(* ===== verification/Queue_Sorted.thy ===== *)
theory Queue_Sorted
  imports Queue_Rotate Stable_Sort
begin

section \<open>Queue: sorting is stable sorting\<close>

text \<open>
  The comparison orders the items by a key.  Then \<^verbatim>\<open>Lower\<close> and \<^verbatim>\<open>Upper\<close> are the two bounds of a
  binary search, \<^verbatim>\<open>Merge\<close> merges two sorted ranges in place, and \<^verbatim>\<open>Sort\<close> is the stable sort
  \<open>sort_key\<close> of the library, on the range of indices that it is asked to sort.
\<close>

subsection \<open>The step of the merge\<close>

text \<open>The step of the merge: both sorted lists are cut so that the middle parts change places.\<close>

lemma sort_key_cut:
  assumes "sorted (map key (as @ bs))" "sorted (map key (cs @ ds))"
    "\<forall>x \<in> set as. \<forall>y \<in> set ds. key x \<le> key y" "\<forall>x \<in> set bs. \<forall>y \<in> set cs. key y < key x"
  shows "sort_key key ((as @ bs) @ cs @ ds) = sort_key key (as @ cs) @ sort_key key (bs @ ds)"
proof -
  have "sort_key key ((as @ bs) @ cs @ ds) = sort_key key (as @ cs @ bs @ ds)"
    using sort_key_swap [OF assms(4), of as ds] by simp
  also have "\<dots> = sort_key key ((as @ cs) @ bs @ ds)" by simp
  also have "\<dots> = sort_key key (as @ cs) @ sort_key key (bs @ ds)"
    by (rule sort_key_split) (use assms in \<open>auto simp: sorted_append intro: less_imp_le\<close>)
  finally show ?thesis .
qed

subsection \<open>Binary search\<close>

lemma mid_small: "from + len < 2 ^ 31 \<Longrightarrow> add32 from (len div 2) = from + len div 2"
  "from + len < 2 ^ 31 \<Longrightarrow> len > 0 \<Longrightarrow> add32 (from + len div 2) 1 = from + len div 2 + 1"
  by (rule add32_small; simp)+

lemma Lower_loop_lay:
  assumes c: "by_key Compare key" and q: "q_lay q (pre @ zs @ post) junk"
    and bound: "length (pre @ zs @ post) < 2 ^ 31" and s: "sorted (map key zs)"
  shows "i + len \<le> length zs \<Longrightarrow> (\<forall>j < i. key (zs ! j) < key v) \<Longrightarrow>
    (\<forall>j. i + len \<le> j \<longrightarrow> j < length zs \<longrightarrow> \<not> key (zs ! j) < key v) \<Longrightarrow>
    \<exists>p \<le> length zs. Lower_loop Compare q v (length pre + i) len = Ok (length pre + p)
      \<and> (\<forall>j < p. key (zs ! j) < key v) \<and> (\<forall>j. p \<le> j \<longrightarrow> j < length zs \<longrightarrow> \<not> key (zs ! j) < key v)"
proof (induction len arbitrary: i rule: less_induct)
  case (less len)
  show ?case
  proof (cases "len = 0")
    case True
    then show ?thesis using less.prems by (subst Lower_loop.simps) auto
  next
    case False
    let ?m = "i + len div 2"
    have m: "?m < length zs" "length pre + i + len < 2 ^ 31" using less.prems(1) False bound by auto
    have mono: "key (zs ! j) \<le> key (zs ! k)" if "j \<le> k" "k < length zs" for j k
      using sorted_nth_mono [OF s, of j k] that by simp
    have g: "GetItemAtUnchecked q (length pre + i + len div 2) = Ok (zs ! ?m)"
      using seg_read [OF q m(1)] by (simp add: add.assoc)
    show ?thesis
    proof (cases "key (zs ! ?m) < key v")
      case True
      have "len - len div 2 - 1 < len" "Suc ?m + (len - len div 2 - 1) = i + len" using False by linarith+
      moreover have "\<forall>j < Suc ?m. key (zs ! j) < key v" using True mono m(1) by (meson le_less_trans less_Suc_eq_le)
      moreover have "length pre + i + len div 2 + 1 = length pre + Suc ?m" by simp
      ultimately show ?thesis
        using less.IH [of "len - len div 2 - 1" "Suc ?m"] less.prems True c g False mid_small [OF m(2)]
        by (subst Lower_loop.simps) (simp add: by_key_def Let_def add.assoc)
    next
      case no: False
      have "\<forall>j. i + len div 2 \<le> j \<longrightarrow> j < length zs \<longrightarrow> \<not> key (zs ! j) < key v"
        using no mono by (meson le_less_trans)
      moreover have "len div 2 < len" "i + len div 2 \<le> length zs" using False m by auto
      ultimately show ?thesis
        using less.IH [of "len div 2" i] less.prems(2) no c g False mid_small [OF m(2)]
        by (subst Lower_loop.simps) (simp add: by_key_def Let_def add.assoc)
    qed
  qed
qed

lemma Upper_loop_lay:
  assumes c: "by_key Compare key" and q: "q_lay q (pre @ zs @ post) junk"
    and bound: "length (pre @ zs @ post) < 2 ^ 31" and s: "sorted (map key zs)"
  shows "i + len \<le> length zs \<Longrightarrow> (\<forall>j < i. \<not> key v < key (zs ! j)) \<Longrightarrow>
    (\<forall>j. i + len \<le> j \<longrightarrow> j < length zs \<longrightarrow> key v < key (zs ! j)) \<Longrightarrow>
    \<exists>p \<le> length zs. Upper_loop Compare q v (length pre + i) len = Ok (length pre + p)
      \<and> (\<forall>j < p. \<not> key v < key (zs ! j)) \<and> (\<forall>j. p \<le> j \<longrightarrow> j < length zs \<longrightarrow> key v < key (zs ! j))"
proof (induction len arbitrary: i rule: less_induct)
  case (less len)
  show ?case
  proof (cases "len = 0")
    case True
    then show ?thesis using less.prems by (subst Upper_loop.simps) auto
  next
    case False
    let ?m = "i + len div 2"
    have m: "?m < length zs" "length pre + i + len < 2 ^ 31" using less.prems(1) False bound by auto
    have mono: "key (zs ! j) \<le> key (zs ! k)" if "j \<le> k" "k < length zs" for j k
      using sorted_nth_mono [OF s, of j k] that by simp
    have g: "GetItemAtUnchecked q (length pre + i + len div 2) = Ok (zs ! ?m)"
      using seg_read [OF q m(1)] by (simp add: add.assoc)
    show ?thesis
    proof (cases "key v < key (zs ! ?m)")
      case False: False
      have "len - len div 2 - 1 < len" "Suc ?m + (len - len div 2 - 1) = i + len" using \<open>len \<noteq> 0\<close> by linarith+
      moreover have "\<forall>j < Suc ?m. \<not> key v < key (zs ! j)" using False mono m(1) by (meson less_le_trans less_Suc_eq_le)
      moreover have "length pre + i + len div 2 + 1 = length pre + Suc ?m" by simp
      ultimately show ?thesis
        using less.IH [of "len - len div 2 - 1" "Suc ?m"] less.prems False c g \<open>len \<noteq> 0\<close> mid_small [OF m(2)]
        by (subst Upper_loop.simps) (simp add: by_key_def Let_def add.assoc)
    next
      case True
      have "\<forall>j. i + len div 2 \<le> j \<longrightarrow> j < length zs \<longrightarrow> key v < key (zs ! j)"
        using True mono by (meson less_le_trans)
      moreover have "len div 2 < len" "i + len div 2 \<le> length zs" using \<open>len \<noteq> 0\<close> m by auto
      ultimately show ?thesis
        using less.IH [of "len div 2" i] less.prems(2) True c g \<open>len \<noteq> 0\<close> mid_small [OF m(2)]
        by (subst Upper_loop.simps) (simp add: by_key_def Let_def add.assoc)
    qed
  qed
qed

lemma cut_by:
  assumes "p \<le> length zs" "\<forall>j < p. P (zs ! j)" "\<forall>j. p \<le> j \<longrightarrow> j < length zs \<longrightarrow> \<not> P (zs ! j)"
  shows "\<forall>x \<in> set (take p zs). P x" "\<forall>x \<in> set (drop p zs). \<not> P x"
  using assms by (auto simp: in_set_conv_nth)

lemma Lower_lay:
  assumes c: "by_key Compare key" and q: "q_lay q (pre @ zs @ post) junk" and s: "sorted (map key zs)"
  obtains xs ys where "zs = xs @ ys" "Lower Compare q (length pre) (length pre + length zs) v = Ok (length pre + length xs)"
    "\<forall>x \<in> set xs. key x < key v" "\<forall>y \<in> set ys. key v \<le> key y"
proof -
  have b: "length (pre @ zs @ post) < 2 ^ 31" using lay_bound [OF q] q_lay_size [OF q] by linarith
  obtain p where p: "p \<le> length zs" "Lower_loop Compare q v (length pre + 0) (length zs) = Ok (length pre + p)"
    "\<forall>j < p. key (zs ! j) < key v" "\<forall>j. p \<le> j \<longrightarrow> j < length zs \<longrightarrow> \<not> key (zs ! j) < key v"
    using Lower_loop_lay [OF c q b s, of 0 "length zs" v] by auto
  show thesis
  proof (rule that [of "take p zs" "drop p zs"])
    show "Lower Compare q (length pre) (length pre + length zs) v = Ok (length pre + length (take p zs))"
      using p(1,2) by (cases "zs = []") (auto simp: Lower_def)
  qed (use cut_by [OF p(1,3,4)] in \<open>auto simp: not_less\<close>)
qed

lemma Upper_lay:
  assumes c: "by_key Compare key" and q: "q_lay q (pre @ zs @ post) junk" and s: "sorted (map key zs)"
  obtains xs ys where "zs = xs @ ys" "Upper Compare q (length pre) (length pre + length zs) v = Ok (length pre + length xs)"
    "\<forall>x \<in> set xs. key x \<le> key v" "\<forall>y \<in> set ys. key v < key y"
proof -
  have b: "length (pre @ zs @ post) < 2 ^ 31" using lay_bound [OF q] q_lay_size [OF q] by linarith
  obtain p where p: "p \<le> length zs" "Upper_loop Compare q v (length pre + 0) (length zs) = Ok (length pre + p)"
    "\<forall>j < p. \<not> key v < key (zs ! j)" "\<forall>j. p \<le> j \<longrightarrow> j < length zs \<longrightarrow> key v < key (zs ! j)"
    using Upper_loop_lay [OF c q b s, of 0 "length zs" v] by auto
  have n: "\<forall>j. p \<le> j \<longrightarrow> j < length zs \<longrightarrow> \<not> \<not> key v < key (zs ! j)" using p(4) by simp
  show thesis
  proof (rule that [of "take p zs" "drop p zs"])
    show "Upper Compare q (length pre) (length pre + length zs) v = Ok (length pre + length (take p zs))"
      using p(1,2) by (cases "zs = []") (auto simp: Upper_def)
  qed (use cut_by [OF p(1,3) n] in \<open>auto simp: not_less\<close>)
qed

subsection \<open>Merging\<close>

lemma lay_len: "q_lay q xs junk \<Longrightarrow> length xs < 2 ^ 31"
  using lay_bound q_lay_size by fastforce

text \<open>What the cuts of \<^verbatim>\<open>Merge\<close> are.\<close>

definition good_cut :: "('a \<Rightarrow> 'k::linorder) \<Rightarrow> 'a list \<Rightarrow> 'a list \<Rightarrow> 'a list \<Rightarrow> 'a list \<Rightarrow> bool" where
  "good_cut key as bs cs ds \<longleftrightarrow>
     (\<forall>x \<in> set as. \<forall>y \<in> set ds. key x \<le> key y) \<and> (\<forall>x \<in> set bs. \<forall>y \<in> set cs. key y < key x)
     \<and> length as + length cs < length (as @ bs @ cs @ ds) \<and> 0 < length as + length cs"

lemma merge_cuts_lay:
  assumes c: "by_key Compare key" and q: "q_lay q (pre @ xs @ ys @ post) junk"
    and s: "sorted (map key xs)" "sorted (map key ys)" and n: "xs \<noteq> []" "ys \<noteq> []" "2 < length xs + length ys"
  obtains as bs cs ds where "xs = as @ bs" "ys = cs @ ds" "good_cut key as bs cs ds"
    "merge_cuts Compare q (length pre) (length pre + length xs) (length pre + length xs + length ys) (length xs) (length ys)
      = Ok (length as, length cs, length pre + length as, length pre + length xs + length cs)"
proof (cases "length xs > length ys")
  case True
  define k where "k = length xs div 2"
  have k: "k < length xs" "0 < k" using True n(2) by (cases ys; simp add: k_def)+
  have small: "length pre + length xs + length ys < 2 ^ 32" using lay_len [OF q] by simp
  have v: "GetItemAtUnchecked q (length pre + k) = Ok (xs ! k)" by (rule seg_read [OF q k(1)])
  have q': "q_lay q ((pre @ xs) @ ys @ post) junk" using q by simp
  obtain cs ds where cd: "ys = cs @ ds" "\<forall>y \<in> set cs. key y < key (xs ! k)" "\<forall>y \<in> set ds. key (xs ! k) \<le> key y"
    "Lower Compare q (length pre + length xs) (length pre + length xs + length ys) (xs ! k) = Ok (length pre + length xs + length cs)"
    using Lower_lay [OF c q' s(2), of "xs ! k"] by (metis length_append)
  have d: "drop k xs = xs ! k # drop (Suc k) xs" using k(1) by (simp add: Cons_nth_drop_Suc)
  have "sorted (map key (take k xs @ xs ! k # drop (Suc k) xs))" using s(1) by (simp flip: d)
  then have "good_cut key (take k xs) (drop k xs) cs ds"
    unfolding good_cut_def d using cd(1-3) k by (fastforce simp: sorted_append)
  then show thesis
    using that [of "take k xs" "drop k xs" cs ds] k cd v True small
    by (simp add: merge_cuts_def k_def [symmetric] Let_def min_absorb2)
next
  case False
  define k where "k = length ys div 2"
  have "2 \<le> length ys" using False n(3) by linarith
  then have k: "k < length ys" "0 < k" by (simp_all add: k_def)
  have small: "length pre + length xs + length ys < 2 ^ 32" using lay_len [OF q] by simp
  have q': "q_lay q ((pre @ xs) @ ys @ post) junk" using q by simp
  have v: "GetItemAtUnchecked q (length pre + length xs + k) = Ok (ys ! k)"
    using seg_read [OF q' k(1)] by simp
  obtain as bs where ab: "xs = as @ bs" "\<forall>y \<in> set as. key y \<le> key (ys ! k)" "\<forall>y \<in> set bs. key (ys ! k) < key y"
    "Upper Compare q (length pre) (length pre + length xs) (ys ! k) = Ok (length pre + length as)"
    using Upper_lay [OF c q s(1), of "ys ! k"] by metis
  have d: "drop k ys = ys ! k # drop (Suc k) ys" using k(1) by (simp add: Cons_nth_drop_Suc)
  have "sorted (map key (take k ys @ ys ! k # drop (Suc k) ys))" using s(2) by (simp flip: d)
  then have "good_cut key as bs (take k ys) (drop k ys)"
    unfolding good_cut_def d using ab(1-3) k by (fastforce simp: sorted_append)
  then show thesis
    using that [of as bs "take k ys" "drop k ys"] k ab v False small
    by (simp add: merge_cuts_def k_def [symmetric] Let_def min_absorb2)
qed

lemma Merge_lay:
  assumes c: "by_key Compare key"
  shows "length xs + length ys \<le> fuel \<Longrightarrow> q_lay q (pre @ xs @ ys @ post) junk \<Longrightarrow> q_spare d q \<Longrightarrow>
    sorted (map key xs) \<Longrightarrow> sorted (map key ys) \<Longrightarrow>
    \<exists>q'. Merge fuel Compare (length pre) (length pre + length xs) (length pre + length xs + length ys)
           (length xs) (length ys) q = Ok q'
      \<and> q_lay q' (pre @ sort_key key (xs @ ys) @ post) junk \<and> q_spare d q'"
proof (induction fuel arbitrary: pre xs ys post q)
  case 0
  then show ?case by (subst Merge.simps) auto
next
  case (Suc fuel)
  note q = Suc.prems(2)
  have small: "length pre + length xs + length ys < 2 ^ 31" using lay_len [OF q] by simp
  consider (none) "xs = [] \<or> ys = []" | (pair) "xs \<noteq> []" "ys \<noteq> []" "length xs + length ys = 2"
    | (many) "xs \<noteq> []" "ys \<noteq> []" "2 < length xs + length ys"
    by (cases xs; cases ys; simp; fastforce)
  then show ?case
  proof cases
    case none
    then have "sort_key key (xs @ ys) = xs @ ys" using Suc.prems(4,5) by (auto simp: sort_key_sorted)
    with none Suc.prems show ?thesis by (subst Merge.simps) auto
  next
    case pair
    then obtain x y where xy: "xs = [x]" "ys = [y]" by (cases xs; cases ys; auto)
    have q2: "q_lay q (pre @ [x, y] @ post) junk" using q by (simp add: xy)
    have r: "GetItemAtUnchecked q (length pre) = Ok x" "GetItemAtUnchecked q (length pre + 1) = Ok y"
      using seg_read [OF q2, of 0] seg_read [OF q2, of 1] by simp_all
    have i: "length pre + 1 < length (pre @ [x, y] @ post)" "length pre < length (pre @ [x, y] @ post)" by simp_all
    obtain q' where q': "Swap q (length pre + 1) (length pre) = Ok q'" "q_lay q' (pre @ [y, x] @ post) junk" "q_spare d q'"
      using Swap_lay [OF q2 i, of d] Suc.prems(3) by (auto simp: list_update_append nth_append)
    from r q' q2 c small Suc.prems(3) show ?thesis
      by (subst Merge.simps) (auto simp: xy by_key_def not_less)
  next
    case many
    obtain as bs cs ds where cut: "xs = as @ bs" "ys = cs @ ds" "good_cut key as bs cs ds"
      "merge_cuts Compare q (length pre) (length pre + length xs) (length pre + length xs + length ys) (length xs) (length ys)
        = Ok (length as, length cs, length pre + length as, length pre + length xs + length cs)"
      using merge_cuts_lay [OF c q Suc.prems(4,5) many] by metis
    have q2: "q_lay q ((pre @ as) @ (bs @ cs) @ ds @ post) junk" using q by (simp add: cut(1,2))
    have "\<exists>q1. (if length pre + length xs \<noteq> length pre + length as \<and> length pre + length xs \<noteq> length pre + length xs + length cs
        then rotate_items (length pre + length as) (length pre + length xs) (length pre + length xs + length cs) q else Ok q) = Ok q1
      \<and> q_lay q1 (pre @ as @ cs @ bs @ ds @ post) junk \<and> q_spare d q1"
    proof (cases "bs = [] \<or> cs = []")
      case True
      then show ?thesis using q2 Suc.prems(3) by (auto simp: cut(1,2))
    next
      case False
      have "0 < length bs" "length bs < length (bs @ cs)" "length (pre @ as) + length (bs @ cs) < 2 ^ 31"
        using False small by (simp_all add: cut(1,2))
      from rotate_items_lay [OF this q2 Suc.prems(3)] obtain q1 where
        "rotate_items (length (pre @ as)) (length (pre @ as) + length bs) (length (pre @ as) + length (bs @ cs)) q = Ok q1"
        "q_lay q1 ((pre @ as) @ rotate (length bs) (bs @ cs) @ ds @ post) junk" "q_spare d q1" by metis
      then show ?thesis using False by (auto simp: cut(1,2) rotate_append add.assoc)
    qed
    then obtain q1 where q1: "(if length pre + length xs \<noteq> length pre + length as \<and> length pre + length xs \<noteq> length pre + length xs + length cs
        then rotate_items (length pre + length as) (length pre + length xs) (length pre + length xs + length cs) q else Ok q) = Ok q1"
      "q_lay q1 (pre @ as @ cs @ bs @ ds @ post) junk" "q_spare d q1" by blast
    have st: "sorted (map key as)" "sorted (map key bs)" "sorted (map key cs)" "sorted (map key ds)"
      using Suc.prems(4,5) by (simp_all add: cut(1,2) sorted_append)
    have len: "length as + length cs \<le> fuel" "length bs + length ds \<le> fuel"
      using Suc.prems(1) cut(3) unfolding cut(1,2) good_cut_def length_append by linarith+
    obtain q2 where q2: "Merge fuel Compare (length pre) (length pre + length as) (length pre + length as + length cs)
        (length as) (length cs) q1 = Ok q2"
      "q_lay q2 (pre @ sort_key key (as @ cs) @ bs @ ds @ post) junk" "q_spare d q2"
      using Suc.IH [OF len(1) q1(2,3) st(1,3)] by auto
    have "q_lay q2 ((pre @ sort_key key (as @ cs)) @ bs @ ds @ post) junk" using q2(2) by simp
    from Suc.IH [OF len(2) this q2(3) st(2,4)] obtain q3 where
      q3: "Merge fuel Compare (length pre + length as + length cs) (length pre + length as + length cs + length bs)
        (length pre + length as + length cs + length bs + length ds) (length bs) (length ds) q2 = Ok q3"
      "q_lay q3 (pre @ (sort_key key (as @ cs) @ sort_key key (bs @ ds)) @ post) junk" "q_spare d q3"
      by (auto simp: add.assoc)
    have "sort_key key (as @ cs) @ sort_key key (bs @ ds) = sort_key key (xs @ ys)"
      unfolding cut(1,2) by (rule sort_key_cut [symmetric])
        (use Suc.prems(4,5) cut(3) in \<open>simp_all add: cut(1,2) good_cut_def\<close>)
    moreover have "Merge (Suc fuel) Compare (length pre) (length pre + length xs) (length pre + length xs + length ys)
           (length xs) (length ys) q = Ok q3"
      using many cut(4) q1(1) q2(1) q3(1) small
      by (subst Merge.simps) (cases "bs = []"; cases "cs = []"; simp add: cut(1,2) add_ac Let_def)
    ultimately show ?thesis using q3(2,3) by auto
  qed
qed

subsection \<open>Sorting\<close>

lemma bubble_down_lay:
  assumes c: "by_key Compare key"
  shows "q_lay q (pre @ xs @ x # post) junk \<Longrightarrow> q_spare d q \<Longrightarrow> sorted (map key xs) \<Longrightarrow>
    \<exists>q'. bubble_down Compare (length pre) (length pre + length xs) q = Ok q'
      \<and> q_lay q' (pre @ sort_key key (xs @ [x]) @ post) junk \<and> q_spare d q'"
proof (induction xs arbitrary: q post rule: rev_induct)
  case Nil
  then show ?case by (cases "length pre") auto
next
  case (snoc y xs)
  have q: "q_lay q (pre @ (xs @ [y, x]) @ post) junk" using snoc.prems(1) by simp
  have r: "GetItemAtUnchecked q (length pre + length xs) = Ok y"
    "GetItemAtUnchecked q (Suc (length pre + length xs)) = Ok x"
    using seg_read [OF q, of "length xs"] seg_read [OF q, of "Suc (length xs)"] by (simp_all add: nth_append)
  show ?case
  proof (cases "key x < key y")
    case True
    have i: "Suc (length pre + length xs) < length (pre @ (xs @ [y, x]) @ post)"
      "length pre + length xs < length (pre @ (xs @ [y, x]) @ post)" by simp_all
    obtain q1 where q1: "Swap q (Suc (length pre + length xs)) (length pre + length xs) = Ok q1"
      "q_lay q1 (pre @ xs @ x # y # post) junk" "q_spare d q1"
      using Swap_lay [OF q i, of d] snoc.prems(2) by (auto simp: list_update_append nth_append)
    have "sorted (map key xs)" using snoc.prems(3) by (simp add: sorted_append)
    from snoc.IH [OF q1(2,3) this] obtain q' where
      q': "bubble_down Compare (length pre) (length pre + length xs) q1 = Ok q'"
      "q_lay q' (pre @ sort_key key (xs @ [x]) @ y # post) junk" "q_spare d q'" by blast
    have "sort_key key ((xs @ [y]) @ [x]) = sort_key key (xs @ [] @ [x] @ [y])"
      using sort_key_swap [of "[y]" "[x]" key xs "[]"] True by simp
    also have "\<dots> = sort_key key (xs @ [x]) @ [y]"
      using sort_key_split [of "xs @ [x]" "[y]" key] True snoc.prems(3) by (auto simp: sorted_append)
    finally show ?thesis using q' q1(1) r True c by (auto simp: by_key_def)
  next
    case False
    have "sorted (map key ((xs @ [y]) @ [x]))" using False snoc.prems(3) by (fastforce simp: sorted_append)
    then have "sort_key key ((xs @ [y]) @ [x]) = (xs @ [y]) @ [x]" by (rule sort_key_sorted)
    then show ?thesis using r False c q snoc.prems(2) by (simp add: by_key_def)
  qed
qed

lemma Sort_lay:
  assumes c: "by_key Compare key"
  shows "length xs \<le> fuel \<Longrightarrow> q_lay q (pre @ xs @ post) junk \<Longrightarrow> q_spare d q \<Longrightarrow>
    \<exists>q'. Sort fuel Compare (length pre) (length pre + length xs) q = Ok q'
      \<and> q_lay q' (pre @ sort_key key xs @ post) junk \<and> q_spare d q'"
proof (induction fuel arbitrary: pre xs post q)
  case 0
  then show ?case by (subst Sort.simps) (auto simp: count_lay)
next
  case (Suc fuel)
  note q = Suc.prems(2)
  let ?a = "length pre" and ?b = "length pre + length xs"
  have small: "?b < 2 ^ 31" using lay_len [OF q] by simp
  have sums: "add32 ?a 12 = ?a + 12" "xs \<noteq> [] \<Longrightarrow> add32 ?a 1 = ?a + 1" "add32 ?a ?b = ?a + ?b"
    by (rule add32_small; use small in simp)+
  have n: "q_count q = length (pre @ xs @ post)" by (rule count_lay [OF q])
  consider "xs = []" | "xs \<noteq> []" "length xs < 12" | "12 \<le> length xs" by linarith
  then show ?case
  proof cases
    case 1
    then show ?thesis using Suc.prems by (subst Sort.simps) (auto simp: n)
  next
    case 2
    let ?P = "\<lambda>i q. q_lay q (pre @ sort_key key (take (i - ?a) xs) @ drop (i - ?a) xs @ post) junk \<and> q_spare d q"
    have "\<exists>q'. for_up (?a + 1) ?b (bubble_down Compare ?a) q = Ok q' \<and> ?P ?b q'"
    proof (rule for_up_induct [where P = ?P])
      show "?P (?a + 1) q" using 2(1) Suc.prems(2,3) by (cases xs) simp_all
      fix i q assume i: "?a + 1 \<le> i" "i < ?b" "?P i q"
      define k where "k = i - ?a"
      have k: "i = ?a + k" "k < length xs" "Suc i - ?a = Suc k" using i by (simp_all add: k_def)
      have "q_lay q (pre @ sort_key key (take k xs) @ xs ! k # (drop (Suc k) xs @ post)) junk"
        using i(3) k(2) by (simp add: k_def Cons_nth_drop_Suc [symmetric])
      then obtain q' where "bubble_down Compare ?a (?a + length (sort_key key (take k xs))) q = Ok q'"
        "q_lay q' (pre @ sort_key key (sort_key key (take k xs) @ [xs ! k]) @ drop (Suc k) xs @ post) junk" "q_spare d q'"
        using bubble_down_lay [OF c] i(3) by (metis sorted_sort_key)
      moreover have "sort_key key (sort_key key (take k xs) @ [xs ! k]) = sort_key key (take (Suc k) xs)"
        using sort_key_parts [of key "take k xs" "[xs ! k]"] k(2) by (simp add: take_Suc_conv_app_nth)
      ultimately show "\<exists>q'. bubble_down Compare ?a i q = Ok q' \<and> ?P (Suc i) q'"
        using k by (auto simp: min_absorb2)
    qed (use 2 in \<open>cases xs; simp\<close>)
    moreover have "Sort (Suc fuel) Compare ?a ?b q
      = (if ?b > ?a + 1 then for_up (?a + 1) ?b (bubble_down Compare ?a) q else Ok q)"
      using 2 sums n by (subst Sort.simps) (simp add: Let_def)
    ultimately show ?thesis by (auto simp: Suc_le_eq)
  next
    case 3
    define k where "k = length xs div 2"
    define ys zs where "ys = take k xs" and "zs = drop k xs"
    have k: "(?a + ?b) div 2 = ?a + k" unfolding k_def by linarith
    have xs: "xs = ys @ zs" and ly: "length ys = k" by (simp_all add: ys_def zs_def k_def)
    then have len: "length xs = k + length zs" by simp
    have le: "length ys \<le> fuel" "length zs \<le> fuel" using 3 Suc.prems(1) len ly unfolding k_def by linarith+
    have "q_lay q (pre @ ys @ zs @ post) junk" using q by (simp add: xs)
    from Suc.IH [OF le(1) this Suc.prems(3)] obtain q1 where
      q1: "Sort fuel Compare ?a (?a + k) q = Ok q1" "q_lay q1 (pre @ sort_key key ys @ zs @ post) junk" "q_spare d q1"
      using ly by auto
    have "q_lay q1 ((pre @ sort_key key ys) @ zs @ post) junk" using q1(2) by simp
    from Suc.IH [OF le(2) this q1(3)] obtain q2 where
      q2: "Sort fuel Compare (?a + k) ?b q1 = Ok q2"
      "q_lay q2 (pre @ sort_key key ys @ sort_key key zs @ post) junk" "q_spare d q2"
      using ly len by (auto simp: add.assoc)
    have m: "length (sort_key key ys) + length (sort_key key zs) \<le> length xs" using len ly by simp
    obtain q3 where q3: "Merge (length xs) Compare ?a (?a + k) ?b k (length zs) q2 = Ok q3"
      "q_lay q3 (pre @ sort_key key xs @ post) junk" "q_spare d q3"
      using Merge_lay [OF c m q2(2,3)] ly len by (auto simp: sort_key_parts xs add.assoc)
    have "xs \<noteq> []" using 3 by auto
    have mid: "add32 ?a ?b div 2 = ?a + k" using sums(3) k by simp
    have sub: "sub32 (?a + k) ?a = k" "sub32 ?b (?a + k) = length zs" "?b - ?a = length xs"
      using small len by simp_all
    have "Sort (Suc fuel) Compare ?a ?b q = Ok q3"
      by (subst Sort.simps) (use 3 \<open>xs \<noteq> []\<close> sums(1) n mid sub q1(1) q2(1) q3(1) in \<open>simp add: Let_def del: add32_small\<close>)
    then show ?thesis using q3 by auto
  qed
qed

end
