(* ===== verification/Queue_Tidy.thy ===== *)
theory Queue_Tidy
  imports Queue_Sorted
begin

section \<open>Queue: duplicates, normalizing and swapping\<close>

subsection \<open>Removing duplicates\<close>

lemma lay_place: "q_lay q xs junk \<Longrightarrow> xs \<noteq> [] \<Longrightarrow> q_place q \<noteq> QNull"
  by (auto simp: q_lay_def q_array_def)

lemma EnsureSize_smaller_lay:
  assumes lay: "q_lay q xs junk" and sp: "q_spare d q" and n: "n \<le> length xs" "q_place q \<noteq> QNull"
  obtains q' junk' where "EnsureSize am d q n True 0 False = Ok (B_NO_ERROR, q')" "q_lay q' (take n xs) junk'"
    "set junk' \<subseteq> insert d (set junk)" "q_spare d q'"
proof -
  have "n \<le> q_size q" using n q_lay_size [OF lay] by simp
  moreover obtain q' junk' where "RemoveTailMulti d q (length xs - n) = Ok (min (length xs - n) (length xs), q')"
    "q_lay q' (take n xs) junk'" "set junk' \<subseteq> insert d (set junk)" "q_spare d q'"
    using RemoveTailMulti_lay [OF lay, of d "length xs - n"] sp n(1) by (metis diff_diff_cancel)
  ultimately show thesis using that n by (simp add: EnsureSize_def EnsureSizeAux_def count_lay [OF lay])
qed

lemma remdups_adj_snoc2: "xs \<noteq> [] \<Longrightarrow> remdups_adj (xs @ [y]) = remdups_adj xs @ (if y = last xs then [] else [y])"
  by (induction xs rule: remdups_adj.induct) auto

lemma dedup_loop_lay:
  assumes lay: "q_lay q xs junk" and sp: "q_spare d q" and n: "xs \<noteq> []"
  shows "\<exists>t. for_up 0 (length xs) dedup_step (1, q) = Ok t
    \<and> (\<exists>q' mid. t = (length (remdups_adj xs), q') \<and> q_spare d q' \<and> q_lay q' (remdups_adj xs @ mid) junk
        \<and> length (remdups_adj xs @ mid) = length xs)"
proof -
  let ?w = "\<lambda>i. remdups_adj (take i xs)"
  let ?P = "\<lambda>i t. if i = 0 then t = (1, q) else
    \<exists>s mid. t = (length (?w i), s) \<and> q_spare d s \<and> q_lay s (?w i @ mid @ drop i xs) junk \<and> length (?w i @ mid) = i"
  have "\<exists>t. for_up 0 (length xs) dedup_step (1, q) = Ok t \<and> ?P (length xs) t"
  proof (rule for_up_induct [where P = ?P])
    fix i t assume i: "i < length xs" "?P i t"
    show "\<exists>t'. dedup_step i t = Ok t' \<and> ?P (Suc i) t'"
    proof (cases "i = 0")
      case True
      from n obtain x ys where "xs = x # ys" by (cases xs) auto
      then have "dedup_step i t = Ok (1, q)" "take 1 xs = [x]" using True i(2) q_at_lay [OF lay, of 0] by (auto simp: dedup_step_def)
      then show ?thesis using True lay sp by (auto intro!: exI [of _ "[]"] simp: \<open>xs = x # ys\<close>)
    next
      case False
      with i(2) obtain s mid where t: "t = (length (?w i), s)" "q_spare d s" "q_lay s (?w i @ mid @ drop i xs) junk"
        "length (?w i @ mid) = i" by auto
      have ne: "take i xs \<noteq> []" using False n by simp
      then have w: "?w i \<noteq> []" by simp
      have "q_lay s ((?w i @ mid) @ drop i xs) junk" using t(3) by simp
      from q_at_lay [OF this, of i] have r: "q_at s i = Ok (xs ! i)"
        unfolding nth_append t(4) using i(1) t(4) by simp
      have l: "length (?w i) - 1 < length (?w i @ mid @ drop i xs)" using w by (cases "?w i") simp_all
      have r2: "q_at s (length (?w i) - 1) = Ok (last (take i xs))"
        using q_at_lay [OF t(3) l] w last_conv_nth [OF w] last_remdups_adj [of "take i xs"] by (simp add: nth_append)
      have tk: "take (Suc i) xs = take i xs @ [xs ! i]" using i(1) by (rule take_Suc_conv_app_nth)
      have dr: "drop i xs = xs ! i # drop (Suc i) xs" using i(1) by (simp add: Cons_nth_drop_Suc)
      show ?thesis
      proof (cases "xs ! i = last (take i xs)")
        case True
        have "dedup_step i t = Ok (length (?w i), s)" using r r2 True by (simp add: dedup_step_def t(1))
        moreover have "?w (Suc i) = ?w i" using remdups_adj_snoc2 [OF ne, of "xs ! i"] True tk by simp
        ultimately show ?thesis using t(2-4) dr by (auto intro!: exI [of _ "mid @ [xs ! i]"])
      next
        case no: False
        have w': "?w (Suc i) = ?w i @ [xs ! i]" using remdups_adj_snoc2 [OF ne, of "xs ! i"] no tk by simp
        obtain m ms where m: "mid @ [xs ! i] = m # ms" by (cases "mid @ [xs ! i]") auto
        have lay2: "q_lay s (?w i @ (m # ms) @ drop (Suc i) xs) junk" using t(3) dr by (simp flip: m)
        have "length (?w i) < length (?w i @ (m # ms) @ drop (Suc i) xs)" by simp
        from q_at_put_lay [OF lay2 this, of "xs ! i" d] t(2) obtain s' where
          s': "q_at_put s (length (?w i)) (xs ! i) = Ok s'" "q_spare d s'"
          "q_lay s' (?w (Suc i) @ ms @ drop (Suc i) xs) junk" by (auto simp: w' list_update_append)
        have "dedup_step i t = Ok (length (?w (Suc i)), s')" using r r2 no s'(1) by (simp add: dedup_step_def t(1) w')
        moreover have "length (?w (Suc i) @ ms) = Suc i" using t(4) arg_cong [OF m, of length] w' by simp
        ultimately show ?thesis using s'(2,3) by auto
      qed
    qed
  qed (use n in simp_all)
  then show ?thesis using n by auto
qed

lemma RemoveDuplicateItems_lay:
  fixes key :: "'a \<Rightarrow> 'k::linorder"
    and assumeAlreadySorted :: bool
  assumes lay: "q_lay q xs junk" and sp: "q_spare d q" and c: "by_key Compare key"
  defines "ys \<equiv> (if assumeAlreadySorted then xs else sort_key key xs)"
  obtains q' junk' where "RemoveDuplicateItems am d Compare assumeAlreadySorted q
      = Ok (length xs - length (remdups_adj ys), q')"
    "q_lay q' (remdups_adj ys) junk'" "set junk' \<subseteq> insert d (set junk)" "q_spare d q'"
proof (cases "xs = []")
  case True
  then have "ys = []" by (simp add: ys_def)
  then show thesis using that [of q junk] lay sp True by (auto simp: RemoveDuplicateItems_def count_lay [OF lay])
next
  case False
  have len: "length ys = length xs" by (simp add: ys_def)
  then have ne: "ys \<noteq> []" using False by auto
  obtain q1 where q1: "(if assumeAlreadySorted then Ok q else Sort (q_count q) Compare 0 (2 ^ 32 - 1) q) = Ok q1"
    "q_lay q1 ys junk" "q_spare d q1"
  proof (cases assumeAlreadySorted)
    case False
    have "Sort (length xs) Compare 0 (2 ^ 32 - 1) q = Sort (length xs) Compare 0 (length xs) q"
      using lay_len [OF lay] by (subst (1 2) Sort.simps) (simp add: Let_def count_lay [OF lay])
    then show thesis
      using that Sort_lay [OF c, of xs "length xs" q "[]" "[]" junk d] lay sp False by (auto simp: ys_def count_lay [OF lay])
  qed (use that lay sp ys_def in auto)
  obtain q2 mid where q2: "for_up 0 (length xs) dedup_step (1, q1) = Ok (length (remdups_adj ys), q2)"
    "q_spare d q2" "q_lay q2 (remdups_adj ys @ mid) junk" "length (remdups_adj ys @ mid) = length xs"
    using dedup_loop_lay [OF q1(2,3) ne] len by auto
  obtain q3 junk' where q3: "EnsureSize am d q2 (length (remdups_adj ys)) True 0 False = Ok (B_NO_ERROR, q3)"
    "q_lay q3 (remdups_adj ys) junk'" "set junk' \<subseteq> insert d (set junk)" "q_spare d q3"
    using EnsureSize_smaller_lay [OF q2(3,2), of "length (remdups_adj ys)" am] lay_place [OF q2(3)] ne by auto
  have "sub32 (q_count q2) (length (remdups_adj ys)) = length xs - length (remdups_adj ys)"
    using q2(4) lay_len [OF lay] by (simp add: count_lay [OF q2(3)])
  then have "RemoveDuplicateItems am d Compare assumeAlreadySorted q = Ok (length xs - length (remdups_adj ys), q3)"
    unfolding RemoveDuplicateItems_def q1(1) using False q2(1) q3(1) q1(2) len count_lay [OF q1(2)] count_lay [OF lay]
    by (simp add: Let_def)
  then show thesis using q3(2-4) that by blast
qed

subsection \<open>Normalizing\<close>

lemma hsieh_cycle_lay:
  assumes c: "is_cycle (length ys) h n g N" and s: "0 < h" "h < length ys" "length ys < 2 ^ 31"
    and D: "\<forall>r \<in> D. r mod g \<noteq> n"
  shows "Suc k \<le> N \<Longrightarrow> N \<le> fuel + Suc k \<Longrightarrow> q_head q = h \<Longrightarrow> q_size q = length ys \<Longrightarrow>
    q_array q = turned h ys (D \<union> orbit (length ys) h n ` {..<k}) \<Longrightarrow>
    \<exists>q'. hsieh_cycle fuel n (orbit (length ys) h n k) (orbit (length ys) h n (Suc k)) c0 q
         = Ok (orbit (length ys) h n (N - 1), c0 + (N - Suc k), q')
      \<and> q_frame q q' \<and> q_array q' = turned h ys (D \<union> orbit (length ys) h n ` {..<N - 1})"
proof (induction fuel arbitrary: k q c0)
  case 0
  then have "Suc k = N" by simp
  then have "orbit (length ys) h n (Suc k) = n" "N - 1 = k" using orbit_start(2) [OF c] by simp_all
  with 0 show ?case by (subst hsieh_cycle.simps) simp
next
  case (Suc fuel)
  let ?f = "orbit (length ys) h n" and ?A = "D \<union> orbit (length ys) h n ` {..<k}"
  show ?case
  proof (cases "Suc k = N")
    case True
    then have "?f (Suc k) = n" "N - 1 = k" using orbit_start(2) [OF c] by simp_all
    with Suc.prems show ?thesis by (subst hsieh_cycle.simps) simp
  next
    case False
    then have k: "Suc k < N" using Suc.prems(1) by simp
    note lt = cycle_length(5) [OF c]
    have r: "q_rd q (?f (Suc k)) = Ok (turned h ys ?A ! ?f (Suc k))"
      using lt by (simp add: q_rd_def Suc.prems(5))
    have "?f k < length (q_array q)" by (simp add: lt Suc.prems(5))
    then obtain q1 where q1: "q_wr q (?f k) (turned h ys ?A ! ?f (Suc k)) = Ok q1" "q_frame q q1"
      "q_array q1 = turned h ys (D \<union> ?f ` {..<Suc k})"
      using q_wr_frame turned_step [OF c D k] by (metis Suc.prems(5))
    have hs: "q_head q1 = h" "q_size q1 = length ys" using q1(2) Suc.prems(3,4) by (simp_all add: q_frame_def)
    have nx: "(if add32 (?f (Suc k)) h \<ge> length ys then sub32 (add32 (?f (Suc k)) h) (length ys) else add32 (?f (Suc k)) h)
      = ?f (Suc (Suc k))"
      unfolding orbit_next [symmetric, of _ _ _ "Suc k"] using lt [of "Suc k"] s by (auto simp: mod_if)
    have "?f (Suc k) \<noteq> n" by (rule orbit_back [OF c]) (use k in simp_all)
    moreover have "Suc (Suc k) \<le> N" "N \<le> fuel + Suc (Suc k)" using k Suc.prems(2) by simp_all
    note Suc.IH [OF this hs q1(3), of "c0 + 1"]
    moreover have "c0 + 1 + (N - Suc (Suc k)) = c0 + (N - Suc k)" using k by simp
    ultimately show ?thesis using r q1(1,2) hs nx
      by (subst hsieh_cycle.simps) (auto simp: Let_def intro: q_frame_trans)
  qed
qed

lemma hsieh_loop_lay:
  assumes s: "0 < h" "h < length ys" "length ys < 2 ^ 31"
  defines "g \<equiv> gcd h (length ys)"
  shows "n \<le> g \<Longrightarrow> g \<le> fuel + n \<Longrightarrow> q_head q = h \<Longrightarrow> q_size q = length ys \<Longrightarrow>
    q_array q = turned h ys {r. r mod g < n} \<Longrightarrow>
    \<exists>q'. hsieh_loop fuel n (n * (length ys div g)) q = Ok q' \<and> q_frame q q' \<and> q_array q' = rotate h ys"
proof (induction fuel arbitrary: n q)
  case 0
  have g: "0 < g" "g * (length ys div g) = length ys" using s unfolding g_def by simp_all
  from 0 have n: "n = g" by simp
  have "{r. r mod g < n} = UNIV" using g(1) n by (simp add: mod_less_divisor)
  then show ?case using 0 g(2) n by (subst hsieh_loop.simps) (simp add: turned_UNIV)
next
  case (Suc fuel)
  have g: "0 < g" "g * (length ys div g) = length ys" using s unfolding g_def by simp_all
  let ?N = "length ys div g" and ?D = "{r. r mod g < n}"
  have N: "0 < ?N" using g s by (cases ?N) auto
  show ?case
  proof (cases "n = g")
    case True
    have "{r. r mod g < n} = UNIV" using g(1) True by (simp add: mod_less_divisor)
    then show ?thesis using Suc.prems g(2) True by (subst hsieh_loop.simps) (simp add: turned_UNIV)
  next
    case False
    then have n: "n < g" using Suc.prems(1) by simp
    have c: "is_cycle (length ys) h n g ?N" using n s by (auto simp: is_cycle_def g_def)
    let ?f = "orbit (length ys) h n"
    have nh: "n + h < length ys"
    proof -
      have "g dvd length ys - h" using s(2) by (simp add: dvd_diff_nat g_def)
      then have "g \<le> length ys - h" using s(2) by (intro dvd_imp_le) simp_all
      with n show ?thesis by linarith
    qed
    then have f: "?f 0 = n" "?f (Suc 0) = n + h" by (simp_all add: orbit_def)
    have rd: "q_rd q n = Ok (ys ! n)" using nh n by (simp add: q_rd_def Suc.prems(5) turned_nth)
    have "\<exists>q1. hsieh_cycle (length ys) n (?f 0) (?f (Suc 0)) (n * ?N + 1) q
        = Ok (?f (?N - 1), n * ?N + 1 + (?N - Suc 0), q1)
      \<and> q_frame q q1 \<and> q_array q1 = turned h ys (?D \<union> ?f ` {..<?N - 1})"
      by (rule hsieh_cycle_lay [OF c s]) (use N Suc.prems in \<open>auto intro: le_SucI\<close>)
    then obtain q1 where q1: "hsieh_cycle (length ys) n n (n + h) (n * ?N + 1) q = Ok (?f (?N - 1), Suc n * ?N, q1)"
      "q_frame q q1" "q_array q1 = turned h ys (?D \<union> ?f ` {..<?N - 1})"
      using f N by auto
    have "?f (?N - 1) < length (q_array q1)" by (simp add: q1(3) cycle_length(5) [OF c])
    moreover have "?D \<union> {r. r mod g = n} = {r. r mod g < Suc n}" by auto
    ultimately obtain q2 where q2: "q_wr q1 (?f (?N - 1)) (ys ! n) = Ok q2" "q_frame q1 q2"
      "q_array q2 = turned h ys {r. r mod g < Suc n}"
      using q_wr_frame [of "?f (?N - 1)" q1 "ys ! n"] turned_last [OF c, of "?N - 1" ?D] N q1(3) by auto
    have fr: "q_frame q q2" using q1(2) q2(2) by (rule q_frame_trans)
    then have hs: "q_head q2 = h" "q_size q2 = length ys" using Suc.prems(3,4) by (simp_all add: q_frame_def)
    have "Suc n \<le> g" "g \<le> fuel + Suc n" using n Suc.prems(2) by simp_all
    from Suc.IH [OF this hs q2(3)] obtain q3 where
      q3: "hsieh_loop fuel (Suc n) (Suc n * ?N) q2 = Ok q3" "q_frame q2 q3" "q_array q3 = rotate h ys" by blast
    have lt: "n * ?N < length ys" using mult_strict_right_mono [OF n N] g(2) by simp
    have "add32 n h = n + h" using nh s(3) by simp
    then have "hsieh_loop (Suc fuel) n (n * ?N) q = Ok q3"
      using rd q1(1) q2(1) q3(1) lt Suc.prems(3,4) by (subst hsieh_loop.simps) simp
    then show ?thesis using q3(2,3) fr by (auto intro: q_frame_trans)
  qed
qed

text \<open>Copying the items behind the last one, with the old slots cleared.\<close>

lemma lay_put_junk:
  assumes "q_lay q xs junk" "i < length junk"
  obtains q' where "q_wr q (phys q (length xs + i)) v = Ok q'" "q_lay q' xs (junk[i := v])"
    "q_head q' = q_head q" "q_tail q' = q_tail q" "q_size q' = q_size q" "q_spare d q \<Longrightarrow> q_spare d q'"
proof -
  have "length xs + i < length xs + length junk" using assms(2) by simp
  from lay_write [OF assms(1) this, of v] obtain q' where
    *: "q_wr q (phys q (length xs + i)) v = Ok q'" "rotate (q_head q) (q_array q') = (xs @ junk)[length xs + i := v]"
    "length (q_array q') = q_size q" "length (q_small q') = SMALL_QUEUE_SIZE"
    "q_place q' = QHeap \<Longrightarrow> q_heap q' \<noteq> []" "q_place q' = q_place q" "q_size q' = q_size q"
    "q_count q' = q_count q" "q_head q' = q_head q" "q_tail q' = q_tail q"
    "q_place q \<noteq> QSmall \<Longrightarrow> q_small q' = q_small q" by metis
  have "q_lay q' xs (junk[i := v])" using assms * by (auto simp: q_lay_def list_update_append)
  then show thesis using that * by (simp add: q_spare_def)
qed

lemma move_up_loop:
  assumes lay: "q_lay q xs junk" and n: "length xs \<le> length junk" and st: "startAt = q_head q + length xs - q_size q"
    "q_size q \<le> q_head q + length xs" "q_head q < q_size q"
  shows "\<exists>q'. for_up 0 (length xs) (move_up d startAt) q = Ok q'
    \<and> q_lay q' (replicate (length xs) d) (xs @ drop (length xs) junk) \<and> q_head q' = q_head q \<and> q_size q' = q_size q
    \<and> (q_spare d q \<longrightarrow> q_spare d q')"
proof -
  let ?P = "\<lambda>i s. q_lay s (replicate i d @ drop i xs) (take i xs @ drop i junk) \<and> q_head s = q_head q
    \<and> q_size s = q_size q \<and> (q_spare d q \<longrightarrow> q_spare d s)"
  have sz: "q_size q = length xs + length junk" "q_size q < 2 ^ 31" using q_lay_size [OF lay] lay_bound [OF lay] by simp_all
  have "\<exists>q'. for_up 0 (length xs) (move_up d startAt) q = Ok q' \<and> ?P (length xs) q'"
  proof (rule for_up_induct [where P = ?P])
    fix i s assume i: "i < length xs" "?P i s"
    let ?ys = "replicate i d @ drop i xs" and ?js = "take i xs @ drop i junk"
    from i have s: "q_lay s ?ys ?js" "q_head s = q_head q" "q_size s = q_size q" by auto
    have l: "i < length ?ys" "i < length ?js" "length ?ys = length xs" using i(1) n by auto
    have r: "q_at s i = Ok (xs ! i)" using q_at_lay [OF s(1) l(1)] i(1) by (simp add: nth_append)
    have "q_head q + (length xs + i) = startAt + i + q_size q" using st by linarith
    then have "phys s (length ?ys + i) = (startAt + i + q_size q) mod q_size q"
      unfolding phys_def s(2,3) l(3) by (rule arg_cong)
    also have "\<dots> = (startAt + i) mod q_size q" by (rule mod_add_self2)
    also have "\<dots> = startAt + i" by (rule mod_less) (use st i(1) n sz(1) in linarith)
    finally have p: "phys s (length ?ys + i) = add32 startAt i" using st i(1) sz n by simp
    obtain s1 where s1: "q_wr s (add32 startAt i) (xs ! i) = Ok s1" "q_lay s1 ?ys (?js[i := xs ! i])"
      "q_head s1 = q_head q" "q_size s1 = q_size q" "q_spare d s \<Longrightarrow> q_spare d s1"
      using lay_put_junk [OF s(1) l(2), of "xs ! i" d] s(2,3) unfolding p by metis
    obtain s2 where s2: "q_at_put s1 i d = Ok s2" "q_lay s2 (?ys[i := d]) (?js[i := xs ! i])"
      "q_head s2 = q_head q" "q_size s2 = q_size q" "q_spare d s1 \<Longrightarrow> q_spare d s2"
      using q_at_put_lay [OF s1(2) l(1), of d d] s1(3,4) by metis
    have "?ys[i := d] = replicate (Suc i) d @ drop (Suc i) xs"
      using i(1) by (simp add: list_update_append replicate_append_same Cons_nth_drop_Suc [of i xs, symmetric])
    moreover have "?js[i := xs ! i] = take (Suc i) xs @ drop (Suc i) junk"
      using i(1) n by (simp add: list_update_append take_Suc_conv_app_nth Cons_nth_drop_Suc [of i junk, symmetric])
    ultimately show "\<exists>s'. move_up d startAt i s = Ok s' \<and> ?P (Suc i) s'"
      using r s1(1,5) s2 i(2) by (auto simp: move_up_def)
  qed (use lay in auto)
  then show ?thesis by simp
qed

text \<open>\<^verbatim>\<open>Normalize\<close> keeps the items and makes them contiguous.\<close>

lemma Normalize_lay:
  assumes lay: "q_lay q xs junk" and sp: "q_spare d q"
  obtains q' junk' where "Normalize d q = Ok q'" "q_lay q' xs junk'" "IsNormalized q'" "q_spare d q'"
    "q_size q' = q_size q" "set junk' \<subseteq> insert d (set junk)"
proof (cases "IsNormalized q")
  case True
  then show thesis using that [of q junk] lay sp by (auto simp: Normalize_def)
next
  case False
  then have ht: "q_tail q < q_head q" "xs \<noteq> []" using count_lay [OF lay] by (auto simp: IsNormalized_def)
  note sz = q_lay_size [OF lay] lay_tail [OF lay ht(2)]
  have tl: "q_tail q = q_head q + length xs - 1 - q_size q" "q_size q \<le> q_head q + length xs - 1"
  proof -
    have t: "q_tail q = (q_head q + (length xs - 1)) mod q_size q" using lay ht(2) by (simp add: q_lay_def)
    have "q_size q \<le> q_head q + (length xs - 1)"
    proof (rule ccontr)
      assume "\<not> ?thesis"
      then have "q_tail q = q_head q + (length xs - 1)" using t by simp
      then show False using ht(1) by simp
    qed
    moreover have "q_head q + (length xs - 1) - q_size q < q_size q" using sz by linarith
    ultimately show "q_tail q = q_head q + length xs - 1 - q_size q" "q_size q \<le> q_head q + length xs - 1"
      using t ht(2) by (simp_all add: mod_if Suc_le_eq)
  qed
  have cnt: "q_count q = length xs" by (rule count_lay [OF lay])
  have pos: "0 < length xs" using ht(2) by simp
  show thesis
  proof (cases "length xs \<le> length junk")
    case True
    have st: "add32 (q_tail q) 1 = q_head q + length xs - q_size q" using tl sz pos by (subst add32_small) (simp, linarith)
    let ?start = "q_head q + length xs - q_size q"
    obtain q1 where q1: "for_up 0 (length xs) (move_up d ?start) q = Ok q1"
      "q_lay q1 (replicate (length xs) d) (xs @ drop (length xs) junk)" "q_head q1 = q_head q" "q_size q1 = q_size q" "q_spare d q1"
      using move_up_loop [OF lay True refl _ conjunct1 [OF conjunct2 [OF sz(2)]], of d] sp
        order_trans [OF tl(2) diff_le_self] by blast
    define q2 where "q2 = q1\<lparr>q_head := ?start, q_tail := ?start + length xs - 1\<rparr>"
    have ss: "?start < q_size q" "?start + length xs \<le> q_size q" using sz True tl by linarith+
    have c1: "q_count q1 = length xs" using count_lay [OF q1(2)] by simp
    have rot: "rotate (q_head q) (q_array q1) = replicate (length xs) d @ xs @ drop (length xs) junk"
      "length (q_array q1) = q_size q"
      using q1(2-4) by (simp_all add: q_lay_def)
    have "rotate ?start (q_array q1) = rotate (?start + q_size q) (q_array q1)"
      using rot(2) by (metis mod_add_self2 rotate_conv_mod)
    also have "?start + q_size q = length xs + q_head q" using tl pos by simp
    also have "rotate (length xs + q_head q) (q_array q1) = rotate (length xs) (rotate (q_head q) (q_array q1))"
      by (simp add: rotate_rotate)
    also have "\<dots> = xs @ drop (length xs) junk @ replicate (length xs) d"
      unfolding rot(1) using rotate_append [of "replicate (length xs) d" "xs @ drop (length xs) junk"] by simp
    finally have r: "rotate ?start (q_array q1) = xs @ drop (length xs) junk @ replicate (length xs) d" .
    have assoc: "?start + length xs - 1 = ?start + (length xs - 1)" using pos by linarith
    have tail: "?start + length xs - 1 = (?start + (length xs - 1)) mod q_size q"
      unfolding assoc by (rule mod_less [symmetric]) (use ss pos in linarith)
    have "q_lay q2 xs (drop (length xs) junk @ replicate (length xs) d)"
      unfolding q2_def q_lay_def using q1(2,4) ss(1) c1 rot(2) r tail lay_bound [OF lay] by (simp add: q_lay_def)
    moreover have "Normalize d q = Ok q2"
    proof -
      have "q_size q < 2 ^ 32" using lay_bound [OF lay] by simp
      with ss pos have b: "1 \<le> ?start + length xs" "?start + length xs < 2 ^ 32" by linarith+
      have "sub32 (add32 ?start (length xs)) 1 = ?start + length xs - 1"
        by (simp only: add32_small [OF b(2)] sub32_small [OF b])
      moreover have "length xs * 2 mod 2 ^ 32 \<le> q_size q" using sz True by simp
      ultimately show ?thesis unfolding Normalize_def cnt st Let_def q2_def using False q1(1) c1 by simp
    qed
    moreover have "?start \<le> ?start + length xs - 1" using pos by linarith
    then have "IsNormalized q2" unfolding IsNormalized_def q2_def by simp
    moreover have "q_size q2 = q_size q" "q_spare d q2" using q1(4,5) by (simp_all add: q2_def)
    moreover have "set (drop (length xs) junk @ replicate (length xs) d) \<subseteq> insert d (set junk)"
      by (auto dest: in_set_dropD)
    ultimately show thesis by (intro that [of q2])
  next
    case no: False
    have s: "0 < q_head q" "q_head q < length (q_array q)" "length (q_array q) < 2 ^ 31" "length (q_array q) = q_size q"
      using ht(1) sz lay by (simp_all add: q_lay_def)
    obtain q1 where q1: "hsieh_loop (q_size q) 0 0 q = Ok q1" "q_frame q q1" "q_array q1 = rotate (q_head q) (q_array q)"
    proof -
      have "gcd (q_head q) (length (q_array q)) \<le> q_size q + 0"
        using s gcd_le1_nat [of "q_head q" "length (q_array q)"] by simp
      moreover have "q_array q = turned (q_head q) (q_array q) {r. r mod gcd (q_head q) (length (q_array q)) < 0}" by simp
      ultimately show thesis
        using hsieh_loop_lay [OF s(1-3) le0 _ refl s(4) [symmetric], of "q_size q"] that by auto
    qed
    define q2 where "q2 = q1\<lparr>q_head := 0, q_tail := length xs - 1\<rparr>"
    have fr: "q_place q1 = q_place q" "q_size q1 = q_size q" "q_count q1 = length xs" "length (q_small q1) = length (q_small q)"
      using q1(2) cnt by (simp_all add: q_frame_def)
    have rot: "q_array q1 = xs @ junk" using q1(3) lay by (simp add: q_lay_def)
    have "q_lay q2 xs junk"
      using lay fr rot sz pos by (auto simp: q2_def q_lay_def) (auto simp: q_array_def)
    moreover have "Normalize d q = Ok q2"
    proof -
      have "\<not> length xs * 2 mod 2 ^ 32 \<le> q_size q" using no sz by simp
      then show ?thesis using False q1(1) fr(3) pos sz
        by (simp add: Normalize_def cnt q2_def Let_def Suc_le_eq)
    qed
    moreover have "IsNormalized q2" by (simp add: IsNormalized_def q2_def)
    moreover have "q_spare d q2" using q_frame_spare [OF q1(2) sp] by (simp add: q2_def)
    moreover have "q_size q2 = q_size q" using fr(2) by (simp add: q2_def)
    ultimately show thesis by (intro that [of q2 junk]) auto
  qed
qed

subsection \<open>Swapping the contents\<close>

lemma SwapContentsAux_lay:
  assumes q: "q_lay q xs junk" "q_place q = QSmall" and r: "q_lay r ys junk2" "q_place r \<noteq> QSmall"
  obtains q' r' junk3 where "SwapContentsAux q r = Ok (q', r')" "q_lay q' ys junk2" "q_lay r' xs junk3"
proof -
  have len: "length xs \<le> SMALL_QUEUE_SIZE" "length (q_small r) = SMALL_QUEUE_SIZE"
    using q_lay_size [OF q(1)] q r(1) by (simp_all add: q_lay_def q_array_def)
  let ?P = "\<lambda>i s. s = take i xs @ drop i (q_small r)"
  have "\<exists>s. for_up 0 (length xs) (\<lambda>i small. obind (q_at q i) (wr small i)) (q_small r) = Ok s \<and> ?P (length xs) s"
  proof (rule for_up_induct [where P = ?P])
    fix i s assume i: "i < length xs" "?P i s"
    then have "i < length s" "s[i := xs ! i] = take (Suc i) xs @ drop (Suc i) (q_small r)"
      using len by (auto simp: list_update_append take_Suc_conv_app_nth Cons_nth_drop_Suc [of i, symmetric])
    then show "\<exists>s'. obind (q_at q i) (wr s i) = Ok s' \<and> ?P (Suc i) s'"
      using q_at_lay [OF q(1) i(1)] by simp
  qed simp_all
  then have small: "for_up 0 (length xs) (\<lambda>i small. obind (q_at q i) (wr small i)) (q_small r)
    = Ok (xs @ drop (length xs) (q_small r))" by simp
  let ?q = "q\<lparr>q_heap := q_heap r, q_place := q_place r, q_size := q_size r,
                   q_head := (if q_size r > 0 then q_head r else 0),
                   q_tail := (if q_size r > 0 then q_tail r else 0),
                   q_count := q_count r\<rparr>"
  have "q_lay ?q ys junk2"
    using q r by (cases "q_place r") (auto simp: q_lay_def q_array_def)
  moreover define r1 where "r1 = r\<lparr>q_small := xs @ drop (length xs) (q_small r), q_heap := [], q_count := length xs\<rparr>"
  define r' where "r' = (if length xs > 0
                  then r1\<lparr>q_place := QSmall, q_size := SMALL_QUEUE_SIZE, q_head := 0, q_tail := length xs - 1\<rparr>
                  else r1\<lparr>q_place := QNull, q_size := 0\<rparr>)"
  have "q_lay r' xs (if length xs > 0 then drop (length xs) (q_small r) else [])"
    using len by (auto simp: q_lay_def q_array_def r1_def r'_def SMALL_QUEUE_SIZE_def)
  moreover have "SwapContentsAux q r = Ok (?q, r')"
    by (simp add: SwapContentsAux_def count_lay [OF q(1)] small r1_def r'_def Let_def)
  ultimately show thesis using that by blast
qed

lemma swap_common_lay:
  assumes "q_lay q xs junk" "q_lay r ys junk2" "n \<le> length xs" "n \<le> length ys"
  obtains q' r' where "swap_common n (q, r) = Ok (q', r')"
    "q_lay q' (take n ys @ drop n xs) junk" "q_lay r' (take n xs @ drop n ys) junk2"
proof -
  let ?P = "\<lambda>i (q', r'). q_lay q' (take i ys @ drop i xs) junk \<and> q_lay r' (take i xs @ drop i ys) junk2"
  have "\<exists>t. swap_common n (q, r) = Ok t \<and> ?P n t"
    unfolding swap_common_def
  proof (rule for_up_induct [where P = ?P])
    fix i t assume i: "i < n" "?P i t"
    obtain q1 r1 where t: "t = (q1, r1)" by (cases t)
    let ?xs = "take i ys @ drop i xs" and ?ys = "take i xs @ drop i ys"
    from i t have l: "q_lay q1 ?xs junk" "q_lay r1 ?ys junk2" by auto
    have b: "i < length ?xs" "i < length ?ys" using i(1) assms(3,4) by auto
    have v: "q_at q1 i = Ok (xs ! i)" "q_at r1 i = Ok (ys ! i)"
      using q_at_lay [OF l(1) b(1)] q_at_lay [OF l(2) b(2)] i(1) assms(3,4) by (simp_all add: nth_append min_absorb2)
    have u: "?xs[i := ys ! i] = take (Suc i) ys @ drop (Suc i) xs" "?ys[i := xs ! i] = take (Suc i) xs @ drop (Suc i) ys"
      using i(1) assms(3,4)
      by (simp_all add: list_update_append take_Suc_conv_app_nth Cons_nth_drop_Suc [of i xs, symmetric]
          Cons_nth_drop_Suc [of i ys, symmetric] min_absorb2)
    obtain q2 where q2: "q_at_put q1 i (ys ! i) = Ok q2" "q_lay q2 (take (Suc i) ys @ drop (Suc i) xs) junk"
      using q_at_put_lay [OF l(1) b(1), of "ys ! i"] unfolding u by metis
    obtain r2 where "q_at_put r1 i (xs ! i) = Ok r2" "q_lay r2 (take (Suc i) xs @ drop (Suc i) ys) junk2"
      using q_at_put_lay [OF l(2) b(2), of "xs ! i"] unfolding u by metis
    with q2 v show "\<exists>t'. (case t of (q, r) \<Rightarrow> obind (q_at q i) (\<lambda>a. obind (q_at r i) (\<lambda>b.
       obind (q_at_put q i b) (\<lambda>q. obind (q_at_put r i a) (\<lambda>r. Ok (q, r)))))) = Ok t' \<and> ?P (Suc i) t'"
      by (simp add: t)
  qed (use assms in auto)
  then show thesis using that by auto
qed

lemma no_alloc:
  "q_place q \<noteq> QNull \<Longrightarrow> n \<le> q_size q \<Longrightarrow>
   EnsureSize am d q n True 0 False = EnsureSize (\<lambda>_. True) d q n True 0 False"
  by (simp add: EnsureSize_def EnsureSizeAux_def)

text \<open>Both queues keep their items inline: the items that only the longer one has move over first.\<close>

lemma level_small_lay:
  assumes q: "q_lay q xs junk" "q_spare d q" "q_place q = QSmall"
    and r: "q_lay r ys junk2" "q_spare d r" "q_place r = QSmall" and n: "length xs \<le> length ys"
  obtains q' r' junk3 junk4 where "level_small am d (length xs) q r = Ok (q', r')"
    "q_lay q' (xs @ drop (length xs) ys) junk3" "q_lay r' (take (length xs) ys) junk4"
proof -
  have sz: "q_size q = 3" "q_size r = 3" using q(1,3) r(1,3) by (simp_all add: q_lay_def q_array_def SMALL_QUEUE_SIZE_def)
  have l3: "length ys \<le> 3" using q_lay_size [OF r(1)] sz by simp
  have tk: "take (2 ^ 32 - 1) (drop (length xs) ys) = drop (length xs) ys" by (rule take_all) (use l3 in simp)
  have len: "length xs + length (take (2 ^ 32 - 1) (drop (length xs) ys)) < 2 ^ 31" unfolding tk using l3 n by simp
  obtain q1 junk3 where q1: "AddTailMulti (\<lambda>_. True) d q r (length xs) (2 ^ 32 - 1) = Ok (B_NO_ERROR, q1)"
    "q_lay q1 (xs @ drop (length xs) ys) junk3"
  proof (cases rule: AddTailMulti_lay [OF q(1,2) r(1) len, of "\<lambda>_. True"])
    case (2 q' junk')
    then show thesis using that unfolding tk by blast
  qed simp
  have N: "add32 (length xs) (how_many r (length xs) (2 ^ 32 - 1)) \<le> 3"
    unfolding how_many_lay [OF r(1)] tk using l3 n by simp
  have "AddTailMulti am d q r (length xs) (2 ^ 32 - 1) = AddTailMulti (\<lambda>_. True) d q r (length xs) (2 ^ 32 - 1)"
    unfolding AddTailMulti_def Let_def count_lay [OF q(1)]
    by (subst no_alloc) (use N sz(1) q(3) in simp_all)
  moreover have "q_place r \<noteq> QNull" using r(3) by simp
  then obtain r1 junk4 where "EnsureSize am d r (length xs) True 0 False = Ok (B_NO_ERROR, r1)"
    "q_lay r1 (take (length xs) ys) junk4"
    using EnsureSize_smaller_lay [OF r(1,2) n, of am] by metis
  ultimately show thesis using that q1 by (simp add: level_small_def)
qed

text \<open>\<^verbatim>\<open>SwapContents\<close> exchanges the items of two queues, whichever of them are inline.\<close>

lemma SwapContents_lay:
  assumes q: "q_lay q xs junk" "q_spare d q" and r: "q_lay r ys junk2" "q_spare d r"
  obtains q' r' junk3 junk4 where "SwapContents am d q r = Ok (q', r')" "q_lay q' ys junk3" "q_lay r' xs junk4"
proof -
  consider (both) "q_place q = QSmall" "q_place r = QSmall" | (mine) "q_place q = QSmall" "q_place r \<noteq> QSmall"
    | (other) "q_place q \<noteq> QSmall" "q_place r = QSmall" | (none) "q_place q \<noteq> QSmall" "q_place r \<noteq> QSmall" by blast
  then show thesis
  proof cases
    case both
    note cnt = count_lay [OF q(1)] count_lay [OF r(1)]
    show thesis
    proof (cases "length xs > length ys")
      case True
      have le: "length ys \<le> length xs" using True by simp
      obtain r1 q1 j3 j4 where 1: "level_small am d (length ys) r q = Ok (r1, q1)"
        "q_lay r1 (ys @ drop (length ys) xs) j3" "q_lay q1 (take (length ys) xs) j4"
        using level_small_lay [OF r both(2) q both(1) le] by metis
      have "length ys \<le> length (take (length ys) xs)" "length ys \<le> length (ys @ drop (length ys) xs)" using le by simp_all
      from swap_common_lay [OF 1(3,2) this] obtain q2 r2 where
        "swap_common (length ys) (q1, r1) = Ok (q2, r2)" "q_lay q2 ys j4" "q_lay r2 xs j3"
        using le by (auto simp: min_absorb2)
      with 1(1) True both show thesis by (intro that) (auto simp: SwapContents_def cnt min_absorb2 Let_def)
    next
      case False
      then have le: "length xs \<le> length ys" by simp
      obtain q1 r1 j3 j4 where 1: "level_small am d (length xs) q r = Ok (q1, r1)"
        "q_lay q1 (xs @ drop (length xs) ys) j3" "q_lay r1 (take (length xs) ys) j4"
        using level_small_lay [OF q both(1) r both(2) le] by metis
      have "length xs \<le> length (xs @ drop (length xs) ys)" "length xs \<le> length (take (length xs) ys)" using le by simp_all
      from swap_common_lay [OF 1(2,3) this] obtain q2 r2 where
        "swap_common (length xs) (q1, r1) = Ok (q2, r2)" "q_lay q2 ys j3" "q_lay r2 xs j4"
        using le by (auto simp: min_absorb2)
      with 1(1) False both show thesis by (intro that) (auto simp: SwapContents_def cnt min_absorb1 Let_def)
    qed
  next
    case mine
    obtain q' r' j where "SwapContentsAux q r = Ok (q', r')" "q_lay q' ys junk2" "q_lay r' xs j"
      using SwapContentsAux_lay [OF q(1) mine(1) r(1) mine(2)] by metis
    with mine show thesis by (intro that) (auto simp: SwapContents_def)
  next
    case other
    obtain r' q' j where "SwapContentsAux r q = Ok (r', q')" "q_lay r' xs junk" "q_lay q' ys j"
      using SwapContentsAux_lay [OF r(1) other(2) q(1) other(1)] by metis
    with other show thesis by (intro that) (auto simp: SwapContents_def)
  next
    case none
    let ?q = "q\<lparr>q_heap := q_heap r, q_place := q_place r, q_size := q_size r, q_head := q_head r,
              q_tail := q_tail r, q_count := q_count r\<rparr>"
    let ?r = "r\<lparr>q_heap := q_heap q, q_place := q_place q, q_size := q_size q, q_head := q_head q,
                 q_tail := q_tail q, q_count := q_count q\<rparr>"
    have "q_lay ?q ys junk2" using none q(1) r(1) by (cases "q_place r") (auto simp: q_lay_def q_array_def)
    moreover have "q_lay ?r xs junk" using none q(1) r(1) by (cases "q_place q") (auto simp: q_lay_def q_array_def)
    moreover have "SwapContents am d q r = Ok (?q, ?r)" using none by (simp add: SwapContents_def)
    ultimately show thesis using that by blast
  qed
qed

end
