(* ===== verification/Queue_Properties.thy ===== *)
theory Queue_Properties
  imports Queue_Tidy
begin

section \<open>Queue: the double-ended queue as a specification, and the properties\<close>

text \<open>
  The interface of a double-ended queue as a locale, the runs of commands it promises, and its
  interpretation on the circular array.  Then the properties of the other operations.
\<close>

subsection \<open>Commands and their specification on lists\<close>

datatype 'a deque_cmd = PushTail 'a | PushHead 'a | PopHead | PopTail

type_synonym 'a reply = "status \<times> 'a option"

text \<open>The list after a command with this reply; \<open>None\<close> if the command cannot reply that.\<close>

fun deque_spec :: "'a deque_cmd \<Rightarrow> 'a reply \<Rightarrow> 'a list \<Rightarrow> 'a list option" where
  "deque_spec (PushTail v) (st, r) xs = (if r = None then Some (if st = B_NO_ERROR then xs @ [v] else xs) else None)"
| "deque_spec (PushHead v) (st, r) xs = (if r = None then Some (if st = B_NO_ERROR then v # xs else xs) else None)"
| "deque_spec PopHead (st, r) xs =
     (if xs = [] then (if (st, r) = (B_ERROR, None) then Some [] else None)
      else if (st, r) = (B_NO_ERROR, Some (hd xs)) then Some (tl xs) else None)"
| "deque_spec PopTail (st, r) xs =
     (if xs = [] then (if (st, r) = (B_ERROR, None) then Some [] else None)
      else if (st, r) = (B_NO_ERROR, Some (last xs)) then Some (butlast xs) else None)"

fun deque_spec_run :: "'a deque_cmd list \<Rightarrow> 'a reply list \<Rightarrow> 'a list \<Rightarrow> 'a list option" where
  "deque_spec_run [] [] xs = Some xs"
| "deque_spec_run (c # cs) (r # rs) xs = Option.bind (deque_spec c r xs) (deque_spec_run cs rs)"
| "deque_spec_run _ _ xs = None"

text \<open>The same commands on an implementation.\<close>

definition pop_reply :: "(status \<times> 'a \<times> 'q) outcome \<Rightarrow> ('a reply \<times> 'q) outcome" where
  "pop_reply r = obind r (\<lambda>(st, v, q). Ok ((st, if st = B_NO_ERROR then Some v else None), q))"

fun deque_do ::
    "('a \<Rightarrow> 'q \<Rightarrow> (status \<times> 'q) outcome) \<Rightarrow> ('a \<Rightarrow> 'q \<Rightarrow> (status \<times> 'q) outcome) \<Rightarrow>
     ('q \<Rightarrow> (status \<times> 'a \<times> 'q) outcome) \<Rightarrow> ('q \<Rightarrow> (status \<times> 'a \<times> 'q) outcome) \<Rightarrow>
     'a deque_cmd \<Rightarrow> 'q \<Rightarrow> ('a reply \<times> 'q) outcome"
where
  "deque_do add_tail add_head remove_head remove_tail (PushTail v) q = obind (add_tail v q) (\<lambda>(st, q). Ok ((st, None), q))"
| "deque_do add_tail add_head remove_head remove_tail (PushHead v) q = obind (add_head v q) (\<lambda>(st, q). Ok ((st, None), q))"
| "deque_do add_tail add_head remove_head remove_tail PopHead q = pop_reply (remove_head q)"
| "deque_do add_tail add_head remove_head remove_tail PopTail q = pop_reply (remove_tail q)"

fun run_cmds :: "('c \<Rightarrow> 'q \<Rightarrow> ('r \<times> 'q) outcome) \<Rightarrow> 'c list \<Rightarrow> 'q \<Rightarrow> ('r list \<times> 'q) outcome" where
  "run_cmds step [] q = Ok ([], q)"
| "run_cmds step (c # cs) q = obind (step c q) (\<lambda>(r, q). obind (run_cmds step cs q) (\<lambda>(rs, q). Ok (r # rs, q)))"

subsection \<open>The interface\<close>

locale deque =
  fixes rep :: "'q \<Rightarrow> 'a list \<Rightarrow> bool"
    and capacity :: nat
    and add_tail add_head :: "'a \<Rightarrow> 'q \<Rightarrow> (status \<times> 'q) outcome"
    and remove_head remove_tail :: "'q \<Rightarrow> (status \<times> 'a \<times> 'q) outcome"
  assumes add_tail: "\<And>q xs v. rep q xs \<Longrightarrow> length xs < capacity \<Longrightarrow>
      \<exists>st q'. add_tail v q = Ok (st, q') \<and> rep q' (if st = B_NO_ERROR then xs @ [v] else xs)"
    and add_head: "\<And>q xs v. rep q xs \<Longrightarrow> length xs < capacity \<Longrightarrow>
      \<exists>st q'. add_head v q = Ok (st, q') \<and> rep q' (if st = B_NO_ERROR then v # xs else xs)"
    and remove_head: "\<And>q x xs. rep q (x # xs) \<Longrightarrow> \<exists>q'. remove_head q = Ok (B_NO_ERROR, x, q') \<and> rep q' xs"
    and remove_tail: "\<And>q x xs. rep q (xs @ [x]) \<Longrightarrow> \<exists>q'. remove_tail q = Ok (B_NO_ERROR, x, q') \<and> rep q' xs"
    and remove_empty: "\<And>q. rep q [] \<Longrightarrow> \<exists>x y. remove_head q = Ok (B_ERROR, x, q) \<and> remove_tail q = Ok (B_ERROR, y, q)"
begin

abbreviation "step \<equiv> deque_do add_tail add_head remove_head remove_tail"

lemma step_refines:
  assumes "rep q xs" "length xs < capacity"
  shows "\<exists>r q' ys. step c q = Ok (r, q') \<and> deque_spec c r xs = Some ys \<and> rep q' ys \<and> length ys \<le> Suc (length xs)"
proof (cases c)
  case (PushTail v)
  with add_tail [OF assms, of v] show ?thesis by fastforce
next
  case (PushHead v)
  with add_head [OF assms, of v] show ?thesis by fastforce
next
  case PopHead
  then show ?thesis using remove_empty [of q] remove_head [of q] assms(1)
    by (cases xs) (fastforce simp: pop_reply_def)+
next
  case PopTail
  then show ?thesis using remove_empty [of q] remove_tail [of q] assms(1)
    by (cases xs rule: rev_cases) (fastforce simp: pop_reply_def)+
qed

lemma run_refines:
  "rep q xs \<Longrightarrow> length xs + length cs \<le> capacity \<Longrightarrow>
   \<exists>rs q' ys. run_cmds step cs q = Ok (rs, q') \<and> deque_spec_run cs rs xs = Some ys \<and> rep q' ys"
proof (induction cs arbitrary: q xs)
  case (Cons c cs)
  then obtain r q1 ys where 1: "step c q = Ok (r, q1)" "deque_spec c r xs = Some ys" "rep q1 ys" "length ys \<le> Suc (length xs)"
    using step_refines [of q xs c] by auto
  then have "length ys + length cs \<le> capacity" using Cons.prems(2) by simp
  from Cons.IH [OF 1(3) this] 1 show ?case by auto
qed auto

end

text \<open>A double-ended queue whose additions never fail.\<close>

locale deque_memory = deque +
  assumes memory: "\<And>q xs v. rep q xs \<Longrightarrow> length xs < capacity \<Longrightarrow> \<exists>q'. add_tail v q = Ok (B_NO_ERROR, q')"
begin

lemma push_all:
  "rep q xs \<Longrightarrow> length xs + length vs \<le> capacity \<Longrightarrow>
   \<exists>q'. run_cmds step (map PushTail vs) q = Ok (replicate (length vs) (B_NO_ERROR, None), q') \<and> rep q' (xs @ vs)"
proof (induction vs arbitrary: q xs)
  case (Cons v vs)
  obtain q1 where 1: "add_tail v q = Ok (B_NO_ERROR, q1)" "rep q1 (xs @ [v])"
    using add_tail [of q xs v] memory [of q xs v] Cons.prems by fastforce
  have "length (xs @ [v]) + length vs \<le> capacity" using Cons.prems(2) by simp
  from Cons.IH [OF 1(2) this] 1(1) show ?case by auto
qed auto

lemma pop_all:
  "rep q vs \<Longrightarrow> \<exists>q'. run_cmds step (replicate (length vs) PopHead) q = Ok (map (\<lambda>v. (B_NO_ERROR, Some v)) vs, q') \<and> rep q' []"
proof (induction vs arbitrary: q)
  case (Cons v vs)
  obtain q1 where 1: "remove_head q = Ok (B_NO_ERROR, v, q1)" "rep q1 vs" using remove_head [OF Cons.prems] by blast
  from Cons.IH [OF 1(2)] 1(1) show ?case by (auto simp: pop_reply_def)
qed auto

lemma run_append:
  "run_cmds step cs q = Ok (rs, q1) \<Longrightarrow> run_cmds step ds q1 = Ok (rs', q2) \<Longrightarrow> run_cmds step (cs @ ds) q = Ok (rs @ rs', q2)"
  by (induction cs arbitrary: q rs) (auto simp: obind_eq_Ok)

lemma fifo:
  assumes "rep q []" "length vs \<le> capacity"
  shows "\<exists>q'. run_cmds step (map PushTail vs @ replicate (length vs) PopHead) q
      = Ok (replicate (length vs) (B_NO_ERROR, None) @ map (\<lambda>v. (B_NO_ERROR, Some v)) vs, q') \<and> rep q' []"
  using push_all [of q "[]" vs] pop_all run_append assms by fastforce

end

subsection \<open>The circular array provides the interface\<close>

lemma q_cleanI: "q_lay q xs junk \<Longrightarrow> set junk \<subseteq> {d} \<Longrightarrow> q_spare d q \<Longrightarrow> q_clean d q xs"
  by (auto simp: q_clean_def)

lemma AddTail_clean:
  assumes "q_clean d q xs" "length xs + 1 < 2 ^ 30"
  shows "AddTail am d q (Val v) = Ok (B_ERROR, q) \<and> \<not> am (max 3 (2 * (length xs + 1)))
    \<or> (\<exists>q'. AddTail am d q (Val v) = Ok (B_NO_ERROR, q') \<and> q_clean d q' (xs @ [v]))"
proof -
  obtain junk where j: "q_lay q xs junk" "set junk \<subseteq> {d}" "q_spare d q" using assms(1) by (auto simp: q_clean_def)
  show ?thesis
    by (cases rule: AddTail_lay [where item = "Val v" and am = am, OF j(1,3) assms(2) arg_Val(2)])
      (use j(2) in \<open>auto intro!: q_cleanI\<close>)
qed

lemma AddHead_clean:
  assumes "q_clean d q xs" "length xs + 1 < 2 ^ 30"
  shows "AddHead am d q (Val v) = Ok (B_ERROR, q) \<and> \<not> am (max 3 (2 * (length xs + 1)))
    \<or> (\<exists>q'. AddHead am d q (Val v) = Ok (B_NO_ERROR, q') \<and> q_clean d q' (v # xs))"
proof -
  obtain junk where j: "q_lay q xs junk" "set junk \<subseteq> {d}" "q_spare d q" using assms(1) by (auto simp: q_clean_def)
  show ?thesis
    by (cases rule: AddHead_lay [where item = "Val v" and am = am, OF j(1,3) assms(2) arg_Val(2)])
      (use j(2) in \<open>auto intro!: q_cleanI\<close>)
qed

lemma RemoveHeadReturn_clean:
  assumes "q_clean d q (x # xs)"
  shows "\<exists>q'. RemoveHeadReturn d q r = Ok (B_NO_ERROR, x, q') \<and> q_clean d q' xs"
proof -
  obtain junk where j: "q_lay q (x # xs) junk" "set junk \<subseteq> {d}" "q_spare d q" using assms by (auto simp: q_clean_def)
  obtain q' where q': "RemoveHead d q = Ok (B_NO_ERROR, q')" "q_lay q' xs (junk @ [d])" "q_spare d q'"
    using RemoveHead_lay [OF j(1), of d] j(3) by metis
  have "q_head q = phys q 0" using lay_head_tail(1) [OF j(1)] by simp
  then have "q_rd q (q_head q) = Ok x" using lay_read [OF j(1), of 0] by simp
  moreover have "q_clean d q' xs" by (rule q_cleanI [OF q'(2) _ q'(3)]) (use j(2) in simp)
  ultimately show ?thesis using q'(1) count_lay [OF j(1)] by (simp add: RemoveHeadReturn_def)
qed

lemma RemoveTailReturn_clean:
  assumes "q_clean d q (xs @ [x])"
  shows "\<exists>q'. RemoveTailReturn d q r = Ok (B_NO_ERROR, x, q') \<and> q_clean d q' xs"
proof -
  obtain junk where j: "q_lay q (xs @ [x]) junk" "set junk \<subseteq> {d}" "q_spare d q" using assms by (auto simp: q_clean_def)
  obtain q' where q': "RemoveTail d q = Ok (B_NO_ERROR, q')" "q_lay q' xs (d # junk)" "q_spare d q'"
    using RemoveTail_lay [OF j(1), of d] j(3) by metis
  have "q_tail q = phys q (length xs)" using lay_head_tail(2) [OF j(1)] by simp
  then have "q_rd q (q_tail q) = Ok x" using lay_read [OF j(1), of "length xs"] by simp
  moreover have "q_clean d q' xs" by (rule q_cleanI [OF q'(2) _ q'(3)]) (use j(2) in simp)
  ultimately show ?thesis using q'(1) count_lay [OF j(1)] by (simp add: RemoveTailReturn_def)
qed

lemma Remove_clean_empty:
  assumes "q_clean d q []"
  shows "RemoveHeadReturn d q r = Ok (B_ERROR, r, q)" "RemoveTailReturn d q r = Ok (B_ERROR, r, q)"
  using assms by (auto simp: q_clean_def RemoveHeadReturn_def RemoveTailReturn_def count_lay)

abbreviation queue_do :: "(nat \<Rightarrow> bool) \<Rightarrow> 'a \<Rightarrow> 'a deque_cmd \<Rightarrow> 'a queue \<Rightarrow> ('a reply \<times> 'a queue) outcome" where
  "queue_do am d \<equiv> deque_do (\<lambda>v q. AddTail am d q (Val v)) (\<lambda>v q. AddHead am d q (Val v))
     (\<lambda>q. RemoveHeadReturn d q d) (\<lambda>q. RemoveTailReturn d q d)"

interpretation array_deque: deque "q_clean d" "2 ^ 30 - 1" "\<lambda>v q. AddTail am d q (Val v)" "\<lambda>v q. AddHead am d q (Val v)"
  "\<lambda>q. RemoveHeadReturn d q d" "\<lambda>q. RemoveTailReturn d q d"
proof
  fix q :: "'a queue" and xs v
  assume *: "q_clean d q xs" "length xs < 2 ^ 30 - 1"
  then have l: "length xs + 1 < 2 ^ 30" by linarith
  show "\<exists>st q'. AddTail am d q (Val v) = Ok (st, q') \<and> q_clean d q' (if st = B_NO_ERROR then xs @ [v] else xs)"
    using AddTail_clean [OF *(1) l, of am v] *(1) by (metis status.distinct(1))
  show "\<exists>st q'. AddHead am d q (Val v) = Ok (st, q') \<and> q_clean d q' (if st = B_NO_ERROR then v # xs else xs)"
    using AddHead_clean [OF *(1) l, of am v] *(1) by (metis status.distinct(1))
qed (simp_all add: RemoveHeadReturn_clean RemoveTailReturn_clean Remove_clean_empty)

interpretation roomy_deque: deque_memory "q_clean d" "2 ^ 30 - 1" "\<lambda>v q. AddTail (\<lambda>_. True) d q (Val v)"
  "\<lambda>v q. AddHead (\<lambda>_. True) d q (Val v)" "\<lambda>q. RemoveHeadReturn d q d" "\<lambda>q. RemoveTailReturn d q d"
proof
  fix q :: "'a queue" and xs v
  assume *: "q_clean d q xs" "length xs < 2 ^ 30 - 1"
  then have "length xs + 1 < 2 ^ 30" by linarith
  from AddTail_clean [OF *(1) this, of "\<lambda>_. True" v]
  show "\<exists>q'. AddTail (\<lambda>_. True) d q (Val v) = Ok (B_NO_ERROR, q')" by blast
qed

subsection \<open>Sample queues\<close>

text \<open>A full inline array that wraps around, and a small one on the heap.\<close>

definition sample_queue :: "nat queue" where
  "sample_queue = \<lparr>q_small = [20, 30, 10], q_heap = [], q_place = QSmall, q_size = 3, q_count = 3, q_head = 2, q_tail = 1\<rparr>"

definition sample_heap_queue :: "nat queue" where
  "sample_heap_queue = \<lparr>q_small = [0, 0, 0], q_heap = [7, 5, 0, 0, 7, 6], q_place = QHeap, q_size = 6, q_count = 4,
     q_head = 4, q_tail = 1\<rparr>"

lemma sample_queue_clean: "q_clean 0 sample_queue [10, 20, 30]"
proof (rule q_cleanI)
  show "q_lay sample_queue [10, 20, 30] []"
    by (simp add: q_lay_def sample_queue_def q_array_def SMALL_QUEUE_SIZE_def rotate_drop_take)
qed (simp_all add: q_spare_def sample_queue_def)

lemma sample_heap_queue_clean: "q_clean 0 sample_heap_queue [7, 6, 7, 5]"
proof (rule q_cleanI)
  show "q_lay sample_heap_queue [7, 6, 7, 5] [0, 0]"
    by (simp add: q_lay_def sample_heap_queue_def q_array_def SMALL_QUEUE_SIZE_def rotate_drop_take)
qed (simp_all add: q_spare_def sample_heap_queue_def SMALL_QUEUE_SIZE_def numeral_3_eq_3)

lemma NewQueue_clean: "q_clean d (NewQueue d h t) []"
  by (auto simp: q_clean_def q_lay_def q_spare_def NewQueue_def q_array_def)

subsection \<open>Runs of commands\<close>

text \<open>
  C14.  Every sequence of AddTail, AddHead, RemoveHead and RemoveTail on a queue runs without an access
  outside of its array and behaves as on the list of its items: each reply is one that the specification
  allows (an addition may fail when memory is short, and then changes nothing), the items afterwards are
  the specified ones, and all unused slots still hold the default item.  Items and commands are fewer than
  \<open>2 ^ 30\<close>.
\<close>

theorem queue_run_refines:
  assumes "q_clean d q xs" "length xs + length cs < 2 ^ 30"
  shows "\<exists>rs q' ys. run_cmds (queue_do am d) cs q = Ok (rs, q')
    \<and> deque_spec_run cs rs xs = Some ys \<and> q_clean d q' ys"
proof -
  have "length xs + length cs \<le> 2 ^ 30 - 1" using assms(2) by linarith
  with assms(1) show ?thesis by (rule array_deque.run_refines)
qed

theorem queue_run_refines_witness:
  "\<exists>rs q' ys. run_cmds (queue_do (\<lambda>n. n < 8) 0) [PushTail 40, PopHead, PushHead 50, PopTail] sample_queue = Ok (rs, q')
    \<and> deque_spec_run [PushTail 40, PopHead, PushHead 50, PopTail] rs [10, 20, 30] = Some ys \<and> q_clean 0 q' ys"
  by (rule queue_run_refines [OF sample_queue_clean]) simp

text \<open>
  C39.  With enough memory, a queue that starts as constructed gives back what was added (fewer than
  \<open>2 ^ 30\<close> items), first in first out, and is empty again.
\<close>

theorem queue_fifo:
  assumes "length vs < 2 ^ 30"
  shows "\<exists>q'. run_cmds (queue_do (\<lambda>_. True) d) (map PushTail vs @ replicate (length vs) PopHead) (NewQueue d h t)
      = Ok (replicate (length vs) (B_NO_ERROR, None) @ map (\<lambda>v. (B_NO_ERROR, Some v)) vs, q') \<and> q_clean d q' []"
proof -
  have "length vs \<le> 2 ^ 30 - 1" using assms by linarith
  with NewQueue_clean show ?thesis by (rule roomy_deque.fifo)
qed

theorem queue_fifo_witness:
  "\<exists>q'. run_cmds (queue_do (\<lambda>_. True) 0) (map PushTail [3, 1, 4, 1 :: nat] @ replicate (length [3, 1, 4, 1 :: nat]) PopHead)
        (NewQueue 0 5 6)
      = Ok (replicate (length [3, 1, 4, 1 :: nat]) (B_NO_ERROR, None) @ map (\<lambda>v. (B_NO_ERROR, Some v)) [3, 1, 4, 1], q')
     \<and> q_clean 0 q' []"
  by (rule queue_fifo) simp

subsection \<open>Adding an item of the queue itself\<close>

text \<open>
  AddTail and AddHead of a reference to an item of the queue itself, while the inline array is full:
  the items move to the heap and the inline array is cleared before the reference is read, so that the
  default item is added and not the item referred to.
\<close>

theorem Add_own_item_adds_default:
  assumes "q_clean d q xs" "q_place q = QSmall" "length xs = 3" "p < 3" "am 8"
  shows "(\<exists>q'. AddTail am d q (Slot p) = Ok (B_NO_ERROR, q') \<and> q_clean d q' (xs @ [d]))
    \<and> (\<exists>q'. AddHead am d q (Slot p) = Ok (B_NO_ERROR, q') \<and> q_clean d q' (d # xs))"
proof
  obtain junk where j: "q_lay q xs junk" "set junk \<subseteq> {d}" "q_spare d q" using assms(1) by (auto simp: q_clean_def)
  have s: "length (q_array q) = 3" "q_size q = 3"
    using j(1) assms(2) by (simp_all add: q_lay_def q_array_def SMALL_QUEUE_SIZE_def)
  have ok: "arg_ok q (Slot p)" "arg_value d q (length xs + 1) (Slot p) = d" "length xs + 1 < 2 ^ 30"
    using s assms(2-4) by (simp_all add: arg_ok_def arg_value_def)
  have m: "am (max 3 (2 * (length xs + 1)))" using assms(3,5) by simp
  show "\<exists>q'. AddTail am d q (Slot p) = Ok (B_NO_ERROR, q') \<and> q_clean d q' (xs @ [d])"
    by (cases rule: AddTail_lay [where am = am, OF j(1,3) ok(3,1)]) (use j(2) ok(2) m in \<open>auto intro!: q_cleanI\<close>)
  show "\<exists>q'. AddHead am d q (Slot p) = Ok (B_NO_ERROR, q') \<and> q_clean d q' (d # xs)"
    by (cases rule: AddHead_lay [where am = am, OF j(1,3) ok(3,1)]) (use j(2) ok(2) m in \<open>auto intro!: q_cleanI\<close>)
qed

theorem Add_own_item_adds_default_witness:
  "(\<exists>q'. AddTail (\<lambda>_. True) 0 sample_queue (Slot 2) = Ok (B_NO_ERROR, q') \<and> q_clean 0 q' ([10, 20, 30] @ [0]))
   \<and> (\<exists>q'. AddHead (\<lambda>_. True) 0 sample_queue (Slot 2) = Ok (B_NO_ERROR, q') \<and> q_clean 0 q' (0 # [10, 20, 30]))"
  by (rule Add_own_item_adds_default [OF sample_queue_clean]) (simp_all add: sample_queue_def)

subsection \<open>Items in the middle\<close>

text \<open>
  InsertItemAt puts a value before the item at the index and keeps all others in order; an index behind
  the end is refused, and when memory is short nothing changes.
\<close>

theorem InsertItemAt_inserts:
  assumes "q_clean d q xs" "length xs + 1 < 2 ^ 30"
  shows "if i > length xs then InsertItemAt am d q i (Val v) = Ok (B_ERROR, q)
    else InsertItemAt am d q i (Val v) = Ok (B_ERROR, q) \<and> \<not> am (max 3 (2 * (length xs + 1)))
      \<or> (\<exists>q'. InsertItemAt am d q i (Val v) = Ok (B_NO_ERROR, q') \<and> q_clean d q' (take i xs @ v # drop i xs))"
proof -
  obtain junk where j: "q_lay q xs junk" "set junk \<subseteq> {d}" "q_spare d q" using assms(1) by (auto simp: q_clean_def)
  have e: "InsertItemAt am d q i (Val v) = InsertItem am d q i (Val v)"
    by (simp add: InsertItemAt_def IsItemLocatedInThisContainer_def)
  show ?thesis
  proof (cases "i > length xs")
    case True
    then show ?thesis by (simp add: e InsertItem_def count_lay [OF j(1)])
  next
    case False
    then have i: "i \<le> length xs" by simp
    show ?thesis unfolding e if_not_P [OF False]
      by (cases rule: InsertItem_lay [where am = am and v = v, OF j(1,3) assms(2) i]) (use j(2) in \<open>auto intro!: q_cleanI\<close>)
  qed
qed

theorem InsertItemAt_inserts_witness:
  "\<exists>q'. InsertItemAt (\<lambda>_. True) 0 sample_heap_queue 2 (Val 9) = Ok (B_NO_ERROR, q')
    \<and> q_clean 0 q' (take 2 [7, 6, 7, 5] @ 9 # drop 2 [7, 6, 7, 5])"
  using InsertItemAt_inserts [OF sample_heap_queue_clean, of 2 "\<lambda>_. True" 9] by simp

text \<open>
  RemoveItemAt removes exactly the item at the index, whichever end of the array it shifts, and resets
  the slot that becomes free; an index behind the end is refused.
\<close>

theorem RemoveItemAt_removes:
  assumes "q_clean d q xs"
  shows "\<exists>q'. RemoveItemAt d q i = Ok (if i < length xs then B_NO_ERROR else B_ERROR, q')
    \<and> q_clean d q' (take i xs @ drop (Suc i) xs)"
proof -
  obtain junk where j: "q_lay q xs junk" "set junk \<subseteq> {d}" "q_spare d q" using assms by (auto simp: q_clean_def)
  show ?thesis
  proof (cases "i < length xs")
    case True
    obtain q' junk' where q': "RemoveItemAt d q i = Ok (B_NO_ERROR, q')" "q_lay q' (take i xs @ drop (Suc i) xs) junk'"
      "set junk' \<subseteq> insert d (set junk)" "q_spare d q'"
      using RemoveItemAt_lay [OF j(1) True, of d] j(3) by metis
    have "q_clean d q' (take i xs @ drop (Suc i) xs)" by (rule q_cleanI [OF q'(2) _ q'(4)]) (use q'(3) j(2) in auto)
    with q'(1) True show ?thesis by simp
  next
    case False
    then show ?thesis using assms by (simp add: RemoveItemAt_def count_lay [OF j(1)])
  qed
qed

theorem RemoveItemAt_removes_witness:
  "\<exists>q'. RemoveItemAt 0 sample_heap_queue 1 = Ok (B_NO_ERROR, q') \<and> q_clean 0 q' [7, 7, 5]"
  using RemoveItemAt_removes [OF sample_heap_queue_clean, of 1] by simp

text \<open>
  RemoveAllInstancesOf of a value removes all items equal to it, keeps the others in order, resets the
  slots that become free and returns how many it removed.
\<close>

theorem RemoveAllInstancesOf_filters:
  assumes "q_clean d q xs"
  shows "\<exists>q'. RemoveAllInstancesOf d q v = Ok (length (filter (\<lambda>x. x = v) xs), q')
    \<and> q_clean d q' (filter (\<lambda>x. x \<noteq> v) xs)"
proof -
  obtain junk where j: "q_lay q xs junk" "set junk \<subseteq> {d}" "q_spare d q" using assms by (auto simp: q_clean_def)
  obtain q' junk' where q': "RemoveAllInstancesOf d q v = Ok (length (filter (\<lambda>x. x = v) xs), q')"
    "q_lay q' (filter (\<lambda>x. x \<noteq> v) xs) junk'" "set junk' \<subseteq> insert d (set junk)" "q_spare d q'"
    using RemoveAllInstancesOf_lay [OF j(1,3)] by metis
  have "q_clean d q' (filter (\<lambda>x. x \<noteq> v) xs)" by (rule q_cleanI [OF q'(2) _ q'(4)]) (use q'(3) j(2) in auto)
  with q'(1) show ?thesis by blast
qed

theorem RemoveAllInstancesOf_filters_witness:
  "\<exists>q'. RemoveAllInstancesOf 0 sample_heap_queue 7 = Ok (length (filter (\<lambda>x. x = 7) [7, 6, 7, 5 :: nat]), q')
    \<and> q_clean 0 q' (filter (\<lambda>x. x \<noteq> 7) [7, 6, 7, 5])"
  by (rule RemoveAllInstancesOf_filters [OF sample_heap_queue_clean])

subsection \<open>Sorting\<close>

lemma by_key_nat: "by_key (\<lambda>a b. int a - int b) (\<lambda>n :: nat. n)"
  by (simp add: by_key_def)

text \<open>
  C16.  Sort, which sorts short ranges by exchanges and merges longer ones in place by rotations, ends and
  is a stable sort: the items of the range are in the order of their keys, items with equal keys keep
  their order, and the items outside of the range stay.
\<close>

theorem Sort_is_stable:
  assumes "by_key Compare key" "q_clean d q xs" "length xs \<le> fuel"
  shows "\<exists>q'. Sort fuel Compare from to q = Ok q'
    \<and> q_clean d q' (take from xs @ sort_key key (take (to - from) (drop from xs)) @ drop (max from to) xs)"
proof -
  obtain junk where j: "q_lay q xs junk" "set junk \<subseteq> {d}" "q_spare d q" using assms(2) by (auto simp: q_clean_def)
  define b where "b = min to (length xs)"
  have clip: "Sort fuel Compare from to q = Sort fuel Compare from b q"
  proof -
    have "(if to > q_count q then q_count q else to) = b" "(if b > q_count q then q_count q else b) = b"
      by (auto simp: b_def count_lay [OF j(1)])
    then show ?thesis by (subst (1 2) Sort.simps) (simp only: Let_def)
  qed
  show ?thesis
  proof (cases "from < b")
    case False
    then have "to \<le> from \<or> length xs \<le> from" by (auto simp: b_def)
    then have "take from xs @ sort_key key (take (to - from) (drop from xs)) @ drop (max from to) xs = xs"
      by (auto simp: max_def)
    moreover have "Sort fuel Compare from b q = Ok q" using False by (subst Sort.simps) (auto simp: b_def Let_def count_lay [OF j(1)])
    ultimately show ?thesis using assms(2) clip by simp
  next
    case True
    let ?zs = "take (b - from) (drop from xs)"
    have b: "b \<le> length xs" "from \<le> b" "from \<le> length xs" using True by (simp_all add: b_def)
    have "drop b xs = drop (b - from) (drop from xs)" using b(2) by simp
    then have xs: "xs = take from xs @ ?zs @ drop b xs" by (simp only: append_take_drop_id)
    have l: "length (take from xs) = from" "length (take from xs) + length ?zs = b" using b by simp_all
    have "q_lay q (take from xs @ ?zs @ drop b xs) junk" using j(1) xs by simp
    moreover have "length ?zs \<le> fuel" using assms(3) by simp
    ultimately obtain q' where q': "Sort fuel Compare from b q = Ok q'"
      "q_lay q' (take from xs @ sort_key key ?zs @ drop b xs) junk" "q_spare d q'"
      using Sort_lay [OF assms(1), of ?zs fuel q "take from xs" "drop b xs" junk d] j(3) l by auto
    have "take (to - from) (drop from xs) = ?zs" "drop (max from to) xs = drop b xs"
      using True by (auto simp: b_def min_def max_def)
    with q' clip j(2) show ?thesis by (auto intro: q_cleanI)
  qed
qed

theorem Sort_is_stable_witness:
  "\<exists>q'. Sort 4 (\<lambda>a b. int a - int b) 1 9 sample_heap_queue = Ok q'
    \<and> q_clean 0 q' (take 1 [7, 6, 7, 5] @ sort_key (\<lambda>n. n) (take (9 - 1) (drop 1 [7, 6, 7, 5])) @ drop (max 1 9) [7, 6, 7, 5])"
  by (rule Sort_is_stable [OF by_key_nat sample_heap_queue_clean]) simp

text \<open>
  RemoveDuplicateItems leaves the sorted items without repetitions (the items as they are, without
  repetitions of neighbours, when it is told that they are sorted) and returns how many it removed.
\<close>

theorem RemoveDuplicateItems_unique:
  assumes "by_key Compare key" "q_clean d q xs"
  shows "\<exists>q'. RemoveDuplicateItems am d Compare presorted q =
        Ok (length xs - length (remdups_adj (if presorted then xs else sort_key key xs)), q')
      \<and> q_clean d q' (remdups_adj (if presorted then xs else sort_key key xs))"
proof -
  obtain junk where j: "q_lay q xs junk" "set junk \<subseteq> {d}" "q_spare d q" using assms(2) by (auto simp: q_clean_def)
  show ?thesis
    by (rule RemoveDuplicateItems_lay [where am = am and assumeAlreadySorted = presorted, OF j(1,3) assms(1)])
      (use j(2) in \<open>blast intro: q_cleanI\<close>)
qed

theorem RemoveDuplicateItems_unique_witness:
  "\<exists>q'. RemoveDuplicateItems (\<lambda>_. False) 0 (\<lambda>a b. int a - int b) False sample_heap_queue =
        Ok (length [7, 6, 7, 5 :: nat] - length (remdups_adj (if False then [7, 6, 7, 5 :: nat] else sort_key (\<lambda>n. n) [7, 6, 7, 5])), q')
      \<and> q_clean 0 q' (remdups_adj (if False then [7, 6, 7, 5] else sort_key (\<lambda>n. n) [7, 6, 7, 5]))"
  by (rule RemoveDuplicateItems_unique [OF by_key_nat sample_heap_queue_clean])

subsection \<open>The whole array\<close>

text \<open>
  Normalize, by copying or by rotating the whole array in place, ends and makes the items contiguous:
  afterwards GetArrayPointer gives one piece with all items in order, and no second piece.
\<close>

theorem Normalize_contiguous:
  assumes "q_clean d q xs" "xs \<noteq> []"
  shows "\<exists>q'. Normalize d q = Ok q' \<and> q_clean d q' xs \<and> GetArrayPointerAux q' 0 = Some (q_head q', length xs)
    \<and> GetArrayPointerAux q' 1 = None \<and> take (length xs) (drop (q_head q') (q_array q')) = xs"
proof -
  obtain junk where j: "q_lay q xs junk" "set junk \<subseteq> {d}" "q_spare d q" using assms(1) by (auto simp: q_clean_def)
  obtain q' junk' where q': "Normalize d q = Ok q'" "q_lay q' xs junk'" "IsNormalized q'" "q_spare d q'"
    "set junk' \<subseteq> insert d (set junk)" using Normalize_lay [OF j(1,3)] by metis
  have clean: "q_clean d q' xs" by (rule q_cleanI [OF q'(2) _ q'(4)]) (use q'(5) j(2) in auto)
  note n = count_lay [OF q'(2)] q_lay_size [OF q'(2)] lay_tail [OF q'(2) assms(2)]
  have pos: "0 < length xs" using assms(2) by simp
  have ht: "q_head q' \<le> q_tail q'" using q'(3) n(1) pos by (simp add: IsNormalized_def)
  have t: "q_tail q' = (q_head q' + (length xs - 1)) mod q_size q'" using q'(2) assms(2) by (simp add: q_lay_def)
  have fit: "q_head q' + length xs \<le> q_size q'"
  proof (rule ccontr)
    assume "\<not> ?thesis"
    then have "q_size q' \<le> q_head q' + (length xs - 1)" "q_head q' + (length xs - 1) - q_size q' < q_size q'"
      using n(2,3) pos by linarith+
    moreover from this have "q_tail q' = q_head q' + (length xs - 1) - q_size q'" using t by (simp add: mod_if)
    ultimately show False using ht n(2) pos by linarith
  qed
  have "(q_head q' + (length xs - 1)) mod q_size q' = q_head q' + (length xs - 1)"
    by (rule mod_less) (use fit pos in linarith)
  then have t': "q_tail q' = q_head q' + (length xs - 1)" using t by simp
  have "sub32 (q_tail q') (q_head q') = length xs - 1" unfolding t' using n(2,3) t' by (subst sub32_small) simp_all
  then have "add32 (sub32 (q_tail q') (q_head q')) 1 = length xs" using n(2,3) pos by simp
  moreover have "take (length xs) (drop (q_head q') (q_array q')) = xs"
  proof -
    have r: "rotate (q_head q') (q_array q') = xs @ junk'" "q_size q' = length (q_array q')"
      using q'(2) by (simp_all add: q_lay_def)
    then have "drop (q_head q') (q_array q') @ take (q_head q') (q_array q') = xs @ junk'"
      using n(3) by (simp add: rotate_drop_take)
    then have "take (length xs) (drop (q_head q') (q_array q') @ take (q_head q') (q_array q')) = xs" by simp
    moreover have "length xs \<le> length (drop (q_head q') (q_array q'))" using fit r(2) by simp
    ultimately show ?thesis by simp
  qed
  ultimately show ?thesis using q'(1) clean ht n(1) pos by (auto simp: GetArrayPointerAux_def)
qed

theorem Normalize_contiguous_witness:
  "\<exists>q'. Normalize 0 sample_queue = Ok q' \<and> q_clean 0 q' [10, 20, 30]
    \<and> GetArrayPointerAux q' 0 = Some (q_head q', length [10, 20, 30 :: nat])
    \<and> GetArrayPointerAux q' 1 = None \<and> take (length [10, 20, 30 :: nat]) (drop (q_head q') (q_array q')) = [10, 20, 30]"
  by (rule Normalize_contiguous [OF sample_queue_clean]) simp

text \<open>
  SwapContents exchanges the items of two queues, whether they keep them inline or on the heap: each
  queue afterwards reads back, index by index, what the other held.
\<close>

theorem SwapContents_exchanges:
  assumes "q_clean d q xs" "q_clean d r ys"
  shows "\<exists>q' r'. SwapContents am d q r = Ok (q', r')
    \<and> (\<forall>i. GetItemAt q' i = Ok (if i < length ys then Some (ys ! i) else None))
    \<and> (\<forall>i. GetItemAt r' i = Ok (if i < length xs then Some (xs ! i) else None))"
proof -
  obtain j1 j2 where j: "q_lay q xs j1" "q_spare d q" "q_lay r ys j2" "q_spare d r"
    using assms by (auto simp: q_clean_def)
  obtain q' r' j3 j4 where "SwapContents am d q r = Ok (q', r')" "q_lay q' ys j3" "q_lay r' xs j4"
    using SwapContents_lay [OF j] by metis
  then show ?thesis using GetItemAt_lay by blast
qed

theorem SwapContents_exchanges_witness:
  "\<exists>q' r'. SwapContents (\<lambda>_. False) 0 sample_queue sample_heap_queue = Ok (q', r')
    \<and> (\<forall>i. GetItemAt q' i = Ok (if i < length [7, 6, 7, 5 :: nat] then Some ([7, 6, 7, 5 :: nat] ! i) else None))
    \<and> (\<forall>i. GetItemAt r' i = Ok (if i < length [10, 20, 30 :: nat] then Some ([10, 20, 30 :: nat] ! i) else None))"
  by (rule SwapContents_exchanges [OF sample_queue_clean sample_heap_queue_clean])

text \<open>
  CopyFrom makes a queue that compares equal to the one copied, or fails for lack of memory and changes
  nothing; the comparison is equality of the lists of items.
\<close>

theorem CopyFrom_makes_equal:
  assumes "q_clean d q xs" "q_clean d r ys"
  shows "QueueEq q r = Ok (xs = ys)
    \<and> (CopyFrom am d q r = Ok (B_ERROR, q) \<and> \<not> am (max 3 (length ys))
       \<or> (\<exists>q'. CopyFrom am d q r = Ok (B_NO_ERROR, q') \<and> q_clean d q' ys \<and> QueueEq q' r = Ok True))"
proof -
  obtain j1 j2 where j: "q_lay q xs j1" "q_spare d q" "q_lay r ys j2" "set j1 \<subseteq> {d}"
    using assms by (auto simp: q_clean_def)
  have "CopyFrom am d q r = Ok (B_ERROR, q) \<and> \<not> am (max 3 (length ys))
       \<or> (\<exists>q'. CopyFrom am d q r = Ok (B_NO_ERROR, q') \<and> q_clean d q' ys \<and> QueueEq q' r = Ok True)"
  proof (cases rule: CopyFrom_lay [where am = am, OF j(1-3)])
    case (2 q' junk')
    have "q_clean d q' ys" by (rule q_cleanI [OF 2(2) _ 2(4)]) (use 2(3) j(4) in auto)
    then show ?thesis using 2(1) QueueEq_lay [OF 2(2) j(3)] by simp
  qed simp
  then show ?thesis using QueueEq_lay [OF j(1,3)] by simp
qed

theorem CopyFrom_makes_equal_witness:
  "QueueEq sample_queue sample_heap_queue = Ok False
    \<and> (\<exists>q'. CopyFrom (\<lambda>_. True) 0 sample_queue sample_heap_queue = Ok (B_NO_ERROR, q')
        \<and> q_clean 0 q' [7, 6, 7, 5] \<and> QueueEq q' sample_heap_queue = Ok True)"
  using CopyFrom_makes_equal [OF sample_queue_clean sample_heap_queue_clean, of "\<lambda>_. True"] by simp

text \<open>
  StartsWith decides whether one queue is a prefix of the other, but EndsWith does not decide whether
  it is a suffix: for every shorter suffix that is not empty it reads behind the end of the suffix, and the
  assertion of operator [] fails.
\<close>

theorem EndsWith_reads_behind_suffix:
  assumes "q_clean d q xs" "q_clean d r ys" "ys \<noteq> []" "length ys < length xs"
  shows "StartsWithQueue q r = Ok (take (length ys) xs = ys) \<and> EndsWithQueue q r = Fault"
proof -
  obtain j1 j2 where "q_lay q xs j1" "q_lay r ys j2" using assms(1,2) by (auto simp: q_clean_def)
  then show ?thesis using StartsWithQueue_lay EndsWithQueue_asserts assms(3,4) by blast
qed

theorem EndsWith_reads_behind_suffix_witness:
  "StartsWithQueue sample_heap_queue sample_queue = Ok (take (length [10, 20, 30 :: nat]) [7, 6, 7, 5] = [10, 20, 30 :: nat])
    \<and> EndsWithQueue sample_heap_queue sample_queue = Fault"
  by (rule EndsWith_reads_behind_suffix [OF sample_heap_queue_clean sample_queue_clean]) simp_all

end
