(* ===== verification/Hash_Model.thy ===== *)
theory Hash_Model
  imports Muscle_Base
begin

section \<open>Hashtable: the ordered hash table of MUSCLE\<close>

text \<open>
  The class templates \<^verbatim>\<open>HashtableBase\<close>, \<^verbatim>\<open>HashtableMid\<close>, \<^verbatim>\<open>Hashtable\<close>, \<^verbatim>\<open>OrderedKeysHashtable\<close>,
  \<^verbatim>\<open>OrderedValuesHashtable\<close> and \<^verbatim>\<open>HashtableIterator\<close> of \<^verbatim>\<open>source/muscle/util/Hashtable.h\<close>.  All entries
  live in one array.  Three kinds of doubly linked lists of array indices run through it: the
  iteration order, the chains of the buckets, and the free list.  The slot a bucket starts at is
  looked up in a permutation (\<^verbatim>\<open>MAP_TO\<close> and its inverse \<^verbatim>\<open>MAPPED_FROM\<close>).  Depending on the size of
  the array the indices are stored in 8, 16 or 32 bits, with all bits set for "none".

  A pointer to an entry is the index of the entry in the current array, NULL is \<open>None\<close>.  Reading or
  writing through an index outside of the array, or while there is no array, is a \<open>Fault\<close>.  The
  template's parameters are the record \<open>ht_class\<close>: the hash functor, the comparisons, the default
  objects, the kind of table (which decides about the order) and whether an array of so many entries
  can be allocated.  The model is the C++03 variant with registered, thread-aware iterators.
\<close>

definition INVALID :: nat where "INVALID = 4294967295"
definition HASHTABLE_DEFAULT_CAPACITY :: nat where "HASHTABLE_DEFAULT_CAPACITY = 7"

datatype index_type = TABLE_INDEX_TYPE_UINT8 | TABLE_INDEX_TYPE_UINT16 | TABLE_INDEX_TYPE_UINT32

fun index_mask :: "index_type \<Rightarrow> nat" where
  "index_mask TABLE_INDEX_TYPE_UINT8 = 255"
| "index_mask TABLE_INDEX_TYPE_UINT16 = 65535"
| "index_mask TABLE_INDEX_TYPE_UINT32 = 4294967295"

definition ComputeTableIndexTypeForTableSize :: "nat \<Rightarrow> index_type" where
  "ComputeTableIndexTypeForTableSize tableSize =
     (if tableSize < 255 then TABLE_INDEX_TYPE_UINT8
      else if tableSize < 65535 then TABLE_INDEX_TYPE_UINT16 else TABLE_INDEX_TYPE_UINT32)"

datatype which = BUCKET_PREV | BUCKET_NEXT | ITER_PREV | ITER_NEXT | MAP_TO | MAPPED_FROM

record ('k, 'v) entry =
  e_hash :: nat
  e_key :: 'k
  e_value :: 'v
  e_indices :: "which \<Rightarrow> nat"

text \<open>
  A cookie of an iterator points to an entry of the current array or into an array that has been
  freed; \<^verbatim>\<open>_currentKey\<close> and \<^verbatim>\<open>_currentVal\<close>, which are always set together, may also point to the
  iterator's own copy of a removed entry (\<^verbatim>\<open>_scratchKeyAndValue\<close>).
\<close>

datatype eptr = ENull | EAt nat | EFreed
datatype cur = CNull | CScratch | CEntry eptr

record ('k, 'v) hiter =
  i_cookie :: eptr
  i_cur :: cur
  i_backwards :: bool
  i_noregister :: bool
  i_owned :: bool
  i_scratch :: "('k \<times> 'v) option"
  i_space :: eptr
  i_bsKey :: eptr
  i_bsVal :: eptr
  i_okay :: bool

text \<open>\<open>t_iters\<close> is the list \<^verbatim>\<open>_iterList\<close>; the iterator objects of the table have numbers as names.\<close>

record ('k, 'v) ht =
  t_items :: nat
  t_size :: nat
  t_type :: index_type
  t_table :: "('k, 'v) entry list option"
  t_head :: nat
  t_tail :: nat
  t_free :: nat
  t_autosort :: bool
  t_cookie :: nat
  t_iters :: "nat list"
  t_objs :: "nat \<Rightarrow> ('k, 'v) hiter"
  t_icount :: nat
  t_ithread :: "nat option"

datatype ('k, 'v) ht_kind =
    Plain
  | OrderedKeys "'k \<Rightarrow> 'k \<Rightarrow> nat \<Rightarrow> int"
  | OrderedValues "'v \<Rightarrow> 'v \<Rightarrow> nat \<Rightarrow> int"

record ('k, 'v) ht_class =
  c_hash :: "'k \<Rightarrow> u32"
  c_keq :: "'k \<Rightarrow> 'k \<Rightarrow> bool"
  c_veq :: "'v \<Rightarrow> 'v \<Rightarrow> bool"
  c_dkey :: 'k
  c_dval :: 'v
  c_sub :: "('k, 'v) ht_kind"
  c_alloc :: "nat \<Rightarrow> bool"

subsection \<open>Entries and their indices\<close>

definition ent :: "('k, 'v) ht \<Rightarrow> nat \<Rightarrow> ('k, 'v) entry outcome" where
  "ent t e = (case t_table t of None \<Rightarrow> Fault | Some es \<Rightarrow> rd es e)"

definition put_ent :: "('k, 'v) ht \<Rightarrow> nat \<Rightarrow> ('k, 'v) entry \<Rightarrow> ('k, 'v) ht" where
  "put_ent t e x = t\<lparr>t_table := map_option (\<lambda>es. es[e := x]) (t_table t)\<rparr>"

definition GetEntryIndexValue :: "('k, 'v) ht \<Rightarrow> nat \<Rightarrow> which \<Rightarrow> nat outcome" where
  "GetEntryIndexValue t e w =
     obind (ent t e) (\<lambda>x. let r = e_indices x w in Ok (if r = index_mask (t_type t) then INVALID else r))"

definition SetEntryIndexValue :: "('k, 'v) ht \<Rightarrow> nat \<Rightarrow> which \<Rightarrow> nat \<Rightarrow> ('k, 'v) ht outcome" where
  "SetEntryIndexValue t e w v =
     obind (ent t e) (\<lambda>x. Ok (put_ent t e (x\<lparr>e_indices := (e_indices x)
       (w := if v = INVALID then index_mask (t_type t) else v mod Suc (index_mask (t_type t)))\<rparr>)))"

definition IndexToEntryChecked :: "nat \<Rightarrow> nat option" where
  "IndexToEntryChecked idx = (if idx = INVALID then None else Some idx)"

definition EntryToIndexChecked :: "nat option \<Rightarrow> nat" where
  "EntryToIndexChecked p = (case p of None \<Rightarrow> INVALID | Some e \<Rightarrow> e)"

definition GetEntryChecked :: "('k, 'v) ht \<Rightarrow> nat \<Rightarrow> which \<Rightarrow> nat option outcome" where
  "GetEntryChecked t e w = obind (GetEntryIndexValue t e w) (\<lambda>v. Ok (IndexToEntryChecked v))"

definition SetEntryChecked :: "('k, 'v) ht \<Rightarrow> nat \<Rightarrow> which \<Rightarrow> nat option \<Rightarrow> ('k, 'v) ht outcome" where
  "SetEntryChecked t e w p = SetEntryIndexValue t e w (EntryToIndexChecked p)"

subsection \<open>Construction and the array\<close>

definition NewTable :: "nat \<Rightarrow> bool \<Rightarrow> nat \<Rightarrow> (nat \<Rightarrow> ('k, 'v) hiter) \<Rightarrow> ('k, 'v) ht" where
  "NewTable tableSize autoSortEnabled cookie objs =
     \<lparr>t_items = 0, t_size = tableSize, t_type = ComputeTableIndexTypeForTableSize tableSize,
      t_table = None, t_head = INVALID, t_tail = INVALID, t_free = INVALID,
      t_autosort = autoSortEnabled, t_cookie = cookie, t_iters = [], t_objs = objs, t_icount = 0,
      t_ithread = None\<rparr>"

fun is_ordered :: "('k, 'v) ht_kind \<Rightarrow> bool" where
  "is_ordered Plain = False"
| "is_ordered (OrderedKeys f) = True"
| "is_ordered (OrderedValues f) = True"

definition DefaultTable :: "('k, 'v) ht_class \<Rightarrow> (nat \<Rightarrow> ('k, 'v) hiter) \<Rightarrow> ('k, 'v) ht" where
  "DefaultTable C objs = NewTable HASHTABLE_DEFAULT_CAPACITY (is_ordered (c_sub C)) 0 objs"

definition NewEntry :: "('k, 'v) ht_class \<Rightarrow> index_type \<Rightarrow> nat \<Rightarrow> ('k, 'v) entry" where
  "NewEntry C ty i = (let trunc = (\<lambda>v. v mod Suc (index_mask ty)) in
     \<lparr>e_hash = INVALID, e_key = c_dkey C, e_value = c_dval C,
      e_indices = (\<lambda>w. case w of
         BUCKET_PREV \<Rightarrow> trunc (sub32 i 1) | BUCKET_NEXT \<Rightarrow> trunc (add32 i 1)
       | ITER_PREV \<Rightarrow> index_mask ty | ITER_NEXT \<Rightarrow> index_mask ty
       | MAP_TO \<Rightarrow> trunc i | MAPPED_FROM \<Rightarrow> trunc i)\<rparr>)"

text \<open>For a size of zero the code writes to \<^verbatim>\<open>ret[size-1]\<close>, which is outside of the array.\<close>

definition CreateEntriesArray :: "('k, 'v) ht_class \<Rightarrow> index_type \<Rightarrow> nat \<Rightarrow> ('k, 'v) entry list outcome" where
  "CreateEntriesArray C ty sz =
     (let ret = map (NewEntry C ty) [0..<sz] in
      obind (rd ret (sub32 sz 1)) (\<lambda>x.
      wr ret (sub32 sz 1) (x\<lparr>e_indices := (e_indices x)(BUCKET_NEXT := index_mask ty)\<rparr>)))"

definition EnsureTableAllocated :: "('k, 'v) ht_class \<Rightarrow> ('k, 'v) ht \<Rightarrow> (status \<times> ('k, 'v) ht) outcome" where
  "EnsureTableAllocated C t =
     (case t_table t of
        Some es \<Rightarrow> Ok (B_NO_ERROR, t)
      | None \<Rightarrow>
          if c_alloc C (t_size t)
          then obind (CreateEntriesArray C (t_type t) (t_size t)) (\<lambda>es.
               Ok (B_NO_ERROR, t\<lparr>t_table := Some es, t_free := 0\<rparr>))
          else Ok (B_ERROR, t\<lparr>t_free := 0\<rparr>))"

definition PushToFreeList :: "('k, 'v) ht_class \<Rightarrow> ('k, 'v) ht \<Rightarrow> nat \<Rightarrow> ('k, 'v) ht outcome" where
  "PushToFreeList C t e =
     obind (SetEntryIndexValue t e BUCKET_PREV INVALID) (\<lambda>t.
     obind (SetEntryIndexValue t e ITER_NEXT INVALID) (\<lambda>t.
     obind (SetEntryIndexValue t e ITER_PREV INVALID) (\<lambda>t.
     obind (SetEntryIndexValue t e BUCKET_NEXT (t_free t)) (\<lambda>t.
     obind (if t_free t \<noteq> INVALID then SetEntryIndexValue t (t_free t) BUCKET_PREV e else Ok t) (\<lambda>t.
     let t = t\<lparr>t_free := e\<rparr> in
     obind (ent t e) (\<lambda>x. Ok (put_ent t e (x\<lparr>e_hash := INVALID, e_key := c_dkey C, e_value := c_dval C\<rparr>))))))))"

definition PopFromFreeList :: "('k, 'v) ht \<Rightarrow> nat \<Rightarrow> nat \<Rightarrow> (nat \<times> ('k, 'v) ht) outcome" where
  "PopFromFreeList t e freeHeadIdx =
     obind (GetEntryIndexValue t e BUCKET_NEXT) (\<lambda>myBucketNext.
     obind (GetEntryIndexValue t e BUCKET_PREV) (\<lambda>myBucketPrev.
     obind (if myBucketNext \<noteq> INVALID then SetEntryIndexValue t myBucketNext BUCKET_PREV myBucketPrev else Ok t) (\<lambda>t.
     obind (if myBucketPrev \<noteq> INVALID then SetEntryIndexValue t myBucketPrev BUCKET_NEXT myBucketNext else Ok t) (\<lambda>t.
     let ret = (if freeHeadIdx = e then myBucketNext else freeHeadIdx) in
     obind (SetEntryIndexValue t e BUCKET_NEXT INVALID) (\<lambda>t.
     obind (SetEntryIndexValue t e BUCKET_PREV INVALID) (\<lambda>t. Ok (ret, t)))))))"

subsection \<open>Looking up\<close>

definition ComputeHash :: "('k, 'v) ht_class \<Rightarrow> 'k \<Rightarrow> nat" where
  "ComputeHash C key = (let ret = unat (c_hash C key) in if ret = INVALID then add32 ret 1 else ret)"

definition bucket_start :: "('k, 'v) ht \<Rightarrow> nat \<Rightarrow> nat outcome" where
  "bucket_start t hash = (if t_size t = 0 then Fault else GetEntryIndexValue t (hash mod t_size t) MAP_TO)"

definition IsBucketHead :: "('k, 'v) ht \<Rightarrow> nat \<Rightarrow> bool outcome" where
  "IsBucketHead t e = obind (ent t e) (\<lambda>x.
     if e_hash x = INVALID then Ok False
     else obind (bucket_start t (e_hash x)) (\<lambda>m. Ok (m = e)))"

definition table_fuel :: "('k, 'v) ht \<Rightarrow> nat" where
  "table_fuel t = (case t_table t of None \<Rightarrow> 1 | Some es \<Rightarrow> Suc (length es))"

fun GetEntryLoop :: "('k, 'v) ht_class \<Rightarrow> ('k, 'v) ht \<Rightarrow> nat \<Rightarrow> 'k \<Rightarrow> nat \<Rightarrow> nat option \<Rightarrow> nat option outcome" where
  "GetEntryLoop C t hash key 0 p = Spin"
| "GetEntryLoop C t hash key (Suc n) p =
     (case p of
        None \<Rightarrow> Ok None
      | Some e \<Rightarrow> obind (ent t e) (\<lambda>x.
          if e_hash x = hash \<and> c_keq C (e_key x) key then Ok (Some e)
          else obind (GetEntryChecked t e BUCKET_NEXT) (GetEntryLoop C t hash key n)))"

definition GetEntry :: "('k, 'v) ht_class \<Rightarrow> ('k, 'v) ht \<Rightarrow> nat \<Rightarrow> 'k \<Rightarrow> nat option outcome" where
  "GetEntry C t hash key =
     (if t_items t > 0
      then obind (bucket_start t hash) (\<lambda>e.
           obind (IsBucketHead t e) (\<lambda>b.
           if b then GetEntryLoop C t hash key (table_fuel t) (Some e) else Ok None))
      else Ok None)"

text \<open>\<^verbatim>\<open>while((e)&&(idx--)) e = next(e)\<close>.\<close>

fun walk :: "('k, 'v) ht \<Rightarrow> which \<Rightarrow> nat \<Rightarrow> nat option \<Rightarrow> nat option outcome" where
  "walk t w 0 p = Ok p"
| "walk t w (Suc n) p = (case p of None \<Rightarrow> Ok None | Some e \<Rightarrow> obind (GetEntryChecked t e w) (walk t w n))"

definition GetEntryAt :: "('k, 'v) ht \<Rightarrow> nat \<Rightarrow> nat option outcome" where
  "GetEntryAt t idx =
     (if idx < t_items t
      then if idx < t_items t div 2 then walk t ITER_NEXT idx (IndexToEntryChecked (t_head t))
           else walk t ITER_PREV (t_items t - (idx + 1)) (IndexToEntryChecked (t_tail t))
      else Ok None)"

definition entry_value :: "('k, 'v) ht \<Rightarrow> nat option \<Rightarrow> 'v option outcome" where
  "entry_value t p = (case p of None \<Rightarrow> Ok None | Some e \<Rightarrow> obind (ent t e) (\<lambda>x. Ok (Some (e_value x))))"

definition entry_key :: "('k, 'v) ht \<Rightarrow> nat option \<Rightarrow> 'k option outcome" where
  "entry_key t p = (case p of None \<Rightarrow> Ok None | Some e \<Rightarrow> obind (ent t e) (\<lambda>x. Ok (Some (e_key x))))"

definition GetValue :: "('k, 'v) ht_class \<Rightarrow> ('k, 'v) ht \<Rightarrow> 'k \<Rightarrow> 'v option outcome" where
  "GetValue C t key = obind (GetEntry C t (ComputeHash C key) key) (entry_value t)"

definition GetKey :: "('k, 'v) ht_class \<Rightarrow> ('k, 'v) ht \<Rightarrow> 'k \<Rightarrow> 'k option outcome" where
  "GetKey C t lookupKey = obind (GetEntry C t (ComputeHash C lookupKey) lookupKey) (entry_key t)"

definition ContainsKey :: "('k, 'v) ht_class \<Rightarrow> ('k, 'v) ht \<Rightarrow> 'k \<Rightarrow> bool outcome" where
  "ContainsKey C t key = obind (GetEntry C t (ComputeHash C key) key) (\<lambda>e. Ok (e \<noteq> None))"

definition GetKeyAt :: "('k, 'v) ht \<Rightarrow> nat \<Rightarrow> 'k option outcome" where
  "GetKeyAt t index = obind (GetEntryAt t index) (entry_key t)"

definition GetWithDefault_ht :: "('k, 'v) ht_class \<Rightarrow> ('k, 'v) ht \<Rightarrow> 'k \<Rightarrow> 'v \<Rightarrow> 'v outcome" where
  "GetWithDefault_ht C t key defaultValue =
     obind (GetValue C t key) (\<lambda>v. Ok (case v of Some v \<Rightarrow> v | None \<Rightarrow> defaultValue))"

definition GetFirstKey :: "('k, 'v) ht \<Rightarrow> 'k option outcome" where
  "GetFirstKey t = entry_key t (IndexToEntryChecked (t_head t))"

definition GetLastKey :: "('k, 'v) ht \<Rightarrow> 'k option outcome" where
  "GetLastKey t = entry_key t (IndexToEntryChecked (t_tail t))"

definition GetFirstValue :: "('k, 'v) ht \<Rightarrow> 'v option outcome" where
  "GetFirstValue t = entry_value t (IndexToEntryChecked (t_head t))"

definition GetLastValue :: "('k, 'v) ht \<Rightarrow> 'v option outcome" where
  "GetLastValue t = entry_value t (IndexToEntryChecked (t_tail t))"

subsection \<open>Taking and releasing a slot\<close>

definition SwapEntryMaps :: "('k, 'v) ht \<Rightarrow> nat \<Rightarrow> nat \<Rightarrow> ('k, 'v) ht outcome" where
  "SwapEntryMaps t idx1 idx2 =
     obind (GetEntryIndexValue t idx1 MAP_TO) (\<lambda>e1MapTo.
     obind (GetEntryIndexValue t idx2 MAP_TO) (\<lambda>e2MapTo.
     obind (SetEntryIndexValue t idx1 MAP_TO e2MapTo) (\<lambda>t.
     obind (SetEntryIndexValue t idx2 MAP_TO e1MapTo) (\<lambda>t.
     obind (GetEntryIndexValue t idx1 MAP_TO) (\<lambda>m1.
     obind (SetEntryIndexValue t m1 MAPPED_FROM idx1) (\<lambda>t.
     obind (GetEntryIndexValue t idx2 MAP_TO) (\<lambda>m2.
     SetEntryIndexValue t m2 MAPPED_FROM idx2)))))))"

definition fill_entry :: "('k, 'v) ht \<Rightarrow> nat \<Rightarrow> nat \<Rightarrow> 'k \<Rightarrow> 'v \<Rightarrow> ('k, 'v) ht outcome" where
  "fill_entry t e hash key val =
     obind (ent t e) (\<lambda>x. Ok (put_ent t e (x\<lparr>e_hash := hash, e_key := key, e_value := val\<rparr>)))"

text \<open>A new entry for a bucket that is in use, linked in behind the first entry of its chain.\<close>

definition add_to_chain :: "('k, 'v) ht \<Rightarrow> nat \<Rightarrow> nat \<Rightarrow> 'k \<Rightarrow> 'v \<Rightarrow> (nat \<times> ('k, 'v) ht) outcome" where
  "add_to_chain t tableSlot hash key val =
     (let e = t_free t in
      obind (PopFromFreeList t e (t_free t)) (\<lambda>(fh, t).
      obind (fill_entry (t\<lparr>t_free := fh\<rparr>) e hash key val) (\<lambda>t.
      obind (SetEntryIndexValue t e BUCKET_PREV tableSlot) (\<lambda>t.
      obind (GetEntryIndexValue t tableSlot BUCKET_NEXT) (\<lambda>eBucketNext.
      obind (SetEntryIndexValue t e BUCKET_NEXT eBucketNext) (\<lambda>t.
      obind (if eBucketNext \<noteq> INVALID then SetEntryIndexValue t eBucketNext BUCKET_PREV e else Ok t) (\<lambda>t.
      obind (SetEntryIndexValue t tableSlot BUCKET_NEXT e) (\<lambda>t. Ok (e, t)))))))))"

text \<open>The first entry of a bucket; the slot it should start at may hold an entry of another chain.\<close>

definition start_chain :: "('k, 'v) ht \<Rightarrow> nat \<Rightarrow> nat \<Rightarrow> 'k \<Rightarrow> 'v \<Rightarrow> (nat \<times> ('k, 'v) ht) outcome" where
  "start_chain t tableSlot hash key val =
     obind (ent t tableSlot) (\<lambda>x.
     obind (if e_hash x \<noteq> INVALID
            then obind (GetEntryIndexValue t tableSlot MAPPED_FROM) (\<lambda>f1.
                 obind (GetEntryIndexValue t (t_free t) MAPPED_FROM) (\<lambda>f2.
                 obind (SwapEntryMaps t f1 f2) (\<lambda>t. Ok (t_free t, t))))
            else Ok (tableSlot, t)) (\<lambda>(tableSlot, t).
     obind (PopFromFreeList t tableSlot (t_free t)) (\<lambda>(fh, t).
     obind (fill_entry (t\<lparr>t_free := fh\<rparr>) tableSlot hash key val) (\<lambda>t.
     obind (SetEntryIndexValue t tableSlot BUCKET_PREV INVALID) (\<lambda>t.
     obind (SetEntryIndexValue t tableSlot BUCKET_NEXT INVALID) (\<lambda>t. Ok (tableSlot, t)))))))"

definition PutAuxAux :: "('k, 'v) ht \<Rightarrow> nat \<Rightarrow> 'k \<Rightarrow> 'v \<Rightarrow> (nat \<times> ('k, 'v) ht) outcome" where
  "PutAuxAux t hash key val =
     obind (bucket_start t hash) (\<lambda>tableSlot.
     obind (IsBucketHead t tableSlot) (\<lambda>b.
     if b then add_to_chain t tableSlot hash key val else start_chain t tableSlot hash key val))"

subsection \<open>The iteration list, and the iterators that are on it\<close>

definition set_link :: "('k, 'v) ht \<Rightarrow> nat option \<Rightarrow> which \<Rightarrow> nat \<Rightarrow> (('k, 'v) ht \<Rightarrow> ('k, 'v) ht) \<Rightarrow> ('k, 'v) ht outcome" where
  "set_link t p w v otherwise = (case p of Some e \<Rightarrow> SetEntryIndexValue t e w v | None \<Rightarrow> Ok (otherwise t))"

definition InsertIterationEntry :: "('k, 'v) ht \<Rightarrow> nat \<Rightarrow> nat option \<Rightarrow> ('k, 'v) ht outcome" where
  "InsertIterationEntry t e optBehindThisOne =
     obind (SetEntryChecked t e ITER_PREV optBehindThisOne) (\<lambda>t.
     obind (case optBehindThisOne of Some b \<Rightarrow> GetEntryIndexValue t b ITER_NEXT | None \<Rightarrow> Ok (t_head t)) (\<lambda>v.
     obind (SetEntryIndexValue t e ITER_NEXT v) (\<lambda>t.
     obind (GetEntryChecked t e ITER_PREV) (\<lambda>prev.
     obind (set_link t prev ITER_NEXT e (\<lambda>t. t\<lparr>t_head := e\<rparr>)) (\<lambda>t.
     obind (GetEntryChecked t e ITER_NEXT) (\<lambda>next.
     set_link t next ITER_PREV e (\<lambda>t. t\<lparr>t_tail := e\<rparr>)))))))"

definition to_eptr :: "nat option \<Rightarrow> eptr" where
  "to_eptr p = (case p of None \<Rightarrow> ENull | Some e \<Rightarrow> EAt e)"

definition GetSubsequentEntry :: "('k, 'v) ht \<Rightarrow> eptr \<Rightarrow> bool \<Rightarrow> eptr outcome" where
  "GetSubsequentEntry t p backwards =
     (case p of
        ENull \<Rightarrow> Ok ENull
      | EFreed \<Rightarrow> Fault
      | EAt e \<Rightarrow> obind (GetEntryChecked t e (if backwards then ITER_PREV else ITER_NEXT)) (\<lambda>n. Ok (to_eptr n)))"

definition UpdateKeyAndValuePointers :: "('k, 'v) hiter \<Rightarrow> ('k, 'v) hiter" where
  "UpdateKeyAndValuePointers it = it\<lparr>i_cur :=
     (if i_scratch it \<noteq> None then CScratch
      else if i_cookie it \<noteq> ENull \<and> i_owned it then CEntry (i_cookie it) else CNull)\<rparr>"

text \<open>What \<^verbatim>\<open>RemoveIterationEntry\<close> does to one iterator.\<close>

definition step_off :: "('k, 'v) ht \<Rightarrow> nat \<Rightarrow> ('k, 'v) hiter \<Rightarrow> ('k, 'v) hiter outcome" where
  "step_off t e it =
     (if i_cookie it = EAt e
      then obind (ent t e) (\<lambda>x.
           let it = (if i_scratch it = None then it\<lparr>i_scratch := Some (e_key x, e_value x)\<rparr> else it) in
           obind (GetSubsequentEntry t (i_cookie it) (i_backwards it)) (\<lambda>p.
           Ok (UpdateKeyAndValuePointers (it\<lparr>i_cookie := p\<rparr>))))
      else Ok it)"

fun step_off_all :: "('k, 'v) ht \<Rightarrow> nat \<Rightarrow> nat list \<Rightarrow> ('k, 'v) ht outcome" where
  "step_off_all t e [] = Ok t"
| "step_off_all t e (n # ns) =
     obind (step_off t e (t_objs t n)) (\<lambda>it. step_off_all (t\<lparr>t_objs := (t_objs t)(n := it)\<rparr>) e ns)"

definition RemoveIterationEntry :: "('k, 'v) ht \<Rightarrow> nat \<Rightarrow> ('k, 'v) ht outcome" where
  "RemoveIterationEntry t e =
     obind (step_off_all t e (t_iters t)) (\<lambda>t.
     obind (GetEntryChecked t e ITER_PREV) (\<lambda>prevNode.
     obind (GetEntryChecked t e ITER_NEXT) (\<lambda>nextNode.
     let t = (if IndexToEntryChecked (t_head t) = Some e then t\<lparr>t_head := EntryToIndexChecked nextNode\<rparr> else t);
         t = (if IndexToEntryChecked (t_tail t) = Some e then t\<lparr>t_tail := EntryToIndexChecked prevNode\<rparr> else t)
     in
     obind (set_link t prevNode ITER_NEXT (EntryToIndexChecked nextNode) id) (\<lambda>t.
     obind (set_link t nextNode ITER_PREV (EntryToIndexChecked prevNode) id) (\<lambda>t.
     obind (SetEntryIndexValue t e ITER_PREV INVALID) (\<lambda>t.
     SetEntryIndexValue t e ITER_NEXT INVALID))))))"

subsection \<open>Removing entries\<close>

text \<open>The value that was removed is returned, for the callers that ask for it.\<close>

definition RemoveEntry :: "('k, 'v) ht_class \<Rightarrow> ('k, 'v) ht \<Rightarrow> nat \<Rightarrow> ('v \<times> ('k, 'v) ht) outcome" where
  "RemoveEntry C t e =
     obind (RemoveIterationEntry t e) (\<lambda>t.
     obind (ent t e) (\<lambda>x.
     obind (GetEntryChecked t e BUCKET_PREV) (\<lambda>prev.
     obind (GetEntryChecked t e BUCKET_NEXT) (\<lambda>next.
     obind (case prev of
              Some p \<Rightarrow> obind (SetEntryChecked t p BUCKET_NEXT next) (\<lambda>t.
                        set_link t next BUCKET_PREV p id)
            | None \<Rightarrow> (case next of
                Some n \<Rightarrow> obind (SetEntryIndexValue t n BUCKET_PREV INVALID) (\<lambda>t.
                          obind (GetEntryIndexValue t e MAPPED_FROM) (\<lambda>f1.
                          obind (GetEntryIndexValue t n MAPPED_FROM) (\<lambda>f2. SwapEntryMaps t f1 f2)))
              | None \<Rightarrow> Ok t)) (\<lambda>t.
     obind (PushToFreeList C (t\<lparr>t_items := sub32 (t_items t) 1\<rparr>) e) (\<lambda>t. Ok (e_value x, t)))))))"

definition RemoveEntryByIndex :: "('k, 'v) ht_class \<Rightarrow> ('k, 'v) ht \<Rightarrow> nat \<Rightarrow> ('v option \<times> ('k, 'v) ht) outcome" where
  "RemoveEntryByIndex C t idx =
     (case IndexToEntryChecked idx of
        None \<Rightarrow> Ok (None, t)
      | Some e \<Rightarrow> obind (RemoveEntry C t e) (\<lambda>(v, t). Ok (Some v, t)))"

definition RemoveAux :: "('k, 'v) ht_class \<Rightarrow> ('k, 'v) ht \<Rightarrow> nat \<Rightarrow> 'k \<Rightarrow> ('v option \<times> ('k, 'v) ht) outcome" where
  "RemoveAux C t hash key =
     obind (GetEntry C t hash key) (\<lambda>p. case p of
        None \<Rightarrow> Ok (None, t)
      | Some e \<Rightarrow> obind (RemoveEntry C t e) (\<lambda>(v, t). Ok (Some v, t)))"

definition RemoveKey :: "('k, 'v) ht_class \<Rightarrow> ('k, 'v) ht \<Rightarrow> 'k \<Rightarrow> ('v option \<times> ('k, 'v) ht) outcome" where
  "RemoveKey C t key = RemoveAux C t (ComputeHash C key) key"

definition RemoveWithDefault :: "('k, 'v) ht_class \<Rightarrow> ('k, 'v) ht \<Rightarrow> 'k \<Rightarrow> 'v \<Rightarrow> ('v \<times> ('k, 'v) ht) outcome" where
  "RemoveWithDefault C t key defaultValue =
     obind (RemoveKey C t key) (\<lambda>(v, t). Ok (case v of Some v \<Rightarrow> v | None \<Rightarrow> defaultValue, t))"

definition remove_end :: "('k, 'v) ht_class \<Rightarrow> ('k, 'v) ht \<Rightarrow> nat \<Rightarrow> (('k \<times> 'v) option \<times> ('k, 'v) ht) outcome" where
  "remove_end C t idx =
     (case IndexToEntryChecked idx of
        None \<Rightarrow> Ok (None, t)
      | Some e \<Rightarrow> obind (ent t e) (\<lambda>x. obind (RemoveEntry C t e) (\<lambda>(v, t). Ok (Some (e_key x, v), t))))"

definition RemoveFirst :: "('k, 'v) ht_class \<Rightarrow> ('k, 'v) ht \<Rightarrow> (('k \<times> 'v) option \<times> ('k, 'v) ht) outcome" where
  "RemoveFirst C t = remove_end C t (t_head t)"

definition RemoveLast :: "('k, 'v) ht_class \<Rightarrow> ('k, 'v) ht \<Rightarrow> (('k \<times> 'v) option \<times> ('k, 'v) ht) outcome" where
  "RemoveLast C t = remove_end C t (t_tail t)"

text \<open>The overload of \<^verbatim>\<open>RemoveLast\<close> with both a key and a value does not check for an empty table.\<close>

definition RemoveLastKeyAndValue :: "('k, 'v) ht_class \<Rightarrow> ('k, 'v) ht \<Rightarrow> ('k \<times> 'v \<times> ('k, 'v) ht) outcome" where
  "RemoveLastKeyAndValue C t =
     (case IndexToEntryChecked (t_tail t) of
        None \<Rightarrow> Fault
      | Some e \<Rightarrow> obind (ent t e) (\<lambda>x. obind (RemoveEntry C t e) (\<lambda>(v, t). Ok (e_key x, v, t))))"

definition disown :: "('k, 'v) hiter \<Rightarrow> ('k, 'v) hiter" where
  "disown it = it\<lparr>i_owned := False, i_cookie := ENull\<rparr>"

fun disown_all :: "('k, 'v) ht \<Rightarrow> nat list \<Rightarrow> ('k, 'v) ht" where
  "disown_all t [] = t"
| "disown_all t (n # ns) = disown_all (t\<lparr>t_objs := (t_objs t)(n := disown (t_objs t n)), t_iters := ns\<rparr>) ns"

fun remove_heads :: "('k, 'v) ht_class \<Rightarrow> nat \<Rightarrow> ('k, 'v) ht \<Rightarrow> ('k, 'v) ht outcome" where
  "remove_heads C 0 t = Spin"
| "remove_heads C (Suc n) t =
     (if t_head t \<noteq> INVALID
      then obind (RemoveEntryByIndex C t (t_head t)) (\<lambda>(v, t). remove_heads C n t) else Ok t)"

text \<open>An iterator that points into an array that is being freed.\<close>

definition free_eptr :: "eptr \<Rightarrow> eptr" where
  "free_eptr p = (if p = ENull then ENull else EFreed)"

definition free_cur :: "cur \<Rightarrow> cur" where
  "free_cur c = (case c of CEntry p \<Rightarrow> CEntry (free_eptr p) | _ \<Rightarrow> c)"

definition free_iter :: "('k, 'v) hiter \<Rightarrow> ('k, 'v) hiter" where
  "free_iter it = it\<lparr>i_cookie := free_eptr (i_cookie it), i_cur := free_cur (i_cur it),
     i_bsKey := free_eptr (i_bsKey it), i_bsVal := free_eptr (i_bsVal it)\<rparr>"

definition Clear_ht :: "('k, 'v) ht_class \<Rightarrow> ('k, 'v) ht \<Rightarrow> bool \<Rightarrow> ('k, 'v) ht outcome" where
  "Clear_ht C t releaseCachedBuffers =
     obind (remove_heads C (table_fuel t) (disown_all t (t_iters t))) (\<lambda>t.
     if releaseCachedBuffers
     then Ok (t\<lparr>t_table := None, t_free := INVALID, t_size := HASHTABLE_DEFAULT_CAPACITY,
                t_type := ComputeTableIndexTypeForTableSize HASHTABLE_DEFAULT_CAPACITY,
                t_objs := (\<lambda>n. free_iter (t_objs t n))\<rparr>)
     else Ok t)"

end
