(* ===== verification/Linked_Lists.thy ===== *)
theory Linked_Lists
  imports Hash_Model
begin

section \<open>Doubly linked lists of array indices\<close>

text \<open>
  A list is given by two functions from an index to the next and to the previous one, with
  \<open>INVALID\<close> at the ends.  \<open>dlseg nx pv p xs q\<close>: the indices \<open>xs\<close> are linked in this order, the one
  before the first is \<open>p\<close>, the one behind the last is \<open>q\<close>.
\<close>

fun first_or :: "nat list \<Rightarrow> nat \<Rightarrow> nat" where
  "first_or [] q = q"
| "first_or (x # xs) q = x"

fun last_or :: "nat \<Rightarrow> nat list \<Rightarrow> nat" where
  "last_or p [] = p"
| "last_or p (x # xs) = last_or x xs"

fun dlseg :: "(nat \<Rightarrow> nat) \<Rightarrow> (nat \<Rightarrow> nat) \<Rightarrow> nat \<Rightarrow> nat list \<Rightarrow> nat \<Rightarrow> bool" where
  "dlseg nx pv p [] q \<longleftrightarrow> True"
| "dlseg nx pv p (x # xs) q \<longleftrightarrow> pv x = p \<and> nx x = first_or xs q \<and> dlseg nx pv x xs q"

abbreviation dlist :: "(nat \<Rightarrow> nat) \<Rightarrow> (nat \<Rightarrow> nat) \<Rightarrow> nat list \<Rightarrow> bool" where
  "dlist nx pv xs \<equiv> dlseg nx pv INVALID xs INVALID"

lemma first_or_append [simp]: "first_or (xs @ ys) q = first_or xs (first_or ys q)"
  by (cases xs) auto

lemma last_or_append [simp]: "last_or p (xs @ ys) = last_or (last_or p xs) ys"
  by (induction xs arbitrary: p) auto

lemma first_or_in: "xs \<noteq> [] \<Longrightarrow> first_or xs q \<in> set xs"
  by (cases xs) auto

lemma last_or_in: "xs \<noteq> [] \<Longrightarrow> last_or p xs \<in> set xs"
proof (induction xs arbitrary: p)
  case (Cons x xs)
  then show ?case by (cases xs) auto
qed simp

lemma last_or_last: "xs \<noteq> [] \<Longrightarrow> last_or p xs = last xs"
proof (induction xs arbitrary: p)
  case (Cons x xs)
  then show ?case by (cases xs) auto
qed simp

lemma first_or_hd: "xs \<noteq> [] \<Longrightarrow> first_or xs q = hd xs"
  by (cases xs) auto

lemma dlseg_append:
  "dlseg nx pv p (xs @ ys) q \<longleftrightarrow>
     dlseg nx pv p xs (first_or ys q) \<and> dlseg nx pv (last_or p xs) ys q"
  by (induction xs arbitrary: p) auto

text \<open>A list depends on the links of its own elements only.\<close>

lemma dlseg_cong:
  assumes "\<And>x. x \<in> set xs \<Longrightarrow> nx' x = nx x" "\<And>x. x \<in> set xs \<Longrightarrow> pv' x = pv x"
  shows "dlseg nx' pv' p xs q \<longleftrightarrow> dlseg nx pv p xs q"
  using assms by (induction xs arbitrary: p) auto

lemma dlseg_frame [simp]:
  "x \<notin> set xs \<Longrightarrow> dlseg (nx(x := v)) pv p xs q = dlseg nx pv p xs q"
  "x \<notin> set xs \<Longrightarrow> dlseg nx (pv(x := v)) p xs q = dlseg nx pv p xs q"
  by (rule dlseg_cong; force)+

text \<open>Changing what is before the first element or behind the last one.\<close>

lemma dlseg_set_first:
  assumes "dlseg nx pv p (x # xs) q" "distinct (x # xs)"
  shows "dlseg nx (pv(x := p')) p' (x # xs) q"
  using assms by auto

lemma dlseg_set_last:
  assumes "dlseg nx pv p (xs @ [x]) q" "distinct (xs @ [x])"
  shows "dlseg (nx(x := q')) pv p (xs @ [x]) q'"
  using assms by (auto simp: dlseg_append)

text \<open>Taking an element out and putting one in, the way the code relinks its neighbours.\<close>

lemma dlseg_remove:
  assumes "dlseg nx pv p (xs @ e # ys) q" "distinct (xs @ e # ys)"
  shows "dlseg (if xs = [] then nx else nx(last xs := nx e)) (if ys = [] then pv else pv(hd ys := pv e)) p (xs @ ys) q"
proof -
  have *: "pv e = last_or p xs" "nx e = first_or ys q" "dlseg nx pv p xs e" "dlseg nx pv e ys q"
    using assms(1) by (simp_all add: dlseg_append)
  have d: "distinct xs" "distinct ys" "set xs \<inter> set ys = {}" using assms(2) by auto
  have "dlseg (if xs = [] then nx else nx(last xs := nx e)) (if ys = [] then pv else pv(hd ys := pv e)) p xs (first_or ys q)"
  proof (cases xs rule: rev_cases)
    case (snoc xs' x)
    have h: "hd ys \<notin> set xs" if "ys \<noteq> []" using d(3) that by (cases ys) auto
    have "dlseg (nx(x := nx e)) pv p (xs' @ [x]) (nx e)"
      by (rule dlseg_set_last [of _ _ _ _ _ e]) (use *(3) d(1) snoc in simp_all)
    then show ?thesis using snoc h *(2) by (cases "ys = []") auto
  qed simp
  moreover have "dlseg (if xs = [] then nx else nx(last xs := nx e)) (if ys = [] then pv else pv(hd ys := pv e)) (last_or p xs) ys q"
  proof (cases ys)
    case (Cons y ys')
    have l: "last xs \<notin> set ys" if "xs \<noteq> []" using d(3) last_in_set [OF that] by auto
    have "dlseg nx (pv(y := pv e)) (pv e) (y # ys') q"
      by (rule dlseg_set_first [where p = e]) (use *(4) d(2) Cons in simp_all)
    then show ?thesis using Cons l *(1) by (cases "xs = []") auto
  qed simp
  ultimately show ?thesis by (simp add: dlseg_append)
qed

lemma dlseg_insert:
  assumes "dlseg nx pv p (xs @ ys) q" "distinct (xs @ ys)" "e \<notin> set (xs @ ys)"
    and nx': "nx' = nx(e := first_or ys q)" and pv': "pv' = pv(e := last_or p xs)"
  shows "dlseg (if xs = [] then nx' else nx'(last xs := e)) (if ys = [] then pv' else pv'(hd ys := e)) p (xs @ e # ys) q"
proof -
  have *: "dlseg nx pv p xs (first_or ys q)" "dlseg nx pv (last_or p xs) ys q"
    using assms(1) by (simp_all add: dlseg_append)
  have d: "distinct xs" "distinct ys" "set xs \<inter> set ys = {}" "e \<notin> set xs" "e \<notin> set ys" using assms(2,3) by auto
  let ?nx = "if xs = [] then nx' else nx'(last xs := e)"
  let ?pv = "if ys = [] then pv' else pv'(hd ys := e)"
  have h: "hd ys \<notin> set xs \<and> hd ys \<noteq> e" if "ys \<noteq> []" using d that by (cases ys) auto
  have l: "last xs \<notin> set ys \<and> last xs \<noteq> e" if "xs \<noteq> []" using d last_in_set [OF that] by auto
  have xe: "z \<noteq> e" "ys \<noteq> [] \<longrightarrow> z \<noteq> hd ys" if "z \<in> set xs" for z using that d h by auto
  have ye: "z \<noteq> e" "xs \<noteq> [] \<longrightarrow> z \<noteq> last xs" if "z \<in> set ys" for z using that d l by auto
  have "dlseg ?nx ?pv p xs e"
  proof (cases xs rule: rev_cases)
    case (snoc xs' x)
    have "dlseg (nx(x := e)) pv p (xs' @ [x]) e"
      by (rule dlseg_set_last [where q = "first_or ys q"]) (use *(1) d(1) snoc in simp_all)
    moreover have "dlseg ?nx ?pv p xs e \<longleftrightarrow> dlseg (nx(last xs := e)) pv p xs e"
      using xe snoc by (intro dlseg_cong) (simp_all add: nx' pv')
    ultimately show ?thesis using snoc by simp
  qed simp
  moreover have "dlseg ?nx ?pv e ys q"
  proof (cases ys)
    case (Cons y ys')
    have "dlseg nx (pv(y := e)) e (y # ys') q"
      by (rule dlseg_set_first [where p = "last_or p xs"]) (use *(2) d(2) Cons in simp_all)
    moreover have "dlseg ?nx ?pv e ys q \<longleftrightarrow> dlseg nx (pv(hd ys := e)) e ys q"
      using ye Cons by (intro dlseg_cong) (simp_all add: nx' pv')
    ultimately show ?thesis using Cons by simp
  qed simp
  moreover have "?pv e = last_or p xs" "?nx e = first_or ys q" using h l nx' pv' by auto
  ultimately show ?thesis by (simp add: dlseg_append)
qed

text \<open>Reading along a list.\<close>

lemma dlseg_next: "dlseg nx pv p (xs @ e # ys) q \<Longrightarrow> nx e = first_or ys q"
  by (simp add: dlseg_append)

lemma dlseg_prev: "dlseg nx pv p (xs @ e # ys) q \<Longrightarrow> pv e = last_or p xs"
  by (simp add: dlseg_append)

lemma dlseg_next_last: "dlseg nx pv p (xs @ ys) q \<Longrightarrow> xs \<noteq> [] \<Longrightarrow> nx (last xs) = first_or ys q"
  by (cases xs rule: rev_cases) (auto simp: dlseg_append)

lemma dlseg_prev_hd: "dlseg nx pv p (xs @ ys) q \<Longrightarrow> ys \<noteq> [] \<Longrightarrow> pv (hd ys) = last_or p xs"
  by (cases ys) (auto simp: dlseg_append)

lemma dlseg_nth_next:
  "dlseg nx pv p xs q \<Longrightarrow> i < length xs \<Longrightarrow> nx (xs ! i) = (if Suc i < length xs then xs ! Suc i else q)"
proof (induction xs arbitrary: p i)
  case (Cons x xs)
  then show ?case by (cases i; cases xs) auto
qed simp

lemma last_or_snoc [simp]: "last_or p (xs @ [x]) = x"
  by simp

end
