(* ===== verification/Hash_Layout.thy ===== *)
theory Hash_Layout
  imports Linked_Lists
begin

section \<open>Hashtable: what the array of entries looks like\<close>

text \<open>
  The views \<open>idx\<close>, \<open>hsh\<close>, \<open>ky\<close>, \<open>vl\<close> read the fields of the entries as functions of the index, with the
  narrow indices decoded.  \<open>iter_lay t it\<close>: the iteration list is \<open>it\<close>.  \<open>slot_lay t us fl ch\<close>: the
  slots are the used ones \<open>us\<close> and the free list \<open>fl\<close>; \<open>ch b\<close> is the chain of the bucket \<open>b\<close>, which starts at
  the slot that \<^verbatim>\<open>MAP_TO\<close> gives.  The lemmas say what the primitive operations do to the views.
\<close>

named_theorems ht_ops "what an operation returns on a table with a layout"

definition es_of :: "('k, 'v) ht \<Rightarrow> ('k, 'v) entry list" where
  "es_of t = (case t_table t of None \<Rightarrow> [] | Some es \<Rightarrow> es)"

definition slots_of :: "('k, 'v) ht \<Rightarrow> nat" where "slots_of t = length (es_of t)"

definition idx :: "('k, 'v) ht \<Rightarrow> which \<Rightarrow> nat \<Rightarrow> nat" where
  "idx t w i = (let r = e_indices (es_of t ! i) w in if r = index_mask (t_type t) then INVALID else r)"

definition hsh :: "('k, 'v) ht \<Rightarrow> nat \<Rightarrow> nat" where "hsh t i = e_hash (es_of t ! i)"
definition ky :: "('k, 'v) ht \<Rightarrow> nat \<Rightarrow> 'k" where "ky t i = e_key (es_of t ! i)"
definition vl :: "('k, 'v) ht \<Rightarrow> nat \<Rightarrow> 'v" where "vl t i = e_value (es_of t ! i)"

definition sized :: "('k, 'v) ht \<Rightarrow> bool" where "sized t \<longleftrightarrow> slots_of t \<le> index_mask (t_type t)"

definition ok_ix :: "('k, 'v) ht \<Rightarrow> nat \<Rightarrow> bool" where "ok_ix t v \<longleftrightarrow> v = INVALID \<or> v < slots_of t"

definition upd :: "('k, 'v) ht \<Rightarrow> nat \<Rightarrow> which \<Rightarrow> nat \<Rightarrow> ('k, 'v) ht" where
  "upd t e w v = put_ent t e ((es_of t ! e)\<lparr>e_indices := (e_indices (es_of t ! e))
     (w := if v = INVALID then index_mask (t_type t) else v mod Suc (index_mask (t_type t)))\<rparr>)"

definition set_kv :: "('k, 'v) ht \<Rightarrow> nat \<Rightarrow> nat \<Rightarrow> 'k \<Rightarrow> 'v \<Rightarrow> ('k, 'v) ht" where
  "set_kv t e h k v = put_ent t e ((es_of t ! e)\<lparr>e_hash := h, e_key := k, e_value := v\<rparr>)"

text \<open>\<open>tab t t'\<close>: only the contents of the array may differ.\<close>

definition tab :: "('k, 'v) ht \<Rightarrow> ('k, 'v) ht \<Rightarrow> bool" where
  "tab t t' \<longleftrightarrow> (\<exists>T. t' = t\<lparr>t_table := T\<rparr>) \<and> slots_of t' = slots_of t"

lemma index_mask_bound: "index_mask ty \<le> INVALID" "index_mask ty < 2 ^ 32"
  by (cases ty; simp add: INVALID_def)+

lemma sized_less: "sized t \<Longrightarrow> e < slots_of t \<Longrightarrow> e < INVALID \<and> e < index_mask (t_type t)"
  using index_mask_bound(1) [of "t_type t"] by (auto simp: sized_def)

lemma less_not_INVALID: "sized t \<Longrightarrow> e < slots_of t \<Longrightarrow> e \<noteq> INVALID"
  by (auto dest: sized_less)

lemma slots_Some: "e < slots_of t \<Longrightarrow> t_table t = Some (es_of t)"
  by (auto simp: slots_of_def es_of_def split: option.splits)

lemma ent_ok [simp]: "e < slots_of t \<Longrightarrow> ent t e = Ok (es_of t ! e)"
  using slots_Some [of e t] by (simp add: ent_def slots_of_def)

lemma es_of_put_ent: "es_of (put_ent t e x) = (es_of t)[e := x]"
  by (auto simp: put_ent_def es_of_def split: option.splits)

lemma put_ent_sel [simp]:
  "slots_of (put_ent t e x) = slots_of t" "t_items (put_ent t e x) = t_items t" "t_size (put_ent t e x) = t_size t"
  "t_type (put_ent t e x) = t_type t" "t_head (put_ent t e x) = t_head t" "t_tail (put_ent t e x) = t_tail t"
  "t_free (put_ent t e x) = t_free t" "t_iters (put_ent t e x) = t_iters t" "t_objs (put_ent t e x) = t_objs t"
  "t_autosort (put_ent t e x) = t_autosort t" "t_cookie (put_ent t e x) = t_cookie t"
  by (simp_all add: slots_of_def es_of_put_ent) (simp_all add: put_ent_def)

lemma tab_put_ent: "tab t (put_ent t e x)"
  unfolding tab_def by (auto simp: put_ent_def) (auto simp: slots_of_def es_of_def split: option.splits)

lemma upd_sel [simp]:
  "slots_of (upd t e w v) = slots_of t" "t_items (upd t e w v) = t_items t" "t_size (upd t e w v) = t_size t"
  "t_type (upd t e w v) = t_type t" "t_head (upd t e w v) = t_head t" "t_tail (upd t e w v) = t_tail t"
  "t_free (upd t e w v) = t_free t" "t_iters (upd t e w v) = t_iters t" "t_objs (upd t e w v) = t_objs t"
  "sized (upd t e w v) = sized t" "ok_ix (upd t e w v) = ok_ix t"
  by (simp_all add: upd_def sized_def fun_eq_iff ok_ix_def)

lemma set_kv_sel [simp]:
  "slots_of (set_kv t e h k x) = slots_of t" "t_items (set_kv t e h k x) = t_items t" "t_size (set_kv t e h k x) = t_size t"
  "t_type (set_kv t e h k x) = t_type t" "t_head (set_kv t e h k x) = t_head t" "t_tail (set_kv t e h k x) = t_tail t"
  "t_free (set_kv t e h k x) = t_free t" "t_iters (set_kv t e h k x) = t_iters t" "t_objs (set_kv t e h k x) = t_objs t"
  "sized (set_kv t e h k x) = sized t" "ok_ix (set_kv t e h k x) = ok_ix t"
  by (simp_all add: set_kv_def sized_def fun_eq_iff ok_ix_def)

lemma tab_upd [simp]: "tab t (upd t e w v)" "tab t (set_kv t e h k x)"
  by (simp_all add: upd_def set_kv_def tab_put_ent)

lemma tab_refl [simp]: "tab t t"
  by (auto simp: tab_def intro: exI [of _ "t_table t"])

lemma tab_trans [trans]: "tab t t' \<Longrightarrow> tab t' t'' \<Longrightarrow> tab t t''"
  by (auto simp: tab_def)

lemma tabD:
  assumes "tab t t'"
  shows "slots_of t' = slots_of t" "t_items t' = t_items t" "t_size t' = t_size t" "t_type t' = t_type t"
    "t_head t' = t_head t" "t_tail t' = t_tail t" "t_free t' = t_free t" "t_iters t' = t_iters t"
    "t_objs t' = t_objs t" "t_autosort t' = t_autosort t" "t_cookie t' = t_cookie t"
    "t_icount t' = t_icount t" "t_ithread t' = t_ithread t"
    "sized t' = sized t" "ok_ix t' = ok_ix t"
  using assms by (auto simp: tab_def sized_def ok_ix_def)

text \<open>Changing a field of the table that is not the array.\<close>

definition same_array :: "('k, 'v) ht \<Rightarrow> ('k, 'v) ht \<Rightarrow> bool" where
  "same_array t t' \<longleftrightarrow> t_table t' = t_table t \<and> t_type t' = t_type t"

lemma same_array_views:
  assumes "same_array t t'"
  shows "es_of t' = es_of t" "slots_of t' = slots_of t" "idx t' = idx t" "hsh t' = hsh t" "ky t' = ky t" "vl t' = vl t"
    "sized t' = sized t" "ok_ix t' = ok_ix t" "ent t' = ent t"
  using assms by (auto simp: same_array_def es_of_def slots_of_def idx_def [abs_def] hsh_def [abs_def] ky_def [abs_def]
      vl_def [abs_def] sized_def ok_ix_def [abs_def] ent_def [abs_def])

lemma views_update [simp]:
  "es_of (t\<lparr>t_head := a\<rparr>) = es_of t" "es_of (t\<lparr>t_tail := a\<rparr>) = es_of t" "es_of (t\<lparr>t_free := a\<rparr>) = es_of t"
  "es_of (t\<lparr>t_items := a\<rparr>) = es_of t" "es_of (t\<lparr>t_objs := ob\<rparr>) = es_of t" "es_of (t\<lparr>t_iters := l\<rparr>) = es_of t"
  "es_of (t\<lparr>t_autosort := b\<rparr>) = es_of t" "es_of (t\<lparr>t_cookie := a\<rparr>) = es_of t"
  by (simp_all add: es_of_def)

lemma views_update' [simp]:
  "slots_of (t\<lparr>t_head := a\<rparr>) = slots_of t" "slots_of (t\<lparr>t_tail := a\<rparr>) = slots_of t" "slots_of (t\<lparr>t_free := a\<rparr>) = slots_of t"
  "slots_of (t\<lparr>t_items := a\<rparr>) = slots_of t" "slots_of (t\<lparr>t_objs := ob\<rparr>) = slots_of t" "slots_of (t\<lparr>t_iters := l\<rparr>) = slots_of t"
  "slots_of (t\<lparr>t_autosort := b\<rparr>) = slots_of t" "slots_of (t\<lparr>t_cookie := a\<rparr>) = slots_of t"
  "idx (t\<lparr>t_head := a\<rparr>) = idx t" "idx (t\<lparr>t_tail := a\<rparr>) = idx t" "idx (t\<lparr>t_free := a\<rparr>) = idx t"
  "idx (t\<lparr>t_items := a\<rparr>) = idx t" "idx (t\<lparr>t_objs := ob\<rparr>) = idx t" "idx (t\<lparr>t_iters := l\<rparr>) = idx t"
  "idx (t\<lparr>t_autosort := b\<rparr>) = idx t" "idx (t\<lparr>t_cookie := a\<rparr>) = idx t"
  "hsh (t\<lparr>t_head := a\<rparr>) = hsh t" "hsh (t\<lparr>t_tail := a\<rparr>) = hsh t" "hsh (t\<lparr>t_free := a\<rparr>) = hsh t"
  "hsh (t\<lparr>t_items := a\<rparr>) = hsh t" "hsh (t\<lparr>t_objs := ob\<rparr>) = hsh t" "hsh (t\<lparr>t_iters := l\<rparr>) = hsh t"
  "ky (t\<lparr>t_head := a\<rparr>) = ky t" "ky (t\<lparr>t_tail := a\<rparr>) = ky t" "ky (t\<lparr>t_free := a\<rparr>) = ky t"
  "ky (t\<lparr>t_items := a\<rparr>) = ky t" "ky (t\<lparr>t_objs := ob\<rparr>) = ky t" "ky (t\<lparr>t_iters := l\<rparr>) = ky t"
  "vl (t\<lparr>t_head := a\<rparr>) = vl t" "vl (t\<lparr>t_tail := a\<rparr>) = vl t" "vl (t\<lparr>t_free := a\<rparr>) = vl t"
  "vl (t\<lparr>t_items := a\<rparr>) = vl t" "vl (t\<lparr>t_objs := ob\<rparr>) = vl t" "vl (t\<lparr>t_iters := l\<rparr>) = vl t"
  "sized (t\<lparr>t_head := a\<rparr>) = sized t" "sized (t\<lparr>t_tail := a\<rparr>) = sized t" "sized (t\<lparr>t_free := a\<rparr>) = sized t"
  "sized (t\<lparr>t_items := a\<rparr>) = sized t" "sized (t\<lparr>t_objs := ob\<rparr>) = sized t" "sized (t\<lparr>t_iters := l\<rparr>) = sized t"
  "ok_ix (t\<lparr>t_head := a\<rparr>) = ok_ix t" "ok_ix (t\<lparr>t_tail := a\<rparr>) = ok_ix t" "ok_ix (t\<lparr>t_free := a\<rparr>) = ok_ix t"
  "ok_ix (t\<lparr>t_items := a\<rparr>) = ok_ix t" "ok_ix (t\<lparr>t_objs := ob\<rparr>) = ok_ix t" "ok_ix (t\<lparr>t_iters := l\<rparr>) = ok_ix t"
  by (simp_all add: fun_eq_iff slots_of_def idx_def hsh_def ky_def vl_def sized_def ok_ix_def)

subsection \<open>The primitive operations on the views\<close>

lemma GetEntryIndexValue_ok [simp]: "e < slots_of t \<Longrightarrow> GetEntryIndexValue t e w = Ok (idx t w e)"
  by (simp add: GetEntryIndexValue_def idx_def Let_def)

lemma SetEntryIndexValue_ok [simp]: "e < slots_of t \<Longrightarrow> SetEntryIndexValue t e w v = Ok (upd t e w v)"
  by (simp add: SetEntryIndexValue_def upd_def)

lemma GetEntryChecked_ok [simp]: "e < slots_of t \<Longrightarrow> GetEntryChecked t e w = Ok (IndexToEntryChecked (idx t w e))"
  by (simp add: GetEntryChecked_def)

lemma SetEntryChecked_ok [simp]: "e < slots_of t \<Longrightarrow> SetEntryChecked t e w p = Ok (upd t e w (EntryToIndexChecked p))"
  by (simp add: SetEntryChecked_def)

lemma Checked_simps [simp]:
  "EntryToIndexChecked (IndexToEntryChecked v) = v" "IndexToEntryChecked INVALID = None"
  "EntryToIndexChecked None = INVALID" "EntryToIndexChecked (Some e) = e"
  "IndexToEntryChecked v = None \<longleftrightarrow> v = INVALID"
  "e \<noteq> INVALID \<Longrightarrow> IndexToEntryChecked e = Some e"
  "IndexToEntryChecked v = Some e \<longleftrightarrow> v = e \<and> e \<noteq> INVALID"
  by (auto simp: EntryToIndexChecked_def IndexToEntryChecked_def)

lemma ok_ix_INVALID [simp]: "ok_ix t INVALID"
  by (simp add: ok_ix_def)

lemma ok_ix_less [simp]: "v < slots_of t \<Longrightarrow> ok_ix t v"
  by (simp add: ok_ix_def)

lemma idx_upd [simp]:
  assumes "e < slots_of t" "sized t" "ok_ix t v"
  shows "idx (upd t e w v) = (idx t)(w := (idx t w)(e := v))"
proof -
  have "v \<noteq> INVALID \<Longrightarrow> v < index_mask (t_type t)" using assms by (auto simp: ok_ix_def sized_def)
  then show ?thesis
    using assms(1) by (auto simp: fun_eq_iff idx_def upd_def es_of_put_ent slots_of_def Let_def nth_list_update)
qed

lemma kv_upd [simp]:
  assumes "e < slots_of t"
  shows "hsh (upd t e w v) = hsh t" "ky (upd t e w v) = ky t" "vl (upd t e w v) = vl t"
  using assms by (auto simp: fun_eq_iff hsh_def ky_def vl_def upd_def es_of_put_ent slots_of_def nth_list_update)

lemma set_kv_views [simp]:
  assumes "e < slots_of t"
  shows "hsh (set_kv t e h k x) = (hsh t)(e := h)" "ky (set_kv t e h k x) = (ky t)(e := k)"
    "vl (set_kv t e h k x) = (vl t)(e := x)" "idx (set_kv t e h k x) = idx t"
  using assms by (auto simp: fun_eq_iff hsh_def ky_def vl_def idx_def set_kv_def es_of_put_ent slots_of_def nth_list_update)

lemma fill_entry_ok [simp]: "e < slots_of t \<Longrightarrow> fill_entry t e h k x = Ok (set_kv t e h k x)"
  by (simp add: fill_entry_def set_kv_def)

lemma put_value_eq: "put_ent t e ((es_of t ! e)\<lparr>e_value := x\<rparr>) = set_kv t e (hsh t e) (ky t e) x"
  by (simp add: set_kv_def hsh_def ky_def)

subsection \<open>The layout\<close>

definition iter_lay :: "('k, 'v) ht \<Rightarrow> nat list \<Rightarrow> bool" where
  "iter_lay t it \<longleftrightarrow> dlist (idx t ITER_NEXT) (idx t ITER_PREV) it \<and> distinct it \<and> set it \<subseteq> {..<slots_of t}
     \<and> t_head t = first_or it INVALID \<and> t_tail t = last_or INVALID it"

definition free_lay :: "('k, 'v) ht \<Rightarrow> nat list \<Rightarrow> bool" where
  "free_lay t fl \<longleftrightarrow> dlist (idx t BUCKET_NEXT) (idx t BUCKET_PREV) fl \<and> distinct fl \<and> set fl \<subseteq> {..<slots_of t}
     \<and> t_free t = first_or fl INVALID"

text \<open>The entries of one bucket, and the slot at which a bucket starts.\<close>

definition in_bucket :: "('k, 'v) ht \<Rightarrow> nat set \<Rightarrow> nat \<Rightarrow> nat set" where
  "in_bucket t us b = {i \<in> us. hsh t i mod t_size t = b}"

definition chain_lay :: "('k, 'v) ht \<Rightarrow> nat set \<Rightarrow> nat \<Rightarrow> nat list \<Rightarrow> bool" where
  "chain_lay t us b c \<longleftrightarrow> dlist (idx t BUCKET_NEXT) (idx t BUCKET_PREV) c \<and> distinct c \<and> set c = in_bucket t us b
     \<and> (c \<noteq> [] \<longrightarrow> idx t MAP_TO b = hd c)"

definition perm_lay :: "('k, 'v) ht \<Rightarrow> bool" where
  "perm_lay t \<longleftrightarrow> (\<forall>b < slots_of t. idx t MAP_TO b < slots_of t \<and> idx t MAPPED_FROM (idx t MAP_TO b) = b)
     \<and> (\<forall>i < slots_of t. idx t MAPPED_FROM i < slots_of t \<and> idx t MAP_TO (idx t MAPPED_FROM i) = i)"

definition slot_lay :: "('k, 'v) ht \<Rightarrow> nat set \<Rightarrow> nat list \<Rightarrow> (nat \<Rightarrow> nat list) \<Rightarrow> bool" where
  "slot_lay t us fl ch \<longleftrightarrow> sized t \<and> slots_of t = t_size t \<and> 0 < t_size t
     \<and> us \<inter> set fl = {} \<and> us \<union> set fl = {..<slots_of t} \<and> free_lay t fl \<and> perm_lay t
     \<and> (\<forall>b < slots_of t. chain_lay t us b (ch b))
     \<and> (\<forall>i \<in> us. hsh t i \<noteq> INVALID) \<and> (\<forall>i \<in> set fl. hsh t i = INVALID)"

lemma slot_layD:
  assumes "slot_lay t us fl ch"
  shows "sized t" "slots_of t = t_size t" "0 < t_size t" "us \<inter> set fl = {}" "us \<union> set fl = {..<slots_of t}"
    "free_lay t fl" "perm_lay t" "\<And>b. b < t_size t \<Longrightarrow> chain_lay t us b (ch b)"
    "\<And>i. i \<in> us \<Longrightarrow> hsh t i \<noteq> INVALID" "\<And>i. i \<in> set fl \<Longrightarrow> hsh t i = INVALID"
proof -
  note d = assms [unfolded slot_lay_def]
  show "sized t" "slots_of t = t_size t" "0 < t_size t" "us \<inter> set fl = {}" "us \<union> set fl = {..<slots_of t}"
    "free_lay t fl" "perm_lay t"
    by (insert d, elim conjE, assumption)+
  show "\<And>i. i \<in> us \<Longrightarrow> hsh t i \<noteq> INVALID" "\<And>i. i \<in> set fl \<Longrightarrow> hsh t i = INVALID"
    by (insert d, elim conjE, erule (1) bspec)+
  have "\<forall>b < slots_of t. chain_lay t us b (ch b)" by (insert d, elim conjE, assumption)
  then show "chain_lay t us b (ch b)" if "b < t_size t" for b using that \<open>slots_of t = t_size t\<close> by simp
qed

lemma slot_lay_in:
  assumes "slot_lay t us fl ch"
  shows "i \<in> us \<Longrightarrow> i < t_size t" "i \<in> set fl \<Longrightarrow> i < t_size t" "finite us" "\<And>b. set fl \<inter> in_bucket t us b = {}"
    "\<And>b. in_bucket t us b \<subseteq> us"
proof -
  note d = slot_layD [OF assms]
  show "i \<in> us \<Longrightarrow> i < t_size t" "i \<in> set fl \<Longrightarrow> i < t_size t"
    using d(5) unfolding d(2) by (metis UnI1 UnI2 lessThan_iff)+
  have "us \<subseteq> {..<slots_of t}" using d(5) by blast
  then show "finite us" using finite_subset by blast
  show "set fl \<inter> in_bucket t us b = {}" "in_bucket t us b \<subseteq> us" for b
    using d(4) by (auto simp: in_bucket_def)
qed

text \<open>The layouts depend on some of the views only.\<close>

lemma slot_lay_cong:
  assumes "slot_lay t us fl ch" "sized t' = sized t" "slots_of t' = slots_of t" "t_size t' = t_size t" "t_free t' = t_free t"
    "\<And>w. w \<notin> {ITER_NEXT, ITER_PREV} \<Longrightarrow> idx t' w = idx t w" "hsh t' = hsh t"
  shows "slot_lay t' us fl ch"
proof -
  have *: "idx t' BUCKET_NEXT = idx t BUCKET_NEXT" "idx t' BUCKET_PREV = idx t BUCKET_PREV" "idx t' MAP_TO = idx t MAP_TO"
    "idx t' MAPPED_FROM = idx t MAPPED_FROM" using assms(6) by simp_all
  have "free_lay t' = free_lay t" "perm_lay t' \<longleftrightarrow> perm_lay t" "in_bucket t' = in_bucket t" "chain_lay t' = chain_lay t"
    by ((intro ext)?, simp add: free_lay_def perm_lay_def chain_lay_def in_bucket_def assms(3-5,7) *)+
  with assms show ?thesis unfolding slot_lay_def by metis
qed

lemma iter_lay_cong:
  assumes "iter_lay t it" "slots_of t' = slots_of t" "t_head t' = t_head t" "t_tail t' = t_tail t"
    "idx t' ITER_NEXT = idx t ITER_NEXT" "idx t' ITER_PREV = idx t ITER_PREV"
  shows "iter_lay t' it"
  using assms by (simp add: iter_lay_def)

lemma perm_mod: "slot_lay t us fl ch \<Longrightarrow> h mod t_size t < t_size t"
  using slot_layD(3) [of t us fl ch] by simp

lemma bucket_start_lay [ht_ops]:
  "slot_lay t us fl ch \<Longrightarrow> bucket_start t h = Ok (idx t MAP_TO (h mod t_size t))"
  using slot_layD(2,3) [of t us fl ch] by (simp add: bucket_start_def)

text \<open>A slot at which a bucket starts is the head of that bucket exactly when the bucket is in use.\<close>

lemma IsBucketHead_lay [ht_ops]:
  assumes l: "slot_lay t us fl ch" and b: "b < t_size t"
  shows "IsBucketHead t (idx t MAP_TO b) = Ok (ch b \<noteq> [])"
proof -
  note d = slot_layD [OF l]
  let ?e = "idx t MAP_TO b"
  have e: "?e < slots_of t" "idx t MAPPED_FROM ?e = b" using d(7) b d(2) by (simp_all add: perm_lay_def)
  have c: "chain_lay t us b (ch b)" using d(8) b by blast
  show ?thesis
  proof (cases "hsh t ?e = INVALID")
    case True
    have "ch b = []"
    proof (rule ccontr)
      assume "ch b \<noteq> []"
      then have "?e \<in> us" using c hd_in_set [of "ch b"] by (auto simp: chain_lay_def in_bucket_def)
      with True d(9) show False by blast
    qed
    then show ?thesis using True e(1) by (simp add: IsBucketHead_def hsh_def)
  next
    case False
    have u: "?e \<in> us" using False d(5,10) e(1) by blast
    let ?b = "hsh t ?e mod t_size t"
    have b': "?b < t_size t" using d(3) by simp
    have "idx t MAP_TO ?b = ?e \<longleftrightarrow> ch b \<noteq> []"
    proof
      assume "idx t MAP_TO ?b = ?e"
      then have "?b = b" using e(2) d(2,7) b' unfolding perm_lay_def by metis
      then show "ch b \<noteq> []" using u c by (auto simp: chain_lay_def in_bucket_def)
    next
      assume "ch b \<noteq> []"
      then have "?e \<in> in_bucket t us b" using c hd_in_set [of "ch b"] by (auto simp: chain_lay_def)
      then show "idx t MAP_TO ?b = ?e" by (auto simp: in_bucket_def)
    qed
    then show ?thesis
      using False e(1) by (simp add: IsBucketHead_def hsh_def [symmetric] bucket_start_lay [OF l])
  qed
qed

subsection \<open>Looking a key up\<close>

lemma GetEntryLoop_chain:
  assumes "dlseg (idx t BUCKET_NEXT) pv p c INVALID" "set c \<subseteq> {..<slots_of t}" "sized t" "length c < n"
  shows "GetEntryLoop C t h k n (IndexToEntryChecked (first_or c INVALID)) =
     Ok (find (\<lambda>i. hsh t i = h \<and> c_keq C (ky t i) k) c)"
  using assms
proof (induction c arbitrary: n p)
  case Nil
  then show ?case by (cases n) auto
next
  case (Cons x c)
  then obtain m where n: "n = Suc m" by (cases n) auto
  have x: "x < slots_of t" "x \<noteq> INVALID" using Cons.prems less_not_INVALID by auto
  have "GetEntryLoop C t h k m (IndexToEntryChecked (first_or c INVALID)) =
      Ok (find (\<lambda>i. hsh t i = h \<and> c_keq C (ky t i) k) c)"
    by (rule Cons.IH [of x]) (use Cons.prems n in auto)
  then show ?case using n x Cons.prems(1) by (simp add: hsh_def ky_def)
qed

lemma chain_length:
  assumes "slot_lay t us fl ch" "b < t_size t"
  shows "length (ch b) \<le> t_size t" "set (ch b) \<subseteq> {..<slots_of t}"
proof -
  have c: "distinct (ch b)" "set (ch b) = in_bucket t us b"
    using slot_layD(8) [OF assms] by (simp_all add: chain_lay_def)
  show s: "set (ch b) \<subseteq> {..<slots_of t}"
    using c(2) slot_lay_in(1,5) [OF assms(1)] slot_layD(2) [OF assms(1)] by fastforce
  have "card (set (ch b)) \<le> card {..<slots_of t}" by (rule card_mono) (use s in auto)
  then show "length (ch b) \<le> t_size t"
    using distinct_card [OF c(1)] slot_layD(2) [OF assms(1)] by simp
qed

lemma table_fuel_slots: "slot_lay t us fl ch \<Longrightarrow> table_fuel t = Suc (t_size t)"
  using slot_layD(2,3) [of t us fl ch] slots_Some [of 0 t]
  by (simp add: table_fuel_def slots_of_def)

lemma GetEntry_lay:
  assumes l: "slot_lay t us fl ch" and n: "t_items t = 0 \<Longrightarrow> us = {}"
  shows "GetEntry C t h k = Ok (find (\<lambda>i. hsh t i = h \<and> c_keq C (ky t i) k) (ch (h mod t_size t)))"
proof -
  let ?b = "h mod t_size t"
  have b: "?b < t_size t" using perm_mod [OF l] .
  have c: "chain_lay t us ?b (ch ?b)" using slot_layD(8) [OF l b] .
  show ?thesis
  proof (cases "ch ?b")
    case Nil
    then show ?thesis by (simp add: GetEntry_def bucket_start_lay [OF l] IsBucketHead_lay [OF l b])
  next
    case (Cons x c')
    then have "us \<noteq> {}" using c by (auto simp: chain_lay_def in_bucket_def)
    then have "t_items t > 0" using n by blast
    moreover have x: "idx t MAP_TO ?b = x" "x \<noteq> INVALID"
      using c Cons chain_length(2) [OF l b] less_not_INVALID [OF slot_layD(1) [OF l]] by (auto simp: chain_lay_def)
    moreover have "GetEntryLoop C t h k (table_fuel t) (IndexToEntryChecked (first_or (ch ?b) INVALID)) =
        Ok (find (\<lambda>i. hsh t i = h \<and> c_keq C (ky t i) k) (ch ?b))"
      using c chain_length [OF l b] slot_layD(1) [OF l] table_fuel_slots [OF l]
      by (intro GetEntryLoop_chain) (auto simp: chain_lay_def)
    moreover have "IsBucketHead t x = Ok True" using IsBucketHead_lay [OF l b] x(1) Cons by simp
    ultimately show ?thesis by (simp add: GetEntry_def bucket_start_lay [OF l] Cons)
  qed
qed

text \<open>With the hash of the key and distinct keys, this is the entry of the key.\<close>

definition keyed :: "('k, 'v) ht_class \<Rightarrow> ('k, 'v) ht \<Rightarrow> nat set \<Rightarrow> bool" where
  "keyed C t us \<longleftrightarrow> inj_on (ky t) us \<and> (\<forall>i \<in> us. hsh t i = ComputeHash C (ky t i))"

definition keq_ok :: "('k, 'v) ht_class \<Rightarrow> bool" where
  "keq_ok C \<longleftrightarrow> (\<forall>a b. c_keq C a b \<longleftrightarrow> a = b)"

lemma ComputeHash_range: "ComputeHash C k < INVALID"
  using unat_u32_less [of "c_hash C k"] by (auto simp: ComputeHash_def INVALID_def add32_def Let_def)

lemma GetEntry_key:
  assumes l: "slot_lay t us fl ch" and n: "t_items t = 0 \<Longrightarrow> us = {}" and k: "keyed C t us" "keq_ok C"
  shows "i \<in> us \<Longrightarrow> ky t i = key \<Longrightarrow> GetEntry C t (ComputeHash C key) key = Ok (Some i)"
    "key \<notin> ky t ` us \<Longrightarrow> GetEntry C t (ComputeHash C key) key = Ok None"
proof -
  let ?b = "ComputeHash C key mod t_size t"
  have b: "?b < t_size t" using perm_mod [OF l] .
  have s: "set (ch ?b) = in_bucket t us ?b" using slot_layD(8) [OF l b] by (simp add: chain_lay_def)
  show "GetEntry C t (ComputeHash C key) key = Ok None" if "key \<notin> ky t ` us"
  proof -
    have "find (\<lambda>i. hsh t i = ComputeHash C key \<and> c_keq C (ky t i) key) (ch ?b) = None"
      using that s k(2) by (auto simp: find_None_iff in_bucket_def keq_ok_def)
    then show ?thesis using GetEntry_lay [OF l n] by simp
  qed
  show "GetEntry C t (ComputeHash C key) key = Ok (Some i)" if i: "i \<in> us" "ky t i = key"
  proof -
    let ?P = "\<lambda>i. hsh t i = ComputeHash C key \<and> c_keq C (ky t i) key"
    have "i \<in> set (ch ?b)" using i k(1) s by (auto simp: in_bucket_def keyed_def)
    moreover have "?P i" using i k by (auto simp: keyed_def keq_ok_def)
    ultimately have "find ?P (ch ?b) \<noteq> None" by (auto simp: find_None_iff)
    then obtain j where j: "find ?P (ch ?b) = Some j" by auto
    then have "j \<in> us" "ky t j = key" using s k(2) by (auto simp: find_Some_iff in_bucket_def keq_ok_def dest!: nth_mem)
    then have "j = i" using i k(1) by (auto simp: keyed_def inj_on_def)
    then show ?thesis using j GetEntry_lay [OF l n] by simp
  qed
qed

end
