(* ===== verification/Hash_Slots.thy ===== *)
theory Hash_Slots
  imports Hash_Layout
begin

section \<open>Hashtable: taking a slot from the free list and giving it back\<close>

text \<open>
  The lemmas on \<^verbatim>\<open>PopFromFreeList\<close>, \<^verbatim>\<open>SwapEntryMaps\<close>, \<^verbatim>\<open>PutAuxAux\<close> and on the second half of
  \<^verbatim>\<open>RemoveEntry\<close>: how they change the set of used slots, the free list and the chains of the
  buckets.  The iteration list is not touched by them.
\<close>

lemma PopFromFreeList_lay:
  assumes f: "free_lay t (xs @ e # ys)" and s: "sized t"
  obtains t' where "PopFromFreeList t e (t_free t) = Ok (first_or (xs @ ys) INVALID, t')" "tab t t'"
    "hsh t' = hsh t" "ky t' = ky t" "vl t' = vl t"
    "\<And>w. w \<notin> {BUCKET_NEXT, BUCKET_PREV} \<Longrightarrow> idx t' w = idx t w"
    "dlist (idx t' BUCKET_NEXT) (idx t' BUCKET_PREV) (xs @ ys)"
    "\<And>i. i \<notin> set (xs @ e # ys) \<Longrightarrow> idx t' BUCKET_NEXT i = idx t BUCKET_NEXT i \<and> idx t' BUCKET_PREV i = idx t BUCKET_PREV i"
proof -
  let ?n = "idx t BUCKET_NEXT" and ?p = "idx t BUCKET_PREV"
  have d: "dlist ?n ?p (xs @ e # ys)" "distinct (xs @ e # ys)" "set (xs @ e # ys) \<subseteq> {..<slots_of t}"
    "t_free t = first_or (xs @ e # ys) INVALID"
    using f by (simp_all add: free_lay_def)
  have e: "e < slots_of t" "?n e = first_or ys INVALID" "?p e = last_or INVALID xs"
    using d(3) dlseg_next [OF d(1)] dlseg_prev [OF d(1)] by simp_all
  have nI: "i \<noteq> INVALID \<and> i < slots_of t" if "i \<in> set (xs @ e # ys)" for i
    using that d(3) less_not_INVALID [OF s] by auto
  define t1 where "t1 = (if ys = [] then t else upd t (hd ys) BUCKET_PREV (?p e))"
  define t2 where "t2 = (if xs = [] then t1 else upd t1 (last xs) BUCKET_NEXT (?n e))"
  define t' where "t' = upd (upd t2 e BUCKET_NEXT INVALID) e BUCKET_PREV INVALID"
  have y: "first_or ys INVALID = hd ys \<and> hd ys \<noteq> INVALID \<and> hd ys < slots_of t" if "ys \<noteq> []"
    using that nI first_or_hd by auto
  have x: "last_or INVALID xs = last xs \<and> last xs \<noteq> INVALID \<and> last xs < slots_of t" if "xs \<noteq> []"
    using that nI last_or_last by auto
  have okp: "ok_ix t (?p e)" "ok_ix t (?n e)" using x y e by (cases "xs = []"; cases "ys = []"; simp)+
  have sl1: "slots_of t1 = slots_of t" "sized t1" "ok_ix t1 = ok_ix t" by (auto simp: t1_def s)
  have sl2: "slots_of t2 = slots_of t" "sized t2" by (auto simp: t2_def sl1)
  have run: "PopFromFreeList t e (t_free t) = Ok (first_or (xs @ ys) INVALID, t')"
  proof -
    have "(if t_free t = e then first_or ys INVALID else t_free t) = first_or (xs @ ys) INVALID"
      using d(2,4) by (cases xs) auto
    then show ?thesis
      using e x y sl1 sl2 by (cases "xs = []"; cases "ys = []")
        (simp_all add: PopFromFreeList_def t'_def t2_def t1_def Let_def split: if_splits)
  qed
  have i1: "idx t1 = (if ys = [] then idx t else (idx t)(BUCKET_PREV := ?p(hd ys := ?p e)))"
    using y okp s by (simp add: t1_def)
  have i2: "idx t2 = (if xs = [] then idx t1 else (idx t1)(BUCKET_NEXT := (idx t1 BUCKET_NEXT)(last xs := ?n e)))"
    using x okp sl1 by (simp add: t2_def)
  have bn: "idx t1 BUCKET_NEXT = ?n" using i1 by auto
  have i': "idx t' BUCKET_NEXT = (if xs = [] then ?n else ?n(last xs := ?n e))(e := INVALID)"
    "idx t' BUCKET_PREV = (if ys = [] then ?p else ?p(hd ys := ?p e))(e := INVALID)"
    "\<And>w. w \<notin> {BUCKET_NEXT, BUCKET_PREV} \<Longrightarrow> idx t' w = idx t w"
    using e(1) sl2 i1 i2 bn by (auto simp: t'_def)
  have v1: "hsh t1 = hsh t \<and> ky t1 = ky t \<and> vl t1 = vl t" using y by (simp add: t1_def)
  have v2: "hsh t2 = hsh t \<and> ky t2 = ky t \<and> vl t2 = vl t" using x v1 sl1 by (simp add: t2_def)
  have v': "hsh t' = hsh t" "ky t' = ky t" "vl t' = vl t" using e(1) v2 sl2 by (simp_all add: t'_def)
  have "tab t t1" "tab t1 t2" by (simp_all add: t1_def t2_def)
  moreover have "tab t2 t'" unfolding t'_def by (rule tab_trans [OF tab_upd(1) tab_upd(1)])
  ultimately have tb: "tab t t'" using tab_trans by blast
  have "dlist (idx t' BUCKET_NEXT) (idx t' BUCKET_PREV) (xs @ ys)"
    unfolding i' using dlseg_remove [OF d(1,2)] d(2) by simp
  moreover have "idx t' BUCKET_NEXT i = ?n i \<and> idx t' BUCKET_PREV i = ?p i" if "i \<notin> set (xs @ e # ys)" for i
  proof -
    have "i \<noteq> e" "xs \<noteq> [] \<longrightarrow> i \<noteq> last xs" "ys \<noteq> [] \<longrightarrow> i \<noteq> hd ys"
      using that by (auto dest: last_in_set hd_in_set)
    then show ?thesis unfolding i' by simp
  qed
  ultimately show ?thesis using that [OF run tb v' i'(3)] by blast
qed

text \<open>Exchanging the slots at which two buckets start keeps the two maps inverse to each other.\<close>

lemma SwapEntryMaps_lay:
  assumes p: "perm_lay t" and s: "sized t" and b: "b1 < slots_of t" "b2 < slots_of t"
  obtains t' where "SwapEntryMaps t b1 b2 = Ok t'" "tab t t'" "hsh t' = hsh t" "ky t' = ky t" "vl t' = vl t"
    "\<And>w. w \<notin> {MAP_TO, MAPPED_FROM} \<Longrightarrow> idx t' w = idx t w" "perm_lay t'"
    "idx t' MAP_TO = (idx t MAP_TO)(b1 := idx t MAP_TO b2, b2 := idx t MAP_TO b1)"
proof -
  let ?m = "idx t MAP_TO" and ?f = "idx t MAPPED_FROM"
  have m: "?m b1 < slots_of t" "?m b2 < slots_of t" using p b by (simp_all add: perm_lay_def)
  define t1 where "t1 = upd t b1 MAP_TO (?m b2)"
  define t2 where "t2 = upd t1 b2 MAP_TO (?m b1)"
  have s1: "slots_of t1 = slots_of t" "sized t1" "ok_ix t1 = ok_ix t" and s2: "slots_of t2 = slots_of t" "sized t2" "ok_ix t2 = ok_ix t"
    using s by (simp_all add: t1_def t2_def)
  have i1: "idx t1 = (idx t)(MAP_TO := ?m(b1 := ?m b2))" using b m s by (simp add: t1_def)
  have i2: "idx t2 = (idx t)(MAP_TO := ?m(b1 := ?m b2, b2 := ?m b1))" using b m s1 i1 by (simp add: t2_def)
  define a where "a = idx t2 MAP_TO b1"
  have a: "a = ?m b2" using i2 by (auto simp: a_def)
  define t3 where "t3 = upd t2 a MAPPED_FROM b1"
  define t' where "t' = upd t3 (?m b1) MAPPED_FROM b2"
  have s3: "slots_of t3 = slots_of t" "sized t3" "ok_ix t3 = ok_ix t" using s2 by (simp_all add: t3_def)
  have i3: "idx t3 = (idx t2)(MAPPED_FROM := ?f(?m b2 := b1))" using b m s2 a i2 by (simp add: t3_def)
  have i': "idx t' = (idx t)(MAP_TO := ?m(b1 := ?m b2, b2 := ?m b1), MAPPED_FROM := ?f(?m b2 := b1, ?m b1 := b2))"
    using b m s3 i3 i2 by (simp add: t'_def fun_upd_twist)
  have run: "SwapEntryMaps t b1 b2 = Ok t'"
  proof -
    have "idx t3 MAP_TO b2 = ?m b1" using i3 i2 by simp
    then show ?thesis
      using b m s1 s2 s3 a i1 by (simp add: SwapEntryMaps_def t'_def t3_def t2_def t1_def a_def)
  qed
  have v: "hsh t' = hsh t" "ky t' = ky t" "vl t' = vl t"
    using b m s1 s2 s3 a by (simp_all add: t'_def t3_def t2_def t1_def)
  have tb: "tab t t'" unfolding t'_def t3_def t2_def t1_def by (intro tab_trans [OF _ tab_upd(1)] tab_upd)
  have sl: "slots_of t' = slots_of t" using tabD(1) [OF tb] .
  have inv: "?f (?m c) = c" if "c < slots_of t" for c using p that by (simp add: perm_lay_def)
  have "perm_lay t'" unfolding perm_lay_def sl i'
  proof (intro conjI allI impI)
    fix c assume c: "c < slots_of t"
    show "((idx t)(MAP_TO := ?m(b1 := ?m b2, b2 := ?m b1), MAPPED_FROM := ?f(?m b2 := b1, ?m b1 := b2))) MAP_TO c < slots_of t"
      using c m p by (auto simp: perm_lay_def)
    have ne: "?m c \<noteq> ?m b1" "?m c \<noteq> ?m b2" if "c \<noteq> b1" "c \<noteq> b2"
      using that inv [OF c] inv [OF b(1)] inv [OF b(2)] by metis+
    have ne': "?m b1 = ?m b2 \<Longrightarrow> b1 = b2" using inv [OF b(1)] inv [OF b(2)] by metis
    show "((idx t)(MAP_TO := ?m(b1 := ?m b2, b2 := ?m b1), MAPPED_FROM := ?f(?m b2 := b1, ?m b1 := b2))) MAPPED_FROM
        (((idx t)(MAP_TO := ?m(b1 := ?m b2, b2 := ?m b1), MAPPED_FROM := ?f(?m b2 := b1, ?m b1 := b2))) MAP_TO c) = c"
      using ne ne' inv [OF c] by (auto)
  next
    fix i assume i: "i < slots_of t"
    have f: "?f i < slots_of t" "?m (?f i) = i" using p i by (simp_all add: perm_lay_def)
    show "((idx t)(MAP_TO := ?m(b1 := ?m b2, b2 := ?m b1), MAPPED_FROM := ?f(?m b2 := b1, ?m b1 := b2))) MAPPED_FROM i < slots_of t"
      using f b by auto
    show "((idx t)(MAP_TO := ?m(b1 := ?m b2, b2 := ?m b1), MAPPED_FROM := ?f(?m b2 := b1, ?m b1 := b2))) MAP_TO
        (((idx t)(MAP_TO := ?m(b1 := ?m b2, b2 := ?m b1), MAPPED_FROM := ?f(?m b2 := b1, ?m b1 := b2))) MAPPED_FROM i) = i"
      using f by auto
  qed
  then show ?thesis using that [OF run tb v] i' by simp
qed

subsection \<open>Restoring the layout\<close>

text \<open>After a change to one bucket; the other chains and their starts are as before.\<close>

lemma slot_lay_step:
  assumes l: "slot_lay t us fl ch" and b: "b < t_size t"
    and f: "sized t'" "slots_of t' = slots_of t" "t_size t' = t_size t"
    and n: "free_lay t' fl'" "perm_lay t'" "chain_lay t' us' b c"
    and u: "us' \<inter> set fl' = {}" "us' \<union> set fl' = {..<slots_of t}"
    and o: "\<And>b'. b' < t_size t \<Longrightarrow> b' \<noteq> b \<Longrightarrow> in_bucket t' us' b' = in_bucket t us b'"
      "\<And>b' i. b' < t_size t \<Longrightarrow> b' \<noteq> b \<Longrightarrow> i \<in> in_bucket t us b' \<Longrightarrow>
         idx t' BUCKET_NEXT i = idx t BUCKET_NEXT i \<and> idx t' BUCKET_PREV i = idx t BUCKET_PREV i"
      "\<And>b'. b' < t_size t \<Longrightarrow> b' \<noteq> b \<Longrightarrow> ch b' \<noteq> [] \<Longrightarrow> idx t' MAP_TO b' = idx t MAP_TO b'"
    and h: "\<And>i. i \<in> us' \<Longrightarrow> hsh t' i \<noteq> INVALID" "\<And>i. i \<in> set fl' \<Longrightarrow> hsh t' i = INVALID"
  shows "slot_lay t' us' fl' (ch(b := c))"
proof -
  note d = slot_layD [OF l]
  have c: "chain_lay t' us' b' ((ch(b := c)) b')" if b': "b' < t_size t" for b'
  proof (cases "b' = b")
    case True
    then show ?thesis using n(3) by simp
  next
    case False
    have k: "chain_lay t us b' (ch b')" using d(8) [OF b'] .
    then have "dlist (idx t' BUCKET_NEXT) (idx t' BUCKET_PREV) (ch b') = dlist (idx t BUCKET_NEXT) (idx t BUCKET_PREV) (ch b')"
      using o(2) [OF b' False] by (intro dlseg_cong) (simp_all add: chain_lay_def)
    then show ?thesis using k False o(1,3) [OF b' False] by (simp add: chain_lay_def)
  qed
  show ?thesis
    unfolding slot_lay_def using f d(2,3) n(1,2) u h c by simp
qed

text \<open>Only the starts of empty chains have moved.\<close>

lemma slot_lay_remap:
  assumes l: "slot_lay t us fl ch" and tb: "tab t t'" and p: "perm_lay t'"
    and i: "\<And>w. w \<notin> {MAP_TO, MAPPED_FROM} \<Longrightarrow> idx t' w = idx t w" and h: "hsh t' = hsh t"
    and o: "\<And>b. b < t_size t \<Longrightarrow> ch b \<noteq> [] \<Longrightarrow> idx t' MAP_TO b = idx t MAP_TO b"
  shows "slot_lay t' us fl ch"
proof -
  note d = slot_layD [OF l] and e = tabD [OF tb]
  have "free_lay t' fl" using d(6) i e by (simp add: free_lay_def)
  moreover have "chain_lay t' us b (ch b)" if "b < t_size t" for b
    using d(8) [OF that] i h o [OF that] e by (simp add: chain_lay_def in_bucket_def)
  ultimately show ?thesis unfolding slot_lay_def using d p e h by simp
qed

text \<open>What putting a new entry leaves as it is.\<close>

definition put_frame :: "('k, 'v) ht \<Rightarrow> ('k, 'v) ht \<Rightarrow> bool" where
  "put_frame t t' \<longleftrightarrow> (\<exists>T f. t' = t\<lparr>t_table := T, t_free := f\<rparr>) \<and> slots_of t' = slots_of t"

lemma put_frameI: "tab (t\<lparr>t_free := f\<rparr>) t' \<Longrightarrow> put_frame t t'"
  unfolding put_frame_def tab_def by auto (metis ht.update_convs(4,7) ht.surjective)

lemma put_frameD:
  assumes "put_frame t t'"
  shows "slots_of t' = slots_of t" "t_items t' = t_items t" "t_size t' = t_size t" "t_type t' = t_type t"
    "t_head t' = t_head t" "t_tail t' = t_tail t" "t_iters t' = t_iters t"
    "t_objs t' = t_objs t" "t_autosort t' = t_autosort t" "t_cookie t' = t_cookie t"
    "t_icount t' = t_icount t" "t_ithread t' = t_ithread t"
    "sized t' = sized t" "ok_ix t' = ok_ix t"
  using assms by (auto simp: put_frame_def sized_def ok_ix_def)

lemma tab_set_free:
  assumes "tab t t1"
  shows "tab (t\<lparr>t_free := f\<rparr>) (t1\<lparr>t_free := f\<rparr>)"
proof -
  obtain T where T: "t1 = t\<lparr>t_table := T\<rparr>" "slots_of t1 = slots_of t" using assms by (auto simp: tab_def)
  have "t1\<lparr>t_free := f\<rparr> = t\<lparr>t_free := f, t_table := T\<rparr>" using T(1) by (intro ht.equality) simp_all
  then show ?thesis using T(2) unfolding tab_def by (metis views_update'(3))
qed

text \<open>The keys, values and hashes with one entry filled in, and the iteration links as they were.\<close>

definition filled :: "('k, 'v) ht \<Rightarrow> ('k, 'v) ht \<Rightarrow> nat \<Rightarrow> nat \<Rightarrow> 'k \<Rightarrow> 'v \<Rightarrow> bool" where
  "filled t t' e h k v \<longleftrightarrow> put_frame t t' \<and> hsh t' = (hsh t)(e := h) \<and> ky t' = (ky t)(e := k) \<and> vl t' = (vl t)(e := v)
     \<and> idx t' ITER_NEXT = idx t ITER_NEXT \<and> idx t' ITER_PREV = idx t ITER_PREV"

lemma in_bucket_fill:
  assumes "filled t t' e h k v" "e \<notin> us"
  shows "in_bucket t' (insert e us) b = (if h mod t_size t = b then insert e (in_bucket t us b) else in_bucket t us b)"
  using assms by (auto simp: in_bucket_def filled_def put_frameD)

lemma add_to_chain_lay:
  assumes l: "slot_lay t us (e # ys) ch" and h: "h \<noteq> INVALID" and c: "ch (h mod t_size t) = c0 # cs"
  obtains t' where "add_to_chain t c0 h k v = Ok (e, t')" "filled t t' e h k v"
    "slot_lay t' (insert e us) ys (ch(h mod t_size t := c0 # e # cs))"
proof -
  note d = slot_layD [OF l]
  let ?b = "h mod t_size t" and ?n = "idx t BUCKET_NEXT" and ?p = "idx t BUCKET_PREV"
  have b: "?b < t_size t" using perm_mod [OF l] .
  have k: "dlist ?n ?p (c0 # cs)" "distinct (c0 # cs)" "set (c0 # cs) = in_bucket t us ?b" "idx t MAP_TO ?b = c0"
    using d(8) [OF b] c by (simp_all add: chain_lay_def)
  have cu: "set (c0 # cs) \<subseteq> us" using k(3) slot_lay_in(5) [OF l] by blast
  have disj: "set (c0 # cs) \<inter> set (e # ys) = {}" using cu d(4) by blast
  have lt: "i < slots_of t \<and> i \<noteq> INVALID" if "i \<in> set (c0 # cs) \<union> set (e # ys)" for i
    using that cu slot_lay_in(1,2) [OF l] d(1,2) less_not_INVALID [of t i] by (metis UnE subsetD)
  have e: "e < slots_of t" "e \<noteq> INVALID" "c0 < slots_of t" "c0 \<noteq> INVALID" "c0 \<noteq> e"
    using lt disj by auto
  have nx: "?n c0 = first_or cs INVALID" using k(1) by simp
  have nok: "ok_ix t (first_or cs INVALID)" using lt by (cases cs) auto
  have fh: "t_free t = e" using d(6) by (simp add: free_lay_def)
  obtain t1 where t1: "PopFromFreeList t e e = Ok (first_or ys INVALID, t1)" "tab t t1" "hsh t1 = hsh t" "ky t1 = ky t" "vl t1 = vl t"
    "\<And>w. w \<notin> {BUCKET_NEXT, BUCKET_PREV} \<Longrightarrow> idx t1 w = idx t w"
    "dlist (idx t1 BUCKET_NEXT) (idx t1 BUCKET_PREV) ys"
    "\<And>i. i \<notin> set (e # ys) \<Longrightarrow> idx t1 BUCKET_NEXT i = ?n i \<and> idx t1 BUCKET_PREV i = ?p i"
    using PopFromFreeList_lay [of t "[]" e ys] d(6,1) fh by auto
  note s1 = tabD [OF t1(2)]
  define tF where "tF = t1\<lparr>t_free := first_or ys INVALID\<rparr>"
  define t2 where "t2 = set_kv tF e h k v"
  define t3 where "t3 = upd t2 e BUCKET_PREV c0"
  define t4 where "t4 = upd t3 e BUCKET_NEXT (first_or cs INVALID)"
  define t5 where "t5 = (if cs = [] then t4 else upd t4 (hd cs) BUCKET_PREV e)"
  define t' where "t' = upd t5 c0 BUCKET_NEXT e"
  have y: "first_or cs INVALID = hd cs \<and> hd cs \<noteq> INVALID \<and> hd cs < slots_of t" if "cs \<noteq> []"
    using that lt first_or_hd by auto
  have sz: "slots_of tF = slots_of t" "sized tF" "ok_ix tF = ok_ix t" "slots_of t2 = slots_of t" "sized t2" "ok_ix t2 = ok_ix t"
    "slots_of t3 = slots_of t" "sized t3" "ok_ix t3 = ok_ix t" "slots_of t4 = slots_of t" "sized t4" "ok_ix t4 = ok_ix t"
    "slots_of t5 = slots_of t" "sized t5" "ok_ix t5 = ok_ix t"
    using d(1) s1 by (simp_all add: tF_def t2_def t3_def t4_def t5_def)
  have i2: "idx t2 = idx t1" using e sz by (simp add: t2_def tF_def)
  have i3: "idx t3 = (idx t1)(BUCKET_PREV := (idx t1 BUCKET_PREV)(e := c0))" using e sz i2 by (simp add: t3_def)
  have i4: "idx t4 = (idx t3)(BUCKET_NEXT := (idx t1 BUCKET_NEXT)(e := first_or cs INVALID))"
    using e sz i3 nok by (simp add: t4_def)
  have i5: "idx t5 = (if cs = [] then idx t4 else (idx t4)(BUCKET_PREV := (idx t1 BUCKET_PREV)(e := c0, hd cs := e)))"
    using e sz y i3 i4 by (simp add: t5_def)
  have i6: "idx t' = (idx t5)(BUCKET_NEXT := (idx t1 BUCKET_NEXT)(e := first_or cs INVALID, c0 := e))"
    using e sz i4 i5 by (simp add: t'_def)
  have iN: "idx t' BUCKET_NEXT = (idx t1 BUCKET_NEXT)(e := first_or cs INVALID, c0 := e)"
    and iP: "idx t' BUCKET_PREV = (if cs = [] then (idx t1 BUCKET_PREV)(e := c0) else (idx t1 BUCKET_PREV)(e := c0, hd cs := e))"
    and iO: "\<And>w. w \<notin> {BUCKET_NEXT, BUCKET_PREV} \<Longrightarrow> idx t' w = idx t w"
    using i6 i5 i4 i3 t1(6) by auto
  have run: "add_to_chain t c0 h k v = Ok (e, t')"
  proof -
    have "idx t3 BUCKET_NEXT c0 = first_or cs INVALID" using i3 t1(8) [of c0] disj nx by simp
    then show ?thesis
      using e sz y fh by (cases "cs = []")
        (simp_all add: add_to_chain_def t1(1) tF_def [symmetric] t2_def [symmetric] t3_def [symmetric] t4_def t'_def t5_def)
  qed
  have kv: "hsh t' = (hsh t)(e := h)" "ky t' = (ky t)(e := k)" "vl t' = (vl t)(e := v)"
  proof -
    have "hsh t2 = (hsh t)(e := h) \<and> ky t2 = (ky t)(e := k) \<and> vl t2 = (vl t)(e := v)"
      using e sz t1(3-5) by (simp add: t2_def tF_def)
    then show "hsh t' = (hsh t)(e := h)" "ky t' = (ky t)(e := k)" "vl t' = (vl t)(e := v)"
      using e sz y by (simp_all add: t'_def t5_def t4_def t3_def)
  qed
  have fr: "put_frame t t'"
  proof (rule put_frameI)
    have "tab tF t2" "tab t2 t3" "tab t3 t4" "tab t4 t5" "tab t5 t'" by (simp_all add: t2_def t3_def t4_def t5_def t'_def)
    then have "tab tF t'" by (blast intro: tab_trans)
    moreover have "tab (t\<lparr>t_free := first_or ys INVALID\<rparr>) tF" unfolding tF_def by (rule tab_set_free [OF t1(2)])
    ultimately show "tab (t\<lparr>t_free := first_or ys INVALID\<rparr>) t'" by (blast intro: tab_trans)
  qed
  have fil: "filled t t' e h k v" unfolding filled_def using fr kv iO by simp
  have tf: "t_free t' = first_or ys INVALID" by (simp add: t'_def t5_def t4_def t3_def t2_def tF_def)
  have dy: "distinct (e # ys)" using d(6) by (simp add: free_lay_def)
  have same: "idx t' BUCKET_NEXT i = idx t1 BUCKET_NEXT i" "idx t' BUCKET_PREV i = idx t1 BUCKET_PREV i"
    if "i \<notin> set (c0 # cs)" "i \<noteq> e" for i
  proof -
    have "i \<noteq> c0" "cs \<noteq> [] \<longrightarrow> i \<noteq> hd cs" using that(1) by (auto dest: hd_in_set)
    then show "idx t' BUCKET_NEXT i = idx t1 BUCKET_NEXT i" "idx t' BUCKET_PREV i = idx t1 BUCKET_PREV i"
      using that(2) by (simp_all add: iN iP)
  qed
  have fy: "free_lay t' ys"
  proof -
    have "z \<notin> set (c0 # cs) \<and> z \<noteq> e" if "z \<in> set ys" for z using that disj dy by (metis disjoint_iff distinct.simps(2) list.set_intros(2))
    then have "dlist (idx t' BUCKET_NEXT) (idx t' BUCKET_PREV) ys \<longleftrightarrow> dlist (idx t1 BUCKET_NEXT) (idx t1 BUCKET_PREV) ys"
      using same by (intro dlseg_cong) blast+
    then show ?thesis using t1(7) dy d(6) put_frameD(1) [OF fr] tf by (simp add: free_lay_def)
  qed
  have ch: "chain_lay t' (insert e us) ?b (c0 # e # cs)"
  proof -
    have k1: "dlist (idx t1 BUCKET_NEXT) (idx t1 BUCKET_PREV) ([c0] @ cs)"
    proof -
      have "dlist (idx t1 BUCKET_NEXT) (idx t1 BUCKET_PREV) (c0 # cs) \<longleftrightarrow> dlist ?n ?p (c0 # cs)"
        using t1(8) disj by (intro dlseg_cong) (metis disjoint_iff)+
      then show ?thesis using k(1) by simp
    qed
    from dlseg_insert [OF k1 _ _ refl refl, of e] have "dlist (idx t' BUCKET_NEXT) (idx t' BUCKET_PREV) (c0 # e # cs)"
      using k(2) disj unfolding iN iP by (cases cs) (simp_all split: if_splits)
    moreover have "e \<notin> us" using d(4) by simp
    moreover have "in_bucket t' (insert e us) ?b = insert e (set (c0 # cs))"
      using in_bucket_fill [OF fil \<open>e \<notin> us\<close>] k(3) by simp
    ultimately show ?thesis using k(2,4) disj iO [of MAP_TO] by (auto simp: chain_lay_def)
  qed
  have eu: "e \<notin> us" using d(4) by simp
  have "slot_lay t' (insert e us) ys (ch(?b := c0 # e # cs))"
  proof (rule slot_lay_step [OF l b _ _ _ fy _ ch])
    show "sized t'" "slots_of t' = slots_of t" "t_size t' = t_size t" using put_frameD [OF fr] d(1) by simp_all
    show "perm_lay t'" using d(7) iO put_frameD(1) [OF fr] by (simp add: perm_lay_def)
    show "insert e us \<inter> set ys = {}" "insert e us \<union> set ys = {..<slots_of t}" using d(4,5) dy by auto
    show "in_bucket t' (insert e us) b' = in_bucket t us b'" if "b' \<noteq> ?b" for b'
      using in_bucket_fill [OF fil eu] that by simp
    show "idx t' BUCKET_NEXT i = ?n i \<and> idx t' BUCKET_PREV i = ?p i" if "b' \<noteq> ?b" "i \<in> in_bucket t us b'" for b' i
    proof -
      have "i \<in> us" "i \<notin> set (c0 # cs)" using that k(3) by (auto simp: in_bucket_def)
      moreover have "i \<notin> set (e # ys)" using \<open>i \<in> us\<close> d(4) by (metis disjoint_iff)
      ultimately show ?thesis using same [of i] t1(8) [of i] by simp
    qed
    show "idx t' MAP_TO b' = idx t MAP_TO b'" for b' using iO by simp
    show "hsh t' i \<noteq> INVALID" if "i \<in> insert e us" for i using that kv(1) h d(9) by auto
    show "hsh t' i = INVALID" if "i \<in> set ys" for i using that kv(1) dy d(10) by auto
  qed
  then show ?thesis using that run fil by blast
qed

lemma fill_first_lay:
  assumes l: "slot_lay t us (xs @ e # ys) ch" and h: "h \<noteq> INVALID" and c: "ch (h mod t_size t) = []"
    and m: "idx t MAP_TO (h mod t_size t) = e"
  obtains t' where "obind (PopFromFreeList t e (t_free t)) (\<lambda>(fh, t). obind (fill_entry (t\<lparr>t_free := fh\<rparr>) e h k v) (\<lambda>t.
      obind (SetEntryIndexValue t e BUCKET_PREV INVALID) (\<lambda>t.
      obind (SetEntryIndexValue t e BUCKET_NEXT INVALID) (\<lambda>t. Ok (e, t))))) = Ok (e, t')"
    "filled t t' e h k v" "slot_lay t' (insert e us) (xs @ ys) (ch(h mod t_size t := [e]))"
proof -
  note d = slot_layD [OF l]
  let ?b = "h mod t_size t" and ?n = "idx t BUCKET_NEXT" and ?p = "idx t BUCKET_PREV"
  have b: "?b < t_size t" using perm_mod [OF l] .
  have fl: "distinct (xs @ e # ys)" "set (xs @ e # ys) \<subseteq> {..<slots_of t}" using d(6) by (simp_all add: free_lay_def)
  have e: "e < slots_of t" using fl(2) by simp
  have eu: "e \<notin> us" using d(4) by auto
  obtain t1 where t1: "PopFromFreeList t e (t_free t) = Ok (first_or (xs @ ys) INVALID, t1)" "tab t t1"
    "hsh t1 = hsh t" "ky t1 = ky t" "vl t1 = vl t" "\<And>w. w \<notin> {BUCKET_NEXT, BUCKET_PREV} \<Longrightarrow> idx t1 w = idx t w"
    "dlist (idx t1 BUCKET_NEXT) (idx t1 BUCKET_PREV) (xs @ ys)"
    "\<And>i. i \<notin> set (xs @ e # ys) \<Longrightarrow> idx t1 BUCKET_NEXT i = ?n i \<and> idx t1 BUCKET_PREV i = ?p i"
    using PopFromFreeList_lay [OF d(6,1)] by blast
  note s1 = tabD [OF t1(2)]
  define tF where "tF = t1\<lparr>t_free := first_or (xs @ ys) INVALID\<rparr>"
  define t2 where "t2 = set_kv tF e h k v"
  define t3 where "t3 = upd t2 e BUCKET_PREV INVALID"
  define t' where "t' = upd t3 e BUCKET_NEXT INVALID"
  have sz: "slots_of tF = slots_of t" "sized tF" "slots_of t2 = slots_of t" "sized t2" "slots_of t3 = slots_of t" "sized t3"
    using d(1) s1 by (simp_all add: tF_def t2_def t3_def)
  have i': "idx t' = (idx t1)(BUCKET_PREV := (idx t1 BUCKET_PREV)(e := INVALID), BUCKET_NEXT := (idx t1 BUCKET_NEXT)(e := INVALID))"
    using e sz by (simp add: t'_def t3_def t2_def tF_def)
  have iO: "\<And>w. w \<notin> {BUCKET_NEXT, BUCKET_PREV} \<Longrightarrow> idx t' w = idx t w" using i' t1(6) by simp
  have run: "obind (PopFromFreeList t e (t_free t)) (\<lambda>(fh, t). obind (fill_entry (t\<lparr>t_free := fh\<rparr>) e h k v) (\<lambda>t.
      obind (SetEntryIndexValue t e BUCKET_PREV INVALID) (\<lambda>t.
      obind (SetEntryIndexValue t e BUCKET_NEXT INVALID) (\<lambda>t. Ok (e, t))))) = Ok (e, t')"
    using e sz by (simp add: t1(1) tF_def t2_def t3_def t'_def)
  have kv: "hsh t' = (hsh t)(e := h)" "ky t' = (ky t)(e := k)" "vl t' = (vl t)(e := v)"
    using e sz t1(3-5) s1 by (simp_all add: t'_def t3_def t2_def tF_def)
  have fr: "put_frame t t'"
  proof (rule put_frameI)
    have "tab tF t2" "tab t2 t3" "tab t3 t'" by (simp_all add: t2_def t3_def t'_def)
    then have "tab tF t'" by (blast intro: tab_trans)
    then show "tab (t\<lparr>t_free := first_or (xs @ ys) INVALID\<rparr>) t'"
      using tab_set_free [OF t1(2)] unfolding tF_def by (blast intro: tab_trans)
  qed
  have fil: "filled t t' e h k v" unfolding filled_def using fr kv iO by simp
  have tf: "t_free t' = first_or (xs @ ys) INVALID" by (simp add: t'_def t3_def t2_def tF_def)
  have "dlist (idx t' BUCKET_NEXT) (idx t' BUCKET_PREV) (xs @ ys)" using t1(7) fl(1) by (simp add: i')
  then have fy: "free_lay t' (xs @ ys)" using fl put_frameD(1) [OF fr] tf by (simp add: free_lay_def)
  have empty: "in_bucket t us ?b = {}" using d(8) [OF b] c by (simp add: chain_lay_def)
  have ch: "chain_lay t' (insert e us) ?b [e]"
    using m empty in_bucket_fill [OF fil eu, of ?b] iO by (simp add: chain_lay_def i')
  have "slot_lay t' (insert e us) (xs @ ys) (ch(?b := [e]))"
  proof (rule slot_lay_step [OF l b _ _ _ fy _ ch])
    show "sized t'" "slots_of t' = slots_of t" "t_size t' = t_size t" using put_frameD [OF fr] d(1) by simp_all
    show "perm_lay t'" using d(7) iO put_frameD(1) [OF fr] by (simp add: perm_lay_def)
    show "insert e us \<inter> set (xs @ ys) = {}" "insert e us \<union> set (xs @ ys) = {..<slots_of t}" using d(4,5) fl(1) by auto
    show "in_bucket t' (insert e us) b' = in_bucket t us b'" if "b' \<noteq> ?b" for b'
      using in_bucket_fill [OF fil eu] that by simp
    show "idx t' BUCKET_NEXT i = ?n i \<and> idx t' BUCKET_PREV i = ?p i" if "i \<in> in_bucket t us b'" for b' i
    proof -
      have "i \<in> us" using that by (simp add: in_bucket_def)
      then have "i \<notin> set (xs @ e # ys)" using d(4) by (metis disjoint_iff)
      then show ?thesis using t1(8) [of i] by (simp add: i')
    qed
    show "idx t' MAP_TO b' = idx t MAP_TO b'" for b' using iO by simp
    show "hsh t' i \<noteq> INVALID" if "i \<in> insert e us" for i using that kv(1) h d(9) by auto
    show "hsh t' i = INVALID" if "i \<in> set (xs @ ys)" for i using that kv(1) fl(1) d(10) by auto
  qed
  then show ?thesis using that run fil by blast
qed

text \<open>The slot of the bucket may be taken by another chain: then it is exchanged for the first free slot.\<close>

lemma start_chain_lay:
  assumes l: "slot_lay t us fl ch" and fl: "fl \<noteq> []" and h: "h \<noteq> INVALID" and c: "ch (h mod t_size t) = []"
  obtains e fl' t' where "start_chain t (idx t MAP_TO (h mod t_size t)) h k v = Ok (e, t')" "e \<in> set fl"
    "filled t t' e h k v" "slot_lay t' (insert e us) fl' (ch(h mod t_size t := [e]))"
proof -
  note d = slot_layD [OF l]
  let ?b = "h mod t_size t" and ?s = "idx t MAP_TO (h mod t_size t)"
  have b: "?b < t_size t" using perm_mod [OF l] .
  have s: "?s < slots_of t" "idx t MAPPED_FROM ?s = ?b" using d(2,7) b by (simp_all add: perm_lay_def)
  define body where "body = (\<lambda>(sl, t). obind (PopFromFreeList t sl (t_free t)) (\<lambda>(fh, t). obind (fill_entry (t\<lparr>t_free := fh\<rparr>) sl h k v) (\<lambda>t.
      obind (SetEntryIndexValue t sl BUCKET_PREV INVALID) (\<lambda>t.
      obind (SetEntryIndexValue t sl BUCKET_NEXT INVALID) (\<lambda>t. Ok (sl, t))))))"
  have "\<exists>sl t1. start_chain t ?s h k v = body (sl, t1) \<and> sl \<in> set fl \<and> slot_lay t1 us fl ch \<and> tab t t1 \<and>
      idx t1 MAP_TO ?b = sl \<and> hsh t1 = hsh t \<and> ky t1 = ky t \<and> vl t1 = vl t \<and> idx t1 ITER_NEXT = idx t ITER_NEXT \<and> idx t1 ITER_PREV = idx t ITER_PREV"
  proof (cases "hsh t ?s = INVALID")
    case True
    have "?s \<in> set fl" using True d(5,9) s(1) by blast
    moreover have "start_chain t ?s h k v = body (?s, t)" using True s(1) by (simp add: start_chain_def body_def hsh_def)
    ultimately show ?thesis using l by (intro exI [of _ ?s] exI [of _ t]) simp
  next
    case False
    let ?e = "hd fl"
    have f: "t_free t = ?e" using d(6) fl by (simp add: free_lay_def first_or_hd)
    have e: "?e \<in> set fl" "?e < slots_of t" using fl slot_lay_in(2) [OF l] d(2) by auto
    let ?b2 = "idx t MAPPED_FROM ?e"
    have b2: "?b2 < slots_of t" "idx t MAP_TO ?b2 = ?e" using d(7) e(2) by (simp_all add: perm_lay_def)
    have e2: "ch ?b2 = []"
    proof (rule ccontr)
      assume ne: "ch ?b2 \<noteq> []"
      have "chain_lay t us ?b2 (ch ?b2)" using d(2,8) b2(1) by simp
      then have "?e \<in> us" using ne b2(2) hd_in_set [OF ne] by (auto simp: chain_lay_def in_bucket_def)
      then show False using e(1) d(4) by blast
    qed
    obtain t1 where t1: "SwapEntryMaps t ?b ?b2 = Ok t1" "tab t t1" "hsh t1 = hsh t" "ky t1 = ky t" "vl t1 = vl t"
      "\<And>w. w \<notin> {MAP_TO, MAPPED_FROM} \<Longrightarrow> idx t1 w = idx t w" "perm_lay t1"
      "idx t1 MAP_TO = (idx t MAP_TO)(?b := idx t MAP_TO ?b2, ?b2 := ?s)"
      using SwapEntryMaps_lay [OF d(7,1) _ b2(1), of ?b] b d(2) by auto
    have "slot_lay t1 us fl ch"
    proof (rule slot_lay_remap [OF l t1(2,7,6,3)])
      show "idx t1 MAP_TO b' = idx t MAP_TO b'" if "ch b' \<noteq> []" for b' using that c e2 t1(8) by auto
    qed
    moreover have "start_chain t ?s h k v = body (?e, t1)"
      using False s e(2) f t1(1) tabD(7) [OF t1(2)] by (simp add: start_chain_def body_def hsh_def)
    moreover have "idx t1 MAP_TO ?b = ?e" using t1(8) b2(2) by auto
    ultimately show ?thesis using e(1) t1 by (intro exI [of _ ?e] exI [of _ t1]) simp
  qed
  then obtain sl t1 where t1: "start_chain t ?s h k v = body (sl, t1)" "sl \<in> set fl" "slot_lay t1 us fl ch" "tab t t1"
    "idx t1 MAP_TO ?b = sl" "hsh t1 = hsh t" "ky t1 = ky t" "vl t1 = vl t"
    "idx t1 ITER_NEXT = idx t ITER_NEXT" "idx t1 ITER_PREV = idx t ITER_PREV" by blast
  obtain xs ys where fls: "fl = xs @ sl # ys" using split_list [OF t1(2)] by blast
  have n1: "t_size t1 = t_size t" using tabD(3) [OF t1(4)] .
  obtain t' where t': "body (sl, t1) = Ok (sl, t')" "filled t1 t' sl h k v" "slot_lay t' (insert sl us) (xs @ ys) (ch(?b := [sl]))"
    using fill_first_lay [of t1 us xs sl ys ch h k v] t1(3,5) h c n1 unfolding fls body_def by auto
  have "filled t t' sl h k v"
  proof -
    obtain T where "t1 = t\<lparr>t_table := T\<rparr>" using t1(4) by (auto simp: tab_def)
    moreover obtain T' f where "t' = t1\<lparr>t_table := T', t_free := f\<rparr>" using t'(2) by (auto simp: filled_def put_frame_def)
    ultimately have "t' = t\<lparr>t_table := T', t_free := f\<rparr>" by simp
    then have "put_frame t t'" using t'(2) tabD(1) [OF t1(4)] by (auto simp: filled_def put_frame_def)
    then show ?thesis using t'(2) t1 by (simp add: filled_def)
  qed
  with t1(1,2) t' show ?thesis using that by metis
qed

lemma PutAuxAux_lay:
  assumes l: "slot_lay t us fl ch" and fl: "fl \<noteq> []" and h: "h \<noteq> INVALID"
  obtains e fl' ch' t' where "PutAuxAux t h k v = Ok (e, t')" "e \<in> set fl" "filled t t' e h k v" "slot_lay t' (insert e us) fl' ch'"
proof (cases "ch (h mod t_size t)")
  case Nil
  have "PutAuxAux t h k v = start_chain t (idx t MAP_TO (h mod t_size t)) h k v"
    by (simp add: PutAuxAux_def bucket_start_lay [OF l] IsBucketHead_lay [OF l perm_mod [OF l]] Nil)
  with start_chain_lay [OF l fl h Nil] that show ?thesis by metis
next
  case (Cons c0 cs)
  obtain e ys where e: "fl = e # ys" using fl by (cases fl) auto
  have "idx t MAP_TO (h mod t_size t) = c0"
    using slot_layD(8) [OF l perm_mod [OF l], of h] Cons by (simp add: chain_lay_def)
  then have "PutAuxAux t h k v = add_to_chain t c0 h k v"
    using IsBucketHead_lay [OF l perm_mod [OF l], of h] by (simp add: PutAuxAux_def bucket_start_lay [OF l] Cons)
  with add_to_chain_lay [OF l [unfolded e] h Cons] that e show ?thesis by (metis list.set_intros(1))
qed

end
