(* ===== verification/Hash_Order.thy ===== *)
theory Hash_Order
  imports Hash_Slots
begin

section \<open>Hashtable: the iteration list and the removal of entries\<close>

text \<open>
  The lemmas on \<^verbatim>\<open>InsertIterationEntry\<close>, \<^verbatim>\<open>RemoveIterationEntry\<close> (with what it does to the iterators
  that point to the entry) and \<^verbatim>\<open>RemoveEntry\<close>.
\<close>

definition iter_frame :: "('k, 'v) ht \<Rightarrow> ('k, 'v) ht \<Rightarrow> bool" where
  "iter_frame t t' \<longleftrightarrow> slots_of t' = slots_of t \<and> t_items t' = t_items t \<and> t_size t' = t_size t \<and> t_type t' = t_type t
     \<and> t_free t' = t_free t \<and> t_iters t' = t_iters t \<and> t_autosort t' = t_autosort t \<and> t_cookie t' = t_cookie t
     \<and> t_icount t' = t_icount t \<and> t_ithread t' = t_ithread t"

lemma iter_frameD:
  assumes "iter_frame t t'"
  shows "slots_of t' = slots_of t" "t_items t' = t_items t" "t_size t' = t_size t" "t_type t' = t_type t"
    "t_free t' = t_free t" "t_iters t' = t_iters t" "t_autosort t' = t_autosort t" "t_cookie t' = t_cookie t"
    "t_icount t' = t_icount t" "t_ithread t' = t_ithread t" "sized t' = sized t" "ok_ix t' = ok_ix t"
  using assms by (auto simp: iter_frame_def sized_def ok_ix_def)

lemma iter_frame_trans [trans]: "iter_frame t t' \<Longrightarrow> iter_frame t' t'' \<Longrightarrow> iter_frame t t''"
  by (simp add: iter_frame_def)

lemma iter_frame_refl [simp]: "iter_frame t t"
  by (simp add: iter_frame_def)

lemma iter_frame_tab: "tab t t' \<Longrightarrow> iter_frame t t'"
  by (auto simp: tab_def iter_frame_def)

lemma iter_frame_upd [simp]: "iter_frame t (upd t e w v)"
  by (simp add: iter_frame_tab)

lemma iter_frame_set [simp]: "iter_frame t (t\<lparr>t_head := a\<rparr>)" "iter_frame t (t\<lparr>t_tail := a\<rparr>)" "iter_frame t (t\<lparr>t_objs := ob\<rparr>)"
  by (simp_all add: iter_frame_def)

text \<open>The views apart from the iteration links.\<close>

definition same_slots :: "('k, 'v) ht \<Rightarrow> ('k, 'v) ht \<Rightarrow> bool" where
  "same_slots t t' \<longleftrightarrow> iter_frame t t' \<and> hsh t' = hsh t \<and> ky t' = ky t \<and> vl t' = vl t
     \<and> (\<forall>w. w \<notin> {ITER_NEXT, ITER_PREV} \<longrightarrow> idx t' w = idx t w)"

lemma same_slots_lay: "slot_lay t us fl ch \<Longrightarrow> same_slots t t' \<Longrightarrow> slot_lay t' us fl ch"
  by (rule slot_lay_cong) (auto simp: same_slots_def dest: iter_frameD)

lemma same_slots_trans [trans]: "same_slots t t' \<Longrightarrow> same_slots t' t'' \<Longrightarrow> same_slots t t''"
  by (auto simp: same_slots_def intro: iter_frame_trans)

lemma same_slots_keyed: "same_slots t t' \<Longrightarrow> keyed C t' us = keyed C t us"
  by (simp add: same_slots_def keyed_def)

lemma iter_layD:
  assumes "iter_lay t it"
  shows "dlist (idx t ITER_NEXT) (idx t ITER_PREV) it" "distinct it" "set it \<subseteq> {..<slots_of t}"
    "t_head t = first_or it INVALID" "t_tail t = last_or INVALID it"
  using assms by (simp_all add: iter_lay_def)

definition ptr_last :: "nat list \<Rightarrow> nat option" where
  "ptr_last xs = (if xs = [] then None else Some (last xs))"

lemma iter_in:
  assumes "iter_lay t it" "sized t" "i \<in> set it"
  shows "i < slots_of t" "i \<noteq> INVALID"
  using iter_layD(3) [OF assms(1)] assms(3) less_not_INVALID [OF assms(2)] by auto

lemma ptr_last_iter:
  assumes "iter_lay t it" "sized t"
  shows "IndexToEntryChecked (t_tail t) = ptr_last it"
  using iter_in(2) [OF assms last_in_set] iter_layD(5) [OF assms(1)] by (auto simp: ptr_last_def last_or_last)

definition ptr_hd :: "nat list \<Rightarrow> nat option" where
  "ptr_hd xs = (if xs = [] then None else Some (hd xs))"

lemma ptr_hd_iter:
  assumes "iter_lay t it" "sized t"
  shows "IndexToEntryChecked (t_head t) = ptr_hd it"
  using iter_in(2) [OF assms hd_in_set] iter_layD(4) [OF assms(1)] by (auto simp: ptr_hd_def first_or_hd)

lemma InsertIterationEntry_lay:
  assumes l: "iter_lay t (xs @ ys)" and s: "sized t" and e: "e < slots_of t" "e \<notin> set (xs @ ys)"
  obtains t' where "InsertIterationEntry t e (ptr_last xs) = Ok t'" "same_slots t t'" "iter_lay t' (xs @ e # ys)"
    "t_objs t' = t_objs t"
proof -
  note d = iter_layD [OF l]
  let ?n = "idx t ITER_NEXT" and ?p = "idx t ITER_PREV"
  have eI: "e \<noteq> INVALID" using less_not_INVALID [OF s e(1)] .
  have x: "last_or INVALID xs = last xs \<and> last xs \<noteq> INVALID \<and> last xs < slots_of t \<and> last xs \<noteq> e" if "xs \<noteq> []"
  proof -
    have "last xs \<in> set xs" using that by simp
    then have "last xs \<in> set (xs @ ys)" by simp
    with iter_in [OF l s this] e(2) show ?thesis using last_or_last [OF that] by metis
  qed
  have y: "first_or ys INVALID = hd ys \<and> hd ys \<noteq> INVALID \<and> hd ys < slots_of t \<and> hd ys \<noteq> e" if "ys \<noteq> []"
  proof -
    have "hd ys \<in> set ys" using that by simp
    then have "hd ys \<in> set (xs @ ys)" by simp
    with iter_in [OF l s this] e(2) show ?thesis using first_or_hd [OF that] by metis
  qed
  define pe where "pe = last_or INVALID xs"
  define ne where "ne = first_or ys INVALID"
  have okp: "ok_ix t pe" "ok_ix t ne" using x y by (cases "xs = []"; cases "ys = []"; simp add: pe_def ne_def)+
  define t1 where "t1 = upd t e ITER_PREV pe"
  define t2 where "t2 = upd t1 e ITER_NEXT ne"
  define t3 where "t3 = (if xs = [] then t2\<lparr>t_head := e\<rparr> else upd t2 (last xs) ITER_NEXT e)"
  define t' where "t' = (if ys = [] then t3\<lparr>t_tail := e\<rparr> else upd t3 (hd ys) ITER_PREV e)"
  have sz: "slots_of t1 = slots_of t" "sized t1" "ok_ix t1 = ok_ix t" "slots_of t2 = slots_of t" "sized t2" "ok_ix t2 = ok_ix t"
    "slots_of t3 = slots_of t" "sized t3" "ok_ix t3 = ok_ix t" "slots_of t' = slots_of t"
    using s by (simp_all add: t1_def t2_def t3_def t'_def)
  have i2: "idx t2 = (idx t)(ITER_PREV := ?p(e := pe), ITER_NEXT := ?n(e := ne))" using e s okp sz by (simp add: t2_def t1_def)
  have i3: "idx t3 = (if xs = [] then idx t2 else (idx t2)(ITER_NEXT := ?n(e := ne, last xs := e)))"
    using x sz e i2 by (simp add: t3_def)
  have i': "idx t' = (if ys = [] then idx t3 else (idx t3)(ITER_PREV := ?p(e := pe, hd ys := e)))"
    using y sz e i3 i2 by (simp add: t'_def)
  have iN: "idx t' ITER_NEXT = (if xs = [] then ?n(e := ne) else ?n(e := ne, last xs := e))"
    and iP: "idx t' ITER_PREV = (if ys = [] then ?p(e := pe) else ?p(e := pe, hd ys := e))"
    and iO: "\<And>w. w \<notin> {ITER_NEXT, ITER_PREV} \<Longrightarrow> idx t' w = idx t w"
    using i' i3 i2 by auto
  have v1: "(case ptr_last xs of Some b \<Rightarrow> GetEntryIndexValue t1 b ITER_NEXT | None \<Rightarrow> Ok (t_head t1)) = Ok ne"
  proof (cases "xs = []")
    case True
    then show ?thesis using d(4) by (simp add: ptr_last_def ne_def t1_def)
  next
    case False
    then have "?n (last xs) = ne" using dlseg_next_last [OF d(1)] by (simp add: ne_def)
    then show ?thesis using False x e s okp by (simp add: ptr_last_def sz t1_def)
  qed
  have run: "InsertIterationEntry t e (ptr_last xs) = Ok t'"
  proof -
    have pp: "EntryToIndexChecked (ptr_last xs) = pe" using x by (auto simp: ptr_last_def pe_def)
    have p2: "IndexToEntryChecked (idx t2 ITER_PREV e) = ptr_last xs" using x by (auto simp: i2 ptr_last_def pe_def)
    have n3: "IndexToEntryChecked (idx t3 ITER_NEXT e) = ptr_hd ys" using x y by (auto simp: i3 i2 ptr_hd_def ne_def)
    have st3: "set_link t2 (ptr_last xs) ITER_NEXT e (\<lambda>t. t\<lparr>t_head := e\<rparr>) = Ok t3"
      using x sz by (simp add: set_link_def ptr_last_def t3_def)
    have st': "set_link t3 (ptr_hd ys) ITER_PREV e (\<lambda>t. t\<lparr>t_tail := e\<rparr>) = Ok t'"
      using y sz by (simp add: set_link_def ptr_hd_def t'_def)
    show ?thesis
      using e sz by (simp add: InsertIterationEntry_def pp t1_def [symmetric] v1 t2_def [symmetric] p2 st3 n3 st')
  qed
  have kv: "hsh t' = hsh t" "ky t' = ky t" "vl t' = vl t"
    using e x y sz by (simp_all add: t'_def t3_def t2_def t1_def)
  have "iter_frame t t1" "iter_frame t1 t2" "iter_frame t2 t3" "iter_frame t3 t'" by (simp_all add: t1_def t2_def t3_def t'_def)
  then have fr: "iter_frame t t'" by (blast intro: iter_frame_trans)
  have "dlist (idx t' ITER_NEXT) (idx t' ITER_PREV) (xs @ e # ys)"
    unfolding iN iP pe_def ne_def by (rule dlseg_insert [OF d(1,2) e(2) refl refl])
  moreover have "t_head t' = first_or (xs @ e # ys) INVALID" "t_tail t' = last_or INVALID (xs @ e # ys)"
    using d(4,5) by (cases xs; cases ys; simp add: t'_def t3_def t2_def t1_def)+
  ultimately have "iter_lay t' (xs @ e # ys)" using d(2,3) e sz by (auto simp: iter_lay_def)
  moreover have "same_slots t t'" using fr kv iO by (simp add: same_slots_def)
  moreover have "t_objs t' = t_objs t" by (simp add: t'_def t3_def t2_def t1_def)
  ultimately show ?thesis using that run by blast
qed

subsection \<open>Taking an entry out of the list\<close>

text \<open>An iterator whose cookie is the removed entry keeps a copy of it and moves on.\<close>

definition stepped :: "('k, 'v) ht \<Rightarrow> nat \<Rightarrow> ('k, 'v) hiter \<Rightarrow> ('k, 'v) hiter" where
  "stepped t e it =
     (if i_cookie it = EAt e
      then UpdateKeyAndValuePointers (it\<lparr>
             i_scratch := (if i_scratch it = None then Some (ky t e, vl t e) else i_scratch it),
             i_cookie := to_eptr (IndexToEntryChecked (idx t (if i_backwards it then ITER_PREV else ITER_NEXT) e))\<rparr>)
      else it)"

lemma step_off_ok: "e < slots_of t \<Longrightarrow> step_off t e it = Ok (stepped t e it)"
  by (auto simp: step_off_def stepped_def GetSubsequentEntry_def ky_def vl_def Let_def)

lemma stepped_same: "same_array t t' \<Longrightarrow> stepped t' e it = stepped t e it"
  by (simp add: stepped_def same_array_views)

lemma step_off_all_ok:
  assumes "e < slots_of t"
  obtains ob where "step_off_all t e ns = Ok (t\<lparr>t_objs := ob\<rparr>)"
    "distinct ns \<Longrightarrow> ob = (\<lambda>n. if n \<in> set ns then stepped t e (t_objs t n) else t_objs t n)"
proof -
  have "\<exists>ob. step_off_all t e ns = Ok (t\<lparr>t_objs := ob\<rparr>) \<and>
      (distinct ns \<longrightarrow> ob = (\<lambda>n. if n \<in> set ns then stepped t e (t_objs t n) else t_objs t n))"
    using assms
  proof (induction ns arbitrary: t)
    case Nil
    then show ?case by (auto intro!: exI [of _ "t_objs t"])
  next
    case (Cons n ns)
    let ?t = "t\<lparr>t_objs := (t_objs t)(n := stepped t e (t_objs t n))\<rparr>"
    obtain ob where ob: "step_off_all ?t e ns = Ok (?t\<lparr>t_objs := ob\<rparr>)"
      "distinct ns \<longrightarrow> ob = (\<lambda>m. if m \<in> set ns then stepped ?t e (t_objs ?t m) else t_objs ?t m)"
      using Cons.IH [of ?t] Cons.prems by auto
    have "stepped ?t e = stepped t e" using stepped_same [of t ?t e] by (auto simp: same_array_def)
    with ob Cons.prems show ?case by (auto simp: step_off_ok intro!: exI [of _ ob])
  qed
  then show ?thesis using that by blast
qed

lemma RemoveIterationEntry_lay:
  assumes l: "iter_lay t (xs @ e # ys)" and s: "sized t"
  obtains t' where "RemoveIterationEntry t e = Ok t'" "same_slots t t'" "iter_lay t' (xs @ ys)"
    "idx t' ITER_NEXT e = INVALID" "idx t' ITER_PREV e = INVALID"
    "distinct (t_iters t) \<Longrightarrow> t_objs t' = (\<lambda>n. if n \<in> set (t_iters t) then stepped t e (t_objs t n) else t_objs t n)"
proof -
  note d = iter_layD [OF l]
  let ?n = "idx t ITER_NEXT" and ?p = "idx t ITER_PREV"
  have e: "e < slots_of t" "e \<noteq> INVALID" using iter_in [OF l s, of e] by simp_all
  have ne: "?n e = first_or ys INVALID" "?p e = last_or INVALID xs" using dlseg_next [OF d(1)] dlseg_prev [OF d(1)] by simp_all
  have x: "last_or INVALID xs = last xs \<and> last xs \<noteq> INVALID \<and> last xs < slots_of t \<and> last xs \<noteq> e" if "xs \<noteq> []"
  proof -
    have "last xs \<in> set xs" using that by simp
    with iter_in [OF l s, of "last xs"] d(2) show ?thesis using last_or_last [OF that] by auto
  qed
  have y: "first_or ys INVALID = hd ys \<and> hd ys \<noteq> INVALID \<and> hd ys < slots_of t \<and> hd ys \<noteq> e" if "ys \<noteq> []"
  proof -
    have "hd ys \<in> set ys" using that by simp
    with iter_in [OF l s, of "hd ys"] d(2) show ?thesis using first_or_hd [OF that] by auto
  qed
  have pn: "IndexToEntryChecked (?p e) = ptr_last xs" "IndexToEntryChecked (?n e) = ptr_hd ys"
    using x y ne by (auto simp: ptr_last_def ptr_hd_def)
  have pe: "EntryToIndexChecked (ptr_hd ys) = ?n e" "EntryToIndexChecked (ptr_last xs) = ?p e"
    using x y ne by (auto simp: ptr_last_def ptr_hd_def)
  have ok: "ok_ix t (?n e)" "ok_ix t (?p e)" using x y ne by (cases "xs = []"; cases "ys = []"; simp)+
  obtain ob where ob: "step_off_all t e (t_iters t) = Ok (t\<lparr>t_objs := ob\<rparr>)"
    "distinct (t_iters t) \<Longrightarrow> ob = (\<lambda>n. if n \<in> set (t_iters t) then stepped t e (t_objs t n) else t_objs t n)"
    using step_off_all_ok [OF e(1)] by blast
  define t0 where "t0 = t\<lparr>t_objs := ob\<rparr>"
  define t1 where "t1 = (if xs = [] then t0\<lparr>t_head := ?n e\<rparr> else t0)"
  define t2 where "t2 = (if ys = [] then t1\<lparr>t_tail := ?p e\<rparr> else t1)"
  define t3 where "t3 = (if xs = [] then t2 else upd t2 (last xs) ITER_NEXT (?n e))"
  define t4 where "t4 = (if ys = [] then t3 else upd t3 (hd ys) ITER_PREV (?p e))"
  define t' where "t' = upd (upd t4 e ITER_PREV INVALID) e ITER_NEXT INVALID"
  have sz: "slots_of t0 = slots_of t" "sized t0" "ok_ix t0 = ok_ix t" "slots_of t1 = slots_of t" "sized t1" "ok_ix t1 = ok_ix t"
    "slots_of t2 = slots_of t" "sized t2" "ok_ix t2 = ok_ix t" "slots_of t3 = slots_of t" "sized t3" "ok_ix t3 = ok_ix t"
    "slots_of t4 = slots_of t" "sized t4" "ok_ix t4 = ok_ix t" "slots_of t' = slots_of t"
    using s by (simp_all add: t0_def t1_def t2_def t3_def t4_def t'_def)
  have i2: "idx t2 = idx t" "idx t1 = idx t" "idx t0 = idx t" by (simp_all add: t2_def t1_def t0_def)
  have i3: "idx t3 = (if xs = [] then idx t else (idx t)(ITER_NEXT := ?n(last xs := ?n e)))"
    using x sz ok i2 by (simp add: t3_def)
  have i4: "idx t4 = (if ys = [] then idx t3 else (idx t3)(ITER_PREV := ?p(hd ys := ?p e)))"
    using y sz ok i3 by (simp add: t4_def)
  have i': "idx t' = (idx t4)(ITER_PREV := (idx t4 ITER_PREV)(e := INVALID), ITER_NEXT := (idx t4 ITER_NEXT)(e := INVALID))"
    using e sz by (simp add: t'_def)
  have iN: "idx t' ITER_NEXT = (if xs = [] then ?n else ?n(last xs := ?n e))(e := INVALID)"
    and iP: "idx t' ITER_PREV = (if ys = [] then ?p else ?p(hd ys := ?p e))(e := INVALID)"
    and iO: "\<And>w. w \<notin> {ITER_NEXT, ITER_PREV} \<Longrightarrow> idx t' w = idx t w"
    using i' i4 i3 by auto
  have hd_e: "IndexToEntryChecked (t_head t) = Some e \<longleftrightarrow> xs = []" "IndexToEntryChecked (t_tail t) = Some e \<longleftrightarrow> ys = []"
  proof -
    show "IndexToEntryChecked (t_head t) = Some e \<longleftrightarrow> xs = []"
      using ptr_hd_iter [OF l s] d(2) by (cases xs) (auto simp: ptr_hd_def)
    show "IndexToEntryChecked (t_tail t) = Some e \<longleftrightarrow> ys = []"
      using ptr_last_iter [OF l s] d(2) by (cases ys rule: rev_cases) (auto simp: ptr_last_def)
  qed
  have run: "RemoveIterationEntry t e = Ok t'"
  proof -
    have st1: "(if IndexToEntryChecked (t_head t0) = Some e then t0\<lparr>t_head := EntryToIndexChecked (ptr_hd ys)\<rparr> else t0) = t1"
      using hd_e(1) pe(1) unfolding t1_def t0_def by simp
    have st2: "(if IndexToEntryChecked (t_tail t1) = Some e then t1\<lparr>t_tail := EntryToIndexChecked (ptr_last xs)\<rparr> else t1) = t2"
    proof -
      have "t_tail t1 = t_tail t" by (simp add: t1_def t0_def)
      then show ?thesis using hd_e(2) pe(2) unfolding t2_def by presburger
    qed
    have st3: "set_link t2 (ptr_last xs) ITER_NEXT (EntryToIndexChecked (ptr_hd ys)) id = Ok t3"
      using x sz pe by (simp add: set_link_def ptr_last_def t3_def)
    have st4: "set_link t3 (ptr_hd ys) ITER_PREV (EntryToIndexChecked (ptr_last xs)) id = Ok t4"
      using y sz pe by (simp add: set_link_def ptr_hd_def t4_def)
    have get: "GetEntryChecked t0 e ITER_PREV = Ok (ptr_last xs)" "GetEntryChecked t0 e ITER_NEXT = Ok (ptr_hd ys)"
      using e sz i2 pn by simp_all
    show ?thesis
      unfolding RemoveIterationEntry_def ob(1) t0_def [symmetric] obind_simps get Let_def st1 st2 st3 st4
      using e sz by (simp add: t'_def)
  qed
  have kv: "hsh t' = hsh t" "ky t' = ky t" "vl t' = vl t"
    using e x y sz by (simp_all add: t'_def t4_def t3_def t2_def t1_def t0_def)
  have "iter_frame t t0" "iter_frame t0 t1" "iter_frame t1 t2" "iter_frame t2 t3" "iter_frame t3 t4"
    by (simp_all add: t0_def t1_def t2_def t3_def t4_def)
  moreover have "iter_frame t4 t'" unfolding t'_def by (rule iter_frame_trans [OF iter_frame_upd iter_frame_upd])
  ultimately have fr: "iter_frame t t'" by (blast intro: iter_frame_trans)
  have "dlist (idx t' ITER_NEXT) (idx t' ITER_PREV) (xs @ ys)"
    unfolding iN iP using dlseg_remove [OF d(1,2)] d(2) by simp
  moreover have "t_head t' = first_or (xs @ ys) INVALID" "t_tail t' = last_or INVALID (xs @ ys)"
    using d(4,5) ne by (cases xs; cases ys; simp add: t'_def t4_def t3_def t2_def t1_def t0_def)+
  ultimately have "iter_lay t' (xs @ ys)" using d(2,3) sz by (auto simp: iter_lay_def)
  moreover have "same_slots t t'" using fr kv iO by (simp add: same_slots_def)
  moreover have "t_objs t' = ob" by (simp add: t'_def t4_def t3_def t2_def t1_def t0_def)
  moreover have "idx t' ITER_NEXT e = INVALID" "idx t' ITER_PREV e = INVALID" by (simp_all add: iN iP)
  ultimately show ?thesis using that [OF run] ob(2) by simp
qed

subsection \<open>Taking an entry out of its chain, and giving its slot back\<close>

definition unchain :: "('k, 'v) ht \<Rightarrow> nat \<Rightarrow> nat option \<Rightarrow> nat option \<Rightarrow> ('k, 'v) ht outcome" where
  "unchain t e prev next =
     (case prev of
        Some p \<Rightarrow> obind (SetEntryChecked t p BUCKET_NEXT next) (\<lambda>t. set_link t next BUCKET_PREV p id)
      | None \<Rightarrow> (case next of
          Some n \<Rightarrow> obind (SetEntryIndexValue t n BUCKET_PREV INVALID) (\<lambda>t.
                    obind (GetEntryIndexValue t e MAPPED_FROM) (\<lambda>f1.
                    obind (GetEntryIndexValue t n MAPPED_FROM) (\<lambda>f2. SwapEntryMaps t f1 f2)))
        | None \<Rightarrow> Ok t))"

lemma unchain_lay:
  assumes l: "slot_lay t us fl ch" and b: "b < t_size t" and c: "ch b = cs @ e # ds"
  obtains t' where "unchain t e (ptr_last cs) (ptr_hd ds) = Ok t'" "tab t t'" "hsh t' = hsh t" "ky t' = ky t" "vl t' = vl t"
    "idx t' ITER_NEXT = idx t ITER_NEXT" "idx t' ITER_PREV = idx t ITER_PREV" "perm_lay t'"
    "dlist (idx t' BUCKET_NEXT) (idx t' BUCKET_PREV) (cs @ ds)" "cs @ ds \<noteq> [] \<Longrightarrow> idx t' MAP_TO b = hd (cs @ ds)"
    "\<And>b'. b' \<noteq> b \<Longrightarrow> b' < t_size t \<Longrightarrow> ch b' \<noteq> [] \<Longrightarrow> idx t' MAP_TO b' = idx t MAP_TO b'"
    "\<And>i. i \<notin> set (ch b) \<Longrightarrow> idx t' BUCKET_NEXT i = idx t BUCKET_NEXT i \<and> idx t' BUCKET_PREV i = idx t BUCKET_PREV i"
proof -
  note d = slot_layD [OF l]
  let ?n = "idx t BUCKET_NEXT" and ?p = "idx t BUCKET_PREV"
  have k: "dlist ?n ?p (cs @ e # ds)" "distinct (cs @ e # ds)" "set (cs @ e # ds) = in_bucket t us b" "idx t MAP_TO b = hd (cs @ e # ds)"
    using d(8) [OF b] c by (simp_all add: chain_lay_def)
  have lt: "i < slots_of t \<and> i \<noteq> INVALID" if "i \<in> set (cs @ e # ds)" for i
    using that chain_length(2) [OF l b] less_not_INVALID [OF d(1)] unfolding c by blast
  have ne: "?n e = first_or ds INVALID" "?p e = last_or INVALID cs" using dlseg_next [OF k(1)] dlseg_prev [OF k(1)] by simp_all
  have e: "e < slots_of t" "e \<noteq> INVALID" using lt by simp_all
  have y: "first_or ds INVALID = hd ds \<and> hd ds \<noteq> INVALID \<and> hd ds < slots_of t \<and> hd ds \<noteq> e" if "ds \<noteq> []"
    using that lt [of "hd ds"] k(2) hd_in_set [OF that] first_or_hd [OF that] by auto
  have x: "last_or INVALID cs = last cs \<and> last cs \<noteq> INVALID \<and> last cs < slots_of t \<and> last cs \<noteq> e" if "cs \<noteq> []"
    using that lt [of "last cs"] k(2) last_in_set [OF that] last_or_last [OF that] by auto
  have rem: "dlist (if cs = [] then ?n else ?n(last cs := ?n e)) (if ds = [] then ?p else ?p(hd ds := ?p e)) (cs @ ds)"
    by (rule dlseg_remove [OF k(1,2)])
  show ?thesis
  proof (cases "cs = []")
    case False
    define t1 where "t1 = upd t (last cs) BUCKET_NEXT (?n e)"
    define t' where "t' = (if ds = [] then t1 else upd t1 (hd ds) BUCKET_PREV (last cs))"
    have ok: "ok_ix t (?n e)" using y ne by (cases "ds = []") auto
    have sz: "slots_of t1 = slots_of t" "sized t1" "ok_ix t1 = ok_ix t" using d(1) by (simp_all add: t1_def)
    have i1: "idx t1 = (idx t)(BUCKET_NEXT := ?n(last cs := ?n e))" using x False d(1) ok by (simp add: t1_def)
    have i': "idx t' = (if ds = [] then idx t1 else (idx t1)(BUCKET_PREV := ?p(hd ds := last cs)))"
      using x y False sz i1 by (simp add: t'_def)
    have pe: "?p e = last cs" "EntryToIndexChecked (ptr_hd ds) = ?n e" using x y False ne by (auto simp: ptr_hd_def)
    have run: "unchain t e (ptr_last cs) (ptr_hd ds) = Ok t'"
      using False x y sz pe by (simp add: unchain_def ptr_last_def t1_def [symmetric])
        (auto simp: set_link_def ptr_hd_def t'_def sz)
    have tb: "tab t t'" by (rule tab_trans [of _ t1]) (simp_all add: t1_def t'_def)
    have kv: "hsh t' = hsh t" "ky t' = ky t" "vl t' = vl t" using x y False sz by (simp_all add: t'_def t1_def)
    have io: "w \<notin> {BUCKET_NEXT, BUCKET_PREV} \<Longrightarrow> idx t' w = idx t w" for w using i' i1 by auto
    have iN: "idx t' BUCKET_NEXT = ?n(last cs := ?n e)" and iP: "idx t' BUCKET_PREV = (if ds = [] then ?p else ?p(hd ds := ?p e))"
      using i' i1 pe by auto
    show ?thesis
    proof (rule that [OF run tb kv])
      show "perm_lay t'" using d(7) io tabD(1) [OF tb] by (simp add: perm_lay_def)
      show "dlist (idx t' BUCKET_NEXT) (idx t' BUCKET_PREV) (cs @ ds)" using rem False unfolding iN iP by simp
      show "idx t' MAP_TO b = hd (cs @ ds)" using k(4) io False by simp
      show "idx t' BUCKET_NEXT i = ?n i \<and> idx t' BUCKET_PREV i = ?p i" if "i \<notin> set (ch b)" for i
      proof -
        have "i \<noteq> last cs" "ds \<noteq> [] \<longrightarrow> i \<noteq> hd ds" using that False unfolding c by auto
        then show ?thesis unfolding iN iP by simp
      qed
    qed (simp_all add: io)
  next
    case cs: True
    have m: "idx t MAP_TO b = e" "idx t MAPPED_FROM e = b" using k(4) cs d(2,7) b by (auto simp: perm_lay_def)
    show ?thesis
    proof (cases "ds = []")
      case True
      have "unchain t e (ptr_last cs) (ptr_hd ds) = Ok t" using cs True by (simp add: unchain_def ptr_last_def ptr_hd_def)
      then show ?thesis using that [of t] cs True d(7) by simp
    next
      case ds: False
      define t1 where "t1 = upd t (hd ds) BUCKET_PREV INVALID"
      have hd: "hd ds < slots_of t" "hd ds \<noteq> e" using y ds by simp_all
      have sz: "slots_of t1 = slots_of t" "sized t1" "t_size t1 = t_size t" using d(1) by (simp_all add: t1_def)
      have i1: "idx t1 = (idx t)(BUCKET_PREV := ?p(hd ds := INVALID))" using hd d(1) by (simp add: t1_def)
      have p1: "perm_lay t1" using d(7) by (simp add: perm_lay_def i1 sz)
      let ?b2 = "idx t MAPPED_FROM (hd ds)"
      have b2: "?b2 < slots_of t" "idx t MAP_TO ?b2 = hd ds" using d(7) hd by (simp_all add: perm_lay_def)
      have bb: "?b2 \<noteq> b" using b2(2) m(1) hd(2) by auto
      have e2: "ch ?b2 = []"
      proof (rule ccontr)
        assume "ch ?b2 \<noteq> []"
        then have "hd ds \<in> in_bucket t us ?b2" using d(2,8) b2 hd_in_set [of "ch ?b2"] by (auto simp: chain_lay_def)
        moreover have "hd ds \<in> set (cs @ e # ds)" using ds by simp
        then have "hd ds \<in> in_bucket t us b" unfolding k(3) .
        ultimately show False using bb by (simp add: in_bucket_def)
      qed
      obtain t' where t': "SwapEntryMaps t1 b ?b2 = Ok t'" "tab t1 t'" "hsh t' = hsh t1" "ky t' = ky t1" "vl t' = vl t1"
        "\<And>w. w \<notin> {MAP_TO, MAPPED_FROM} \<Longrightarrow> idx t' w = idx t1 w" "perm_lay t'"
        "idx t' MAP_TO = (idx t1 MAP_TO)(b := idx t1 MAP_TO ?b2, ?b2 := idx t1 MAP_TO b)"
        using SwapEntryMaps_lay [OF p1 sz(2), of b ?b2] b b2(1) sz d(2) by auto
      have run: "unchain t e (ptr_last cs) (ptr_hd ds) = Ok t'"
        using cs ds hd e sz i1 m t'(1) by (simp add: unchain_def ptr_last_def ptr_hd_def t1_def [symmetric])
      have tb: "tab t t'" by (rule tab_trans [OF _ t'(2)]) (simp add: t1_def)
      have kv: "hsh t' = hsh t" "ky t' = ky t" "vl t' = vl t" using hd t'(3-5) by (simp_all add: t1_def)
      have iN: "idx t' BUCKET_NEXT = ?n" and iP: "idx t' BUCKET_PREV = ?p(hd ds := INVALID)" using t'(6) i1 by simp_all
      show ?thesis
      proof (rule that [OF run tb kv])
        show "idx t' ITER_NEXT = idx t ITER_NEXT" "idx t' ITER_PREV = idx t ITER_PREV" using t'(6) i1 by simp_all
        show "perm_lay t'" by fact
        show "dlist (idx t' BUCKET_NEXT) (idx t' BUCKET_PREV) (cs @ ds)" using rem cs ds ne(2) unfolding iN iP by simp
        show "idx t' MAP_TO b = hd (cs @ ds)" using t'(8) i1 b2(2) bb cs by simp
        show "idx t' MAP_TO b' = idx t MAP_TO b'" if "b' \<noteq> b" "ch b' \<noteq> []" for b'
          using that e2 t'(8) i1 by auto
        show "idx t' BUCKET_NEXT i = ?n i \<and> idx t' BUCKET_PREV i = ?p i" if "i \<notin> set (ch b)" for i
          using that ds unfolding iN iP c by auto
      qed
    qed
  qed
qed

lemma PushToFreeList_lay:
  assumes f: "free_lay t fl" and s: "sized t" and e: "e < slots_of t" "e \<notin> set fl"
  obtains t' where "PushToFreeList C t e = Ok t'" "put_frame t t'" "free_lay t' (e # fl)"
    "hsh t' = (hsh t)(e := INVALID)" "ky t' = (ky t)(e := c_dkey C)" "vl t' = (vl t)(e := c_dval C)"
    "idx t' ITER_NEXT = (idx t ITER_NEXT)(e := INVALID)" "idx t' ITER_PREV = (idx t ITER_PREV)(e := INVALID)"
    "idx t' MAP_TO = idx t MAP_TO" "idx t' MAPPED_FROM = idx t MAPPED_FROM"
    "\<And>i. i \<notin> set (e # fl) \<Longrightarrow> idx t' BUCKET_NEXT i = idx t BUCKET_NEXT i \<and> idx t' BUCKET_PREV i = idx t BUCKET_PREV i"
proof -
  let ?n = "idx t BUCKET_NEXT" and ?p = "idx t BUCKET_PREV"
  have d: "dlist ?n ?p fl" "distinct fl" "set fl \<subseteq> {..<slots_of t}" "t_free t = first_or fl INVALID"
    using f by (simp_all add: free_lay_def)
  have y: "hd fl \<noteq> INVALID \<and> hd fl < slots_of t \<and> hd fl \<noteq> e" if "fl \<noteq> []"
  proof -
    have "hd fl \<in> set fl" using that by simp
    then show ?thesis using d(3) e(2) less_not_INVALID [OF s, of "hd fl"] by (metis lessThan_iff subsetD)
  qed
  have fr: "ok_ix t (t_free t)" "t_free t \<noteq> INVALID \<longleftrightarrow> fl \<noteq> []" using y d(4) by (cases fl; simp)+
  define t1 where "t1 = upd (upd (upd t e BUCKET_PREV INVALID) e ITER_NEXT INVALID) e ITER_PREV INVALID"
  define t2 where "t2 = upd t1 e BUCKET_NEXT (t_free t)"
  define t3 where "t3 = (if fl = [] then t2 else upd t2 (hd fl) BUCKET_PREV e)"
  define t' where "t' = set_kv (t3\<lparr>t_free := e\<rparr>) e INVALID (c_dkey C) (c_dval C)"
  have sz: "slots_of t1 = slots_of t" "sized t1" "ok_ix t1 = ok_ix t" "t_free t1 = t_free t"
    "slots_of t2 = slots_of t" "sized t2" "ok_ix t2 = ok_ix t" "t_free t2 = t_free t"
    "slots_of t3 = slots_of t" "sized t3" "slots_of t' = slots_of t"
    using s by (simp_all add: t1_def t2_def t3_def t'_def)
  have i2: "idx t2 = (idx t)(BUCKET_PREV := ?p(e := INVALID), ITER_NEXT := (idx t ITER_NEXT)(e := INVALID),
      ITER_PREV := (idx t ITER_PREV)(e := INVALID), BUCKET_NEXT := ?n(e := first_or fl INVALID))"
    using e(1) s fr d(4) by (simp add: t2_def t1_def)
  have i3: "idx t3 = (if fl = [] then idx t2 else (idx t2)(BUCKET_PREV := ?p(e := INVALID, hd fl := e)))"
    using e(1) y sz i2 by (simp add: t3_def)
  have i': "idx t' = idx t3" using e(1) sz by (simp add: t'_def)
  have iN: "idx t' BUCKET_NEXT = ?n(e := first_or fl INVALID)"
    and iP: "idx t' BUCKET_PREV = (if fl = [] then ?p(e := INVALID) else ?p(e := INVALID, hd fl := e))"
    using i' i3 i2 by auto
  have run: "PushToFreeList C t e = Ok t'"
  proof -
    have "(if t_free t2 \<noteq> INVALID then SetEntryIndexValue t2 (t_free t2) BUCKET_PREV e else Ok t2) = Ok t3"
      using fr(2) y sz d(4) by (cases fl) (simp_all add: t3_def)
    then show ?thesis
      using e(1) sz by (simp add: PushToFreeList_def t1_def [symmetric] t2_def [symmetric] t'_def set_kv_def Let_def)
  qed
  have pf: "put_frame t t'"
  proof (rule put_frameI)
    have "tab t t1" unfolding t1_def by (rule tab_trans [OF tab_upd(1) tab_trans [OF tab_upd(1) tab_upd(1)]])
    moreover have "tab t1 t2" "tab t2 t3" by (simp_all add: t2_def t3_def)
    ultimately have "tab t t3" by (blast intro: tab_trans)
    from tab_set_free [OF this] show "tab (t\<lparr>t_free := e\<rparr>) t'" unfolding t'_def by (rule tab_trans) simp
  qed
  have "dlist (idx t' BUCKET_NEXT) (idx t' BUCKET_PREV) ([] @ e # fl)"
    using dlseg_insert [of ?n ?p INVALID "[]" fl INVALID e] d(1,2) e(2) unfolding iN iP by simp
  then have "free_lay t' (e # fl)" using d e sz by (simp add: free_lay_def t'_def)
  moreover have "idx t' BUCKET_NEXT i = ?n i \<and> idx t' BUCKET_PREV i = ?p i" if "i \<notin> set (e # fl)" for i
  proof -
    have "i \<noteq> e" "fl \<noteq> [] \<longrightarrow> i \<noteq> hd fl" using that by auto
    then show ?thesis unfolding iN iP by simp
  qed
  moreover have "hsh t' = (hsh t)(e := INVALID)" "ky t' = (ky t)(e := c_dkey C)" "vl t' = (vl t)(e := c_dval C)"
    using e(1) y sz by (simp_all add: t'_def t3_def t2_def t1_def)
  moreover have "idx t' ITER_NEXT = (idx t ITER_NEXT)(e := INVALID)" "idx t' ITER_PREV = (idx t ITER_PREV)(e := INVALID)"
    "idx t' MAP_TO = idx t MAP_TO" "idx t' MAPPED_FROM = idx t MAPPED_FROM" using i' i3 i2 by simp_all
  ultimately show ?thesis using that [OF run pf] by blast
qed

subsection \<open>Removing an entry\<close>

text \<open>What no operation on a table of a given size changes.\<close>

definition keep :: "('k, 'v) ht \<Rightarrow> ('k, 'v) ht \<Rightarrow> bool" where
  "keep t t' \<longleftrightarrow> slots_of t' = slots_of t \<and> t_size t' = t_size t \<and> t_type t' = t_type t \<and> t_iters t' = t_iters t
     \<and> t_autosort t' = t_autosort t \<and> t_cookie t' = t_cookie t \<and> t_icount t' = t_icount t \<and> t_ithread t' = t_ithread t"

lemma keep_refl [simp]: "keep t t"
  by (simp add: keep_def)

lemma keep_trans [trans]: "keep t t' \<Longrightarrow> keep t' t'' \<Longrightarrow> keep t t''"
  by (simp add: keep_def)

lemma keepI: "iter_frame t t' \<Longrightarrow> keep t t'" "put_frame t t' \<Longrightarrow> keep t t'" "tab t t' \<Longrightarrow> keep t t'"
  by (auto simp: keep_def dest: iter_frameD put_frameD tabD)

lemma keep_items [simp]: "keep t (t\<lparr>t_items := n\<rparr>)" "keep t (t\<lparr>t_objs := ob\<rparr>)"
  by (simp_all add: keep_def)

lemma keepD:
  assumes "keep t t'"
  shows "slots_of t' = slots_of t" "t_size t' = t_size t" "t_type t' = t_type t" "t_iters t' = t_iters t"
    "t_autosort t' = t_autosort t" "t_cookie t' = t_cookie t" "t_icount t' = t_icount t" "t_ithread t' = t_ithread t"
    "sized t' = sized t"
  using assms by (auto simp: keep_def sized_def)

lemma RemoveEntry_unchain:
  "RemoveEntry C t e =
     obind (RemoveIterationEntry t e) (\<lambda>t.
     obind (ent t e) (\<lambda>x.
     obind (GetEntryChecked t e BUCKET_PREV) (\<lambda>prev.
     obind (GetEntryChecked t e BUCKET_NEXT) (\<lambda>next.
     obind (unchain t e prev next) (\<lambda>t.
     obind (PushToFreeList C (t\<lparr>t_items := sub32 (t_items t) 1\<rparr>) e) (\<lambda>t. Ok (e_value x, t)))))))"
  by (simp add: RemoveEntry_def unchain_def)

lemma RemoveEntry_lay:
  assumes l: "slot_lay t us fl ch" and it: "iter_lay t (xs @ e # ys)" and e: "e \<in> us"
  obtains t' ch' where "RemoveEntry C t e = Ok (vl t e, t')" "slot_lay t' (us - {e}) (e # fl) ch'" "iter_lay t' (xs @ ys)"
    "t_items t' = sub32 (t_items t) 1" "keep t t'"
    "\<And>i. i \<noteq> e \<Longrightarrow> hsh t' i = hsh t i \<and> ky t' i = ky t i \<and> vl t' i = vl t i"
    "distinct (t_iters t) \<Longrightarrow> t_objs t' = (\<lambda>n. if n \<in> set (t_iters t) then stepped t e (t_objs t n) else t_objs t n)"
proof -
  note d = slot_layD [OF l]
  obtain t1 where t1: "RemoveIterationEntry t e = Ok t1" "same_slots t t1" "iter_lay t1 (xs @ ys)"
    "idx t1 ITER_NEXT e = INVALID" "idx t1 ITER_PREV e = INVALID"
    "distinct (t_iters t) \<Longrightarrow> t_objs t1 = (\<lambda>n. if n \<in> set (t_iters t) then stepped t e (t_objs t n) else t_objs t n)"
    using RemoveIterationEntry_lay [OF it d(1)] by blast
  have l1: "slot_lay t1 us fl ch" by (rule same_slots_lay [OF l t1(2)])
  have k1: "keep t t1" using t1(2) by (simp add: same_slots_def keepI)
  note d1 = slot_layD [OF l1]
  define b where "b = hsh t1 e mod t_size t1"
  have b: "b < t_size t1" unfolding b_def by (rule perm_mod [OF l1])
  have cb: "chain_lay t1 us b (ch b)" using d1(8) [OF b] .
  have "e \<in> set (ch b)" using cb e by (simp add: chain_lay_def in_bucket_def b_def)
  then obtain cs ds where c: "ch b = cs @ e # ds" using split_list by metis
  have e1: "e < slots_of t1" using e slot_lay_in(1) [OF l1] d1(2) by simp
  have ptrs: "GetEntryChecked t1 e BUCKET_PREV = Ok (ptr_last cs)" "GetEntryChecked t1 e BUCKET_NEXT = Ok (ptr_hd ds)"
  proof -
    have dl: "dlist (idx t1 BUCKET_NEXT) (idx t1 BUCKET_PREV) (cs @ e # ds)" using cb c by (simp add: chain_lay_def)
    have lt: "i \<noteq> INVALID" if "i \<in> set (cs @ e # ds)" for i
      using that chain_length(2) [OF l1 b] less_not_INVALID [OF d1(1)] unfolding c by blast
    show "GetEntryChecked t1 e BUCKET_PREV = Ok (ptr_last cs)"
      using dlseg_prev [OF dl] lt [of "last cs"] e1 by (cases "cs = []") (simp_all add: ptr_last_def last_or_last)
    show "GetEntryChecked t1 e BUCKET_NEXT = Ok (ptr_hd ds)"
      using dlseg_next [OF dl] lt [of "hd ds"] e1 by (cases "ds = []") (simp_all add: ptr_hd_def first_or_hd)
  qed
  obtain t2 where t2: "unchain t1 e (ptr_last cs) (ptr_hd ds) = Ok t2" "tab t1 t2" "hsh t2 = hsh t1" "ky t2 = ky t1" "vl t2 = vl t1"
    "idx t2 ITER_NEXT = idx t1 ITER_NEXT" "idx t2 ITER_PREV = idx t1 ITER_PREV" "perm_lay t2"
    "dlist (idx t2 BUCKET_NEXT) (idx t2 BUCKET_PREV) (cs @ ds)" "cs @ ds \<noteq> [] \<Longrightarrow> idx t2 MAP_TO b = hd (cs @ ds)"
    "\<And>b'. b' \<noteq> b \<Longrightarrow> b' < t_size t1 \<Longrightarrow> ch b' \<noteq> [] \<Longrightarrow> idx t2 MAP_TO b' = idx t1 MAP_TO b'"
    "\<And>i. i \<notin> set (ch b) \<Longrightarrow> idx t2 BUCKET_NEXT i = idx t1 BUCKET_NEXT i \<and> idx t2 BUCKET_PREV i = idx t1 BUCKET_PREV i"
    using unchain_lay [OF l1 b c] by blast
  note tb = tabD [OF t2(2)]
  let ?t2 = "t2\<lparr>t_items := sub32 (t_items t2) 1\<rparr>"
  have ch_us: "set (ch b) \<subseteq> us" using cb slot_lay_in(5) [OF l1] by (auto simp: chain_lay_def)
  have efl: "e \<notin> set fl" using e d(4) by blast
  have flch: "i \<notin> set (ch b)" if "i \<in> set fl" for i using that ch_us d(4) by blast
  have f2: "free_lay ?t2 fl"
  proof -
    have "dlist (idx t2 BUCKET_NEXT) (idx t2 BUCKET_PREV) fl \<longleftrightarrow> dlist (idx t1 BUCKET_NEXT) (idx t1 BUCKET_PREV) fl"
      using t2(12) flch by (intro dlseg_cong) blast+
    then show ?thesis using d1(6) tb by (simp add: free_lay_def)
  qed
  have s2: "sized ?t2" "e < slots_of ?t2" using d1(1) tb e1 by simp_all
  obtain t' where t': "PushToFreeList C ?t2 e = Ok t'" "put_frame ?t2 t'" "free_lay t' (e # fl)"
    "hsh t' = (hsh ?t2)(e := INVALID)" "ky t' = (ky ?t2)(e := c_dkey C)" "vl t' = (vl ?t2)(e := c_dval C)"
    "idx t' ITER_NEXT = (idx ?t2 ITER_NEXT)(e := INVALID)" "idx t' ITER_PREV = (idx ?t2 ITER_PREV)(e := INVALID)"
    "idx t' MAP_TO = idx ?t2 MAP_TO" "idx t' MAPPED_FROM = idx ?t2 MAPPED_FROM"
    "\<And>i. i \<notin> set (e # fl) \<Longrightarrow> idx t' BUCKET_NEXT i = idx ?t2 BUCKET_NEXT i \<and> idx t' BUCKET_PREV i = idx ?t2 BUCKET_PREV i"
    using PushToFreeList_lay [OF f2 s2 efl] by blast
  note pf = put_frameD [OF t'(2)]
  have k': "keep t1 t'" using keepI(3) [OF t2(2)] keepI(2) [OF t'(2)] keep_items keep_trans by blast
  note kk = keepD [OF k']
  have run: "RemoveEntry C t e = Ok (vl t e, t')"
  proof -
    have "e_value (es_of t1 ! e) = vl t e" using t1(2) by (simp add: same_slots_def vl_def [symmetric])
    then show ?thesis using e1 by (simp add: RemoveEntry_unchain t1(1) ptrs t2(1) t'(1) [simplified] del: GetEntryChecked_ok)
  qed
  have hs: "hsh t' i = hsh t1 i" if "i \<noteq> e" for i using that t'(4) t2(3) by simp
  have bk: "in_bucket t' (us - {e}) b' = in_bucket t1 us b' - {e}" for b'
    using hs kk(2) by (auto simp: in_bucket_def)
  have chb: "chain_lay t' (us - {e}) b (cs @ ds)"
  proof -
    have dd: "distinct (cs @ e # ds)" "set (cs @ e # ds) = in_bucket t1 us b" using cb c by (simp_all add: chain_lay_def)
    have "i \<notin> set (e # fl)" if "i \<in> set (cs @ ds)" for i
    proof -
      have "i \<in> set (ch b)" "i \<noteq> e" using that dd(1) unfolding c by auto
      then show ?thesis using flch by auto
    qed
    then have "dlist (idx t' BUCKET_NEXT) (idx t' BUCKET_PREV) (cs @ ds) \<longleftrightarrow> dlist (idx t2 BUCKET_NEXT) (idx t2 BUCKET_PREV) (cs @ ds)"
      using t'(11) by (intro dlseg_cong) simp_all
    moreover have "set (cs @ ds) = in_bucket t' (us - {e}) b" using bk dd by auto
    ultimately show ?thesis using t2(9,10) t'(9) dd(1) by (simp add: chain_lay_def)
  qed
  have "slot_lay t' (us - {e}) (e # fl) (ch(b := cs @ ds))"
  proof (rule slot_lay_step [OF l1 b _ _ _ t'(3) _ chb])
    show "sized t'" "slots_of t' = slots_of t1" "t_size t' = t_size t1" using kk d1(1) by simp_all
    show "perm_lay t'" using t2(8) t'(9,10) pf(1) by (simp add: perm_lay_def)
    show "(us - {e}) \<inter> set (e # fl) = {}" "(us - {e}) \<union> set (e # fl) = {..<slots_of t1}" using d1(4,5) e by auto
    fix b' assume b': "b' < t_size t1" "b' \<noteq> b"
    have "e \<notin> in_bucket t1 us b'" using b'(2) by (simp add: in_bucket_def b_def)
    then show "in_bucket t' (us - {e}) b' = in_bucket t1 us b'" using bk by simp
    show "idx t' MAP_TO b' = idx t1 MAP_TO b'" if "ch b' \<noteq> []" using t2(11) b' that t'(9) by simp
    fix i assume i: "i \<in> in_bucket t1 us b'"
    have "i \<in> us" "i \<notin> set (ch b)" "i \<noteq> e" using i b'(2) cb by (auto simp: in_bucket_def chain_lay_def b_def)
    moreover have "i \<notin> set fl" using \<open>i \<in> us\<close> d(4) by blast
    ultimately show "idx t' BUCKET_NEXT i = idx t1 BUCKET_NEXT i \<and> idx t' BUCKET_PREV i = idx t1 BUCKET_PREV i"
      using t2(12) t'(11) by simp
  next
    show "hsh t' i \<noteq> INVALID" if "i \<in> us - {e}" for i using that hs d1(9) by simp
    show "hsh t' i = INVALID" if "i \<in> set (e # fl)" for i using that t'(4) t2(3) d1(10) by auto
  qed
  moreover have "iter_lay t' (xs @ ys)"
  proof (rule iter_lay_cong [OF t1(3)])
    show "slots_of t' = slots_of t1" "t_head t' = t_head t1" "t_tail t' = t_tail t1" using kk pf tb by simp_all
    show "idx t' ITER_NEXT = idx t1 ITER_NEXT" "idx t' ITER_PREV = idx t1 ITER_PREV"
      using t'(7,8) t2(6,7) t1(4,5) by (simp_all add: fun_upd_idem)
  qed
  moreover have "t_items t' = sub32 (t_items t) 1" 
    using pf tb iter_frameD(2) [of t t1] t1(2) by (simp add: same_slots_def)
  moreover have "keep t t'" using k1 k' keep_trans by blast
  moreover have "hsh t' i = hsh t i \<and> ky t' i = ky t i \<and> vl t' i = vl t i" if "i \<noteq> e" for i
    using that hs t'(5,6) t2(4,5) t1(2) by (simp add: same_slots_def)
  moreover have "t_objs t' = t_objs t1" using pf tb by simp
  ultimately show ?thesis using that [OF run] t1(6) by simp
qed

end
