(* ===== verification/Hash_Ops.thy ===== *)
theory Hash_Ops
  imports Hash_Model
begin

section \<open>Hashtable: order, growth, copies and iterators\<close>

text \<open>
  The rest of the operations of \<^verbatim>\<open>source/muscle/util/Hashtable.h\<close>: moving entries in the iteration
  order, the merge sort on the linked list, the insertion at the sorted position, \<^verbatim>\<open>PutAux\<close> and
  \<^verbatim>\<open>EnsureSize\<close>, which call each other, copies between tables, comparisons and the public functions
  of the iterators.
\<close>

subsection \<open>Moving an entry in the iteration order\<close>

definition MoveToBackAux :: "('k, 'v) ht \<Rightarrow> nat \<Rightarrow> ('k, 'v) ht outcome" where
  "MoveToBackAux t moveMe =
     obind (GetEntryIndexValue t moveMe ITER_NEXT) (\<lambda>n.
     if n \<noteq> INVALID
     then obind (RemoveIterationEntry t moveMe) (\<lambda>t.
          InsertIterationEntry t moveMe (IndexToEntryChecked (t_tail t)))
     else Ok t)"

definition MoveToFrontAux :: "('k, 'v) ht \<Rightarrow> nat \<Rightarrow> ('k, 'v) ht outcome" where
  "MoveToFrontAux t moveMe =
     obind (GetEntryIndexValue t moveMe ITER_PREV) (\<lambda>p.
     if p \<noteq> INVALID
     then obind (RemoveIterationEntry t moveMe) (\<lambda>t. InsertIterationEntry t moveMe None)
     else Ok t)"

definition MoveToBeforeAux :: "('k, 'v) ht \<Rightarrow> nat \<Rightarrow> nat \<Rightarrow> ('k, 'v) ht outcome" where
  "MoveToBeforeAux t moveMe toBeforeMe =
     obind (GetEntryChecked t moveMe ITER_NEXT) (\<lambda>n.
     if n \<noteq> Some toBeforeMe
     then obind (RemoveIterationEntry t moveMe) (\<lambda>t.
          obind (GetEntryChecked t toBeforeMe ITER_PREV) (InsertIterationEntry t moveMe))
     else Ok t)"

definition MoveToBehindAux :: "('k, 'v) ht \<Rightarrow> nat \<Rightarrow> nat \<Rightarrow> ('k, 'v) ht outcome" where
  "MoveToBehindAux t moveMe toBehindMe =
     obind (GetEntryChecked t moveMe ITER_PREV) (\<lambda>p.
     if p \<noteq> Some toBehindMe
     then obind (RemoveIterationEntry t moveMe) (\<lambda>t. InsertIterationEntry t moveMe (Some toBehindMe))
     else Ok t)"

definition move_by :: "(('k, 'v) ht \<Rightarrow> nat \<Rightarrow> ('k, 'v) ht outcome) \<Rightarrow> ('k, 'v) ht_class \<Rightarrow> ('k, 'v) ht \<Rightarrow> 'k \<Rightarrow> (status \<times> ('k, 'v) ht) outcome" where
  "move_by aux C t moveMe =
     obind (GetEntry C t (ComputeHash C moveMe) moveMe) (\<lambda>p. case p of
        None \<Rightarrow> Ok (B_ERROR, t)
      | Some e \<Rightarrow> obind (aux t e) (\<lambda>t. Ok (B_NO_ERROR, t)))"

definition MoveToFront :: "('k, 'v) ht_class \<Rightarrow> ('k, 'v) ht \<Rightarrow> 'k \<Rightarrow> (status \<times> ('k, 'v) ht) outcome" where
  "MoveToFront = move_by MoveToFrontAux"

definition MoveToBack :: "('k, 'v) ht_class \<Rightarrow> ('k, 'v) ht \<Rightarrow> 'k \<Rightarrow> (status \<times> ('k, 'v) ht) outcome" where
  "MoveToBack = move_by MoveToBackAux"

definition MoveToBefore :: "('k, 'v) ht_class \<Rightarrow> ('k, 'v) ht \<Rightarrow> 'k \<Rightarrow> 'k \<Rightarrow> (status \<times> ('k, 'v) ht) outcome" where
  "MoveToBefore C t moveMe toBeforeMe =
     (if t_items t > 0
      then obind (GetEntry C t (ComputeHash C moveMe) moveMe) (\<lambda>e.
           obind (GetEntry C t (ComputeHash C toBeforeMe) toBeforeMe) (\<lambda>f.
           case (e, f) of
             (Some e, Some f) \<Rightarrow>
               if e = f then Ok (B_ERROR, t)
               else obind (MoveToBeforeAux t e f) (\<lambda>t. Ok (B_NO_ERROR, t))
           | _ \<Rightarrow> Ok (B_ERROR, t)))
      else Ok (B_ERROR, t))"

definition MoveToBehind :: "('k, 'v) ht_class \<Rightarrow> ('k, 'v) ht \<Rightarrow> 'k \<Rightarrow> 'k \<Rightarrow> (status \<times> ('k, 'v) ht) outcome" where
  "MoveToBehind C t moveMe toBehindMe =
     (if t_items t > 0
      then obind (GetEntry C t (ComputeHash C toBehindMe) toBehindMe) (\<lambda>d.
           obind (GetEntry C t (ComputeHash C moveMe) moveMe) (\<lambda>e.
           case (d, e) of
             (Some d, Some e) \<Rightarrow>
               if d = e then Ok (B_ERROR, t)
               else obind (MoveToBehindAux t e d) (\<lambda>t. Ok (B_NO_ERROR, t))
           | _ \<Rightarrow> Ok (B_ERROR, t)))
      else Ok (B_ERROR, t))"

text \<open>
  \<^verbatim>\<open>while(--idx > 0) insertAfter = next(insertAfter)\<close> from the head; the loop from the tail reads the
  previous entry again and again but does not assign it to \<^verbatim>\<open>insertAfter\<close>.
\<close>

fun follow :: "('k, 'v) ht \<Rightarrow> nat \<Rightarrow> nat option \<Rightarrow> nat option outcome" where
  "follow t 0 p = Ok p"
| "follow t (Suc n) p =
     (case p of None \<Rightarrow> Fault | Some e \<Rightarrow> obind (GetEntryIndexValue t e ITER_NEXT) (\<lambda>v. follow t n (Some v)))"

definition reread_prev :: "('k, 'v) ht \<Rightarrow> nat option \<Rightarrow> nat option outcome" where
  "reread_prev t p = (case p of None \<Rightarrow> Fault | Some e \<Rightarrow> obind (GetEntryIndexValue t e ITER_PREV) (\<lambda>v. Ok p))"

definition position_after :: "('k, 'v) ht \<Rightarrow> nat \<Rightarrow> nat option outcome" where
  "position_after t idx =
     (if idx < t_items t div 2
      then follow t (idx - 1) (IndexToEntryChecked (t_head t))
      else for_up (Suc idx) (t_items t) (\<lambda>_. reread_prev t) (IndexToEntryChecked (t_tail t)))"

definition MoveToPosition :: "('k, 'v) ht_class \<Rightarrow> ('k, 'v) ht \<Rightarrow> 'k \<Rightarrow> nat \<Rightarrow> (status \<times> ('k, 'v) ht) outcome" where
  "MoveToPosition C t moveMe idx = move_by (\<lambda>t e.
     if idx = 0 then MoveToFrontAux t e
     else if idx \<ge> t_items t then MoveToBackAux t e
     else obind (RemoveIterationEntry t e) (\<lambda>t.
          obind (position_after t idx) (InsertIterationEntry t e))) C t moveMe"

subsection \<open>Sorting the iteration list\<close>

text \<open>
  \<^verbatim>\<open>SortByKey\<close> and \<^verbatim>\<open>SortByValue\<close> are the same text but for the comparison, which is the parameter
  \<open>cmp\<close> here: bottom-up merging of runs of \<open>mergeSize\<close> entries.
\<close>

definition mul32 :: "nat \<Rightarrow> nat \<Rightarrow> nat" where "mul32 a b = (a * b) mod 2 ^ 32"

text \<open>Step \<open>mergeSize\<close> places along: where \<open>q\<close> ends up, and \<open>psize\<close>.\<close>

fun step_along :: "('k, 'v) ht \<Rightarrow> nat \<Rightarrow> nat \<Rightarrow> nat \<Rightarrow> (nat option \<times> nat) outcome" where
  "step_along t 0 q psize = Ok (Some q, psize)"
| "step_along t (Suc n) q psize =
     obind (GetEntryChecked t q ITER_NEXT) (\<lambda>q. case q of
        None \<Rightarrow> Ok (None, Suc psize)
      | Some q \<Rightarrow> step_along t n q (Suc psize))"

definition append_iter :: "('k, 'v) ht \<Rightarrow> nat \<Rightarrow> ('k, 'v) ht outcome" where
  "append_iter t e =
     (let tail = IndexToEntryChecked (t_tail t) in
      obind (set_link t tail ITER_NEXT e (\<lambda>t. t\<lparr>t_head := e\<rparr>)) (\<lambda>t.
      obind (SetEntryChecked t e ITER_PREV tail) (\<lambda>t. Ok (t\<lparr>t_tail := e\<rparr>))))"

definition from_q :: "(('k, 'v) entry \<Rightarrow> ('k, 'v) entry \<Rightarrow> int) \<Rightarrow> ('k, 'v) ht \<Rightarrow> nat option \<Rightarrow> nat option \<Rightarrow> nat \<Rightarrow> nat \<Rightarrow> bool outcome" where
  "from_q cmp t p q psize qsize =
     (if psize = 0 then Ok True
      else if qsize = 0 \<or> q = None then Ok False
      else case (p, q) of
        (Some p, Some q) \<Rightarrow> obind (ent t p) (\<lambda>x. obind (ent t q) (\<lambda>y. Ok (\<not> cmp x y \<le> 0)))
      | _ \<Rightarrow> Fault)"

function merge_runs :: "(('k, 'v) entry \<Rightarrow> ('k, 'v) entry \<Rightarrow> int) \<Rightarrow> ('k, 'v) ht \<Rightarrow> nat option \<Rightarrow> nat option \<Rightarrow> nat \<Rightarrow> nat \<Rightarrow> (nat option \<times> ('k, 'v) ht) outcome" where
  "merge_runs cmp t p q psize qsize =
     (if psize > 0 \<or> qsize > 0 \<and> q \<noteq> None
      then obind (from_q cmp t p q psize qsize) (\<lambda>b.
           if b
           then (case q of
                   None \<Rightarrow> Fault
                 | Some e \<Rightarrow> obind (GetEntryChecked t e ITER_NEXT) (\<lambda>q.
                             obind (append_iter t e) (\<lambda>t. merge_runs cmp t p q psize (qsize - 1))))
           else (case p of
                   None \<Rightarrow> Fault
                 | Some e \<Rightarrow> obind (GetEntryChecked t e ITER_NEXT) (\<lambda>p.
                             obind (append_iter t e) (\<lambda>t. merge_runs cmp t p q (psize - 1) qsize))))
      else Ok (q, t))"
  by pat_completeness auto
termination
  by (relation "measure (\<lambda>(cmp, t, p, q, psize, qsize). psize + qsize)")
     (auto simp: from_q_def obind_eq_Ok split: if_splits)

declare merge_runs.simps [simp del]

text \<open>One pass over the list, and how many merges it did.\<close>

fun merge_pass :: "(('k, 'v) entry \<Rightarrow> ('k, 'v) entry \<Rightarrow> int) \<Rightarrow> nat \<Rightarrow> nat \<Rightarrow> ('k, 'v) ht \<Rightarrow> nat option \<Rightarrow> nat \<Rightarrow> (nat \<times> ('k, 'v) ht) outcome" where
  "merge_pass cmp mergeSize 0 t p numMerges = Spin"
| "merge_pass cmp mergeSize (Suc n) t p numMerges =
     (case p of
        None \<Rightarrow> Ok (numMerges, t)
      | Some p \<Rightarrow>
          obind (step_along t mergeSize p 0) (\<lambda>(q, psize).
          obind (merge_runs cmp t (Some p) q psize mergeSize) (\<lambda>(q, t).
          merge_pass cmp mergeSize n t q (Suc numMerges))))"

fun merge_passes :: "(('k, 'v) entry \<Rightarrow> ('k, 'v) entry \<Rightarrow> int) \<Rightarrow> nat \<Rightarrow> ('k, 'v) ht \<Rightarrow> nat \<Rightarrow> ('k, 'v) ht outcome" where
  "merge_passes cmp 0 t mergeSize = Spin"
| "merge_passes cmp (Suc n) t mergeSize =
     (let p = IndexToEntryChecked (t_head t) in
      obind (merge_pass cmp mergeSize (table_fuel t) (t\<lparr>t_head := INVALID, t_tail := INVALID\<rparr>) p 0) (\<lambda>(numMerges, t).
      obind (SetEntryIndexValue t (t_tail t) ITER_NEXT INVALID) (\<lambda>t.
      if numMerges \<le> 1 then Ok t else merge_passes cmp n t (mul32 mergeSize 2))))"

text \<open>The merge size doubles from 1 on: after 33 passes it is larger than every 32-bit count.\<close>

definition SortBy :: "(('k, 'v) entry \<Rightarrow> ('k, 'v) entry \<Rightarrow> int) \<Rightarrow> ('k, 'v) ht \<Rightarrow> ('k, 'v) ht outcome" where
  "SortBy cmp t = (if t_head t = INVALID then Ok t else merge_passes cmp 33 t 1)"

definition SortByKey :: "('k \<Rightarrow> 'k \<Rightarrow> nat \<Rightarrow> int) \<Rightarrow> ('k, 'v) ht \<Rightarrow> nat \<Rightarrow> ('k, 'v) ht outcome" where
  "SortByKey keyFunctor t cookie = SortBy (\<lambda>x y. keyFunctor (e_key x) (e_key y) cookie) t"

definition SortByValue :: "('v \<Rightarrow> 'v \<Rightarrow> nat \<Rightarrow> int) \<Rightarrow> ('k, 'v) ht \<Rightarrow> nat \<Rightarrow> ('k, 'v) ht outcome" where
  "SortByValue valFunctor t cookie = SortBy (\<lambda>x y. valFunctor (e_value x) (e_value y) cookie) t"

definition SortAux :: "('k, 'v) ht_class \<Rightarrow> ('k, 'v) ht \<Rightarrow> ('k, 'v) ht outcome" where
  "SortAux C t = (case c_sub C of
     Plain \<Rightarrow> Ok t
   | OrderedKeys f \<Rightarrow> SortByKey f t (t_cookie t)
   | OrderedValues f \<Rightarrow> SortByValue f t (t_cookie t))"

subsection \<open>The sorted position of an entry\<close>

fun find_place :: "(('k, 'v) entry \<Rightarrow> bool) \<Rightarrow> ('k, 'v) ht \<Rightarrow> nat \<Rightarrow> nat \<Rightarrow> nat option \<Rightarrow> nat option outcome" where
  "find_place before t 0 prev next = Spin"
| "find_place before t (Suc n) prev next =
     (case next of
        None \<Rightarrow> Ok None
      | Some y \<Rightarrow> obind (ent t y) (\<lambda>e.
          if before e then Ok (Some prev)
          else obind (GetEntryChecked t y ITER_NEXT) (find_place before t n y)))"

definition insert_sorted :: "(('k, 'v) entry \<Rightarrow> ('k, 'v) entry \<Rightarrow> int) \<Rightarrow> ('k, 'v) ht \<Rightarrow> nat \<Rightarrow> ('k, 'v) ht outcome" where
  "insert_sorted cmp t e =
     (let insertAfter = IndexToEntryChecked (t_tail t) in
      if t_autosort t \<and> t_head t \<noteq> INVALID
      then obind (ent t e) (\<lambda>x.
           obind (ent t (t_head t)) (\<lambda>h.
           if cmp x h < 0 then InsertIterationEntry t e None
           else obind (ent t (t_tail t)) (\<lambda>l.
                if cmp x l < 0
                then obind (GetEntryChecked t (t_head t) ITER_NEXT) (\<lambda>next.
                     obind (find_place (\<lambda>y. cmp x y < 0) t (table_fuel t) (t_head t) next) (\<lambda>p.
                     InsertIterationEntry t e (if p = None then insertAfter else p)))
                else InsertIterationEntry t e insertAfter)))
      else InsertIterationEntry t e insertAfter)"

definition InsertIterationEntryAux :: "('k, 'v) ht_class \<Rightarrow> ('k, 'v) ht \<Rightarrow> nat \<Rightarrow> ('k, 'v) ht outcome" where
  "InsertIterationEntryAux C t e = (case c_sub C of
     Plain \<Rightarrow> InsertIterationEntry t e (IndexToEntryChecked (t_tail t))
   | OrderedKeys f \<Rightarrow> insert_sorted (\<lambda>x y. f (e_key x) (e_key y) (t_cookie t)) t e
   | OrderedValues f \<Rightarrow> insert_sorted (\<lambda>x y. f (e_value x) (e_value y) (t_cookie t)) t e)"

text \<open>\<^verbatim>\<open>while(((prev = prev(b)) != NULL)&&(Compare(e, prev) < 0)) b = prev\<close>, and its mirror image.\<close>

fun slide :: "(('k, 'v) entry \<Rightarrow> bool) \<Rightarrow> ('k, 'v) ht \<Rightarrow> which \<Rightarrow> nat \<Rightarrow> nat \<Rightarrow> nat outcome" where
  "slide go t w 0 b = Spin"
| "slide go t w (Suc n) b =
     obind (GetEntryChecked t b w) (\<lambda>p. case p of
        None \<Rightarrow> Ok b
      | Some c \<Rightarrow> obind (ent t c) (\<lambda>y. if go y then slide go t w n c else Ok b))"

definition neighbour :: "('k, 'v) ht \<Rightarrow> nat \<Rightarrow> which \<Rightarrow> (('k, 'v) entry \<Rightarrow> bool) \<Rightarrow> nat option outcome" where
  "neighbour t e w go =
     obind (GetEntryChecked t e w) (\<lambda>p. case p of
        None \<Rightarrow> Ok None
      | Some b \<Rightarrow> obind (ent t b) (\<lambda>y. Ok (if go y then Some b else None)))"

definition reposition :: "('v \<Rightarrow> 'v \<Rightarrow> nat \<Rightarrow> int) \<Rightarrow> ('k, 'v) ht \<Rightarrow> nat \<Rightarrow> ('k, 'v) ht outcome" where
  "reposition f t e =
     (if \<not> t_autosort t then Ok t
      else obind (ent t e) (\<lambda>x.
           let lower = (\<lambda>y. f (e_value x) (e_value y) (t_cookie t) < 0);
               higher = (\<lambda>y. f (e_value x) (e_value y) (t_cookie t) > 0)
           in
           obind (neighbour t e ITER_PREV lower) (\<lambda>p. case p of
             Some b \<Rightarrow> obind (ent t (t_head t)) (\<lambda>h.
               if lower h then MoveToFrontAux t e
               else obind (slide lower t ITER_PREV (table_fuel t) b) (\<lambda>b. MoveToBeforeAux t e b))
           | None \<Rightarrow> obind (neighbour t e ITER_NEXT higher) (\<lambda>p. case p of
               Some b \<Rightarrow> obind (ent t (t_tail t)) (\<lambda>l.
                 if higher l then MoveToBackAux t e
                 else obind (slide higher t ITER_NEXT (table_fuel t) b) (\<lambda>b. MoveToBehindAux t e b))
             | None \<Rightarrow> Ok t))))"

definition RepositionAux :: "('k, 'v) ht_class \<Rightarrow> ('k, 'v) ht \<Rightarrow> nat \<Rightarrow> ('k, 'v) ht outcome" where
  "RepositionAux C t e = (case c_sub C of OrderedValues f \<Rightarrow> reposition f t e | _ \<Rightarrow> Ok t)"

definition Reposition :: "('k, 'v) ht_class \<Rightarrow> ('k, 'v) ht \<Rightarrow> 'k \<Rightarrow> (status \<times> ('k, 'v) ht) outcome" where
  "Reposition C t key =
     obind (if t_autosort t then GetEntry C t (ComputeHash C key) key else Ok None) (\<lambda>p. case p of
        Some e \<Rightarrow> obind (RepositionAux C t e) (\<lambda>t. Ok (B_NO_ERROR, t))
      | None \<Rightarrow> Ok (B_ERROR, t))"

definition SetAutoSortEnabled :: "('k, 'v) ht_class \<Rightarrow> ('k, 'v) ht \<Rightarrow> bool \<Rightarrow> bool \<Rightarrow> ('k, 'v) ht outcome" where
  "SetAutoSortEnabled C t enabled sortNow =
     (if enabled \<noteq> t_autosort t
      then let t = t\<lparr>t_autosort := enabled\<rparr> in if sortNow \<and> enabled then SortAux C t else Ok t
      else Ok t)"

subsection \<open>Swapping, putting and growing\<close>

text \<open>
  The iterators that stay behind when the contents are swapped without them keep pointing into an
  array that is no longer the table's own.
\<close>

definition SwapContentsAux_ht :: "('k, 'v) ht \<Rightarrow> ('k, 'v) ht \<Rightarrow> bool \<Rightarrow> ('k, 'v) ht \<times> ('k, 'v) ht" where
  "SwapContentsAux_ht a b swapIterators =
     (let take_over = (\<lambda>a b. a\<lparr>t_items := t_items b, t_size := t_size b, t_type := t_type b,
            t_table := t_table b, t_head := t_head b, t_tail := t_tail b, t_free := t_free b,
            t_autosort := t_autosort b, t_cookie := t_cookie b\<rparr>);
          take_iters = (\<lambda>a b. a\<lparr>t_iters := t_iters b, t_icount := t_icount b, t_ithread := t_ithread b,
            t_objs := (\<lambda>n. if n \<in> set (t_iters b) then t_objs b n else free_iter (t_objs a n))\<rparr>)
      in if swapIterators then (take_iters (take_over a b) b, take_iters (take_over b a) a)
         else (take_over a b, take_over b a))"

text \<open>The value to put is an object of the caller's, or a value inside of the table itself.\<close>

datatype 'v vref = VObj 'v | VIn nat | VFreed

definition vref_value :: "('k, 'v) ht \<Rightarrow> 'v vref \<Rightarrow> 'v outcome" where
  "vref_value t r = (case r of VObj v \<Rightarrow> Ok v | VIn e \<Rightarrow> obind (ent t e) (\<lambda>x. Ok (e_value x)) | VFreed \<Rightarrow> Fault)"

definition vref_freed :: "'v vref \<Rightarrow> 'v vref" where
  "vref_freed r = (case r of VObj v \<Rightarrow> VObj v | _ \<Rightarrow> VFreed)"

type_synonym ('k, 'v) put_result = "(nat option \<times> 'v option \<times> ('k, 'v) ht) outcome"

definition put_body :: "('k, 'v) ht_class \<Rightarrow> (('k, 'v) ht \<Rightarrow> nat \<Rightarrow> bool \<Rightarrow> (status \<times> ('k, 'v) ht) outcome) \<Rightarrow> (('k, 'v) ht \<Rightarrow> nat \<Rightarrow> 'k \<Rightarrow> 'v vref \<Rightarrow> ('k, 'v) put_result) \<Rightarrow> ('k, 'v) ht \<Rightarrow> nat \<Rightarrow> 'k \<Rightarrow> 'v vref \<Rightarrow> ('k, 'v) put_result" where
  "put_body C ensure again t hash key val =
     obind (EnsureTableAllocated C t) (\<lambda>(st, t).
     if st \<noteq> B_NO_ERROR then Ok (None, None, t)
     else obind (GetEntry C t hash key) (\<lambda>p. case p of
        Some e \<Rightarrow>
          obind (ent t e) (\<lambda>x.
          obind (vref_value t val) (\<lambda>v.
          obind (RepositionAux C (put_ent t e (x\<lparr>e_value := v\<rparr>)) e) (\<lambda>t. Ok (Some e, Some (e_value x), t))))
      | None \<Rightarrow>
          if t_items t = t_size t
          then obind (ensure t (mul32 (t_size t) 2) False) (\<lambda>(st, t').
               if st = B_NO_ERROR
               then again t' hash key (if mul32 (t_size t) 2 \<le> t_size t then val else vref_freed val)
               else Ok (None, None, t'))
          else obind (vref_value t val) (\<lambda>v.
               obind (PutAuxAux t hash key v) (\<lambda>(e, t).
               obind (InsertIterationEntryAux C t e) (\<lambda>t.
               Ok (Some e, None, t\<lparr>t_items := add32 (t_items t) 1\<rparr>))))))"

fun set_spaces :: "('k, 'v) ht \<Rightarrow> (eptr \<Rightarrow> bool) \<Rightarrow> eptr \<Rightarrow> nat list \<Rightarrow> ('k, 'v) ht" where
  "set_spaces t here p [] = t"
| "set_spaces t here p (n # ns) = set_spaces
     (if here (i_cookie (t_objs t n)) then t\<lparr>t_objs := (t_objs t)(n := (t_objs t n)\<lparr>i_space := p\<rparr>)\<rparr> else t) here p ns"

fun move_entries :: "(('k, 'v) ht \<Rightarrow> nat \<Rightarrow> 'k \<Rightarrow> 'v vref \<Rightarrow> ('k, 'v) put_result) \<Rightarrow> nat \<Rightarrow> ('k, 'v) ht \<Rightarrow> ('k, 'v) ht \<Rightarrow> nat option \<Rightarrow> (status \<times> ('k, 'v) ht \<times> ('k, 'v) ht) outcome" where
  "move_entries put 0 t biggerTable next = Spin"
| "move_entries put (Suc n) t biggerTable next =
     (case next of
        None \<Rightarrow> Ok (B_NO_ERROR, t, biggerTable)
      | Some e \<Rightarrow>
          obind (ent t e) (\<lambda>x.
          obind (put biggerTable (e_hash x) (e_key x) (VObj (e_value x))) (\<lambda>(hisClone, old, biggerTable).
          case hisClone of
            None \<Rightarrow> Ok (B_ERROR, t, biggerTable)
          | Some c \<Rightarrow>
              let t = set_spaces t (\<lambda>p. p = EAt e) (EAt c) (t_iters t) in
              obind (GetEntryChecked t e ITER_NEXT) (move_entries put n t biggerTable))))"

text \<open>The cookies of the iterators on the list are redirected; then the old array is freed.\<close>

definition redirect_iters :: "('k, 'v) ht \<Rightarrow> ('k, 'v) ht" where
  "redirect_iters t = t\<lparr>t_objs := (\<lambda>n. let it = t_objs t n in
     if n \<in> set (t_iters t) then (free_iter it)\<lparr>i_cookie := i_space it\<rparr> else free_iter it)\<rparr>"

definition ensure_body :: "('k, 'v) ht_class \<Rightarrow> (('k, 'v) ht \<Rightarrow> nat \<Rightarrow> 'k \<Rightarrow> 'v vref \<Rightarrow> ('k, 'v) put_result) \<Rightarrow> ('k, 'v) ht \<Rightarrow> nat \<Rightarrow> bool \<Rightarrow> (status \<times> ('k, 'v) ht) outcome" where
  "ensure_body C put t requestedSize allowShrink =
     (if (if allowShrink then requestedSize = t_size t else requestedSize \<le> t_size t) then Ok (B_NO_ERROR, t)
      else let t = set_spaces t (\<lambda>p. True) ENull (t_iters t);
               tableSize = max (t_items t) requestedSize;
               biggerTable = (DefaultTable C (t_objs t))\<lparr>t_size := tableSize,
                 t_type := ComputeTableIndexTypeForTableSize tableSize, t_autosort := False\<rparr>
           in obind (move_entries put (table_fuel t) t biggerTable (IndexToEntryChecked (t_head t)))
              (\<lambda>(st, t, biggerTable).
              if st \<noteq> B_NO_ERROR then Ok (B_ERROR, t)
              else let biggerTable = biggerTable\<lparr>t_cookie := t_cookie t, t_autosort := t_autosort t\<rparr>
                   in Ok (B_NO_ERROR, redirect_iters (fst (SwapContentsAux_ht t biggerTable False)))))"

text \<open>
  \<^verbatim>\<open>PutAux\<close> calls \<^verbatim>\<open>EnsureSize\<close> when the table is full and then itself again; \<^verbatim>\<open>EnsureSize\<close> calls
  \<^verbatim>\<open>PutAux\<close> of the larger table.  The fuel counts the nested calls.
\<close>

fun PutAux :: "('k, 'v) ht_class \<Rightarrow> nat \<Rightarrow> ('k, 'v) ht \<Rightarrow> nat \<Rightarrow> 'k \<Rightarrow> 'v vref \<Rightarrow> ('k, 'v) put_result"
and EnsureSizeN :: "('k, 'v) ht_class \<Rightarrow> nat \<Rightarrow> ('k, 'v) ht \<Rightarrow> nat \<Rightarrow> bool \<Rightarrow> (status \<times> ('k, 'v) ht) outcome" where
  "PutAux C 0 t hash key val = Spin"
| "PutAux C (Suc n) t hash key val = put_body C (EnsureSizeN C n) (PutAux C n) t hash key val"
| "EnsureSizeN C 0 t requestedSize allowShrink = Spin"
| "EnsureSizeN C (Suc n) t requestedSize allowShrink = ensure_body C (PutAux C n) t requestedSize allowShrink"

text \<open>Three nested calls: put, then either grow and put into the larger table, or put again.\<close>

definition EnsureSize_ht :: "('k, 'v) ht_class \<Rightarrow> ('k, 'v) ht \<Rightarrow> nat \<Rightarrow> bool \<Rightarrow> (status \<times> ('k, 'v) ht) outcome" where
  "EnsureSize_ht C = EnsureSizeN C 2"

definition EnsureCanPut :: "('k, 'v) ht_class \<Rightarrow> ('k, 'v) ht \<Rightarrow> nat \<Rightarrow> (status \<times> ('k, 'v) ht) outcome" where
  "EnsureCanPut C t numExtraSlots = EnsureSize_ht C t (add32 (t_items t) numExtraSlots) False"

definition ShrinkToFit_ht :: "('k, 'v) ht_class \<Rightarrow> ('k, 'v) ht \<Rightarrow> nat \<Rightarrow> (status \<times> ('k, 'v) ht) outcome" where
  "ShrinkToFit_ht C t numExtraSlots = EnsureSize_ht C t (add32 (t_items t) numExtraSlots) True"

text \<open>Putting: the status, the value that was replaced, and the table.\<close>

definition Put :: "('k, 'v) ht_class \<Rightarrow> ('k, 'v) ht \<Rightarrow> 'k \<Rightarrow> 'v \<Rightarrow> (status \<times> 'v option \<times> ('k, 'v) ht) outcome" where
  "Put C t key val =
     obind (PutAux C 3 t (ComputeHash C key) key (VObj val)) (\<lambda>(e, old, t).
     Ok (if e \<noteq> None then B_NO_ERROR else B_ERROR, old, t))"

definition PutWithDefault :: "('k, 'v) ht_class \<Rightarrow> ('k, 'v) ht \<Rightarrow> 'k \<Rightarrow> (status \<times> 'v option \<times> ('k, 'v) ht) outcome" where
  "PutWithDefault C t key = Put C t key (c_dval C)"

definition PutAndGet :: "('k, 'v) ht_class \<Rightarrow> ('k, 'v) ht \<Rightarrow> 'k \<Rightarrow> 'v \<Rightarrow> (nat option \<times> ('k, 'v) ht) outcome" where
  "PutAndGet C t key val =
     obind (PutAux C 3 t (ComputeHash C key) key (VObj val)) (\<lambda>(e, old, t). Ok (e, t))"

definition GetOrPut :: "('k, 'v) ht_class \<Rightarrow> ('k, 'v) ht \<Rightarrow> 'k \<Rightarrow> 'v \<Rightarrow> (nat option \<times> ('k, 'v) ht) outcome" where
  "GetOrPut C t key defaultValue =
     (let hash = ComputeHash C key in
      obind (GetEntry C t hash key) (\<lambda>p. case p of
        Some e \<Rightarrow> Ok (Some e, t)
      | None \<Rightarrow> obind (PutAux C 3 t hash key (VObj defaultValue)) (\<lambda>(e, old, t). Ok (e, t))))"

definition PutIfNotAlreadyPresent :: "('k, 'v) ht_class \<Rightarrow> ('k, 'v) ht \<Rightarrow> 'k \<Rightarrow> 'v \<Rightarrow> (nat option \<times> ('k, 'v) ht) outcome" where
  "PutIfNotAlreadyPresent C t key val =
     (let hash = ComputeHash C key in
      obind (GetEntry C t hash key) (\<lambda>p. case p of
        Some e \<Rightarrow> Ok (None, t)
      | None \<Rightarrow> obind (PutAux C 3 t hash key (VObj val)) (\<lambda>(e, old, t). Ok (e, t))))"

definition PutOrRemove :: "('k, 'v) ht_class \<Rightarrow> ('k, 'v) ht \<Rightarrow> 'k \<Rightarrow> 'v \<Rightarrow> 'v \<Rightarrow> (nat option \<times> ('k, 'v) ht) outcome" where
  "PutOrRemove C t key val defaultValue =
     (if c_veq C val defaultValue
      then obind (RemoveKey C t key) (\<lambda>(v, t). Ok (None, t))
      else PutAndGet C t key val)"

end
