(* ===== verification/Hash_Map.thy ===== *)
theory Hash_Map
  imports Hash_Order Hash_Ops
begin

section \<open>Hashtable as a list of key-value pairs: lookups, removals and putting without growth\<close>

text \<open>
  \<open>ht_rep C t it\<close> is the invariant of a table, with the entries in the iteration order \<open>it\<close>; a table
  whose array has not been allocated yet has no entries.  \<open>pairs t it\<close> is what the table holds: a list of
  key-value pairs with distinct keys.
\<close>

definition ht_alloc :: "('k, 'v) ht_class \<Rightarrow> ('k, 'v) ht \<Rightarrow> nat list \<Rightarrow> bool" where
  "ht_alloc C t it \<longleftrightarrow> (\<exists>fl ch. slot_lay t (set it) fl ch) \<and> iter_lay t it \<and> t_items t = length it \<and> keyed C t (set it)"

definition ht_null :: "('k, 'v) ht \<Rightarrow> bool" where
  "ht_null t \<longleftrightarrow> t_table t = None \<and> t_items t = 0 \<and> t_head t = INVALID \<and> t_tail t = INVALID
     \<and> 0 < t_size t \<and> t_size t \<le> index_mask (t_type t)"

definition ht_rep :: "('k, 'v) ht_class \<Rightarrow> ('k, 'v) ht \<Rightarrow> nat list \<Rightarrow> bool" where
  "ht_rep C t it \<longleftrightarrow> it = [] \<and> ht_null t \<or> ht_alloc C t it"

definition pairs :: "('k, 'v) ht \<Rightarrow> nat list \<Rightarrow> ('k \<times> 'v) list" where
  "pairs t it = map (\<lambda>i. (ky t i, vl t i)) it"

lemma ht_allocE:
  assumes "ht_alloc C t it"
  obtains fl ch where "slot_lay t (set it) fl ch" "iter_lay t it" "t_items t = length it" "keyed C t (set it)"
  using assms unfolding ht_alloc_def by blast

lemma slot_lay_Some: "slot_lay t us fl ch \<Longrightarrow> t_table t = Some (es_of t)"
  using slots_Some [of 0 t] slot_layD(2,3) [of t us fl ch] by simp

lemma ht_rep_length: "ht_rep C t it \<Longrightarrow> t_items t = length it"
  by (auto simp: ht_rep_def ht_null_def ht_alloc_def)

lemma ht_rep_distinct: "ht_rep C t it \<Longrightarrow> distinct it"
  by (auto simp: ht_rep_def ht_alloc_def iter_lay_def)

lemma alloc_bounds:
  assumes "ht_alloc C t it"
  shows "length it \<le> t_size t" "t_size t \<le> index_mask (t_type t)" "0 < t_size t" "set it \<subseteq> {..<slots_of t}"
proof -
  obtain fl ch where l: "slot_lay t (set it) fl ch" "iter_lay t it" using ht_allocE [OF assms] by metis
  note d = slot_layD [OF l(1)] and i = iter_layD [OF l(2)]
  show "set it \<subseteq> {..<slots_of t}" by (rule i(3))
  then have "card (set it) \<le> card {..<slots_of t}" by (intro card_mono) auto
  then show "length it \<le> t_size t" using distinct_card [OF i(2)] d(2) by simp
  show "t_size t \<le> index_mask (t_type t)" "0 < t_size t" using d(1-3) by (simp_all add: sized_def)
qed

lemma rep_bounds:
  assumes "ht_rep C t it"
  shows "length it \<le> t_size t" "t_size t \<le> index_mask (t_type t)" "0 < t_size t" "t_size t < 2 ^ 32"
proof -
  show *: "length it \<le> t_size t" "t_size t \<le> index_mask (t_type t)" "0 < t_size t"
    using assms alloc_bounds by (auto simp: ht_rep_def ht_null_def)
  show "t_size t < 2 ^ 32" using *(2) index_mask_bound(2) by (rule le_less_trans)
qed

subsection \<open>Lookups\<close>

lemma map_fst_pairs [simp]: "map fst (pairs t it) = map (ky t) it"
  by (simp add: pairs_def)

lemma length_pairs [simp]: "length (pairs t it) = length it"
  by (simp add: pairs_def)

lemma pairs_append [simp]: "pairs t (xs @ ys) = pairs t xs @ pairs t ys"
  "pairs t (x # xs) = (ky t x, vl t x) # pairs t xs" "pairs t [] = []"
  by (simp_all add: pairs_def)

lemma pairs_cong: "(\<And>i. i \<in> set it \<Longrightarrow> ky t' i = ky t i \<and> vl t' i = vl t i) \<Longrightarrow> pairs t' it = pairs t it"
  by (simp add: pairs_def)

lemma distinct_keys: "ht_rep C t it \<Longrightarrow> distinct (map fst (pairs t it))"
  by (auto simp: ht_rep_def ht_alloc_def keyed_def iter_lay_def distinct_map)

lemma map_of_pairs:
  assumes "inj_on (ky t) (set it)" "i \<in> set it"
  shows "map_of (pairs t it) (ky t i) = Some (vl t i)"
  using assms by (induction it) (auto simp: inj_on_def)

lemma map_of_pairs_None: "map_of (pairs t it) k = None \<longleftrightarrow> k \<notin> ky t ` set it"
  by (auto simp: map_of_eq_None_iff pairs_def image_image)

text \<open>\<^verbatim>\<open>GetEntry\<close> with the hash of a key finds the entry of the key.\<close>

lemma GetEntry_rep:
  assumes r: "ht_rep C t it" and k: "keq_ok C"
  obtains (found) e where "e \<in> set it" "ky t e = key" "GetEntry C t (ComputeHash C key) key = Ok (Some e)"
    "map_of (pairs t it) key = Some (vl t e)" "e < slots_of t"
  | (absent) "key \<notin> ky t ` set it" "GetEntry C t (ComputeHash C key) key = Ok None" "map_of (pairs t it) key = None"
proof (cases "key \<in> ky t ` set it")
  case True
  then obtain e where e: "e \<in> set it" "ky t e = key" by blast
  then have "ht_alloc C t it" using r by (auto simp: ht_rep_def)
  then obtain fl ch where l: "slot_lay t (set it) fl ch" "iter_lay t it" "t_items t = length it" "keyed C t (set it)"
    by (rule ht_allocE)
  have "GetEntry C t (ComputeHash C key) key = Ok (Some e)" by (rule GetEntry_key(1) [OF l(1) _ l(4) k e]) (use l(3) in simp)
  moreover have "map_of (pairs t it) key = Some (vl t e)" using map_of_pairs e l(4) by (auto simp: keyed_def)
  moreover have "e < slots_of t" using iter_layD(3) [OF l(2)] e(1) by blast
  ultimately show ?thesis using found e by blast
next
  case False
  have "GetEntry C t (ComputeHash C key) key = Ok None"
  proof (cases "ht_alloc C t it")
    case True
    then obtain fl ch where l: "slot_lay t (set it) fl ch" "iter_lay t it" "t_items t = length it" "keyed C t (set it)"
      by (rule ht_allocE)
    show ?thesis by (rule GetEntry_key(2) [OF l(1) _ l(4) k False]) (use l(3) in simp)
  next
    case False
    then have "t_items t = 0" using r by (auto simp: ht_rep_def ht_null_def)
    then show ?thesis by (simp add: GetEntry_def)
  qed
  then show ?thesis using absent False map_of_pairs_None by metis
qed

lemma entry_kv [simp]:
  "e < slots_of t \<Longrightarrow> entry_value t (Some e) = Ok (Some (vl t e))" "entry_value t None = Ok None"
  "e < slots_of t \<Longrightarrow> entry_key t (Some e) = Ok (Some (ky t e))" "entry_key t None = Ok None"
  by (simp_all add: entry_value_def entry_key_def vl_def ky_def)

lemma GetValue_rep: "ht_rep C t it \<Longrightarrow> keq_ok C \<Longrightarrow> GetValue C t key = Ok (map_of (pairs t it) key)"
  by (erule GetEntry_rep [where key = key], assumption) (simp_all add: GetValue_def)

lemma ContainsKey_rep: "ht_rep C t it \<Longrightarrow> keq_ok C \<Longrightarrow> ContainsKey C t key = Ok (key \<in> fst ` set (pairs t it))"
  by (erule GetEntry_rep [where key = key], assumption)
     (auto simp: ContainsKey_def pairs_def image_image)

subsection \<open>Removing a key\<close>

lemma pairs_remove:
  assumes "inj_on (ky t) (set (xs @ e # ys))" "distinct (xs @ e # ys)"
  shows "pairs t (xs @ ys) = filter (\<lambda>kv. fst kv \<noteq> ky t e) (pairs t (xs @ e # ys))"
proof -
  have "ky t i \<noteq> ky t e" if "i \<in> set xs \<union> set ys" for i
    using assms that by (auto simp: inj_on_def)
  then show ?thesis by (auto simp: pairs_def filter_map comp_def filter_id_conv)
qed

lemma RemoveEntry_rep:
  assumes r: "ht_alloc C t (xs @ e # ys)"
  obtains t' where "RemoveEntry C t e = Ok (vl t e, t')" "ht_alloc C t' (xs @ ys)" "pairs t' (xs @ ys) = pairs t (xs @ ys)"
    "keep t t'" "\<And>i. i \<in> set (xs @ ys) \<Longrightarrow> ky t' i = ky t i \<and> vl t' i = vl t i"
    "distinct (t_iters t) \<Longrightarrow> t_objs t' = (\<lambda>n. if n \<in> set (t_iters t) then stepped t e (t_objs t n) else t_objs t n)"
proof -
  obtain fl ch where l: "slot_lay t (set (xs @ e # ys)) fl ch" "iter_lay t (xs @ e # ys)" "t_items t = length (xs @ e # ys)"
    "keyed C t (set (xs @ e # ys))" using ht_allocE [OF r] by metis
  obtain t' ch' where t': "RemoveEntry C t e = Ok (vl t e, t')" "slot_lay t' (set (xs @ e # ys) - {e}) (e # fl) ch'"
    "iter_lay t' (xs @ ys)" "t_items t' = sub32 (t_items t) 1" "keep t t'"
    "\<And>i. i \<noteq> e \<Longrightarrow> hsh t' i = hsh t i \<and> ky t' i = ky t i \<and> vl t' i = vl t i"
    "distinct (t_iters t) \<Longrightarrow> t_objs t' = (\<lambda>n. if n \<in> set (t_iters t) then stepped t e (t_objs t n) else t_objs t n)"
    using RemoveEntry_lay [OF l(1,2)] by auto
  have dn: "distinct (xs @ e # ys)" using iter_layD(2) [OF l(2)] .
  have s: "set (xs @ e # ys) - {e} = set (xs @ ys)" using dn by auto
  have ne: "i \<noteq> e" if "i \<in> set (xs @ ys)" for i using that dn by auto
  have "t_items t < 2 ^ 32" using alloc_bounds(1,2) [OF r] index_mask_bound(2) [of "t_type t"] l(3) by linarith
  then have "t_items t' = length (xs @ ys)" using t'(4) l(3) by simp
  moreover have "keyed C t' (set (xs @ ys))"
    using l(4) ne t'(6) unfolding keyed_def by (auto intro!: inj_onI dest: inj_onD)
  ultimately have "ht_alloc C t' (xs @ ys)" using t'(2,3) s unfolding ht_alloc_def by metis
  moreover have "pairs t' (xs @ ys) = pairs t (xs @ ys)" using t'(6) ne by (intro pairs_cong) blast
  ultimately show ?thesis using that t'(1,5,6,7) ne by blast
qed

text \<open>Removing a key filters the pairs.\<close>

lemma RemoveKey_rep:
  assumes r: "ht_rep C t it" and k: "keq_ok C"
  obtains t' it' where "RemoveKey C t key = Ok (map_of (pairs t it) key, t')" "ht_rep C t' it'" "keep t t'"
    "pairs t' it' = filter (\<lambda>kv. fst kv \<noteq> key) (pairs t it)"
proof (rule GetEntry_rep [OF r k, of key])
  fix e assume e: "e \<in> set it" "ky t e = key" "GetEntry C t (ComputeHash C key) key = Ok (Some e)"
    "map_of (pairs t it) key = Some (vl t e)"
  have al: "ht_alloc C t it" using r e(1) by (auto simp: ht_rep_def)
  obtain xs ys where it: "it = xs @ e # ys" using split_list [OF e(1)] by blast
  obtain t' where t': "RemoveEntry C t e = Ok (vl t e, t')" "ht_alloc C t' (xs @ ys)" "pairs t' (xs @ ys) = pairs t (xs @ ys)" "keep t t'"
    using RemoveEntry_rep [OF al [unfolded it]] by metis
  have "inj_on (ky t) (set (xs @ e # ys))" "distinct (xs @ e # ys)"
    using al ht_rep_distinct [OF r] unfolding it by (auto simp: ht_alloc_def keyed_def)
  from pairs_remove [OF this] have "pairs t' (xs @ ys) = filter (\<lambda>kv. fst kv \<noteq> key) (pairs t it)"
    using t'(3) e(2) it by simp
  then show ?thesis using that [of t' "xs @ ys"] t' e by (simp add: RemoveKey_def RemoveAux_def ht_rep_def)
next
  assume a: "key \<notin> ky t ` set it" "GetEntry C t (ComputeHash C key) key = Ok None" "map_of (pairs t it) key = None"
  have "filter (\<lambda>kv. fst kv \<noteq> key) (pairs t it) = pairs t it"
    using a(1) by (intro filter_True) (auto simp: pairs_def)
  then show ?thesis using that [of t it] a r by (simp add: RemoveKey_def RemoveAux_def)
qed

end
