(* ===== verification/Hash_Move.thy ===== *)
theory Hash_Move
  imports Hash_Map
begin

section \<open>Hashtable: moving entries in the iteration order\<close>

text \<open>
  Taking an entry out of the iteration list and linking it in again elsewhere: what \<^verbatim>\<open>MoveToFront\<close> and
  its siblings do to the order of the pairs, and \<^verbatim>\<open>GetEntryAt\<close>, which reads a position.
\<close>

text \<open>A table whose iteration list has been rearranged still is one.\<close>

lemma alloc_relink:
  assumes a: "ht_alloc C t it" and s: "same_slots t t'" and i: "iter_lay t' it'" and m: "set it' = set it"
  shows "ht_alloc C t' it'" "pairs t' it' = pairs t it'" "keep t t'"
proof -
  obtain fl ch where l: "slot_lay t (set it) fl ch" "iter_lay t it" "t_items t = length it" "keyed C t (set it)"
    using ht_allocE [OF a] by metis
  have "length it' = length it" using distinct_card [OF iter_layD(2) [OF i]] distinct_card [OF iter_layD(2) [OF l(2)]] m by simp
  moreover have "t_items t' = t_items t" using s by (auto simp: same_slots_def dest: iter_frameD)
  ultimately show "ht_alloc C t' it'"
    using same_slots_lay [OF l(1) s] i l(3,4) same_slots_keyed [OF s] m unfolding ht_alloc_def by metis
  show "pairs t' it' = pairs t it'" using s by (simp add: pairs_def same_slots_def)
  show "keep t t'" using s by (simp add: same_slots_def keepI)
qed

text \<open>Out at one place and in at another.\<close>

lemma relink_lay:
  assumes a: "ht_alloc C t (xs @ e # ys)" and p: "xs @ ys = us @ ws"
  obtains t1 t' where "RemoveIterationEntry t e = Ok t1" "same_slots t t1" "iter_lay t1 (us @ ws)"
    "InsertIterationEntry t1 e (ptr_last us) = Ok t'"
    "ht_alloc C t' (us @ e # ws)" "same_slots t t'" "t_objs t' = t_objs t1"
    "distinct (t_iters t) \<Longrightarrow> t_objs t1 = (\<lambda>n. if n \<in> set (t_iters t) then stepped t e (t_objs t n) else t_objs t n)"
proof -
  obtain fl ch where l: "slot_lay t (set (xs @ e # ys)) fl ch" "iter_lay t (xs @ e # ys)" using ht_allocE [OF a] by metis
  note s = slot_layD(1) [OF l(1)]
  obtain t1 where t1: "RemoveIterationEntry t e = Ok t1" "same_slots t t1" "iter_lay t1 (xs @ ys)"
    "distinct (t_iters t) \<Longrightarrow> t_objs t1 = (\<lambda>n. if n \<in> set (t_iters t) then stepped t e (t_objs t n) else t_objs t n)"
    using RemoveIterationEntry_lay [OF l(2) s] by metis
  have f: "slots_of t1 = slots_of t" "sized t1 = sized t" using t1(2) by (auto simp: same_slots_def dest: iter_frameD)
  have e: "e < slots_of t1" "e \<notin> set (us @ ws)" using iter_layD(2,3) [OF l(2)] f p by (auto simp flip: p)
  obtain t' where t': "InsertIterationEntry t1 e (ptr_last us) = Ok t'" "same_slots t1 t'" "iter_lay t' (us @ e # ws)"
    "t_objs t' = t_objs t1" using InsertIterationEntry_lay [of t1 us ws e] t1(3) s f e unfolding p by blast
  have st: "same_slots t t'" using t1(2) t'(2) by (rule same_slots_trans)
  have "set (us @ e # ws) = insert e (set (xs @ ys))" unfolding p by auto
  then have "set (us @ e # ws) = set (xs @ e # ys)" by simp
  then have "ht_alloc C t' (us @ e # ws)" using alloc_relink(1) [OF a st t'(3)] by blast
  then show ?thesis using that t1 t' st unfolding p by blast
qed

text \<open>The table with the entry moved; the iterators on the entry have stepped off it when it moved.\<close>

definition moved :: "('k, 'v) ht_class \<Rightarrow> ('k, 'v) ht \<Rightarrow> nat \<Rightarrow> nat list \<Rightarrow> nat list \<Rightarrow> ('k, 'v) ht \<Rightarrow> bool" where
  "moved C t e it it' t' \<longleftrightarrow> ht_alloc C t' it' \<and> same_slots t t' \<and> pairs t' it' = pairs t it' \<and> keep t t'
     \<and> (distinct (t_iters t) \<longrightarrow> t_objs t' = (\<lambda>n. if it' \<noteq> it \<and> n \<in> set (t_iters t) then stepped t e (t_objs t n) else t_objs t n))"

lemma movedI:
  assumes "ht_alloc C t it" "set it' = set it" "ht_alloc C t' it'" "same_slots t t'"
    "distinct (t_iters t) \<Longrightarrow> t_objs t' = (\<lambda>n. if it' \<noteq> it \<and> n \<in> set (t_iters t) then stepped t e (t_objs t n) else t_objs t n)"
  shows "moved C t e it it' t'"
proof -
  have "iter_lay t' it'" using assms(3) by (rule ht_allocE)
  from alloc_relink [OF assms(1,4) this assms(2)] show ?thesis using assms unfolding moved_def by blast
qed

lemma movedD:
  assumes "moved C t e it it' t'"
  shows "ht_alloc C t' it'" "pairs t' it' = pairs t it'" "keep t t'" "ky t' = ky t" "vl t' = vl t" "same_slots t t'"
proof -
  show "ht_alloc C t' it'" "pairs t' it' = pairs t it'" "keep t t'" and s: "same_slots t t'"
    using assms unfolding moved_def by blast+
  show "ky t' = ky t" "vl t' = vl t" using s by (simp_all add: same_slots_def)
qed

lemma moved_id: "ht_alloc C t it \<Longrightarrow> moved C t e it it t"
  by (simp add: moved_def same_slots_def)

lemma ends_distinct:
  assumes "distinct (xs @ e # ys)"
  shows "xs \<noteq> [] \<Longrightarrow> e # xs @ ys \<noteq> xs @ e # ys" "ys \<noteq> [] \<Longrightarrow> xs @ ys @ [e] \<noteq> xs @ e # ys"
  using assms by (cases xs; cases ys; auto)+

lemma alloc_links:
  assumes "ht_alloc C t (xs @ e # ys)"
  shows "e < slots_of t" "e \<noteq> INVALID" "idx t ITER_NEXT e = first_or ys INVALID" "idx t ITER_PREV e = last_or INVALID xs"
    "IndexToEntryChecked (first_or ys INVALID) = ptr_hd ys" "IndexToEntryChecked (last_or INVALID xs) = ptr_last xs"
    "distinct (xs @ e # ys)"
proof -
  obtain fl ch where l: "slot_lay t (set (xs @ e # ys)) fl ch" "iter_lay t (xs @ e # ys)" using ht_allocE [OF assms] by metis
  note d = iter_layD [OF l(2)] and s = slot_layD(1) [OF l(1)]
  have i: "i < slots_of t \<and> i \<noteq> INVALID" if "i \<in> set (xs @ e # ys)" for i using iter_in [OF l(2) s that] by blast
  show "e < slots_of t" "e \<noteq> INVALID" using i by auto
  show "idx t ITER_NEXT e = first_or ys INVALID" using dlseg_next [OF d(1)] .
  show "idx t ITER_PREV e = last_or INVALID xs" using dlseg_prev [OF d(1)] .
  show "IndexToEntryChecked (first_or ys INVALID) = ptr_hd ys" using i by (cases ys) (auto simp: ptr_hd_def)
  show "IndexToEntryChecked (last_or INVALID xs) = ptr_last xs"
    using i [of "last xs"] by (cases "xs = []") (simp_all add: ptr_last_def last_or_last)
  show "distinct (xs @ e # ys)" by (rule d(2))
qed

lemma first_or_eq_INVALID:
  "ht_alloc C t (xs @ e # ys) \<Longrightarrow> first_or ys INVALID = INVALID \<longleftrightarrow> ys = []"
  "ht_alloc C t (xs @ e # ys) \<Longrightarrow> last_or INVALID xs = INVALID \<longleftrightarrow> xs = []"
  by (metis Checked_simps(5) alloc_links(5,6) option.distinct(1) ptr_hd_def ptr_last_def)+

lemma move_step:
  assumes a: "ht_alloc C t (xs @ e # ys)" and p: "xs @ ys = us @ ws" and n: "us @ e # ws \<noteq> xs @ e # ys"
  obtains t1 t' where "RemoveIterationEntry t e = Ok t1" "InsertIterationEntry t1 e (ptr_last us) = Ok t'"
    "moved C t e (xs @ e # ys) (us @ e # ws) t'" "iter_lay t1 (us @ ws)" "sized t1" "t_items t1 = t_items t" "slots_of t1 = slots_of t"
proof -
  obtain t1 t' where t: "RemoveIterationEntry t e = Ok t1" "same_slots t t1" "iter_lay t1 (us @ ws)"
    "InsertIterationEntry t1 e (ptr_last us) = Ok t'" "ht_alloc C t' (us @ e # ws)" "same_slots t t'" "t_objs t' = t_objs t1"
    "distinct (t_iters t) \<Longrightarrow> t_objs t1 = (\<lambda>n. if n \<in> set (t_iters t) then stepped t e (t_objs t n) else t_objs t n)"
    using relink_lay [OF a p] by blast
  obtain fl ch where "slot_lay t (set (xs @ e # ys)) fl ch" using ht_allocE [OF a] by metis
  then have "sized t1" "t_items t1 = t_items t" "slots_of t1 = slots_of t"
    using t(2) by (auto simp: same_slots_def dest: iter_frameD slot_layD(1))
  moreover have "set (us @ e # ws) = insert e (set (xs @ ys))" unfolding p by auto
  then have "moved C t e (xs @ e # ys) (us @ e # ws) t'" by (intro movedI [OF a]) (use t n in \<open>auto simp: fun_eq_iff\<close>)
  ultimately show ?thesis using that t by blast
qed

lemma MoveToFrontAux_alloc:
  assumes a: "ht_alloc C t (xs @ e # ys)"
  obtains t' where "MoveToFrontAux t e = Ok t'" "moved C t e (xs @ e # ys) (e # xs @ ys) t'"
proof (cases "xs = []")
  case True
  then show ?thesis using that [of t] alloc_links [OF a] moved_id [OF a] by (simp add: MoveToFrontAux_def)
next
  case False
  obtain t1 t' where t: "RemoveIterationEntry t e = Ok t1" "InsertIterationEntry t1 e (ptr_last []) = Ok t'"
    "moved C t e (xs @ e # ys) ([] @ e # xs @ ys) t'"
    using move_step [OF a, where us = "[]" and ws = "xs @ ys"] ends_distinct(1) [OF alloc_links(7) [OF a] False]
    unfolding append_Nil by metis
  then show ?thesis
    using that [of t'] alloc_links [OF a] first_or_eq_INVALID [OF a] False by (simp add: MoveToFrontAux_def ptr_last_def)
qed

lemma MoveToBackAux_alloc:
  assumes a: "ht_alloc C t (xs @ e # ys)"
  obtains t' where "MoveToBackAux t e = Ok t'" "moved C t e (xs @ e # ys) (xs @ ys @ [e]) t'"
proof (cases "ys = []")
  case True
  then show ?thesis using that [of t] alloc_links [OF a] moved_id [OF a] by (simp add: MoveToBackAux_def)
next
  case False
  have "(xs @ ys) @ e # [] \<noteq> xs @ e # ys" using ends_distinct(2) [OF alloc_links(7) [OF a] False] by simp
  then obtain t1 t' where t: "RemoveIterationEntry t e = Ok t1" "InsertIterationEntry t1 e (ptr_last (xs @ ys)) = Ok t'"
    "moved C t e (xs @ e # ys) ((xs @ ys) @ e # []) t'" "iter_lay t1 ((xs @ ys) @ [])" "sized t1"
    using move_step [OF a, where us = "xs @ ys" and ws = "[]"] by (metis append_Nil2)
  from ptr_last_iter [OF t(4,5)] have "IndexToEntryChecked (t_tail t1) = ptr_last (xs @ ys)" by simp
  then show ?thesis
    using that [of t'] t alloc_links [OF a] first_or_eq_INVALID [OF a] False by (simp add: MoveToBackAux_def)
qed

text \<open>In front of another entry and behind another entry.\<close>

lemma MoveToBeforeAux_alloc:
  assumes a: "ht_alloc C t (xs @ e # ys)" and p: "xs @ ys = us @ f # ws"
  obtains t' where "MoveToBeforeAux t e f = Ok t'" "moved C t e (xs @ e # ys) (us @ e # f # ws) t'"
proof (cases "ptr_hd ys = Some f")
  case True
  then obtain ys' where ys: "ys = f # ys'" by (cases ys) (auto simp: ptr_hd_def)
  have "distinct (xs @ ys)" using alloc_links(7) [OF a] by auto
  then have "us = xs" "ws = ys'" using p ys by (auto simp: append_eq_append_conv2 append_eq_Cons_conv Cons_eq_append_conv)
  then show ?thesis using that [of t] alloc_links [OF a] moved_id [OF a] True ys by (simp add: MoveToBeforeAux_def)
next
  case False
  have "us @ e # f # ws \<noteq> xs @ e # ys"
  proof
    assume eq: "us @ e # f # ws = xs @ e # ys"
    have "e \<notin> set xs" "e \<notin> set ys" "e \<notin> set us" using alloc_links(7) [OF a] p
      by (simp, simp, metis Un_iff distinct_append distinct.simps(2) not_distinct_conv_prefix set_append UnCI disjoint_iff list.set_intros(1))
    then show False using eq False by (auto simp: append_eq_append_conv2 append_eq_Cons_conv Cons_eq_append_conv ptr_hd_def)
  qed
  then obtain t1 t' where t: "RemoveIterationEntry t e = Ok t1" "InsertIterationEntry t1 e (ptr_last us) = Ok t'"
    "moved C t e (xs @ e # ys) (us @ e # f # ws) t'" "iter_lay t1 (us @ f # ws)" "sized t1"
    using move_step [OF a p] by metis
  have f: "f < slots_of t1" using iter_layD(3) [OF t(4)] by auto
  have "GetEntryChecked t1 f ITER_PREV = Ok (ptr_last us)"
  proof -
    have "IndexToEntryChecked (last_or INVALID us) = ptr_last us"
      using iter_in [OF t(4,5), of "last us"] by (cases "us = []") (simp_all add: ptr_last_def last_or_last)
    then show ?thesis using f dlseg_prev [OF iter_layD(1) [OF t(4)]] by simp
  qed
  then show ?thesis
    using that [of t'] t alloc_links [OF a] False by (simp add: MoveToBeforeAux_def del: GetEntryChecked_ok)
       (simp add: alloc_links [OF a])
qed

lemma split_unique:
  assumes "xs @ f # ys = us @ f # ws" "distinct (xs @ f # ys)"
  shows "us = xs" "ws = ys"
  using assms by (auto simp: append_eq_append_conv2 append_eq_Cons_conv Cons_eq_append_conv)

lemma MoveToBehindAux_alloc:
  assumes a: "ht_alloc C t (xs @ e # ys)" and p: "xs @ ys = us @ f # ws"
  obtains t' where "MoveToBehindAux t e f = Ok t'" "moved C t e (xs @ e # ys) (us @ f # e # ws) t'"
proof (cases "ptr_last xs = Some f")
  case True
  then obtain xs' where xs: "xs = xs' @ [f]" by (cases xs rule: rev_cases) (auto simp: ptr_last_def split: if_splits)
  have "xs' @ f # ys = us @ f # ws" using p xs by simp
  moreover have "distinct (xs' @ f # ys)" using alloc_links(7) [OF a] xs by simp
  ultimately have "us = xs'" "ws = ys" by (rule split_unique)+
  then show ?thesis using that [of t] alloc_links [OF a] moved_id [OF a] True xs by (simp add: MoveToBehindAux_def)
next
  case False
  have "(us @ [f]) @ e # ws \<noteq> xs @ e # ys"
  proof
    assume "(us @ [f]) @ e # ws = xs @ e # ys"
    then have "us @ [f] = xs" using split_unique [of xs e ys "us @ [f]" ws] alloc_links(7) [OF a] by simp
    then show False using False by (auto simp: ptr_last_def)
  qed
  moreover have "xs @ ys = (us @ [f]) @ ws" using p by simp
  ultimately obtain t1 t' where t: "RemoveIterationEntry t e = Ok t1" "InsertIterationEntry t1 e (ptr_last (us @ [f])) = Ok t'"
    "moved C t e (xs @ e # ys) ((us @ [f]) @ e # ws) t'"
    using move_step [OF a] by metis
  then show ?thesis
    using that [of t'] alloc_links [OF a] False by (simp add: MoveToBehindAux_def ptr_last_def)
qed

subsection \<open>The public functions\<close>

lemma pairs_split:
  assumes "ht_alloc C t (xs @ e # ys)"
  shows "filter (\<lambda>kv. fst kv = ky t e) (pairs t (xs @ e # ys)) = [(ky t e, vl t e)]"
    "filter (\<lambda>kv. fst kv \<noteq> ky t e) (pairs t (xs @ e # ys)) = pairs t (xs @ ys)"
proof -
  have d: "inj_on (ky t) (set (xs @ e # ys))" "distinct (xs @ e # ys)"
    using assms alloc_links(7) [OF assms] by (auto simp: ht_alloc_def keyed_def)
  show "filter (\<lambda>kv. fst kv \<noteq> ky t e) (pairs t (xs @ e # ys)) = pairs t (xs @ ys)" using pairs_remove [OF d] by simp
  have "ky t i \<noteq> ky t e" if "i \<in> set xs \<union> set ys" for i using d that by (auto simp: inj_on_def)
  then show "filter (\<lambda>kv. fst kv = ky t e) (pairs t (xs @ e # ys)) = [(ky t e, vl t e)]"
    by (simp add: pairs_def filter_map comp_def)
qed

text \<open>A lookup followed by a move of the entry that was found.\<close>

lemma move_by_rep:
  assumes r: "ht_rep C t it" and k: "keq_ok C"
    and aux: "\<And>xs e ys. it = xs @ e # ys \<Longrightarrow> ky t e = key \<Longrightarrow> ht_alloc C t (xs @ e # ys) \<Longrightarrow>
      \<exists>t' it'. aux t e = Ok t' \<and> ht_alloc C t' it' \<and> keep t t' \<and> pairs t' it' = f (pairs t it)"
    and noop: "key \<notin> fst ` set (pairs t it) \<Longrightarrow> f (pairs t it) = pairs t it"
  obtains t' it' where "move_by aux C t key = Ok (if key \<in> fst ` set (pairs t it) then B_NO_ERROR else B_ERROR, t')"
    "ht_rep C t' it'" "pairs t' it' = f (pairs t it)" "keep t t'"
proof (rule GetEntry_rep [OF r k, of key])
  fix e assume e: "e \<in> set it" "ky t e = key" "GetEntry C t (ComputeHash C key) key = Ok (Some e)"
  have al: "ht_alloc C t it" using r e(1) by (auto simp: ht_rep_def)
  obtain xs ys where it: "it = xs @ e # ys" using split_list [OF e(1)] by blast
  obtain t' it' where t': "aux t e = Ok t'" "ht_alloc C t' it'" "keep t t'" "pairs t' it' = f (pairs t it)"
    using aux [OF it e(2)] al it by blast
  have "key \<in> fst ` set (pairs t it)" using e(1,2) by (auto simp: pairs_def image_image)
  then show ?thesis using that [of t' it'] t' e(3) by (simp add: move_by_def ht_rep_def)
next
  assume "key \<notin> ky t ` set it" "GetEntry C t (ComputeHash C key) key = Ok None"
  moreover from this(1) have "key \<notin> fst ` set (pairs t it)" by (auto simp: pairs_def)
  ultimately show ?thesis using that [of t it] noop r by (simp add: move_by_def)
qed

definition to_front :: "'k \<Rightarrow> ('k \<times> 'v) list \<Rightarrow> ('k \<times> 'v) list" where
  "to_front key ps = filter (\<lambda>kv. fst kv = key) ps @ filter (\<lambda>kv. fst kv \<noteq> key) ps"

definition to_back :: "'k \<Rightarrow> ('k \<times> 'v) list \<Rightarrow> ('k \<times> 'v) list" where
  "to_back key ps = filter (\<lambda>kv. fst kv \<noteq> key) ps @ filter (\<lambda>kv. fst kv = key) ps"

lemma filter_absent_key:
  assumes "key \<notin> fst ` set ps"
  shows "filter (\<lambda>kv. fst kv = key) ps = []" "filter (\<lambda>kv. fst kv \<noteq> key) ps = ps"
  using assms by (auto simp: filter_empty_conv filter_id_conv)

lemma MoveToFront_rep:
  assumes r: "ht_rep C t it" and k: "keq_ok C"
  obtains t' it' where "MoveToFront C t key = Ok (if key \<in> fst ` set (pairs t it) then B_NO_ERROR else B_ERROR, t')"
    "ht_rep C t' it'" "pairs t' it' = to_front key (pairs t it)" "keep t t'"
  unfolding MoveToFront_def
proof (rule move_by_rep [OF r k, where aux = MoveToFrontAux and f = "to_front key" and key = key])
  show "\<exists>t' it'. MoveToFrontAux t e = Ok t' \<and> ht_alloc C t' it' \<and> keep t t' \<and> pairs t' it' = to_front key (pairs t it)"
    if a: "it = xs @ e # ys" "ky t e = key" "ht_alloc C t (xs @ e # ys)" for xs e ys
  proof -
    obtain t' where "MoveToFrontAux t e = Ok t'" "moved C t e (xs @ e # ys) (e # xs @ ys) t'"
      by (rule MoveToFrontAux_alloc [OF a(3)])
    then show ?thesis using pairs_split [OF a(3)] a(1,2) unfolding moved_def to_front_def
      by (intro exI [of _ t'] exI [of _ "e # xs @ ys"]) simp
  qed
next
  show "key \<notin> fst ` set (pairs t it) \<Longrightarrow> to_front key (pairs t it) = pairs t it"
    using filter_absent_key [of key "pairs t it"] by (simp add: to_front_def)
qed (use that in blast)

lemma MoveToBack_rep:
  assumes r: "ht_rep C t it" and k: "keq_ok C"
  obtains t' it' where "MoveToBack C t key = Ok (if key \<in> fst ` set (pairs t it) then B_NO_ERROR else B_ERROR, t')"
    "ht_rep C t' it'" "pairs t' it' = to_back key (pairs t it)" "keep t t'"
  unfolding MoveToBack_def
proof (rule move_by_rep [OF r k, where aux = MoveToBackAux and f = "to_back key" and key = key])
  show "\<exists>t' it'. MoveToBackAux t e = Ok t' \<and> ht_alloc C t' it' \<and> keep t t' \<and> pairs t' it' = to_back key (pairs t it)"
    if a: "it = xs @ e # ys" "ky t e = key" "ht_alloc C t (xs @ e # ys)" for xs e ys
  proof -
    obtain t' where "MoveToBackAux t e = Ok t'" "moved C t e (xs @ e # ys) (xs @ ys @ [e]) t'"
      by (rule MoveToBackAux_alloc [OF a(3)])
    then show ?thesis using pairs_split [OF a(3)] a(1,2) unfolding moved_def to_back_def
      by (intro exI [of _ t'] exI [of _ "xs @ ys @ [e]"]) simp
  qed
next
  show "key \<notin> fst ` set (pairs t it) \<Longrightarrow> to_back key (pairs t it) = pairs t it"
    using filter_absent_key [of key "pairs t it"] by (simp add: to_back_def)
qed (use that in blast)

subsection \<open>Next to another key, and at a position\<close>

text \<open>Taking the pair of a key out and putting it in next to another one.\<close>

definition next_to :: "bool \<Rightarrow> 'k \<Rightarrow> 'k \<Rightarrow> ('k \<times> 'v) list \<Rightarrow> ('k \<times> 'v) list" where
  "next_to behind key anchor ps =
     (let me = filter (\<lambda>kv. fst kv = key) ps in
      concat (map (\<lambda>kv. if fst kv = key then []
                       else if fst kv \<noteq> anchor then [kv] else if behind then kv # me else me @ [kv]) ps))"

lemma next_to_split:
  assumes "distinct (map fst (us @ kf # ws @ [ke]))"
    and ps: "filter (\<lambda>kv. fst kv = fst ke) ps = [ke]" "filter (\<lambda>kv. fst kv \<noteq> fst ke) ps = us @ kf # ws"
  shows "next_to behind (fst ke) (fst kf) ps = us @ (if behind then [kf, ke] else [ke, kf]) @ ws"
proof -
  let ?g = "\<lambda>kv. if fst kv \<noteq> fst kf then [kv] else if behind then [kv, ke] else [ke, kv]"
  have "next_to behind (fst ke) (fst kf) ps = concat (map (\<lambda>kv. if fst kv = fst ke then [] else ?g kv) ps)"
    by (simp add: next_to_def ps(1) cong: if_cong)
  also have "\<dots> = concat (map ?g (filter (\<lambda>kv. fst kv \<noteq> fst ke) ps))"
    by (induction ps) auto
  also have "\<dots> = concat (map ?g us) @ ?g kf @ concat (map ?g ws)" unfolding ps(2) by simp
  also have "concat (map ?g us) = concat (map (\<lambda>kv. [kv]) us)" using assms(1) by (intro arg_cong [of _ _ concat] map_cong) (auto simp: image_iff)
  also have "concat (map ?g ws) = concat (map (\<lambda>kv. [kv]) ws)" using assms(1) by (intro arg_cong [of _ _ concat] map_cong) (auto simp: image_iff)
  finally show ?thesis by (simp add: concat_map_singleton)
qed

lemma next_to_alloc:
  assumes a: "ht_alloc C t (xs @ e # ys)" and p: "xs @ ys = us @ f # ws"
  shows "next_to behind (ky t e) (ky t f) (pairs t (xs @ e # ys)) = pairs t (us @ (if behind then [f, e] else [e, f]) @ ws)"
proof -
  have d: "inj_on (ky t) (set (xs @ e # ys))" "distinct (xs @ e # ys)"
    using a alloc_links(7) [OF a] by (auto simp: ht_alloc_def keyed_def)
  have s: "set (us @ f # ws @ [e]) = set (xs @ e # ys)"
    using arg_cong [OF p, of set] by auto
  have "distinct (xs @ ys)" "e \<notin> set (xs @ ys)" using d(2) by auto
  then have "distinct (us @ f # ws @ [e])" unfolding p by auto
  moreover have "inj_on (ky t) (set (us @ f # ws @ [e]))" using d(1) unfolding s .
  ultimately have "distinct (map (ky t) (us @ f # ws @ [e]))" unfolding distinct_map by blast
  moreover have "map (ky t) (us @ f # ws @ [e]) = map fst (pairs t us @ (ky t f, vl t f) # pairs t ws @ [(ky t e, vl t e)])"
    by (simp add: pairs_def)
  moreover have "filter (\<lambda>kv. fst kv \<noteq> ky t e) (pairs t (xs @ e # ys)) = pairs t us @ (ky t f, vl t f) # pairs t ws"
    using pairs_split(2) [OF a] unfolding p by simp
  ultimately show ?thesis
    using next_to_split [of "pairs t us" "(ky t f, vl t f)" "pairs t ws" "(ky t e, vl t e)" "pairs t (xs @ e # ys)" behind]
      pairs_split(1) [OF a] by simp
qed

lemma MoveTo_anchor_rep:
  assumes r: "ht_rep C t it" and k: "keq_ok C"
  obtains t' it' where
    "(if behind then MoveToBehind else MoveToBefore) C t key anchor =
       Ok (if key \<in> fst ` set (pairs t it) \<and> anchor \<in> fst ` set (pairs t it) \<and> key \<noteq> anchor then B_NO_ERROR else B_ERROR, t')"
    "ht_rep C t' it'" "keep t t'"
    "pairs t' it' = (if key \<in> fst ` set (pairs t it) \<and> anchor \<in> fst ` set (pairs t it) \<and> key \<noteq> anchor
       then next_to behind key anchor (pairs t it) else pairs t it)"
proof -
  have keys: "k' \<in> fst ` set (pairs t it) \<longleftrightarrow> k' \<in> ky t ` set it" for k' by (auto simp: pairs_def image_image)
  show ?thesis
  proof (cases "t_items t = 0")
    case True
    then have "it = []" using ht_rep_length [OF r] by simp
    then show ?thesis using that [of t it] r True by (simp add: MoveToBehind_def MoveToBefore_def)
  next
    case n: False
    show ?thesis
    proof (cases "key \<in> ky t ` set it \<and> anchor \<in> ky t ` set it")
      case False
      obtain p where p: "GetEntry C t (ComputeHash C key) key = Ok p" "p = None \<longleftrightarrow> key \<notin> ky t ` set it"
        using GetEntry_rep [OF r k, of key] by (metis imageI option.distinct(1))
      obtain q where q: "GetEntry C t (ComputeHash C anchor) anchor = Ok q" "q = None \<longleftrightarrow> anchor \<notin> ky t ` set it"
        using GetEntry_rep [OF r k, of anchor] by (metis imageI option.distinct(1))
      have "p = None \<or> q = None" using False p(2) q(2) by blast
      then have "(if behind then MoveToBehind else MoveToBefore) C t key anchor = Ok (B_ERROR, t)"
        using p(1) q(1) by (cases p; cases q; simp add: MoveToBehind_def MoveToBefore_def)
      then show ?thesis using that [of t it] r False unfolding keys by auto
    next
      case True
      obtain e where e: "e \<in> set it" "ky t e = key" "GetEntry C t (ComputeHash C key) key = Ok (Some e)"
        using GetEntry_rep [OF r k, of key] True by metis
      obtain f where f: "f \<in> set it" "ky t f = anchor" "GetEntry C t (ComputeHash C anchor) anchor = Ok (Some f)"
        using GetEntry_rep [OF r k, of anchor] True by metis
      have al: "ht_alloc C t it" using r e(1) by (auto simp: ht_rep_def)
      have ef: "e = f \<longleftrightarrow> key = anchor" using al e f by (auto simp: ht_alloc_def keyed_def inj_on_def)
      show ?thesis
      proof (cases "key = anchor")
        case True
        then have "(if behind then MoveToBehind else MoveToBefore) C t key anchor = Ok (B_ERROR, t)"
          using n e f ef by (simp add: MoveToBehind_def MoveToBefore_def)
        then show ?thesis using that [of t it] r True by auto
      next
        case ne: False
        obtain xs ys where it: "it = xs @ e # ys" using split_list [OF e(1)] by blast
        have "f \<in> set (xs @ ys)" using f(1) it ne ef by auto
        then obtain us ws where p: "xs @ ys = us @ f # ws" using split_list by metis
        obtain t' where t': "(if behind then MoveToBehindAux else MoveToBeforeAux) t e f = Ok t'"
          "moved C t e it (us @ (if behind then [f, e] else [e, f]) @ ws) t'"
        proof (cases behind)
          case True
          obtain t' where "MoveToBehindAux t e f = Ok t'" "moved C t e it (us @ f # e # ws) t'"
            using MoveToBehindAux_alloc [OF al [unfolded it] p] it by metis
          then show ?thesis using that [of t'] True by simp
        next
          case False
          obtain t' where "MoveToBeforeAux t e f = Ok t'" "moved C t e it (us @ e # f # ws) t'"
            using MoveToBeforeAux_alloc [OF al [unfolded it] p] it by metis
          then show ?thesis using that [of t'] False by simp
        qed
        have "(if behind then MoveToBehind else MoveToBefore) C t key anchor = Ok (B_NO_ERROR, t')"
          using n e f ef ne t'(1) by (cases behind) (simp_all add: MoveToBehind_def MoveToBefore_def)
        moreover have "pairs t' (us @ (if behind then [f, e] else [e, f]) @ ws) = next_to behind key anchor (pairs t it)"
          using next_to_alloc [OF al [unfolded it] p, of behind] t'(2) e(2) f(2) it by (simp add: moved_def)
        moreover have "ht_rep C t' (us @ (if behind then [f, e] else [e, f]) @ ws)" "keep t t'"
          using t'(2) by (simp_all add: moved_def ht_rep_def)
        ultimately show ?thesis
          by (intro that [of t' "us @ (if behind then [f, e] else [e, f]) @ ws"]) (simp_all only: keys True ne if_True simp_thms)
      qed
    qed
  qed
qed

subsection \<open>Positions\<close>

lemma step_next:
  assumes "iter_lay t it" "sized t" "i < length it"
  shows "GetEntryChecked t (it ! i) ITER_NEXT = Ok (ptr_hd (drop (Suc i) it))"
    "GetEntryChecked t (it ! i) ITER_PREV = Ok (ptr_last (take i it))"
proof -
  have it: "it = take i it @ it ! i # drop (Suc i) it" using assms(3) by (rule id_take_nth_drop)
  have d: "dlist (idx t ITER_NEXT) (idx t ITER_PREV) (take i it @ it ! i # drop (Suc i) it)"
    using iter_layD(1) [OF assms(1)] it by simp
  have l: "it ! i < slots_of t" using iter_in [OF assms(1,2)] assms(3) by simp
  have n: "j \<noteq> INVALID" if "j \<in> set it" for j using iter_in [OF assms(1,2) that] by blast
  have "IndexToEntryChecked (first_or (drop (Suc i) it) INVALID) = ptr_hd (drop (Suc i) it)"
    using n [of "hd (drop (Suc i) it)"] in_set_dropD [of "hd (drop (Suc i) it)" "Suc i" it]
    by (cases "drop (Suc i) it = []") (auto simp: ptr_hd_def first_or_hd)
  moreover have "IndexToEntryChecked (last_or INVALID (take i it)) = ptr_last (take i it)"
    using n [of "last (take i it)"] in_set_takeD [of "last (take i it)" i it]
    by (cases "take i it = []") (auto simp: ptr_last_def last_or_last)
  ultimately show "GetEntryChecked t (it ! i) ITER_NEXT = Ok (ptr_hd (drop (Suc i) it))"
    "GetEntryChecked t (it ! i) ITER_PREV = Ok (ptr_last (take i it))"
    using l dlseg_next [OF d] dlseg_prev [OF d] by simp_all
qed

lemma ptr_hd_drop: "ptr_hd (drop i xs) = (if i < length xs then Some (xs ! i) else None)"
  by (simp add: ptr_hd_def hd_drop_conv_nth)

lemma ptr_last_take: "ptr_last (take (Suc i) xs) = (if i < length xs then Some (xs ! i) else ptr_last xs)"
  by (auto simp: ptr_last_def take_Suc_conv_app_nth)

lemma walk_next:
  assumes "iter_lay t it" "sized t"
  shows "walk t ITER_NEXT n (ptr_hd (drop i it)) = Ok (ptr_hd (drop (i + n) it))"
proof (induction n arbitrary: i)
  case (Suc n)
  then show ?case
    using step_next(1) [OF assms, of i] Suc.IH [of "Suc i"] by (cases "Suc i < length it") (auto simp: ptr_hd_drop, auto simp: ptr_hd_def)
qed simp

lemma walk_prev:
  assumes "iter_lay t it" "sized t" "i \<le> length it"
  shows "walk t ITER_PREV n (ptr_last (take i it)) = Ok (ptr_last (take (i - n) it))"
  using assms(3)
proof (induction n arbitrary: i)
  case (Suc n)
  then show ?case using step_next(2) [OF assms(1,2), of "i - 1"] Suc.IH [of "i - 1"]
    by (cases i) (auto simp: ptr_last_take, simp add: ptr_last_def)
qed simp

lemma GetEntryAt_rep:
  assumes "ht_rep C t it"
  shows "GetEntryAt t i = Ok (if i < length it then Some (it ! i) else None)"
proof (cases "ht_alloc C t it")
  case True
  then obtain fl ch where l: "slot_lay t (set it) fl ch" "iter_lay t it" "t_items t = length it" by (rule ht_allocE)
  note s = slot_layD(1) [OF l(1)]
  have n: "length it - (length it - Suc i) = Suc i" if "i < length it" using that by simp
  show ?thesis
    using walk_next [OF l(2) s, of i 0] walk_prev [OF l(2) s, of "length it" "length it - Suc i"]
      ptr_hd_iter [OF l(2) s] ptr_last_iter [OF l(2) s] l(3) n
    by (auto simp: GetEntryAt_def ptr_hd_drop ptr_last_take)
next
  case False
  then show ?thesis using assms by (auto simp: ht_rep_def ht_null_def GetEntryAt_def)
qed

lemma GetKeyAt_rep:
  assumes "ht_rep C t it"
  shows "GetKeyAt t i = Ok (if i < length (pairs t it) then Some (fst (pairs t it ! i)) else None)"
proof -
  have "it ! i < slots_of t" if "i < length it"
  proof -
    have "ht_alloc C t it" using assms that by (auto simp: ht_rep_def)
    then show ?thesis using alloc_bounds(4) nth_mem [OF that] by blast
  qed
  then show ?thesis by (simp add: GetKeyAt_def GetEntryAt_rep [OF assms]) (simp add: pairs_def)
qed

lemma follow_next:
  assumes "iter_lay t it" "sized t" "i + n < length it"
  shows "follow t n (Some (it ! i)) = Ok (Some (it ! (i + n)))"
  using assms(3)
proof (induction n arbitrary: i)
  case (Suc n)
  have l: "it ! i < slots_of t" using iter_in [OF assms(1,2)] Suc.prems by simp
  have "GetEntryChecked t (it ! i) ITER_NEXT = Ok (Some (it ! Suc i))"
    using step_next(1) [OF assms(1,2), of i] Suc.prems by (simp add: ptr_hd_drop)
  then have "idx t ITER_NEXT (it ! i) = it ! Suc i" using l by simp
  then show ?case using Suc.IH [of "Suc i"] Suc.prems l by simp
qed simp

text \<open>
  \<^verbatim>\<open>MoveToPosition\<close> puts the entry at the position it was asked for in the first half of the table;
  in the second half it always ends up at the end.
\<close>

definition to_position :: "nat \<Rightarrow> 'k \<Rightarrow> ('k \<times> 'v) list \<Rightarrow> ('k \<times> 'v) list" where
  "to_position i key ps =
     (let me = filter (\<lambda>kv. fst kv = key) ps; rest = filter (\<lambda>kv. fst kv \<noteq> key) ps in
      if i < length ps div 2 then take i rest @ me @ drop i rest else rest @ me)"

lemma position_after_lay:
  assumes "iter_lay t us" "sized t" "t_items t = Suc (length us)" "0 < i" "i < t_items t"
  shows "position_after t i = Ok (ptr_last (if i < t_items t div 2 then take i us else us))"
proof (cases "i < t_items t div 2")
  case True
  then have l: "i - Suc 0 < length us" using assms(3,4) by (simp add: less_diff_conv)
  then have "0 + (i - 1) < length us" by simp
  from follow_next [OF assms(1,2) this] l show ?thesis
    using True assms(3,4) ptr_hd_iter [OF assms(1,2)] ptr_hd_drop [of 0 us] ptr_last_take [of "i - 1" us]
    by (cases "us = []") (simp_all add: position_after_def)
next
  case False
  then have "us \<noteq> []" using assms(3-5) by auto
  then have l: "last us < slots_of t" using iter_in [OF assms(1,2)] by simp
  have "reread_prev t (Some (last us)) = Ok (Some (last us))" using l by (simp add: reread_prev_def)
  then have "for_up a b (\<lambda>_. reread_prev t) (Some (last us)) = Ok (Some (last us))" for a b
    using for_up_induct [of a b "\<lambda>_ s. s = Some (last us)" "Some (last us)" "\<lambda>_. reread_prev t"]
    by (cases "a \<le> b") auto
  then show ?thesis
    using False \<open>us \<noteq> []\<close> ptr_last_iter [OF assms(1,2)] by (simp add: position_after_def ptr_last_def)
qed

lemma MoveToPosition_rep:
  assumes r: "ht_rep C t it" and k: "keq_ok C"
  obtains t' it' where "MoveToPosition C t key i = Ok (if key \<in> fst ` set (pairs t it) then B_NO_ERROR else B_ERROR, t')"
    "ht_rep C t' it'" "pairs t' it' = (if key \<in> fst ` set (pairs t it) then to_position i key (pairs t it) else pairs t it)" "keep t t'"
proof -
  define f where "f = (\<lambda>ps :: ('a \<times> 'b) list. if key \<in> fst ` set ps then to_position i key ps else ps)"
  let ?aux = "\<lambda>t e. if i = 0 then MoveToFrontAux t e else if i \<ge> t_items t then MoveToBackAux t e
    else obind (RemoveIterationEntry t e) (\<lambda>t. obind (position_after t i) (InsertIterationEntry t e))"
  have "\<exists>t' it'. ?aux t e = Ok t' \<and> ht_alloc C t' it' \<and> keep t t' \<and> pairs t' it' = f (pairs t it)"
    if it: "it = xs @ e # ys" and e: "ky t e = key" and al: "ht_alloc C t (xs @ e # ys)" for xs e ys
  proof -
    have f: "f (pairs t it) = (if i < length it div 2 then pairs t (take i (xs @ ys) @ e # drop i (xs @ ys)) else pairs t ((xs @ ys) @ [e]))"
      using pairs_split [OF al] it e by (simp add: f_def to_position_def pairs_def take_map drop_map)
    have n: "t_items t = length it" using ht_rep_length [OF r] .
    consider "i = 0" | "0 < i" "i \<ge> t_items t" | "0 < i" "i < t_items t" by linarith
    then show ?thesis
    proof cases
      case 1
      obtain t' where t': "MoveToFrontAux t e = Ok t'" "moved C t e (xs @ e # ys) (e # xs @ ys) t'" by (rule MoveToFrontAux_alloc [OF al])
      have "f (pairs t it) = pairs t (e # xs @ ys)" using f 1 it by (cases "xs @ ys = []") (auto simp: Suc_le_eq)
      then show ?thesis using t' 1 unfolding moved_def by (intro exI [of _ t'] exI [of _ "e # xs @ ys"]) simp
    next
      case 2
      obtain t' where t': "MoveToBackAux t e = Ok t'" "moved C t e (xs @ e # ys) (xs @ ys @ [e]) t'" by (rule MoveToBackAux_alloc [OF al])
      have "\<not> i < length it div 2" using 2 n by linarith
      then have "f (pairs t it) = pairs t (xs @ ys @ [e])" using f by (simp del: pairs_append(1))
      then show ?thesis using t' 2 unfolding moved_def by (intro exI [of _ t'] exI [of _ "xs @ ys @ [e]"]) simp
    next
      case 3
      define us where "us = (if i < t_items t div 2 then take i (xs @ ys) else xs @ ys)"
      define ws where "ws = (if i < t_items t div 2 then drop i (xs @ ys) else [])"
      have p: "xs @ ys = us @ ws" unfolding us_def ws_def by (cases "i < t_items t div 2") (simp_all only: if_True if_False append_take_drop_id append_Nil2)
      obtain t1 t' where t: "RemoveIterationEntry t e = Ok t1" "same_slots t t1" "iter_lay t1 (us @ ws)"
        "InsertIterationEntry t1 e (ptr_last us) = Ok t'" "ht_alloc C t' (us @ e # ws)" "same_slots t t'"
        using relink_lay [OF al p] by metis
      obtain fl ch where "slot_lay t (set (xs @ e # ys)) fl ch" using ht_allocE [OF al] by metis
      then have s1: "sized t1" "t_items t1 = t_items t"
        using t(2) by (auto simp: same_slots_def dest: iter_frameD slot_layD(1))
      have "position_after t1 i = Ok (ptr_last us)"
      proof -
        have "t_items t1 = Suc (length (us @ ws))" using s1(2) n it arg_cong [OF p, of length] by simp
        from position_after_lay [OF t(3) s1(1) this, of i] show ?thesis
          using 3 s1(2) unfolding p [symmetric] by (simp add: us_def)
      qed
      moreover have "f (pairs t it) = pairs t (us @ e # ws)" using f n unfolding us_def ws_def by simp
      moreover have "keep t t'" "pairs t' = pairs t" using t(6) by (simp_all add: same_slots_def keepI pairs_def fun_eq_iff)
      ultimately show ?thesis using t 3 by (intro exI [of _ t'] exI [of _ "us @ e # ws"]) simp
    qed
  qed
  note run = this
  show ?thesis
    by (rule move_by_rep [OF r k, where aux = ?aux and f = f and key = key], rule run, assumption+)
       (simp add: f_def, rule that, simp_all add: MoveToPosition_def f_def)
qed

end
