(* ===== verification/Hash_Put.thy ===== *)
theory Hash_Put
  imports Hash_Move
begin

section \<open>Hashtable: putting a pair\<close>

text \<open>
  Where \<^verbatim>\<open>InsertIterationEntryAux\<close> puts a new entry: at the end, or in a table that sorts itself in
  front of the first entry that is larger.  Then \<^verbatim>\<open>PutAux\<close> of a table that is not full.
\<close>

definition ecmp :: "('k, 'v) ht_class \<Rightarrow> nat \<Rightarrow> 'k \<times> 'v \<Rightarrow> 'k \<times> 'v \<Rightarrow> int" where
  "ecmp C cookie a b = (case c_sub C of
     Plain \<Rightarrow> 0 | OrderedKeys f \<Rightarrow> f (fst a) (fst b) cookie | OrderedValues f \<Rightarrow> f (snd a) (snd b) cookie)"

text \<open>The part of the list that stays in front of a new element.\<close>

definition front_part :: "bool \<Rightarrow> ('a \<Rightarrow> bool) \<Rightarrow> 'a list \<Rightarrow> 'a list" where
  "front_part autosort before xs =
     (if autosort \<and> xs \<noteq> [] \<and> (before (hd xs) \<or> before (last xs)) then takeWhile (\<lambda>x. \<not> before x) xs else xs)"

lemma front_part_prefix: "\<exists>ys. xs = front_part a b xs @ ys"
proof (cases "a \<and> xs \<noteq> [] \<and> (b (hd xs) \<or> b (last xs))")
  case True
  then have "xs = front_part a b xs @ dropWhile (\<lambda>x. \<not> b x) xs" by (simp add: front_part_def)
  then show ?thesis by blast
qed (auto simp: front_part_def)

lemma front_part_map: "front_part a b (map f xs) = map f (front_part a (\<lambda>x. b (f x)) xs)"
  by (cases "xs = []") (auto simp: front_part_def hd_map last_map takeWhile_map comp_def)

lemma find_place_iter:
  assumes "dlseg (idx t ITER_NEXT) pv x ys INVALID" "set ys \<subseteq> {..<slots_of t}" "sized t" "length ys < n"
  shows "find_place before t n x (IndexToEntryChecked (first_or ys INVALID)) =
     Ok (if \<exists>y\<in>set ys. before (es_of t ! y) then Some (last_or x (takeWhile (\<lambda>y. \<not> before (es_of t ! y)) ys)) else None)"
  using assms
proof (induction ys arbitrary: x n)
  case Nil
  then show ?case by (cases n) auto
next
  case (Cons y ys)
  then obtain m where n: "n = Suc m" by (cases n) auto
  have y: "y < slots_of t" "y \<noteq> INVALID" using Cons.prems less_not_INVALID by auto
  have "find_place before t m y (IndexToEntryChecked (first_or ys INVALID)) =
     Ok (if \<exists>y\<in>set ys. before (es_of t ! y) then Some (last_or y (takeWhile (\<lambda>y. \<not> before (es_of t ! y)) ys)) else None)"
    by (rule Cons.IH) (use Cons.prems n in auto)
  then show ?case using n y Cons.prems(1) by simp
qed

lemma last_or_takeWhile:
  "takeWhile P (x # ys) = x # zs \<Longrightarrow> last_or x zs = last (x # zs)"
  by (cases zs) (auto simp: last_or_last)

lemma insert_sorted_lay:
  assumes l: "iter_lay t it" and s: "sized t" and f: "table_fuel t > length it" and e: "e < slots_of t" "e \<notin> set it"
    and xs: "xs = front_part (t_autosort t) (\<lambda>i. cmp (es_of t ! e) (es_of t ! i) < 0) it" and it: "it = xs @ ys"
  obtains t' where "insert_sorted cmp t e = Ok t'" "same_slots t t'" "iter_lay t' (xs @ e # ys)" "t_objs t' = t_objs t"
proof -
  let ?lt = "\<lambda>i. cmp (es_of t ! e) (es_of t ! i) < 0"
  note d = iter_layD [OF l]
  have "insert_sorted cmp t e = InsertIterationEntry t e (ptr_last xs)"
  proof (cases "t_autosort t \<and> it \<noteq> []")
    case False
    then have "xs = it" using xs by (auto simp: front_part_def)
    moreover have "t_autosort t \<Longrightarrow> t_head t = INVALID" using False d(4) by simp
    ultimately show ?thesis using ptr_last_iter [OF l s] by (auto simp: insert_sorted_def Let_def)
  next
    case True
    obtain x zs where xz: "it = x # zs" using True by (cases it) auto
    have hd: "t_head t = x" "x < slots_of t" "x \<noteq> INVALID" using d(4) iter_in [OF l s, of x] xz by simp_all
    have tl: "t_tail t = last it" "last it < slots_of t"
      using d(5) iter_in [OF l s, of "last it"] True last_or_last [of it INVALID] by simp_all
    have fp: "find_place (\<lambda>y. cmp (es_of t ! e) y < 0) t (table_fuel t) x (IndexToEntryChecked (first_or zs INVALID)) =
        Ok (if \<exists>y\<in>set zs. ?lt y then Some (last_or x (takeWhile (\<lambda>y. \<not> ?lt y) zs)) else None)"
      using find_place_iter [of t "idx t ITER_PREV" x zs "table_fuel t" "\<lambda>y. cmp (es_of t ! e) y < 0"] d xz f s by auto
    show ?thesis
    proof (cases "?lt x")
      case t: True
      then have "xs = []" using xs True xz by (simp add: front_part_def)
      then show ?thesis using t True hd e by (simp add: insert_sorted_def ptr_last_def)
    next
      case nx: False
      show ?thesis
      proof (cases "?lt (last it)")
        case t: True
        have x1: "xs = x # takeWhile (\<lambda>y. \<not> ?lt y) zs" using xs True xz nx t by (simp add: front_part_def)
        have "zs \<noteq> []" using t nx xz by auto
        then have ex: "\<exists>y\<in>set zs. ?lt y" using t xz last_in_set [of zs] by auto
        have "last_or x (takeWhile (\<lambda>y. \<not> ?lt y) zs) = last xs"
          using last_or_last [of xs INVALID] unfolding x1 by simp
        then have "ptr_last xs = Some (last_or x (takeWhile (\<lambda>y. \<not> ?lt y) zs))" by (simp add: ptr_last_def x1)
        then show ?thesis
          using nx t True hd tl e ex fp d(1) xz by (simp add: insert_sorted_def Let_def)
      next
        case nl: False
        then have "xs = it" using xs nx xz by (simp add: front_part_def)
        then show ?thesis using nx nl True hd tl e ptr_last_iter [OF l s] by (simp add: insert_sorted_def Let_def)
      qed
    qed
  qed
  then show ?thesis using InsertIterationEntry_lay [of t xs ys e] l s e it that by metis
qed

abbreviation kv_of :: "('k, 'v) ht \<Rightarrow> nat \<Rightarrow> 'k \<times> 'v" where
  "kv_of t i \<equiv> (ky t i, vl t i)"

lemma pairs_kv_of: "pairs t it = map (kv_of t) it"
  by (simp add: pairs_def)

lemma table_fuel_slots': "0 < slots_of t \<Longrightarrow> table_fuel t = Suc (slots_of t)"
  using slots_Some [of 0 t] by (simp add: table_fuel_def slots_of_def)

lemma InsertIterationEntryAux_lay:
  assumes l: "iter_lay t it" and s: "sized t" and e: "e < slots_of t" "e \<notin> set it"
    and xs: "xs = front_part (t_autosort t) (\<lambda>i. ecmp C (t_cookie t) (kv_of t e) (kv_of t i) < 0) it" and it: "it = xs @ ys"
  obtains t' where "InsertIterationEntryAux C t e = Ok t'" "same_slots t t'" "iter_lay t' (xs @ e # ys)" "t_objs t' = t_objs t"
proof -
  have f: "table_fuel t > length it"
  proof -
    have "card (set it) \<le> card {..<slots_of t}" using iter_layD(3) [OF l] by (intro card_mono) auto
    then show ?thesis using distinct_card [OF iter_layD(2) [OF l]] table_fuel_slots' [of t] e(1) by simp
  qed
  show ?thesis
  proof (cases "c_sub C")
    case Plain
    then have "xs = it" "ys = []" using xs it by (auto simp: ecmp_def front_part_def)
    then show ?thesis
      using InsertIterationEntry_lay [of t it "[]" e] l s e that Plain
      by (auto simp: InsertIterationEntryAux_def ptr_last_iter [OF l s])
  next
    case (OrderedKeys g)
    let ?cmp = "\<lambda>x y. g (e_key x) (e_key y) (t_cookie t)"
    have "xs = front_part (t_autosort t) (\<lambda>i. ?cmp (es_of t ! e) (es_of t ! i) < 0) it"
      using xs OrderedKeys by (simp add: ecmp_def ky_def)
    from insert_sorted_lay [where cmp = ?cmp, OF l s f e this it] obtain t' where
      "insert_sorted ?cmp t e = Ok t'" "same_slots t t'" "iter_lay t' (xs @ e # ys)" "t_objs t' = t_objs t" by blast
    then show ?thesis using that [of t'] OrderedKeys by (simp add: InsertIterationEntryAux_def)
  next
    case (OrderedValues g)
    let ?cmp = "\<lambda>x y. g (e_value x) (e_value y) (t_cookie t)"
    have "xs = front_part (t_autosort t) (\<lambda>i. ?cmp (es_of t ! e) (es_of t ! i) < 0) it"
      using xs OrderedValues by (simp add: ecmp_def vl_def)
    from insert_sorted_lay [where cmp = ?cmp, OF l s f e this it] obtain t' where
      "insert_sorted ?cmp t e = Ok t'" "same_slots t t'" "iter_lay t' (xs @ e # ys)" "t_objs t' = t_objs t" by blast
    then show ?thesis using that [of t'] OrderedValues by (simp add: InsertIterationEntryAux_def)
  qed
qed

lemma front_part_cong:
  assumes "\<And>x. x \<in> set xs \<Longrightarrow> P x = Q x"
  shows "front_part a P xs = front_part a Q xs"
  using assms by (auto simp: front_part_def intro!: takeWhile_cong)

text \<open>A new entry in a table with a free slot, at any end of the free list.\<close>

definition put_new :: "('k, 'v) ht_class \<Rightarrow> ('k, 'v) ht \<Rightarrow> nat \<Rightarrow> 'k \<Rightarrow> 'v \<Rightarrow> (nat \<times> ('k, 'v) ht) outcome" where
  "put_new C t h key v = obind (PutAuxAux t h key v) (\<lambda>(e, t).
     obind (InsertIterationEntryAux C t e) (\<lambda>t. Ok (e, t\<lparr>t_items := add32 (t_items t) 1\<rparr>)))"

lemma put_new_alloc:
  assumes r: "ht_alloc C t it" and n: "length it < t_size t" and k: "key \<notin> ky t ` set it"
  obtains e t' xs ys where "put_new C t (ComputeHash C key) key v = Ok (e, t')" "it = xs @ ys"
    "xs = front_part (t_autosort t) (\<lambda>i. ecmp C (t_cookie t) (key, v) (kv_of t i) < 0) it"
    "ht_alloc C t' (xs @ e # ys)" "e \<notin> set it" "kv_of t' e = (key, v)" "\<And>i. i \<in> set it \<Longrightarrow> kv_of t' i = kv_of t i"
    "keep t t'" "t_objs t' = t_objs t"
proof -
  obtain fl ch where l: "slot_lay t (set it) fl ch" "iter_lay t it" "t_items t = length it" "keyed C t (set it)"
    using ht_allocE [OF r] by metis
  note d = slot_layD [OF l(1)]
  let ?h = "ComputeHash C key"
  have "fl \<noteq> []"
  proof
    assume "fl = []"
    then have "card (set it) = slots_of t" using d(5) by simp
    then show False using n d(2) distinct_card [OF iter_layD(2) [OF l(2)]] by simp
  qed
  moreover have "?h \<noteq> INVALID" using ComputeHash_range [of C key] by simp
  ultimately obtain e fl' ch' t1 where t1: "PutAuxAux t ?h key v = Ok (e, t1)" "e \<in> set fl" "filled t t1 e ?h key v"
    "slot_lay t1 (insert e (set it)) fl' ch'" using PutAuxAux_lay [OF l(1)] by metis
  have fr: "put_frame t t1" using t1(3) by (simp add: filled_def)
  note f = put_frameD [OF fr]
  have ei: "e \<notin> set it" using t1(2) d(4) by blast
  have i1: "iter_lay t1 it" by (rule iter_lay_cong [OF l(2)]) (use t1(3) f in \<open>simp_all add: filled_def\<close>)
  have e1: "e < slots_of t1" using slot_lay_in(2) [OF l(1) t1(2)] d(2) f(1) by simp
  have kv1: "kv_of t1 e = (key, v)" "\<And>i. i \<in> set it \<Longrightarrow> kv_of t1 i = kv_of t i \<and> hsh t1 i = hsh t i"
    using t1(3) ei by (auto simp: filled_def)
  define xs where "xs = front_part (t_autosort t) (\<lambda>i. ecmp C (t_cookie t) (key, v) (kv_of t i) < 0) it"
  obtain ys where ys: "it = xs @ ys" using front_part_prefix unfolding xs_def by blast
  have xs1: "xs = front_part (t_autosort t1) (\<lambda>i. ecmp C (t_cookie t1) (kv_of t1 e) (kv_of t1 i) < 0) it"
    unfolding xs_def using kv1 f by (auto intro!: front_part_cong)
  obtain t2 where t2: "InsertIterationEntryAux C t1 e = Ok t2" "same_slots t1 t2" "iter_lay t2 (xs @ e # ys)" "t_objs t2 = t_objs t1"
    using InsertIterationEntryAux_lay [OF i1 slot_layD(1) [OF t1(4)] e1 ei xs1 ys] by blast
  define t' where "t' = t2\<lparr>t_items := add32 (t_items t2) 1\<rparr>"
  have it2: "t_items t2 = length it" using t2(2) f l(3) by (auto simp: same_slots_def dest: iter_frameD)
  have "length it + 1 < 2 ^ 32" using n alloc_bounds(2) [OF r] index_mask_bound(2) [of "t_type t"] by linarith
  then have it': "t_items t' = length (xs @ e # ys)" using it2 ys by (simp add: t'_def)
  have set': "set (xs @ e # ys) = insert e (set it)" using ys by auto
  have s2: "slot_lay t2 (insert e (set it)) fl' ch'" by (rule same_slots_lay [OF t1(4) t2(2)])
  have "slot_lay t' (set (xs @ e # ys)) fl' ch'" unfolding set' by (rule slot_lay_cong [OF s2]) (simp_all add: t'_def)
  moreover have "iter_lay t' (xs @ e # ys)" by (rule iter_lay_cong [OF t2(3)]) (simp_all add: t'_def)
  moreover have kv': "ky t' = ky t1" "vl t' = vl t1" "hsh t' = hsh t1" using t2(2) by (simp_all add: t'_def same_slots_def)
  moreover have "keyed C t' (set (xs @ e # ys))"
  proof -
    have kt: "ky t1 i = ky t i" "hsh t1 i = hsh t i" if "i \<in> set it" for i using kv1(2) [OF that] by simp_all
    have "inj_on (ky t1) (insert e (set it))"
      using l(4) k kt kv1(1) by (auto simp: keyed_def inj_on_def image_iff)
    moreover have "hsh t1 i = ComputeHash C (ky t1 i)" if "i \<in> insert e (set it)" for i
      using that l(4) kt kv1(1) t1(3) by (auto simp: keyed_def filled_def)
    ultimately show ?thesis unfolding keyed_def set' kv'(1,3) by blast
  qed
  ultimately have al: "ht_alloc C t' (xs @ e # ys)" using it' unfolding ht_alloc_def by blast
  have run: "put_new C t ?h key v = Ok (e, t')" by (simp add: put_new_def t1(1) t2(1) t'_def)
  have kp: "keep t t'"
  proof -
    have "keep t t1" "keep t1 t2" "keep t2 t'" using fr t2(2) by (simp_all add: keepI same_slots_def t'_def)
    then show ?thesis by (blast intro: keep_trans)
  qed
  have ob: "t_objs t' = t_objs t" using t2(4) f by (simp add: t'_def)
  show ?thesis
    by (rule that [OF run ys xs_def al ei _ _ kp ob]) (use kv1 kv'(1,2) in simp_all)
qed

end
