(* ===== verification/Hash_Alloc.thy ===== *)
theory Hash_Alloc
  imports Hash_Put
begin

section \<open>Hashtable: the array is allocated on the first use\<close>

text \<open>
  \<^verbatim>\<open>EnsureTableAllocated\<close> gives an empty table whose free list runs through all slots in order and
  whose buckets start at their own slots.
\<close>

lemma dlseg_upt:
  assumes "\<And>i. a \<le> i \<Longrightarrow> i < b \<Longrightarrow> nx i = (if Suc i < b then Suc i else q) \<and> pv i = (if i = a then p else i - 1)"
  shows "dlseg nx pv p [a..<b] q"
  using assms
proof (induction "b - a" arbitrary: a p)
  case (Suc n)
  then have ab: "a < b" by simp
  have "dlseg nx pv a [Suc a..<b] q"
    by (rule Suc.hyps(1)) (use Suc.hyps(2) Suc.prems in auto)
  moreover have "nx a = first_or [Suc a..<b] q" "pv a = p"
    using Suc.prems [of a] ab by (cases "Suc a < b"; simp add: upt_conv_Cons)+
  ultimately show ?case using ab by (simp add: upt_conv_Cons)
qed simp

text \<open>What a table keeps when it gets an array.\<close>

definition same_conf :: "('k, 'v) ht \<Rightarrow> ('k, 'v) ht \<Rightarrow> bool" where
  "same_conf t t' \<longleftrightarrow> t_size t' = t_size t \<and> t_type t' = t_type t \<and> t_iters t' = t_iters t
     \<and> t_autosort t' = t_autosort t \<and> t_cookie t' = t_cookie t \<and> t_icount t' = t_icount t \<and> t_ithread t' = t_ithread t"

lemma same_conf_keep: "keep t t' \<Longrightarrow> same_conf t t'"
  by (simp add: keep_def same_conf_def)

lemma same_conf_refl [simp]: "same_conf t t"
  by (simp add: same_conf_def)

lemma same_conf_trans [trans]: "same_conf t t' \<Longrightarrow> same_conf t' t'' \<Longrightarrow> same_conf t t''"
  by (simp add: same_conf_def)

lemma CreateEntriesArray_ok:
  assumes "0 < sz" "sz \<le> index_mask ty"
  shows "CreateEntriesArray C ty sz = Ok ((map (NewEntry C ty) [0..<sz])[sz - 1 := (NewEntry C ty (sz - 1))
    \<lparr>e_indices := (e_indices (NewEntry C ty (sz - 1)))(BUCKET_NEXT := index_mask ty)\<rparr>])"
proof -
  have "sz < 2 ^ 32" using assms(2) index_mask_bound(2) by (rule le_less_trans)
  then have "sub32 sz 1 = sz - 1" using assms(1) by simp
  then show ?thesis using assms(1) by (simp add: CreateEntriesArray_def Let_def del: upt_Suc)
qed

lemma new_array_views:
  fixes t :: "('k, 'v) ht"
  assumes n: "0 < sz" "sz \<le> index_mask ty" and i: "i < sz"
    and t: "t_table t = Some ((map (NewEntry C ty) [0..<sz])[sz - 1 := (NewEntry C ty (sz - 1))
      \<lparr>e_indices := (e_indices (NewEntry C ty (sz - 1)))(BUCKET_NEXT := index_mask ty)\<rparr>])" "t_type t = ty"
  shows "slots_of t = sz" "hsh t i = INVALID" "idx t MAP_TO i = i" "idx t MAPPED_FROM i = i"
    "idx t BUCKET_NEXT i = (if Suc i < sz then Suc i else INVALID)" "idx t BUCKET_PREV i = (if i = 0 then INVALID else i - 1)"
proof -
  show "slots_of t = sz" by (simp add: slots_of_def es_of_def t)
  have m: "sz < 2 ^ 32" "i < index_mask ty" using n(2) index_mask_bound(2) [of ty] i by (blast intro: le_less_trans, simp)
  have e: "es_of t ! i = (if i = sz - 1 then (NewEntry C ty i)\<lparr>e_indices := (e_indices (NewEntry C ty i))(BUCKET_NEXT := index_mask ty)\<rparr>
      else NewEntry C ty i)"
    using i by (auto simp: es_of_def t nth_list_update)
  then show "hsh t i = INVALID" by (simp add: hsh_def NewEntry_def Let_def)
  show "idx t MAP_TO i = i" "idx t MAPPED_FROM i = i"
    using e m by (auto simp: idx_def NewEntry_def Let_def t(2))
  show "idx t BUCKET_NEXT i = (if Suc i < sz then Suc i else INVALID)"
  proof (cases "Suc i < sz")
    case True
    then have "Suc i < index_mask ty" using n(2) by linarith
    moreover have "add32 i 1 = Suc i" using True m(1) by simp
    ultimately show ?thesis using e True by (auto simp: idx_def NewEntry_def Let_def t(2))
  next
    case False
    then have "i = sz - 1" using i by linarith
    then show ?thesis using e False by (simp add: idx_def t(2))
  qed
  show "idx t BUCKET_PREV i = (if i = 0 then INVALID else i - 1)"
  proof (cases "i = 0")
    case True
    have "sub32 0 1 mod Suc (index_mask ty) = index_mask ty" by (cases ty) (simp_all add: sub32_def)
    then show ?thesis using e True by (auto simp: idx_def NewEntry_def Let_def t(2))
  next
    case False
    then have "sub32 i 1 = i - 1" using m i by simp
    then show ?thesis using e False m by (auto simp: idx_def NewEntry_def Let_def t(2))
  qed
qed

lemma EnsureTableAllocated_null:
  assumes n: "ht_null t" and c: "c_alloc C (t_size t)"
  obtains t' where "EnsureTableAllocated C t = Ok (B_NO_ERROR, t')" "ht_alloc C t' []" "same_conf t t'" "t_objs t' = t_objs t"
proof -
  let ?sz = "t_size t" and ?ty = "t_type t"
  have s: "0 < ?sz" "?sz \<le> index_mask ?ty" "t_table t = None" "t_items t = 0" "t_head t = INVALID" "t_tail t = INVALID"
    using n by (simp_all add: ht_null_def)
  define es where "es = (map (NewEntry C ?ty) [0..<?sz])[?sz - 1 := (NewEntry C ?ty (?sz - 1))
      \<lparr>e_indices := (e_indices (NewEntry C ?ty (?sz - 1)))(BUCKET_NEXT := index_mask ?ty)\<rparr>]"
  define t' where "t' = t\<lparr>t_table := Some es, t_free := 0\<rparr>"
  have run: "EnsureTableAllocated C t = Ok (B_NO_ERROR, t')"
    using s c CreateEntriesArray_ok [OF s(1,2), of C] by (simp add: EnsureTableAllocated_def t'_def es_def)
  have tt: "t_table t' = Some es" "t_type t' = ?ty" "t_size t' = ?sz" by (simp_all add: t'_def)
  note v = new_array_views [OF s(1,2) _ tt(1) [unfolded es_def] tt(2)]
  have sl: "slots_of t' = ?sz" using v(1) [OF s(1)] .
  have "free_lay t' [0..<?sz]"
  proof -
    have "dlist (idx t' BUCKET_NEXT) (idx t' BUCKET_PREV) [0..<?sz]" by (rule dlseg_upt) (use v(5,6) in auto)
    moreover have "t_free t' = first_or [0..<?sz] INVALID" using s(1) by (simp add: t'_def upt_conv_Cons)
    ultimately show ?thesis using sl by (auto simp: free_lay_def)
  qed
  moreover have "perm_lay t'" using v(3,4) sl by (simp add: perm_lay_def)
  moreover have "chain_lay t' {} b []" for b by (simp add: chain_lay_def in_bucket_def)
  ultimately have "slot_lay t' {} [0..<?sz] (\<lambda>b. [])"
    using sl s v(2) tt by (auto simp: slot_lay_def sized_def)
  moreover have "iter_lay t' []" using s by (simp add: iter_lay_def t'_def)
  ultimately have "ht_alloc C t' []" unfolding ht_alloc_def using s(4) by (auto simp: keyed_def t'_def)
  then show ?thesis using that [OF run] by (simp add: same_conf_def t'_def)
qed

lemma EnsureTableAllocated_rep:
  assumes r: "ht_rep C t it" and c: "t_table t = None \<Longrightarrow> c_alloc C (t_size t)"
  obtains t' where "EnsureTableAllocated C t = Ok (B_NO_ERROR, t')" "ht_alloc C t' it" "same_conf t t'" "t_objs t' = t_objs t"
    "pairs t' it = pairs t it"
proof (cases "ht_alloc C t it")
  case True
  then obtain fl ch where "slot_lay t (set it) fl ch" by (rule ht_allocE)
  then have "t_table t = Some (es_of t)" by (rule slot_lay_Some)
  then show ?thesis using that [of t] True by (simp add: EnsureTableAllocated_def)
next
  case False
  then have n: "it = []" "ht_null t" using r by (auto simp: ht_rep_def)
  obtain t' where "EnsureTableAllocated C t = Ok (B_NO_ERROR, t')" "ht_alloc C t' []" "same_conf t t'" "t_objs t' = t_objs t"
    by (rule EnsureTableAllocated_null [where C = C, OF n(2) c]) (use n(2) in \<open>simp add: ht_null_def\<close>)
  then show ?thesis using that [of t'] n(1) by simp
qed

subsection \<open>A new value for a key that the table has\<close>

text \<open>
  In a table sorted by values the entry is moved: to the front or in front of the run of larger entries
  right before it, or else to the end or behind the run of smaller entries right after it.
\<close>

definition settle :: "('a \<Rightarrow> bool) \<Rightarrow> ('a \<Rightarrow> bool) \<Rightarrow> 'a list \<Rightarrow> 'a \<Rightarrow> 'a list \<Rightarrow> 'a list" where
  "settle lower higher xs e ys =
     (if xs \<noteq> [] \<and> lower (last xs)
      then if lower (hd xs) then e # xs @ ys
           else rev (dropWhile lower (rev xs)) @ e # rev (takeWhile lower (rev xs)) @ ys
      else if ys \<noteq> [] \<and> higher (hd ys)
      then if higher (last ys) then xs @ ys @ [e] else xs @ takeWhile higher ys @ e # dropWhile higher ys
      else xs @ e # ys)"

lemma settle_map:
  "settle lower higher (map g xs) (g e) (map g ys) = map g (settle (\<lambda>i. lower (g i)) (\<lambda>i. higher (g i)) xs e ys)"
proof -
  have "takeWhile lower (rev (map g xs)) = map g (takeWhile (\<lambda>i. lower (g i)) (rev xs))"
    "dropWhile lower (rev (map g xs)) = map g (dropWhile (\<lambda>i. lower (g i)) (rev xs))"
    by (simp_all add: rev_map takeWhile_map dropWhile_map comp_def)
  then show ?thesis
    by (cases "xs = []"; cases "ys = []")
       (simp_all add: settle_def hd_map last_map takeWhile_map dropWhile_map comp_def rev_map)
qed

lemma set_settle: "set (settle lower higher xs e ys) = insert e (set xs \<union> set ys)"
proof -
  have *: "set (takeWhile P zs) \<union> set (dropWhile P zs) = set zs" for P and zs :: "'a list"
    by (metis set_append takeWhile_dropWhile_id)
  show ?thesis using * [of lower "rev xs"] * [of higher ys] by (auto simp: settle_def)
qed

lemma settle_cong:
  assumes "\<And>x. x \<in> set xs \<union> set ys \<Longrightarrow> l x = l' x \<and> h x = h' x"
  shows "settle l h xs e ys = settle l' h' xs e ys"
proof -
  have "takeWhile l (rev xs) = takeWhile l' (rev xs)" "dropWhile l (rev xs) = dropWhile l' (rev xs)"
    "takeWhile h ys = takeWhile h' ys" "dropWhile h ys = dropWhile h' ys"
    using assms by (auto intro!: takeWhile_cong dropWhile_cong)
  moreover have "xs \<noteq> [] \<Longrightarrow> l (last xs) = l' (last xs) \<and> l (hd xs) = l' (hd xs)"
    "ys \<noteq> [] \<Longrightarrow> h (last ys) = h' (last ys) \<and> h (hd ys) = h' (hd ys)" using assms by auto
  ultimately show ?thesis by (auto simp: settle_def)
qed

lemma slide_next:
  assumes "ht_alloc C t (xs @ b # ys)" "length ys < n"
  shows "slide go t ITER_NEXT n b = Ok (last (b # takeWhile (\<lambda>i. go (es_of t ! i)) ys))"
  using assms
proof (induction ys arbitrary: xs b n)
  case Nil
  then show ?case using alloc_links [OF Nil.prems(1)] by (cases n) (simp_all add: ptr_hd_def)
next
  case (Cons c ys)
  obtain m where n: "n = Suc m" using Cons.prems(2) by (cases n) auto
  have "ht_alloc C t ((xs @ [b]) @ c # ys)" using Cons.prems(1) by simp
  then have "slide go t ITER_NEXT m c = Ok (last (c # takeWhile (\<lambda>i. go (es_of t ! i)) ys))"
    by (rule Cons.IH) (use Cons.prems(2) n in simp)
  moreover have "c < slots_of t" by (rule alloc_links(1)) fact
  ultimately show ?case using alloc_links [OF Cons.prems(1)] n by (simp add: ptr_hd_def)
qed

lemma slide_prev:
  assumes "ht_alloc C t (xs @ b # ys)" "length xs < n"
  shows "slide go t ITER_PREV n b = Ok (last (b # takeWhile (\<lambda>i. go (es_of t ! i)) (rev xs)))"
  using assms
proof (induction xs arbitrary: ys b n rule: rev_induct)
  case Nil
  then show ?case using alloc_links [OF Nil.prems(1)] by (cases n) (simp_all add: ptr_last_def)
next
  case (snoc c xs)
  obtain m where n: "n = Suc m" using snoc.prems(2) by (cases n) auto
  have "ht_alloc C t (xs @ c # b # ys)" using snoc.prems(1) by simp
  then have "slide go t ITER_PREV m c = Ok (last (c # takeWhile (\<lambda>i. go (es_of t ! i)) (rev xs)))"
    by (rule snoc.IH) (use snoc.prems(2) n in simp)
  moreover have "c < slots_of t" by (rule alloc_links(1)) fact
  ultimately show ?case using alloc_links [OF snoc.prems(1)] n by (simp add: ptr_last_def)
qed

lemma table_fuel_alloc: "ht_alloc C t it \<Longrightarrow> table_fuel t = Suc (t_size t)"
  using table_fuel_slots by (auto simp: ht_alloc_def)

lemma neighbour_ok:
  assumes "ht_alloc C t (xs @ e # ys)"
  shows "neighbour t e ITER_PREV go = Ok (if xs \<noteq> [] \<and> go (es_of t ! last xs) then Some (last xs) else None)"
    "neighbour t e ITER_NEXT go = Ok (if ys \<noteq> [] \<and> go (es_of t ! hd ys) then Some (hd ys) else None)"
    "xs \<noteq> [] \<Longrightarrow> t_head t = hd xs \<and> hd xs < slots_of t" "ys \<noteq> [] \<Longrightarrow> t_tail t = last ys \<and> last ys < slots_of t"
proof -
  obtain fl ch where l: "slot_lay t (set (xs @ e # ys)) fl ch" "iter_lay t (xs @ e # ys)" using ht_allocE [OF assms] by metis
  have i: "i < slots_of t" if "i \<in> set xs \<union> set ys" for i using that iter_layD(3) [OF l(2)] by auto
  note a = alloc_links [OF assms]
  have "xs \<noteq> [] \<Longrightarrow> last xs < slots_of t" "ys \<noteq> [] \<Longrightarrow> hd ys < slots_of t" using i by simp_all
  then show "neighbour t e ITER_PREV go = Ok (if xs \<noteq> [] \<and> go (es_of t ! last xs) then Some (last xs) else None)"
    "neighbour t e ITER_NEXT go = Ok (if ys \<noteq> [] \<and> go (es_of t ! hd ys) then Some (hd ys) else None)"
    using a by (simp_all add: neighbour_def ptr_last_def ptr_hd_def)
  show "xs \<noteq> [] \<Longrightarrow> t_head t = hd xs \<and> hd xs < slots_of t"
    using i iter_layD(4) [OF l(2)] by (simp add: first_or_hd)
  show "ys \<noteq> [] \<Longrightarrow> t_tail t = last ys \<and> last ys < slots_of t"
    using i iter_layD(5) [OF l(2)] by (simp add: last_or_last)
qed

lemma last_takeWhile_split:
  assumes "xs \<noteq> []" "P (last xs)" "\<not> P (hd xs)"
  obtains us ws where "rev (dropWhile P (rev xs)) = us" "rev (takeWhile P (rev xs)) = last (last xs # takeWhile P (rev (butlast xs))) # ws"
    "xs = us @ last (last xs # takeWhile P (rev (butlast xs))) # ws"
proof -
  have r: "rev xs = last xs # rev (butlast xs)" using assms(1) by (metis append_butlast_last_id rev_eq_Cons_iff rev_rev_ident)
  have "takeWhile P (rev xs) = last xs # takeWhile P (rev (butlast xs))" using assms(2) unfolding r by simp
  then obtain ws where "takeWhile P (rev xs) = rev ws @ [last (last xs # takeWhile P (rev (butlast xs)))]"
    by (metis append_butlast_last_id list.distinct(1) rev_rev_ident)
  then have w: "rev (takeWhile P (rev xs)) = last (last xs # takeWhile P (rev (butlast xs))) # ws" by simp
  have "xs = rev (dropWhile P (rev xs)) @ rev (takeWhile P (rev xs))"
    by (metis rev_append rev_rev_ident takeWhile_dropWhile_id)
  then show ?thesis using that w by metis
qed

lemma reposition_alloc:
  fixes f :: "'v \<Rightarrow> 'v \<Rightarrow> nat \<Rightarrow> int"
  assumes a: "ht_alloc C t (xs @ e # ys)"
  obtains t' where "reposition f t e = Ok t'"
    "moved C t e (xs @ e # ys) (if t_autosort t
       then settle (\<lambda>i. f (vl t e) (vl t i) (t_cookie t) < 0) (\<lambda>i. f (vl t e) (vl t i) (t_cookie t) > 0) xs e ys
       else xs @ e # ys) t'"
proof (cases "t_autosort t")
  case False
  then show ?thesis using that [of t] moved_id [OF a] by (simp add: reposition_def)
next
  case auto: True
  let ?lo = "\<lambda>i. f (vl t e) (vl t i) (t_cookie t) < 0" and ?hi = "\<lambda>i. f (vl t e) (vl t i) (t_cookie t) > 0"
  let ?gl = "\<lambda>y. f (vl t e) (e_value y) (t_cookie t) < 0" and ?gh = "\<lambda>y. f (vl t e) (e_value y) (t_cookie t) > 0"
  have e: "ent t e = Ok (es_of t ! e)" "e_value (es_of t ! e) = vl t e" using alloc_links(1) [OF a] by (simp_all add: vl_def)
  have g: "?gl (es_of t ! i) = ?lo i" "?gh (es_of t ! i) = ?hi i" for i by (simp_all add: vl_def)
  have fuel: "length xs < table_fuel t" "length ys < table_fuel t"
    using alloc_bounds(1) [OF a] table_fuel_alloc [OF a] by simp_all
  note nb = neighbour_ok [OF a]
  note unf = reposition_def Let_def e obind_simps
  consider (front) "xs \<noteq> []" "?lo (last xs)" "?lo (hd xs)" | (before) "xs \<noteq> []" "?lo (last xs)" "\<not> ?lo (hd xs)"
    | (to_end) "\<not> (xs \<noteq> [] \<and> ?lo (last xs))" "ys \<noteq> []" "?hi (hd ys)" "?hi (last ys)"
    | (behind) "\<not> (xs \<noteq> [] \<and> ?lo (last xs))" "ys \<noteq> []" "?hi (hd ys)" "\<not> ?hi (last ys)"
    | (stay) "\<not> (xs \<noteq> [] \<and> ?lo (last xs))" "\<not> (ys \<noteq> [] \<and> ?hi (hd ys))" by blast
  then show ?thesis
  proof cases
    case front
    obtain t' where "MoveToFrontAux t e = Ok t'" "moved C t e (xs @ e # ys) (e # xs @ ys) t'" by (rule MoveToFrontAux_alloc [OF a])
    then show ?thesis using that [of t'] front auto nb g unfolding unf by (simp add: settle_def)
  next
    case to_end
    obtain t' where "MoveToBackAux t e = Ok t'" "moved C t e (xs @ e # ys) (xs @ ys @ [e]) t'" by (rule MoveToBackAux_alloc [OF a])
    then show ?thesis using that [of t'] to_end auto nb g unfolding unf by (auto simp: settle_def)
  next
    case before
    let ?b = "last (last xs # takeWhile ?lo (rev (butlast xs)))"
    obtain us ws where s: "rev (dropWhile ?lo (rev xs)) = us" "rev (takeWhile ?lo (rev xs)) = ?b # ws" "xs = us @ ?b # ws"
      using last_takeWhile_split [OF before] by blast
    have xs: "xs @ e # ys = butlast xs @ last xs # e # ys" using before(1) by simp
    have "slide ?gl t ITER_PREV (table_fuel t) (last xs) = Ok ?b"
      using slide_prev [OF a [unfolded xs], where go = ?gl and n = "table_fuel t"] fuel unfolding g by simp
    moreover have "xs @ ys = us @ ?b # (ws @ ys)" using s(3) by (metis append.assoc append_Cons)
    from MoveToBeforeAux_alloc [OF a this] obtain t' where "MoveToBeforeAux t e ?b = Ok t'"
      "moved C t e (xs @ e # ys) (us @ e # ?b # ws @ ys) t'" by blast
    moreover have "settle ?lo ?hi xs e ys = us @ e # ?b # ws @ ys" using before s(1,2) by (simp add: settle_def del: last.simps)
    ultimately show ?thesis using that [of t'] before auto nb(1,3) g unfolding unf by (simp del: last.simps)
  next
    case behind
    let ?b = "last (hd ys # takeWhile ?hi (tl ys))"
    have ys: "ys = hd ys # tl ys" using behind by simp
    have tw: "takeWhile ?hi ys = hd ys # takeWhile ?hi (tl ys)" using behind(3) by (subst ys) simp
    define us where "us = butlast (takeWhile ?hi ys)"
    define ws where "ws = dropWhile ?hi ys"
    have b: "takeWhile ?hi ys = us @ [?b]" unfolding us_def tw by (simp del: last.simps butlast.simps)
    have al: "ht_alloc C t ((xs @ [e]) @ hd ys # tl ys)" using a ys by simp
    have "slide ?gh t ITER_NEXT (table_fuel t) (hd ys) = Ok ?b"
      using slide_next [OF al, where go = ?gh and n = "table_fuel t"] fuel unfolding g by simp
    moreover have "xs @ ys = (xs @ us) @ ?b # ws" using b takeWhile_dropWhile_id [of ?hi ys] by (simp add: ws_def del: last.simps takeWhile_dropWhile_id)
    from MoveToBehindAux_alloc [OF a this] obtain t' where "MoveToBehindAux t e ?b = Ok t'"
      "moved C t e (xs @ e # ys) ((xs @ us) @ ?b # e # ws) t'" by blast
    moreover have "settle ?lo ?hi xs e ys = (xs @ us) @ ?b # e # ws" using behind b by (auto simp: settle_def ws_def simp del: last.simps)
    ultimately show ?thesis using that [of t'] behind auto nb g unfolding unf by (auto simp del: last.simps)
  next
    case stay
    then show ?thesis using that [of t] moved_id [OF a] auto nb g unfolding unf by (auto simp: settle_def)
  qed
qed

subsection \<open>\<^verbatim>\<open>PutAux\<close> when there is room\<close>

text \<open>What putting a pair does to the list of pairs.\<close>

definition put_pairs :: "('k, 'v) ht_class \<Rightarrow> bool \<Rightarrow> nat \<Rightarrow> 'k \<Rightarrow> 'v \<Rightarrow> ('k \<times> 'v) list \<Rightarrow> ('k \<times> 'v) list" where
  "put_pairs C autosort cookie k v ps =
     (if k \<in> fst ` set ps
      then let us = takeWhile (\<lambda>kv. fst kv \<noteq> k) ps; ws = tl (dropWhile (\<lambda>kv. fst kv \<noteq> k) ps) in
           (case c_sub C of
              OrderedValues f \<Rightarrow> if autosort
                then settle (\<lambda>kv. f v (snd kv) cookie < 0) (\<lambda>kv. f v (snd kv) cookie > 0) us (k, v) ws
                else us @ (k, v) # ws
            | _ \<Rightarrow> us @ (k, v) # ws)
      else let us = front_part autosort (\<lambda>kv. ecmp C cookie (k, v) kv < 0) ps in us @ (k, v) # drop (length us) ps)"

lemma set_value_alloc:
  assumes a: "ht_alloc C t it" and e: "e \<in> set it"
  shows "ht_alloc C (set_kv t e (hsh t e) (ky t e) v) it" "keep t (set_kv t e (hsh t e) (ky t e) v)"
    "t_objs (set_kv t e (hsh t e) (ky t e) v) = t_objs t"
proof -
  let ?t = "set_kv t e (hsh t e) (ky t e) v"
  obtain fl ch where l: "slot_lay t (set it) fl ch" "iter_lay t it" "t_items t = length it" "keyed C t (set it)"
    using ht_allocE [OF a] by metis
  have s: "e < slots_of t" using alloc_bounds(4) [OF a] e by blast
  have tb: "tab t ?t" by (simp add: set_kv_def tab_put_ent)
  note d = tabD [OF tb]
  show "keep t ?t" "t_objs ?t = t_objs t" using keepI(3) [OF tb] d by simp_all
  have "slot_lay ?t (set it) fl ch" by (rule slot_lay_cong [OF l(1)]) (use d s in simp_all)
  moreover have "iter_lay ?t it" by (rule iter_lay_cong [OF l(2)]) (use d s in simp_all)
  moreover have "keyed C ?t (set it)" using l(4) s by (simp add: keyed_def)
  ultimately show "ht_alloc C ?t it" using l(3) d unfolding ht_alloc_def by auto
qed

lemma put_pairs_found:
  assumes "ht_alloc C t (xs @ e # ys)"
  shows "takeWhile (\<lambda>kv. fst kv \<noteq> ky t e) (pairs t (xs @ e # ys)) = pairs t xs"
    "tl (dropWhile (\<lambda>kv. fst kv \<noteq> ky t e) (pairs t (xs @ e # ys))) = pairs t ys"
    "ky t e \<in> fst ` set (pairs t (xs @ e # ys))" "map_of (pairs t (xs @ e # ys)) (ky t e) = Some (vl t e)"
proof -
  have d: "inj_on (ky t) (set (xs @ e # ys))" "e \<notin> set xs"
    using assms alloc_links(7) [OF assms] by (auto simp: ht_alloc_def keyed_def)
  have "ky t i \<noteq> ky t e" if "i \<in> set xs" for i using d that by (auto simp: inj_on_def)
  then have "\<And>kv. kv \<in> set (pairs t xs) \<Longrightarrow> fst kv \<noteq> ky t e" by (auto simp: pairs_def)
  then show "takeWhile (\<lambda>kv. fst kv \<noteq> ky t e) (pairs t (xs @ e # ys)) = pairs t xs"
    "tl (dropWhile (\<lambda>kv. fst kv \<noteq> ky t e) (pairs t (xs @ e # ys))) = pairs t ys"
    by (simp_all add: takeWhile_append2 dropWhile_append2)
  show "ky t e \<in> fst ` set (pairs t (xs @ e # ys))" by simp
  show "map_of (pairs t (xs @ e # ys)) (ky t e) = Some (vl t e)" by (rule map_of_pairs [OF d(1)]) simp
qed

lemma put_replace_alloc:
  assumes a: "ht_alloc C t (xs @ e # ys)"
  obtains t' it' where "RepositionAux C (set_kv t e (hsh t e) (ky t e) v) e = Ok t'"
    "ht_alloc C t' it'" "e \<in> set it'" "kv_of t' e = (ky t e, v)" "keep t t'"
    "pairs t' it' = put_pairs C (t_autosort t) (t_cookie t) (ky t e) v (pairs t (xs @ e # ys))"
proof -
  let ?t = "set_kv t e (hsh t e) (ky t e) v"
  have s: "e < slots_of t" by (rule alloc_links(1) [OF a])
  note b = set_value_alloc [OF a, of e v]
  have al: "ht_alloc C ?t (xs @ e # ys)" using b(1) by simp
  have kp: "keep t ?t" using b(2) by simp
  note kk = keepD [OF kp]
  have ne: "e \<notin> set xs \<union> set ys" using alloc_links(7) [OF a] by auto
  have kv: "ky ?t = ky t" "vl ?t = (vl t)(e := v)" using s by simp_all
  have pr: "pairs ?t xs = pairs t xs" "pairs ?t ys = pairs t ys" using ne kv by (auto simp: pairs_def)
  note f = put_pairs_found [OF a]
  show ?thesis
  proof (cases "\<exists>g. c_sub C = OrderedValues g")
    case False
    then have "RepositionAux C ?t e = Ok ?t" by (cases "c_sub C") (auto simp: RepositionAux_def)
    moreover have "pairs ?t (xs @ e # ys) = put_pairs C (t_autosort t) (t_cookie t) (ky t e) v (pairs t (xs @ e # ys))"
      using False f kv pr by (cases "c_sub C") (auto simp: put_pairs_def Let_def)
    ultimately show ?thesis using that [of ?t "xs @ e # ys"] al kp kv by simp
  next
    case True
    then obtain g where g: "c_sub C = OrderedValues g" by blast
    let ?it = "if t_autosort ?t
       then settle (\<lambda>i. g (vl ?t e) (vl ?t i) (t_cookie ?t) < 0) (\<lambda>i. g (vl ?t e) (vl ?t i) (t_cookie ?t) > 0) xs e ys
       else xs @ e # ys"
    obtain t' where t': "reposition g ?t e = Ok t'" "moved C ?t e (xs @ e # ys) ?it t'"
      by (rule reposition_alloc [OF al, of g])
    note m = movedD [OF t'(2)]
    have kp': "keep t t'" by (rule keep_trans [OF kp m(3)])
    have "pairs ?t ?it = put_pairs C (t_autosort t) (t_cookie t) (ky t e) v (pairs t (xs @ e # ys))"
    proof -
      have "pairs ?t (settle (\<lambda>i. g (vl ?t e) (vl ?t i) (t_cookie ?t) < 0) (\<lambda>i. g (vl ?t e) (vl ?t i) (t_cookie ?t) > 0) xs e ys)
        = settle (\<lambda>kv. g v (snd kv) (t_cookie t) < 0) (\<lambda>kv. g v (snd kv) (t_cookie t) > 0) (pairs ?t xs) (ky t e, v) (pairs ?t ys)"
        using kv kk settle_map [of "\<lambda>kv. g v (snd kv) (t_cookie t) < 0" "\<lambda>kv. g v (snd kv) (t_cookie t) > 0" "kv_of ?t" xs e ys]
        by (simp add: pairs_def)
      then show ?thesis using g f kv kk pr by (simp add: put_pairs_def Let_def)
    qed
    moreover have "e \<in> set ?it" by (simp add: set_settle)
    ultimately show ?thesis using that [of t' ?it] t'(1) m(1,2,4,5) kv kp' g by (simp add: RepositionAux_def)
  qed
qed

lemma obind_obind: "obind (obind m f) g = obind m (\<lambda>x. obind (f x) g)"
  by (cases m) simp_all

lemma put_body_rep:
  assumes r: "ht_rep C t it" and k: "keq_ok C" and c: "t_table t = None \<Longrightarrow> c_alloc C (t_size t)"
    and n: "key \<in> fst ` set (pairs t it) \<or> length it < t_size t"
  obtains e t' it' where
    "put_body C ensure again t (ComputeHash C key) key (VObj v) = Ok (Some e, map_of (pairs t it) key, t')"
    "ht_alloc C t' it'" "e \<in> set it'" "kv_of t' e = (key, v)" "same_conf t t'"
    "pairs t' it' = put_pairs C (t_autosort t) (t_cookie t) key v (pairs t it)"
    "key \<notin> fst ` set (pairs t it) \<Longrightarrow> t_objs t' = t_objs t \<and> (\<not> t_autosort t \<longrightarrow> it' = it @ [e])
       \<and> (\<forall>i \<in> set it. i \<in> set it' \<and> kv_of t' i = kv_of t i)"
proof -
  obtain t1 where t1: "EnsureTableAllocated C t = Ok (B_NO_ERROR, t1)" "ht_alloc C t1 it" "same_conf t t1" "t_objs t1 = t_objs t"
    "pairs t1 it = pairs t it" by (rule EnsureTableAllocated_rep [OF r c])
  have r1: "ht_rep C t1 it" using t1(2) by (simp add: ht_rep_def)
  have cf: "t_autosort t1 = t_autosort t" "t_cookie t1 = t_cookie t" "t_size t1 = t_size t" using t1(3) by (simp_all add: same_conf_def)
  note unf = put_body_def t1(1) obind_simps prod.case
  show ?thesis
  proof (rule GetEntry_rep [OF r1 k, of key])
    fix e assume e: "e \<in> set it" "ky t1 e = key" "GetEntry C t1 (ComputeHash C key) key = Ok (Some e)"
      "map_of (pairs t1 it) key = Some (vl t1 e)" "e < slots_of t1"
    obtain xs ys where it: "it = xs @ e # ys" using split_list [OF e(1)] by blast
    obtain t' it' where t': "RepositionAux C (set_kv t1 e (hsh t1 e) (ky t1 e) v) e = Ok t'"
      "ht_alloc C t' it'" "e \<in> set it'" "kv_of t' e = (ky t1 e, v)" "keep t1 t'"
      "pairs t' it' = put_pairs C (t_autosort t1) (t_cookie t1) (ky t1 e) v (pairs t1 (xs @ e # ys))"
      by (rule put_replace_alloc [OF t1(2) [unfolded it]])
    have kin: "key \<in> fst ` set (pairs t it)" using e(4) t1(5) by (metis domIff map_of_eq_None_iff option.distinct(1))
    have "put_body C ensure again t (ComputeHash C key) key (VObj v) = Ok (Some e, map_of (pairs t it) key, t')"
      using e t'(1) t1(5) unfolding unf by (simp add: vref_value_def put_value_eq vl_def)
    moreover have "same_conf t t'" using t1(3) same_conf_keep [OF t'(5)] by (rule same_conf_trans)
    ultimately show ?thesis using that [of e t' it'] t' e(2) cf t1(5) it kin by simp
  next
    assume a: "key \<notin> ky t1 ` set it" "GetEntry C t1 (ComputeHash C key) key = Ok None" "map_of (pairs t1 it) key = None"
    have ka: "key \<notin> fst ` set (pairs t it)" using a(3) unfolding t1(5) map_of_eq_None_iff .
    have ln: "length it < t_size t1" using n ka cf by simp
    obtain e t' xs ys where p: "put_new C t1 (ComputeHash C key) key v = Ok (e, t')" "it = xs @ ys"
      "xs = front_part (t_autosort t1) (\<lambda>i. ecmp C (t_cookie t1) (key, v) (kv_of t1 i) < 0) it"
      "ht_alloc C t' (xs @ e # ys)" "e \<notin> set it" "kv_of t' e = (key, v)" "\<And>i. i \<in> set it \<Longrightarrow> kv_of t' i = kv_of t1 i"
      "keep t1 t'" "t_objs t' = t_objs t1"
      using put_new_alloc [OF t1(2) ln a(1)] by blast
    have "t_items t1 \<noteq> t_size t1" using ln ht_rep_length [OF r1] by simp
    then have "put_body C ensure again t (ComputeHash C key) key (VObj v) =
        obind (put_new C t1 (ComputeHash C key) key v) (\<lambda>(e, t). Ok (Some e, None, t))"
      using a(2) unfolding unf put_new_def by (simp add: vref_value_def split_def obind_obind)
    then have run: "put_body C ensure again t (ComputeHash C key) key (VObj v) = Ok (Some e, map_of (pairs t it) key, t')"
      using p(1) a(3) t1(5) by simp
    have "pairs t' (xs @ e # ys) = pairs t1 xs @ (key, v) # pairs t1 ys"
      using p(6,7) unfolding p(2) by (simp add: pairs_def)
    also have "\<dots> = put_pairs C (t_autosort t) (t_cookie t) key v (pairs t it)"
    proof -
      have "front_part (t_autosort t) (\<lambda>kv. ecmp C (t_cookie t) (key, v) kv < 0) (pairs t1 it) = pairs t1 xs"
        using p(3) cf by (simp add: pairs_def front_part_map)
      moreover have "drop (length (pairs t1 xs)) (pairs t1 it) = pairs t1 ys" unfolding p(2) by simp
      ultimately show ?thesis using ka t1(5) by (simp add: put_pairs_def Let_def)
    qed
    finally have pr: "pairs t' (xs @ e # ys) = put_pairs C (t_autosort t) (t_cookie t) key v (pairs t it)" .
    have "same_conf t t'" using t1(3) same_conf_keep [OF p(8)] by (rule same_conf_trans)
    moreover have "\<not> t_autosort t \<Longrightarrow> ys = []" using p(2,3) cf by (simp add: front_part_def)
    moreover have "\<forall>i \<in> set it. i \<in> set (xs @ e # ys) \<and> kv_of t' i = kv_of t i"
    proof
      fix i assume i: "i \<in> set it"
      have "kv_of t1 i = kv_of t i" using t1(5) i unfolding pairs_kv_of map_eq_conv by blast
      then show "i \<in> set (xs @ e # ys) \<and> kv_of t' i = kv_of t i" using p(7) [OF i] i unfolding p(2) by auto
    qed
    ultimately show ?thesis using that [of e t' "xs @ e # ys"] run p(2,4,6,9) pr t1(4) by simp
  qed
qed

end
