(* ===== verification/Hash_Grow.thy ===== *)
theory Hash_Grow
  imports Hash_Alloc
begin

section \<open>Hashtable: growing and shrinking\<close>

text \<open>
  \<^verbatim>\<open>EnsureSize\<close> puts the entries, in their order, into a new table and takes over its array.  The pairs
  stay as they are, and the cookies of the registered iterators are redirected to the new entries.
\<close>

text \<open>The invariant does not depend on the iterators and on the settings of the order.\<close>

definition same_core :: "('k, 'v) ht \<Rightarrow> ('k, 'v) ht \<Rightarrow> bool" where
  "same_core t t' \<longleftrightarrow> t_items t' = t_items t \<and> t_size t' = t_size t \<and> t_type t' = t_type t \<and> t_table t' = t_table t
     \<and> t_head t' = t_head t \<and> t_tail t' = t_tail t \<and> t_free t' = t_free t"

lemma same_core_views:
  assumes "same_core t t'"
  shows "slots_of t' = slots_of t" "idx t' = idx t" "hsh t' = hsh t" "ky t' = ky t" "vl t' = vl t" "sized t' = sized t"
    "pairs t' = pairs t"
proof -
  have e: "es_of t' = es_of t" using assms by (simp add: es_of_def same_core_def)
  show v: "slots_of t' = slots_of t" "idx t' = idx t" "hsh t' = hsh t" "ky t' = ky t" "vl t' = vl t"
    using e assms by (simp_all add: fun_eq_iff slots_of_def idx_def hsh_def ky_def vl_def same_core_def)
  show "sized t' = sized t" using v(1) assms by (simp add: sized_def same_core_def)
  show "pairs t' = pairs t" using v by (simp add: fun_eq_iff pairs_def)
qed

lemma same_core_rep:
  assumes c: "same_core t t'" and r: "ht_rep C t it"
  shows "ht_rep C t' it"
proof -
  note v = same_core_views [OF c] and f = c [unfolded same_core_def]
  show ?thesis
  proof (cases "ht_alloc C t it")
    case True
    obtain fl ch where l: "slot_lay t (set it) fl ch" "iter_lay t it" "t_items t = length it" "keyed C t (set it)"
      using ht_allocE [OF True] by metis
    have "slot_lay t' (set it) fl ch" by (rule slot_lay_cong [OF l(1)]) (use v f in simp_all)
    moreover have "iter_lay t' it" by (rule iter_lay_cong [OF l(2)]) (use v f in simp_all)
    moreover have "keyed C t' (set it)" using l(4) v by (simp add: keyed_def)
    ultimately show ?thesis using l(3) f unfolding ht_rep_def ht_alloc_def by metis
  next
    case False
    then show ?thesis using r f by (simp add: ht_rep_def ht_null_def)
  qed
qed

text \<open>The iterators while the entries move.\<close>

lemma set_spaces_eq:
  "set_spaces t here p ns = t\<lparr>t_objs := (\<lambda>n. if n \<in> set ns \<and> here (i_cookie (t_objs t n))
     then (t_objs t n)\<lparr>i_space := p\<rparr> else t_objs t n)\<rparr>"
proof (induction ns arbitrary: t)
  case (Cons n ns)
  show ?case by (auto simp: Cons.IH fun_eq_iff intro!: ht.equality)
qed simp

definition respace :: "(nat \<times> nat) list \<Rightarrow> ('k, 'v) hiter \<Rightarrow> ('k, 'v) hiter" where
  "respace clones it = (case i_cookie it of
     EAt e \<Rightarrow> (case map_of clones e of Some c \<Rightarrow> it\<lparr>i_space := EAt c\<rparr> | None \<Rightarrow> it) | _ \<Rightarrow> it)"

lemma respace_sel [simp]: "i_cookie (respace m it) = i_cookie it"
  by (auto simp: respace_def split: eptr.splits option.splits)

lemma respace_Cons:
  assumes "e \<notin> fst ` set m"
  shows "respace m (if i_cookie it = EAt e then it\<lparr>i_space := EAt c\<rparr> else it) = respace ((e, c) # m) it"
proof -
  have "map_of m e = None" using assms by (simp add: map_of_eq_None_iff)
  then show ?thesis by (auto simp: respace_def split: eptr.splits)
qed

lemma respace_Nil [simp]: "respace [] it = it"
  by (auto simp: respace_def split: eptr.splits)

lemma ht_objs_id: "t\<lparr>t_objs := t_objs t\<rparr> = t"
  by simp

lemma rep_kv:
  assumes "ht_alloc C t (xs @ e # ys)"
  shows "hsh t e = ComputeHash C (ky t e)" "ky t e \<notin> fst ` set (pairs t xs)"
proof -
  have k: "keyed C t (set (xs @ e # ys))" "distinct (xs @ e # ys)"
    using assms alloc_links(7) [OF assms] by (auto simp: ht_alloc_def)
  show "hsh t e = ComputeHash C (ky t e)" using k(1) by (simp add: keyed_def)
  have "inj_on (ky t) (set (xs @ e # ys))" "e \<notin> set xs" using k by (auto simp: keyed_def)
  then have "ky t i \<noteq> ky t e" if "i \<in> set xs" for i using that by (auto simp: inj_on_def)
  then have "ky t e \<notin> ky t ` set xs" by (metis imageE)
  then show "ky t e \<notin> fst ` set (pairs t xs)" by (simp add: pairs_def image_image)
qed

lemma put_pairs_append:
  "k \<notin> fst ` set ps \<Longrightarrow> put_pairs C False cookie k v ps = ps @ [(k, v)]"
  by (simp add: put_pairs_def front_part_def)

lemma move_entries_rep:
  assumes put: "\<And>b h k v. put b h k v = put_body C ensure again b h k v" and k: "keq_ok C"
    and a: "ht_alloc C t (us @ ws) \<or> us @ ws = []" and n: "length ws < n"
    and b: "ht_rep C b ib" "pairs b ib = pairs t us" "\<not> t_autosort b" "length (us @ ws) \<le> t_size b" "c_alloc C (t_size b)"
  shows "\<exists>b' cs. move_entries put n t b (ptr_hd ws) =
      Ok (B_NO_ERROR, t\<lparr>t_objs := (\<lambda>n. if n \<in> set (t_iters t) then respace (zip ws cs) (t_objs t n) else t_objs t n)\<rparr>, b')
      \<and> length cs = length ws \<and> ht_rep C b' (ib @ cs) \<and> pairs b' (ib @ cs) = pairs t (us @ ws) \<and> same_conf b b' \<and> t_objs b' = t_objs b"
  using a n b
proof (induction ws arbitrary: t us b ib n)
  case Nil
  then obtain m where "n = Suc m" by (cases n) auto
  moreover have o: "(\<lambda>n. if n \<in> set (t_iters t) then respace (zip [] []) (t_objs t n) else t_objs t n) = t_objs t"
    by (intro ext) simp
  ultimately have "move_entries put n t b (ptr_hd []) = Ok (B_NO_ERROR, t, b)" by (simp add: ptr_hd_def)
  then show ?case using Nil.prems(3,4) unfolding append_Nil2
    by (intro exI [of _ b] exI [of _ "[]"]) (simp only: o ht_objs_id append_Nil2 same_conf_refl list.size simp_thms)
next
  case (Cons e ws)
  obtain m where n: "n = Suc m" using Cons.prems(2) by (cases n) auto
  have al: "ht_alloc C t (us @ e # ws)" using Cons.prems(1) by simp
  note l = alloc_links [OF al]
  have kn: "ky t e \<notin> fst ` set (pairs b ib)" using rep_kv(2) [OF al] Cons.prems(4) by simp
  have "length ib = length us" using arg_cong [OF Cons.prems(4), of length] by simp
  then have room: "length ib < t_size b" using Cons.prems(6) by simp
  obtain c b1 ib1 where p: "put_body C ensure again b (ComputeHash C (ky t e)) (ky t e) (VObj (vl t e)) = Ok (Some c, map_of (pairs b ib) (ky t e), b1)"
    "ht_alloc C b1 ib1" "same_conf b b1"
    "pairs b1 ib1 = put_pairs C (t_autosort b) (t_cookie b) (ky t e) (vl t e) (pairs b ib)"
    "t_objs b1 = t_objs b" "ib1 = ib @ [c]"
    using put_body_rep [OF Cons.prems(3) k Cons.prems(7), of "ky t e" ensure again "vl t e"] kn room Cons.prems(5) by metis
  define t1 where "t1 = set_spaces t (\<lambda>p. p = EAt e) (EAt c) (t_iters t)"
  have t1: "t1 = t\<lparr>t_objs := t_objs t1\<rparr>"
    "t_objs t1 = (\<lambda>n. if n \<in> set (t_iters t) \<and> i_cookie (t_objs t n) = EAt e then (t_objs t n)\<lparr>i_space := EAt c\<rparr> else t_objs t n)"
    by (simp_all add: t1_def set_spaces_eq)
  have co: "same_core t t1" "t_iters t1 = t_iters t" by (subst t1(1), simp add: same_core_def)+
  note v = same_core_views [OF co(1)]
  have pb: "pairs b1 ib1 = pairs t1 (us @ [e])"
    using p(4) put_pairs_append [OF kn] Cons.prems(4,5) v by simp
  have al1: "ht_alloc C t1 ((us @ [e]) @ ws) \<or> (us @ [e]) @ ws = []"
  proof -
    have "ht_rep C t (us @ e # ws)" using al by (simp add: ht_rep_def)
    from same_core_rep [OF co(1) this] show ?thesis by (simp add: ht_rep_def)
  qed
  have conf: "t_size b1 = t_size b" "t_autosort b1 = t_autosort b" using p(3) by (simp_all add: same_conf_def)
  have "\<exists>b' cs. move_entries put m t1 b1 (ptr_hd ws) =
      Ok (B_NO_ERROR, t1\<lparr>t_objs := (\<lambda>n. if n \<in> set (t_iters t1) then respace (zip ws cs) (t_objs t1 n) else t_objs t1 n)\<rparr>, b')
      \<and> length cs = length ws \<and> ht_rep C b' (ib1 @ cs) \<and> pairs b' (ib1 @ cs) = pairs t1 ((us @ [e]) @ ws) \<and> same_conf b1 b' \<and> t_objs b' = t_objs b1"
    by (rule Cons.IH [OF al1]) (use Cons.prems p(2) pb n conf in \<open>simp_all add: ht_rep_def\<close>)
  then obtain b' cs where r: "move_entries put m t1 b1 (ptr_hd ws) =
      Ok (B_NO_ERROR, t1\<lparr>t_objs := (\<lambda>n. if n \<in> set (t_iters t1) then respace (zip ws cs) (t_objs t1 n) else t_objs t1 n)\<rparr>, b')"
    "length cs = length ws" "ht_rep C b' (ib1 @ cs)" "pairs b' (ib1 @ cs) = pairs t1 ((us @ [e]) @ ws)" "same_conf b1 b'" "t_objs b' = t_objs b1"
    by blast
  have e: "e_hash (es_of t ! e) = ComputeHash C (ky t e)" "e_key (es_of t ! e) = ky t e" "e_value (es_of t ! e) = vl t e"
    using rep_kv(1) [OF al] by (simp_all add: hsh_def ky_def vl_def)
  have "GetEntryChecked t1 e ITER_NEXT = Ok (ptr_hd ws)" using l v by simp
  then have "move_entries put n t b (ptr_hd (e # ws)) = move_entries put m t1 b1 (ptr_hd ws)"
    using l(1) p(1) by (simp add: n ptr_hd_def put e t1_def [symmetric] Let_def del: GetEntryChecked_ok)
  moreover have "t1\<lparr>t_objs := (\<lambda>n. if n \<in> set (t_iters t1) then respace (zip ws cs) (t_objs t1 n) else t_objs t1 n)\<rparr> =
    t\<lparr>t_objs := (\<lambda>n. if n \<in> set (t_iters t) then respace (zip (e # ws) (c # cs)) (t_objs t n) else t_objs t n)\<rparr>"
  proof -
    have "e \<notin> fst ` set (zip ws cs)" using l(7) by (auto dest: set_zip_leftD)
    then have "(\<lambda>n. if n \<in> set (t_iters t1) then respace (zip ws cs) (t_objs t1 n) else t_objs t1 n) =
      (\<lambda>n. if n \<in> set (t_iters t) then respace (zip (e # ws) (c # cs)) (t_objs t n) else t_objs t n)"
      by (intro ext) (simp add: t1(2) co(2) flip: respace_Cons [OF \<open>e \<notin> fst ` set (zip ws cs)\<close>])
    then show ?thesis by (subst t1(1)) simp
  qed
  moreover have "pairs b' (ib @ c # cs) = pairs t (us @ e # ws)" using r(4) p(6) v by simp
  moreover have "same_conf b b'" using p(3) r(5) by (rule same_conf_trans)
  ultimately show ?case
    using r p(5,6) by (intro exI [of _ b'] exI [of _ "c # cs"]) simp
qed

subsection \<open>\<^verbatim>\<open>EnsureSize\<close>\<close>

lemma index_mask_for: "sz < 2 ^ 32 \<Longrightarrow> sz \<le> index_mask (ComputeTableIndexTypeForTableSize sz)"
  by (auto simp: ComputeTableIndexTypeForTableSize_def)

lemma NewTable_null:
  "0 < sz \<Longrightarrow> sz < 2 ^ 32 \<Longrightarrow>
   ht_null ((DefaultTable C ob)\<lparr>t_size := sz, t_type := ComputeTableIndexTypeForTableSize sz, t_autosort := s\<rparr>)"
  using index_mask_for [of sz] by (simp add: ht_null_def DefaultTable_def NewTable_def)

text \<open>What happens to an iterator of the table when the entries \<open>it\<close> become the entries \<open>it'\<close>.\<close>

definition redirected :: "(nat \<times> nat) list \<Rightarrow> ('k, 'v) hiter \<Rightarrow> ('k, 'v) hiter" where
  "redirected clones it =
     (let p = (case i_cookie it of EAt e \<Rightarrow> (case map_of clones e of Some c \<Rightarrow> EAt c | None \<Rightarrow> ENull) | _ \<Rightarrow> ENull)
      in (free_iter it)\<lparr>i_space := p, i_cookie := p\<rparr>)"

lemma redirected_respace:
  "(free_iter (respace m (it\<lparr>i_space := ENull\<rparr>)))\<lparr>i_cookie := i_space (respace m (it\<lparr>i_space := ENull\<rparr>))\<rparr> = redirected m it"
  by (auto simp: redirected_def respace_def free_iter_def Let_def split: eptr.splits option.splits intro!: hiter.equality)

definition same_order :: "('k, 'v) ht \<Rightarrow> ('k, 'v) ht \<Rightarrow> bool" where
  "same_order t t' \<longleftrightarrow> t_iters t' = t_iters t \<and> t_autosort t' = t_autosort t \<and> t_cookie t' = t_cookie t
     \<and> t_icount t' = t_icount t \<and> t_ithread t' = t_ithread t"

lemma same_order_conf: "same_conf t t' \<Longrightarrow> same_order t t'"
  by (simp add: same_conf_def same_order_def)

lemma same_order_trans [trans]: "same_order t t' \<Longrightarrow> same_order t' t'' \<Longrightarrow> same_order t t''"
  by (simp add: same_order_def)

lemma same_order_refl [simp]: "same_order t t"
  by (simp add: same_order_def)

lemma rep_head: "ht_rep C t it \<Longrightarrow> IndexToEntryChecked (t_head t) = ptr_hd it"
proof (cases "ht_alloc C t it")
  case True
  then obtain fl ch where "slot_lay t (set it) fl ch" "iter_lay t it" by (rule ht_allocE)
  then show ?thesis using ptr_hd_iter slot_layD(1) by blast
qed (auto simp: ht_rep_def ht_null_def ptr_hd_def)

lemma rep_fuel: "ht_rep C t it \<Longrightarrow> length it < table_fuel t"
  using alloc_bounds(1) table_fuel_alloc by (fastforce simp: ht_rep_def ht_null_def table_fuel_def)

lemma ensure_body_rep:
  assumes r: "ht_rep C t it" and k: "keq_ok C" and put: "\<And>b h k v. put b h k v = put_body C ensure again b h k v"
    and c: "c_alloc C sz" and sz: "sz = max (length it) req" "0 < sz" "sz < 2 ^ 32"
    and go: "\<not> (if allowShrink then req = t_size t else req \<le> t_size t)"
  obtains t' it' where "ensure_body C put t req allowShrink = Ok (B_NO_ERROR, t')" "ht_rep C t' it'"
    "pairs t' it' = pairs t it" "same_order t t'" "t_size t' = sz" "length it' = length it"
    "\<And>n. t_objs t' n = (if n \<in> set (t_iters t) then redirected (zip it it') (t_objs t n) else free_iter (t_objs t n))"
proof -
  define t0 where "t0 = set_spaces t (\<lambda>p. True) ENull (t_iters t)"
  have t0: "t0 = t\<lparr>t_objs := t_objs t0\<rparr>"
    "t_objs t0 = (\<lambda>n. if n \<in> set (t_iters t) then (t_objs t n)\<lparr>i_space := ENull\<rparr> else t_objs t n)"
    by (simp_all add: t0_def set_spaces_eq)
  have co: "same_core t t0" "t_iters t0 = t_iters t" "t_autosort t0 = t_autosort t" "t_cookie t0 = t_cookie t"
    "t_icount t0 = t_icount t" "t_ithread t0 = t_ithread t" by (subst t0(1), simp add: same_core_def)+
  have r0: "ht_rep C t0 it" by (rule same_core_rep [OF co(1) r])
  have i0: "t_items t0 = length it" by (rule ht_rep_length [OF r0])
  define b where "b = (DefaultTable C (t_objs t0))\<lparr>t_size := sz, t_type := ComputeTableIndexTypeForTableSize sz, t_autosort := False\<rparr>"
  have b: "ht_rep C b []" "t_size b = sz" "\<not> t_autosort b"
    using NewTable_null [OF sz(2,3), where C = C and ob = "t_objs t0" and s = False] by (simp_all add: b_def ht_rep_def)
  have "\<exists>b' cs. move_entries put (table_fuel t0) t0 b (ptr_hd it) =
      Ok (B_NO_ERROR, t0\<lparr>t_objs := (\<lambda>n. if n \<in> set (t_iters t0) then respace (zip it cs) (t_objs t0 n) else t_objs t0 n)\<rparr>, b')
      \<and> length cs = length it \<and> ht_rep C b' ([] @ cs) \<and> pairs b' ([] @ cs) = pairs t0 ([] @ it) \<and> same_conf b b' \<and> t_objs b' = t_objs b"
    by (rule move_entries_rep [OF put k]) (use r0 b sz(1) c rep_fuel [OF r0] in \<open>auto simp: ht_rep_def\<close>)
  then obtain b' cs where m: "move_entries put (table_fuel t0) t0 b (ptr_hd it) =
      Ok (B_NO_ERROR, t0\<lparr>t_objs := (\<lambda>n. if n \<in> set (t_iters t0) then respace (zip it cs) (t_objs t0 n) else t_objs t0 n)\<rparr>, b')"
    "length cs = length it" "ht_rep C b' cs" "pairs b' cs = pairs t0 it" "same_conf b b'" by auto
  define t1 where "t1 = t0\<lparr>t_objs := (\<lambda>n. if n \<in> set (t_iters t0) then respace (zip it cs) (t_objs t0 n) else t_objs t0 n)\<rparr>"
  define t' where "t' = redirect_iters (fst (SwapContentsAux_ht t1 (b'\<lparr>t_cookie := t_cookie t1, t_autosort := t_autosort t1\<rparr>) False))"
  have "ensure_body C put t req allowShrink = Ok (B_NO_ERROR, t')"
  proof -
    have mx: "max (t_items t0) req = sz" using i0 sz(1) by simp
    have "move_entries put (table_fuel t0) t0 b (ptr_hd it) = Ok (B_NO_ERROR, t1, b')" using m(1) by (simp add: t1_def)
    then show ?thesis
      unfolding ensure_body_def if_not_P [OF go] Let_def t0_def [symmetric] mx b_def [symmetric] rep_head [OF r0] t'_def by simp
  qed
  moreover have cb: "same_core b' t'"
    by (simp add: same_core_def t'_def redirect_iters_def SwapContentsAux_ht_def)
  then have "ht_rep C t' cs" using same_core_rep m(3) by blast
  moreover have "pairs t' cs = pairs t it"
    using same_core_views(7) [OF cb] same_core_views(7) [OF co(1)] m(4) by simp
  moreover have "same_order t t'"
    using co by (simp add: same_order_def t'_def redirect_iters_def SwapContentsAux_ht_def t1_def)
  moreover have "t_size t' = sz" using cb m(5) b(2) by (simp add: same_core_def same_conf_def)
  moreover have "t_objs t' n = (if n \<in> set (t_iters t) then redirected (zip it cs) (t_objs t n) else free_iter (t_objs t n))" for n
  proof -
    have "t_objs t' n = (let i = t_objs t1 n in if n \<in> set (t_iters t) then (free_iter i)\<lparr>i_cookie := i_space i\<rparr> else free_iter i)"
      using co(2) by (simp add: t'_def redirect_iters_def SwapContentsAux_ht_def t1_def)
    then show ?thesis using co(2) by (simp add: t1_def t0(2) Let_def redirected_respace)
  qed
  ultimately show ?thesis using that m(2) by blast
qed

subsection \<open>\<^verbatim>\<open>Put\<close>\<close>

text \<open>A full table is doubled first; three nested calls are enough.\<close>

lemma PutAux_nested:
  "PutAux C 3 t h k v = put_body C (EnsureSizeN C 2) (PutAux C 2) t h k v"
  "PutAux C 2 t h k v = put_body C (EnsureSizeN C 1) (PutAux C 1) t h k v"
  by (simp_all add: eval_nat_numeral)

lemma PutAux_full:
  assumes r: "ht_rep C t it" and k: "keq_ok C" and c: "\<And>n. n < 2 ^ 32 \<Longrightarrow> c_alloc C n"
    and full: "length it = t_size t" and new: "key \<notin> fst ` set (pairs t it)" and sz: "t_size t < 2 ^ 31"
  obtains t2 it2 where "\<And>val. PutAux C 3 t (ComputeHash C key) key val = PutAux C 2 t2 (ComputeHash C key) key (vref_freed val)"
    "ht_rep C t2 it2" "pairs t2 it2 = pairs t it" "same_order t t2" "t_size t2 = 2 * t_size t" "length it2 = length it"
    "\<And>n. n \<in> set (t_iters t) \<Longrightarrow> t_objs t2 n = redirected (zip it it2) (t_objs t n)"
proof -
  have pos: "0 < t_size t" using rep_bounds(3) [OF r] .
  have dbl: "mul32 (t_size t) 2 = 2 * t_size t" "2 * t_size t < 2 ^ 32" using sz by (simp_all add: mul32_def)
  have "c_alloc C (t_size t)" using c sz by simp
  from EnsureTableAllocated_rep [OF r this] obtain t1 where t1: "EnsureTableAllocated C t = Ok (B_NO_ERROR, t1)"
    "ht_alloc C t1 it" "same_conf t t1" "t_objs t1 = t_objs t" "pairs t1 it = pairs t it" by blast
  have r1: "ht_rep C t1 it" using t1(2) by (simp add: ht_rep_def)
  have s1: "t_size t1 = t_size t" "t_iters t1 = t_iters t" using t1(3) by (simp_all add: same_conf_def)
  obtain t2 it2 where t2: "ensure_body C (PutAux C 1) t1 (2 * t_size t) False = Ok (B_NO_ERROR, t2)" "ht_rep C t2 it2"
    "pairs t2 it2 = pairs t1 it" "same_order t1 t2" "t_size t2 = 2 * t_size t" "length it2 = length it"
    "\<And>n. t_objs t2 n = (if n \<in> set (t_iters t1) then redirected (zip it it2) (t_objs t1 n) else free_iter (t_objs t1 n))"
  proof (rule ensure_body_rep [OF r1 k, where put = "PutAux C 1" and ensure = "EnsureSizeN C 0" and again = "PutAux C 0"
      and req = "2 * t_size t" and sz = "2 * t_size t" and allowShrink = False])
    show "PutAux C 1 b h k v = put_body C (EnsureSizeN C 0) (PutAux C 0) b h k v" for b h k v by simp
  qed (use c dbl pos full s1 that in auto)
  have g: "GetEntry C t1 (ComputeHash C key) key = Ok None"
    by (rule GetEntry_rep [OF r1 k, of key]) (use new t1(5) in \<open>simp_all add: map_of_eq_None_iff [symmetric]\<close>)
  have i: "t_items t1 = t_size t1" using ht_rep_length [OF r1] full s1 by simp
  have en: "EnsureSizeN C 2 t1 (2 * t_size t) False = Ok (B_NO_ERROR, t2)" using t2(1) by (simp add: numeral_2_eq_2)
  have "PutAux C 3 t (ComputeHash C key) key val = PutAux C 2 t2 (ComputeHash C key) key (vref_freed val)" for val
    unfolding PutAux_nested(1) put_body_def t1(1) obind_simps prod.case g option.case i
    using pos by (simp add: s1 dbl(1) en)
  moreover have "same_order t t2" using same_order_conf [OF t1(3)] t2(4) by (rule same_order_trans)
  ultimately show ?thesis using that [of t2 it2] t2 t1(4,5) s1(2) by simp
qed

lemma PutAux_rep:
  assumes r: "ht_rep C t it" and k: "keq_ok C" and c: "\<And>n. n < 2 ^ 32 \<Longrightarrow> c_alloc C n"
    and n: "key \<in> fst ` set (pairs t it) \<or> length it < t_size t \<or> t_size t < 2 ^ 31"
  obtains e t' it' where "PutAux C 3 t (ComputeHash C key) key (VObj v) = Ok (Some e, map_of (pairs t it) key, t')"
    "ht_alloc C t' it'" "e \<in> set it'" "kv_of t' e = (key, v)" "same_order t t'"
    "pairs t' it' = put_pairs C (t_autosort t) (t_cookie t) key v (pairs t it)"
proof (cases "key \<in> fst ` set (pairs t it) \<or> length it < t_size t")
  case True
  have "c_alloc C (t_size t)" using c rep_bounds(4) [OF r] by blast
  from put_body_rep [OF r k this True, of "EnsureSizeN C 2" "PutAux C 2" v] show ?thesis
    unfolding PutAux_nested(1) [symmetric] using that same_order_conf by metis
next
  case False
  then have full: "length it = t_size t" and new: "key \<notin> fst ` set (pairs t it)" using rep_bounds(1) [OF r] by auto
  have sz: "t_size t < 2 ^ 31" using n new full by auto
  obtain t2 it2 where t2: "\<And>val. PutAux C 3 t (ComputeHash C key) key val = PutAux C 2 t2 (ComputeHash C key) key (vref_freed val)"
    "ht_rep C t2 it2" "pairs t2 it2 = pairs t it" "same_order t t2" "t_size t2 = 2 * t_size t" "length it2 = length it"
    by (rule PutAux_full [OF r k c full new sz], assumption, rule that, assumption+)
  have "c_alloc C (t_size t2)" using c t2(5) sz by simp
  moreover have "length it2 < t_size t2" using t2(5,6) full rep_bounds(3) [OF r] by simp
  ultimately obtain e t' it' where p:
    "put_body C (EnsureSizeN C 1) (PutAux C 1) t2 (ComputeHash C key) key (VObj v) = Ok (Some e, map_of (pairs t2 it2) key, t')"
    "ht_alloc C t' it'" "e \<in> set it'" "kv_of t' e = (key, v)" "same_conf t2 t'"
    "pairs t' it' = put_pairs C (t_autosort t2) (t_cookie t2) key v (pairs t2 it2)"
    using put_body_rep [OF t2(2) k, where key = key and v = v and ensure = "EnsureSizeN C 1" and again = "PutAux C 1"] by metis
  have "PutAux C 2 t2 (ComputeHash C key) key (VObj v) = Ok (Some e, map_of (pairs t2 it2) key, t')"
    unfolding PutAux_nested(2) by (rule p(1))
  then have "PutAux C 3 t (ComputeHash C key) key (VObj v) = Ok (Some e, map_of (pairs t2 it2) key, t')"
    using t2(1) [of "VObj v"] by (simp add: vref_freed_def)
  moreover have so: "same_order t t'" using t2(4) same_order_conf [OF p(5)] by (rule same_order_trans)
  moreover have "t_autosort t2 = t_autosort t" "t_cookie t2 = t_cookie t" using t2(4) by (simp_all add: same_order_def)
  ultimately show ?thesis using that [of e t' it'] p t2(3) by simp
qed

text \<open>
  The old array is gone before the new value is read: a value that lives in the table itself dangles.
\<close>

lemma PutAux_own_value:
  assumes r: "ht_rep C t it" and k: "keq_ok C" and c: "\<And>n. n < 2 ^ 32 \<Longrightarrow> c_alloc C n"
    and full: "length it = t_size t" and new: "key \<notin> fst ` set (pairs t it)" and sz: "t_size t < 2 ^ 31"
  shows "PutAux C 3 t (ComputeHash C key) key (VIn e) = Fault"
proof -
  obtain t2 it2 where t2': "\<And>val. PutAux C 3 t (ComputeHash C key) key val = PutAux C 2 t2 (ComputeHash C key) key (vref_freed val)"
    and t2'': "ht_rep C t2 it2" "pairs t2 it2 = pairs t it" "t_size t2 = 2 * t_size t" "length it2 = length it"
    by (rule PutAux_full [OF r k c full new sz], assumption, rule that, assumption+)
  have "PutAux C 3 t (ComputeHash C key) key (VIn e) = PutAux C 2 t2 (ComputeHash C key) key VFreed"
    using t2' [of "VIn e"] by (simp add: vref_freed_def)
  note t2 = this t2''
  have "c_alloc C (t_size t2)" using c t2(4) sz by simp
  from EnsureTableAllocated_rep [OF t2(2) this] obtain t3 where t3: "EnsureTableAllocated C t2 = Ok (B_NO_ERROR, t3)"
    "ht_alloc C t3 it2" "same_conf t2 t3" "pairs t3 it2 = pairs t2 it2" by blast
  have r3: "ht_rep C t3 it2" using t3(2) by (simp add: ht_rep_def)
  have g: "GetEntry C t3 (ComputeHash C key) key = Ok None"
    by (rule GetEntry_rep [OF r3 k, of key]) (use new t2(3) t3(4) in \<open>simp_all add: map_of_eq_None_iff [symmetric]\<close>)
  have "t_items t3 \<noteq> t_size t3" using ht_rep_length [OF r3] t2(4,5) full t3(3) rep_bounds(3) [OF r] by (simp add: same_conf_def)
  then have "PutAux C 2 t2 (ComputeHash C key) key VFreed = Fault"
    unfolding PutAux_nested(2) put_body_def t3(1) obind_simps prod.case g option.case by (simp add: vref_value_def)
  then show ?thesis using t2(1) by simp
qed

lemma Put_rep:
  assumes r: "ht_rep C t it" and k: "keq_ok C" and c: "\<And>n. n < 2 ^ 32 \<Longrightarrow> c_alloc C n"
    and n: "key \<in> fst ` set (pairs t it) \<or> length it < t_size t \<or> t_size t < 2 ^ 31"
  obtains t' it' where "Put C t key v = Ok (B_NO_ERROR, map_of (pairs t it) key, t')" "ht_rep C t' it'" "same_order t t'"
    "pairs t' it' = put_pairs C (t_autosort t) (t_cookie t) key v (pairs t it)"
proof -
  obtain e t' it' where p: "PutAux C 3 t (ComputeHash C key) key (VObj v) = Ok (Some e, map_of (pairs t it) key, t')"
    "ht_alloc C t' it'" "same_order t t'" "pairs t' it' = put_pairs C (t_autosort t) (t_cookie t) key v (pairs t it)"
    using PutAux_rep [OF r k c n] by blast
  show ?thesis by (rule that [of t' it']) (use p in \<open>simp_all add: Put_def ht_rep_def\<close>)
qed

end
