(* ===== verification/Hash_Sort.thy ===== *)
theory Hash_Sort
  imports Hash_Grow Stable_Sort
begin

section \<open>Hashtable: sorting the iteration list\<close>

text \<open>
  \<^verbatim>\<open>SortByKey\<close> and \<^verbatim>\<open>SortByValue\<close> merge runs of the linked list, bottom up.  The result is the stable
  sort of the pairs, the loop ends within its passes, and the entries stay in their slots.
\<close>

text \<open>Lists that are linked in one direction only.\<close>

fun nseg :: "(nat \<Rightarrow> nat) \<Rightarrow> nat list \<Rightarrow> nat \<Rightarrow> bool" where
  "nseg nx [] q = True"
| "nseg nx (x # xs) q \<longleftrightarrow> nx x = first_or xs q \<and> nseg nx xs q"

lemma nseg_cong: "(\<And>x. x \<in> set xs \<Longrightarrow> nx' x = nx x) \<Longrightarrow> nseg nx' xs q = nseg nx xs q"
  by (induction xs) auto

lemma nseg_append: "nseg nx (xs @ ys) q \<longleftrightarrow> nseg nx xs (first_or ys q) \<and> nseg nx ys q"
  by (induction xs) auto

lemma dlseg_nseg: "dlseg nx pv p xs q \<Longrightarrow> nseg nx xs q"
  by (induction xs arbitrary: p) auto

text \<open>The part of the result that has been linked up; its last entry still has its old link.\<close>

definition out_lay :: "('k, 'v) ht \<Rightarrow> nat list \<Rightarrow> bool" where
  "out_lay t xs \<longleftrightarrow> sized t \<and> distinct xs \<and> set xs \<subseteq> {..<slots_of t}
     \<and> (\<exists>q. dlseg (idx t ITER_NEXT) (idx t ITER_PREV) INVALID xs q)
     \<and> t_head t = first_or xs INVALID \<and> t_tail t = last_or INVALID xs"

lemma out_tail:
  assumes "out_lay t xs"
  shows "IndexToEntryChecked (t_tail t) = ptr_last xs" "xs \<noteq> [] \<Longrightarrow> last xs < slots_of t"
proof -
  have s: "sized t" "set xs \<subseteq> {..<slots_of t}" "t_tail t = last_or INVALID xs" using assms by (simp_all add: out_lay_def)
  show l: "last xs < slots_of t" if "xs \<noteq> []" using s(2) last_in_set [OF that] by blast
  show "IndexToEntryChecked (t_tail t) = ptr_last xs"
    using s(3) l less_not_INVALID [OF s(1)] by (cases "xs = []") (simp_all add: ptr_last_def last_or_last)
qed

lemma append_iter_lay:
  assumes o: "out_lay t xs" and e: "e < slots_of t" "e \<notin> set xs"
  obtains t' where "append_iter t e = Ok t'" "same_slots t t'" "out_lay t' (xs @ [e])" "t_objs t' = t_objs t"
    "\<And>i. i \<notin> set xs \<Longrightarrow> idx t' ITER_NEXT i = idx t ITER_NEXT i"
proof -
  obtain q where d: "sized t" "distinct xs" "set xs \<subseteq> {..<slots_of t}" "dlseg (idx t ITER_NEXT) (idx t ITER_PREV) INVALID xs q"
    "t_head t = first_or xs INVALID" "t_tail t = last_or INVALID xs" using o by (auto simp: out_lay_def)
  note l = out_tail [OF o]
  define t1 where "t1 = (if xs = [] then t\<lparr>t_head := e\<rparr> else upd t (last xs) ITER_NEXT e)"
  define t2 where "t2 = upd t1 e ITER_PREV (last_or INVALID xs)"
  define t' where "t' = t2\<lparr>t_tail := e\<rparr>"
  have s1: "slots_of t1 = slots_of t" "sized t1" "ok_ix t1 = ok_ix t" using d(1) by (auto simp: t1_def)
  have ok: "ok_ix t (last_or INVALID xs)" using l(2) by (cases "xs = []") (simp_all add: last_or_last)
  have i1: "idx t1 = (if xs = [] then idx t else (idx t)(ITER_NEXT := (idx t ITER_NEXT)(last xs := e)))"
    using l(2) e d(1) by (simp add: t1_def)
  have i': "idx t' = (idx t1)(ITER_PREV := (idx t1 ITER_PREV)(e := last_or INVALID xs))"
    using s1 e ok by (simp add: t'_def t2_def)
  have nx: "idx t' ITER_NEXT = (if xs = [] then idx t ITER_NEXT else (idx t ITER_NEXT)(last xs := e))"
    "idx t' ITER_PREV = (idx t ITER_PREV)(e := last_or INVALID xs)" using i' i1 by auto
  have tp: "EntryToIndexChecked (ptr_last xs) = last_or INVALID xs" by (simp add: ptr_last_def last_or_last)
  have run: "append_iter t e = Ok t'"
    unfolding append_iter_def Let_def l(1) using l(2) s1 e tp
    by (cases "xs = []") (simp_all add: set_link_def ptr_last_def t'_def t2_def t1_def last_or_last)
  have sm: "same_slots t t'"
  proof -
    have "iter_frame t t1" by (simp add: t1_def)
    moreover have "iter_frame t1 t'" unfolding t'_def t2_def by (rule iter_frame_trans [OF iter_frame_upd iter_frame_set(2)])
    ultimately have "iter_frame t t'" by (rule iter_frame_trans)
    moreover have "hsh t' = hsh t \<and> ky t' = ky t \<and> vl t' = vl t" using s1 l(2) e by (cases "xs = []") (simp_all add: t'_def t2_def t1_def)
    ultimately show ?thesis using i' i1 by (simp add: same_slots_def)
  qed
  have "dlseg (idx t' ITER_NEXT) (idx t' ITER_PREV) INVALID (xs @ [e]) (idx t' ITER_NEXT e)"
  proof (cases xs rule: rev_cases)
    case Nil
    then show ?thesis using nx by simp
  next
    case (snoc zs z)
    have "dlseg ((idx t ITER_NEXT)(z := e)) (idx t ITER_PREV) INVALID (zs @ [z]) e"
      by (rule dlseg_set_last [where q = q]) (use d snoc in simp_all)
    then have "dlseg (idx t' ITER_NEXT) (idx t' ITER_PREV) INVALID xs e" using nx snoc e(2) by simp
    then show ?thesis using nx snoc by (simp add: dlseg_append)
  qed
  then have "out_lay t' (xs @ [e])"
    using d e sm unfolding out_lay_def
    by (auto simp: t'_def t2_def t1_def s1 same_slots_def split: if_splits dest: iter_frameD) (metis append_Nil first_or.simps(2) neq_Nil_conv)
  moreover have "idx t' ITER_NEXT i = idx t ITER_NEXT i" if "i \<notin> set xs" for i using nx that by (auto split: if_splits)
  moreover have "t_objs t' = t_objs t" by (simp add: t'_def t2_def t1_def)
  ultimately show ?thesis using that run sm by blast
qed

subsection \<open>Merging two runs\<close>

text \<open>The result so far, what is left of the left run, and the rest of the list.\<close>

definition runs :: "('k, 'v) ht \<Rightarrow> nat list \<Rightarrow> nat list \<Rightarrow> nat list \<Rightarrow> bool" where
  "runs t out A Q \<longleftrightarrow> out_lay t out \<and> distinct (out @ A @ Q) \<and> set (A @ Q) \<subseteq> {..<slots_of t}
     \<and> (\<exists>z. nseg (idx t ITER_NEXT) A z) \<and> nseg (idx t ITER_NEXT) Q INVALID"

lemma runs_slots:
  assumes "runs t out A Q"
  shows "\<And>i. i \<in> set (A @ Q) \<Longrightarrow> i < slots_of t \<and> i \<noteq> INVALID" "\<And>i. i \<in> set (A @ Q) \<Longrightarrow> i \<notin> set out"
    "sized t" "\<And>e Q'. Q = e # Q' \<Longrightarrow> GetEntryChecked t e ITER_NEXT = Ok (ptr_hd Q')"
    "\<And>e a A'. A = e # a # A' \<Longrightarrow> GetEntryChecked t e ITER_NEXT = Ok (Some a)"
proof -
  have r: "out_lay t out" "distinct (out @ A @ Q)" "set (A @ Q) \<subseteq> {..<slots_of t}" "nseg (idx t ITER_NEXT) Q INVALID"
    by (insert assms [unfolded runs_def], elim conjE, assumption)+
  obtain z where z: "nseg (idx t ITER_NEXT) A z" using assms unfolding runs_def by blast
  show s: "sized t" using r(1) by (simp add: out_lay_def)
  show l: "\<And>i. i \<in> set (A @ Q) \<Longrightarrow> i < slots_of t \<and> i \<noteq> INVALID" using r(3) less_not_INVALID [OF s] by blast
  show "\<And>i. i \<in> set (A @ Q) \<Longrightarrow> i \<notin> set out" using r(2) unfolding distinct_append by blast
  show "GetEntryChecked t e ITER_NEXT = Ok (ptr_hd Q')" if Q: "Q = e # Q'" for e Q'
  proof -
    have "e < slots_of t" using l Q by simp
    moreover have "idx t ITER_NEXT e = first_or Q' INVALID" using r(4) Q by simp
    moreover have "IndexToEntryChecked (first_or Q' INVALID) = ptr_hd Q'" using l Q by (cases Q') (auto simp: ptr_hd_def)
    ultimately show ?thesis by simp
  qed
  show "GetEntryChecked t e ITER_NEXT = Ok (Some a)" if "A = e # a # A'" for e a A'
    using that z l [of e] l [of a] by simp
qed

lemma runs_append:
  assumes r: "runs t out A Q" and e: "A = e # A' \<and> Q' = Q \<or> Q = e # Q' \<and> A' = A"
  obtains t' where "append_iter t e = Ok t'" "runs t' (out @ [e]) A' Q'" "same_slots t t'" "t_objs t' = t_objs t"
    "\<And>i. i \<notin> set out \<Longrightarrow> idx t' ITER_NEXT i = idx t ITER_NEXT i"
proof -
  have m: "e \<in> set (A @ Q)" "set (A' @ Q') \<subseteq> set (A @ Q)" using e by auto
  note s = runs_slots [OF r]
  have o: "out_lay t out" using r by (simp add: runs_def)
  obtain t' where t': "append_iter t e = Ok t'" "same_slots t t'" "out_lay t' (out @ [e])" "t_objs t' = t_objs t"
    "\<And>i. i \<notin> set out \<Longrightarrow> idx t' ITER_NEXT i = idx t ITER_NEXT i"
    using append_iter_lay [OF o, of e] s(1,2) [OF m(1)] by blast
  have n: "idx t' ITER_NEXT i = idx t ITER_NEXT i" if "i \<in> set (A' @ Q')" for i
    using t'(5) s(2) m(2) that by blast
  obtain z where z: "nseg (idx t ITER_NEXT) A z" "nseg (idx t ITER_NEXT) Q INVALID" using r unfolding runs_def by blast
  then have "nseg (idx t ITER_NEXT) A' z" "nseg (idx t ITER_NEXT) Q' INVALID" using e by auto
  moreover have "nseg (idx t' ITER_NEXT) A' z = nseg (idx t ITER_NEXT) A' z" "nseg (idx t' ITER_NEXT) Q' INVALID = nseg (idx t ITER_NEXT) Q' INVALID"
    using n by (auto intro!: nseg_cong)
  moreover have "distinct ((out @ [e]) @ A' @ Q')" using r e unfolding runs_def by auto
  moreover have "slots_of t' = slots_of t" using t'(2) by (auto simp: same_slots_def dest: iter_frameD)
  moreover have "set (A' @ Q') \<subseteq> {..<slots_of t}" using m(2) r unfolding runs_def by blast
  ultimately have "runs t' (out @ [e]) A' Q'" using t'(3) unfolding runs_def by metis
  then show ?thesis using that t' by blast
qed

definition entry_cmp :: "('k \<times> 'v \<Rightarrow> 'k \<times> 'v \<Rightarrow> int) \<Rightarrow> ('k, 'v) entry \<Rightarrow> ('k, 'v) entry \<Rightarrow> int" where
  "entry_cmp c x y = c (e_key x, e_value x) (e_key y, e_value y)"

lemma entry_cmp_kv: "entry_cmp c (es_of t ! i) (es_of t ! j) = c (kv_of t i) (kv_of t j)"
  by (simp add: entry_cmp_def ky_def vl_def)

lemma same_slots_kv: "same_slots t t' \<Longrightarrow> ky t' = ky t \<and> vl t' = vl t"
  by (simp add: same_slots_def)

lemma merge_runs_lay:
  assumes c: "orders_by c g"
  shows "runs t out A Q \<Longrightarrow> (A \<noteq> [] \<Longrightarrow> p = Some (hd A)) \<Longrightarrow>
    \<exists>t'. merge_runs (entry_cmp c) t p (ptr_hd Q) (length A) qs = Ok (ptr_hd (drop qs Q), t') \<and> same_slots t t' \<and> t_objs t' = t_objs t
      \<and> runs t' (out @ merge_by (\<lambda>i. g (kv_of t i)) A (take qs Q)) [] (drop qs Q)"
proof (induction "length A + qs" arbitrary: t out A Q p qs rule: less_induct)
  case less
  note r = less.prems(1) and s = runs_slots [OF less.prems(1)]
  let ?k = "\<lambda>i. g (kv_of t i)"
  consider (fin) "A = []" "qs = 0 \<or> Q = []"
    | (right) e Q' m where "Q = e # Q'" "qs = Suc m" "A = [] \<or> \<not> ?k (hd A) \<le> ?k e"
    | (left) e A' where "A = e # A'" "qs = 0 \<or> Q = [] \<or> ?k e \<le> ?k (hd Q)"
    by (cases A; cases Q; cases qs) auto
  then show ?case
  proof cases
    case fin
    have "same_slots t t" by (simp add: same_slots_def)
    then show ?thesis using fin r by (subst merge_runs.simps) (auto simp: ptr_hd_def)
  next
    case right
    have e: "e < slots_of t" using s(1) right(1) by simp
    obtain t1 where t1: "append_iter t e = Ok t1" "runs t1 (out @ [e]) A Q'" "same_slots t t1" "t_objs t1 = t_objs t"
      using runs_append [OF r, of e A Q'] right(1) by blast
    have "from_q (entry_cmp c) t p (ptr_hd Q) (length A) qs = Ok True"
    proof (cases A)
      case (Cons a A')
      have "p = Some a" "a < slots_of t" using less.prems(2) s(1) Cons by simp_all
      moreover have "\<not> c (kv_of t a) (kv_of t e) \<le> 0" using right(3) Cons c by (simp add: orders_by_def not_le)
      ultimately show ?thesis using right(1,2) Cons e by (simp add: from_q_def ptr_hd_def entry_cmp_kv)
    qed (simp add: from_q_def)
    moreover have "ptr_hd Q = Some e" using right(1) by (simp add: ptr_hd_def)
    ultimately have run: "merge_runs (entry_cmp c) t p (ptr_hd Q) (length A) qs = merge_runs (entry_cmp c) t1 p (ptr_hd Q') (length A) m"
      using right(2) t1(1) s(4) [OF right(1)] by (subst merge_runs.simps) (simp del: GetEntryChecked_ok)
    have "\<exists>t'. merge_runs (entry_cmp c) t1 p (ptr_hd Q') (length A) m = Ok (ptr_hd (drop m Q'), t') \<and> same_slots t1 t' \<and> t_objs t' = t_objs t1
      \<and> runs t' ((out @ [e]) @ merge_by (\<lambda>i. g (kv_of t1 i)) A (take m Q')) [] (drop m Q')"
      by (rule less.hyps) (use right(2) t1(2) less.prems(2) in auto)
    moreover have "merge_by ?k A (take qs Q) = e # merge_by ?k A (take m Q')" using right by (cases A) auto
    ultimately show ?thesis using run right(1,2) t1(3,4) same_slots_kv [OF t1(3)] by (auto intro: same_slots_trans)
  next
    case left
    have e: "e < slots_of t" "p = Some e" using s(1) left(1) less.prems(2) by simp_all
    obtain t1 where t1: "append_iter t e = Ok t1" "runs t1 (out @ [e]) A' Q" "same_slots t t1" "t_objs t1 = t_objs t"
      using runs_append [OF r, of e A' Q] left(1) by blast
    have fq: "from_q (entry_cmp c) t p (ptr_hd Q) (length A) qs = Ok False"
    proof (cases "qs = 0 \<or> Q = []")
      case True
      then show ?thesis using left(1) by (auto simp: from_q_def ptr_hd_def)
    next
      case False
      then obtain q Q' where Q: "Q = q # Q'" by (cases Q) auto
      then have "c (kv_of t e) (kv_of t q) \<le> 0" "q < slots_of t"
        using left(2) False c s(1) by (auto simp: orders_by_def simp flip: not_less)
      then show ?thesis using Q False left(1) e by (simp add: from_q_def ptr_hd_def entry_cmp_kv)
    qed
    obtain p' where p': "GetEntryChecked t e ITER_NEXT = Ok p'" "A' \<noteq> [] \<Longrightarrow> p' = Some (hd A')"
      using e(1) s(5) [of e "hd A'" "tl A'"] left(1) by (cases "A' = []") auto
    have run: "merge_runs (entry_cmp c) t p (ptr_hd Q) (length A) qs = merge_runs (entry_cmp c) t1 p' (ptr_hd Q) (length A') qs"
      using left(1) t1(1) p'(1) fq e(2) by (subst merge_runs.simps) (simp del: GetEntryChecked_ok)
    have "\<exists>t'. merge_runs (entry_cmp c) t1 p' (ptr_hd Q) (length A') qs = Ok (ptr_hd (drop qs Q), t') \<and> same_slots t1 t' \<and> t_objs t' = t_objs t1
      \<and> runs t' ((out @ [e]) @ merge_by (\<lambda>i. g (kv_of t1 i)) A' (take qs Q)) [] (drop qs Q)"
      by (rule less.hyps) (use left(1) t1(2) p'(2) in auto)
    moreover have "merge_by ?k A (take qs Q) = e # merge_by ?k A' (take qs Q)"
      using left by (cases Q; cases qs) auto
    ultimately show ?thesis using run t1(3,4) same_slots_kv [OF t1(3)] by (auto intro: same_slots_trans)
  qed
qed

subsection \<open>Passes over the list\<close>

lemma step_along_nseg:
  assumes "nseg (idx t ITER_NEXT) (q # Q) INVALID" "\<And>i. i \<in> set (q # Q) \<Longrightarrow> i < slots_of t \<and> i \<noteq> INVALID"
  shows "step_along t m q n = Ok (ptr_hd (drop m (q # Q)), n + min m (Suc (length Q)))"
  using assms
proof (induction m arbitrary: q Q n)
  case (Suc m)
  show ?case
  proof (cases Q)
    case Nil
    then show ?thesis using Suc.prems by (simp add: ptr_hd_def)
  next
    case (Cons r R)
    then have "GetEntryChecked t q ITER_NEXT = Ok (Some r)" using Suc.prems(1) Suc.prems(2) [of q] Suc.prems(2) [of r] by simp
    moreover have "step_along t m r (Suc n) = Ok (ptr_hd (drop m (r # R)), Suc n + min m (Suc (length R)))"
      by (rule Suc.IH) (use Suc.prems Cons in auto)
    ultimately show ?thesis using Cons by (simp del: GetEntryChecked_ok)
  qed
qed (simp add: ptr_hd_def)

lemma runs_split:
  assumes "runs t out [] Q"
  shows "runs t out (take m Q) (drop m Q)"
proof -
  have "nseg (idx t ITER_NEXT) (take m Q @ drop m Q) INVALID" using assms by (simp add: runs_def)
  then have "nseg (idx t ITER_NEXT) (take m Q) (first_or (drop m Q) INVALID)" "nseg (idx t ITER_NEXT) (drop m Q) INVALID"
    unfolding nseg_append by simp_all
  moreover have "out_lay t out" "distinct (out @ take m Q @ drop m Q)" "set (take m Q @ drop m Q) \<subseteq> {..<slots_of t}"
    using assms unfolding runs_def append_take_drop_id by simp_all
  ultimately show ?thesis unfolding runs_def by blast
qed

lemma merge_pass_lay:
  assumes c: "orders_by c g" and m: "0 < m"
  shows "runs t out [] Q \<Longrightarrow> length Q < n \<Longrightarrow>
    \<exists>t' d. merge_pass (entry_cmp c) m n t (ptr_hd Q) k = Ok (k + d, t') \<and> same_slots t t' \<and> t_objs t' = t_objs t
      \<and> out_lay t' (out @ merge_pairs (\<lambda>i. g (kv_of t i)) m Q) \<and> (d = 0 \<longleftrightarrow> Q = []) \<and> (d \<le> 1 \<longleftrightarrow> length Q \<le> 2 * m)"
proof (induction n arbitrary: t out Q k)
  case (Suc n)
  show ?case
  proof (cases Q)
    case Nil
    have "same_slots t t" by (simp add: same_slots_def)
    then show ?thesis using Suc.prems Nil by (auto simp: ptr_hd_def runs_def)
  next
    case (Cons q Q')
    note s = runs_slots [OF Suc.prems(1)]
    have "nseg (idx t ITER_NEXT) (q # Q') INVALID" using Suc.prems(1) Cons by (simp add: runs_def)
    from step_along_nseg [OF this] have sa: "step_along t m q 0 = Ok (ptr_hd (drop m Q), length (take m Q))"
      using s(1) Cons by (simp add: min.commute)
    have p: "take m Q \<noteq> [] \<Longrightarrow> Some q = Some (hd (take m Q))" using Cons m by (cases m) simp_all
    obtain t1 where t1: "merge_runs (entry_cmp c) t (Some q) (ptr_hd (drop m Q)) (length (take m Q)) m = Ok (ptr_hd (drop m (drop m Q)), t1)"
      "same_slots t t1" "t_objs t1 = t_objs t"
      "runs t1 (out @ merge_by (\<lambda>i. g (kv_of t i)) (take m Q) (take m (drop m Q))) [] (drop m (drop m Q))"
      using merge_runs_lay [OF c runs_split [OF Suc.prems(1), of m] p, of m] by blast
    have dd: "drop m (drop m Q) = drop (2 * m) Q" by (simp add: mult_2)
    have "length (drop (2 * m) Q) < n" using Suc.prems(2) Cons m by simp
    then obtain t' d where t': "merge_pass (entry_cmp c) m n t1 (ptr_hd (drop (2 * m) Q)) (Suc k) = Ok (Suc k + d, t')" "same_slots t1 t'"
      "t_objs t' = t_objs t1"
      "out_lay t' ((out @ merge_by (\<lambda>i. g (kv_of t i)) (take m Q) (take m (drop m Q))) @ merge_pairs (\<lambda>i. g (kv_of t1 i)) m (drop (2 * m) Q))"
      "d = 0 \<longleftrightarrow> drop (2 * m) Q = []"
      using Suc.IH [OF t1(4), of "Suc k"] unfolding dd by blast
    have "merge_pass (entry_cmp c) m (Suc n) t (ptr_hd Q) k = Ok (Suc k + d, t')"
      using Cons sa t1(1) t'(1) unfolding dd by (simp add: ptr_hd_def)
    moreover have "same_slots t t'" using t1(2) t'(2) by (rule same_slots_trans)
    moreover have "out_lay t' (out @ merge_pairs (\<lambda>i. g (kv_of t i)) m Q)"
      using t'(4) same_slots_kv [OF t1(2)] merge_pairs_step [of Q m "\<lambda>i. g (kv_of t i)"] Cons m by simp
    ultimately show ?thesis using t1(3) t'(3,5) Cons by (intro exI [of _ t'] exI [of _ "Suc d"]) auto
  qed
qed simp

text \<open>The passes of the whole sort.\<close>

lemma merge_passes_lay:
  assumes c: "orders_by c g"
  shows "iter_lay t it \<Longrightarrow> sized t \<Longrightarrow> length it < table_fuel t \<Longrightarrow> length it < 2 ^ 32 \<Longrightarrow> it \<noteq> [] \<Longrightarrow>
    runs_sorted (\<lambda>i. g (kv_of t i)) m it \<Longrightarrow> 0 < m \<Longrightarrow> 0 < n \<Longrightarrow> length it \<le> m * 2 ^ n \<Longrightarrow>
    \<exists>t'. merge_passes (entry_cmp c) n t m = Ok t' \<and> same_slots t t' \<and> t_objs t' = t_objs t \<and> iter_lay t' (sort_key (\<lambda>i. g (kv_of t i)) it)"
proof (induction n arbitrary: t it m)
  case (Suc n)
  let ?k = "\<lambda>i. g (kv_of t i)" and ?t = "t\<lparr>t_head := INVALID, t_tail := INVALID\<rparr>"
  let ?xs = "merge_pairs ?k m it"
  note d = iter_layD [OF Suc.prems(1)]
  have ms: "sort_key ?k ?xs = sort_key ?k it" "runs_sorted ?k (2 * m) ?xs" using merge_pairs_sort [OF Suc.prems(6,7)] by simp_all
  have v: "es_of ?t = es_of t" by (simp add: es_of_def)
  then have v': "idx ?t = idx t" "slots_of ?t = slots_of t" "sized ?t = sized t" "kv_of ?t = kv_of t" "hsh ?t = hsh t"
    by (simp_all add: fun_eq_iff idx_def slots_of_def sized_def ky_def vl_def hsh_def)
  have st: "same_slots t ?t" using v' by (simp add: same_slots_def iter_frame_def fun_eq_iff)
  have "out_lay ?t []" using v' Suc.prems(2) by (simp add: out_lay_def)
  then have "runs ?t [] [] it" using dlseg_nseg [OF d(1)] d v' by (simp add: runs_def)
  moreover have "table_fuel ?t = table_fuel t" by (simp add: table_fuel_def)
  ultimately obtain t1 e where t1: "merge_pass (entry_cmp c) m (table_fuel t) ?t (ptr_hd it) 0 = Ok (e, t1)" "same_slots ?t t1" "t_objs t1 = t_objs t"
    "out_lay t1 ?xs" "e \<le> 1 \<longleftrightarrow> length it \<le> 2 * m"
    using merge_pass_lay [OF c Suc.prems(7), of ?t "[]" it "table_fuel t" 0] Suc.prems(3) v' by auto
  have xs: "?xs \<noteq> []" using Suc.prems(5) length_merge_pairs [of ?k m it] by (metis length_0_conv)
  have l: "last ?xs < slots_of t1" "t_tail t1 = last ?xs" using out_tail(2) [OF t1(4) xs] t1(4) xs by (simp_all add: out_lay_def last_or_last)
  define t2 where "t2 = upd t1 (last ?xs) ITER_NEXT INVALID"
  have s1: "sized t1" "set ?xs \<subseteq> {..<slots_of t1}" "distinct ?xs" using t1(4) by (simp_all add: out_lay_def)
  have s2: "same_slots t t2"
  proof -
    have "same_slots t1 t2" using l s1(1) by (simp add: same_slots_def t2_def)
    then show ?thesis using st t1(2) by (blast intro: same_slots_trans)
  qed
  have it2: "iter_lay t2 ?xs"
  proof -
    obtain q where q: "dlseg (idx t1 ITER_NEXT) (idx t1 ITER_PREV) INVALID ?xs q" using t1(4) by (auto simp: out_lay_def)
    obtain ys where ys: "?xs = ys @ [last ?xs]" using xs append_butlast_last_id by metis
    have "dlseg ((idx t1 ITER_NEXT)(last ?xs := INVALID)) (idx t1 ITER_PREV) INVALID (ys @ [last ?xs]) INVALID"
      by (rule dlseg_set_last [where q = q]) (use q s1(3) ys in metis)+
    then have "dlist (idx t2 ITER_NEXT) (idx t2 ITER_PREV) ?xs" using l s1(1) unfolding ys [symmetric] by (simp add: t2_def)
    then show ?thesis using t1(4) s1 by (simp add: iter_lay_def t2_def out_lay_def)
  qed
  have head: "IndexToEntryChecked (t_head t) = ptr_hd it" using ptr_hd_iter [OF Suc.prems(1,2)] .
  have run: "merge_passes (entry_cmp c) (Suc n) t m = (if e \<le> 1 then Ok t2 else merge_passes (entry_cmp c) n t2 (mul32 m 2))"
    using t1(1) l head by (simp add: t2_def Let_def)
  have o2: "t_objs t2 = t_objs t" using t1(3) by (simp add: t2_def)
  show ?case
  proof (cases "length it \<le> 2 * m")
    case True
    have "sorted (map ?k ?xs)" by (rule runs_sorted_all [OF ms(2)]) (use True in simp)
    then have "?xs = sort_key ?k it" using ms(1) sort_key_sorted by metis
    then show ?thesis using run True t1(5) s2 o2 it2 by auto
  next
    case False
    then have m2: "mul32 m 2 = 2 * m" using Suc.prems(4) by (simp add: mul32_def)
    have n: "0 < n" using False Suc.prems(9) by (cases n) auto
    have kv2: "(\<lambda>i. g (kv_of t2 i)) = ?k" using same_slots_kv [OF s2] by simp
    have "\<exists>t'. merge_passes (entry_cmp c) n t2 (2 * m) = Ok t' \<and> same_slots t2 t' \<and> t_objs t' = t_objs t2 \<and> iter_lay t' (sort_key (\<lambda>i. g (kv_of t2 i)) ?xs)"
    proof (rule Suc.IH [OF it2])
      have "table_fuel t2 = table_fuel t"
      proof -
        have "slots_of t2 = slots_of t" using s2 by (auto simp: same_slots_def dest: iter_frameD)
        moreover have "0 < slots_of t" using d(3) Suc.prems(5) by (cases it) auto
        ultimately show ?thesis using table_fuel_slots' by metis
      qed
      then show "length ?xs < table_fuel t2" using Suc.prems(3) by simp
      show "sized t2" using Suc.prems(2) s2 by (auto simp: same_slots_def dest: iter_frameD)
    qed (use Suc.prems n xs ms(2) kv2 in simp_all)
    then show ?thesis using run False t1(5) m2 s2 o2 ms(1) kv2 by (auto intro: same_slots_trans)
  qed
qed simp

lemma SortBy_rep:
  assumes c: "orders_by c g" and r: "ht_rep C t it"
  obtains t' where "SortBy (entry_cmp c) t = Ok t'" "ht_rep C t' (sort_key (\<lambda>i. g (kv_of t i)) it)" "same_slots t t'" "t_objs t' = t_objs t"
    "pairs t' (sort_key (\<lambda>i. g (kv_of t i)) it) = sort_key g (pairs t it)"
proof -
  let ?k = "\<lambda>i. g (kv_of t i)"
  have pr: "pairs t (sort_key ?k it) = sort_key g (pairs t it)"
  proof -
    have "map (kv_of t) (insort_key ?k x ys) = insort_key g (kv_of t x) (map (kv_of t) ys)" for x ys by (induction ys) auto
    then have "map (kv_of t) (sort_key ?k ys) = sort_key g (map (kv_of t) ys)" for ys by (induction ys) auto
    then show ?thesis by (simp add: pairs_kv_of)
  qed
  show ?thesis
  proof (cases "it = []")
    case True
    then have "t_head t = INVALID" using rep_head [OF r] by (simp add: ptr_hd_def)
    then show ?thesis using that [of t] r True by (simp add: SortBy_def same_slots_def)
  next
    case False
    then have al: "ht_alloc C t it" using r by (simp add: ht_rep_def)
    then obtain fl ch where l: "slot_lay t (set it) fl ch" "iter_lay t it" by (rule ht_allocE)
    have "t_head t \<noteq> INVALID" using rep_head [OF r] False by (auto simp: ptr_hd_def)
    moreover have "length it < 2 ^ 32" using rep_bounds(1,4) [OF r] by linarith
    then obtain t' where t': "merge_passes (entry_cmp c) 33 t 1 = Ok t'" "same_slots t t'" "t_objs t' = t_objs t" "iter_lay t' (sort_key ?k it)"
      using merge_passes_lay [OF c l(2) slot_layD(1) [OF l(1)] rep_fuel [OF r] _ False runs_sorted_1, of 33] by auto
    ultimately have "SortBy (entry_cmp c) t = Ok t'" by (simp add: SortBy_def)
    moreover from alloc_relink [OF al t'(2,4)] have "ht_alloc C t' (sort_key ?k it)" "pairs t' (sort_key ?k it) = pairs t (sort_key ?k it)"
      by simp_all
    ultimately show ?thesis using that t'(2,3) pr by (simp add: ht_rep_def)
  qed
qed

end
