(* ===== verification/Hash_Ordered.thy ===== *)
theory Hash_Ordered
  imports Hash_Sort
begin

section \<open>Hashtable: the ordered tables stay sorted\<close>

text \<open>
  In a table that sorts itself, putting a new pair is stable insertion, and giving a key another value
  moves the pair to a place where the order is kept.  As a map, every kind of table just gets the pair.
\<close>

lemma orders_byD:
  assumes "orders_by c g"
  shows "c a b < 0 \<longleftrightarrow> g a < g b" "0 < c a b \<longleftrightarrow> g b < g a"
  using assms by (simp_all add: orders_by_def by_key_def)

lemma takeWhile_sorted:
  assumes "sorted (map g ps)" "ps \<noteq> []" "g (last ps) \<le> b"
  shows "takeWhile (\<lambda>x. g x \<le> b) ps = ps"
proof (rule takeWhile_eq_all_conv [THEN iffD2], rule ballI)
  fix x assume "x \<in> set ps"
  then obtain i where i: "i < length ps" "x = ps ! i" by (auto simp: in_set_conv_nth)
  have "map g ps ! i \<le> map g ps ! (length ps - 1)"
    by (rule sorted_nth_mono [OF assms(1)]) (use i in auto)
  then have "g x \<le> g (last ps)" using i assms(2) by (simp add: last_conv_nth)
  then show "g x \<le> b" using assms(3) by (rule order_trans)
qed

lemma front_part_sorted:
  assumes "sorted (map g ps)"
  shows "front_part True (\<lambda>x. b < g x) ps = takeWhile (\<lambda>x. g x \<le> b) ps"
proof (cases "ps \<noteq> [] \<and> \<not> b < g (last ps)")
  case True
  then have tw: "takeWhile (\<lambda>x. g x \<le> b) ps = ps" by (intro takeWhile_sorted [OF assms]) (simp_all add: not_less)
  then show ?thesis by (simp add: front_part_def not_less del: takeWhile_eq_all_conv)
next
  case False
  then show ?thesis by (auto simp: front_part_def not_less)
qed

lemma insert_behind_equals:
  "sorted (map g ps) \<Longrightarrow> takeWhile (\<lambda>x. g x \<le> g p) ps @ p # dropWhile (\<lambda>x. g x \<le> g p) ps = sort_key g (ps @ [p])"
proof (induction ps)
  case (Cons x ps)
  then have s: "sorted (map g ps)" "\<forall>y \<in> set ps. g x \<le> g y" by simp_all
  show ?case
  proof (cases "g x \<le> g p")
    case True
    then have "sort_key g ([x] @ ps @ [p]) = sort_key g [x] @ sort_key g (ps @ [p])"
      using s(2) by (intro sort_key_split) auto
    then show ?thesis using True Cons.IH [OF s(1)] by simp
  next
    case False
    then have "\<forall>y \<in> set (x # ps). \<forall>z \<in> set [p]. g z < g y" using s(2) by (auto simp: not_le intro: less_le_trans)
    from sort_key_swap [OF this, of "[]" "[]"] have "sort_key g ((x # ps) @ [p]) = sort_key g ([p] @ (x # ps))" by simp
    also have "\<dots> = sort_key g [p] @ sort_key g (x # ps)"
      using False s(2) by (intro sort_key_split) (auto simp: not_le intro: less_imp_le less_le_trans)
    also have "sort_key g (x # ps) = x # ps" by (rule sort_key_sorted) (use Cons.prems in simp)
    finally show ?thesis using False by simp
  qed
qed simp

lemma takeWhile_drop: "drop (length (takeWhile P xs)) xs = dropWhile P xs"
  by (simp add: dropWhile_eq_drop)

lemma put_new_sorted:
  assumes "by_key (ecmp C cookie) g" "sorted (map g ps)" "k \<notin> fst ` set ps"
  shows "put_pairs C True cookie k v ps = sort_key g (ps @ [(k, v)])"
proof -
  have "front_part True (\<lambda>kv. ecmp C cookie (k, v) kv < 0) ps = takeWhile (\<lambda>x. g x \<le> g (k, v)) ps"
  proof -
    have "(\<lambda>kv. ecmp C cookie (k, v) kv < 0) = (\<lambda>kv. g (k, v) < g kv)"
      using assms(1) by (simp only: by_key_def)
    then show ?thesis using front_part_sorted [OF assms(2)] by metis
  qed
  then show ?thesis
    using assms(3) insert_behind_equals [OF assms(2), of "(k, v)"] by (simp add: put_pairs_def Let_def takeWhile_drop)
qed

text \<open>The place of a changed value.\<close>

lemma settle_sorted:
  assumes "sorted (map g (us @ ws))"
  shows "sorted (map g (settle (\<lambda>y. g p < g y) (\<lambda>y. g y < g p) us p ws))"
proof -
  have s: "sorted (map g us)" "sorted (map g ws)" "\<And>x y. x \<in> set us \<Longrightarrow> y \<in> set ws \<Longrightarrow> g x \<le> g y"
    using assms by (auto simp: sorted_append)
  let ?lo = "\<lambda>y. g p < g y" and ?hi = "\<lambda>y. g y < g p"
  have le_last: "g x \<le> g (last us)" if "x \<in> set us" for x
    using s(1) that by (cases us rule: rev_cases) (auto simp: sorted_append)
  have ge_hd: "g (hd ws) \<le> g x" if "x \<in> set ws" for x
    using s(2) that by (cases ws) auto
  have hd_le: "g (hd us) \<le> g x" if "x \<in> set us" for x
    using s(1) that by (cases us) auto
  have le_last': "g x \<le> g (last ws)" if "x \<in> set ws" for x
    using s(2) that by (cases ws rule: rev_cases) (auto simp: sorted_append)
  consider (a) "us \<noteq> []" "?lo (last us)" "?lo (hd us)" | (b) "us \<noteq> []" "?lo (last us)" "\<not> ?lo (hd us)"
    | (c) "\<not> (us \<noteq> [] \<and> ?lo (last us))" "ws \<noteq> []" "?hi (hd ws)" "?hi (last ws)"
    | (d) "\<not> (us \<noteq> [] \<and> ?lo (last us))" "ws \<noteq> []" "?hi (hd ws)" "\<not> ?hi (last ws)"
    | (e) "\<not> (us \<noteq> [] \<and> ?lo (last us))" "\<not> (ws \<noteq> [] \<and> ?hi (hd ws))" by blast
  then show ?thesis
  proof cases
    case a
    have u: "g p \<le> g x" if "x \<in> set us" for x using hd_le [OF that] a(3) by simp
    have w: "g p \<le> g y" if "y \<in> set ws" for y using s(3) [OF last_in_set that] u [OF last_in_set] a(1) by (meson order_trans)
    have "sorted (map g (p # us @ ws))" using assms u w by auto
    then show ?thesis using a by (simp add: settle_def)
  next
    case b
    define v where "v = rev (dropWhile ?lo (rev us))"
    define w where "w = rev (takeWhile ?lo (rev us))"
    have vw: "us = v @ w" unfolding v_def w_def by (metis rev_append rev_rev_ident takeWhile_dropWhile_id)
    have wl: "g p \<le> g y" if "y \<in> set w" for y using that set_takeWhileD unfolding w_def by fastforce
    have vl: "g x \<le> g p" if x: "x \<in> set v" for x
    proof -
      have ne: "dropWhile ?lo (rev us) \<noteq> []" using x unfolding v_def by (metis empty_iff empty_set set_rev)
      from hd_dropWhile [OF this] have "g (last v) \<le> g p" by (simp add: v_def last_rev not_less)
      moreover have "g x \<le> g (last v)" using s(1) x unfolding vw by (cases v rule: rev_cases) (auto simp: sorted_append)
      ultimately show ?thesis by (rule order_trans [rotated])
    qed
    have "g p \<le> g y" if "y \<in> set ws" for y using s(3) [OF last_in_set that] b by (meson less_imp_le order_trans)
    then have "sorted (map g (v @ p # w @ ws))" using assms wl vl unfolding vw by (auto simp: sorted_append intro: order_trans)
    then show ?thesis using b by (simp add: settle_def v_def w_def)
  next
    case c
    have u: "g x \<le> g p" if "x \<in> set us" for x using le_last [OF that] c(1) that by (cases us) auto
    have "g y \<le> g p" if "y \<in> set ws" for y using le_last' [OF that] c(4) by simp
    then have "sorted (map g (us @ ws @ [p]))" using assms u by (auto simp: sorted_append)
    then show ?thesis using c by (auto simp: settle_def)
  next
    case d
    have u: "g x \<le> g p" if "x \<in> set us" for x using le_last [OF that] d(1) that by (cases us) auto
    define v where "v = takeWhile ?hi ws"
    define w where "w = dropWhile ?hi ws"
    have vw: "ws = v @ w" by (simp add: v_def w_def)
    have vl: "g y \<le> g p" if "y \<in> set v" for y using that set_takeWhileD unfolding v_def by fastforce
    have wl: "g p \<le> g y" if y: "y \<in> set w" for y
    proof -
      have "dropWhile ?hi ws \<noteq> []" using y unfolding w_def by (metis empty_iff empty_set)
      from hd_dropWhile [OF this] have "g p \<le> g (hd w)" by (simp add: w_def not_less)
      moreover have "g (hd w) \<le> g y" using s(2) y unfolding vw by (cases w) (auto simp: sorted_append)
      ultimately show ?thesis by (rule order_trans)
    qed
    have "sorted (map g (us @ v @ p # w))" using assms u vl wl unfolding vw by (auto simp: sorted_append intro: order_trans)
    then show ?thesis using d by (auto simp: settle_def v_def w_def)
  next
    case e
    have u: "g x \<le> g p" if "x \<in> set us" for x using le_last [OF that] e(1) that by (cases us) auto
    have "g p \<le> g y" if "y \<in> set ws" for y using ge_hd [OF that] e(2) that by (cases ws) auto
    then have "sorted (map g (us @ p # ws))" using assms u by (auto simp: sorted_append)
    then show ?thesis using e by (auto simp: settle_def)
  qed
qed

subsection \<open>What putting means\<close>

text \<open>A list of pairs as a map gets the new pair, wherever it is put.\<close>

lemma map_of_insert:
  assumes "k \<notin> fst ` set us"
  shows "map_of (us @ (k, v) # ws) = (map_of (us @ ws))(k \<mapsto> v)"
proof
  fix x
  have "map_of us k = None" using assms by (simp add: map_of_eq_None_iff)
  then show "map_of (us @ (k, v) # ws) x = ((map_of (us @ ws))(k \<mapsto> v)) x"
    by (simp add: map_add_def split: option.splits)
qed

lemma set_map_of:
  assumes "distinct (map fst ps)" "distinct (map fst qs)" "set ps = set qs"
  shows "map_of ps = map_of qs"
  using assms map_of_eqI [of ps qs] by (metis map_of_eq_Some_iff option.exhaust ext not_None_eq)

lemma distinct_settle: "distinct (map h (settle lower higher us p ws)) = distinct (map h (us @ p # ws))"
proof -
  have m: "mset (settle lower higher us p ws) = mset (us @ p # ws)"
  proof -
    have "mset (dropWhile lower (rev us)) + mset (takeWhile lower (rev us)) = mset us"
      by (metis add.commute mset_append mset_rev takeWhile_dropWhile_id)
    moreover have "mset (takeWhile higher ws) + mset (dropWhile higher ws) = mset ws"
      by (metis mset_append takeWhile_dropWhile_id)
    ultimately show ?thesis unfolding settle_def by (auto simp: ac_simps)
  qed
  have "mset (map h (settle lower higher us p ws)) = mset (map h (us @ p # ws))" unfolding mset_map m ..
  then show ?thesis by (metis mset_eq_imp_distinct_iff)
qed

lemma found_parts:
  assumes "k \<in> fst ` set ps"
  obtains us v ws where "ps = us @ (k, v) # ws" "us = takeWhile (\<lambda>kv. fst kv \<noteq> k) ps" "ws = tl (dropWhile (\<lambda>kv. fst kv \<noteq> k) ps)"
    "k \<notin> fst ` set us"
proof -
  let ?P = "\<lambda>kv. fst kv \<noteq> k"
  have ne: "dropWhile ?P ps \<noteq> []" using assms by (auto simp: dropWhile_eq_Nil_conv)
  then have h: "fst (hd (dropWhile ?P ps)) = k" using hd_dropWhile [OF ne] by simp
  have "dropWhile ?P ps = hd (dropWhile ?P ps) # tl (dropWhile ?P ps)" using ne by simp
  then have "ps = takeWhile ?P ps @ (k, snd (hd (dropWhile ?P ps))) # tl (dropWhile ?P ps)"
    using h by (metis prod.collapse takeWhile_dropWhile_id)
  moreover have "k \<notin> fst ` set (takeWhile ?P ps)" by (auto dest: set_takeWhileD)
  ultimately show ?thesis using that by blast
qed

text \<open>The pairs after a put, up to their order.\<close>

lemma put_pairs_shape:
  assumes "k \<in> fst ` set ps"
  obtains us v0 ws where "ps = us @ (k, v0) # ws" "k \<notin> fst ` set us"
    "put_pairs C a cookie k v ps = us @ (k, v) # ws
     \<or> (\<exists>f. c_sub C = OrderedValues f \<and> a \<and> put_pairs C a cookie k v ps =
          settle (\<lambda>kv. f v (snd kv) cookie < 0) (\<lambda>kv. f v (snd kv) cookie > 0) us (k, v) ws)"
proof (rule found_parts [OF assms])
  fix us v0 ws assume p: "ps = us @ (k, v0) # ws" "us = takeWhile (\<lambda>kv. fst kv \<noteq> k) ps"
    "ws = tl (dropWhile (\<lambda>kv. fst kv \<noteq> k) ps)" "k \<notin> fst ` set us"
  have "put_pairs C a cookie k v ps = us @ (k, v) # ws
     \<or> (\<exists>f. c_sub C = OrderedValues f \<and> a \<and> put_pairs C a cookie k v ps =
          settle (\<lambda>kv. f v (snd kv) cookie < 0) (\<lambda>kv. f v (snd kv) cookie > 0) us (k, v) ws)"
    using assms unfolding put_pairs_def Let_def p(2,3) [symmetric] by (cases "c_sub C"; cases a) simp_all
  then show ?thesis using that p(1,4) by blast
qed

lemma length_settle: "length (settle lower higher us p ws) = Suc (length us + length ws)"
proof -
  have "length (dropWhile lower (rev us)) + length (takeWhile lower (rev us)) = length us"
    by (metis add.commute length_append length_rev takeWhile_dropWhile_id)
  moreover have "length (takeWhile higher ws) + length (dropWhile higher ws) = length ws"
    by (metis length_append takeWhile_dropWhile_id)
  ultimately show ?thesis by (auto simp: settle_def)
qed

lemma put_pairs_old:
  assumes "k \<in> fst ` set ps"
  obtains us v0 ws where "ps = us @ (k, v0) # ws" "k \<notin> fst ` set us"
    "set (put_pairs C a cookie k v ps) = set (us @ (k, v) # ws)" "length (put_pairs C a cookie k v ps) = length ps"
    "distinct (map fst (put_pairs C a cookie k v ps)) = distinct (map fst (us @ (k, v) # ws))"
proof (rule put_pairs_shape [OF assms, of C a cookie v])
  fix us v0 ws
  assume p: "ps = us @ (k, v0) # ws" "k \<notin> fst ` set us" "put_pairs C a cookie k v ps = us @ (k, v) # ws
     \<or> (\<exists>f. c_sub C = OrderedValues f \<and> a \<and> put_pairs C a cookie k v ps =
          settle (\<lambda>kv. f v (snd kv) cookie < 0) (\<lambda>kv. f v (snd kv) cookie > 0) us (k, v) ws)"
  from p(3) show ?thesis
  proof (elim disjE exE conjE)
    assume "put_pairs C a cookie k v ps = us @ (k, v) # ws"
    then show ?thesis using that [OF p(1,2)] p(1) by simp
  next
    fix f assume "put_pairs C a cookie k v ps =
          settle (\<lambda>kv. f v (snd kv) cookie < 0) (\<lambda>kv. f v (snd kv) cookie > 0) us (k, v) ws"
    then show ?thesis using that [OF p(1,2)] p(1) by (simp add: set_settle length_settle distinct_settle)
  qed
qed

lemma put_pairs_new:
  assumes "k \<notin> fst ` set ps"
  obtains us ws where "ps = us @ ws" "put_pairs C a cookie k v ps = us @ (k, v) # ws"
proof -
  define us where "us = front_part a (\<lambda>kv. ecmp C cookie (k, v) kv < 0) ps"
  obtain ws where ws: "ps = us @ ws" using front_part_prefix unfolding us_def by blast
  then have "drop (length us) ps = ws" by simp
  then have "put_pairs C a cookie k v ps = us @ (k, v) # ws" using assms by (simp add: put_pairs_def Let_def us_def)
  then show ?thesis using that ws by blast
qed

lemma put_pairs_distinct:
  assumes "distinct (map fst ps)"
  shows "distinct (map fst (put_pairs C a cookie k v ps))"
proof (cases "k \<in> fst ` set ps")
  case True
  show ?thesis by (rule put_pairs_old [OF True, of C a cookie v]) (use assms in auto)
next
  case False
  obtain us ws where p: "ps = us @ ws" "put_pairs C a cookie k v ps = us @ (k, v) # ws"
    using put_pairs_new [OF False, of C a cookie v] by blast
  then show ?thesis using assms False by auto
qed

lemma put_pairs_map:
  assumes "distinct (map fst ps)"
  shows "map_of (put_pairs C a cookie k v ps) = (map_of ps)(k \<mapsto> v)"
proof (cases "k \<in> fst ` set ps")
  case True
  obtain us v0 ws where p: "ps = us @ (k, v0) # ws" "k \<notin> fst ` set us"
    "set (put_pairs C a cookie k v ps) = set (us @ (k, v) # ws)"
    using put_pairs_old [OF True, of C a cookie v] by metis
  have "distinct (map fst (us @ (k, v) # ws))" using assms p(1) by simp
  moreover note p(3)
  ultimately have "map_of (put_pairs C a cookie k v ps) = map_of (us @ (k, v) # ws)"
    using put_pairs_distinct [OF assms] by (intro set_map_of)
  also have "\<dots> = (map_of ps)(k \<mapsto> v)" using map_of_insert [OF p(2)] p(1) by (metis fun_upd_upd)
  finally show ?thesis .
next
  case False
  obtain us ws where p: "ps = us @ ws" "put_pairs C a cookie k v ps = us @ (k, v) # ws"
    using put_pairs_new [OF False, of C a cookie v] by blast
  moreover have "k \<notin> fst ` set us" using False p(1) by auto
  ultimately show ?thesis using map_of_insert by metis
qed

lemma length_put_pairs: "length (put_pairs C a cookie k v ps) \<le> Suc (length ps)"
proof (cases "k \<in> fst ` set ps")
  case True
  show ?thesis by (rule put_pairs_old [OF True, of C a cookie v]) simp
next
  case False
  show ?thesis by (rule put_pairs_new [OF False, of C a cookie v]) simp
qed

text \<open>The order is kept.  A table ordered by keys has a sort key that does not look at the values.\<close>

lemma put_pairs_sorted:
  assumes o: "orders_by (ecmp C cookie) g" and s: "sorted (map g ps)" and k: "c_sub C \<noteq> Plain"
  shows "sorted (map g (put_pairs C True cookie k v ps))"
proof (cases "k \<in> fst ` set ps")
  case False
  have "put_pairs C True cookie k v ps = sort_key g (ps @ [(k, v)])"
    by (rule put_new_sorted) (use o s False in \<open>simp_all add: orders_by_def\<close>)
  then show ?thesis by simp
next
  case True
  obtain us v0 ws where p: "ps = us @ (k, v0) # ws" "us = takeWhile (\<lambda>kv. fst kv \<noteq> k) ps"
    "ws = tl (dropWhile (\<lambda>kv. fst kv \<noteq> k) ps)" by (rule found_parts [OF True])
  have sw: "sorted (map g (us @ ws))" using s unfolding p(1) by (auto simp: sorted_append)
  show ?thesis
  proof (cases "c_sub C")
    case (OrderedKeys f)
    have q: "put_pairs C True cookie k v ps = us @ (k, v) # ws"
      using True OrderedKeys unfolding put_pairs_def Let_def p(2,3) [symmetric] by simp
    have "ecmp C cookie (k, v) x = ecmp C cookie (k, v0) x" "ecmp C cookie x (k, v) = ecmp C cookie x (k, v0)" for x
      using OrderedKeys by (simp_all add: ecmp_def)
    then have "\<not> g (k, v) < g (k, v0)" "\<not> g (k, v0) < g (k, v)" using orders_byD [OF o] by (metis less_irrefl)+
    then have "g (k, v) = g (k, v0)" by (simp add: not_less)
    then have "map g (us @ (k, v) # ws) = map g (us @ (k, v0) # ws)" by simp
    then show ?thesis using s unfolding q by (simp only: p(1) [symmetric])
  next
    case (OrderedValues f)
    have e: "f v (snd y) cookie = ecmp C cookie (k, v) y" for y using OrderedValues by (simp add: ecmp_def)
    have q: "put_pairs C True cookie k v ps =
        settle (\<lambda>kv. f v (snd kv) cookie < 0) (\<lambda>kv. f v (snd kv) cookie > 0) us (k, v) ws"
      using True OrderedValues unfolding put_pairs_def Let_def p(2,3) [symmetric] by simp
    show ?thesis unfolding q e orders_byD [OF o] by (rule settle_sorted [OF sw])
  qed (use k in simp)
qed

subsection \<open>Sorting a table by its own order\<close>

lemma SortAux_rep:
  assumes r: "ht_rep C t it" and o: "is_ordered (c_sub C) \<Longrightarrow> orders_by (ecmp C (t_cookie t)) g"
  obtains t' it' where "SortAux C t = Ok t'" "ht_rep C t' it'" "same_slots t t'" "t_objs t' = t_objs t"
    "pairs t' it' = (if is_ordered (c_sub C) then sort_key g (pairs t it) else pairs t it)"
proof (cases "is_ordered (c_sub C)")
  case False
  then have "c_sub C = Plain" by (cases "c_sub C") simp_all
  then show ?thesis using that [of t it] r by (simp add: SortAux_def same_slots_def)
next
  case True
  have "SortAux C t = SortBy (entry_cmp (ecmp C (t_cookie t))) t"
  proof (cases "c_sub C")
    case (OrderedKeys f)
    have "entry_cmp (ecmp C (t_cookie t)) = (\<lambda>x y. f (e_key x) (e_key y) (t_cookie t))"
      using OrderedKeys by (simp add: fun_eq_iff entry_cmp_def ecmp_def)
    then show ?thesis using OrderedKeys by (simp add: SortAux_def SortByKey_def)
  next
    case (OrderedValues f)
    have "entry_cmp (ecmp C (t_cookie t)) = (\<lambda>x y. f (e_value x) (e_value y) (t_cookie t))"
      using OrderedValues by (simp add: fun_eq_iff entry_cmp_def ecmp_def)
    then show ?thesis using OrderedValues by (simp add: SortAux_def SortByValue_def)
  qed (use True in simp)
  then show ?thesis using SortBy_rep [OF o [OF True] r] that True by metis
qed

end
