(* ===== verification/Hash_Tables.thy ===== *)
theory Hash_Tables
  imports Hash_Ops
begin

section \<open>Hashtable: operations on several tables, comparisons and iterators\<close>

text \<open>
  The operations of \<^verbatim>\<open>source/muscle/util/Hashtable.h\<close> that walk along the iteration list of one
  table and look keys up in another, and the public functions of \<^verbatim>\<open>HashtableIterator\<close>.
  The parameter \<open>same\<close> says whether the argument is the table itself.
\<close>

subsection \<open>Walking along the iteration list\<close>

text \<open>
  \<^verbatim>\<open>while(e) {...; e = next(e);}\<close> with a body that may return early.
\<close>

datatype ('s, 'r) step = Go 's | Return 'r

fun each_entry :: "('k, 'v) ht \<Rightarrow> which \<Rightarrow> (('k, 'v) entry \<Rightarrow> nat \<Rightarrow> 's \<Rightarrow> ('s, 'r) step outcome) \<Rightarrow> nat \<Rightarrow> nat option \<Rightarrow> 's \<Rightarrow> ('s, 'r) step outcome" where
  "each_entry t w f 0 p s = Spin"
| "each_entry t w f (Suc n) p s =
     (case p of
        None \<Rightarrow> Ok (Go s)
      | Some e \<Rightarrow> obind (ent t e) (\<lambda>x. obind (f x e s) (\<lambda>r. case r of
          Return r \<Rightarrow> Ok (Return r)
        | Go s \<Rightarrow> obind (GetEntryChecked t e w) (\<lambda>p. each_entry t w f n p s))))"

definition from_head :: "('k, 'v) ht \<Rightarrow> (('k, 'v) entry \<Rightarrow> nat \<Rightarrow> 's \<Rightarrow> ('s, 'r) step outcome) \<Rightarrow> 's \<Rightarrow> ('s, 'r) step outcome" where
  "from_head t f s = each_entry t ITER_NEXT f (table_fuel t) (IndexToEntryChecked (t_head t)) s"

definition returned :: "'r \<Rightarrow> ('s, 'r) step outcome \<Rightarrow> 'r outcome" where
  "returned d r = obind r (\<lambda>r. Ok (case r of Go s \<Rightarrow> d | Return r \<Rightarrow> r))"

subsection \<open>Searches and comparisons\<close>

definition ContainsValue :: "('k, 'v) ht_class \<Rightarrow> ('k, 'v) ht \<Rightarrow> 'v \<Rightarrow> bool outcome" where
  "ContainsValue C t val = returned False
     (from_head t (\<lambda>x e s. Ok (if c_veq C (e_value x) val then Return True else Go ())) ())"

text \<open>\<^verbatim>\<open>int32\<close> results are integers; \<^verbatim>\<open>-1\<close> stands for "not found".\<close>

definition IndexOfKey :: "('k, 'v) ht_class \<Rightarrow> ('k, 'v) ht \<Rightarrow> 'k \<Rightarrow> int outcome" where
  "IndexOfKey C t key =
     obind (GetEntry C t (ComputeHash C key) key) (\<lambda>p.
     if p = None then Ok (- 1)
     else if p = IndexToEntryChecked (t_tail t) then Ok (int (t_items t) - 1)
     else obind (each_entry t ITER_PREV (\<lambda>x e count. Ok (Go (count + 1) :: (int, int) step)) (table_fuel t) p (- 1))
       (\<lambda>r. Ok (case r of Go count \<Rightarrow> count | Return count \<Rightarrow> count)))"

definition IndexOfValue :: "('k, 'v) ht_class \<Rightarrow> ('k, 'v) ht \<Rightarrow> 'v \<Rightarrow> bool \<Rightarrow> int outcome" where
  "IndexOfValue C t val searchBackwards = returned (- 1)
     (if searchBackwards
      then each_entry t ITER_PREV (\<lambda>x e idx. Ok (if c_veq C (e_value x) val then Return (idx - 1) else Go (idx - 1)))
             (table_fuel t) (IndexToEntryChecked (t_tail t)) (int (t_items t))
      else from_head t (\<lambda>x e idx. Ok (if c_veq C (e_value x) val then Return idx else Go (idx + 1))) 0)"

definition AreKeySetsEqual :: "('k, 'v) ht_class \<Rightarrow> ('k, 'v) ht \<Rightarrow> ('k, 'w) ht_class \<Rightarrow> ('k, 'w) ht \<Rightarrow> bool outcome" where
  "AreKeySetsEqual C t D rhs =
     (if t_items t \<noteq> t_items rhs then Ok False
      else returned True (from_head t (\<lambda>x e s. obind (ContainsKey D rhs (e_key x)) (\<lambda>b.
             Ok (if \<not> b then Return False else Go ()))) ()))"

text \<open>With \<^verbatim>\<open>considerOrdering\<close> the code compares the values only, not the keys.\<close>

definition IsEqualTo :: "('k, 'v) ht_class \<Rightarrow> ('k, 'v) ht \<Rightarrow> ('k, 'v) ht \<Rightarrow> bool \<Rightarrow> bool \<Rightarrow> bool outcome" where
  "IsEqualTo C t rhs same considerOrdering =
     (if same then Ok True
      else if t_items t \<noteq> t_items rhs then Ok False
      else if considerOrdering
      then returned True (from_head t (\<lambda>x e hisE. case hisE of
             None \<Rightarrow> Fault
           | Some h \<Rightarrow> obind (ent rhs h) (\<lambda>y.
               if \<not> c_veq C (e_value y) (e_value x) then Ok (Return False)
               else obind (GetEntryChecked rhs h ITER_NEXT) (\<lambda>hisE. Ok (Go hisE))))
             (IndexToEntryChecked (t_head rhs)))
      else returned True (from_head t (\<lambda>x e s.
             obind (GetEntry C rhs (e_hash x) (e_key x)) (\<lambda>hisE. case hisE of
               None \<Rightarrow> Ok (Return False)
             | Some h \<Rightarrow> obind (ent rhs h) (\<lambda>y.
                 Ok (if \<not> c_veq C (e_value y) (e_value x) then Return False else Go ())))) ()))"

subsection \<open>Removing the keys of another table, copying and moving\<close>

definition continue_with :: "('s, 's) step outcome \<Rightarrow> 's outcome" where
  "continue_with r = obind r (\<lambda>r. Ok (case r of Go s \<Rightarrow> s | Return s \<Rightarrow> s))"

definition RemovePairs :: "('k, 'v) ht_class \<Rightarrow> ('k, 'v) ht \<Rightarrow> ('k, 'v) ht \<Rightarrow> bool \<Rightarrow> (nat \<times> ('k, 'v) ht) outcome" where
  "RemovePairs C t pairs same =
     (if same then obind (Clear_ht C t False) (\<lambda>t'. Ok (t_items t, t'))
      else continue_with (from_head pairs (\<lambda>x e (n, t).
             obind (RemoveAux C t (e_hash x) (e_key x)) (\<lambda>(v, t).
             Ok (Go (if v \<noteq> None then add32 n 1 else n, t)))) (0, t)))"

fun intersect_loop :: "('k, 'v) ht_class \<Rightarrow> ('k, 'v) ht \<Rightarrow> nat \<Rightarrow> nat option \<Rightarrow> nat \<times> ('k, 'v) ht \<Rightarrow> (nat \<times> ('k, 'v) ht) outcome" where
  "intersect_loop C pairs 0 p s = Spin"
| "intersect_loop C pairs (Suc n) p (removeCount, t) =
     (case p of
        None \<Rightarrow> Ok (removeCount, t)
      | Some e \<Rightarrow>
          obind (GetEntryChecked t e ITER_NEXT) (\<lambda>next.
          obind (ent t e) (\<lambda>x.
          obind (GetEntry C pairs (e_hash x) (e_key x)) (\<lambda>q.
          if q = None
          then obind (RemoveAux C t (e_hash x) (e_key x)) (\<lambda>(v, t).
               intersect_loop C pairs n next (if v \<noteq> None then add32 removeCount 1 else removeCount, t))
          else intersect_loop C pairs n next (removeCount, t)))))"

definition Intersect :: "('k, 'v) ht_class \<Rightarrow> ('k, 'v) ht \<Rightarrow> ('k, 'v) ht \<Rightarrow> bool \<Rightarrow> (nat \<times> ('k, 'v) ht) outcome" where
  "Intersect C t pairs same =
     (if same then Ok (0, t)
      else intersect_loop C pairs (table_fuel t) (IndexToEntryChecked (t_head t)) (0, t))"

definition copy_entry :: "('k, 'v) ht_class \<Rightarrow> bool \<Rightarrow> ('k, 'v) entry \<Rightarrow> ('k, 'v) ht \<Rightarrow> ('k, 'v) ht outcome" where
  "copy_entry C wasEmpty x t =
     obind (if wasEmpty then Ok None else GetEntry C t (e_hash x) (e_key x)) (\<lambda>myEntry. case myEntry of
        Some m \<Rightarrow> obind (ent t m) (\<lambda>y. Ok (put_ent t m (y\<lparr>e_value := e_value x\<rparr>)))
      | None \<Rightarrow>
          obind (PutAuxAux t (e_hash x) (e_key x) (e_value x)) (\<lambda>(e, t).
          obind (InsertIterationEntry t e (IndexToEntryChecked (t_tail t))) (\<lambda>t.
          Ok (t\<lparr>t_items := add32 (t_items t) 1\<rparr>))))"

definition CopyFromAux :: "('k, 'v) ht_class \<Rightarrow> ('k, 'v) ht \<Rightarrow> ('k, 'v) ht \<Rightarrow> ('k, 'v) ht outcome" where
  "CopyFromAux C t rhs =
     (let wasEmpty = (t_items t = 0) in
      continue_with (from_head rhs (\<lambda>x e t. obind (copy_entry C wasEmpty x t) (\<lambda>t. Ok (Go t))) t))"

definition CopyFrom_ht :: "('k, 'v) ht_class \<Rightarrow> ('k, 'v) ht \<Rightarrow> ('k, 'v) ht \<Rightarrow> bool \<Rightarrow> bool \<Rightarrow> (status \<times> ('k, 'v) ht) outcome" where
  "CopyFrom_ht C t rhs same clearFirst =
     (if same then Ok (B_NO_ERROR, t)
      else obind (if clearFirst then Clear_ht C t (t_items rhs = 0 \<and> t_size t > HASHTABLE_DEFAULT_CAPACITY) else Ok t) (\<lambda>t.
           if t_items rhs > 0
           then obind (EnsureSize_ht C t (add32 (t_items t) (t_items rhs)) False) (\<lambda>(st, t).
                if st \<noteq> B_NO_ERROR then Ok (B_ERROR, t)
                else obind (EnsureTableAllocated C t) (\<lambda>(st, t).
                     if st \<noteq> B_NO_ERROR then Ok (B_ERROR, t)
                     else obind (CopyFromAux C t rhs) (\<lambda>t.
                          obind (SortAux C t) (\<lambda>t. Ok (B_NO_ERROR, t)))))
           else Ok (B_NO_ERROR, t)))"

text \<open>The hash is computed by this table's functor and handed to the other table.\<close>

definition CopyToTable :: "('k, 'v) ht_class \<Rightarrow> ('k, 'v) ht \<Rightarrow> 'k \<Rightarrow> ('k, 'v) ht_class \<Rightarrow> ('k, 'v) ht \<Rightarrow> bool \<Rightarrow> (status \<times> ('k, 'v) ht) outcome" where
  "CopyToTable C t copyMe D toTable same =
     (let hash = ComputeHash C copyMe in
      obind (GetEntry C t hash copyMe) (\<lambda>p. case p of
        None \<Rightarrow> Ok (B_ERROR, toTable)
      | Some e \<Rightarrow>
          if same then Ok (B_NO_ERROR, toTable)
          else obind (ent t e) (\<lambda>x.
               obind (PutAux D 3 toTable hash copyMe (VObj (e_value x))) (\<lambda>(q, old, toTable).
               Ok (if q \<noteq> None then B_NO_ERROR else B_ERROR, toTable)))))"

definition MoveToTable :: "('k, 'v) ht_class \<Rightarrow> ('k, 'v) ht \<Rightarrow> 'k \<Rightarrow> ('k, 'v) ht_class \<Rightarrow> ('k, 'v) ht \<Rightarrow> bool \<Rightarrow> (status \<times> ('k, 'v) ht \<times> ('k, 'v) ht) outcome" where
  "MoveToTable C t moveMe D toTable same =
     (let hash = ComputeHash C moveMe in
      obind (GetEntry C t hash moveMe) (\<lambda>p. case p of
        None \<Rightarrow> Ok (B_ERROR, t, toTable)
      | Some e \<Rightarrow>
          if same then Ok (B_NO_ERROR, t, toTable)
          else obind (ent t e) (\<lambda>x.
               obind (PutAux D 3 toTable hash moveMe (VObj (e_value x))) (\<lambda>(q, old, toTable).
               if q \<noteq> None
               then obind (RemoveAux C t (e_hash x) moveMe) (\<lambda>(v, t).
                    Ok (if v \<noteq> None then B_NO_ERROR else B_ERROR, t, toTable))
               else Ok (B_ERROR, t, toTable)))))"

subsection \<open>Iterators: registration\<close>

text \<open>\<^verbatim>\<open>tid\<close> is the current thread.\<close>

definition set_obj :: "('k, 'v) ht \<Rightarrow> nat \<Rightarrow> ('k, 'v) hiter \<Rightarrow> ('k, 'v) ht" where
  "set_obj t n it = t\<lparr>t_objs := (t_objs t)(n := it)\<rparr>"

definition RegisterIterator :: "nat \<Rightarrow> ('k, 'v) ht \<Rightarrow> nat \<Rightarrow> ('k, 'v) ht" where
  "RegisterIterator tid t n =
     (let it = t_objs t n in
      if i_noregister it then t
      else let t' = t\<lparr>t_icount := t_icount t + 1\<rparr> in
      if t_icount t' = 1
      then (set_obj t' n (it\<lparr>i_okay := True\<rparr>))\<lparr>t_ithread := Some tid, t_iters := n # t_iters t\<rparr>
      else if t_ithread t \<noteq> Some tid
      then set_obj t n (it\<lparr>i_noregister := True\<rparr>)
      else t'\<lparr>t_iters := n # t_iters t\<rparr>)"

definition UnregisterIterator :: "('k, 'v) ht \<Rightarrow> nat \<Rightarrow> ('k, 'v) ht" where
  "UnregisterIterator t n =
     (let it = t_objs t n in
      if i_noregister it then t
      else let t = t\<lparr>t_iters := remove1 n (t_iters t), t_icount := t_icount t - 1\<rparr> in
      if i_okay it then (set_obj t n (it\<lparr>i_okay := False\<rparr>))\<lparr>t_ithread := None\<rparr> else t)"

text \<open>A new iterator object \<open>n\<close> with the given flags; its cookie is NULL until it is initialised.\<close>

definition new_iter :: "bool \<Rightarrow> bool \<Rightarrow> ('k, 'v) hiter" where
  "new_iter backwards noregister =
     \<lparr>i_cookie = ENull, i_cur = CNull, i_backwards = backwards, i_noregister = noregister, i_owned = True,
      i_scratch = None, i_space = ENull, i_bsKey = ENull, i_bsVal = ENull, i_okay = False\<rparr>"

definition place_iter :: "('k, 'v) ht \<Rightarrow> nat \<Rightarrow> eptr \<Rightarrow> ('k, 'v) ht" where
  "place_iter t n p = set_obj t n ((UpdateKeyAndValuePointers ((t_objs t n)\<lparr>i_cookie := p\<rparr>))\<lparr>i_bsKey := p, i_bsVal := p\<rparr>)"

definition IteratorStart :: "nat \<Rightarrow> ('k, 'v) ht \<Rightarrow> nat \<Rightarrow> bool \<Rightarrow> bool \<Rightarrow> ('k, 'v) ht" where
  "IteratorStart tid t n backwards noregister =
     (let t = RegisterIterator tid (set_obj t n (new_iter backwards noregister)) n in
      place_iter t n (to_eptr (IndexToEntryChecked (if backwards then t_tail t else t_head t))))"

definition IteratorStartAt :: "('k, 'v) ht_class \<Rightarrow> nat \<Rightarrow> ('k, 'v) ht \<Rightarrow> nat \<Rightarrow> 'k \<Rightarrow> bool \<Rightarrow> bool \<Rightarrow> ('k, 'v) ht outcome" where
  "IteratorStartAt C tid t n startAt backwards noregister =
     (let t = RegisterIterator tid (set_obj t n (new_iter backwards noregister)) n in
      obind (GetEntry C t (ComputeHash C startAt) startAt) (\<lambda>p. Ok (place_iter t n (to_eptr p))))"

definition IteratorEnd :: "('k, 'v) ht \<Rightarrow> nat \<Rightarrow> ('k, 'v) ht" where
  "IteratorEnd t n = (if i_owned (t_objs t n) then UnregisterIterator t n else t)"

text \<open>\<^verbatim>\<open>operator =\<close> for two iterators of the table.\<close>

definition IteratorAssign :: "nat \<Rightarrow> ('k, 'v) ht \<Rightarrow> nat \<Rightarrow> nat \<Rightarrow> ('k, 'v) ht" where
  "IteratorAssign tid t n rhs =
     (if n = rhs then t
      else let r = t_objs t rhs;
               t = IteratorEnd t n;
               t = set_obj t n ((t_objs t n)\<lparr>i_backwards := i_backwards r, i_noregister := i_noregister r,
                     i_owned := i_owned r, i_scratch := i_scratch r\<rparr>);
               t = (if i_owned r then RegisterIterator tid t n else t)
           in place_iter t n (i_cookie r))"

subsection \<open>Iterators: access and steps\<close>

definition HasData :: "('k, 'v) ht \<Rightarrow> nat \<Rightarrow> bool" where
  "HasData t n \<longleftrightarrow> i_cur (t_objs t n) \<noteq> CNull"

definition deref_eptr :: "('k, 'v) ht \<Rightarrow> eptr \<Rightarrow> ('k \<times> 'v) outcome" where
  "deref_eptr t p = (case p of EAt e \<Rightarrow> obind (ent t e) (\<lambda>x. Ok (e_key x, e_value x)) | _ \<Rightarrow> Fault)"

text \<open>\<^verbatim>\<open>GetKey\<close> and \<^verbatim>\<open>GetValue\<close> of an iterator.\<close>

definition IterKeyValue :: "('k, 'v) ht \<Rightarrow> nat \<Rightarrow> ('k \<times> 'v) outcome" where
  "IterKeyValue t n = (case i_cur (t_objs t n) of
     CNull \<Rightarrow> Fault
   | CScratch \<Rightarrow> (case i_scratch (t_objs t n) of Some kv \<Rightarrow> Ok kv | None \<Rightarrow> Fault)
   | CEntry p \<Rightarrow> deref_eptr t p)"

definition iter_advance :: "('k, 'v) ht \<Rightarrow> ('k, 'v) hiter \<Rightarrow> ('k, 'v) hiter outcome" where
  "iter_advance t it =
     obind (if i_scratch it \<noteq> None then Ok (it\<lparr>i_scratch := None\<rparr>)
            else obind (if i_owned it then GetSubsequentEntry t (i_cookie it) (i_backwards it) else Ok ENull) (\<lambda>p.
                 Ok (it\<lparr>i_cookie := p\<rparr>)))
       (\<lambda>it. Ok (UpdateKeyAndValuePointers it))"

definition IterNext :: "('k, 'v) ht \<Rightarrow> nat \<Rightarrow> ('k, 'v) ht outcome" where
  "IterNext t n = obind (iter_advance t (t_objs t n)) (\<lambda>it. Ok (set_obj t n it))"

definition IterPrev :: "('k, 'v) ht \<Rightarrow> nat \<Rightarrow> ('k, 'v) ht outcome" where
  "IterPrev t n =
     (let it = t_objs t n; b = i_backwards it in
      obind (iter_advance t (it\<lparr>i_backwards := \<not> b\<rparr>)) (\<lambda>it. Ok (set_obj t n (it\<lparr>i_backwards := b\<rparr>))))"

definition SetBackwards :: "('k, 'v) ht \<Rightarrow> nat \<Rightarrow> bool \<Rightarrow> ('k, 'v) ht" where
  "SetBackwards t n backwards = set_obj t n ((t_objs t n)\<lparr>i_backwards := backwards\<rparr>)"

text \<open>The cursors of the older interface, which nothing updates when entries are removed or moved.\<close>

definition GetNextKey :: "('k, 'v) ht \<Rightarrow> nat \<Rightarrow> ('k option \<times> ('k, 'v) ht) outcome" where
  "GetNextKey t n =
     (let it = t_objs t n in
      if i_bsKey it = ENull then Ok (None, t)
      else obind (deref_eptr t (i_bsKey it)) (\<lambda>(k, v).
           obind (GetSubsequentEntry t (i_bsKey it) (i_backwards it)) (\<lambda>p.
           Ok (Some k, set_obj t n (it\<lparr>i_bsKey := p\<rparr>)))))"

definition GetNextValue :: "('k, 'v) ht \<Rightarrow> nat \<Rightarrow> ('v option \<times> ('k, 'v) ht) outcome" where
  "GetNextValue t n =
     (let it = t_objs t n in
      if i_bsVal it = ENull then Ok (None, t)
      else obind (deref_eptr t (i_bsVal it)) (\<lambda>(k, v).
           obind (GetSubsequentEntry t (i_bsVal it) (i_backwards it)) (\<lambda>p.
           Ok (Some v, set_obj t n (it\<lparr>i_bsVal := p\<rparr>)))))"

end
