(* ===== verification/Hash_Scan.thy ===== *)
theory Hash_Scan
  imports Hash_Ordered Hash_Tables
begin

section \<open>Hashtable: scans, comparisons, clearing\<close>

text \<open>
  The operations that walk along the whole iteration list, in terms of the list of pairs, and those that
  take entries off its ends.
\<close>

subsection \<open>Walking along the list\<close>

fun run_steps :: "('a \<Rightarrow> 's \<Rightarrow> ('s, 'r) step) \<Rightarrow> 'a list \<Rightarrow> 's \<Rightarrow> ('s, 'r) step" where
  "run_steps g [] s = Go s"
| "run_steps g (p # ps) s = (case g p s of Go s' \<Rightarrow> run_steps g ps s' | Return r \<Rightarrow> Return r)"

lemma each_entry_run:
  assumes "ht_rep C t (us @ ws)" "length ws < n"
    and f: "\<And>e s. e \<in> set ws \<Longrightarrow> f (es_of t ! e) e s = Ok (g (kv_of t e) s)"
  shows "each_entry t ITER_NEXT f n (ptr_hd ws) s = Ok (run_steps g (pairs t ws) s)"
  using assms
proof (induction ws arbitrary: us n s)
  case Nil
  then show ?case by (cases n) (simp_all add: ptr_hd_def)
next
  case (Cons e ws)
  obtain m where n: "n = Suc m" using Cons.prems(2) by (cases n) auto
  have al: "ht_alloc C t (us @ e # ws)" using Cons.prems(1) by (simp add: ht_rep_def)
  have "each_entry t ITER_NEXT f m (ptr_hd ws) s' = Ok (run_steps g (pairs t ws) s')" for s'
    by (rule Cons.IH [of "us @ [e]"]) (use Cons.prems n in simp_all)
  moreover have "f (es_of t ! e) e s = Ok (g (kv_of t e) s)" using Cons.prems(3) by simp
  ultimately show ?case using n alloc_links [OF al] by (simp add: ptr_hd_def split: step.splits)
qed

lemma from_head_run:
  assumes r: "ht_rep C t it" and f: "\<And>e s. e \<in> set it \<Longrightarrow> f (es_of t ! e) e s = Ok (g (kv_of t e) s)"
  shows "from_head t f s = Ok (run_steps g (pairs t it) s)"
  unfolding from_head_def rep_head [OF r]
  by (rule each_entry_run [of C t "[]"]) (use r rep_fuel [OF r] f in simp_all)

lemma run_steps_search:
  "run_steps (\<lambda>p s. if P p then Return b else Go ()) ps () = (if \<exists>p \<in> set ps. P p then Return b else Go ())"
  by (induction ps) auto

subsection \<open>Searches\<close>

lemma ContainsValue_rep:
  assumes "ht_rep C t it"
  shows "ContainsValue C t v = Ok (\<exists>p \<in> set (pairs t it). c_veq C (snd p) v)"
proof -
  have "from_head t (\<lambda>x e s. Ok (if c_veq C (e_value x) v then Return True else Go ())) () =
      Ok (run_steps (\<lambda>p s. if c_veq C (snd p) v then Return True else Go ()) (pairs t it) ())"
    by (rule from_head_run [OF assms]) (simp add: vl_def)
  then show ?thesis by (simp add: ContainsValue_def returned_def run_steps_search)
qed

text \<open>The first position of a value.\<close>

lemma run_steps_index:
  "run_steps (\<lambda>p i. if P p then Return i else Go (i + 1)) ps i =
     (if \<exists>p \<in> set ps. P p then Return (i + int (length (takeWhile (\<lambda>p. \<not> P p) ps))) else Go (i + int (length ps)))"
  by (induction ps arbitrary: i) auto

lemma IndexOfValue_rep:
  assumes "ht_rep C t it"
  shows "IndexOfValue C t v False = Ok (if \<exists>p \<in> set (pairs t it). c_veq C (snd p) v
     then int (length (takeWhile (\<lambda>p. \<not> c_veq C (snd p) v) (pairs t it))) else - 1)"
proof -
  have "from_head t (\<lambda>x e idx. Ok (if c_veq C (e_value x) v then Return idx else Go (idx + 1))) 0 =
      Ok (run_steps (\<lambda>p i. if c_veq C (snd p) v then Return i else Go (i + 1)) (pairs t it) (0 :: int))"
    by (rule from_head_run [OF assms]) (simp add: vl_def)
  then show ?thesis by (simp add: IndexOfValue_def returned_def run_steps_index)
qed

subsection \<open>Comparisons\<close>

lemma keys_equal:
  assumes "distinct (map fst ps)" "distinct (map fst qs)" "length ps = length qs" "fst ` set ps \<subseteq> fst ` set qs"
  shows "fst ` set ps = fst ` set qs"
proof -
  have "card (fst ` set ps) = length ps" "card (fst ` set qs) = length qs"
    using distinct_card [OF assms(1)] distinct_card [OF assms(2)] by simp_all
  then show ?thesis using assms(3,4) by (intro card_subset_eq) simp_all
qed

lemma card_keys: "ht_rep C t it \<Longrightarrow> card (fst ` set (pairs t it)) = length it"
  using distinct_card [OF distinct_keys] length_pairs by (metis length_map set_map)

lemma AreKeySetsEqual_rep:
  assumes r: "ht_rep C t it" and q: "ht_rep D u jt" "keq_ok D"
  shows "AreKeySetsEqual C t D u = Ok (fst ` set (pairs t it) = fst ` set (pairs u jt))"
proof (cases "length it = length jt")
  case False
  have "card (fst ` set (pairs t it)) = length it" "card (fst ` set (pairs u jt)) = length jt"
    by (rule card_keys [OF r], rule card_keys [OF q(1)])
  then show ?thesis using False ht_rep_length [OF r] ht_rep_length [OF q(1)] by (auto simp: AreKeySetsEqual_def)
next
  case True
  have "from_head t (\<lambda>x e s. obind (ContainsKey D u (e_key x)) (\<lambda>b. Ok (if \<not> b then Return False else Go ()))) () =
      Ok (run_steps (\<lambda>p s. if fst p \<notin> fst ` set (pairs u jt) then Return False else Go ()) (pairs t it) ())"
    by (rule from_head_run [OF r]) (simp add: ContainsKey_rep [OF q] ky_def)
  then have "AreKeySetsEqual C t D u = Ok (fst ` set (pairs t it) \<subseteq> fst ` set (pairs u jt))"
    using True ht_rep_length [OF r] ht_rep_length [OF q(1)]
    by (auto simp: AreKeySetsEqual_def returned_def run_steps_search)
  moreover have "fst ` set (pairs t it) \<subseteq> fst ` set (pairs u jt) \<longleftrightarrow> fst ` set (pairs t it) = fst ` set (pairs u jt)"
    using keys_equal [OF distinct_keys [OF r] distinct_keys [OF q(1)]] True by auto
  ultimately show ?thesis by simp
qed

definition veq_ok :: "('k, 'v) ht_class \<Rightarrow> bool" where
  "veq_ok C \<longleftrightarrow> (\<forall>a b. c_veq C a b \<longleftrightarrow> a = b)"

text \<open>Without the ordering, \<^verbatim>\<open>IsEqualTo\<close> compares the two tables as maps.\<close>

lemma maps_equal:
  assumes "distinct (map fst ps)" "distinct (map fst qs)" "length ps = length qs"
  shows "(\<forall>p \<in> set ps. map_of qs (fst p) = Some (snd p)) \<longleftrightarrow> map_of ps = map_of qs"
proof
  assume a: "\<forall>p \<in> set ps. map_of qs (fst p) = Some (snd p)"
  have "fst ` set ps \<subseteq> fst ` set qs"
  proof
    fix x assume "x \<in> fst ` set ps"
    then have "map_of qs x \<noteq> None" using a by auto
    then show "x \<in> fst ` set qs" by (simp add: map_of_eq_None_iff)
  qed
  then have k: "fst ` set ps = fst ` set qs" by (rule keys_equal [OF assms])
  show "map_of ps = map_of qs"
  proof
    fix x show "map_of ps x = map_of qs x"
    proof (cases "map_of ps x")
      case None
      then show ?thesis using k by (metis map_of_eq_None_iff)
    next
      case (Some v)
      then have "(x, v) \<in> set ps" by (rule map_of_SomeD)
      then have "map_of qs x = Some v" using a by fastforce
      then show ?thesis using Some by simp
    qed
  qed
next
  assume "map_of ps = map_of qs"
  then show "\<forall>p \<in> set ps. map_of qs (fst p) = Some (snd p)" using assms(1) by (metis map_of_is_SomeI prod.collapse)
qed

lemma IsEqualTo_rep:
  assumes r: "ht_rep C t it" and q: "ht_rep C u jt" and k: "keq_ok C" "veq_ok C"
  shows "IsEqualTo C t u False False = Ok (map_of (pairs t it) = map_of (pairs u jt))"
proof (cases "length it = length jt")
  case False
  have "dom (map_of (pairs t it)) = fst ` set (pairs t it)" "dom (map_of (pairs u jt)) = fst ` set (pairs u jt)"
    by (rule dom_map_of_conv_image_fst)+
  moreover have "card (fst ` set (pairs t it)) = length it" "card (fst ` set (pairs u jt)) = length jt"
    by (rule card_keys [OF r], rule card_keys [OF q])
  ultimately have "map_of (pairs t it) \<noteq> map_of (pairs u jt)" using False by metis
  then show ?thesis using False ht_rep_length [OF r] ht_rep_length [OF q] by (simp add: IsEqualTo_def)
next
  case True
  let ?f = "\<lambda>x e s. obind (GetEntry C u (e_hash x) (e_key x)) (\<lambda>hisE. case hisE of
               None \<Rightarrow> Ok (Return False)
             | Some h \<Rightarrow> obind (ent u h) (\<lambda>y. Ok (if \<not> c_veq C (e_value y) (e_value x) then Return False else Go ())))"
  have "from_head t ?f () = Ok (run_steps (\<lambda>p s. if map_of (pairs u jt) (fst p) \<noteq> Some (snd p) then Return False else Go ()) (pairs t it) ())"
  proof (rule from_head_run [OF r])
    fix e s assume e: "e \<in> set it"
    then have "ht_alloc C t it" using r by (auto simp: ht_rep_def)
    then have h: "e_hash (es_of t ! e) = ComputeHash C (ky t e)" using e by (auto simp: ht_alloc_def keyed_def hsh_def)
    show "?f (es_of t ! e) e s = Ok (if map_of (pairs u jt) (fst (kv_of t e)) \<noteq> Some (snd (kv_of t e)) then Return False else Go ())"
      by (rule GetEntry_rep [OF q k(1), of "ky t e"])
         (use h k(2) in \<open>auto simp: veq_ok_def simp flip: ky_def vl_def\<close>)
  qed
  then have "IsEqualTo C t u False False = Ok (\<forall>p \<in> set (pairs t it). map_of (pairs u jt) (fst p) = Some (snd p))"
    using True ht_rep_length [OF r] ht_rep_length [OF q] by (auto simp: IsEqualTo_def returned_def run_steps_search)
  also have "\<dots> = Ok (map_of (pairs t it) = map_of (pairs u jt))"
    using maps_equal [OF distinct_keys [OF r] distinct_keys [OF q]] True by simp
  finally show ?thesis .
qed

text \<open>With the ordering, it compares the values one after the other and leaves the keys out.\<close>

lemma IsEqualTo_ordered_loop:
  assumes "length ws = length zs" "ht_rep C t (us @ ws)" "ht_rep D u (vs @ zs)" "length ws < n" "veq_ok C"
  shows "\<exists>s. each_entry t ITER_NEXT (\<lambda>x e hisE. case hisE of
             None \<Rightarrow> Fault
           | Some h \<Rightarrow> obind (ent u h) (\<lambda>y.
               if \<not> c_veq C (e_value y) (e_value x) then Ok (Return False)
               else obind (GetEntryChecked u h ITER_NEXT) (\<lambda>hisE. Ok (Go hisE)))) n (ptr_hd ws) (ptr_hd zs)
     = Ok (if map snd (pairs t ws) = map snd (pairs u zs) then Go s else Return False)"
  using assms(1-4)
proof (induction ws zs arbitrary: us vs n rule: list_induct2)
  case Nil
  then show ?case by (cases n) (simp_all add: ptr_hd_def)
next
  case (Cons e ws h zs)
  obtain m where n: "n = Suc m" using Cons.prems(3) by (cases n) auto
  have al: "ht_alloc C t (us @ e # ws)" "ht_alloc D u (vs @ h # zs)" using Cons.prems(1,2) by (simp_all add: ht_rep_def)
  note l = alloc_links [OF al(1)] alloc_links [OF al(2)]
  show ?case
  proof (cases "vl u h = vl t e")
    case True
    then show ?thesis using Cons.IH [of "us @ [e]" "vs @ [h]" m] Cons.prems n l assms(5)
      by (simp add: ptr_hd_def veq_ok_def vl_def split: step.splits)
  next
    case False
    then show ?thesis using n l assms(5) by (auto simp: ptr_hd_def veq_ok_def vl_def)
  qed
qed

lemma IsEqualTo_ordered_rep:
  assumes r: "ht_rep C t it" and q: "ht_rep D u jt" and k: "veq_ok C"
  shows "IsEqualTo C t u False True = Ok (map snd (pairs t it) = map snd (pairs u jt))"
proof (cases "length it = length jt")
  case False
  then have "map snd (pairs t it) \<noteq> map snd (pairs u jt)" by (metis length_map length_pairs)
  then show ?thesis using False ht_rep_length [OF r] ht_rep_length [OF q] by (simp add: IsEqualTo_def)
next
  case True
  obtain s where "each_entry t ITER_NEXT (\<lambda>x e hisE. case hisE of
             None \<Rightarrow> Fault
           | Some h \<Rightarrow> obind (ent u h) (\<lambda>y.
               if \<not> c_veq C (e_value y) (e_value x) then Ok (Return False)
               else obind (GetEntryChecked u h ITER_NEXT) (\<lambda>hisE. Ok (Go hisE)))) (table_fuel t) (ptr_hd it) (ptr_hd jt)
     = Ok (if map snd (pairs t it) = map snd (pairs u jt) then Go s else Return False)"
    using IsEqualTo_ordered_loop [OF True, of C t "[]" D u "[]" "table_fuel t"] r q rep_fuel [OF r] k by auto
  then show ?thesis
    using True ht_rep_length [OF r] ht_rep_length [OF q] rep_head [OF r] rep_head [OF q]
    by (simp add: IsEqualTo_def returned_def from_head_def)
qed

subsection \<open>The ends of the list, and clearing\<close>

lemma rep_tail: "ht_rep C t it \<Longrightarrow> IndexToEntryChecked (t_tail t) = ptr_last it"
proof (cases "ht_alloc C t it")
  case True
  then obtain fl ch where "slot_lay t (set it) fl ch" "iter_lay t it" by (rule ht_allocE)
  then show ?thesis using ptr_last_iter slot_layD(1) by blast
qed (auto simp: ht_rep_def ht_null_def ptr_last_def)

lemma RemoveEntry_at:
  assumes "ht_rep C t (xs @ e # ys)"
  obtains t' where "RemoveEntry C t e = Ok (vl t e, t')" "ht_rep C t' (xs @ ys)" "pairs t' (xs @ ys) = pairs t (xs @ ys)" "keep t t'"
proof -
  have "ht_alloc C t (xs @ e # ys)" using assms by (simp add: ht_rep_def)
  then show ?thesis by (rule RemoveEntry_rep) (rule that, simp_all add: ht_rep_def)
qed

lemma rep_slot: "ht_rep C t it \<Longrightarrow> e \<in> set it \<Longrightarrow> e < slots_of t"
  using alloc_bounds(4) [of C t it] by (cases it) (auto simp: ht_rep_def)

lemma RemoveFirst_rep:
  assumes r: "ht_rep C t it"
  obtains t' it' where "RemoveFirst C t = Ok (if it = [] then None else Some (hd (pairs t it)), t')" "ht_rep C t' it'" "keep t t'"
    "pairs t' it' = tl (pairs t it)"
proof (cases it)
  case Nil
  then show ?thesis using that [of t "[]"] r rep_head [OF r] by (simp add: RemoveFirst_def remove_end_def ptr_hd_def)
next
  case (Cons e ys)
  have "ht_rep C t ([] @ e # ys)" using r Cons by simp
  then obtain t' where t': "RemoveEntry C t e = Ok (vl t e, t')" "ht_rep C t' ([] @ ys)" "pairs t' ([] @ ys) = pairs t ([] @ ys)" "keep t t'"
    by (rule RemoveEntry_at)
  have "e < slots_of t" using rep_slot [OF r] Cons by simp
  then have "RemoveFirst C t = Ok (Some (kv_of t e), t')"
    using rep_head [OF r] Cons t'(1) by (simp add: RemoveFirst_def remove_end_def ptr_hd_def ky_def)
  then show ?thesis using that [of t' ys] t' Cons by simp
qed

lemma RemoveLast_rep:
  assumes r: "ht_rep C t it"
  obtains t' it' where "RemoveLast C t = Ok (if it = [] then None else Some (last (pairs t it)), t')" "ht_rep C t' it'" "keep t t'"
    "pairs t' it' = butlast (pairs t it)"
proof (cases it rule: rev_cases)
  case Nil
  then show ?thesis using that [of t "[]"] r rep_tail [OF r] by (simp add: RemoveLast_def remove_end_def ptr_last_def)
next
  case (snoc xs e)
  have "ht_rep C t (xs @ e # [])" using r snoc by simp
  then obtain t' where t': "RemoveEntry C t e = Ok (vl t e, t')" "ht_rep C t' (xs @ [])" "pairs t' (xs @ []) = pairs t (xs @ [])" "keep t t'"
    by (rule RemoveEntry_at)
  have "e < slots_of t" using rep_slot [OF r] snoc by simp
  then have "RemoveLast C t = Ok (Some (kv_of t e), t')"
    using rep_tail [OF r] snoc t'(1) by (simp add: RemoveLast_def remove_end_def ptr_last_def ky_def)
  then show ?thesis using that [of t' xs] t' snoc by simp
qed

text \<open>The other overload reads through a NULL pointer in an empty table.\<close>

lemma RemoveLastKeyAndValue_rep:
  assumes r: "ht_rep C t it"
  shows "it = [] \<Longrightarrow> RemoveLastKeyAndValue C t = Fault"
    "it \<noteq> [] \<Longrightarrow> \<exists>t' it'. RemoveLastKeyAndValue C t = Ok (fst (last (pairs t it)), snd (last (pairs t it)), t')
       \<and> ht_rep C t' it' \<and> keep t t' \<and> pairs t' it' = butlast (pairs t it)"
proof -
  show "RemoveLastKeyAndValue C t = Fault" if "it = []"
    using rep_tail [OF r] that by (simp add: RemoveLastKeyAndValue_def ptr_last_def)
  show "\<exists>t' it'. RemoveLastKeyAndValue C t = Ok (fst (last (pairs t it)), snd (last (pairs t it)), t')
       \<and> ht_rep C t' it' \<and> keep t t' \<and> pairs t' it' = butlast (pairs t it)" if ne: "it \<noteq> []"
  proof -
    obtain xs e where it: "it = xs @ [e]" using ne rev_exhaust by blast
    have "ht_rep C t (xs @ e # [])" using r it by simp
    then obtain t' where t': "RemoveEntry C t e = Ok (vl t e, t')" "ht_rep C t' (xs @ [])" "pairs t' (xs @ []) = pairs t (xs @ [])" "keep t t'"
      by (rule RemoveEntry_at)
    have "e < slots_of t" using rep_slot [OF r] it by simp
    then have "RemoveLastKeyAndValue C t = Ok (ky t e, vl t e, t')"
      using rep_tail [OF r] it t'(1) by (simp add: RemoveLastKeyAndValue_def ptr_last_def ky_def)
    then show ?thesis using t' it by (intro exI [of _ t'] exI [of _ xs]) simp
  qed
qed

lemma remove_heads_rep:
  "ht_rep C t it \<Longrightarrow> length it < n \<Longrightarrow> \<exists>t'. remove_heads C n t = Ok t' \<and> ht_rep C t' [] \<and> keep t t'"
proof (induction it arbitrary: t n)
  case Nil
  then have "t_head t = INVALID" using rep_head [OF Nil(1)] by (simp add: ptr_hd_def)
  then show ?case using Nil by (cases n) auto
next
  case (Cons e it)
  obtain m where n: "n = Suc m" using Cons.prems(2) by (cases n) auto
  have "ht_rep C t ([] @ e # it)" using Cons.prems(1) by simp
  then obtain t1 where t1: "RemoveEntry C t e = Ok (vl t e, t1)" "ht_rep C t1 ([] @ it)" "keep t t1" by (rule RemoveEntry_at)
  have h: "t_head t = e" "e \<noteq> INVALID" using rep_head [OF Cons.prems(1)] by (simp_all add: ptr_hd_def)
  obtain t' where "remove_heads C m t1 = Ok t'" "ht_rep C t' []" "keep t1 t'" using Cons.IH [of t1 m] t1(2) Cons.prems(2) n by auto
  then show ?case using n h t1(1) keep_trans [OF t1(3)] by (auto simp: RemoveEntryByIndex_def)
qed

lemma disown_all_core: "same_core t (disown_all t ns)" "t_autosort (disown_all t ns) = t_autosort t" "t_cookie (disown_all t ns) = t_cookie t"
  by (induction ns arbitrary: t) (simp_all add: same_core_def)

lemma disown_all_iters: "t_iters t = ns \<Longrightarrow> t_iters (disown_all t ns) = []"
  by (induction ns arbitrary: t) simp_all

text \<open>Clearing leaves an empty table whose iterators are off its list; on request the array is given back.\<close>

lemma Clear_rep:
  assumes r: "ht_rep C t it"
  obtains t' where "Clear_ht C t release = Ok t'" "ht_rep C t' []" "t_iters t' = []" "t_autosort t' = t_autosort t" "t_cookie t' = t_cookie t"
    "t_size t' = (if release then HASHTABLE_DEFAULT_CAPACITY else t_size t)"
proof -
  let ?t = "disown_all t (t_iters t)"
  have r0: "ht_rep C ?t it" by (rule same_core_rep [OF disown_all_core(1) r])
  have "table_fuel ?t = table_fuel t" using disown_all_core(1) [of t "t_iters t"] by (simp add: table_fuel_def same_core_def)
  then obtain t1 where t1: "remove_heads C (table_fuel t) ?t = Ok t1" "ht_rep C t1 []" "keep ?t t1"
    using remove_heads_rep [OF r0, of "table_fuel t"] rep_fuel [OF r] by auto
  note kk = keepD [OF t1(3)] and dk = disown_all_core [of t "t_iters t"] disown_all_iters [of t]
  show ?thesis
  proof (cases release)
    case False
    then show ?thesis using that [of t1] t1 kk dk by (simp add: Clear_ht_def same_core_def)
  next
    case True
    define t' where "t' = t1\<lparr>t_table := None, t_free := INVALID, t_size := HASHTABLE_DEFAULT_CAPACITY,
                t_type := ComputeTableIndexTypeForTableSize HASHTABLE_DEFAULT_CAPACITY,
                t_objs := (\<lambda>n. free_iter (t_objs t1 n))\<rparr>"
    have "t_items t1 = 0" "t_head t1 = INVALID" "t_tail t1 = INVALID"
      using ht_rep_length [OF t1(2)] rep_head [OF t1(2)] rep_tail [OF t1(2)] by (simp_all add: ptr_hd_def ptr_last_def)
    then have "ht_rep C t' []"
      by (simp add: ht_rep_def ht_null_def t'_def HASHTABLE_DEFAULT_CAPACITY_def ComputeTableIndexTypeForTableSize_def)
    then show ?thesis using that [of t'] True t1(1) kk dk by (simp add: Clear_ht_def t'_def same_core_def)
  qed
qed

end
