(* ===== verification/Hash_Copy.thy ===== *)
theory Hash_Copy
  imports Hash_Scan "HOL-Library.AList"
begin

section \<open>Hashtable: operations with a second table\<close>

text \<open>
  \<^verbatim>\<open>CopyFrom\<close>, \<^verbatim>\<open>Remove(const HashtableMid &)\<close> and \<^verbatim>\<open>Intersect\<close> on the lists of pairs.  Putting a pair
  into a table without an order of its own is \<open>AList.update\<close> of the library.
\<close>

lemma put_pairs_plain:
  assumes "c_sub C = Plain" "distinct (map fst ps)"
  shows "put_pairs C a cookie k v ps = AList.update k v ps"
proof (cases "k \<in> fst ` set ps")
  case True
  then show ?thesis using assms
  proof (induction ps)
    case (Cons p ps)
    show ?case
    proof (cases "fst p = k")
      case False
      then have "k \<in> fst ` set ps" using Cons.prems(1) by auto
      then show ?thesis using Cons False by (simp add: put_pairs_def Let_def)
    qed (simp add: put_pairs_def Let_def Cons.prems(2))
  qed simp
next
  case False
  then have "AList.update k v ps = ps @ [(k, v)]" by (induction ps) auto
  moreover have "front_part a (\<lambda>kv. ecmp C cookie (k, v) kv < 0) ps = ps" using assms(1) by (simp add: front_part_def ecmp_def)
  ultimately show ?thesis using False by (simp add: put_pairs_def)
qed

lemma EnsureSize_rep:
  assumes r: "ht_rep C t it" and k: "keq_ok C" and c: "\<And>n. n < 2 ^ 32 \<Longrightarrow> c_alloc C n"
    and n: "req < 2 ^ 32" "allowShrink \<Longrightarrow> 0 < max (length it) req"
  obtains t' it' where "EnsureSize_ht C t req allowShrink = Ok (B_NO_ERROR, t')" "ht_rep C t' it'" "pairs t' it' = pairs t it"
    "same_order t t'" "t_size t' = max (if allowShrink then length it else t_size t) req"
proof (cases "if allowShrink then req = t_size t else req \<le> t_size t")
  case True
  then have "EnsureSize_ht C t req allowShrink = Ok (B_NO_ERROR, t)"
    by (simp add: EnsureSize_ht_def numeral_2_eq_2 ensure_body_def)
  then show ?thesis using that [of t it] r True rep_bounds(1) [OF r] by (auto split: if_splits)
next
  case False
  have sz: "0 < max (length it) req" "max (length it) req < 2 ^ 32"
    using n False rep_bounds [OF r] by (auto split: if_splits)
  have "\<exists>t' it'. ensure_body C (PutAux C 1) t req allowShrink = Ok (B_NO_ERROR, t') \<and> ht_rep C t' it' \<and> pairs t' it' = pairs t it
     \<and> same_order t t' \<and> t_size t' = max (length it) req"
  proof (rule ensure_body_rep [OF r k, where put = "PutAux C 1" and ensure = "EnsureSizeN C 0" and again = "PutAux C 0"
      and sz = "max (length it) req" and req = req and allowShrink = allowShrink])
    show "PutAux C 1 b h k v = put_body C (EnsureSizeN C 0) (PutAux C 0) b h k v" for b h k v by simp
  qed (use c sz False in blast)+
  moreover have "max (length it) req = max (if allowShrink then length it else t_size t) req"
    using False rep_bounds(1) [OF r] by auto
  ultimately show ?thesis using that by (auto simp: EnsureSize_ht_def numeral_2_eq_2)
qed

subsection \<open>Copying\<close>

definition plain :: "('k, 'v) ht_class \<Rightarrow> ('k, 'v) ht_class" where "plain C = C\<lparr>c_sub := Plain\<rparr>"

lemma plain_simps [simp]:
  "ComputeHash (plain C) = ComputeHash C" "c_sub (plain C) = Plain" "ht_alloc (plain C) = ht_alloc C" "keq_ok (plain C) = keq_ok C"
  by (simp_all add: plain_def ComputeHash_def fun_eq_iff ht_alloc_def keyed_def keq_ok_def)

text \<open>One pair of the other table.\<close>

lemma copy_entry_rep:
  assumes a: "ht_alloc C t it" and k: "keq_ok C" and n: "key \<in> fst ` set (pairs t it) \<or> length it < t_size t"
    and w: "wasEmpty \<Longrightarrow> key \<notin> fst ` set (pairs t it)" and x: "e_hash x = ComputeHash C key" "e_key x = key" "e_value x = v"
  obtains t' it' where "copy_entry C wasEmpty x t = Ok t'" "ht_alloc C t' it'" "keep t t'" "pairs t' it' = AList.update key v (pairs t it)"
proof -
  have r: "ht_rep C t it" using a by (simp add: ht_rep_def)
  have up: "put_pairs (plain C) b c key v (pairs t it) = AList.update key v (pairs t it)" for b c
    by (rule put_pairs_plain) (simp, rule distinct_keys [OF r])
  show ?thesis
  proof (rule GetEntry_rep [OF r k, of key])
    fix e assume e: "e \<in> set it" "ky t e = key" "GetEntry C t (ComputeHash C key) key = Ok (Some e)" "e < slots_of t"
    have we: "\<not> wasEmpty" using w e(1,2) by (auto simp: pairs_def image_image)
    obtain xs ys where it: "it = xs @ e # ys" using split_list [OF e(1)] by blast
    have "ht_alloc (plain C) t (xs @ e # ys)" using a it by simp
    then obtain t' it' where t': "RepositionAux (plain C) (set_kv t e (hsh t e) (ky t e) v) e = Ok t'" "ht_alloc (plain C) t' it'" "keep t t'"
      "pairs t' it' = put_pairs (plain C) (t_autosort t) (t_cookie t) (ky t e) v (pairs t (xs @ e # ys))"
      by (rule put_replace_alloc)
    have "copy_entry C wasEmpty x t = Ok t'"
      using we e x t'(1) by (simp add: copy_entry_def put_value_eq RepositionAux_def)
    moreover have "pairs t' it' = AList.update key v (pairs t it)" using t'(4) e(2) it up by simp
    ultimately show ?thesis using that t'(2,3) by simp
  next
    assume ab: "key \<notin> ky t ` set it" "GetEntry C t (ComputeHash C key) key = Ok None"
    then have ka: "key \<notin> fst ` set (pairs t it)" by (auto simp: pairs_def)
    have ln: "length it < t_size t" using n ka by blast
    have ap: "ht_alloc (plain C) t it" using a by simp
    obtain e t' xs ys where p: "put_new (plain C) t (ComputeHash (plain C) key) key v = Ok (e, t')" "it = xs @ ys"
      "xs = front_part (t_autosort t) (\<lambda>i. ecmp (plain C) (t_cookie t) (key, v) (kv_of t i) < 0) it"
      "ht_alloc (plain C) t' (xs @ e # ys)" "kv_of t' e = (key, v)" "\<And>i. i \<in> set it \<Longrightarrow> kv_of t' i = kv_of t i" "keep t t'"
      by (rule put_new_alloc [OF ap ln ab(1), of v]) (rule that, assumption+)
    have "xs = it" using p(3) by (simp add: ecmp_def front_part_def)
    then have ys: "ys = []" "xs = it" using p(2) by simp_all
    have "copy_entry C wasEmpty x t = obind (put_new (plain C) t (ComputeHash C key) key v) (\<lambda>(e, t). Ok t)"
      using ab(2) x by (simp add: copy_entry_def put_new_def obind_obind split_def InsertIterationEntryAux_def)
    then have "copy_entry C wasEmpty x t = Ok t'" using p(1) by simp
    moreover have "pairs t' (it @ [e]) = AList.update key v (pairs t it)"
    proof -
      have "pairs t' it = pairs t it" using p(6) by (simp add: pairs_def)
      moreover have "AList.update key v ps = ps @ [(key, v)]" if "key \<notin> fst ` set ps" for ps using that by (induction ps) auto
      ultimately show ?thesis using p(5) ka by simp
    qed
    ultimately show ?thesis using that [of t' "it @ [e]"] p(4,7) ys by simp
  qed
qed

definition copy_pairs :: "('k \<times> 'v) list \<Rightarrow> ('k \<times> 'v) list \<Rightarrow> ('k \<times> 'v) list" where
  "copy_pairs qs ps = fold (\<lambda>(k, v). AList.update k v) qs ps"

lemma copy_pairs_empty: "distinct (map fst (ps @ qs)) \<Longrightarrow> copy_pairs qs ps = ps @ qs"
proof (induction qs arbitrary: ps)
  case (Cons q qs)
  have "AList.update k v xs = xs @ [(k, v)]" if "k \<notin> fst ` set xs" for k v and xs :: "('a \<times> 'b) list" using that by (induction xs) auto
  then have "AList.update (fst q) (snd q) ps = ps @ [q]" using Cons.prems by auto
  then show ?case using Cons.IH [of "ps @ [q]"] Cons.prems by (simp add: copy_pairs_def split_def)
qed (simp add: copy_pairs_def)

lemma copy_entries_loop:
  assumes r: "ht_rep C rhs (us @ ws)" and k: "keq_ok C" and n: "length ws < n"
    and a: "ht_alloc C t it" "length it + length ws \<le> t_size t"
    and p: "pairs t it = copy_pairs (pairs rhs us) ps" "wasEmpty \<Longrightarrow> ps = []"
  shows "\<exists>t' it'. each_entry rhs ITER_NEXT (\<lambda>x e t. obind (copy_entry C wasEmpty x t) (\<lambda>t. Ok (Go t))) n (ptr_hd ws) t = Ok (Go t' :: (_, 'r) step)
    \<and> ht_alloc C t' it' \<and> keep t t' \<and> pairs t' it' = copy_pairs (pairs rhs (us @ ws)) ps"
  using r n a p(1)
proof (induction ws arbitrary: us n t it)
  case Nil
  then show ?case by (cases n) (auto simp: ptr_hd_def)
next
  case (Cons e ws)
  obtain m where m: "n = Suc m" using Cons.prems(2) by (cases n) auto
  have al: "ht_alloc C rhs (us @ e # ws)" using Cons.prems(1) by (simp add: ht_rep_def)
  note l = alloc_links [OF al]
  have new: "ky rhs e \<notin> fst ` set (pairs t it)" if "wasEmpty"
  proof -
    have "distinct (map fst (pairs rhs us))" using distinct_keys [OF Cons.prems(1)] by simp
    then have "copy_pairs (pairs rhs us) [] = pairs rhs us" using copy_pairs_empty [of "[]" "pairs rhs us"] by simp
    then have "pairs t it = pairs rhs us" using Cons.prems(5) p(2) [OF that] by simp
    then show ?thesis using rep_kv(2) [OF al] by simp
  qed
  obtain t1 it1 where t1: "copy_entry C wasEmpty (es_of rhs ! e) t = Ok t1" "ht_alloc C t1 it1" "keep t t1"
    "pairs t1 it1 = AList.update (ky rhs e) (vl rhs e) (pairs t it)"
  proof (rule copy_entry_rep [OF Cons.prems(3) k, of "ky rhs e" wasEmpty "es_of rhs ! e" "vl rhs e"])
    show "ky rhs e \<in> fst ` set (pairs t it) \<or> length it < t_size t" using Cons.prems(4) by simp
    show "e_hash (es_of rhs ! e) = ComputeHash C (ky rhs e)" "e_key (es_of rhs ! e) = ky rhs e" "e_value (es_of rhs ! e) = vl rhs e"
      using rep_kv(1) [OF al] by (simp_all add: hsh_def ky_def vl_def)
  qed (use new that in blast)+
  have len: "length it1 \<le> Suc (length it)"
  proof -
    have "length (AList.update k v xs) \<le> Suc (length xs)" for k v and xs :: "('a \<times> 'b) list" by (induction xs) auto
    then show ?thesis using arg_cong [OF t1(4), of length] by (metis length_pairs)
  qed
  have "pairs t1 it1 = copy_pairs (pairs rhs (us @ [e])) ps" using t1(4) Cons.prems(5) by (simp add: copy_pairs_def)
  moreover have "length it1 + length ws \<le> t_size t1" using len Cons.prems(4) keepD(2) [OF t1(3)] by simp
  moreover have "ht_rep C rhs ((us @ [e]) @ ws)" "length ws < m" using Cons.prems(1,2) m by simp_all
  ultimately obtain t' it' where v: "each_entry rhs ITER_NEXT (\<lambda>x e t. obind (copy_entry C wasEmpty x t) (\<lambda>t. Ok (Go t))) m (ptr_hd ws) t1 = Ok (Go t' :: (_, 'r) step)"
    "ht_alloc C t' it'" "keep t1 t'" "pairs t' it' = copy_pairs (pairs rhs ((us @ [e]) @ ws)) ps"
    using Cons.IH [of "us @ [e]" m t1 it1] t1(2) by blast
  have "keep t t'" using t1(3) v(3) by (rule keep_trans)
  then show ?case using m l t1(1) v by (intro exI [of _ t'] exI [of _ it']) (simp add: ptr_hd_def)
qed

lemma CopyFromAux_rep:
  assumes a: "ht_alloc C t it" and r: "ht_rep C rhs jt" and k: "keq_ok C" and n: "length it + length jt \<le> t_size t"
  obtains t' it' where "CopyFromAux C t rhs = Ok t'" "ht_alloc C t' it'" "keep t t'"
    "pairs t' it' = copy_pairs (pairs rhs jt) (pairs t it)"
proof -
  have rt: "ht_rep C t it" using a by (simp add: ht_rep_def)
  have we: "t_items t = 0 \<Longrightarrow> pairs t it = []" using ht_rep_length [OF rt] by simp
  have "\<exists>t' it'. each_entry rhs ITER_NEXT (\<lambda>x e t'. obind (copy_entry C (t_items t = 0) x t') (\<lambda>t. Ok (Go t))) (table_fuel rhs) (ptr_hd jt) t = Ok (Go t' :: (_, ('a, 'b) ht) step)
    \<and> ht_alloc C t' it' \<and> keep t t' \<and> pairs t' it' = copy_pairs (pairs rhs ([] @ jt)) (pairs t it)"
    by (rule copy_entries_loop [OF _ k _ a n _ we]) (use r rep_fuel [OF r] in \<open>simp_all add: copy_pairs_def\<close>)
  then obtain t' it' where "each_entry rhs ITER_NEXT (\<lambda>x e t'. obind (copy_entry C (t_items t = 0) x t') (\<lambda>t. Ok (Go t))) (table_fuel rhs) (ptr_hd jt) t = Ok (Go t' :: (_, ('a, 'b) ht) step)"
    "ht_alloc C t' it'" "keep t t'" "pairs t' it' = copy_pairs (pairs rhs jt) (pairs t it)" by auto
  then show ?thesis using that rep_head [OF r] by (simp add: CopyFromAux_def continue_with_def from_head_def Let_def)
qed

text \<open>The pairs of the other table are put one after the other; then an ordered table sorts itself.\<close>

definition own_order :: "('k, 'v) ht_class \<Rightarrow> ('k \<times> 'v \<Rightarrow> 'o::linorder) \<Rightarrow> ('k \<times> 'v) list \<Rightarrow> ('k \<times> 'v) list" where
  "own_order C g ps = (if is_ordered (c_sub C) then sort_key g ps else ps)"

lemma CopyFrom_rep:
  assumes r: "ht_rep C t it" and q: "ht_rep C rhs jt" and k: "keq_ok C" and c: "\<And>n. n < 2 ^ 32 \<Longrightarrow> c_alloc C n"
    and n: "length it + length jt < 2 ^ 32" and o: "is_ordered (c_sub C) \<Longrightarrow> orders_by (ecmp C (t_cookie t)) g" and ne: "jt \<noteq> []"
  obtains t' it' where "CopyFrom_ht C t rhs False clearFirst = Ok (B_NO_ERROR, t')" "ht_rep C t' it'"
    "pairs t' it' = own_order C g (copy_pairs (pairs rhs jt) (if clearFirst then [] else pairs t it))"
    "t_autosort t' = t_autosort t" "t_cookie t' = t_cookie t"
proof -
  let ?c = "t_items rhs = 0 \<and> t_size t > HASHTABLE_DEFAULT_CAPACITY"
  obtain t1 it1 where t1: "(if clearFirst then Clear_ht C t ?c else Ok t) = Ok t1" "ht_rep C t1 it1"
    "pairs t1 it1 = (if clearFirst then [] else pairs t it)" "t_autosort t1 = t_autosort t" "t_cookie t1 = t_cookie t" "length it1 \<le> length it"
  proof (cases clearFirst)
    case True
    obtain t1 where "Clear_ht C t ?c = Ok t1" "ht_rep C t1 []" "t_autosort t1 = t_autosort t" "t_cookie t1 = t_cookie t"
      by (rule Clear_rep [OF r])
    then show ?thesis using that [of t1 "[]"] True by simp
  qed (use that [of t it] r in simp)
  have i: "t_items rhs = length jt" "t_items t1 = length it1" using ht_rep_length q t1(2) by blast+
  have rq: "add32 (t_items t1) (t_items rhs) = length it1 + length jt" "length it1 + length jt < 2 ^ 32" using n t1(6) i by simp_all
  obtain t2 it2 where t2: "EnsureSize_ht C t1 (length it1 + length jt) False = Ok (B_NO_ERROR, t2)" "ht_rep C t2 it2" "pairs t2 it2 = pairs t1 it1"
    "same_order t1 t2" "t_size t2 = max (t_size t1) (length it1 + length jt)"
    using EnsureSize_rep [OF t1(2) k c rq(2), of False] by auto
  have "c_alloc C (t_size t2)" using c rep_bounds(4) [OF t2(2)] by blast
  from EnsureTableAllocated_rep [OF t2(2) this] obtain t3 where t3: "EnsureTableAllocated C t2 = Ok (B_NO_ERROR, t3)" "ht_alloc C t3 it2"
    "same_conf t2 t3" "pairs t3 it2 = pairs t2 it2" by blast
  have "length it2 = length it1" using arg_cong [OF t2(3), of length] by simp
  then have fit: "length it2 + length jt \<le> t_size t3" using t2(5) t3(3) by (simp add: same_conf_def)
  obtain t4 it4 where t4: "CopyFromAux C t3 rhs = Ok t4" "ht_alloc C t4 it4" "keep t3 t4"
    "pairs t4 it4 = copy_pairs (pairs rhs jt) (pairs t3 it2)" by (rule CopyFromAux_rep [OF t3(2) q k fit])
  have so: "same_order t1 t4" using t2(4) same_order_conf [OF t3(3)] same_order_conf [OF same_conf_keep [OF t4(3)]]
    by (blast intro: same_order_trans)
  then have ck: "t_cookie t4 = t_cookie t" "t_autosort t4 = t_autosort t" using t1(4,5) by (simp_all add: same_order_def)
  have r4: "ht_rep C t4 it4" using t4(2) by (simp add: ht_rep_def)
  have o4: "is_ordered (c_sub C) \<Longrightarrow> orders_by (ecmp C (t_cookie t4)) g" using o ck(1) by simp
  obtain t' it' where t': "SortAux C t4 = Ok t'" "ht_rep C t' it'" "same_slots t4 t'"
    "pairs t' it' = (if is_ordered (c_sub C) then sort_key g (pairs t4 it4) else pairs t4 it4)" using SortAux_rep [OF r4 o4] by metis
  have "t_items rhs > 0" using i ne by simp
  then have "CopyFrom_ht C t rhs False clearFirst = Ok (B_NO_ERROR, t')"
    using t1(1) t2(1) t3(1) t4(1) t'(1) rq(1) by (simp add: CopyFrom_ht_def)
  moreover have "pairs t' it' = own_order C g (copy_pairs (pairs rhs jt) (if clearFirst then [] else pairs t it))"
    using t'(4) t4(4) t3(4) t2(3) t1(3) by (simp add: own_order_def)
  moreover have "t_autosort t' = t_autosort t" "t_cookie t' = t_cookie t"
    using t'(3) ck by (auto simp: same_slots_def dest: iter_frameD)
  ultimately show ?thesis using that t'(2) by blast
qed

subsection \<open>Removing keys by another table\<close>

lemma RemoveAux_hash: "e_hash x = ComputeHash C (e_key x) \<Longrightarrow> RemoveAux C t (e_hash x) (e_key x) = RemoveKey C t (e_key x)"
  by (simp add: RemoveKey_def)

lemma filter_key_length:
  assumes "distinct (map fst ps)"
  shows "length (filter (\<lambda>kv. fst kv \<noteq> k) ps) = length ps - (if k \<in> fst ` set ps then 1 else 0)"
  using assms
proof (induction ps)
  case (Cons p ps)
  show ?case
  proof (cases "fst p = k")
    case True
    then have "k \<notin> fst ` set ps" using Cons.prems by simp
    then have "filter (\<lambda>kv. fst kv \<noteq> k) ps = ps" by (intro filter_True) (metis imageI)
    then show ?thesis using True by simp
  next
    case False
    have "k \<in> fst ` set ps \<Longrightarrow> ps \<noteq> []" by auto
    then show ?thesis using False Cons by (auto simp: Suc_diff_le length_greater_0_conv Suc_leI)
  qed
qed simp

lemma remove_pairs_loop:
  assumes q: "ht_rep C rhs (us @ ws)" and n: "length ws < n" and r: "ht_rep C t it" and k: "keq_ok C" and b: "c + length (pairs t it) < 2 ^ 32"
  shows "\<exists>t' it'. each_entry rhs ITER_NEXT (\<lambda>x e (n, t). obind (RemoveAux C t (e_hash x) (e_key x)) (\<lambda>(v, t).
             Ok (Go (if v \<noteq> None then add32 n 1 else n, t)))) n (ptr_hd ws) (c, t)
      = Ok (Go (c + (length (pairs t it) - length (pairs t' it')), t') :: (_, 'r) step)
    \<and> ht_rep C t' it' \<and> keep t t' \<and> length (pairs t' it') \<le> length (pairs t it)
    \<and> pairs t' it' = filter (\<lambda>kv. fst kv \<notin> fst ` set (pairs rhs ws)) (pairs t it)"
  using q n r b
proof (induction ws arbitrary: us n t it c)
  case Nil
  then show ?case by (cases n) (auto simp: ptr_hd_def intro!: exI [of _ t] exI [of _ it])
next
  case (Cons e ws)
  obtain m where m: "n = Suc m" using Cons.prems(2) by (cases n) auto
  have al: "ht_alloc C rhs (us @ e # ws)" using Cons.prems(1) by (simp add: ht_rep_def)
  note l = alloc_links [OF al]
  let ?key = "ky rhs e"
  obtain t1 it1 where t1: "RemoveKey C t ?key = Ok (map_of (pairs t it) ?key, t1)" "ht_rep C t1 it1" "keep t t1"
    "pairs t1 it1 = filter (\<lambda>kv. fst kv \<noteq> ?key) (pairs t it)" by (rule RemoveKey_rep [OF Cons.prems(3) k])
  have len: "length (pairs t1 it1) = length (pairs t it) - (if ?key \<in> fst ` set (pairs t it) then 1 else 0)"
    unfolding t1(4) by (rule filter_key_length [OF distinct_keys [OF Cons.prems(3)]])
  define c1 where "c1 = (if map_of (pairs t it) ?key \<noteq> None then add32 c 1 else c)"
  have pos: "?key \<in> fst ` set (pairs t it) \<Longrightarrow> 0 < length (pairs t it)" by (metis empty_iff empty_set image_empty length_greater_0_conv)
  have c1: "c1 = c + (length (pairs t it) - length (pairs t1 it1))"
  proof (cases "?key \<in> fst ` set (pairs t it)")
    case True
    have "0 < length (pairs t it)" by (rule pos [OF True])
    moreover from this have "add32 c 1 = c + 1" using Cons.prems(4) by (intro add32_small) linarith
    moreover have "map_of (pairs t it) ?key \<noteq> None" using True by (simp add: map_of_eq_None_iff)
    moreover have "length (pairs t1 it1) = length (pairs t it) - 1" using len True by simp
    ultimately show ?thesis by (simp only: c1_def if_True simp_thms)
  next
    case False
    then have "map_of (pairs t it) ?key = None" by (simp add: map_of_eq_None_iff)
    then show ?thesis using len False by (simp add: c1_def)
  qed
  have "c1 + length (pairs t1 it1) < 2 ^ 32" using c1 len Cons.prems(4) by auto
  moreover have "ht_rep C rhs ((us @ [e]) @ ws)" "length ws < m" using Cons.prems(1,2) m by simp_all
  ultimately obtain t' it' where v: "each_entry rhs ITER_NEXT (\<lambda>x e (n, t). obind (RemoveAux C t (e_hash x) (e_key x)) (\<lambda>(v, t).
             Ok (Go (if v \<noteq> None then add32 n 1 else n, t)))) m (ptr_hd ws) (c1, t1)
      = Ok (Go (c1 + (length (pairs t1 it1) - length (pairs t' it')), t') :: (_, 'r) step)"
    "ht_rep C t' it'" "keep t1 t'" "length (pairs t' it') \<le> length (pairs t1 it1)"
    "pairs t' it' = filter (\<lambda>kv. fst kv \<notin> fst ` set (pairs rhs ws)) (pairs t1 it1)"
    using Cons.IH [of "us @ [e]" m t1 it1 c1] t1(2) by blast
  have cc: "c1 + (length (pairs t1 it1) - length (pairs t' it')) = c + (length (pairs t it) - length (pairs t' it'))"
    using c1 v(4) len by (simp split: if_splits)
  have x: "e_hash (es_of rhs ! e) = ComputeHash C (e_key (es_of rhs ! e))" "e_key (es_of rhs ! e) = ?key"
    using rep_kv(1) [OF al] by (simp_all add: hsh_def ky_def)
  have body: "RemoveAux C t (e_hash (es_of rhs ! e)) (e_key (es_of rhs ! e)) = Ok (map_of (pairs t it) ?key, t1)"
    using RemoveAux_hash [OF x(1), of t] t1(1) x(2) by simp
  have "pairs t' it' = filter (\<lambda>kv. fst kv \<notin> fst ` set (pairs rhs (e # ws))) (pairs t it)"
    unfolding v(5) t1(4) by (simp add: conj_commute)
  moreover have "length (pairs t' it') \<le> length (pairs t it)" using v(4) len by (simp split: if_splits)
  moreover have "keep t t'" using t1(3) v(3) by (rule keep_trans)
  moreover have "each_entry rhs ITER_NEXT (\<lambda>x e (n, t). obind (RemoveAux C t (e_hash x) (e_key x)) (\<lambda>(v, t).
             Ok (Go (if v \<noteq> None then add32 n 1 else n, t)))) n (ptr_hd (e # ws)) (c, t)
      = Ok (Go (c + (length (pairs t it) - length (pairs t' it')), t') :: (_, 'r) step)"
    using m l body v(1) [unfolded cc, unfolded c1_def] by (simp add: ptr_hd_def)
  ultimately show ?case using v(2) by blast
qed

lemma RemovePairs_rep:
  assumes r: "ht_rep C t it" and q: "ht_rep C rhs jt" and k: "keq_ok C"
  obtains t' it' where "RemovePairs C t rhs False = Ok (length (pairs t it) - length (pairs t' it'), t')" "ht_rep C t' it'" "keep t t'"
    "pairs t' it' = filter (\<lambda>kv. fst kv \<notin> fst ` set (pairs rhs jt)) (pairs t it)"
proof -
  have b: "0 + length (pairs t it) < 2 ^ 32" using rep_bounds(1,4) [OF r] by simp
  have q': "ht_rep C rhs ([] @ jt)" using q by simp
  from remove_pairs_loop [OF q' rep_fuel [OF q] r k b, where 'r = "nat \<times> ('a, 'b) ht"] obtain t' it' where
    "each_entry rhs ITER_NEXT (\<lambda>x e (n, t). obind (RemoveAux C t (e_hash x) (e_key x)) (\<lambda>(v, t).
             Ok (Go (if v \<noteq> None then add32 n 1 else n, t)))) (table_fuel rhs) (ptr_hd jt) (0, t)
      = Ok (Go (0 + (length (pairs t it) - length (pairs t' it')), t') :: (_, nat \<times> ('a, 'b) ht) step)"
    "ht_rep C t' it'" "keep t t'" "pairs t' it' = filter (\<lambda>kv. fst kv \<notin> fst ` set (pairs rhs jt)) (pairs t it)" by blast
  then show ?thesis using that rep_head [OF q] by (simp add: RemovePairs_def continue_with_def from_head_def)
qed

end
