(* ===== verification/Hash_Iter.thy ===== *)
theory Hash_Iter
  imports Hash_Ordered Hash_Tables
begin

section \<open>Hashtable: iterators\<close>

text \<open>
  An iterator that is on the table's list follows the entries in their order; when the entry it is at is
  removed, it keeps a copy of the pair and steps off to the next entry.  \<open>visit\<close> is the loop a caller
  writes, with a removal of the current pair where the caller asks for one.
\<close>

definition at_entries :: "('k, 'v) ht \<Rightarrow> nat \<Rightarrow> nat list \<Rightarrow> bool" where
  "at_entries t n ws \<longleftrightarrow> n \<in> set (t_iters t) \<and> distinct (t_iters t)
     \<and> i_owned (t_objs t n) \<and> \<not> i_backwards (t_objs t n) \<and> i_scratch (t_objs t n) = None
     \<and> i_cookie (t_objs t n) = to_eptr (ptr_hd ws) \<and> i_cur (t_objs t n) = (if ws = [] then CNull else CEntry (EAt (hd ws)))"

lemma to_eptr_simps [simp]: "to_eptr None = ENull" "to_eptr (Some e) = EAt e"
  by (simp_all add: to_eptr_def)

lemma same_core_set_obj: "same_core t (set_obj t n it)"
  by (simp add: same_core_def set_obj_def)

lemma RegisterIterator_core: "same_core t (RegisterIterator tid t n)"
  by (simp add: same_core_def set_obj_def RegisterIterator_def Let_def)

lemma same_core_trans: "same_core t t' \<Longrightarrow> same_core t' t'' \<Longrightarrow> same_core t t''"
  by (simp add: same_core_def)

lemma IteratorStart_core: "same_core t (IteratorStart tid t n b r)"
  unfolding IteratorStart_def Let_def place_iter_def
  by (intro same_core_trans [OF _ same_core_set_obj] same_core_trans [OF same_core_set_obj RegisterIterator_core])

text \<open>A new iterator of the thread that the table's iterators belong to starts at the first entry.\<close>

lemma IteratorStart_at:
  assumes r: "ht_rep C t it" and n: "n \<notin> set (t_iters t)" "distinct (t_iters t)" and th: "t_icount t = 0 \<or> t_ithread t = Some tid"
  shows "at_entries (IteratorStart tid t n False False) n it" "ht_rep C (IteratorStart tid t n False False) it"
    "t_autosort (IteratorStart tid t n False False) = t_autosort t" "t_cookie (IteratorStart tid t n False False) = t_cookie t"
    "pairs (IteratorStart tid t n False False) it = pairs t it"
proof -
  show "ht_rep C (IteratorStart tid t n False False) it" by (rule same_core_rep [OF IteratorStart_core r])
  show "pairs (IteratorStart tid t n False False) it = pairs t it" using same_core_views(7) [OF IteratorStart_core] by metis
  show "t_autosort (IteratorStart tid t n False False) = t_autosort t" "t_cookie (IteratorStart tid t n False False) = t_cookie t"
    by (simp_all add: IteratorStart_def place_iter_def RegisterIterator_def set_obj_def Let_def)
  have h: "IndexToEntryChecked (t_head t) = ptr_hd it" by (rule rep_head [OF r])
  show "at_entries (IteratorStart tid t n False False) n it"
    using n th h
    by (auto simp: at_entries_def IteratorStart_def place_iter_def RegisterIterator_def set_obj_def Let_def new_iter_def
      UpdateKeyAndValuePointers_def ptr_hd_def)
qed

lemma at_entries_read:
  assumes "at_entries t n ws"
  shows "HasData t n \<longleftrightarrow> ws \<noteq> []"
    "ws = e # ws' \<Longrightarrow> e < slots_of t \<Longrightarrow> IterKeyValue t n = Ok (kv_of t e)"
  using assms by (auto simp: at_entries_def HasData_def IterKeyValue_def deref_eptr_def ky_def vl_def)

text \<open>A step without a removal, and a step after the removal of the entry that the iterator is at.\<close>

lemma IterNext_stay:
  assumes a: "ht_alloc C t (us @ e # ws)" and i: "at_entries t n (e # ws)"
  obtains t' where "IterNext t n = Ok t'" "at_entries t' n ws" "same_core t t'" "same_order t t'"
proof -
  note l = alloc_links [OF a]
  let ?it = "t_objs t n"
  have i': "i_cookie ?it = EAt e" "i_scratch ?it = None" "i_owned ?it" "\<not> i_backwards ?it" "n \<in> set (t_iters t)" "distinct (t_iters t)"
    using i by (simp_all add: at_entries_def ptr_hd_def)
  define o' where "o' = UpdateKeyAndValuePointers (?it\<lparr>i_cookie := to_eptr (ptr_hd ws)\<rparr>)"
  have "iter_advance t ?it = Ok o'"
    using i' l by (simp add: iter_advance_def GetSubsequentEntry_def o'_def)
  then have "IterNext t n = Ok (set_obj t n o')" by (simp add: IterNext_def)
  moreover have "at_entries (set_obj t n o') n ws"
    using i' by (auto simp: at_entries_def set_obj_def o'_def UpdateKeyAndValuePointers_def ptr_hd_def)
  moreover have "same_order t (set_obj t n o')" by (simp add: same_order_def set_obj_def)
  ultimately show ?thesis using that same_core_set_obj by blast
qed

lemma IterNext_removed:
  assumes a: "ht_alloc C t (us @ e # ws)" and i: "at_entries t n (e # ws)" and k: "keq_ok C"
  obtains t1 t' where "RemoveKey C t (ky t e) = Ok (Some (vl t e), t1)" "IterNext t1 n = Ok t'" "at_entries t' n ws"
    "ht_rep C t' (us @ ws)" "pairs t' (us @ ws) = pairs t (us @ ws)" "same_order t t'"
    "HasData t1 n" "IterKeyValue t1 n = Ok (kv_of t e)"
proof -
  note l = alloc_links [OF a]
  let ?it = "t_objs t n"
  have i': "i_cookie ?it = EAt e" "i_scratch ?it = None" "i_owned ?it" "\<not> i_backwards ?it" "n \<in> set (t_iters t)" "distinct (t_iters t)"
    using i by (simp_all add: at_entries_def ptr_hd_def)
  obtain t1 where t1: "RemoveEntry C t e = Ok (vl t e, t1)" "ht_alloc C t1 (us @ ws)" "pairs t1 (us @ ws) = pairs t (us @ ws)" "keep t t1"
    "t_objs t1 = (\<lambda>n. if n \<in> set (t_iters t) then stepped t e (t_objs t n) else t_objs t n)"
    by (rule RemoveEntry_rep [OF a], rule that) (assumption | rule i'(6) | blast intro: i'(6))+
  have r: "ht_rep C t (us @ e # ws)" using a by (simp add: ht_rep_def)
  have "GetEntry C t (ComputeHash C (ky t e)) (ky t e) = Ok (Some e)"
  proof (rule GetEntry_rep [OF r k, of "ky t e"])
    fix f assume f: "f \<in> set (us @ e # ws)" "ky t f = ky t e" "GetEntry C t (ComputeHash C (ky t e)) (ky t e) = Ok (Some f)"
    have "inj_on (ky t) (set (us @ e # ws))" using a unfolding ht_alloc_def keyed_def by blast
    from inj_onD [OF this f(2,1)] have "f = e" by simp
    then show ?thesis using f(3) by simp
  qed simp
  then have rk: "RemoveKey C t (ky t e) = Ok (Some (vl t e), t1)" using t1(1) by (simp add: RemoveKey_def RemoveAux_def)
  have o1: "t_objs t1 n = UpdateKeyAndValuePointers (?it\<lparr>i_scratch := Some (kv_of t e), i_cookie := to_eptr (ptr_hd ws)\<rparr>)"
    using t1(5) i' l by (simp add: stepped_def)
  define o' where "o' = UpdateKeyAndValuePointers ((t_objs t1 n)\<lparr>i_scratch := None\<rparr>)"
  have nx: "IterNext t1 n = Ok (set_obj t1 n o')" using o1 by (simp add: IterNext_def iter_advance_def o'_def UpdateKeyAndValuePointers_def)
  have it1: "t_iters t1 = t_iters t" using keepD(4) [OF t1(4)] .
  have at: "at_entries (set_obj t1 n o') n ws"
    using i' it1 o1 by (auto simp: at_entries_def set_obj_def o'_def UpdateKeyAndValuePointers_def ptr_hd_def)
  have c: "same_core t1 (set_obj t1 n o')" by (rule same_core_set_obj)
  have "ht_rep C t1 (us @ ws)" using t1(2) by (simp add: ht_rep_def)
  then have rp: "ht_rep C (set_obj t1 n o') (us @ ws)" by (rule same_core_rep [OF c])
  have pr: "pairs (set_obj t1 n o') (us @ ws) = pairs t (us @ ws)" using same_core_views(7) [OF c] t1(3) by simp
  have so: "same_order t (set_obj t1 n o')" using t1(4) by (simp add: same_order_def set_obj_def keep_def)
  have "HasData t1 n" "IterKeyValue t1 n = Ok (kv_of t e)"
    using o1 by (simp_all add: HasData_def IterKeyValue_def UpdateKeyAndValuePointers_def)
  then show ?thesis using that rk nx at rp pr so by blast
qed

text \<open>
  The caller's loop: the pairs that it sees, each with what the iterator says after a removal of the pair,
  before it goes on (whether it has data, and the pair), and the table behind the loop.
\<close>

fun visit :: "('k, 'v) ht_class \<Rightarrow> ('k \<times> 'v \<Rightarrow> bool) \<Rightarrow> nat \<Rightarrow> ('k, 'v) ht \<Rightarrow> nat \<Rightarrow>
    ((('k \<times> 'v) \<times> bool \<times> 'k \<times> 'v) list \<times> ('k, 'v) ht) outcome" where
  "visit C rm 0 t n = Spin"
| "visit C rm (Suc m) t n =
     (if HasData t n
      then obind (IterKeyValue t n) (\<lambda>kv.
           obind (if rm kv then obind (RemoveKey C t (fst kv)) (\<lambda>(v, t). Ok t) else Ok t) (\<lambda>t.
           obind (IterKeyValue t n) (\<lambda>after.
           let data = HasData t n in
           obind (IterNext t n) (\<lambda>t.
           obind (visit C rm m t n) (\<lambda>(seen, t). Ok ((kv, data, after) # seen, t))))))
      else Ok ([], t))"

definition still_there :: "'a \<Rightarrow> 'a \<times> bool \<times> 'a" where "still_there kv = (kv, True, kv)"

lemma visit_rep:
  assumes "ht_rep C t (us @ ws)" "at_entries t n ws" "keq_ok C" "length ws < m"
  shows "\<exists>t' us'. visit C rm m t n = Ok (map still_there (pairs t ws), t') \<and> ht_rep C t' us' \<and> same_order t t'
    \<and> pairs t' us' = pairs t us @ filter (\<lambda>kv. \<not> rm kv) (pairs t ws)"
  using assms(1,2,4)
proof (induction ws arbitrary: t us m)
  case Nil
  then obtain j where "m = Suc j" by (cases m) auto
  then show ?case using Nil at_entries_read(1) [OF Nil.prems(2)] by (intro exI [of _ t] exI [of _ us]) simp
next
  case (Cons e ws)
  obtain j where m: "m = Suc j" using Cons.prems(3) by (cases m) auto
  have al: "ht_alloc C t (us @ e # ws)" using Cons.prems(1) by (simp add: ht_rep_def)
  note l = alloc_links(1) [OF al] and rd = at_entries_read [OF Cons.prems(2)]
  have kv: "HasData t n" "IterKeyValue t n = Ok (kv_of t e)" using rd(1) rd(2) [OF refl l] by simp_all
  show ?case
  proof (cases "rm (kv_of t e)")
    case True
    obtain t1 t2 where s: "RemoveKey C t (ky t e) = Ok (Some (vl t e), t1)" "IterNext t1 n = Ok t2" "at_entries t2 n ws"
      "ht_rep C t2 (us @ ws)" "pairs t2 (us @ ws) = pairs t (us @ ws)" "same_order t t2"
      "HasData t1 n" "IterKeyValue t1 n = Ok (kv_of t e)"
      using IterNext_removed [OF al Cons.prems(2) assms(3)] by blast
    obtain t' us' where v: "visit C rm j t2 n = Ok (map still_there (pairs t2 ws), t')" "ht_rep C t' us'" "same_order t2 t'"
      "pairs t' us' = pairs t2 us @ filter (\<lambda>kv. \<not> rm kv) (pairs t2 ws)"
      using Cons.IH [OF s(4,3), of j] Cons.prems(3) m by auto
    have p: "pairs t2 us = pairs t us" "pairs t2 ws = pairs t ws" using s(5) by (simp_all add: append_eq_append_conv pairs_def)
    have "visit C rm m t n = Ok (map still_there (pairs t (e # ws)), t')"
      using m kv True s(1,2,7,8) v(1) p by (simp add: still_there_def)
    then show ?thesis using v(2,4) p True same_order_trans [OF s(6) v(3)] by (intro exI [of _ t'] exI [of _ us']) simp
  next
    case False
    obtain t2 where s: "IterNext t n = Ok t2" "at_entries t2 n ws" "same_core t t2" "same_order t t2"
      using IterNext_stay [OF al Cons.prems(2)] by blast
    have r2: "ht_rep C t2 ((us @ [e]) @ ws)" using same_core_rep [OF s(3) Cons.prems(1)] by simp
    obtain t' us' where v: "visit C rm j t2 n = Ok (map still_there (pairs t2 ws), t')" "ht_rep C t' us'" "same_order t2 t'"
      "pairs t' us' = pairs t2 (us @ [e]) @ filter (\<lambda>kv. \<not> rm kv) (pairs t2 ws)"
      using Cons.IH [OF r2 s(2), of j] Cons.prems(3) m by auto
    have p: "pairs t2 = pairs t" using same_core_views(7) [OF s(3)] .
    have "visit C rm m t n = Ok (map still_there (pairs t (e # ws)), t')"
      using m kv False s(1) v(1) p by (simp add: still_there_def)
    then show ?thesis using v(2,4) p False same_order_trans [OF s(4) v(3)] by (intro exI [of _ t'] exI [of _ us']) simp
  qed
qed

text \<open>
  When the array is replaced, the cookie of the iterator is redirected to the entry's new place, but its
  pointers to the current key and value still point into the old array.
\<close>

lemma Put_full_dangles:
  assumes r: "ht_rep C t (us @ e # ws)" and i: "at_entries t n (e # ws)" and k: "keq_ok C" and c: "\<And>n. n < 2 ^ 32 \<Longrightarrow> c_alloc C n"
    and full: "length (us @ e # ws) = t_size t" and new: "key \<notin> fst ` set (pairs t (us @ e # ws))" and sz: "t_size t < 2 ^ 31"
  obtains t' it' f where "Put C t key v = Ok (B_NO_ERROR, None, t')" "ht_rep C t' it'" "HasData t' n" "IterKeyValue t' n = Fault"
    "i_cookie (t_objs t' n) = EAt f" "f \<in> set it'" "kv_of t' f = kv_of t e"
proof -
  let ?it = "us @ e # ws"
  obtain t2 it2 where t2: "\<And>val. PutAux C 3 t (ComputeHash C key) key val = PutAux C 2 t2 (ComputeHash C key) key (vref_freed val)"
    "ht_rep C t2 it2" "pairs t2 it2 = pairs t ?it" "t_size t2 = 2 * t_size t" "length it2 = length ?it"
    "\<And>n. n \<in> set (t_iters t) \<Longrightarrow> t_objs t2 n = redirected (zip ?it it2) (t_objs t n)"
    by (rule PutAux_full [OF r k c full new sz], assumption, rule that, assumption+)
  have "c_alloc C (t_size t2)" using c t2(4) sz by simp
  moreover have "length it2 < t_size t2" using t2(4,5) full rep_bounds(3) [OF r] by simp
  ultimately obtain g t' it' where p:
    "put_body C (EnsureSizeN C 1) (PutAux C 1) t2 (ComputeHash C key) key (VObj v) = Ok (Some g, map_of (pairs t2 it2) key, t')"
    "ht_alloc C t' it'" "kv_of t' g = (key, v)"
    "pairs t' it' = put_pairs C (t_autosort t2) (t_cookie t2) key v (pairs t2 it2)" "t_objs t' = t_objs t2"
    "\<forall>i \<in> set it2. i \<in> set it' \<and> kv_of t' i = kv_of t2 i"
    using put_body_rep [OF t2(2) k, where key = key and v = v and ensure = "EnsureSizeN C 1" and again = "PutAux C 1"] new t2(3) by metis
  have "PutAux C 2 t2 (ComputeHash C key) key (VObj v) = Ok (Some g, map_of (pairs t2 it2) key, t')"
    unfolding PutAux_nested(2) by (rule p(1))
  moreover have "map_of (pairs t2 it2) key = None" using new unfolding t2(3) [symmetric] by (simp only: map_of_eq_None_iff not_False_eq_True)
  ultimately have put: "Put C t key v = Ok (B_NO_ERROR, None, t')" using t2(1) [of "VObj v"] by (simp add: Put_def vref_freed_def)
  let ?o = "t_objs t n"
  have o: "i_cookie ?o = EAt e" "i_cur ?o = CEntry (EAt e)" "n \<in> set (t_iters t)" using i by (simp_all add: at_entries_def ptr_hd_def)
  have "e \<in> set ?it" "length ?it = length it2" using t2(5) by simp_all
  then obtain j where j: "j < length it2" "?it ! j = e" by (metis in_set_conv_nth)
  have dz: "distinct (map fst (zip ?it it2))" using ht_rep_distinct [OF r] t2(5) by simp
  have "(e, it2 ! j) \<in> set (zip ?it it2)" using j t2(5) by (metis in_set_zip fst_conv snd_conv)
  then have m: "map_of (zip ?it it2) e = Some (it2 ! j)" using dz by simp
  have o2: "t_objs t2 n = redirected (zip ?it it2) ?o" by (rule t2(6) [OF o(3)])
  have cook: "i_cookie (t_objs t' n) = EAt (it2 ! j)" "i_cur (t_objs t' n) = CEntry EFreed"
    using p(5) o2 o m by (simp_all add: redirected_def free_iter_def free_cur_def free_eptr_def Let_def)
  have data: "HasData t' n" "IterKeyValue t' n = Fault" using cook by (simp_all add: HasData_def IterKeyValue_def deref_eptr_def)
  have "kv_of t2 (it2 ! j) = pairs t2 it2 ! j" using j(1) by (simp add: pairs_def)
  also have "\<dots> = pairs t ?it ! j" by (simp only: t2(3))
  also have "\<dots> = kv_of t (?it ! j)" using j(1) t2(5) by (simp only: pairs_def nth_map)
  finally have "kv_of t2 (it2 ! j) = kv_of t e" by (simp only: j(2))
  moreover have "it2 ! j \<in> set it' \<and> kv_of t' (it2 ! j) = kv_of t2 (it2 ! j)"
    using p(6) j(1) nth_mem by blast
  moreover have "ht_rep C t' it'" using p(2) by (simp add: ht_rep_def)
  ultimately show ?thesis using that [OF put _ data cook(1)] by metis
qed

end
