(* ===== verification/Hash_Store.thy ===== *)
theory Hash_Store
  imports Hash_Copy Hash_Iter
begin

section \<open>Hashtable: the contract of a map that keeps its pairs in an order\<close>

text \<open>
  \<open>ordered_store\<close> is what a caller may rely on: a list of pairs with distinct keys stands for the state,
  a lookup reads it as a map, putting a pair places it, removing a key filters it.  Any sequence of
  commands then gives the answers of a map.  \<open>sorted_store\<close> adds an order that placing a pair keeps.
  The tables of the model, with the standard equality of keys and enough memory, provide both.
\<close>

datatype ('k, 'v) command = CGet 'k | CPut 'k 'v | CRemove 'k

text \<open>A sequence of commands: each answers with a value or with none (found, replaced, removed).\<close>

fun run_commands :: "('s \<Rightarrow> 'k \<Rightarrow> 'v option outcome) \<Rightarrow> ('s \<Rightarrow> 'k \<Rightarrow> 'v \<Rightarrow> (status \<times> 'v option \<times> 's) outcome)
   \<Rightarrow> ('s \<Rightarrow> 'k \<Rightarrow> ('v option \<times> 's) outcome) \<Rightarrow> ('k, 'v) command list \<Rightarrow> 's \<Rightarrow> ('v option list \<times> 's) outcome" where
  "run_commands get put del [] s = Ok ([], s)"
| "run_commands get put del (CGet k # cs) s = obind (get s k) (\<lambda>v. obind (run_commands get put del cs s) (\<lambda>(vs, s). Ok (v # vs, s)))"
| "run_commands get put del (CPut k v # cs) s = obind (put s k v) (\<lambda>(st, old, s).
     if st = B_NO_ERROR then obind (run_commands get put del cs s) (\<lambda>(vs, s). Ok (old # vs, s)) else Fault)"
| "run_commands get put del (CRemove k # cs) s = obind (del s k) (\<lambda>(v, s). obind (run_commands get put del cs s) (\<lambda>(vs, s). Ok (v # vs, s)))"

fun map_commands :: "('k, 'v) command list \<Rightarrow> ('k \<rightharpoonup> 'v) \<Rightarrow> 'v option list \<times> ('k \<rightharpoonup> 'v)" where
  "map_commands [] m = ([], m)"
| "map_commands (CGet k # cs) m = (let (vs, m') = map_commands cs m in (m k # vs, m'))"
| "map_commands (CPut k v # cs) m = (let (vs, m') = map_commands cs (m(k \<mapsto> v)) in (m k # vs, m'))"
| "map_commands (CRemove k # cs) m = (let (vs, m') = map_commands cs (m(k := None)) in (m k # vs, m'))"

fun pair_commands :: "('k \<Rightarrow> 'v \<Rightarrow> ('k \<times> 'v) list \<Rightarrow> ('k \<times> 'v) list) \<Rightarrow> ('k, 'v) command list \<Rightarrow> ('k \<times> 'v) list \<Rightarrow> ('k \<times> 'v) list" where
  "pair_commands place [] ps = ps"
| "pair_commands place (CGet k # cs) ps = pair_commands place cs ps"
| "pair_commands place (CPut k v # cs) ps = pair_commands place cs (place k v ps)"
| "pair_commands place (CRemove k # cs) ps = pair_commands place cs (filter (\<lambda>kv. fst kv \<noteq> k) ps)"

lemma map_of_filter_key: "map_of (filter (\<lambda>kv. fst kv \<noteq> k) ps) = (map_of ps)(k := None)"
  by (induction ps) (auto simp: fun_eq_iff)

locale ordered_store =
  fixes holds :: "'s \<Rightarrow> ('k \<times> 'v) list \<Rightarrow> bool"
    and get :: "'s \<Rightarrow> 'k \<Rightarrow> 'v option outcome"
    and put :: "'s \<Rightarrow> 'k \<Rightarrow> 'v \<Rightarrow> (status \<times> 'v option \<times> 's) outcome"
    and del :: "'s \<Rightarrow> 'k \<Rightarrow> ('v option \<times> 's) outcome"
    and place :: "'k \<Rightarrow> 'v \<Rightarrow> ('k \<times> 'v) list \<Rightarrow> ('k \<times> 'v) list"
  assumes holds_distinct: "holds s ps \<Longrightarrow> distinct (map fst ps)"
    and get_holds: "holds s ps \<Longrightarrow> get s k = Ok (map_of ps k)"
    and put_holds: "holds s ps \<Longrightarrow> length ps < 2 ^ 31 \<Longrightarrow>
      \<exists>s'. put s k v = Ok (B_NO_ERROR, map_of ps k, s') \<and> holds s' (place k v ps)"
    and del_holds: "holds s ps \<Longrightarrow> \<exists>s'. del s k = Ok (map_of ps k, s') \<and> holds s' (filter (\<lambda>kv. fst kv \<noteq> k) ps)"
    and place_map: "distinct (map fst ps) \<Longrightarrow> map_of (place k v ps) = (map_of ps)(k \<mapsto> v)"
    and place_length: "length (place k v ps) \<le> Suc (length ps)"
begin

lemma run_holds:
  "holds s ps \<Longrightarrow> length ps + length cs \<le> 2 ^ 31 \<Longrightarrow>
   \<exists>s'. run_commands get put del cs s = Ok (fst (map_commands cs (map_of ps)), s') \<and> holds s' (pair_commands place cs ps)
     \<and> map_of (pair_commands place cs ps) = snd (map_commands cs (map_of ps))"
proof (induction cs arbitrary: s ps)
  case (Cons c cs)
  show ?case
  proof (cases c)
    case (CGet k)
    then show ?thesis using Cons.IH [OF Cons.prems(1)] Cons.prems get_holds [OF Cons.prems(1)] by (auto simp: split_def Let_def)
  next
    case (CPut k v)
    have "length ps < 2 ^ 31" using Cons.prems(2) by simp
    from put_holds [OF Cons.prems(1) this] obtain s1 where s1: "put s k v = Ok (B_NO_ERROR, map_of ps k, s1)" "holds s1 (place k v ps)" by blast
    have "length (place k v ps) + length cs \<le> 2 ^ 31" using place_length [of k v ps] Cons.prems(2) by simp
    note ih = Cons.IH [OF s1(2) this, unfolded place_map [OF holds_distinct [OF Cons.prems(1)]]]
    show ?thesis using ih CPut s1(1) by (auto simp: split_def Let_def simp del: fun_upd_apply)
  next
    case (CRemove k)
    obtain s1 where s1: "del s k = Ok (map_of ps k, s1)" "holds s1 (filter (\<lambda>kv. fst kv \<noteq> k) ps)" using del_holds [OF Cons.prems(1)] by blast
    have "length (filter (\<lambda>kv. fst kv \<noteq> k) ps) + length cs \<le> 2 ^ 31"
    proof -
      have "length (filter (\<lambda>kv. fst kv \<noteq> k) ps) \<le> length ps" by (rule length_filter_le)
      moreover have "length ps + length cs \<le> 2 ^ 31" using Cons.prems(2) by simp
      ultimately show ?thesis by linarith
    qed
    note ih = Cons.IH [OF s1(2) this, unfolded map_of_filter_key]
    show ?thesis using ih CRemove s1(1) by (auto simp: split_def Let_def simp del: fun_upd_apply)
  qed
qed simp

end

locale sorted_store = ordered_store holds get put del place
  for holds :: "'s \<Rightarrow> ('k \<times> 'v) list \<Rightarrow> bool" and get put del place +
  fixes key :: "'k \<times> 'v \<Rightarrow> 'o::linorder"
  assumes place_sorted: "sorted (map key ps) \<Longrightarrow> sorted (map key (place k v ps))"
begin

lemma pair_commands_sorted: "sorted (map key ps) \<Longrightarrow> sorted (map key (pair_commands place cs ps))"
proof (induction cs arbitrary: ps)
  case (Cons c cs)
  have f: "sorted (map key (filter P ps))" for P using Cons.prems by (rule sorted_filter)
  show ?case by (cases c) (simp_all add: Cons.IH Cons.prems place_sorted f)
qed simp

lemma run_sorted:
  assumes "holds s ps" "sorted (map key ps)" "length ps + length cs \<le> 2 ^ 31"
  shows "\<exists>s' ps'. run_commands get put del cs s = Ok (fst (map_commands cs (map_of ps)), s') \<and> holds s' ps'
     \<and> map_of ps' = snd (map_commands cs (map_of ps)) \<and> sorted (map key ps')"
  using run_holds [OF assms(1,3)] pair_commands_sorted [OF assms(2)] by blast

end

subsection \<open>The tables provide it\<close>

text \<open>A table with the given settings of its order, and the pairs it holds.\<close>

definition ht_holds :: "('k, 'v) ht_class \<Rightarrow> bool \<Rightarrow> nat \<Rightarrow> ('k, 'v) ht \<Rightarrow> ('k \<times> 'v) list \<Rightarrow> bool" where
  "ht_holds C a c t ps \<longleftrightarrow> t_autosort t = a \<and> t_cookie t = c \<and> (\<exists>it. ht_rep C t it \<and> pairs t it = ps)"

text \<open>The class with \<^verbatim>\<open>operator ==\<close> an equality and with enough memory.\<close>

definition standard :: "('k, 'v) ht_class \<Rightarrow> ('k, 'v) ht_class" where
  "standard C = C\<lparr>c_keq := (=), c_alloc := (\<lambda>_. True)\<rparr>"

lemma standard_ok [simp]: "keq_ok (standard C)" "c_alloc (standard C) n" "c_sub (standard C) = c_sub C"
  by (simp_all add: standard_def keq_ok_def)

lemma standard_id:
  assumes "keq_ok C" "\<And>n. c_alloc C n"
  shows "standard C = C"
proof -
  have "c_keq C = (=)" "c_alloc C = (\<lambda>_. True)" using assms by (auto simp: keq_ok_def fun_eq_iff)
  then show ?thesis unfolding standard_def by (intro ht_class.equality) simp_all
qed

lemma ecmp_standard [simp]: "ecmp (standard C) = ecmp C"
  by (simp add: fun_eq_iff ecmp_def)

interpretation ht_store: ordered_store "ht_holds (standard C) a c" "GetValue (standard C)" "Put (standard C)" "RemoveKey (standard C)"
  "put_pairs (standard C) a c" for C :: "('k, 'v) ht_class" and a c
proof
  let ?C = "standard C"
  fix s :: "('k, 'v) ht" and ps :: "('k \<times> 'v) list"
  assume "ht_holds ?C a c s ps"
  then obtain it where r: "ht_rep ?C s it" "pairs s it = ps" "t_autosort s = a" "t_cookie s = c" by (auto simp: ht_holds_def)
  show "distinct (map fst ps)" using distinct_keys [OF r(1)] r(2) by simp
  show "GetValue ?C s k = Ok (map_of ps k)" for k using GetValue_rep [OF r(1)] r(2) by simp
  show "\<exists>s'. RemoveKey ?C s k = Ok (map_of ps k, s') \<and> ht_holds ?C a c s' (filter (\<lambda>kv. fst kv \<noteq> k) ps)" for k
    by (rule RemoveKey_rep [OF r(1), of k]) (use r in \<open>auto simp: ht_holds_def keep_def\<close>)
  show "\<exists>s'. Put ?C s k v = Ok (B_NO_ERROR, map_of ps k, s') \<and> ht_holds ?C a c s' (put_pairs ?C a c k v ps)" if l: "length ps < 2 ^ 31" for k v
  proof -
    have "length it < 2 ^ 31" using l r(2) by auto
    then have "k \<in> fst ` set (pairs s it) \<or> length it < t_size s \<or> t_size s < 2 ^ 31" by linarith
    from Put_rep [OF r(1) _ _ this] obtain t' it' where "Put ?C s k v = Ok (B_NO_ERROR, map_of (pairs s it) k, t')" "ht_rep ?C t' it'"
      "same_order s t'" "pairs t' it' = put_pairs ?C (t_autosort s) (t_cookie s) k v (pairs s it)" by (metis standard_ok(1,2))
    then show ?thesis using r by (auto simp: ht_holds_def same_order_def)
  qed
next
  fix ps :: "('k \<times> 'v) list" and k v
  show "distinct (map fst ps) \<Longrightarrow> map_of (put_pairs (standard C) a c k v ps) = (map_of ps)(k \<mapsto> v)" by (rule put_pairs_map)
  show "length (put_pairs (standard C) a c k v ps) \<le> Suc (length ps)" by (rule length_put_pairs)
qed

subsection \<open>The default comparison of \<^verbatim>\<open>CompareFunctor\<close>\<close>

definition muscleCompare :: "'a::linorder \<Rightarrow> 'a \<Rightarrow> int" where
  "muscleCompare arg1 arg2 = (if arg2 < arg1 then 1 else if arg1 < arg2 then - 1 else 0)"

text \<open>\<^verbatim>\<open>OrderedKeysHashtable\<close> and \<^verbatim>\<open>OrderedValuesHashtable\<close> with their default functors, which ignore the cookie.\<close>

definition by_keys :: "('k::linorder, 'v) ht_class \<Rightarrow> ('k, 'v) ht_class" where
  "by_keys C = C\<lparr>c_sub := OrderedKeys (\<lambda>a b cookie. muscleCompare a b)\<rparr>"

definition by_values :: "('k, 'v::linorder) ht_class \<Rightarrow> ('k, 'v) ht_class" where
  "by_values C = C\<lparr>c_sub := OrderedValues (\<lambda>a b cookie. muscleCompare a b)\<rparr>"

lemma by_keys_order: "orders_by (ecmp (by_keys C) cookie) fst" "c_sub (by_keys C) \<noteq> Plain"
  by (auto simp: orders_by_def by_key_def ecmp_def by_keys_def muscleCompare_def)

lemma by_values_order: "orders_by (ecmp (by_values C) cookie) snd" "c_sub (by_values C) \<noteq> Plain"
  by (auto simp: orders_by_def by_key_def ecmp_def by_values_def muscleCompare_def)

interpretation keys_store: sorted_store "ht_holds (standard (by_keys C)) True c" "GetValue (standard (by_keys C))"
  "Put (standard (by_keys C))" "RemoveKey (standard (by_keys C))" "put_pairs (standard (by_keys C)) True c" fst
  for C :: "('k::linorder, 'v) ht_class" and c
  by unfold_locales (rule put_pairs_sorted; simp add: by_keys_order)

interpretation values_store: sorted_store "ht_holds (standard (by_values C)) True c" "GetValue (standard (by_values C))"
  "Put (standard (by_values C))" "RemoveKey (standard (by_values C))" "put_pairs (standard (by_values C)) True c" snd
  for C :: "('k, 'v::linorder) ht_class" and c
  by unfold_locales (rule put_pairs_sorted; simp add: by_values_order)

text \<open>A table that has just been constructed holds no pairs.\<close>

lemma DefaultTable_rep: "ht_rep C (DefaultTable C ob) []"
  by (simp add: ht_rep_def ht_null_def DefaultTable_def NewTable_def HASHTABLE_DEFAULT_CAPACITY_def ComputeTableIndexTypeForTableSize_def)

lemma DefaultTable_holds: "ht_holds C (is_ordered (c_sub C)) 0 (DefaultTable C ob) []"
  using DefaultTable_rep [of C ob] by (auto simp: ht_holds_def DefaultTable_def NewTable_def pairs_def)

end
