(* ===== verification/Hash_Reach.thy ===== *)
theory Hash_Reach
  imports Hash_Store
begin

section \<open>Hashtable: the calls of a caller, and the tables that they can reach\<close>

text \<open>
  Eighteen of the public calls on a table as a transition relation.  The guards are what a caller has to
  respect: fewer than \<open>2 ^ 31\<close> slots before a put (the doubled size must fit in 32 bits), no shrinking to
  an array of size zero, and for \<^verbatim>\<open>CopyFrom\<close> another table with pairs, which fit in this one.  Every table
  that a caller can reach is well-formed, and each of these calls on it returns.  Before that, the two operations that restore the order of a table.
\<close>

subsection \<open>\<^verbatim>\<open>Reposition\<close> and \<^verbatim>\<open>SetAutoSortEnabled\<close>\<close>

lemma set_kv_same: "e < slots_of t \<Longrightarrow> set_kv t e (hsh t e) (ky t e) (vl t e) = t"
  by (cases "t_table t") (simp_all add: set_kv_def put_ent_def hsh_def ky_def vl_def es_of_def slots_of_def)

text \<open>Repositioning an entry places its pair once more.\<close>

lemma Reposition_rep:
  assumes r: "ht_rep C t it" and k: "keq_ok C"
  obtains t' it' where
    "Reposition C t key = Ok (if t_autosort t \<and> key \<in> fst ` set (pairs t it) then B_NO_ERROR else B_ERROR, t')"
    "ht_rep C t' it'" "keep t t'"
    "pairs t' it' = (if t_autosort t \<and> key \<in> fst ` set (pairs t it)
       then put_pairs C True (t_cookie t) key (the (map_of (pairs t it) key)) (pairs t it) else pairs t it)"
proof (cases "t_autosort t")
  case False
  then show ?thesis using that [of t it] r by (simp add: Reposition_def)
next
  case auto: True
  show ?thesis
  proof (rule GetEntry_rep [OF r k, of key])
    fix e assume found: "e \<in> set it" "ky t e = key" "GetEntry C t (ComputeHash C key) key = Ok (Some e)"
      "map_of (pairs t it) key = Some (vl t e)"
    obtain xs ys where it: "it = xs @ e # ys" using split_list [OF found(1)] by blast
    then have a: "ht_alloc C t (xs @ e # ys)" using r by (simp add: ht_rep_def)
    obtain t' it' where t': "RepositionAux C t e = Ok t'" "ht_alloc C t' it'" "keep t t'"
      "pairs t' it' = put_pairs C (t_autosort t) (t_cookie t) (ky t e) (vl t e) (pairs t (xs @ e # ys))"
      using put_replace_alloc [OF a, of "vl t e"] set_kv_same [OF alloc_links(1) [OF a]] by metis
    have m: "key \<in> fst ` set (pairs t it)" using put_pairs_found(3) [OF a] found(2) it by simp
    have "ht_rep C t' it'" using t'(2) by (simp add: ht_rep_def)
    then show ?thesis using that [of t' it'] auto t' m found(2,3,4) it by (simp add: Reposition_def)
  next
    assume absent: "key \<notin> ky t ` set it" "GetEntry C t (ComputeHash C key) key = Ok None" "map_of (pairs t it) key = None"
    then have "key \<notin> fst ` set (pairs t it)" by (simp add: map_of_eq_None_iff)
    then show ?thesis using that [of t it] r absent(2) auto by (simp add: Reposition_def)
  qed
qed

lemma SetAutoSortEnabled_rep:
  assumes r: "ht_rep C t it" and o: "is_ordered (c_sub C) \<Longrightarrow> orders_by (ecmp C (t_cookie t)) g"
  obtains t' it' where "SetAutoSortEnabled C t enabled sortNow = Ok t'" "ht_rep C t' it'" "t_autosort t' = enabled"
    "t_cookie t' = t_cookie t"
    "pairs t' it' = (if enabled \<and> \<not> t_autosort t \<and> sortNow then own_order C g (pairs t it) else pairs t it)"
proof (cases "enabled \<noteq> t_autosort t")
  case True
  let ?t = "t\<lparr>t_autosort := enabled\<rparr>"
  have c: "same_core t ?t" by (simp add: same_core_def)
  have rt: "ht_rep C ?t it" and p: "pairs ?t it = pairs t it" using same_core_rep [OF c r] same_core_views(7) [OF c] by simp_all
  have o': "is_ordered (c_sub C) \<Longrightarrow> orders_by (ecmp C (t_cookie ?t)) g" using o by simp
  obtain t' it' where t': "SortAux C ?t = Ok t'" "ht_rep C t' it'" "same_slots ?t t'"
    "pairs t' it' = (if is_ordered (c_sub C) then sort_key g (pairs ?t it) else pairs ?t it)"
    using SortAux_rep [OF rt o'] by metis
  have s: "t_autosort t' = enabled" "t_cookie t' = t_cookie t" using t'(3) by (auto simp: same_slots_def dest: iter_frameD)
  show ?thesis
  proof (cases "sortNow \<and> enabled")
    case srt: True
    then have "SetAutoSortEnabled C t enabled sortNow = Ok t'" using True t'(1) by (simp add: SetAutoSortEnabled_def)
    then show ?thesis using True srt t'(4) s p by (intro that [of t' it'] t'(2)) (simp_all add: own_order_def)
  next
    case no: False
    then have "SetAutoSortEnabled C t enabled sortNow = Ok ?t" using True by (auto simp: SetAutoSortEnabled_def)
    then show ?thesis using True no p by (intro that [of ?t it] rt) auto
  qed
next
  case False
  then have "SetAutoSortEnabled C t enabled sortNow = Ok t" by (simp add: SetAutoSortEnabled_def)
  then show ?thesis using False by (intro that [of t it] r) auto
qed

subsection \<open>The calls\<close>

definition left :: "('a \<times> 's) outcome \<Rightarrow> 's outcome" where "left r = obind r (\<lambda>(x, s). Ok s)"

lemma left_Ok [simp]: "left (Ok (x, s)) = Ok s"
  by (simp add: left_def)

definition well_formed :: "('k, 'v) ht_class \<Rightarrow> ('k, 'v) ht \<Rightarrow> bool" where
  "well_formed C t \<longleftrightarrow> (\<exists>it. ht_rep C t it)"

definition asked :: "'a outcome \<Rightarrow> 's \<Rightarrow> 's outcome" where "asked r s = obind r (\<lambda>x. Ok s)"

lemma asked_Ok [simp]: "asked (Ok x) s = Ok s"
  by (simp add: asked_def)

inductive ht_call :: "('k, 'v) ht_class \<Rightarrow> ('k, 'v) ht \<Rightarrow> ('k, 'v) ht outcome \<Rightarrow> bool" for C where
  put: "t_size t < 2 ^ 31 \<Longrightarrow> ht_call C t (left (left (Put C t k v)))"
| remove: "ht_call C t (left (RemoveKey C t k))"
| remove_first: "ht_call C t (left (RemoveFirst C t))"
| remove_last: "ht_call C t (left (RemoveLast C t))"
| to_front: "ht_call C t (left (MoveToFront C t k))"
| to_back: "ht_call C t (left (MoveToBack C t k))"
| next_to: "ht_call C t (left ((if behind then MoveToBehind else MoveToBefore) C t k anchor))"
| to_position: "ht_call C t (left (MoveToPosition C t k i))"
| repos: "ht_call C t (left (Reposition C t k))"
| auto_sort: "ht_call C t (SetAutoSortEnabled C t enabled sortNow)"
| ensure: "n < 2 ^ 32 \<Longrightarrow> \<not> allowShrink \<or> 0 < max (t_items t) n \<Longrightarrow> ht_call C t (left (EnsureSize_ht C t n allowShrink))"
| clear: "ht_call C t (Clear_ht C t release)"
| copy: "well_formed C u \<Longrightarrow> 0 < t_items u \<Longrightarrow> t_items t + t_items u < 2 ^ 32 \<Longrightarrow>
    ht_call C t (left (CopyFrom_ht C t u False clearFirst))"
| subtract: "well_formed C u \<Longrightarrow> ht_call C t (left (RemovePairs C t u False))"
| get: "ht_call C t (asked (GetValue C t k) t)"
| contains_key: "ht_call C t (asked (ContainsKey C t k) t)"
| contains_value: "ht_call C t (asked (ContainsValue C t v) t)"
| iterate: "ht_call C t (Ok (IteratorStart tid t n backwards noregister))"

inductive reachable :: "('k, 'v) ht_class \<Rightarrow> ('k, 'v) ht \<Rightarrow> bool" for C where
  start: "reachable C (DefaultTable C ob)"
| call: "reachable C t \<Longrightarrow> ht_call C t (Ok t') \<Longrightarrow> reachable C t'"

lemma well_formedI: "ht_rep C t it \<Longrightarrow> well_formed C t"
  by (auto simp: well_formed_def)

lemma ht_call_ok:
  assumes "ht_call C t r" "well_formed C t"
    and k: "keq_ok C" and c: "\<And>n. n < 2 ^ 32 \<Longrightarrow> c_alloc C n" and o: "\<And>c. is_ordered (c_sub C) \<Longrightarrow> orders_by (ecmp C c) (g c)"
  shows "\<exists>t'. r = Ok t' \<and> well_formed C t'"
proof -
  obtain it where r: "ht_rep C t it" using assms(2) by (auto simp: well_formed_def)
  note wf = well_formedI
  show ?thesis using assms(1)
  proof cases
    case (put k v)
    then have "k \<in> fst ` set (pairs t it) \<or> length it < t_size t \<or> t_size t < 2 ^ 31" by simp
    from Put_rep [OF r \<open>keq_ok C\<close> c this] show ?thesis unfolding put(1) by (metis left_Ok wf)
  next
    case (remove k)
    show ?thesis unfolding remove by (rule RemoveKey_rep [OF r \<open>keq_ok C\<close>, of k]) (auto intro: wf)
  next
    case remove_first
    show ?thesis unfolding remove_first by (rule RemoveFirst_rep [OF r]) (auto intro: wf)
  next
    case remove_last
    show ?thesis unfolding remove_last by (rule RemoveLast_rep [OF r]) (auto intro: wf)
  next
    case (to_front k)
    show ?thesis unfolding to_front by (rule MoveToFront_rep [OF r \<open>keq_ok C\<close>, of k]) (auto intro: wf)
  next
    case (to_back k)
    show ?thesis unfolding to_back by (rule MoveToBack_rep [OF r \<open>keq_ok C\<close>, of k]) (auto intro: wf)
  next
    case (next_to behind k anchor)
    show ?thesis unfolding next_to by (rule MoveTo_anchor_rep [OF r \<open>keq_ok C\<close>, of behind k anchor]) (simp only: left_Ok, blast intro: wf)
  next
    case (to_position k i)
    show ?thesis unfolding to_position by (rule MoveToPosition_rep [OF r \<open>keq_ok C\<close>, of k i]) (auto intro: wf)
  next
    case (repos k)
    show ?thesis unfolding repos by (rule Reposition_rep [OF r \<open>keq_ok C\<close>, of k]) (auto intro: wf)
  next
    case (auto_sort enabled sortNow)
    show ?thesis unfolding auto_sort by (rule SetAutoSortEnabled_rep [OF r o, of enabled sortNow]) (auto intro: wf)
  next
    case (ensure n allowShrink)
    have "allowShrink \<Longrightarrow> 0 < max (length it) n" using ensure(3) ht_rep_length [OF r] by simp
    from EnsureSize_rep [OF r \<open>keq_ok C\<close> c ensure(2) this] show ?thesis unfolding ensure(1) by (metis left_Ok wf)
  next
    case (clear release)
    show ?thesis unfolding clear by (rule Clear_rep [OF r, of release]) (auto intro: wf)
  next
    case (copy u clearFirst)
    obtain jt where q: "ht_rep C u jt" using copy(2) by (auto simp: well_formed_def)
    have "length it + length jt < 2 ^ 32" "jt \<noteq> []"
      using copy(3,4) ht_rep_length [OF r] ht_rep_length [OF q] by auto
    from CopyFrom_rep [OF r q \<open>keq_ok C\<close> c this(1) o this(2)] show ?thesis unfolding copy(1) by (metis left_Ok wf)
  next
    case (subtract u)
    obtain jt where q: "ht_rep C u jt" using subtract(2) by (auto simp: well_formed_def)
    show ?thesis unfolding subtract(1) by (rule RemovePairs_rep [OF r q \<open>keq_ok C\<close>]) (auto intro: wf)
  next
    case (get k)
    then show ?thesis using GetValue_rep [OF r \<open>keq_ok C\<close>] assms(2) by simp
  next
    case (contains_key k)
    then show ?thesis using ContainsKey_rep [OF r \<open>keq_ok C\<close>] assms(2) by simp
  next
    case (contains_value v)
    then show ?thesis using ContainsValue_rep [OF r] assms(2) by simp
  next
    case (iterate tid n backwards noregister)
    show ?thesis unfolding iterate using wf [OF same_core_rep [OF IteratorStart_core r]] by blast
  qed
qed

lemma reachable_well_formed:
  assumes "reachable C t" "keq_ok C" "\<And>n. n < 2 ^ 32 \<Longrightarrow> c_alloc C n" "\<And>c. is_ordered (c_sub C) \<Longrightarrow> orders_by (ecmp C c) (g c)"
  shows "well_formed C t"
  using assms(1)
proof induction
  case (start ob)
  show ?case by (rule well_formedI [OF DefaultTable_rep])
next
  case (call t t')
  show ?case using ht_call_ok [OF call.hyps(2) call.IH assms(2,3,4)] by simp
qed

end
