(* ===== verification/Hash_Edge.thy ===== *)
theory Hash_Edge
  imports Hash_Reach
begin

section \<open>Hashtable: no memory, and arrays of size zero\<close>

subsection \<open>No memory left\<close>

text \<open>
  When no array can be allocated, a put succeeds as long as it needs none; otherwise it fails, and the
  table holds what it held.
\<close>

lemma table_None: "ht_rep C t it \<Longrightarrow> t_table t = None \<longleftrightarrow> \<not> ht_alloc C t it"
  using slot_lay_Some by (fastforce simp: ht_rep_def ht_null_def elim: ht_allocE)

lemma ensure_body_no_memory:
  assumes a: "ht_alloc C t (e # es)" and put: "\<And>b h k v. put b h k v = put_body C ensure again b h k v" and c: "\<And>n. \<not> c_alloc C n"
    and go: "\<not> (if allowShrink then req = t_size t else req \<le> t_size t)"
  obtains t' where "ensure_body C put t req allowShrink = Ok (B_ERROR, t')" "same_core t t'" "same_order t t'"
proof -
  define t0 where "t0 = set_spaces t (\<lambda>p. True) ENull (t_iters t)"
  have co: "same_core t t0" "same_order t t0" by (simp_all add: t0_def set_spaces_eq same_core_def same_order_def)
  have r: "ht_rep C t (e # es)" using a by (simp add: ht_rep_def)
  have r0: "ht_rep C t0 (e # es)" by (rule same_core_rep [OF co(1) r])
  have a0: "ht_alloc C t0 ([] @ e # es)" using r0 by (simp add: ht_rep_def)
  define b where "b = (DefaultTable C (t_objs t0))\<lparr>t_size := max (t_items t0) req,
    t_type := ComputeTableIndexTypeForTableSize (max (t_items t0) req), t_autosort := False\<rparr>"
  have "t_table b = None" by (simp add: b_def DefaultTable_def NewTable_def)
  then have "put b h k v = Ok (None, None, b\<lparr>t_free := 0\<rparr>)" for h k v
    using c by (simp add: put put_body_def EnsureTableAllocated_def)
  moreover obtain m where "table_fuel t0 = Suc m" using rep_fuel [OF r0] by (cases "table_fuel t0") auto
  ultimately have "move_entries put (table_fuel t0) t0 b (ptr_hd (e # es)) = Ok (B_ERROR, t0, b\<lparr>t_free := 0\<rparr>)"
    using alloc_links(1) [OF a0] by (simp add: ptr_hd_def)
  then have "ensure_body C put t req allowShrink = Ok (B_ERROR, t0)"
    unfolding ensure_body_def if_not_P [OF go] Let_def t0_def [symmetric] b_def [symmetric] rep_head [OF r0] by simp
  then show ?thesis using that co by blast
qed

lemma Put_no_memory:
  assumes r: "ht_rep C t it" and k: "keq_ok C" and c: "\<And>n. \<not> c_alloc C n" and sz: "t_size t < 2 ^ 31"
    and no: "t_table t = None \<or> key \<notin> fst ` set (pairs t it) \<and> length it = t_size t"
  obtains t' where "Put C t key v = Ok (B_ERROR, None, t')" "ht_rep C t' it" "pairs t' it = pairs t it" "same_order t t'"
proof (cases "t_table t")
  case None
  then have it: "it = []" "ht_null t" using r table_None [OF r] by (auto simp: ht_rep_def)
  have "Put C t key v = Ok (B_ERROR, None, t\<lparr>t_free := 0\<rparr>)"
    unfolding Put_def PutAux_nested put_body_def using c None by (simp add: EnsureTableAllocated_def)
  moreover have "ht_rep C (t\<lparr>t_free := 0\<rparr>) it" using it by (simp add: ht_rep_def ht_null_def)
  moreover have "pairs (t\<lparr>t_free := 0\<rparr>) it = pairs t it" using it(1) by simp
  moreover have "same_order t (t\<lparr>t_free := 0\<rparr>)" by (simp add: same_order_def)
  ultimately show ?thesis by (rule that)
next
  case (Some es)
  then have a: "ht_alloc C t it" and new: "key \<notin> fst ` set (pairs t it)" "length it = t_size t" using table_None [OF r] no by simp_all
  obtain e fs where it: "it = e # fs" using new(2) rep_bounds(3) [OF r] by (cases it) auto
  have dbl: "mul32 (t_size t) 2 = 2 * t_size t" using sz by (simp add: mul32_def)
  have go: "\<not> (if False then 2 * t_size t = t_size t else 2 * t_size t \<le> t_size t)" using rep_bounds(3) [OF r] by simp
  obtain t' where t': "ensure_body C (PutAux C 1) t (2 * t_size t) False = Ok (B_ERROR, t')" "same_core t t'" "same_order t t'"
  proof (rule ensure_body_no_memory [OF a [unfolded it] _ c go, where put = "PutAux C 1" and ensure = "EnsureSizeN C 0" and again = "PutAux C 0"])
    show "PutAux C 1 b h k v = put_body C (EnsureSizeN C 0) (PutAux C 0) b h k v" for b h k v by simp
  qed
  have g: "GetEntry C t (ComputeHash C key) key = Ok None"
    by (rule GetEntry_rep [OF r k, of key]) (use new in \<open>simp_all add: map_of_eq_None_iff [symmetric]\<close>)
  have i: "t_items t = t_size t" using ht_rep_length [OF r] new(2) by simp
  have "Put C t key v = Ok (B_ERROR, None, t')"
    unfolding Put_def PutAux_nested(1) put_body_def using Some g i t'(1) dbl by (simp add: EnsureTableAllocated_def numeral_2_eq_2)
  then show ?thesis using that same_core_rep [OF t'(2) r] same_core_views(7) [OF t'(2)] t'(3) by simp
qed

lemma Put_enough_room:
  assumes r: "ht_rep C t it" and k: "keq_ok C" and a: "t_table t \<noteq> None" and n: "key \<in> fst ` set (pairs t it) \<or> length it < t_size t"
  obtains t' it' where "Put C t key v = Ok (B_NO_ERROR, map_of (pairs t it) key, t')" "ht_rep C t' it'" "same_order t t'"
    "pairs t' it' = put_pairs C (t_autosort t) (t_cookie t) key v (pairs t it)"
proof -
  obtain e t' it' where p: "put_body C (EnsureSizeN C 2) (PutAux C 2) t (ComputeHash C key) key (VObj v) = Ok (Some e, map_of (pairs t it) key, t')"
    "ht_alloc C t' it'" "same_conf t t'" "pairs t' it' = put_pairs C (t_autosort t) (t_cookie t) key v (pairs t it)"
  proof (rule put_body_rep [OF r k _ n, of "EnsureSizeN C 2" "PutAux C 2" v])
    show "c_alloc C (t_size t)" if "t_table t = None" using a that by simp
  qed (rule that, assumption+)
  then have "Put C t key v = Ok (B_NO_ERROR, map_of (pairs t it) key, t')" by (simp add: Put_def PutAux_nested)
  moreover have "ht_rep C t' it'" using p(2) by (simp add: ht_rep_def)
  ultimately show ?thesis using that same_order_conf [OF p(3)] p(4) by blast
qed

subsection \<open>Arrays of size zero\<close>

text \<open>Shrinking an empty table to fit leaves it with a size of zero, and the next put writes out of bounds.\<close>

lemma ShrinkToFit_empty:
  assumes r: "ht_rep C t []"
  obtains t' where "ShrinkToFit_ht C t 0 = Ok (B_NO_ERROR, t')" "t_size t' = 0" "t_table t' = None" "t_items t' = 0"
proof -
  define t0 where "t0 = set_spaces t (\<lambda>p. True) ENull (t_iters t)"
  have co: "same_core t t0" by (simp add: t0_def set_spaces_eq same_core_def)
  have r0: "ht_rep C t0 []" by (rule same_core_rep [OF co r])
  define b where "b = (DefaultTable C (t_objs t0))\<lparr>t_size := 0, t_type := ComputeTableIndexTypeForTableSize 0, t_autosort := False\<rparr>"
  have i: "t_items t = 0" "t_items t0 = 0" using ht_rep_length r r0 by fastforce+
  have go: "\<not> (if True then 0 = t_size t else 0 \<le> t_size t)" using rep_bounds(3) [OF r] by simp
  obtain m where "table_fuel t0 = Suc m" using rep_fuel [OF r0] by (cases "table_fuel t0") auto
  then have mv: "move_entries (PutAux C 1) (table_fuel t0) t0 b (ptr_hd []) = Ok (B_NO_ERROR, t0, b)" by (simp add: ptr_hd_def)
  define t' where "t' = redirect_iters (fst (SwapContentsAux_ht t0 (b\<lparr>t_cookie := t_cookie t0, t_autosort := t_autosort t0\<rparr>) False))"
  have "max (t_items t0) 0 = 0" using i by simp
  then have "ensure_body C (PutAux C 1) t 0 True = Ok (B_NO_ERROR, t')"
    unfolding ensure_body_def if_not_P [OF go] Let_def t0_def [symmetric] using mv
    by (simp add: b_def [symmetric] rep_head [OF r0] t'_def)
  then have "ShrinkToFit_ht C t 0 = Ok (B_NO_ERROR, t')" using i by (simp add: ShrinkToFit_ht_def EnsureSize_ht_def numeral_2_eq_2)
  moreover have "t_size t' = 0" "t_table t' = None" "t_items t' = 0"
    by (simp_all add: t'_def redirect_iters_def SwapContentsAux_ht_def b_def DefaultTable_def NewTable_def)
  ultimately show ?thesis by (rule that)
qed

lemma Put_size_zero:
  assumes "t_size t = 0" "t_table t = None" "c_alloc C 0"
  shows "Put C t key v = Fault"
proof -
  have "CreateEntriesArray C (t_type t) 0 = Fault" by (simp add: CreateEntriesArray_def rd_def sub32_def)
  then show ?thesis using assms by (simp add: Put_def PutAux_nested put_body_def EnsureTableAllocated_def)
qed

end
