(* ===== verification/Hash_Properties.thy ===== *)
theory Hash_Properties
  imports Hash_Edge
begin

section \<open>Hashtable: the properties\<close>

text \<open>
  \<open>ht_holds C a c t ps\<close> says that the table \<open>t\<close> is well-formed, holds the pairs \<open>ps\<close> in the order of
  iteration, and has the given auto-sort flag and compare cookie.  The witnesses run the model on tables
  of numbers that are built by puts.
\<close>

subsection \<open>Tables for the witnesses\<close>

definition sample :: "(nat, nat) ht_class" where
  "sample = \<lparr>c_hash = word_of_nat, c_keq = (=), c_veq = (=), c_dkey = 0, c_dval = 0, c_sub = Plain, c_alloc = (\<lambda>_. True)\<rparr>"

definition no_iters :: "nat \<Rightarrow> ('k, 'v) hiter" where "no_iters = (\<lambda>n. new_iter False False)"

definition built :: "('k, 'v) ht_class \<Rightarrow> ('k \<times> 'v) list \<Rightarrow> ('k, 'v) ht" where
  "built C ps = (case run_commands (GetValue C) (Put C) (RemoveKey C) (map (\<lambda>(k, v). CPut k v) ps) (DefaultTable C no_iters) of
     Ok (vs, t) \<Rightarrow> t | _ \<Rightarrow> DefaultTable C no_iters)"

lemma sample_ok [simp]: "keq_ok sample" "veq_ok sample" "c_alloc sample n" "c_sub sample = Plain" "standard sample = sample"
  by (simp_all add: sample_def standard_def keq_ok_def veq_ok_def)

lemma by_keys_ok [simp]: "keq_ok (by_keys C) = keq_ok C" "c_alloc (by_keys C) = c_alloc C"
  by (simp_all add: by_keys_def keq_ok_def)

lemma by_values_ok [simp]: "keq_ok (by_values C) = keq_ok C" "c_alloc (by_values C) = c_alloc C"
  by (simp_all add: by_values_def keq_ok_def)

lemma built_holds:
  assumes "keq_ok C" "\<And>n. c_alloc C n" "length ps \<le> 2 ^ 31"
  shows "ht_holds C (is_ordered (c_sub C)) 0 (built C ps) (fold (\<lambda>(k, v). put_pairs C (is_ordered (c_sub C)) 0 k v) ps [])"
proof -
  have "pair_commands p (map (\<lambda>(k, v). CPut k v) ps) qs = fold (\<lambda>(k, v). p k v) ps qs" for p :: "'a \<Rightarrow> 'b \<Rightarrow> _" and qs
    by (induction ps arbitrary: qs) auto
  then show ?thesis
    using ht_store.run_holds [of C "is_ordered (c_sub C)" 0 "DefaultTable C no_iters" "[]" "map (\<lambda>(k, v). CPut k v) ps"]
      DefaultTable_holds [of C no_iters] assms standard_id [OF assms(1,2)]
    by (auto simp: built_def)
qed

lemma puts_same_order:
  assumes "ht_rep C t it" "keq_ok C" "\<And>n. c_alloc C n" "length it + length ps \<le> 2 ^ 31"
  shows "\<exists>vs t'. run_commands (GetValue C) (Put C) (RemoveKey C) (map (\<lambda>(k, v). CPut k v) ps) t = Ok (vs, t') \<and> same_order t t'"
  using assms(1,4)
proof (induction ps arbitrary: t it)
  case (Cons p ps)
  obtain k v where p: "p = (k, v)" by (cases p)
  have "length it < 2 ^ 31" using Cons.prems(2) by simp
  then have n: "k \<in> fst ` set (pairs t it) \<or> length it < t_size t \<or> t_size t < 2 ^ 31" by linarith
  obtain t1 it1 where t1: "Put C t k v = Ok (B_NO_ERROR, map_of (pairs t it) k, t1)" "ht_rep C t1 it1" "same_order t t1"
    "pairs t1 it1 = put_pairs C (t_autosort t) (t_cookie t) k v (pairs t it)" by (rule Put_rep [OF Cons.prems(1) assms(2,3) n])
  have "length it1 \<le> Suc (length it)" using arg_cong [OF t1(4), of length] length_put_pairs by (metis length_pairs)
  then have "length it1 + length ps \<le> 2 ^ 31" using Cons.prems(2) by simp
  from Cons.IH [OF t1(2) this] show ?case using t1(1) same_order_trans [OF t1(3)] by (auto simp: p)
qed simp

lemma built_no_iters:
  assumes "keq_ok C" "\<And>n. c_alloc C n" "length ps \<le> 2 ^ 31"
  shows "t_iters (built C ps) = []" "t_icount (built C ps) = 0"
  using puts_same_order [OF DefaultTable_rep [of C no_iters] assms(1,2), of ps] assms(3)
  by (auto simp: built_def same_order_def DefaultTable_def NewTable_def)

text \<open>The pairs of a plain table, in the order of the puts.\<close>

lemma built_sample: "length ps \<le> 2 ^ 31 \<Longrightarrow> distinct (map fst ps) \<Longrightarrow> ht_holds sample False 0 (built sample ps) ps"
proof -
  assume l: "length ps \<le> 2 ^ 31" and d: "distinct (map fst ps)"
  have "fold (\<lambda>(k, v). put_pairs sample False 0 k v) ps qs = qs @ ps" if "distinct (map fst (qs @ ps))" for qs
    using that
  proof (induction ps arbitrary: qs)
    case (Cons p ps)
    obtain k v where p: "p = (k, v)" by (cases p)
    then have "k \<notin> fst ` set qs" using Cons.prems by auto
    then have "put_pairs sample False 0 k v qs = qs @ [p]" unfolding p by (rule put_pairs_append)
    then show ?case using Cons.IH [of "qs @ [p]"] Cons.prems p by simp
  qed simp
  then have "fold (\<lambda>(k, v). put_pairs sample False 0 k v) ps [] = ps" using d by simp
  with built_holds [OF sample_ok(1,3) l] show ?thesis by (simp only: sample_ok is_ordered.simps)
qed

lemma ht_holdsE:
  assumes "ht_holds C a c t ps"
  obtains it where "ht_rep C t it" "pairs t it = ps" "t_autosort t = a" "t_cookie t = c"
  using assms by (auto simp: ht_holds_def)

lemma ht_holdsI: "ht_rep C t it \<Longrightarrow> pairs t it = ps \<Longrightarrow> t_autosort t = a \<Longrightarrow> t_cookie t = c \<Longrightarrow> ht_holds C a c t ps"
  by (auto simp: ht_holds_def)

lemma keep_holds: "ht_rep C t' it \<Longrightarrow> pairs t' it = ps \<Longrightarrow> keep t t' \<Longrightarrow> t_autosort t = a \<Longrightarrow> t_cookie t = c \<Longrightarrow> ht_holds C a c t' ps"
  by (auto simp: ht_holds_def keep_def)

lemma same_order_holds: "ht_rep C t' it \<Longrightarrow> pairs t' it = ps \<Longrightarrow> same_order t t' \<Longrightarrow> t_autosort t = a \<Longrightarrow> t_cookie t = c \<Longrightarrow> ht_holds C a c t' ps"
  by (auto simp: ht_holds_def same_order_def)

lemma filter_present:
  assumes "distinct (map fst ps)" "k \<in> fst ` set ps"
  shows "filter (\<lambda>kv. fst kv = k) ps = [(k, the (map_of ps k))]"
  using assms
proof (induction ps)
  case (Cons p ps)
  show ?case
  proof (cases "fst p = k")
    case True
    then have "k \<notin> fst ` set ps" using Cons.prems(1) by simp
    then have "filter (\<lambda>kv. fst kv = k) ps = []" by (auto simp: filter_empty_conv)
    then show ?thesis using True by (cases p) simp
  qed (use Cons in \<open>cases p; simp\<close>)
qed simp

subsection \<open>The contract of the map\<close>

text \<open>
  C7.  Any sequence of lookups, puts and removals on a table, growing included, gives the answers of a map from keys to values, and leaves
  the pairs that the same commands leave in a list: no call faults or loops.  Keys are compared for equality,
  memory is available (\<open>standard\<close>), and the pairs and commands are at most \<open>2 ^ 31\<close>.
\<close>

theorem table_runs_as_map:
  assumes "ht_holds (standard C) a c t ps" "length ps + length cs \<le> 2 ^ 31"
  shows "\<exists>t'. run_commands (GetValue (standard C)) (Put (standard C)) (RemoveKey (standard C)) cs t = Ok (fst (map_commands cs (map_of ps)), t')
    \<and> ht_holds (standard C) a c t' (pair_commands (put_pairs (standard C) a c) cs ps)
    \<and> map_of (pair_commands (put_pairs (standard C) a c) cs ps) = snd (map_commands cs (map_of ps))"
  using assms by (rule ht_store.run_holds)

theorem table_runs_as_map_witness:
  "\<exists>t'. run_commands (GetValue sample) (Put sample) (RemoveKey sample) [CPut 3 1, CRemove 10, CGet 10, CGet 3] (built sample [(3, 7), (10, 8)])
    = Ok ([Some 7, Some 8, None, Some 1], t')"
proof -
  have "ht_holds (standard sample) False 0 (built sample [(3, 7), (10, 8)]) [(3, 7), (10, 8)]" using built_sample by simp
  from table_runs_as_map [OF this, of "[CPut 3 1, CRemove 10, CGet 10, CGet 3]"] show ?thesis by auto
qed

text \<open>
  C21.  A table of \<^verbatim>\<open>OrderedKeysHashtable\<close> with the default comparison stays sorted by its keys under any sequence of commands, and
  still answers as a map; memory is available, and the pairs and commands are at most \<open>2 ^ 31\<close>.
\<close>

theorem ordered_keys_stay_sorted:
  fixes C :: "('k::linorder, 'v) ht_class"
  assumes "ht_holds (standard (by_keys C)) True c t ps" "sorted (map fst ps)" "length ps + length cs \<le> 2 ^ 31"
  shows "\<exists>t' ps'. run_commands (GetValue (standard (by_keys C))) (Put (standard (by_keys C))) (RemoveKey (standard (by_keys C))) cs t
      = Ok (fst (map_commands cs (map_of ps)), t')
    \<and> ht_holds (standard (by_keys C)) True c t' ps' \<and> map_of ps' = snd (map_commands cs (map_of ps)) \<and> sorted (map fst ps')"
  using assms by (rule keys_store.run_sorted)

theorem ordered_keys_stay_sorted_witness:
  "\<exists>t' ps'. run_commands (GetValue (standard (by_keys sample))) (Put (standard (by_keys sample))) (RemoveKey (standard (by_keys sample)))
      [CPut 9 1, CPut 4 2, CPut 6 3] (DefaultTable (standard (by_keys sample)) no_iters) = Ok ([None, None, None], t')
    \<and> ht_holds (standard (by_keys sample)) True 0 t' ps' \<and> map_of ps' = [9 \<mapsto> 1, 4 \<mapsto> 2, 6 \<mapsto> 3] \<and> sorted (map fst ps')"
proof -
  have "ht_holds (standard (by_keys sample)) True 0 (DefaultTable (standard (by_keys sample)) no_iters) []"
    using DefaultTable_holds [of "standard (by_keys sample)" no_iters] by (simp add: by_keys_def)
  from ordered_keys_stay_sorted [OF this, of "[CPut 9 1, CPut 4 2, CPut 6 3]"] show ?thesis by simp
qed

text \<open>
  C18.  A table of \<^verbatim>\<open>OrderedValuesHashtable\<close> with the default comparison stays sorted by its values under any sequence
  of commands: a put that changes the value of a key moves the entry to its new place; memory is available, and the
  pairs and commands are at most \<open>2 ^ 31\<close>.
\<close>

theorem ordered_values_stay_sorted:
  fixes C :: "('k, 'v::linorder) ht_class"
  assumes "ht_holds (standard (by_values C)) True c t ps" "sorted (map snd ps)" "length ps + length cs \<le> 2 ^ 31"
  shows "\<exists>t' ps'. run_commands (GetValue (standard (by_values C))) (Put (standard (by_values C))) (RemoveKey (standard (by_values C))) cs t
      = Ok (fst (map_commands cs (map_of ps)), t')
    \<and> ht_holds (standard (by_values C)) True c t' ps' \<and> map_of ps' = snd (map_commands cs (map_of ps)) \<and> sorted (map snd ps')"
  using assms by (rule values_store.run_sorted)

theorem ordered_values_stay_sorted_witness:
  "\<exists>t' ps'. run_commands (GetValue (standard (by_values sample))) (Put (standard (by_values sample))) (RemoveKey (standard (by_values sample)))
      [CPut 1 9, CPut 2 4, CPut 1 3] (DefaultTable (standard (by_values sample)) no_iters) = Ok ([None, None, Some 9], t')
    \<and> ht_holds (standard (by_values sample)) True 0 t' ps' \<and> map_of ps' = [1 \<mapsto> 9, 2 \<mapsto> 4, 1 \<mapsto> 3] \<and> sorted (map snd ps')"
proof -
  have "ht_holds (standard (by_values sample)) True 0 (DefaultTable (standard (by_values sample)) no_iters) []"
    using DefaultTable_holds [of "standard (by_values sample)" no_iters] by (simp add: by_values_def)
  from ordered_values_stay_sorted [OF this, of "[CPut 1 9, CPut 2 4, CPut 1 3]"] show ?thesis by simp
qed

text \<open>
  C10.  Every table that a caller can reach by the following public calls, from a default-constructed one on, is well-formed, and every
  further one of them returns with a well-formed table: \<^verbatim>\<open>Put\<close>, \<^verbatim>\<open>Remove\<close> of a key, \<^verbatim>\<open>RemoveFirst\<close>, \<^verbatim>\<open>RemoveLast\<close> (the overloads
  that report whether there was a pair), \<^verbatim>\<open>MoveToFront\<close>, \<^verbatim>\<open>MoveToBack\<close>, \<^verbatim>\<open>MoveToBefore\<close>, \<^verbatim>\<open>MoveToBehind\<close>, \<^verbatim>\<open>MoveToPosition\<close>, \<^verbatim>\<open>Reposition\<close>,
  \<^verbatim>\<open>SetAutoSortEnabled\<close>, \<^verbatim>\<open>EnsureSize\<close>, \<^verbatim>\<open>Clear\<close>, \<^verbatim>\<open>CopyFrom\<close> and \<^verbatim>\<open>Remove\<close> of another table, \<^verbatim>\<open>Get\<close>, \<^verbatim>\<open>ContainsKey\<close>, \<^verbatim>\<open>ContainsValue\<close>, and
  the start of an iteration.  No such call reads or writes outside of the array, dereferences NULL, or loops.  The guards are: fewer
  than \<open>2 ^ 31\<close> slots before a put, no shrinking to size zero, sizes below \<open>2 ^ 32\<close>, and for \<^verbatim>\<open>CopyFrom\<close> another well-formed table that
  is not empty.  The key comparison is equality of keys, every allocation succeeds, and the comparison of an ordered table is a total
  preorder.  Not among the calls are those that do not always return: \<^verbatim>\<open>RemoveLast\<close> with references for key and value, on an
  empty table (\<open>empty_tables_fault\<close>), and reading an iterator after the table has grown (\<open>growth_leaves_iterator_dangling\<close>).
\<close>

theorem reachable_calls_return:
  assumes "reachable C t" "ht_call C t r" "keq_ok C" "\<And>n. n < 2 ^ 32 \<Longrightarrow> c_alloc C n"
    "\<And>c. is_ordered (c_sub C) \<Longrightarrow> orders_by (ecmp C c) (g c)"
  shows "well_formed C t \<and> (\<exists>t'. r = Ok t' \<and> well_formed C t' \<and> reachable C t')"
proof -
  have w: "well_formed C t" by (rule reachable_well_formed [OF assms(1,3,4,5)])
  from ht_call_ok [OF assms(2) w assms(3,4,5)] obtain t' where "r = Ok t'" "well_formed C t'" by blast
  then show ?thesis using w reachable.call [OF assms(1)] assms(2) by blast
qed

theorem reachable_calls_return_witness:
  "\<exists>t'. MoveToFront (by_values sample) (DefaultTable (by_values sample) no_iters) 5 = Ok (B_ERROR, t') \<and> well_formed (by_values sample) t'
    \<and> (\<exists>t''. left (left (Put (by_values sample) t' 5 7)) = Ok t'' \<and> well_formed (by_values sample) t'')"
proof -
  let ?C = "by_values sample"
  note ok = sample_ok(3) by_values_order(1)
  have r0: "reachable ?C (DefaultTable ?C no_iters)" by (rule reachable.start)
  obtain t' where t': "left (MoveToFront ?C (DefaultTable ?C no_iters) 5) = Ok t'" "well_formed ?C t'" "reachable ?C t'"
    using reachable_calls_return [OF r0 ht_call.to_front [of ?C _ 5], where g = "\<lambda>c. snd"] ok by auto
  have m: "MoveToFront ?C (DefaultTable ?C no_iters) 5 = Ok (B_ERROR, DefaultTable ?C no_iters)"
    by (simp add: MoveToFront_def move_by_def GetEntry_def DefaultTable_def NewTable_def)
  have sz: "t_size t' < 2 ^ 31" using t'(1) m by (auto simp: DefaultTable_def NewTable_def HASHTABLE_DEFAULT_CAPACITY_def)
  obtain t'' where "left (left (Put ?C t' 5 7)) = Ok t''" "well_formed ?C t''"
    using reachable_calls_return [OF t'(3) ht_call.put [where C = ?C and k = 5 and v = 7, OF sz], where g = "\<lambda>c. snd"] ok by auto
  then show ?thesis using t'(1,2) m by auto
qed

text \<open>
  \<^verbatim>\<open>Put\<close> of a pair answers with the value it replaces and places the pair: a plain table replaces the value where it is or appends
  the pair; an ordered table inserts it at its sorted position.  When the array is full it is doubled first.
\<close>

theorem Put_places_pair:
  assumes "ht_holds C a c t ps" "keq_ok C" "\<And>n. n < 2 ^ 32 \<Longrightarrow> c_alloc C n" "length ps < 2 ^ 31"
  shows "\<exists>t'. Put C t k v = Ok (B_NO_ERROR, map_of ps k, t') \<and> ht_holds C a c t' (put_pairs C a c k v ps)
    \<and> (c_sub C = Plain \<longrightarrow> put_pairs C a c k v ps = AList.update k v ps) \<and> GetValue C t' k = Ok (Some v)"
proof -
  obtain it where t: "ht_rep C t it" "pairs t it = ps" "t_autosort t = a" "t_cookie t = c" by (rule ht_holdsE [OF assms(1)])
  have "length it < 2 ^ 31" using assms(4) t(2) by auto
  then have n: "k \<in> fst ` set (pairs t it) \<or> length it < t_size t \<or> t_size t < 2 ^ 31" by linarith
  obtain t' it' where t': "Put C t k v = Ok (B_NO_ERROR, map_of (pairs t it) k, t')" "ht_rep C t' it'" "same_order t t'"
    "pairs t' it' = put_pairs C (t_autosort t) (t_cookie t) k v (pairs t it)" by (rule Put_rep [OF t(1) assms(2,3) n])
  have d: "distinct (map fst ps)" using distinct_keys [OF t(1)] t(2) by simp
  have "GetValue C t' k = Ok (Some v)" using GetValue_rep [OF t'(2) assms(2)] t'(4) t(2-4) put_pairs_map [OF d] by simp
  then show ?thesis using t' t(2-4) put_pairs_plain [OF _ d] same_order_holds [OF t'(2) _ t'(3)] by auto
qed

theorem Put_places_pair_witness:
  "\<exists>t'. Put sample (built sample [(1, 1), (2, 2), (3, 3), (4, 4), (5, 5), (6, 6), (7, 7)]) 8 8 = Ok (B_NO_ERROR, None, t')
    \<and> ht_holds sample False 0 t' [(1, 1), (2, 2), (3, 3), (4, 4), (5, 5), (6, 6), (7, 7), (8, 8)]"
proof -
  let ?ps = "[(1, 1), (2, 2), (3, 3), (4, 4), (5, 5), (6, 6), (7, 7)] :: (nat \<times> nat) list"
  have h: "ht_holds sample False 0 (built sample ?ps) ?ps" by (rule built_sample) simp_all
  have "AList.update 8 8 ?ps = ?ps @ [(8, 8)]" by simp
  then show ?thesis using Put_places_pair [OF h sample_ok(1,3), of 8 8] by auto
qed

text \<open>
  \<^verbatim>\<open>Remove\<close> answers with the value of the key, if there is one, and takes the pair out of the order; \<^verbatim>\<open>RemoveFirst\<close> and
  \<^verbatim>\<open>RemoveLast\<close> take the pairs at the ends.
\<close>

theorem Remove_takes_pair:
  assumes "ht_holds C a c t ps" "keq_ok C"
  shows "\<exists>t1 t2 t3. RemoveKey C t k = Ok (map_of ps k, t1) \<and> ht_holds C a c t1 (filter (\<lambda>kv. fst kv \<noteq> k) ps)
    \<and> RemoveFirst C t = Ok (if ps = [] then None else Some (hd ps), t2) \<and> ht_holds C a c t2 (tl ps)
    \<and> RemoveLast C t = Ok (if ps = [] then None else Some (last ps), t3) \<and> ht_holds C a c t3 (butlast ps)"
proof -
  obtain it where t: "ht_rep C t it" "pairs t it = ps" "t_autosort t = a" "t_cookie t = c" by (rule ht_holdsE [OF assms(1)])
  have e: "it = [] \<longleftrightarrow> ps = []" using t(2) by (auto simp: pairs_def)
  obtain t1 it1 where "RemoveKey C t k = Ok (map_of ps k, t1)" "ht_rep C t1 it1" "keep t t1" "pairs t1 it1 = filter (\<lambda>kv. fst kv \<noteq> k) ps"
    using RemoveKey_rep [OF t(1) assms(2), of k] t(2) by metis
  moreover obtain t2 it2 where "RemoveFirst C t = Ok (if ps = [] then None else Some (hd ps), t2)" "ht_rep C t2 it2" "keep t t2" "pairs t2 it2 = tl ps"
    by (rule RemoveFirst_rep [OF t(1)]) (use t(2) e in auto)
  moreover obtain t3 it3 where "RemoveLast C t = Ok (if ps = [] then None else Some (last ps), t3)" "ht_rep C t3 it3" "keep t t3" "pairs t3 it3 = butlast ps"
    by (rule RemoveLast_rep [OF t(1)]) (use t(2) e in auto)
  ultimately show ?thesis using keep_holds t(3,4) by metis
qed

theorem Remove_takes_pair_witness:
  "\<exists>t1 t2. RemoveKey sample (built sample [(1, 5), (2, 6), (8, 7)]) 2 = Ok (Some 6, t1) \<and> ht_holds sample False 0 t1 [(1, 5), (8, 7)]
    \<and> RemoveLast sample (built sample [(1, 5), (2, 6), (8, 7)]) = Ok (Some (8, 7), t2) \<and> ht_holds sample False 0 t2 [(1, 5), (2, 6)]"
proof -
  let ?ps = "[(1, 5), (2, 6), (8, 7)] :: (nat \<times> nat) list"
  have h: "ht_holds sample False 0 (built sample ?ps) ?ps" by (rule built_sample) simp_all
  from Remove_takes_pair [OF h sample_ok(1), of 2] show ?thesis by auto
qed

text \<open>
  \<^verbatim>\<open>EnsureSize\<close>, growing or shrinking, keeps the pairs and their order, and leaves the size that was asked for (at least the number
  of pairs, or the old size when the table may not shrink).
\<close>

theorem EnsureSize_keeps_pairs:
  assumes "ht_holds C a c t ps" "keq_ok C" "\<And>n. n < 2 ^ 32 \<Longrightarrow> c_alloc C n" "req < 2 ^ 32" "allowShrink \<Longrightarrow> 0 < max (length ps) req"
  shows "\<exists>t'. EnsureSize_ht C t req allowShrink = Ok (B_NO_ERROR, t') \<and> ht_holds C a c t' ps
    \<and> t_size t' = max (if allowShrink then length ps else t_size t) req"
proof -
  obtain it where t: "ht_rep C t it" "pairs t it = ps" "t_autosort t = a" "t_cookie t = c" by (rule ht_holdsE [OF assms(1)])
  have l: "length it = length ps" using t(2) by auto
  then have "allowShrink \<Longrightarrow> 0 < max (length it) req" using assms(5) by simp
  from EnsureSize_rep [OF t(1) assms(2,3,4) this] obtain t' it' where "EnsureSize_ht C t req allowShrink = Ok (B_NO_ERROR, t')"
    "ht_rep C t' it'" "pairs t' it' = pairs t it" "same_order t t'" "t_size t' = max (if allowShrink then length it else t_size t) req" by metis
  then show ?thesis using same_order_holds t(2-4) l by metis
qed

theorem EnsureSize_keeps_pairs_witness:
  "\<exists>t'. EnsureSize_ht sample (built sample [(1, 5), (2, 6), (8, 7)]) 0 True = Ok (B_NO_ERROR, t')
    \<and> ht_holds sample False 0 t' [(1, 5), (2, 6), (8, 7)] \<and> t_size t' = 3"
proof -
  let ?ps = "[(1, 5), (2, 6), (8, 7)] :: (nat \<times> nat) list"
  have h: "ht_holds sample False 0 (built sample ?ps) ?ps" by (rule built_sample) simp_all
  have "\<exists>t'. EnsureSize_ht sample (built sample ?ps) 0 True = Ok (B_NO_ERROR, t') \<and> ht_holds sample False 0 t' ?ps
    \<and> t_size t' = max (if True then length ?ps else t_size (built sample ?ps)) 0"
    by (rule EnsureSize_keeps_pairs [OF h sample_ok(1,3)]) simp_all
  then show ?thesis by (simp add: numeral_3_eq_3)
qed

text \<open>
  \<^verbatim>\<open>MoveToFront\<close>, \<^verbatim>\<open>MoveToBack\<close>, \<^verbatim>\<open>MoveToBefore\<close> and \<^verbatim>\<open>MoveToBehind\<close> move the pair of the key to the front, to the back or right
  next to the pair of the other key, and leave the order of the others as it was; they fail without an effect when a key is missing, or
  both keys are the same.
\<close>

theorem Move_reorders:
  assumes "ht_holds C a c t ps" "keq_ok C"
  shows "\<exists>t1 t2 t3. let ok = (k \<in> fst ` set ps \<and> anchor \<in> fst ` set ps \<and> k \<noteq> anchor) in
    MoveToFront C t k = Ok (if k \<in> fst ` set ps then B_NO_ERROR else B_ERROR, t1) \<and> ht_holds C a c t1 (to_front k ps)
    \<and> MoveToBack C t k = Ok (if k \<in> fst ` set ps then B_NO_ERROR else B_ERROR, t2) \<and> ht_holds C a c t2 (to_back k ps)
    \<and> (if behind then MoveToBehind else MoveToBefore) C t k anchor = Ok (if ok then B_NO_ERROR else B_ERROR, t3)
    \<and> ht_holds C a c t3 (if ok then next_to behind k anchor ps else ps)"
proof -
  obtain it where t: "ht_rep C t it" "pairs t it = ps" "t_autosort t = a" "t_cookie t = c" by (rule ht_holdsE [OF assms(1)])
  obtain t1 it1 where t1: "MoveToFront C t k = Ok (if k \<in> fst ` set ps then B_NO_ERROR else B_ERROR, t1)" "ht_rep C t1 it1"
    "pairs t1 it1 = to_front k ps" "keep t t1" using MoveToFront_rep [OF t(1) assms(2), of k] t(2) by metis
  obtain t2 it2 where t2: "MoveToBack C t k = Ok (if k \<in> fst ` set ps then B_NO_ERROR else B_ERROR, t2)" "ht_rep C t2 it2"
    "pairs t2 it2 = to_back k ps" "keep t t2" using MoveToBack_rep [OF t(1) assms(2), of k] t(2) by metis
  let ?ok = "k \<in> fst ` set ps \<and> anchor \<in> fst ` set ps \<and> k \<noteq> anchor"
  obtain t3 it3 where t3: "(if behind then MoveToBehind else MoveToBefore) C t k anchor = Ok (if ?ok then B_NO_ERROR else B_ERROR, t3)"
    "ht_rep C t3 it3" "keep t t3" "pairs t3 it3 = (if ?ok then next_to behind k anchor ps else ps)"
    using MoveTo_anchor_rep [OF t(1) assms(2), of behind k anchor] unfolding t(2) by metis
  have "ht_holds C a c t1 (to_front k ps)" "ht_holds C a c t2 (to_back k ps)" "ht_holds C a c t3 (if ?ok then next_to behind k anchor ps else ps)"
    by (rule keep_holds [OF t1(2-4) t(3,4)], rule keep_holds [OF t2(2-4) t(3,4)], rule keep_holds [OF t3(2,4,3) t(3,4)])
  then show ?thesis using t1(1) t2(1) t3(1) unfolding Let_def by blast
qed

theorem Move_reorders_witness:
  "\<exists>t1 t3. MoveToFront sample (built sample [(1, 5), (2, 6), (8, 7), (9, 4)]) 8 = Ok (B_NO_ERROR, t1)
    \<and> ht_holds sample False 0 t1 [(8, 7), (1, 5), (2, 6), (9, 4)]
    \<and> MoveToBehind sample (built sample [(1, 5), (2, 6), (8, 7), (9, 4)]) 8 1 = Ok (B_NO_ERROR, t3)
    \<and> ht_holds sample False 0 t3 [(1, 5), (8, 7), (2, 6), (9, 4)]"
proof -
  let ?ps = "[(1, 5), (2, 6), (8, 7), (9, 4)] :: (nat \<times> nat) list"
  have h: "ht_holds sample False 0 (built sample ?ps) ?ps" by (rule built_sample) simp_all
  have e: "to_front 8 ?ps = [(8, 7), (1, 5), (2, 6), (9, 4)]" "next_to True 8 1 ?ps = [(1, 5), (8, 7), (2, 6), (9, 4)]"
    by (simp_all add: to_front_def next_to_def Let_def)
  have m: "8 \<in> fst ` set ?ps" "1 \<in> fst ` set ?ps" "(8::nat) \<noteq> 1" by simp_all
  from Move_reorders [OF h sample_ok(1), of 8 1 True] show ?thesis unfolding Let_def e by (simp only: m if_True simp_thms) blast
qed

text \<open>
  \<^verbatim>\<open>MoveToPosition\<close> moves the pair to the index only when the index is in the first half of the table.  In the second half the
  loop that should step back from the tail throws its results away, so the pair always goes to the end.
\<close>

theorem MoveToPosition_second_half:
  assumes "ht_holds C a c t ps" "keq_ok C" "k \<in> fst ` set ps"
  shows "\<exists>t'. MoveToPosition C t k i = Ok (B_NO_ERROR, t')
    \<and> ht_holds C a c t' (if i < length ps div 2
         then take i (filter (\<lambda>kv. fst kv \<noteq> k) ps) @ [(k, the (map_of ps k))] @ drop i (filter (\<lambda>kv. fst kv \<noteq> k) ps)
         else filter (\<lambda>kv. fst kv \<noteq> k) ps @ [(k, the (map_of ps k))])"
proof -
  obtain it where t: "ht_rep C t it" "pairs t it = ps" "t_autosort t = a" "t_cookie t = c" by (rule ht_holdsE [OF assms(1)])
  have d: "distinct (map fst ps)" using distinct_keys [OF t(1)] t(2) by simp
  have m: "filter (\<lambda>kv. fst kv = k) ps = [(k, the (map_of ps k))]" using d assms(3) by (rule filter_present)
  obtain t' it' where p: "MoveToPosition C t k i = Ok (if k \<in> fst ` set (pairs t it) then B_NO_ERROR else B_ERROR, t')" "ht_rep C t' it'"
    "pairs t' it' = (if k \<in> fst ` set (pairs t it) then to_position i k (pairs t it) else pairs t it)" "keep t t'"
    by (rule MoveToPosition_rep [OF t(1) assms(2)])
  have "ht_holds C a c t' (to_position i k ps)"
    by (rule keep_holds [OF p(2) _ p(4) t(3,4)]) (simp only: p(3) t(2) assms(3) if_True)
  moreover have "MoveToPosition C t k i = Ok (B_NO_ERROR, t')" using p(1) assms(3) unfolding t(2) by (simp only: if_True)
  ultimately show ?thesis unfolding to_position_def Let_def m by blast
qed

theorem MoveToPosition_second_half_witness:
  "\<exists>t'. MoveToPosition sample (built sample [(1, 5), (2, 6), (8, 7), (9, 4)]) 1 2 = Ok (B_NO_ERROR, t')
    \<and> ht_holds sample False 0 t' [(2, 6), (8, 7), (9, 4), (1, 5)]"
proof -
  let ?ps = "[(1, 5), (2, 6), (8, 7), (9, 4)] :: (nat \<times> nat) list"
  have h: "ht_holds sample False 0 (built sample ?ps) ?ps" by (rule built_sample) simp_all
  from MoveToPosition_second_half [OF h sample_ok(1), of 1 2] show ?thesis by simp
qed

subsection \<open>Sorting, iterating, comparing, copying\<close>

text \<open>
  C23.  \<^verbatim>\<open>SortByKey\<close> and \<^verbatim>\<open>SortByValue\<close> sort the linked list in place, bottom-up by merging: the result is the stable sort of the pairs.
\<close>

theorem tables_sort_stably:
  assumes "ht_holds C a c t ps" "orders_by (\<lambda>p q. kf (fst p) (fst q) cookie) kg" "orders_by (\<lambda>p q. vf (snd p) (snd q) cookie) vg"
  shows "\<exists>t1 t2. SortByKey kf t cookie = Ok t1 \<and> ht_holds C a c t1 (sort_key kg ps)
    \<and> SortByValue vf t cookie = Ok t2 \<and> ht_holds C a c t2 (sort_key vg ps)"
proof -
  obtain it where t: "ht_rep C t it" "pairs t it = ps" "t_autosort t = a" "t_cookie t = c" by (rule ht_holdsE [OF assms(1)])
  have conf: "t_autosort t' = a \<and> t_cookie t' = c" if "same_slots t t'" for t'
    using that t(3,4) by (auto simp: same_slots_def dest: iter_frameD)
  obtain t1 where t1: "SortBy (entry_cmp (\<lambda>p q. kf (fst p) (fst q) cookie)) t = Ok t1" "ht_rep C t1 (sort_key (\<lambda>i. kg (kv_of t i)) it)" "same_slots t t1"
    "pairs t1 (sort_key (\<lambda>i. kg (kv_of t i)) it) = sort_key kg ps" by (rule SortBy_rep [OF assms(2) t(1), unfolded t(2)])
  obtain t2 where t2: "SortBy (entry_cmp (\<lambda>p q. vf (snd p) (snd q) cookie)) t = Ok t2" "ht_rep C t2 (sort_key (\<lambda>i. vg (kv_of t i)) it)" "same_slots t t2"
    "pairs t2 (sort_key (\<lambda>i. vg (kv_of t i)) it) = sort_key vg ps" by (rule SortBy_rep [OF assms(3) t(1), unfolded t(2)])
  have "SortByKey kf t cookie = Ok t1" "SortByValue vf t cookie = Ok t2"
    using t1(1) t2(1) by (simp_all add: SortByKey_def SortByValue_def entry_cmp_def [abs_def])
  then show ?thesis using ht_holdsI [OF t1(2,4)] ht_holdsI [OF t2(2,4)] conf [OF t1(3)] conf [OF t2(3)] by blast
qed

theorem tables_sort_stably_witness:
  "\<exists>t1 t2. SortByKey (\<lambda>a b _. muscleCompare a b) (built sample [(4, 5), (2, 6), (8, 5)]) 0 = Ok t1 \<and> ht_holds sample False 0 t1 [(2, 6), (4, 5), (8, 5)]
    \<and> SortByValue (\<lambda>a b _. muscleCompare a b) (built sample [(4, 5), (2, 6), (8, 5)]) 0 = Ok t2 \<and> ht_holds sample False 0 t2 [(4, 5), (8, 5), (2, 6)]"
proof -
  let ?ps = "[(4, 5), (2, 6), (8, 5)] :: (nat \<times> nat) list" and ?f = "\<lambda>(a :: nat) b (c :: nat). muscleCompare a b"
  have h: "ht_holds sample False 0 (built sample ?ps) ?ps" by (rule built_sample) simp_all
  have o: "orders_by (\<lambda>p q. ?f (fst p) (fst q) 0) (fst :: nat \<times> nat \<Rightarrow> nat)" "orders_by (\<lambda>p q. ?f (snd p) (snd q) 0) (snd :: nat \<times> nat \<Rightarrow> nat)"
    by (auto simp: orders_by_def by_key_def muscleCompare_def)
  have "sort_key fst ?ps = [(2, 6), (4, 5), (8, 5)]" "sort_key snd ?ps = [(4, 5), (8, 5), (2, 6)]" by (simp_all add: sort_key_def)
  with tables_sort_stably [where kf = ?f and vf = ?f, OF h o] show ?thesis by metis
qed

text \<open>
  C31.  A caller's loop with an iterator sees every pair once, in order, and may remove the current pair from the table while it goes:
  after the removal the iterator still has data and gives the same key and value, until it is moved on; and the table is left with the
  pairs that were not removed.  The iterator is a new one of the table, which goes forwards and is registered there: either no other
  iterator is registered, or the registered ones belong to the thread of the caller (another thread's iterator would not be told of
  the removal), and each of them is on the table's list once.
\<close>

theorem iterate_and_remove:
  assumes "ht_holds C a c t ps" "keq_ok C" "n \<notin> set (t_iters t)" "distinct (t_iters t)" "t_icount t = 0 \<or> t_ithread t = Some tid"
  shows "\<exists>t'. visit C rm (Suc (length ps)) (IteratorStart tid t n False False) n = Ok (map (\<lambda>kv. (kv, True, kv)) ps, t') \<and> ht_holds C a c t' (filter (\<lambda>kv. \<not> rm kv) ps)"
proof -
  obtain it where t: "ht_rep C t it" "pairs t it = ps" "t_autosort t = a" "t_cookie t = c" by (rule ht_holdsE [OF assms(1)])
  note s = IteratorStart_at [OF t(1) assms(3,4,5)]
  have r: "ht_rep C (IteratorStart tid t n False False) ([] @ it)" using s(2) by simp
  have "length it < Suc (length ps)" using t(2) by auto
  from visit_rep [OF r s(1) assms(2) this, of rm] obtain t' us where
    "visit C rm (Suc (length ps)) (IteratorStart tid t n False False) n = Ok (map still_there ps, t')" "ht_rep C t' us"
    "same_order (IteratorStart tid t n False False) t'" "pairs t' us = filter (\<lambda>kv. \<not> rm kv) ps" using s(5) t(2) by auto
  moreover have "map still_there ps = map (\<lambda>kv. (kv, True, kv)) ps" by (simp add: still_there_def)
  ultimately show ?thesis using same_order_holds s(3,4) t(3,4) by metis
qed

theorem iterate_and_remove_witness:
  "\<exists>t'. visit sample (\<lambda>kv. snd kv = 5) 4 (IteratorStart 1 (built sample [(4, 5), (2, 6), (8, 5)]) 0 False False) 0 =
      Ok ([((4, 5), True, (4, 5)), ((2, 6), True, (2, 6)), ((8, 5), True, (8, 5))], t')
    \<and> ht_holds sample False 0 t' [(2, 6)]"
proof -
  let ?ps = "[(4, 5), (2, 6), (8, 5)] :: (nat \<times> nat) list"
  have h: "ht_holds sample False 0 (built sample ?ps) ?ps" by (rule built_sample) simp_all
  have i: "t_iters (built sample ?ps) = []" "t_icount (built sample ?ps) = 0" using built_no_iters [OF sample_ok(1,3), of ?ps] by simp_all
  have "0 \<notin> set (t_iters (built sample ?ps))" "distinct (t_iters (built sample ?ps))"
    "t_icount (built sample ?ps) = 0 \<or> t_ithread (built sample ?ps) = Some 1" unfolding i by simp_all
  from iterate_and_remove [OF h sample_ok(1) this, of "\<lambda>kv. snd kv = 5"] show ?thesis by (simp add: eval_nat_numeral)
qed

text \<open>
  \<^verbatim>\<open>IsEqualTo\<close> without the ordering compares the two tables as maps.  With the ordering it compares only the values along both
  tables: two tables with different keys count as equal.
\<close>

theorem IsEqualTo_compares:
  assumes "ht_holds C a c t ps" "ht_holds C b d u qs" "keq_ok C" "veq_ok C"
  shows "IsEqualTo C t u False False = Ok (map_of ps = map_of qs) \<and> IsEqualTo C t u False True = Ok (map snd ps = map snd qs)"
proof -
  obtain it where t: "ht_rep C t it" "pairs t it = ps" by (rule ht_holdsE [OF assms(1)])
  obtain jt where u: "ht_rep C u jt" "pairs u jt = qs" by (rule ht_holdsE [OF assms(2)])
  show ?thesis using IsEqualTo_rep [OF t(1) u(1) assms(3,4)] IsEqualTo_ordered_rep [OF t(1) u(1) assms(4)] t(2) u(2) by simp
qed

theorem IsEqualTo_compares_witness:
  "IsEqualTo sample (built sample [(4, 5), (2, 6)]) (built sample [(2, 6), (4, 5)]) False False = Ok True
    \<and> IsEqualTo sample (built sample [(4, 5), (2, 6)]) (built sample [(7, 5), (8, 6)]) False True = Ok True"
proof -
  have h: "ht_holds sample False 0 (built sample [(4, 5), (2, 6)]) [(4, 5), (2, 6)]" "ht_holds sample False 0 (built sample [(2, 6), (4, 5)]) [(2, 6), (4, 5)]"
    "ht_holds sample False 0 (built sample [(7, 5), (8, 6)]) [(7, 5), (8, 6)]" by (rule built_sample; simp)+
  have "map_of [(4, 5), (2, 6)] = (map_of [(2, 6), (4, 5)] :: nat \<rightharpoonup> nat)" by (simp add: fun_upd_twist)
  then show ?thesis
    using IsEqualTo_compares [OF h(1,2) sample_ok(1,2)] IsEqualTo_compares [OF h(1,3) sample_ok(1,2)] by simp
qed

text \<open>
  \<^verbatim>\<open>CopyFrom\<close> puts the pairs of the other table one after the other into this one (which it clears first, when asked to); an ordered
  table sorts itself afterwards.
\<close>

theorem CopyFrom_ht_merges:
  assumes "ht_holds C a c t ps" "ht_holds C b d rhs qs" "keq_ok C" "\<And>n. n < 2 ^ 32 \<Longrightarrow> c_alloc C n" "length ps + length qs < 2 ^ 32"
    "is_ordered (c_sub C) \<Longrightarrow> orders_by (ecmp C c) g" "qs \<noteq> []"
  shows "\<exists>t'. CopyFrom_ht C t rhs False clearFirst = Ok (B_NO_ERROR, t')
    \<and> ht_holds C a c t' (own_order C g (copy_pairs qs (if clearFirst then [] else ps)))"
proof -
  obtain it where t: "ht_rep C t it" "pairs t it = ps" "t_autosort t = a" "t_cookie t = c" by (rule ht_holdsE [OF assms(1)])
  obtain jt where u: "ht_rep C rhs jt" "pairs rhs jt = qs" by (rule ht_holdsE [OF assms(2)])
  have l: "length it + length jt < 2 ^ 32" "jt \<noteq> []" using assms(5,7) t(2) u(2) by (auto simp: pairs_def)
  have o: "is_ordered (c_sub C) \<Longrightarrow> orders_by (ecmp C (t_cookie t)) g" using assms(6) t(4) by simp
  obtain t' it' where "CopyFrom_ht C t rhs False clearFirst = Ok (B_NO_ERROR, t')" "ht_rep C t' it'"
    "pairs t' it' = own_order C g (copy_pairs qs (if clearFirst then [] else ps))" "t_autosort t' = t_autosort t" "t_cookie t' = t_cookie t"
    by (rule CopyFrom_rep [OF t(1) u(1) assms(3,4) l(1) o l(2), of clearFirst, unfolded t(2) u(2)])
  then show ?thesis using ht_holdsI t(3,4) by metis
qed

theorem CopyFrom_ht_merges_witness:
  "\<exists>t'. CopyFrom_ht sample (built sample [(4, 5), (2, 6)]) (built sample [(2, 9), (3, 1)]) False False = Ok (B_NO_ERROR, t')
    \<and> ht_holds sample False 0 t' [(4, 5), (2, 9), (3, 1)]"
proof -
  have h: "ht_holds sample False 0 (built sample [(4, 5), (2, 6)]) [(4, 5), (2, 6)]" "ht_holds sample False 0 (built sample [(2, 9), (3, 1)]) [(2, 9), (3, 1)]"
    by (rule built_sample; simp)+
  have "\<exists>t'. CopyFrom_ht sample (built sample [(4, 5), (2, 6)]) (built sample [(2, 9), (3, 1)]) False False = Ok (B_NO_ERROR, t')
    \<and> ht_holds sample False 0 t' (own_order sample fst (copy_pairs [(2, 9), (3, 1)] (if False then [] else [(4, 5), (2, 6)])))"
    by (rule CopyFrom_ht_merges [OF h sample_ok(1,3)]) simp_all
  then show ?thesis by (simp add: own_order_def copy_pairs_def)
qed

text \<open>
  \<^verbatim>\<open>Remove\<close> of a whole table takes out the pairs whose keys are in the other table, and returns how many they were.
\<close>

theorem RemovePairs_subtracts:
  assumes "ht_holds C a c t ps" "ht_holds C b d rhs qs" "keq_ok C"
  shows "\<exists>t'. let rest = filter (\<lambda>kv. fst kv \<notin> fst ` set qs) ps in
    RemovePairs C t rhs False = Ok (length ps - length rest, t') \<and> ht_holds C a c t' rest"
proof -
  obtain it where t: "ht_rep C t it" "pairs t it = ps" "t_autosort t = a" "t_cookie t = c" by (rule ht_holdsE [OF assms(1)])
  obtain jt where u: "ht_rep C rhs jt" "pairs rhs jt = qs" by (rule ht_holdsE [OF assms(2)])
  obtain t' it' where p: "RemovePairs C t rhs False = Ok (length ps - length (pairs t' it'), t')" "ht_rep C t' it'" "keep t t'"
    "pairs t' it' = filter (\<lambda>kv. fst kv \<notin> fst ` set qs) ps" by (rule RemovePairs_rep [OF t(1) u(1) assms(3), unfolded t(2) u(2)])
  have "ht_holds C a c t' (filter (\<lambda>kv. fst kv \<notin> fst ` set qs) ps)" by (rule keep_holds [OF p(2,4,3) t(3,4)])
  then show ?thesis using p(1) unfolding Let_def p(4) by blast
qed

theorem RemovePairs_subtracts_witness:
  "\<exists>t'. RemovePairs sample (built sample [(4, 5), (2, 6), (9, 9)]) (built sample [(2, 9), (3, 1)]) False = Ok (1, t')
    \<and> ht_holds sample False 0 t' [(4, 5), (9, 9)]"
proof -
  have h: "ht_holds sample False 0 (built sample [(4, 5), (2, 6), (9, 9)]) [(4, 5), (2, 6), (9, 9)]"
    "ht_holds sample False 0 (built sample [(2, 9), (3, 1)]) [(2, 9), (3, 1)]" by (rule built_sample; simp)+
  from RemovePairs_subtracts [OF h sample_ok(1)] show ?thesis by (simp add: Let_def)
qed

subsection \<open>Errors and undefined behaviour\<close>

text \<open>
  When no memory can be had, \<^verbatim>\<open>Put\<close> still succeeds if the array exists and the key is in it or a slot is free; otherwise it
  returns an error, and the table holds what it held.
\<close>

theorem Put_without_memory:
  assumes "ht_holds C a c t ps" "keq_ok C" "\<And>n. \<not> c_alloc C n" "t_size t < 2 ^ 31"
  shows "\<exists>t'. let ok = (t_table t \<noteq> None \<and> (k \<in> fst ` set ps \<or> length ps < t_size t)) in
    Put C t k v = Ok (if ok then (B_NO_ERROR, map_of ps k, t') else (B_ERROR, None, t'))
    \<and> ht_holds C a c t' (if ok then put_pairs C a c k v ps else ps)"
proof -
  obtain it where t: "ht_rep C t it" "pairs t it = ps" "t_autosort t = a" "t_cookie t = c" by (rule ht_holdsE [OF assms(1)])
  have l: "length it = length ps" using t(2) by auto
  show ?thesis
  proof (cases "t_table t \<noteq> None \<and> (k \<in> fst ` set ps \<or> length ps < t_size t)")
    case True
    then have n: "t_table t \<noteq> None" "k \<in> fst ` set (pairs t it) \<or> length it < t_size t" using t(2) l by simp_all
    obtain t' it' where p: "Put C t k v = Ok (B_NO_ERROR, map_of (pairs t it) k, t')" "ht_rep C t' it'" "same_order t t'"
      "pairs t' it' = put_pairs C (t_autosort t) (t_cookie t) k v (pairs t it)" by (rule Put_enough_room [OF t(1) assms(2) n])
    have "ht_holds C a c t' (put_pairs C a c k v ps)" using same_order_holds [OF p(2) p(4) p(3) t(3,4)] unfolding t(2-4) .
    then show ?thesis using p(1) unfolding Let_def t(2) if_P [OF True] by blast
  next
    case False
    have "length it \<le> t_size t" using rep_bounds(1) [OF t(1)] by simp
    then have n: "t_table t = None \<or> k \<notin> fst ` set (pairs t it) \<and> length it = t_size t" using False l t(2) by auto
    obtain t' where p: "Put C t k v = Ok (B_ERROR, None, t')" "ht_rep C t' it" "pairs t' it = pairs t it" "same_order t t'"
      by (rule Put_no_memory [OF t(1) assms(2,3,4) n])
    have "ht_holds C a c t' ps" using same_order_holds [OF p(2) p(3) p(4) t(3,4)] unfolding t(2) .
    then show ?thesis using p(1) unfolding Let_def if_not_P [OF False] by blast
  qed
qed

theorem Put_without_memory_witness:
  "\<exists>t'. Put (sample\<lparr>c_alloc := (\<lambda>_. False)\<rparr>) (DefaultTable sample no_iters) 4 5 = Ok (B_ERROR, None, t')
    \<and> ht_holds (sample\<lparr>c_alloc := (\<lambda>_. False)\<rparr>) False 0 t' []"
proof -
  let ?C = "sample\<lparr>c_alloc := (\<lambda>_. False)\<rparr>"
  have d: "DefaultTable sample no_iters = DefaultTable ?C no_iters" by (simp add: DefaultTable_def sample_def)
  have h: "ht_holds ?C False 0 (DefaultTable ?C no_iters) []" using DefaultTable_holds [of ?C no_iters] by (simp add: sample_def)
  have k: "keq_ok ?C" "\<not> c_alloc ?C n" for n by (simp_all add: keq_ok_def sample_def)
  have t: "t_table (DefaultTable ?C no_iters) = None" "t_size (DefaultTable ?C no_iters) < 2 ^ 31"
    by (simp_all add: DefaultTable_def NewTable_def HASHTABLE_DEFAULT_CAPACITY_def)
  from Put_without_memory [OF h k t(2), of 4 5] show ?thesis unfolding d by (simp add: Let_def t(1))
qed

text \<open>A full table, for the next two witnesses: an array that has been shrunk to its pairs.\<close>

lemma full_sample:
  obtains t where "ht_holds sample False 0 t [(1, 5), (2, 6), (8, 7)]" "t_size t = 3" "t_iters t = []" "t_icount t = 0"
proof -
  let ?ps = "[(1, 5), (2, 6), (8, 7)] :: (nat \<times> nat) list"
  have "ht_holds sample False 0 (built sample ?ps) ?ps" by (rule built_sample) simp_all
  then obtain it where t: "ht_rep sample (built sample ?ps) it" "pairs (built sample ?ps) it = ?ps"
    "t_autosort (built sample ?ps) = False" "t_cookie (built sample ?ps) = 0" by (rule ht_holdsE)
  have l: "length it = 3" using arg_cong [OF t(2), of length] by simp
  then have m: "True \<Longrightarrow> 0 < max (length it) 0" by simp
  obtain t' it' where t': "ht_rep sample t' it'" "pairs t' it' = pairs (built sample ?ps) it" "same_order (built sample ?ps) t'"
    "t_size t' = max (if True then length it else t_size (built sample ?ps)) 0"
    by (rule EnsureSize_rep [OF t(1) sample_ok(1,3) _ m, where allowShrink = True]) (simp, simp, rule that)
  have "ht_holds sample False 0 t' ?ps" using same_order_holds [OF t'(1,2,3) t(3,4)] unfolding t(2) .
  moreover have "t_iters t' = []" "t_icount t' = 0"
    using built_no_iters [OF sample_ok(1,3), of ?ps] t'(3) by (simp_all add: same_order_def)
  ultimately show ?thesis using that t'(4) l by simp
qed

text \<open>
  \<^verbatim>\<open>table.Put(newKey, table[oldKey])\<close>, where the value to put is a reference into the table itself: when the table is full, the value
  is read after the old array has been freed.
\<close>

theorem Put_own_value_faults:
  assumes "ht_holds C a c t ps" "keq_ok C" "\<And>n. n < 2 ^ 32 \<Longrightarrow> c_alloc C n" "length ps = t_size t" "k \<notin> fst ` set ps" "t_size t < 2 ^ 31"
  shows "PutAux C 3 t (ComputeHash C k) k (VIn e) = Fault"
proof -
  obtain it where t: "ht_rep C t it" "pairs t it = ps" by (rule ht_holdsE [OF assms(1)])
  have "length it = t_size t" "k \<notin> fst ` set (pairs t it)" using assms(4,5) t(2) by auto
  then show ?thesis using PutAux_own_value [OF t(1) assms(2,3)] assms(6) by blast
qed

theorem Put_own_value_faults_witness:
  "\<exists>t. ht_holds sample False 0 t [(1, 5), (2, 6), (8, 7)] \<and> PutAux sample 3 t (ComputeHash sample 4) 4 (VIn 0) = Fault"
proof -
  obtain t where t: "ht_holds sample False 0 t [(1, 5), (2, 6), (8, 7)]" "t_size t = 3" by (rule full_sample)
  have "PutAux sample 3 t (ComputeHash sample 4) 4 (VIn 0) = Fault"
    by (rule Put_own_value_faults [OF t(1) sample_ok(1,3)]) (simp_all add: t(2))
  then show ?thesis using t(1) by blast
qed

text \<open>
  C38.  When a put has to grow the array while an iterator is at a pair, the iterator is redirected to the pair's new place, but the pointers
  that its \<^verbatim>\<open>GetKey\<close> and \<^verbatim>\<open>GetValue\<close> follow still point into the array that has been freed.
  Shown for a registered iterator at the first pair, a full table of less than \<open>2 ^ 31\<close> slots, and enough memory.
\<close>

theorem growth_leaves_iterator_dangling:
  assumes "ht_holds C a c t ps" "keq_ok C" "\<And>n. n < 2 ^ 32 \<Longrightarrow> c_alloc C n" "length ps = t_size t" "k \<notin> fst ` set ps" "t_size t < 2 ^ 31"
    "n \<notin> set (t_iters t)" "distinct (t_iters t)" "t_icount t = 0 \<or> t_ithread t = Some tid"
  shows "IterKeyValue (IteratorStart tid t n False False) n = Ok (hd ps)
    \<and> (\<exists>t' f. Put C (IteratorStart tid t n False False) k v = Ok (B_NO_ERROR, None, t')
      \<and> HasData t' n \<and> i_cookie (t_objs t' n) = EAt f \<and> deref_eptr t' (EAt f) = Ok (hd ps) \<and> IterKeyValue t' n = Fault)"
proof -
  obtain it where t: "ht_rep C t it" "pairs t it = ps" by (rule ht_holdsE [OF assms(1)])
  let ?s = "IteratorStart tid t n False False"
  note s = IteratorStart_at [OF t(1) assms(7,8,9)]
  have l: "length it = t_size t" using assms(4) t(2) by auto
  obtain e ws where it: "it = e # ws" using l rep_bounds(3) [OF t(1)] by (cases it) auto
  have sz: "t_size ?s = t_size t" using IteratorStart_core [of t tid n False False] by (simp add: same_core_def)
  have r: "ht_rep C ?s ([] @ e # ws)" using s(2) it by simp
  have hd: "hd ps = kv_of ?s e" using s(5) t(2) it by (auto simp: pairs_def)
  have nw: "k \<notin> fst ` set (pairs ?s ([] @ e # ws))" using assms(5) s(5) t(2) it by simp
  obtain t' it' f where p: "Put C ?s k v = Ok (B_NO_ERROR, None, t')" "ht_rep C t' it'" "HasData t' n" "IterKeyValue t' n = Fault"
    "i_cookie (t_objs t' n) = EAt f" "f \<in> set it'" "kv_of t' f = kv_of ?s e"
    by (rule Put_full_dangles [OF r s(1) [unfolded it] assms(2,3) _ nw]) (use l it sz assms(6) in simp_all)
  obtain us vs where it': "it' = us @ f # vs" using split_list [OF p(6)] by blast
  have "ht_alloc C t' (us @ f # vs)" using p(2) it' by (simp add: ht_rep_def)
  from alloc_links(1) [OF this] have "deref_eptr t' (EAt f) = Ok (hd ps)" using p(7) hd by (simp add: deref_eptr_def ky_def vl_def)
  moreover have "ht_alloc C ?s ([] @ e # ws)" using r by (simp add: ht_rep_def)
  then have "IterKeyValue ?s n = Ok (hd ps)" using at_entries_read(2) [OF s(1) it] alloc_links(1) hd by metis
  ultimately show ?thesis using p by blast
qed

theorem growth_leaves_iterator_dangling_witness:
  "\<exists>t t'. ht_holds sample False 0 t [(1, 5), (2, 6), (8, 7)] \<and> IterKeyValue (IteratorStart 1 t 0 False False) 0 = Ok (1, 5)
    \<and> Put sample (IteratorStart 1 t 0 False False) 4 4 = Ok (B_NO_ERROR, None, t') \<and> HasData t' 0 \<and> IterKeyValue t' 0 = Fault"
proof -
  obtain t where t: "ht_holds sample False 0 t [(1, 5), (2, 6), (8, 7)]" "t_size t = 3" "t_iters t = []" "t_icount t = 0" by (rule full_sample)
  have c: "length [(1 :: nat, 5 :: nat), (2, 6), (8, 7)] = t_size t" "4 \<notin> fst ` set [(1 :: nat, 5 :: nat), (2, 6), (8, 7)]" "t_size t < 2 ^ 31"
    "0 \<notin> set (t_iters t)" "distinct (t_iters t)" "t_icount t = 0 \<or> t_ithread t = Some 1" using t by simp_all
  from growth_leaves_iterator_dangling [OF t(1) sample_ok(1,3) c, of 4] show ?thesis using t(1) by auto
qed

text \<open>
  Two faults on an empty table: \<^verbatim>\<open>ShrinkToFit\<close> leaves it with a size of zero, and the next put writes in front of an array of no
  entries; \<^verbatim>\<open>RemoveLast(key, value)\<close> follows the NULL pointer to the last entry.
\<close>

theorem empty_tables_fault:
  assumes "ht_holds C a c t []" "c_alloc C 0"
  shows "(\<exists>t'. ShrinkToFit_ht C t 0 = Ok (B_NO_ERROR, t') \<and> Put C t' k v = Fault) \<and> RemoveLastKeyAndValue C t = Fault"
proof -
  obtain it where t: "ht_rep C t it" "pairs t it = []" by (rule ht_holdsE [OF assms(1)])
  then have r: "ht_rep C t []" by (simp add: pairs_def)
  obtain t' where t': "ShrinkToFit_ht C t 0 = Ok (B_NO_ERROR, t')" "t_size t' = 0" "t_table t' = None" by (rule ShrinkToFit_empty [OF r])
  have "Put C t' k v = Fault" by (rule Put_size_zero [OF t'(2,3) assms(2)])
  then show ?thesis using t'(1) RemoveLastKeyAndValue_rep(1) [OF r] by blast
qed

theorem empty_tables_fault_witness:
  "\<exists>t'. ShrinkToFit_ht sample (DefaultTable sample no_iters) 0 = Ok (B_NO_ERROR, t') \<and> Put sample t' 4 5 = Fault
    \<and> RemoveLastKeyAndValue sample (DefaultTable sample no_iters) = Fault"
proof -
  have "ht_holds sample False 0 (DefaultTable sample no_iters) []" using DefaultTable_holds [of sample no_iters] by simp
  from empty_tables_fault [OF this, of 4 5] show ?thesis by simp
qed

end
