(* ===== verification/Muscle_Hash.thy ===== *)
theory Muscle_Hash
  imports Muscle_Base
begin

section \<open>The hash function and the checksums\<close>

text \<open>
  \<^verbatim>\<open>CalculateHashCode\<close> of \<^verbatim>\<open>source/muscle/system/SetupSystem.cpp\<close> (MurmurHash2 in the variant
  that reads only aligned words) and the checksums of \<^verbatim>\<open>source/muscle/support/MuscleSupport.h\<close>
  that are defined by it.  \<open>bs\<close> is the list of the \<^verbatim>\<open>numBytes\<close> bytes at \<^verbatim>\<open>key\<close>, \<open>align\<close> the address
  of the first one modulo 4 and \<open>big\<close> says that the host is big-endian, so that a 32-bit load has
  the first byte as its most significant one.

  The documentation promises a hash value of the hashed data: the value must not depend on where
  the data is in memory.  The lemma \<open>hash_alignment\<close> shows it for little-endian hosts.
\<close>

unbundle bit_operations_syntax

subsection \<open>Bytes and words\<close>

text \<open>
  The bytes of a list with the first one lowest: what the switches with their falling-through
  cases put together, \<^verbatim>\<open>d |= data[2] << 16; d |= data[1] << 8; d |= data[0]\<close>.
\<close>

fun bytes_u32 :: "u8 list \<Rightarrow> u32" where
  "bytes_u32 [] = 0"
| "bytes_u32 (b # bs) = ucast b OR push_bit 8 (bytes_u32 bs)"

definition load_u32 :: "bool \<Rightarrow> u8 list \<Rightarrow> u32" where
  "load_u32 big bs = bytes_u32 (if big then rev (take 4 bs) else take 4 bs)"

lemma bytes_u32_append:
  "bytes_u32 (xs @ ys) = bytes_u32 xs OR push_bit (8 * length xs) (bytes_u32 ys)"
  by (induction xs) (simp_all add: push_bit_or ac_simps)

lemma bytes_u32_bound: "8 * length xs \<le> n \<Longrightarrow> drop_bit n (bytes_u32 xs) = 0"
proof (induction xs arbitrary: n)
  case (Cons x xs)
  have "drop_bit n (ucast x :: u32) = 0"
    by (rule bit_word_eqI) (use Cons.prems in \<open>auto simp: bit_simps dest: bit_imp_le_length\<close>)
  moreover have "drop_bit n (push_bit 8 (bytes_u32 xs)) = 0"
  proof (rule bit_word_eqI)
    fix i assume i: "i < LENGTH(32)"
    have "drop_bit (n - 8) (bytes_u32 xs) = 0" using Cons by (intro Cons.IH) simp
    then have "\<not> bit (drop_bit (n - 8) (bytes_u32 xs)) i" by simp
    then show "bit (drop_bit n (push_bit 8 (bytes_u32 xs))) i = bit (0 :: u32) i"
      using Cons.prems by (auto simp: bit_simps)
  qed
  ultimately show ?case by (simp add: drop_bit_or)
qed simp

lemma bytes_u32_shift:
  assumes "k + length ys \<le> 4"
  shows "drop_bit (8 * k) (push_bit (8 * k) (bytes_u32 ys)) = bytes_u32 ys"
proof (rule bit_word_eqI)
    fix i assume "i < LENGTH(32)"
    have "8 * k + i < 32" if "bit (bytes_u32 ys) i"
    proof (rule ccontr)
      assume "\<not> 8 * k + i < 32"
      then have "drop_bit i (bytes_u32 ys) = 0" using assms by (intro bytes_u32_bound) simp
      then have "\<not> bit (drop_bit i (bytes_u32 ys)) 0" by simp
      with that show False by (simp add: bit_simps)
    qed
    then show "bit (drop_bit (8 * k) (push_bit (8 * k) (bytes_u32 ys))) i = bit (bytes_u32 ys) i"
      by (auto simp: bit_simps)
qed

lemma bytes_u32_drop:
  assumes "length xs + length ys \<le> 4"
  shows "drop_bit (8 * length xs) (bytes_u32 (xs @ ys)) = bytes_u32 ys"
  using bytes_u32_shift [OF assms] by (simp add: bytes_u32_append drop_bit_or bytes_u32_bound)

subsection \<open>The hash function\<close>

definition murmur_m :: u32 where "murmur_m = 0x5bd1e995"

text \<open>\<^verbatim>\<open>MURMUR2_MIX\<close> with \<^verbatim>\<open>r = 24\<close>.\<close>

definition MURMUR2_MIX :: "u32 \<Rightarrow> u32 \<Rightarrow> u32" where
  "MURMUR2_MIX h k =
     (let k1 = k * murmur_m; k2 = k1 XOR drop_bit 24 k1; k3 = k2 * murmur_m
      in h * murmur_m XOR k3)"

text \<open>The loop over the words, on aligned data and with the shift registers.\<close>

fun mix_words :: "bool \<Rightarrow> u32 \<Rightarrow> u8 list \<Rightarrow> u32 \<times> u8 list" where
  "mix_words big h (a # b # c # d # data) = mix_words big (MURMUR2_MIX h (load_u32 big [a, b, c, d])) data"
| "mix_words big h data = (h, data)"

fun mix_shifted :: "bool \<Rightarrow> nat \<Rightarrow> u32 \<Rightarrow> u32 \<Rightarrow> u8 list \<Rightarrow> u32 \<times> u32 \<times> u8 list" where
  "mix_shifted big align h t (a # b # c # d # data) =
     (let w = load_u32 big [a, b, c, d]
      in mix_shifted big align
           (MURMUR2_MIX h (drop_bit (8 * align) t OR push_bit (8 * (4 - align)) w)) w data)"
| "mix_shifted big align h t data = (h, t, data)"

text \<open>The switch over the tail bytes.\<close>

fun mix_tail :: "u32 \<Rightarrow> u8 list \<Rightarrow> u32" where
  "mix_tail h [a, b, c] =
     (h XOR push_bit 16 (ucast c) XOR push_bit 8 (ucast b) XOR ucast a) * murmur_m"
| "mix_tail h [a, b] = (h XOR push_bit 8 (ucast b) XOR ucast a) * murmur_m"
| "mix_tail h [a] = (h XOR ucast a) * murmur_m"
| "mix_tail h _ = h"

text \<open>What is left in the register \<^verbatim>\<open>t\<close> after the loop, with the bytes behind it.\<close>

definition mix_leftover :: "nat \<Rightarrow> u32 \<Rightarrow> u32 \<Rightarrow> u8 list \<Rightarrow> u32" where
  "mix_leftover align h t data =
     (if align \<le> length data
      then mix_tail (MURMUR2_MIX h (drop_bit (8 * align) t
                       OR push_bit (8 * (4 - align)) (bytes_u32 (take align data)))) (drop align data)
      else (h XOR (drop_bit (8 * align) t OR push_bit (8 * (4 - align)) (bytes_u32 data))) * murmur_m)"

definition mix_final :: "u32 \<Rightarrow> u32" where
  "mix_final h =
     (let h1 = h XOR drop_bit 13 h; h2 = h1 * murmur_m in h2 XOR drop_bit 15 h2)"

definition CalculateHashCode :: "bool \<Rightarrow> nat \<Rightarrow> u8 list \<Rightarrow> u32 \<Rightarrow> u32" where
  "CalculateHashCode big align bs seed =
     (let h = seed XOR word_of_nat (length bs) in
      if align \<noteq> 0 \<and> 4 \<le> length bs then
        (let t = push_bit (8 * align) (bytes_u32 (take (4 - align) bs));
             (h', t', data) = mix_shifted big align h t (drop (4 - align) bs)
         in mix_final (mix_leftover align h' t' data))
      else
        (let (h', data) = mix_words big h bs in mix_final (mix_tail h' data)))"

subsection \<open>The hash value does not depend on the alignment\<close>

lemma mix_tail_bytes:
  "length data < 4 \<Longrightarrow>
   mix_tail h data = (if data = [] then h else (h XOR bytes_u32 data) * murmur_m)"
proof (cases "(h, data)" rule: mix_tail.cases)
  case (1 h a b c)
  have "push_bit 16 (ucast c) XOR push_bit 8 (ucast b) XOR ucast a = bytes_u32 [a, b, c]"
    by (rule bit_word_eqI) (auto simp: bit_simps dest: bit_imp_le_length)
  then show ?thesis using 1 by (simp add: xor.assoc)
next
  case (2 h a b)
  have "push_bit 8 (ucast b) XOR ucast a = bytes_u32 [a, b]"
    by (rule bit_word_eqI) (auto simp: bit_simps dest: bit_imp_le_length)
  then show ?thesis using 2 by (simp add: xor.assoc)
qed auto

text \<open>A word that is put together from the register and the next word of the memory.\<close>

lemma shifted_word:
  assumes "drop_bit (8 * length x) t = bytes_u32 p" "length p + length x = 4"
  shows "drop_bit (8 * length x) t OR push_bit (8 * length p) (bytes_u32 (x @ y)) = bytes_u32 (p @ x)"
proof -
  have "push_bit (8 * length p) (push_bit (8 * length x) (bytes_u32 y)) = (0 :: u32)"
    by (rule bit_word_eqI) (use assms(2) in \<open>auto simp: bit_simps\<close>)
  then show ?thesis
    using assms by (simp add: bytes_u32_append push_bit_or)
qed

lemma split_at: "k \<le> length xs \<Longrightarrow> \<exists>x y. xs = x @ y \<and> length x = k"
  by (metis append_take_drop_id length_take min.absorb2)

lemma mix_words_short: "length data < 4 \<Longrightarrow> mix_words big h data = (h, data)"
  by (cases "(big, h, data)" rule: mix_words.cases) auto

lemma four_bytes: "length xs = 4 \<Longrightarrow> \<exists>a b c d. xs = [a, b, c, d]"
  by (auto simp: numeral_eq_Suc length_Suc_conv)

lemma mix_words_4: "length xs = 4 \<Longrightarrow>
  mix_words False h (xs @ data) = mix_words False (MURMUR2_MIX h (bytes_u32 xs)) data"
  using four_bytes [of xs] by (auto simp: load_u32_def)

lemma mix_leftover_words:
  assumes "drop_bit (8 * align) t = bytes_u32 p" "length p + align = 4" "align < 4" "length data < 4"
  shows "mix_leftover align h t data =
    (let (h', data') = mix_words False h (p @ data) in mix_tail h' data')"
proof (cases "align \<le> length data")
  case True
  let ?x = "take align data" and ?y = "drop align data"
  have lx: "length ?x = align" using True by simp
  have lp: "length p = 4 - align" using assms(2) by simp
  have k: "drop_bit (8 * align) t OR push_bit (8 * (4 - align)) (bytes_u32 ?x) = bytes_u32 (p @ ?x)"
    using shifted_word [of ?x t p "[]"] assms(1,2) lx lp by simp
  have "mix_words False h ((p @ ?x) @ ?y) = mix_words False (MURMUR2_MIX h (bytes_u32 (p @ ?x))) ?y"
    by (rule mix_words_4) (use lx assms(2) in simp)
  then have w: "mix_words False h (p @ data) = mix_words False (MURMUR2_MIX h (bytes_u32 (p @ ?x))) ?y"
    by simp
  have "length ?y < 4" using assms(4) by simp
  then show ?thesis unfolding w using True k by (simp add: mix_leftover_def mix_words_short)
next
  case False
  have lp: "length p = 4 - align" using assms(2) by simp
  have "drop_bit (8 * align) t OR push_bit (8 * (4 - align)) (bytes_u32 data) = bytes_u32 (p @ data)"
    using assms(1) lp by (simp add: bytes_u32_append)
  moreover have "length (p @ data) < 4" "p @ data \<noteq> []"
    using False assms(2,3) by auto
  ultimately show ?thesis
    using False mix_tail_bytes [of "p @ data" h]
    by (simp add: mix_leftover_def mix_words_short del: append_is_Nil_conv)
qed

lemma mix_shifted_words:
  assumes "drop_bit (8 * align) t = bytes_u32 p" "length p + align = 4" "align < 4"
  shows "(let (h', t', data) = mix_shifted False align h t bs in mix_leftover align h' t' data) =
    (let (h', data) = mix_words False h (p @ bs) in mix_tail h' data)"
  using assms
proof (induction False align h t bs arbitrary: p rule: mix_shifted.induct)
  case (1 align h t a b c d data)
  obtain x y where xy: "[a, b, c, d] = x @ y" "length x = align"
    using split_at [of align "[a, b, c, d]"] 1(3) by auto
  have ly: "length y = 4 - align" using arg_cong [OF xy(1), of length] xy(2) by simp
  have lp: "length p = 4 - align" using 1(3) by simp
  have w: "load_u32 False [a, b, c, d] = bytes_u32 (x @ y)" by (simp add: load_u32_def xy(1) [symmetric])
  have k: "drop_bit (8 * align) t OR push_bit (8 * (4 - align)) (bytes_u32 (x @ y)) = bytes_u32 (p @ x)"
    using shifted_word [of x t p y] 1(2,3) xy(2) lp by simp
  have y: "drop_bit (8 * align) (bytes_u32 (x @ y)) = bytes_u32 y"
    using bytes_u32_drop [of x y] xy(2) ly 1(3) by simp
  have "p @ a # b # c # d # data = (p @ x) @ y @ data" using xy(1) by simp
  moreover have "length (p @ x) = 4" using 1(3) xy(2) by simp
  ultimately have "mix_words False h (p @ a # b # c # d # data) =
      mix_words False (MURMUR2_MIX h (bytes_u32 (p @ x))) (y @ data)"
    using mix_words_4 by metis
  moreover have "mix_shifted False align h t (a # b # c # d # data) =
      mix_shifted False align (MURMUR2_MIX h (bytes_u32 (p @ x))) (bytes_u32 (x @ y)) data"
    using k by (simp add: w)
  moreover note 1(1) [OF w [symmetric], unfolded k, OF y]
  ultimately show ?case using ly 1(3,4) by simp
qed (simp_all add: mix_leftover_words)

lemma hash_alignment:
  assumes "align < 4"
  shows "CalculateHashCode False align bs seed = CalculateHashCode False 0 bs seed"
proof (cases "align \<noteq> 0 \<and> 4 \<le> length bs")
  case True
  let ?p = "take (4 - align) bs" and ?h = "seed XOR word_of_nat (length bs)"
  have lp: "length ?p = 4 - align" using True by auto
  have p: "drop_bit (8 * align) (push_bit (8 * align) (bytes_u32 ?p)) = bytes_u32 ?p"
    by (rule bytes_u32_shift) (use lp assms in simp)
  have "(let (h', t', data) = mix_shifted False align ?h (push_bit (8 * align) (bytes_u32 ?p)) (drop (4 - align) bs)
      in mix_leftover align h' t' data) = (let (h', data) = mix_words False ?h (?p @ drop (4 - align) bs) in mix_tail h' data)"
    by (rule mix_shifted_words) (use p lp assms in simp_all)
  then show ?thesis
    using True by (simp add: CalculateHashCode_def Let_def split: prod.splits)
next
  case False
  then show ?thesis by (auto simp: CalculateHashCode_def)
qed

text \<open>
  On a big-endian host the two loops do not agree: the second one shifts its words in the
  direction of little-endian ones.
\<close>

lemma hash_alignment_big_endian:
  "CalculateHashCode True 1 [1, 2, 3, 4, 5, 6, 7, 8] 0 \<noteq> CalculateHashCode True 0 [1, 2, 3, 4, 5, 6, 7, 8] 0"
  by code_simp

end
