(* ===== verification/Message_Arrays.thy ===== *)
theory Message_Arrays
  imports Mini_Unflatten Muscle_Hash
begin

section \<open>The arrays of a Message field\<close>

text \<open>
  The \<^verbatim>\<open>DataArray\<close> classes of \<^verbatim>\<open>source/muscle/message/Message.cpp\<close>: the values of one field of a
  Message.  All of them are a \<^verbatim>\<open>Queue\<close> of items of one type; here that is the list of the items,
  and the class of the array decides how they are counted, flattened, unflattened and compared.
  Integers are kept as words; floats and doubles as their bit patterns; an item of a reference type
  is \<open>None\<close> for a NULL reference.  The items of the type \<open>'m\<close> are the sub-Messages, whose own
  methods are arguments of the array's methods.

  Memory that can be had is a parameter: whether the pools have another object, whether the table of
  the fields can hold a number of entries, an array a number of items, a string or a byte buffer
  a number of bytes.
\<close>

record memory =
  mem_obj :: bool
  mem_entries :: "nat \<Rightarrow> bool"
  mem_items :: "nat \<Rightarrow> bool"
  mem_bytes :: "nat \<Rightarrow> bool"

text \<open>There is memory for everything.\<close>

definition ample :: "memory \<Rightarrow> bool" where
  "ample am \<longleftrightarrow> mem_obj am \<and> (\<forall>n. mem_entries am n) \<and> (\<forall>n. mem_items am n) \<and> (\<forall>n. mem_bytes am n)"

lemma ampleD:
  "ample am \<Longrightarrow> mem_obj am" "ample am \<Longrightarrow> mem_entries am n" "ample am \<Longrightarrow> mem_items am n"
  "ample am \<Longrightarrow> mem_bytes am n"
  by (simp_all add: ample_def)

definition B_TAG_TYPE :: u32 where "B_TAG_TYPE = 1297367367"

datatype ArrayClass =
    BoolArray | Int8Array | Int16Array | Int32Array | Int64Array | FloatArray | DoubleArray
  | PointerArray | PointArray | RectArray | StringArray | MessageArray
  | ByteBufferArray u32 \<comment> \<open>with its type code\<close>
  | TagArray

datatype 'm DataItem =
    BoolItem bool | Int8Item u8 | Int16Item u16 | Int32Item u32 | Int64Item u64
  | FloatItem u32 | DoubleItem u64 | PointerItem u64 | PointItem u32 u32 | RectItem u32 u32 u32 u32
  | StringItem "u8 list" | MessageItem "'m option" | FlatItem "u8 list option"
  | TagItem "nat option" \<comment> \<open>which object it refers to\<close>

datatype 'm DataArray = DataArray (da_class: ArrayClass) (da_items: "'m DataItem list")

subsection \<open>Type codes and sizes\<close>

fun class_code :: "ArrayClass \<Rightarrow> u32" where
  "class_code BoolArray = B_BOOL_TYPE"
| "class_code Int8Array = B_INT8_TYPE"
| "class_code Int16Array = B_INT16_TYPE"
| "class_code Int32Array = B_INT32_TYPE"
| "class_code Int64Array = B_INT64_TYPE"
| "class_code FloatArray = B_FLOAT_TYPE"
| "class_code DoubleArray = B_DOUBLE_TYPE"
| "class_code PointerArray = B_POINTER_TYPE"
| "class_code PointArray = B_POINT_TYPE"
| "class_code RectArray = B_RECT_TYPE"
| "class_code StringArray = B_STRING_TYPE"
| "class_code MessageArray = B_MESSAGE_TYPE"
| "class_code (ByteBufferArray tc) = tc"
| "class_code TagArray = B_TAG_TYPE"

text \<open>The items that an array of a class holds.\<close>

definition has_class :: "ArrayClass \<Rightarrow> 'm DataItem \<Rightarrow> bool" where
  "has_class c item \<longleftrightarrow>
     (case item of
        BoolItem _ \<Rightarrow> c = BoolArray | Int8Item _ \<Rightarrow> c = Int8Array | Int16Item _ \<Rightarrow> c = Int16Array
      | Int32Item _ \<Rightarrow> c = Int32Array | Int64Item _ \<Rightarrow> c = Int64Array | FloatItem _ \<Rightarrow> c = FloatArray
      | DoubleItem _ \<Rightarrow> c = DoubleArray | PointerItem _ \<Rightarrow> c = PointerArray
      | PointItem _ _ \<Rightarrow> c = PointArray | RectItem _ _ _ _ \<Rightarrow> c = RectArray
      | StringItem _ \<Rightarrow> c = StringArray | MessageItem _ \<Rightarrow> c = MessageArray
      | FlatItem _ \<Rightarrow> c = ByteBufferArray (class_code c) | TagItem _ \<Rightarrow> c = TagArray)"

definition Array_TypeCode :: "'m DataArray \<Rightarrow> u32" where
  "Array_TypeCode a = class_code (da_class a)"

definition Array_GetNumItems :: "'m DataArray \<Rightarrow> u32" where
  "Array_GetNumItems a = word_of_nat (length (da_items a))"

definition Array_IsFlattenable :: "'m DataArray \<Rightarrow> bool" where
  "Array_IsFlattenable a \<longleftrightarrow> da_class a \<noteq> TagArray \<and> da_class a \<noteq> PointerArray"

definition Array_ElementsAreFixedSize :: "'m DataArray \<Rightarrow> bool" where
  "Array_ElementsAreFixedSize a \<longleftrightarrow>
     (case da_class a of StringArray \<Rightarrow> False | MessageArray \<Rightarrow> False | ByteBufferArray _ \<Rightarrow> False | _ \<Rightarrow> True)"

text \<open>The switch of \<^verbatim>\<open>GetOrCreateArray\<close>: the class of a new array for a type code.\<close>

definition new_class :: "u32 \<Rightarrow> ArrayClass" where
  "new_class tc =
     (if tc = B_BOOL_TYPE then BoolArray else if tc = B_DOUBLE_TYPE then DoubleArray
      else if tc = B_POINTER_TYPE then PointerArray else if tc = B_POINT_TYPE then PointArray
      else if tc = B_RECT_TYPE then RectArray else if tc = B_FLOAT_TYPE then FloatArray
      else if tc = B_INT64_TYPE then Int64Array else if tc = B_INT32_TYPE then Int32Array
      else if tc = B_INT16_TYPE then Int16Array else if tc = B_INT8_TYPE then Int8Array
      else if tc = B_MESSAGE_TYPE then MessageArray else if tc = B_STRING_TYPE then StringArray
      else if tc = B_TAG_TYPE then TagArray else ByteBufferArray tc)"

text \<open>
  \<^verbatim>\<open>sizeof\<close> of the items, with references of one word (a \<^verbatim>\<open>PointerAndBool\<close>) and strings of
  two on a 64-bit target.
\<close>

fun class_sizeof :: "ArrayClass \<Rightarrow> nat" where
  "class_sizeof BoolArray = 1" | "class_sizeof Int8Array = 1" | "class_sizeof Int16Array = 2"
| "class_sizeof Int32Array = 4" | "class_sizeof Int64Array = 8" | "class_sizeof FloatArray = 4"
| "class_sizeof DoubleArray = 8" | "class_sizeof PointerArray = 8" | "class_sizeof PointArray = 8"
| "class_sizeof RectArray = 16" | "class_sizeof StringArray = 16" | "class_sizeof MessageArray = 8"
| "class_sizeof (ByteBufferArray _) = 8" | "class_sizeof TagArray = 8"

text \<open>
  \<^verbatim>\<open>GetItemSize\<close>; \<open>fsz\<close> is \<^verbatim>\<open>FlattenedSize\<close> of a sub-Message.  A NULL reference has size zero,
  a string has its terminating zero.
\<close>

definition Array_GetItemSize :: "('m \<Rightarrow> u32) \<Rightarrow> ArrayClass \<Rightarrow> 'm DataItem \<Rightarrow> u32" where
  "Array_GetItemSize fsz c item =
     (case item of
        StringItem s \<Rightarrow> word_of_nat (length s) + 1
      | MessageItem (Some m) \<Rightarrow> fsz m
      | MessageItem None \<Rightarrow> 0
      | FlatItem (Some bs) \<Rightarrow> word_of_nat (length bs)
      | FlatItem None \<Rightarrow> 0
      | _ \<Rightarrow> word_of_nat (class_sizeof c))"

definition Array_FlattenedSize :: "('m \<Rightarrow> u32) \<Rightarrow> 'm DataArray \<Rightarrow> u32" where
  "Array_FlattenedSize fsz a =
     (let n = Array_GetNumItems a; sizes = sum_list (map (Array_GetItemSize fsz (da_class a)) (da_items a)) in
      case da_class a of
        TagArray \<Rightarrow> 0
      | StringArray \<Rightarrow> (n + 1) * 4 + sizes
      | ByteBufferArray _ \<Rightarrow> (n + 1) * 4 + sizes
      | MessageArray \<Rightarrow> (n + 0) * 4 + sizes
      | c \<Rightarrow> n * word_of_nat (class_sizeof c))"

lemma Array_FlattenedSize_cong [fundef_cong]:
  assumes "a = b" "\<And>m. m \<in> set_DataArray b \<Longrightarrow> f m = g m"
  shows "Array_FlattenedSize f a = Array_FlattenedSize g b"
proof -
  have "map (Array_GetItemSize f (da_class b)) (da_items b) = map (Array_GetItemSize g (da_class b)) (da_items b)"
  proof (rule map_cong [OF refl])
    fix x assume "x \<in> set (da_items b)"
    then have "f m = g m" if "m \<in> set_DataItem x" for m using assms(2) that by (cases b) auto
    then show "Array_GetItemSize f (da_class b) x = Array_GetItemSize g (da_class b) x"
      by (auto simp: Array_GetItemSize_def split: DataItem.splits option.splits)
  qed
  then show ?thesis by (simp only: Array_FlattenedSize_def assms(1))
qed

subsection \<open>Flattening\<close>

text \<open>The bytes of an item of a type of fixed size.\<close>

fun fixed_item_bytes :: "'m DataItem \<Rightarrow> u8 list" where
  "fixed_item_bytes (BoolItem b) = [if b then 1 else 0]"
| "fixed_item_bytes (Int8Item v) = [v]"
| "fixed_item_bytes (Int16Item v) = u16_le v"
| "fixed_item_bytes (Int32Item v) = u32_le v"
| "fixed_item_bytes (Int64Item v) = u64_le v"
| "fixed_item_bytes (FloatItem v) = u32_le v"
| "fixed_item_bytes (DoubleItem v) = u64_le v"
| "fixed_item_bytes (PointItem x y) = u32_le x @ u32_le y"
| "fixed_item_bytes (RectItem l t r b) = u32_le l @ u32_le t @ u32_le r @ u32_le b"
| "fixed_item_bytes _ = []"

text \<open>
  The loops that convert the items of a primitive type, or flatten points and rectangles: item \<open>i\<close>
  goes to \<open>i\<close> times the size of an item.
\<close>

fun FlattenFixedItems :: "nat \<Rightarrow> 'm DataItem list \<Rightarrow> u8 list \<Rightarrow> nat \<Rightarrow> u8 list outcome" where
  "FlattenFixedItems k [] buf base = Ok buf"
| "FlattenFixedItems k (x # xs) buf base =
     obind (mem_write buf base (fixed_item_bytes x)) (\<lambda>buf'. FlattenFixedItems k xs buf' (base + k))"

text \<open>
  \<^verbatim>\<open>Flatten\<close> of a string, of a byte buffer and of a sub-Message (\<open>ftn\<close>) to \<^verbatim>\<open>&buffer[writeOffset]\<close>.
\<close>

definition FlattenItem :: "('m \<Rightarrow> u8 list \<Rightarrow> nat \<Rightarrow> u8 list outcome) \<Rightarrow> 'm DataItem \<Rightarrow>
    u8 list \<Rightarrow> nat \<Rightarrow> u8 list outcome" where
  "FlattenItem ftn item buf p =
     (case item of
        StringItem s \<Rightarrow> mem_write buf p (s @ [0])
      | FlatItem (Some bs) \<Rightarrow> mem_write buf p bs
      | MessageItem (Some m) \<Rightarrow> ftn m buf p
      | _ \<Rightarrow> Ok buf)"

definition is_null_item :: "'m DataItem \<Rightarrow> bool" where
  "is_null_item item \<longleftrightarrow> item = MessageItem None \<or> item = FlatItem None"

text \<open>
  The loops of \<^verbatim>\<open>FlatCountableRefDataArray\<close> and \<^verbatim>\<open>VariableSizeFlatObjectArray\<close>: the size of the
  item, then the item; a NULL reference is skipped.
\<close>

fun FlattenVariableItems :: "('m \<Rightarrow> u32) \<Rightarrow> ('m \<Rightarrow> u8 list \<Rightarrow> nat \<Rightarrow> u8 list outcome) \<Rightarrow> ArrayClass \<Rightarrow>
    'm DataItem list \<Rightarrow> u8 list \<Rightarrow> nat \<Rightarrow> u32 \<Rightarrow> (u8 list \<times> u32) outcome" where
  "FlattenVariableItems fsz ftn c [] buf base off = Ok (buf, off)"
| "FlattenVariableItems fsz ftn c (x # xs) buf base off =
     (if is_null_item x then FlattenVariableItems fsz ftn c xs buf base off
      else
        let fs = Array_GetItemSize fsz c x in
        obind (WriteData buf base off (u32_le fs)) (\<lambda>s.
        obind (FlattenItem ftn x (fst s) (base + unat (snd s))) (\<lambda>buf'.
        FlattenVariableItems fsz ftn c xs buf' base (snd s + fs))))"

text \<open>A tag or a pointer that gets here ends the program (\<^verbatim>\<open>MCRASH\<close>).\<close>

definition Array_Flatten :: "('m \<Rightarrow> u32) \<Rightarrow> ('m \<Rightarrow> u8 list \<Rightarrow> nat \<Rightarrow> u8 list outcome) \<Rightarrow> 'm DataArray \<Rightarrow>
    u8 list \<Rightarrow> nat \<Rightarrow> u8 list outcome" where
  "Array_Flatten fsz ftn a buf base =
     (let c = da_class a; items = da_items a;
          variable = (\<lambda>buf' off. obind (FlattenVariableItems fsz ftn c items buf' base off) (\<lambda>s. Ok (fst s)));
          counted = obind (WriteData buf base 0 (u32_le (Array_GetNumItems a))) (\<lambda>s. variable (fst s) (snd s)) in
      case c of
        TagArray \<Rightarrow> Fault
      | PointerArray \<Rightarrow> if items = [] then Ok buf else Fault
      | StringArray \<Rightarrow> counted
      | ByteBufferArray _ \<Rightarrow> counted
      | MessageArray \<Rightarrow> variable buf 0
      | _ \<Rightarrow> FlattenFixedItems (class_sizeof c) items buf base)"

lemma FlattenVariableItems_cong:
  assumes "\<And>x m. x \<in> set xs \<Longrightarrow> m \<in> set_DataItem x \<Longrightarrow> f m = f' m \<and> g m = g' m"
  shows "FlattenVariableItems f g c xs buf base off = FlattenVariableItems f' g' c xs buf base off"
  using assms
proof (induction xs arbitrary: buf off)
  case (Cons x xs)
  have IH: "FlattenVariableItems f g c xs buf base off = FlattenVariableItems f' g' c xs buf base off"
    for buf off by (rule Cons.IH) (use Cons.prems in auto)
  have "m \<in> set_DataItem x \<Longrightarrow> f m = f' m \<and> g m = g' m" for m using Cons.prems by auto
  then have "Array_GetItemSize f c x = Array_GetItemSize f' c x" "FlattenItem g x = FlattenItem g' x"
    by (cases x; auto simp: Array_GetItemSize_def FlattenItem_def fun_eq_iff split: option.splits)+
  then show ?case by (simp add: IH)
qed simp

lemma Array_Flatten_cong [fundef_cong]:
  assumes "a = b" "buf = buf'" "base = base'" "\<And>m. m \<in> set_DataArray b \<Longrightarrow> f m = f' m"
    "\<And>m. m \<in> set_DataArray b \<Longrightarrow> g m = g' m"
  shows "Array_Flatten f g a buf base = Array_Flatten f' g' b buf' base'"
proof -
  have "x \<in> set (da_items b) \<Longrightarrow> m \<in> set_DataItem x \<Longrightarrow> f m = f' m \<and> g m = g' m" for x m
    using assms(4,5) by (cases b) auto
  then have *: "FlattenVariableItems f g (da_class b) (da_items b) = FlattenVariableItems f' g' (da_class b) (da_items b)"
    by (intro ext FlattenVariableItems_cong)
  show ?thesis unfolding Array_Flatten_def assms(1-3) Let_def * by (rule refl)
qed

subsection \<open>Unflattening\<close>

text \<open>
  The arrays read from the memory \<open>mem\<close>, of which the caller says that \<open>inSize\<close> bytes are the array's.
  They give the new items, or \<open>None\<close> for \<^verbatim>\<open>B_ERROR\<close>.
\<close>

fun fixed_item :: "ArrayClass \<Rightarrow> u8 list \<Rightarrow> 'm DataItem" where
  "fixed_item BoolArray bs = BoolItem (bs \<noteq> [0])"
| "fixed_item Int8Array bs = Int8Item (hd bs)"
| "fixed_item Int16Array bs = Int16Item (le_u16 bs)"
| "fixed_item Int32Array bs = Int32Item (le_u32 bs)"
| "fixed_item Int64Array bs = Int64Item (le_u64 bs)"
| "fixed_item FloatArray bs = FloatItem (le_u32 bs)"
| "fixed_item DoubleArray bs = DoubleItem (le_u64 bs)"
| "fixed_item PointerArray bs = PointerItem (le_u64 bs)"
| "fixed_item PointArray bs = PointItem (le_u32 (take 4 bs)) (le_u32 (drop 4 bs))"
| "fixed_item RectArray bs = RectItem (le_u32 (take 4 bs)) (le_u32 (take 4 (drop 4 bs)))
     (le_u32 (take 4 (drop 8 bs))) (le_u32 (drop 12 bs))"
| "fixed_item c bs = TagItem None"

fun UnflattenFixedItems :: "ArrayClass \<Rightarrow> nat \<Rightarrow> u8 list \<Rightarrow> nat \<Rightarrow> 'm DataItem list outcome" where
  "UnflattenFixedItems c 0 mem off = Ok []"
| "UnflattenFixedItems c (Suc n) mem off =
     obind (mem_read mem off (class_sizeof c)) (\<lambda>bs.
     obind (UnflattenFixedItems c n mem (off + class_sizeof c)) (\<lambda>xs. Ok (fixed_item c bs # xs)))"

text \<open>
  \<^verbatim>\<open>String::SetCstr(str, maxLen)\<close>: the characters before the first zero or the limit; \<open>None\<close> when
  there is no memory for them.
\<close>

definition SetCstr :: "memory \<Rightarrow> u8 list \<Rightarrow> nat \<Rightarrow> u8 list option outcome" where
  "SetCstr am str maxLen =
     (if length str < maxLen \<and> 0 \<notin> set str then Fault
      else
        let s = takeWhile (\<lambda>c. c \<noteq> 0) (take maxLen str) in
        Ok (if s = [] \<or> mem_bytes am (length s + 1) then Some s else None))"

text \<open>The loop over the strings; \<open>n\<close> are left and \<open>acc\<close> are read.\<close>

fun UnflattenStrings :: "memory \<Rightarrow> nat \<Rightarrow> u8 list \<Rightarrow> u32 \<Rightarrow> u32 \<Rightarrow> 'm DataItem list \<Rightarrow>
    'm DataItem list option outcome" where
  "UnflattenStrings am 0 mem inSize readOffset acc = Ok (Some acc)"
| "UnflattenStrings am (Suc n) mem inSize readOffset acc =
     read_u32 mem inSize readOffset (Ok None) (\<lambda>elementSize off.
     if elementSize = 0 then Ok None
     else if off + elementSize > inSize then Ok None
     else if \<not> mem_items am (Suc (length acc)) then Ok None
     else
       obind (SetCstr am (drop (unat off) mem) (unat elementSize)) (\<lambda>r.
       case r of
         None \<Rightarrow> Ok None
       | Some s \<Rightarrow> UnflattenStrings am n mem inSize (off + elementSize) (acc @ [StringItem s])))"

text \<open>The loop over the byte buffers.\<close>

fun UnflattenByteBuffers :: "memory \<Rightarrow> nat \<Rightarrow> u8 list \<Rightarrow> u32 \<Rightarrow> u32 \<Rightarrow> 'm DataItem list \<Rightarrow>
    'm DataItem list option outcome" where
  "UnflattenByteBuffers am 0 mem inSize readOffset acc = Ok (Some acc)"
| "UnflattenByteBuffers am (Suc n) mem inSize readOffset acc =
     read_u32 mem inSize readOffset (Ok None) (\<lambda>readFs off.
     if off + readFs > inSize then Ok None
     else if \<not> mem_obj am \<or> readFs \<noteq> 0 \<and> \<not> mem_bytes am (unat readFs) then Ok None
     else
       obind (mem_read mem (unat off) (unat readFs)) (\<lambda>bs.
       if mem_items am (Suc (length acc))
       then UnflattenByteBuffers am n mem inSize (off + readFs) (acc @ [FlatItem (Some bs)])
       else Ok None))"

text \<open>
  The loop over the sub-Messages, which has no count: \<open>unflat\<close> is \<^verbatim>\<open>Unflatten\<close> of a new Message, of
  which \<open>None\<close> is the failure.  It takes fuel, because \<^verbatim>\<open>readOffset\<close> can wrap around.
\<close>

fun UnflattenSubMessages :: "(u8 list \<Rightarrow> u32 \<Rightarrow> 'm option outcome) \<Rightarrow> memory \<Rightarrow> nat \<Rightarrow> u8 list \<Rightarrow> u32 \<Rightarrow>
    u32 \<Rightarrow> 'm DataItem list \<Rightarrow> 'm DataItem list option outcome" where
  "UnflattenSubMessages unflat am fuel mem inSize readOffset acc =
     (if readOffset < inSize then
        (case fuel of
           0 \<Rightarrow> Spin
         | Suc fuel' \<Rightarrow>
             read_u32 mem inSize readOffset (Ok None) (\<lambda>readFs off.
             if off + readFs > inSize then Ok None
             else if \<not> mem_obj am then Ok None
             else
               obind (unflat (drop (unat off) mem) readFs) (\<lambda>r.
               case r of
                 None \<Rightarrow> Ok None
               | Some m \<Rightarrow>
                   if mem_items am (Suc (length acc))
                   then UnflattenSubMessages unflat am fuel' mem inSize (off + readFs)
                          (acc @ [MessageItem (Some m)])
                   else Ok None)))
      else Ok (Some acc))"

declare UnflattenSubMessages.simps [simp del]

definition Array_Unflatten :: "(u8 list \<Rightarrow> u32 \<Rightarrow> 'm option outcome) \<Rightarrow> memory \<Rightarrow> nat \<Rightarrow> ArrayClass \<Rightarrow>
    u8 list \<Rightarrow> u32 \<Rightarrow> 'm DataItem list option outcome" where
  "Array_Unflatten unflat am fuel c mem inSize =
     (case c of
        TagArray \<Rightarrow> Fault
      | StringArray \<Rightarrow>
          read_u32 mem inSize 0 (Ok None) (\<lambda>numElements off.
          if mem_items am (unat numElements)
          then UnflattenStrings am (unat numElements) mem inSize off []
          else Ok None)
      | ByteBufferArray _ \<Rightarrow>
          read_u32 mem inSize 0 (Ok None) (\<lambda>numItems off.
          UnflattenByteBuffers am (unat numItems) mem inSize off [])
      | MessageArray \<Rightarrow> UnflattenSubMessages unflat am fuel mem inSize 0 []
      | _ \<Rightarrow>
          let k = class_sizeof c; numItems = unat inSize div k in
          if unat inSize mod k \<noteq> 0 then Ok None
          else if \<not> mem_items am numItems then Ok None
          else if c = PointerArray then Fault
          else obind (UnflattenFixedItems c numItems mem 0) (\<lambda>xs. Ok (Some xs)))"

end
