(* ===== verification/Message_Items.thy ===== *)
theory Message_Items
  imports Message_Arrays
begin

section \<open>The items of a Message field\<close>

text \<open>
  The methods of the \<^verbatim>\<open>DataArray\<close> classes that change, find, compare and sum up their items.
\<close>

subsection \<open>Adding, replacing and removing items\<close>

text \<open>
  The argument \<^verbatim>\<open>const void * item\<close>: the NULL pointer, a pointer to an object of an item type, or a
  pointer to bytes of the caller's (the memory from there on).  What the array stores of it: a
  default item for NULL, and the bytes as they are for a type of values.  Bytes or an object of another
  type that the array takes for an object of its own are a \<open>Fault\<close>.
\<close>

datatype 'm DataPtr = NullPtr | ItemPtr "'m DataItem" | RawPtr "u8 list"

fun default_item :: "ArrayClass \<Rightarrow> 'm DataItem" where
  "default_item BoolArray = BoolItem False"
| "default_item Int8Array = Int8Item 0"
| "default_item Int16Array = Int16Item 0"
| "default_item Int32Array = Int32Item 0"
| "default_item Int64Array = Int64Item 0"
| "default_item FloatArray = FloatItem 0"
| "default_item DoubleArray = DoubleItem 0"
| "default_item PointerArray = PointerItem 0"
| "default_item PointArray = PointItem 0 0"
| "default_item RectArray = RectItem 0 0 0 0"
| "default_item StringArray = StringItem []"
| "default_item MessageArray = MessageItem None"
| "default_item (ByteBufferArray tc) = FlatItem None"
| "default_item TagArray = TagItem None"

definition is_value_class :: "ArrayClass \<Rightarrow> bool" where
  "is_value_class c \<longleftrightarrow>
     (case c of StringArray \<Rightarrow> False | MessageArray \<Rightarrow> False | ByteBufferArray _ \<Rightarrow> False | TagArray \<Rightarrow> False
      | _ \<Rightarrow> True)"

text \<open>The value of bytes in the order of the host.\<close>

definition host_item :: "bool \<Rightarrow> ArrayClass \<Rightarrow> u8 list \<Rightarrow> 'm DataItem" where
  "host_item big c bs =
     fixed_item c (if big then reverse_items (if c = PointArray \<or> c = RectArray then 4 else class_sizeof c) bs
                   else bs)"

definition stored_item :: "bool \<Rightarrow> ArrayClass \<Rightarrow> 'm DataPtr \<Rightarrow> 'm DataItem outcome" where
  "stored_item big c p =
     (case p of
        NullPtr \<Rightarrow> Ok (default_item c)
      | ItemPtr item \<Rightarrow> if has_class c item then Ok item else Fault
      | RawPtr bs \<Rightarrow>
          if is_value_class c \<and> class_sizeof c \<le> length bs
          then Ok (host_item big c (take (class_sizeof c) bs)) else Fault)"

definition Array_AddDataItem :: "memory \<Rightarrow> bool \<Rightarrow> 'm DataPtr \<Rightarrow> nat \<Rightarrow> 'm DataArray \<Rightarrow>
    (status \<times> 'm DataArray) outcome" where
  "Array_AddDataItem am big p sz a =
     (if sz \<noteq> class_sizeof (da_class a) then Ok (B_ERROR, a)
      else
        obind (stored_item big (da_class a) p) (\<lambda>x.
        Ok (if mem_items am (Suc (length (da_items a)))
            then (B_NO_ERROR, DataArray (da_class a) (da_items a @ [x])) else (B_ERROR, a))))"

definition Array_PrependDataItem :: "memory \<Rightarrow> bool \<Rightarrow> 'm DataPtr \<Rightarrow> nat \<Rightarrow> 'm DataArray \<Rightarrow>
    (status \<times> 'm DataArray) outcome" where
  "Array_PrependDataItem am big p sz a =
     (if sz \<noteq> class_sizeof (da_class a) then Ok (B_ERROR, a)
      else
        obind (stored_item big (da_class a) p) (\<lambda>x.
        Ok (if mem_items am (Suc (length (da_items a)))
            then (B_NO_ERROR, DataArray (da_class a) (x # da_items a)) else (B_ERROR, a))))"

definition Array_RemoveDataItem :: "u32 \<Rightarrow> 'm DataArray \<Rightarrow> status \<times> 'm DataArray" where
  "Array_RemoveDataItem index a =
     (let i = unat index; xs = da_items a in
      if i < length xs then (B_NO_ERROR, DataArray (da_class a) (take i xs @ drop (Suc i) xs))
      else (B_ERROR, a))"

text \<open>\<^verbatim>\<open>ReplaceDataItem\<close> reads the new item before it knows whether there is one to replace.\<close>

definition Array_ReplaceDataItem :: "bool \<Rightarrow> u32 \<Rightarrow> 'm DataPtr \<Rightarrow> nat \<Rightarrow> 'm DataArray \<Rightarrow>
    (status \<times> 'm DataArray) outcome" where
  "Array_ReplaceDataItem big index p sz a =
     (if sz \<noteq> class_sizeof (da_class a) then Ok (B_ERROR, a)
      else if p = NullPtr then Fault
      else
        obind (stored_item big (da_class a) p) (\<lambda>x.
        Ok (if unat index < length (da_items a)
            then (B_NO_ERROR, DataArray (da_class a) ((da_items a)[unat index := x])) else (B_ERROR, a))))"

definition Array_FindDataItem :: "u32 \<Rightarrow> 'm DataArray \<Rightarrow> 'm DataItem option" where
  "Array_FindDataItem index a =
     (if unat index < length (da_items a) then Some (da_items a ! unat index) else None)"

subsection \<open>Checksums\<close>

definition is_zero32 :: "u32 \<Rightarrow> bool" where "is_zero32 v \<longleftrightarrow> v AND 0x7fffffff = 0"
definition is_zero64 :: "u64 \<Rightarrow> bool" where "is_zero64 v \<longleftrightarrow> v AND 0x7fffffffffffffff = 0"

text \<open>
  On a little-endian host the address of the bytes does not matter (\<open>hash_alignment\<close>).
\<close>

definition CalculateChecksum :: "u8 list \<Rightarrow> u32" where
  "CalculateChecksum bs = CalculateHashCode False 0 bs 0"

definition CalculateChecksumForUint64 :: "u64 \<Rightarrow> u32" where
  "CalculateChecksumForUint64 v = CalculateChecksum (u64_le v)"

text \<open>The patterns of \<open>0.0\<close> and \<open>-0.0\<close> have the same checksum.\<close>

definition CalculateChecksumForFloat :: "u32 \<Rightarrow> u32" where
  "CalculateChecksumForFloat v = CalculateChecksum (u32_le (if is_zero32 v then 0 else v))"

definition CalculateChecksumForDouble :: "u64 \<Rightarrow> u32" where
  "CalculateChecksumForDouble v = CalculateChecksum (u64_le (if is_zero64 v then 0 else v))"

definition Point_CalculateChecksum :: "u32 \<Rightarrow> u32 \<Rightarrow> u32" where
  "Point_CalculateChecksum x y = CalculateChecksumForFloat x + 3 * CalculateChecksumForFloat y"

definition Rect_CalculateChecksum :: "u32 \<Rightarrow> u32 \<Rightarrow> u32 \<Rightarrow> u32 \<Rightarrow> u32" where
  "Rect_CalculateChecksum l t r b =
     CalculateChecksumForFloat l + 3 * CalculateChecksumForFloat t
     + 5 * CalculateChecksumForFloat r + 7 * CalculateChecksumForFloat b"

text \<open>What the item \<open>i\<close> adds to the sum, before it is multiplied by \<open>i + 1\<close>; tags and pointers add nothing.\<close>

definition item_checksum :: "('m \<Rightarrow> u32) \<Rightarrow> 'm DataItem \<Rightarrow> u32" where
  "item_checksum chk item =
     (case item of
        BoolItem b \<Rightarrow> if b then 1 else 0
      | Int8Item v \<Rightarrow> scast v
      | Int16Item v \<Rightarrow> scast v
      | Int32Item v \<Rightarrow> v
      | Int64Item v \<Rightarrow> CalculateChecksumForUint64 v
      | FloatItem v \<Rightarrow> CalculateChecksumForFloat v
      | DoubleItem v \<Rightarrow> CalculateChecksumForDouble v
      | PointerItem v \<Rightarrow> 0
      | PointItem x y \<Rightarrow> Point_CalculateChecksum x y
      | RectItem l t r b \<Rightarrow> Rect_CalculateChecksum l t r b
      | StringItem s \<Rightarrow> CalculateChecksum s
      | MessageItem (Some m) \<Rightarrow> chk m
      | MessageItem None \<Rightarrow> 0
      | FlatItem (Some bs) \<Rightarrow> CalculateChecksum bs
      | FlatItem None \<Rightarrow> 0
      | TagItem _ \<Rightarrow> 0)"

text \<open>
  The loops \<^verbatim>\<open>for (int32 i=GetNumItems()-1; i>=0; i--)\<close> do nothing for more than \<open>2 ^ 31\<close> items,
  when the \<^verbatim>\<open>int32\<close> starts negative.
\<close>

definition counted_down :: "'a list \<Rightarrow> 'a list" where
  "counted_down xs = (if 2 ^ 31 < length xs then [] else xs)"

fun weighted_sum :: "u32 \<Rightarrow> u32 list \<Rightarrow> u32" where
  "weighted_sum k [] = 0"
| "weighted_sum k (x # xs) = k * x + weighted_sum (k + 1) xs"

definition Array_CalculateChecksum :: "('m \<Rightarrow> u32) \<Rightarrow> 'm DataArray \<Rightarrow> u32" where
  "Array_CalculateChecksum chk a =
     Array_TypeCode a + Array_GetNumItems a
     + weighted_sum 1 (map (item_checksum chk) (counted_down (da_items a)))"

subsection \<open>Equality\<close>

text \<open>The comparison of floats and doubles: no NaN equals anything, and the zeros are equal.\<close>

definition is_nan32 :: "u32 \<Rightarrow> bool" where
  "is_nan32 v \<longleftrightarrow> v AND 0x7f800000 = 0x7f800000 \<and> v AND 0x007fffff \<noteq> 0"
definition is_nan64 :: "u64 \<Rightarrow> bool" where
  "is_nan64 v \<longleftrightarrow> v AND 0x7ff0000000000000 = 0x7ff0000000000000 \<and> v AND 0x000fffffffffffff \<noteq> 0"

definition float_equal :: "u32 \<Rightarrow> u32 \<Rightarrow> bool" where
  "float_equal a b \<longleftrightarrow> \<not> is_nan32 a \<and> \<not> is_nan32 b \<and> (a = b \<or> is_zero32 a \<and> is_zero32 b)"
definition double_equal :: "u64 \<Rightarrow> u64 \<Rightarrow> bool" where
  "double_equal a b \<longleftrightarrow> \<not> is_nan64 a \<and> \<not> is_nan64 b \<and> (a = b \<or> is_zero64 a \<and> is_zero64 b)"

definition item_equal :: "('m \<Rightarrow> 'm \<Rightarrow> bool) \<Rightarrow> 'm DataItem \<Rightarrow> 'm DataItem \<Rightarrow> bool" where
  "item_equal eq x y \<longleftrightarrow>
     (case x of
        FloatItem a \<Rightarrow> (case y of FloatItem b \<Rightarrow> float_equal a b | _ \<Rightarrow> False)
      | DoubleItem a \<Rightarrow> (case y of DoubleItem b \<Rightarrow> double_equal a b | _ \<Rightarrow> False)
      | PointItem a b \<Rightarrow> (case y of PointItem c d \<Rightarrow> float_equal a c \<and> float_equal b d | _ \<Rightarrow> False)
      | RectItem a b c d \<Rightarrow>
          (case y of
             RectItem a' b' c' d' \<Rightarrow>
               float_equal a a' \<and> float_equal b b' \<and> float_equal c c' \<and> float_equal d d'
           | _ \<Rightarrow> False)
      | MessageItem (Some m) \<Rightarrow> (case y of MessageItem (Some m') \<Rightarrow> eq m m' | _ \<Rightarrow> False)
      | BoolItem a \<Rightarrow> y = BoolItem a | Int8Item a \<Rightarrow> y = Int8Item a | Int16Item a \<Rightarrow> y = Int16Item a
      | Int32Item a \<Rightarrow> y = Int32Item a | Int64Item a \<Rightarrow> y = Int64Item a
      | PointerItem a \<Rightarrow> y = PointerItem a | StringItem a \<Rightarrow> y = StringItem a
      | MessageItem None \<Rightarrow> y = MessageItem None
      | FlatItem a \<Rightarrow> y = FlatItem a | TagItem a \<Rightarrow> y = TagItem a)"

definition Array_AreContentsEqual :: "('m \<Rightarrow> 'm \<Rightarrow> bool) \<Rightarrow> 'm DataArray \<Rightarrow> 'm DataArray \<Rightarrow> bool" where
  "Array_AreContentsEqual eq a b \<longleftrightarrow>
     da_class a = da_class b
     \<and> list_all (\<lambda>(x, y). item_equal eq x y) (zip (counted_down (da_items a)) (da_items b))"

definition Array_IsEqualTo :: "('m \<Rightarrow> 'm \<Rightarrow> bool) \<Rightarrow> 'm DataArray \<Rightarrow> 'm DataArray \<Rightarrow> bool \<Rightarrow> bool" where
  "Array_IsEqualTo eq a b compareContents \<longleftrightarrow>
     (if Array_TypeCode a \<noteq> Array_TypeCode b \<or> Array_GetNumItems a \<noteq> Array_GetNumItems b then False
      else if compareContents then Array_AreContentsEqual eq a b else True)"

subsection \<open>Congruences for the recursion through sub-Messages\<close>

lemma set_DataArray_items: "set_DataArray a = (\<Union>x \<in> set (da_items a). set_DataItem x)"
  by (cases a) simp

lemma Array_CalculateChecksum_cong [fundef_cong]:
  assumes "a = b" "\<And>m. m \<in> set_DataArray b \<Longrightarrow> f m = g m"
  shows "Array_CalculateChecksum f a = Array_CalculateChecksum g b"
proof -
  have "map (item_checksum f) (counted_down (da_items b)) = map (item_checksum g) (counted_down (da_items b))"
  proof (rule map_cong [OF refl])
    fix x assume "x \<in> set (counted_down (da_items b))"
    then have "f m = g m" if "m \<in> set_DataItem x" for m
      using assms(2) that by (auto simp: set_DataArray_items counted_down_def split: if_splits)
    then show "item_checksum f x = item_checksum g x"
      by (auto simp: item_checksum_def split: DataItem.splits option.splits)
  qed
  then show ?thesis by (simp only: Array_CalculateChecksum_def assms(1))
qed

lemma Array_IsEqualTo_cong [fundef_cong]:
  assumes "a = a'" "b = b'" "c = c'" "\<And>m m'. m \<in> set_DataArray a' \<Longrightarrow> f m m' = g m m'"
  shows "Array_IsEqualTo f a b c = Array_IsEqualTo g a' b' c'"
proof -
  have "item_equal f x y = item_equal g x y" if "(x, y) \<in> set (zip (counted_down (da_items a')) ys)" for x y ys
  proof -
    have "x \<in> set (da_items a')"
      using set_zip_leftD [OF that] by (simp add: counted_down_def split: if_splits)
    then have "f m m' = g m m'" if "m \<in> set_DataItem x" for m m'
      using assms(4) that by (auto simp: set_DataArray_items)
    then show ?thesis by (auto simp: item_equal_def split: DataItem.splits option.splits)
  qed
  then have "list_all (\<lambda>(x, y). item_equal f x y) (zip (counted_down (da_items a')) ys) =
      list_all (\<lambda>(x, y). item_equal g x y) (zip (counted_down (da_items a')) ys)" for ys
    by (intro list.pred_cong [OF refl]) auto
  then show ?thesis by (simp only: Array_IsEqualTo_def Array_AreContentsEqual_def assms(1-3))
qed

end
