(* ===== verification/Message_Model.thy ===== *)
theory Message_Model
  imports Message_Items
begin

section \<open>Messages as values\<close>

text \<open>
  The class \<^verbatim>\<open>Message\<close> of \<^verbatim>\<open>source/muscle/message/Message.cpp\<close>, as far as its methods only read
  it: a what-code and the table \<^verbatim>\<open>_entries\<close>, an ordered \<^verbatim>\<open>Hashtable\<close> from the names of the fields to
  their arrays, which is the list of the pairs in the order of iteration.  A name is a \<^verbatim>\<open>String\<close>,
  the list of its characters.

  The methods that change a Message work on the shared arrays of theory \<open>Message_Store\<close>; here are
  \<^verbatim>\<open>FlattenedSize\<close>, \<^verbatim>\<open>Flatten\<close>, \<^verbatim>\<open>Unflatten\<close>, \<^verbatim>\<open>CalculateChecksum\<close>, the comparisons and
  the look-ups.
\<close>

datatype Message = Msg (m_what: u32) (m_entries: "(u8 list \<times> Message DataArray) list")

text \<open>A sub-Message is smaller than the Message it is in.\<close>

lemma item_size: "m \<in> set_DataItem x \<Longrightarrow> size m < size_DataItem size x"
  by (cases x) (auto split: option.splits)

lemma entry_size:
  assumes "(n, a) \<in> set es" "m \<in> set_DataArray a"
  shows "size m < size (Msg w es)"
proof -
  obtain x where x: "x \<in> set (da_items a)" "m \<in> set_DataItem x" using assms(2) by (auto simp: set_DataArray_items)
  have "size m < size_DataItem size x" using x(2) by (rule item_size)
  also have "\<dots> \<le> size_list (size_DataItem size) (da_items a)" using x(1) by (intro size_list_estimation') auto
  also have "\<dots> \<le> size_DataArray size a" by (cases a) simp
  also have "\<dots> \<le> size_prod (\<lambda>_. 0) (size_DataArray size) (n, a)" by simp
  also have "\<dots> \<le> size_list (size_prod (\<lambda>_. 0) (size_DataArray size)) es" using assms(1)
    by (intro size_list_estimation' [of "(n, a)"]) auto
  finally show ?thesis by simp
qed

lemma entry_size_measure [termination_simp]:
  "(n, a) \<in> set (es :: (u8 list \<times> Message DataArray) list) \<Longrightarrow> m \<in> set_DataArray a \<Longrightarrow>
   size m < Suc (size_list (\<lambda>x. Suc (size_DataArray size (snd x))) es)"
  using entry_size [of n a es m 0] by (simp add: size_prod_simp [abs_def])

lemma message_induct [case_names Msg]:
  assumes "\<And>w es. (\<And>n a m. (n, a) \<in> set es \<Longrightarrow> m \<in> set_DataArray a \<Longrightarrow> P m) \<Longrightarrow> P (Msg w es)"
  shows "P m"
proof (induction "size m" arbitrary: m rule: less_induct)
  case less
  obtain w es where m: "m = Msg w es" by (cases m)
  show ?case unfolding m
  proof (rule assms)
    fix n a m'
    assume "(n, a) \<in> set es" "m' \<in> set_DataArray a"
    then have "size m' < size m" unfolding m by (rule entry_size)
    then show "P m'" by (rule less)
  qed
qed

subsection \<open>Size and flattening\<close>

fun Message_FlattenedSize :: "Message \<Rightarrow> u32" where
  "Message_FlattenedSize (Msg w es) =
     3 * 4 + sum_list (map (\<lambda>(name, a).
       if Array_IsFlattenable a
       then 4 + (word_of_nat (length name) + 1) + 4 + 4 + Array_FlattenedSize Message_FlattenedSize a
       else 0) es)"

text \<open>
  The loop over the entries: name length, name, type code, data length and data of each flattenable
  field; it counts them.
\<close>

fun FlattenEntries :: "(Message DataArray \<Rightarrow> u32) \<Rightarrow>
    (Message DataArray \<Rightarrow> u8 list \<Rightarrow> nat \<Rightarrow> u8 list outcome) \<Rightarrow> (u8 list \<times> Message DataArray) list \<Rightarrow>
    u8 list \<Rightarrow> nat \<Rightarrow> u32 \<Rightarrow> u32 \<Rightarrow> (u8 list \<times> u32) outcome" where
  "FlattenEntries asize aflat [] buf base off num = Ok (buf, num)"
| "FlattenEntries asize aflat ((name, a) # es) buf base off num =
     (if Array_IsFlattenable a then
        let keyNameSize = word_of_nat (length name) + 1; dataSize = asize a in
        obind (WriteData buf base off (u32_le keyNameSize)) (\<lambda>s.
        obind (mem_write (fst s) (base + unat (snd s)) (name @ [0])) (\<lambda>buf1.
        obind (WriteData buf1 base (snd s + keyNameSize) (u32_le (Array_TypeCode a))) (\<lambda>t.
        obind (WriteData (fst t) base (snd t) (u32_le dataSize)) (\<lambda>u.
        obind (aflat a (fst u) (base + unat (snd u))) (\<lambda>buf2.
        FlattenEntries asize aflat es buf2 base (snd u + dataSize) (num + 1))))))
      else FlattenEntries asize aflat es buf base off num)"

lemma FlattenEntries_cong [fundef_cong]:
  assumes "es = es'" "buf = buf'" "base = base'" "off = off'" "num = num'"
    "\<And>n a. (n, a) \<in> set es' \<Longrightarrow> f a = f' a" "\<And>n a buf base. (n, a) \<in> set es' \<Longrightarrow> g a buf base = g' a buf base"
  shows "FlattenEntries f g es buf base off num = FlattenEntries f' g' es' buf' base' off' num'"
proof -
  have "FlattenEntries f g xs buf base off num = FlattenEntries f' g' xs buf base off num"
    if "\<And>n a. (n, a) \<in> set xs \<Longrightarrow> f a = f' a" "\<And>n a buf base. (n, a) \<in> set xs \<Longrightarrow> g a buf base = g' a buf base"
    for xs buf base off num
    using that
  proof (induction xs arbitrary: buf off num)
    case (Cons x xs)
    have IH: "FlattenEntries f g xs buf base off num = FlattenEntries f' g' xs buf base off num" for buf off num
      by (rule Cons.IH) (meson Cons.prems list.set_intros(2))+
    obtain n a where x: "x = (n, a)" by (cases x)
    have "f a = f' a" by (rule Cons.prems(1) [of n]) (simp add: x)
    moreover have "g a = g' a" by (intro ext, rule Cons.prems(2) [of n]) (simp add: x)
    ultimately show ?case by (simp add: x IH)
  qed simp
  from this [OF assms(6,7)] show ?thesis by (simp only: assms(1-5))
qed

text \<open>The number of entries is written last, at its place in the header.\<close>

fun Message_Flatten :: "Message \<Rightarrow> u8 list \<Rightarrow> nat \<Rightarrow> u8 list outcome" where
  "Message_Flatten (Msg w es) buf base =
     obind (WriteData buf base 0 (u32_le CURRENT_PROTOCOL_VERSION)) (\<lambda>s.
     obind (WriteData (fst s) base (snd s) (u32_le w)) (\<lambda>t.
     let entryCountPtr = base + unat (snd t) in
     obind (FlattenEntries (\<lambda>a. Array_FlattenedSize Message_FlattenedSize a)
              (\<lambda>a. Array_Flatten Message_FlattenedSize Message_Flatten a) es (fst t) base (snd t + 4) 0) (\<lambda>u.
     mem_write (fst u) entryCountPtr (u32_le (snd u)))))"

subsection \<open>Unflattening\<close>

text \<open>
  \<^verbatim>\<open>GetArray\<close> and \<^verbatim>\<open>GetOrCreateArray\<close> on a table: the class of the array of that name and
  type code (every type for \<^verbatim>\<open>B_ANY_TYPE\<close>), which is new and empty if there was none.
\<close>

definition array_matches :: "u32 \<Rightarrow> 'm DataArray \<Rightarrow> bool" where
  "array_matches tc a \<longleftrightarrow> tc = B_ANY_TYPE \<or> tc = Array_TypeCode a"

definition find_array :: "(u8 list \<times> 'm DataArray) list \<Rightarrow> u8 list \<Rightarrow> u32 \<Rightarrow> 'm DataArray option" where
  "find_array es name tc =
     (case map_of es name of
        None \<Rightarrow> None
      | Some a \<Rightarrow> if array_matches tc a then Some a else None)"

definition get_or_create :: "memory \<Rightarrow> (u8 list \<times> 'm DataArray) list \<Rightarrow> u8 list \<Rightarrow> u32 \<Rightarrow>
    ((u8 list \<times> 'm DataArray) list \<times> ArrayClass) option" where
  "get_or_create am es name tc =
     (case find_array es name tc of
        Some a \<Rightarrow> Some (es, da_class a)
      | None \<Rightarrow>
          if map_of es name \<noteq> None then None
          else if \<not> mem_obj am \<or> \<not> mem_entries am (Suc (length es)) then None
          else Some (es @ [(name, DataArray (new_class tc) [])], new_class tc))"

definition set_items :: "(u8 list \<times> 'm DataArray) list \<Rightarrow> u8 list \<Rightarrow> 'm DataItem list \<Rightarrow>
    (u8 list \<times> 'm DataArray) list" where
  "set_items es name items =
     map (\<lambda>(n, a). (n, if n = name then DataArray (da_class a) items else a)) es"

text \<open>
  One iteration of the loop over the entries.  A failure leaves the entries that were read so far,
  except when it is the data that cannot be read: then the Message is cleared.
\<close>

definition Message_UnflattenEntry ::
    "(u8 list \<Rightarrow> u32 \<Rightarrow> Message option outcome) \<Rightarrow> memory \<Rightarrow> nat \<Rightarrow> (u8 list \<times> Message DataArray) list \<Rightarrow>
     u8 list \<Rightarrow> u32 \<Rightarrow> u32 \<Rightarrow> (status \<times> (u8 list \<times> Message DataArray) list \<times> u32) outcome" where
  "Message_UnflattenEntry unflat am fuel es mem inSize readOffset =
     (let fail = Ok (B_ERROR, es, readOffset) in
      read_u32 mem inSize readOffset fail (\<lambda>nameLength off1.
      if nameLength > inSize - off1 then fail
      else
        obind (SetCstr am (drop (unat off1) mem) (unat nameLength)) (\<lambda>r.
        case r of
          None \<Rightarrow> fail
        | Some entryName \<Rightarrow>
            read_u32 mem inSize (off1 + nameLength) fail (\<lambda>tc off2.
            read_u32 mem inSize off2 fail (\<lambda>eLength off3.
            if eLength > inSize - off3 then fail
            else
              (case get_or_create am es entryName tc of
                 None \<Rightarrow> fail
               | Some (es', c) \<Rightarrow>
                   obind (Array_Unflatten unflat am fuel c (drop (unat off3) mem) eLength) (\<lambda>q.
                   case q of
                     None \<Rightarrow> Ok (B_ERROR, [], off3)
                   | Some items \<Rightarrow> Ok (B_NO_ERROR, set_items es' entryName items, off3 + eLength))))))))"

fun Message_UnflattenEntries ::
    "(u8 list \<Rightarrow> u32 \<Rightarrow> Message option outcome) \<Rightarrow> memory \<Rightarrow> nat \<Rightarrow> nat \<Rightarrow> (u8 list \<times> Message DataArray) list \<Rightarrow>
     u8 list \<Rightarrow> u32 \<Rightarrow> u32 \<Rightarrow> (status \<times> (u8 list \<times> Message DataArray) list) outcome" where
  "Message_UnflattenEntries unflat am fuel 0 es mem inSize readOffset = Ok (B_NO_ERROR, es)"
| "Message_UnflattenEntries unflat am fuel (Suc k) es mem inSize readOffset =
     obind (Message_UnflattenEntry unflat am fuel es mem inSize readOffset) (\<lambda>(st, es', off).
     if st = B_NO_ERROR then Message_UnflattenEntries unflat am fuel k es' mem inSize off
     else Ok (B_ERROR, es'))"

text \<open>\<open>w\<close> is the what-code that the Message has before; the entries are cleared first.\<close>

fun Message_Unflatten :: "memory \<Rightarrow> nat \<Rightarrow> u32 \<Rightarrow> u8 list \<Rightarrow> u32 \<Rightarrow> (status \<times> Message) outcome" where
  "Message_Unflatten am 0 w mem inSize = Spin"
| "Message_Unflatten am (Suc fuel) w mem inSize =
     read_u32 mem inSize 0 (Ok (B_ERROR, Msg w [])) (\<lambda>messageProtocolVersion off1.
     if messageProtocolVersion < OLDEST_SUPPORTED_PROTOCOL_VERSION
        \<or> messageProtocolVersion > CURRENT_PROTOCOL_VERSION then Ok (B_ERROR, Msg w [])
     else
       read_u32 mem inSize off1 (Ok (B_ERROR, Msg w [])) (\<lambda>w' off2.
       read_u32 mem inSize off2 (Ok (B_ERROR, Msg w' [])) (\<lambda>numEntries off3.
       obind (Message_UnflattenEntries
                (\<lambda>mem' n. obind (Message_Unflatten am fuel 0 mem' n) (\<lambda>r.
                   Ok (if fst r = B_NO_ERROR then Some (snd r) else None)))
                am fuel (unat numEntries) [] mem inSize off3) (\<lambda>r.
       Ok (fst r, Msg w' (snd r))))))"

subsection \<open>Checksum and comparison\<close>

fun Message_CalculateChecksum :: "bool \<Rightarrow> Message \<Rightarrow> u32" where
  "Message_CalculateChecksum countNonFlattenableFields (Msg w es) =
     w + sum_list (map (\<lambda>(name, a).
       if countNonFlattenableFields \<or> Array_IsFlattenable a then
         let fnChk = CalculateChecksum name in
         fnChk + (if fnChk = 0 then 1 else 0)
         + fnChk * Array_CalculateChecksum (Message_CalculateChecksum countNonFlattenableFields) a
       else 0) es)"

text \<open>
  \<^verbatim>\<open>operator ==\<close> with \<^verbatim>\<open>FieldsAreSubsetOf(rhs, true)\<close>, for two different objects: a Message that is
  compared with itself is equal at once, which makes a difference only for NaNs.
\<close>

fun Message_equals :: "Message \<Rightarrow> Message \<Rightarrow> bool" where
  "Message_equals (Msg w es) rhs \<longleftrightarrow>
     w = m_what rhs \<and> length es = length (m_entries rhs)
     \<and> list_all (\<lambda>(name, a).
         case map_of (m_entries rhs) name of
           None \<Rightarrow> False
         | Some b \<Rightarrow> Array_IsEqualTo Message_equals a b True) es"

definition FieldsAreSubsetOf :: "Message \<Rightarrow> Message \<Rightarrow> bool \<Rightarrow> bool" where
  "FieldsAreSubsetOf lhs rhs compareContents \<longleftrightarrow>
     list_all (\<lambda>(name, a).
       case map_of (m_entries rhs) name of
         None \<Rightarrow> False
       | Some b \<Rightarrow> Array_IsEqualTo Message_equals a b compareContents) (m_entries lhs)"

lemma Message_equals_subset:
  "Message_equals m rhs \<longleftrightarrow>
     m_what m = m_what rhs \<and> length (m_entries m) = length (m_entries rhs) \<and> FieldsAreSubsetOf m rhs True"
  by (cases m) (simp add: FieldsAreSubsetOf_def)

subsection \<open>Looking up\<close>

definition Message_GetArray :: "Message \<Rightarrow> u8 list \<Rightarrow> u32 \<Rightarrow> Message DataArray option" where
  "Message_GetArray m name tc = find_array (m_entries m) name tc"

definition Message_GetInfo :: "Message \<Rightarrow> u8 list \<Rightarrow> (u32 \<times> u32 \<times> bool) option" where
  "Message_GetInfo m name =
     (case Message_GetArray m name B_ANY_TYPE of
        None \<Rightarrow> None
      | Some a \<Rightarrow> Some (Array_TypeCode a, Array_GetNumItems a, Array_ElementsAreFixedSize a))"

definition Message_GetNumNames :: "Message \<Rightarrow> u32 \<Rightarrow> u32" where
  "Message_GetNumNames m tc =
     (if tc = B_ANY_TYPE then word_of_nat (length (m_entries m))
      else word_of_nat (length (filter (\<lambda>(n, a). Array_TypeCode a = tc) (m_entries m))))"

definition Message_GetNumValuesInName :: "Message \<Rightarrow> u8 list \<Rightarrow> u32 \<Rightarrow> u32" where
  "Message_GetNumValuesInName m name tc =
     (case Message_GetArray m name tc of None \<Rightarrow> 0 | Some a \<Rightarrow> Array_GetNumItems a)"

text \<open>
  The \<^verbatim>\<open>Find\<close> methods for the built-in types (\<open>tc\<close> is the method's): an item of the array of that
  name and type.
\<close>

definition Message_FindItem :: "Message \<Rightarrow> u32 \<Rightarrow> u8 list \<Rightarrow> u32 \<Rightarrow> Message DataItem option" where
  "Message_FindItem m tc name index =
     (case Message_GetArray m name tc of None \<Rightarrow> None | Some a \<Rightarrow> Array_FindDataItem index a)"

end
