(* ===== verification/Message_Store.thy ===== *)
theory Message_Store
  imports Message_Model
begin

section \<open>Messages as objects with shared arrays\<close>

text \<open>
  The methods of \<^verbatim>\<open>source/muscle/message/Message.cpp\<close> that change a Message.  The table of a Message
  holds counted references to its arrays, and more than one Message may refer to the same array
  (\<^verbatim>\<open>ShareName\<close>, \<^verbatim>\<open>BecomeLightweightCopyOf\<close>), which then see each other's changes.  The state is
  a store: the arrays, by address, and the Message objects whose tables refer to them.  Arrays are not
  removed from the store; one that nobody refers to is one that has been freed.

  \<open>view w k\<close> is the value of the object \<open>k\<close>, as the methods of theory \<open>Message_Model\<close> read it.
\<close>

record mobj =
  mo_what :: u32
  mo_entries :: "(u8 list \<times> nat) list"

record world =
  w_arrays :: "Message DataArray list"
  w_objs :: "mobj list"

definition array_at :: "world \<Rightarrow> nat \<Rightarrow> Message DataArray" where "array_at w r = w_arrays w ! r"
definition entries_of :: "world \<Rightarrow> nat \<Rightarrow> (u8 list \<times> nat) list" where "entries_of w k = mo_entries (w_objs w ! k)"
definition what_of :: "world \<Rightarrow> nat \<Rightarrow> u32" where "what_of w k = mo_what (w_objs w ! k)"

definition put_array :: "world \<Rightarrow> nat \<Rightarrow> Message DataArray \<Rightarrow> world" where
  "put_array w r a = w\<lparr>w_arrays := (w_arrays w)[r := a]\<rparr>"

definition new_array :: "world \<Rightarrow> Message DataArray \<Rightarrow> nat \<times> world" where
  "new_array w a = (length (w_arrays w), w\<lparr>w_arrays := w_arrays w @ [a]\<rparr>)"

definition set_entries :: "world \<Rightarrow> nat \<Rightarrow> (u8 list \<times> nat) list \<Rightarrow> world" where
  "set_entries w k es = w\<lparr>w_objs := (w_objs w)[k := (w_objs w ! k)\<lparr>mo_entries := es\<rparr>]\<rparr>"

definition set_what :: "world \<Rightarrow> nat \<Rightarrow> u32 \<Rightarrow> world" where
  "set_what w k v = w\<lparr>w_objs := (w_objs w)[k := (w_objs w ! k)\<lparr>mo_what := v\<rparr>]\<rparr>"

definition view :: "world \<Rightarrow> nat \<Rightarrow> Message" where
  "view w k = Msg (what_of w k) (map (\<lambda>(n, r). (n, array_at w r)) (entries_of w k))"

subsection \<open>The table\<close>

text \<open>\<^verbatim>\<open>_entries.Put\<close>, \<^verbatim>\<open>_entries.Remove\<close> and \<^verbatim>\<open>GetRefCount\<close> of an array.\<close>

definition put_entry :: "memory \<Rightarrow> world \<Rightarrow> nat \<Rightarrow> u8 list \<Rightarrow> nat \<Rightarrow> status \<times> world" where
  "put_entry am w k name r =
     (let es = entries_of w k in
      if map_of es name \<noteq> None then (B_NO_ERROR, set_entries w k (map (\<lambda>(n, q). (n, if n = name then r else q)) es))
      else if mem_entries am (Suc (length es)) then (B_NO_ERROR, set_entries w k (es @ [(name, r)]))
      else (B_ERROR, w))"

definition Message_RemoveName :: "world \<Rightarrow> nat \<Rightarrow> u8 list \<Rightarrow> status \<times> world" where
  "Message_RemoveName w k name =
     (let es = entries_of w k in
      if map_of es name = None then (B_ERROR, w)
      else (B_NO_ERROR, set_entries w k (filter (\<lambda>(n, q). n \<noteq> name) es)))"

definition ref_count :: "world \<Rightarrow> nat \<Rightarrow> nat" where
  "ref_count w r = sum_list (map (\<lambda>ob. length (filter (\<lambda>(n, q). q = r) (mo_entries ob))) (w_objs w))"

definition ref_GetArray :: "world \<Rightarrow> nat \<Rightarrow> u8 list \<Rightarrow> u32 \<Rightarrow> nat option" where
  "ref_GetArray w k name tc =
     (case map_of (entries_of w k) name of
        None \<Rightarrow> None
      | Some r \<Rightarrow> if array_matches tc (array_at w r) then Some r else None)"

definition GetOrCreateArray :: "memory \<Rightarrow> world \<Rightarrow> nat \<Rightarrow> u8 list \<Rightarrow> u32 \<Rightarrow> nat option \<times> world" where
  "GetOrCreateArray am w k name tc =
     (case ref_GetArray w k name tc of
        Some r \<Rightarrow> (Some r, w)
      | None \<Rightarrow>
          if map_of (entries_of w k) name \<noteq> None then (None, w)
          else if \<not> mem_obj am then (None, w)
          else
            let (r, w1) = new_array w (DataArray (new_class tc) []); (st, w2) = put_entry am w1 k name r in
            if st = B_NO_ERROR then (Some r, w2) else (None, w))"

subsection \<open>Adding and replacing values\<close>

text \<open>
  The methods \<^verbatim>\<open>AddString\<close>, \<^verbatim>\<open>AddInt8\<close>, ..., \<^verbatim>\<open>AddMessage\<close> and \<^verbatim>\<open>Prepend...\<close> differ in the type
  code and the type of the value only; \<^verbatim>\<open>AddFlat\<close>, \<^verbatim>\<open>PrependFlat\<close> and \<^verbatim>\<open>ReplaceFlat\<close> do the same for
  a reference to a \<^verbatim>\<open>ByteBuffer\<close> (and go on to the methods for Messages for one to a Message).  A NULL
  reference is refused.
\<close>

definition item_code :: "'m DataItem \<Rightarrow> u32" where
  "item_code x =
     (case x of
        BoolItem _ \<Rightarrow> B_BOOL_TYPE | Int8Item _ \<Rightarrow> B_INT8_TYPE | Int16Item _ \<Rightarrow> B_INT16_TYPE
      | Int32Item _ \<Rightarrow> B_INT32_TYPE | Int64Item _ \<Rightarrow> B_INT64_TYPE | FloatItem _ \<Rightarrow> B_FLOAT_TYPE
      | DoubleItem _ \<Rightarrow> B_DOUBLE_TYPE | PointerItem _ \<Rightarrow> B_POINTER_TYPE | PointItem _ _ \<Rightarrow> B_POINT_TYPE
      | RectItem _ _ _ _ \<Rightarrow> B_RECT_TYPE | StringItem _ \<Rightarrow> B_STRING_TYPE | MessageItem _ \<Rightarrow> B_MESSAGE_TYPE
      | FlatItem _ \<Rightarrow> B_RAW_TYPE | TagItem _ \<Rightarrow> B_TAG_TYPE)"

definition add_data :: "memory \<Rightarrow> bool \<Rightarrow> world \<Rightarrow> nat \<Rightarrow> u8 list \<Rightarrow> u32 \<Rightarrow> Message DataPtr \<Rightarrow> nat \<Rightarrow> bool \<Rightarrow>
    (status \<times> world) outcome" where
  "add_data am big w k name tc p sz prepend =
     (case GetOrCreateArray am w k name tc of
        (None, w1) \<Rightarrow> Ok (B_ERROR, w1)
      | (Some r, w1) \<Rightarrow>
          obind (if prepend then Array_PrependDataItem am big p sz (array_at w1 r)
                 else Array_AddDataItem am big p sz (array_at w1 r)) (\<lambda>(st, a).
          Ok (st, put_array w1 r a)))"

definition Message_Add :: "memory \<Rightarrow> bool \<Rightarrow> world \<Rightarrow> nat \<Rightarrow> u8 list \<Rightarrow> Message DataItem \<Rightarrow> (status \<times> world) outcome" where
  "Message_Add am big w k name x =
     (if x = TagItem None \<or> is_null_item x then Ok (B_ERROR, w)
      else add_data am big w k name (item_code x) (ItemPtr x) (class_sizeof (new_class (item_code x))) False)"

definition Message_Prepend :: "memory \<Rightarrow> bool \<Rightarrow> world \<Rightarrow> nat \<Rightarrow> u8 list \<Rightarrow> Message DataItem \<Rightarrow> (status \<times> world) outcome" where
  "Message_Prepend am big w k name x =
     (if x = TagItem None \<or> is_null_item x then Ok (B_ERROR, w)
      else add_data am big w k name (item_code x) (ItemPtr x) (class_sizeof (new_class (item_code x))) True)"

definition replace_data :: "bool \<Rightarrow> world \<Rightarrow> nat \<Rightarrow> u32 \<Rightarrow> Message DataPtr \<Rightarrow> nat \<Rightarrow> (status \<times> world) outcome" where
  "replace_data big w r index p sz =
     obind (Array_ReplaceDataItem big index p sz (array_at w r)) (\<lambda>(st, a). Ok (st, put_array w r a))"

text \<open>The index is not less than the number of items, or there is no array.\<close>

definition beyond :: "world \<Rightarrow> nat option \<Rightarrow> u32 \<Rightarrow> bool" where
  "beyond w ref index \<longleftrightarrow> (case ref of None \<Rightarrow> True | Some r \<Rightarrow> index \<ge> Array_GetNumItems (array_at w r))"

definition Message_Replace :: "memory \<Rightarrow> bool \<Rightarrow> world \<Rightarrow> nat \<Rightarrow> bool \<Rightarrow> u8 list \<Rightarrow> u32 \<Rightarrow> Message DataItem \<Rightarrow>
    (status \<times> world) outcome" where
  "Message_Replace am big w k okayToAdd name index x =
     (if x = TagItem None \<or> is_null_item x then Ok (B_ERROR, w)
      else
        let array = ref_GetArray w k name (item_code x) in
        if okayToAdd \<and> beyond w array index then Message_Add am big w k name x
        else
          (case array of
             None \<Rightarrow> Ok (B_ERROR, w)
           | Some r \<Rightarrow> replace_data big w r index (ItemPtr x) (class_sizeof (new_class (item_code x)))))"

subsection \<open>Flattened objects and raw data\<close>

text \<open>\<^verbatim>\<open>AddFlatAux\<close>: \<open>buf\<close> is the flattened object, \<open>None\<close> for a NULL reference.\<close>

definition AddFlatAux :: "memory \<Rightarrow> bool \<Rightarrow> world \<Rightarrow> nat \<Rightarrow> u8 list \<Rightarrow> u8 list option \<Rightarrow> u32 \<Rightarrow> bool \<Rightarrow>
    (status \<times> world) outcome" where
  "AddFlatAux am big w k name buf tc prepend =
     (if buf = None then Ok (B_ERROR, w)
      else add_data am big w k name tc (ItemPtr (FlatItem buf)) 8 prepend)"

definition GetElementSize :: "u32 \<Rightarrow> nat" where
  "GetElementSize tc =
     (case new_class tc of ByteBufferArray _ \<Rightarrow> 0 | TagArray \<Rightarrow> 0 | c \<Rightarrow> class_sizeof c)"

text \<open>
  The loop of \<^verbatim>\<open>AddDataAux\<close> from item \<open>i\<close> on: \<open>n\<close> items are left.  \<open>data\<close> is the memory at \<^verbatim>\<open>data\<close>,
  \<open>None\<close> for NULL; a byte buffer made from NULL holds what was in its memory, \<open>garbage\<close>.
\<close>

definition data_pointer :: "memory \<Rightarrow> bool \<Rightarrow> u8 list \<Rightarrow> u8 list option \<Rightarrow> nat \<Rightarrow> nat \<Rightarrow>
    (Message DataPtr \<times> nat) option outcome" where
  "data_pointer am isVariableSize garbage data off elementSize =
     (if isVariableSize then
        if \<not> mem_obj am \<or> \<not> mem_bytes am elementSize then Ok None
        else
          obind (case data of
                   None \<Rightarrow> Ok (take elementSize (garbage @ replicate elementSize 0))
                 | Some d \<Rightarrow> mem_read d off elementSize) (\<lambda>bs.
          Ok (Some (ItemPtr (FlatItem (Some bs)), 8)))
      else
        Ok (Some (case data of None \<Rightarrow> NullPtr | Some d \<Rightarrow> RawPtr (drop off d), elementSize)))"

fun AddDataLoop :: "memory \<Rightarrow> bool \<Rightarrow> u8 list \<Rightarrow> nat \<Rightarrow> nat \<Rightarrow> world \<Rightarrow> nat \<Rightarrow> bool \<Rightarrow> u8 list option \<Rightarrow> nat \<Rightarrow> bool \<Rightarrow>
    (status \<times> world) outcome" where
  "AddDataLoop am big garbage 0 i w r isVariableSize data elementSize prepend = Ok (B_NO_ERROR, w)"
| "AddDataLoop am big garbage (Suc n) i w r isVariableSize data elementSize prepend =
     obind (data_pointer am isVariableSize garbage data (i * elementSize) elementSize) (\<lambda>q.
     case q of
       None \<Rightarrow> Ok (B_ERROR, w)
     | Some (p, sz) \<Rightarrow>
         obind (if prepend then Array_PrependDataItem am big p sz (array_at w r)
                else Array_AddDataItem am big p sz (array_at w r)) (\<lambda>(st, a).
         if st = B_NO_ERROR
         then AddDataLoop am big garbage n (Suc i) (put_array w r a) r isVariableSize data elementSize prepend
         else Ok (B_ERROR, put_array w r a)))"

text \<open>\<^verbatim>\<open>String temp((const char *)data)\<close>.\<close>

definition temp_string :: "memory \<Rightarrow> u8 list option \<Rightarrow> u8 list outcome" where
  "temp_string am data =
     (case data of
        None \<Rightarrow> Ok []
      | Some d \<Rightarrow> obind (SetCstr am d (2 ^ 32 - 1)) (\<lambda>r. Ok (case r of None \<Rightarrow> [] | Some s \<Rightarrow> s)))"

definition AddDataAux :: "memory \<Rightarrow> bool \<Rightarrow> u8 list \<Rightarrow> world \<Rightarrow> nat \<Rightarrow> u8 list \<Rightarrow> u8 list option \<Rightarrow> u32 \<Rightarrow> u32 \<Rightarrow> bool \<Rightarrow>
    (status \<times> world) outcome" where
  "AddDataAux am big garbage w k name data numBytes tc prepend =
     (if numBytes = 0 then Ok (B_ERROR, w)
      else if tc = B_STRING_TYPE then
        obind (temp_string am data) (\<lambda>temp.
        if prepend then Message_Prepend am big w k name (StringItem temp)
        else Message_Add am big w k name (StringItem temp))
      else
        let isVariableSize = (GetElementSize tc = 0);
            elementSize = (if isVariableSize then unat numBytes else GetElementSize tc) in
        if unat numBytes mod elementSize \<noteq> 0 then Ok (B_ERROR, w)
        else
          (case GetOrCreateArray am w k name tc of
             (None, w1) \<Rightarrow> Ok (B_ERROR, w1)
           | (Some r, w1) \<Rightarrow>
               AddDataLoop am big garbage (unat numBytes div elementSize) 0 w1 r isVariableSize data elementSize
                 prepend))"

text \<open>
  \<^verbatim>\<open>ReplaceData\<close>: its loop runs over the indices of the items to be replaced, and reads the new item
  \<open>i\<close> from \<^verbatim>\<open>&dataBuf[i*elementSize]\<close>, with the same \<open>i\<close>.
\<close>

fun ReplaceDataLoop :: "memory \<Rightarrow> bool \<Rightarrow> nat \<Rightarrow> u32 \<Rightarrow> world \<Rightarrow> nat \<Rightarrow> bool \<Rightarrow> u8 list \<Rightarrow> nat \<Rightarrow>
    (status \<times> world) outcome" where
  "ReplaceDataLoop am big 0 i w r isVariableSize data elementSize = Ok (B_NO_ERROR, w)"
| "ReplaceDataLoop am big (Suc n) i w r isVariableSize data elementSize =
     obind (data_pointer am isVariableSize [] (Some data) (unat (i * word_of_nat elementSize)) elementSize) (\<lambda>q.
     case q of
       None \<Rightarrow> Ok (B_ERROR, w)
     | Some (p, sz) \<Rightarrow>
         obind (replace_data big w r i p sz) (\<lambda>(st, w').
         if st = B_NO_ERROR then ReplaceDataLoop am big n (i + 1) w' r isVariableSize data elementSize
         else Ok (B_ERROR, w')))"

definition Message_ReplaceData :: "memory \<Rightarrow> bool \<Rightarrow> u8 list \<Rightarrow> world \<Rightarrow> nat \<Rightarrow> bool \<Rightarrow> u8 list \<Rightarrow> u32 \<Rightarrow> u32 \<Rightarrow> u8 list \<Rightarrow>
    u32 \<Rightarrow> (status \<times> world) outcome" where
  "Message_ReplaceData am big garbage w k okayToAdd name tc index data numBytes =
     (if tc = B_STRING_TYPE then
        obind (temp_string am (Some data)) (\<lambda>temp. Message_Replace am big w k okayToAdd name index (StringItem temp))
      else
        let array = ref_GetArray w k name tc in
        if okayToAdd \<and> beyond w array index then AddDataAux am big garbage w k name (Some data) numBytes tc False
        else
          (case array of
             None \<Rightarrow> Ok (B_ERROR, w)
           | Some r \<Rightarrow>
               let isVariableSize = (GetElementSize tc = 0);
                   elementSize = (if isVariableSize then unat numBytes else GetElementSize tc) in
               if elementSize = 0 then Ok (B_ERROR, w)
               else if unat numBytes mod elementSize \<noteq> 0 then Ok (B_ERROR, w)
               else
                 let numElements = word_of_nat (unat numBytes div elementSize) in
                 if index < index + numElements
                 then ReplaceDataLoop am big (unat numElements) index w r isVariableSize data elementSize
                 else Ok (B_NO_ERROR, w)))"

text \<open>
  \<^verbatim>\<open>ReplaceFlatAux\<close> with \<^verbatim>\<open>ReplaceDataAux\<close>: a flattened object \<open>buf\<close> of the type \<open>tc\<close> is to replace an
  item.  When there is none, \<^verbatim>\<open>AddDataAux\<close> is given the address of the reference to the object as if it
  were its data: \<open>ref_bytes\<close> are the eight bytes of that reference.
\<close>

definition ReplaceFlatAux :: "memory \<Rightarrow> bool \<Rightarrow> u8 list \<Rightarrow> world \<Rightarrow> nat \<Rightarrow> bool \<Rightarrow> u8 list \<Rightarrow> u32 \<Rightarrow> u8 list option \<Rightarrow>
    u8 list \<Rightarrow> u32 \<Rightarrow> (status \<times> world) outcome" where
  "ReplaceFlatAux am big garbage w k okayToAdd name index buf ref_bytes tc =
     (let array = ref_GetArray w k name tc in
      if okayToAdd \<and> beyond w array index then AddDataAux am big garbage w k name (Some ref_bytes) 8 tc False
      else
        (case array of
           None \<Rightarrow> Ok (B_ERROR, w)
         | Some r \<Rightarrow> replace_data big w r index (ItemPtr (FlatItem buf)) 8))"

subsection \<open>Removing and renaming\<close>

definition Message_RemoveData :: "world \<Rightarrow> nat \<Rightarrow> u8 list \<Rightarrow> u32 \<Rightarrow> status \<times> world" where
  "Message_RemoveData w k name index =
     (case ref_GetArray w k name B_ANY_TYPE of
        None \<Rightarrow> (B_ERROR, w)
      | Some r \<Rightarrow>
          let (ret, a) = Array_RemoveDataItem index (array_at w r); w1 = put_array w r a in
          if da_items a = [] then Message_RemoveName w1 k name else (ret, w1))"

definition Message_Rename :: "memory \<Rightarrow> world \<Rightarrow> nat \<Rightarrow> u8 list \<Rightarrow> u8 list \<Rightarrow> status \<times> world" where
  "Message_Rename am w k oldFieldName newFieldName =
     (case map_of (entries_of w k) oldFieldName of
        None \<Rightarrow> (B_ERROR, w)
      | Some oldArray \<Rightarrow>
          let w1 = snd (Message_RemoveName w k newFieldName);
              w2 = snd (Message_RemoveName w1 k oldFieldName) in
          put_entry am w2 k newFieldName oldArray)"

definition Message_Clear :: "world \<Rightarrow> nat \<Rightarrow> world" where
  "Message_Clear w k = set_entries w k []"

subsection \<open>Copying, sharing and moving fields\<close>

text \<open>\<^verbatim>\<open>Clone\<close>: a new array with the same items, or without items if there is no memory for them.\<close>

definition clone_array :: "memory \<Rightarrow> world \<Rightarrow> nat \<Rightarrow> (nat \<times> world) option" where
  "clone_array am w r =
     (let a = array_at w r in
      if mem_obj am
      then Some (new_array w (if mem_items am (length (da_items a)) then a else DataArray (da_class a) []))
      else None)"

definition Message_CopyName :: "memory \<Rightarrow> world \<Rightarrow> nat \<Rightarrow> u8 list \<Rightarrow> nat \<Rightarrow> u8 list \<Rightarrow> status \<times> world" where
  "Message_CopyName am w k oldFieldName copyTo newFieldName =
     (case ref_GetArray w k oldFieldName B_ANY_TYPE of
        None \<Rightarrow> (B_ERROR, w)
      | Some r \<Rightarrow>
          (case clone_array am w r of
             None \<Rightarrow> (B_ERROR, w)
           | Some (clone, w1) \<Rightarrow> put_entry am w1 copyTo newFieldName clone))"

definition Message_ShareName :: "memory \<Rightarrow> world \<Rightarrow> nat \<Rightarrow> u8 list \<Rightarrow> nat \<Rightarrow> u8 list \<Rightarrow> status \<times> world" where
  "Message_ShareName am w k oldFieldName shareTo newFieldName =
     (case map_of (entries_of w k) oldFieldName of
        None \<Rightarrow> (B_ERROR, w)
      | Some r \<Rightarrow> put_entry am w shareTo newFieldName r)"

text \<open>\<^verbatim>\<open>MoveName\<close> shares the field under its old name, and removes the new name from this Message.\<close>

definition Message_MoveName :: "memory \<Rightarrow> world \<Rightarrow> nat \<Rightarrow> u8 list \<Rightarrow> nat \<Rightarrow> u8 list \<Rightarrow> status \<times> world" where
  "Message_MoveName am w k oldFieldName moveTo newFieldName =
     (let (st, w1) = Message_ShareName am w k oldFieldName moveTo oldFieldName in
      if st = B_NO_ERROR then (B_NO_ERROR, snd (Message_RemoveName w1 k newFieldName)) else (B_ERROR, w1))"

definition EnsureFieldIsPrivate :: "memory \<Rightarrow> world \<Rightarrow> nat \<Rightarrow> u8 list \<Rightarrow> status \<times> world" where
  "EnsureFieldIsPrivate am w k name =
     (case map_of (entries_of w k) name of
        None \<Rightarrow> (B_ERROR, w)
      | Some r \<Rightarrow> if ref_count w r = 1 then (B_NO_ERROR, w) else Message_CopyName am w k name k name)"

subsection \<open>Whole Messages\<close>

text \<open>\<^verbatim>\<open>operator =\<close>: a clone of every field that memory allows.\<close>

fun clone_fields :: "memory \<Rightarrow> world \<Rightarrow> nat \<Rightarrow> (u8 list \<times> nat) list \<Rightarrow> world" where
  "clone_fields am w k [] = w"
| "clone_fields am w k ((name, r) # es) =
     (case clone_array am w r of
        None \<Rightarrow> clone_fields am w k es
      | Some (clone, w1) \<Rightarrow> clone_fields am (snd (put_entry am w1 k name clone)) k es)"

definition Message_assign :: "memory \<Rightarrow> world \<Rightarrow> nat \<Rightarrow> nat \<Rightarrow> world" where
  "Message_assign am w k rhs =
     (if k = rhs then w
      else clone_fields am (set_what (Message_Clear w k) k (what_of w rhs)) k (entries_of w rhs))"

definition BecomeLightweightCopyOf :: "world \<Rightarrow> nat \<Rightarrow> nat \<Rightarrow> world" where
  "BecomeLightweightCopyOf w k rhs = set_entries (set_what w k (what_of w rhs)) k (entries_of w rhs)"

definition Message_SwapContents :: "world \<Rightarrow> nat \<Rightarrow> nat \<Rightarrow> world" where
  "Message_SwapContents w k l =
     set_entries (set_entries (set_what (set_what w k (what_of w l)) l (what_of w k)) k (entries_of w l)) l (entries_of w k)"

text \<open>\<^verbatim>\<open>Unflatten\<close> of an object: the table gets new arrays with what was read.\<close>

definition Message_UnflattenObject :: "memory \<Rightarrow> nat \<Rightarrow> world \<Rightarrow> nat \<Rightarrow> u8 list \<Rightarrow> u32 \<Rightarrow> (status \<times> world) outcome" where
  "Message_UnflattenObject am fuel w k mem inSize =
     obind (Message_Unflatten am fuel (what_of w k) mem inSize) (\<lambda>(st, m).
     let n = length (w_arrays w);
         w1 = w\<lparr>w_arrays := w_arrays w @ map snd (m_entries m)\<rparr> in
     Ok (st, set_entries (set_what w1 k (m_what m)) k (zip (map fst (m_entries m)) [n..<n + length (m_entries m)])))"

end
