(* ===== verification/Message_Reach.thy ===== *)
theory Message_Reach
  imports Message_Store
begin

section \<open>What the methods of a Message keep\<close>

text \<open>
  The invariant of the store: every table has a name once and refers to arrays that exist, and every
  array holds items of its class, which is the class for its type code.  Every call of a method keeps
  it, whatever memory there is, and the methods of the built-in types return from every state in
  which it holds.
\<close>

definition array_ok :: "'m DataArray \<Rightarrow> bool" where
  "array_ok a \<longleftrightarrow> da_class a = new_class (class_code (da_class a)) \<and> list_all (has_class (da_class a)) (da_items a)"

definition object_ok :: "nat \<Rightarrow> mobj \<Rightarrow> bool" where
  "object_ok n ob \<longleftrightarrow> distinct (map fst (mo_entries ob)) \<and> list_all (\<lambda>(_, r). r < n) (mo_entries ob)"

definition world_ok :: "world \<Rightarrow> bool" where
  "world_ok w \<longleftrightarrow> list_all array_ok (w_arrays w) \<and> list_all (object_ok (length (w_arrays w))) (w_objs w)"

abbreviation objects :: "world \<Rightarrow> nat" where "objects w \<equiv> length (w_objs w)"

lemma new_class_code [simp]: "class_code (new_class tc) = tc"
  by (simp add: new_class_def)

lemma item_has_class: "c = new_class (class_code c) \<Longrightarrow> class_code c = item_code x \<Longrightarrow> has_class c x"
  by (erule ssubst [of c "new_class (class_code c)"])
    (cases x; simp add: item_code_def has_class_def new_class_def B_TAG_TYPE_def B_RAW_TYPE_def
       B_BOOL_TYPE_def B_INT8_TYPE_def B_INT16_TYPE_def B_INT32_TYPE_def B_INT64_TYPE_def B_FLOAT_TYPE_def
       B_DOUBLE_TYPE_def B_POINTER_TYPE_def B_POINT_TYPE_def B_RECT_TYPE_def B_STRING_TYPE_def B_MESSAGE_TYPE_def)

lemma item_code_not_any: "item_code x \<noteq> B_ANY_TYPE"
  by (cases x; simp add: item_code_def B_ANY_TYPE_def B_TAG_TYPE_def B_RAW_TYPE_def
       B_BOOL_TYPE_def B_INT8_TYPE_def B_INT16_TYPE_def B_INT32_TYPE_def B_INT64_TYPE_def B_FLOAT_TYPE_def
       B_DOUBLE_TYPE_def B_POINTER_TYPE_def B_POINT_TYPE_def B_RECT_TYPE_def B_STRING_TYPE_def B_MESSAGE_TYPE_def)

subsection \<open>Arrays\<close>

lemma has_class_default: "has_class c (default_item c)"
  by (cases c) (simp_all add: has_class_def)

lemma has_class_fixed: "is_value_class c \<Longrightarrow> has_class c (fixed_item c bs)"
  by (cases c) (simp_all add: has_class_def is_value_class_def)

lemma stored_item_has_class: "stored_item big c p = Ok x \<Longrightarrow> has_class c x"
  by (cases p) (auto simp: stored_item_def host_item_def has_class_default simp del: fixed_item.simps
      intro!: has_class_fixed split: if_split_asm)

lemma array_ok_new [simp]: "array_ok (DataArray (new_class tc) [])"
  by (simp add: array_ok_def)

lemma array_ok_items:
  "array_ok a \<Longrightarrow> list_all (has_class (da_class a)) xs \<Longrightarrow> array_ok (DataArray (da_class a) xs)"
  by (simp add: array_ok_def)

lemma array_ok_class [simp]: "array_ok a \<Longrightarrow> array_ok (DataArray (da_class a) [])"
  by (simp add: array_ok_def)

lemma Array_AddDataItem_ok:
  "Array_AddDataItem am big p sz a = Ok (st, b) \<Longrightarrow> array_ok a \<Longrightarrow> array_ok b"
  by (auto simp: Array_AddDataItem_def obind_eq_Ok array_ok_def dest: stored_item_has_class split: if_splits)

lemma Array_PrependDataItem_ok:
  "Array_PrependDataItem am big p sz a = Ok (st, b) \<Longrightarrow> array_ok a \<Longrightarrow> array_ok b"
  by (auto simp: Array_PrependDataItem_def obind_eq_Ok array_ok_def dest: stored_item_has_class split: if_splits)

lemma Array_ReplaceDataItem_ok:
  assumes "Array_ReplaceDataItem big i p sz a = Ok (st, b)" "array_ok a"
  shows "array_ok b"
proof -
  have "list_all P xs \<Longrightarrow> P x \<Longrightarrow> list_all P (xs[j := x])" for P and xs :: "'a DataItem list" and x j
    by (auto simp: list_all_iff dest: subsetD [OF set_update_subset_insert])
  then show ?thesis using assms
    by (auto simp: Array_ReplaceDataItem_def obind_eq_Ok array_ok_def dest: stored_item_has_class split: if_splits)
qed

lemma Array_RemoveDataItem_ok: "array_ok a \<Longrightarrow> array_ok (snd (Array_RemoveDataItem i a))"
  by (auto simp: Array_RemoveDataItem_def Let_def array_ok_def list_all_iff dest: in_set_takeD in_set_dropD)

subsection \<open>The store\<close>

lemma world_put_array [simp]:
  "w_objs (put_array w r a) = w_objs w" "length (w_arrays (put_array w r a)) = length (w_arrays w)"
  "entries_of (put_array w r a) k = entries_of w k" "what_of (put_array w r a) k = what_of w k"
  by (simp_all add: put_array_def entries_of_def what_of_def)

lemma world_set_entries [simp]:
  "w_arrays (set_entries w k es) = w_arrays w" "objects (set_entries w k es) = objects w"
  "array_at (set_entries w k es) = array_at w"
  "k < objects w \<Longrightarrow> entries_of (set_entries w k es) l = (if l = k then es else entries_of w l)"
  "what_of (set_entries w k es) l = what_of w l"
  by (cases "k < objects w"; auto simp: set_entries_def entries_of_def what_of_def array_at_def fun_eq_iff
      nth_list_update list_update_beyond)+

lemma world_set_what [simp]:
  "w_arrays (set_what w k v) = w_arrays w" "objects (set_what w k v) = objects w"
  "array_at (set_what w k v) = array_at w"
  "entries_of (set_what w k v) l = entries_of w l"
  "k < objects w \<Longrightarrow> what_of (set_what w k v) l = (if l = k then v else what_of w l)"
  by (cases "k < objects w"; auto simp: set_what_def entries_of_def what_of_def array_at_def fun_eq_iff
      nth_list_update list_update_beyond)+

lemma object_ok_mono: "object_ok n ob \<Longrightarrow> n \<le> m \<Longrightarrow> object_ok m ob"
  by (auto simp: object_ok_def list_all_iff)

lemma world_ok_put_array: "world_ok w \<Longrightarrow> array_ok a \<Longrightarrow> world_ok (put_array w r a)"
  by (auto simp: world_ok_def put_array_def list_all_iff dest: subsetD [OF set_update_subset_insert])

lemma world_ok_array: "world_ok w \<Longrightarrow> r < length (w_arrays w) \<Longrightarrow> array_ok (array_at w r)"
  by (auto simp: world_ok_def array_at_def list_all_iff)

lemma world_ok_object: "world_ok w \<Longrightarrow> k < objects w \<Longrightarrow> object_ok (length (w_arrays w)) (w_objs w ! k)"
  by (simp add: world_ok_def list_all_length)

lemma world_ok_set_what: "world_ok w \<Longrightarrow> world_ok (set_what w k v)"
proof (cases "k < objects w")
  case True
  assume w: "world_ok w"
  show ?thesis using w world_ok_object [OF w True]
    by (auto simp: world_ok_def set_what_def list_all_iff object_ok_def dest!: subsetD [OF set_update_subset_insert])
qed (simp add: set_what_def list_update_beyond)

lemma world_ok_set_entries:
  "world_ok w \<Longrightarrow> distinct (map fst es) \<Longrightarrow> list_all (\<lambda>(_, r). r < length (w_arrays w)) es \<Longrightarrow>
   world_ok (set_entries w k es)"
  by (auto simp: world_ok_def set_entries_def list_all_iff object_ok_def dest!: subsetD [OF set_update_subset_insert])

lemma world_ok_new_array: "world_ok w \<Longrightarrow> array_ok a \<Longrightarrow> world_ok (snd (new_array w a))"
  by (auto simp: world_ok_def new_array_def list_all_iff intro: object_ok_mono)

lemma world_ok_entries:
  assumes "world_ok w" "k < objects w"
  shows "distinct (map fst (entries_of w k))" "list_all (\<lambda>(_, r). r < length (w_arrays w)) (entries_of w k)"
  using world_ok_object [OF assms] by (simp_all add: object_ok_def entries_of_def)

lemma world_ok_ref:
  "world_ok w \<Longrightarrow> k < objects w \<Longrightarrow> map_of (entries_of w k) name = Some r \<Longrightarrow> r < length (w_arrays w)"
  using world_ok_entries(2) by (fastforce simp: list_all_iff dest: map_of_SomeD)

subsection \<open>The table\<close>

definition keeps :: "world \<Rightarrow> world \<Rightarrow> bool" where
  "keeps w w' \<longleftrightarrow> world_ok w' \<and> objects w' = objects w \<and> length (w_arrays w) \<le> length (w_arrays w')"

lemma keeps_refl: "world_ok w \<Longrightarrow> keeps w w"
  by (simp add: keeps_def)

lemma keeps_trans: "keeps w w1 \<Longrightarrow> keeps w1 w2 \<Longrightarrow> keeps w w2"
  by (simp add: keeps_def)

lemma keeps_put_array: "world_ok w \<Longrightarrow> array_ok a \<Longrightarrow> keeps w (put_array w r a)"
  by (simp add: keeps_def world_ok_put_array)

lemma keeps_put_entry:
  assumes "world_ok w" "k < objects w" "r < length (w_arrays w)"
  shows "keeps w (snd (put_entry am w k name r))"
proof -
  let ?es = "entries_of w k" and ?put = "\<lambda>(n, q). (n, if n = name then r else q)"
  have es: "distinct (map fst ?es)" "list_all (\<lambda>(_, r). r < length (w_arrays w)) ?es"
    by (rule world_ok_entries [OF assms(1,2)])+
  have fst_put: "fst \<circ> ?put = fst" by auto
  have "list_all (\<lambda>(_, r). r < length (w_arrays w)) (map ?put ?es)"
    using es(2) assms(3) by (auto simp: list_all_iff)
  then have "world_ok (set_entries w k (map ?put ?es))"
    using es(1) assms(1) by (intro world_ok_set_entries) (simp_all add: fst_put)
  moreover have "world_ok (set_entries w k (?es @ [(name, r)]))" if "map_of ?es name = None"
    using es assms that by (intro world_ok_set_entries) (simp_all add: map_of_eq_None_iff)
  ultimately show ?thesis using assms(1) by (simp add: put_entry_def Let_def keeps_def)
qed

lemma keeps_RemoveName:
  assumes "world_ok w" "k < objects w"
  shows "keeps w (snd (Message_RemoveName w k name))"
  using assms world_ok_entries [OF assms]
  by (auto simp: Message_RemoveName_def Let_def keeps_def list_all_iff distinct_map_filter
      intro!: world_ok_set_entries)

lemma keeps_new_array: "world_ok w \<Longrightarrow> array_ok a \<Longrightarrow> keeps w (snd (new_array w a))"
  by (simp add: keeps_def world_ok_new_array) (simp add: new_array_def)

lemma new_array_ref: "new_array w a = (r, w1) \<Longrightarrow> r < length (w_arrays w1) \<and> array_at w1 r = a"
  by (auto simp: new_array_def array_at_def)

lemma ref_GetArrayD:
  "ref_GetArray w k name tc = Some r \<Longrightarrow>
   map_of (entries_of w k) name = Some r \<and> (tc = B_ANY_TYPE \<or> tc = class_code (da_class (array_at w r)))"
  by (auto simp: ref_GetArray_def array_matches_def Array_TypeCode_def split: option.splits if_splits)

text \<open>The array that \<^verbatim>\<open>GetOrCreateArray\<close> gives is in the store, and has the type.\<close>

lemma GetOrCreateArray_ok:
  assumes "world_ok w" "k < objects w" "GetOrCreateArray am w k name tc = (ref, w1)"
  shows "keeps w w1"
    "ref = Some r \<Longrightarrow> r < length (w_arrays w1) \<and> array_ok (array_at w1 r)
       \<and> (tc = B_ANY_TYPE \<or> class_code (da_class (array_at w1 r)) = tc)"
proof -
  have "keeps w w1 \<and> (ref = Some r \<longrightarrow> r < length (w_arrays w1) \<and> array_ok (array_at w1 r)
       \<and> (tc = B_ANY_TYPE \<or> class_code (da_class (array_at w1 r)) = tc))"
  proof (cases "ref_GetArray w k name tc")
    case (Some q)
    then have "ref = Some q" "w1 = w" using assms(3) by (auto simp: GetOrCreateArray_def)
    with ref_GetArrayD [OF Some] assms(1,2) show ?thesis
      by (auto simp: keeps_refl dest: world_ok_ref intro: world_ok_array)
  next
    case None
    let ?a = "DataArray (new_class tc) []"
    obtain q v where new: "new_array w ?a = (q, v)" by (cases "new_array w ?a")
    have v: "keeps w v" using keeps_new_array [OF assms(1), of ?a] new by simp
    have q: "q < length (w_arrays v)" "array_at v q = ?a" using new_array_ref [OF new] by simp_all
    obtain st u where pt: "put_entry am v k name q = (st, u)" by (cases "put_entry am v k name q")
    have "keeps v (snd (put_entry am v k name q))"
      by (rule keeps_put_entry) (use v q assms(2) in \<open>simp_all add: keeps_def\<close>)
    then have u: "keeps v u" by (simp add: pt)
    have same: "array_at u = array_at v" using pt by (auto simp: put_entry_def Let_def split: if_splits)
    have "(ref, w1) = (None, w) \<or> (ref, w1) = (Some q, u)"
      using assms(3) None new pt by (auto simp: GetOrCreateArray_def split: if_splits)
    then show ?thesis
      using keeps_refl [OF assms(1)] keeps_trans [OF v u] u q same by (auto simp: keeps_def)
  qed
  then show "keeps w w1" "ref = Some r \<Longrightarrow> r < length (w_arrays w1) \<and> array_ok (array_at w1 r)
       \<and> (tc = B_ANY_TYPE \<or> class_code (da_class (array_at w1 r)) = tc)" by blast+
qed

subsection \<open>The calls\<close>

lemma keeps_then_set: "keeps w w1 \<Longrightarrow> array_ok a \<Longrightarrow> keeps w (put_array w1 r a)"
  by (simp add: keeps_def world_ok_put_array)

lemma keeps_fst: "P = (st, w') \<Longrightarrow> keeps w (snd P) \<Longrightarrow> keeps w w'"
  by simp

lemma keeps_add_data:
  assumes w: "world_ok w" "k < objects w" and run: "add_data am big w k name tc p sz prepend = Ok (st, w')"
  shows "keeps w w'"
proof -
  obtain ref w1 where g: "GetOrCreateArray am w k name tc = (ref, w1)" by fastforce
  note ok = GetOrCreateArray_ok [OF w g]
  show ?thesis
  proof (cases ref)
    case None then show ?thesis using run g ok(1) by (simp add: add_data_def)
  next
    case (Some r)
    then show ?thesis using run g ok(1) ok(2) [OF Some]
      by (auto simp: add_data_def obind_eq_Ok intro!: keeps_then_set split: if_splits
          dest: Array_AddDataItem_ok Array_PrependDataItem_ok)
  qed
qed

lemma keeps_Add: "world_ok w \<Longrightarrow> k < objects w \<Longrightarrow> Message_Add am big w k name x = Ok (st, w') \<Longrightarrow> keeps w w'"
  by (auto simp: Message_Add_def keeps_refl split: if_splits intro: keeps_add_data)

lemma keeps_Prepend:
  "world_ok w \<Longrightarrow> k < objects w \<Longrightarrow> Message_Prepend am big w k name x = Ok (st, w') \<Longrightarrow> keeps w w'"
  by (auto simp: Message_Prepend_def keeps_refl split: if_splits intro: keeps_add_data)

lemma keeps_replace_data:
  "world_ok w \<Longrightarrow> r < length (w_arrays w) \<Longrightarrow> replace_data big w r i p sz = Ok (st, w') \<Longrightarrow> keeps w w'"
  by (auto simp: replace_data_def obind_eq_Ok intro!: keeps_put_array dest: Array_ReplaceDataItem_ok world_ok_array)

lemma ref_GetArray_ok:
  "world_ok w \<Longrightarrow> k < objects w \<Longrightarrow> ref_GetArray w k name tc = Some r \<Longrightarrow> r < length (w_arrays w)"
  by (blast dest: ref_GetArrayD world_ok_ref)

lemma keeps_Replace:
  "world_ok w \<Longrightarrow> k < objects w \<Longrightarrow> Message_Replace am big w k okayToAdd name i x = Ok (st, w') \<Longrightarrow> keeps w w'"
  by (auto simp: Message_Replace_def Let_def keeps_refl split: if_splits option.splits
      intro: keeps_Add keeps_replace_data ref_GetArray_ok)

lemma keeps_AddDataLoop:
  "AddDataLoop am big g n i w r v d es pre = Ok (st, w') \<Longrightarrow> world_ok w \<Longrightarrow> r < length (w_arrays w) \<Longrightarrow>
   keeps w w'"
proof (induction n arbitrary: i w)
  case 0 then show ?case by (simp add: keeps_refl)
next
  case (Suc n)
  from Suc.prems(1) obtain q where q: "data_pointer am v g d (i * es) es = Ok q" by (auto simp: obind_eq_Ok)
  show ?case
  proof (cases q)
    case None with q Suc.prems show ?thesis by (simp add: keeps_refl)
  next
    case (Some pair)
    obtain p sz where pair: "pair = (p, sz)" by (cases pair)
    with Suc.prems(1) q Some obtain t a where a:
      "(if pre then Array_PrependDataItem am big p sz (array_at w r)
        else Array_AddDataItem am big p sz (array_at w r)) = Ok (t, a)"
      "(if t = B_NO_ERROR then AddDataLoop am big g n (Suc i) (put_array w r a) r v d es pre
        else Ok (B_ERROR, put_array w r a)) = Ok (st, w')" by (auto simp: obind_eq_Ok)
    have "array_ok a" using a(1) world_ok_array [OF Suc.prems(2,3)]
      by (auto split: if_splits dest: Array_AddDataItem_ok Array_PrependDataItem_ok)
    then have s: "keeps w (put_array w r a)" by (rule keeps_put_array [OF Suc.prems(2)])
    show ?thesis
    proof (cases "t = B_NO_ERROR")
      case True
      then have "keeps (put_array w r a) w'" using a(2) s Suc.prems(3)
        by (intro Suc.IH) (simp_all add: keeps_def)
      with s show ?thesis by (rule keeps_trans)
    qed (use a(2) s in simp)
  qed
qed

lemma keeps_AddDataAux:
  assumes w: "world_ok w" "k < objects w" and run: "AddDataAux am big g w k name d nb tc pre = Ok (st, w')"
  shows "keeps w w'"
proof -
  obtain ref w1 where g: "GetOrCreateArray am w k name tc = (ref, w1)" by fastforce
  note ok = GetOrCreateArray_ok [OF w g]
  have "keeps w1 w'" if "ref = Some r" "AddDataLoop am big g n i w1 r v d es pre = Ok (st, w')" for r n i v es
    using ok(1) ok(2) [OF that(1)] that(2) by (intro keeps_AddDataLoop [OF that(2)]) (simp_all add: keeps_def)
  then show ?thesis using run ok(1) w
    by (auto simp: AddDataAux_def obind_eq_Ok Let_def g keeps_refl split: if_splits option.splits
        intro: keeps_Add keeps_Prepend keeps_trans)
qed

lemma keeps_ReplaceDataLoop:
  "ReplaceDataLoop am big n i w r v d es = Ok (st, w') \<Longrightarrow> world_ok w \<Longrightarrow> r < length (w_arrays w) \<Longrightarrow> keeps w w'"
proof (induction n arbitrary: i w)
  case 0 then show ?case by (simp add: keeps_refl)
next
  case (Suc n)
  from Suc.prems(1) obtain q where
    q: "data_pointer am v [] (Some d) (unat (i * word_of_nat es)) es = Ok q" by (auto simp: obind_eq_Ok)
  show ?case
  proof (cases q)
    case None with q Suc.prems show ?thesis by (simp add: keeps_refl)
  next
    case (Some pair)
    obtain p sz where pair: "pair = (p, sz)" by (cases pair)
    with Suc.prems(1) q Some obtain t u where u: "replace_data big w r i p sz = Ok (t, u)"
      "(if t = B_NO_ERROR then ReplaceDataLoop am big n (i + 1) u r v d es else Ok (B_ERROR, u)) = Ok (st, w')"
      by (auto simp: obind_eq_Ok)
    have s: "keeps w u" by (rule keeps_replace_data [OF Suc.prems(2,3) u(1)])
    show ?thesis
    proof (cases "t = B_NO_ERROR")
      case True
      then have "keeps u w'" using u(2) s Suc.prems(3) by (intro Suc.IH) (simp_all add: keeps_def)
      with s show ?thesis by (rule keeps_trans)
    qed (use u(2) s in simp)
  qed
qed

lemma keeps_ReplaceData:
  "world_ok w \<Longrightarrow> k < objects w \<Longrightarrow> Message_ReplaceData am big g w k okayToAdd name tc i d nb = Ok (st, w') \<Longrightarrow>
   keeps w w'"
  by (auto simp: Message_ReplaceData_def obind_eq_Ok Let_def keeps_refl split: if_splits option.splits
      simp del: ReplaceDataLoop.simps intro: keeps_Replace keeps_AddDataAux keeps_ReplaceDataLoop ref_GetArray_ok)

lemma keeps_AddFlatAux:
  "world_ok w \<Longrightarrow> k < objects w \<Longrightarrow> AddFlatAux am big w k name b tc pre = Ok (st, w') \<Longrightarrow> keeps w w'"
  by (auto simp: AddFlatAux_def keeps_refl split: if_splits intro: keeps_add_data)

lemma keeps_ReplaceFlatAux:
  "world_ok w \<Longrightarrow> k < objects w \<Longrightarrow> ReplaceFlatAux am big g w k okayToAdd name i b rb tc = Ok (st, w') \<Longrightarrow> keeps w w'"
  by (auto simp: ReplaceFlatAux_def Let_def keeps_refl split: if_splits option.splits
      intro: keeps_AddDataAux keeps_replace_data ref_GetArray_ok)

lemma keeps_step: "keeps w w1 \<Longrightarrow> (world_ok w1 \<Longrightarrow> keeps w1 w2) \<Longrightarrow> keeps w w2"
  by (auto simp: keeps_def)

lemma keeps_RemoveData:
  assumes "world_ok w" "k < objects w"
  shows "keeps w (snd (Message_RemoveData w k name i))"
proof (cases "ref_GetArray w k name B_ANY_TYPE")
  case (Some r)
  let ?w1 = "put_array w r (snd (Array_RemoveDataItem i (array_at w r)))"
  have w1: "keeps w ?w1" using assms Some
    by (intro keeps_put_array Array_RemoveDataItem_ok world_ok_array) (auto intro: ref_GetArray_ok)
  have "keeps ?w1 (snd (Message_RemoveName ?w1 k name))"
    by (rule keeps_RemoveName) (use w1 assms(2) in \<open>simp_all add: keeps_def\<close>)
  with w1 show ?thesis using keeps_trans [OF w1] Some
    by (auto simp: Message_RemoveData_def Let_def split_def)
qed (simp add: Message_RemoveData_def keeps_refl assms)

lemma keeps_Rename:
  assumes "world_ok w" "k < objects w"
  shows "keeps w (snd (Message_Rename am w k oldName newName))"
proof (cases "map_of (entries_of w k) oldName")
  case (Some r)
  let ?w1 = "snd (Message_RemoveName w k newName)"
  let ?w2 = "snd (Message_RemoveName ?w1 k oldName)"
  have w1: "keeps w ?w1" by (rule keeps_RemoveName [OF assms])
  then have "keeps ?w1 ?w2" using assms by (intro keeps_RemoveName) (simp_all add: keeps_def)
  with w1 have w2: "keeps w ?w2" by (rule keeps_trans)
  then have "keeps ?w2 (snd (put_entry am ?w2 k newName r))"
    using world_ok_ref [OF assms Some] assms(2) by (intro keeps_put_entry) (simp_all add: keeps_def)
  with w2 show ?thesis using Some by (simp add: Message_Rename_def Let_def keeps_def)
qed (simp add: Message_Rename_def keeps_refl assms)

lemma keeps_Clear: "world_ok w \<Longrightarrow> keeps w (Message_Clear w k)"
  by (simp add: Message_Clear_def keeps_def world_ok_set_entries)

lemma clone_array_ok:
  assumes "world_ok w" "r < length (w_arrays w)" "clone_array am w r = Some (c, w1)"
  shows "keeps w w1" "c < length (w_arrays w1)"
proof -
  let ?o = "array_at w r"
  define a where "a = (if mem_items am (length (da_items ?o)) then ?o else DataArray (da_class ?o) [])"
  have a: "array_ok a" "new_array w a = (c, w1)"
    using assms(3) world_ok_array [OF assms(1,2)]
    by (auto simp: a_def clone_array_def Let_def split: if_splits)
  show "keeps w w1" using keeps_new_array [OF assms(1) a(1)] a(2) by simp
  show "c < length (w_arrays w1)" using new_array_ref [OF a(2)] by simp
qed

lemma keeps_CopyName:
  assumes "world_ok w" "k < objects w" "l < objects w"
  shows "keeps w (snd (Message_CopyName am w k oldName l newName))"
proof (cases "ref_GetArray w k oldName B_ANY_TYPE")
  case (Some r)
  note r = ref_GetArray_ok [OF assms(1,2) Some]
  show ?thesis
  proof (cases "clone_array am w r")
    case (Some q)
    obtain c w1 where q: "q = (c, w1)" by (cases q)
    note c = clone_array_ok [OF assms(1) r, of am c w1]
    have "keeps w1 (snd (put_entry am w1 l newName c))"
      using c Some q assms(3) by (intro keeps_put_entry) (simp_all add: keeps_def)
    then show ?thesis using keeps_trans [OF c(1)] Some q \<open>ref_GetArray w k oldName B_ANY_TYPE = Some r\<close>
      by (simp add: Message_CopyName_def)
  qed (simp add: Message_CopyName_def Some keeps_refl assms)
qed (simp add: Message_CopyName_def keeps_refl assms)

lemma keeps_ShareName:
  "world_ok w \<Longrightarrow> k < objects w \<Longrightarrow> l < objects w \<Longrightarrow> keeps w (snd (Message_ShareName am w k oldName l newName))"
  by (auto simp: Message_ShareName_def keeps_refl split: option.splits intro: keeps_put_entry world_ok_ref)

lemma keeps_MoveName:
  assumes "world_ok w" "k < objects w" "l < objects w"
  shows "keeps w (snd (Message_MoveName am w k oldName l newName))"
proof -
  let ?w1 = "snd (Message_ShareName am w k oldName l oldName)"
  have w1: "keeps w ?w1" by (rule keeps_ShareName [OF assms])
  then have "keeps ?w1 (snd (Message_RemoveName ?w1 k newName))"
    using assms(2) by (intro keeps_RemoveName) (simp_all add: keeps_def)
  with w1 keeps_trans [OF w1] show ?thesis by (simp add: Message_MoveName_def Let_def split_def)
qed

lemma keeps_EnsureFieldIsPrivate:
  "world_ok w \<Longrightarrow> k < objects w \<Longrightarrow> keeps w (snd (EnsureFieldIsPrivate am w k name))"
  by (auto simp: EnsureFieldIsPrivate_def keeps_refl keeps_CopyName split: option.splits)

lemma keeps_clone_fields:
  "world_ok w \<Longrightarrow> k < objects w \<Longrightarrow> list_all (\<lambda>(_, r). r < length (w_arrays w)) es \<Longrightarrow> keeps w (clone_fields am w k es)"
proof (induction am w k es rule: clone_fields.induct)
  case (1 am w k) then show ?case by (simp add: keeps_refl)
next
  case (2 am w k name r es)
  show ?case
  proof (cases "clone_array am w r")
    case None with 2 show ?thesis by simp
  next
    case (Some q)
    obtain c w1 where q: "q = (c, w1)" by (cases q)
    note c = clone_array_ok [OF 2(3), of r am c w1]
    let ?w2 = "snd (put_entry am w1 k name c)"
    have w1: "keeps w w1" "c < length (w_arrays w1)" using c Some q 2(5) by simp_all
    then have "keeps w1 ?w2" using 2(4) by (intro keeps_put_entry) (simp_all add: keeps_def)
    with w1(1) have w2: "keeps w ?w2" by (rule keeps_trans)
    have "keeps ?w2 (clone_fields am ?w2 k es)"
      using Some q w2 2(4,5) by (intro 2(2)) (auto simp: keeps_def list_all_iff)
    with w2 show ?thesis using Some q by (auto dest: keeps_trans)
  qed
qed

lemma keeps_assign:
  assumes "world_ok w" "k < objects w" "l < objects w"
  shows "keeps w (Message_assign am w k l)"
proof -
  let ?w1 = "set_what (Message_Clear w k) k (what_of w l)"
  have w1: "keeps w ?w1" using keeps_Clear [OF assms(1), of k] by (simp add: keeps_def world_ok_set_what)
  have "keeps ?w1 (clone_fields am ?w1 k (entries_of w l))"
    using w1 assms world_ok_entries(2) [OF assms(1,3)]
    by (intro keeps_clone_fields) (auto simp: keeps_def Message_Clear_def)
  with keeps_trans [OF w1] show ?thesis by (simp add: Message_assign_def keeps_refl assms)
qed

lemma keeps_set:
  "world_ok w \<Longrightarrow> distinct (map fst es) \<Longrightarrow> list_all (\<lambda>(_, r). r < length (w_arrays w)) es \<Longrightarrow> keeps w (set_entries w k es)"
  by (simp add: keeps_def world_ok_set_entries)

lemma keeps_what: "world_ok w \<Longrightarrow> keeps w (set_what w k v)"
  by (simp add: keeps_def world_ok_set_what)

lemma keeps_BecomeLightweightCopyOf:
  "world_ok w \<Longrightarrow> k < objects w \<Longrightarrow> l < objects w \<Longrightarrow> keeps w (BecomeLightweightCopyOf w k l)"
  unfolding BecomeLightweightCopyOf_def
  by (rule keeps_step [OF keeps_what keeps_set]) (simp_all add: world_ok_entries)

lemma keeps_SwapContents:
  "world_ok w \<Longrightarrow> k < objects w \<Longrightarrow> l < objects w \<Longrightarrow> keeps w (Message_SwapContents w k l)"
  unfolding Message_SwapContents_def
  by (rule keeps_step [OF keeps_step [OF keeps_step [OF keeps_what keeps_what] keeps_set] keeps_set])
    (simp_all add: world_ok_entries)

end
