(* ===== verification/Message_Order.thy ===== *)
theory Message_Order
  imports Message_Reach Hash_Move "HOL-Library.Multiset" "HOL-Library.List_Lexorder"
begin

section \<open>The order of the fields of a Message\<close>

text \<open>
  The methods of \<^verbatim>\<open>source/muscle/message/Message.h\<close> that move fields within the table are calls of the
  methods of \<^verbatim>\<open>Hashtable\<close>, whose effects on the pairs are \<open>to_front\<close>, \<open>to_back\<close>, \<open>next_to\<close> and
  \<open>to_position\<close> of theory \<open>Hash_Move\<close>, and \<open>sort_key\<close> for \<^verbatim>\<open>SortByKey\<close>; names are compared with
  \<^verbatim>\<open>strcmp\<close>, byte by byte.
\<close>

definition reorder_entries :: "world \<Rightarrow> nat \<Rightarrow> bool \<Rightarrow> (u8 list \<times> nat) list \<Rightarrow> status \<times> world" where
  "reorder_entries w k ok es = (if ok then (B_NO_ERROR, set_entries w k es) else (B_ERROR, w))"

definition has_name :: "world \<Rightarrow> nat \<Rightarrow> u8 list \<Rightarrow> bool" where
  "has_name w k name \<longleftrightarrow> map_of (entries_of w k) name \<noteq> None"

definition MoveNameToFront :: "world \<Rightarrow> nat \<Rightarrow> u8 list \<Rightarrow> status \<times> world" where
  "MoveNameToFront w k name = reorder_entries w k (has_name w k name) (to_front name (entries_of w k))"

definition MoveNameToBack :: "world \<Rightarrow> nat \<Rightarrow> u8 list \<Rightarrow> status \<times> world" where
  "MoveNameToBack w k name = reorder_entries w k (has_name w k name) (to_back name (entries_of w k))"

definition MoveNameToBefore :: "world \<Rightarrow> nat \<Rightarrow> u8 list \<Rightarrow> u8 list \<Rightarrow> status \<times> world" where
  "MoveNameToBefore w k name toBeforeMe =
     reorder_entries w k (has_name w k name \<and> has_name w k toBeforeMe \<and> name \<noteq> toBeforeMe)
       (next_to False name toBeforeMe (entries_of w k))"

definition MoveNameToBehind :: "world \<Rightarrow> nat \<Rightarrow> u8 list \<Rightarrow> u8 list \<Rightarrow> status \<times> world" where
  "MoveNameToBehind w k name toBehindMe =
     reorder_entries w k (has_name w k name \<and> has_name w k toBehindMe \<and> name \<noteq> toBehindMe)
       (next_to True name toBehindMe (entries_of w k))"

definition MoveNameToPosition :: "world \<Rightarrow> nat \<Rightarrow> u8 list \<Rightarrow> u32 \<Rightarrow> status \<times> world" where
  "MoveNameToPosition w k name toPosition =
     reorder_entries w k (has_name w k name) (to_position (unat toPosition) name (entries_of w k))"

definition SortFieldNames :: "world \<Rightarrow> nat \<Rightarrow> world" where
  "SortFieldNames w k = set_entries w k (sort_key fst (entries_of w k))"

subsection \<open>They keep the fields\<close>

lemma mset_split_key: "mset (filter (\<lambda>kv. fst kv = k) ps @ filter (\<lambda>kv. fst kv \<noteq> k) ps) = mset ps"
  by simp

lemma mset_to_front: "mset (to_front k ps) = mset ps" "mset (to_back k ps) = mset ps"
  using mset_split_key [of k ps] by (simp_all add: to_front_def to_back_def union_commute)

lemma mset_to_position: "mset (to_position i k ps) = mset ps"
proof -
  let ?me = "filter (\<lambda>kv. fst kv = k) ps" and ?rest = "filter (\<lambda>kv. fst kv \<noteq> k) ps"
  have "mset (take i ?rest @ ?me @ drop i ?rest) = mset ?me + mset (take i ?rest @ drop i ?rest)"
    by (simp only: mset_append ac_simps)
  also have "\<dots> = mset ps" using mset_split_key [of k ps] by (simp only: append_take_drop_id mset_append)
  finally show ?thesis using mset_split_key [of k ps] by (simp add: to_position_def Let_def union_commute)
qed

lemma mset_next_to:
  assumes "distinct (map fst ps)" "anchor \<in> fst ` set ps" "k \<noteq> anchor"
  shows "mset (next_to behind k anchor ps) = mset ps"
proof -
  let ?me = "filter (\<lambda>kv. fst kv = k) ps"
  let ?f = "\<lambda>kv. if fst kv = k then [] else if fst kv \<noteq> anchor then [kv] else if behind then kv # ?me else ?me @ [kv]"
  have "mset (concat (map ?f qs)) = mset (filter (\<lambda>kv. fst kv \<noteq> k) qs)
      + (if anchor \<in> fst ` set qs then mset ?me else {#})" if "distinct (map fst qs)" for qs
    using that assms(3) by (induction qs) (auto simp: image_iff)
  from this [OF assms(1)] show ?thesis
    using assms(2) mset_split_key [of k ps] by (simp add: next_to_def Let_def union_commute)
qed

text \<open>An order of the same entries.\<close>

lemma keeps_permuted:
  assumes "world_ok w" "k < objects w" "mset es = mset (entries_of w k)"
  shows "keeps w (set_entries w k es)"
proof -
  note ok = world_ok_entries [OF assms(1,2)]
  have set: "set es = set (entries_of w k)" using assms(3) by (rule mset_eq_setD)
  have "mset (map fst es) = mset (map fst (entries_of w k))" using assms(3) by simp
  then have "distinct (map fst es)" using ok(1) by (metis mset_eq_imp_distinct_iff)
  then show ?thesis using ok(2) assms(1) by (auto simp: keeps_def list_all_iff set intro: world_ok_set_entries)
qed

lemma keeps_reorder:
  assumes "world_ok w" "k < objects w" "ok \<Longrightarrow> mset es = mset (entries_of w k)"
  shows "keeps w (snd (reorder_entries w k ok es))"
  using assms keeps_permuted [OF assms(1,2)] by (simp add: reorder_entries_def keeps_refl)

lemma keeps_MoveName_order:
  assumes "world_ok w" "k < objects w"
  shows "keeps w (snd (MoveNameToFront w k name))" "keeps w (snd (MoveNameToBack w k name))"
    "keeps w (snd (MoveNameToBefore w k name anchor))" "keeps w (snd (MoveNameToBehind w k name anchor))"
    "keeps w (snd (MoveNameToPosition w k name i))" "keeps w (SortFieldNames w k)"
proof -
  have "has_name w k anchor \<Longrightarrow> anchor \<in> fst ` set (entries_of w k)"
    by (auto simp: has_name_def map_of_eq_None_iff)
  then have beside: "has_name w k anchor \<Longrightarrow> name \<noteq> anchor \<Longrightarrow>
      mset (next_to behind name anchor (entries_of w k)) = mset (entries_of w k)" for behind
    by (rule mset_next_to [OF world_ok_entries(1) [OF assms]])
  show "keeps w (snd (MoveNameToFront w k name))" "keeps w (snd (MoveNameToBack w k name))"
    "keeps w (snd (MoveNameToBefore w k name anchor))" "keeps w (snd (MoveNameToBehind w k name anchor))"
    "keeps w (snd (MoveNameToPosition w k name i))" "keeps w (SortFieldNames w k)"
    unfolding MoveNameToFront_def MoveNameToBack_def MoveNameToBefore_def MoveNameToBehind_def
      MoveNameToPosition_def SortFieldNames_def
    by (auto intro!: keeps_reorder keeps_permuted simp: assms mset_to_front mset_to_position beside)
qed

end
