(* ===== verification/Message_Calls.thy ===== *)
theory Message_Calls
  imports Message_Order
begin

section \<open>Sequences of calls on Messages\<close>

text \<open>
  What \<^verbatim>\<open>Unflatten\<close> reads satisfies the invariant as well, so that it holds after every sequence of
  calls on a group of Messages that start empty.
\<close>

subsection \<open>What Unflatten reads\<close>

lemma UnflattenFixedItems_class:
  "UnflattenFixedItems c n mem off = Ok xs \<Longrightarrow> is_value_class c \<Longrightarrow> list_all (has_class c) xs"
  by (induction n arbitrary: off xs) (auto simp: obind_eq_Ok has_class_fixed)

lemma read_u32_Ok:
  assumes "read_u32 mem n off fail k = Ok r"
  obtains "fail = Ok r" | v off' where "k v off' = Ok r"
  using assms by (auto simp: read_u32_def obind_eq_Ok split: if_splits option.splits)

lemma has_class_variable [simp]:
  "has_class StringArray (StringItem s)" "has_class (ByteBufferArray tc) (FlatItem b)"
  "has_class MessageArray (MessageItem m)"
  by (simp_all add: has_class_def)

lemma UnflattenStrings_class:
  "UnflattenStrings am n mem sz off acc = Ok (Some xs) \<Longrightarrow> list_all (has_class StringArray) acc \<Longrightarrow>
   list_all (has_class StringArray) xs"
proof (induction n arbitrary: off acc)
  case (Suc n)
  then show ?case
    by (auto simp: obind_eq_Ok elim!: read_u32_Ok split: if_splits option.splits)
qed simp

lemma UnflattenByteBuffers_class:
  "UnflattenByteBuffers am n mem sz off acc = Ok (Some xs) \<Longrightarrow> list_all (has_class (ByteBufferArray tc)) acc \<Longrightarrow>
   list_all (has_class (ByteBufferArray tc)) xs"
proof (induction n arbitrary: off acc)
  case (Suc n)
  from Suc.prems show ?case
    by (auto simp: obind_eq_Ok elim!: read_u32_Ok split: if_splits option.splits dest!: Suc.IH)
qed simp

lemma UnflattenSubMessages_class:
  "UnflattenSubMessages unflat am fuel mem sz off acc = Ok (Some xs) \<Longrightarrow> list_all (has_class MessageArray) acc \<Longrightarrow>
   list_all (has_class MessageArray) xs"
proof (induction fuel arbitrary: off acc)
  case 0
  then show ?case by (auto simp: UnflattenSubMessages.simps split: if_splits)
next
  case (Suc n)
  from Suc.prems show ?case
    by (subst (asm) UnflattenSubMessages.simps)
      (auto simp: obind_eq_Ok elim!: read_u32_Ok split: if_split_asm option.split_asm,
       fastforce dest: Suc.IH)
qed

lemma Array_Unflatten_class:
  "Array_Unflatten unflat am fuel c mem sz = Ok (Some xs) \<Longrightarrow> list_all (has_class c) xs"
  by (cases c; simp add: Array_Unflatten_def Let_def obind_eq_Ok del: class_sizeof.simps split: if_splits;
      auto elim!: read_u32_Ok intro: UnflattenFixedItems_class UnflattenStrings_class UnflattenByteBuffers_class
        UnflattenSubMessages_class simp: is_value_class_def split: if_splits)

definition entries_ok :: "(u8 list \<times> 'm DataArray) list \<Rightarrow> bool" where
  "entries_ok es \<longleftrightarrow> distinct (map fst es) \<and> list_all (\<lambda>(_, a). array_ok a) es"

lemma entries_ok_Nil [simp]: "entries_ok []"
  by (simp add: entries_ok_def)

lemma find_arrayD: "find_array es name tc = Some a \<Longrightarrow> map_of es name = Some a"
  by (auto simp: find_array_def split: option.splits if_splits)

lemma name_in_table: "(n, a) \<in> set es \<Longrightarrow> n \<in> fst ` set es"
  by force

lemma get_or_create_ok:
  assumes "entries_ok es" "get_or_create am es name tc = Some (es', c)"
  shows "entries_ok es'" "map_of es' name = Some a \<Longrightarrow> da_class a = c"
  using assms by (auto simp: get_or_create_def entries_ok_def map_of_eq_None_iff split: option.splits if_splits
      dest: find_arrayD) (blast dest: name_in_table)

lemma set_items_ok:
  assumes "entries_ok es" "\<And>a. map_of es name = Some a \<Longrightarrow> da_class a = c" "list_all (has_class c) xs"
  shows "entries_ok (set_items es name xs)"
proof -
  have "fst \<circ> (\<lambda>(n, a). (n, if n = name then DataArray (da_class a) xs else a)) = fst" by auto
  moreover have "array_ok (DataArray (da_class a) xs)" if "(name, a) \<in> set es" for a
  proof -
    have "map_of es name = Some a" using that assms(1) by (simp add: entries_ok_def)
    then show ?thesis using assms(1-3) that by (auto simp: entries_ok_def list_all_iff intro: array_ok_items)
  qed
  ultimately show ?thesis using assms(1) by (auto simp: entries_ok_def list_all_iff set_items_def)
qed

lemma UnflattenEntry_ok:
  assumes "entries_ok es" "Message_UnflattenEntry unflat am fuel es mem sz off = Ok (st, es', off')"
  shows "entries_ok es'"
proof -
  have "entries_ok (set_items es1 name xs)"
    if "get_or_create am es name tc = Some (es1, c)" "Array_Unflatten unflat am fuel c m n = Ok (Some xs)"
    for es1 c name tc m n xs
    by (rule set_items_ok [OF get_or_create_ok [OF assms(1) that(1)] Array_Unflatten_class [OF that(2)]])
  then show ?thesis using assms
    by (auto simp: Message_UnflattenEntry_def Let_def obind_eq_Ok elim!: read_u32_Ok
        split: if_splits option.splits)
qed

lemma UnflattenEntries_ok:
  "Message_UnflattenEntries unflat am fuel n es mem sz off = Ok (st, es') \<Longrightarrow> entries_ok es \<Longrightarrow> entries_ok es'"
  by (induction n arbitrary: es off) (auto simp: obind_eq_Ok split: if_splits dest: UnflattenEntry_ok)

lemma Unflatten_ok: "Message_Unflatten am fuel v mem sz = Ok (st, m) \<Longrightarrow> entries_ok (m_entries m)"
  by (cases fuel)
    (auto simp: obind_eq_Ok Let_def elim!: read_u32_Ok split: if_splits,
      erule UnflattenEntries_ok [OF _ entries_ok_Nil])

lemma keeps_UnflattenObject:
  assumes w: "world_ok w" "k < objects w" and run: "Message_UnflattenObject am fuel w k mem sz = Ok (st, w')"
  shows "keeps w w'"
proof -
  obtain m where m: "Message_Unflatten am fuel (what_of w k) mem sz = Ok (st, m)"
    and w': "w' = set_entries (set_what (w\<lparr>w_arrays := w_arrays w @ map snd (m_entries m)\<rparr>) k (m_what m)) k
        (zip (map fst (m_entries m)) [length (w_arrays w)..<length (w_arrays w) + length (m_entries m)])"
    using run by (auto simp: Message_UnflattenObject_def obind_eq_Ok Let_def)
  let ?w1 = "w\<lparr>w_arrays := w_arrays w @ map snd (m_entries m)\<rparr>"
  note ok = Unflatten_ok [OF m, unfolded entries_ok_def]
  have "world_ok ?w1" using w(1) ok
    by (auto simp: world_ok_def list_all_iff intro: object_ok_mono)
  then have w1: "keeps w ?w1" by (simp add: keeps_def)
  show ?thesis unfolding w'
    by (rule keeps_step [OF keeps_step [OF w1 keeps_what] keeps_set])
      (use ok in \<open>auto simp: list_all_iff map_fst_zip dest: set_zip_rightD\<close>)
qed

subsection \<open>The step relation\<close>

text \<open>A call of a method, with its arguments; the first object is the one that it is called on.\<close>

datatype message_call =
    CallAdd nat "u8 list" "Message DataItem"
  | CallPrepend nat "u8 list" "Message DataItem"
  | CallReplace nat bool "u8 list" u32 "Message DataItem"
  | CallAddFlat nat "u8 list" "u8 list option" u32 bool
  | CallAddData nat "u8 list" "u8 list option" u32 u32 bool
  | CallReplaceFlat nat bool "u8 list" u32 "u8 list option" "u8 list" u32
  | CallReplaceData nat bool "u8 list" u32 u32 "u8 list" u32
  | CallRemoveData nat "u8 list" u32
  | CallRemoveName nat "u8 list"
  | CallRename nat "u8 list" "u8 list"
  | CallClear nat
  | CallCopyName nat "u8 list" nat "u8 list"
  | CallShareName nat "u8 list" nat "u8 list"
  | CallMoveName nat "u8 list" nat "u8 list"
  | CallEnsurePrivate nat "u8 list"
  | CallAssign nat nat
  | CallLightweightCopy nat nat
  | CallSwap nat nat
  | CallUnflatten nat "u8 list" u32
  | CallMoveFront nat "u8 list"
  | CallMoveBack nat "u8 list"
  | CallMoveBefore nat "u8 list" "u8 list"
  | CallMoveBehind nat "u8 list" "u8 list"
  | CallMovePosition nat "u8 list" u32
  | CallSortNames nat
  | CallSetWhat nat u32 \<comment> \<open>the public member \<^verbatim>\<open>what\<close>\<close>

fun call_objects :: "message_call \<Rightarrow> nat list" where
  "call_objects (CallAdd k _ _) = [k]" | "call_objects (CallPrepend k _ _) = [k]"
| "call_objects (CallReplace k _ _ _ _) = [k]" | "call_objects (CallAddFlat k _ _ _ _) = [k]"
| "call_objects (CallAddData k _ _ _ _ _) = [k]" | "call_objects (CallReplaceFlat k _ _ _ _ _ _) = [k]"
| "call_objects (CallReplaceData k _ _ _ _ _ _) = [k]" | "call_objects (CallRemoveData k _ _) = [k]"
| "call_objects (CallRemoveName k _) = [k]" | "call_objects (CallRename k _ _) = [k]"
| "call_objects (CallClear k) = [k]" | "call_objects (CallCopyName k _ l _) = [k, l]"
| "call_objects (CallShareName k _ l _) = [k, l]" | "call_objects (CallMoveName k _ l _) = [k, l]"
| "call_objects (CallEnsurePrivate k _) = [k]" | "call_objects (CallAssign k l) = [k, l]"
| "call_objects (CallLightweightCopy k l) = [k, l]" | "call_objects (CallSwap k l) = [k, l]"
| "call_objects (CallUnflatten k _ _) = [k]" | "call_objects (CallSetWhat k _) = [k]"
| "call_objects (CallMoveFront k _) = [k]" | "call_objects (CallMoveBack k _) = [k]"
| "call_objects (CallMoveBefore k _ _) = [k]" | "call_objects (CallMoveBehind k _ _) = [k]"
| "call_objects (CallMovePosition k _ _) = [k]" | "call_objects (CallSortNames k) = [k]"

text \<open>
  The outcome of a call: \<open>am\<close> is the memory that there is, \<open>big\<close> the order of the host's bytes,
  \<open>garbage\<close> what new memory holds, and \<open>fuel\<close> bounds the recursion of \<^verbatim>\<open>Unflatten\<close>.
\<close>

fun run_call :: "memory \<Rightarrow> bool \<Rightarrow> u8 list \<Rightarrow> nat \<Rightarrow> world \<Rightarrow> message_call \<Rightarrow> (status \<times> world) outcome" where
  "run_call am big garbage fuel w (CallAdd k name x) = Message_Add am big w k name x"
| "run_call am big garbage fuel w (CallPrepend k name x) = Message_Prepend am big w k name x"
| "run_call am big garbage fuel w (CallReplace k ota name i x) = Message_Replace am big w k ota name i x"
| "run_call am big garbage fuel w (CallAddFlat k name b tc pre) = AddFlatAux am big w k name b tc pre"
| "run_call am big garbage fuel w (CallAddData k name d n tc pre) = AddDataAux am big garbage w k name d n tc pre"
| "run_call am big garbage fuel w (CallReplaceFlat k ota name i b rb tc) =
     ReplaceFlatAux am big garbage w k ota name i b rb tc"
| "run_call am big garbage fuel w (CallReplaceData k ota name tc i d n) =
     Message_ReplaceData am big garbage w k ota name tc i d n"
| "run_call am big garbage fuel w (CallRemoveData k name i) = Ok (Message_RemoveData w k name i)"
| "run_call am big garbage fuel w (CallRemoveName k name) = Ok (Message_RemoveName w k name)"
| "run_call am big garbage fuel w (CallRename k old new) = Ok (Message_Rename am w k old new)"
| "run_call am big garbage fuel w (CallClear k) = Ok (B_NO_ERROR, Message_Clear w k)"
| "run_call am big garbage fuel w (CallCopyName k old l new) = Ok (Message_CopyName am w k old l new)"
| "run_call am big garbage fuel w (CallShareName k old l new) = Ok (Message_ShareName am w k old l new)"
| "run_call am big garbage fuel w (CallMoveName k old l new) = Ok (Message_MoveName am w k old l new)"
| "run_call am big garbage fuel w (CallEnsurePrivate k name) = Ok (EnsureFieldIsPrivate am w k name)"
| "run_call am big garbage fuel w (CallAssign k l) = Ok (B_NO_ERROR, Message_assign am w k l)"
| "run_call am big garbage fuel w (CallLightweightCopy k l) = Ok (B_NO_ERROR, BecomeLightweightCopyOf w k l)"
| "run_call am big garbage fuel w (CallSwap k l) = Ok (B_NO_ERROR, Message_SwapContents w k l)"
| "run_call am big garbage fuel w (CallUnflatten k mem n) = Message_UnflattenObject am fuel w k mem n"
| "run_call am big garbage fuel w (CallMoveFront k name) = Ok (MoveNameToFront w k name)"
| "run_call am big garbage fuel w (CallMoveBack k name) = Ok (MoveNameToBack w k name)"
| "run_call am big garbage fuel w (CallMoveBefore k name a) = Ok (MoveNameToBefore w k name a)"
| "run_call am big garbage fuel w (CallMoveBehind k name a) = Ok (MoveNameToBehind w k name a)"
| "run_call am big garbage fuel w (CallMovePosition k name i) = Ok (MoveNameToPosition w k name i)"
| "run_call am big garbage fuel w (CallSortNames k) = Ok (B_NO_ERROR, SortFieldNames w k)"
| "run_call am big garbage fuel w (CallSetWhat k v) = Ok (B_NO_ERROR, set_what w k v)"

lemma keeps_run_call:
  assumes "world_ok w" "list_all (\<lambda>k. k < objects w) (call_objects c)" "run_call am big g fuel w c = Ok (st, w')"
  shows "keeps w w'"
  using assms
  by (cases c)
    (auto intro: keeps_Add keeps_Prepend keeps_Replace keeps_AddFlatAux keeps_AddDataAux keeps_ReplaceFlatAux
       keeps_ReplaceData keeps_UnflattenObject keeps_Clear keeps_assign keeps_BecomeLightweightCopyOf
       keeps_SwapContents keeps_what
       keeps_fst [OF _ keeps_RemoveData] keeps_fst [OF _ keeps_RemoveName] keeps_fst [OF _ keeps_Rename]
       keeps_fst [OF _ keeps_CopyName] keeps_fst [OF _ keeps_ShareName] keeps_fst [OF _ keeps_MoveName]
       keeps_fst [OF _ keeps_EnsureFieldIsPrivate] keeps_fst [OF _ keeps_MoveName_order(1)]
       keeps_fst [OF _ keeps_MoveName_order(2)] keeps_fst [OF _ keeps_MoveName_order(3)]
       keeps_fst [OF _ keeps_MoveName_order(4)] keeps_fst [OF _ keeps_MoveName_order(5)] keeps_MoveName_order(6))

text \<open>
  The states that calls lead to, from \<open>n\<close> new Messages; every call has the memory that there is
  then.
\<close>

definition new_messages :: "nat \<Rightarrow> world" where
  "new_messages n = \<lparr>w_arrays = [], w_objs = replicate n \<lparr>mo_what = 0, mo_entries = []\<rparr>\<rparr>"

inductive message_step :: "world \<Rightarrow> message_call \<Rightarrow> status \<Rightarrow> world \<Rightarrow> bool" where
  step: "list_all (\<lambda>k. k < objects w) (call_objects c) \<Longrightarrow> run_call am big garbage fuel w c = Ok (st, w') \<Longrightarrow>
    message_step w c st w'"

inductive reachable_from :: "world \<Rightarrow> world \<Rightarrow> bool" for w0 where
  start: "reachable_from w0 w0"
| call: "reachable_from w0 w \<Longrightarrow> message_step w c st w' \<Longrightarrow> reachable_from w0 w'"

inductive_cases message_stepE [elim!]: "message_step w c st w'"

lemma new_messages_ok: "world_ok (new_messages n)"
  by (simp add: new_messages_def world_ok_def object_ok_def list_all_length)

lemma objects_new [simp]: "objects (new_messages n) = n"
  by (simp add: new_messages_def)

lemma reachable_keeps: "reachable_from w0 w \<Longrightarrow> world_ok w0 \<Longrightarrow> keeps w0 w"
proof (induction rule: reachable_from.induct)
  case start then show ?case by (rule keeps_refl)
next
  case (call w c st w')
  then have w: "keeps w0 w" by blast
  moreover have "keeps w w'" using call.hyps(2) w by (auto simp: keeps_def [of w0] intro: keeps_run_call)
  ultimately show ?case by (rule keeps_trans)
qed

end
