(* ===== verification/Message_Effects.thy ===== *)
theory Message_Effects
  imports Message_Calls
begin

section \<open>What the methods of a Message do\<close>

text \<open>
  The effect of the calls on the values of the Messages (\<open>view\<close>).  A change of an array is seen in every
  Message that refers to it, and in no other; an array that only one field of one Message refers to is
  private to it.
\<close>

declare ampleD [simp]

subsection \<open>Views\<close>

lemma view_sel [simp]:
  "m_what (view w k) = what_of w k" "m_entries (view w k) = map (\<lambda>(n, r). (n, array_at w r)) (entries_of w k)"
  by (simp_all add: view_def)

lemma view_eqI: "what_of w k = what_of v l \<Longrightarrow> m_entries (view w k) = m_entries (view v l) \<Longrightarrow> view w k = view v l"
  by (simp add: view_def)

lemma map_of_view: "map_of (m_entries (view w k)) name = map_option (array_at w) (map_of (entries_of w k) name)"
  by (simp add: map_of_map)

lemma array_at_set: "r < length (w_arrays w) \<Longrightarrow> array_at (put_array w r a) q = (if q = r then a else array_at w q)"
  by (simp add: array_at_def put_array_def)

lemma view_put_array:
  "r < length (w_arrays w) \<Longrightarrow>
   view (put_array w r a) l =
     Msg (what_of w l) (map (\<lambda>(n, q). (n, if q = r then a else array_at w q)) (entries_of w l))"
  by (simp add: view_def array_at_set)

lemma entries_in_range:
  "world_ok w \<Longrightarrow> l < objects w \<Longrightarrow> (n, q) \<in> set (entries_of w l) \<Longrightarrow> q < length (w_arrays w)"
  using world_ok_entries(2) by (fastforce simp: list_all_iff)

text \<open>A new array is not seen in any Message.\<close>

lemma view_new_array:
  assumes "world_ok w" "l < objects w" "new_array w a = (r, w1)"
  shows "view w1 l = view w l"
proof -
  have "array_at w1 q = array_at w q" if "q < length (w_arrays w)" for q
    using assms(3) that by (auto simp: new_array_def array_at_def nth_append)
  moreover have "entries_of w1 l = entries_of w l" "what_of w1 l = what_of w l"
    using assms(3) by (auto simp: new_array_def entries_of_def what_of_def)
  ultimately show ?thesis using entries_in_range [OF assms(1,2)] by (auto simp: view_def)
qed

subsection \<open>Private arrays\<close>

definition private_to :: "world \<Rightarrow> nat \<Rightarrow> u8 list \<Rightarrow> nat \<Rightarrow> bool" where
  "private_to w k name r \<longleftrightarrow> (\<forall>l < objects w. \<forall>n. (n, r) \<in> set (entries_of w l) \<longrightarrow> l = k \<and> n = name)"

lemma length_filter_two:
  "x \<in> set xs \<Longrightarrow> y \<in> set xs \<Longrightarrow> x \<noteq> y \<Longrightarrow> P x \<Longrightarrow> P y \<Longrightarrow> 2 \<le> length (filter P xs)"
proof -
  assume a: "x \<in> set xs" "y \<in> set xs" "x \<noteq> y" "P x" "P y"
  have "card {x, y} \<le> card (set (filter P xs))" using a by (intro card_mono) auto
  also have "\<dots> \<le> length (filter P xs)" by (rule card_length)
  finally show ?thesis using a(3) by simp
qed

text \<open>An array with one reference is private to the field that has it.\<close>

lemma ref_count_private:
  assumes "ref_count w r = 1" "map_of (entries_of w k) name = Some r" "k < objects w"
  shows "private_to w k name r"
proof -
  define f where "f l = length (filter (\<lambda>(n, q). q = r) (entries_of w l))" for l
  have total: "(\<Sum>l < objects w. f l) = 1"
    using assms(1) by (simp add: ref_count_def f_def entries_of_def sum_list_sum_nth atLeast0LessThan)
  have pos: "0 < f l" if "(n, r) \<in> set (entries_of w l)" for l n
    using that by (auto simp: f_def filter_empty_conv)
  have here: "(name, r) \<in> set (entries_of w k)" using assms(2) by (rule map_of_SomeD)
  have "l = k \<and> n = name" if "l < objects w" "(n, r) \<in> set (entries_of w l)" for l n
  proof (cases "l = k")
    case False
    have "f k + f l = sum f {k, l}" using False by simp
    also have "\<dots> \<le> (\<Sum>l < objects w. f l)" using that(1) assms(3) by (intro sum_mono2) auto
    finally show ?thesis using total pos [OF here] pos [OF that(2)] by simp
  next
    case True
    have "f k \<le> (\<Sum>l < objects w. f l)" using assms(3) by (intro member_le_sum) auto
    then have "f k \<le> 1" by (simp add: total)
    moreover have "2 \<le> f k" if "n \<noteq> name"
      unfolding f_def by (rule length_filter_two [of "(n, r)" _ "(name, r)"])
        (use that True \<open>(n, r) \<in> set (entries_of w l)\<close> here in auto)
    ultimately show ?thesis using True by (cases "n = name") auto
  qed
  then show ?thesis by (auto simp: private_to_def)
qed

lemma view_private_other:
  "private_to w k name r \<Longrightarrow> r < length (w_arrays w) \<Longrightarrow> l < objects w \<Longrightarrow> l \<noteq> k \<Longrightarrow> view (put_array w r a) l = view w l"
  by (simp add: view_put_array) (auto simp: view_def private_to_def)

lemma view_private_self:
  assumes "private_to w k name r" "r < length (w_arrays w)" "k < objects w" "map_of (entries_of w k) name = Some r"
    "distinct (map fst (entries_of w k))"
  shows "view (put_array w r a) k = Msg (what_of w k) (map (\<lambda>(n, b). (n, if n = name then a else b)) (m_entries (view w k)))"
proof -
  have "q = r \<longleftrightarrow> n = name" if "(n, q) \<in> set (entries_of w k)" for n q
  proof -
    have q: "map_of (entries_of w k) n = Some q" using map_of_is_SomeI [OF assms(5) that] .
    show ?thesis
    proof
      assume "q = r"
      then show "n = name" using that assms(1,3) unfolding private_to_def by blast
    next
      assume "n = name"
      then show "q = r" using q assms(4) by simp
    qed
  qed
  then have "map (\<lambda>(n, q). (n, if q = r then a else array_at w q)) (entries_of w k) =
      map (\<lambda>(n, q). (n, if n = name then a else array_at w q)) (entries_of w k)"
    by (intro map_cong [OF refl]) auto
  then show ?thesis by (simp add: view_put_array [OF assms(2)] comp_def split_def)
qed

subsection \<open>Adding a value\<close>

text \<open>The Message with one more value in the field of that name.\<close>

definition spec_add :: "Message \<Rightarrow> u8 list \<Rightarrow> Message DataItem \<Rightarrow> Message" where
  "spec_add m name x =
     (if map_of (m_entries m) name = None
      then Msg (m_what m) (m_entries m @ [(name, DataArray (new_class (item_code x)) [x])])
      else Msg (m_what m)
             (map (\<lambda>(n, a). (n, if n = name then DataArray (da_class a) (da_items a @ [x]) else a)) (m_entries m)))"

text \<open>The field has the type of the value, if it exists.\<close>

definition field_takes :: "Message \<Rightarrow> u8 list \<Rightarrow> Message DataItem \<Rightarrow> bool" where
  "field_takes m name x \<longleftrightarrow> (case map_of (m_entries m) name of None \<Rightarrow> True | Some a \<Rightarrow> Array_TypeCode a = item_code x)"

definition storable :: "Message DataItem \<Rightarrow> bool" where
  "storable x \<longleftrightarrow> x \<noteq> TagItem None \<and> \<not> is_null_item x"

lemma stored_item_same:
  "array_ok a \<Longrightarrow> class_code (da_class a) = item_code x \<Longrightarrow> stored_item big (da_class a) (ItemPtr x) = Ok x"
  by (simp add: stored_item_def item_has_class array_ok_def)

lemma sizeof_same:
  "array_ok a \<Longrightarrow> class_code (da_class a) = tc \<Longrightarrow> class_sizeof (new_class tc) = class_sizeof (da_class a)"
  by (simp add: array_ok_def)

lemma Array_Add_ample:
  "ample am \<Longrightarrow> array_ok a \<Longrightarrow> class_code (da_class a) = item_code x \<Longrightarrow>
   Array_AddDataItem am big (ItemPtr x) (class_sizeof (new_class (item_code x))) a =
     Ok (B_NO_ERROR, DataArray (da_class a) (da_items a @ [x]))"
  by (simp add: Array_AddDataItem_def sizeof_same stored_item_same)

lemma ref_GetArray_Some:
  "map_of (entries_of w k) name = Some r \<Longrightarrow> class_code (da_class (array_at w r)) = tc \<Longrightarrow>
   ref_GetArray w k name tc = Some r"
  by (simp add: ref_GetArray_def array_matches_def Array_TypeCode_def)

lemma GetOrCreateArray_found:
  "map_of (entries_of w k) name = Some r \<Longrightarrow> class_code (da_class (array_at w r)) = tc \<Longrightarrow>
   GetOrCreateArray am w k name tc = (Some r, w)"
  by (simp add: GetOrCreateArray_def ref_GetArray_Some)

lemma Add_existing:
  assumes "world_ok w" "k < objects w" "ample am" "storable x" "map_of (entries_of w k) name = Some r"
    "class_code (da_class (array_at w r)) = item_code x"
  shows "Message_Add am big w k name x =
      Ok (B_NO_ERROR, put_array w r (DataArray (da_class (array_at w r)) (da_items (array_at w r) @ [x])))"
  using assms world_ok_array [OF assms(1) world_ok_ref [OF assms(1,2,5)]]
  by (simp add: Message_Add_def storable_def add_data_def GetOrCreateArray_found Array_Add_ample)

lemma Add_new:
  assumes "world_ok w" "k < objects w" "ample am" "storable x" "map_of (entries_of w k) name = None"
  shows "\<exists>w'. Message_Add am big w k name x = Ok (B_NO_ERROR, w') \<and> objects w' = objects w
     \<and> view w' k = Msg (what_of w k) (m_entries (view w k) @ [(name, DataArray (new_class (item_code x)) [x])])
     \<and> (\<forall>l < objects w. l \<noteq> k \<longrightarrow> view w' l = view w l)"
proof -
  let ?a = "DataArray (new_class (item_code x)) [] :: Message DataArray"
  let ?b = "DataArray (new_class (item_code x)) [x]"
  obtain r w1 where new: "new_array w ?a = (r, w1)" by fastforce
  have w1: "entries_of w1 l = entries_of w l" "what_of w1 l = what_of w l" "objects w1 = objects w" for l
    using new by (auto simp: new_array_def entries_of_def what_of_def)
  have r: "r = length (w_arrays w)" "r < length (w_arrays w1)" "array_at w1 r = ?a"
    using new new_array_ref [OF new] by (auto simp: new_array_def)
  let ?w2 = "set_entries w1 k (entries_of w k @ [(name, r)])"
  have create: "GetOrCreateArray am w k name (item_code x) = (Some r, ?w2)"
    using assms by (simp add: GetOrCreateArray_def ref_GetArray_def new put_entry_def w1)
  have "Array_AddDataItem am big (ItemPtr x) (class_sizeof (new_class (item_code x))) ?a = Ok (B_NO_ERROR, ?b)"
    using Array_Add_ample [OF assms(3) array_ok_new [of "item_code x"], of x big] by simp
  then have add: "Message_Add am big w k name x = Ok (B_NO_ERROR, put_array ?w2 r ?b)"
    using assms by (simp add: Message_Add_def storable_def add_data_def create r(3))
  have old: "array_at (put_array ?w2 r ?b) q = array_at w q" if "q < length (w_arrays w)" for q
    using that r new by (auto simp: array_at_set) (auto simp: new_array_def array_at_def nth_append)
  have kept: "map (\<lambda>(n, q). (n, array_at (put_array ?w2 r ?b) q)) (entries_of w l) = m_entries (view w l)"
    if "l < objects w" for l
    using entries_in_range [OF assms(1) that] by (auto simp: old)
  have last: "array_at (put_array ?w2 r ?b) r = ?b" using r by (simp add: array_at_set)
  have "view (put_array ?w2 r ?b) k = Msg (what_of w k) (m_entries (view w k) @ [(name, ?b)])"
    using assms(2) kept [OF assms(2)] last by (simp add: view_def w1)
  moreover have "view (put_array ?w2 r ?b) l = view w l" if "l < objects w" "l \<noteq> k" for l
    using assms(2) kept [OF that(1)] that by (simp add: view_def w1)
  ultimately show ?thesis using add w1 by simp
qed

lemma Add_private:
  assumes "world_ok w" "k < objects w" "ample am" "storable x" "field_takes (view w k) name x"
    "\<And>r. map_of (entries_of w k) name = Some r \<Longrightarrow> private_to w k name r"
  shows "\<exists>w'. Message_Add am big w k name x = Ok (B_NO_ERROR, w') \<and> objects w' = objects w
     \<and> view w' k = spec_add (view w k) name x \<and> (\<forall>l < objects w. l \<noteq> k \<longrightarrow> view w' l = view w l)"
proof (cases "map_of (entries_of w k) name")
  case None
  with Add_new [OF assms(1-4) None] show ?thesis by (simp add: spec_add_def map_of_map)
next
  case (Some r)
  let ?a = "array_at w r"
  let ?b = "DataArray (da_class ?a) (da_items ?a @ [x])"
  note r = world_ok_ref [OF assms(1,2) Some]
  have code: "class_code (da_class ?a) = item_code x"
    using assms(5) Some by (simp add: field_takes_def map_of_map Array_TypeCode_def)
  have "view (put_array w r ?b) k = spec_add (view w k) name x"
  proof -
    have "(if n = name then ?b else c) = (if n = name then DataArray (da_class c) (da_items c @ [x]) else c)"
      if "(n, c) \<in> set (m_entries (view w k))" for n c
    proof -
      have "distinct (map fst (m_entries (view w k)))"
        using world_ok_entries(1) [OF assms(1,2)] by (simp add: comp_def split_def)
      then have "map_of (m_entries (view w k)) n = Some c" using that by simp
      then show ?thesis using Some by (auto simp: map_of_map)
    qed
    then have same: "map (\<lambda>(n, c). (n, if n = name then ?b else c)) (m_entries (view w k)) =
        map (\<lambda>(n, c). (n, if n = name then DataArray (da_class c) (da_items c @ [x]) else c)) (m_entries (view w k))"
      by (intro map_cong [OF refl]) (auto simp del: view_sel)
    have "map_of (m_entries (view w k)) name \<noteq> None" by (simp add: map_of_map Some)
    then have "spec_add (view w k) name x = Msg (what_of w k)
        (map (\<lambda>(n, c). (n, if n = name then DataArray (da_class c) (da_items c @ [x]) else c)) (m_entries (view w k)))"
      by (simp only: spec_add_def if_False view_sel(1))
    then show ?thesis
      by (simp only: view_private_self [OF assms(6) [OF Some] r assms(2) Some world_ok_entries(1) [OF assms(1,2)]] same)
  qed
  then show ?thesis
    using Add_existing [OF assms(1-4) Some code] view_private_other [OF assms(6) [OF Some] r] by simp
qed

end
