(* ===== verification/Message_Sharing.thy ===== *)
theory Message_Sharing
  imports Message_Effects
begin

section \<open>Shared, copied and moved fields\<close>

text \<open>
  What Messages that share an array see of each other's changes, and how \<^verbatim>\<open>EnsureFieldIsPrivate\<close>, \<^verbatim>\<open>CopyName\<close>
  and \<^verbatim>\<open>operator =\<close> part them.
\<close>

lemma put_entry_ample:
  assumes "ample am"
  shows "fst (put_entry am w k name r) = B_NO_ERROR"
  using assms by (simp add: put_entry_def Let_def)

lemma put_entry_store [simp]:
  "w_arrays (snd (put_entry am w k name r)) = w_arrays w" "array_at (snd (put_entry am w k name r)) = array_at w"
  "objects (snd (put_entry am w k name r)) = objects w" "what_of (snd (put_entry am w k name r)) l = what_of w l"
  "k < objects w \<Longrightarrow> l \<noteq> k \<Longrightarrow> entries_of (snd (put_entry am w k name r)) l = entries_of w l"
  by (simp_all add: put_entry_def Let_def)

lemma map_of_put: "map_of (map (\<lambda>(n, q). (n, if n = name then r else q)) es) n =
    (if n = name then map_option (\<lambda>_. r) (map_of es n) else map_of es n)"
  by (induction es) auto

lemma map_of_put_entry:
  "ample am \<Longrightarrow> k < objects w \<Longrightarrow>
   map_of (entries_of (snd (put_entry am w k name r)) k) n = (if n = name then Some r else map_of (entries_of w k) n)"
  by (auto simp: put_entry_def Let_def map_of_put map_add_def split: option.splits)

text \<open>A field and the same field of another Message that it is shared with have one array.\<close>

lemma share_then_add:
  assumes "world_ok w" "k < objects w" "l < objects w" "k \<noteq> l" "ample am" "storable x"
    "map_of (m_entries (view w k)) name = Some a" "Array_TypeCode a = item_code x"
  shows "\<exists>w1 w2. Message_ShareName am w k name l newName = (B_NO_ERROR, w1)
     \<and> Message_Add am big w1 l newName x = Ok (B_NO_ERROR, w2)
     \<and> map_of (m_entries (view w2 l)) newName = Some (DataArray (da_class a) (da_items a @ [x]))
     \<and> map_of (m_entries (view w2 k)) name = Some (DataArray (da_class a) (da_items a @ [x]))"
proof -
  obtain r where r: "map_of (entries_of w k) name = Some r" "array_at w r = a"
    using assms(7) by (auto simp: map_of_map)
  let ?b = "DataArray (da_class a) (da_items a @ [x])"
  obtain st w1 where put: "put_entry am w l newName r = (st, w1)" by fastforce
  have st: "st = B_NO_ERROR" using put_entry_ample [OF assms(5), of w l newName r] put by simp
  have w1: "w_arrays w1 = w_arrays w" "array_at w1 = array_at w" "objects w1 = objects w"
    "entries_of w1 k = entries_of w k" "map_of (entries_of w1 l) newName = Some r"
    using put_entry_store [where am = am and w = w and k = l and name = newName and r = r] put assms(3,4) map_of_put_entry [OF assms(5,3), where name = newName and r = r and n = newName]
    by auto
  have share: "Message_ShareName am w k name l newName = (B_NO_ERROR, w1)"
    using r put st by (simp add: Message_ShareName_def)
  have ok: "world_ok w1" using keeps_ShareName [OF assms(1-3), where am = am and oldName = name and newName = newName] share by (simp add: keeps_def)
  have "Message_Add am big w1 l newName x = Ok (B_NO_ERROR, put_array w1 r ?b)"
    using Add_existing [OF ok _ assms(5,6), where k = l and name = newName and r = r and big = big] assms(3,8) w1 r
    by (simp add: Array_TypeCode_def)
  moreover have "r < length (w_arrays w1)" using world_ok_ref [OF assms(1,2) r(1)] w1 by simp
  ultimately show ?thesis using share w1 r by (auto simp: map_of_map array_at_set)
qed

subsection \<open>Copies\<close>

text \<open>A field with a new array of the same value: the values stay, and the array is private.\<close>

lemma clone_entry:
  fixes name :: "u8 list"
  assumes "world_ok w" "k < objects w" "l < objects w" "ample am" "r < length (w_arrays w)"
    "new_array w (array_at w r) = (c, w1)"
  defines "w2 \<equiv> snd (put_entry am w1 l name c)"
  shows "map_of (m_entries (view w2 l)) name = Some (array_at w r)"
    "\<And>n. n \<noteq> name \<Longrightarrow> map_of (m_entries (view w2 l)) n = map_of (m_entries (view w l)) n"
    "\<And>j. j < objects w \<Longrightarrow> j \<noteq> l \<Longrightarrow> view w2 j = view w j"
    "map_of (entries_of w2 l) name = Some c" "private_to w2 l name c" "keeps w w2"
proof -
  have c: "c = length (w_arrays w)" "array_at w1 c = array_at w r" "objects w1 = objects w" "entries_of w1 = entries_of w"
    "what_of w1 = what_of w"
    using new_array_ref [OF assms(6)] assms(6) by (auto simp: new_array_def entries_of_def what_of_def fun_eq_iff)
  have v1: "view w1 j = view w j" if "j < objects w" for j by (rule view_new_array [OF assms(1) that assms(6)])
  show found: "map_of (entries_of w2 l) name = Some c" "map_of (m_entries (view w2 l)) name = Some (array_at w r)"
    using assms(3,4) c by (simp_all add: w2_def map_of_map map_of_put_entry)
  show "map_of (m_entries (view w2 l)) n = map_of (m_entries (view w l)) n" if "n \<noteq> name" for n
  proof -
    have "map_of (m_entries (view w2 l)) n = map_of (m_entries (view w1 l)) n"
      using that assms(3,4) c by (simp add: w2_def map_of_map map_of_put_entry)
    then show ?thesis by (simp only: v1 [OF assms(3)])
  qed
  show other: "view w2 j = view w j" if "j < objects w" "j \<noteq> l" for j
    using v1 [OF that(1)] that assms(3) c by (simp add: w2_def view_def)
  have w1: "keeps w w1" using keeps_new_array [OF assms(1) world_ok_array [OF assms(1,5)]] assms(6) by simp
  have "keeps w1 w2" unfolding w2_def
    using w1 new_array_ref [OF assms(6)] assms(3) by (intro keeps_put_entry) (simp_all add: keeps_def)
  with w1 show "keeps w w2" by (rule keeps_trans)
  have "j = l \<and> n = name" if "j < objects w2" "(n, c) \<in> set (entries_of w2 j)" for j n
  proof -
    have no: "(n, c) \<notin> set (entries_of w j)" if "j < objects w" for j n
      using entries_in_range [OF assms(1) that] c(1) by fastforce
    have "j = l" using that no assms(3) c by (cases "j = l") (auto simp: w2_def)
    moreover have "n = name"
      using that no [OF assms(3)] assms(3) c \<open>j = l\<close>
      by (auto simp: w2_def put_entry_def Let_def split: if_splits)
    ultimately show ?thesis by simp
  qed
  then show "private_to w2 l name c" by (simp add: private_to_def)
qed

lemma clone_ample: "ample am \<Longrightarrow> clone_array am w r = Some (new_array w (array_at w r))"
  by (simp add: clone_array_def Let_def)

lemma ref_GetArray_any: "ref_GetArray w k name B_ANY_TYPE = map_of (entries_of w k) name"
  by (simp add: ref_GetArray_def array_matches_def split: option.splits)

lemma view_entries_eqI:
  assumes "map fst (entries_of w k) = map fst (entries_of v k)" "distinct (map fst (entries_of v k))"
    "\<And>n. map_of (m_entries (view w k)) n = map_of (m_entries (view v k)) n" "what_of w k = what_of v k"
  shows "view w k = view v k"
proof (rule view_eqI [OF assms(4)])
  let ?xs = "m_entries (view w k)" and ?ys = "m_entries (view v k)"
  have names: "map fst ?xs = map fst ?ys" using assms(1) by (simp add: comp_def split_def)
  have d: "distinct (map fst ?ys)" using assms(2) by (simp add: comp_def split_def)
  show "?xs = ?ys"
  proof (rule nth_equalityI)
    show len: "length ?xs = length ?ys" using arg_cong [OF names, of length] by simp
    fix i assume i: "i < length ?xs"
    have fst_eq: "fst (?xs ! i) = fst (?ys ! i)" using i len arg_cong [OF names, of "\<lambda>l. l ! i"] by simp
    have "map_of ?xs (fst (?xs ! i)) = Some (snd (?xs ! i))"
      using d i by (intro map_of_is_SomeI) (simp_all only: names prod.collapse nth_mem)
    moreover have "map_of ?ys (fst (?ys ! i)) = Some (snd (?ys ! i))"
      using d i len by (intro map_of_is_SomeI) (simp_all only: prod.collapse nth_mem)
    ultimately show "?xs ! i = ?ys ! i" using assms(3) [of "fst (?xs ! i)"] fst_eq
      by (simp only: prod_eq_iff option.inject simp_thms)
  qed
qed

lemma put_names:
  "map_of (entries_of w k) name \<noteq> None \<Longrightarrow> k < objects w \<Longrightarrow>
   map fst (entries_of (snd (put_entry am w k name r)) k) = map fst (entries_of w k)"
  by (simp add: put_entry_def Let_def comp_def split_def)

text \<open>
  \<^verbatim>\<open>EnsureFieldIsPrivate\<close> changes the value of no Message, and afterwards the field has an array of its
  own.
\<close>

lemma ensure_private:
  assumes "world_ok w" "k < objects w" "ample am" "map_of (entries_of w k) name = Some r"
  obtains w' r' where "EnsureFieldIsPrivate am w k name = (B_NO_ERROR, w')" "keeps w w'"
    "\<And>l. l < objects w \<Longrightarrow> view w' l = view w l" "map_of (entries_of w' k) name = Some r'" "private_to w' k name r'"
proof (cases "ref_count w r = 1")
  case True
  then show ?thesis
    using that [of w r] assms keeps_refl [OF assms(1)] ref_count_private [OF True assms(4,2)]
    by (simp add: EnsureFieldIsPrivate_def)
next
  case False
  obtain c w1 where new: "new_array w (array_at w r) = (c, w1)" by fastforce
  let ?w2 = "snd (put_entry am w1 k name c)"
  note r = world_ok_ref [OF assms(1,2,4)]
  note copy = clone_entry [OF assms(1,2,2,3) r new, where name = name]
  have w1: "entries_of w1 = entries_of w" "objects w1 = objects w" "what_of w1 = what_of w"
    using new by (auto simp: new_array_def entries_of_def what_of_def fun_eq_iff)
  have run: "EnsureFieldIsPrivate am w k name = (B_NO_ERROR, ?w2)"
    using False assms put_entry_ample [OF assms(3), of w1 k name c]
    by (simp add: EnsureFieldIsPrivate_def Message_CopyName_def ref_GetArray_any clone_ample new)
      (simp add: prod_eq_iff)
  have same: "view ?w2 k = view w k"
  proof (rule view_entries_eqI)
    show "map fst (entries_of ?w2 k) = map fst (entries_of w k)"
      using put_names [where w = w1 and k = k and name = name and am = am and r = c] assms(2,4) w1 by simp
    show "distinct (map fst (entries_of w k))" by (rule world_ok_entries(1) [OF assms(1,2)])
    show "what_of ?w2 k = what_of w k" by (simp add: w1)
    show "map_of (m_entries (view ?w2 k)) n = map_of (m_entries (view w k)) n" for n
      using copy(1) copy(2) [of n] assms(4) by (cases "n = name") (simp_all add: map_of_map)
  qed
  have "view ?w2 l = view w l" if "l < objects w" for l
    using same copy(3) [OF that] by (cases "l = k") simp_all
  then show ?thesis using that [OF run copy(6) _ copy(4,5)] by simp
qed

text \<open>
  So a value that is added to a private field of a Message is seen in that Message only.
\<close>

lemma private_then_add:
  assumes "world_ok w" "k < objects w" "ample am" "storable x" "map_of (entries_of w k) name = Some r"
    "field_takes (view w k) name x"
  shows "\<exists>w1 w2. EnsureFieldIsPrivate am w k name = (B_NO_ERROR, w1) \<and> Message_Add am big w1 k name x = Ok (B_NO_ERROR, w2)
     \<and> view w2 k = spec_add (view w k) name x \<and> (\<forall>l < objects w. l \<noteq> k \<longrightarrow> view w2 l = view w l)"
proof -
  from ensure_private [OF assms(1,2,3,5)] obtain w1 q where w1:
    "EnsureFieldIsPrivate am w k name = (B_NO_ERROR, w1)" "keeps w w1" "\<And>l. l < objects w \<Longrightarrow> view w1 l = view w l"
    "map_of (entries_of w1 k) name = Some q" "private_to w1 k name q" by blast
  have "world_ok w1" "objects w1 = objects w" using w1(2) by (simp_all add: keeps_def)
  moreover have "field_takes (view w1 k) name x" using assms(6) w1(3) [OF assms(2)] by (simp only:)
  moreover have "private_to w1 k name r'" if "map_of (entries_of w1 k) name = Some r'" for r'
    using that w1(4,5) by simp
  ultimately obtain w2 where "Message_Add am big w1 k name x = Ok (B_NO_ERROR, w2)"
    "view w2 k = spec_add (view w1 k) name x" "\<forall>l < objects w. l \<noteq> k \<longrightarrow> view w2 l = view w1 l"
    using Add_private [of w1 k am x name big] assms(2,3,4) by auto
  then show ?thesis using w1 assms(2) by auto
qed

subsection \<open>Assignment\<close>

lemma clone_fields_view:
  assumes "ample am"
  shows "world_ok w \<Longrightarrow> k < objects w \<Longrightarrow> distinct (map fst (entries_of w k @ es)) \<Longrightarrow>
    list_all (\<lambda>(_, r). r < length (w_arrays w)) es \<Longrightarrow>
    m_entries (view (clone_fields am w k es) k) = m_entries (view w k) @ map (\<lambda>(n, r). (n, array_at w r)) es
    \<and> what_of (clone_fields am w k es) k = what_of w k
    \<and> (\<forall>j < objects w. j \<noteq> k \<longrightarrow> view (clone_fields am w k es) j = view w j)"
proof (induction es arbitrary: w)
  case Nil then show ?case by simp
next
  case (Cons e es)
  obtain name r where e: "e = (name, r)" by (cases e)
  obtain c w1 where new: "new_array w (array_at w r) = (c, w1)" by fastforce
  let ?w2 = "snd (put_entry am w1 k name c)"
  have r: "r < length (w_arrays w)" using Cons.prems(4) by (simp add: e)
  note copy = clone_entry [OF Cons.prems(1,2,2) assms r new, where name = name]
  have w1: "entries_of w1 = entries_of w" "objects w1 = objects w" "what_of w1 = what_of w"
    "c = length (w_arrays w)" "array_at w1 c = array_at w r" "length (w_arrays w1) = Suc (length (w_arrays w))"
    using new new_array_ref [OF new] by (auto simp: new_array_def entries_of_def what_of_def fun_eq_iff)
  have old: "array_at w1 q = array_at w q" if "q < length (w_arrays w)" for q
    using that new by (auto simp: new_array_def array_at_def nth_append)
  have fresh: "map_of (entries_of w k) name = None" using Cons.prems(3) by (auto simp: e map_of_eq_None_iff)
  then have ent: "entries_of ?w2 k = entries_of w k @ [(name, c)]"
    using assms Cons.prems(2) w1 by (simp add: put_entry_def Let_def)
  have view2: "m_entries (view ?w2 k) = m_entries (view w k) @ [(name, array_at w r)]"
    using entries_in_range [OF Cons.prems(1,2)] by (auto simp: ent w1(5) old)
  have run: "clone_fields am w k (e # es) = clone_fields am ?w2 k es"
    by (simp add: e clone_ample [OF assms] new)
  have ok: "world_ok ?w2" "objects ?w2 = objects w" using copy(6) by (simp_all add: keeps_def)
  have "map (\<lambda>(n, r). (n, array_at ?w2 r)) es = map (\<lambda>(n, r). (n, array_at w r)) es"
    using Cons.prems(4) old by (auto simp: list_all_iff)
  moreover have "list_all (\<lambda>(_, r). r < length (w_arrays ?w2)) es"
    using Cons.prems(4) by (auto simp: list_all_iff w1)
  moreover have "distinct (map fst (entries_of ?w2 k @ es))"
    using Cons.prems(3) by (auto simp: ent e)
  ultimately have
    "m_entries (view (clone_fields am ?w2 k es) k) = m_entries (view ?w2 k) @ map (\<lambda>(n, r). (n, array_at w r)) es"
    "what_of (clone_fields am ?w2 k es) k = what_of ?w2 k"
    "\<forall>j < objects w. j \<noteq> k \<longrightarrow> view (clone_fields am ?w2 k es) j = view ?w2 j"
    using Cons.IH [OF ok(1)] Cons.prems(2) ok(2) by simp_all
  moreover have "what_of ?w2 k = what_of w k" by (simp add: w1(3))
  ultimately show ?case unfolding run view2 using copy(3) by (simp add: e del: view_sel(2) clone_fields.simps)
qed

text \<open>After \<^verbatim>\<open>*this = rhs\<close> this Message has the value of \<^verbatim>\<open>rhs\<close>, and no other has changed.\<close>

lemma assign_copies:
  assumes "world_ok w" "k < objects w" "l < objects w" "ample am"
  shows "view (Message_assign am w k l) k = view w l"
    "\<And>j. j < objects w \<Longrightarrow> j \<noteq> k \<Longrightarrow> view (Message_assign am w k l) j = view w j"
proof -
  let ?w1 = "set_what (Message_Clear w k) k (what_of w l)"
  have ok: "world_ok ?w1" using keeps_Clear [OF assms(1), of k] by (simp add: keeps_def world_ok_set_what)
  have e: "entries_of ?w1 k = []" "what_of ?w1 k = what_of w l" "objects ?w1 = objects w" "array_at ?w1 = array_at w"
    "w_arrays ?w1 = w_arrays w"
    using assms(2) by (simp_all add: Message_Clear_def)
  have v: "view ?w1 j = view w j" if "j \<noteq> k" for j
    using that assms(2) by (simp add: view_def Message_Clear_def)
  have none: "m_entries (view ?w1 k) = []" by (simp only: view_sel(2) e(1) list.map)
  let ?v = "clone_fields am ?w1 k (entries_of w l)"
  have all: "m_entries (view ?v k) = m_entries (view ?w1 k) @ map (\<lambda>(n, r). (n, array_at ?w1 r)) (entries_of w l)
      \<and> what_of ?v k = what_of ?w1 k \<and> (\<forall>j < objects ?w1. j \<noteq> k \<longrightarrow> view ?v j = view ?w1 j)"
    by (rule clone_fields_view [OF assms(4) ok])
      (use world_ok_entries [OF assms(1,3)] assms(2) in \<open>simp_all only: e append_Nil\<close>)
  have c: "view ?v j = view w j" if "j < objects w" "j \<noteq> k" for j
  proof -
    have "view ?v j = view ?w1 j" using all that unfolding e(3) by blast
    then show ?thesis by (simp only: v [OF that(2)])
  qed
  have "m_entries (view ?v k) = m_entries (view w l)" using all unfolding none e(4) view_sel(2) [of w l] append_Nil by blast
  moreover have "what_of ?v k = what_of w l" using all unfolding e(2) by blast
  ultimately show "view (Message_assign am w k l) k = view w l"
    by (cases "k = l") (auto simp: Message_assign_def intro!: view_eqI simp del: view_sel(2))
  show "view (Message_assign am w k l) j = view w j" if "j < objects w" "j \<noteq> k" for j
    using c that by (simp add: Message_assign_def)
qed

end
