(* ===== verification/Message_Outcomes.thy ===== *)
theory Message_Outcomes
  imports Message_Sharing
begin

section \<open>Which calls on a Message go wrong\<close>

text \<open>
  The methods for the built-in types never use an array as one of another type.  \<^verbatim>\<open>ReplaceData\<close> reads
  behind its data, \<^verbatim>\<open>MoveName\<close> confuses its two names, and a flattened object that
  \<^verbatim>\<open>ReplaceFlatAux\<close> adds is the bytes of a reference.
\<close>

subsection \<open>Typed calls\<close>

text \<open>The calls with a value of a known type, and those without a value.\<close>

fun typed_call :: "message_call \<Rightarrow> bool" where
  "typed_call (CallAddFlat k name b tc pre) \<longleftrightarrow> new_class tc = ByteBufferArray tc \<and> tc \<noteq> B_ANY_TYPE"
| "typed_call (CallAddData k name d n tc pre) \<longleftrightarrow> False"
| "typed_call (CallReplaceFlat k ota name i b rb tc) \<longleftrightarrow> False"
| "typed_call (CallReplaceData k ota name tc i d n) \<longleftrightarrow> False"
| "typed_call (CallUnflatten k mem n) \<longleftrightarrow> False"
| "typed_call _ \<longleftrightarrow> True"

lemma add_data_returns:
  assumes "world_ok w" "k < objects w" "tc \<noteq> B_ANY_TYPE" "\<And>c. c = new_class tc \<Longrightarrow> has_class c x"
  shows "\<exists>r. add_data am big w k name tc (ItemPtr x) sz pre = Ok r"
proof -
  obtain ref w1 where g: "GetOrCreateArray am w k name tc = (ref, w1)" by fastforce
  have "has_class (da_class (array_at w1 r)) x" if "ref = Some r" for r
    using GetOrCreateArray_ok(2) [OF assms(1,2) g that] assms(3,4) by (auto simp: array_ok_def)
  then show ?thesis
    by (auto simp: add_data_def g Array_AddDataItem_def Array_PrependDataItem_def stored_item_def split: option.splits)
qed

lemma item_new_class: "has_class (new_class (item_code x)) x"
  by (rule item_has_class) simp_all

lemma Add_returns:
  "world_ok w \<Longrightarrow> k < objects w \<Longrightarrow> \<exists>r. Message_Add am big w k name x = Ok r"
  using add_data_returns [OF _ _ item_code_not_any, of w k x x] by (simp add: Message_Add_def item_new_class)

lemma Prepend_returns:
  "world_ok w \<Longrightarrow> k < objects w \<Longrightarrow> \<exists>r. Message_Prepend am big w k name x = Ok r"
  using add_data_returns [OF _ _ item_code_not_any, of w k x x] by (simp add: Message_Prepend_def item_new_class)

lemma Replace_returns:
  assumes "world_ok w" "k < objects w"
  shows "\<exists>r. Message_Replace am big w k okayToAdd name i x = Ok r"
proof -
  have "\<exists>r. replace_data big w q i (ItemPtr x) sz = Ok r"
    if q: "ref_GetArray w k name (item_code x) = Some q" for q sz
  proof -
    have "class_code (da_class (array_at w q)) = item_code x" "q < length (w_arrays w)"
      using ref_GetArrayD [OF q] item_code_not_any ref_GetArray_ok [OF assms q] by metis+
    with world_ok_array [OF assms(1)] show ?thesis
      by (simp add: replace_data_def Array_ReplaceDataItem_def stored_item_same)
  qed
  then show ?thesis using Add_returns [OF assms]
    by (auto simp: Message_Replace_def Let_def split: option.splits)
qed

lemma AddFlat_returns:
  assumes "world_ok w" "k < objects w" "new_class tc = ByteBufferArray tc" "tc \<noteq> B_ANY_TYPE"
  shows "\<exists>r. AddFlatAux am big w k name b tc pre = Ok r"
  using add_data_returns [OF assms(1,2,4), of "FlatItem b"] assms(3) by (simp add: AddFlatAux_def)

lemma typed_call_returns:
  assumes "world_ok w" "list_all (\<lambda>k. k < objects w) (call_objects c)" "typed_call c"
  shows "\<exists>st w'. run_call am big garbage fuel w c = Ok (st, w') \<and> world_ok w'"
proof -
  have "\<exists>r. run_call am big garbage fuel w c = Ok r"
    using assms by (cases c) (simp_all add: Add_returns [simplified] Prepend_returns [simplified]
        Replace_returns [simplified] AddFlat_returns [simplified])
  then obtain st w' where run: "run_call am big garbage fuel w c = Ok (st, w')" by auto
  then show ?thesis using keeps_run_call [OF assms(1,2) run] by (auto simp: keeps_def)
qed

subsection \<open>MoveName\<close>

text \<open>
  With two different names, the target gets the field under its old name, this Message keeps the
  field and loses whatever it had under the new name.
\<close>

lemma MoveName_keeps_field:
  assumes "k < objects w" "l < objects w" "k \<noteq> l" "ample am" "map_of (m_entries (view w k)) old = Some a" "old \<noteq> new"
  shows "\<exists>w'. Message_MoveName am w k old l new = (B_NO_ERROR, w')
     \<and> map_of (m_entries (view w' k)) old = Some a \<and> map_of (m_entries (view w' k)) new = None
     \<and> map_of (m_entries (view w' l)) old = Some a
     \<and> map_of (m_entries (view w' l)) new = map_of (m_entries (view w l)) new"
proof -
  obtain r where r: "map_of (entries_of w k) old = Some r" "array_at w r = a" using assms(5) by (auto simp: map_of_map)
  obtain st w1 where put: "put_entry am w l old r = (st, w1)" by fastforce
  have st: "st = B_NO_ERROR" using put_entry_ample [OF assms(4), of w l old r] put by simp
  have w1: "array_at w1 = array_at w" "objects w1 = objects w" "entries_of w1 k = entries_of w k"
    "\<And>n. map_of (entries_of w1 l) n = (if n = old then Some r else map_of (entries_of w l) n)"
    using put_entry_store [where am = am and w = w and k = l and name = old and r = r] put assms(2,3)
      map_of_put_entry [OF assms(4,2), where name = old and r = r] by auto
  have filter: "map_of (filter (\<lambda>(n, q). n \<noteq> new) es) n = (if n = new then None else map_of es n)"
    for es :: "(u8 list \<times> nat) list" and n by (induction es) auto
  let ?w' = "snd (Message_RemoveName w1 k new)"
  have "array_at ?w' = array_at w" "entries_of ?w' l = entries_of w1 l"
    "\<And>n. map_of (entries_of ?w' k) n = (if n = new then None else map_of (entries_of w k) n)"
    using assms(1,3) by (auto simp: Message_RemoveName_def Let_def w1 filter)
  moreover have "Message_MoveName am w k old l new = (B_NO_ERROR, ?w')"
    using r(1) put st by (simp add: Message_MoveName_def Message_ShareName_def)
  ultimately show ?thesis using r assms(6) w1(4) by (simp add: map_of_map)
qed

subsection \<open>ReplaceData\<close>

text \<open>
  \<^verbatim>\<open>ReplaceData\<close> with the bytes of exactly one item reads them at \<^verbatim>\<open>index*elementSize\<close>, which is behind
  them for every index but the first.
\<close>

lemma ReplaceData_overrun:
  assumes "world_ok w" "k < objects w" "map_of (m_entries (view w k)) name = Some a" "Array_TypeCode a = tc"
    "is_value_class (da_class a)" "length data = class_sizeof (da_class a)"
    "0 < index" "index < Array_GetNumItems a" "unat index * class_sizeof (da_class a) < 2 ^ 32"
  shows "Message_ReplaceData am big garbage w k okayToAdd name tc index data (word_of_nat (length data)) = Fault"
proof -
  obtain r where r: "map_of (entries_of w k) name = Some r" "array_at w r = a" using assms(3) by (auto simp: map_of_map)
  have ok: "da_class a = new_class tc"
    using world_ok_array [OF assms(1) world_ok_ref [OF assms(1,2) r(1)]] r(2) assms(4)
    by (simp add: array_ok_def Array_TypeCode_def)
  let ?k = "class_sizeof (da_class a)"
  have pos: "0 < ?k" "?k \<le> 16" by (cases "da_class a"; simp)+
  have size: "GetElementSize tc = ?k" using assms(5) by (cases "da_class a") (simp_all add: GetElementSize_def ok [symmetric] is_value_class_def)
  have nostring: "tc \<noteq> B_STRING_TYPE"
    using assms(5) assms(4) by (cases "da_class a")
      (auto simp: is_value_class_def Array_TypeCode_def B_STRING_TYPE_def B_BOOL_TYPE_def B_INT8_TYPE_def B_INT16_TYPE_def
        B_INT32_TYPE_def B_INT64_TYPE_def B_FLOAT_TYPE_def B_DOUBLE_TYPE_def B_POINTER_TYPE_def B_POINT_TYPE_def B_RECT_TYPE_def)
  have found: "ref_GetArray w k name tc = Some r"
    using r assms(4) by (intro ref_GetArray_Some) (simp_all add: Array_TypeCode_def)
  have n: "unat (word_of_nat ?k :: u32) = ?k" by (cases "da_class a") simp_all
  have "unat index < unat (Array_GetNumItems a)" using assms(8) by (simp add: word_less_nat_alt)
  moreover have "unat (Array_GetNumItems a) < 2 ^ 32" using unsigned_less [of "Array_GetNumItems a"] by simp
  ultimately have "unat index + 1 < 2 ^ 32" by linarith
  then have "unat (index + 1) = unat index + 1" by (subst unat_add_lem [THEN iffD1]) simp_all
  then have after: "index < index + 1" by (simp add: word_less_nat_alt)
  have off: "unat (index * word_of_nat ?k) = unat index * ?k"
    using assms(9) n by (simp add: unat_mult_lem [THEN iffD1])
  have "?k \<le> unat index * ?k" using assms(7) by (cases "unat index") (simp_all add: unat_eq_0)
  then have behind: "drop (unat index * ?k) data = []" using assms(6) by simp
  have "Array_ReplaceDataItem big index (RawPtr (drop (unat index * ?k) data)) ?k a = Fault"
    unfolding behind using pos(1) by (simp add: Array_ReplaceDataItem_def stored_item_def)
  moreover have "\<not> Array_GetNumItems a \<le> index" using assms(8) by simp
  ultimately show ?thesis
    using nostring found assms(6) pos size n after off r(2)
    by (simp add: Message_ReplaceData_def beyond_def Let_def data_pointer_def replace_data_def)
qed

subsection \<open>ReplaceFlatAux\<close>

text \<open>A byte buffer made from eight bytes is added just as \<^verbatim>\<open>AddFlat\<close> adds it.\<close>

lemma AddDataAux_raw:
  assumes "ample am" "length d = 8"
  shows "AddDataAux am big garbage w k name (Some d) 8 B_RAW_TYPE False = Message_Add am big w k name (FlatItem (Some d))"
proof -
  have tc: "B_RAW_TYPE \<noteq> B_STRING_TYPE" "GetElementSize B_RAW_TYPE = 0" "item_code (FlatItem b) = B_RAW_TYPE"
    "class_sizeof (new_class B_RAW_TYPE) = 8" for b :: "u8 list option"
    by (simp_all add: GetElementSize_def item_code_def new_class_def B_TAG_TYPE_def B_RAW_TYPE_def
       B_BOOL_TYPE_def B_INT8_TYPE_def B_INT16_TYPE_def B_INT32_TYPE_def B_INT64_TYPE_def B_FLOAT_TYPE_def
       B_DOUBLE_TYPE_def B_POINTER_TYPE_def B_POINT_TYPE_def B_RECT_TYPE_def B_STRING_TYPE_def B_MESSAGE_TYPE_def)
  have read: "mem_read d 0 8 = Ok d" using assms(2) by (simp add: mem_read_def)
  have eight: "unat (8 :: u32) = 8" by simp
  have one: "AddDataLoop am big garbage (Suc 0) 0 w1 r True (Some d) 8 False =
      obind (Array_AddDataItem am big (ItemPtr (FlatItem (Some d))) 8 (array_at w1 r)) (\<lambda>(st, a). Ok (st, put_array w1 r a))"
    for w1 r
    using assms by (auto simp: data_pointer_def read obind_def split: outcome.splits) (metis status.exhaust)
  obtain ref w1 where g: "GetOrCreateArray am w k name B_RAW_TYPE = (ref, w1)" by fastforce
  show ?thesis
    by (cases ref) (simp_all add: AddDataAux_def Message_Add_def add_data_def tc is_null_item_def g one eight del: AddDataLoop.simps)
qed

lemma ReplaceFlat_adds_reference:
  assumes "world_ok w" "k < objects w" "ample am" "length ref_bytes = 8" "map_of (entries_of w k) name = None"
  shows "\<exists>w'. ReplaceFlatAux am big garbage w k True name i buf ref_bytes B_RAW_TYPE = Ok (B_NO_ERROR, w')
     \<and> view w' k = spec_add (view w k) name (FlatItem (Some ref_bytes))"
proof -
  have "storable (FlatItem (Some ref_bytes))" by (simp add: storable_def is_null_item_def)
  from Add_new [OF assms(1-3) this assms(5), of big] show ?thesis
    using assms(5) by (auto simp: ReplaceFlatAux_def ref_GetArray_def beyond_def AddDataAux_raw [OF assms(3,4)]
        spec_add_def map_of_view simp del: view_sel(2))
qed

subsection \<open>Whole Messages and names\<close>

lemma SwapContents_view:
  "k < objects w \<Longrightarrow> l < objects w \<Longrightarrow>
   view (Message_SwapContents w k l) j = view w (if j = k then l else if j = l then k else j)"
  by (simp add: Message_SwapContents_def view_def)

lemma BecomeLightweightCopyOf_view:
  "k < objects w \<Longrightarrow> view (BecomeLightweightCopyOf w k l) j = view w (if j = k then l else j)"
  by (simp add: BecomeLightweightCopyOf_def view_def)

lemma RemoveName_store [simp]:
  "objects (snd (Message_RemoveName w k n)) = objects w" "array_at (snd (Message_RemoveName w k n)) = array_at w"
  "what_of (snd (Message_RemoveName w k n)) l = what_of w l"
  by (auto simp: Message_RemoveName_def Let_def)

lemma entries_RemoveName:
  assumes "k < objects w"
  shows "entries_of (snd (Message_RemoveName w k name)) l =
    (if l = k then filter (\<lambda>(n, q). n \<noteq> name) (entries_of w k) else entries_of w l)"
proof (cases "map_of (entries_of w k) name")
  case None
  then have "filter (\<lambda>(n, q). n \<noteq> name) (entries_of w k) = entries_of w k"
    by (intro filter_True) (force simp: map_of_eq_None_iff)
  with None show ?thesis by (simp add: Message_RemoveName_def Let_def)
qed (simp add: Message_RemoveName_def Let_def assms)

lemma map_filter_entries:
  "map (\<lambda>(n, r). (n, f r)) (filter (\<lambda>(n, q). P n) es) = filter (\<lambda>(n, a). P n) (map (\<lambda>(n, r). (n, f r)) es)"
  by (induction es) auto

lemma RemoveName_view:
  "k < objects w \<Longrightarrow> view (snd (Message_RemoveName w k name)) k =
     Msg (what_of w k) (filter (\<lambda>(n, a). n \<noteq> name) (m_entries (view w k)))"
  by (simp add: view_def entries_RemoveName map_filter_entries)

text \<open>A field keeps its array under its new name, which ends the table; what had the new name is gone.\<close>

lemma Rename_view:
  assumes "k < objects w" "ample am" "map_of (entries_of w k) old = Some r"
    "old \<noteq> new"
  shows "fst (Message_Rename am w k old new) = B_NO_ERROR"
    "view (snd (Message_Rename am w k old new)) k =
       Msg (what_of w k) (filter (\<lambda>(n, a). n \<noteq> old \<and> n \<noteq> new) (m_entries (view w k)) @ [(new, array_at w r)])"
    "\<And>l. l < objects w \<Longrightarrow> l \<noteq> k \<Longrightarrow> view (snd (Message_Rename am w k old new)) l = view w l"
proof -
  let ?w1 = "snd (Message_RemoveName w k new)"
  let ?w2 = "snd (Message_RemoveName ?w1 k old)"
  have w2: "entries_of ?w2 k = filter (\<lambda>(n, q). n \<noteq> old \<and> n \<noteq> new) (entries_of w k)"
    using assms(1) by (simp add: entries_RemoveName split_def conj_commute)
  have other: "entries_of ?w2 l = entries_of w l" if "l \<noteq> k" for l
    using assms(1) that by (simp add: entries_RemoveName)
  have "map_of (entries_of ?w2 k) new = None" by (auto simp: w2 map_of_eq_None_iff)
  then have put: "put_entry am ?w2 k new r = (B_NO_ERROR, set_entries ?w2 k (entries_of ?w2 k @ [(new, r)]))"
    using assms(2) by (simp add: put_entry_def Let_def)
  have run: "Message_Rename am w k old new = put_entry am ?w2 k new r"
    using assms(3) by (simp add: Message_Rename_def Let_def)
  show "fst (Message_Rename am w k old new) = B_NO_ERROR" by (simp add: run put)
  show "view (snd (Message_Rename am w k old new)) k =
      Msg (what_of w k) (filter (\<lambda>(n, a). n \<noteq> old \<and> n \<noteq> new) (m_entries (view w k)) @ [(new, array_at w r)])"
    using assms(1) by (simp add: run put view_def w2 map_filter_entries)
  show "view (snd (Message_Rename am w k old new)) l = view w l" if "l < objects w" "l \<noteq> k" for l
    using assms(1) that by (simp add: run put view_def other)
qed

end
