(* ===== verification/Message_Wire.thy ===== *)
theory Message_Wire
  imports Message_Model
begin

section \<open>The format of a flattened Message\<close>

text \<open>
  The format that the comments of \<^verbatim>\<open>Message::Flatten\<close> describe, as a function from Messages to
  bytes, and the lemmas that \<^verbatim>\<open>FlattenedSize\<close> is its length and \<^verbatim>\<open>Flatten\<close> writes it.  They hold
  for a Message without NULL references: \<^verbatim>\<open>FlattenedSize\<close> counts four bytes for a NULL reference
  that \<^verbatim>\<open>Flatten\<close> does not write.
\<close>

subsection \<open>Conditions on all the items of a Message\<close>

text \<open>
  \<open>deep P Q m\<close>: the table of \<open>m\<close> and of every sub-Message has the property \<open>P\<close>, and every item, with
  the class of its array, the property \<open>Q\<close>.
\<close>

definition array_all :: "(ArrayClass \<Rightarrow> 'm DataItem \<Rightarrow> bool) \<Rightarrow> ('m \<Rightarrow> bool) \<Rightarrow> 'm DataArray \<Rightarrow> bool" where
  "array_all Q R a \<longleftrightarrow> (\<forall>x \<in> set (da_items a). Q (da_class a) x \<and> (\<forall>m \<in> set_DataItem x. R m))"

lemma array_all_cong [fundef_cong]:
  "a = b \<Longrightarrow> (\<And>m. m \<in> set_DataArray b \<Longrightarrow> R m = R' m) \<Longrightarrow> array_all Q R a = array_all Q R' b"
  by (auto simp: array_all_def set_DataArray_items)

fun deep :: "((u8 list \<times> Message DataArray) list \<Rightarrow> bool) \<Rightarrow> (ArrayClass \<Rightarrow> Message DataItem \<Rightarrow> bool) \<Rightarrow>
    Message \<Rightarrow> bool" where
  "deep P Q (Msg w es) \<longleftrightarrow> P es \<and> list_all (\<lambda>(name, a). array_all Q (deep P Q) a) es"

lemma deep_array: "deep P Q (Msg w es) \<Longrightarrow> (n, a) \<in> set es \<Longrightarrow> array_all Q (deep P Q) a"
  by (auto simp: list_all_iff)

lemma deep_sub: "deep P Q (Msg w es) \<Longrightarrow> (n, a) \<in> set es \<Longrightarrow> m \<in> set_DataArray a \<Longrightarrow> deep P Q m"
  using deep_array [of P Q w es n a] by (auto simp: array_all_def set_DataArray_items)

text \<open>
  Well-formed Messages: the names of the fields are distinct (they are the keys of a table), the items
  have the type of their array, byte buffer arrays have type codes of their own, and strings
  contain no zero.
\<close>

definition wf_entries :: "(u8 list \<times> Message DataArray) list \<Rightarrow> bool" where
  "wf_entries es \<longleftrightarrow> distinct (map fst es)
     \<and> (\<forall>(name, a) \<in> set es. 0 \<notin> set name \<and> new_class (Array_TypeCode a) = da_class a)"

definition wf_item :: "ArrayClass \<Rightarrow> Message DataItem \<Rightarrow> bool" where
  "wf_item c x \<longleftrightarrow> has_class c x \<and> (case x of StringItem s \<Rightarrow> 0 \<notin> set s | _ \<Rightarrow> True)"

definition full_item :: "ArrayClass \<Rightarrow> Message DataItem \<Rightarrow> bool" where
  "full_item c x \<longleftrightarrow> wf_item c x \<and> \<not> is_null_item x"

abbreviation wf_message :: "Message \<Rightarrow> bool" where "wf_message \<equiv> deep wf_entries wf_item"
abbreviation full_message :: "Message \<Rightarrow> bool" where "full_message \<equiv> deep wf_entries full_item"

lemma array_all_mono:
  "array_all Q R a \<Longrightarrow> (\<And>c x. Q c x \<Longrightarrow> Q' c x) \<Longrightarrow> (\<And>m. m \<in> set_DataArray a \<Longrightarrow> R m \<Longrightarrow> R' m) \<Longrightarrow>
   array_all Q' R' a"
  unfolding array_all_def set_DataArray_items by blast

lemma deep_mono:
  assumes "\<And>es. P es \<Longrightarrow> P' es" "\<And>c x. Q c x \<Longrightarrow> Q' c x"
  shows "deep P Q m \<Longrightarrow> deep P' Q' m"
proof (induction m rule: message_induct)
  case (Msg w es)
  have "array_all Q' (deep P' Q') a" if "(n, a) \<in> set es" for n a
    using deep_array [OF Msg.prems that] assms(2) Msg.IH [OF that] by (rule array_all_mono)
  then show ?case using Msg.prems assms(1) by (auto simp: list_all_iff)
qed

lemma full_wf: "full_message m \<Longrightarrow> wf_message m"
  by (rule deep_mono) (auto simp: full_item_def)

subsection \<open>The format\<close>

definition item_payload :: "('m \<Rightarrow> u8 list) \<Rightarrow> 'm DataItem \<Rightarrow> u8 list" where
  "item_payload wm x =
     (case x of
        StringItem s \<Rightarrow> s @ [0]
      | FlatItem (Some bs) \<Rightarrow> bs
      | MessageItem (Some m) \<Rightarrow> wm m
      | _ \<Rightarrow> fixed_item_bytes x)"

definition sized_bytes :: "u8 list \<Rightarrow> u8 list" where
  "sized_bytes bs = u32_le (word_of_nat (length bs)) @ bs"

definition array_wire :: "('m \<Rightarrow> u8 list) \<Rightarrow> 'm DataArray \<Rightarrow> u8 list" where
  "array_wire wm a =
     (let variable = concat (map (\<lambda>x. sized_bytes (item_payload wm x)) (da_items a)) in
      case da_class a of
        TagArray \<Rightarrow> []
      | PointerArray \<Rightarrow> []
      | StringArray \<Rightarrow> u32_le (Array_GetNumItems a) @ variable
      | ByteBufferArray _ \<Rightarrow> u32_le (Array_GetNumItems a) @ variable
      | MessageArray \<Rightarrow> variable
      | _ \<Rightarrow> concat (map fixed_item_bytes (da_items a)))"

lemma item_payload_cong:
  "(\<And>m. m \<in> set_DataItem x \<Longrightarrow> f m = g m) \<Longrightarrow> item_payload f x = item_payload g x"
  by (auto simp: item_payload_def split: DataItem.splits option.splits)

lemma array_wire_cong [fundef_cong]:
  assumes "a = b" "\<And>m. m \<in> set_DataArray b \<Longrightarrow> f m = g m"
  shows "array_wire f a = array_wire g b"
proof -
  have "x \<in> set (da_items b) \<Longrightarrow> item_payload f x = item_payload g x" for x
    using assms(2) by (intro item_payload_cong) (auto simp: set_DataArray_items)
  then have "map (\<lambda>x. sized_bytes (item_payload f x)) (da_items b) = map (\<lambda>x. sized_bytes (item_payload g x)) (da_items b)"
    by simp
  then show ?thesis by (simp only: array_wire_def assms(1))
qed

text \<open>\<open>wire_field\<close> is the format of an entry that the C implementation has too.\<close>

fun message_wire :: "Message \<Rightarrow> u8 list" where
  "message_wire (Msg w es) =
     u32_le CURRENT_PROTOCOL_VERSION @ u32_le w
     @ u32_le (word_of_nat (length (filter (\<lambda>(name, a). Array_IsFlattenable a) es)))
     @ concat (map (\<lambda>(name, a).
         if Array_IsFlattenable a then wire_field (name @ [0]) (Array_TypeCode a) (array_wire message_wire a)
         else []) es)"

subsection \<open>FlattenedSize is the length of the format\<close>

lemma length_fixed_item:
  "has_class c x \<Longrightarrow> is_value_class c \<Longrightarrow> c \<noteq> PointerArray \<Longrightarrow> length (fixed_item_bytes x) = class_sizeof c"
  by (cases x) (auto simp: has_class_def is_value_class_def split: ArrayClass.splits)

lemma length_concat_const: "(\<And>x. x \<in> set xs \<Longrightarrow> length (f x) = k) \<Longrightarrow> length (concat (map f xs)) = length xs * k"
  by (induction xs) simp_all

lemma item_size_payload:
  assumes "full_item c x" "\<not> is_value_class c" "\<And>m. m \<in> set_DataItem x \<Longrightarrow> fsz m = word_of_nat (length (wm m))"
    "c \<noteq> TagArray"
  shows "Array_GetItemSize fsz c x = word_of_nat (length (item_payload wm x))"
  using assms
  by (cases x) (auto simp: Array_GetItemSize_def item_payload_def full_item_def wf_item_def has_class_def
      is_value_class_def is_null_item_def split: option.splits)

lemma sum_sizes:
  "(\<And>x. x \<in> set xs \<Longrightarrow> f x = word_of_nat (length (g x))) \<Longrightarrow>
   sum_list (map f xs) = word_of_nat (length (concat (map g xs)))"
  by (induction xs) simp_all

lemma variable_size:
  assumes "\<And>x. x \<in> set xs \<Longrightarrow> f x = word_of_nat (length (g x))"
  shows "word_of_nat (length (concat (map (\<lambda>x. sized_bytes (g x)) xs))) = word_of_nat (length xs) * 4 + sum_list (map f xs)"
  using assms by (induction xs) (simp_all add: sized_bytes_def algebra_simps)

lemma Array_FlattenedSize_wire:
  assumes a: "array_all full_item R a" "Array_IsFlattenable a"
    and m: "\<And>m. m \<in> set_DataArray a \<Longrightarrow> fsz m = word_of_nat (length (wm m))"
  shows "Array_FlattenedSize fsz a = word_of_nat (length (array_wire wm a))"
proof -
  have it: "full_item (da_class a) x" if "x \<in> set (da_items a)" for x
    using a(1) that by (simp add: array_all_def)
  show ?thesis
  proof (cases "is_value_class (da_class a)")
    case True
    have "length (concat (map fixed_item_bytes (da_items a))) = length (da_items a) * class_sizeof (da_class a)"
      using it a(2) True
      by (intro length_concat_const length_fixed_item) (auto simp: full_item_def wf_item_def Array_IsFlattenable_def)
    then show ?thesis
      using True a(2)
      by (auto simp: Array_FlattenedSize_def array_wire_def Let_def is_value_class_def Array_GetNumItems_def
          Array_IsFlattenable_def split: ArrayClass.splits)
  next
    case False
    have "Array_GetItemSize fsz (da_class a) x = word_of_nat (length (item_payload wm x))" if "x \<in> set (da_items a)" for x
      using it [OF that] False m that a(2)
      by (intro item_size_payload) (auto simp: set_DataArray_items Array_IsFlattenable_def)
    note v = variable_size [of "da_items a", OF this]
    show ?thesis
      using False a(2)
      by (auto simp: Array_FlattenedSize_def array_wire_def Let_def is_value_class_def Array_GetNumItems_def
          Array_IsFlattenable_def v algebra_simps split: ArrayClass.splits)
  qed
qed

lemma FlattenedSize_wire: "full_message m \<Longrightarrow> Message_FlattenedSize m = word_of_nat (length (message_wire m))"
proof (induction m rule: message_induct)
  case (Msg w es)
  let ?sz = "\<lambda>(name, a). if Array_IsFlattenable a
    then 4 + (word_of_nat (length name) + 1) + 4 + 4 + Array_FlattenedSize Message_FlattenedSize a else 0"
  let ?wr = "\<lambda>(name, a). if Array_IsFlattenable a
    then wire_field (name @ [0]) (Array_TypeCode a) (array_wire message_wire a) else []"
  have "Array_FlattenedSize Message_FlattenedSize a = word_of_nat (length (array_wire message_wire a))"
    if "(n, a) \<in> set es" "Array_IsFlattenable a" for n a
  proof (rule Array_FlattenedSize_wire [OF _ that(2)])
    show "array_all full_item full_message a" using Msg.prems that(1) by (rule deep_array)
    fix m assume "m \<in> set_DataArray a"
    moreover from this have "full_message m"
      using deep_array [OF Msg.prems that(1)] by (auto simp: array_all_def set_DataArray_items)
    ultimately show "Message_FlattenedSize m = word_of_nat (length (message_wire m))"
      using Msg.IH that(1) by blast
  qed
  then have "?sz x = word_of_nat (length (?wr x))" if "x \<in> set es" for x
    using that by (cases x) (simp add: length_wire_field algebra_simps)
  then have "sum_list (map ?sz es) = word_of_nat (length (concat (map ?wr es)))"
    by (rule sum_sizes)
  then show ?case by simp
qed

subsection \<open>Flatten writes the format\<close>

text \<open>
  A \<^verbatim>\<open>Flatten\<close> method writes from its own start and says nothing about how much it wrote; the
  caller moves on by \<^verbatim>\<open>FlattenedSize\<close>.
\<close>

definition fills :: "(u8 list \<Rightarrow> nat \<Rightarrow> u8 list outcome) \<Rightarrow> u8 list \<Rightarrow> bool" where
  "fills F bs \<longleftrightarrow> (\<forall>buf base. room False buf base (length bs) \<longrightarrow> F buf base = Ok (overlay buf base bs))"

lemma fillsD: "fills F bs \<Longrightarrow> room False buf base (length bs) \<Longrightarrow> F buf base = Ok (overlay buf base bs)"
  by (simp add: fills_def)

lemma fills_call:
  assumes "fills F bs" "sz = word_of_nat (length bs)"
  shows "writes False (\<lambda>buf base off. obind (F buf (base + unat off)) (\<lambda>buf'. Ok (buf', off + sz))) bs"
proof -
  have "writes_at False (\<lambda>buf base. obind (F buf base) (\<lambda>buf'. Ok (buf', sz))) bs"
    using assms by (simp add: writes_at_def fillsD)
  from writes_embed [OF this] show ?thesis by (simp add: obind_assoc)
qed

lemma fills_writer:
  assumes "writes False W bs"
  shows "fills (\<lambda>buf base. obind (W buf base 0) (\<lambda>s. Ok (fst s))) bs"
  using writes_at_start [OF assms] by (simp add: fills_def writes_at_def)

lemma fills_mem_write: "fills (\<lambda>buf base. mem_write buf base bs) bs"
  by (simp add: fills_def mem_write_def overlay_def room_def)

lemma fills_step:
  assumes "fills F a" "fills G b"
  shows "fills (\<lambda>buf base. obind (F buf base) (\<lambda>buf'. G buf' (base + length a))) (a @ b)"
  unfolding fills_def
proof (intro allI impI)
  fix buf base
  assume r: "room False buf base (length (a @ b))"
  have ra: "room False buf base (length a)" using r by (elim room_mono) simp
  then have "room False (overlay buf base a) (base + length a) (length b)"
    using r length_overlay [OF ra] by (simp add: room_def)
  then have "G (overlay buf base a) (base + length a) = Ok (overlay buf base (a @ b))"
    using assms(2) ra by (simp add: fillsD overlay_overlay room_def)
  then show "obind (F buf base) (\<lambda>buf'. G buf' (base + length a)) = Ok (overlay buf base (a @ b))"
    using fillsD [OF assms(1) ra] by simp
qed

lemma fixed_items_fill:
  assumes "\<And>x. x \<in> set xs \<Longrightarrow> length (fixed_item_bytes x) = k"
  shows "fills (FlattenFixedItems k xs) (concat (map fixed_item_bytes xs))"
  using assms
proof (induction xs)
  case Nil
  then show ?case by (simp add: fills_def)
next
  case (Cons x xs)
  then have "fills (FlattenFixedItems k xs) (concat (map fixed_item_bytes xs))"
    "length (fixed_item_bytes x) = k" by simp_all
  from fills_step [OF fills_mem_write [of "fixed_item_bytes x"] this(1)] this(2) show ?case
    by (simp add: fills_def)
qed

lemma item_fills:
  assumes "\<not> is_value_class c" "c \<noteq> TagArray" "full_item c x" "\<And>m. m \<in> set_DataItem x \<Longrightarrow> fills (ftn m) (wm m)"
  shows "fills (FlattenItem ftn x) (item_payload wm x)"
  using assms fills_mem_write
  by (cases x) (auto simp: FlattenItem_def [abs_def] item_payload_def full_item_def wf_item_def has_class_def
      is_null_item_def is_value_class_def split: option.splits)

lemma variable_items_write:
  assumes "\<And>x. x \<in> set xs \<Longrightarrow> \<not> is_null_item x
      \<and> Array_GetItemSize fsz c x = word_of_nat (length (item_payload wm x))
      \<and> fills (FlattenItem ftn x) (item_payload wm x)"
  shows "writes False (FlattenVariableItems fsz ftn c xs) (concat (map (\<lambda>x. sized_bytes (item_payload wm x)) xs))"
  using assms
proof (induction xs)
  case Nil
  then show ?case by (simp add: writes_def)
next
  case (Cons x xs)
  let ?sz = "word_of_nat (length (item_payload wm x))"
  have x: "\<not> is_null_item x" "Array_GetItemSize fsz c x = ?sz" "fills (FlattenItem ftn x) (item_payload wm x)"
    using Cons.prems by auto
  have "writes False (FlattenVariableItems fsz ftn c xs) (concat (map (\<lambda>x. sized_bytes (item_payload wm x)) xs))"
    by (rule Cons.IH) (use Cons.prems in auto)
  from writes_seq [OF WriteData_writes [where bs = "u32_le ?sz"]
      writes_seq [OF fills_call [OF x(3) refl] this]]
  show ?case using x(1,2) by (simp add: writes_def sized_bytes_def obind_assoc Let_def)
qed

lemma Array_Flatten_wire:
  assumes a: "array_all full_item R a" "Array_IsFlattenable a"
    and m: "\<And>m. m \<in> set_DataArray a \<Longrightarrow> fsz m = word_of_nat (length (wm m)) \<and> fills (ftn m) (wm m)"
  shows "fills (Array_Flatten fsz ftn a) (array_wire wm a)"
proof -
  let ?c = "da_class a" and ?xs = "da_items a"
  have it: "full_item ?c x" if "x \<in> set ?xs" for x using a(1) that by (simp add: array_all_def)
  show ?thesis
  proof (cases "is_value_class ?c")
    case True
    have "length (fixed_item_bytes x) = class_sizeof ?c" if "x \<in> set ?xs" for x
      using it [OF that] a(2) True
      by (intro length_fixed_item) (auto simp: full_item_def wf_item_def Array_IsFlattenable_def)
    note fixed_items_fill [of ?xs, OF this]
    then show ?thesis
      using True a(2)
      by (auto simp: Array_Flatten_def [abs_def] array_wire_def Let_def is_value_class_def
          Array_IsFlattenable_def split: ArrayClass.splits)
  next
    case False
    have tag: "?c \<noteq> TagArray" using a(2) by (simp add: Array_IsFlattenable_def)
    have "\<not> is_null_item x \<and> Array_GetItemSize fsz ?c x = word_of_nat (length (item_payload wm x))
        \<and> fills (FlattenItem ftn x) (item_payload wm x)" if "x \<in> set ?xs" for x
    proof -
      have ms: "m \<in> set_DataItem x \<Longrightarrow> fsz m = word_of_nat (length (wm m)) \<and> fills (ftn m) (wm m)" for m
        using m that by (auto simp: set_DataArray_items)
      then show ?thesis
        using it [OF that] False tag item_size_payload [of ?c x fsz wm] item_fills [of ?c x ftn wm]
        by (simp add: full_item_def)
    qed
    note v = variable_items_write [of ?xs, OF this]
    have cv: "fills (\<lambda>buf base. obind (WriteData buf base 0 (u32_le (Array_GetNumItems a)))
        (\<lambda>s. obind (FlattenVariableItems fsz ftn ?c ?xs (fst s) base (snd s)) (\<lambda>t. Ok (fst t))))
        (u32_le (Array_GetNumItems a) @ concat (map (\<lambda>x. sized_bytes (item_payload wm x)) ?xs))"
      using fills_writer [OF writes_seq [OF WriteData_writes v]] by (simp add: obind_assoc)
    show ?thesis
      using False tag cv fills_writer [OF v]
      by (auto simp: Array_Flatten_def [abs_def] array_wire_def Let_def is_value_class_def split: ArrayClass.splits)
  qed
qed

text \<open>One entry, and the loop over them.\<close>

definition entry_wire :: "(Message DataArray \<Rightarrow> u8 list) \<Rightarrow> u8 list \<times> Message DataArray \<Rightarrow> u8 list" where
  "entry_wire aw = (\<lambda>(name, a).
     if Array_IsFlattenable a then wire_field (name @ [0]) (Array_TypeCode a) (aw a) else [])"

definition flattenables :: "(u8 list \<times> 'm DataArray) list \<Rightarrow> (u8 list \<times> 'm DataArray) list" where
  "flattenables es = filter (\<lambda>(name, a). Array_IsFlattenable a) es"

lemma message_wire_entries:
  "message_wire (Msg w es) =
     u32_le CURRENT_PROTOCOL_VERSION @ u32_le w @ u32_le (word_of_nat (length (flattenables es)))
     @ concat (map (entry_wire (array_wire message_wire)) es)"
  by (simp add: entry_wire_def flattenables_def)

declare message_wire.simps [simp del]

lemma entry_writes:
  assumes "asize a = word_of_nat (length (aw a))" "fills (aflat a) (aw a)"
  shows "writes False (\<lambda>buf base off.
     obind (WriteData buf base off (u32_le (word_of_nat (length name) + 1))) (\<lambda>s.
     obind (mem_write (fst s) (base + unat (snd s)) (name @ [0])) (\<lambda>buf1.
     obind (WriteData buf1 base (snd s + (word_of_nat (length name) + 1)) (u32_le tc)) (\<lambda>t.
     obind (WriteData (fst t) base (snd t) (u32_le (asize a))) (\<lambda>u.
     obind (aflat a (fst u) (base + unat (snd u))) (\<lambda>buf2. Ok (buf2, snd u + asize a)))))))
     (wire_field (name @ [0]) tc (aw a))"
proof -
  have n: "word_of_nat (length name) + 1 = word_of_nat (length (name @ [0]))" by simp
  note w = writes_seq [OF WriteData_writes writes_seq [OF fills_call [OF fills_mem_write n]
      writes_seq [OF WriteData_writes writes_seq [OF WriteData_writes fills_call [OF assms(2,1)]]]]]
  show ?thesis
    using w [of "u32_le (word_of_nat (length name) + 1)" "u32_le tc" "u32_le (asize a)"] assms(1)
    by (simp add: wire_field_def obind_assoc add.commute)
qed

lemma FlattenEntries_write:
  assumes "\<And>n a. (n, a) \<in> set es \<Longrightarrow> Array_IsFlattenable a \<Longrightarrow>
      asize a = word_of_nat (length (aw a)) \<and> fills (aflat a) (aw a)"
    and "room False buf base (length acc + length (concat (map (entry_wire aw) es)))"
  shows "FlattenEntries asize aflat es (overlay buf base acc) base (word_of_nat (length acc)) num =
    Ok (overlay buf base (acc @ concat (map (entry_wire aw) es)), num + word_of_nat (length (flattenables es)))"
  using assms
proof (induction es arbitrary: acc num)
  case Nil
  then show ?case by (simp add: flattenables_def)
next
  case (Cons e es)
  obtain n a where e: "e = (n, a)" by (cases e)
  have IH: "room False buf base (length acc + length (concat (map (entry_wire aw) es))) \<Longrightarrow>
      FlattenEntries asize aflat es (overlay buf base acc) base (word_of_nat (length acc)) num =
      Ok (overlay buf base (acc @ concat (map (entry_wire aw) es)), num + word_of_nat (length (flattenables es)))"
    for acc num
  proof (rule Cons.IH)
    fix n a assume "(n, a) \<in> set es" "Array_IsFlattenable a"
    then show "asize a = word_of_nat (length (aw a)) \<and> fills (aflat a) (aw a)"
      using Cons.prems(1) [of n a] by simp
  qed
  show ?case
  proof (cases "Array_IsFlattenable a")
    case True
    let ?w = "wire_field (n @ [0]) (Array_TypeCode a) (aw a)"
    have r: "room False buf base (length (acc @ ?w) + length (concat (map (entry_wire aw) es)))"
      using Cons.prems(2) e True by (simp add: entry_wire_def add.assoc)
    have "asize a = word_of_nat (length (aw a)) \<and> fills (aflat a) (aw a)"
      using Cons.prems(1) [of n a] e True by simp
    then have w: "writes False (\<lambda>buf base off.
       obind (WriteData buf base off (u32_le (word_of_nat (length n) + 1))) (\<lambda>s.
       obind (mem_write (fst s) (base + unat (snd s)) (n @ [0])) (\<lambda>buf1.
       obind (WriteData buf1 base (snd s + (word_of_nat (length n) + 1)) (u32_le (Array_TypeCode a))) (\<lambda>t.
       obind (WriteData (fst t) base (snd t) (u32_le (asize a))) (\<lambda>u.
       obind (aflat a (fst u) (base + unat (snd u))) (\<lambda>buf2. Ok (buf2, snd u + asize a))))))) ?w"
      by (intro entry_writes) simp_all
    let ?k = "\<lambda>s. FlattenEntries asize aflat es (fst s) base (snd s) (num + 1)"
    have "room False buf base (length acc + length ?w)" using r by (elim room_mono) simp
    note s = writesD [OF w this]
    have "FlattenEntries asize aflat (e # es) (overlay buf base acc) base (word_of_nat (length acc)) num =
      obind (Ok (overlay buf base (acc @ ?w), word_of_nat (length acc + length ?w))) ?k"
      unfolding s [symmetric] using True e by (simp add: obind_assoc Let_def)
    also have "\<dots> = FlattenEntries asize aflat es (overlay buf base (acc @ ?w)) base
        (word_of_nat (length (acc @ ?w))) (num + 1)" by simp
    also have "\<dots> = Ok (overlay buf base ((acc @ ?w) @ concat (map (entry_wire aw) es)),
        (num + 1) + word_of_nat (length (flattenables es)))" by (rule IH [OF r])
    finally show ?thesis using True e by (simp add: entry_wire_def flattenables_def add.assoc)
  next
    case False
    then show ?thesis using IH Cons.prems(2) e by (simp add: entry_wire_def flattenables_def)
  qed
qed

text \<open>The hole for the number of entries is filled at the end.\<close>

lemma overlay_hole:
  assumes "base + length a + k \<le> length buf"
  shows "overlay buf base a = overlay buf base (a @ take k (drop (base + length a) buf))"
proof -
  let ?h = "take k (drop (base + length a) buf)"
  have l: "length ?h = k" using assms by simp
  have "drop (base + length a) buf = ?h @ drop (base + length (a @ ?h)) buf"
    using append_take_drop_id [of k "drop (base + length a) buf"] l by (simp add: ac_simps)
  then show ?thesis unfolding overlay_def by (metis append_assoc)
qed

lemma overlay_fill:
  assumes "base + length (a @ h @ b) \<le> length buf" "length h = length c"
  shows "mem_write (overlay buf base (a @ h @ b)) (base + length a) c = Ok (overlay buf base (a @ c @ b))"
proof -
  have l: "length (take base buf @ a) = base + length a" using assms(1) by simp
  have "overlay buf base (a @ h @ b) = (take base buf @ a) @ h @ b @ drop (base + length (a @ h @ b)) buf"
    by (simp add: overlay_def)
  then show ?thesis
    using assms l by (simp add: mem_write_def overlay_def)
qed

lemma Flatten_wire: "full_message m \<Longrightarrow> fills (Message_Flatten m) (message_wire m)"
proof (induction m rule: message_induct)
  case (Msg w es)
  have sub: "full_message m" if "(n, a) \<in> set es" "m \<in> set_DataArray a" for n a m
    using deep_array [OF Msg.prems that(1)] that(2) by (auto simp: array_all_def set_DataArray_items)
  have arr: "Array_FlattenedSize Message_FlattenedSize a = word_of_nat (length (array_wire message_wire a))
      \<and> fills (Array_Flatten Message_FlattenedSize Message_Flatten a) (array_wire message_wire a)"
    if "(n, a) \<in> set es" "Array_IsFlattenable a" for n a
    using deep_array [OF Msg.prems that(1)] that(2) sub [OF that(1)] Msg.IH [OF that(1)]
    by (auto intro!: Array_FlattenedSize_wire Array_Flatten_wire FlattenedSize_wire)
  show ?case
    unfolding fills_def
  proof (intro allI impI)
    fix buf :: "u8 list" and base :: nat
    let ?h = "u32_le CURRENT_PROTOCOL_VERSION @ u32_le w" and ?c = "u32_le (word_of_nat (length (flattenables es)))"
    let ?e = "concat (map (entry_wire (array_wire message_wire)) es)"
    let ?g = "take 4 (drop (base + length ?h) buf)"
    assume r: "room False buf base (length (message_wire (Msg w es)))"
    have len: "length (message_wire (Msg w es)) = 12 + length ?e" by (simp add: message_wire_entries)
    then have r8: "room False buf base 8" and r12: "base + length ?h + 4 \<le> length buf"
      using r by (auto simp: room_def)
    have g: "length ?g = 4" using r12 by simp
    have "writes False (\<lambda>buf base off. obind (WriteData buf base off (u32_le CURRENT_PROTOCOL_VERSION))
        (\<lambda>s. WriteData (fst s) base (snd s) (u32_le w))) ?h"
      by (rule writes_seq [OF WriteData_writes WriteData_writes])
    from writesD [OF this, of buf base "[]"] r8
    have hd: "obind (WriteData buf base 0 (u32_le CURRENT_PROTOCOL_VERSION))
        (\<lambda>s. WriteData (fst s) base (snd s) (u32_le w)) = Ok (overlay buf base ?h, 8)"
      by simp
    have "room False buf base (length (?h @ ?g) + length ?e)" using r len g by (simp add: add.assoc)
    from FlattenEntries_write [where aw = "array_wire message_wire" and es = es and num = 0, OF arr this]
    have fe: "FlattenEntries (\<lambda>a. Array_FlattenedSize Message_FlattenedSize a)
        (\<lambda>a. Array_Flatten Message_FlattenedSize Message_Flatten a) es (overlay buf base ?h) base 12 0 =
        Ok (overlay buf base (?h @ ?g @ ?e), word_of_nat (length (flattenables es)))"
      using overlay_hole [OF r12] g by simp
    have "mem_write (overlay buf base (?h @ ?g @ ?e)) (base + length ?h) ?c = Ok (overlay buf base (?h @ ?c @ ?e))"
      using r len g by (intro overlay_fill) (simp_all add: room_def)
    then have fin: "mem_write (overlay buf base (?h @ ?g @ ?e)) (base + 8) ?c =
        Ok (overlay buf base (message_wire (Msg w es)))"
      by (simp add: message_wire_entries)
    have "Message_Flatten (Msg w es) buf base =
        obind (obind (WriteData buf base 0 (u32_le CURRENT_PROTOCOL_VERSION))
          (\<lambda>s. WriteData (fst s) base (snd s) (u32_le w))) (\<lambda>t.
        let entryCountPtr = base + unat (snd t) in
        obind (FlattenEntries (\<lambda>a. Array_FlattenedSize Message_FlattenedSize a)
          (\<lambda>a. Array_Flatten Message_FlattenedSize Message_Flatten a) es (fst t) base (snd t + 4) 0) (\<lambda>u.
        mem_write (fst u) entryCountPtr (u32_le (snd u))))"
      by (simp only: Message_Flatten.simps obind_assoc)
    also have "\<dots> = Ok (overlay buf base (message_wire (Msg w es)))"
      unfolding hd using fe fin by simp
    finally show "Message_Flatten (Msg w es) buf base = Ok (overlay buf base (message_wire (Msg w es)))" .
  qed
qed

end
