(* ===== verification/Message_Equal.thy ===== *)
theory Message_Equal
  imports Message_Wire
begin

section \<open>Comparison and checksum of Messages\<close>

text \<open>
  \<^verbatim>\<open>operator ==\<close> compares the fields by name, so it does not see their order; the checksum is a sum over
  the fields for the same reason.  Equal Messages have the same checksum, and the comparison is
  symmetric, and reflexive where no NaN is.
\<close>

subsection \<open>Items and arrays\<close>

lemma float_equal_checksum: "float_equal a b \<Longrightarrow> CalculateChecksumForFloat a = CalculateChecksumForFloat b"
  by (auto simp: float_equal_def CalculateChecksumForFloat_def)

lemma double_equal_checksum: "double_equal a b \<Longrightarrow> CalculateChecksumForDouble a = CalculateChecksumForDouble b"
  by (auto simp: double_equal_def CalculateChecksumForDouble_def)

lemma item_equal_checksum:
  assumes "item_equal eq x y" "\<And>m m'. m \<in> set_DataItem x \<Longrightarrow> m' \<in> set_DataItem y \<Longrightarrow> eq m m' \<Longrightarrow> chk m = chk m'"
  shows "item_checksum chk x = item_checksum chk y"
  using assms float_equal_checksum double_equal_checksum
  by (cases x; cases y)
    (auto simp: item_equal_def item_checksum_def Point_CalculateChecksum_def Rect_CalculateChecksum_def
      split: option.splits)

lemma item_equal_sym:
  assumes "item_equal eq x y" "\<And>m m'. m \<in> set_DataItem x \<Longrightarrow> m' \<in> set_DataItem y \<Longrightarrow> eq m m' \<Longrightarrow> eq m' m"
  shows "item_equal eq y x"
proof (cases "\<exists>r. x = MessageItem r")
  case True
  then obtain r where x: "x = MessageItem r" by blast
  show ?thesis
  proof (cases r)
    case None
    then show ?thesis using assms(1) x by (simp add: item_equal_def)
  next
    case (Some m)
    then obtain m' where "y = MessageItem (Some m')" "eq m m'"
      using assms(1) x by (auto simp: item_equal_def split: DataItem.splits option.splits)
    then show ?thesis using assms(2) [of m m'] x Some by (simp add: item_equal_def)
  qed
next
  case False
  then show ?thesis
    using assms(1)
    by (cases x; cases y) (auto simp: item_equal_def float_equal_def double_equal_def)
qed

definition has_nan :: "'m DataItem \<Rightarrow> bool" where
  "has_nan x \<longleftrightarrow>
     (case x of
        FloatItem a \<Rightarrow> is_nan32 a | DoubleItem a \<Rightarrow> is_nan64 a
      | PointItem a b \<Rightarrow> is_nan32 a \<or> is_nan32 b
      | RectItem a b c d \<Rightarrow> is_nan32 a \<or> is_nan32 b \<or> is_nan32 c \<or> is_nan32 d
      | _ \<Rightarrow> False)"

lemma item_equal_refl:
  "\<not> has_nan x \<Longrightarrow> (\<And>m. m \<in> set_DataItem x \<Longrightarrow> eq m m) \<Longrightarrow> item_equal eq x x"
  by (cases x) (auto simp: item_equal_def has_nan_def float_equal_def double_equal_def split: option.splits)

text \<open>Two arrays of less than \<open>2 ^ 32\<close> items are compared item by item.\<close>

definition short_array :: "'m DataArray \<Rightarrow> bool" where
  "short_array a \<longleftrightarrow> length (da_items a) < 2 ^ 32"

lemma IsEqualTo_items:
  assumes "Array_IsEqualTo eq a b True" "short_array a" "short_array b"
  shows "da_class a = da_class b" "length (da_items a) = length (da_items b)"
    "list_all2 (item_equal eq) (counted_down (da_items a)) (counted_down (da_items b))"
proof -
  show "da_class a = da_class b"
    using assms(1) by (auto simp: Array_IsEqualTo_def Array_AreContentsEqual_def split: if_splits)
  have "(word_of_nat (length (da_items a)) :: u32) = word_of_nat (length (da_items b))"
    using assms(1) by (auto simp: Array_IsEqualTo_def Array_GetNumItems_def split: if_splits)
  then show l: "length (da_items a) = length (da_items b)"
    using assms(2,3) unfolding short_array_def by (metis unat_word_of_nat_u32)
  have "list_all (\<lambda>(x, y). item_equal eq x y) (zip (counted_down (da_items a)) (da_items b))"
    using assms(1) by (auto simp: Array_IsEqualTo_def Array_AreContentsEqual_def split: if_splits)
  then show "list_all2 (item_equal eq) (counted_down (da_items a)) (counted_down (da_items b))"
    using l by (auto simp: list_all2_iff list_all_iff counted_down_def split: if_splits)
qed

lemma IsEqualTo_intro:
  assumes "da_class a = da_class b" "length (da_items a) = length (da_items b)"
    "list_all2 (item_equal eq) (counted_down (da_items a)) (counted_down (da_items b))"
  shows "Array_IsEqualTo eq a b True"
proof -
  have "list_all (\<lambda>(x, y). item_equal eq x y) (zip (counted_down (da_items a)) (da_items b))"
    using assms(2,3) by (auto simp: list_all2_iff list_all_iff counted_down_def split: if_splits)
  then show ?thesis
    using assms(1,2)
    by (simp add: Array_IsEqualTo_def Array_AreContentsEqual_def Array_TypeCode_def Array_GetNumItems_def)
qed

lemma counted_down_subset: "x \<in> set (counted_down xs) \<Longrightarrow> x \<in> set xs"
  by (simp add: counted_down_def split: if_splits)

lemma member_item: "x \<in> set (counted_down (da_items a)) \<Longrightarrow> m \<in> set_DataItem x \<Longrightarrow> m \<in> set_DataArray a"
  by (auto simp: set_DataArray_items dest: counted_down_subset)

lemma list_all2_map_eq: "list_all2 (\<lambda>x y. f x = g y) xs ys \<Longrightarrow> map f xs = map g ys"
  by (induction rule: list_all2_induct) simp_all

lemma Array_equal_checksum:
  assumes "Array_IsEqualTo eq a b True" "short_array a" "short_array b"
    and "\<And>m m'. m \<in> set_DataArray a \<Longrightarrow> m' \<in> set_DataArray b \<Longrightarrow> eq m m' \<Longrightarrow> chk m = chk m'"
  shows "Array_CalculateChecksum chk a = Array_CalculateChecksum chk b"
proof -
  note e = IsEqualTo_items [OF assms(1-3)]
  have "list_all2 (\<lambda>x y. item_checksum chk x = item_checksum chk y)
      (counted_down (da_items a)) (counted_down (da_items b))"
    using e(3)
  proof (rule list.rel_mono_strong)
    fix x y
    assume x: "x \<in> set (counted_down (da_items a))" "y \<in> set (counted_down (da_items b))"
    assume "item_equal eq x y"
    then show "item_checksum chk x = item_checksum chk y"
      by (rule item_equal_checksum) (rule assms(4) [OF member_item [OF x(1)] member_item [OF x(2)]])
  qed
  then have "map (item_checksum chk) (counted_down (da_items a)) = map (item_checksum chk) (counted_down (da_items b))"
    by (rule list_all2_map_eq)
  then show ?thesis
    using e(1,2) by (simp add: Array_CalculateChecksum_def Array_TypeCode_def Array_GetNumItems_def)
qed

lemma Array_equal_sym:
  assumes "Array_IsEqualTo eq a b True" "short_array a" "short_array b"
    and "\<And>m m'. m \<in> set_DataArray a \<Longrightarrow> m' \<in> set_DataArray b \<Longrightarrow> eq m m' \<Longrightarrow> eq m' m"
  shows "Array_IsEqualTo eq b a True"
proof -
  note e = IsEqualTo_items [OF assms(1-3)]
  have "list_all2 (\<lambda>x y. item_equal eq y x) (counted_down (da_items a)) (counted_down (da_items b))"
    using e(3)
  proof (rule list.rel_mono_strong)
    fix x y
    assume x: "x \<in> set (counted_down (da_items a))" "y \<in> set (counted_down (da_items b))"
    assume "item_equal eq x y"
    then show "item_equal eq y x" by (rule item_equal_sym) (rule assms(4) [OF member_item [OF x(1)] member_item [OF x(2)]])
  qed
  then have "list_all2 (item_equal eq) (counted_down (da_items b)) (counted_down (da_items a))"
    by (auto simp: list_all2_conv_all_nth)
  then show ?thesis using e(1,2) by (intro IsEqualTo_intro) simp_all
qed

subsection \<open>Messages\<close>

definition table_ok :: "(u8 list \<times> Message DataArray) list \<Rightarrow> bool" where
  "table_ok es \<longleftrightarrow> distinct (map fst es) \<and> (\<forall>(n, a) \<in> set es. short_array a)"

text \<open>Messages whose tables have distinct names and arrays of less than \<open>2 ^ 32\<close> items.\<close>

abbreviation tables_ok :: "Message \<Rightarrow> bool" where "tables_ok \<equiv> deep table_ok (\<lambda>_ _. True)"
abbreviation nan_free :: "Message \<Rightarrow> bool" where "nan_free \<equiv> deep table_ok (\<lambda>_ x. \<not> has_nan x)"

lemma equals_fields:
  assumes "Message_equals (Msg w es) (Msg w' es')" "distinct (map fst es)" "distinct (map fst es')"
  shows "w = w'" "fst ` set es = fst ` set es'"
    "\<And>n a b. (n, a) \<in> set es \<Longrightarrow> (n, b) \<in> set es' \<Longrightarrow> Array_IsEqualTo Message_equals a b True"
proof -
  have l: "length es = length es'"
    and f: "\<And>n a. (n, a) \<in> set es \<Longrightarrow> \<exists>b. map_of es' n = Some b \<and> Array_IsEqualTo Message_equals a b True"
    using assms(1) by (auto simp: list_all_iff split: option.splits)
  show "w = w'" using assms(1) by simp
  have "fst ` set es \<subseteq> fst ` set es'" using f by (force dest: map_of_SomeD)
  moreover have "card (fst ` set es) = card (fst ` set es')"
    using l assms(2,3) by (metis distinct_card length_map set_map)
  ultimately show "fst ` set es = fst ` set es'" by (intro card_subset_eq) simp_all
  show "Array_IsEqualTo Message_equals a b True" if "(n, a) \<in> set es" "(n, b) \<in> set es'" for n a b
    using f [OF that(1)] that(2) assms(3) by auto
qed

lemma sum_by_key:
  "distinct (map fst es) \<Longrightarrow>
   sum_list (map F es) = (\<Sum>n \<in> fst ` set es. F (n, the (map_of es n)) :: 'a::comm_monoid_add)"
proof (induction es)
  case (Cons e es)
  obtain n a where e: "e = (n, a)" by (cases e)
  have "n \<notin> fst ` set es" using Cons.prems e by simp
  then have "(\<Sum>k \<in> fst ` set es. F (k, the (map_of (e # es) k))) = (\<Sum>k \<in> fst ` set es. F (k, the (map_of es k)))"
    using e by (intro sum.cong) auto
  then show ?case using Cons e by (auto simp: sum.insert)
qed simp

lemma equals_checksum:
  "Message_equals m m' \<Longrightarrow> tables_ok m \<Longrightarrow> tables_ok m' \<Longrightarrow>
   Message_CalculateChecksum cnt m = Message_CalculateChecksum cnt m'"
proof (induction m arbitrary: m' rule: message_induct)
  case (Msg w es)
  obtain w' es' where m': "m' = Msg w' es'" by (cases m')
  have d: "distinct (map fst es)" "distinct (map fst es')" using Msg.prems(2,3) m' by (auto simp: table_ok_def)
  note eq = equals_fields [OF Msg.prems(1) [unfolded m'] d]
  let ?F = "\<lambda>(name, a). if cnt \<or> Array_IsFlattenable a then
      let fnChk = CalculateChecksum name in
      fnChk + (if fnChk = 0 then 1 else 0) + fnChk * Array_CalculateChecksum (Message_CalculateChecksum cnt) a
    else 0"
  have "?F (n, the (map_of es n)) = ?F (n, the (map_of es' n))" if n: "n \<in> fst ` set es" for n
  proof -
    obtain a where a: "map_of es n = Some a" "(n, a) \<in> set es"
      using n d(1) by auto
    obtain b where b: "map_of es' n = Some b" "(n, b) \<in> set es'"
      using n eq(2) d(2) by auto
    have sh: "short_array a" "short_array b" using a b Msg.prems(2,3) m' by (auto simp: table_ok_def)
    have "Message_CalculateChecksum cnt m1 = Message_CalculateChecksum cnt m2"
      if "m1 \<in> set_DataArray a" "m2 \<in> set_DataArray b" "Message_equals m1 m2" for m1 m2
      using Msg.IH [OF a(2) that(1,3)] deep_sub [OF Msg.prems(2) a(2) that(1)]
        deep_sub [OF Msg.prems(3) [unfolded m'] b(2) that(2)] by blast
    then have "Array_CalculateChecksum (Message_CalculateChecksum cnt) a =
        Array_CalculateChecksum (Message_CalculateChecksum cnt) b"
      by (intro Array_equal_checksum [OF eq(3) [OF a(2) b(2)] sh])
    moreover have "da_class a = da_class b" by (rule IsEqualTo_items(1) [OF eq(3) [OF a(2) b(2)] sh])
    ultimately show ?thesis using a b by (simp add: Array_IsFlattenable_def)
  qed
  then have "sum_list (map ?F es) = sum_list (map ?F es')"
    unfolding sum_by_key [OF d(1)] sum_by_key [OF d(2)] eq(2) by (intro sum.cong) auto
  then show ?case using eq(1) m' by simp
qed

lemma equals_sym:
  "Message_equals m m' \<Longrightarrow> tables_ok m \<Longrightarrow> tables_ok m' \<Longrightarrow> Message_equals m' m"
proof (induction m arbitrary: m' rule: message_induct)
  case (Msg w es)
  obtain w' es' where m': "m' = Msg w' es'" by (cases m')
  have d: "distinct (map fst es)" "distinct (map fst es')" using Msg.prems(2,3) m' by (auto simp: table_ok_def)
  note eq = equals_fields [OF Msg.prems(1) [unfolded m'] d]
  have "\<exists>a. map_of es n = Some a \<and> Array_IsEqualTo Message_equals b a True" if b: "(n, b) \<in> set es'" for n b
  proof -
    have "n \<in> fst ` set es" using b eq(2) by force
    then obtain a where a: "map_of es n = Some a" "(n, a) \<in> set es" using d(1) by auto
    have sh: "short_array a" "short_array b" using a b Msg.prems(2,3) m' by (auto simp: table_ok_def)
    have "Message_equals m2 m1" if "m1 \<in> set_DataArray a" "m2 \<in> set_DataArray b" "Message_equals m1 m2" for m1 m2
      using Msg.IH [OF a(2) that(1,3)] deep_sub [OF Msg.prems(2) a(2) that(1)]
        deep_sub [OF Msg.prems(3) [unfolded m'] b that(2)] by blast
    then have "Array_IsEqualTo Message_equals b a True"
      by (intro Array_equal_sym [OF eq(3) [OF a(2) b] sh])
    then show ?thesis using a(1) by simp
  qed
  then show ?case using Msg.prems(1) m' by (fastforce simp: list_all_iff)
qed

lemma equals_refl: "nan_free m \<Longrightarrow> Message_equals m m"
proof (induction m rule: message_induct)
  case (Msg w es)
  have d: "distinct (map fst es)" using Msg.prems by (auto simp: table_ok_def)
  have "Array_IsEqualTo Message_equals a a True" if e: "(n, a) \<in> set es" for n a
  proof (rule IsEqualTo_intro [OF refl refl])
    have "item_equal Message_equals x x" if "x \<in> set (counted_down (da_items a))" for x
      using deep_array [OF Msg.prems e] that Msg.IH [OF e] deep_sub [OF Msg.prems e] member_item [OF that]
      by (intro item_equal_refl) (auto simp: array_all_def dest: counted_down_subset)
    then show "list_all2 (item_equal Message_equals) (counted_down (da_items a)) (counted_down (da_items a))"
      by (simp add: list_all2_same)
  qed
  then show ?case using d by (auto simp: list_all_iff)
qed

end
