(* ===== verification/Message_Parse.thy ===== *)
theory Message_Parse
  imports Message_Wire
begin

section \<open>Unflattening what was flattened\<close>

text \<open>
  \<^verbatim>\<open>Message::Unflatten\<close> of the format of a Message gives the Message back, without the fields that are
  not flattenable.  The fuel need not be more than the number of bytes.
\<close>

lemma map_DataArray_cong [fundef_cong]:
  "a = b \<Longrightarrow> (\<And>m. m \<in> set_DataArray b \<Longrightarrow> f m = g m) \<Longrightarrow> map_DataArray f a = map_DataArray g b"
  by (auto intro: DataArray.map_cong0)

lemma set_flattenables [simp, termination_simp]:
  "(n, a) \<in> set (flattenables es) \<longleftrightarrow> (n, a) \<in> set es \<and> Array_IsFlattenable a"
  by (auto simp: flattenables_def)

text \<open>The Message without tags and pointers.\<close>

fun Message_strip :: "Message \<Rightarrow> Message" where
  "Message_strip (Msg w es) =
     Msg w (map (\<lambda>(n, a). (n, map_DataArray Message_strip a)) (flattenables es))"

subsection \<open>The arrays\<close>

lemma le_u8_bytes: "le_u16 (u16_le v @ []) = v" "le_u32 (take 4 (u32_le a @ bs)) = a" "drop 4 (u32_le a @ bs) = bs"
  by simp_all

lemma fixed_item_bytes_back:
  "has_class c x \<Longrightarrow> is_value_class c \<Longrightarrow> c \<noteq> PointerArray \<Longrightarrow> fixed_item c (fixed_item_bytes x) = x"
  by (cases x) (auto simp: has_class_def is_value_class_def split: ArrayClass.splits)

lemma unflatten_fixed_items:
  assumes "\<And>x. x \<in> set xs \<Longrightarrow> has_class c x" "is_value_class c" "c \<noteq> PointerArray"
  shows "UnflattenFixedItems c (length xs) (pre @ concat (map fixed_item_bytes xs) @ rest) (length pre) = Ok xs"
  using assms
proof (induction xs arbitrary: pre)
  case (Cons x xs)
  let ?b = "fixed_item_bytes x"
  have x: "has_class c x" using Cons.prems(1) by simp
  have l: "length ?b = class_sizeof c" using length_fixed_item [OF x Cons.prems(2,3)] .
  have "UnflattenFixedItems c (length xs) ((pre @ ?b) @ concat (map fixed_item_bytes xs) @ rest) (length (pre @ ?b)) = Ok xs"
    by (rule Cons.IH) (use Cons.prems in auto)
  then have "UnflattenFixedItems c (length xs) (pre @ ?b @ concat (map fixed_item_bytes xs) @ rest)
      (length pre + class_sizeof c) = Ok xs"
    using l by simp
  moreover have "mem_read (pre @ ?b @ concat (map fixed_item_bytes xs) @ rest) (length pre) (class_sizeof c) = Ok ?b"
    unfolding l [symmetric] by (rule mem_read_append_left)
  ultimately show ?case
    using fixed_item_bytes_back [OF x Cons.prems(2,3)] by simp
qed simp

text \<open>A sized_bytes item in the input: its size is read and passes the check.\<close>

lemma seg_sized:
  assumes "seg mem inSize off (sized_bytes p @ ys)"
  shows "read_u32 mem inSize off err k = k (word_of_nat (length p)) (off + 4)"
    and "\<not> off + 4 + word_of_nat (length p) > inSize"
    and "unat (word_of_nat (length p) :: u32) = length p"
    and "seg mem inSize (off + 4) (p @ ys)"
    and "seg mem inSize (off + 4 + word_of_nat (length p)) ys"
    and "unat (off + 4 + word_of_nat (length p)) = unat off + 4 + length p"
proof -
  have s: "seg mem inSize off (u32_le (word_of_nat (length p)) @ p @ ys)" using assms by (simp add: sized_bytes_def)
  show "read_u32 mem inSize off err k = k (word_of_nat (length p)) (off + 4)" by (rule seg_read_u32 [OF s])
  show s2: "seg mem inSize (off + 4) (p @ ys)" by (rule seg_skip_u32 [OF s])
  show "seg mem inSize (off + 4 + word_of_nat (length p)) ys" by (rule seg_skip [OF s2])
  show "unat (word_of_nat (length p) :: u32) = length p" by (rule seg_word_len [OF s2])
  show u: "unat (off + 4 + word_of_nat (length p)) = unat off + 4 + length p"
    using seg_unat [OF s2] seg_unat [OF s] by simp
  have "unat off + (4 + length p) \<le> unat inSize" using s by (simp add: seg_def)
  then show "\<not> off + 4 + word_of_nat (length p) > inSize" using u by (simp add: word_less_nat_alt)
qed

lemma SetCstr_string:
  assumes "ample am" "0 \<notin> set s"
  shows "SetCstr am (s @ 0 # rest) (Suc (length s)) = Ok (Some s)"
proof -
  have "takeWhile (\<lambda>c. c \<noteq> 0) (s @ [0]) = s" using assms(2) by (induction s) auto
  then show ?thesis using assms(1) by (simp add: SetCstr_def ampleD)
qed

lemma unflatten_strings:
  assumes "ample am" "\<And>x. x \<in> set xs \<Longrightarrow> wf_item StringArray x"
    and "seg mem inSize off (concat (map (\<lambda>x. sized_bytes (item_payload wm x)) xs) @ ys)"
  shows "UnflattenStrings am (length xs) mem inSize off acc = Ok (Some (acc @ xs))"
  using assms(2,3)
proof (induction xs arbitrary: off acc)
  case (Cons x xs)
  from Cons.prems(1) [of x] obtain s where x: "x = StringItem s" "0 \<notin> set s"
    by (cases x) (auto simp: wf_item_def has_class_def)
  have p: "item_payload wm x = s @ [0]" by (simp add: x item_payload_def)
  have "seg mem inSize off (sized_bytes (s @ [0]) @ concat (map (\<lambda>x. sized_bytes (item_payload wm x)) xs) @ ys)"
    using Cons.prems(2) p by simp
  note q = seg_sized [OF this]
  have nz: "word_of_nat (length (s @ [0])) \<noteq> (0 :: u32)" using q(3) by auto
  obtain r where "drop (unat (off + 4)) mem = (s @ [0]) @ r" using seg_drop [OF q(4)] by auto
  then have "SetCstr am (drop (unat (off + 4)) mem) (unat (word_of_nat (length (s @ [0])) :: u32)) = Ok (Some s)"
    unfolding q(3) using SetCstr_string [OF assms(1) x(2)] by simp
  moreover have "UnflattenStrings am (length xs) mem inSize (off + 4 + word_of_nat (length (s @ [0]))) (acc @ [x]) =
      Ok (Some ((acc @ [x]) @ xs))"
    by (rule Cons.IH [OF _ q(5)]) (use Cons.prems(1) in auto)
  ultimately show ?case
    unfolding list.size add_Suc_right add_0_right UnflattenStrings.simps q(1)
    using nz q(2) ampleD(3) [OF assms(1)] x(1) by (simp del: length_append of_nat_add)
qed simp

lemma unflatten_buffers:
  assumes "ample am" "\<And>x. x \<in> set xs \<Longrightarrow> \<exists>bs. x = FlatItem (Some bs)"
    and "seg mem inSize off (concat (map (\<lambda>x. sized_bytes (item_payload wm x)) xs) @ ys)"
  shows "UnflattenByteBuffers am (length xs) mem inSize off acc = Ok (Some (acc @ xs))"
  using assms(2,3)
proof (induction xs arbitrary: off acc)
  case (Cons x xs)
  from Cons.prems(1) [of x] obtain bs where x: "x = FlatItem (Some bs)" by auto
  have p: "item_payload wm x = bs" by (simp add: x item_payload_def)
  have "seg mem inSize off (sized_bytes bs @ concat (map (\<lambda>x. sized_bytes (item_payload wm x)) xs) @ ys)"
    using Cons.prems(2) p by simp
  note q = seg_sized [OF this]
  have "mem_read mem (unat (off + 4)) (unat (word_of_nat (length bs) :: u32)) = Ok bs"
    unfolding q(3) by (rule seg_mem_read(1) [OF q(4)])
  moreover have "UnflattenByteBuffers am (length xs) mem inSize (off + 4 + word_of_nat (length bs)) (acc @ [x]) =
      Ok (Some ((acc @ [x]) @ xs))"
    by (rule Cons.IH [OF _ q(5)]) (use Cons.prems(1) in auto)
  ultimately show ?case
    unfolding list.size add_Suc_right add_0_right UnflattenByteBuffers.simps q(1)
    using q(2) ampleD [OF assms(1)] x by simp
qed simp

lemma unflatten_submessages:
  assumes "ample am" "\<And>x. x \<in> set xs \<Longrightarrow> \<exists>m. x = MessageItem (Some m) \<and>
      (\<forall>rest. unflat (wm m @ rest) (word_of_nat (length (wm m))) = Ok (Some (st m)))"
    and "seg mem inSize off (concat (map (\<lambda>x. sized_bytes (item_payload wm x)) xs))"
    and "unat inSize = unat off + length (concat (map (\<lambda>x. sized_bytes (item_payload wm x)) xs))" "length xs \<le> fuel"
  shows "UnflattenSubMessages unflat am fuel mem inSize off acc = Ok (Some (acc @ map (map_DataItem st) xs))"
  using assms(2-)
proof (induction xs arbitrary: off acc fuel)
  case Nil
  then have "\<not> off < inSize" by (simp add: word_less_nat_alt)
  then show ?case by (simp add: UnflattenSubMessages.simps)
next
  case (Cons x xs)
  from Cons.prems(1) [of x] obtain m where x: "x = MessageItem (Some m)"
    and un: "\<And>rest. unflat (wm m @ rest) (word_of_nat (length (wm m))) = Ok (Some (st m))" by auto
  have p: "item_payload wm x = wm m" by (simp add: x item_payload_def)
  obtain f where f: "fuel = Suc f" using Cons.prems(4) by (cases fuel) auto
  have lt: "off < inSize" using Cons.prems(3) by (simp add: word_less_nat_alt sized_bytes_def)
  have "seg mem inSize off (sized_bytes (wm m) @ concat (map (\<lambda>x. sized_bytes (item_payload wm x)) xs))"
    using Cons.prems(2) p by simp
  note q = seg_sized [OF this]
  obtain r where "drop (unat (off + 4)) mem = wm m @ r" using seg_drop [OF q(4)] by auto
  then have "unflat (drop (unat (off + 4)) mem) (word_of_nat (length (wm m))) = Ok (Some (st m))"
    using un by simp
  moreover have "UnflattenSubMessages unflat am f mem inSize (off + 4 + word_of_nat (length (wm m)))
      (acc @ [MessageItem (Some (st m))]) =
      Ok (Some ((acc @ [MessageItem (Some (st m))]) @ map (map_DataItem st) xs))"
  proof (rule Cons.IH [OF _ q(5)])
    show "unat inSize = unat (off + 4 + word_of_nat (length (wm m)))
        + length (concat (map (\<lambda>x. sized_bytes (item_payload wm x)) xs))"
      using Cons.prems(3) p q(6) by (simp add: sized_bytes_def)
  qed (use Cons.prems f in auto)
  ultimately show ?case
    using lt q(2) ampleD [OF assms(1)] x
    by (subst UnflattenSubMessages.simps) (simp add: f q(1))
qed

lemma map_item_id: "has_class c x \<Longrightarrow> c \<noteq> MessageArray \<Longrightarrow> map_DataItem st x = x"
  by (cases x) (auto simp: has_class_def)

lemma length_variable_ge:
  "length xs * 4 \<le> length (concat (map (\<lambda>x. sized_bytes (g x)) xs))"
  by (induction xs) (simp_all add: sized_bytes_def)

lemma variable_class:
  assumes "\<not> is_value_class c" "c \<noteq> TagArray"
  obtains "c = StringArray" | "c = MessageArray" | tc where "c = ByteBufferArray tc"
  using assms by (cases c) (auto simp: is_value_class_def)

lemma array_unflatten:
  assumes am: "ample am" and a: "array_all full_item R a" "Array_IsFlattenable a"
    and len: "length (array_wire wm a) < 2 ^ 32" "length (array_wire wm a) \<le> fuel"
    and m: "\<And>m rest. m \<in> set_DataArray a \<Longrightarrow> unflat (wm m @ rest) (word_of_nat (length (wm m))) = Ok (Some ((st :: Message \<Rightarrow> Message) m))"
  shows "Array_Unflatten unflat am fuel (da_class a) (array_wire wm a @ rest) (word_of_nat (length (array_wire wm a))) =
    Ok (Some (map (map_DataItem st) (da_items a)))"
proof -
  let ?c = "da_class a" and ?xs = "da_items a"
  let ?n = "word_of_nat (length (array_wire wm a)) :: u32" and ?v = "concat (map (\<lambda>x. sized_bytes (item_payload wm x)) ?xs)"
  have it: "full_item ?c x" if "x \<in> set ?xs" for x using a(1) that by (simp add: array_all_def)
  then have hc: "has_class ?c x" if "x \<in> set ?xs" for x using that by (simp add: full_item_def wf_item_def)
  have n: "unat ?n = length (array_wire wm a)" using len(1) by (rule unat_word_of_nat_u32)
  have s: "seg (array_wire wm a @ rest) ?n 0 (array_wire wm a)" by (auto simp: seg_def n)
  show ?thesis
  proof (cases "is_value_class ?c")
    case True
    have np: "?c \<noteq> PointerArray" "?c \<noteq> MessageArray" using a(2) True
      by (auto simp: Array_IsFlattenable_def is_value_class_def)
    have w: "array_wire wm a = concat (map fixed_item_bytes ?xs)"
      using True a(2) by (auto simp: array_wire_def is_value_class_def Array_IsFlattenable_def split: ArrayClass.splits)
    have "length (concat (map fixed_item_bytes ?xs)) = length ?xs * class_sizeof ?c"
      using hc True np by (intro length_concat_const length_fixed_item)
    then have l: "unat ?n = length ?xs * class_sizeof ?c" using n w by simp
    have k: "0 < class_sizeof ?c" by (cases ?c) simp_all
    have "UnflattenFixedItems ?c (length ?xs) ([] @ concat (map fixed_item_bytes ?xs) @ rest) (length ([] :: u8 list)) = Ok ?xs"
      using hc True np by (intro unflatten_fixed_items)
    then have "UnflattenFixedItems ?c (length ?xs) (array_wire wm a @ rest) 0 = Ok ?xs" by (simp add: w)
    moreover have "map (map_DataItem st) ?xs = ?xs" using map_item_id [OF hc np(2)] by (simp add: map_idI)
    ultimately show ?thesis
      using True np k l ampleD(3) [OF am]
      by (simp add: Array_Unflatten_def is_value_class_def Let_def split: ArrayClass.splits)
  next
    case False
    have tag: "?c \<noteq> TagArray" using a(2) by (simp add: Array_IsFlattenable_def)
    have cnt: "seg (array_wire wm a @ rest) ?n 0 (u32_le (Array_GetNumItems a) @ ?v @ [])
        \<and> unat (Array_GetNumItems a) = length ?xs"
      if "array_wire wm a = u32_le (Array_GetNumItems a) @ ?v"
    proof -
      have "length ?xs < 2 ^ 32"
        using length_variable_ge [of ?xs "item_payload wm"] len(1) unfolding that by simp
      then show ?thesis using s that by (simp add: Array_GetNumItems_def unat_word_of_nat_u32)
    qed
    show ?thesis
    proof (rule variable_class [OF False tag])
      assume c: "?c = StringArray"
      then have w: "array_wire wm a = u32_le (Array_GetNumItems a) @ ?v" by (simp add: array_wire_def)
      note q = cnt [OF w]
      have "UnflattenStrings am (length ?xs) (array_wire wm a @ rest) ?n (0 + 4) [] = Ok (Some ([] @ ?xs))"
        using it c by (intro unflatten_strings [OF am _ seg_skip_u32 [OF conjunct1 [OF q]]]) (auto simp: full_item_def)
      moreover have "map (map_DataItem st) ?xs = ?xs" using map_item_id [OF hc] c by (simp add: map_idI)
      ultimately show ?thesis
        using c q ampleD(3) [OF am] by (simp add: Array_Unflatten_def seg_read_u32 [OF conjunct1 [OF q]])
    next
      fix tc assume c: "?c = ByteBufferArray tc"
      then have w: "array_wire wm a = u32_le (Array_GetNumItems a) @ ?v" by (simp add: array_wire_def)
      note q = cnt [OF w]
      have "\<exists>bs. x = FlatItem (Some bs)" if "x \<in> set ?xs" for x
        using it [OF that] c by (cases x) (auto simp: full_item_def wf_item_def has_class_def is_null_item_def)
      then have "UnflattenByteBuffers am (length ?xs) (array_wire wm a @ rest) ?n (0 + 4) [] = Ok (Some ([] @ ?xs))"
        by (intro unflatten_buffers [OF am _ seg_skip_u32 [OF conjunct1 [OF q]]])
      moreover have "map (map_DataItem st) ?xs = ?xs" using map_item_id [OF hc] c by (simp add: map_idI)
      ultimately show ?thesis
        using c q by (simp add: Array_Unflatten_def seg_read_u32 [OF conjunct1 [OF q]])
    next
      assume c: "?c = MessageArray"
      then have w: "array_wire wm a = ?v" by (simp add: array_wire_def)
      have "\<exists>m. x = MessageItem (Some m) \<and>
          (\<forall>rest. unflat (wm m @ rest) (word_of_nat (length (wm m))) = Ok (Some (st m)))" if "x \<in> set ?xs" for x
      proof -
        from it [OF that] c obtain y where y: "x = MessageItem (Some y)"
          by (cases x) (auto simp: full_item_def wf_item_def has_class_def is_null_item_def)
        then have "y \<in> set_DataArray a" using that by (force simp: set_DataArray_items)
        then show ?thesis using m y by blast
      qed
      moreover have "length ?xs \<le> fuel" using length_variable_ge [of ?xs "item_payload wm"] len(2) w by simp
      ultimately have "UnflattenSubMessages unflat am fuel (array_wire wm a @ rest) ?n 0 [] =
          Ok (Some ([] @ map (map_DataItem st) ?xs))"
        using s n unfolding w by (intro unflatten_submessages [OF am]) simp_all
      then show ?thesis using c by (simp add: Array_Unflatten_def)
    qed
  qed
qed

subsection \<open>Entries and Messages\<close>

lemma seg_wire_field:
  assumes "seg mem inSize off (wire_field nm tc p @ ys)"
  obtains o1 o2 o3 o4 r r' where
    "\<And>err k. read_u32 mem inSize off err k = k (word_of_nat (length nm)) o1"
    "\<not> word_of_nat (length nm) > inSize - o1" "unat (word_of_nat (length nm) :: u32) = length nm"
    "drop (unat o1) mem = nm @ r" "o1 + word_of_nat (length nm) = o2"
    "\<And>err k. read_u32 mem inSize o2 err k = k tc o3"
    "\<And>err k. read_u32 mem inSize o3 err k = k (word_of_nat (length p)) o4"
    "\<not> word_of_nat (length p) > inSize - o4"
    "drop (unat o4) mem = p @ r'" "length p < 2 ^ 32" "seg mem inSize (o4 + word_of_nat (length p)) ys"
    "unat o4 = unat off + length nm + 12"
proof -
  have s: "seg mem inSize off (u32_le (word_of_nat (length nm)) @ nm @ u32_le tc
      @ u32_le (word_of_nat (length p)) @ p @ ys)" using assms by (simp add: wire_field_def)
  note s1 = seg_skip_u32 [OF s]
  note s2 = seg_skip [OF s1]
  note s3 = seg_skip_u32 [OF s2]
  note s4 = seg_skip_u32 [OF s3]
  obtain r where "drop (unat (off + 4)) mem = nm @ r" using seg_drop [OF s1] by auto
  moreover obtain r' where "drop (unat (off + 4 + word_of_nat (length nm) + 4 + 4)) mem = p @ r'"
    using seg_drop [OF s4] by auto
  moreover note seg_word_len [OF s1] seg_word_len [OF s4]
  moreover have "unat (off + 4 + word_of_nat (length nm) + 4 + 4) = unat off + length nm + 12"
    using seg_unat [OF s] seg_unat [OF s1] seg_unat [OF s2] seg_unat [OF s3] by simp
  ultimately show thesis
    using seg_read_u32 [OF s] seg_left_word [OF s1] seg_read_u32 [OF s2] seg_read_u32 [OF s3]
      seg_left_word [OF s4] seg_size_bound [OF s4] seg_skip [OF s4]
    by (intro that [OF _ _ _ _ refl]) simp_all
qed

lemma get_or_create_new:
  assumes "ample am" "name \<notin> fst ` set es"
  shows "get_or_create am es name tc = Some (es @ [(name, DataArray (new_class tc) [])], new_class tc)"
proof -
  have "map_of es name = None" using assms(2) by (simp add: map_of_eq_None_iff)
  then show ?thesis using ampleD [OF assms(1)] by (simp add: get_or_create_def find_array_def)
qed

lemma set_items_last:
  assumes "name \<notin> fst ` set es"
  shows "set_items (es @ [(name, a)]) name xs = es @ [(name, DataArray (da_class a) xs)]"
proof -
  have "map (\<lambda>(n, a). (n, if n = name then DataArray (da_class a) xs else a)) es = es"
    using assms by (intro map_idI) (auto simp: image_iff)
  then show ?thesis by (simp add: set_items_def)
qed

lemma entry_unflatten:
  assumes am: "ample am" and s: "seg mem inSize off (wire_field (name @ [0]) (Array_TypeCode a) (array_wire wm a) @ ys)"
    and nm: "0 \<notin> set name" "name \<notin> fst ` set es" and c: "new_class (Array_TypeCode a) = da_class a"
    and a: "\<And>rest. Array_Unflatten unflat am fuel (da_class a) (array_wire wm a @ rest)
        (word_of_nat (length (array_wire wm a))) = Ok (Some xs)"
  shows "\<exists>off'. Message_UnflattenEntry unflat am fuel es mem inSize off =
      Ok (B_NO_ERROR, es @ [(name, DataArray (da_class a) xs)], off') \<and> seg mem inSize off' ys"
proof -
  obtain o1 o2 o3 o4 r r' where q:
    "\<And>(err :: (status \<times> (u8 list \<times> Message DataArray) list \<times> u32) outcome) k. read_u32 mem inSize off err k = k (word_of_nat (length (name @ [0]))) o1"
    "\<not> word_of_nat (length (name @ [0])) > inSize - o1" "unat (word_of_nat (length (name @ [0])) :: u32) = length (name @ [0])"
    "drop (unat o1) mem = (name @ [0]) @ r" "o1 + word_of_nat (length (name @ [0])) = o2"
    "\<And>(err :: (status \<times> (u8 list \<times> Message DataArray) list \<times> u32) outcome) k. read_u32 mem inSize o2 err k = k (Array_TypeCode a) o3"
    "\<And>(err :: (status \<times> (u8 list \<times> Message DataArray) list \<times> u32) outcome) k. read_u32 mem inSize o3 err k = k (word_of_nat (length (array_wire wm a))) o4"
    "\<not> word_of_nat (length (array_wire wm a)) > inSize - o4"
    "drop (unat o4) mem = array_wire wm a @ r'"
    "seg mem inSize (o4 + word_of_nat (length (array_wire wm a))) ys"
    using seg_wire_field [OF s] by metis
  have "SetCstr am (drop (unat o1) mem) (unat (word_of_nat (length (name @ [0])) :: u32)) = Ok (Some name)"
    unfolding q(3,4) using SetCstr_string [OF am nm(1)] by simp
  then show ?thesis
    unfolding Message_UnflattenEntry_def Let_def q(1)
    using q(2,8,10)
    by (simp add: q(5,6,7,9) get_or_create_new [OF am nm(2)] c a set_items_last [OF nm(2)] del: length_append of_nat_add)
qed

lemma entries_unflatten:
  assumes am: "ample am" and s: "seg mem inSize off (concat (map (entry_wire (array_wire wm)) es) @ ys)"
    and d: "distinct (map fst (have @ es))"
    and a: "\<And>n a. (n, a) \<in> set es \<Longrightarrow> Array_IsFlattenable a \<Longrightarrow>
        0 \<notin> set n \<and> new_class (Array_TypeCode a) = da_class a \<and>
        (\<forall>rest. Array_Unflatten unflat am fuel (da_class a) (array_wire wm a @ rest)
           (word_of_nat (length (array_wire wm a))) = Ok (Some (map (map_DataItem st) (da_items a))))"
  shows "Message_UnflattenEntries unflat am fuel (length (flattenables es)) have mem inSize off =
    Ok (B_NO_ERROR, have @ map (\<lambda>(n, a). (n, map_DataArray st a)) (flattenables es))"
  using s d a
proof (induction es arbitrary: "have" off)
  case Nil
  then show ?case by (simp add: flattenables_def)
next
  case (Cons e es)
  obtain n a where e: "e = (n, a)" by (cases e)
  have IH: "seg mem inSize off (concat (map (entry_wire (array_wire wm)) es) @ ys) \<Longrightarrow>
      distinct (map fst (have @ es)) \<Longrightarrow>
      Message_UnflattenEntries unflat am fuel (length (flattenables es)) have mem inSize off =
      Ok (B_NO_ERROR, have @ map (\<lambda>(n, a). (n, map_DataArray st a)) (flattenables es))" for "have" off
    by (rule Cons.IH) (use Cons.prems(3) in auto)
  show ?case
  proof (cases "Array_IsFlattenable a")
    case True
    let ?a = "map_DataArray st a"
    have ma: "?a = DataArray (da_class a) (map (map_DataItem st) (da_items a))" by (cases a) simp
    have "seg mem inSize off (wire_field (n @ [0]) (Array_TypeCode a) (array_wire wm a)
        @ concat (map (entry_wire (array_wire wm)) es) @ ys)"
      using Cons.prems(1) e True by (simp add: entry_wire_def)
    note u = entry_unflatten [OF am this, of "have" unflat fuel "map (map_DataItem st) (da_items a)"]
    have "n \<notin> fst ` set have" using Cons.prems(2) e by auto
    then obtain off' where
      u: "Message_UnflattenEntry unflat am fuel have mem inSize off = Ok (B_NO_ERROR, have @ [(n, ?a)], off')"
      and s': "seg mem inSize off' (concat (map (entry_wire (array_wire wm)) es) @ ys)"
      using u Cons.prems(3) [of n a] e True unfolding ma by auto
    have "distinct (map fst ((have @ [(n, ?a)]) @ es))" using Cons.prems(2) e by auto
    from IH [OF s' this] show ?thesis
      using True e u by (simp add: flattenables_def)
  next
    case False
    moreover have "distinct (map fst (have @ es))" using Cons.prems(2) e by auto
    moreover have "seg mem inSize off (concat (map (entry_wire (array_wire wm)) es) @ ys)"
      using Cons.prems(1) e False by (simp add: entry_wire_def)
    ultimately show ?thesis using IH e by (simp add: flattenables_def)
  qed
qed

lemma length_entry_wire:
  "(n, a) \<in> set es \<Longrightarrow> Array_IsFlattenable a \<Longrightarrow> length (aw a) + 12 \<le> length (concat (map (entry_wire aw) es))"
  by (induction es) (auto simp: entry_wire_def length_wire_field split: prod.splits)

lemma length_sized_item: "x \<in> set xs \<Longrightarrow> length (g x) \<le> length (concat (map (\<lambda>x. sized_bytes (g x)) xs))"
  by (induction xs) (auto simp: sized_bytes_def)

lemma length_item_wire:
  assumes "m \<in> set_DataArray a" "array_all full_item R a"
  shows "length (wm m) \<le> length (array_wire wm a)"
proof -
  obtain x where x: "x \<in> set (da_items a)" "m \<in> set_DataItem x" using assms(1) by (auto simp: set_DataArray_items)
  have "full_item (da_class a) x" using assms(2) x(1) by (simp add: array_all_def)
  then have c: "da_class a = MessageArray" and i: "item_payload wm x = wm m"
    using x(2) by (cases x; auto simp: full_item_def wf_item_def has_class_def item_payload_def split: option.splits)+
  have "length (wm m) \<le> length (concat (map (\<lambda>x. sized_bytes (item_payload wm x)) (da_items a)))"
    unfolding i [symmetric] using x(1) by (rule length_sized_item)
  then show ?thesis using c by (simp add: array_wire_def)
qed

lemma length_flattenables_le: "12 * length (flattenables es) \<le> length (concat (map (entry_wire aw) es))"
  by (induction es) (auto simp: flattenables_def entry_wire_def length_wire_field split: prod.splits)

lemma unflatten_message:
  assumes "ample am"
  shows "full_message m \<Longrightarrow> length (message_wire m) < 2 ^ 32 \<Longrightarrow> length (message_wire m) \<le> fuel \<Longrightarrow>
    Message_Unflatten am fuel w0 (message_wire m @ rest) (word_of_nat (length (message_wire m))) =
    Ok (B_NO_ERROR, Message_strip m)"
proof (induction m arbitrary: fuel w0 rest rule: message_induct)
  case (Msg w es)
  let ?e = "concat (map (entry_wire (array_wire message_wire)) es)"
  let ?n = "word_of_nat (length (flattenables es)) :: u32"
  let ?sz = "word_of_nat (length (message_wire (Msg w es))) :: u32" and ?mem = "message_wire (Msg w es) @ rest"
  have len: "length (message_wire (Msg w es)) = 12 + length ?e" by (simp add: message_wire_entries)
  obtain f where f: "fuel = Suc f" using Msg.prems(3) len by (cases fuel) auto
  have fl: "length ?e \<le> f" "length ?e < 2 ^ 32" using Msg.prems(2,3) len f by simp_all
  let ?un = "\<lambda>mem' n. obind (Message_Unflatten am f 0 mem' n) (\<lambda>r.
      Ok (if fst r = B_NO_ERROR then Some (snd r) else None))"
  have sz: "unat ?sz = length (message_wire (Msg w es))" using Msg.prems(2) by (rule unat_word_of_nat_u32)
  have s: "seg ?mem ?sz 0 (u32_le CURRENT_PROTOCOL_VERSION @ u32_le w @ u32_le ?n @ ?e @ [])"
    unfolding seg_def sz by (simp add: message_wire_entries)
  note s1 = seg_skip_u32 [OF s]
  note s2 = seg_skip_u32 [OF s1]
  note s3 = seg_skip_u32 [OF s2]
  have n: "unat ?n = length (flattenables es)"
    using length_flattenables_le [of es "array_wire message_wire"] fl(2) by (intro unat_word_of_nat_u32) simp
  have wf: "wf_entries es" using Msg.prems(1) by simp
  have arr: "0 \<notin> set n \<and> new_class (Array_TypeCode a) = da_class a \<and>
      (\<forall>rest. Array_Unflatten ?un am f (da_class a) (array_wire message_wire a @ rest)
         (word_of_nat (length (array_wire message_wire a))) = Ok (Some (map (map_DataItem Message_strip) (da_items a))))"
    if e: "(n, a) \<in> set es" "Array_IsFlattenable a" for n a
  proof -
    note all = deep_array [OF Msg.prems(1) e(1)]
    have la: "length (array_wire message_wire a) \<le> length ?e" using length_entry_wire [OF e] by (metis add_leE)
    have "?un (message_wire m @ rest) (word_of_nat (length (message_wire m))) = Ok (Some (Message_strip m))"
      if "m \<in> set_DataArray a" for m rest
    proof -
      have "full_message m" using all that by (auto simp: array_all_def set_DataArray_items)
      moreover have "length (message_wire m) \<le> length ?e"
        using length_item_wire [OF that all, of message_wire] la by simp
      ultimately show ?thesis using Msg.IH [OF e(1) that] fl by simp
    qed
    then show ?thesis
      using wf e(1) array_unflatten [OF assms all e(2), of message_wire f ?un Message_strip] la fl
      by (auto simp: wf_entries_def)
  qed
  have "Message_UnflattenEntries ?un am f (length (flattenables es)) [] ?mem ?sz (0 + 4 + 4 + 4) =
      Ok (B_NO_ERROR, [] @ map (\<lambda>(n, a). (n, map_DataArray Message_strip a)) (flattenables es))"
    using wf by (intro entries_unflatten [OF assms s3]) (simp_all add: wf_entries_def arr)
  then show ?case
    unfolding f Message_Unflatten.simps seg_read_u32 [OF s] seg_read_u32 [OF s1] seg_read_u32 [OF s2] n
    by (simp add: CURRENT_PROTOCOL_VERSION_def OLDEST_SUPPORTED_PROTOCOL_VERSION_def)
qed

end
