(* ===== verification/Message_Interop.thy ===== *)
theory Message_Interop
  imports Message_Parse Micro_Interop
begin

section \<open>The C++ and the C implementations share one format\<close>

text \<open>
  A Message of the C++ library as a MiniMessage: the flattenable fields in the same order, with the
  values as the bytes that a little-endian host keeps.  Both have the same format, so each library
  reads what another one flattened.  MiniMessage has no field without items, so the C++ Message must
  have none.
\<close>

definition mini_data :: "(Message \<Rightarrow> MMessage) \<Rightarrow> Message DataArray \<Rightarrow> MData" where
  "mini_data f a =
     (let xs = da_items a in
      case da_class a of
        StringArray \<Rightarrow> BufData (map (\<lambda>x. Some (item_payload (\<lambda>_. []) x)) xs)
      | ByteBufferArray _ \<Rightarrow> BufData (map (\<lambda>x. Some (item_payload (\<lambda>_. []) x)) xs)
      | MessageArray \<Rightarrow> MsgData (map (\<lambda>x. case x of MessageItem r \<Rightarrow> map_option f r | _ \<Rightarrow> None) xs)
      | _ \<Rightarrow> FixedData (concat (map fixed_item_bytes xs)))"

definition mini_field :: "(Message \<Rightarrow> MMessage) \<Rightarrow> u8 list \<times> Message DataArray \<Rightarrow> MMessageField" where
  "mini_field f = (\<lambda>(name, a).
     MField (name @ [0]) (Array_TypeCode a)
       (if is_value_class (da_class a) then word_of_nat (class_sizeof (da_class a)) else sizeof_ptr)
       (Array_GetNumItems a) (mini_data f a) True)"

lemma mini_field_cong [fundef_cong]:
  assumes "e = e'" "\<And>m. m \<in> set_DataArray (snd e') \<Longrightarrow> f m = g m"
  shows "mini_field f e = mini_field g e'"
proof -
  obtain n a where e: "e' = (n, a)" by (cases e')
  have m: "map (\<lambda>x. case x of MessageItem r \<Rightarrow> map_option f r | _ \<Rightarrow> None) (da_items a) =
      map (\<lambda>x. case x of MessageItem r \<Rightarrow> map_option g r | _ \<Rightarrow> None) (da_items a)"
  proof (rule map_cong [OF refl])
    fix x assume "x \<in> set (da_items a)"
    then have "f m = g m" if "m \<in> set_DataItem x" for m
      using assms(2) [of m] that e by (auto simp: set_DataArray_items)
    then show "(case x of MessageItem r \<Rightarrow> map_option f r | _ \<Rightarrow> None) =
        (case x of MessageItem r \<Rightarrow> map_option g r | _ \<Rightarrow> None)"
      by (cases x) (auto intro: option.map_cong0)
  qed
  show ?thesis unfolding mini_field_def mini_data_def assms(1) e Let_def prod.case m by (rule refl)
qed

lemma flattenables_measure [termination_simp]:
  "e \<in> set (flattenables (es :: (u8 list \<times> Message DataArray) list)) \<Longrightarrow> m \<in> set_DataArray (snd e) \<Longrightarrow>
   size m < Suc (size_list (\<lambda>x. Suc (size_DataArray size (snd x))) es)"
  using entry_size_measure [of "fst e" "snd e" es m] set_flattenables [of "fst e" "snd e" es] by simp

fun mini_of :: "Message \<Rightarrow> MMessage" where
  "mini_of (Msg w es) = MMsg w (map (mini_field mini_of) (flattenables es))"

subsection \<open>The same bytes\<close>

lemma wire_bufs_map: "wire_bufs (map (\<lambda>x. Some (g x)) xs) = concat (map (\<lambda>x. sized_bytes (g x)) xs)"
  by (induction xs) (simp_all add: wire_bufs_def sized_bytes_def buf_bytes_def)

lemma wire_slots_map:
  assumes "\<And>x. x \<in> set xs \<Longrightarrow> \<exists>m. x = MessageItem (Some m) \<and> wire_msg False (f m) = message_wire m"
  shows "wire_slots False (map (\<lambda>x. case x of MessageItem r \<Rightarrow> map_option f r | _ \<Rightarrow> None) xs) =
    concat (map (\<lambda>x. sized_bytes (item_payload message_wire x)) xs)"
  using assms
proof (induction xs)
  case (Cons x xs)
  obtain m where "x = MessageItem (Some m)" "wire_msg False (f m) = message_wire m" using Cons.prems [of x] by auto
  then show ?case using Cons by (simp add: sized_bytes_def item_payload_def)
qed simp

lemma message_items:
  assumes "array_all full_item R a" "da_class a = MessageArray" "x \<in> set (da_items a)"
  obtains m where "x = MessageItem (Some m)" "m \<in> set_DataArray a" "R m"
proof -
  have "full_item MessageArray x" "\<forall>m \<in> set_DataItem x. R m" using assms by (auto simp: array_all_def)
  then obtain m where m: "x = MessageItem (Some m)" "R m"
    by (cases x) (auto simp: full_item_def wf_item_def has_class_def is_null_item_def)
  then have "m \<in> set_DataArray a" using assms(3) by (force simp: set_DataArray_items)
  then show thesis using that m by blast
qed

lemma payload_no_message:
  assumes "array_all full_item R a" "da_class a \<noteq> MessageArray" "x \<in> set (da_items a)"
  shows "item_payload (\<lambda>_. []) x = item_payload wm x"
proof -
  have "has_class (da_class a) x" using assms by (auto simp: array_all_def full_item_def wf_item_def)
  then show ?thesis using assms(2) by (cases x) (auto simp: has_class_def item_payload_def)
qed

lemma mini_field_wire:
  assumes a: "array_all full_item R a" "Array_IsFlattenable a"
    and m: "\<And>m. m \<in> set_DataArray a \<Longrightarrow> wire_msg False (f m) = message_wire m"
  shows "wire_data False (mini_field f (n, a)) = array_wire message_wire a"
proof (cases "is_value_class (da_class a)")
  case True
  then have "mini_data f a = FixedData (concat (map fixed_item_bytes (da_items a)))"
    using a(2) by (auto simp: mini_data_def is_value_class_def split: ArrayClass.splits)
  moreover have "array_wire message_wire a = concat (map fixed_item_bytes (da_items a))"
    using True a(2) by (auto simp: array_wire_def is_value_class_def Array_IsFlattenable_def split: ArrayClass.splits)
  ultimately show ?thesis by (simp add: mini_field_def wire_fixed_def)
next
  case False
  have tag: "da_class a \<noteq> TagArray" using a(2) by (simp add: Array_IsFlattenable_def)
  show ?thesis
  proof (cases "da_class a = MessageArray")
    case True
    have "\<exists>m. x = MessageItem (Some m) \<and> wire_msg False (f m) = message_wire m" if "x \<in> set (da_items a)" for x
      using message_items [OF a(1) True that] m by metis
    then show ?thesis using True by (simp add: mini_field_def mini_data_def array_wire_def wire_slots_map)
  next
    case nm: False
    have p: "map (\<lambda>x. sized_bytes (item_payload (\<lambda>_. []) x)) (da_items a) =
        map (\<lambda>x. sized_bytes (item_payload message_wire x)) (da_items a)"
      using payload_no_message [OF a(1) nm, where wm = message_wire] by simp
    show ?thesis
      using False nm tag
      by (cases "da_class a")
        (simp_all add: is_value_class_def mini_field_def mini_data_def array_wire_def wire_bufs_map p)
  qed
qed

lemma mini_wire: "full_message m \<Longrightarrow> wire_msg False (mini_of m) = message_wire m"
proof (induction m rule: message_induct)
  case (Msg w es)
  have f: "wire_data False (mini_field mini_of (n, a)) = array_wire message_wire a"
    if "(n, a) \<in> set es" "Array_IsFlattenable a" for n a
    using Msg.IH [OF that(1)] deep_sub [OF Msg.prems that(1)]
    by (intro mini_field_wire [OF deep_array [OF Msg.prems that(1)] that(2)]) blast
  have fl: "mf_isFlattenable (mini_field mini_of e)" "mf_name (mini_field mini_of e) = fst e @ [0]"
    "mf_typeCode (mini_field mini_of e) = Array_TypeCode (snd e)" for e
    by (simp_all add: mini_field_def split: prod.split)
  have "wire_fields False (map (mini_field mini_of) (flattenables es)) =
      concat (map (entry_wire (array_wire message_wire)) es)"
    using f by (induction es) (auto simp: flattenables_def entry_wire_def fl)
  moreover have "filter mf_isFlattenable (map (mini_field mini_of) (flattenables es)) =
      map (mini_field mini_of) (flattenables es)"
    by (rule filter_True) (auto simp: fl)
  ultimately show ?case by (simp add: message_wire_entries numFlattenableEntries_def)
qed

subsection \<open>The MiniMessage is well-formed\<close>

definition no_empty_fields :: "(u8 list \<times> Message DataArray) list \<Rightarrow> bool" where
  "no_empty_fields es \<longleftrightarrow> wf_entries es \<and> (\<forall>(n, a) \<in> set es. da_items a \<noteq> [])"

abbreviation mini_message :: "Message \<Rightarrow> bool" where "mini_message \<equiv> deep no_empty_fields full_item"

lemma mini_message_full: "mini_message m \<Longrightarrow> full_message m"
  by (rule deep_mono) (auto simp: no_empty_fields_def)

lemma class_variable:
  assumes "new_class (class_code c) = c" "c \<noteq> TagArray"
  shows "IsTypeCodeVariableSize (class_code c) \<longleftrightarrow> \<not> is_value_class c"
    and "c \<noteq> MessageArray \<Longrightarrow> class_code c \<noteq> B_MESSAGE_TYPE"
    and "is_value_class c \<Longrightarrow> word_of_nat (class_sizeof c) = type_item_size (class_code c)"
    and "c \<noteq> PointerArray \<Longrightarrow> class_code c \<noteq> B_POINTER_TYPE"
proof -
  have u: "\<And>tc. c = ByteBufferArray tc \<Longrightarrow> IsTypeCodeVariableSize tc \<and> tc \<noteq> B_MESSAGE_TYPE \<and> tc \<noteq> B_POINTER_TYPE"
    using assms by (auto simp: new_class_def IsTypeCodeVariableSize_def split: if_splits)
  show "IsTypeCodeVariableSize (class_code c) \<longleftrightarrow> \<not> is_value_class c"
    using u assms(2) by (cases c) (simp_all add: is_value_class_def)
  show "c \<noteq> MessageArray \<Longrightarrow> class_code c \<noteq> B_MESSAGE_TYPE"
    using u by (cases c) (simp_all add: type_code_defs B_TAG_TYPE_def)
  show "is_value_class c \<Longrightarrow> word_of_nat (class_sizeof c) = type_item_size (class_code c)"
    by (cases c) (simp_all add: is_value_class_def type_item_size_def type_code_defs)
  show "c \<noteq> PointerArray \<Longrightarrow> class_code c \<noteq> B_POINTER_TYPE"
    using u by (cases c) (simp_all add: type_code_defs B_TAG_TYPE_def)
qed

lemma items_bound:
  assumes "array_all full_item R a" "Array_IsFlattenable a"
  shows "is_value_class (da_class a) \<Longrightarrow>
      length (concat (map fixed_item_bytes (da_items a))) = length (da_items a) * class_sizeof (da_class a)
      \<and> array_wire wm a = concat (map fixed_item_bytes (da_items a))"
    and "\<not> is_value_class (da_class a) \<Longrightarrow> length (da_items a) * 4 \<le> length (array_wire wm a)"
proof -
  show "length (concat (map fixed_item_bytes (da_items a))) = length (da_items a) * class_sizeof (da_class a)
      \<and> array_wire wm a = concat (map fixed_item_bytes (da_items a))" if "is_value_class (da_class a)"
    using that assms length_fixed_item [of "da_class a"]
    by (intro conjI length_concat_const)
      (auto simp: array_all_def full_item_def wf_item_def Array_IsFlattenable_def array_wire_def is_value_class_def
        split: ArrayClass.splits)
  show "length (da_items a) * 4 \<le> length (array_wire wm a)" if "\<not> is_value_class (da_class a)"
    using length_variable_ge [of "da_items a" "item_payload wm"] that assms(2)
    by (cases "da_class a") (simp_all add: array_wire_def is_value_class_def Array_IsFlattenable_def)
qed

lemma mini_field_wf:
  assumes a: "array_all full_item R a" "Array_IsFlattenable a" "new_class (Array_TypeCode a) = da_class a"
    and nm: "0 \<notin> set n" "da_items a \<noteq> []" and len: "length n + length (array_wire message_wire a) < 2 ^ 30"
    and m: "\<And>m. m \<in> set_DataArray a \<Longrightarrow> wf_msg (f m)"
  shows "wf_field (mini_field f (n, a))"
proof -
  let ?c = "da_class a" and ?xs = "da_items a" and ?n = "Array_GetNumItems a"
  have c: "new_class (class_code ?c) = ?c" "?c \<noteq> TagArray" "?c \<noteq> PointerArray"
    using a(2,3) by (simp_all add: Array_TypeCode_def Array_IsFlattenable_def)
  note v = class_variable [OF c(1,2)]
  note b = items_bound [OF a(1,2)]
  have k: "0 < class_sizeof ?c" "class_sizeof ?c \<le> 16" by (cases ?c; simp)+
  have lx: "length ?xs * (if is_value_class ?c then class_sizeof ?c else 4) \<le> length (array_wire message_wire a)"
    using b(1) [of message_wire] b(2) [of message_wire] by (cases "is_value_class ?c") simp_all
  have n0: "length ?xs < 2 ^ 30"
  proof -
    have "length ?xs * 1 \<le> length ?xs * (if is_value_class ?c then class_sizeof ?c else 4)"
      using k(1) by (intro mult_le_mono2) auto
    from le_trans [OF this lx] show ?thesis using len by simp
  qed
  then have n: "unat ?n = length ?xs" by (simp add: Array_GetNumItems_def unat_word_of_nat_u32)
  have pos: "0 < ?n" using n nm(2) by (simp add: word_less_nat_alt)
  have head: "wf_head (mini_field f (n, a))"
  proof (cases "is_value_class ?c")
    case True
    have "unat (word_of_nat (class_sizeof ?c) :: u32) = class_sizeof ?c" using k by (intro unat_word_of_nat_u32) simp
    then show ?thesis
      using True v c n pos lx len nm(1)
      by (simp add: wf_head_def mini_field_def Array_TypeCode_def sizeof_MMessageField_def)
  next
    case False
    then show ?thesis
      using v c n pos lx len nm(1)
      by (simp add: wf_head_def mini_field_def Array_TypeCode_def sizeof_MMessageField_def sizeof_ptr_def)
  qed
  show ?thesis
  proof (cases "is_value_class ?c")
    case True
    have d: "mini_data f a = FixedData (concat (map fixed_item_bytes ?xs))"
      using True a(2) by (auto simp: mini_data_def is_value_class_def split: ArrayClass.splits)
    have "unat (word_of_nat (class_sizeof ?c) :: u32) = class_sizeof ?c" using k by (intro unat_word_of_nat_u32) simp
    then show ?thesis
      using head True v(1) n b(1) [OF True, of message_wire]
      by (simp add: mini_field_def d Array_TypeCode_def)
  next
    case False
    show ?thesis
    proof (cases "?c = MessageArray")
      case True
      then have d: "mini_data f a = MsgData (map (\<lambda>x. case x of MessageItem r \<Rightarrow> map_option f r | _ \<Rightarrow> None) ?xs)"
        by (simp add: mini_data_def)
      have w: "wf_msg m" if "(case x of MessageItem r \<Rightarrow> map_option f r | _ \<Rightarrow> None) = Some m" "x \<in> set ?xs" for x m
      proof -
        note x = that
        obtain m0 where "x = MessageItem (Some m0)" "m0 \<in> set_DataArray a"
          using message_items [OF a(1) True x(2)] by metis
        then show ?thesis using x(1) m by auto
      qed
      have "wf_slots (map (\<lambda>x. case x of MessageItem r \<Rightarrow> map_option f r | _ \<Rightarrow> None) ?xs)"
        unfolding wf_slots_iff set_map
      proof (intro allI impI)
        fix m
        assume "Some m \<in> (\<lambda>x. case x of MessageItem r \<Rightarrow> map_option f r | _ \<Rightarrow> None) ` set ?xs"
        then show "wf_msg m" by (rule imageE) (rule w [OF sym])
      qed
      then show ?thesis using head True n by (simp add: mini_field_def d Array_TypeCode_def)
    next
      case nmsg: False
      have d: "mini_data f a = BufData (map (\<lambda>x. Some (item_payload (\<lambda>_. []) x)) ?xs)"
        using False nmsg c(2) by (cases ?c) (simp_all add: mini_data_def is_value_class_def)
      have "length (item_payload (\<lambda>_. []) x) < 2 ^ 32" if "x \<in> set ?xs" for x
      proof -
        have "length (item_payload message_wire x) \<le> length (array_wire message_wire a)"
          using length_sized_item [OF that, of "item_payload message_wire"] False c(2)
          by (cases ?c) (simp_all add: array_wire_def is_value_class_def)
        then show ?thesis using payload_no_message [OF a(1) nmsg that, where wm = message_wire] len by simp
      qed
      then show ?thesis
        using head False nmsg v n by (simp add: mini_field_def d Array_TypeCode_def list_all_iff wf_buf_def)
    qed
  qed
qed

lemma length_entry_name:
  "(n, a) \<in> set es \<Longrightarrow> Array_IsFlattenable a \<Longrightarrow> length n + length (aw a) + 12 \<le> length (concat (map (entry_wire aw) es))"
  by (induction es) (auto simp: entry_wire_def length_wire_field split: prod.splits)

lemma mini_wf: "mini_message m \<Longrightarrow> length (message_wire m) < 2 ^ 30 \<Longrightarrow> wf_msg (mini_of m)"
proof (induction m rule: message_induct)
  case (Msg w es)
  let ?e = "concat (map (entry_wire (array_wire message_wire)) es)"
  have le: "length ?e < 2 ^ 30" using Msg.prems(2) by (simp add: message_wire_entries)
  have wf: "wf_entries es" "\<And>n a. (n, a) \<in> set es \<Longrightarrow> da_items a \<noteq> []"
    using Msg.prems(1) by (auto simp: no_empty_fields_def)
  have "wf_field (mini_field mini_of (n, a))" if e: "(n, a) \<in> set es" "Array_IsFlattenable a" for n a
  proof (rule mini_field_wf)
    show all: "array_all full_item (deep no_empty_fields full_item) a" by (rule deep_array [OF Msg.prems(1) e(1)])
    show ln: "length n + length (array_wire message_wire a) < 2 ^ 30"
      using length_entry_name [OF e, of "array_wire message_wire"] le by simp
    fix m assume m: "m \<in> set_DataArray a"
    then have "length (message_wire m) < 2 ^ 30" using length_item_wire [OF m all, of message_wire] ln by simp
    then show "wf_msg (mini_of m)" using Msg.IH [OF e(1) m] deep_sub [OF Msg.prems(1) e(1) m] by blast
  qed (use e wf in \<open>auto simp: wf_entries_def\<close>)
  moreover have "map (\<lambda>f. cstr (mf_name f)) (map (mini_field mini_of) (flattenables es)) = map fst (flattenables es)"
    using wf(1) by (auto simp: mini_field_def wf_entries_def flattenables_def cstr_append)
  moreover have "distinct (map fst (flattenables es))"
    using wf(1) by (simp add: wf_entries_def flattenables_def distinct_map_filter)
  ultimately show ?case by (auto simp: wf_fields_iff simp del: map_map)
qed

subsection \<open>Each library reads what the other wrote\<close>

lemma norm_slots_map:
  assumes "\<And>x. x \<in> set xs \<Longrightarrow> \<exists>m. x = MessageItem (Some m) \<and> norm_msg (f m) = f m"
  shows "map Some (norm_slots (map (\<lambda>x. case x of MessageItem r \<Rightarrow> map_option f r | _ \<Rightarrow> None) xs)) =
    map (\<lambda>x. case x of MessageItem r \<Rightarrow> map_option f r | _ \<Rightarrow> None) xs"
  using assms
proof (induction xs)
  case (Cons x xs)
  obtain m where "x = MessageItem (Some m)" "norm_msg (f m) = f m" using Cons.prems [of x] by auto
  then show ?case using Cons by simp
qed simp

lemma mini_norm: "full_message m \<Longrightarrow> norm_msg (mini_of m) = mini_of m"
proof (induction m rule: message_induct)
  case (Msg w es)
  have "norm_field (mini_field mini_of (n, a)) = mini_field mini_of (n, a)"
    if e: "(n, a) \<in> set es" "Array_IsFlattenable a" for n a
  proof (cases "da_class a = MessageArray")
    case True
    note all = deep_array [OF Msg.prems e(1)]
    have "\<exists>m. x = MessageItem (Some m) \<and> norm_msg (mini_of m) = mini_of m" if "x \<in> set (da_items a)" for x
      using message_items [OF all True that] Msg.IH [OF e(1)] by metis
    from norm_slots_map [of "da_items a", OF this] show ?thesis
      using True by (simp add: mini_field_def mini_data_def)
  next
    case False
    then show ?thesis
      by (cases "da_class a") (simp_all add: mini_field_def mini_data_def buf_bytes_def)
  qed
  moreover have "mf_isFlattenable (mini_field mini_of e)" for e by (simp add: mini_field_def split: prod.split)
  ultimately have "norm_fields (map (mini_field mini_of) (flattenables es)) = map (mini_field mini_of) (flattenables es)"
    by (induction es) (auto simp: flattenables_def)
  then show ?case by simp
qed

lemma mini_reads_message:
  assumes m: "mini_message m" "length (message_wire m) < 2 ^ 30" and am: "\<And>k. am k"
    and fuel: "length (message_wire m) \<le> fuel" and m0: "wf_msg msg0"
  shows "MMUnflattenMessage am False fuel msg0 (message_wire m @ rest) (word_of_nat (length (message_wire m))) =
    Ok (B_NO_ERROR, mini_of m)"
proof -
  have full: "full_message m" by (rule mini_message_full [OF m(1)])
  note w = mini_wire [OF full]
  have "FreeFields (mm_fields msg0) = Ok ()" using m0 free_wf(2) by (simp add: wf_msg_fields)
  then show ?thesis
    using unflatten_flatten [where am = am, OF mini_wf [OF m] am, of False fuel msg0 rest] w m(2) fuel mini_norm [OF full]
    by (simp add: size_limit_def)
qed

text \<open>MicroMessage finds the items of the C++ Message in its flattened bytes.\<close>

definition message_data :: "Message \<Rightarrow> u8 list \<Rightarrow> u32 \<Rightarrow> u8 list option" where
  "message_data m name tc =
     (case Message_GetArray m name tc of
        None \<Rightarrow> None
      | Some a \<Rightarrow> if Array_IsFlattenable a then Some (array_wire message_wire a) else None)"

lemma flat_data_mini:
  assumes "full_message m" "tc \<noteq> B_ANY_TYPE"
  shows "flat_data False (mini_of m) s tc = message_data m s tc"
proof -
  obtain w es where m: "m = Msg w es" by (cases m)
  have wf: "wf_entries es" using assms(1) m by simp
  then have d: "distinct (map fst es)" by (simp add: wf_entries_def)
  have k: "field_key (mini_field mini_of (n, a)) = n" if "(n, a) \<in> set es" for n a
    using wf that by (auto simp: wf_entries_def field_key_def mini_field_def cstr_append)
  have fm: "fmap (MMsg w (map (mini_field mini_of) (flattenables es))) s =
      (case map_of es s of
         None \<Rightarrow> None
       | Some a \<Rightarrow> if Array_IsFlattenable a then Some (mini_field mini_of (s, a)) else None)"
    using d k
  proof (induction es)
    case Nil
    then show ?case by (simp add: flattenables_def fmap_def)
  next
    case (Cons e es)
    obtain n a where e: "e = (n, a)" by (cases e)
    have n: "n \<notin> fst ` set es" using Cons.prems(1) e by simp
    have IH: "fmap (MMsg w (map (mini_field mini_of) (flattenables es))) s =
      (case map_of es s of
         None \<Rightarrow> None
       | Some a \<Rightarrow> if Array_IsFlattenable a then Some (mini_field mini_of (s, a)) else None)"
      by (rule Cons.IH) (use Cons.prems in auto)
    have kn: "field_key (mini_field mini_of (n, a)) = n" by (rule Cons.prems(2)) (simp add: e)
    have "map_of es n = None" using n by (simp add: map_of_eq_None_iff)
    then show ?case
      using IH kn e by (auto simp: flattenables_def fmap_def map_add_def split: option.splits)
  qed
  show ?thesis
  proof (cases "map_of es s")
    case None
    then show ?thesis using fm m by (simp add: flat_data_def message_data_def Message_GetArray_def find_array_def)
  next
    case (Some a)
    then have e: "(s, a) \<in> set es" by (rule map_of_SomeD)
    have "wire_data False (mini_field mini_of (s, a)) = array_wire message_wire a" if "Array_IsFlattenable a"
      using assms(1) deep_sub [OF assms(1) [unfolded m] e] mini_wire
      by (intro mini_field_wire [OF deep_array [OF assms(1) [unfolded m] e] that]) blast
    then show ?thesis
      using Some fm m assms(2)
      by (auto simp: flat_data_def message_data_def Message_GetArray_def find_array_def array_matches_def matches_def
          mini_field_def)
  qed
qed

text \<open>What a typed look-up and \<^verbatim>\<open>UMGetString\<close> are to find: the items of the C++ Message.\<close>

definition message_item :: "Message \<Rightarrow> u8 list \<Rightarrow> u32 \<Rightarrow> nat \<Rightarrow> u8 list option" where
  "message_item m name tc i =
     (case Message_GetArray m name tc of
        None \<Rightarrow> None
      | Some a \<Rightarrow> if i < length (da_items a) then Some (fixed_item_bytes (da_items a ! i)) else None)"

lemma concat_const_item:
  assumes "\<And>x. x \<in> set xs \<Longrightarrow> length (f x) = k" "i < length xs"
  shows "take k (drop (i * k) (concat (map f xs))) = f (xs ! i)"
  using assms
proof (induction xs arbitrary: i)
  case (Cons x xs)
  then show ?case by (cases i) auto
qed simp

lemma micro_class:
  assumes "new_class (class_code c) = c" "(class_code c, k) \<in> set micro_types"
  shows "is_value_class c \<and> class_sizeof c = k \<and> c \<noteq> PointerArray"
proof -
  have t: "c \<noteq> TagArray" using assms(2) by (auto simp: micro_types_def type_code_defs B_TAG_TYPE_def)
  have "\<not> IsTypeCodeVariableSize (class_code c)"
    using assms(2) by (auto simp: micro_types_def IsTypeCodeVariableSize_def type_code_defs)
  then have "is_value_class c" using class_variable(1) [OF assms(1) t] by simp
  then show ?thesis
    using assms(2) by (cases c) (simp_all add: micro_types_def is_value_class_def type_code_defs)
qed

lemma item_at_message:
  assumes "full_message m" "(tc, k) \<in> set micro_types"
  shows "item_at k (message_data m name tc) i = message_item m name tc i"
proof (cases "Message_GetArray m name tc")
  case None
  then show ?thesis by (simp add: message_data_def message_item_def item_at_def)
next
  case (Some a)
  obtain w es where m: "m = Msg w es" by (cases m)
  have tc: "Array_TypeCode a = tc" "(name, a) \<in> set es"
    using Some assms(2) m
    by (auto simp: Message_GetArray_def find_array_def array_matches_def micro_types_def type_code_defs
        dest: map_of_SomeD split: option.splits if_splits)
  have all: "array_all full_item full_message a" using deep_array [OF assms(1) [unfolded m] tc(2)] .
  have "new_class (class_code (da_class a)) = da_class a"
    using assms(1) m tc by (auto simp: wf_entries_def Array_TypeCode_def)
  note c = micro_class [OF this, of k]
  have c: "is_value_class (da_class a)" "class_sizeof (da_class a) = k" "da_class a \<noteq> PointerArray"
    using c tc(1) assms(2) by (simp_all add: Array_TypeCode_def)
  have fl: "Array_IsFlattenable a"
    using c by (auto simp: Array_IsFlattenable_def is_value_class_def split: ArrayClass.splits)
  note b = items_bound(1) [OF all fl c(1), of message_wire]
  have k: "0 < k" using assms(2) by (auto simp: micro_types_def)
  have it: "length (fixed_item_bytes x) = k" if "x \<in> set (da_items a)" for x
    using that all c length_fixed_item [of "da_class a" x] by (auto simp: array_all_def full_item_def wf_item_def)
  show ?thesis
    using Some fl b c(2) k concat_const_item [of "da_items a" fixed_item_bytes k i, OF it]
    by (simp add: message_data_def message_item_def item_at_def)
qed

definition string_items :: "Message \<Rightarrow> u8 list \<Rightarrow> u8 list list \<Rightarrow> bool" where
  "string_items m name ss \<longleftrightarrow>
     Message_GetArray m name B_STRING_TYPE = Some (DataArray StringArray (map StringItem ss))"

lemma string_items_data:
  assumes "full_message m" "string_items m name ss"
  shows "message_data m name B_STRING_TYPE = Some (strings_data ss) \<and> (\<forall>s \<in> set ss. 0 \<notin> set s)"
proof -
  obtain w es where m: "m = Msg w es" by (cases m)
  have "(name, DataArray StringArray (map StringItem ss)) \<in> set es"
    using assms(2) m by (auto simp: string_items_def Message_GetArray_def find_array_def
        dest: map_of_SomeD split: option.splits if_splits)
  from deep_array [OF assms(1) [unfolded m] this]
  have z: "\<forall>s \<in> set ss. 0 \<notin> set s" by (auto simp: array_all_def full_item_def wf_item_def)
  have "(\<lambda>x. sized_bytes (item_payload message_wire x)) \<circ> StringItem =
      (\<lambda>s. u32_le (word_of_nat (length s + 1)) @ s @ [0])"
    by (rule ext) (simp add: sized_bytes_def item_payload_def)
  then show ?thesis
    using assms(2) z
    by (simp add: string_items_def message_data_def Array_IsFlattenable_def array_wire_def Array_GetNumItems_def
        strings_data_def)
qed

lemma micro_finds_message:
  assumes m: "mini_message m" "length (message_wire m) < 2 ^ 30"
    and fn: "is_cstr fn" "length (cstr fn) + 1 < 2 ^ 32"
  shows "\<exists>v. UMInitializeWithExistingData (pre @ message_wire m @ post) (length pre)
      (word_of_nat (length (message_wire m))) = Ok (B_NO_ERROR, v)
    \<and> (\<forall>(tc, k) \<in> set micro_types. \<exists>v'. find_item (get_items tc) k (pre @ message_wire m @ post) v fn idx =
        Ok (message_item m (cstr fn) tc (unat idx), v'))
    \<and> (\<forall>ss. string_items m (cstr fn) ss \<longrightarrow>
        (\<exists>r v'. UMGetString (pre @ message_wire m @ post) v fn idx = Ok (r, v')
          \<and> string_answer (pre @ message_wire m @ post) ss (unat idx) r))"
proof -
  have full: "full_message m" by (rule mini_message_full [OF m(1)])
  have "length (wire_msg False (mini_of m)) < 2 ^ 32" using m(2) by (simp add: mini_wire [OF full])
  from micro_finds_mini [OF mini_wf [OF m] this fn, of pre post idx, unfolded mini_wire [OF full]]
  obtain v where v: "UMInitializeWithExistingData (pre @ message_wire m @ post) (length pre)
      (word_of_nat (length (message_wire m))) = Ok (B_NO_ERROR, v)"
    and f: "\<forall>(tc, k) \<in> set micro_types. \<exists>v'. find_item (get_items tc) k (pre @ message_wire m @ post) v fn idx =
        Ok (item_at k (flat_data False (mini_of m) (cstr fn) tc) (unat idx), v')"
    and g: "\<forall>ss. flat_data False (mini_of m) (cstr fn) B_STRING_TYPE = Some (strings_data ss)
          \<and> (\<forall>s \<in> set ss. 0 \<notin> set s) \<longrightarrow>
        (\<exists>r v'. UMGetString (pre @ message_wire m @ post) v fn idx = Ok (r, v')
          \<and> string_answer (pre @ message_wire m @ post) ss (unat idx) r)"
    by blast
  have nt: "tc \<noteq> B_ANY_TYPE" if "(tc, k) \<in> set micro_types \<or> tc = B_STRING_TYPE" for tc k
    using that by (auto simp: micro_types_def type_code_defs)
  have "\<exists>v'. find_item (get_items tc) k (pre @ message_wire m @ post) v fn idx =
      Ok (message_item m (cstr fn) tc (unat idx), v')" if t: "(tc, k) \<in> set micro_types" for tc k
    using f t flat_data_mini [OF full, of tc] nt [of tc k] item_at_message [OF full t] by fastforce
  moreover have "\<exists>r v'. UMGetString (pre @ message_wire m @ post) v fn idx = Ok (r, v')
      \<and> string_answer (pre @ message_wire m @ post) ss (unat idx) r" if s: "string_items m (cstr fn) ss" for ss
    using g string_items_data [OF full s] flat_data_mini [OF full, of B_STRING_TYPE] nt [of B_STRING_TYPE] by simp
  ultimately show ?thesis using v by blast
qed

section \<open>What MicroMessage builds, the other libraries read\<close>

text \<open>
  A UMessage that is made by \<^verbatim>\<open>UMInitializeToEmptyMessage\<close> and calls of the \<^verbatim>\<open>UMAdd*s\<close> functions, one for
  each field, holds the flattened bytes of the C++ Message with these fields, so that \<^verbatim>\<open>Message::Unflatten\<close>
  and \<^verbatim>\<open>MMUnflattenMessage\<close> read it.
\<close>

datatype micro_values =
    BoolValues "u8 list" | Int8Values "u8 list" | Int16Values "u16 list" | Int32Values "u32 list"
  | Int64Values "u64 list" | FloatValues "u32 list" | DoubleValues "u64 list"
  | PointValues "(u32 \<times> u32) list" | RectValues "(u32 \<times> u32 \<times> u32 \<times> u32) list"
  | StringValues "u8 list option list"
  | DataValue u32 "u8 list"

text \<open>The call that adds the values, and the field that it makes.\<close>

fun micro_add :: "bool \<Rightarrow> u8 list \<Rightarrow> UMessage list \<Rightarrow> u8 list \<times> micro_values \<Rightarrow>
    (status \<times> u8 list \<times> UMessage list) outcome" where
  "micro_add enforce mem chain (fn, BoolValues vs) = UMAddBools enforce mem chain fn vs"
| "micro_add enforce mem chain (fn, Int8Values vs) = UMAddInt8s enforce mem chain fn vs"
| "micro_add enforce mem chain (fn, Int16Values vs) = UMAddInt16s enforce mem chain fn vs"
| "micro_add enforce mem chain (fn, Int32Values vs) = UMAddInt32s enforce mem chain fn vs"
| "micro_add enforce mem chain (fn, Int64Values vs) = UMAddInt64s enforce mem chain fn vs"
| "micro_add enforce mem chain (fn, FloatValues vs) = UMAddFloats enforce mem chain fn vs"
| "micro_add enforce mem chain (fn, DoubleValues vs) = UMAddDoubles enforce mem chain fn vs"
| "micro_add enforce mem chain (fn, PointValues vs) = UMAddPoints enforce mem chain fn vs"
| "micro_add enforce mem chain (fn, RectValues vs) = UMAddRects enforce mem chain fn vs"
| "micro_add enforce mem chain (fn, StringValues ss) = UMAddStrings enforce mem chain fn ss"
| "micro_add enforce mem chain (fn, DataValue tc bs) =
     UMAddData enforce mem chain fn tc bs (word_of_nat (length bs))"

fun micro_build :: "bool \<Rightarrow> u8 list \<Rightarrow> UMessage list \<Rightarrow> (u8 list \<times> micro_values) list \<Rightarrow>
    (status \<times> u8 list \<times> UMessage list) outcome" where
  "micro_build enforce mem chain [] = Ok (B_NO_ERROR, mem, chain)"
| "micro_build enforce mem chain (c # cs) =
     obind (micro_add enforce mem chain c) (\<lambda>(st, mem, chain).
     if st = B_NO_ERROR then micro_build enforce mem chain cs else Ok (st, mem, chain))"

fun values_array :: "micro_values \<Rightarrow> Message DataArray" where
  "values_array (BoolValues vs) = DataArray BoolArray (map (\<lambda>v. BoolItem (v \<noteq> 0)) vs)"
| "values_array (Int8Values vs) = DataArray Int8Array (map Int8Item vs)"
| "values_array (Int16Values vs) = DataArray Int16Array (map Int16Item vs)"
| "values_array (Int32Values vs) = DataArray Int32Array (map Int32Item vs)"
| "values_array (Int64Values vs) = DataArray Int64Array (map Int64Item vs)"
| "values_array (FloatValues vs) = DataArray FloatArray (map FloatItem vs)"
| "values_array (DoubleValues vs) = DataArray DoubleArray (map DoubleItem vs)"
| "values_array (PointValues vs) = DataArray PointArray (map (\<lambda>(x, y). PointItem x y) vs)"
| "values_array (RectValues vs) = DataArray RectArray (map (\<lambda>(l, t, r, b). RectItem l t r b) vs)"
| "values_array (StringValues ss) = DataArray StringArray (map (\<lambda>s. StringItem (cstr (c_string s))) ss)"
| "values_array (DataValue tc bs) = DataArray (ByteBufferArray tc) [FlatItem (Some bs)]"

fun values_ok :: "micro_values \<Rightarrow> bool" where
  "values_ok (StringValues ss) \<longleftrightarrow> ss \<noteq> [] \<and> c_strings ss"
| "values_ok (DataValue tc bs) \<longleftrightarrow> new_class tc = ByteBufferArray tc"
| "values_ok v \<longleftrightarrow> da_items (values_array v) \<noteq> []"

definition calls_ok :: "(u8 list \<times> micro_values) list \<Rightarrow> bool" where
  "calls_ok cs \<longleftrightarrow> distinct (map (\<lambda>(fn, v). cstr fn) cs) \<and> list_all (\<lambda>(fn, v). is_cstr fn \<and> values_ok v) cs"

definition calls_message :: "u32 \<Rightarrow> (u8 list \<times> micro_values) list \<Rightarrow> Message" where
  "calls_message w cs = Msg w (map (\<lambda>(fn, v). (cstr fn, values_array v)) cs)"

definition call_ufield :: "u8 list \<times> micro_values \<Rightarrow> ufield" where
  "call_ufield = (\<lambda>(fn, v). (cstr fn @ [0], Array_TypeCode (values_array v), array_wire message_wire (values_array v)))"

lemma values_flattenable: "values_ok v \<Longrightarrow> Array_IsFlattenable (values_array v)"
  by (cases v) (auto simp: Array_IsFlattenable_def)

subsection \<open>Each call adds its field\<close>

lemma adds_new:
  assumes "adds mem msg pre w post (added enforce (length spare) fs nm tc hdr upd d) r"
    and "nm \<notin> fst ` set fs" "12 + length nm + length hdr + length d \<le> length spare"
  shows "\<exists>mem' msg' spare'. r = Ok (B_NO_ERROR, mem', [msg']) \<and> um_rep mem' msg' pre w (fs @ [(nm, tc, upd hdr @ d)]) spare' post
    \<and> can_add msg' \<and> um_bufferSize msg' = um_bufferSize msg"
proof -
  have v: "nm \<notin> fst ` set (visible fs)" using assms(2) by (auto simp: visible_def dest: in_set_butlastD)
  have "\<not> continues fs nm tc"
    using assms(2) last_in_set [of fs] by (auto simp: continues_def)
  then have "added enforce (length spare) fs nm tc hdr upd d = Some (fs @ [(nm, tc, upd hdr @ d)])"
    using assms(3) v by (simp add: added_def)
  then show ?thesis using assms(1) by (simp add: adds_def)
qed

lemma not_continues_counted: "nm \<notin> fst ` set fs \<Longrightarrow> counted fs nm tc"
  using last_in_set [of fs] by (auto simp: counted_def continues_def)

lemma bool_bytes: "map (\<lambda>v :: u8. fixed_item_bytes (BoolItem (v \<noteq> 0))) vs = map (\<lambda>v. [if v \<noteq> 0 then 1 else 0]) vs"
  by simp

lemma micro_add_fixed:
  assumes rep: "um_rep mem msg pre w fs spare post" "can_add msg" and fn: "is_cstr fn"
    and nm: "cstr fn @ [0] \<notin> fst ` set fs"
    and room: "13 + length (cstr fn) + length (array_wire message_wire (values_array v)) \<le> length spare"
    and enc: "\<And>x. length (enc x) = unat k" "array_wire message_wire (values_array v) = concat (map enc vals)"
      "Array_TypeCode (values_array v) = tc"
  shows "\<exists>mem' msg' spare'. add_items enc tc k enforce mem [msg] fn vals = Ok (B_NO_ERROR, mem', [msg'])
    \<and> um_rep mem' msg' pre w (fs @ [call_ufield (fn, v)]) spare' post
    \<and> can_add msg' \<and> um_bufferSize msg' = um_bufferSize msg"
proof -
  have l: "length (concat (map enc vals)) = length vals * unat k" by (rule concat_const_length [OF enc(1)])
  have "12 + length (cstr fn @ [0]) + length vals * unat k < 2 ^ 32"
    using room um_rep_len [OF rep(1)] enc(2) l by simp
  from adds_new [OF add_items_rep [OF rep fn refl enc(1) this] nm] room enc(2,3)
  show ?thesis by (simp add: call_ufield_def)
qed

lemma zero_count: "replicate 4 (0 :: u8) = u32_le 0 @ []"
  by code_simp

lemma micro_add_field:
  assumes rep: "um_rep mem msg pre w fs spare post" "can_add msg" and fn: "is_cstr fn" "values_ok v"
    and nm: "cstr fn @ [0] \<notin> fst ` set fs"
    and room: "13 + length (cstr fn) + length (array_wire message_wire (values_array v)) \<le> length spare"
  shows "\<exists>mem' msg' spare'. micro_add enforce mem [msg] (fn, v) = Ok (B_NO_ERROR, mem', [msg'])
    \<and> um_rep mem' msg' pre w (fs @ [call_ufield (fn, v)]) spare' post
    \<and> can_add msg' \<and> um_bufferSize msg' = um_bufferSize msg"
proof -
  have sp: "length spare < 2 ^ 32" using um_rep_len [OF rep(1)] by simp
  note fixed = micro_add_fixed [OF rep fn(1) nm room]
  have point: "map (\<lambda>x. fixed_item_bytes (case x of (x, y) \<Rightarrow> PointItem x y)) ps =
      map (\<lambda>(x, y). u32_le x @ u32_le y) ps" for ps :: "(u32 \<times> u32) list"
    by (simp add: case_prod_beta)
  have rect: "map (\<lambda>x. fixed_item_bytes (case x of (l, t, r, b) \<Rightarrow> RectItem l t r b)) rs =
      map (\<lambda>(l, t, r, b). u32_le l @ u32_le t @ u32_le r @ u32_le b) rs" for rs :: "(u32 \<times> u32 \<times> u32 \<times> u32) list"
    by (simp add: case_prod_beta)
  note s = array_wire_def Array_TypeCode_def o_def bool_bytes point rect
  show ?thesis
  proof (cases v)
    case (BoolValues vs)
    then show ?thesis
      using fixed [where enc = "\<lambda>v :: u8. [if v \<noteq> 0 then 1 else 0]" and tc = B_BOOL_TYPE and k = 1 and vals = vs]
      by (simp add: UMAddBools_def s)
  next
    case (Int8Values vs)
    then show ?thesis
      using fixed [where enc = "\<lambda>v :: u8. [v]" and tc = B_INT8_TYPE and k = 1 and vals = vs] by (simp add: UMAddInt8s_def s)
  next
    case (Int16Values vs)
    then show ?thesis
      using fixed [where enc = u16_le and tc = B_INT16_TYPE and k = 2 and vals = vs] by (simp add: UMAddInt16s_def s)
  next
    case (Int32Values vs)
    then show ?thesis
      using fixed [where enc = u32_le and tc = B_INT32_TYPE and k = 4 and vals = vs] by (simp add: UMAddInt32s_def s)
  next
    case (Int64Values vs)
    then show ?thesis
      using fixed [where enc = u64_le and tc = B_INT64_TYPE and k = 8 and vals = vs] by (simp add: UMAddInt64s_def s)
  next
    case (FloatValues vs)
    then show ?thesis
      using fixed [where enc = u32_le and tc = B_FLOAT_TYPE and k = 4 and vals = vs] by (simp add: UMAddFloats_def s)
  next
    case (DoubleValues vs)
    then show ?thesis
      using fixed [where enc = u64_le and tc = B_DOUBLE_TYPE and k = 8 and vals = vs] by (simp add: UMAddDoubles_def s)
  next
    case (PointValues vs)
    then show ?thesis
      using fixed [where enc = "\<lambda>(x, y). u32_le x @ u32_le y" and tc = B_POINT_TYPE and k = "4 * 2" and vals = vs]
      by (simp add: UMAddPoints_def s split: prod.split)
  next
    case (RectValues vs)
    then show ?thesis
      using fixed [where enc = "\<lambda>(l, t, r, b). u32_le l @ u32_le t @ u32_le r @ u32_le b" and tc = B_RECT_TYPE and k = "4 * 4"
          and vals = vs]
      by (simp add: UMAddRects_def s split: prod.split)
  next
    case (StringValues ss)
    have ss: "c_strings ss" using fn(2) StringValues by simp
    let ?d = "concat (map string_item ss)"
    have w: "array_wire message_wire (values_array v) = u32_le (word_of_nat (length ss)) @ ?d"
      using StringValues
      by (simp add: array_wire_def o_def sized_bytes_def item_payload_def Array_GetNumItems_def)
        (intro arg_cong [where f = concat] map_cong refl, simp add: string_item_def)
    note z = zero_count
    have hdr: "inc_count (word_of_nat (length ss)) (replicate 4 0) @ ?d = array_wire message_wire (values_array v)"
      unfolding w z inc_count_eq by simp
    have "16 + length (cstr fn @ [0]) + length ?d < 2 ^ 32" using room sp w by simp
    from adds_new [OF UMAddStrings_rep [OF rep fn(1) refl not_continues_counted [OF nm] ss this] nm] room w
    show ?thesis using StringValues by (simp add: call_ufield_def hdr Array_TypeCode_def)
  next
    case (DataValue tc bs)
    let ?n = "word_of_nat (length bs) :: u32" and ?d = "u32_le (word_of_nat (length bs)) @ bs"
    have w: "array_wire message_wire (values_array v) = u32_le 1 @ ?d"
      using DataValue by (simp add: s sized_bytes_def item_payload_def Array_GetNumItems_def)
    have n: "unat ?n = length bs" using room sp w by (intro unat_word_of_nat_u32) simp
    note z = zero_count
    have hdr: "inc_count 1 (replicate 4 0) @ ?d = u32_le 1 @ ?d" unfolding z inc_count_eq by simp
    have "20 + length (cstr fn @ [0]) + unat ?n < 2 ^ 32" using room sp w n by simp
    from adds_new [OF UMAddData_rep [OF rep fn(1) refl not_continues_counted [OF nm] _ this] nm, of bs enforce tc] room w n
    show ?thesis using DataValue by (simp add: call_ufield_def hdr Array_TypeCode_def)
  qed
qed

lemma micro_build_fields:
  assumes "um_rep mem msg pre w fs spare post" "can_add msg"
    and "list_all (\<lambda>(fn, v). is_cstr fn \<and> values_ok v) cs" "distinct (map fst (fs @ map call_ufield cs))"
    and "length (ufields_bytes (map call_ufield cs)) \<le> length spare"
  shows "\<exists>mem' msg' spare'. micro_build enforce mem [msg] cs = Ok (B_NO_ERROR, mem', [msg'])
    \<and> um_rep mem' msg' pre w (fs @ map call_ufield cs) spare' post \<and> um_bufferSize msg' = um_bufferSize msg"
  using assms
proof (induction cs arbitrary: mem msg fs spare)
  case Nil
  then show ?case by auto
next
  case (Cons c cs)
  obtain fn v where c: "c = (fn, v)" by (cases c)
  have ok: "is_cstr fn" "values_ok v" using Cons.prems(3) c by simp_all
  have nm: "cstr fn @ [0] \<notin> fst ` set fs" using Cons.prems(4) c by (simp add: call_ufield_def)
  have room: "13 + length (cstr fn) + length (array_wire message_wire (values_array v))
      + length (ufields_bytes (map call_ufield cs)) \<le> length spare"
    using Cons.prems(5) c by (simp add: call_ufield_def length_wire_field)
  then have "13 + length (cstr fn) + length (array_wire message_wire (values_array v)) \<le> length spare" by simp
  from micro_add_field [OF Cons.prems(1,2) ok nm this, of enforce]
  obtain mem1 msg1 spare1 where a: "micro_add enforce mem [msg] c = Ok (B_NO_ERROR, mem1, [msg1])"
    and rep: "um_rep mem1 msg1 pre w (fs @ [call_ufield c]) spare1 post" "can_add msg1"
    and sz: "um_bufferSize msg1 = um_bufferSize msg"
    unfolding c by blast
  have "length (ubytes w fs) + length spare = length (ubytes w (fs @ [call_ufield c])) + length spare1"
    using um_rep_view [OF Cons.prems(1)] um_rep_view [OF rep(1)] sz by (simp add: um_view_def)
  then have "length (ufields_bytes (map call_ufield cs)) \<le> length spare1"
    using room by (simp add: length_ubytes c call_ufield_def length_wire_field)
  from Cons.IH [OF rep _ _ this] Cons.prems(3,4) a sz show ?case by simp
qed

subsection \<open>The bytes are those of a flattened Message\<close>

lemma values_full: "values_ok v \<Longrightarrow> array_all full_item R (values_array v)"
  by (cases v) (auto simp: array_all_def full_item_def wf_item_def has_class_def is_null_item_def cstr_def
      dest: set_takeWhileD)

lemma values_items: "values_ok v \<Longrightarrow> da_items (values_array v) \<noteq> []"
  by (cases v) auto

lemma values_class: "values_ok v \<Longrightarrow> new_class (Array_TypeCode (values_array v)) = da_class (values_array v)"
  by (cases v) (simp_all add: Array_TypeCode_def new_class_def type_code_defs B_TAG_TYPE_def)

lemma calls_mini:
  assumes "calls_ok cs"
  shows "mini_message (calls_message w cs)"
proof -
  have "values_ok v" if "(fn, v) \<in> set cs" for fn v using assms that by (auto simp: calls_ok_def list_all_iff)
  then show ?thesis
    using assms values_full [where R = mini_message] values_items values_class
    by (auto simp: calls_message_def list_all_iff no_empty_fields_def wf_entries_def calls_ok_def o_def
        case_prod_unfold cstr_def dest: set_takeWhileD)
qed

lemma calls_bytes:
  assumes "calls_ok cs"
  shows "message_wire (calls_message w cs) = ubytes w (map call_ufield cs)"
proof -
  have fl: "Array_IsFlattenable (values_array v)" if "(fn, v) \<in> set cs" for fn v
    using assms that values_flattenable by (auto simp: calls_ok_def list_all_iff)
  let ?es = "map (\<lambda>(fn, v). (cstr fn, values_array v)) cs"
  have "flattenables ?es = ?es" unfolding flattenables_def by (rule filter_True) (use fl in auto)
  moreover have "concat (map (entry_wire (array_wire message_wire)) ?es) = ufields_bytes (map call_ufield cs)"
    unfolding ufields_bytes_def map_map
    by (intro arg_cong [where f = concat] map_cong refl) (use fl in \<open>auto simp: entry_wire_def call_ufield_def\<close>)
  ultimately show ?thesis by (simp add: calls_message_def message_wire_entries ubytes_def)
qed

theorem micro_build_message:
  assumes "calls_ok cs" "length buf = unat n" "length (message_wire (calls_message w cs)) \<le> unat n"
  shows "\<exists>mem0 msg0 mem msg spare.
      UMInitializeToEmptyMessage (pre @ buf @ post) old (length pre) n w = Ok (B_NO_ERROR, mem0, msg0)
    \<and> micro_build enforce mem0 [msg0] cs = Ok (B_NO_ERROR, mem, [msg])
    \<and> mem = pre @ message_wire (calls_message w cs) @ spare @ post
    \<and> length (message_wire (calls_message w cs)) + length spare = unat n
    \<and> UMGetFlattenedSize msg = word_of_nat (length (message_wire (calls_message w cs)))"
proof -
  note b = calls_bytes [OF assms(1), of w]
  have l: "12 + length (ufields_bytes (map call_ufield cs)) \<le> unat n" using assms(3) by (simp add: b length_ubytes)
  then have n: "12 \<le> n" by (simp add: word_le_nat_alt)
  show ?thesis
  proof (rule UMInitializeToEmptyMessage_rep [OF assms(2) n, of pre post old w])
    fix mem0 msg0
    assume i: "UMInitializeToEmptyMessage (pre @ buf @ post) old (length pre) n w = Ok (B_NO_ERROR, mem0, msg0)"
      and rep: "um_rep mem0 msg0 pre w [] (drop 12 buf) post" "can_add msg0"
      and sz: "um_bufferSize msg0 = n"
    have "distinct (map fst ([] @ map call_ufield cs))"
      using assms(1) by (simp add: calls_ok_def call_ufield_def distinct_map o_def case_prod_unfold inj_on_def)
    moreover have "length (ufields_bytes (map call_ufield cs)) \<le> length (drop 12 buf)" using assms(2) l by simp
    moreover have "list_all (\<lambda>(fn, v). is_cstr fn \<and> values_ok v) cs" using assms(1) by (simp add: calls_ok_def)
    ultimately obtain mem msg spare where "micro_build enforce mem0 [msg0] cs = Ok (B_NO_ERROR, mem, [msg])"
      and r: "um_rep mem msg pre w (map call_ufield cs) spare post" "um_bufferSize msg = um_bufferSize msg0"
      using micro_build_fields [OF rep, of cs enforce] by (metis append_Nil)
    then show ?thesis
      using i um_rep_view [OF r(1)] r(2) sz b by (auto simp: um_view_def UMGetFlattenedSize_def)
        (metis word_unat_eq_iff unat_word_of_nat_u32 unat_u32_less)
  qed
qed

lemma values_strip: "map_DataArray f (values_array v) = values_array v"
  by (cases v) (simp_all add: case_prod_unfold)

lemma calls_strip:
  assumes "calls_ok cs"
  shows "Message_strip (calls_message w cs) = calls_message w cs"
proof -
  let ?es = "map (\<lambda>(fn, v). (cstr fn, values_array v)) cs"
  have "flattenables ?es = ?es"
    unfolding flattenables_def
    by (rule filter_True) (use assms values_flattenable in \<open>auto simp: calls_ok_def list_all_iff\<close>)
  moreover have "map (\<lambda>(n, a). (n, map_DataArray Message_strip a)) ?es = ?es"
    by (auto simp: values_strip)
  ultimately show ?thesis by (simp add: calls_message_def)
qed

end
