(* ===== verification/Message_Hostile.thy ===== *)
theory Message_Hostile
  imports Message_Parse
begin

section \<open>Input that breaks Message::Unflatten\<close>

text \<open>
  Three flattened Messages of a few dozen bytes, as a peer may send them, for which
  \<^verbatim>\<open>Message::Unflatten\<close> of \<^verbatim>\<open>source/muscle/message/Message.cpp\<close> neither returns a Message nor an
  error, and a Message that cannot be flattened: the checks \<^verbatim>\<open>readOffset + readFs > numBytes\<close> wrap
  around, and the type codes of the in-memory types are accepted.
\<close>

text \<open>A Message of one entry comes down to the array of that entry.\<close>

lemma unflatten_one_array:
  fixes name tc payload
  defines "input \<equiv> one_entry (name @ [0]) tc payload"
  assumes am: "ample am" and nm: "0 \<notin> set name" and len: "length input < 2 ^ 32"
  shows "Message_Unflatten am (Suc f) w0 input (word_of_nat (length input)) =
      obind (Array_Unflatten (\<lambda>mem' n. obind (Message_Unflatten am f 0 mem' n) (\<lambda>r.
                Ok (if fst r = B_NO_ERROR then Some (snd r) else None)))
              am f (new_class tc) payload (word_of_nat (length payload))) (\<lambda>q.
      case q of
        None \<Rightarrow> Ok (B_ERROR, Msg 0 [])
      | Some items \<Rightarrow> Ok (B_NO_ERROR, Msg 0 [(name, DataArray (new_class tc) items)]))"
proof -
  let ?sz = "word_of_nat (length input) :: u32"
  let ?un = "\<lambda>mem' n. obind (Message_Unflatten am f 0 mem' n) (\<lambda>r.
      Ok (if fst r = B_NO_ERROR then Some (snd r) else None))"
  let ?n = "length (name @ [0])"
  have sz: "unat ?sz = length input" using len by (rule unat_word_of_nat_u32)
  have s0: "seg input ?sz 0 (u32_le CURRENT_PROTOCOL_VERSION @ u32_le 0 @ u32_le 1
      @ wire_field (name @ [0]) tc payload @ [])"
    by (simp add: seg_def sz) (simp add: input_def one_entry_def)
  note s1 = seg_skip_u32 [OF s0]
  note s2 = seg_skip_u32 [OF s1]
  note s3 = seg_skip_u32 [OF s2]
  have lp: "length input = 24 + ?n + length payload" by (simp add: input_def one_entry_def length_wire_field)
  obtain o1 o2 o3 o4 r r' where q:
    "\<And>(err :: (status \<times> (u8 list \<times> Message DataArray) list \<times> u32) outcome) k.
       read_u32 input ?sz (0 + 4 + 4 + 4) err k = k (word_of_nat ?n) o1"
    "\<not> word_of_nat ?n > ?sz - o1" "unat (word_of_nat ?n :: u32) = ?n"
    "drop (unat o1) input = (name @ [0]) @ r" "o1 + word_of_nat ?n = o2"
    "\<And>(err :: (status \<times> (u8 list \<times> Message DataArray) list \<times> u32) outcome) k. read_u32 input ?sz o2 err k = k tc o3"
    "\<And>(err :: (status \<times> (u8 list \<times> Message DataArray) list \<times> u32) outcome) k.
       read_u32 input ?sz o3 err k = k (word_of_nat (length payload)) o4"
    "\<not> word_of_nat (length payload) > ?sz - o4" "drop (unat o4) input = payload @ r'" "unat o4 = unat (0 + 4 + 4 + 4 :: u32) + ?n + 12"
    using seg_wire_field [OF s3] by metis
  have "length (payload @ r') = length payload" unfolding q(9) [symmetric] using lp q(10) by simp
  then have r': "r' = []" by simp
  have set: "SetCstr am (drop (unat o1) input) (unat (word_of_nat ?n :: u32)) = Ok (Some name)"
    unfolding q(3,4) using SetCstr_string [OF am nm] by simp
  have "Message_UnflattenEntry ?un am f [] input ?sz (0 + 4 + 4 + 4) =
      obind (Array_Unflatten ?un am f (new_class tc) payload (word_of_nat (length payload))) (\<lambda>q.
      case q of
        None \<Rightarrow> Ok (B_ERROR, [], o4)
      | Some items \<Rightarrow>
          Ok (B_NO_ERROR, [(name, DataArray (new_class tc) items)], o4 + word_of_nat (length payload)))"
    unfolding Message_UnflattenEntry_def Let_def q(1)
    using q(2,8) set get_or_create_new [OF am, of name "[] :: (u8 list \<times> Message DataArray) list" tc]
    by (simp add: q(5,6,7,9) r' set_items_def del: length_append of_nat_add cong: option.case_cong)
  then show ?thesis
    unfolding Message_Unflatten.simps seg_read_u32 [OF s0] seg_read_u32 [OF s1] seg_read_u32 [OF s2]
    by (cases "Array_Unflatten ?un am f (new_class tc) payload (word_of_nat (length payload))")
      (simp_all add: CURRENT_PROTOCOL_VERSION_def OLDEST_SUPPORTED_PROTOCOL_VERSION_def split: option.split)
qed

text \<open>A field of tags: \<^verbatim>\<open>TagDataArray::Unflatten\<close> is \<^verbatim>\<open>MCRASH\<close>, which aborts the program.\<close>

lemma length_one_entry: "length (one_entry nm tc payload) = 24 + length nm + length payload"
  by (simp add: one_entry_def length_wire_field)

lemma class_of_codes:
  "new_class B_TAG_TYPE = TagArray" "new_class B_POINTER_TYPE = PointerArray" "new_class B_MESSAGE_TYPE = MessageArray"
  "new_class B_RAW_TYPE = ByteBufferArray B_RAW_TYPE" "new_class B_STRING_TYPE = StringArray"
  by (simp_all add: new_class_def type_code_defs B_TAG_TYPE_def)

definition crash_input :: "u32 \<Rightarrow> u8 list" where
  "crash_input tc = one_entry [116, 0] tc []"

lemma unflatten_crash:
  assumes "ample am" "tc \<in> {B_TAG_TYPE, B_POINTER_TYPE}"
  shows "Message_Unflatten am (Suc f) w0 (crash_input tc) (word_of_nat (length (crash_input tc))) = Fault"
proof -
  have l: "length (one_entry ([116] @ [0]) tc []) < 2 ^ 32" by (simp add: length_one_entry)
  note u = unflatten_one_array [OF assms(1) _ l, of f w0]
  show ?thesis
    using u assms(2) ampleD(3) [OF assms(1)]
    by (auto simp: crash_input_def Array_Unflatten_def class_of_codes)
qed

text \<open>
  One sub-Message whose size is \<open>2 ^ 32 - 4\<close>: the check wraps around, the Message of twelve bytes behind the
  size is read, and \<^verbatim>\<open>readOffset\<close> is zero again.  The loop adds sub-Messages as long as there is memory.
\<close>

lemma unflatten_empty:
  "Message_Unflatten am (Suc f) w0 (u32_le CURRENT_PROTOCOL_VERSION @ u32_le w @ u32_le 0 @ rest) n =
    Ok (B_NO_ERROR, Msg w [])" if n: "12 \<le> n"
proof -
  have n12: "12 \<le> unat n" using n by (simp add: word_le_nat_alt)
  have s: "seg (u32_le CURRENT_PROTOCOL_VERSION @ u32_le w @ u32_le 0 @ rest) n 0
      (u32_le CURRENT_PROTOCOL_VERSION @ u32_le w @ u32_le 0 @ [])"
    using n12 by (auto simp: seg_def)
  note s1 = seg_skip_u32 [OF s]
  note s2 = seg_skip_u32 [OF s1]
  show ?thesis
    unfolding Message_Unflatten.simps seg_read_u32 [OF s] seg_read_u32 [OF s1] seg_read_u32 [OF s2]
    by (simp add: CURRENT_PROTOCOL_VERSION_def OLDEST_SUPPORTED_PROTOCOL_VERSION_def)
qed

lemma submessages_endless:
  assumes "ample am" "\<And>rest. un (drop 4 endless_payload @ rest) 4294967292 \<in> {Spin, Ok (Some m)}"
  shows "UnflattenSubMessages un am n endless_payload 16 0 acc = Spin"
proof (induction n arbitrary: acc)
  case 0
  then show ?case by (simp add: UnflattenSubMessages.simps)
next
  case (Suc n)
  have s: "seg endless_payload 16 0 (u32_le 4294967292 @ drop 4 endless_payload @ [])"
    by (simp add: seg_def endless_payload_def)
  have e: "(4294967296 :: u32) = 0" by simp
  have "un (drop 4 endless_payload) 4294967292 \<in> {Spin, Ok (Some m)}" using assms(2) [of "[]"] by simp
  then show ?case
    using Suc.IH ampleD [OF assms(1)]
    by (subst UnflattenSubMessages.simps) (auto simp: seg_read_u32 [OF s] e)
qed

lemma unflatten_message_endless:
  assumes "ample am"
  shows "Message_Unflatten am fuel w0 endless_input (word_of_nat (length endless_input)) = Spin"
proof (cases fuel)
  case (Suc f)
  let ?un = "\<lambda>mem' n. obind (Message_Unflatten am f 0 mem' n) (\<lambda>r.
      Ok (if fst r = B_NO_ERROR then Some (snd r) else None))"
  have e: "endless_input = one_entry ([109] @ [0]) B_MESSAGE_TYPE endless_payload" by (simp add: endless_input_def)
  have lp: "length endless_payload = 16" by (simp add: endless_payload_def)
  have l: "length (one_entry ([109] @ [0]) B_MESSAGE_TYPE endless_payload) < 2 ^ 32"
    by (simp add: length_one_entry lp)
  have "?un (drop 4 endless_payload @ rest) 4294967292 \<in> {Spin, Ok (Some (Msg 0 []))}" for rest
  proof (cases f)
    case (Suc k)
    have "(12 :: u32) \<le> 4294967292" by simp
    from unflatten_empty [OF this, of am k 0 0 rest] show ?thesis
      by (simp add: Suc endless_payload_def del: Message_Unflatten.simps)
  qed simp
  then have "UnflattenSubMessages ?un am f endless_payload 16 0 [] = Spin"
    by (rule submessages_endless [where un = ?un, OF assms])
  then show ?thesis
    unfolding Suc e using unflatten_one_array [OF assms _ l, of f w0]
    by (simp add: Array_Unflatten_def class_of_codes lp del: Message_Unflatten.simps)
qed simp

text \<open>A byte buffer of \<open>2 ^ 32 - 8\<close> bytes, of which none is there: they are copied all the same.\<close>

definition overrun_input :: "u8 list" where
  "overrun_input = one_entry [98, 0] B_RAW_TYPE (u32_le 1 @ u32_le 4294967288)"

lemma unflatten_overrun:
  assumes "ample am"
  shows "Message_Unflatten am (Suc f) w0 overrun_input (word_of_nat (length overrun_input)) = Fault"
proof -
  let ?p = "u32_le 1 @ u32_le 4294967288"
  have l: "length (one_entry ([98] @ [0]) B_RAW_TYPE ?p) < 2 ^ 32" by (simp add: length_one_entry)
  have s: "seg ?p 8 0 (u32_le 1 @ u32_le 4294967288 @ [])" by (simp add: seg_def)
  note s1 = seg_skip_u32 [OF s]
  have e: "(4294967296 :: u32) = 0" by simp
  have "Array_Unflatten un am f (ByteBufferArray B_RAW_TYPE) ?p 8 = Fault"
    for un :: "u8 list \<Rightarrow> u32 \<Rightarrow> Message option outcome"
    using ampleD [OF assms]
    by (simp add: Array_Unflatten_def seg_read_u32 [OF s] seg_read_u32 [OF s1, simplified] e mem_read_def)
  then show ?thesis
    using unflatten_one_array [OF assms _ l, of f w0]
    by (simp add: overrun_input_def class_of_codes del: Message_Unflatten.simps)
qed

text \<open>
  A NULL reference: \<^verbatim>\<open>FlattenedSize\<close> counts four bytes for it that \<^verbatim>\<open>Flatten\<close> does not write, and the
  field is read back as one that ends within an item.
\<close>

definition null_message :: Message where
  "null_message = Msg 0 [([110], DataArray MessageArray [MessageItem None])]"

lemma null_message_bytes:
  "Message_FlattenedSize null_message = 30"
  "Message_Flatten null_message (replicate 30 7) 0 =
     Ok (u32_le CURRENT_PROTOCOL_VERSION @ u32_le 0 @ u32_le 1
         @ u32_le 2 @ [110, 0] @ u32_le B_MESSAGE_TYPE @ u32_le 4 @ replicate 4 7)"
  by (simp_all add: null_message_def Array_FlattenedSize_def Array_GetNumItems_def Array_GetItemSize_def
      Array_IsFlattenable_def Array_Flatten_def is_null_item_def Array_TypeCode_def WriteData_def mem_write_def)

end
