(* ===== verification/Message_Properties.thy ===== *)
theory Message_Properties
  imports Message_Outcomes Message_Equal Message_Interop Message_Hostile
begin

section \<open>Message: what its methods promise\<close>

text \<open>
  The properties of \<^verbatim>\<open>source/muscle/message/Message.cpp\<close>: the flattened format and who reads it, equality
  and checksums, the input on which \<^verbatim>\<open>Unflatten\<close> fails, and what calls do to Messages that share
  their arrays.
\<close>

definition plenty :: memory where
  "plenty = \<lparr>mem_obj = True, mem_entries = (\<lambda>_. True), mem_items = (\<lambda>_. True), mem_bytes = (\<lambda>_. True)\<rparr>"

lemma ample_plenty [simp]: "ample plenty"
  by (simp add: ample_def plenty_def)

definition sample_message :: Message where
  "sample_message = Msg 7 [
     ([97], DataArray Int32Array [Int32Item 5, Int32Item 9]),
     ([98], DataArray StringArray [StringItem [104, 105], StringItem []]),
     ([99], DataArray MessageArray [MessageItem (Some (Msg 3 [([100], DataArray (ByteBufferArray B_RAW_TYPE) [FlatItem (Some [1, 2])])]))]),
     ([116], DataArray TagArray [TagItem (Some 0)])]"

lemma sample_mini: "mini_message sample_message"
  by (simp add: sample_message_def no_empty_fields_def wf_entries_def array_all_def full_item_def wf_item_def
      has_class_def is_null_item_def Array_TypeCode_def class_of_codes)
    (simp add: new_class_def type_code_defs)

lemma sample_full: "full_message sample_message"
  by (rule mini_message_full [OF sample_mini])

lemma sample_wire: "length (message_wire sample_message) = 118"
  by (simp add: sample_message_def message_wire.simps length_wire_field array_wire_def sized_bytes_def item_payload_def Array_IsFlattenable_def)

subsection \<open>The flattened format\<close>

text \<open>
  C2.  What \<^verbatim>\<open>Flatten\<close> writes, \<^verbatim>\<open>Unflatten\<close> reads: for a Message without NULL references (with distinct
  names, and with names and strings without zeros: \<open>full_message\<close>) whose flattened size is less than \<open>2 ^ 32\<close>, \<^verbatim>\<open>Flatten\<close> fills a
  buffer of \<^verbatim>\<open>FlattenedSize\<close> bytes, and, where every allocation succeeds, \<^verbatim>\<open>Unflatten\<close> of these bytes gives the
  Message back, less its tags and pointers, whatever what-code the object had before.  Any fuel from
  the size on is enough, so \<^verbatim>\<open>Unflatten\<close> returns.
\<close>

theorem Message_Unflatten_Flatten:
  assumes "full_message m" "length (message_wire m) < 2 ^ 32" "ample am" "length (message_wire m) \<le> fuel"
    and "length buf = length (message_wire m)"
  shows "\<exists>bytes. Message_Flatten m buf 0 = Ok bytes \<and> unat (Message_FlattenedSize m) = length bytes
    \<and> Message_Unflatten am fuel w0 bytes (Message_FlattenedSize m) = Ok (B_NO_ERROR, Message_strip m)"
proof -
  have "Message_Flatten m buf 0 = Ok (message_wire m)"
    using fillsD [OF Flatten_wire [OF assms(1)], of buf 0] assms(2,5) by (simp add: room_def size_limit_def overlay_def)
  then show ?thesis
    using unflatten_message [OF assms(3,1) _ assms(4), of w0 "[]"] assms(2)
    by (simp add: FlattenedSize_wire [OF assms(1)] unat_word_of_nat_u32)
qed

theorem Message_Unflatten_Flatten_witness:
  "\<exists>bytes. Message_Flatten sample_message (replicate 118 0) 0 = Ok bytes
    \<and> unat (Message_FlattenedSize sample_message) = length bytes
    \<and> Message_Unflatten plenty 200 1 bytes (Message_FlattenedSize sample_message) =
        Ok (B_NO_ERROR, Message_strip sample_message)"
  by (rule Message_Unflatten_Flatten [OF sample_full]) (simp_all add: sample_wire)

text \<open>
  \<^verbatim>\<open>Flatten\<close> writes the documented format, and nothing else: the protocol version, the what-code,
  the number of flattenable fields and then each of them with the length of its name, its name, type code
  and data length and its data, at the given position of any buffer with room for it.
\<close>

theorem Message_Flatten_writes_format:
  assumes "full_message m" "length (message_wire m) < 2 ^ 30" "length mid = length (message_wire m)"
  shows "Message_Flatten m (pre @ mid @ post) (length pre) = Ok (pre @ message_wire m @ post)
    \<and> Message_FlattenedSize m = word_of_nat (length mid)"
  using fillsD [OF Flatten_wire [OF assms(1)], of "pre @ mid @ post" "length pre"] assms(2,3)
  by (simp add: room_def size_limit_def overlay_def FlattenedSize_wire [OF assms(1)])

theorem Message_Flatten_writes_format_witness:
  "Message_Flatten sample_message ([8] @ replicate 118 0 @ [9]) (length [8 :: u8]) =
      Ok ([8] @ message_wire sample_message @ [9])
    \<and> Message_FlattenedSize sample_message = word_of_nat (length (replicate 118 (0 :: u8)))"
  by (rule Message_Flatten_writes_format [OF sample_full]) (simp_all add: sample_wire)

text \<open>
  C5.  The C++ class and MiniMessage.c read each other's bytes, for a Message without NULL references and
  without fields that have no items (at every level: \<open>mini_message\<close>; MiniMessage has neither) whose
  flattened size is less than \<open>2 ^ 30\<close>, where every allocation succeeds: \<^verbatim>\<open>MMUnflattenMessage\<close>
  of what \<^verbatim>\<open>Message::Flatten\<close> writes gives the corresponding MMessage, and \<^verbatim>\<open>Message::Unflatten\<close> of what
  \<^verbatim>\<open>MMFlattenMessage\<close> writes for that MMessage gives the Message, less tags and pointers (on little-endian hosts).
\<close>

theorem Message_and_MiniMessage_agree:
  assumes "mini_message m" "length (message_wire m) < 2 ^ 30" "\<And>k. am k" "ample am'" "wf_msg msg0"
    and "length (message_wire m) \<le> fuel" "length buf = length (message_wire m)"
  shows "(\<exists>bytes. Message_Flatten m buf 0 = Ok bytes
      \<and> MMUnflattenMessage am False fuel msg0 bytes (Message_FlattenedSize m) = Ok (B_NO_ERROR, mini_of m))
    \<and> (\<exists>bytes. MMFlattenMessage False (mini_of m) buf 0 = Ok bytes
      \<and> Message_Unflatten am' fuel w0 bytes (word_of_nat (length bytes)) = Ok (B_NO_ERROR, Message_strip m))"
proof -
  note full = mini_message_full [OF assms(1)]
  note wire = mini_wire [OF full]
  have "Message_Flatten m buf 0 = Ok (message_wire m)"
    using fillsD [OF Flatten_wire [OF full], of buf 0] assms(2,7) by (simp add: room_def size_limit_def overlay_def)
  moreover have "MMFlattenMessage False (mini_of m) buf 0 = Ok (message_wire m)"
    using MMFlattenMessage_wire [OF mini_wf [OF assms(1,2)], where base = 0 and buf = buf and big = False] assms(2,7)
    by (simp add: wire size_limit_def overlay_def)
  ultimately show ?thesis
    using mini_reads_message [where am = am and rest = "[]", OF assms(1-3,6,5)] unflatten_message [OF assms(4) full _ assms(6), of w0 "[]"] assms(2)
    by (simp add: FlattenedSize_wire [OF full])
qed

theorem Message_and_MiniMessage_agree_witness:
  "(\<exists>bytes. Message_Flatten sample_message (replicate 118 0) 0 = Ok bytes
      \<and> MMUnflattenMessage (\<lambda>_. True) False 118 (MMsg 0 []) bytes (Message_FlattenedSize sample_message) =
          Ok (B_NO_ERROR, mini_of sample_message))
    \<and> (\<exists>bytes. MMFlattenMessage False (mini_of sample_message) (replicate 118 0) 0 = Ok bytes
      \<and> Message_Unflatten plenty 118 0 bytes (word_of_nat (length bytes)) =
          Ok (B_NO_ERROR, Message_strip sample_message))"
  by (rule Message_and_MiniMessage_agree [OF sample_mini]) (simp_all add: sample_wire)

text \<open>
  C20.  MicroMessage.c finds in the bytes of a flattened C++ Message what the Message holds, for a Message
  without NULL references and without fields that have no items (\<open>mini_message\<close>) whose flattened size is less
  than \<open>2 ^ 30\<close>: \<^verbatim>\<open>UMInitializeWithExistingData\<close> accepts the bytes, the look-ups for the nine types of a fixed
  width (\<^verbatim>\<open>UMFindBool\<close>, \<^verbatim>\<open>UMFindInt8\<close>, ..., \<^verbatim>\<open>UMFindPoint\<close>, \<^verbatim>\<open>UMFindRect\<close>: \<open>micro_types\<close>) give the little-endian bytes of the
  item of that name, type and index, or nothing where the Message has none, and \<^verbatim>\<open>UMGetString\<close> on a
  field of strings points to the zero-terminated string of that index, and gives NULL behind the last.
  Look-ups of data and of sub-Messages are not covered.
\<close>

theorem MicroMessage_finds_in_Message:
  assumes "mini_message m" "length (message_wire m) < 2 ^ 30" "is_cstr fn" "length (cstr fn) + 1 < 2 ^ 32"
    and "length mid = length (message_wire m)"
  shows "\<exists>mem v. Message_Flatten m (pre @ mid @ post) (length pre) = Ok mem
    \<and> UMInitializeWithExistingData mem (length pre) (Message_FlattenedSize m) = Ok (B_NO_ERROR, v)
    \<and> (\<forall>(tc, k) \<in> set micro_types. \<exists>v'. find_item (get_items tc) k mem v fn i =
          Ok (message_item m (cstr fn) tc (unat i), v'))
    \<and> (\<forall>ss. string_items m (cstr fn) ss \<longrightarrow>
          (\<exists>r v'. UMGetString mem v fn i = Ok (r, v') \<and> string_answer mem ss (unat i) r))"
proof -
  note full = mini_message_full [OF assms(1)]
  have "Message_Flatten m (pre @ mid @ post) (length pre) = Ok (pre @ message_wire m @ post)"
    using fillsD [OF Flatten_wire [OF full], of "pre @ mid @ post" "length pre"] assms(2,5)
    by (simp add: room_def size_limit_def overlay_def)
  then show ?thesis using micro_finds_message [OF assms(1-4), of pre post i] by (simp add: FlattenedSize_wire [OF full])
qed

lemma sample_items:
  "message_item sample_message [97] B_INT32_TYPE 1 = Some (u32_le 9)"
  "string_items sample_message [98] [[104, 105], []]"
  by (simp_all add: sample_message_def message_item_def string_items_def Message_GetArray_def find_array_def
      array_matches_def Array_TypeCode_def)

theorem MicroMessage_finds_in_Message_witness:
  "(\<exists>mem v v'. Message_Flatten sample_message ([1] @ replicate 118 0 @ [2]) (length [1 :: u8]) = Ok mem
    \<and> UMInitializeWithExistingData mem (length [1 :: u8]) (Message_FlattenedSize sample_message) = Ok (B_NO_ERROR, v)
    \<and> find_item (get_items B_INT32_TYPE) 4 mem v [97, 0] 1 = Ok (Some (u32_le 9), v'))
   \<and> (\<exists>mem v r v'. Message_Flatten sample_message ([1] @ replicate 118 0 @ [2]) (length [1 :: u8]) = Ok mem
    \<and> UMGetString mem v [98, 0] 0 = Ok (r, v') \<and> string_answer mem [[104, 105], []] 0 r)"
proof (intro conjI)
  have l: "length (message_wire sample_message) < 2 ^ 30" "length (replicate 118 (0 :: u8)) = length (message_wire sample_message)"
    by (simp_all add: sample_wire)
  have n: "is_cstr [97, 0]" "length (cstr [97, 0 :: u8]) + 1 < 2 ^ 32" "cstr [97, 0 :: u8] = [97]"
    "is_cstr [98, 0]" "length (cstr [98, 0 :: u8]) + 1 < 2 ^ 32" "cstr [98, 0 :: u8] = [98]"
    by (simp_all add: is_cstr_def cstr_def)
  have t: "(B_INT32_TYPE, 4) \<in> set micro_types" by (simp add: micro_types_def)
  show "\<exists>mem v v'. Message_Flatten sample_message ([1] @ replicate 118 0 @ [2]) (length [1 :: u8]) = Ok mem
    \<and> UMInitializeWithExistingData mem (length [1 :: u8]) (Message_FlattenedSize sample_message) = Ok (B_NO_ERROR, v)
    \<and> find_item (get_items B_INT32_TYPE) 4 mem v [97, 0] 1 = Ok (Some (u32_le 9), v')"
  proof -
    obtain mem v where m: "Message_Flatten sample_message ([1] @ replicate 118 0 @ [2]) (length [1 :: u8]) = Ok mem"
        "UMInitializeWithExistingData mem (length [1 :: u8]) (Message_FlattenedSize sample_message) = Ok (B_NO_ERROR, v)"
      and f: "\<forall>(tc, k) \<in> set micro_types. \<exists>v'. find_item (get_items tc) k mem v [97, 0] 1 =
          Ok (message_item sample_message (cstr [97, 0]) tc (unat (1 :: u32)), v')"
      using MicroMessage_finds_in_Message [OF sample_mini l(1) n(1,2) l(2), of "[1]" "[2]" 1] by blast
    from bspec [OF f t] show ?thesis using m sample_items(1) by (simp add: n(3))
  qed
  show "\<exists>mem v r v'. Message_Flatten sample_message ([1] @ replicate 118 0 @ [2]) (length [1 :: u8]) = Ok mem
    \<and> UMGetString mem v [98, 0] 0 = Ok (r, v') \<and> string_answer mem [[104, 105], []] 0 r"
  proof -
    obtain mem v where m: "Message_Flatten sample_message ([1] @ replicate 118 0 @ [2]) (length [1 :: u8]) = Ok mem"
      and f: "\<forall>ss. string_items sample_message (cstr [98, 0]) ss \<longrightarrow>
          (\<exists>r v'. UMGetString mem v [98, 0] 0 = Ok (r, v') \<and> string_answer mem ss (unat (0 :: u32)) r)"
      using MicroMessage_finds_in_Message [OF sample_mini l(1) n(4,5) l(2), of "[1]" "[2]" 0] by blast
    have "string_items sample_message (cstr [98, 0]) [[104, 105], []]" by (simp only: n(6) sample_items(2))
    then have "\<exists>r v'. UMGetString mem v [98, 0] 0 = Ok (r, v') \<and> string_answer mem [[104, 105], []] 0 r"
      using f by (metis unat_0)
    then show ?thesis using m by blast
  qed
qed

text \<open>
  C28.  What MicroMessage builds, the other two libraries read: on a buffer with room for it,
  \<^verbatim>\<open>UMInitializeToEmptyMessage\<close> and one call of \<^verbatim>\<open>UMAddBools\<close>, ..., \<^verbatim>\<open>UMAddRects\<close>, \<^verbatim>\<open>UMAddStrings\<close> or \<^verbatim>\<open>UMAddData\<close> for each
  field all succeed, change nothing outside the buffer, and leave bytes from which \<^verbatim>\<open>MMUnflattenMessage\<close> and
  \<^verbatim>\<open>Message::Unflatten\<close> read the Message with exactly these fields and values, in this order.  The names
  are zero-terminated and distinct, every call but the one for data adds at least one value, data has a type
  code of its own (\<open>calls_ok\<close>), the Message has less than \<open>2 ^ 30\<close> bytes, the readers' allocations succeed, and
  the reader of \<^verbatim>\<open>MiniMessage.c\<close> is a little-endian host.  Sub-Messages (\<^verbatim>\<open>UMAddMessages\<close>,
  \<^verbatim>\<open>UMInlineAddMessage\<close>) are not covered.
\<close>

theorem MicroMessage_builds_Message:
  assumes "calls_ok cs" "length buf = unat n" "length (message_wire (calls_message w cs)) \<le> unat n"
    and "length (message_wire (calls_message w cs)) < 2 ^ 30" "\<And>k. am k" "ample am'" "wf_msg msg0"
    and "length (message_wire (calls_message w cs)) \<le> fuel"
  shows "\<exists>mem0 um0 mem um.
      UMInitializeToEmptyMessage (pre @ buf @ post) old (length pre) n w = Ok (B_NO_ERROR, mem0, um0)
    \<and> micro_build enforce mem0 [um0] cs = Ok (B_NO_ERROR, mem, [um])
    \<and> take (length pre) mem = pre \<and> drop (length pre + unat n) mem = post
    \<and> MMUnflattenMessage am False fuel msg0 (drop (length pre) mem) (UMGetFlattenedSize um) =
        Ok (B_NO_ERROR, mini_of (calls_message w cs))
    \<and> Message_Unflatten am' fuel w0 (drop (length pre) mem) (UMGetFlattenedSize um) =
        Ok (B_NO_ERROR, calls_message w cs)"
proof -
  let ?m = "calls_message w cs"
  note mini = calls_mini [OF assms(1), of w]
  from micro_build_message [OF assms(1-3), of pre post old enforce]
  obtain mem0 um0 mem um spare where b:
    "UMInitializeToEmptyMessage (pre @ buf @ post) old (length pre) n w = Ok (B_NO_ERROR, mem0, um0)"
    "micro_build enforce mem0 [um0] cs = Ok (B_NO_ERROR, mem, [um])"
    and m: "mem = pre @ message_wire ?m @ spare @ post" "length (message_wire ?m) + length spare = unat n"
    and s: "UMGetFlattenedSize um = word_of_nat (length (message_wire ?m))"
    by blast
  have d: "drop (length pre) mem = message_wire ?m @ spare @ post" using m(1) by simp
  have "MMUnflattenMessage am False fuel msg0 (drop (length pre) mem) (UMGetFlattenedSize um) = Ok (B_NO_ERROR, mini_of ?m)"
    unfolding d s by (rule mini_reads_message [OF mini assms(4,5,8,7)])
  moreover have "Message_Unflatten am' fuel w0 (drop (length pre) mem) (UMGetFlattenedSize um) = Ok (B_NO_ERROR, ?m)"
    unfolding d s using unflatten_message [OF assms(6) mini_message_full [OF mini] _ assms(8), of w0 "spare @ post"] assms(4)
    by (simp add: calls_strip [OF assms(1)])
  ultimately show ?thesis using b m by (intro exI conjI) (assumption | simp)+
qed

definition sample_calls :: "(u8 list \<times> micro_values) list" where
  "sample_calls = [([97, 0], Int32Values [5, 9]), ([98, 0], StringValues [Some [104, 105, 0], None]),
     ([99, 0], PointValues [(1, 2)]), ([100, 0], DataValue B_RAW_TYPE [1, 2, 3])]"

lemma sample_calls:
  "calls_ok sample_calls" "length (message_wire (calls_message 7 sample_calls)) = 111"
  by (simp_all add: sample_calls_def calls_ok_def cstr_def is_cstr_def c_strings_def c_string_def class_of_codes)
    (simp add: calls_message_def message_wire.simps length_wire_field array_wire_def sized_bytes_def item_payload_def
      Array_IsFlattenable_def cstr_def c_string_def)

theorem MicroMessage_builds_Message_witness:
  "\<exists>mem0 um0 mem um.
      UMInitializeToEmptyMessage ([9] @ replicate 120 0 @ [8]) UMInitializeToInvalid (length [9 :: u8]) 120 7 =
        Ok (B_NO_ERROR, mem0, um0)
    \<and> micro_build True mem0 [um0] sample_calls = Ok (B_NO_ERROR, mem, [um])
    \<and> take (length [9 :: u8]) mem = [9] \<and> drop (length [9 :: u8] + unat (120 :: u32)) mem = [8]
    \<and> MMUnflattenMessage (\<lambda>_. True) False 200 (MMsg 0 []) (drop (length [9 :: u8]) mem) (UMGetFlattenedSize um) =
        Ok (B_NO_ERROR, mini_of (calls_message 7 sample_calls))
    \<and> Message_Unflatten plenty 200 1 (drop (length [9 :: u8]) mem) (UMGetFlattenedSize um) =
        Ok (B_NO_ERROR, calls_message 7 sample_calls)"
  by (rule MicroMessage_builds_Message) (simp_all add: sample_calls)

subsection \<open>Comparison and checksums\<close>

text \<open>
  C13.  Messages that \<^verbatim>\<open>operator ==\<close> finds equal have the same \<^verbatim>\<open>CalculateChecksum\<close>, with and without the
  fields that are not flattenable and in whatever order the fields are, and the comparison is
  symmetric: it does not matter that it only looks for the fields of the left Message in the right one,
  nor that zeros of both signs are equal.
\<close>

theorem equal_Messages_same_checksum:
  assumes "Message_equals m m'" "tables_ok m" "tables_ok m'"
  shows "Message_CalculateChecksum cnt m = Message_CalculateChecksum cnt m' \<and> Message_equals m' m"
  using equals_checksum [OF assms] equals_sym [OF assms] by blast

theorem equal_Messages_same_checksum_witness:
  "Message_CalculateChecksum False (Msg 1 [([97], DataArray FloatArray [FloatItem 0]), ([98], DataArray BoolArray [BoolItem True])]) =
     Message_CalculateChecksum False (Msg 1 [([98], DataArray BoolArray [BoolItem True]), ([97], DataArray FloatArray [FloatItem 0x80000000])])
   \<and> Message_equals (Msg 1 [([98], DataArray BoolArray [BoolItem True]), ([97], DataArray FloatArray [FloatItem 0x80000000])])
       (Msg 1 [([97], DataArray FloatArray [FloatItem 0]), ([98], DataArray BoolArray [BoolItem True])])"
  by (rule equal_Messages_same_checksum)
    (simp_all add: table_ok_def short_array_def array_all_def Array_IsEqualTo_def Array_AreContentsEqual_def
      Array_TypeCode_def Array_GetNumItems_def counted_down_def item_equal_def float_equal_def is_nan32_def is_zero32_def)

text \<open>
  C27.  On a little-endian host the hash of a block of memory (\<^verbatim>\<open>CalculateHashCode\<close> of
  \<^verbatim>\<open>SetupSystem.cpp\<close>, which the checksums are made of) depends on its bytes and the seed only: the
  second loop, for an address that is not a multiple of four, shifts the same words together.
\<close>

theorem hash_ignores_alignment:
  assumes "align < 4" "align' < 4"
  shows "CalculateHashCode False align bs seed = CalculateHashCode False align' bs seed"
  by (simp only: hash_alignment [OF assms(1)] hash_alignment [OF assms(2)])

theorem hash_ignores_alignment_witness:
  "CalculateHashCode False 1 [1, 2, 3, 4, 5, 6, 7] 9 = CalculateHashCode False 3 [1, 2, 3, 4, 5, 6, 7] 9"
  by (rule hash_ignores_alignment) simp_all

subsection \<open>Input of a peer\<close>

text \<open>
  C24.  Flattened Messages of some thirty bytes that \<^verbatim>\<open>Unflatten\<close> does not reject: a field of tags or of
  pointers ends the program, the size of a sub-Message that wraps around makes the loop go on for
  ever whatever the fuel, and the size of a byte buffer that wraps around makes it read behind its input.
\<close>

theorem Message_Unflatten_hostile:
  assumes "ample am" "tc \<in> {B_TAG_TYPE, B_POINTER_TYPE}"
  shows "Message_Unflatten am (Suc fuel) w0 (crash_input tc) (word_of_nat (length (crash_input tc))) = Fault
    \<and> Message_Unflatten am fuel w0 endless_input (word_of_nat (length endless_input)) = Spin
    \<and> Message_Unflatten am (Suc fuel) w0 overrun_input (word_of_nat (length overrun_input)) = Fault"
  using unflatten_crash [OF assms] unflatten_message_endless [OF assms(1)] unflatten_overrun [OF assms(1)] by blast

theorem Message_Unflatten_hostile_witness:
  "Message_Unflatten plenty (Suc 40) 1 (crash_input B_TAG_TYPE) (word_of_nat (length (crash_input B_TAG_TYPE))) = Fault
    \<and> Message_Unflatten plenty 40 1 endless_input (word_of_nat (length endless_input)) = Spin
    \<and> Message_Unflatten plenty (Suc 40) 1 overrun_input (word_of_nat (length overrun_input)) = Fault"
  by (rule Message_Unflatten_hostile) simp_all

text \<open>
  A NULL reference in a field: \<^verbatim>\<open>FlattenedSize\<close> counts four bytes for it that \<^verbatim>\<open>Flatten\<close> does not
  write, so that what was in the buffer is sent.
\<close>

theorem Flatten_leaves_null_unwritten:
  "Message_FlattenedSize null_message = 30
   \<and> Message_Flatten null_message (replicate 30 7) 0 =
       Ok (u32_le CURRENT_PROTOCOL_VERSION @ u32_le 0 @ u32_le 1
           @ u32_le 2 @ [110, 0] @ u32_le B_MESSAGE_TYPE @ u32_le 4 @ replicate 4 7)"
  using null_message_bytes by blast

subsection \<open>Sequences of calls\<close>

text \<open>
  C3.  After every sequence of calls on a group of new Messages, whatever memory each of them had, every
  table has each name once and refers to existing arrays, and every array holds items of its
  class only, which is the class for its type code; and there every further call of a method
  for a known type returns, however the arrays are shared: no array is used as one of another type.
\<close>

theorem reachable_Messages_typed:
  assumes "reachable_from (new_messages n) w"
  shows "world_ok w \<and> length (w_objs w) = n
    \<and> (typed_call c \<and> list_all (\<lambda>k. k < n) (call_objects c) \<longrightarrow>
        (\<exists>st w'. run_call am big garbage fuel w c = Ok (st, w') \<and> world_ok w'))"
  using reachable_keeps [OF assms new_messages_ok] typed_call_returns [of w c am big garbage fuel]
  by (auto simp: keeps_def)

definition first_add :: message_call where "first_add = CallAdd 0 [97] (Int32Item 5)"

lemma reachable_sample:
  "\<exists>w. run_call plenty False [] 0 (new_messages 2) first_add = Ok (B_NO_ERROR, w) \<and> reachable_from (new_messages 2) w"
proof -
  have "world_ok (new_messages 2)" by (rule new_messages_ok)
  from Add_new [OF this _ ample_plenty, of 0 "Int32Item 5" "[97]" False]
  obtain w where w: "run_call plenty False [] 0 (new_messages 2) first_add = Ok (B_NO_ERROR, w)"
    by (auto simp: first_add_def storable_def is_null_item_def new_messages_def entries_of_def)
  then have "message_step (new_messages 2) first_add B_NO_ERROR w"
    by (intro message_step.step) (simp_all add: first_add_def)
  from reachable_from.call [OF reachable_from.start this] w show ?thesis by blast
qed

theorem reachable_Messages_typed_witness:
  "\<exists>w st w'. run_call plenty False [] 0 (new_messages 2) first_add = Ok (B_NO_ERROR, w)
    \<and> run_call plenty False [] 0 w (CallShareName 0 [97] 1 [98]) = Ok (st, w') \<and> world_ok w'"
proof -
  obtain w where w: "run_call plenty False [] 0 (new_messages 2) first_add = Ok (B_NO_ERROR, w)"
    "reachable_from (new_messages 2) w" using reachable_sample by blast
  have "\<exists>st w'. run_call plenty False [] 0 w (CallShareName 0 [97] 1 [98]) = Ok (st, w') \<and> world_ok w'"
    using reachable_Messages_typed [OF w(2), of "CallShareName 0 [97] 1 [98]" plenty False "[]" 0] by simp
  then show ?thesis using w(1) by blast
qed

subsection \<open>Shared and private fields\<close>

text \<open>
  C11.  The typed methods \<^verbatim>\<open>AddString\<close>, \<^verbatim>\<open>AddInt8\<close>, ..., \<^verbatim>\<open>AddMessage\<close> refine their specification: where the
  field does not exist, or has the type of the value and one reference to its array, the value
  becomes the last one of the field (of a new field at the end of the table), and no other Message
  changes, when memory is available.
\<close>

theorem Message_Add_refines:
  assumes "world_ok w" "k < length (w_objs w)" "ample am" "storable x" "field_takes (view w k) name x"
    and "\<And>r. map_of (entries_of w k) name = Some r \<Longrightarrow> ref_count w r = 1"
  shows "\<exists>w'. Message_Add am big w k name x = Ok (B_NO_ERROR, w') \<and> view w' k = spec_add (view w k) name x
    \<and> (\<forall>l < length (w_objs w). l \<noteq> k \<longrightarrow> view w' l = view w l)"
  using Add_private [OF assms(1-5), of big] ref_count_private [OF assms(6) _ assms(2)] by blast

definition private_world :: world where
  "private_world =
     \<lparr>w_arrays = [DataArray Int32Array [Int32Item 5, Int32Item 6], DataArray StringArray [StringItem [104]]],
      w_objs = [\<lparr>mo_what = 1, mo_entries = [([97], 0)]\<rparr>, \<lparr>mo_what = 2, mo_entries = [([97], 1)]\<rparr>]\<rparr>"

definition shared_world :: world where
  "shared_world =
     \<lparr>w_arrays = [DataArray Int32Array [Int32Item 5, Int32Item 6]],
      w_objs = [\<lparr>mo_what = 1, mo_entries = [([97], 0)]\<rparr>, \<lparr>mo_what = 2, mo_entries = [([98], 0)]\<rparr>]\<rparr>"

lemma sample_worlds: "world_ok private_world" "world_ok shared_world" "length (w_objs private_world) = 2"
  "length (w_objs shared_world) = 2"
  by (simp_all add: private_world_def shared_world_def world_ok_def array_ok_def object_ok_def has_class_def)
    (simp_all add: new_class_def type_code_defs B_TAG_TYPE_def)

lemma sample_tables: "entries_of private_world 0 = [([97], 0)]" "entries_of shared_world 0 = [([97], 0)]"
  "array_at private_world 0 = DataArray Int32Array [Int32Item 5, Int32Item 6]"
  "array_at shared_world 0 = DataArray Int32Array [Int32Item 5, Int32Item 6]"
  "ref_count private_world 0 = 1"
  by (simp_all add: private_world_def shared_world_def entries_of_def array_at_def ref_count_def)

lemma sample_item: "storable (Int32Item v)" "item_code (Int32Item v) = B_INT32_TYPE"
  by (simp_all add: storable_def is_null_item_def item_code_def)

theorem Message_Add_refines_witness:
  "\<exists>w'. Message_Add plenty False private_world 0 [97] (Int32Item 8) = Ok (B_NO_ERROR, w')
    \<and> view w' 0 = spec_add (view private_world 0) [97] (Int32Item 8)
    \<and> (\<forall>l < length (w_objs private_world). l \<noteq> 0 \<longrightarrow> view w' l = view private_world l)"
  by (rule Message_Add_refines)
    (simp_all add: sample_worlds sample_tables sample_item field_takes_def Array_TypeCode_def)

text \<open>
  C22.  \<^verbatim>\<open>ShareName\<close> shares: a value that is then added to the field of one of the two Messages is the last one of
  the field of the other as well.
  The value has the type of the field, and memory is available.
\<close>

theorem ShareName_shares:
  assumes "world_ok w" "k < length (w_objs w)" "l < length (w_objs w)" "k \<noteq> l" "ample am" "storable x"
    and "map_of (m_entries (view w k)) name = Some a" "Array_TypeCode a = item_code x"
  shows "\<exists>w1 w2. Message_ShareName am w k name l newName = (B_NO_ERROR, w1)
     \<and> Message_Add am big w1 l newName x = Ok (B_NO_ERROR, w2)
     \<and> map_of (m_entries (view w2 l)) newName = Some (DataArray (da_class a) (da_items a @ [x]))
     \<and> map_of (m_entries (view w2 k)) name = Some (DataArray (da_class a) (da_items a @ [x]))"
  using assms by (rule share_then_add)

lemma sample_field:
  "map_of (m_entries (view private_world 0)) [97] = Some (DataArray Int32Array [Int32Item 5, Int32Item 6])"
  by (simp add: sample_tables)

theorem ShareName_shares_witness:
  "\<exists>w1 w2. Message_ShareName plenty private_world 0 [97] 1 [99] = (B_NO_ERROR, w1)
     \<and> Message_Add plenty False w1 1 [99] (Int32Item 8) = Ok (B_NO_ERROR, w2)
     \<and> map_of (m_entries (view w2 1)) [99] = Some (DataArray Int32Array [Int32Item 5, Int32Item 6, Int32Item 8])
     \<and> map_of (m_entries (view w2 0)) [97] = Some (DataArray Int32Array [Int32Item 5, Int32Item 6, Int32Item 8])"
  using ShareName_shares [OF sample_worlds(1) _ _ _ ample_plenty sample_item(1) sample_field, of 1 8 "[99]" False]
  by (simp add: sample_worlds sample_item Array_TypeCode_def del: view_sel)

text \<open>
  C9.  \<^verbatim>\<open>EnsureFieldIsPrivate\<close> parts a field from all that share it: no Message changes by it, and a
  value that is then added is seen in this Message only.  The Message has the field, with the type of the value, the
  value can be stored (\<open>storable\<close>), and memory is available.
\<close>

theorem EnsureFieldIsPrivate_isolates:
  assumes "world_ok w" "k < length (w_objs w)" "ample am" "storable x" "map_of (entries_of w k) name = Some r"
    and "field_takes (view w k) name x"
  shows "\<exists>w1 w2. EnsureFieldIsPrivate am w k name = (B_NO_ERROR, w1)
     \<and> Message_Add am big w1 k name x = Ok (B_NO_ERROR, w2)
     \<and> view w2 k = spec_add (view w k) name x \<and> (\<forall>l < length (w_objs w). l \<noteq> k \<longrightarrow> view w2 l = view w l)"
  using assms by (rule private_then_add)

theorem EnsureFieldIsPrivate_isolates_witness:
  "\<exists>w1 w2. EnsureFieldIsPrivate plenty shared_world 0 [97] = (B_NO_ERROR, w1)
     \<and> Message_Add plenty False w1 0 [97] (Int32Item 8) = Ok (B_NO_ERROR, w2)
     \<and> view w2 0 = spec_add (view shared_world 0) [97] (Int32Item 8)
     \<and> (\<forall>l < length (w_objs shared_world). l \<noteq> 0 \<longrightarrow> view w2 l = view shared_world l)"
  by (rule EnsureFieldIsPrivate_isolates [where r = 0])
    (simp_all add: sample_worlds sample_tables sample_item field_takes_def Array_TypeCode_def)

text \<open>
  C17.  \<^verbatim>\<open>operator =\<close> gives this Message the value of the other one, and changes no other Message, whatever
  arrays this Message shared before.
  Memory is available.
\<close>

theorem Message_assign_copies:
  assumes "world_ok w" "k < length (w_objs w)" "l < length (w_objs w)" "ample am"
  shows "view (Message_assign am w k l) k = view w l
    \<and> (\<forall>j < length (w_objs w). j \<noteq> k \<longrightarrow> view (Message_assign am w k l) j = view w j)"
  using assign_copies [OF assms] by blast

theorem Message_assign_copies_witness:
  "view (Message_assign plenty shared_world 0 1) 0 = view shared_world 1
    \<and> view (Message_assign plenty shared_world 0 1) 1 = view shared_world 1"
  using Message_assign_copies [OF sample_worlds(2) _ _ ample_plenty, of 0 1] by (simp add: sample_worlds)

text \<open>
  C32.  \<^verbatim>\<open>MoveName\<close> with a new name that is not the old one does not move: the other Message gets the
  field under its old name and nothing under the new one, and this Message keeps the field and loses
  what it had under the new name.
  Memory is available.
\<close>

theorem MoveName_confuses_names:
  assumes "k < length (w_objs w)" "l < length (w_objs w)" "k \<noteq> l" "ample am"
    and "map_of (m_entries (view w k)) old = Some a" "old \<noteq> new"
  shows "\<exists>w'. Message_MoveName am w k old l new = (B_NO_ERROR, w')
     \<and> map_of (m_entries (view w' k)) old = Some a \<and> map_of (m_entries (view w' k)) new = None
     \<and> map_of (m_entries (view w' l)) old = Some a
     \<and> map_of (m_entries (view w' l)) new = map_of (m_entries (view w l)) new"
  using assms by (rule MoveName_keeps_field)

theorem MoveName_confuses_names_witness:
  "\<exists>w'. Message_MoveName plenty private_world 0 [97] 1 [98] = (B_NO_ERROR, w')
     \<and> map_of (m_entries (view w' 0)) [97] = Some (DataArray Int32Array [Int32Item 5, Int32Item 6])
     \<and> map_of (m_entries (view w' 0)) [98] = None
     \<and> map_of (m_entries (view w' 1)) [97] = Some (DataArray Int32Array [Int32Item 5, Int32Item 6])
     \<and> map_of (m_entries (view w' 1)) [98] = map_of (m_entries (view private_world 1)) [98]"
  by (rule MoveName_confuses_names) (simp_all add: sample_worlds sample_tables)

text \<open>
  C35.  \<^verbatim>\<open>ReplaceData\<close> with the bytes of one item of a fixed size reads behind them for every index but the
  first: its loop takes the index of the item that it replaces for the one of the item that it reads.
\<close>

theorem ReplaceData_reads_behind:
  assumes "world_ok w" "k < length (w_objs w)" "map_of (m_entries (view w k)) name = Some a" "Array_TypeCode a = tc"
    and "is_value_class (da_class a)" "length data = class_sizeof (da_class a)"
    and "0 < index" "index < Array_GetNumItems a" "unat index * class_sizeof (da_class a) < 2 ^ 32"
  shows "Message_ReplaceData am big garbage w k okayToAdd name tc index data (word_of_nat (length data)) = Fault"
  using assms by (rule ReplaceData_overrun)

theorem ReplaceData_reads_behind_witness:
  "Message_ReplaceData plenty False [] private_world 0 False [97] B_INT32_TYPE 1 [1, 2, 3, 4]
     (word_of_nat (length [1, 2, 3, 4 :: u8])) = Fault"
  by (rule ReplaceData_reads_behind [where a = "DataArray Int32Array [Int32Item 5, Int32Item 6]"])
    (simp_all add: sample_worlds sample_tables Array_TypeCode_def is_value_class_def Array_GetNumItems_def)

text \<open>
  \<^verbatim>\<open>ReplaceFlat\<close> of an object, where there is none to replace and one may be added, adds a byte buffer
  with the eight bytes of the reference to the flattened object, and not its bytes.
\<close>

theorem ReplaceFlat_adds_address:
  assumes "world_ok w" "k < length (w_objs w)" "ample am" "length ref_bytes = 8" "map_of (entries_of w k) name = None"
  shows "\<exists>w'. ReplaceFlatAux am big garbage w k True name i buf ref_bytes B_RAW_TYPE = Ok (B_NO_ERROR, w')
     \<and> view w' k = spec_add (view w k) name (FlatItem (Some ref_bytes))"
  using assms by (rule ReplaceFlat_adds_reference)

theorem ReplaceFlat_adds_address_witness:
  "\<exists>w'. ReplaceFlatAux plenty False [] private_world 0 True [99] 0 (Some [1, 2, 3]) [8, 7, 6, 5, 4, 3, 2, 1] B_RAW_TYPE =
       Ok (B_NO_ERROR, w')
     \<and> view w' 0 = spec_add (view private_world 0) [99] (FlatItem (Some [8, 7, 6, 5, 4, 3, 2, 1]))"
  by (rule ReplaceFlat_adds_address) (simp_all add: sample_worlds sample_tables)

end
