(* ===== verification/Message_Find.thy ===== *)
theory Message_Find
  imports Message_Effects
begin

section \<open>The values of a Message, as its clients read and add them\<close>

text \<open>
  \<^verbatim>\<open>FindData\<close>, the \<^verbatim>\<open>Find\<close> methods that copy a value, and \<^verbatim>\<open>Add...\<close> and \<^verbatim>\<open>AddData\<close> on a Message whose
  arrays nobody else refers to, which is then a value: \<open>value_add\<close> and \<open>value_AddData\<close> are the
  methods of theory \<open>Message_Store\<close> for it, with the same failures (\<open>Message_Add_value\<close>).

  What the methods depend on beside the Message is a parameter: the order of bytes of the host;
  whether an empty byte buffer still has memory of its own (of earlier contents); the bytes of a
  reference in memory.  The last two parameters are for the query filters: what making a \<^verbatim>\<open>StringMatcher\<close>
  and asking it does, which is not modelled, and may be anything (whether it is a simple wildcard pattern,
  the pattern and the string), and what an integer holds that nobody has initialised.
\<close>

record host =
  h_big :: bool
  h_empty :: bool
  h_ref :: "Message DataItem \<Rightarrow> u8 list"
  h_match :: "bool \<Rightarrow> u8 list \<Rightarrow> u8 list \<Rightarrow> bool outcome"
  h_junk :: u32

subsection \<open>FindData\<close>

text \<open>The bytes in memory of an object that an array holds.\<close>

definition object_bytes :: "host \<Rightarrow> Message DataItem \<Rightarrow> u8 list" where
  "object_bytes h x =
     (let k = (case x of PointItem _ _ \<Rightarrow> 4 | RectItem _ _ _ _ \<Rightarrow> 4 | _ \<Rightarrow> length (fixed_item_bytes x)) in
      case x of
        StringItem _ \<Rightarrow> h_ref h x | MessageItem _ \<Rightarrow> h_ref h x | FlatItem _ \<Rightarrow> h_ref h x | TagItem _ \<Rightarrow> h_ref h x
      | PointerItem v \<Rightarrow> if h_big h then rev (u64_le v) else u64_le v
      | _ \<Rightarrow> if h_big h then reverse_items k (fixed_item_bytes x) else fixed_item_bytes x)"

text \<open>
  The pointer and the size that \<^verbatim>\<open>FindData\<close> gives: to the object in the array; to the characters of a
  string, with its zero; to the bytes of a byte buffer.  For a type code that is not of a built-in type
  the object is taken for a reference to a byte buffer, which it is not if the type code is
  \<^verbatim>\<open>B_ANY_TYPE\<close> and the array is of values, strings or tags; a reference to a Message is not one to a
  byte buffer.
\<close>

definition Message_FindData :: "host \<Rightarrow> Message \<Rightarrow> u8 list \<Rightarrow> u32 \<Rightarrow> u32 \<Rightarrow> (Message DataPtr \<times> u32) option outcome" where
  "Message_FindData h m name tc index =
     (case Message_GetArray m name tc of
        None \<Rightarrow> Ok None
      | Some a \<Rightarrow>
          (case Array_FindDataItem index a of
             None \<Rightarrow> Ok None
           | Some x \<Rightarrow>
               if tc = B_STRING_TYPE then
                 (case x of
                    StringItem s \<Rightarrow> Ok (Some (RawPtr (s @ [0]), word_of_nat (length s) + 1))
                  | _ \<Rightarrow> Fault)
               else if GetElementSize tc > 0 then Ok (Some (ItemPtr x, word_of_nat (GetElementSize tc)))
               else
                 (case x of
                    FlatItem None \<Rightarrow> Ok None
                  | FlatItem (Some bs) \<Rightarrow>
                      if bs \<noteq> [] \<or> h_empty h then Ok (Some (RawPtr bs, word_of_nat (length bs))) else Ok None
                  | MessageItem _ \<Rightarrow> Ok None
                  | _ \<Rightarrow> Fault)))"

definition pointer_bytes :: "host \<Rightarrow> Message DataPtr \<Rightarrow> u8 list" where
  "pointer_bytes h p = (case p of NullPtr \<Rightarrow> [] | ItemPtr x \<Rightarrow> object_bytes h x | RawPtr bs \<Rightarrow> bs)"

subsection \<open>Find methods that copy\<close>

definition Message_FindInt8 :: "Message \<Rightarrow> u8 list \<Rightarrow> u8 option" where
  "Message_FindInt8 m name = (case Message_FindItem m B_INT8_TYPE name 0 of Some (Int8Item v) \<Rightarrow> Some v | _ \<Rightarrow> None)"

definition Message_FindInt32 :: "Message \<Rightarrow> u8 list \<Rightarrow> u32 option" where
  "Message_FindInt32 m name = (case Message_FindItem m B_INT32_TYPE name 0 of Some (Int32Item v) \<Rightarrow> Some v | _ \<Rightarrow> None)"

definition Message_FindString :: "Message \<Rightarrow> u8 list \<Rightarrow> u32 \<Rightarrow> u8 list option" where
  "Message_FindString m name index =
     (case Message_FindItem m B_STRING_TYPE name index of Some (StringItem s) \<Rightarrow> Some s | _ \<Rightarrow> None)"

definition Message_FindMessage :: "Message \<Rightarrow> u8 list \<Rightarrow> u32 \<Rightarrow> Message option option" where
  "Message_FindMessage m name index =
     (case Message_FindItem m B_MESSAGE_TYPE name index of Some (MessageItem r) \<Rightarrow> Some r | _ \<Rightarrow> None)"

definition Message_GetInt8 :: "Message \<Rightarrow> u8 list \<Rightarrow> u8" where
  "Message_GetInt8 m name = (case Message_FindInt8 m name of None \<Rightarrow> 0 | Some v \<Rightarrow> v)"

lemma FindMessage_in:
  assumes "Message_FindMessage m name i = Some r"
  shows "\<exists>a. Message_GetArray m name B_MESSAGE_TYPE = Some a \<and> MessageItem r \<in> set (da_items a)"
proof -
  obtain a where a: "Message_GetArray m name B_MESSAGE_TYPE = Some a" "Array_FindDataItem i a = Some (MessageItem r)"
    using assms by (auto simp: Message_FindMessage_def Message_FindItem_def split: option.splits DataItem.splits)
  then show ?thesis by (auto simp: Array_FindDataItem_def split: if_splits) (metis nth_mem)
qed

subsection \<open>Adding to a Message of one's own\<close>

definition value_add_as :: "memory \<Rightarrow> Message \<Rightarrow> u8 list \<Rightarrow> u32 \<Rightarrow> Message DataItem \<Rightarrow> status \<times> Message" where
  "value_add_as am m name tc x =
     (case get_or_create am (m_entries m) name tc of
        None \<Rightarrow> (B_ERROR, m)
      | Some (es, c) \<Rightarrow>
          let items = (case map_of es name of None \<Rightarrow> [] | Some a \<Rightarrow> da_items a) in
          if mem_items am (Suc (length items)) then (B_NO_ERROR, Msg (m_what m) (set_items es name (items @ [x])))
          else (B_ERROR, Msg (m_what m) es))"

definition value_add :: "memory \<Rightarrow> Message \<Rightarrow> u8 list \<Rightarrow> Message DataItem \<Rightarrow> status \<times> Message" where
  "value_add am m name x =
     (if x = TagItem None \<or> is_null_item x then (B_ERROR, m) else value_add_as am m name (item_code x) x)"

text \<open>\<^verbatim>\<open>CAddInt8\<close> leaves out a value that is the default.\<close>

definition value_CAddInt8 :: "memory \<Rightarrow> Message \<Rightarrow> u8 list \<Rightarrow> u8 \<Rightarrow> status \<times> Message" where
  "value_CAddInt8 am m name v = (if v = 0 then (B_NO_ERROR, m) else value_add am m name (Int8Item v))"

text \<open>
  \<^verbatim>\<open>AddData\<close> of bytes for a type code of values or of byte buffers: the items that the bytes are.
\<close>

definition data_items :: "host \<Rightarrow> u32 \<Rightarrow> u8 list \<Rightarrow> Message DataItem list" where
  "data_items h tc bs =
     (let k = GetElementSize tc in
      if k = 0 then [FlatItem (Some bs)]
      else map (\<lambda>i. host_item (h_big h) (new_class tc) (take k (drop (i * k) bs))) [0..<length bs div k])"

fun value_add_items :: "memory \<Rightarrow> Message \<Rightarrow> u8 list \<Rightarrow> u32 \<Rightarrow> Message DataItem list \<Rightarrow> status \<times> Message" where
  "value_add_items am m name tc [] = (B_NO_ERROR, m)"
| "value_add_items am m name tc (x # xs) =
     (let (st, m') = value_add_as am m name tc x in
      if st = B_NO_ERROR then value_add_items am m' name tc xs else (B_ERROR, m'))"

definition value_AddData :: "host \<Rightarrow> memory \<Rightarrow> Message \<Rightarrow> u8 list \<Rightarrow> u32 \<Rightarrow> u8 list \<Rightarrow> status \<times> Message" where
  "value_AddData h am m name tc bs =
     (if bs = [] then (B_ERROR, m)
      else if GetElementSize tc > 0 \<and> length bs mod GetElementSize tc \<noteq> 0 then (B_ERROR, m)
      else if GetElementSize tc = 0 \<and> \<not> (mem_obj am \<and> mem_bytes am (length bs)) then (B_ERROR, m)
      else value_add_items am m name tc (data_items h tc bs))"

subsection \<open>The values and the objects\<close>

lemma find_array_view:
  "find_array (m_entries (view w k)) name tc = map_option (array_at w) (ref_GetArray w k name tc)"
  unfolding find_array_def ref_GetArray_def map_of_view by (cases "map_of (entries_of w k) name") simp_all

lemma add_data_value:
  assumes w: "world_ok w" "k < objects w"
    and priv: "\<And>r. map_of (entries_of w k) name = Some r \<Longrightarrow> private_to w k name r"
    and x: "stored_item big (new_class tc) p = Ok x" "tc \<noteq> B_ANY_TYPE" "sz = class_sizeof (new_class tc)"
  shows "\<exists>w'. add_data am big w k name tc p sz False = Ok (fst (value_add_as am (view w k) name tc x), w')
    \<and> objects w' = objects w \<and> view w' k = snd (value_add_as am (view w k) name tc x)
    \<and> (\<forall>l < objects w. l \<noteq> k \<longrightarrow> view w' l = view w l)"
proof (cases "map_of (entries_of w k) name")
  case (Some r)
  note r = world_ok_ref [OF w Some]
  note ok = world_ok_array [OF w(1) r]
  let ?a = "array_at w r"
  show ?thesis
  proof (cases "class_code (da_class ?a) = tc")
    case False
    then have "ref_GetArray w k name tc = None"
      using Some x(2) by (simp add: ref_GetArray_def array_matches_def Array_TypeCode_def)
    moreover have "get_or_create am (m_entries (view w k)) name tc = None"
      unfolding get_or_create_def find_array_view using calculation Some by (simp add: map_of_view del: view_sel)
    ultimately show ?thesis
      using Some by (simp add: add_data_def GetOrCreateArray_def value_add_as_def)
  next
    case True
    then have c: "da_class ?a = new_class tc" using ok by (simp add: array_ok_def)
    have g: "get_or_create am (m_entries (view w k)) name tc = Some (m_entries (view w k), new_class tc)"
      unfolding get_or_create_def find_array_view ref_GetArray_Some [OF Some True] by (simp add: c)
    have at: "map_of (m_entries (view w k)) name = Some ?a" by (simp add: map_of_view Some del: view_sel)
    have add: "Array_AddDataItem am big p sz ?a =
        Ok (if mem_items am (Suc (length (da_items ?a))) then (B_NO_ERROR, DataArray (da_class ?a) (da_items ?a @ [x]))
            else (B_ERROR, ?a))"
      by (simp add: Array_AddDataItem_def x c)
    have same: "put_array w r ?a = w" by (simp add: put_array_def array_at_def)
    have "(if n = name then DataArray (da_class ?a) (da_items ?a @ [x]) else b) =
        (if n = name then DataArray (da_class b) (da_items ?a @ [x]) else b)"
      if "(n, b) \<in> set (m_entries (view w k))" for n b
    proof -
      have "distinct (map fst (m_entries (view w k)))"
        using world_ok_entries(1) [OF w] by (simp add: comp_def split_def)
      then have "map_of (m_entries (view w k)) n = Some b" using that by simp
      then show ?thesis using at by auto
    qed
    then have "map (\<lambda>(n, b). (n, if n = name then DataArray (da_class ?a) (da_items ?a @ [x]) else b)) (m_entries (view w k)) =
        set_items (m_entries (view w k)) name (da_items ?a @ [x])"
      unfolding set_items_def by (intro map_cong [OF refl]) (auto simp del: view_sel)
    then have "view (put_array w r (DataArray (da_class ?a) (da_items ?a @ [x]))) k =
        Msg (what_of w k) (set_items (m_entries (view w k)) name (da_items ?a @ [x]))"
      by (simp only: view_private_self [OF priv [OF Some] r w(2) Some world_ok_entries(1) [OF w]])
    moreover have "view w k = Msg (what_of w k) (m_entries (view w k))" by (simp add: view_def)
    ultimately show ?thesis
      using view_private_other [OF priv [OF Some] r]
      by (simp add: add_data_def GetOrCreateArray_found [OF Some True] add same value_add_as_def g at del: view_sel)
        (simp add: view_def)
  qed
next
  case None
  let ?a = "DataArray (new_class tc) [] :: Message DataArray"
  let ?m = "m_entries (view w k)"
  have no: "ref_GetArray w k name tc = None" "map_of ?m name = None"
    by (simp_all add: ref_GetArray_def map_of_view None del: view_sel)
  have len: "length ?m = length (entries_of w k)" by simp
  have g: "get_or_create am ?m name tc =
      (if \<not> mem_obj am \<or> \<not> mem_entries am (Suc (length (entries_of w k))) then None
       else Some (?m @ [(name, ?a)], new_class tc))"
    unfolding get_or_create_def find_array_view no by (simp add: no(2) len del: view_sel)
  show ?thesis
  proof (cases "mem_obj am \<and> mem_entries am (Suc (length (entries_of w k)))")
    case False
    obtain r w1 where new: "new_array w ?a = (r, w1)" by fastforce
    have w1: "entries_of w1 l = entries_of w l" "what_of w1 l = what_of w l" "objects w1 = objects w" for l
      using new by (auto simp: new_array_def entries_of_def what_of_def)
    have "view w1 l = view w l" if "l < objects w" for l
      using w(1) that new by (rule view_new_array)
    then show ?thesis
      using False w1(1,3) None w(2) g
      by (auto simp: add_data_def GetOrCreateArray_def no new put_entry_def value_add_as_def simp del: view_sel)
  next
    case True
    obtain r w1 where new: "new_array w ?a = (r, w1)" by fastforce
    have w1: "entries_of w1 l = entries_of w l" "what_of w1 l = what_of w l" "objects w1 = objects w" for l
      using new by (auto simp: new_array_def entries_of_def what_of_def)
    have r: "r = length (w_arrays w)" "r < length (w_arrays w1)" "array_at w1 r = ?a"
      using new new_array_ref [OF new] by (auto simp: new_array_def)
    let ?w2 = "set_entries w1 k (entries_of w k @ [(name, r)])"
    have create: "GetOrCreateArray am w k name tc = (Some r, ?w2)"
      using True None by (simp add: GetOrCreateArray_def no new put_entry_def w1)
    define b where "b = (if mem_items am (Suc 0) then DataArray (new_class tc) [x] else ?a)"
    have add: "add_data am big w k name tc p sz False =
        Ok (if mem_items am (Suc 0) then B_NO_ERROR else B_ERROR, put_array ?w2 r b)"
      by (simp add: add_data_def create r(3) Array_AddDataItem_def x b_def)
    have old: "array_at (put_array ?w2 r b) q = array_at w q" if "q < length (w_arrays w)" for q
      using that r new by (auto simp: array_at_set) (auto simp: new_array_def array_at_def nth_append)
    have kept: "map (\<lambda>(n, q). (n, array_at (put_array ?w2 r b) q)) (entries_of w l) = m_entries (view w l)"
      if "l < objects w" for l
      using entries_in_range [OF w(1) that] by (auto simp: old)
    have last: "array_at (put_array ?w2 r b) r = b" using r by (simp add: array_at_set)
    have "view (put_array ?w2 r b) k = Msg (what_of w k) (?m @ [(name, b)])"
      using w(2) kept [OF w(2)] last by (simp add: view_def w1)
    moreover have "view (put_array ?w2 r b) l = view w l" if "l < objects w" "l \<noteq> k" for l
      using w(2) kept [OF that(1)] that by (simp add: view_def w1)
    moreover have "set_items (?m @ [(name, ?a)]) name [x] = ?m @ [(name, DataArray (new_class tc) [x])]"
    proof -
      have "n \<noteq> name" if "(n, c) \<in> set ?m" for n c using weak_map_of_SomeI [OF that] no(2) by (metis option.distinct(1))
      then have "map (\<lambda>(n, c). (n, if n = name then DataArray (da_class c) [x] else c)) ?m = ?m"
        by (intro map_idI) (auto simp del: view_sel)
      then show ?thesis by (simp add: set_items_def del: view_sel)
    qed
    moreover have at: "map_of (?m @ [(name, ?a)]) name = Some ?a" using no(2) by (simp add: map_add_def del: view_sel)
    have "value_add_as am (view w k) name tc x =
        (if mem_items am (Suc 0) then B_NO_ERROR else B_ERROR, Msg (m_what (view w k)) (?m @ [(name, b)]))"
      if "set_items (?m @ [(name, ?a)]) name [x] = ?m @ [(name, DataArray (new_class tc) [x])]"
      using True that no(2) by (simp add: value_add_as_def g b_def map_add_def del: view_sel)
    ultimately show ?thesis using add w1(3) by (simp del: view_sel) (simp add: view_def)
  qed
qed

text \<open>\<^verbatim>\<open>AddString\<close> and the other methods that add a value, with every failure of theirs.\<close>

lemma Message_Add_value:
  assumes "world_ok w" "k < objects w" "\<And>r. map_of (entries_of w k) name = Some r \<Longrightarrow> private_to w k name r"
  shows "\<exists>w'. Message_Add am big w k name x = Ok (fst (value_add am (view w k) name x), w')
    \<and> objects w' = objects w \<and> view w' k = snd (value_add am (view w k) name x)
    \<and> (\<forall>l < objects w. l \<noteq> k \<longrightarrow> view w' l = view w l)"
proof (cases "x = TagItem None \<or> is_null_item x")
  case True
  then show ?thesis by (auto simp: Message_Add_def value_add_def)
next
  case False
  have "stored_item big (new_class (item_code x)) (ItemPtr x) = Ok x"
    using item_has_class [of "new_class (item_code x)" x] by (simp add: stored_item_def)
  from add_data_value [OF assms this item_code_not_any refl] show ?thesis
    using False by (simp add: Message_Add_def value_add_def)
qed

end
