(* ===== verification/Filter_Model.thy ===== *)
theory Filter_Model
  imports Message_Find
begin

section \<open>Query filters\<close>

text \<open>
  The classes of \<^verbatim>\<open>source/muscle/regex/QueryFilter.cpp\<close> and \<^verbatim>\<open>QueryFilter.h\<close>: a filter is a tree of
  objects that says whether a Message matches.  This theory has their data and \<^verbatim>\<open>Matches\<close>; how they are
  saved in Messages and made from them is in theory \<open>Filter_Archive\<close>.
\<close>

subsection \<open>Comparing bytes and strings\<close>

text \<open>\<^verbatim>\<open>memcmp\<close> of as many bytes as both have, and \<^verbatim>\<open>MemMem\<close>, which gives a position.\<close>

fun byte_order :: "u8 list \<Rightarrow> u8 list \<Rightarrow> int" where
  "byte_order (x # xs) (y # ys) = (if x = y then byte_order xs ys else if x < y then -1 else 1)"
| "byte_order _ _ = 0"

fun MemMem_loop :: "u8 list \<Rightarrow> u8 list \<Rightarrow> nat \<Rightarrow> nat \<Rightarrow> nat option" where
  "MemMem_loop lookIn lookFor i 0 = None"
| "MemMem_loop lookIn lookFor i (Suc n) =
     (if lookIn ! i = hd lookFor \<and> byte_order (drop i lookIn) lookFor = 0 then Some i
      else MemMem_loop lookIn lookFor (Suc i) n)"

definition MemMem :: "u8 list \<Rightarrow> u8 list \<Rightarrow> nat option" where
  "MemMem lookIn lookFor =
     (if length lookFor = 0 then Some 0
      else if length lookFor = length lookIn then if byte_order lookIn lookFor = 0 then Some 0 else None
      else if length lookFor < length lookIn then MemMem_loop lookIn lookFor 0 (1 + length lookIn - length lookFor)
      else None)"

text \<open>
  The methods of \<^verbatim>\<open>String\<close> that the filters call, on the characters of the strings: those of the C library
  stop at the first zero.  Letters are those of ASCII.
\<close>

definition c_chars :: "u8 list \<Rightarrow> u8 list" where "c_chars s = takeWhile (\<lambda>c. c \<noteq> 0) s"

definition str_order :: "u8 list \<Rightarrow> u8 list \<Rightarrow> int" where
  "str_order s t = byte_order (c_chars s @ [0]) (c_chars t @ [0])"

definition to_lower :: "u8 \<Rightarrow> u8" where "to_lower c = (if 65 \<le> c \<and> c \<le> 90 then c + 32 else c)"
definition ToLowerCase :: "u8 list \<Rightarrow> u8 list" where "ToLowerCase s = map to_lower s"

definition String_equals :: "u8 list \<Rightarrow> u8 list \<Rightarrow> bool" where
  "String_equals s t \<longleftrightarrow> length s = length t \<and> str_order s t = 0"

definition CompareToIgnoreCase :: "u8 list \<Rightarrow> u8 list \<Rightarrow> int" where
  "CompareToIgnoreCase s t = str_order (ToLowerCase s) (ToLowerCase t)"

definition String_StartsWith :: "u8 list \<Rightarrow> u8 list \<Rightarrow> bool" where
  "String_StartsWith s prefix \<longleftrightarrow>
     length s \<ge> length prefix
     \<and> byte_order (take (length prefix) (c_chars s @ [0])) (take (length prefix) (c_chars prefix @ [0])) = 0"

definition String_EndsWith :: "u8 list \<Rightarrow> u8 list \<Rightarrow> bool" where
  "String_EndsWith s suffix \<longleftrightarrow>
     (if length s < length suffix then False else str_order (drop (length s - length suffix) s) suffix = 0)"

text \<open>\<^verbatim>\<open>IndexOf\<close>: the empty string has no index in an empty string.\<close>

definition String_IndexOf :: "u8 list \<Rightarrow> u8 list \<Rightarrow> int" where
  "String_IndexOf s t =
     (if 0 < length s then
        (case MemMem (c_chars s) (c_chars t) of None \<Rightarrow> -1 | Some i \<Rightarrow> sint (word_of_nat i :: u32))
      else -1)"

subsection \<open>Comparing values\<close>

text \<open>The order of floats and doubles, from their bits; nothing is less or greater than a NaN.\<close>

definition float_key :: "u32 \<Rightarrow> int" where
  "float_key v = (if v AND 0x80000000 = 0 then uint v else - uint (v AND 0x7fffffff))"
definition double_key :: "u64 \<Rightarrow> int" where
  "double_key v = (if v AND 0x8000000000000000 = 0 then uint v else - uint (v AND 0x7fffffffffffffff))"

definition float_less :: "u32 \<Rightarrow> u32 \<Rightarrow> bool" where
  "float_less a b \<longleftrightarrow> \<not> is_nan32 a \<and> \<not> is_nan32 b \<and> float_key a < float_key b"
definition double_less :: "u64 \<Rightarrow> u64 \<Rightarrow> bool" where
  "double_less a b \<longleftrightarrow> \<not> is_nan64 a \<and> \<not> is_nan64 b \<and> double_key a < double_key b"

text \<open>
  \<^verbatim>\<open>==\<close> and \<^verbatim>\<open><\<close> of two values of one type.  Points are compared as \<^verbatim>\<open>Tuple\<close>s, one
  coordinate after the other.
\<close>

definition value_equal :: "Message DataItem \<Rightarrow> Message DataItem \<Rightarrow> bool" where
  "value_equal x y \<longleftrightarrow> item_equal (=) x y"

definition value_less :: "Message DataItem \<Rightarrow> Message DataItem \<Rightarrow> bool" where
  "value_less x y \<longleftrightarrow>
     (case x of
        BoolItem a \<Rightarrow> (case y of BoolItem b \<Rightarrow> \<not> a \<and> b | _ \<Rightarrow> False)
      | Int8Item a \<Rightarrow> (case y of Int8Item b \<Rightarrow> sint a < sint b | _ \<Rightarrow> False)
      | Int16Item a \<Rightarrow> (case y of Int16Item b \<Rightarrow> sint a < sint b | _ \<Rightarrow> False)
      | Int32Item a \<Rightarrow> (case y of Int32Item b \<Rightarrow> sint a < sint b | _ \<Rightarrow> False)
      | Int64Item a \<Rightarrow> (case y of Int64Item b \<Rightarrow> sint a < sint b | _ \<Rightarrow> False)
      | FloatItem a \<Rightarrow> (case y of FloatItem b \<Rightarrow> float_less a b | _ \<Rightarrow> False)
      | DoubleItem a \<Rightarrow> (case y of DoubleItem b \<Rightarrow> double_less a b | _ \<Rightarrow> False)
      | PointItem a b \<Rightarrow>
          (case y of
             PointItem c d \<Rightarrow>
               if float_less a c then True else if float_less c a then False
               else if float_less b d then True else False
           | _ \<Rightarrow> False)
      | _ \<Rightarrow> False)"

text \<open>\<^verbatim>\<open><=\<close> is that of the machine for numbers, and for Points the negation of \<^verbatim>\<open>></\<close>.\<close>

definition value_less_eq :: "Message DataItem \<Rightarrow> Message DataItem \<Rightarrow> bool" where
  "value_less_eq x y \<longleftrightarrow>
     (case x of PointItem _ _ \<Rightarrow> \<not> value_less y x | _ \<Rightarrow> value_less x y \<or> value_equal x y)"

subsection \<open>The filters\<close>

text \<open>The \<^verbatim>\<open>NumericQueryFilter\<close> classes: \<^verbatim>\<open>RectQueryFilter\<close> is the one of \<^verbatim>\<open>Point\<close> with \<^verbatim>\<open>B_RECT_TYPE\<close>.\<close>

datatype NumericType = NBool | NDouble | NFloat | NInt64 | NInt32 | NInt16 | NInt8 | NPoint | NRect

fun DataType :: "NumericType \<Rightarrow> ArrayClass" where
  "DataType NBool = BoolArray" | "DataType NDouble = DoubleArray" | "DataType NFloat = FloatArray"
| "DataType NInt64 = Int64Array" | "DataType NInt32 = Int32Array" | "DataType NInt16 = Int16Array"
| "DataType NInt8 = Int8Array" | "DataType NPoint = PointArray" | "DataType NRect = PointArray"

fun DataTypeCode :: "NumericType \<Rightarrow> u32" where
  "DataTypeCode NBool = B_BOOL_TYPE" | "DataTypeCode NDouble = B_DOUBLE_TYPE"
| "DataTypeCode NFloat = B_FLOAT_TYPE" | "DataTypeCode NInt64 = B_INT64_TYPE"
| "DataTypeCode NInt32 = B_INT32_TYPE" | "DataTypeCode NInt16 = B_INT16_TYPE"
| "DataTypeCode NInt8 = B_INT8_TYPE" | "DataTypeCode NPoint = B_POINT_TYPE"
| "DataTypeCode NRect = B_RECT_TYPE"

text \<open>
  The data of \<^verbatim>\<open>ValueQueryFilter\<close>, \<^verbatim>\<open>NumericQueryFilter\<close>, \<^verbatim>\<open>StringQueryFilter\<close> and \<^verbatim>\<open>RawDataQueryFilter\<close>.
  The two members \<^verbatim>\<open>_assumeDefault\<close> and \<^verbatim>\<open>_default\<close> are one option.  A reference to a byte buffer is
  NULL or to a buffer, which has memory or not, and bytes.
\<close>

record value_filter =
  vf_fieldName :: "u8 list"
  vf_index :: u32

record numeric_filter =
  nf_value :: "Message DataItem"
  nf_mask :: "Message DataItem"
  nf_op :: u8
  nf_maskOp :: u8
  nf_default :: "Message DataItem option"

record string_filter =
  sf_value :: "u8 list"
  sf_op :: u8
  sf_default :: "u8 list option"

datatype BufferRef = NullRef | BufferRef (br_memory: bool) (br_bytes: "u8 list")

record raw_filter =
  rf_value :: BufferRef
  rf_op :: u8
  rf_typeCode :: u32
  rf_default :: BufferRef

datatype QueryFilter =
    WhatCodeQueryFilter u32 u32
  | ValueExistsQueryFilter value_filter u32
  | NumericQueryFilter NumericType value_filter numeric_filter
  | StringQueryFilter value_filter string_filter
  | MessageQueryFilter value_filter "QueryFilter option"
  | RawDataQueryFilter value_filter raw_filter
  | NandNotQueryFilter "QueryFilter option list" u32
  | AndOrQueryFilter "QueryFilter option list" u32
  | XorQueryFilter "QueryFilter option list"

definition MUSCLE_NO_LIMIT :: u32 where "MUSCLE_NO_LIMIT = 0xffffffff"

subsection \<open>Matches\<close>

text \<open>
  \<^verbatim>\<open>NQFDoMaskOp\<close> of an integer type, and of \<^verbatim>\<open>bool\<close>: there \<^verbatim>\<open>~\<close> is that of an \<^verbatim>\<open>int\<close> that is zero or one,
  which is never zero.  For the other types it gives the default value.
\<close>

definition mask_word :: "u8 \<Rightarrow> 'a::len word \<Rightarrow> 'a word \<Rightarrow> 'a word" where
  "mask_word maskOp msgVal mval =
     (if maskOp = 0 then msgVal
      else if maskOp = 1 then msgVal AND mval
      else if maskOp = 2 then msgVal OR mval
      else if maskOp = 3 then msgVal XOR mval
      else if maskOp = 4 then NOT (msgVal AND mval)
      else if maskOp = 5 then NOT (msgVal OR mval)
      else if maskOp = 6 then NOT (msgVal XOR mval)
      else msgVal)"

definition mask_bool :: "u8 \<Rightarrow> bool \<Rightarrow> bool \<Rightarrow> bool" where
  "mask_bool maskOp msgVal mval =
     (if maskOp = 0 then msgVal
      else if maskOp = 1 then msgVal \<and> mval
      else if maskOp = 2 then msgVal \<or> mval
      else if maskOp = 3 then msgVal \<noteq> mval
      else if maskOp = 4 \<or> maskOp = 5 \<or> maskOp = 6 then True
      else msgVal)"

definition NQFDoMaskOp :: "u8 \<Rightarrow> Message DataItem \<Rightarrow> Message DataItem \<Rightarrow> Message DataItem" where
  "NQFDoMaskOp maskOp msgVal mval =
     (case msgVal of
        BoolItem a \<Rightarrow> (case mval of BoolItem b \<Rightarrow> BoolItem (mask_bool maskOp a b) | _ \<Rightarrow> msgVal)
      | Int8Item a \<Rightarrow> (case mval of Int8Item b \<Rightarrow> Int8Item (mask_word maskOp a b) | _ \<Rightarrow> msgVal)
      | Int16Item a \<Rightarrow> (case mval of Int16Item b \<Rightarrow> Int16Item (mask_word maskOp a b) | _ \<Rightarrow> msgVal)
      | Int32Item a \<Rightarrow> (case mval of Int32Item b \<Rightarrow> Int32Item (mask_word maskOp a b) | _ \<Rightarrow> msgVal)
      | Int64Item a \<Rightarrow> (case mval of Int64Item b \<Rightarrow> Int64Item (mask_word maskOp a b) | _ \<Rightarrow> msgVal)
      | FloatItem _ \<Rightarrow> FloatItem 0
      | DoubleItem _ \<Rightarrow> DoubleItem 0
      | PointItem _ _ \<Rightarrow> PointItem 0 0
      | _ \<Rightarrow> msgVal)"

definition NumericMatchesAux :: "numeric_filter \<Rightarrow> Message DataItem \<Rightarrow> bool" where
  "NumericMatchesAux nf v =
     (if nf_op nf = 0 then value_equal v (nf_value nf)
      else if nf_op nf = 1 then value_less v (nf_value nf)
      else if nf_op nf = 2 then value_less (nf_value nf) v
      else if nf_op nf = 3 then value_less_eq v (nf_value nf)
      else if nf_op nf = 4 then value_less_eq (nf_value nf) v
      else if nf_op nf = 5 then \<not> value_equal v (nf_value nf)
      else False)"

text \<open>The object at the pointer, read as one of the filter's type: a rectangle as a Point.\<close>

definition as_type :: "NumericType \<Rightarrow> Message DataItem \<Rightarrow> Message DataItem" where
  "as_type n x = (case x of RectItem l t r b \<Rightarrow> if n = NRect then PointItem l t else x | _ \<Rightarrow> x)"

definition NumericMatches :: "host \<Rightarrow> NumericType \<Rightarrow> value_filter \<Rightarrow> numeric_filter \<Rightarrow> Message \<Rightarrow> bool outcome" where
  "NumericMatches h n vf nf msg =
     obind (Message_FindData h msg (vf_fieldName vf) (DataTypeCode n) (vf_index vf)) (\<lambda>r.
     let matches = (\<lambda>v. if nf_maskOp nf = 0 then NumericMatchesAux nf v
                        else NumericMatchesAux nf (NQFDoMaskOp (nf_maskOp nf) v (nf_mask nf))) in
     case r of
       Some (ItemPtr x, _) \<Rightarrow> Ok (matches (as_type n x))
     | Some _ \<Rightarrow> Fault
     | None \<Rightarrow> (case nf_default nf of None \<Rightarrow> Ok False | Some d \<Rightarrow> Ok (matches d)))"

text \<open>
  \<^verbatim>\<open>DoMatch\<close>: a \<^verbatim>\<open>StringMatcher\<close> for the filter's pattern is made, and asked about the string; the parameter
  stands for both, and for the answer without memory for it.
\<close>

definition DoMatch :: "host \<Rightarrow> u8 \<Rightarrow> u8 list \<Rightarrow> u8 list \<Rightarrow> bool outcome" where
  "DoMatch h op v s = (if op = 24 then h_match h True v s else h_match h False v s)"

definition StringMatchesAux :: "host \<Rightarrow> u8 \<Rightarrow> u8 list \<Rightarrow> u8 list \<Rightarrow> bool outcome" where
  "StringMatchesAux h op v s =
     (if op = 0 then Ok (String_equals s v)
      else if op = 1 then Ok (str_order s v < 0)
      else if op = 2 then Ok (str_order s v > 0)
      else if op = 3 then Ok (str_order s v \<le> 0)
      else if op = 4 then Ok (str_order s v \<ge> 0)
      else if op = 5 then Ok (\<not> String_equals s v)
      else if op = 6 then Ok (String_StartsWith s v)
      else if op = 7 then Ok (String_EndsWith s v)
      else if op = 8 then Ok (String_IndexOf s v \<ge> 0)
      else if op = 9 then Ok (String_StartsWith v s)
      else if op = 10 then Ok (String_EndsWith v s)
      else if op = 11 then Ok (String_IndexOf v s \<ge> 0)
      else if op = 12 then Ok (CompareToIgnoreCase s v = 0)
      else if op = 13 then Ok (CompareToIgnoreCase s v < 0)
      else if op = 14 then Ok (CompareToIgnoreCase s v > 0)
      else if op = 15 then Ok (CompareToIgnoreCase s v \<le> 0)
      else if op = 16 then Ok (CompareToIgnoreCase s v \<ge> 0)
      else if op = 17 then Ok (CompareToIgnoreCase s v \<noteq> 0)
      else if op = 18 then Ok (String_StartsWith (ToLowerCase s) (ToLowerCase v))
      else if op = 19 then Ok (String_EndsWith (ToLowerCase s) (ToLowerCase v))
      else if op = 20 then Ok (String_IndexOf (ToLowerCase s) (ToLowerCase v) \<ge> 0)
      else if op = 21 then Ok (String_StartsWith v s)
      else if op = 22 then Ok (String_EndsWith v s)
      else if op = 23 then Ok (String_IndexOf v s \<ge> 0)
      else if op = 24 then DoMatch h op v s
      else if op = 25 then DoMatch h op v s
      else Ok False)"

definition StringMatches :: "host \<Rightarrow> value_filter \<Rightarrow> string_filter \<Rightarrow> Message \<Rightarrow> bool outcome" where
  "StringMatches h vf sf msg =
     (case Message_FindString msg (vf_fieldName vf) (vf_index vf) of
        Some s \<Rightarrow> StringMatchesAux h (sf_op sf) (sf_value sf) s
      | None \<Rightarrow>
          (case sf_default sf of
             None \<Rightarrow> Ok False
           | Some s \<Rightarrow> StringMatchesAux h (sf_op sf) (sf_value sf) s))"

text \<open>The comparison of \<^verbatim>\<open>RawDataQueryFilter\<close>: \<open>hisMemory\<close> says that his pointer is not NULL.\<close>

definition RawMatchesAux :: "u8 \<Rightarrow> u8 list \<Rightarrow> bool \<Rightarrow> u8 list \<Rightarrow> bool" where
  "RawMatchesAux op my hisMemory his =
     (let mret = byte_order his my; n = length my; k = length his; clen = min n k in
      if op = 0 then k = n \<and> byte_order my his = 0
      else if op = 1 then if mret < 0 then True else if mret = 0 then k < n else False
      else if op = 2 then if mret > 0 then True else if mret = 0 then k > n else False
      else if op = 3 then if mret \<le> 0 then True else if mret = 0 then k \<le> n else False
      else if op = 4 then if mret \<ge> 0 then True else if mret = 0 then k \<ge> n else False
      else if op = 5 then k \<noteq> n \<or> byte_order my his \<noteq> 0
      else if op = 6 then n \<le> k \<and> byte_order my his = 0
      else if op = 7 then n \<le> k \<and> byte_order (drop (n - clen) my) (drop (k - clen) his) = 0
      else if op = 8 then (case MemMem his my of None \<Rightarrow> False | Some i \<Rightarrow> hisMemory)
      else if op = 9 then k \<le> n \<and> byte_order his my = 0
      else if op = 10 then k \<le> n \<and> byte_order (drop (k - clen) his) (drop (n - clen) my) = 0
      else if op = 11 then MemMem my his \<noteq> None
      else False)"

definition RawMatches :: "host \<Rightarrow> value_filter \<Rightarrow> raw_filter \<Rightarrow> Message \<Rightarrow> bool outcome" where
  "RawMatches h vf rf msg =
     obind (Message_FindData h msg (vf_fieldName vf) (rf_typeCode rf) 0) (\<lambda>r.
     let compare = (\<lambda>hisMemory his.
           case rf_value rf of
             NullRef \<Rightarrow> Ok False
           | BufferRef memory my \<Rightarrow> Ok (if memory then RawMatchesAux (rf_op rf) my hisMemory his else False)) in
     case r of
       Some (p, numBytes) \<Rightarrow> compare True (take (unat numBytes) (pointer_bytes h p))
     | None \<Rightarrow> (case rf_default rf of NullRef \<Rightarrow> Ok False | BufferRef memory bs \<Rightarrow> compare memory bs))"

text \<open>
  The loops over the children: \<open>m\<close> is \<^verbatim>\<open>Matches\<close> of a child, and a NULL child does not match.
\<close>

fun AndOr_loop :: "('f \<Rightarrow> bool outcome) \<Rightarrow> u32 \<Rightarrow> u32 \<Rightarrow> 'f option list \<Rightarrow> u32 \<Rightarrow> u32 \<Rightarrow> bool outcome" where
  "AndOr_loop m threshold numKids [] i matchCount = Ok False"
| "AndOr_loop m threshold numKids (kid # kids) i matchCount =
     (if threshold - matchCount > numKids - i then Ok False
      else
        obind (case kid of None \<Rightarrow> Ok False | Some f \<Rightarrow> m f) (\<lambda>b.
        if b then
          if matchCount + 1 = threshold then Ok True
          else AndOr_loop m threshold numKids kids (i + 1) (matchCount + 1)
        else AndOr_loop m threshold numKids kids (i + 1) matchCount))"

fun NandNot_loop :: "('f \<Rightarrow> bool outcome) \<Rightarrow> u32 \<Rightarrow> u32 \<Rightarrow> 'f option list \<Rightarrow> u32 \<Rightarrow> u32 \<Rightarrow> bool outcome" where
  "NandNot_loop m threshold numKids [] i matchCount = Ok (matchCount < numKids)"
| "NandNot_loop m threshold numKids (kid # kids) i matchCount =
     (if threshold - matchCount > numKids - i then Ok True
      else
        obind (case kid of None \<Rightarrow> Ok False | Some f \<Rightarrow> m f) (\<lambda>b.
        if b then
          if matchCount + 1 > threshold then Ok False
          else NandNot_loop m threshold numKids kids (i + 1) (matchCount + 1)
        else NandNot_loop m threshold numKids kids (i + 1) matchCount))"

fun Xor_loop :: "('f \<Rightarrow> bool outcome) \<Rightarrow> 'f option list \<Rightarrow> u32 \<Rightarrow> bool outcome" where
  "Xor_loop m [] matchCount = Ok (matchCount mod 2 \<noteq> 0)"
| "Xor_loop m (kid # kids) matchCount =
     obind (case kid of None \<Rightarrow> Ok False | Some f \<Rightarrow> m f) (\<lambda>b.
     Xor_loop m kids (if b then matchCount + 1 else matchCount))"

lemma AndOr_loop_cong [fundef_cong]:
  assumes "t = t'" "n = n'" "kids = kids'" "i = i'" "c = c'" "\<And>f. Some f \<in> set kids' \<Longrightarrow> m f = m' f"
  shows "AndOr_loop m t n kids i c = AndOr_loop m' t' n' kids' i' c'"
proof -
  have "(\<And>f. Some f \<in> set ks \<Longrightarrow> m f = m' f) \<Longrightarrow> AndOr_loop m t n ks i c = AndOr_loop m' t n ks i c" for ks i c
    by (induction ks arbitrary: i c) (auto split: option.splits cong: if_cong)
  then show ?thesis using assms by simp
qed

lemma NandNot_loop_cong [fundef_cong]:
  assumes "t = t'" "n = n'" "kids = kids'" "i = i'" "c = c'" "\<And>f. Some f \<in> set kids' \<Longrightarrow> m f = m' f"
  shows "NandNot_loop m t n kids i c = NandNot_loop m' t' n' kids' i' c'"
proof -
  have "(\<And>f. Some f \<in> set ks \<Longrightarrow> m f = m' f) \<Longrightarrow> NandNot_loop m t n ks i c = NandNot_loop m' t n ks i c" for ks i c
    by (induction ks arbitrary: i c) (auto split: option.splits cong: if_cong)
  then show ?thesis using assms by simp
qed

lemma Xor_loop_cong [fundef_cong]:
  assumes "kids = kids'" "c = c'" "\<And>f. Some f \<in> set kids' \<Longrightarrow> m f = m' f"
  shows "Xor_loop m kids c = Xor_loop m' kids' c'"
proof -
  have "(\<And>f. Some f \<in> set ks \<Longrightarrow> m f = m' f) \<Longrightarrow> Xor_loop m ks c = Xor_loop m' ks c" for ks c
    by (induction ks arbitrary: c) (auto split: option.splits cong: if_cong)
  then show ?thesis using assms by simp
qed

lemma kid_size [termination_simp]: "Some f \<in> set kids \<Longrightarrow> size f < Suc (size_list (size_option size) kids)"
  by (induction kids) auto

text \<open>
  \<^verbatim>\<open>Matches\<close>: \<open>msg\<close> is the reference to the Message, \<open>None\<close> for a NULL one, which a filter that looks at
  it takes for a Message.
\<close>

fun Matches :: "host \<Rightarrow> QueryFilter \<Rightarrow> Message option \<Rightarrow> bool outcome" where
  "Matches h (WhatCodeQueryFilter lo hi) msg =
     (case msg of None \<Rightarrow> Fault | Some m \<Rightarrow> Ok (m_what m \<ge> lo \<and> m_what m \<le> hi))"
| "Matches h (ValueExistsQueryFilter vf tc) msg =
     (case msg of
        None \<Rightarrow> Fault
      | Some m \<Rightarrow> obind (Message_FindData h m (vf_fieldName vf) tc 0) (\<lambda>r. Ok (r \<noteq> None)))"
| "Matches h (NumericQueryFilter n vf nf) msg =
     (case msg of None \<Rightarrow> Fault | Some m \<Rightarrow> NumericMatches h n vf nf m)"
| "Matches h (StringQueryFilter vf sf) msg =
     (case msg of None \<Rightarrow> Fault | Some m \<Rightarrow> StringMatches h vf sf m)"
| "Matches h (MessageQueryFilter vf child) msg =
     (case msg of
        None \<Rightarrow> Fault
      | Some m \<Rightarrow>
          (case Message_FindMessage m (vf_fieldName vf) (vf_index vf) of
             None \<Rightarrow> Ok False
           | Some subMsg \<Rightarrow> (case child of None \<Rightarrow> Ok True | Some f \<Rightarrow> Matches h f subMsg)))"
| "Matches h (RawDataQueryFilter vf rf) msg =
     (case msg of None \<Rightarrow> Fault | Some m \<Rightarrow> RawMatches h vf rf m)"
| "Matches h (NandNotQueryFilter kids maxMatches) msg =
     (let numKids = word_of_nat (length kids) in
      NandNot_loop (\<lambda>f. Matches h f msg) (min maxMatches numKids) numKids kids 0 0)"
| "Matches h (AndOrQueryFilter kids minMatches) msg =
     (let numKids = word_of_nat (length kids) in
      AndOr_loop (\<lambda>f. Matches h f msg) (min minMatches numKids) numKids kids 0 0)"
| "Matches h (XorQueryFilter kids) msg = Xor_loop (\<lambda>f. Matches h f msg) kids 0"

end
