(* ===== verification/Filter_Archive.thy ===== *)
theory Filter_Archive
  imports Filter_Model
begin

section \<open>Query filters in Messages\<close>

text \<open>
  \<^verbatim>\<open>SaveToArchive\<close>, \<^verbatim>\<open>SetFromArchive\<close> and the factory of \<^verbatim>\<open>source/muscle/regex/QueryFilter.cpp\<close>: a filter
  is saved in a Message, with its children in sub-Messages, and made again from one that may come from
  anywhere.  The archive is a Message of its own (theory \<open>Message_Find\<close>); memory is a parameter as
  there, but for the copies of strings, which there is always memory for.
\<close>

subsection \<open>Names and type codes\<close>

definition fn_name :: "u8 list" where "fn_name = [102, 110]"
definition idx_name :: "u8 list" where "idx_name = [105, 100, 120]"
definition min_name :: "u8 list" where "min_name = [109, 105, 110]"
definition max_name :: "u8 list" where "max_name = [109, 97, 120]"
definition type_name :: "u8 list" where "type_name = [116, 121, 112, 101]"
definition kid_name :: "u8 list" where "kid_name = [107, 105, 100]"
definition val_name :: "u8 list" where "val_name = [118, 97, 108]"
definition op_name :: "u8 list" where "op_name = [111, 112]"
definition mop_name :: "u8 list" where "mop_name = [109, 111, 112]"
definition msk_name :: "u8 list" where "msk_name = [109, 115, 107]"
definition def_name :: "u8 list" where "def_name = [100, 101, 102]"

lemmas name_defs = fn_name_def idx_name_def min_name_def max_name_def type_name_def kid_name_def val_name_def
  op_name_def mop_name_def msk_name_def def_name_def

definition QUERY_FILTER_TYPE_WHATCODE :: u32 where "QUERY_FILTER_TYPE_WHATCODE = 1902537776"

fun NumericTypeCode :: "NumericType \<Rightarrow> u32" where
  "NumericTypeCode NBool = QUERY_FILTER_TYPE_WHATCODE + 2"
| "NumericTypeCode NDouble = QUERY_FILTER_TYPE_WHATCODE + 3"
| "NumericTypeCode NFloat = QUERY_FILTER_TYPE_WHATCODE + 4"
| "NumericTypeCode NInt64 = QUERY_FILTER_TYPE_WHATCODE + 5"
| "NumericTypeCode NInt32 = QUERY_FILTER_TYPE_WHATCODE + 6"
| "NumericTypeCode NInt16 = QUERY_FILTER_TYPE_WHATCODE + 7"
| "NumericTypeCode NInt8 = QUERY_FILTER_TYPE_WHATCODE + 8"
| "NumericTypeCode NPoint = QUERY_FILTER_TYPE_WHATCODE + 9"
| "NumericTypeCode NRect = QUERY_FILTER_TYPE_WHATCODE + 10"

fun TypeCode :: "QueryFilter \<Rightarrow> u32" where
  "TypeCode (WhatCodeQueryFilter _ _) = QUERY_FILTER_TYPE_WHATCODE"
| "TypeCode (ValueExistsQueryFilter _ _) = QUERY_FILTER_TYPE_WHATCODE + 1"
| "TypeCode (NumericQueryFilter n _ _) = NumericTypeCode n"
| "TypeCode (StringQueryFilter _ _) = QUERY_FILTER_TYPE_WHATCODE + 11"
| "TypeCode (MessageQueryFilter _ _) = QUERY_FILTER_TYPE_WHATCODE + 12"
| "TypeCode (RawDataQueryFilter _ _) = QUERY_FILTER_TYPE_WHATCODE + 13"
| "TypeCode (NandNotQueryFilter _ _) = QUERY_FILTER_TYPE_WHATCODE + 14"
| "TypeCode (AndOrQueryFilter _ _) = QUERY_FILTER_TYPE_WHATCODE + 15"
| "TypeCode (XorQueryFilter _) = QUERY_FILTER_TYPE_WHATCODE + 16"

subsection \<open>Saving\<close>

text \<open>The call after \<^verbatim>\<open>&&\<close>, which is made if the calls before it have succeeded.\<close>

definition and_then :: "status \<times> 's \<Rightarrow> ('s \<Rightarrow> status \<times> 's) \<Rightarrow> status \<times> 's" where
  "and_then r k = (if fst r = B_NO_ERROR then k (snd r) else (B_ERROR, snd r))"

definition ValueSave :: "memory \<Rightarrow> u32 \<Rightarrow> value_filter \<Rightarrow> Message \<Rightarrow> status \<times> Message" where
  "ValueSave am tc vf archive =
     and_then (value_add am (Msg tc (m_entries archive)) fn_name (StringItem (vf_fieldName vf))) (\<lambda>m.
     if vf_index vf = 0 then (B_NO_ERROR, m) else value_add am m idx_name (Int32Item (vf_index vf)))"

definition NumericSave :: "host \<Rightarrow> memory \<Rightarrow> NumericType \<Rightarrow> value_filter \<Rightarrow> numeric_filter \<Rightarrow> Message \<Rightarrow>
    status \<times> Message" where
  "NumericSave h am n vf nf archive =
     and_then (ValueSave am (NumericTypeCode n) vf archive) (\<lambda>m.
     and_then (value_CAddInt8 am m op_name (nf_op nf)) (\<lambda>m.
     and_then (value_CAddInt8 am m mop_name (nf_maskOp nf)) (\<lambda>m.
     and_then (value_AddData h am m val_name (DataTypeCode n) (object_bytes h (nf_value nf))) (\<lambda>m.
     and_then (value_AddData h am m msk_name (DataTypeCode n) (object_bytes h (nf_mask nf))) (\<lambda>m.
     case nf_default nf of
       None \<Rightarrow> (B_NO_ERROR, m)
     | Some d \<Rightarrow> value_AddData h am m val_name (DataTypeCode n) (object_bytes h d))))))"

definition StringSave :: "memory \<Rightarrow> value_filter \<Rightarrow> string_filter \<Rightarrow> Message \<Rightarrow> status \<times> Message" where
  "StringSave am vf sf archive =
     and_then (ValueSave am (QUERY_FILTER_TYPE_WHATCODE + 11) vf archive) (\<lambda>m.
     and_then (value_add am m val_name (StringItem (sf_value sf))) (\<lambda>m.
     and_then (case sf_default sf of
                 None \<Rightarrow> (B_NO_ERROR, m)
               | Some d \<Rightarrow> value_add am m val_name (StringItem d)) (\<lambda>m.
     value_add am m op_name (Int8Item (sf_op sf)))))"

definition RawSave :: "host \<Rightarrow> memory \<Rightarrow> value_filter \<Rightarrow> raw_filter \<Rightarrow> Message \<Rightarrow> status \<times> Message" where
  "RawSave h am vf rf archive =
     and_then (ValueSave am (QUERY_FILTER_TYPE_WHATCODE + 13) vf archive) (\<lambda>m.
     and_then (value_add am m op_name (Int8Item (rf_op rf))) (\<lambda>m.
     and_then (if rf_typeCode rf = B_ANY_TYPE then (B_NO_ERROR, m)
               else value_add am m type_name (Int32Item (rf_typeCode rf))) (\<lambda>m.
     and_then (case rf_value rf of
                 NullRef \<Rightarrow> (B_NO_ERROR, m)
               | BufferRef memory bs \<Rightarrow>
                   if memory \<and> length bs > 0 then value_AddData h am m val_name B_RAW_TYPE bs else (B_NO_ERROR, m)) (\<lambda>m.
     case rf_default rf of
       NullRef \<Rightarrow> (B_NO_ERROR, m)
     | BufferRef memory bs \<Rightarrow>
         if memory then value_AddData h am m def_name B_RAW_TYPE bs else (B_NO_ERROR, m)))))"

text \<open>\<^verbatim>\<open>GetArchiveMessageFromPool\<close>, and \<^verbatim>\<open>MultiQueryFilter::SaveToArchive\<close>, which passes over NULL children.\<close>

definition archive_of :: "memory \<Rightarrow> ('f \<Rightarrow> Message \<Rightarrow> status \<times> Message) \<Rightarrow> 'f \<Rightarrow> Message option" where
  "archive_of am save f =
     (if mem_obj am then
        let r = save f (Msg 0 []) in if fst r = B_NO_ERROR then Some (snd r) else None
      else None)"

fun SaveKids :: "memory \<Rightarrow> ('f \<Rightarrow> Message \<Rightarrow> status \<times> Message) \<Rightarrow> 'f option list \<Rightarrow> Message \<Rightarrow> status \<times> Message" where
  "SaveKids am save [] m = (B_NO_ERROR, m)"
| "SaveKids am save (None # kids) m = SaveKids am save kids m"
| "SaveKids am save (Some f # kids) m =
     and_then (value_add am m kid_name (MessageItem (archive_of am save f))) (\<lambda>m. SaveKids am save kids m)"

lemma archive_of_cong [fundef_cong]:
  "am = am' \<Longrightarrow> f = f' \<Longrightarrow> (\<And>m. save f' m = save' f' m) \<Longrightarrow> archive_of am save f = archive_of am' save' f'"
  by (simp add: archive_of_def)

lemma SaveKids_cong [fundef_cong]:
  assumes "am = am'" "kids = kids'" "m = m'" "\<And>f m. Some f \<in> set kids' \<Longrightarrow> save f m = save' f m"
  shows "SaveKids am save kids m = SaveKids am' save' kids' m'"
proof -
  have "(\<And>f m. Some f \<in> set ks \<Longrightarrow> save f m = save' f m) \<Longrightarrow> SaveKids am save ks m = SaveKids am save' ks m" for ks m
  proof (induction am save ks m rule: SaveKids.induct)
    case (3 am save f kids m)
    have "archive_of am save f = archive_of am save' f" by (rule archive_of_cong) (use 3 in auto)
    then show ?case using 3 by (simp add: and_then_def)
  qed simp_all
  then show ?thesis using assms by simp
qed

fun SaveToArchive :: "host \<Rightarrow> memory \<Rightarrow> QueryFilter \<Rightarrow> Message \<Rightarrow> status \<times> Message" where
  "SaveToArchive h am (WhatCodeQueryFilter lo hi) archive =
     and_then (value_add am (Msg QUERY_FILTER_TYPE_WHATCODE (m_entries archive)) min_name (Int32Item lo)) (\<lambda>m.
     if hi = lo then (B_NO_ERROR, m) else value_add am m max_name (Int32Item hi))"
| "SaveToArchive h am (ValueExistsQueryFilter vf tc) archive =
     and_then (ValueSave am (QUERY_FILTER_TYPE_WHATCODE + 1) vf archive) (\<lambda>m.
     if tc = B_ANY_TYPE then (B_NO_ERROR, m) else value_add am m type_name (Int32Item tc))"
| "SaveToArchive h am (NumericQueryFilter n vf nf) archive = NumericSave h am n vf nf archive"
| "SaveToArchive h am (StringQueryFilter vf sf) archive = StringSave am vf sf archive"
| "SaveToArchive h am (MessageQueryFilter vf child) archive =
     (let r = ValueSave am (QUERY_FILTER_TYPE_WHATCODE + 12) vf archive in
      if fst r \<noteq> B_NO_ERROR then (B_NO_ERROR, snd r)
      else
        (case child of
           None \<Rightarrow> (B_NO_ERROR, snd r)
         | Some f \<Rightarrow> value_add am (snd r) kid_name (MessageItem (archive_of am (SaveToArchive h am) f))))"
| "SaveToArchive h am (RawDataQueryFilter vf rf) archive = RawSave h am vf rf archive"
| "SaveToArchive h am (NandNotQueryFilter kids maxMatches) archive =
     and_then (SaveKids am (SaveToArchive h am) kids (Msg (QUERY_FILTER_TYPE_WHATCODE + 14) (m_entries archive))) (\<lambda>m.
     if maxMatches = 0 then (B_NO_ERROR, m) else value_add am m max_name (Int32Item maxMatches))"
| "SaveToArchive h am (AndOrQueryFilter kids minMatches) archive =
     and_then (SaveKids am (SaveToArchive h am) kids (Msg (QUERY_FILTER_TYPE_WHATCODE + 15) (m_entries archive))) (\<lambda>m.
     if minMatches = MUSCLE_NO_LIMIT then (B_NO_ERROR, m) else value_add am m min_name (Int32Item minMatches))"
| "SaveToArchive h am (XorQueryFilter kids) archive =
     SaveKids am (SaveToArchive h am) kids (Msg (QUERY_FILTER_TYPE_WHATCODE + 16) (m_entries archive))"

subsection \<open>Restoring\<close>

text \<open>
  \<^verbatim>\<open>SetFromArchive\<close> of an existing object: what it is afterwards, also after a failure.
\<close>

definition ValueSet :: "u32 \<Rightarrow> value_filter \<Rightarrow> Message \<Rightarrow> status \<times> value_filter" where
  "ValueSet tc vf archive =
     (if m_what archive \<noteq> tc then (B_ERROR, vf)
      else
        let vf1 = vf\<lparr>vf_index := (case Message_FindInt32 archive idx_name of None \<Rightarrow> 0 | Some i \<Rightarrow> i)\<rparr> in
        case Message_FindString archive fn_name 0 of
          None \<Rightarrow> (B_ERROR, vf1)
        | Some s \<Rightarrow> (B_NO_ERROR, vf1\<lparr>vf_fieldName := s\<rparr>))"

definition NumericSet :: "host \<Rightarrow> NumericType \<Rightarrow> value_filter \<Rightarrow> numeric_filter \<Rightarrow> Message \<Rightarrow>
    (status \<times> QueryFilter) outcome" where
  "NumericSet h n vf nf archive =
     (let (st, vf') = ValueSet (NumericTypeCode n) vf archive;
          nf1 = nf\<lparr>nf_default := None\<rparr>;
          fail = Ok (B_ERROR, NumericQueryFilter n vf' nf1);
          size_ok = (\<lambda>numBytes. unat numBytes = class_sizeof (DataType n)) in
      if st \<noteq> B_NO_ERROR then fail
      else
        obind (Message_FindData h archive val_name (DataTypeCode n) 0) (\<lambda>r.
        case r of
          None \<Rightarrow> fail
        | Some (ItemPtr x, numBytes) \<Rightarrow>
            if \<not> size_ok numBytes then fail
            else
              obind (Message_FindData h archive msk_name (DataTypeCode n) 0) (\<lambda>r1.
              obind (Message_FindData h archive val_name (DataTypeCode n) 1) (\<lambda>r2.
              Ok (B_NO_ERROR, NumericQueryFilter n vf'
                (nf1\<lparr>nf_op := Message_GetInt8 archive op_name,
                     nf_value := as_type n x,
                     nf_maskOp := Message_GetInt8 archive mop_name,
                     nf_mask := (case r1 of
                                   Some (ItemPtr y, k) \<Rightarrow> if size_ok k then as_type n y else default_item (DataType n)
                                 | _ \<Rightarrow> default_item (DataType n)),
                     nf_default := (case r2 of Some (ItemPtr z, k) \<Rightarrow> Some (as_type n z) | _ \<Rightarrow> None)\<rparr>))))
        | Some _ \<Rightarrow> Fault))"

definition StringSet :: "value_filter \<Rightarrow> string_filter \<Rightarrow> Message \<Rightarrow> status \<times> QueryFilter" where
  "StringSet vf sf archive =
     (let sf1 = sf\<lparr>sf_default := Message_FindString archive val_name 1\<rparr>;
          (st, vf') = ValueSet (QUERY_FILTER_TYPE_WHATCODE + 11) vf archive in
      if st \<noteq> B_NO_ERROR then (B_ERROR, StringQueryFilter vf' sf1)
      else
        (case Message_FindString archive val_name 0 of
           None \<Rightarrow> (B_ERROR, StringQueryFilter vf' sf1)
         | Some s \<Rightarrow>
             (case Message_FindInt8 archive op_name of
                None \<Rightarrow> (B_ERROR, StringQueryFilter vf' (sf1\<lparr>sf_value := s\<rparr>))
              | Some p \<Rightarrow> (B_NO_ERROR, StringQueryFilter vf' (sf1\<lparr>sf_value := s, sf_op := p\<rparr>)))))"

text \<open>\<^verbatim>\<open>GetByteBufferFromPool\<close> of bytes, \<open>None\<close> when there is no memory.\<close>

definition pool_buffer :: "host \<Rightarrow> memory \<Rightarrow> u8 list \<Rightarrow> BufferRef option" where
  "pool_buffer h am bs =
     (if mem_obj am \<and> (bs = [] \<or> mem_bytes am (length bs)) then Some (BufferRef (bs \<noteq> [] \<or> h_empty h) bs) else None)"

text \<open>
  A buffer of the archive: \<open>None\<close> for a failure, the NULL reference if the archive has none.
\<close>

definition archived_buffer :: "host \<Rightarrow> memory \<Rightarrow> Message \<Rightarrow> u8 list \<Rightarrow> BufferRef option outcome" where
  "archived_buffer h am archive name =
     obind (Message_FindData h archive name B_RAW_TYPE 0) (\<lambda>r.
     Ok (case r of
           None \<Rightarrow> Some NullRef
         | Some (p, numBytes) \<Rightarrow> pool_buffer h am (take (unat numBytes) (pointer_bytes h p))))"

definition RawSet :: "host \<Rightarrow> memory \<Rightarrow> value_filter \<Rightarrow> raw_filter \<Rightarrow> Message \<Rightarrow> (status \<times> QueryFilter) outcome" where
  "RawSet h am vf rf archive =
     (let (st, vf') = ValueSet (QUERY_FILTER_TYPE_WHATCODE + 13) vf archive in
      if st \<noteq> B_NO_ERROR then Ok (B_ERROR, RawDataQueryFilter vf' rf)
      else
        (case Message_FindInt8 archive op_name of
           None \<Rightarrow> Ok (B_ERROR, RawDataQueryFilter vf' rf)
         | Some p \<Rightarrow>
             let tc = (case Message_FindInt32 archive type_name of None \<Rightarrow> B_ANY_TYPE | Some t \<Rightarrow> t);
                 rf1 = rf\<lparr>rf_op := p, rf_typeCode := tc, rf_value := NullRef\<rparr> in
             obind (archived_buffer h am archive val_name) (\<lambda>v.
             case v of
               None \<Rightarrow> Ok (B_ERROR, RawDataQueryFilter vf' rf1)
             | Some vb \<Rightarrow>
                 obind (archived_buffer h am archive def_name) (\<lambda>d.
                 Ok (case d of
                       None \<Rightarrow> (B_ERROR, RawDataQueryFilter vf' (rf1\<lparr>rf_value := vb, rf_default := NullRef\<rparr>))
                     | Some db \<Rightarrow> (B_NO_ERROR, RawDataQueryFilter vf' (rf1\<lparr>rf_value := vb, rf_default := db\<rparr>)))))))"

text \<open>
  The loop of \<^verbatim>\<open>MultiQueryFilter::SetFromArchive\<close> over the sub-Messages; \<open>create\<close> is
  \<^verbatim>\<open>CreateQueryFilter\<close> of the installed factory, and \<open>acc\<close> the children so far.
\<close>

fun SetKids :: "memory \<Rightarrow> (Message \<Rightarrow> QueryFilter option outcome) \<Rightarrow> Message DataItem list \<Rightarrow>
    QueryFilter option list \<Rightarrow> (status \<times> QueryFilter option list) outcome" where
  "SetKids am create [] acc = Ok (B_NO_ERROR, acc)"
| "SetKids am create (x # xs) acc =
     (case x of
        MessageItem (Some m) \<Rightarrow>
          obind (create m) (\<lambda>kid.
          case kid of
            None \<Rightarrow> Ok (B_ERROR, acc)
          | Some f \<Rightarrow>
              if mem_items am (Suc (length acc)) then SetKids am create xs (acc @ [Some f]) else Ok (B_ERROR, acc))
      | _ \<Rightarrow> Fault)"

definition kid_items :: "Message \<Rightarrow> Message DataItem list" where
  "kid_items archive = (case Message_GetArray archive kid_name B_MESSAGE_TYPE of None \<Rightarrow> [] | Some a \<Rightarrow> da_items a)"

definition MultiSet :: "memory \<Rightarrow> (Message \<Rightarrow> QueryFilter option outcome) \<Rightarrow> u32 \<Rightarrow> QueryFilter option list \<Rightarrow>
    Message \<Rightarrow> (status \<times> QueryFilter option list) outcome" where
  "MultiSet am create tc kids archive =
     (if m_what archive \<noteq> tc then Ok (B_ERROR, kids) else SetKids am create (kid_items archive) [])"

definition SetFromArchive :: "host \<Rightarrow> memory \<Rightarrow> (Message \<Rightarrow> QueryFilter option outcome) \<Rightarrow> QueryFilter \<Rightarrow> Message \<Rightarrow>
    (status \<times> QueryFilter) outcome" where
  "SetFromArchive h am create f archive =
     (case f of
        WhatCodeQueryFilter lo hi \<Rightarrow>
          Ok (if m_what archive \<noteq> TypeCode f then (B_ERROR, f)
              else
                (case Message_FindInt32 archive min_name of
                   None \<Rightarrow> (B_ERROR, f)
                 | Some lo' \<Rightarrow>
                     (B_NO_ERROR, WhatCodeQueryFilter lo'
                       (case Message_FindInt32 archive max_name of None \<Rightarrow> lo' | Some hi' \<Rightarrow> hi'))))
      | ValueExistsQueryFilter vf tc \<Rightarrow>
          (let (st, vf') = ValueSet (TypeCode f) vf archive in
           Ok (if st \<noteq> B_NO_ERROR then (B_ERROR, ValueExistsQueryFilter vf' tc)
               else
                 (B_NO_ERROR, ValueExistsQueryFilter vf'
                   (case Message_FindInt32 archive type_name of None \<Rightarrow> B_ANY_TYPE | Some t \<Rightarrow> t))))
      | NumericQueryFilter n vf nf \<Rightarrow> NumericSet h n vf nf archive
      | StringQueryFilter vf sf \<Rightarrow> Ok (StringSet vf sf archive)
      | MessageQueryFilter vf child \<Rightarrow>
          (let (st, vf') = ValueSet (TypeCode f) vf archive in
           if st \<noteq> B_NO_ERROR then Ok (B_NO_ERROR, MessageQueryFilter vf' child)
           else
             (case Message_FindMessage archive kid_name 0 of
                None \<Rightarrow> Ok (B_NO_ERROR, MessageQueryFilter vf' None)
              | Some None \<Rightarrow> Fault
              | Some (Some subMsg) \<Rightarrow>
                  obind (create subMsg) (\<lambda>c.
                  Ok (if c = None then B_ERROR else B_NO_ERROR, MessageQueryFilter vf' c))))
      | RawDataQueryFilter vf rf \<Rightarrow> RawSet h am vf rf archive
      | NandNotQueryFilter kids maxMatches \<Rightarrow>
          obind (MultiSet am create (TypeCode f) kids archive) (\<lambda>(st, kids').
          Ok (st, NandNotQueryFilter kids'
            (if st = B_NO_ERROR
             then case Message_FindInt32 archive max_name of None \<Rightarrow> 0 | Some k \<Rightarrow> k
             else maxMatches)))
      | AndOrQueryFilter kids minMatches \<Rightarrow>
          obind (MultiSet am create (TypeCode f) kids archive) (\<lambda>(st, kids').
          Ok (st, AndOrQueryFilter kids'
            (if st = B_NO_ERROR
             then case Message_FindInt32 archive min_name of None \<Rightarrow> MUSCLE_NO_LIMIT | Some k \<Rightarrow> k
             else minMatches)))
      | XorQueryFilter kids \<Rightarrow>
          obind (MultiSet am create (TypeCode f) kids archive) (\<lambda>(st, kids'). Ok (st, XorQueryFilter kids')))"

subsection \<open>The factory\<close>

text \<open>
  \<^verbatim>\<open>MuscleQueryFilterFactory::CreateQueryFilter\<close> of a type code: a new object, as its default constructor
  leaves it.
\<close>

definition no_value :: value_filter where "no_value = \<lparr>vf_fieldName = [], vf_index = 0\<rparr>"

definition new_numeric :: "NumericType \<Rightarrow> QueryFilter" where
  "new_numeric n = NumericQueryFilter n no_value
     \<lparr>nf_value = default_item (DataType n), nf_mask = default_item (DataType n), nf_op = 0, nf_maskOp = 0,
      nf_default = None\<rparr>"

definition new_filter :: "host \<Rightarrow> u32 \<Rightarrow> QueryFilter option" where
  "new_filter h tc =
     (if tc = QUERY_FILTER_TYPE_WHATCODE then Some (WhatCodeQueryFilter 0 0)
      else if tc = QUERY_FILTER_TYPE_WHATCODE + 1 then Some (ValueExistsQueryFilter no_value B_ANY_TYPE)
      else if tc = QUERY_FILTER_TYPE_WHATCODE + 2 then Some (new_numeric NBool)
      else if tc = QUERY_FILTER_TYPE_WHATCODE + 3 then Some (new_numeric NDouble)
      else if tc = QUERY_FILTER_TYPE_WHATCODE + 4 then Some (new_numeric NFloat)
      else if tc = QUERY_FILTER_TYPE_WHATCODE + 5 then Some (new_numeric NInt64)
      else if tc = QUERY_FILTER_TYPE_WHATCODE + 6 then Some (new_numeric NInt32)
      else if tc = QUERY_FILTER_TYPE_WHATCODE + 7 then Some (new_numeric NInt16)
      else if tc = QUERY_FILTER_TYPE_WHATCODE + 8 then Some (new_numeric NInt8)
      else if tc = QUERY_FILTER_TYPE_WHATCODE + 9 then Some (new_numeric NPoint)
      else if tc = QUERY_FILTER_TYPE_WHATCODE + 10 then Some (new_numeric NRect)
      else if tc = QUERY_FILTER_TYPE_WHATCODE + 11 then
        Some (StringQueryFilter no_value \<lparr>sf_value = [], sf_op = 0, sf_default = None\<rparr>)
      else if tc = QUERY_FILTER_TYPE_WHATCODE + 12 then Some (MessageQueryFilter no_value None)
      else if tc = QUERY_FILTER_TYPE_WHATCODE + 13 then
        Some (RawDataQueryFilter no_value
          \<lparr>rf_value = NullRef, rf_op = 0, rf_typeCode = h_junk h, rf_default = NullRef\<rparr>)
      else if tc = QUERY_FILTER_TYPE_WHATCODE + 14 then Some (NandNotQueryFilter [] 0)
      else if tc = QUERY_FILTER_TYPE_WHATCODE + 15 then Some (AndOrQueryFilter [] MUSCLE_NO_LIMIT)
      else if tc = QUERY_FILTER_TYPE_WHATCODE + 16 then Some (XorQueryFilter [])
      else None)"

text \<open>\<^verbatim>\<open>SetFromArchive\<close> calls the factory for sub-Messages of the archive only.\<close>

lemma SetKids_cong:
  "(\<And>m. MessageItem (Some m) \<in> set xs \<Longrightarrow> c m = c' m) \<Longrightarrow> SetKids am c xs acc = SetKids am c' xs acc"
  by (induction am c xs acc rule: SetKids.induct)
    (auto split: DataItem.splits option.splits intro!: obind_cong)

lemma find_array_in: "find_array es name tc = Some a \<Longrightarrow> (name, a) \<in> set es"
  by (auto simp: find_array_def dest: map_of_SomeD split: option.splits if_splits)

definition sub_message :: "Message \<Rightarrow> Message \<Rightarrow> bool" where
  "sub_message m archive \<longleftrightarrow> (\<exists>(n, a) \<in> set (m_entries archive). m \<in> set_DataArray a)"

lemma sub_message_size: "sub_message m archive \<Longrightarrow> size m < size archive"
  by (cases archive) (auto simp: sub_message_def dest: entry_size)

lemma item_sub_message:
  "Message_GetArray archive name tc = Some a \<Longrightarrow> MessageItem (Some m) \<in> set (da_items a) \<Longrightarrow> sub_message m archive"
  by (force simp: Message_GetArray_def sub_message_def set_DataArray_items dest: find_array_in)

lemma SetFromArchive_cong [fundef_cong]:
  assumes "h = h'" "am = am'" "f = f'" "archive = archive'" "\<And>m. sub_message m archive' \<Longrightarrow> c m = c' m"
  shows "SetFromArchive h am c f archive = SetFromArchive h' am' c' f' archive'"
proof -
  have "sub_message m archive" if "MessageItem (Some m) \<in> set (kid_items archive)" for m
    using that by (cases "Message_GetArray archive kid_name B_MESSAGE_TYPE") (auto simp: kid_items_def intro: item_sub_message)
  then have "SetKids am c (kid_items archive) acc = SetKids am c' (kid_items archive) acc" for acc
    by (intro SetKids_cong) (simp add: assms(4,5))
  then have multi: "MultiSet am c tc kids archive = MultiSet am c' tc kids archive" for tc kids
    by (simp add: MultiSet_def)
  have "c m = c' m" if "Message_FindMessage archive kid_name 0 = Some (Some m)" for m
  proof -
    have "sub_message m archive"
      using FindMessage_in [OF that] item_sub_message by blast
    then show ?thesis using assms(4,5) by simp
  qed
  then have kid: "(case Message_FindMessage archive kid_name 0 of None \<Rightarrow> a | Some None \<Rightarrow> b | Some (Some m) \<Rightarrow> obind (c m) k) =
      (case Message_FindMessage archive kid_name 0 of None \<Rightarrow> a | Some None \<Rightarrow> b | Some (Some m) \<Rightarrow> obind (c' m) k)"
    for a b and k :: "QueryFilter option \<Rightarrow> (status \<times> QueryFilter) outcome"
    by (simp split: option.split)
  show ?thesis unfolding SetFromArchive_def assms(1-4) [symmetric] multi kid by (rule refl)
qed

function CreateQueryFilter :: "host \<Rightarrow> memory \<Rightarrow> Message \<Rightarrow> QueryFilter option outcome" where
  "CreateQueryFilter h am msg =
     (if mem_obj am then
        (case new_filter h (m_what msg) of
           None \<Rightarrow> Ok None
         | Some f \<Rightarrow>
             obind (SetFromArchive h am (CreateQueryFilter h am) f msg) (\<lambda>(st, f').
             Ok (if st = B_NO_ERROR then Some f' else None)))
      else Ok None)"
  by pat_completeness auto
termination by (relation "measure (\<lambda>(h, am, msg). size msg)") (auto dest: sub_message_size)

declare CreateQueryFilter.simps [simp del]

end
