(* ===== verification/Filter_Save.thy ===== *)
theory Filter_Save
  imports Filter_Archive Message_Parse
begin

section \<open>The archive of a filter\<close>

text \<open>
  The Message that \<^verbatim>\<open>SaveToArchive\<close> makes of a filter, as a function of the filter, with the lemma that it does.
\<close>

subsection \<open>Adding to a Message with memory\<close>

definition field :: "u8 list \<Rightarrow> Message DataItem \<Rightarrow> u8 list \<times> Message DataArray" where
  "field name x = (name, DataArray (new_class (item_code x)) [x])"

definition opt_field :: "bool \<Rightarrow> u8 list \<Rightarrow> Message DataItem \<Rightarrow> (u8 list \<times> Message DataArray) list" where
  "opt_field leave_out name x = (if leave_out then [] else [field name x])"

lemma field_sel [simp]: "fst (field name x) = name" "snd (field name x) = DataArray (new_class (item_code x)) [x]"
  by (simp_all add: field_def)

lemma map_of_opt_field [simp]:
  "map_of (opt_field c name x) n = (if c \<or> n \<noteq> name then None else Some (DataArray (new_class (item_code x)) [x]))"
  by (simp add: opt_field_def field_def)

lemma value_add_as_new:
  assumes "ample am" "map_of es name = None"
  shows "value_add_as am (Msg w es) name tc x = (B_NO_ERROR, Msg w (es @ [(name, DataArray (new_class tc) [x])]))"
proof -
  have n: "name \<notin> fst ` set es" using assms(2) by (simp add: map_of_eq_None_iff)
  show ?thesis
    using assms(2) ampleD(3) [OF assms(1)]
    by (simp add: value_add_as_def get_or_create_new [OF assms(1) n] set_items_last [OF n] map_add_def)
qed

lemma value_add_as_old:
  "ample am \<Longrightarrow> map_of es name = Some (DataArray c xs) \<Longrightarrow> class_code c = tc \<Longrightarrow>
   value_add_as am (Msg w es) name tc x = (B_NO_ERROR, Msg w (set_items es name (xs @ [x])))"
  by (simp add: value_add_as_def get_or_create_def find_array_def array_matches_def Array_TypeCode_def ampleD)

lemma value_add_new:
  "ample am \<Longrightarrow> storable x \<Longrightarrow> map_of es name = None \<Longrightarrow>
   value_add am (Msg w es) name x = (B_NO_ERROR, Msg w (es @ [field name x]))"
  by (simp add: value_add_def value_add_as_new storable_def item_code_not_any field_def)

lemma value_add_old:
  "ample am \<Longrightarrow> storable x \<Longrightarrow> map_of es name = Some (DataArray c xs) \<Longrightarrow> class_code c = item_code x \<Longrightarrow>
   value_add am (Msg w es) name x = (B_NO_ERROR, Msg w (set_items es name (xs @ [x])))"
  by (simp add: value_add_def value_add_as_old storable_def)

lemma storable_simps [simp]:
  "storable (StringItem s)" "storable (Int32Item i)" "storable (Int8Item b)" "storable (MessageItem (Some m))"
  "storable (FlatItem (Some bs))" "\<not> storable (MessageItem None)"
  by (simp_all add: storable_def is_null_item_def)

text \<open>\<^verbatim>\<open>AddData\<close> of the bytes of one value, and of a byte buffer.\<close>

lemma reverse_items_back: "k dvd length bs \<Longrightarrow> 0 < k \<Longrightarrow> reverse_items k (reverse_items k bs) = bs"
  by (rule reverse_items_involution [where N = "length bs div k"]) auto

lemma object_bytes_back:
  assumes "has_class c x" "is_value_class c" "c \<noteq> PointerArray"
  shows "length (object_bytes h x) = class_sizeof c" "host_item (h_big h) c (object_bytes h x) = x"
proof -
  note l = length_fixed_item [OF assms]
  let ?k = "if c = PointArray \<or> c = RectArray then 4 else class_sizeof c"
  have "object_bytes h x = (if h_big h then reverse_items ?k (fixed_item_bytes x) else fixed_item_bytes x)"
    using assms l by (cases x; cases c) (auto simp: object_bytes_def has_class_def is_value_class_def Let_def)
  moreover have "?k dvd length (fixed_item_bytes x)" "0 < ?k" using assms(2) l by (cases c; simp add: is_value_class_def)+
  ultimately show "length (object_bytes h x) = class_sizeof c" "host_item (h_big h) c (object_bytes h x) = x"
    using l reverse_items_back fixed_item_bytes_back [OF assms] by (auto simp: host_item_def)
qed

lemma value_AddData_value:
  assumes "has_class c x" "is_value_class c" "c \<noteq> PointerArray" "c = new_class tc" "tc \<noteq> B_ANY_TYPE"
  shows "value_AddData h am m name tc (object_bytes h x) =
    (let r = value_add_as am m name tc x in (if fst r = B_NO_ERROR then B_NO_ERROR else B_ERROR, snd r))"
proof -
  have k: "GetElementSize tc = class_sizeof c" "0 < class_sizeof c"
    using assms(2) unfolding assms(4) [symmetric] GetElementSize_def
    by (cases c; simp add: is_value_class_def)+
  have "data_items h tc (object_bytes h x) = [x]"
    using k object_bytes_back [OF assms(1-3), of h] by (simp add: data_items_def assms(4) [symmetric] Let_def)
  moreover have "object_bytes h x \<noteq> []" using k object_bytes_back(1) [OF assms(1-3), of h] by auto
  ultimately show ?thesis
    using k object_bytes_back(1) [OF assms(1-3), of h] by (simp add: value_AddData_def Let_def split: prod.split)
qed

lemma value_AddData_buffer:
  assumes "ample am" "bs \<noteq> []"
  shows "value_AddData h am m name B_RAW_TYPE bs =
    (let r = value_add am m name (FlatItem (Some bs)) in (if fst r = B_NO_ERROR then B_NO_ERROR else B_ERROR, snd r))"
proof -
  have "new_class B_RAW_TYPE = ByteBufferArray B_RAW_TYPE" by (simp add: new_class_def type_code_defs B_TAG_TYPE_def)
  then have "GetElementSize B_RAW_TYPE = 0" by (simp add: GetElementSize_def)
  then show ?thesis
    using assms by (simp add: value_AddData_def data_items_def ampleD value_add_def is_null_item_def item_code_def Let_def
        split: prod.split)
qed

subsection \<open>Archives\<close>

definition value_fields :: "value_filter \<Rightarrow> (u8 list \<times> Message DataArray) list" where
  "value_fields vf = field fn_name (StringItem (vf_fieldName vf)) #
     opt_field (vf_index vf = 0) idx_name (Int32Item (vf_index vf))"

definition more_items :: "u8 list \<Rightarrow> ArrayClass \<Rightarrow> Message DataItem \<Rightarrow> Message DataItem option \<Rightarrow>
    u8 list \<times> Message DataArray" where
  "more_items name c x d = (name, DataArray c (x # (case d of None \<Rightarrow> [] | Some y \<Rightarrow> [y])))"

definition buffer_field :: "u8 list \<Rightarrow> BufferRef \<Rightarrow> (u8 list \<times> Message DataArray) list" where
  "buffer_field name b =
     (case b of NullRef \<Rightarrow> [] | BufferRef _ bs \<Rightarrow> [field name (FlatItem (Some bs))])"

definition kids_field :: "Message DataItem list \<Rightarrow> (u8 list \<times> Message DataArray) list" where
  "kids_field xs = (if xs = [] then [] else [(kid_name, DataArray MessageArray xs)])"

fun archive :: "QueryFilter \<Rightarrow> Message" where
  "archive (WhatCodeQueryFilter lo hi) =
     Msg QUERY_FILTER_TYPE_WHATCODE (field min_name (Int32Item lo) # opt_field (hi = lo) max_name (Int32Item hi))"
| "archive (ValueExistsQueryFilter vf tc) =
     Msg (QUERY_FILTER_TYPE_WHATCODE + 1) (value_fields vf @ opt_field (tc = B_ANY_TYPE) type_name (Int32Item tc))"
| "archive (NumericQueryFilter n vf nf) =
     Msg (NumericTypeCode n) (value_fields vf @ opt_field (nf_op nf = 0) op_name (Int8Item (nf_op nf))
       @ opt_field (nf_maskOp nf = 0) mop_name (Int8Item (nf_maskOp nf))
       @ [more_items val_name (DataType n) (nf_value nf) (nf_default nf),
          (msk_name, DataArray (DataType n) [nf_mask nf])])"
| "archive (StringQueryFilter vf sf) =
     Msg (QUERY_FILTER_TYPE_WHATCODE + 11) (value_fields vf
       @ [more_items val_name StringArray (StringItem (sf_value sf)) (map_option StringItem (sf_default sf)),
          field op_name (Int8Item (sf_op sf))])"
| "archive (MessageQueryFilter vf child) =
     Msg (QUERY_FILTER_TYPE_WHATCODE + 12) (value_fields vf
       @ kids_field (case child of None \<Rightarrow> [] | Some f \<Rightarrow> [MessageItem (Some (archive f))]))"
| "archive (RawDataQueryFilter vf rf) =
     Msg (QUERY_FILTER_TYPE_WHATCODE + 13) (value_fields vf @ field op_name (Int8Item (rf_op rf)) #
       opt_field (rf_typeCode rf = B_ANY_TYPE) type_name (Int32Item (rf_typeCode rf))
       @ buffer_field val_name (rf_value rf) @ buffer_field def_name (rf_default rf))"
| "archive (NandNotQueryFilter kids k) =
     Msg (QUERY_FILTER_TYPE_WHATCODE + 14)
       (kids_field (map (\<lambda>kid. MessageItem (case kid of None \<Rightarrow> None | Some f \<Rightarrow> Some (archive f))) kids)
        @ opt_field (k = 0) max_name (Int32Item k))"
| "archive (AndOrQueryFilter kids k) =
     Msg (QUERY_FILTER_TYPE_WHATCODE + 15)
       (kids_field (map (\<lambda>kid. MessageItem (case kid of None \<Rightarrow> None | Some f \<Rightarrow> Some (archive f))) kids)
        @ opt_field (k = MUSCLE_NO_LIMIT) min_name (Int32Item k))"
| "archive (XorQueryFilter kids) =
     Msg (QUERY_FILTER_TYPE_WHATCODE + 16)
       (kids_field (map (\<lambda>kid. MessageItem (case kid of None \<Rightarrow> None | Some f \<Rightarrow> Some (archive f))) kids))"

text \<open>
  Filters that an archive can hold: no NULL children, which \<^verbatim>\<open>SaveToArchive\<close> leaves out; no
  \<^verbatim>\<open>RectQueryFilter\<close>, which cannot be saved; no byte buffer without bytes, which is left out or fails;
  values of the filter's type, strings without zeros.
\<close>

definition archivable_buffer :: "BufferRef \<Rightarrow> bool" where
  "archivable_buffer b \<longleftrightarrow> (case b of NullRef \<Rightarrow> True | BufferRef memory bs \<Rightarrow> memory \<and> bs \<noteq> [] \<and> length bs < 2 ^ 32)"

fun archivable :: "QueryFilter \<Rightarrow> bool" where
  "archivable (WhatCodeQueryFilter lo hi) \<longleftrightarrow> True"
| "archivable (ValueExistsQueryFilter vf tc) \<longleftrightarrow> 0 \<notin> set (vf_fieldName vf)"
| "archivable (NumericQueryFilter n vf nf) \<longleftrightarrow>
     0 \<notin> set (vf_fieldName vf) \<and> n \<noteq> NRect \<and> has_class (DataType n) (nf_value nf)
     \<and> has_class (DataType n) (nf_mask nf)
     \<and> (case nf_default nf of None \<Rightarrow> True | Some d \<Rightarrow> has_class (DataType n) d)"
| "archivable (StringQueryFilter vf sf) \<longleftrightarrow>
     0 \<notin> set (vf_fieldName vf) \<and> 0 \<notin> set (sf_value sf)
     \<and> (case sf_default sf of None \<Rightarrow> True | Some d \<Rightarrow> 0 \<notin> set d)"
| "archivable (MessageQueryFilter vf child) \<longleftrightarrow>
     0 \<notin> set (vf_fieldName vf) \<and> (case child of None \<Rightarrow> True | Some f \<Rightarrow> archivable f)"
| "archivable (RawDataQueryFilter vf rf) \<longleftrightarrow>
     0 \<notin> set (vf_fieldName vf) \<and> archivable_buffer (rf_value rf) \<and> archivable_buffer (rf_default rf)"
| "archivable (NandNotQueryFilter kids k) \<longleftrightarrow>
     list_all (\<lambda>kid. case kid of None \<Rightarrow> False | Some f \<Rightarrow> archivable f) kids"
| "archivable (AndOrQueryFilter kids k) \<longleftrightarrow>
     list_all (\<lambda>kid. case kid of None \<Rightarrow> False | Some f \<Rightarrow> archivable f) kids"
| "archivable (XorQueryFilter kids) \<longleftrightarrow>
     list_all (\<lambda>kid. case kid of None \<Rightarrow> False | Some f \<Rightarrow> archivable f) kids"

subsection \<open>Saving\<close>

lemma name_neqs [simp]:
  "op_name \<noteq> fn_name" "op_name \<noteq> idx_name" "mop_name \<noteq> fn_name" "mop_name \<noteq> idx_name" "mop_name \<noteq> op_name"
  "val_name \<noteq> fn_name" "val_name \<noteq> idx_name" "val_name \<noteq> op_name" "val_name \<noteq> mop_name"
  "msk_name \<noteq> fn_name" "msk_name \<noteq> idx_name" "msk_name \<noteq> op_name" "msk_name \<noteq> mop_name" "msk_name \<noteq> val_name"
  "type_name \<noteq> fn_name" "type_name \<noteq> idx_name" "type_name \<noteq> op_name" "type_name \<noteq> val_name" "type_name \<noteq> def_name"
  "def_name \<noteq> fn_name" "def_name \<noteq> idx_name" "def_name \<noteq> op_name" "def_name \<noteq> val_name" "def_name \<noteq> type_name"
  "kid_name \<noteq> fn_name" "kid_name \<noteq> idx_name" "min_name \<noteq> kid_name" "max_name \<noteq> kid_name" "max_name \<noteq> min_name"
  "idx_name \<noteq> fn_name"
  by (simp_all add: name_defs)

lemmas name_neqs' [simp] = name_neqs [symmetric]

lemma item_codes [simp]:
  "item_code (StringItem s) = B_STRING_TYPE" "item_code (Int8Item b) = B_INT8_TYPE" "item_code (Int32Item i) = B_INT32_TYPE"
  "item_code (MessageItem m) = B_MESSAGE_TYPE" "item_code (FlatItem r) = B_RAW_TYPE"
  by (simp_all add: item_code_def)

lemma new_classes [simp]:
  "new_class B_STRING_TYPE = StringArray" "new_class B_INT8_TYPE = Int8Array" "new_class B_INT32_TYPE = Int32Array"
  "new_class B_MESSAGE_TYPE = MessageArray" "new_class B_RAW_TYPE = ByteBufferArray B_RAW_TYPE"
  by (simp_all add: new_class_def type_code_defs B_TAG_TYPE_def)

lemma set_items_simps [simp]:
  "set_items (es @ es') name xs = set_items es name xs @ set_items es' name xs"
  "set_items [] name xs = []"
  "set_items ((n, a) # es) name xs = (n, if n = name then DataArray (da_class a) xs else a) # set_items es name xs"
  "n \<noteq> name \<Longrightarrow> set_items (field n x # es) name xs = field n x # set_items es name xs"
  "n \<noteq> name \<Longrightarrow> set_items (opt_field c n x) name xs = opt_field c n x"
  by (simp_all add: set_items_def field_def opt_field_def)

lemma opt_field_cases [simp]: "opt_field True name x = []" "opt_field False name x = [field name x]"
  by (simp_all add: opt_field_def)

lemma map_of_value_fields [simp]:
  "map_of (value_fields vf) n =
     (if n = fn_name then Some (DataArray StringArray [StringItem (vf_fieldName vf)])
      else if n = idx_name \<and> vf_index vf \<noteq> 0 then Some (DataArray Int32Array [Int32Item (vf_index vf)]) else None)"
  by (simp add: value_fields_def item_code_def new_class_def type_code_defs B_TAG_TYPE_def)

lemma set_items_value_fields [simp]:
  "name \<noteq> fn_name \<Longrightarrow> name \<noteq> idx_name \<Longrightarrow> set_items (value_fields vf) name xs = value_fields vf"
  by (simp add: value_fields_def)

lemma ValueSave_fresh: "ample am \<Longrightarrow> ValueSave am tc vf (Msg w []) = (B_NO_ERROR, Msg tc (value_fields vf))"
  by (simp add: ValueSave_def and_then_def value_add_new value_fields_def name_defs)

lemma value_CAddInt8_new:
  "ample am \<Longrightarrow> map_of es name = None \<Longrightarrow>
   value_CAddInt8 am (Msg w es) name v = (B_NO_ERROR, Msg w (es @ opt_field (v = 0) name (Int8Item v)))"
  by (simp add: value_CAddInt8_def value_add_new)

lemma DataType_facts:
  assumes "n \<noteq> NRect"
  shows "is_value_class (DataType n)" "DataType n \<noteq> PointerArray" "new_class (DataTypeCode n) = DataType n"
    "DataTypeCode n \<noteq> B_ANY_TYPE" "class_code (DataType n) = DataTypeCode n" "DataTypeCode n \<noteq> B_STRING_TYPE"
    "GetElementSize (DataTypeCode n) = class_sizeof (DataType n)" "0 < class_sizeof (DataType n)"
    "class_sizeof (DataType n) < 2 ^ 32"
  using assms by (cases n; simp add: is_value_class_def new_class_def type_code_defs B_TAG_TYPE_def GetElementSize_def)+

lemma NumericSave_fresh:
  assumes "ample am" "archivable (NumericQueryFilter n vf nf)"
  shows "NumericSave h am n vf nf (Msg w []) = (B_NO_ERROR, archive (NumericQueryFilter n vf nf))"
proof -
  have n: "n \<noteq> NRect" using assms(2) by simp
  note D = DataType_facts [OF n]
  have add: "value_AddData h am m name (DataTypeCode n) (object_bytes h x) =
      (let r = value_add_as am m name (DataTypeCode n) x in (if fst r = B_NO_ERROR then B_NO_ERROR else B_ERROR, snd r))"
    if "has_class (DataType n) x" for m name x
    using value_AddData_value [OF that D(1,2) D(3) [symmetric] D(4)] .
  let ?es = "value_fields vf @ opt_field (nf_op nf = 0) op_name (Int8Item (nf_op nf))
      @ opt_field (nf_maskOp nf = 0) mop_name (Int8Item (nf_maskOp nf))"
  have "value_AddData h am (Msg t ?es) val_name (DataTypeCode n) (object_bytes h (nf_value nf)) =
      (B_NO_ERROR, Msg t (?es @ [(val_name, DataArray (DataType n) [nf_value nf])]))" for t
    using assms by (simp add: add value_add_as_new D map_add_def Let_def)
  moreover have "value_AddData h am (Msg t (?es @ [(val_name, a)])) msk_name (DataTypeCode n) (object_bytes h (nf_mask nf)) =
      (B_NO_ERROR, Msg t (?es @ [(val_name, a), (msk_name, DataArray (DataType n) [nf_mask nf])]))" for t a
    using assms by (simp add: add value_add_as_new D map_add_def Let_def)
  moreover have "value_AddData h am (Msg t (?es @ [(val_name, DataArray (DataType n) [v]), (msk_name, a)])) val_name
        (DataTypeCode n) (object_bytes h d) =
      (B_NO_ERROR, Msg t (?es @ [(val_name, DataArray (DataType n) [v, d]), (msk_name, a)]))"
    if "nf_default nf = Some d" for t v d a
    using assms that by (simp add: add value_add_as_old [where c = "DataType n" and xs = "[v]"] D map_add_def Let_def)
  ultimately show ?thesis
    using assms
    by (simp add: NumericSave_def ValueSave_fresh and_then_def value_CAddInt8_new more_items_def map_add_def
        split: option.split)
qed

lemma StringSave_fresh:
  "ample am \<Longrightarrow> StringSave am vf sf (Msg w []) = (B_NO_ERROR, archive (StringQueryFilter vf sf))"
  by (simp add: StringSave_def ValueSave_fresh and_then_def value_add_new value_add_old [where c = StringArray and xs = "[StringItem (sf_value sf)]"]
      more_items_def map_add_def field_def split: option.split)

lemma RawSave_fresh:
  assumes "ample am" "archivable (RawDataQueryFilter vf rf)"
  shows "RawSave h am vf rf (Msg w []) = (B_NO_ERROR, archive (RawDataQueryFilter vf rf))"
  using assms
  by (auto simp: RawSave_def ValueSave_fresh and_then_def value_add_new value_AddData_buffer buffer_field_def
      archivable_buffer_def map_add_def Let_def split: BufferRef.splits)

lemma SaveKids_fresh:
  assumes "ample am" "\<And>f w. Some f \<in> set kids \<Longrightarrow> save f (Msg w []) = (B_NO_ERROR, archive f)" "None \<notin> set kids"
  shows "SaveKids am save kids (Msg w (kids_field xs)) =
    (B_NO_ERROR, Msg w (kids_field (xs @ map (\<lambda>kid. MessageItem (case kid of None \<Rightarrow> None | Some f \<Rightarrow> Some (archive f))) kids)))"
  using assms(2,3)
proof (induction kids arbitrary: xs)
  case (Cons kid kids)
  obtain f where kid: "kid = Some f" using Cons.prems(2) by (cases kid) auto
  have arch: "archive_of am save f = Some (archive f)"
    using Cons.prems(1) assms(1) by (simp add: archive_of_def kid ampleD)
  have "value_add am (Msg w (kids_field xs)) kid_name (MessageItem (Some (archive f))) =
      (B_NO_ERROR, Msg w (kids_field (xs @ [MessageItem (Some (archive f))])))"
    using assms(1) by (cases "xs = []")
      (simp_all add: kids_field_def value_add_new value_add_old [where c = MessageArray and xs = xs] field_def)
  then show ?case
    using Cons.IH [of "xs @ [MessageItem (Some (archive f))]"] Cons.prems by (simp add: kid arch and_then_def)
qed simp

lemma SaveKids_archive:
  assumes "ample am" "list_all (\<lambda>kid. case kid of None \<Rightarrow> False | Some f \<Rightarrow> archivable f) kids"
    "\<And>f w. Some f \<in> set kids \<Longrightarrow> archivable f \<Longrightarrow> save f (Msg w []) = (B_NO_ERROR, archive f)"
  shows "SaveKids am save kids (Msg w []) = (B_NO_ERROR, Msg w (kids_field (map (\<lambda>kid. MessageItem (case kid of None \<Rightarrow> None | Some f \<Rightarrow> Some (archive f))) kids)))"
proof -
  have "None \<notin> set kids" using assms(2) by (auto simp: list_all_iff)
  moreover have "save f (Msg w []) = (B_NO_ERROR, archive f)" if "Some f \<in> set kids" for f w
    using assms(2,3) that by (auto simp: list_all_iff)
  ultimately have "SaveKids am save kids (Msg w (kids_field [])) = (B_NO_ERROR, Msg w (kids_field ([] @ map (\<lambda>kid. MessageItem (case kid of None \<Rightarrow> None | Some f \<Rightarrow> Some (archive f))) kids)))"
    using assms(1) by (intro SaveKids_fresh)
  then show ?thesis by (simp add: kids_field_def)
qed

lemma SaveToArchive_fresh:
  "ample am \<Longrightarrow> archivable f \<Longrightarrow> SaveToArchive h am f (Msg w []) = (B_NO_ERROR, archive f)"
proof (induction f arbitrary: w)
  case (WhatCodeQueryFilter lo hi)
  then show ?case by (simp add: and_then_def value_add_new)
next
  case (ValueExistsQueryFilter vf tc)
  then show ?case by (simp add: ValueSave_fresh and_then_def value_add_new)
next
  case (MessageQueryFilter vf child)
  then show ?case
    by (auto simp: ValueSave_fresh value_add_new archive_of_def ampleD kids_field_def field_def Let_def split: option.split)
next
  case (NandNotQueryFilter kids k)
  have kids: "SaveKids am (SaveToArchive h am) kids (Msg t []) = (B_NO_ERROR, Msg t (kids_field (map (\<lambda>kid. MessageItem (case kid of None \<Rightarrow> None | Some f \<Rightarrow> Some (archive f))) kids)))" for t
    by (rule SaveKids_archive) (use NandNotQueryFilter in \<open>auto simp: list_all_iff\<close>)
  then show ?case using NandNotQueryFilter.prems(1) by (simp add: and_then_def value_add_new kids_field_def)
next
  case (AndOrQueryFilter kids k)
  have kids: "SaveKids am (SaveToArchive h am) kids (Msg t []) = (B_NO_ERROR, Msg t (kids_field (map (\<lambda>kid. MessageItem (case kid of None \<Rightarrow> None | Some f \<Rightarrow> Some (archive f))) kids)))" for t
    by (rule SaveKids_archive) (use AndOrQueryFilter in \<open>auto simp: list_all_iff\<close>)
  then show ?case using AndOrQueryFilter.prems(1) by (simp add: and_then_def value_add_new kids_field_def)
next
  case (XorQueryFilter kids)
  have "SaveKids am (SaveToArchive h am) kids (Msg t []) = (B_NO_ERROR, Msg t (kids_field (map (\<lambda>kid. MessageItem (case kid of None \<Rightarrow> None | Some f \<Rightarrow> Some (archive f))) kids)))" for t
    by (rule SaveKids_archive) (use XorQueryFilter in \<open>auto simp: list_all_iff\<close>)
  then show ?case by simp
qed (simp_all only: SaveToArchive.simps NumericSave_fresh StringSave_fresh RawSave_fresh)

end
