(* ===== verification/Filter_Restore.thy ===== *)
theory Filter_Restore
  imports Filter_Save
begin

section \<open>The filter of an archive\<close>

text \<open>
  The factory makes of the archive of a filter the filter again, and an archive is a well-formed Message,
  so it can be sent to another host as one.
\<close>

subsection \<open>Looking up\<close>

lemmas find_simps = Message_FindItem_def Message_GetArray_def find_array_def Array_FindDataItem_def array_matches_def
  Array_TypeCode_def

lemma new_filter_TypeCode:
  "\<exists>f'. new_filter h (TypeCode f) = Some f' \<and>
     (case f of
        WhatCodeQueryFilter _ _ \<Rightarrow> f' = WhatCodeQueryFilter 0 0
      | ValueExistsQueryFilter _ _ \<Rightarrow> f' = ValueExistsQueryFilter no_value B_ANY_TYPE
      | NumericQueryFilter n _ _ \<Rightarrow> f' = new_numeric n
      | StringQueryFilter _ _ \<Rightarrow> \<exists>sf. f' = StringQueryFilter no_value sf
      | MessageQueryFilter _ _ \<Rightarrow> f' = MessageQueryFilter no_value None
      | RawDataQueryFilter _ _ \<Rightarrow> \<exists>rf. f' = RawDataQueryFilter no_value rf
      | NandNotQueryFilter _ _ \<Rightarrow> f' = NandNotQueryFilter [] 0
      | AndOrQueryFilter _ _ \<Rightarrow> f' = AndOrQueryFilter [] MUSCLE_NO_LIMIT
      | XorQueryFilter _ \<Rightarrow> f' = XorQueryFilter [])"
proof (cases f)
  case (NumericQueryFilter n vf nf)
  then show ?thesis by (cases n) (simp_all add: new_filter_def QUERY_FILTER_TYPE_WHATCODE_def)
qed (simp_all add: new_filter_def QUERY_FILTER_TYPE_WHATCODE_def)

lemma ValueSet_fields:
  assumes "map_of es fn_name = map_of (value_fields vf) fn_name" "map_of es idx_name = map_of (value_fields vf) idx_name"
  shows "ValueSet tc vf0 (Msg tc es) = (B_NO_ERROR, vf)"
  using assms by (auto simp: ValueSet_def Message_FindInt32_def Message_FindString_def find_simps)

lemma FindData_value:
  assumes "map_of es name = Some (DataArray (DataType n) xs)" "n \<noteq> NRect"
  shows "Message_FindData h (Msg w es) name (DataTypeCode n) i =
    Ok (if unat i < length xs then Some (ItemPtr (xs ! unat i), word_of_nat (class_sizeof (DataType n))) else None)"
  using assms DataType_facts [OF assms(2)] by (simp add: Message_FindData_def find_simps)

lemma as_type_same: "n \<noteq> NRect \<Longrightarrow> as_type n x = x"
  by (simp add: as_type_def split: DataItem.split)

lemma NumericSet_archive:
  assumes "archivable (NumericQueryFilter n vf nf)"
  shows "NumericSet h n vf0 nf0 (archive (NumericQueryFilter n vf nf)) = Ok (B_NO_ERROR, NumericQueryFilter n vf nf)"
proof -
  have n: "n \<noteq> NRect" using assms by simp
  define es where "es = m_entries (archive (NumericQueryFilter n vf nf))"
  have a: "archive (NumericQueryFilter n vf nf) = Msg (NumericTypeCode n) es" by (simp add: es_def)
  have at: "map_of es val_name = Some (DataArray (DataType n) (nf_value nf # (case nf_default nf of None \<Rightarrow> [] | Some y \<Rightarrow> [y])))"
    "map_of es msk_name = Some (DataArray (DataType n) [nf_mask nf])"
    "map_of es fn_name = map_of (value_fields vf) fn_name" "map_of es idx_name = map_of (value_fields vf) idx_name"
    by (simp_all add: es_def map_add_def more_items_def)
  have ops: "Message_GetInt8 (Msg (NumericTypeCode n) es) op_name = nf_op nf"
    "Message_GetInt8 (Msg (NumericTypeCode n) es) mop_name = nf_maskOp nf"
    by (simp_all add: es_def map_add_def more_items_def Message_GetInt8_def Message_FindInt8_def find_simps)
  have sz: "unat (word_of_nat (class_sizeof (DataType n)) :: u32) = class_sizeof (DataType n)"
    using DataType_facts(9) [OF n] by (rule unat_word_of_nat_u32)
  show ?thesis
    unfolding a NumericSet_def ValueSet_fields [OF at(3,4)] FindData_value [OF at(1) n] FindData_value [OF at(2) n] ops
    by (cases "nf_default nf") (simp_all add: sz as_type_same [OF n])
qed

lemma StringSet_archive:
  "StringSet vf0 sf0 (archive (StringQueryFilter vf sf)) = (B_NO_ERROR, StringQueryFilter vf sf)"
proof -
  define es where "es = m_entries (archive (StringQueryFilter vf sf))"
  have a: "archive (StringQueryFilter vf sf) = Msg (QUERY_FILTER_TYPE_WHATCODE + 11) es" by (simp add: es_def)
  have at: "map_of es val_name = Some (DataArray StringArray (StringItem (sf_value sf) #
      (case map_option StringItem (sf_default sf) of None \<Rightarrow> [] | Some y \<Rightarrow> [y])))"
    "map_of es op_name = Some (DataArray Int8Array [Int8Item (sf_op sf)])"
    "map_of es fn_name = map_of (value_fields vf) fn_name" "map_of es idx_name = map_of (value_fields vf) idx_name"
    by (simp_all add: es_def map_add_def more_items_def)
  show ?thesis
    unfolding a StringSet_def ValueSet_fields [OF at(3,4)]
    by (cases "sf_default sf") (simp_all add: Message_FindString_def Message_FindInt8_def find_simps at)
qed

lemma archived_buffer_field:
  assumes "ample am" "archivable_buffer b" "map_of es name = map_of (buffer_field name b) name"
  shows "archived_buffer h am (Msg w es) name = Ok (Some b)"
proof -
  have "GetElementSize B_RAW_TYPE = 0" "B_RAW_TYPE \<noteq> B_STRING_TYPE"
    by (simp add: GetElementSize_def, simp add: type_code_defs)
  then show ?thesis
    using assms
    by (cases b) (auto simp: archived_buffer_def Message_FindData_def find_simps buffer_field_def archivable_buffer_def
        pool_buffer_def pointer_bytes_def ampleD unat_word_of_nat_u32)
qed

lemma RawSet_archive:
  assumes "ample am" "archivable (RawDataQueryFilter vf rf)"
  shows "RawSet h am vf0 rf0 (archive (RawDataQueryFilter vf rf)) = Ok (B_NO_ERROR, RawDataQueryFilter vf rf)"
proof -
  define es where "es = m_entries (archive (RawDataQueryFilter vf rf))"
  have a: "archive (RawDataQueryFilter vf rf) = Msg (QUERY_FILTER_TYPE_WHATCODE + 13) es" by (simp add: es_def)
  have at: "map_of es op_name = Some (DataArray Int8Array [Int8Item (rf_op rf)])"
    "map_of es val_name = map_of (buffer_field val_name (rf_value rf)) val_name"
    "map_of es def_name = map_of (buffer_field def_name (rf_default rf)) def_name"
    "map_of es type_name = (if rf_typeCode rf = B_ANY_TYPE then None else Some (DataArray Int32Array [Int32Item (rf_typeCode rf)]))"
    "map_of es fn_name = map_of (value_fields vf) fn_name" "map_of es idx_name = map_of (value_fields vf) idx_name"
    by (auto simp: es_def map_add_def buffer_field_def split: BufferRef.splits option.splits)
  have buf: "archived_buffer h am (Msg t es) val_name = Ok (Some (rf_value rf))"
    "archived_buffer h am (Msg t es) def_name = Ok (Some (rf_default rf))" for t
    using assms by (auto intro: archived_buffer_field at(2,3))
  show ?thesis
    unfolding a RawSet_def ValueSet_fields [OF at(5,6)] buf
    by (simp add: Message_FindInt8_def Message_FindInt32_def find_simps at(1,4))
qed

lemma SetKids_archive:
  assumes "ample am" "list_all (\<lambda>kid. case kid of None \<Rightarrow> False | Some f \<Rightarrow> create (archive f) = Ok (Some f)) kids"
  shows "SetKids am create (map (\<lambda>kid. MessageItem (case kid of None \<Rightarrow> None | Some f \<Rightarrow> Some (archive f))) kids) acc =
    Ok (B_NO_ERROR, acc @ kids)"
  using assms(2)
proof (induction kids arbitrary: acc)
  case (Cons kid kids)
  then show ?case using ampleD(3) [OF assms(1)] by (cases kid) auto
qed simp

lemma kid_items_field:
  assumes "map_of es kid_name = map_of (kids_field xs) kid_name"
  shows "kid_items (Msg w es) = xs"
  using assms by (simp add: kid_items_def find_simps kids_field_def)

lemma SetKids_archive_create:
  assumes "ample am" "list_all (\<lambda>kid. case kid of None \<Rightarrow> False | Some f \<Rightarrow> archivable f) kids"
    "\<And>f. Some f \<in> set kids \<Longrightarrow> archivable f \<Longrightarrow> create (archive f) = Ok (Some f)"
    "map_of es kid_name = map_of (kids_field (map (\<lambda>kid. MessageItem (case kid of None \<Rightarrow> None | Some f \<Rightarrow> Some (archive f))) kids)) kid_name"
  shows "MultiSet am create tc old (Msg tc es) = Ok (B_NO_ERROR, kids)"
proof -
  have "list_all (\<lambda>kid. case kid of None \<Rightarrow> False | Some f \<Rightarrow> create (archive f) = Ok (Some f)) kids"
    using assms(2,3) by (auto simp: list_all_iff split: option.splits)
  from SetKids_archive [OF assms(1) this, of "[]"] show ?thesis
    by (simp add: MultiSet_def kid_items_field [OF assms(4)])
qed

lemma map_of_kids_field [simp]:
  "map_of (kids_field xs) n = (if n = kid_name \<and> xs \<noteq> [] then Some (DataArray MessageArray xs) else None)"
  by (simp add: kids_field_def)

lemma CreateQueryFilter_archive:
  assumes "ample am"
  shows "archivable f \<Longrightarrow> CreateQueryFilter h am (archive f) = Ok (Some f)"
proof (induction f)
  case (WhatCodeQueryFilter lo hi)
  show ?case
    using new_filter_TypeCode [of h "WhatCodeQueryFilter lo hi"] assms
    by (subst CreateQueryFilter.simps) (auto simp: ampleD SetFromArchive_def Message_FindInt32_def find_simps)
next
  case (ValueExistsQueryFilter vf tc)
  let ?es = "value_fields vf @ opt_field (tc = B_ANY_TYPE) type_name (Int32Item tc)"
  have v: "ValueSet (QUERY_FILTER_TYPE_WHATCODE + 1) vf0 (Msg (QUERY_FILTER_TYPE_WHATCODE + 1) ?es) = (B_NO_ERROR, vf)" for vf0
    by (rule ValueSet_fields) (simp_all add: map_add_def)
  show ?case
    using new_filter_TypeCode [of h "ValueExistsQueryFilter vf tc"] assms
    by (subst CreateQueryFilter.simps)
      (auto simp: ampleD SetFromArchive_def v Message_FindInt32_def find_simps map_add_def)
next
  case (NumericQueryFilter n vf nf)
  show ?case
    using new_filter_TypeCode [of h "NumericQueryFilter n vf nf"] assms NumericSet_archive [OF NumericQueryFilter]
    by (subst CreateQueryFilter.simps) (auto simp: ampleD SetFromArchive_def new_numeric_def)
next
  case (StringQueryFilter vf sf)
  show ?case
    using new_filter_TypeCode [of h "StringQueryFilter vf sf"] assms StringSet_archive [of _ _ vf sf]
    by (subst CreateQueryFilter.simps) (auto simp: ampleD SetFromArchive_def)
next
  case (RawDataQueryFilter vf rf)
  show ?case
    using new_filter_TypeCode [of h "RawDataQueryFilter vf rf"] assms RawSet_archive [OF assms RawDataQueryFilter]
    by (subst CreateQueryFilter.simps) (auto simp: ampleD SetFromArchive_def)
next
  case (MessageQueryFilter vf child)
  let ?es = "value_fields vf @ kids_field (case child of None \<Rightarrow> [] | Some f \<Rightarrow> [MessageItem (Some (archive f))])"
  have v: "ValueSet (QUERY_FILTER_TYPE_WHATCODE + 12) vf0 (Msg (QUERY_FILTER_TYPE_WHATCODE + 12) ?es) = (B_NO_ERROR, vf)" for vf0
    by (rule ValueSet_fields) (simp_all add: map_add_def)
  have "Message_FindMessage (Msg t ?es) kid_name 0 = (case child of None \<Rightarrow> None | Some f \<Rightarrow> Some (Some (archive f)))" for t
    by (simp add: Message_FindMessage_def find_simps map_add_def split: option.split)
  then show ?case
    using new_filter_TypeCode [of h "MessageQueryFilter vf child"] assms MessageQueryFilter
    by (subst CreateQueryFilter.simps) (auto simp: ampleD SetFromArchive_def v split: option.splits)
next
  case (NandNotQueryFilter kids k)
  let ?es = "kids_field (map (\<lambda>kid. MessageItem (case kid of None \<Rightarrow> None | Some f \<Rightarrow> Some (archive f))) kids) @ opt_field (k = 0) max_name (Int32Item k)"
  have kids: "MultiSet am (CreateQueryFilter h am) (QUERY_FILTER_TYPE_WHATCODE + 14) [] (Msg (QUERY_FILTER_TYPE_WHATCODE + 14) ?es) =
      Ok (B_NO_ERROR, kids)"
    by (rule SetKids_archive_create [OF assms]) (use NandNotQueryFilter in \<open>auto simp: map_add_def\<close>)
  then show ?case
    using new_filter_TypeCode [of h "NandNotQueryFilter kids k"] assms
    by (subst CreateQueryFilter.simps)
      (auto simp: ampleD SetFromArchive_def Message_FindInt32_def find_simps map_add_def)
next
  case (AndOrQueryFilter kids k)
  let ?es = "kids_field (map (\<lambda>kid. MessageItem (case kid of None \<Rightarrow> None | Some f \<Rightarrow> Some (archive f))) kids) @ opt_field (k = MUSCLE_NO_LIMIT) min_name (Int32Item k)"
  have kids: "MultiSet am (CreateQueryFilter h am) (QUERY_FILTER_TYPE_WHATCODE + 15) [] (Msg (QUERY_FILTER_TYPE_WHATCODE + 15) ?es) =
      Ok (B_NO_ERROR, kids)"
    by (rule SetKids_archive_create [OF assms]) (use AndOrQueryFilter in \<open>auto simp: map_add_def\<close>)
  then show ?case
    using new_filter_TypeCode [of h "AndOrQueryFilter kids k"] assms
    by (subst CreateQueryFilter.simps)
      (auto simp: ampleD SetFromArchive_def Message_FindInt32_def find_simps map_add_def)
next
  case (XorQueryFilter kids)
  have kids: "MultiSet am (CreateQueryFilter h am) (QUERY_FILTER_TYPE_WHATCODE + 16) []
        (Msg (QUERY_FILTER_TYPE_WHATCODE + 16) (kids_field (map (\<lambda>kid. MessageItem (case kid of None \<Rightarrow> None | Some f \<Rightarrow> Some (archive f))) kids))) = Ok (B_NO_ERROR, kids)"
    by (rule SetKids_archive_create [OF assms]) (use XorQueryFilter in auto)
  then show ?case
    using new_filter_TypeCode [of h "XorQueryFilter kids"] assms
    by (subst CreateQueryFilter.simps) (auto simp: ampleD SetFromArchive_def)
qed

subsection \<open>Archives are well-formed Messages\<close>

definition good_array :: "Message DataArray \<Rightarrow> bool" where
  "good_array a \<longleftrightarrow> new_class (Array_TypeCode a) = da_class a \<and> Array_IsFlattenable a
     \<and> (\<forall>x \<in> set (da_items a). full_item (da_class a) x \<and>
          (\<forall>m \<in> set_DataItem x. full_message m \<and> Message_strip m = m))"

definition good_fields :: "(u8 list \<times> Message DataArray) list \<Rightarrow> bool" where
  "good_fields es \<longleftrightarrow> list_all (\<lambda>(n, a). 0 \<notin> set n \<and> good_array a) es"

lemma good_strip: "good_array a \<Longrightarrow> map_DataArray Message_strip a = a"
  by (cases a) (auto simp: good_array_def intro!: map_idI DataItem.map_ident_strong)

lemma good_message:
  assumes "good_fields es" "distinct (map fst es)"
  shows "full_message (Msg w es)" "Message_strip (Msg w es) = Msg w es"
proof -
  have g: "0 \<notin> set n" "good_array a" if "(n, a) \<in> set es" for n a
    using assms(1) that by (auto simp: good_fields_def list_all_iff)
  have "wf_entries es" using g assms(2) by (auto simp: wf_entries_def good_array_def)
  moreover have "array_all full_item full_message a" if "(n, a) \<in> set es" for n a
    using g(2) [OF that] by (auto simp: array_all_def good_array_def)
  ultimately show "full_message (Msg w es)" by (auto simp: list_all_iff)
  have f: "flattenables es = es"
    unfolding flattenables_def by (rule filter_True) (use g(2) in \<open>auto simp: good_array_def\<close>)
  have "map (\<lambda>(n, a). (n, map_DataArray Message_strip a)) es = es"
    by (rule map_idI) (use g(2) good_strip in auto)
  then show "Message_strip (Msg w es) = Msg w es" by (simp add: f)
qed

lemma good_fields_simps [simp]:
  "good_fields []" "good_fields (es @ es') \<longleftrightarrow> good_fields es \<and> good_fields es'"
  "good_fields ((n, a) # es) \<longleftrightarrow> 0 \<notin> set n \<and> good_array a \<and> good_fields es"
  by (auto simp: good_fields_def)

lemma names_no_zero [simp]:
  "0 \<notin> set fn_name" "0 \<notin> set idx_name" "0 \<notin> set min_name" "0 \<notin> set max_name" "0 \<notin> set type_name" "0 \<notin> set kid_name"
  "0 \<notin> set val_name" "0 \<notin> set op_name" "0 \<notin> set mop_name" "0 \<notin> set msk_name" "0 \<notin> set def_name"
  by (simp_all add: name_defs)

lemma good_values:
  assumes "n \<noteq> NRect" "\<And>x. x \<in> set xs \<Longrightarrow> has_class (DataType n) x"
  shows "good_array (DataArray (DataType n) xs)"
proof -
  have "full_item (DataType n) x \<and> set_DataItem x = {}" if "has_class (DataType n) x" for x :: "Message DataItem"
    using that assms(1) by (cases n; cases x; simp add: has_class_def full_item_def wf_item_def is_null_item_def)
  moreover have "new_class (DataTypeCode n) = DataType n" "class_code (DataType n) = DataTypeCode n"
    "DataType n \<noteq> TagArray" "DataType n \<noteq> PointerArray"
    using DataType_facts [OF assms(1)] by (cases n; simp)+
  ultimately show ?thesis
    using assms(2) by (auto simp: good_array_def Array_TypeCode_def Array_IsFlattenable_def)
qed

lemma good_items [simp]:
  "good_array (DataArray Int8Array [Int8Item b])" "good_array (DataArray Int32Array [Int32Item i])"
  "good_array (DataArray (ByteBufferArray B_RAW_TYPE) [FlatItem (Some bs)])"
  "0 \<notin> set s \<Longrightarrow> good_array (DataArray StringArray [StringItem s])"
  "0 \<notin> set s \<Longrightarrow> 0 \<notin> set t \<Longrightarrow> good_array (DataArray StringArray [StringItem s, StringItem t])"
  by (simp_all add: good_array_def Array_TypeCode_def Array_IsFlattenable_def full_item_def wf_item_def has_class_def
      is_null_item_def)

lemma good_kids:
  assumes "\<And>x. x \<in> set xs \<Longrightarrow> \<exists>m. x = MessageItem (Some m) \<and> full_message m \<and> Message_strip m = m"
  shows "good_array (DataArray MessageArray xs)"
  using assms by (fastforce simp: good_array_def Array_TypeCode_def Array_IsFlattenable_def full_item_def wf_item_def
      has_class_def is_null_item_def)

lemma good_opt_field [simp]: "good_fields (opt_field c n x) \<longleftrightarrow> c \<or> 0 \<notin> set n \<and> good_array (DataArray (new_class (item_code x)) [x])"
  by (simp add: opt_field_def field_def)

lemma good_field [simp]: "good_fields (field n x # es) \<longleftrightarrow> 0 \<notin> set n \<and> good_array (DataArray (new_class (item_code x)) [x]) \<and> good_fields es"
  by (simp add: field_def)

lemma good_value_fields [simp]: "0 \<notin> set (vf_fieldName vf) \<Longrightarrow> good_fields (value_fields vf)"
  by (simp add: value_fields_def)

lemma names_of_fields [simp]:
  "map fst (opt_field c n x) = (if c then [] else [n])"
  "map fst (value_fields vf) = fn_name # (if vf_index vf = 0 then [] else [idx_name])"
  "map fst (kids_field xs) = (if xs = [] then [] else [kid_name])"
  "map fst (buffer_field n b) = (if b = NullRef then [] else [n])"
  "fst (more_items n cl x d) = n"
  by (simp_all add: value_fields_def kids_field_def buffer_field_def more_items_def split: BufferRef.split)

lemma good_kids_field:
  assumes "list_all (\<lambda>kid. case kid of None \<Rightarrow> False | Some f \<Rightarrow> archivable f) kids"
    "\<And>f. Some f \<in> set kids \<Longrightarrow> archivable f \<Longrightarrow> full_message (archive f) \<and> Message_strip (archive f) = archive f"
  shows "good_fields (kids_field (map (\<lambda>kid. MessageItem (case kid of None \<Rightarrow> None | Some f \<Rightarrow> Some (archive f))) kids))"
proof -
  have "\<exists>f. kid = Some f \<and> full_message (archive f) \<and> Message_strip (archive f) = archive f" if "kid \<in> set kids" for kid
    using assms that by (cases kid) (auto simp: list_all_iff)
  then have "\<exists>m. x = MessageItem (Some m) \<and> full_message m \<and> Message_strip m = m"
    if "x \<in> set (map (\<lambda>kid. MessageItem (case kid of None \<Rightarrow> None | Some f \<Rightarrow> Some (archive f))) kids)" for x
    using that by fastforce
  from good_kids [of "map (\<lambda>kid. MessageItem (case kid of None \<Rightarrow> None | Some f \<Rightarrow> Some (archive f))) kids", OF this]
  show ?thesis unfolding kids_field_def by simp
qed

lemma archive_well_formed:
  "archivable f \<Longrightarrow> full_message (archive f) \<and> Message_strip (archive f) = archive f"
proof (induction f)
  case (WhatCodeQueryFilter lo hi)
  show ?case unfolding archive.simps by (intro conjI good_message) simp_all
next
  case (ValueExistsQueryFilter vf tc)
  then show ?case unfolding archive.simps by (intro conjI good_message) simp_all
next
  case (NumericQueryFilter n vf nf)
  then have "good_array (DataArray (DataType n) (nf_value nf # (case nf_default nf of None \<Rightarrow> [] | Some y \<Rightarrow> [y])))"
    "good_array (DataArray (DataType n) [nf_mask nf])"
    by (auto intro!: good_values split: option.splits)
  with NumericQueryFilter show ?case
    unfolding archive.simps by (intro conjI good_message) (simp_all add: more_items_def)
next
  case (StringQueryFilter vf sf)
  then show ?case
    unfolding archive.simps by (intro conjI good_message) (auto simp: more_items_def split: option.split)
next
  case (MessageQueryFilter vf child)
  then have "good_fields (kids_field (case child of None \<Rightarrow> [] | Some f \<Rightarrow> [MessageItem (Some (archive f))]))"
    by (auto simp: kids_field_def intro!: good_kids split: option.splits)
  with MessageQueryFilter show ?case unfolding archive.simps by (intro conjI good_message) (simp_all split: option.split)
next
  case (RawDataQueryFilter vf rf)
  then show ?case
    unfolding archive.simps by (intro conjI good_message) (auto simp: buffer_field_def split: BufferRef.splits)
next
  case (NandNotQueryFilter kids k)
  then have "good_fields (kids_field (map (\<lambda>kid. MessageItem (case kid of None \<Rightarrow> None | Some f \<Rightarrow> Some (archive f))) kids))"
    by (intro good_kids_field) auto
  then show ?case unfolding archive.simps by (intro conjI good_message) simp_all
next
  case (AndOrQueryFilter kids k)
  then have "good_fields (kids_field (map (\<lambda>kid. MessageItem (case kid of None \<Rightarrow> None | Some f \<Rightarrow> Some (archive f))) kids))"
    by (intro good_kids_field) auto
  then show ?case unfolding archive.simps by (intro conjI good_message) simp_all
next
  case (XorQueryFilter kids)
  then have "good_fields (kids_field (map (\<lambda>kid. MessageItem (case kid of None \<Rightarrow> None | Some f \<Rightarrow> Some (archive f))) kids))"
    by (intro good_kids_field) auto
  then show ?case unfolding archive.simps by (intro conjI good_message) simp_all
qed

end
