(* ===== verification/Message_Accept.thy ===== *)
theory Message_Accept
  imports Message_Parse Message_Reach
begin

section \<open>What Message::Unflatten accepts\<close>

text \<open>
  Whatever bytes \<^verbatim>\<open>Message::Unflatten\<close> of \<^verbatim>\<open>source/muscle/message/Message.cpp\<close> accepts, the Message that it
  makes of them is well-formed, down to the last sub-Message: every name once, every item of the type of
  its field, no zero in a string, no NULL reference, no tags and no pointers.
\<close>

text \<open>No field of tags or pointers, which are not flattened.\<close>

definition accepted_entries :: "(u8 list \<times> Message DataArray) list \<Rightarrow> bool" where
  "accepted_entries es \<longleftrightarrow> wf_entries es \<and> list_all (\<lambda>(n, a). Array_IsFlattenable a) es"

abbreviation accepted :: "Message \<Rightarrow> bool" where "accepted \<equiv> deep accepted_entries full_item"

definition accepted_items :: "ArrayClass \<Rightarrow> Message DataItem list \<Rightarrow> bool" where
  "accepted_items c xs \<longleftrightarrow> (\<forall>x \<in> set xs. full_item c x \<and> (\<forall>m \<in> set_DataItem x. accepted m))"

lemma accepted_items_simps [simp]:
  "accepted_items c []" "accepted_items c (xs @ ys) \<longleftrightarrow> accepted_items c xs \<and> accepted_items c ys"
  "accepted_items c (x # xs) \<longleftrightarrow> full_item c x \<and> (\<forall>m \<in> set_DataItem x. accepted m) \<and> accepted_items c xs"
  by (auto simp: accepted_items_def)

lemma full_items [simp]:
  "full_item StringArray (StringItem s) \<longleftrightarrow> 0 \<notin> set s" "full_item (ByteBufferArray tc) (FlatItem (Some bs))"
  "full_item MessageArray (MessageItem (Some m))"
  by (simp_all add: full_item_def wf_item_def has_class_def is_null_item_def)

subsection \<open>Results of calls\<close>

text \<open>If the call returns, its result has the property.\<close>

definition returns :: "('a \<Rightarrow> bool) \<Rightarrow> 'a outcome \<Rightarrow> bool" where
  "returns P r \<longleftrightarrow> (\<forall>a. r = Ok a \<longrightarrow> P a)"

lemma returns_simps [simp]: "returns P (Ok a) \<longleftrightarrow> P a" "returns P Fault" "returns P Spin"
  by (simp_all add: returns_def)

lemma returnsD: "returns P r \<Longrightarrow> r = Ok a \<Longrightarrow> P a"
  by (simp add: returns_def)

lemma returns_obind: "(\<And>a. r = Ok a \<Longrightarrow> returns P (k a)) \<Longrightarrow> returns P (obind r k)"
  by (cases r) simp_all

lemma returns_obind_post: "returns Q r \<Longrightarrow> (\<And>a. Q a \<Longrightarrow> returns P (k a)) \<Longrightarrow> returns P (obind r k)"
  by (cases r) simp_all

lemma returns_read_u32: "returns P err \<Longrightarrow> (\<And>v p. returns P (k v p)) \<Longrightarrow> returns P (read_u32 mem inSize off err k)"
  unfolding read_u32_def by (rule returns_obind) (auto split: option.split)

subsection \<open>The arrays\<close>

lemma full_fixed_item:
  "is_value_class c \<Longrightarrow> full_item c (fixed_item c bs) \<and> set_DataItem (fixed_item c bs :: Message DataItem) = {}"
  by (cases c) (simp_all add: full_item_def wf_item_def has_class_def is_null_item_def is_value_class_def)

lemma fixed_items_accepted:
  "is_value_class c \<Longrightarrow> returns (accepted_items c) (UnflattenFixedItems c n mem off)"
proof (induction n arbitrary: off)
  case (Suc n)
  show ?case
    by (auto intro!: returns_obind simp: full_fixed_item [OF Suc.prems] returnsD [OF Suc.IH [OF Suc.prems]])
qed simp

lemma SetCstr_no_zero: "returns (\<lambda>r. \<forall>s. r = Some s \<longrightarrow> 0 \<notin> set s) (SetCstr am str k)"
  by (auto simp: SetCstr_def Let_def dest: set_takeWhileD)

abbreviation items_result :: "ArrayClass \<Rightarrow> Message DataItem list option outcome \<Rightarrow> bool" where
  "items_result c \<equiv> returns (\<lambda>r. \<forall>xs. r = Some xs \<longrightarrow> accepted_items c xs)"

lemma strings_accepted:
  "accepted_items StringArray acc \<Longrightarrow> items_result StringArray (UnflattenStrings am n mem inSize off acc)"
proof (induction n arbitrary: off acc)
  case (Suc n)
  have str: "items_result StringArray (UnflattenStrings am n mem inSize off' (acc @ [StringItem s]))" if "0 \<notin> set s" for off' s
    using Suc that by simp
  show ?case
    unfolding UnflattenStrings.simps
    by (rule returns_read_u32) (auto intro!: returns_obind_post [OF SetCstr_no_zero] str split: option.split)
qed simp

lemma buffers_accepted:
  "accepted_items (ByteBufferArray tc) acc \<Longrightarrow>
   items_result (ByteBufferArray tc) (UnflattenByteBuffers am n mem inSize off acc)"
proof (induction n arbitrary: off acc)
  case (Suc n)
  have buf: "items_result (ByteBufferArray tc) (UnflattenByteBuffers am n mem inSize off' (acc @ [FlatItem (Some bs)]))" for off' bs
    using Suc by simp
  show ?case unfolding UnflattenByteBuffers.simps by (rule returns_read_u32) (auto intro!: returns_obind buf)
qed simp

lemma submessages_accepted:
  assumes "\<And>mem' k. returns (\<lambda>r. \<forall>m. r = Some m \<longrightarrow> accepted m) (unflat mem' k)"
  shows "accepted_items MessageArray acc \<Longrightarrow>
    items_result MessageArray (UnflattenSubMessages unflat am n mem inSize off acc)"
proof (induction n arbitrary: off acc)
  case 0
  then show ?case by (subst UnflattenSubMessages.simps) simp
next
  case (Suc n)
  have sub: "items_result MessageArray (UnflattenSubMessages unflat am n mem inSize off' (acc @ [MessageItem (Some m)]))"
    if "accepted m" for off' m using Suc that by simp
  show ?case
    using Suc.prems
    by (subst UnflattenSubMessages.simps)
      (auto intro!: returns_read_u32 returns_obind_post [OF assms] sub split: option.split)
qed

lemma array_accepted:
  assumes "\<And>mem' k. returns (\<lambda>r. \<forall>m. r = Some m \<longrightarrow> accepted m) (unflat mem' k)"
  shows "returns (\<lambda>r. \<forall>xs. r = Some xs \<longrightarrow> accepted_items c xs \<and> c \<noteq> TagArray \<and> c \<noteq> PointerArray)
    (Array_Unflatten unflat am fuel c mem inSize)"
proof -
  have weaken: "returns (\<lambda>r. \<forall>xs. r = Some xs \<longrightarrow> accepted_items c xs \<and> c \<noteq> TagArray \<and> c \<noteq> PointerArray) r"
    if "items_result c r" "c \<noteq> TagArray" "c \<noteq> PointerArray" for r using that by (simp add: returns_def)
  show ?thesis
  proof (cases c)
    case StringArray
    then show ?thesis
      by (auto simp: Array_Unflatten_def intro!: returns_read_u32 weaken [unfolded StringArray] strings_accepted)
  next
    case (ByteBufferArray tc)
    then show ?thesis
      by (auto simp: Array_Unflatten_def intro!: returns_read_u32 weaken [unfolded ByteBufferArray] buffers_accepted)
  next
    case MessageArray
    then show ?thesis
      by (auto simp: Array_Unflatten_def intro!: weaken [unfolded MessageArray] submessages_accepted [OF assms])
  qed (auto simp: Array_Unflatten_def Let_def is_value_class_def
      intro!: returns_obind_post [OF fixed_items_accepted])
qed

subsection \<open>The entries\<close>

definition accepted_table :: "(u8 list \<times> Message DataArray) list \<Rightarrow> bool" where
  "accepted_table es \<longleftrightarrow> distinct (map fst es) \<and>
     (\<forall>(n, a) \<in> set es. 0 \<notin> set n \<and> new_class (Array_TypeCode a) = da_class a \<and> Array_IsFlattenable a
       \<and> accepted_items (da_class a) (da_items a))"

lemma accepted_Msg: "accepted (Msg w es) \<longleftrightarrow> accepted_table es"
  by (auto simp: accepted_table_def accepted_entries_def wf_entries_def list_all_iff array_all_def accepted_items_def)

lemma get_or_create_accepted:
  assumes "accepted_table es" "get_or_create am es name tc = Some (es', c)" "0 \<notin> set name"
    "accepted_items c xs" "c \<noteq> TagArray" "c \<noteq> PointerArray"
  shows "accepted_table (set_items es' name xs)"
proof (cases "find_array es name tc")
  case (Some a)
  then have es': "es' = es" "c = da_class a" using assms(2) by (simp_all add: get_or_create_def)
  have a: "map_of es name = Some a" using Some by (auto simp: find_array_def split: option.splits if_splits)
  have "b = a" if "(name, b) \<in> set es" for b
    using assms(1) a that by (auto simp: accepted_table_def)
  then show ?thesis
    using assms(1,4) es'
    by (auto simp: accepted_table_def set_items_def comp_def split_def Array_TypeCode_def Array_IsFlattenable_def)
next
  case None
  then have n: "map_of es name = None" and es': "es' = es @ [(name, DataArray (new_class tc) [])]" "c = new_class tc"
    using assms(2) by (auto simp: get_or_create_def split: if_splits)
  have nin: "name \<notin> fst ` set es" using n by (simp add: map_of_eq_None_iff)
  then show ?thesis
    unfolding es'(1) set_items_last [OF nin]
    using assms es'(2) by (auto simp: accepted_table_def Array_TypeCode_def Array_IsFlattenable_def)
qed

lemma entry_accepted:
  assumes "\<And>mem' k. returns (\<lambda>r. \<forall>m. r = Some m \<longrightarrow> accepted m) (unflat mem' k)" "accepted_table es"
  shows "returns (\<lambda>(st, es', off). st = B_NO_ERROR \<longrightarrow> accepted_table es')
    (Message_UnflattenEntry unflat am fuel es mem inSize off)"
  unfolding Message_UnflattenEntry_def Let_def
  by (intro returns_read_u32, auto intro!: returns_read_u32 returns_obind_post [OF SetCstr_no_zero]
        returns_obind_post [OF array_accepted [OF assms(1)]] get_or_create_accepted [OF assms(2)] split: option.split)
    blast+

lemma entries_accepted:
  assumes "\<And>mem' k. returns (\<lambda>r. \<forall>m. r = Some m \<longrightarrow> accepted m) (unflat mem' k)"
  shows "accepted_table es \<Longrightarrow> returns (\<lambda>(st, es'). st = B_NO_ERROR \<longrightarrow> accepted_table es')
    (Message_UnflattenEntries unflat am fuel k es mem inSize off)"
proof (induction k arbitrary: es off)
  case (Suc k)
  show ?case
    unfolding Message_UnflattenEntries.simps
    by (rule returns_obind_post [OF entry_accepted [OF assms Suc.prems]])
      (use Suc.IH in \<open>auto split: prod.split\<close>)
qed simp

lemma unflatten_accepted:
  "returns (\<lambda>(st, m). st = B_NO_ERROR \<longrightarrow> accepted m) (Message_Unflatten am fuel w0 mem inSize)"
proof (induction fuel arbitrary: w0 mem inSize)
  case (Suc fuel)
  have sub: "returns (\<lambda>r. \<forall>m. r = Some m \<longrightarrow> accepted m)
      (obind (Message_Unflatten am fuel 0 mem' n) (\<lambda>r. Ok (if fst r = B_NO_ERROR then Some (snd r) else None)))" for mem' n
    by (rule returns_obind_post [OF Suc.IH]) (auto split: if_splits)
  have start: "accepted_table []" by (simp add: accepted_table_def)
  show ?case
    unfolding Message_Unflatten.simps
    by (auto intro!: returns_read_u32 returns_obind_post [OF entries_accepted [OF sub start]]
        simp: accepted_Msg simp del: deep.simps)
qed simp

lemma accepted_full:
  assumes "accepted m"
  shows "full_message m \<and> Message_strip m = m"
  using assms
proof (induction m rule: message_induct)
  case (Msg w es)
  have "full_message (Msg w es)" by (rule deep_mono [OF _ _ Msg.prems]) (simp_all add: accepted_entries_def)
  moreover have "flattenables es = es"
    unfolding flattenables_def by (rule filter_True) (use Msg.prems in \<open>auto simp: accepted_entries_def list_all_iff\<close>)
  moreover have "map_DataArray Message_strip a = a" if e: "(n, a) \<in> set es" for n a
  proof -
    have "Message_strip m = m" if "m \<in> set_DataArray a" for m
      using Msg.IH [OF e that] deep_sub [OF Msg.prems e that] by blast
    then show ?thesis by (cases a) (auto intro!: map_idI DataItem.map_ident_strong)
  qed
  then have "map (\<lambda>(n, a). (n, map_DataArray Message_strip a)) es = es" by (intro map_idI) auto
  ultimately show ?case by simp
qed

end
