(* ===== verification/Filter_Safe.thy ===== *)
theory Filter_Safe
  imports Filter_Restore Message_Accept
begin

section \<open>Filters of a peer\<close>

text \<open>
  A server makes filters of Messages that it receives, and matches them with Messages that others have
  sent.  Making the filter is defined for every Message that \<^verbatim>\<open>Unflatten\<close> accepts; matching it is
  unless a \<^verbatim>\<open>ValueExistsQueryFilter\<close> or a \<^verbatim>\<open>RawDataQueryFilter\<close> in it looks for a value of any type, or a
  \<^verbatim>\<open>StringQueryFilter\<close> has a pattern, which is not modelled.
\<close>

subsection \<open>FindData\<close>

lemma full_array:
  assumes "full_message m" "Message_GetArray m name tc = Some a" "tc \<noteq> B_ANY_TYPE"
  shows "da_class a = new_class tc" "\<And>x. x \<in> set (da_items a) \<Longrightarrow> full_item (new_class tc) x"
    "\<And>x k. x \<in> set (da_items a) \<Longrightarrow> k \<in> set_DataItem x \<Longrightarrow> sub_message k m \<and> full_message k"
proof -
  obtain w es where m: "m = Msg w es" by (cases m)
  have a: "(name, a) \<in> set es" "array_matches tc a" using assms(2)
    by (auto simp: m Message_GetArray_def find_array_def dest: map_of_SomeD split: option.splits if_splits)
  then have "new_class (Array_TypeCode a) = da_class a" "Array_TypeCode a = tc"
    using assms(1,3) by (auto simp: m wf_entries_def array_matches_def)
  then show c: "da_class a = new_class tc" by simp
  note all = deep_array [OF assms(1) [unfolded m] a(1)]
  show "full_item (new_class tc) x" if "x \<in> set (da_items a)" for x using all that by (simp add: array_all_def c)
  show "sub_message k m \<and> full_message k" if "x \<in> set (da_items a)" "k \<in> set_DataItem x" for x k
    using all a(1) that by (force simp: array_all_def sub_message_def m set_DataArray_items)
qed

lemma item_class:
  "has_class StringArray x \<Longrightarrow> \<exists>s. x = StringItem s" "has_class (ByteBufferArray tc) x \<Longrightarrow> \<exists>r. x = FlatItem r"
  "has_class MessageArray x \<Longrightarrow> \<exists>r. x = MessageItem r"
  by (cases x; simp add: has_class_def)+

lemma tag_class: "new_class tc = TagArray \<Longrightarrow> tc = B_TAG_TYPE"
  using new_class_code [of tc] by simp

lemma FindData_full:
  assumes "full_message m" "tc \<noteq> B_ANY_TYPE" "tc = B_TAG_TYPE \<Longrightarrow> Message_GetArray m name tc = None"
  shows "\<exists>r. Message_FindData h m name tc i = Ok r
    \<and> (0 < GetElementSize tc \<and> tc \<noteq> B_STRING_TYPE \<longrightarrow> (case r of None \<Rightarrow> True | Some (p, k) \<Rightarrow> \<exists>x. p = ItemPtr x))"
proof (cases "Message_GetArray m name tc")
  case None
  then show ?thesis by (simp add: Message_FindData_def)
next
  case (Some a)
  show ?thesis
  proof (cases "Array_FindDataItem i a")
    case None
    with Some show ?thesis by (simp add: Message_FindData_def)
  next
    case x: (Some x)
    then have "full_item (new_class tc) x"
      using full_array(2) [OF assms(1) Some assms(2)] by (auto simp: Array_FindDataItem_def split: if_splits)
    then have c: "has_class (new_class tc) x" "\<not> is_null_item x" by (simp_all add: full_item_def wf_item_def)
    consider "tc = B_STRING_TYPE" | "tc \<noteq> B_STRING_TYPE" "0 < GetElementSize tc"
      | "tc \<noteq> B_STRING_TYPE" "GetElementSize tc = 0" by blast
    then show ?thesis
    proof cases
      case 1
      then obtain s where "x = StringItem s" using c(1) item_class(1) [of x] by auto
      with 1 show ?thesis using Some x by (simp add: Message_FindData_def)
    next
      case 2
      then show ?thesis by (simp add: Message_FindData_def Some x)
    next
      case 3
      have "new_class tc \<noteq> TagArray" using tag_class [of tc] assms(3) Some by auto
      with 3(2) have "\<exists>t. new_class tc = ByteBufferArray t"
        by (cases "new_class tc") (simp_all add: GetElementSize_def)
      with c(1) have "\<exists>r. x = FlatItem r" using item_class(2) by auto
      with 3 show ?thesis by (auto simp: Message_FindData_def Some x split: option.split)
    qed
  qed
qed

subsection \<open>Making a filter\<close>

definition defined :: "'a outcome \<Rightarrow> bool" where "defined r \<longleftrightarrow> (\<exists>a. r = Ok a)"

lemma defined_simps [simp]: "defined (Ok a)" "\<not> defined Fault" "\<not> defined Spin"
  by (simp_all add: defined_def)

lemma defined_obind: "defined r \<Longrightarrow> (\<And>a. r = Ok a \<Longrightarrow> defined (k a)) \<Longrightarrow> defined (obind r k)"
  by (auto simp: defined_def)

lemma FindData_defined: "full_message m \<Longrightarrow> tc \<noteq> B_ANY_TYPE \<Longrightarrow> tc \<noteq> B_TAG_TYPE \<Longrightarrow> defined (Message_FindData h m name tc i)"
  using FindData_full [of m tc name h i] by (auto simp: defined_def)

lemma numeric_codes:
  "DataTypeCode n \<noteq> B_ANY_TYPE" "DataTypeCode n \<noteq> B_TAG_TYPE" "DataTypeCode n \<noteq> B_STRING_TYPE"
  by (cases n; simp add: type_code_defs B_TAG_TYPE_def)+

lemma numeric_size: "0 < GetElementSize (DataTypeCode n)"
  by (cases n) (simp_all add: GetElementSize_def new_class_def type_code_defs B_TAG_TYPE_def)

lemma FindData_numeric:
  assumes "full_message m"
  shows "\<exists>r. Message_FindData h m name (DataTypeCode n) i = Ok r \<and> (case r of None \<Rightarrow> True | Some (p, k) \<Rightarrow> \<exists>x. p = ItemPtr x)"
  using FindData_full [OF assms numeric_codes(1) [of n], of name h i] numeric_codes(2,3) [of n] numeric_size [of n] by blast

lemma NumericSet_defined:
  assumes "full_message m"
  shows "defined (NumericSet h n vf nf m)"
proof -
  obtain r where r: "Message_FindData h m val_name (DataTypeCode n) 0 = Ok r" "case r of None \<Rightarrow> True | Some (p, k) \<Rightarrow> \<exists>x. p = ItemPtr x"
    using FindData_numeric [OF assms] by blast
  obtain r1 r2 where "Message_FindData h m msk_name (DataTypeCode n) 0 = Ok r1" "Message_FindData h m val_name (DataTypeCode n) 1 = Ok r2"
    using FindData_numeric [OF assms] by blast
  then show ?thesis using r by (auto simp: NumericSet_def Let_def split: prod.split option.splits)
qed

lemma RawSet_defined: "full_message m \<Longrightarrow> defined (RawSet h am vf rf m)"
proof -
  assume m: "full_message m"
  have "B_RAW_TYPE \<noteq> B_ANY_TYPE" "B_RAW_TYPE \<noteq> B_TAG_TYPE" by (simp_all add: type_code_defs B_TAG_TYPE_def)
  note find = FindData_defined [OF m this]
  then have "defined (archived_buffer h am m name)" for name
    unfolding archived_buffer_def by (auto intro!: defined_obind)
  then show ?thesis by (auto simp: RawSet_def Let_def intro!: defined_obind split: prod.split option.split)
qed

lemma SetKids_defined:
  assumes "\<And>x. x \<in> set xs \<Longrightarrow> \<exists>k. x = MessageItem (Some k) \<and> defined (create k)"
  shows "defined (SetKids am create xs acc)"
  using assms
proof (induction xs arbitrary: acc)
  case (Cons x xs)
  obtain k where "x = MessageItem (Some k)" "defined (create k)" using Cons.prems [of x] by auto
  moreover have "defined (SetKids am create xs acc')" for acc' using Cons by auto
  ultimately show ?case by (auto intro!: defined_obind split: option.split)
qed simp

lemma message_item_kid:
  assumes "full_message m" "Message_GetArray m kid_name B_MESSAGE_TYPE = Some a" "x \<in> set (da_items a)"
  shows "\<exists>k. x = MessageItem (Some k) \<and> sub_message k m \<and> full_message k"
proof -
  have "B_MESSAGE_TYPE \<noteq> B_ANY_TYPE" by (simp add: type_code_defs)
  note f = full_array [OF assms(1,2) this]
  have "full_item MessageArray x" using f(2) [OF assms(3)] by simp
  then have "has_class MessageArray x" "\<not> is_null_item x" by (simp_all add: full_item_def wf_item_def)
  then obtain k where "x = MessageItem (Some k)"
    using item_class(3) [of x] by (auto simp: is_null_item_def) (metis not_None_eq)
  then show ?thesis using f(3) [OF assms(3), of k] by simp
qed

lemma CreateQueryFilter_defined: "full_message m \<Longrightarrow> defined (CreateQueryFilter h am m)"
proof (induction "size m" arbitrary: m rule: less_induct)
  case less
  have kid: "\<exists>k. x = MessageItem (Some k) \<and> defined (CreateQueryFilter h am k)"
    if "Message_GetArray m kid_name B_MESSAGE_TYPE = Some a" "x \<in> set (da_items a)" for a x
    using message_item_kid [OF less.prems that] less.hyps sub_message_size by blast
  then have "defined (SetKids am (CreateQueryFilter h am) (kid_items m) acc)" for acc
    by (intro SetKids_defined, cases "Message_GetArray m kid_name B_MESSAGE_TYPE") (auto simp: kid_items_def)
  then have multi: "defined (MultiSet am (CreateQueryFilter h am) tc kids m)" for tc kids by (simp add: MultiSet_def)
  have child: "\<exists>k. r = Some k \<and> defined (CreateQueryFilter h am k)" if r: "Message_FindMessage m kid_name 0 = Some r" for r
  proof -
    obtain a where "Message_GetArray m kid_name B_MESSAGE_TYPE = Some a" "MessageItem r \<in> set (da_items a)"
      using FindMessage_in [OF r] by blast
    from kid [OF this] show ?thesis by simp
  qed
  have "defined (SetFromArchive h am (CreateQueryFilter h am) f m)" for f
    using NumericSet_defined [OF less.prems] RawSet_defined [OF less.prems] multi child
    by (cases f) (auto simp: SetFromArchive_def intro!: defined_obind split: prod.splits option.splits)
  then show ?case
    by (subst CreateQueryFilter.simps) (auto intro!: defined_obind split: option.split prod.split)
qed

subsection \<open>Matching\<close>

text \<open>No part of the filter looks for a value of any type.\<close>

fun no_wildcard :: "QueryFilter \<Rightarrow> bool" where
  "no_wildcard (ValueExistsQueryFilter vf tc) \<longleftrightarrow> tc \<noteq> B_ANY_TYPE"
| "no_wildcard (RawDataQueryFilter vf rf) \<longleftrightarrow> rf_typeCode rf \<noteq> B_ANY_TYPE"
| "no_wildcard (MessageQueryFilter vf child) \<longleftrightarrow> (case child of None \<Rightarrow> True | Some f \<Rightarrow> no_wildcard f)"
| "no_wildcard (NandNotQueryFilter kids k) \<longleftrightarrow> list_all (\<lambda>kid. case kid of None \<Rightarrow> True | Some f \<Rightarrow> no_wildcard f) kids"
| "no_wildcard (AndOrQueryFilter kids k) \<longleftrightarrow> list_all (\<lambda>kid. case kid of None \<Rightarrow> True | Some f \<Rightarrow> no_wildcard f) kids"
| "no_wildcard (XorQueryFilter kids) \<longleftrightarrow> list_all (\<lambda>kid. case kid of None \<Rightarrow> True | Some f \<Rightarrow> no_wildcard f) kids"
| "no_wildcard _ \<longleftrightarrow> True"

text \<open>No \<^verbatim>\<open>StringMatcher\<close>: the operators for wildcard patterns and regular expressions do not occur.\<close>

fun no_patterns :: "QueryFilter \<Rightarrow> bool" where
  "no_patterns (StringQueryFilter vf sf) \<longleftrightarrow> sf_op sf \<noteq> 24 \<and> sf_op sf \<noteq> 25"
| "no_patterns (MessageQueryFilter vf child) \<longleftrightarrow> (case child of None \<Rightarrow> True | Some f \<Rightarrow> no_patterns f)"
| "no_patterns (NandNotQueryFilter kids k) \<longleftrightarrow> list_all (\<lambda>kid. case kid of None \<Rightarrow> True | Some f \<Rightarrow> no_patterns f) kids"
| "no_patterns (AndOrQueryFilter kids k) \<longleftrightarrow> list_all (\<lambda>kid. case kid of None \<Rightarrow> True | Some f \<Rightarrow> no_patterns f) kids"
| "no_patterns (XorQueryFilter kids) \<longleftrightarrow> list_all (\<lambda>kid. case kid of None \<Rightarrow> True | Some f \<Rightarrow> no_patterns f) kids"
| "no_patterns _ \<longleftrightarrow> True"

lemma StringMatches_defined:
  assumes "sf_op sf \<noteq> 24" "sf_op sf \<noteq> 25"
  shows "defined (StringMatches h vf sf m)"
proof -
  have "defined (StringMatchesAux h (sf_op sf) (sf_value sf) s)" for s
    by (simp only: StringMatchesAux_def assms if_False if_distrib [of defined] defined_simps if_cancel)
  then show ?thesis by (simp add: StringMatches_def split: option.split)
qed

lemma accepted_no_tags:
  assumes "accepted m"
  shows "Message_GetArray m name B_TAG_TYPE = None"
proof (rule ccontr)
  assume "Message_GetArray m name B_TAG_TYPE \<noteq> None"
  then obtain a where a: "Message_GetArray m name B_TAG_TYPE = Some a" by auto
  obtain w es where m: "m = Msg w es" by (cases m)
  have "full_message m" using accepted_full [OF assms] by simp
  moreover have "new_class B_TAG_TYPE = TagArray" by (simp add: new_class_def type_code_defs B_TAG_TYPE_def)
  moreover have "B_TAG_TYPE \<noteq> B_ANY_TYPE" by (simp add: type_code_defs B_TAG_TYPE_def)
  ultimately have "da_class a = TagArray" using full_array(1) [OF _ a] by simp
  moreover have "Array_IsFlattenable a"
    using assms a by (auto simp: m accepted_entries_def list_all_iff Message_GetArray_def dest!: find_array_in)
  ultimately show False by (simp add: Array_IsFlattenable_def)
qed

lemma FindData_accepted: "accepted m \<Longrightarrow> tc \<noteq> B_ANY_TYPE \<Longrightarrow> defined (Message_FindData h m name tc i)"
  using FindData_full [of m tc name h i] accepted_full [of m] accepted_no_tags [of m name] by (auto simp: defined_def)

lemma NumericMatches_defined: "full_message m \<Longrightarrow> defined (NumericMatches h n vf nf m)"
  using FindData_numeric [of m h "vf_fieldName vf" n "vf_index vf"]
  by (auto simp: NumericMatches_def Let_def split: option.splits prod.splits)

lemma RawMatches_defined: "accepted m \<Longrightarrow> rf_typeCode rf \<noteq> B_ANY_TYPE \<Longrightarrow> defined (RawMatches h vf rf m)"
  unfolding RawMatches_def Let_def
  by (rule defined_obind [OF FindData_accepted]) (auto split: option.split prod.split BufferRef.split)

lemma kid_loops_defined:
  assumes "\<And>f. Some f \<in> set kids \<Longrightarrow> defined (m f)"
  shows "defined (AndOr_loop m t n kids i c)" "defined (NandNot_loop m t n kids i c)" "defined (Xor_loop m kids c)"
  using assms by (induction kids arbitrary: i c) (auto intro!: defined_obind split: option.split)

lemma sub_message_accepted:
  assumes "accepted m" "Message_FindMessage m name i = Some r"
  shows "\<exists>k. r = Some k \<and> accepted k"
proof -
  obtain a where a: "Message_GetArray m name B_MESSAGE_TYPE = Some a" "MessageItem r \<in> set (da_items a)"
    using FindMessage_in [OF assms(2)] by blast
  obtain w es where m: "m = Msg w es" by (cases m)
  have "(name, a) \<in> set es" using a(1) by (auto simp: m Message_GetArray_def dest: find_array_in)
  note all = deep_array [OF assms(1) [unfolded m] this]
  have "full_item (da_class a) (MessageItem r)" using all a(2) by (auto simp: array_all_def)
  then obtain k where "r = Some k" by (cases r) (auto simp: full_item_def is_null_item_def)
  then show ?thesis using all a(2) by (force simp: array_all_def)
qed

lemma Matches_defined: "accepted m \<Longrightarrow> no_wildcard f \<Longrightarrow> no_patterns f \<Longrightarrow> defined (Matches h f (Some m))"
proof (induction f arbitrary: m)
  case (ValueExistsQueryFilter vf tc)
  then show ?case by (auto intro!: defined_obind FindData_accepted)
next
  case (NumericQueryFilter n vf nf)
  then show ?case using NumericMatches_defined accepted_full by simp
next
  case (MessageQueryFilter vf child)
  show ?case
  proof (cases "Message_FindMessage m (vf_fieldName vf) (vf_index vf)")
    case (Some r)
    then obtain k where "r = Some k" "accepted k" using sub_message_accepted [OF MessageQueryFilter.prems(1)] by blast
    with Some MessageQueryFilter show ?thesis by (auto split: option.split)
  qed simp
next
  case (StringQueryFilter vf sf)
  then show ?case by (simp add: StringMatches_defined)
next
  case (RawDataQueryFilter vf rf)
  then show ?case by (simp add: RawMatches_defined)
next
  case (NandNotQueryFilter kids k)
  then show ?case by (auto simp: Let_def list_all_iff split: option.splits intro!: kid_loops_defined)
next
  case (AndOrQueryFilter kids k)
  then show ?case by (auto simp: Let_def list_all_iff split: option.splits intro!: kid_loops_defined)
next
  case (XorQueryFilter kids)
  then show ?case by (auto simp: list_all_iff split: option.splits intro!: kid_loops_defined)
qed simp_all

end
