(* ===== verification/Filter_Bytes.thy ===== *)
theory Filter_Bytes
  imports Filter_Safe
begin

section \<open>Comparing byte buffers\<close>

text \<open>
  \<^verbatim>\<open>MemMem\<close> of \<^verbatim>\<open>source/muscle/util/MiscUtilityFunctions.cpp\<close> against its specification, the operators of
  \<^verbatim>\<open>RawDataQueryFilter\<close> against the order of byte strings, and what some filters do that their
  documentation does not say.
\<close>

subsection \<open>MemMem\<close>

definition occurs_at :: "u8 list \<Rightarrow> u8 list \<Rightarrow> nat \<Rightarrow> bool" where
  "occurs_at lookIn lookFor i \<longleftrightarrow> take (length lookFor) (drop i lookIn) = lookFor"

lemma byte_order_zero: "byte_order xs ys = 0 \<longleftrightarrow> take (length ys) xs = take (length xs) ys"
  by (induction xs ys rule: byte_order.induct) auto

lemma byte_order_occurs:
  "i + length b \<le> length a \<Longrightarrow> byte_order (drop i a) b = 0 \<longleftrightarrow> occurs_at a b i"
  by (simp add: byte_order_zero occurs_at_def)

lemma occurs_length: "occurs_at a b i \<Longrightarrow> b \<noteq> [] \<Longrightarrow> i + length b \<le> length a"
proof -
  assume o: "occurs_at a b i" "b \<noteq> []"
  then have "length (take (length b) (drop i a)) = length b" by (simp add: occurs_at_def)
  then show ?thesis using o(2) by (cases b) auto
qed

lemma occurs_head: "occurs_at a b i \<Longrightarrow> b \<noteq> [] \<Longrightarrow> a ! i = hd b"
proof -
  assume o: "occurs_at a b i" "b \<noteq> []"
  have i: "i + length b \<le> length a" using occurs_length [OF o] .
  have "hd b = take (length b) (drop i a) ! 0" using o by (metis occurs_at_def hd_conv_nth)
  then show ?thesis using i o(2) by (cases b) simp_all
qed

lemma Least_from:
  assumes "P k" "\<And>j. j < k \<Longrightarrow> \<not> P j"
  shows "(LEAST i. P i) = (k :: nat)"
  using assms by (metis Least_equality not_le)

lemma MemMem_loop_first:
  assumes "b \<noteq> []" "i + n + length b = Suc (length a)" "\<And>j. j < i \<Longrightarrow> \<not> occurs_at a b j"
  shows "MemMem_loop a b i n = (if \<exists>j. occurs_at a b j then Some (LEAST j. occurs_at a b j) else None)"
  using assms(2,3)
proof (induction n arbitrary: i)
  case 0
  have "\<not> occurs_at a b j" for j
  proof (cases "j < i")
    case False
    then show ?thesis using occurs_length [of a b j] assms(1) "0.prems"(1) by (cases b) auto
  qed (use 0 in simp)
  then show ?case by simp
next
  case (Suc n)
  have le: "i + length b \<le> length a" using Suc.prems(1) by simp
  show ?case
  proof (cases "occurs_at a b i")
    case True
    then have "(LEAST j. occurs_at a b j) = i" by (rule Least_from) (rule Suc.prems(2))
    then show ?thesis using True occurs_head [OF True assms(1)] byte_order_occurs [OF le] by auto
  next
    case False
    then have "\<not> occurs_at a b j" if "j < Suc i" for j using Suc.prems(2) that by (cases "j = i") auto
    then show ?thesis using Suc.IH [of "Suc i"] Suc.prems(1) False byte_order_occurs [OF le] by simp
  qed
qed

lemma MemMem_first:
  "MemMem a b = (if \<exists>i. occurs_at a b i then Some (LEAST i. occurs_at a b i) else None)"
proof (cases "b = []")
  case True
  have "(LEAST i. occurs_at a b i) = 0" by (rule Least_from) (simp_all add: True occurs_at_def)
  moreover have "occurs_at a b 0" by (simp add: True occurs_at_def)
  ultimately show ?thesis by (auto simp: MemMem_def True)
next
  case ne: False
  consider "length b < length a" | "length b = length a" | "length b > length a" by linarith
  then show ?thesis
  proof cases
    case 1
    then show ?thesis using MemMem_loop_first [OF ne, of 0 "1 + length a - length b" a] ne by (simp add: MemMem_def)
  next
    case 2
    have "take (length b) a = a" "take (length a) b = b" using 2 by (metis order_refl take_all)+
    then have "byte_order a b = 0 \<longleftrightarrow> a = b" by (simp only: byte_order_zero)
    moreover have "MemMem a b = (if byte_order a b = 0 then Some 0 else None)" using ne by (simp add: MemMem_def 2)
    ultimately have m: "MemMem a b = (if a = b then Some 0 else None)" by simp
    show ?thesis
    proof (cases "a = b")
      case True
      have "(LEAST i. occurs_at a b i) = 0" by (rule Least_from) (simp_all add: True occurs_at_def)
      moreover have "occurs_at a b 0" by (simp add: True occurs_at_def)
      ultimately show ?thesis using m True by auto
    next
      case False
      have "\<not> occurs_at a b i" for i
        using occurs_length [of a b i] ne 2 False by (cases i) (auto simp: occurs_at_def)
      then show ?thesis using m False by simp
    qed
  next
    case 3
    then have "\<not> occurs_at a b i" for i using occurs_length [of a b i] ne by auto
    then show ?thesis using 3 ne by (simp add: MemMem_def)
  qed
qed

lemma occurs_sublist: "(\<exists>i. occurs_at a b i) \<longleftrightarrow> (\<exists>p s. a = p @ b @ s)"
proof
  assume "\<exists>i. occurs_at a b i"
  then obtain i where "take (length b) (drop i a) = b" by (auto simp: occurs_at_def)
  then have "a = take i a @ b @ drop (length b) (drop i a)" by (metis append_take_drop_id)
  then show "\<exists>p s. a = p @ b @ s" by blast
next
  assume "\<exists>p s. a = p @ b @ s"
  then obtain p s where "a = p @ b @ s" by blast
  then have "occurs_at a b (length p)" by (simp add: occurs_at_def)
  then show "\<exists>i. occurs_at a b i" ..
qed

subsection \<open>The operators of raw data\<close>

lemma byte_order_less:
  "byte_order xs ys < 0 \<or> byte_order xs ys = 0 \<and> length xs < length ys \<longleftrightarrow> ord_class.lexordp xs ys"
  by (induction xs ys rule: byte_order.induct) (auto simp: not_less_iff_gr_or_eq)

lemma byte_order_swap: "byte_order ys xs = - byte_order xs ys"
  by (induction xs ys rule: byte_order.induct) auto

lemma byte_order_prefix: "take (length ys) xs = ys \<longleftrightarrow> byte_order xs ys = 0 \<and> length ys \<le> length xs"
  by (induction xs ys rule: byte_order.induct) auto

lemma RawMatches_order:
  "RawMatchesAux 1 my memory his \<longleftrightarrow> ord_class.lexordp his my"
  "RawMatchesAux 2 my memory his \<longleftrightarrow> ord_class.lexordp my his"
  "RawMatchesAux 3 my memory his \<longleftrightarrow> ord_class.lexordp his my \<or> take (length my) his = my"
  "RawMatchesAux 4 my memory his \<longleftrightarrow> ord_class.lexordp my his \<or> take (length his) my = his"
proof -
  show "RawMatchesAux 1 my memory his \<longleftrightarrow> ord_class.lexordp his my"
    by (auto simp: RawMatchesAux_def Let_def byte_order_less [symmetric])
  show "RawMatchesAux 2 my memory his \<longleftrightarrow> ord_class.lexordp my his"
    by (auto simp: RawMatchesAux_def Let_def byte_order_less [symmetric] byte_order_swap [of his my])
  show "RawMatchesAux 3 my memory his \<longleftrightarrow> ord_class.lexordp his my \<or> take (length my) his = my"
    unfolding byte_order_prefix byte_order_less [symmetric] by (auto simp: RawMatchesAux_def Let_def)
  show "RawMatchesAux 4 my memory his \<longleftrightarrow> ord_class.lexordp my his \<or> take (length his) my = his"
    unfolding byte_order_prefix byte_order_less [symmetric] byte_order_swap [of my his]
    by (auto simp: RawMatchesAux_def Let_def)
qed

lemma RawMatches_contains:
  "RawMatchesAux 8 my True his \<longleftrightarrow> (\<exists>p s. his = p @ my @ s)"
  "RawMatchesAux 11 my memory his \<longleftrightarrow> (\<exists>p s. my = p @ his @ s)"
  by (simp_all add: RawMatchesAux_def Let_def MemMem_first occurs_sublist)

subsection \<open>Filters that do not work\<close>

text \<open>
  \<^verbatim>\<open>RectQueryFilter\<close> is a filter of Points, which have half the size of the rectangles: \<^verbatim>\<open>AddData\<close> refuses to
  add half a rectangle, and no archive has a value of the right size.
\<close>

lemma rect_sizes: "GetElementSize B_RECT_TYPE = 16"
  by (simp add: GetElementSize_def new_class_def type_code_defs)

lemma and_then_error: "fst (k (snd r)) = B_ERROR \<Longrightarrow> fst (and_then r k) = B_ERROR"
  by (cases r) (simp add: and_then_def)

lemma RectQueryFilter_unsaved:
  assumes "has_class PointArray (nf_value nf)"
  shows "fst (SaveToArchive h am (NumericQueryFilter NRect vf nf) m) = B_ERROR"
proof -
  have "length (object_bytes h (nf_value nf)) = 8"
    using object_bytes_back(1) [OF assms, of h] by (simp add: is_value_class_def)
  then have bad: "fst (and_then (value_AddData h am m name B_RECT_TYPE (object_bytes h (nf_value nf))) k) = B_ERROR"
    for m name and k :: "Message \<Rightarrow> status \<times> Message"
    by (auto simp: value_AddData_def rect_sizes and_then_def)
  have go: "fst (and_then r k) = B_ERROR" if "\<And>s. fst (k s) = B_ERROR" for r and k :: "Message \<Rightarrow> status \<times> Message"
    using that by (simp add: and_then_def)
  show ?thesis unfolding SaveToArchive.simps NumericSave_def DataTypeCode.simps by (intro go bad)
qed

lemma RectQueryFilter_uncreated:
  assumes "full_message m" "m_what m = NumericTypeCode NRect"
  shows "CreateQueryFilter h am m = Ok None"
proof -
  obtain r where r: "Message_FindData h m val_name B_RECT_TYPE 0 = Ok r"
    "case r of None \<Rightarrow> True | Some (p, k) \<Rightarrow> \<exists>x. p = ItemPtr x"
    using FindData_numeric [OF assms(1), of h val_name NRect 0] by auto
  have k: "k = 16" if "r = Some (ItemPtr x, k)" for x k
    using r(1) that by (auto simp: Message_FindData_def rect_sizes [simplified type_code_defs] type_code_defs split: option.splits if_splits)
  have set: "\<exists>f. NumericSet h NRect vf nf m = Ok (B_ERROR, f)" for vf nf
  proof -
    obtain st vf' where "ValueSet (NumericTypeCode NRect) vf m = (st, vf')" by fastforce
    then show ?thesis using r k by (cases r) (auto simp: NumericSet_def Let_def)
  qed
  obtain f where f: "NumericSet h NRect no_value
     \<lparr>nf_value = default_item (DataType NRect), nf_mask = default_item (DataType NRect), nf_op = 0, nf_maskOp = 0,
      nf_default = None\<rparr> m = Ok (B_ERROR, f)" using set by blast
  have "new_filter h (m_what m) = Some (new_numeric NRect)"
    by (simp add: assms(2) new_filter_def QUERY_FILTER_TYPE_WHATCODE_def)
  then show ?thesis by (subst CreateQueryFilter.simps) (simp add: SetFromArchive_def new_numeric_def f [simplified])
qed

text \<open>
  A filter for a value of any type takes an object that is none for a reference to a byte buffer.
\<close>

lemma wildcard_faults:
  assumes "Message_GetArray m name B_ANY_TYPE = Some a" "da_items a \<noteq> []"
    "list_all (\<lambda>x. (\<forall>b. x \<noteq> FlatItem b) \<and> (\<forall>k. x \<noteq> MessageItem k)) (da_items a)"
  shows "Message_FindData h m name B_ANY_TYPE 0 = Fault"
proof -
  have "B_ANY_TYPE \<noteq> B_STRING_TYPE" by (simp add: type_code_defs)
  moreover have "GetElementSize B_ANY_TYPE = 0" by (simp add: GetElementSize_def new_class_def type_code_defs B_TAG_TYPE_def)
  moreover obtain x xs where "da_items a = x # xs" using assms(2) by (cases "da_items a") auto
  ultimately show ?thesis
    using assms(1,3) by (cases x) (auto simp: Message_FindData_def Array_FindDataItem_def)
qed

text \<open>With the masks NAND, NOR and XNOR every \<^verbatim>\<open>bool\<close> becomes true.\<close>

lemma bool_mask_constant:
  "maskOp \<in> {4, 5, 6} \<Longrightarrow> NQFDoMaskOp maskOp (BoolItem a) (BoolItem b) = BoolItem True"
  by (auto simp: NQFDoMaskOp_def mask_bool_def)

end
