(* ===== verification/Filter_Logic.thy ===== *)
theory Filter_Logic
  imports Filter_Model
begin

section \<open>What the filters with children say\<close>

text \<open>
  \<^verbatim>\<open>AndOrQueryFilter\<close>, \<^verbatim>\<open>NandNotQueryFilter\<close> and \<^verbatim>\<open>XorQueryFilter\<close> count the children that match, and stop
  when the answer is known: their unsigned counters give the answer that all the children together
  would give.
\<close>

text \<open>A NULL child does not match; \<open>answers\<close> are those of all the children.\<close>

definition kid_answer :: "('f \<Rightarrow> bool outcome) \<Rightarrow> 'f option \<Rightarrow> bool outcome" where
  "kid_answer m kid = (case kid of None \<Rightarrow> Ok False | Some f \<Rightarrow> m f)"

definition answers :: "('f \<Rightarrow> bool outcome) \<Rightarrow> 'f option list \<Rightarrow> bool list \<Rightarrow> bool" where
  "answers m kids bs \<longleftrightarrow> map (kid_answer m) kids = map Ok bs"

definition trues :: "bool list \<Rightarrow> nat" where "trues bs = length (filter id bs)"

lemma trues_simps [simp]: "trues [] = 0" "trues (b # bs) = (if b then Suc (trues bs) else trues bs)"
  by (simp_all add: trues_def)

lemma trues_le: "trues bs \<le> length bs"
  by (simp add: trues_def)

lemma answers_Nil [simp]: "answers m [] bs \<longleftrightarrow> bs = []"
  by (simp add: answers_def)

lemma answers_Cons [simp]:
  "answers m (kid # kids) bs \<longleftrightarrow> (\<exists>b bs'. bs = b # bs' \<and> kid_answer m kid = Ok b \<and> answers m kids bs')"
  by (auto simp: answers_def Cons_eq_map_conv)

lemma answers_length: "answers m kids bs \<Longrightarrow> length bs = length kids"
  unfolding answers_def by (metis length_map)

lemma word_counters:
  assumes "I + k = N" "N < 2 ^ 32" "C \<le> T" "T \<le> N"
  shows "(word_of_nat T - word_of_nat C > (word_of_nat N - word_of_nat I :: u32)) \<longleftrightarrow> k < T - C"
proof -
  obtain d where T: "T = C + d" using assms(3) by (metis le_add_diff_inverse)
  have "word_of_nat N - word_of_nat I = (word_of_nat k :: u32)" "word_of_nat T - word_of_nat C = (word_of_nat d :: u32)"
    using assms(1) T by auto
  moreover have "unat (word_of_nat k :: u32) = k" "unat (word_of_nat d :: u32) = d"
    using assms T by (auto intro: unat_word_of_nat_u32)
  ultimately show ?thesis by (simp add: word_less_nat_alt T del: of_nat_add)
qed

lemma word_nat_eq: "a < 2 ^ 32 \<Longrightarrow> b < 2 ^ 32 \<Longrightarrow> word_of_nat a = (word_of_nat b :: u32) \<longleftrightarrow> a = b"
  using unat_word_of_nat_u32 by metis

lemma word_nat_less: "a < 2 ^ 32 \<Longrightarrow> b < 2 ^ 32 \<Longrightarrow> word_of_nat a < (word_of_nat b :: u32) \<longleftrightarrow> a < b"
  by (simp add: word_less_nat_alt unat_word_of_nat_u32)

lemma AndOr_loop_counts:
  assumes "answers m kids bs" "I + length kids = N" "N < 2 ^ 32" "C < T" "T \<le> N" "C \<le> I"
  shows "AndOr_loop m (word_of_nat T) (word_of_nat N) kids (word_of_nat I) (word_of_nat C) = Ok (T \<le> C + trues bs)"
  using assms
proof (induction kids arbitrary: bs I C)
  case Nil
  then show ?case by simp
next
  case (Cons kid kids)
  obtain b bs' where bs: "bs = b # bs'" "kid_answer m kid = Ok b" "answers m kids bs'" using Cons.prems(1) by auto
  show ?case
  proof (cases "length (kid # kids) < T - C")
    case True
    then have "\<not> T \<le> C + trues bs" using trues_le [of bs] answers_length [OF Cons.prems(1)] by linarith
    then show ?thesis using word_counters [OF Cons.prems(2,3), of C T] True Cons.prems by simp
  next
    case False
    have go: "\<not> (word_of_nat T - word_of_nat C > (word_of_nat N - word_of_nat I :: u32))"
      using word_counters [OF Cons.prems(2,3), of C T] False Cons.prems by simp
    have eq: "word_of_nat C + 1 = (word_of_nat T :: u32) \<longleftrightarrow> Suc C = T"
      using word_nat_eq [of "Suc C" T] Cons.prems by (simp add: add.commute)
    have IH: "AndOr_loop m (word_of_nat T) (word_of_nat N) kids (word_of_nat I + 1) (word_of_nat D) = Ok (T \<le> D + trues bs')"
      if "D < T" "D \<le> Suc I" for D
      using Cons.IH [OF bs(3), of "Suc I" D] that Cons.prems by (simp add: add.commute)
    show ?thesis
      using go bs(2) IH [of "Suc C"] IH [of C] Cons.prems
      by (auto simp: bs(1) eq kid_answer_def [symmetric] add.commute [of 1])
  qed
qed

text \<open>With a threshold of zero no number of matches is enough.\<close>

lemma AndOr_loop_zero_one:
  assumes "answers m kids bs" "I + length kids = N" "N < 2 ^ 32" "0 < I"
  shows "AndOr_loop m 0 (word_of_nat N) kids (word_of_nat I) 1 = Ok False"
proof (cases kids)
  case (Cons kid ks)
  have "word_of_nat N - word_of_nat I = (word_of_nat (length kids) :: u32)" using assms(2) by auto
  moreover have "(word_of_nat (length kids) :: u32) < 0 - 1"
  proof -
    have "(0 - 1 :: u32) = 0xffffffff" by simp
    moreover have "(word_of_nat (length kids) :: u32) < 0xffffffff"
      using assms by (simp only: word_less_nat_alt) (simp add: unat_word_of_nat_u32)
    ultimately show ?thesis by (simp only:)
  qed
  ultimately show ?thesis unfolding Cons by simp
qed simp

lemma AndOr_loop_zero:
  assumes "answers m kids bs" "I + length kids = N" "N < 2 ^ 32"
  shows "AndOr_loop m 0 (word_of_nat N) kids (word_of_nat I) 0 = Ok False"
  using assms
proof (induction kids arbitrary: bs I)
  case (Cons kid kids)
  obtain b bs' where bs: "kid_answer m kid = Ok b" "answers m kids bs'" using Cons.prems by auto
  show ?case
    using Cons.IH [OF bs(2), of "Suc I"] AndOr_loop_zero_one [OF bs(2), of "Suc I"] bs(1) Cons.prems
    by (auto simp: kid_answer_def [symmetric] add.commute [of 1])
qed simp

lemma NandNot_loop_counts:
  assumes "answers m kids bs" "I + length kids = N" "N < 2 ^ 32" "C \<le> T" "T \<le> N" "C \<le> I"
  shows "NandNot_loop m (word_of_nat T) (word_of_nat N) kids (word_of_nat I) (word_of_nat C) =
    Ok (C + trues bs \<le> T \<and> C + trues bs < N)"
  using assms
proof (induction kids arbitrary: bs I C)
  case Nil
  then show ?case by (simp add: word_nat_less)
next
  case (Cons kid kids)
  obtain b bs' where bs: "bs = b # bs'" "kid_answer m kid = Ok b" "answers m kids bs'" using Cons.prems(1) by auto
  show ?case
  proof (cases "length (kid # kids) < T - C")
    case True
    then have "C + trues bs < T" using trues_le [of bs] answers_length [OF Cons.prems(1)] by linarith
    then show ?thesis using word_counters [OF Cons.prems(2,3), of C T] True Cons.prems by simp
  next
    case False
    have go: "\<not> (word_of_nat T - word_of_nat C > (word_of_nat N - word_of_nat I :: u32))"
      using word_counters [OF Cons.prems(2,3), of C T] False Cons.prems by simp
    have gt: "(word_of_nat T :: u32) < word_of_nat C + 1 \<longleftrightarrow> T < Suc C"
      using word_nat_less [of T "Suc C"] Cons.prems by (simp add: add.commute)
    have IH: "NandNot_loop m (word_of_nat T) (word_of_nat N) kids (word_of_nat I + 1) (word_of_nat D) =
        Ok (D + trues bs' \<le> T \<and> D + trues bs' < N)"
      if "D \<le> T" "D \<le> Suc I" for D
      using Cons.IH [OF bs(3), of "Suc I" D] that Cons.prems by (simp add: add.commute)
    show ?thesis
      using go bs(2) IH [of "Suc C"] IH [of C] Cons.prems
      by (auto simp: bs(1) gt kid_answer_def [symmetric] add.commute [of 1])
  qed
qed

lemma Xor_loop_counts:
  assumes "answers m kids bs" "C + length kids < 2 ^ 32"
  shows "Xor_loop m kids (word_of_nat C) = Ok (odd (C + trues bs))"
  using assms
proof (induction kids arbitrary: bs C)
  case Nil
  then have "unat (word_of_nat C :: u32) = C" by (intro unat_word_of_nat_u32) simp
  then have "(word_of_nat C :: u32) mod 2 \<noteq> 0 \<longleftrightarrow> odd C"
    by (simp add: word_unat_eq_iff unat_mod odd_iff_mod_2_eq_one)
  with Nil show ?case by simp
next
  case (Cons kid kids)
  obtain b bs' where bs: "bs = b # bs'" "kid_answer m kid = Ok b" "answers m kids bs'" using Cons.prems(1) by auto
  show ?case
    using bs(1,2) Cons.IH [OF bs(3), of "Suc C"] Cons.IH [OF bs(3), of C] Cons.prems
    by (simp add: kid_answer_def [symmetric] add.commute [of 1])
qed

subsection \<open>Matches\<close>

lemma word_of_min: "length kids < 2 ^ 32 \<Longrightarrow> min k (word_of_nat (length kids)) = (word_of_nat (min (unat k) (length kids)) :: u32)"
  by (simp add: min_def word_le_nat_alt unat_word_of_nat_u32)

lemma Matches_AndOr:
  assumes "answers (\<lambda>f. Matches h f msg) kids bs" "length kids < 2 ^ 32"
  shows "Matches h (AndOrQueryFilter kids minMatches) msg =
    Ok (0 < minMatches \<and> kids \<noteq> [] \<and> min (unat minMatches) (length kids) \<le> trues bs)"
proof (cases "min (unat minMatches) (length kids) = 0")
  case True
  then have "minMatches = 0 \<or> kids = []" by (auto simp: min_def unat_eq_0 split: if_splits)
  then show ?thesis
    using AndOr_loop_zero [OF assms(1), of 0] assms(2) True by (auto simp: Let_def word_of_min)
next
  case False
  then have "0 < minMatches \<and> kids \<noteq> []" by (auto simp: min_def word_gt_0 split: if_splits)
  then show ?thesis
    using AndOr_loop_counts [OF assms(1), of 0 "length kids" 0 "min (unat minMatches) (length kids)"] assms(2) False
    by (simp add: Let_def word_of_min del: min_less_iff_conj)
qed

lemma Matches_NandNot:
  assumes "answers (\<lambda>f. Matches h f msg) kids bs" "length kids < 2 ^ 32"
  shows "Matches h (NandNotQueryFilter kids maxMatches) msg =
    Ok (trues bs \<le> unat maxMatches \<and> trues bs < length kids)"
  using NandNot_loop_counts [OF assms(1), of 0 "length kids" 0 "min (unat maxMatches) (length kids)"] assms(2)
    trues_le [of bs] answers_length [OF assms(1)]
  by (auto simp: Let_def word_of_min)

lemma Matches_Xor:
  assumes "answers (\<lambda>f. Matches h f msg) kids bs" "length kids < 2 ^ 32"
  shows "Matches h (XorQueryFilter kids) msg = Ok (odd (trues bs))"
  using Xor_loop_counts [OF assms(1), of 0] assms(2) by simp

text \<open>A \<^verbatim>\<open>NandNotQueryFilter\<close> says the opposite of the \<^verbatim>\<open>AndOrQueryFilter\<close> with one match more.\<close>

lemma Matches_dual:
  assumes "answers (\<lambda>f. Matches h f msg) kids bs" "length kids < 2 ^ 32" "kids \<noteq> []" "k \<noteq> MUSCLE_NO_LIMIT"
  shows "Matches h (NandNotQueryFilter kids k) msg =
    obind (Matches h (AndOrQueryFilter kids (k + 1)) msg) (\<lambda>b. Ok (\<not> b))"
proof -
  have "k + 1 \<noteq> 0" using assms(4) by (auto simp: MUSCLE_NO_LIMIT_def eq_neg_iff_add_eq_0 [symmetric])
  then have u: "unat (k + 1) = Suc (unat k)" using unatSuc [of k] by (simp add: add.commute)
  then have "0 < k + 1" by (simp add: word_less_nat_alt)
  then show ?thesis
    using trues_le [of bs] answers_length [OF assms(1)] assms(3)
    by (auto simp: Matches_AndOr [OF assms(1,2)] Matches_NandNot [OF assms(1,2)] u simp del: Matches.simps)
qed

end
