(* ===== verification/Filter_Properties.thy ===== *)
theory Filter_Properties
  imports Filter_Bytes Filter_Logic
begin

section \<open>Query filters: what they promise\<close>

text \<open>
  The properties of \<^verbatim>\<open>source/muscle/regex/QueryFilter.cpp\<close>: filters that travel between peers, what the
  filters over others compute, that the bytes of a peer cannot stop the program that makes a filter of them,
  and where they can.
\<close>

definition sample_host :: host where
  "sample_host = \<lparr>h_big = False, h_empty = True, h_ref = (\<lambda>_. replicate 8 0), h_match = (\<lambda>_ p s. Fault), h_junk = 0\<rparr>"

definition ample_memory :: memory where
  "ample_memory = \<lparr>mem_obj = True, mem_entries = (\<lambda>_. True), mem_items = (\<lambda>_. True), mem_bytes = (\<lambda>_. True)\<rparr>"

lemma ample_memory [simp]: "ample ample_memory"
  by (simp add: ample_def ample_memory_def)

text \<open>A filter as a client sends it: a number below eleven, or a name that does not start with \<open>a\<close>.\<close>

definition sample_filter :: QueryFilter where
  "sample_filter = AndOrQueryFilter [
     Some (NumericQueryFilter NInt32 \<lparr>vf_fieldName = [115], vf_index = 0\<rparr>
       \<lparr>nf_value = Int32Item 11, nf_mask = Int32Item 0, nf_op = 1, nf_maskOp = 0, nf_default = Some (Int32Item 5)\<rparr>),
     Some (NandNotQueryFilter [Some (StringQueryFilter \<lparr>vf_fieldName = [110], vf_index = 1\<rparr>
       \<lparr>sf_value = [97], sf_op = 6, sf_default = None\<rparr>)] 0)] 1"

lemma sample_archivable: "archivable sample_filter"
  by (simp add: sample_filter_def has_class_def)

lemma sample_archive_size: "length (message_wire (archive sample_filter)) = 284"
  by (simp add: sample_filter_def value_fields_def opt_field_def field_def more_items_def kids_field_def message_wire.simps
      length_wire_field array_wire_def sized_bytes_def item_payload_def Array_IsFlattenable_def new_class_def item_code_def
      name_defs type_code_defs MUSCLE_NO_LIMIT_def)

lemma wire_round_trip:
  assumes "full_message m" "Message_strip m = m" "length (message_wire m) < 2 ^ 30" "ample am"
    and "length (message_wire m) \<le> fuel" "length buf = length (message_wire m)"
  shows "\<exists>bytes. Message_Flatten m buf 0 = Ok bytes
    \<and> Message_Unflatten am fuel w0 bytes (Message_FlattenedSize m) = Ok (B_NO_ERROR, m)"
proof -
  have "Message_Flatten m buf 0 = Ok (message_wire m)"
    using fillsD [OF Flatten_wire [OF assms(1)], of buf 0] assms(3,6) by (simp add: room_def size_limit_def overlay_def)
  then show ?thesis
    using unflatten_message [OF assms(4,1) _ assms(5), of w0 "[]"] assms(2,3) by (simp add: FlattenedSize_wire [OF assms(1)])
qed

subsection \<open>Filters on the wire\<close>

text \<open>
  C4.  A filter that a client saves, flattens and sends arrives as it was: for every filter that can be archived,
  \<^verbatim>\<open>SaveToArchive\<close> into an empty Message succeeds, \<^verbatim>\<open>Flatten\<close> and \<^verbatim>\<open>Unflatten\<close> carry the archive over, and
  \<^verbatim>\<open>CreateQueryFilter\<close> of it gives an equal tree of filters, on whatever host.  That a filter can be
  archived (\<open>archivable\<close>) means that at every level: it is not a \<^verbatim>\<open>RectQueryFilter\<close>, for which saving fails;
  a filter over others has no NULL child; field names, strings and default strings have no zeros; the value,
  mask and default of a numeric filter have its type; and the buffers of a \<^verbatim>\<open>RawDataQueryFilter\<close> are NULL, or
  hold at least one byte and less than \<open>2 ^ 32\<close>.  Both sides have the memory that they ask for, and the archive
  has less than \<open>2 ^ 30\<close> bytes.
\<close>

theorem filter_survives_wire:
  assumes "archivable f" "ample am" "ample am'" "length (message_wire (archive f)) < 2 ^ 30"
    and "length (message_wire (archive f)) \<le> fuel" "length buf = length (message_wire (archive f))"
  shows "\<exists>m bytes. SaveToArchive h am f (Msg w []) = (B_NO_ERROR, m) \<and> Message_Flatten m buf 0 = Ok bytes
    \<and> Message_Unflatten am' fuel w0 bytes (Message_FlattenedSize m) = Ok (B_NO_ERROR, m)
    \<and> CreateQueryFilter h' am' m = Ok (Some f)"
  using SaveToArchive_fresh [OF assms(2,1), of h w] CreateQueryFilter_archive [OF assms(3,1), of h']
    wire_round_trip [OF _ _ assms(4,3,5,6), of w0] archive_well_formed [OF assms(1)] by auto

theorem filter_survives_wire_witness:
  "\<exists>m bytes. SaveToArchive sample_host ample_memory sample_filter (Msg 0 []) = (B_NO_ERROR, m)
    \<and> Message_Flatten m (replicate 284 0) 0 = Ok bytes
    \<and> Message_Unflatten ample_memory 284 7 bytes (Message_FlattenedSize m) = Ok (B_NO_ERROR, m)
    \<and> CreateQueryFilter sample_host ample_memory m = Ok (Some sample_filter)"
  by (rule filter_survives_wire [OF sample_archivable]) (simp_all add: sample_archive_size)

text \<open>
  C8.  The bytes of peers cannot stop the program that filters with them, but for patterns and wildcard type
  codes: of every Message that \<^verbatim>\<open>Unflatten\<close> accepts, from whatever bytes and with whatever memory, \<^verbatim>\<open>CreateQueryFilter\<close>
  returns, with a filter or NULL; and every filter in which no \<^verbatim>\<open>ValueExistsQueryFilter\<close> or \<^verbatim>\<open>RawDataQueryFilter\<close>
  has the type code \<^verbatim>\<open>B_ANY_TYPE\<close> and no \<^verbatim>\<open>StringQueryFilter\<close> has one of the two operators that ask a
  \<^verbatim>\<open>StringMatcher\<close> (\<^verbatim>\<open>OP_SIMPLE_WILDCARD_MATCH\<close>, \<^verbatim>\<open>OP_REGULAR_EXPRESSION_MATCH\<close>) answers true or false for every
  accepted Message.  \<^verbatim>\<open>StringMatcher\<close> and the regular expressions below it are not modelled, and nothing is
  assumed of them.
\<close>

theorem peers_cannot_stop_filters:
  assumes "Message_Unflatten am fuel w0 mem n = Ok (B_NO_ERROR, m)" "no_wildcard f" "no_patterns f"
  shows "(\<exists>r. CreateQueryFilter h am' m = Ok r) \<and> (\<exists>b. Matches h f (Some m) = Ok b)"
proof -
  have m: "accepted m" using returnsD [OF unflatten_accepted assms(1)] by simp
  then have "full_message m" using accepted_full by blast
  then show ?thesis using CreateQueryFilter_defined [of m h am'] Matches_defined [OF m assms(2,3), of h] by (simp add: defined_def)
qed

lemma sample_archive_accepted:
  "Message_Unflatten ample_memory 284 0 (message_wire (archive sample_filter)) 284 = Ok (B_NO_ERROR, archive sample_filter)"
  using unflatten_message [of ample_memory "archive sample_filter" 284 0 "[]"] archive_well_formed [OF sample_archivable]
  by (simp add: sample_archive_size)

theorem peers_cannot_stop_filters_witness:
  "(\<exists>r. CreateQueryFilter sample_host ample_memory (archive sample_filter) = Ok r)
    \<and> (\<exists>b. Matches sample_host sample_filter (Some (archive sample_filter)) = Ok b)"
  by (rule peers_cannot_stop_filters [OF sample_archive_accepted]) (simp_all add: sample_filter_def)

text \<open>
  C25.  A filter with the wildcard type code does stop it: on a Message whose field of that name has values
  of any kind but buffers and Messages, a \<^verbatim>\<open>ValueExistsQueryFilter\<close> or \<^verbatim>\<open>RawDataQueryFilter\<close> for
  \<^verbatim>\<open>B_ANY_TYPE\<close> uses the value as a reference to a buffer.
\<close>

theorem wildcard_filter_faults:
  assumes "Message_GetArray m (vf_fieldName vf) B_ANY_TYPE = Some (DataArray c (x # xs))"
    and "\<forall>y \<in> set (x # xs). (\<forall>b. y \<noteq> FlatItem b) \<and> (\<forall>k. y \<noteq> MessageItem k)"
  shows "Matches h (ValueExistsQueryFilter vf B_ANY_TYPE) (Some m) = Fault
    \<and> Matches h (RawDataQueryFilter vf (rf\<lparr>rf_typeCode := B_ANY_TYPE\<rparr>)) (Some m) = Fault"
  using wildcard_faults [OF assms(1), of h] assms(2) by (simp add: list_all_iff RawMatches_def)

theorem wildcard_filter_faults_witness:
  "Matches sample_host (ValueExistsQueryFilter \<lparr>vf_fieldName = [97], vf_index = 0\<rparr> B_ANY_TYPE)
      (Some (Msg 0 [([97], DataArray Int32Array [Int32Item 5])])) = Fault
    \<and> Matches sample_host (RawDataQueryFilter \<lparr>vf_fieldName = [97], vf_index = 0\<rparr>
        (\<lparr>rf_value = NullRef, rf_op = 0, rf_typeCode = 0, rf_default = NullRef\<rparr>\<lparr>rf_typeCode := B_ANY_TYPE\<rparr>))
      (Some (Msg 0 [([97], DataArray Int32Array [Int32Item 5])])) = Fault"
  by (rule wildcard_filter_faults [where c = Int32Array and x = "Int32Item 5" and xs = "[]"])
    (simp_all add: Message_GetArray_def find_array_def array_matches_def Array_TypeCode_def type_code_defs)

text \<open>
  C33.  A filter of rectangles cannot be used: its value, a Point, is refused by \<^verbatim>\<open>SaveToArchive\<close>, and
  \<^verbatim>\<open>CreateQueryFilter\<close> makes none of any well-formed Message, whatever its fields.
\<close>

theorem rectangle_filters_fail:
  assumes "has_class PointArray (nf_value nf)" "full_message (Msg (NumericTypeCode NRect) es)"
  shows "fst (SaveToArchive h am (NumericQueryFilter NRect vf nf) m0) = B_ERROR
    \<and> CreateQueryFilter h am (Msg (NumericTypeCode NRect) es) = Ok None"
  using RectQueryFilter_unsaved [OF assms(1)] RectQueryFilter_uncreated [OF assms(2)] by simp

theorem rectangle_filters_fail_witness:
  "fst (SaveToArchive sample_host ample_memory (NumericQueryFilter NRect no_value
      \<lparr>nf_value = PointItem 0 0, nf_mask = PointItem 0 0, nf_op = 0, nf_maskOp = 0, nf_default = None\<rparr>) (Msg 0 [])) = B_ERROR
    \<and> CreateQueryFilter sample_host ample_memory (Msg (NumericTypeCode NRect) []) = Ok None"
  by (rule rectangle_filters_fail) (simp_all add: has_class_def wf_entries_def)

subsection \<open>Filters over filters\<close>

text \<open>
  C15.  What filters over others compute, if their children answer (less than \<open>2 ^ 32\<close> of them): with \<open>n\<close> matching
  children, an \<^verbatim>\<open>AndOrQueryFilter\<close> says whether \<open>n\<close> is at least \<^verbatim>\<open>_minMatches\<close> or all, a
  \<^verbatim>\<open>NandNotQueryFilter\<close> whether it is at most \<^verbatim>\<open>_maxMatches\<close> and not all, and an \<^verbatim>\<open>XorQueryFilter\<close> whether it
  is odd; the early exits of the loops and their 32-bit counters change nothing.  An AND of no filters, and
  one of zero matches, is false.  The condition \<open>not all\<close> is not in the documentation of
  \<^verbatim>\<open>NandNotQueryFilter\<close> (at most \<^verbatim>\<open>_maxMatches\<close> children match): the filter is false without children,
  and when all children match, also where \<^verbatim>\<open>_maxMatches\<close> admits that.
\<close>

theorem multi_filters_count:
  assumes "answers (\<lambda>f. Matches h f msg) kids bs" "length kids < 2 ^ 32"
  shows "Matches h (AndOrQueryFilter kids k) msg =
      Ok (0 < k \<and> kids \<noteq> [] \<and> min (unat k) (length kids) \<le> trues bs)
    \<and> Matches h (NandNotQueryFilter kids k) msg = Ok (trues bs \<le> unat k \<and> trues bs < length kids)
    \<and> Matches h (XorQueryFilter kids) msg = Ok (odd (trues bs))"
  using Matches_AndOr [OF assms] Matches_NandNot [OF assms] Matches_Xor [OF assms] by blast

theorem multi_filters_count_witness:
  "Matches sample_host (AndOrQueryFilter [Some (WhatCodeQueryFilter 1 5), None] 1) (Some (Msg 3 [])) =
      Ok (0 < (1 :: u32) \<and> [Some (WhatCodeQueryFilter 1 5), None] \<noteq> []
        \<and> min (unat (1 :: u32)) (length [Some (WhatCodeQueryFilter 1 5), None]) \<le> trues [True, False])
    \<and> Matches sample_host (NandNotQueryFilter [Some (WhatCodeQueryFilter 1 5), None] 1) (Some (Msg 3 [])) =
      Ok (trues [True, False] \<le> unat (1 :: u32) \<and> trues [True, False] < length [Some (WhatCodeQueryFilter 1 5), None])
    \<and> Matches sample_host (XorQueryFilter [Some (WhatCodeQueryFilter 1 5), None]) (Some (Msg 3 [])) =
      Ok (odd (trues [True, False]))"
  by (rule multi_filters_count [where bs = "[True, False]"]) (simp_all add: answers_def kid_answer_def del: answers_Cons)

subsection \<open>Byte strings\<close>

text \<open>
  C19.  \<^verbatim>\<open>MemMem\<close> finds the first occurrence: if it gives a position, the bytes are there and at no
  earlier position, and if it gives NULL, they are nowhere.
\<close>

theorem MemMem_finds_first:
  "case MemMem lookIn lookFor of
     None \<Rightarrow> \<nexists>p s. lookIn = p @ lookFor @ s
   | Some i \<Rightarrow> (\<exists>s. lookIn = take i lookIn @ lookFor @ s) \<and> (\<nexists>p s. lookIn = p @ lookFor @ s \<and> length p < i)"
proof (cases "\<exists>i. occurs_at lookIn lookFor i")
  case True
  let ?i = "LEAST i. occurs_at lookIn lookFor i"
  have "take (length lookFor) (drop ?i lookIn) = lookFor"
    using LeastI_ex [OF True] by (simp add: occurs_at_def)
  then have "lookIn = take ?i lookIn @ lookFor @ drop (length lookFor) (drop ?i lookIn)"
    by (metis append_take_drop_id)
  moreover have "\<not> length p < ?i" if "lookIn = p @ lookFor @ s" for p s
    using not_less_Least [of "length p" "occurs_at lookIn lookFor"] that by (auto simp: occurs_at_def)
  ultimately show ?thesis using True by (auto simp: MemMem_first)
next
  case False
  then show ?thesis using occurs_sublist [of lookIn lookFor] by (auto simp: MemMem_first)
qed

text \<open>
  C34.  The operators of \<^verbatim>\<open>RawDataQueryFilter\<close> on its bytes \<open>my\<close> and those of the Message: less and greater
  than are the lexicographic order, \<open>contains\<close> and \<open>is contained in\<close> the substring relation; but less
  than or equal holds also for the bytes that \<open>my\<close> is a proper prefix of, and greater than or equal for
  its proper prefixes.
\<close>

theorem raw_operators:
  "RawMatchesAux 1 my memory his = ord_class.lexordp his my
    \<and> RawMatchesAux 2 my memory his = ord_class.lexordp my his
    \<and> RawMatchesAux 3 my memory his = (ord_class.lexordp his my \<or> take (length my) his = my)
    \<and> RawMatchesAux 4 my memory his = (ord_class.lexordp my his \<or> take (length his) my = his)
    \<and> RawMatchesAux 8 my True his = (\<exists>p s. his = p @ my @ s)
    \<and> RawMatchesAux 11 my memory his = (\<exists>p s. my = p @ his @ s)"
  by (intro conjI) (rule RawMatches_order RawMatches_contains)+

subsection \<open>Relayed Messages\<close>

text \<open>
  C12.  A relay does not change a Message: what \<^verbatim>\<open>Unflatten\<close> accepts, from whatever bytes, is a well-formed
  Message without NULL references and without tags, down to the last sub-Message; and, if it flattens to less
  than \<open>2 ^ 30\<close> bytes and memory is available, the bytes that \<^verbatim>\<open>Flatten\<close> writes of it are accepted again,
  as the same Message.
\<close>

theorem accepted_Message_relays:
  assumes "Message_Unflatten am fuel w0 mem n = Ok (B_NO_ERROR, m)"
    and "length (message_wire m) < 2 ^ 30" "ample am'" "length (message_wire m) \<le> fuel'"
    and "length buf = length (message_wire m)"
  shows "full_message m \<and> Message_strip m = m
    \<and> (\<exists>bytes. Message_Flatten m buf 0 = Ok bytes
        \<and> Message_Unflatten am' fuel' w1 bytes (Message_FlattenedSize m) = Ok (B_NO_ERROR, m))"
  using accepted_full [of m] returnsD [OF unflatten_accepted assms(1)] wire_round_trip [OF _ _ assms(2-5), of w1] by auto

theorem accepted_Message_relays_witness:
  "full_message (archive sample_filter) \<and> Message_strip (archive sample_filter) = archive sample_filter
    \<and> (\<exists>bytes. Message_Flatten (archive sample_filter) (replicate 284 0) 0 = Ok bytes
        \<and> Message_Unflatten ample_memory 284 9 bytes (Message_FlattenedSize (archive sample_filter)) =
            Ok (B_NO_ERROR, archive sample_filter))"
  by (rule accepted_Message_relays [OF sample_archive_accepted]) (simp_all add: sample_archive_size)

end
