(* ===== verification/Spec2Isabelle.thy ===== *)
theory Spec2Isabelle
  imports Gateway_Properties Queue_Properties Hash_Properties Message_Properties Filter_Properties
begin

text \<open>
  \<^bold>\<open>A verification library for the MUSCLE core of HiShare.\<close>

  HiShare (\<^verbatim>\<open>src/source/hishare\<close>) is a file-sharing client and server for Haiku.  Its logic runs on MUSCLE
  (\<^verbatim>\<open>src/source/muscle\<close>): nodes exchange \<^emph>\<open>Messages\<close>, which are flattened to bytes, framed by a gateway
  and sent over a stream; the containers below them carry the state.  This library models

    \<^item> the Message layer in C: \<^verbatim>\<open>minimessage/MiniMessage.c\<close> (a Message as a linked list of fields),
      \<^verbatim>\<open>micromessage/MicroMessage.c\<close> (a Message that is read and written in place in its buffer) and
      the two gateways that frame Messages on a byte stream;
    \<^item> the class \<^verbatim>\<open>Message\<close> of the C++ library (\<^verbatim>\<open>message/Message.cpp\<close>: typed arrays behind counted references),
      with the checksums of \<^verbatim>\<open>support/MuscleSupport.h\<close> and the hash function of \<^verbatim>\<open>system/SetupSystem.cpp\<close>;
    \<^item> the query filters (\<^verbatim>\<open>regex/QueryFilter.cpp\<close>): trees of conditions on a Message, which clients send to the
      server as Messages to say what they want to hear of;
    \<^item> the two containers that MUSCLE is built on: the double-ended queue \<^verbatim>\<open>util/Queue.h\<close> and the ordered hash
      table \<^verbatim>\<open>util/Hashtable.h\<close> with its iterators.

  \<^bold>\<open>How the code is modelled.\<close>  An operation is a function from the state before to an \<open>outcome\<close>:
  \<open>Ok\<close> of its result and the state after, \<open>Fault\<close> for undefined behaviour (an access outside of an object, a
  use after free, a failed assertion) and \<open>Spin\<close> for a loop that has not ended when the fuel is used up.
  Machine integers are words, or natural numbers with the wrap-around written out.  \<^verbatim>\<open>status_t\<close> is
  \<open>status\<close>.  Allocation is a parameter \<open>am\<close> that says whether a block of the given size can be had, so that
  every out-of-memory branch is reachable; the byte order of the host is the parameter \<open>big\<close>; the functions that
  the gateways call to send and to receive bytes are parameters over a state of the environment.

  \<^bold>\<open>The theories.\<close>
    \<^item> \<open>Muscle_Base\<close>: the prelude (outcomes, little-endian encodings, C strings, memory blocks, type codes of
      \<^verbatim>\<open>support/MuscleSupport.h\<close>) and its rewrite rules.
    \<^item> \<open>Mini_Message\<close> (data and allocation of \<^verbatim>\<open>MiniMessage.c\<close>, with freed memory as a fault),
      \<open>Mini_Fields\<close> and \<open>Mini_Table\<close> (the field table: put, get, remove, rename, copy, move, iterate; the
      invariant \<open>wf_msg\<close> and the abstraction \<open>msg_map\<close> to a map from names), \<open>Mini_Codec\<close> (flattening, and the
      wire format as the specification \<open>wire_msg\<close>), \<open>Mini_Unflatten\<close> (unflattening: the round trip and what
      malformed bytes do), \<open>Mini_Equal\<close> (comparison and cloning), \<open>Mini_Gateway\<close> (\<^verbatim>\<open>MiniMessageGateway.c\<close>).
    \<^item> \<open>Micro_Message\<close>, \<open>Micro_Build\<close>, \<open>Micro_Ops\<close>, \<open>Micro_Lookup\<close> (\<^verbatim>\<open>MicroMessage.c\<close>: memory and views, adding
      fields, the laws of every addition, the lookups and iterators), \<open>Micro_Interop\<close> (the look-ups of fixed-size
      items and strings on the bytes that MiniMessage flattens), \<open>Micro_Gateway\<close> (\<^verbatim>\<open>MicroMessageGateway.c\<close>).
    \<^item> \<open>Gateway_Stream\<close>: the interfaces \<open>frame_sender\<close> and \<open>frame_receiver\<close> as locales, with the end-to-end
      lemma proved once, and their interpretations on both gateways.
    \<^item> \<open>Queue_Model\<close> and \<open>Queue_Sort\<close> (every operation of \<^verbatim>\<open>Queue.h\<close>), \<open>Queue_Layout\<close> (the invariant
      \<open>q_lay q xs junk\<close>: the array, read from \<^verbatim>\<open>_headIndex\<close> on, is the items and then the unused slots),
      \<open>Queue_Ends\<close>, \<open>Queue_Grow\<close>, \<open>Queue_Items\<close>, \<open>Queue_Bulk\<close>, \<open>Queue_Rotate\<close>, \<open>Queue_Sorted\<close>, \<open>Queue_Tidy\<close>
      (what each operation does to the list of items).
    \<^item> \<open>Stable_Sort\<close>: comparisons that order by a key, merging of sorted runs, and stability; used by the sorts of
      both containers.
    \<^item> \<open>Hash_Model\<close>, \<open>Hash_Ops\<close>, \<open>Hash_Tables\<close> (every operation of \<^verbatim>\<open>Hashtable.h\<close>: the array of entries with its
      bucket chains, free list and iteration list; order, sorting and growth; operations on two tables and the
      iterators), \<open>Linked_Lists\<close> and \<open>Hash_Layout\<close> (doubly linked lists of indices in the array), \<open>Hash_Slots\<close> (the
      invariant of chains, free list and slot permutation under taking and releasing a slot), \<open>Hash_Order\<close> (the
      iteration list), \<open>Hash_Map\<close> (the invariant \<open>ht_rep C t it\<close>: the indices \<open>it\<close> are the entries in order, and
      \<open>pairs t it\<close> what they hold; lookups and removal), \<open>Hash_Move\<close>, \<open>Hash_Put\<close>, \<open>Hash_Alloc\<close>, \<open>Hash_Grow\<close>,
      \<open>Hash_Sort\<close>, \<open>Hash_Ordered\<close>, \<open>Hash_Scan\<close>, \<open>Hash_Copy\<close>, \<open>Hash_Iter\<close> (what each group of operations does to the
      pairs), \<open>Hash_Store\<close> (the locales \<open>ordered_store\<close> and \<open>sorted_store\<close>, the contract of a map that keeps an
      order, interpreted on the tables), \<open>Hash_Reach\<close> (the public calls as a transition relation, and the tables
      that can be reached), \<open>Hash_Edge\<close> (no memory, arrays of size zero).
    \<^item> \<open>Muscle_Hash\<close> (\<^verbatim>\<open>CalculateHashCode\<close>), \<open>Message_Arrays\<close> and \<open>Message_Items\<close> (the \<^verbatim>\<open>DataArray\<close> classes:
      one datatype of arrays, whose class decides how its items are flattened, read, compared and summed up),
      \<open>Message_Model\<close> (a Message as a value: \<^verbatim>\<open>FlattenedSize\<close>, \<^verbatim>\<open>Flatten\<close>, \<^verbatim>\<open>Unflatten\<close>, \<^verbatim>\<open>CalculateChecksum\<close>,
      \<^verbatim>\<open>operator ==\<close>, look-ups), \<open>Message_Wire\<close> (the format as the specification \<open>message_wire\<close>),
      \<open>Message_Parse\<close> (the round trip), \<open>Message_Equal\<close> (comparison and checksums), \<open>Message_Interop\<close> (MiniMessage
      reads and writes the bytes of a Message, the look-ups of MicroMessage find its items in them, and what the
      calls of \<^verbatim>\<open>UMAdd*s\<close> build is the Message with these fields), \<open>Message_Hostile\<close> (bytes on which
      \<^verbatim>\<open>Unflatten\<close> fails).
    \<^item> \<open>Message_Store\<close> (Messages as objects: a store of arrays, and tables that refer to them, so that arrays can be
      shared; every method that changes a Message), \<open>Message_Order\<close> (the order of the fields, by the contract of
      the hash table), \<open>Message_Reach\<close> (the invariant \<open>world_ok\<close> and that every method keeps it),
      \<open>Message_Calls\<close> (the calls as a transition relation), \<open>Message_Effects\<close> and \<open>Message_Sharing\<close> (what a call
      changes in the values of all Messages: private, shared and copied arrays), \<open>Message_Outcomes\<close> (calls
      that always return, and those that go wrong).
    \<^item> \<open>Message_Find\<close> (\<^verbatim>\<open>FindData\<close> and the other finds, and adding to a Message that shares no array, which refines
      the methods on objects), \<open>Message_Accept\<close> (whatever \<^verbatim>\<open>Unflatten\<close> accepts is well-formed),
      \<open>Filter_Model\<close> (the filters and \<^verbatim>\<open>Matches\<close>), \<open>Filter_Archive\<close> (\<^verbatim>\<open>SaveToArchive\<close>, \<^verbatim>\<open>SetFromArchive\<close> and the
      factory), \<open>Filter_Save\<close> (the archive of a filter as the specification \<open>archive\<close>), \<open>Filter_Restore\<close> (the round
      trip), \<open>Filter_Logic\<close> (what the filters over others count), \<open>Filter_Safe\<close> (they answer on whatever a peer
      sends), \<open>Filter_Bytes\<close> (\<^verbatim>\<open>MemMem\<close> and the comparison of bytes, and the filters that do not work).
    \<^item> \<open>Mini_Properties\<close>, \<open>Micro_Properties\<close>, \<open>Gateway_Properties\<close> (with \<open>Gateway_Live\<close>, the runs of the mini gateway's
      loops: \<open>mini_flush\<close> calls \<^verbatim>\<open>MGDoOutput\<close> again and again while something is queued), \<open>Queue_Properties\<close>, \<open>Hash_Properties\<close>, \<open>Message_Properties\<close>, \<open>Filter_Properties\<close>: the properties, each with a witness at a concrete input;
      \<open>Queue_Properties\<close> also has the locale \<open>deque\<close>, the specification of a double-ended queue, interpreted on the
      circular array.

  \<^bold>\<open>Bounds and fuel.\<close>  Unflattening recurses once per nested Message and loops once per field or item: the
  number of bytes is enough fuel.  The gateways' loops need one round per queued buffer, or per piece of a frame.
  The shifts of \<^verbatim>\<open>Queue::RemoveItemAt\<close>, the cycles of \<^verbatim>\<open>Merge\<close> and \<^verbatim>\<open>Normalize\<close> visit every slot at most
  once (fuel: the number of slots); \<^verbatim>\<open>Sort\<close> and \<^verbatim>\<open>Merge\<close> halve their ranges (fuel: the number of items).
  In the hash table every walk along a list visits an entry at most once (fuel: the number of slots and one);
  \<^verbatim>\<open>PutAux\<close> and \<^verbatim>\<open>EnsureSize\<close> call each other at most three deep (put, grow and put into the larger array, put
  again); the merge size of its sort doubles from 1 on, so that 33 passes are enough for every 32-bit count.
  Where no fuel is enough, a property says so.  Sizes of queues and tables are below \<open>2 ^ 31\<close>, as the
  code's casts to \<^verbatim>\<open>int32\<close> and the doubling of a full table require; the byte totals that the gateways' calls
  return are unbounded here and \<^verbatim>\<open>int32\<close> in the code; the flattened size of a Message is below the limits \<open>size_limit\<close> of the code.

  \<^bold>\<open>Not modelled.\<close>
    \<^item> Printing (\<^verbatim>\<open>MMPrintToStream\<close>, \<^verbatim>\<open>UMPrintToStream\<close> and their helpers): output only.
    \<^item> \<^verbatim>\<open>ItemType\<close>, keys and values with constructors that have effects, and the C++11 variants of \<^verbatim>\<open>Queue.h\<close> and
      \<^verbatim>\<open>Hashtable.h\<close> (moves instead of copies); the statistics of the hash table; \<^verbatim>\<open>InsertItemsAt\<close> of a C array does not compile (it passes a pointer as a number).  The comparison
      object of \<^verbatim>\<open>Sort\<close> is a parameter, an order by a key in the properties.
    \<^item> Of the C++ \<^verbatim>\<open>Message\<close>: text output; \<^verbatim>\<open>FindFlat\<close>, which hands out a reference to an object of the array (\<^verbatim>\<open>FindData\<close>
      gives what its pointer points to);
      the object pools and references that users keep to arrays or sub-Messages (a sub-Message is a value
      here: changes through a reference that the user kept are not seen); flattened objects of user types
      other than byte buffers in a field (\<open>AddFlatAux\<close> takes the bytes of the object; the program alone can add
      such an object, the network cannot); the shortcut of \<^verbatim>\<open>operator ==\<close> for an object and itself, which matters
      for NaNs only.
    \<^item> Of the query filters: the setters, and factories other than the default one.  \<^verbatim>\<open>StringMatcher\<close> and the vendored
      regular expressions behind it: what becomes of the match of a wildcard or regular expression pattern is the
      parameter \<open>h_match\<close>, whose outcome may be a fault or a loop that does not end; the property that the
      filters answer excludes these two operators (\<open>no_patterns\<close>).
    \<^item> The server (\<^verbatim>\<open>reflector\<close>), threads and data I/O, which are calls of the operating system around the parts above.
    \<^item> The graphical client in \<^verbatim>\<open>hishare\<close>: event handlers on the Haiku API, which is not in the repository.
    \<^item> zlib, the regular expression library and other vendored code.
\<close>

end
